(* ===== verification/V8_Prelude.thy ===== *)
theory V8_Prelude
  imports Main "HOL-Library.Word"
begin

text \<open>
  Shared vocabulary of the development: the machine types of the engine's lexical
  front end, the fact collections the component proofs draw on, the range check
  of \<^verbatim>\<open>src/base/bounds.h\<close>, and the generic lemmas on lists and words that more
  than one component needs.
\<close>

unbundle bit_operations_syntax

section \<open>Machine types\<close>

text \<open>
  \<^verbatim>\<open>uint8_t\<close>/\<^verbatim>\<open>byte\<close>, \<^verbatim>\<open>base::uc16\<close> and \<^verbatim>\<open>base::uc32\<close> (\<^verbatim>\<open>src/base/strings.h\<close>) keep
  their width. Source positions (\<^verbatim>\<open>int\<close>) are unbounded integers: a source text has
  at most \<open>String::kMaxLength < 2\<^sup>3\<^sup>0\<close> code units, so no position overflows.
\<close>

type_synonym byte = "8 word"
type_synonym uc16 = "16 word"
type_synonym uc32 = "32 word"

text \<open>The bytes of a C string literal, without the terminating zero.\<close>

definition ascii :: "string \<Rightarrow> byte list" where
  "ascii s = map of_char s"

lemma length_ascii [simp]: "length (ascii s) = length s"
  by (simp add: ascii_def)

lemma ascii_simps [simp]: "ascii [] = []" "ascii (c # s) = of_char c # ascii s"
  by (simp_all add: ascii_def)

section \<open>Fact collections\<close>

named_theorems lex_ops \<open>a lexical step may be followed by this operation\<close>
named_theorems lex_results \<open>the state a function returns is reached by a lexical step\<close>
named_theorems scan_measure \<open>reading a character leaves less unread input\<close>
named_theorems content_results \<open>the token a function returns is a content token\<close>

section \<open>Range checks (src/base/bounds.h)\<close>

text \<open>
  \<^verbatim>\<open>IsInRange\<close> compares in the unsigned type of the value with one branch: the
  differences wrap around.
\<close>

definition IsInRange :: "'a::len word \<Rightarrow> 'a word \<Rightarrow> 'a word \<Rightarrow> bool" where
  "IsInRange value lower_limit higher_limit \<longleftrightarrow>
     value - lower_limit \<le> higher_limit - lower_limit"

definition IsInBounds :: "'a::len word \<Rightarrow> 'a word \<Rightarrow> 'a word \<Rightarrow> bool" where
  "IsInBounds index len limit \<longleftrightarrow> len \<le> limit \<and> index \<le> limit - len"

text \<open>\<^verbatim>\<open>ClampToBounds\<close> returns its verdict and the clamped length.\<close>

definition ClampToBounds ::
    "'a::len word \<Rightarrow> 'a word \<Rightarrow> 'a word \<Rightarrow> bool \<times> 'a word" where
  "ClampToBounds index len limit =
     (if index > limit then (False, 0)
      else let avail = limit - index; oob = len > avail
           in (\<not> oob, if oob then avail else len))"

lemma IsInRange_iff:
  fixes v lo hi :: "'a::len word"
  assumes "lo \<le> hi"
  shows "IsInRange v lo hi \<longleftrightarrow> lo \<le> v \<and> v \<le> hi"
proof (cases "lo \<le> v")
  case True
  then have "unat (v - lo) = unat v - unat lo" "unat (hi - lo) = unat hi - unat lo"
    and "unat lo \<le> unat v" "unat lo \<le> unat hi"
    using assms by (auto simp: word_le_nat_alt unat_sub_if')
  then show ?thesis
    by (auto simp: IsInRange_def word_le_nat_alt)
next
  case False
  then have *: "unat v < unat lo" "unat lo \<le> unat hi"
    using assms by (auto simp: word_le_nat_alt)
  then have "unat (hi - lo) = unat hi - unat lo"
    "unat (v - lo) = unat v + 2 ^ LENGTH('a) - unat lo"
    by (simp_all add: unat_sub_if')
  moreover have "unat hi < 2 ^ LENGTH('a)"
    by (rule unsigned_less)
  ultimately have "unat (hi - lo) < unat (v - lo)"
    using * by linarith
  then show ?thesis
    using False by (auto simp: IsInRange_def word_le_nat_alt)
qed

lemma IsInBounds_iff:
  "IsInBounds index len limit \<longleftrightarrow> unat index + unat len \<le> unat limit"
  by (auto simp: IsInBounds_def word_le_nat_alt unat_sub_if')

lemma ClampToBounds_spec:
  "ClampToBounds index len limit = (ok, len') \<Longrightarrow>
     unat len' = min (unat len) (unat limit - unat index) \<and>
     (ok \<longleftrightarrow> unat index \<le> unat limit \<and> len' = len)"
  by (auto simp: ClampToBounds_def Let_def word_le_nat_alt word_less_nat_alt
      unat_sub_if' word_unat_eq_iff split: if_splits)

section \<open>Words\<close>

text \<open>A property of all words below a bound is a finite conjunction.\<close>

lemma word_enum_less:
  fixes c :: "'a::len word"
  assumes "list_all P (map word_of_nat [0..<n])" and "unat c < n"
  shows "P c"
proof -
  from assms(1) have "\<forall>i < n. P (word_of_nat i)"
    by (auto simp: list_all_iff)
  with assms(2) have "P (word_of_nat (unat c))"
    by blast
  then show ?thesis by simp
qed

lemma unat_and_mask_numeral:
  "unat (w AND mask n) = unat w mod 2 ^ n"
  by (simp only: take_bit_eq_mask [symmetric] unsigned_take_bit_eq) (simp add: take_bit_eq_mod)

lemma mask_numerals:
  "(0x3FF :: uc32) = mask 10" "(0x3F :: uc32) = mask 6" "(0x3F :: byte) = mask 6"
  by (simp_all add: mask_eq_exp_minus_1)

lemma and_shifted_mask:
  "(c :: 'a::len word) AND push_bit n (mask m) = push_bit n (take_bit m (drop_bit n c))"
  by (rule bit_word_eqI) (auto simp: bit_simps)

lemma unat_drop: "unat (drop_bit n w) = unat w div 2 ^ n"
  by (simp only: unat_drop_bit_eq) (simp add: drop_bit_eq_div)

lemma unat_take: "unat (take_bit n w) = unat w mod 2 ^ n"
  by (simp add: unsigned_take_bit_eq take_bit_eq_mod[of n "unat w"] del: take_bit_eq_mod)

lemma unat_push: "unat (push_bit n (w :: 'a::len word)) = unat w * 2 ^ n mod 2 ^ LENGTH('a)"
  by (simp add: unsigned_push_bit_eq push_bit_eq_mult[of n "unat w"] take_bit_eq_mod[of "LENGTH('a)" "_::nat"])

lemma unat_ucast: "unat (ucast (w :: 'a::len word) :: 'b::len word) = unat w mod 2 ^ LENGTH('b)"
  by (simp add: unsigned_ucast_eq take_bit_eq_mod[of "LENGTH('b)" "_::nat"])

lemma push_or_add:
  "push_bit n a OR take_bit n b = push_bit n a + take_bit n (b :: 'a::len word)"
  by (rule disjunctive_add [symmetric]) (auto simp: bit_simps)

lemma byte_enum: "list_all P (map word_of_nat [0..<256]) \<Longrightarrow> P (b :: byte)"
proof (erule word_enum_less)
  have "unat b < 2 ^ LENGTH(8)" by (rule unsigned_less)
  then show "unat b < 256" by simp
qed

text \<open>Widening a code unit keeps its value.\<close>

lemma unat_byte_less: "unat (b :: byte) < 256"
  using unsigned_less [of b] by simp

lemma unat_uc16_less: "unat (u :: uc16) < 65536"
  using unsigned_less [of u] by simp

lemma unat_widen:
  "unat (ucast (b :: byte) :: uc32) = unat b" "unat (ucast (b :: byte) :: uc16) = unat b"
  "unat (ucast (u :: uc16) :: uc32) = unat u"
  using unat_byte_less [of b] unat_uc16_less [of u] by (simp_all add: unat_ucast)

end
