(* ===== verification/Token.thy ===== *)
theory Token
  imports V8_Prelude
begin

text \<open>
  The token type of the scanner (\<^verbatim>\<open>src/parsing/token.h\<close>, \<^verbatim>\<open>src/parsing/token.cc\<close>).
  \<^verbatim>\<open>TOKEN_LIST\<close> calls the macro \<^verbatim>\<open>K\<close> for keywords, \<^verbatim>\<open>T\<close> for the other tokens, and
  expands \<^verbatim>\<open>BINARY_OP_TOKEN_LIST\<close> twice, once for the operators and once for the
  compound assignments. The datatype keeps these four groups; abbreviations give
  every token its name in the source. The tables \<^verbatim>\<open>name_\<close>, \<^verbatim>\<open>string_\<close>,
  \<^verbatim>\<open>string_length_\<close>, \<^verbatim>\<open>precedence_\<close> and \<^verbatim>\<open>token_flags\<close> are computed from
  \<open>TOKEN_LIST\<close> the way the macros compute them, and the enumeration value of a
  token is its position in that list.
\<close>

section \<open>Tokens\<close>

datatype (plugins only: code) binop =
  Op_NULLISH
| Op_OR
| Op_AND
| Op_BIT_OR
| Op_BIT_XOR
| Op_BIT_AND
| Op_SHL
| Op_SAR
| Op_SHR
| Op_MUL
| Op_DIV
| Op_MOD
| Op_EXP
| Op_ADD
| Op_SUB

datatype (plugins only: code) keyword =
  Kw_DELETE
| Kw_TYPEOF
| Kw_VOID
| Kw_INSTANCEOF
| Kw_IN
| Kw_BREAK
| Kw_CASE
| Kw_CATCH
| Kw_CONTINUE
| Kw_DEBUGGER
| Kw_DEFAULT
| Kw_DO
| Kw_ELSE
| Kw_FINALLY
| Kw_FOR
| Kw_FUNCTION
| Kw_IF
| Kw_NEW
| Kw_RETURN
| Kw_SWITCH
| Kw_THROW
| Kw_TRY
| Kw_VAR
| Kw_WHILE
| Kw_WITH
| Kw_THIS
| Kw_NULL_LITERAL
| Kw_TRUE_LITERAL
| Kw_FALSE_LITERAL
| Kw_SUPER
| Kw_GET
| Kw_SET
| Kw_ASYNC
| Kw_AWAIT
| Kw_YIELD
| Kw_LET
| Kw_STATIC
| Kw_ENUM
| Kw_CLASS
| Kw_CONST
| Kw_EXPORT
| Kw_EXTENDS
| Kw_IMPORT

datatype (plugins only: code) token =
  Token_TEMPLATE_SPAN
| Token_TEMPLATE_TAIL
| Token_PERIOD
| Token_LBRACK
| Token_QUESTION_PERIOD
| Token_LPAREN
| Token_RPAREN
| Token_RBRACK
| Token_LBRACE
| Token_COLON
| Token_ELLIPSIS
| Token_CONDITIONAL
| Token_SEMICOLON
| Token_RBRACE
| Token_EOS
| Token_ARROW
| Token_INIT
| Token_ASSIGN
| Token_COMMA
| Token_NOT
| Token_BIT_NOT
| Token_INC
| Token_DEC
| Token_EQ
| Token_EQ_STRICT
| Token_NE
| Token_NE_STRICT
| Token_LT
| Token_GT
| Token_LTE
| Token_GTE
| Token_NUMBER
| Token_SMI
| Token_BIGINT
| Token_STRING
| Token_IDENTIFIER
| Token_FUTURE_STRICT_RESERVED_WORD
| Token_ESCAPED_STRICT_RESERVED_WORD
| Token_PRIVATE_NAME
| Token_ILLEGAL
| Token_ESCAPED_KEYWORD
| Token_WHITESPACE
| Token_UNINITIALIZED
| Token_REGEXP_LITERAL
| Token_Assign binop
| Token_Bin binop
| Token_Keyword keyword

text \<open>The names the source uses for the members of the three groups.\<close>

abbreviation "Token_ASSIGN_NULLISH \<equiv> Token_Assign Op_NULLISH"
abbreviation "Token_ASSIGN_OR \<equiv> Token_Assign Op_OR"
abbreviation "Token_ASSIGN_AND \<equiv> Token_Assign Op_AND"
abbreviation "Token_ASSIGN_BIT_OR \<equiv> Token_Assign Op_BIT_OR"
abbreviation "Token_ASSIGN_BIT_XOR \<equiv> Token_Assign Op_BIT_XOR"
abbreviation "Token_ASSIGN_BIT_AND \<equiv> Token_Assign Op_BIT_AND"
abbreviation "Token_ASSIGN_SHL \<equiv> Token_Assign Op_SHL"
abbreviation "Token_ASSIGN_SAR \<equiv> Token_Assign Op_SAR"
abbreviation "Token_ASSIGN_SHR \<equiv> Token_Assign Op_SHR"
abbreviation "Token_ASSIGN_MUL \<equiv> Token_Assign Op_MUL"
abbreviation "Token_ASSIGN_DIV \<equiv> Token_Assign Op_DIV"
abbreviation "Token_ASSIGN_MOD \<equiv> Token_Assign Op_MOD"
abbreviation "Token_ASSIGN_EXP \<equiv> Token_Assign Op_EXP"
abbreviation "Token_ASSIGN_ADD \<equiv> Token_Assign Op_ADD"
abbreviation "Token_ASSIGN_SUB \<equiv> Token_Assign Op_SUB"
abbreviation "Token_NULLISH \<equiv> Token_Bin Op_NULLISH"
abbreviation "Token_OR \<equiv> Token_Bin Op_OR"
abbreviation "Token_AND \<equiv> Token_Bin Op_AND"
abbreviation "Token_BIT_OR \<equiv> Token_Bin Op_BIT_OR"
abbreviation "Token_BIT_XOR \<equiv> Token_Bin Op_BIT_XOR"
abbreviation "Token_BIT_AND \<equiv> Token_Bin Op_BIT_AND"
abbreviation "Token_SHL \<equiv> Token_Bin Op_SHL"
abbreviation "Token_SAR \<equiv> Token_Bin Op_SAR"
abbreviation "Token_SHR \<equiv> Token_Bin Op_SHR"
abbreviation "Token_MUL \<equiv> Token_Bin Op_MUL"
abbreviation "Token_DIV \<equiv> Token_Bin Op_DIV"
abbreviation "Token_MOD \<equiv> Token_Bin Op_MOD"
abbreviation "Token_EXP \<equiv> Token_Bin Op_EXP"
abbreviation "Token_ADD \<equiv> Token_Bin Op_ADD"
abbreviation "Token_SUB \<equiv> Token_Bin Op_SUB"
abbreviation "Token_DELETE \<equiv> Token_Keyword Kw_DELETE"
abbreviation "Token_TYPEOF \<equiv> Token_Keyword Kw_TYPEOF"
abbreviation "Token_VOID \<equiv> Token_Keyword Kw_VOID"
abbreviation "Token_INSTANCEOF \<equiv> Token_Keyword Kw_INSTANCEOF"
abbreviation "Token_IN \<equiv> Token_Keyword Kw_IN"
abbreviation "Token_BREAK \<equiv> Token_Keyword Kw_BREAK"
abbreviation "Token_CASE \<equiv> Token_Keyword Kw_CASE"
abbreviation "Token_CATCH \<equiv> Token_Keyword Kw_CATCH"
abbreviation "Token_CONTINUE \<equiv> Token_Keyword Kw_CONTINUE"
abbreviation "Token_DEBUGGER \<equiv> Token_Keyword Kw_DEBUGGER"
abbreviation "Token_DEFAULT \<equiv> Token_Keyword Kw_DEFAULT"
abbreviation "Token_DO \<equiv> Token_Keyword Kw_DO"
abbreviation "Token_ELSE \<equiv> Token_Keyword Kw_ELSE"
abbreviation "Token_FINALLY \<equiv> Token_Keyword Kw_FINALLY"
abbreviation "Token_FOR \<equiv> Token_Keyword Kw_FOR"
abbreviation "Token_FUNCTION \<equiv> Token_Keyword Kw_FUNCTION"
abbreviation "Token_IF \<equiv> Token_Keyword Kw_IF"
abbreviation "Token_NEW \<equiv> Token_Keyword Kw_NEW"
abbreviation "Token_RETURN \<equiv> Token_Keyword Kw_RETURN"
abbreviation "Token_SWITCH \<equiv> Token_Keyword Kw_SWITCH"
abbreviation "Token_THROW \<equiv> Token_Keyword Kw_THROW"
abbreviation "Token_TRY \<equiv> Token_Keyword Kw_TRY"
abbreviation "Token_VAR \<equiv> Token_Keyword Kw_VAR"
abbreviation "Token_WHILE \<equiv> Token_Keyword Kw_WHILE"
abbreviation "Token_WITH \<equiv> Token_Keyword Kw_WITH"
abbreviation "Token_THIS \<equiv> Token_Keyword Kw_THIS"
abbreviation "Token_NULL_LITERAL \<equiv> Token_Keyword Kw_NULL_LITERAL"
abbreviation "Token_TRUE_LITERAL \<equiv> Token_Keyword Kw_TRUE_LITERAL"
abbreviation "Token_FALSE_LITERAL \<equiv> Token_Keyword Kw_FALSE_LITERAL"
abbreviation "Token_SUPER \<equiv> Token_Keyword Kw_SUPER"
abbreviation "Token_GET \<equiv> Token_Keyword Kw_GET"
abbreviation "Token_SET \<equiv> Token_Keyword Kw_SET"
abbreviation "Token_ASYNC \<equiv> Token_Keyword Kw_ASYNC"
abbreviation "Token_AWAIT \<equiv> Token_Keyword Kw_AWAIT"
abbreviation "Token_YIELD \<equiv> Token_Keyword Kw_YIELD"
abbreviation "Token_LET \<equiv> Token_Keyword Kw_LET"
abbreviation "Token_STATIC \<equiv> Token_Keyword Kw_STATIC"
abbreviation "Token_ENUM \<equiv> Token_Keyword Kw_ENUM"
abbreviation "Token_CLASS \<equiv> Token_Keyword Kw_CLASS"
abbreviation "Token_CONST \<equiv> Token_Keyword Kw_CONST"
abbreviation "Token_EXPORT \<equiv> Token_Keyword Kw_EXPORT"
abbreviation "Token_EXTENDS \<equiv> Token_Keyword Kw_EXTENDS"
abbreviation "Token_IMPORT \<equiv> Token_Keyword Kw_IMPORT"

text \<open>
  One entry of \<^verbatim>\<open>TOKEN_LIST\<close>: the token, whether it comes from the macro \<^verbatim>\<open>K\<close>, its
  C++ name, its spelling (\<^verbatim>\<open>nullptr\<close> is \<open>None\<close>) and its precedence.
\<close>

type_synonym token_entry = "token \<times> bool \<times> string \<times> string option \<times> nat"

text \<open>\<^verbatim>\<open>BINARY_OP_TOKEN_LIST\<close>: operator, name, spelling, precedence.\<close>

definition BINARY_OP_TOKEN_LIST :: "(binop \<times> string \<times> string \<times> nat) list" where
  "BINARY_OP_TOKEN_LIST =
    [(Op_NULLISH, ''NULLISH'', ''??'', 3),
     (Op_OR, ''OR'', ''||'', 4),
     (Op_AND, ''AND'', ''&&'', 5),
     (Op_BIT_OR, ''BIT_OR'', ''|'', 6),
     (Op_BIT_XOR, ''BIT_XOR'', ''^'', 7),
     (Op_BIT_AND, ''BIT_AND'', ''&'', 8),
     (Op_SHL, ''SHL'', ''<<'', 11),
     (Op_SAR, ''SAR'', ''>>'', 11),
     (Op_SHR, ''SHR'', ''>>>'', 11),
     (Op_MUL, ''MUL'', ''*'', 13),
     (Op_DIV, ''DIV'', ''/'', 13),
     (Op_MOD, ''MOD'', ''%'', 13),
     (Op_EXP, ''EXP'', ''**'', 14),
     (Op_ADD, ''ADD'', ''+'', 12),
     (Op_SUB, ''SUB'', ''-'', 12)]"

definition EXPAND_BINOP_ASSIGN_TOKEN :: "binop \<times> string \<times> string \<times> nat \<Rightarrow> token_entry" where
  "EXPAND_BINOP_ASSIGN_TOKEN = (\<lambda>(b, name, str, precedence).
     (Token_Assign b, False, ''ASSIGN_'' @ name, Some (str @ ''=''), 2))"

definition EXPAND_BINOP_TOKEN :: "binop \<times> string \<times> string \<times> nat \<Rightarrow> token_entry" where
  "EXPAND_BINOP_TOKEN = (\<lambda>(b, name, str, precedence).
     (Token_Bin b, False, name, Some str, precedence))"

definition TOKEN_LIST :: "token_entry list" where
  "TOKEN_LIST =
    [(Token_TEMPLATE_SPAN, False, ''TEMPLATE_SPAN'', None, 0),
     (Token_TEMPLATE_TAIL, False, ''TEMPLATE_TAIL'', None, 0),
     (Token_PERIOD, False, ''PERIOD'', Some ''.'', 0),
     (Token_LBRACK, False, ''LBRACK'', Some ''['', 0),
     (Token_QUESTION_PERIOD, False, ''QUESTION_PERIOD'', Some ''?.'', 0),
     (Token_LPAREN, False, ''LPAREN'', Some ''('', 0),
     (Token_RPAREN, False, ''RPAREN'', Some '')'', 0),
     (Token_RBRACK, False, ''RBRACK'', Some '']'', 0),
     (Token_LBRACE, False, ''LBRACE'', Some ''{'', 0),
     (Token_COLON, False, ''COLON'', Some '':'', 0),
     (Token_ELLIPSIS, False, ''ELLIPSIS'', Some ''...'', 0),
     (Token_CONDITIONAL, False, ''CONDITIONAL'', Some ''?'', 3),
     (Token_SEMICOLON, False, ''SEMICOLON'', Some '';'', 0),
     (Token_RBRACE, False, ''RBRACE'', Some ''}'', 0),
     (Token_EOS, False, ''EOS'', Some ''EOS'', 0),
     (Token_ARROW, False, ''ARROW'', Some ''=>'', 0),
     (Token_INIT, False, ''INIT'', Some ''=init'', 2),
     (Token_ASSIGN, False, ''ASSIGN'', Some ''='', 2)] @
    map EXPAND_BINOP_ASSIGN_TOKEN BINARY_OP_TOKEN_LIST @
    [(Token_COMMA, False, ''COMMA'', Some '','', 1)] @
    map EXPAND_BINOP_TOKEN BINARY_OP_TOKEN_LIST @
    [(Token_NOT, False, ''NOT'', Some ''!'', 0),
     (Token_BIT_NOT, False, ''BIT_NOT'', Some ''~'', 0),
     (Token_DELETE, True, ''DELETE'', Some ''delete'', 0),
     (Token_TYPEOF, True, ''TYPEOF'', Some ''typeof'', 0),
     (Token_VOID, True, ''VOID'', Some ''void'', 0),
     (Token_INC, False, ''INC'', Some ''++'', 0),
     (Token_DEC, False, ''DEC'', Some ''--'', 0),
     (Token_EQ, False, ''EQ'', Some ''=='', 9),
     (Token_EQ_STRICT, False, ''EQ_STRICT'', Some ''==='', 9),
     (Token_NE, False, ''NE'', Some ''!='', 9),
     (Token_NE_STRICT, False, ''NE_STRICT'', Some ''!=='', 9),
     (Token_LT, False, ''LT'', Some ''<'', 10),
     (Token_GT, False, ''GT'', Some ''>'', 10),
     (Token_LTE, False, ''LTE'', Some ''<='', 10),
     (Token_GTE, False, ''GTE'', Some ''>='', 10),
     (Token_INSTANCEOF, True, ''INSTANCEOF'', Some ''instanceof'', 10),
     (Token_IN, True, ''IN'', Some ''in'', 10),
     (Token_BREAK, True, ''BREAK'', Some ''break'', 0),
     (Token_CASE, True, ''CASE'', Some ''case'', 0),
     (Token_CATCH, True, ''CATCH'', Some ''catch'', 0),
     (Token_CONTINUE, True, ''CONTINUE'', Some ''continue'', 0),
     (Token_DEBUGGER, True, ''DEBUGGER'', Some ''debugger'', 0),
     (Token_DEFAULT, True, ''DEFAULT'', Some ''default'', 0),
     (Token_DO, True, ''DO'', Some ''do'', 0),
     (Token_ELSE, True, ''ELSE'', Some ''else'', 0),
     (Token_FINALLY, True, ''FINALLY'', Some ''finally'', 0),
     (Token_FOR, True, ''FOR'', Some ''for'', 0),
     (Token_FUNCTION, True, ''FUNCTION'', Some ''function'', 0),
     (Token_IF, True, ''IF'', Some ''if'', 0),
     (Token_NEW, True, ''NEW'', Some ''new'', 0),
     (Token_RETURN, True, ''RETURN'', Some ''return'', 0),
     (Token_SWITCH, True, ''SWITCH'', Some ''switch'', 0),
     (Token_THROW, True, ''THROW'', Some ''throw'', 0),
     (Token_TRY, True, ''TRY'', Some ''try'', 0),
     (Token_VAR, True, ''VAR'', Some ''var'', 0),
     (Token_WHILE, True, ''WHILE'', Some ''while'', 0),
     (Token_WITH, True, ''WITH'', Some ''with'', 0),
     (Token_THIS, True, ''THIS'', Some ''this'', 0),
     (Token_NULL_LITERAL, True, ''NULL_LITERAL'', Some ''null'', 0),
     (Token_TRUE_LITERAL, True, ''TRUE_LITERAL'', Some ''true'', 0),
     (Token_FALSE_LITERAL, True, ''FALSE_LITERAL'', Some ''false'', 0),
     (Token_NUMBER, False, ''NUMBER'', None, 0),
     (Token_SMI, False, ''SMI'', None, 0),
     (Token_BIGINT, False, ''BIGINT'', None, 0),
     (Token_STRING, False, ''STRING'', None, 0),
     (Token_SUPER, True, ''SUPER'', Some ''super'', 0),
     (Token_IDENTIFIER, False, ''IDENTIFIER'', None, 0),
     (Token_GET, True, ''GET'', Some ''get'', 0),
     (Token_SET, True, ''SET'', Some ''set'', 0),
     (Token_ASYNC, True, ''ASYNC'', Some ''async'', 0),
     (Token_AWAIT, True, ''AWAIT'', Some ''await'', 0),
     (Token_YIELD, True, ''YIELD'', Some ''yield'', 0),
     (Token_LET, True, ''LET'', Some ''let'', 0),
     (Token_STATIC, True, ''STATIC'', Some ''static'', 0),
     (Token_FUTURE_STRICT_RESERVED_WORD, False, ''FUTURE_STRICT_RESERVED_WORD'', None, 0),
     (Token_ESCAPED_STRICT_RESERVED_WORD, False, ''ESCAPED_STRICT_RESERVED_WORD'', None, 0),
     (Token_ENUM, True, ''ENUM'', Some ''enum'', 0),
     (Token_CLASS, True, ''CLASS'', Some ''class'', 0),
     (Token_CONST, True, ''CONST'', Some ''const'', 0),
     (Token_EXPORT, True, ''EXPORT'', Some ''export'', 0),
     (Token_EXTENDS, True, ''EXTENDS'', Some ''extends'', 0),
     (Token_IMPORT, True, ''IMPORT'', Some ''import'', 0),
     (Token_PRIVATE_NAME, False, ''PRIVATE_NAME'', None, 0),
     (Token_ILLEGAL, False, ''ILLEGAL'', Some ''ILLEGAL'', 0),
     (Token_ESCAPED_KEYWORD, False, ''ESCAPED_KEYWORD'', None, 0),
     (Token_WHITESPACE, False, ''WHITESPACE'', None, 0),
     (Token_UNINITIALIZED, False, ''UNINITIALIZED'', None, 0),
     (Token_REGEXP_LITERAL, False, ''REGEXP_LITERAL'', None, 0)]"

text \<open>
  The enumeration value, \<^verbatim>\<open>enum Value : uint8_t\<close>. It is written out per token so
  that comparisons compute; \<open>token_value_position\<close> below shows that it is the
  position in \<open>TOKEN_LIST\<close>.
\<close>

primrec binop_index :: "binop \<Rightarrow> byte" where
  "binop_index Op_NULLISH = 0"
| "binop_index Op_OR = 1"
| "binop_index Op_AND = 2"
| "binop_index Op_BIT_OR = 3"
| "binop_index Op_BIT_XOR = 4"
| "binop_index Op_BIT_AND = 5"
| "binop_index Op_SHL = 6"
| "binop_index Op_SAR = 7"
| "binop_index Op_SHR = 8"
| "binop_index Op_MUL = 9"
| "binop_index Op_DIV = 10"
| "binop_index Op_MOD = 11"
| "binop_index Op_EXP = 12"
| "binop_index Op_ADD = 13"
| "binop_index Op_SUB = 14"

primrec keyword_value :: "keyword \<Rightarrow> byte" where
  "keyword_value Kw_DELETE = 51"
| "keyword_value Kw_TYPEOF = 52"
| "keyword_value Kw_VOID = 53"
| "keyword_value Kw_INSTANCEOF = 64"
| "keyword_value Kw_IN = 65"
| "keyword_value Kw_BREAK = 66"
| "keyword_value Kw_CASE = 67"
| "keyword_value Kw_CATCH = 68"
| "keyword_value Kw_CONTINUE = 69"
| "keyword_value Kw_DEBUGGER = 70"
| "keyword_value Kw_DEFAULT = 71"
| "keyword_value Kw_DO = 72"
| "keyword_value Kw_ELSE = 73"
| "keyword_value Kw_FINALLY = 74"
| "keyword_value Kw_FOR = 75"
| "keyword_value Kw_FUNCTION = 76"
| "keyword_value Kw_IF = 77"
| "keyword_value Kw_NEW = 78"
| "keyword_value Kw_RETURN = 79"
| "keyword_value Kw_SWITCH = 80"
| "keyword_value Kw_THROW = 81"
| "keyword_value Kw_TRY = 82"
| "keyword_value Kw_VAR = 83"
| "keyword_value Kw_WHILE = 84"
| "keyword_value Kw_WITH = 85"
| "keyword_value Kw_THIS = 86"
| "keyword_value Kw_NULL_LITERAL = 87"
| "keyword_value Kw_TRUE_LITERAL = 88"
| "keyword_value Kw_FALSE_LITERAL = 89"
| "keyword_value Kw_SUPER = 94"
| "keyword_value Kw_GET = 96"
| "keyword_value Kw_SET = 97"
| "keyword_value Kw_ASYNC = 98"
| "keyword_value Kw_AWAIT = 99"
| "keyword_value Kw_YIELD = 100"
| "keyword_value Kw_LET = 101"
| "keyword_value Kw_STATIC = 102"
| "keyword_value Kw_ENUM = 105"
| "keyword_value Kw_CLASS = 106"
| "keyword_value Kw_CONST = 107"
| "keyword_value Kw_EXPORT = 108"
| "keyword_value Kw_EXTENDS = 109"
| "keyword_value Kw_IMPORT = 110"

primrec token_value :: "token \<Rightarrow> byte" where
  "token_value Token_TEMPLATE_SPAN = 0"
| "token_value Token_TEMPLATE_TAIL = 1"
| "token_value Token_PERIOD = 2"
| "token_value Token_LBRACK = 3"
| "token_value Token_QUESTION_PERIOD = 4"
| "token_value Token_LPAREN = 5"
| "token_value Token_RPAREN = 6"
| "token_value Token_RBRACK = 7"
| "token_value Token_LBRACE = 8"
| "token_value Token_COLON = 9"
| "token_value Token_ELLIPSIS = 10"
| "token_value Token_CONDITIONAL = 11"
| "token_value Token_SEMICOLON = 12"
| "token_value Token_RBRACE = 13"
| "token_value Token_EOS = 14"
| "token_value Token_ARROW = 15"
| "token_value Token_INIT = 16"
| "token_value Token_ASSIGN = 17"
| "token_value Token_COMMA = 33"
| "token_value Token_NOT = 49"
| "token_value Token_BIT_NOT = 50"
| "token_value Token_INC = 54"
| "token_value Token_DEC = 55"
| "token_value Token_EQ = 56"
| "token_value Token_EQ_STRICT = 57"
| "token_value Token_NE = 58"
| "token_value Token_NE_STRICT = 59"
| "token_value Token_LT = 60"
| "token_value Token_GT = 61"
| "token_value Token_LTE = 62"
| "token_value Token_GTE = 63"
| "token_value Token_NUMBER = 90"
| "token_value Token_SMI = 91"
| "token_value Token_BIGINT = 92"
| "token_value Token_STRING = 93"
| "token_value Token_IDENTIFIER = 95"
| "token_value Token_FUTURE_STRICT_RESERVED_WORD = 103"
| "token_value Token_ESCAPED_STRICT_RESERVED_WORD = 104"
| "token_value Token_PRIVATE_NAME = 111"
| "token_value Token_ILLEGAL = 112"
| "token_value Token_ESCAPED_KEYWORD = 113"
| "token_value Token_WHITESPACE = 114"
| "token_value Token_UNINITIALIZED = 115"
| "token_value Token_REGEXP_LITERAL = 116"
| "token_value (Token_Assign b) = 18 + binop_index b"
| "token_value (Token_Bin b) = 34 + binop_index b"
| "token_value (Token_Keyword k) = keyword_value k"
section \<open>Tables and predicates\<close>

definition token_enum :: "token list" where
  "token_enum = map fst TOKEN_LIST"

definition token_entry :: "token \<Rightarrow> token_entry" where
  "token_entry t = TOKEN_LIST ! unat (token_value t)"

text \<open>\<^verbatim>\<open>Token::Name\<close>, \<^verbatim>\<open>String\<close>, \<^verbatim>\<open>StringLength\<close> and \<^verbatim>\<open>Precedence\<close> read the tables of
  \<^verbatim>\<open>token.cc\<close>; the macro \<^verbatim>\<open>T1\<close> gives \<^verbatim>\<open>IN\<close> precedence 0 when it is not accepted.\<close>

definition Token_Name :: "token \<Rightarrow> string" where
  "Token_Name t = (case token_entry t of (_, _, name, _, _) \<Rightarrow> name)"

definition Token_String :: "token \<Rightarrow> string option" where
  "Token_String t = (case token_entry t of (_, _, _, str, _) \<Rightarrow> str)"

definition StringLength :: "token \<Rightarrow> byte" where
  "StringLength t = (case Token_String t of None \<Rightarrow> 0 | Some s \<Rightarrow> of_nat (length s))"

definition Precedence :: "token \<Rightarrow> bool \<Rightarrow> nat" where
  "Precedence t accept_IN =
     (case token_entry t of (name, _, _, _, precedence) \<Rightarrow>
        if \<not> accept_IN \<and> name = Token_IN then 0 else precedence)"

definition TokenInRange :: "token \<Rightarrow> token \<Rightarrow> token \<Rightarrow> bool" where
  "TokenInRange t lo hi = IsInRange (token_value t) (token_value lo) (token_value hi)"

definition IsAnyIdentifier :: "token \<Rightarrow> bool" where
  "IsAnyIdentifier t = TokenInRange t Token_IDENTIFIER Token_ESCAPED_STRICT_RESERVED_WORD"

text \<open>
  \<^verbatim>\<open>token_flags\<close>: bit 0 is \<^verbatim>\<open>IsKeywordBits\<close>, bit 1 is \<^verbatim>\<open>IsPropertyNameBits\<close>
  (\<^verbatim>\<open>BitField8<bool, 0, 1>\<close> and its \<^verbatim>\<open>Next<bool, 1>\<close>).
\<close>

definition IsKeywordBits_encode :: "bool \<Rightarrow> byte" where
  "IsKeywordBits_encode b = push_bit 0 (of_bool b)"

definition IsPropertyNameBits_encode :: "bool \<Rightarrow> byte" where
  "IsPropertyNameBits_encode b = push_bit 1 (of_bool b)"

definition token_flags :: "token \<Rightarrow> byte" where
  "token_flags t =
     (case token_entry t of (a, is_keyword, _, _, _) \<Rightarrow>
        if is_keyword
        then IsKeywordBits_encode True OR IsPropertyNameBits_encode True
        else IsPropertyNameBits_encode (IsAnyIdentifier a \<or> a = Token_ESCAPED_KEYWORD))"

definition IsKeyword :: "token \<Rightarrow> bool" where
  "IsKeyword t = (drop_bit 0 (token_flags t AND 1) \<noteq> 0)"

definition IsPropertyName :: "token \<Rightarrow> bool" where
  "IsPropertyName t = (drop_bit 1 (token_flags t AND 2) \<noteq> 0)"

definition IsStrictReservedWord :: "token \<Rightarrow> bool" where
  "IsStrictReservedWord t = TokenInRange t Token_YIELD Token_ESCAPED_STRICT_RESERVED_WORD"

datatype LanguageMode = kSloppy | kStrict

abbreviation is_sloppy :: "LanguageMode \<Rightarrow> bool" where
  "is_sloppy language_mode \<equiv> language_mode = kSloppy"

definition IsValidIdentifier :: "token \<Rightarrow> LanguageMode \<Rightarrow> bool \<Rightarrow> bool \<Rightarrow> bool" where
  "IsValidIdentifier t language_mode is_generator disallow_await =
     (if TokenInRange t Token_IDENTIFIER Token_ASYNC then True
      else if t = Token_AWAIT then \<not> disallow_await
      else if t = Token_YIELD then \<not> is_generator \<and> is_sloppy language_mode
      else IsStrictReservedWord t \<and> is_sloppy language_mode)"

definition IsCallable :: "token \<Rightarrow> bool" where
  "IsCallable t = TokenInRange t Token_SUPER Token_ESCAPED_STRICT_RESERVED_WORD"

definition IsAutoSemicolon :: "token \<Rightarrow> bool" where
  "IsAutoSemicolon t = TokenInRange t Token_SEMICOLON Token_EOS"

definition IsLiteral :: "token \<Rightarrow> bool" where
  "IsLiteral t = TokenInRange t Token_NULL_LITERAL Token_STRING"

definition IsTemplate :: "token \<Rightarrow> bool" where
  "IsTemplate t = TokenInRange t Token_TEMPLATE_SPAN Token_TEMPLATE_TAIL"

definition IsMember :: "token \<Rightarrow> bool" where
  "IsMember t = TokenInRange t Token_TEMPLATE_SPAN Token_LBRACK"

definition IsProperty :: "token \<Rightarrow> bool" where
  "IsProperty t = TokenInRange t Token_PERIOD Token_LBRACK"

definition IsPropertyOrCall :: "token \<Rightarrow> bool" where
  "IsPropertyOrCall t = TokenInRange t Token_TEMPLATE_SPAN Token_LPAREN"

definition IsArrowOrAssignmentOp :: "token \<Rightarrow> bool" where
  "IsArrowOrAssignmentOp t = TokenInRange t Token_ARROW Token_ASSIGN_SUB"

definition IsAssignmentOp :: "token \<Rightarrow> bool" where
  "IsAssignmentOp t = TokenInRange t Token_INIT Token_ASSIGN_SUB"

definition IsLogicalAssignmentOp :: "token \<Rightarrow> bool" where
  "IsLogicalAssignmentOp t = TokenInRange t Token_ASSIGN_NULLISH Token_ASSIGN_AND"

definition IsBinaryOp :: "token \<Rightarrow> bool" where
  "IsBinaryOp t = TokenInRange t Token_COMMA Token_SUB"

definition IsCompareOp :: "token \<Rightarrow> bool" where
  "IsCompareOp t = TokenInRange t Token_EQ Token_IN"

definition IsOrderedRelationalCompareOp :: "token \<Rightarrow> bool" where
  "IsOrderedRelationalCompareOp t = TokenInRange t Token_LT Token_GTE"

definition IsEqualityOp :: "token \<Rightarrow> bool" where
  "IsEqualityOp t = TokenInRange t Token_EQ Token_EQ_STRICT"

text \<open>\<^verbatim>\<open>static_cast<Value>(op - ASSIGN_NULLISH + NULLISH)\<close>: arithmetic on the
  enumeration values, read back as a token.\<close>

definition token_of_value :: "byte \<Rightarrow> token" where
  "token_of_value v = token_enum ! unat v"

definition BinaryOpForAssignment :: "token \<Rightarrow> token" where
  "BinaryOpForAssignment t =
     token_of_value (token_value t - token_value Token_ASSIGN_NULLISH + token_value Token_NULLISH)"

definition IsBitOp :: "token \<Rightarrow> bool" where
  "IsBitOp t \<longleftrightarrow> TokenInRange t Token_BIT_OR Token_SHR \<or> t = Token_BIT_NOT"

definition IsUnaryOp :: "token \<Rightarrow> bool" where
  "IsUnaryOp t = TokenInRange t Token_ADD Token_VOID"

definition IsCountOp :: "token \<Rightarrow> bool" where
  "IsCountOp t = TokenInRange t Token_INC Token_DEC"

definition IsUnaryOrCountOp :: "token \<Rightarrow> bool" where
  "IsUnaryOrCountOp t = TokenInRange t Token_ADD Token_DEC"

definition IsShiftOp :: "token \<Rightarrow> bool" where
  "IsShiftOp t = TokenInRange t Token_SHL Token_SHR"

section \<open>The enumeration\<close>

lemmas token_list_unfold =
  TOKEN_LIST_def BINARY_OP_TOKEN_LIST_def EXPAND_BINOP_ASSIGN_TOKEN_def EXPAND_BINOP_TOKEN_def

lemma token_enum_complete: "t \<in> set token_enum"
proof (cases t)
  case (Token_Assign b)
  then show ?thesis
    by (cases b) (simp_all add: token_enum_def token_list_unfold)
next
  case (Token_Bin b)
  then show ?thesis
    by (cases b) (simp_all add: token_enum_def token_list_unfold)
next
  case (Token_Keyword k)
  then show ?thesis
    by (cases k) (simp_all add: token_enum_def token_list_unfold)
qed (simp_all add: token_enum_def token_list_unfold)

text \<open>A statement about all tokens is a finite conjunction, which the simplifier
  evaluates with the code equations.\<close>

lemma all_tokens: "(\<forall>t. P t) \<longleftrightarrow> list_all P token_enum"
  using token_enum_complete by (auto simp: list_all_iff)

lemma all_tokensI: "list_all P token_enum \<Longrightarrow> P t"
  using token_enum_complete by (auto simp: list_all_iff)

lemma token_value_position:
  "token_enum ! unat (token_value t) = t" "unat (token_value t) < 117"
proof -
  have "\<forall>t. token_enum ! unat (token_value t) = t \<and> unat (token_value t) < 117"
    unfolding all_tokens by code_simp
  then show "token_enum ! unat (token_value t) = t" "unat (token_value t) < 117"
    by blast+
qed

lemma token_of_value_token_value [simp]: "token_of_value (token_value t) = t"
  by (simp add: token_of_value_def token_value_position)

lemma token_value_eq_iff [simp]: "token_value t = token_value u \<longleftrightarrow> t = u"
  using token_of_value_token_value by metis

lemma TokenInRange_iff:
  "token_value lo \<le> token_value hi \<Longrightarrow>
   TokenInRange t lo hi \<longleftrightarrow> token_value lo \<le> token_value t \<and> token_value t \<le> token_value hi"
  by (simp add: TokenInRange_def IsInRange_iff)

section \<open>What the predicates and tables say\<close>

text \<open>The enumeration values follow the token list, and the arithmetic on
  them in \<^verbatim>\<open>BinaryOpForAssignment\<close> is right: the compound assignments are exactly the
  range from \<^verbatim>\<open>ASSIGN_NULLISH\<close> to \<^verbatim>\<open>ASSIGN_SUB\<close>, each is mapped to its own binary
  operator, and its spelling is that operator's spelling followed by an equals sign.\<close>

lemma BinaryOpForAssignment_correct:
  "token_enum ! unat (token_value t) = t \<and>
   (TokenInRange t Token_ASSIGN_NULLISH Token_ASSIGN_SUB \<longleftrightarrow> (\<exists>b. t = Token_Assign b)) \<and>
   BinaryOpForAssignment (Token_Assign b) = Token_Bin b \<and>
   IsBinaryOp (Token_Bin b) \<and>
   Token_String (Token_Assign b) = map_option (\<lambda>s. s @ ''='') (Token_String (Token_Bin b))"
proof -
  have "\<forall>t. TokenInRange t Token_ASSIGN_NULLISH Token_ASSIGN_SUB
      \<longleftrightarrow> (case t of Token_Assign _ \<Rightarrow> True | _ \<Rightarrow> False)"
    unfolding all_tokens by code_simp
  moreover have "\<forall>t. case t of
      Token_Assign b \<Rightarrow> BinaryOpForAssignment t = Token_Bin b \<and> IsBinaryOp (Token_Bin b) \<and>
        Token_String t = map_option (\<lambda>s. s @ ''='') (Token_String (Token_Bin b))
    | _ \<Rightarrow> True"
    unfolding all_tokens by code_simp
  ultimately show ?thesis
    by (auto simp: token_value_position split: token.splits dest: spec [where x = "Token_Assign b"])
qed

text \<open>The precedence table: an operator has a precedence exactly when it is a
  binary, compare or assignment operator or the conditional; refusing \<^verbatim>\<open>in\<close> changes
  the entry of \<^verbatim>\<open>IN\<close> only; and the three groups of binary, compare and assignment
  operators are disjoint.\<close>

lemma Precedence_table:
  "(0 < Precedence t True \<longleftrightarrow>
      IsBinaryOp t \<or> IsCompareOp t \<or> IsAssignmentOp t \<or> t = Token_CONDITIONAL) \<and>
   Precedence t False = (if t = Token_IN then 0 else Precedence t True) \<and>
   \<not> (IsBinaryOp t \<and> IsCompareOp t) \<and> \<not> (IsBinaryOp t \<and> IsAssignmentOp t) \<and>
   \<not> (IsCompareOp t \<and> IsAssignmentOp t)"
  by (rule all_tokensI [where t = t]) code_simp

text \<open>The flag table: the keyword bit is set for the tokens of the macro \<^verbatim>\<open>K\<close>
  and for no other, every keyword may be a property name, and the other property
  names are the identifier-like tokens and escaped keywords.\<close>

lemma token_flags_correct:
  "(IsKeyword t \<longleftrightarrow> (\<exists>k. t = Token_Keyword k)) \<and>
   (IsPropertyName t \<longleftrightarrow> IsKeyword t \<or> IsAnyIdentifier t \<or> t = Token_ESCAPED_KEYWORD) \<and>
   (IsKeyword t \<and> Token_String t = None \<longleftrightarrow> False)"
proof -
  have "\<forall>t. (IsKeyword t \<longleftrightarrow> (case t of Token_Keyword _ \<Rightarrow> True | _ \<Rightarrow> False)) \<and>
    (IsPropertyName t \<longleftrightarrow> IsKeyword t \<or> IsAnyIdentifier t \<or> t = Token_ESCAPED_KEYWORD) \<and>
    \<not> (IsKeyword t \<and> Token_String t = None)"
    unfolding all_tokens by code_simp
  then show ?thesis
    by (auto split: token.splits)
qed

text \<open>Identifier-like tokens, as the parser asks for them.\<close>

lemma IsValidIdentifier_sloppy:
  "IsValidIdentifier t kSloppy False False \<longleftrightarrow> IsAnyIdentifier t"
  by (rule all_tokensI [where t = t]) code_simp

lemma IsValidIdentifier_strict:
  "IsValidIdentifier t kStrict g d \<longleftrightarrow>
     t = Token_IDENTIFIER \<or> t = Token_GET \<or> t = Token_SET \<or> t = Token_ASYNC \<or>
     t = Token_AWAIT \<and> \<not> d"
proof -
  have "\<forall>t. \<forall>g \<in> {True, False}. \<forall>d \<in> {True, False}. IsValidIdentifier t kStrict g d \<longleftrightarrow>
     t = Token_IDENTIFIER \<or> t = Token_GET \<or> t = Token_SET \<or> t = Token_ASYNC \<or>
     t = Token_AWAIT \<and> \<not> d"
    unfolding all_tokens by code_simp
  then show ?thesis
    by (metis insert_iff)
qed

end
