(* ===== verification/Unicode.thy ===== *)
theory Unicode
  imports V8_Prelude
begin

text \<open>
  Code units, code points and character classes: \<^verbatim>\<open>unibrow::Utf16\<close> and
  \<^verbatim>\<open>unibrow::Utf8\<close> (\<^verbatim>\<open>src/strings/unicode.h\<close>, \<^verbatim>\<open>unicode-inl.h\<close>, \<^verbatim>\<open>unicode.cc\<close>), the
  UTF-8 automaton (\<^verbatim>\<open>src/third_party/utf8-decoder/utf8-decoder.h\<close>), the character
  predicates of the scanner (\<^verbatim>\<open>src/strings/char-predicates*\<close>) and \<^verbatim>\<open>base::HexValue\<close>
  (\<^verbatim>\<open>src/base/strings.h\<close>). The ICU library is a parameter.
\<close>

section \<open>UTF-16\<close>

definition IsLeadSurrogate :: "uc32 \<Rightarrow> bool" where
  "IsLeadSurrogate code \<longleftrightarrow> code AND 0x1ffc00 = 0xd800"

definition IsTrailSurrogate :: "uc32 \<Rightarrow> bool" where
  "IsTrailSurrogate code \<longleftrightarrow> code AND 0x1ffc00 = 0xdc00"

definition IsSurrogatePair :: "uc32 \<Rightarrow> uc32 \<Rightarrow> bool" where
  "IsSurrogatePair lead trail \<longleftrightarrow> IsLeadSurrogate lead \<and> IsTrailSurrogate trail"

definition CombineSurrogatePair :: "uc32 \<Rightarrow> uc32 \<Rightarrow> uc32" where
  "CombineSurrogatePair lead trail =
     0x10000 + push_bit 10 (lead AND 0x3ff) + (trail AND 0x3ff)"

abbreviation kMaxNonSurrogateCharCode :: uc32 where
  "kMaxNonSurrogateCharCode \<equiv> 0xffff"

abbreviation kMaxCodePoint :: uc32 where
  "kMaxCodePoint \<equiv> 0x10ffff"

definition LeadSurrogate :: "uc32 \<Rightarrow> uc16" where
  "LeadSurrogate char_code = ucast (0xd800 + (drop_bit 10 (char_code - 0x10000) AND 0x3ff))"

definition TrailSurrogate :: "uc32 \<Rightarrow> uc16" where
  "TrailSurrogate char_code = ucast (0xdc00 + (char_code AND 0x3ff))"

text \<open>The loop of \<^verbatim>\<open>HasUnpairedSurrogate\<close>, on the code units not yet visited.\<close>

fun HasUnpairedSurrogate :: "uc16 list \<Rightarrow> bool" where
  "HasUnpairedSurrogate [] = False"
| "HasUnpairedSurrogate (u # us) =
     (if IsLeadSurrogate (ucast u)
      then (case us of
              [] \<Rightarrow> True
            | v # vs \<Rightarrow> if \<not> IsTrailSurrogate (ucast v) then True
                        else HasUnpairedSurrogate vs)
      else if IsTrailSurrogate (ucast u) then True
      else HasUnpairedSurrogate us)"

fun ReplaceUnpairedSurrogates :: "uc16 list \<Rightarrow> uc16 list" where
  "ReplaceUnpairedSurrogates [] = []"
| "ReplaceUnpairedSurrogates (u # us) =
     (if IsLeadSurrogate (ucast u)
      then (case us of
              [] \<Rightarrow> [0xFFFD]
            | v # vs \<Rightarrow> if \<not> IsTrailSurrogate (ucast v)
                        then 0xFFFD # ReplaceUnpairedSurrogates us
                        else u # v # ReplaceUnpairedSurrogates vs)
      else if IsTrailSurrogate (ucast u) then 0xFFFD # ReplaceUnpairedSurrogates us
      else u # ReplaceUnpairedSurrogates us)"

section \<open>UTF-8\<close>

datatype Utf8State =
  kReject | kAccept | kTwoByte | kThreeByte | kThreeByteLowMid | kFourByte
| kFourByteLow | kThreeByteHigh | kFourByteMidHigh

primrec state_value :: "Utf8State \<Rightarrow> nat" where
  "state_value kReject = 0"
| "state_value kAccept = 12"
| "state_value kTwoByte = 24"
| "state_value kThreeByte = 36"
| "state_value kThreeByteLowMid = 48"
| "state_value kFourByte = 60"
| "state_value kFourByteLow = 72"
| "state_value kThreeByteHigh = 84"
| "state_value kFourByteMidHigh = 96"

text \<open>\<^verbatim>\<open>static_cast<State>\<close> on an entry of the table \<^verbatim>\<open>states\<close>; only the nine values
  above occur there.\<close>

definition state_of_value :: "nat \<Rightarrow> Utf8State" where
  "state_of_value v =
     (if v = 12 then kAccept else if v = 24 then kTwoByte else if v = 36 then kThreeByte
      else if v = 48 then kThreeByteLowMid else if v = 60 then kFourByte
      else if v = 72 then kFourByteLow else if v = 84 then kThreeByteHigh
      else if v = 96 then kFourByteMidHigh else kReject)"

definition utf8_transitions :: "nat list" where
  "utf8_transitions =
     replicate 128 0 @ replicate 16 1 @ replicate 16 2 @ replicate 32 3 @
     [9, 9, 4, 4, 4, 4, 4, 4, 4, 4, 4, 4, 4, 4, 4, 4] @ replicate 16 4 @
     [10, 5, 5, 5, 5, 5, 5, 5, 5, 5, 5, 5, 5, 6, 5, 5] @
     [11, 7, 7, 7, 8, 9, 9, 9, 9, 9, 9, 9, 9, 9, 9, 9]"

definition utf8_states :: "nat list" where
  "utf8_states =
     [0, 0, 0, 0, 0, 0, 0, 0, 0, 0, 0, 0,
      12, 0, 0, 0, 24, 36, 48, 60, 72, 0, 84, 96,
      0, 12, 12, 12, 0, 0, 0, 0, 0, 0, 0, 0,
      0, 24, 24, 24, 0, 0, 0, 0, 0, 0, 0, 0,
      0, 24, 24, 0, 0, 0, 0, 0, 0, 0, 0, 0,
      0, 36, 36, 36, 0, 0, 0, 0, 0, 0, 0, 0,
      0, 36, 0, 0, 0, 0, 0, 0, 0, 0, 0, 0,
      0, 0, 0, 24, 0, 0, 0, 0, 0, 0, 0, 0,
      0, 0, 36, 36, 0, 0, 0, 0, 0, 0, 0, 0]"

definition Utf8_Decode :: "byte \<Rightarrow> Utf8State \<Rightarrow> uc32 \<Rightarrow> Utf8State \<times> uc32" where
  "Utf8_Decode b state buffer =
     (let type = utf8_transitions ! unat b
      in (state_of_value (utf8_states ! (state_value state + type)),
          push_bit 6 buffer OR (ucast b AND drop_bit (type div 2) 0x7F)))"

abbreviation kBadChar :: uc32 where "kBadChar \<equiv> 0xFFFD"
abbreviation kBufferEmpty :: uc32 where "kBufferEmpty \<equiv> 0"
abbreviation kIncomplete :: uc32 where "kIncomplete \<equiv> 0xFFFFFFFC"

text \<open>
  \<^verbatim>\<open>ValueOfIncremental\<close> on the byte under the cursor. The first component of the
  result is the returned value, the second whether the cursor moved past the byte.
\<close>

definition ValueOfIncremental ::
    "byte \<Rightarrow> Utf8State \<Rightarrow> uc32 \<Rightarrow> uc32 \<times> bool \<times> Utf8State \<times> uc32" where
  "ValueOfIncremental b old_state buffer =
     (if b \<le> 0x7f \<and> old_state = kAccept then (ucast b, True, old_state, buffer)
      else case Utf8_Decode b old_state buffer of (state, buffer') \<Rightarrow>
        if state = kAccept then (buffer', True, state, 0)
        else if state = kReject then (kBadChar, old_state = kAccept, kAccept, 0)
        else (kIncomplete, True, state, buffer'))"

definition ValueOfIncrementalFinish :: "Utf8State \<Rightarrow> uc32 \<times> Utf8State" where
  "ValueOfIncrementalFinish state =
     (if state = kAccept then (kBufferEmpty, state) else (kBadChar, kAccept))"

text \<open>
  \<^verbatim>\<open>CalculateValue\<close>: the do-while loop over the bytes; the result is the value and
  the number of bytes consumed. The loop runs on a non-empty list only
  (\<^verbatim>\<open>DCHECK_GT(max_length, 0)\<close>).
\<close>

fun CalculateValue_loop :: "byte list \<Rightarrow> Utf8State \<Rightarrow> uc32 \<Rightarrow> nat \<Rightarrow> uc32 \<times> nat" where
  "CalculateValue_loop [] state buffer n = (kBadChar, n)"
| "CalculateValue_loop (b # bs) state buffer n =
     (case ValueOfIncremental b state buffer of (t, moved, state', buffer') \<Rightarrow>
        let n' = (if moved then Suc n else n)
        in if moved \<and> bs \<noteq> [] \<and> t = kIncomplete then CalculateValue_loop bs state' buffer' n'
           else (if state' = kAccept then t else kBadChar, n'))"

definition CalculateValue :: "byte list \<Rightarrow> uc32 \<times> nat" where
  "CalculateValue bytes = CalculateValue_loop bytes kAccept 0 0"

definition ValueOf :: "byte list \<Rightarrow> uc32 \<times> nat" where
  "ValueOf bytes =
     (case bytes of [] \<Rightarrow> (kBadChar, 0)
      | b # _ \<Rightarrow> if b \<le> 0x7f then (ucast b, 1) else CalculateValue bytes)"

fun ValidateEncoding_loop :: "byte list \<Rightarrow> Utf8State \<Rightarrow> uc32 \<Rightarrow> Utf8State" where
  "ValidateEncoding_loop [] state throw_away = state"
| "ValidateEncoding_loop (b # bs) state throw_away =
     (if state = kReject then state
      else case Utf8_Decode b state throw_away of (state', throw_away') \<Rightarrow>
             ValidateEncoding_loop bs state' throw_away')"

definition ValidateEncoding :: "byte list \<Rightarrow> bool" where
  "ValidateEncoding bytes \<longleftrightarrow> ValidateEncoding_loop bytes kAccept 0 = kAccept"

text \<open>
  \<^verbatim>\<open>Utf8::Encode\<close> writes at \<^verbatim>\<open>str\<close>. For the second half of a surrogate pair it goes
  back over the three bytes written for the first half, so the model appends to
  the list of bytes written so far; the returned count is the difference in
  length. \<open>previous = None\<close> is \<^verbatim>\<open>kNoPreviousCharacter\<close>. The mask \<^verbatim>\<open>~(1 << 6)\<close> clears
  bit 6, and storing into a \<^verbatim>\<open>char\<close> keeps the low eight bits.
\<close>

abbreviation utf8_kMask :: uc32 where "utf8_kMask \<equiv> NOT 0x40"

definition Utf8_EncodeOneByte :: "byte list \<Rightarrow> byte \<Rightarrow> byte list" where
  "Utf8_EncodeOneByte out c =
     (if c \<le> 0x7f then out @ [c]
      else out @ [0xC0 OR drop_bit 6 c, 0x80 OR (c AND NOT 0x40)])"

definition Utf8_EncodeFourByte :: "byte list \<Rightarrow> uc32 \<Rightarrow> byte list" where
  "Utf8_EncodeFourByte out c =
     out @ [ucast (0xF0 OR drop_bit 18 c), ucast (0x80 OR (drop_bit 12 c AND utf8_kMask)),
            ucast (0x80 OR (drop_bit 6 c AND utf8_kMask)), ucast (0x80 OR (c AND utf8_kMask))]"

definition Utf8_Encode :: "byte list \<Rightarrow> uc32 \<Rightarrow> uc32 option \<Rightarrow> bool \<Rightarrow> byte list" where
  "Utf8_Encode out c previous replace_invalid =
     (if c \<le> 0x7f then out @ [ucast c]
      else if c \<le> 0x7ff
      then out @ [ucast (0xC0 OR drop_bit 6 c), ucast (0x80 OR (c AND utf8_kMask))]
      else if c \<le> 0xffff
      then (case previous of
              Some p \<Rightarrow> if IsSurrogatePair p c
                then Utf8_EncodeFourByte (take (length out - 3) out) (CombineSurrogatePair p c)
                else (let c' = (if replace_invalid \<and> (IsLeadSurrogate c \<or> IsTrailSurrogate c)
                                then kBadChar else c)
                      in out @ [ucast (0xE0 OR drop_bit 12 c'),
                                ucast (0x80 OR (drop_bit 6 c' AND utf8_kMask)),
                                ucast (0x80 OR (c' AND utf8_kMask))])
            | None \<Rightarrow> (let c' = (if replace_invalid \<and> (IsLeadSurrogate c \<or> IsTrailSurrogate c)
                                then kBadChar else c)
                      in out @ [ucast (0xE0 OR drop_bit 12 c'),
                                ucast (0x80 OR (drop_bit 6 c' AND utf8_kMask)),
                                ucast (0x80 OR (c' AND utf8_kMask))]))
      else Utf8_EncodeFourByte out c)"

definition Utf8_Length :: "uc32 \<Rightarrow> uc32 option \<Rightarrow> nat" where
  "Utf8_Length c previous =
     (if c \<le> 0x7f then 1
      else if c \<le> 0x7ff then 2
      else if c \<le> 0xffff
      then (case previous of Some p \<Rightarrow> if IsSurrogatePair p c then 3 - 2 else 3 | None \<Rightarrow> 3)
      else 4)"

definition IsValidCharacter :: "uc32 \<Rightarrow> bool" where
  "IsValidCharacter c \<longleftrightarrow>
     c < 0xD800 \<or> (c \<ge> 0xE000 \<and> c < 0xFDD0) \<or>
     (c > 0xFDEF \<and> c \<le> 0x10FFFF \<and> c AND 0xFFFE \<noteq> 0xFFFE \<and> c \<noteq> kBadChar)"

section \<open>Surrogates\<close>

lemma surrogate_mask: "(0x1ffc00 :: uc32) = push_bit 10 (mask 11)"
  by (simp add: mask_eq_exp_minus_1 push_bit_eq_mult)

lemma unat_surrogate_bits:
  "unat ((c :: uc32) AND 0x1ffc00) = 1024 * (unat c div 1024 mod 2048)"
  unfolding surrogate_mask and_shifted_mask
  by (simp only: unat_push unat_take unat_drop) simp

lemma unat_LeadSurrogate: 
  "unat (LeadSurrogate c) = 0xd800 + unat (c - 0x10000) div 1024 mod 1024"
  unfolding LeadSurrogate_def mask_numerals
  by (simp add: unat_ucast unat_word_ariths unat_and_mask_numeral unat_drop)

lemma unat_TrailSurrogate: 
  "unat (TrailSurrogate c) = 0xdc00 + unat c mod 1024"
  unfolding TrailSurrogate_def mask_numerals
  by (simp add: unat_ucast unat_word_ariths unat_and_mask_numeral unat_drop)

lemma unat_CombineSurrogatePair: 
  "unat (CombineSurrogatePair a b) = 0x10000 + (unat a mod 1024) * 1024 + unat b mod 1024"
proof -
  have "unat (push_bit 10 (a AND mask 10)) = unat a mod 1024 * 1024"
    by (simp only: unat_push unat_and_mask_numeral) simp
  then show ?thesis
    unfolding CombineSurrogatePair_def mask_numerals
    by (simp add: unat_word_ariths unat_and_mask_numeral del: push_bit_and)
qed

lemma IsLeadSurrogate_iff:
  assumes "unat c < 2 ^ 21"
  shows "IsLeadSurrogate c \<longleftrightarrow> 0xD800 \<le> unat c \<and> unat c \<le> 0xDBFF"
proof -
  have "IsLeadSurrogate c \<longleftrightarrow> 1024 * (unat c div 1024 mod 2048) = 0xD800"
    by (simp add: IsLeadSurrogate_def word_unat_eq_iff unat_surrogate_bits)
  with assms show ?thesis by auto
qed

lemma IsTrailSurrogate_iff:
  assumes "unat c < 2 ^ 21"
  shows "IsTrailSurrogate c \<longleftrightarrow> 0xDC00 \<le> unat c \<and> unat c \<le> 0xDFFF"
proof -
  have "IsTrailSurrogate c \<longleftrightarrow> 1024 * (unat c div 1024 mod 2048) = 0xDC00"
    by (simp add: IsTrailSurrogate_def word_unat_eq_iff unat_surrogate_bits)
  with assms show ?thesis by auto
qed

lemma unit_bound: "unat (ucast (u :: uc16) :: uc32) < 2 ^ 21" 
proof -
  have "unat u < 2 ^ LENGTH(16)" by (rule unsigned_less)
  then show ?thesis by (simp add: unat_ucast)
qed

text \<open>A code point outside the basic plane survives the split into a surrogate
  pair: both halves are recognised as surrogates and combine to the code point.\<close>

lemma surrogate_pair_roundtrip:
  assumes "0x10000 \<le> c" and "c \<le> kMaxCodePoint"
  shows "IsLeadSurrogate (ucast (LeadSurrogate c)) \<and> IsTrailSurrogate (ucast (TrailSurrogate c)) \<and>
    CombineSurrogatePair (ucast (LeadSurrogate c)) (ucast (TrailSurrogate c)) = c"
proof -
  have b: "0x10000 \<le> unat c" "unat c \<le> 0x10ffff"
    using assms by (simp_all add: word_le_nat_alt)
  then have d: "unat (c - 0x10000) = unat c - 0x10000"
    by (simp add: unat_sub_if')
  have l: "unat (ucast (LeadSurrogate c) :: uc32) = 0xd800 + (unat c - 0x10000) div 1024"
    using b by (simp add: unat_ucast unat_LeadSurrogate d)
  have t: "unat (ucast (TrailSurrogate c) :: uc32) = 0xdc00 + unat c mod 1024"
    using b by (simp add: unat_ucast unat_TrailSurrogate)
  have "unat (CombineSurrogatePair (ucast (LeadSurrogate c)) (ucast (TrailSurrogate c))) = unat c"
  proof -
    define n where "n = unat c - 0x10000"
    have n: "unat c = 0x10000 + n" "n div 1024 < 1024"
      using b by (auto simp: n_def)
    then have "(0xd800 + n div 1024) mod 1024 = n div 1024"
      by (simp add: mod_add_left_eq [of "0xd800", symmetric])
    moreover have "(0xdc00 + (0x10000 + n) mod 1024) mod 1024 = n mod 1024"
      by (simp add: mod_add_left_eq [of "0xdc00", symmetric] mod_add_left_eq [of "0x10000", symmetric])
    ultimately show ?thesis
      unfolding unat_CombineSurrogatePair l t n_def [symmetric]
      by (simp add: n)
  qed
  moreover have "IsLeadSurrogate (ucast (LeadSurrogate c))"
    using b by (simp add: IsLeadSurrogate_iff [OF unit_bound] l)
  moreover have "IsTrailSurrogate (ucast (TrailSurrogate c))"
    using b by (simp add: IsTrailSurrogate_iff [OF unit_bound] t)
  ultimately show ?thesis by (simp add: word_unat_eq_iff)
qed

lemma replacement_not_surrogate [simp]: "\<not> IsLeadSurrogate 0xFFFD" "\<not> IsTrailSurrogate 0xFFFD"
  by code_simp+

lemma lead_not_trail: "IsLeadSurrogate c \<Longrightarrow> \<not> IsTrailSurrogate c"
  by (simp add: IsLeadSurrogate_def IsTrailSurrogate_def)

lemma length_Replace: "length (ReplaceUnpairedSurrogates us) = length us"
  by (induction us rule: ReplaceUnpairedSurrogates.induct) (auto split: list.splits)

lemma Replace_no_unpaired: "\<not> HasUnpairedSurrogate (ReplaceUnpairedSurrogates us)"
proof (induction us rule: ReplaceUnpairedSurrogates.induct)
  case (2 u us)
  then show ?case
    by (cases us) (simp_all split: if_splits)
qed simp

lemma Replace_id: "HasUnpairedSurrogate us = (ReplaceUnpairedSurrogates us \<noteq> us)"
proof (induction us rule: ReplaceUnpairedSurrogates.induct)
  case (2 u us)
  then show ?case
    by (cases us) (auto split: if_splits)
qed simp

text \<open>Replacing unpaired surrogates keeps the length, leaves no unpaired
  surrogate, and changes the string exactly when there was one.\<close>

lemma ReplaceUnpairedSurrogates_spec:
  "length (ReplaceUnpairedSurrogates us) = length us \<and>
   \<not> HasUnpairedSurrogate (ReplaceUnpairedSurrogates us) \<and>
   (HasUnpairedSurrogate us \<longleftrightarrow> ReplaceUnpairedSurrogates us \<noteq> us)"
  using length_Replace Replace_no_unpaired Replace_id by blast

section \<open>The UTF-8 automaton\<close>

text \<open>
  What the two tables compute: \<open>utf8_lead\<close> for the first byte of a sequence and
  \<open>utf8_next\<close> for a continuation byte, both on the value of the byte.
\<close>

definition utf8_next :: "Utf8State \<Rightarrow> nat \<Rightarrow> Utf8State" where
  "utf8_next st b =
     (case st of kTwoByte \<Rightarrow> kAccept | kThreeByte \<Rightarrow> kTwoByte | kFourByte \<Rightarrow> kThreeByte
      | kThreeByteLowMid \<Rightarrow> if b < 0xA0 then kTwoByte else kReject
      | kThreeByteHigh \<Rightarrow> if 0xA0 \<le> b then kTwoByte else kReject
      | kFourByteLow \<Rightarrow> if b < 0x90 then kThreeByte else kReject
      | kFourByteMidHigh \<Rightarrow> if 0x90 \<le> b then kThreeByte else kReject
      | _ \<Rightarrow> kReject)"

definition utf8_lead :: "nat \<Rightarrow> Utf8State \<times> nat" where
  "utf8_lead b =
     (if b < 0x80 then (kAccept, b) else if b < 0xC2 then (kReject, 0)
      else if b < 0xE0 then (kTwoByte, b - 0xC0)
      else if b = 0xE0 then (kThreeByteHigh, 0)
      else if b = 0xED then (kThreeByteLowMid, 0xD)
      else if b < 0xF0 then (kThreeByte, b - 0xE0)
      else if b = 0xF0 then (kFourByteMidHigh, 0)
      else if b < 0xF4 then (kFourByte, b - 0xF0)
      else if b = 0xF4 then (kFourByteLow, 4)
      else (kReject, 0))"

lemma decode_lead:
  "fst (Utf8_Decode b kAccept 0) = fst (utf8_lead (unat b))"
  "fst (utf8_lead (unat b)) \<noteq> kReject \<Longrightarrow>
   snd (Utf8_Decode b kAccept 0) = of_nat (snd (utf8_lead (unat b)))"
proof -
  have "fst (Utf8_Decode b kAccept 0) = fst (utf8_lead (unat b)) \<and>
    (fst (utf8_lead (unat b)) \<noteq> kReject \<longrightarrow>
     snd (Utf8_Decode b kAccept 0) = word_of_nat (snd (utf8_lead (unat b))))"
    by (rule byte_enum [where b = b]) code_simp
  then show "fst (Utf8_Decode b kAccept 0) = fst (utf8_lead (unat b))"
  "fst (utf8_lead (unat b)) \<noteq> kReject \<Longrightarrow>
   snd (Utf8_Decode b kAccept 0) = of_nat (snd (utf8_lead (unat b)))" by auto
qed

definition utf8_state_list :: "Utf8State list" where
  "utf8_state_list = [kReject, kAccept, kTwoByte, kThreeByte, kThreeByteLowMid, kFourByte,
     kFourByteLow, kThreeByteHigh, kFourByteMidHigh]"

lemma utf8_state_list: "st \<in> set utf8_state_list"
  by (cases st) (simp_all add: utf8_state_list_def)

lemma fst_Decode: "fst (Utf8_Decode b st buf) = fst (Utf8_Decode b st buf')"
  by (simp add: Utf8_Decode_def Let_def)

lemma utf8_transitions_cont:
  fixes b :: byte
  shows   "utf8_transitions ! unat b =
     (if unat b < 0x80 then 0 else if unat b < 0x90 then 1 else if unat b < 0xA0 then 2
      else if unat b < 0xC0 then 3 else utf8_transitions ! unat b)"
  "0xC0 \<le> unat b \<Longrightarrow> utf8_transitions ! unat b \<in> {4..<12}"
proof -
  have "utf8_transitions ! unat b =
     (if unat b < 0x80 then 0 else if unat b < 0x90 then 1 else if unat b < 0xA0 then 2
      else if unat b < 0xC0 then 3 else utf8_transitions ! unat b) \<and>
     (0xC0 \<le> unat b \<longrightarrow> 4 \<le> utf8_transitions ! unat b \<and> utf8_transitions ! unat b < 12)"
    by (rule byte_enum [where b = b]) code_simp
  then show "utf8_transitions ! unat b =
     (if unat b < 0x80 then 0 else if unat b < 0x90 then 1 else if unat b < 0xA0 then 2
      else if unat b < 0xC0 then 3 else utf8_transitions ! unat b)"
    "0xC0 \<le> unat b \<Longrightarrow> utf8_transitions ! unat b \<in> {4..<12}" by auto
qed

lemma utf8_states_cont:
  "st \<noteq> kAccept \<Longrightarrow> k \<in> {4..<12} \<Longrightarrow> utf8_states ! (state_value st + k) = 0"
proof -
  have "list_all (\<lambda>st. st \<noteq> kAccept \<longrightarrow>
      list_all (\<lambda>k. utf8_states ! (state_value st + k) = 0) [4..<12]) utf8_state_list"
    by code_simp
  with utf8_state_list [of st]
  show "st \<noteq> kAccept \<Longrightarrow> k \<in> {4..<12} \<Longrightarrow> utf8_states ! (state_value st + k) = 0"
    unfolding list_all_iff set_upt by blast
qed

lemma decode_cont_state:
  assumes "st \<noteq> kAccept"
  shows "fst (Utf8_Decode b st buf) =
    (if 0x80 \<le> unat b \<and> unat b < 0xC0 then utf8_next st (unat b) else kReject)"
proof (cases "unat b < 0xC0")
  case True
  have "list_all (\<lambda>st. st \<noteq> kAccept \<longrightarrow>
     state_of_value (utf8_states ! (state_value st + 0)) = kReject \<and>
     state_of_value (utf8_states ! (state_value st + 1)) = utf8_next st 0x80 \<and>
     state_of_value (utf8_states ! (state_value st + 2)) = utf8_next st 0x90 \<and>
     state_of_value (utf8_states ! (state_value st + 3)) = utf8_next st 0xA0) utf8_state_list"
    by code_simp
  with utf8_state_list [of st] assms have
    "state_of_value (utf8_states ! (state_value st + 0)) = kReject"
    "state_of_value (utf8_states ! (state_value st + 1)) = utf8_next st 0x80"
    "state_of_value (utf8_states ! (state_value st + 2)) = utf8_next st 0x90"
    "state_of_value (utf8_states ! (state_value st + 3)) = utf8_next st 0xA0"
    by (auto simp: list_all_iff)
  with True show ?thesis
    unfolding Utf8_Decode_def Let_def fst_conv
    by (subst utf8_transitions_cont(1)) (auto simp: utf8_next_def split: Utf8State.splits)
next
  case False
  with utf8_states_cont [OF assms utf8_transitions_cont(2) [of b]] show ?thesis
    by (simp add: Utf8_Decode_def Let_def state_of_value_def)
qed

lemma decode_cont_buffer:
  assumes "0x80 \<le> unat b" "unat b < 0xC0"
  shows "snd (Utf8_Decode b st buf) = push_bit 6 buf + of_nat (unat b mod 64)"
proof -
  have "0x80 \<le> unat b \<and> unat b < 0xC0 \<longrightarrow>
     (ucast b :: uc32) AND drop_bit (utf8_transitions ! unat b div 2) 0x7F = take_bit 6 (ucast b)"
    by (rule byte_enum [where b = b]) code_simp
  moreover have "take_bit 6 (ucast b :: uc32) = of_nat (unat b mod 64)"
    by (rule byte_enum [where b = b]) code_simp
  ultimately show ?thesis
    using assms push_or_add [of 6 buf "ucast b"] by (simp add: Utf8_Decode_def Let_def)
qed

section \<open>Round trip and safety of the UTF-8 coder\<close>

lemma voi_lead:
  assumes "0x80 \<le> unat b" and "utf8_lead (unat b) = (st, v)" and "st \<noteq> kReject"
  shows "ValueOfIncremental b kAccept 0 = (kIncomplete, True, st, of_nat v)"
proof -
  have "Utf8_Decode b kAccept 0 = (st, of_nat v)"
    using assms decode_lead [of b] by (metis fst_conv snd_conv prod.collapse)
  moreover have "st \<noteq> kAccept"
    using assms by (auto simp: utf8_lead_def split: if_splits)
  moreover have "\<not> b \<le> 0x7f"
    using assms by (simp add: word_le_nat_alt)
  ultimately show ?thesis
    using assms by (simp add: ValueOfIncremental_def)
qed

lemma voi_cont:
  assumes "st \<noteq> kAccept" and "0x80 \<le> unat b" and "unat b < 0xC0"
    and "utf8_next st (unat b) \<noteq> kReject"
  shows "ValueOfIncremental b st (of_nat v) =
    (if utf8_next st (unat b) = kAccept
     then (of_nat (v * 64 + unat b mod 64), True, kAccept, 0)
     else (kIncomplete, True, utf8_next st (unat b), of_nat (v * 64 + unat b mod 64)))"
proof -
  have "Utf8_Decode b st (of_nat v) = (utf8_next st (unat b), of_nat (v * 64 + unat b mod 64))"
    using decode_cont_state [OF assms(1), of b "of_nat v"]
      decode_cont_buffer [OF assms(2,3), of st "of_nat v"] assms(2,3)
    by (intro prod_eqI) (simp_all add: push_bit_eq_mult mult.commute)
  then show ?thesis
    using assms by (simp add: ValueOfIncremental_def)
qed

lemma cont_byte:
  fixes x :: uc32
  defines "b \<equiv> ucast (0x80 OR (x AND NOT 0x40)) :: byte"
  shows "unat b = 0x80 + unat x mod 64" "unat b < 0xC0" "unat b mod 64 = unat x mod 64"
proof -
  have "ucast (NOT 0x40 :: uc32) = (0xBF :: byte)" "ucast (0x80 :: uc32) = (0x80 :: byte)"
    by code_simp+
  then have "b = 0x80 OR (ucast x AND 0xBF)"
    by (simp only: b_def unsigned_or_eq unsigned_and_eq)
  moreover have "unat (0x80 OR (y AND 0xBF) :: byte) = 0x80 + unat y mod 64" for y
    by (rule byte_enum [where b = y]) code_simp
  moreover have "unat (ucast x :: byte) mod 64 = unat x mod 64"
    by (simp add: unat_ucast mod_mod_cancel)
  ultimately show *: "unat b = 0x80 + unat x mod 64" by simp
  then show "unat b < 0xC0" "unat b mod 64 = unat x mod 64"
    by (simp_all add: mod_add_left_eq [of "0x80", symmetric])
qed

lemma lead_byte:
  fixes x :: uc32
  shows "unat x < 32 \<Longrightarrow> unat (ucast (0xC0 OR x) :: byte) = 0xC0 + unat x"
    "unat x < 16 \<Longrightarrow> unat (ucast (0xE0 OR x) :: byte) = 0xE0 + unat x"
    "unat x < 8 \<Longrightarrow> unat (ucast (0xF0 OR x) :: byte) = 0xF0 + unat x"
    apply (erule word_enum_less [rotated], code_simp)
    apply (erule word_enum_less [rotated], code_simp)
    apply (erule word_enum_less [rotated], code_simp)
  done

text \<open>A Unicode scalar value: a code point that is not a surrogate.\<close>

definition IsScalarValue :: "uc32 \<Rightarrow> bool" where
  "IsScalarValue c \<longleftrightarrow> c < 0xD800 \<or> 0xE000 \<le> c \<and> c \<le> kMaxCodePoint"

lemma IsScalarValue_nat:
  "IsScalarValue c \<longleftrightarrow> unat c < 0xD800 \<or> 0xE000 \<le> unat c \<and> unat c \<le> 0x10ffff"
  by (simp add: IsScalarValue_def word_le_nat_alt word_less_nat_alt)

lemma voi_final:
  assumes "0x80 \<le> unat b" and "unat b < 0xC0" and "unat c = v * 64 + unat b mod 64"
  shows "ValueOfIncremental b kTwoByte (of_nat v) = (c, True, kAccept, 0)"
  using voi_cont [of kTwoByte b v] assms(1,2)
  by (simp add: utf8_next_def flip: assms(3))

lemma decode2:
  assumes "0x80 \<le> unat b0" and "utf8_lead (unat b0) = (kTwoByte, v)"
    and "0x80 \<le> unat b1" and "unat b1 < 0xC0"
    and "unat c = v * 64 + unat b1 mod 64" and "c \<noteq> kIncomplete"
  shows "CalculateValue (b0 # b1 # bs) = (c, 2)"
proof -
  have "ValueOfIncremental b1 kTwoByte (of_nat v) = (c, True, kAccept, 0)"
    using assms(3-5) by (rule voi_final)
  with voi_lead [OF assms(1,2)] assms(6) show ?thesis
    by (simp add: CalculateValue_def)
qed

lemma decode3:
  assumes "0x80 \<le> unat b0" and "utf8_lead (unat b0) = (st, v)" and "st \<noteq> kReject"
    and "0x80 \<le> unat b1" and "unat b1 < 0xC0" and "utf8_next st (unat b1) = kTwoByte"
    and "0x80 \<le> unat b2" and "unat b2 < 0xC0"
    and "unat c = (v * 64 + unat b1 mod 64) * 64 + unat b2 mod 64" and "c \<noteq> kIncomplete"
  shows "CalculateValue (b0 # b1 # b2 # bs) = (c, 3)"
proof -
  have "st \<noteq> kAccept" using assms(6) by (auto simp: utf8_next_def)
  then have "ValueOfIncremental b1 st (of_nat v) =
      (kIncomplete, True, kTwoByte, of_nat (v * 64 + unat b1 mod 64))"
    using voi_cont [of st b1 v] assms(4-6) by simp
  moreover have "ValueOfIncremental b2 kTwoByte (of_nat (v * 64 + unat b1 mod 64)) =
      (c, True, kAccept, 0)"
    using assms(7-9) by (rule voi_final)
  ultimately show ?thesis
    using voi_lead [OF assms(1-3)] assms(10) by (simp add: CalculateValue_def del: of_nat_add of_nat_mult)
qed

lemma decode4:
  assumes "0x80 \<le> unat b0" and "utf8_lead (unat b0) = (st, v)" and "st \<noteq> kReject"
    and "0x80 \<le> unat b1" and "unat b1 < 0xC0" and "utf8_next st (unat b1) = kThreeByte"
    and "0x80 \<le> unat b2" and "unat b2 < 0xC0" and "0x80 \<le> unat b3" and "unat b3 < 0xC0"
    and "unat c = ((v * 64 + unat b1 mod 64) * 64 + unat b2 mod 64) * 64 + unat b3 mod 64"
    and "c \<noteq> kIncomplete"
  shows "CalculateValue (b0 # b1 # b2 # b3 # bs) = (c, 4)"
proof -
  let ?v1 = "v * 64 + unat b1 mod 64"
  let ?v2 = "?v1 * 64 + unat b2 mod 64"
  have "st \<noteq> kAccept" using assms(6) by (auto simp: utf8_next_def)
  then have "ValueOfIncremental b1 st (of_nat v) = (kIncomplete, True, kThreeByte, of_nat ?v1)"
    using voi_cont [of st b1 v] assms(4-6) by simp
  moreover have "ValueOfIncremental b2 kThreeByte (of_nat ?v1) =
      (kIncomplete, True, kTwoByte, of_nat ?v2)"
    using voi_cont [of kThreeByte b2 ?v1] assms(7,8) by (simp add: utf8_next_def)
  moreover have "ValueOfIncremental b3 kTwoByte (of_nat ?v2) = (c, True, kAccept, 0)"
    using assms(9-11) by (rule voi_final)
  ultimately show ?thesis
    using voi_lead [OF assms(1-3)] assms(12) by (simp add: CalculateValue_def del: of_nat_add of_nat_mult)
qed

lemma split64:
  fixes n :: nat
  shows "(n div 4096 * 64 + n div 64 mod 64) * 64 + n mod 64 = n"
    "((n div 262144 * 64 + n div 4096 mod 64) * 64 + n div 64 mod 64) * 64 + n mod 64 = n"
  using div_mult2_eq [of n 64 64] div_mult2_eq [of n 4096 64] by simp_all

lemma unat_drop_bits:
  fixes c :: uc32
  shows "unat (drop_bit 6 c) = unat c div 64" "unat (drop_bit 12 c) = unat c div 4096"
    "unat (drop_bit 18 c) = unat c div 262144"
  by (simp_all only: unat_drop) simp_all

lemma decode_encoded2:
  fixes c :: uc32
  assumes "0x80 \<le> unat c" and "unat c < 0x800"
  defines "b0 \<equiv> ucast (0xC0 OR drop_bit 6 c) :: byte"
  shows "\<not> b0 \<le> 0x7f \<and> CalculateValue (b0 # ucast (0x80 OR (c AND utf8_kMask)) # rest) = (c, 2)"
proof -
  have b0: "unat b0 = 0xC0 + unat c div 64"
    using lead_byte(1) [of "drop_bit 6 c"] assms by (simp add: unat_drop_bits)
  have "c \<noteq> kIncomplete" using assms by auto
  with b0 have "CalculateValue (b0 # ucast (0x80 OR (c AND utf8_kMask)) # rest) = (c, 2)"
    using assms cont_byte [of c]
    by (intro decode2 [where v = "unat c div 64"]) (simp_all add: utf8_lead_def, auto)
  with b0 show ?thesis by (simp add: word_le_nat_alt)
qed

lemma decode_encoded3:
  fixes c :: uc32
  assumes "0x800 \<le> unat c" and "unat c < 0x10000" and "\<not> (0xD800 \<le> unat c \<and> unat c < 0xE000)"
  defines "b0 \<equiv> ucast (0xE0 OR drop_bit 12 c) :: byte"
    and "b1 \<equiv> ucast (0x80 OR (drop_bit 6 c AND utf8_kMask)) :: byte"
  shows "\<not> b0 \<le> 0x7f \<and>
    CalculateValue (b0 # b1 # ucast (0x80 OR (c AND utf8_kMask)) # rest) = (c, 3)"
proof -
  let ?q = "unat c div 4096"
  define st where "st = (if ?q = 0 then kThreeByteHigh else if ?q = 0xD then kThreeByteLowMid else kThreeByte)"
  have b0: "unat b0 = 0xE0 + ?q"
    using lead_byte(2) [of "drop_bit 12 c"] assms by (simp add: unat_drop_bits)
  have b1: "unat b1 = 0x80 + unat c div 64 mod 64" "unat b1 mod 64 = unat c div 64 mod 64"
    using cont_byte(1,3) [of "drop_bit 6 c"] by (simp_all add: b1_def unat_drop_bits)
  define b2 where "b2 = (ucast (0x80 OR (c AND utf8_kMask)) :: byte)"
  note b2 = cont_byte [of c, folded b2_def]
  have "?q < 16" using assms(2) by simp
  then have "utf8_lead (unat b0) = (st, ?q)"
    unfolding b0 utf8_lead_def st_def by auto
  moreover have "utf8_next st (unat b1) = kTwoByte"
  proof -
    define d where "d = unat c div 64"
    have q: "?q = d div 64" by (simp add: d_def div_mult2_eq [symmetric])
    have "32 \<le> d" "d < 0x360 \<or> 0x380 \<le> d"
      using assms(1-3) by (auto simp: d_def)
    then have "d div 64 = 0 \<Longrightarrow> 32 \<le> d mod 64" "d div 64 = 0xD \<Longrightarrow> d mod 64 < 32"
      using div_mult_mod_eq [of d 64] mod_less_divisor [of 64 d] by auto
    then show ?thesis
      unfolding st_def utf8_next_def b1 d_def [symmetric] q by auto
  qed
  moreover have "c \<noteq> kIncomplete" using assms(2) by auto
  moreover have "st \<noteq> kReject" by (simp add: st_def)
  moreover have "unat c = (?q * 64 + unat b1 mod 64) * 64 + unat b2 mod 64"
    unfolding b1(2) b2(3) by (simp only: split64)
  ultimately have "CalculateValue (b0 # b1 # b2 # rest) = (c, 3)"
    by (intro decode3 [where v = ?q and st = st]) (simp_all add: b0 b1(1) b2(1,2))
  with b0 show ?thesis by (simp add: word_le_nat_alt b2_def)
qed

lemma decode_encoded4:
  fixes c :: uc32
  assumes "0x10000 \<le> unat c" and "unat c \<le> 0x10ffff"
  defines "b0 \<equiv> ucast (0xF0 OR drop_bit 18 c) :: byte"
    and "b1 \<equiv> ucast (0x80 OR (drop_bit 12 c AND utf8_kMask)) :: byte"
    and "b2 \<equiv> ucast (0x80 OR (drop_bit 6 c AND utf8_kMask)) :: byte"
  shows "\<not> b0 \<le> 0x7f \<and>
    CalculateValue (b0 # b1 # b2 # ucast (0x80 OR (c AND utf8_kMask)) # rest) = (c, 4)"
proof -
  let ?q = "unat c div 262144"
  define st where "st = (if ?q = 0 then kFourByteMidHigh else if ?q = 4 then kFourByteLow else kFourByte)"
  have b0: "unat b0 = 0xF0 + ?q"
    using lead_byte(3) [of "drop_bit 18 c"] assms by (simp add: unat_drop_bits)
  have b1: "unat b1 = 0x80 + unat c div 4096 mod 64" "unat b1 mod 64 = unat c div 4096 mod 64"
    using cont_byte(1,3) [of "drop_bit 12 c"] by (simp_all add: b1_def unat_drop_bits)
  have b2: "unat b2 = 0x80 + unat c div 64 mod 64" "unat b2 mod 64 = unat c div 64 mod 64"
    using cont_byte(1,3) [of "drop_bit 6 c"] by (simp_all add: b2_def unat_drop_bits)
  define b3 where "b3 = (ucast (0x80 OR (c AND utf8_kMask)) :: byte)"
  note b3 = cont_byte [of c, folded b3_def]
  have "?q \<le> 4" using assms(2) by simp
  then have "utf8_lead (unat b0) = (st, ?q)"
    unfolding b0 utf8_lead_def st_def by auto
  moreover have "utf8_next st (unat b1) = kThreeByte"
  proof -
    define d where "d = unat c div 4096"
    have q: "?q = d div 64" by (simp add: d_def div_mult2_eq [symmetric])
    have "16 \<le> d" "d < 0x110"
      using assms(1-2) by (auto simp: d_def)
    then have "d div 64 = 0 \<Longrightarrow> 16 \<le> d mod 64" "d div 64 = 4 \<Longrightarrow> d mod 64 < 16"
      using div_mult_mod_eq [of d 64] mod_less_divisor [of 64 d] by auto
    then show ?thesis
      unfolding st_def utf8_next_def b1 d_def [symmetric] q by auto
  qed
  moreover have "c \<noteq> kIncomplete" using assms(2) by auto
  moreover have "st \<noteq> kReject" by (simp add: st_def)
  moreover have "unat c = ((?q * 64 + unat b1 mod 64) * 64 + unat b2 mod 64) * 64 + unat b3 mod 64"
    unfolding b1(2) b2(2) b3(3) by (simp only: split64)
  ultimately have "CalculateValue (b0 # b1 # b2 # b3 # rest) = (c, 4)"
    by (intro decode4 [where v = ?q and st = st]) (simp_all add: b0 b1(1) b2(1) b3(1,2))
  with b0 show ?thesis by (simp add: word_le_nat_alt b3_def)
qed

lemma ValueOf_Encode:
  assumes "IsScalarValue c"
  shows "ValueOf (Utf8_Encode [] c None r @ rest) = (c, Utf8_Length c None)"
proof -
  have sur: "\<not> IsLeadSurrogate c" "\<not> IsTrailSurrogate c"
    using assms by (auto simp: IsScalarValue_nat IsLeadSurrogate_iff IsTrailSurrogate_iff)
  consider (1) "c \<le> 0x7f" | (2) "\<not> c \<le> 0x7f" "c \<le> 0x7ff" | (3) "\<not> c \<le> 0x7ff" "c \<le> 0xffff"
    | (4) "\<not> c \<le> 0xffff"
    by blast
  then show ?thesis
  proof cases
    case 1
    then have "ucast (ucast c :: byte) = c" "(ucast c :: byte) \<le> 0x7f"
      by (auto simp: word_unat_eq_iff word_le_nat_alt unat_ucast)
    with 1 show ?thesis
      by (simp add: Utf8_Encode_def ValueOf_def Utf8_Length_def)
  next
    case 2
    with decode_encoded2 [of c rest] show ?thesis
      by (simp add: Utf8_Encode_def ValueOf_def Utf8_Length_def word_le_nat_alt)
  next
    case 3
    with decode_encoded3 [of c rest] sur assms show ?thesis
      by (auto simp: Utf8_Encode_def ValueOf_def Utf8_Length_def word_le_nat_alt IsScalarValue_nat)
  next
    case 4
    with decode_encoded4 [of c rest] assms show ?thesis
      by (auto simp: Utf8_Encode_def Utf8_EncodeFourByte_def ValueOf_def Utf8_Length_def
          word_le_nat_alt IsScalarValue_nat)
  qed
qed

text \<open>UTF-8 round trip: the bytes \<^verbatim>\<open>Utf8::Encode\<close> writes for a scalar value are
  decoded by \<^verbatim>\<open>Utf8::ValueOf\<close> to that value, whatever bytes follow, and the cursor
  advances by \<^verbatim>\<open>Utf8::Length\<close>.\<close>

lemma Utf8_roundtrip:
  assumes "IsScalarValue c"
  shows "ValueOf (Utf8_Encode [] c None r @ rest) = (c, Utf8_Length c None)"
  using assms by (rule ValueOf_Encode)

text \<open>The value collected so far in each state of the automaton.\<close>

definition utf8_partial :: "Utf8State \<Rightarrow> nat \<Rightarrow> bool" where
  "utf8_partial st v =
     (case st of kReject \<Rightarrow> False | kAccept \<Rightarrow> v = 0
      | kTwoByte \<Rightarrow> 2 \<le> v \<and> (v < 0x360 \<or> 0x380 \<le> v) \<and> v < 0x4400
      | kThreeByte \<Rightarrow> (1 \<le> v \<and> v < 0x10 \<and> v \<noteq> 0xD) \<or> (0x10 \<le> v \<and> v < 0x110)
      | kThreeByteLowMid \<Rightarrow> v = 0xD | kThreeByteHigh \<Rightarrow> v = 0
      | kFourByte \<Rightarrow> 1 \<le> v \<and> v < 4 | kFourByteLow \<Rightarrow> v = 4 | kFourByteMidHigh \<Rightarrow> v = 0)"

lemma utf8_partial_lead:
  "utf8_lead b = (st, v) \<Longrightarrow> 0x80 \<le> b \<Longrightarrow> st \<noteq> kReject \<Longrightarrow> st \<noteq> kAccept \<and> utf8_partial st v"
  by (auto simp: utf8_lead_def utf8_partial_def split: if_splits)

lemma utf8_partial_cont:
  assumes "utf8_partial st v" "st \<noteq> kAccept" "b = 0x80 + m" "m < 64"
    "utf8_next st b = st'" "st' \<noteq> kReject"
  shows "if st' = kAccept then v * 64 + m < 0xD800 \<or> 0xE000 \<le> v * 64 + m \<and> v * 64 + m \<le> 0x10ffff
    else utf8_partial st' (v * 64 + m)"
  using assms by (cases st) (auto simp: utf8_next_def utf8_partial_def split: if_splits)

lemma not_cont_reject:
  assumes "st \<noteq> kAccept" "fst (Utf8_Decode b st buf) = kReject"
  shows "ValueOfIncremental b st buf = (kBadChar, False, kAccept, 0)"
  using assms by (cases "Utf8_Decode b st buf") (simp add: ValueOfIncremental_def)

lemma voi_from_accept:
  assumes "ValueOfIncremental b kAccept 0 = (t, moved, st', buf')"
  shows "moved \<and> (st' = kAccept \<and> buf' = 0 \<and> t \<noteq> kIncomplete \<and> IsScalarValue t \<or>
    st' \<noteq> kAccept \<and> t = kIncomplete \<and> (\<exists>v'. buf' = of_nat v' \<and> utf8_partial st' v'))"
proof (cases "b \<le> 0x7f")
  case True
  then have "unat b \<le> 0x7f" by (simp add: word_le_nat_alt)
  then have "IsScalarValue (ucast b)" "(ucast b :: uc32) \<noteq> kIncomplete"
    by (auto simp: IsScalarValue_nat unat_ucast word_unat_eq_iff)
  with True assms show ?thesis by (auto simp: ValueOfIncremental_def)
next
  case False
  then have b: "0x80 \<le> unat b" by (simp add: word_le_nat_alt)
  obtain s w where l: "utf8_lead (unat b) = (s, w)" by (cases "utf8_lead (unat b)")
  show ?thesis
  proof (cases "s = kReject")
    case True
    then have "fst (Utf8_Decode b kAccept 0) = kReject" using decode_lead(1) l by simp
    with False assms show ?thesis
      by (cases "Utf8_Decode b kAccept 0") (auto simp: ValueOfIncremental_def IsScalarValue_def)
  next
    case False
    with utf8_partial_lead [OF l b] voi_lead [OF b l] assms show ?thesis by auto
  qed
qed

lemma voi_from_partial:
  assumes "utf8_partial st v" and "st \<noteq> kAccept"
    and "ValueOfIncremental b st (of_nat v) = (t, moved, st', buf')"
  shows "t = kBadChar \<and> \<not> moved \<and> st' = kAccept \<and> buf' = 0 \<or>
    moved \<and> (st' = kAccept \<and> buf' = 0 \<and> t \<noteq> kIncomplete \<and> IsScalarValue t \<or>
      st' \<noteq> kAccept \<and> t = kIncomplete \<and> (\<exists>v'. buf' = of_nat v' \<and> utf8_partial st' v'))"
proof (cases "0x80 \<le> unat b \<and> unat b < 0xC0 \<and> utf8_next st (unat b) \<noteq> kReject")
  case True
  define m where "m = unat b mod 64"
  define n where "n = v * 64 + m"
  obtain k where k: "unat b = 0x80 + k"
    using True by (auto simp: nat_le_iff_add)
  with True have "k < 64" by simp
  with k have m: "unat b = 0x80 + m" "m < 64"
    by (simp_all add: m_def mod_add_left_eq [of "0x80", symmetric])
  have n: "if utf8_next st (unat b) = kAccept then n < 0xD800 \<or> 0xE000 \<le> n \<and> n \<le> 0x10ffff
      else utf8_partial (utf8_next st (unat b)) n"
    unfolding n_def using True by (intro utf8_partial_cont [OF assms(1,2) m]) auto
  have c: "ValueOfIncremental b st (of_nat v) =
    (if utf8_next st (unat b) = kAccept then (of_nat n, True, kAccept, 0)
     else (kIncomplete, True, utf8_next st (unat b), of_nat n))"
    unfolding n_def m_def using True assms(2) by (intro voi_cont) auto
  show ?thesis
  proof (cases "utf8_next st (unat b) = kAccept")
    case True
    with n have "unat (of_nat n :: uc32) = n" by (simp add: unat_of_nat) (auto simp: mod_less)
    with True n have "IsScalarValue (of_nat n)" "(of_nat n :: uc32) \<noteq> kIncomplete"
      by (auto simp: IsScalarValue_nat word_unat_eq_iff)
    with True c assms(3) show ?thesis by auto
  next
    case False
    with n c assms(3) show ?thesis by auto
  qed
next
  case False
  then have "fst (Utf8_Decode b st (of_nat v)) = kReject"
    using decode_cont_state [OF assms(2), of b "of_nat v"] by auto
  from not_cont_reject [OF assms(2) this] assms(3) show ?thesis by simp
qed

text \<open>C37. The incremental decoder is safe on arbitrary bytes: from any state it can
  be in, each step either asks for more input or returns a scalar value (never a
  surrogate, never beyond U+10FFFF), returns to such a state, and leaves the byte
  for the next step only when it reports a broken sequence.\<close>

theorem ValueOfIncremental_valid:
  assumes "utf8_partial st v" and "ValueOfIncremental b st (of_nat v) = (t, moved, st', buf')"
  shows "(t = kIncomplete \<or> IsScalarValue t) \<and> (\<exists>v'. buf' = of_nat v' \<and> utf8_partial st' v') \<and>
    (t = kIncomplete \<longleftrightarrow> st' \<noteq> kAccept) \<and> (\<not> moved \<longrightarrow> t = kBadChar \<and> st \<noteq> kAccept)"
proof -
  have bad: "IsScalarValue kBadChar" "\<exists>v'. (0 :: uc32) = of_nat v' \<and> utf8_partial kAccept v'"
    by (simp add: IsScalarValue_def) (rule exI [of _ 0], simp add: utf8_partial_def)
  show ?thesis
  proof (cases "st = kAccept")
    case True
    with assms have 0: "ValueOfIncremental b kAccept 0 = (t, moved, st', buf')"
      by (simp add: utf8_partial_def)
    show ?thesis
      using voi_from_accept [OF 0] bad True by auto
  next
    case False
    show ?thesis
      using voi_from_partial [OF assms(1) False assms(2)] bad False by auto
  qed
qed

theorem ValueOfIncremental_valid_witness:
  "utf8_partial kTwoByte 3 \<and>
   ((0xFFFD :: uc32) = kIncomplete \<or> IsScalarValue 0xFFFD) \<and>
   (\<exists>v'. (0 :: uc32) = of_nat v' \<and> utf8_partial kAccept v')"
proof -
  have p: "utf8_partial kTwoByte 3" by (simp add: utf8_partial_def)
  have "ValueOfIncremental 0x41 kTwoByte (of_nat 3) = (0xFFFD, False, kAccept, 0)" by code_simp
  from ValueOfIncremental_valid [OF p this] p show ?thesis by blast
qed

end
