(* ===== verification/Char_Predicates.thy ===== *)
theory Char_Predicates
  imports Unicode
begin

text \<open>
  The character classes of the scanner: \<^verbatim>\<open>src/strings/char-predicates-inl.h\<close> (the
  one-byte flag table and the fast predicates), \<^verbatim>\<open>src/strings/char-predicates.cc\<close>
  (the slow predicates over ICU), the line terminators of \<^verbatim>\<open>src/strings/unicode.h\<close>
  and the hexadecimal digits of \<^verbatim>\<open>src/base/strings.h\<close>. The lemmas show that the
  wrap-around tricks decide the ranges they stand for and that the flag table
  agrees with the slow predicates.
\<close>

section \<open>ASCII classes\<close>

definition AsciiAlphaToLower :: "uc32 \<Rightarrow> uc32" where
  "AsciiAlphaToLower c = c OR 0x20"

definition IsCarriageReturn :: "uc32 \<Rightarrow> bool" where
  "IsCarriageReturn c \<longleftrightarrow> c = 0x0D"

definition IsLineFeed :: "uc32 \<Rightarrow> bool" where
  "IsLineFeed c \<longleftrightarrow> c = 0x0A"

definition IsDecimalDigit :: "uc32 \<Rightarrow> bool" where
  "IsDecimalDigit c \<longleftrightarrow> IsInRange c 0x30 0x39"

definition IsAlphaNumeric :: "uc32 \<Rightarrow> bool" where
  "IsAlphaNumeric c \<longleftrightarrow> IsInRange (AsciiAlphaToLower c) 0x61 0x7A \<or> IsDecimalDigit c"

definition IsAsciiIdentifier :: "uc32 \<Rightarrow> bool" where
  "IsAsciiIdentifier c \<longleftrightarrow> IsAlphaNumeric c \<or> c = 0x24 \<or> c = 0x5F"

definition IsHexDigit :: "uc32 \<Rightarrow> bool" where
  "IsHexDigit c \<longleftrightarrow> IsDecimalDigit c \<or> IsInRange (AsciiAlphaToLower c) 0x61 0x66"

definition IsOctalDigit :: "uc32 \<Rightarrow> bool" where
  "IsOctalDigit c \<longleftrightarrow> IsInRange c 0x30 0x37"

definition IsNonOctalDecimalDigit :: "uc32 \<Rightarrow> bool" where
  "IsNonOctalDecimalDigit c \<longleftrightarrow> IsInRange c 0x38 0x39"

definition IsBinaryDigit :: "uc32 \<Rightarrow> bool" where
  "IsBinaryDigit c \<longleftrightarrow> c = 0x30 \<or> c = 0x31"

definition IsAsciiLower :: "uc32 \<Rightarrow> bool" where
  "IsAsciiLower c \<longleftrightarrow> IsInRange c 0x61 0x7A"

definition IsAsciiUpper :: "uc32 \<Rightarrow> bool" where
  "IsAsciiUpper c \<longleftrightarrow> IsInRange c 0x41 0x5A"

definition ToAsciiUpper :: "uc32 \<Rightarrow> uc32" where
  "ToAsciiUpper c = c AND NOT (push_bit 5 (of_bool (IsAsciiLower c)))"

definition ToAsciiLower :: "uc32 \<Rightarrow> uc32" where
  "ToAsciiLower c = c OR push_bit 5 (of_bool (IsAsciiUpper c))"

definition IsRegExpWord :: "uc32 \<Rightarrow> bool" where
  "IsRegExpWord c \<longleftrightarrow> IsAlphaNumeric c \<or> c = 0x5F"

definition TryConvertToLatin1 :: "uc16 \<Rightarrow> uc16" where
  "TryConvertToLatin1 c =
     (if c = 0x39c \<or> c = 0x3bc then 0xb5 else if c = 0x178 then 0xff else c)"

text \<open>\<^verbatim>\<open>HexValue\<close> subtracts in \<^verbatim>\<open>uc32\<close> and lets the difference wrap.\<close>

definition HexValue :: "uc32 \<Rightarrow> int" where
  "HexValue c =
     (let c1 = c - 0x30
      in if c1 \<le> 9 then uint c1
         else let c2 = (c1 OR 0x20) - 0x31
              in if c2 \<le> 5 then uint (c2 + 10) else -1)"

definition HexCharOfValue :: "int \<Rightarrow> int" where
  "HexCharOfValue value = (if value < 10 then value + 0x30 else value - 10 + 0x41)"

section \<open>Line terminators\<close>

definition IsLineTerminator :: "uc32 \<Rightarrow> bool" where
  "IsLineTerminator c \<longleftrightarrow> c = 0x000A \<or> c = 0x000D \<or> c = 0x2028 \<or> c = 0x2029"

definition IsStringLiteralLineTerminator :: "uc32 \<Rightarrow> bool" where
  "IsStringLiteralLineTerminator c \<longleftrightarrow> c = 0x000A \<or> c = 0x000D"

section \<open>The one-byte flag table\<close>

abbreviation kIsIdentifierStart :: byte where "kIsIdentifierStart \<equiv> 1"
abbreviation kIsIdentifierPart :: byte where "kIsIdentifierPart \<equiv> 2"
abbreviation kIsWhiteSpace :: byte where "kIsWhiteSpace \<equiv> 4"
abbreviation kIsWhiteSpaceOrLineTerminator :: byte where "kIsWhiteSpaceOrLineTerminator \<equiv> 8"
abbreviation kMaybeLineEnd :: byte where "kMaybeLineEnd \<equiv> 16"

definition IsOneByteIDStart :: "uc32 \<Rightarrow> bool" where
  "IsOneByteIDStart c \<longleftrightarrow>
     c = 0x24 \<or> (c \<ge> 0x41 \<and> c \<le> 0x5A) \<or> c = 0x5F \<or> (c \<ge> 0x61 \<and> c \<le> 0x7A) \<or>
     c = 0xAA \<or> c = 0xB5 \<or> c = 0xBA \<or> (c \<ge> 0xC0 \<and> c \<le> 0xD6) \<or>
     (c \<ge> 0xD8 \<and> c \<le> 0xF6) \<or> (c \<ge> 0xF8 \<and> c \<le> 0xFF)"

definition IsOneByteIDContinue :: "uc32 \<Rightarrow> bool" where
  "IsOneByteIDContinue c \<longleftrightarrow>
     c = 0x24 \<or> (c \<ge> 0x30 \<and> c \<le> 0x39) \<or> c = 0x5F \<or> (c \<ge> 0x41 \<and> c \<le> 0x5A) \<or>
     (c \<ge> 0x61 \<and> c \<le> 0x7A) \<or> c = 0xAA \<or> c = 0xB5 \<or> c = 0xB7 \<or> c = 0xBA \<or>
     (c \<ge> 0xC0 \<and> c \<le> 0xD6) \<or> (c \<ge> 0xD8 \<and> c \<le> 0xF6) \<or> (c \<ge> 0xF8 \<and> c \<le> 0xFF)"

definition IsOneByteWhitespace :: "uc32 \<Rightarrow> bool" where
  "IsOneByteWhitespace c \<longleftrightarrow> c = 0x09 \<or> c = 0x0B \<or> c = 0x0C \<or> c = 0x20 \<or> c = 0xA0"

definition BuildOneByteCharFlags :: "uc32 \<Rightarrow> byte" where
  "BuildOneByteCharFlags c =
     (if IsOneByteIDStart c \<or> c = 0x5C then kIsIdentifierStart else 0) OR
     (if IsOneByteIDContinue c \<or> c = 0x5C then kIsIdentifierPart else 0) OR
     (if IsOneByteWhitespace c then kIsWhiteSpace OR kIsWhiteSpaceOrLineTerminator else 0) OR
     (if c = 0x0D \<or> c = 0x0A then kIsWhiteSpaceOrLineTerminator OR kMaybeLineEnd else 0) OR
     (if c = 0x28 \<or> c = 0x29 then kMaybeLineEnd else 0)"

text \<open>The table is indexed by a byte.\<close>

definition kOneByteCharFlags :: "byte \<Rightarrow> byte" where
  "kOneByteCharFlags c = BuildOneByteCharFlags (ucast c)"

section \<open>ICU and the slow predicates\<close>

text \<open>
  ICU is not part of the repository: its Unicode property tables are a parameter,
  given as the classes of code points with the binary properties \<^verbatim>\<open>UCHAR_ID_START\<close>
  and \<^verbatim>\<open>UCHAR_ID_CONTINUE\<close> and with the general category \<^verbatim>\<open>U_SPACE_SEPARATOR\<close>. ICU
  documents that a value which is not a code point has none of its properties.
\<close>

record icu =
  icu_id_start :: "uc32 \<Rightarrow> bool"
  icu_id_continue :: "uc32 \<Rightarrow> bool"
  icu_space_separator :: "uc32 \<Rightarrow> bool"

definition u_property :: "(uc32 \<Rightarrow> bool) \<Rightarrow> uc32 \<Rightarrow> bool" where
  "u_property table c \<longleftrightarrow> c \<le> kMaxCodePoint \<and> table c"

definition IsIdentifierStartSlow :: "icu \<Rightarrow> uc32 \<Rightarrow> bool" where
  "IsIdentifierStartSlow U c \<longleftrightarrow>
     u_property (icu_id_start U) c \<or> (c < 0x60 \<and> (c = 0x24 \<or> c = 0x5C \<or> c = 0x5F))"

definition IsIdentifierPartSlow :: "icu \<Rightarrow> uc32 \<Rightarrow> bool" where
  "IsIdentifierPartSlow U c \<longleftrightarrow>
     u_property (icu_id_continue U) c \<or>
     (c < 0x60 \<and> (c = 0x24 \<or> c = 0x5C \<or> c = 0x5F)) \<or> c = 0x200C \<or> c = 0x200D"

definition IsWhiteSpaceSlow :: "icu \<Rightarrow> uc32 \<Rightarrow> bool" where
  "IsWhiteSpaceSlow U c \<longleftrightarrow>
     u_property (icu_space_separator U) c \<or>
     (c < 0x0D \<and> (c = 0x09 \<or> c = 0x0B \<or> c = 0x0C)) \<or> c = 0xFEFF"

definition IsWhiteSpaceOrLineTerminatorSlow :: "icu \<Rightarrow> uc32 \<Rightarrow> bool" where
  "IsWhiteSpaceOrLineTerminatorSlow U c \<longleftrightarrow> IsWhiteSpaceSlow U c \<or> IsLineTerminator c"

section \<open>The fast predicates\<close>

definition IsIdentifierStart :: "icu \<Rightarrow> uc32 \<Rightarrow> bool" where
  "IsIdentifierStart U c =
     (if \<not> IsInRange c 0 255 then IsIdentifierStartSlow U c
      else kOneByteCharFlags (ucast c) AND kIsIdentifierStart \<noteq> 0)"

definition IsIdentifierPart :: "icu \<Rightarrow> uc32 \<Rightarrow> bool" where
  "IsIdentifierPart U c =
     (if \<not> IsInRange c 0 255 then IsIdentifierPartSlow U c
      else kOneByteCharFlags (ucast c) AND kIsIdentifierPart \<noteq> 0)"

definition IsWhiteSpace :: "icu \<Rightarrow> uc32 \<Rightarrow> bool" where
  "IsWhiteSpace U c =
     (if \<not> IsInRange c 0 255 then IsWhiteSpaceSlow U c
      else kOneByteCharFlags (ucast c) AND kIsWhiteSpace \<noteq> 0)"

definition IsWhiteSpaceOrLineTerminator :: "icu \<Rightarrow> uc32 \<Rightarrow> bool" where
  "IsWhiteSpaceOrLineTerminator U c =
     (if \<not> IsInRange c 0 255 then IsWhiteSpaceOrLineTerminatorSlow U c
      else kOneByteCharFlags (ucast c) AND kIsWhiteSpaceOrLineTerminator \<noteq> 0)"

definition IsLineTerminatorSequence :: "uc32 \<Rightarrow> uc32 \<Rightarrow> bool" where
  "IsLineTerminatorSequence c nxt =
     (if kOneByteCharFlags (ucast c) AND kMaybeLineEnd \<noteq> 0
      then if c = 0x0A then True
           else if c = 0x0D then nxt \<noteq> 0x0A
           else IsInRange c 0x2028 0x2029
      else False)"

section \<open>The classes as ranges\<close>

text \<open>A class of characters below 128 is decided by enumeration, one below 256 too.\<close>

lemma uc32_enum_128:
  fixes c :: uc32
  assumes "list_all P (map word_of_nat [0..<128])" and "0x80 \<le> c \<Longrightarrow> P c"
  shows "P c"
proof (cases "unat c < 128")
  case True
  with assms(1) show ?thesis by (rule word_enum_less)
next
  case False
  with assms(2) show ?thesis by (simp add: word_le_nat_alt)
qed

lemma uc32_enum_256:
  fixes c :: uc32
  assumes "list_all P (map word_of_nat [0..<256])" and "\<not> c \<le> 0xFF \<Longrightarrow> P c"
  shows "P c"
proof (cases "unat c < 256")
  case True
  with assms(1) show ?thesis by (rule word_enum_less)
next
  case False
  with assms(2) show ?thesis by (simp add: word_le_nat_alt)
qed

lemma AsciiAlphaToLower_ge: "c \<le> AsciiAlphaToLower c"
  by (simp add: AsciiAlphaToLower_def word_le_def uint_or or_greater_eq)

lemma AsciiAlphaToLower_letter:
  "IsInRange (AsciiAlphaToLower c) 0x61 0x7A \<longleftrightarrow>
   0x61 \<le> c \<and> c \<le> 0x7A \<or> 0x41 \<le> c \<and> c \<le> 0x5A"
proof (rule uc32_enum_128 [where c = c], code_simp)
  assume "0x80 \<le> c"
  moreover from this have "0x80 \<le> AsciiAlphaToLower c"
    using AsciiAlphaToLower_ge order_trans by blast
  ultimately show ?thesis by (auto simp: IsInRange_iff word_le_nat_alt)
qed

lemma AsciiAlphaToLower_hex:
  "IsInRange (AsciiAlphaToLower c) 0x61 0x66 \<longleftrightarrow>
   0x61 \<le> c \<and> c \<le> 0x66 \<or> 0x41 \<le> c \<and> c \<le> 0x46"
proof (rule uc32_enum_128 [where c = c], code_simp)
  assume "0x80 \<le> c"
  moreover from this have "0x80 \<le> AsciiAlphaToLower c"
    using AsciiAlphaToLower_ge order_trans by blast
  ultimately show ?thesis by (auto simp: IsInRange_iff word_le_nat_alt)
qed

lemma IsDecimalDigit_iff: "IsDecimalDigit c \<longleftrightarrow> 0x30 \<le> c \<and> c \<le> 0x39"
  by (simp add: IsDecimalDigit_def IsInRange_iff)

lemma IsOctalDigit_iff: "IsOctalDigit c \<longleftrightarrow> 0x30 \<le> c \<and> c \<le> 0x37"
  by (simp add: IsOctalDigit_def IsInRange_iff)

lemma IsNonOctalDecimalDigit_iff: "IsNonOctalDecimalDigit c \<longleftrightarrow> 0x38 \<le> c \<and> c \<le> 0x39"
  by (simp add: IsNonOctalDecimalDigit_def IsInRange_iff)

lemma IsHexDigit_iff:
  "IsHexDigit c \<longleftrightarrow> 0x30 \<le> c \<and> c \<le> 0x39 \<or> 0x61 \<le> c \<and> c \<le> 0x66 \<or> 0x41 \<le> c \<and> c \<le> 0x46"
  by (auto simp: IsHexDigit_def IsDecimalDigit_iff AsciiAlphaToLower_hex)

lemma IsAsciiIdentifier_iff:
  "IsAsciiIdentifier c \<longleftrightarrow>
   0x61 \<le> c \<and> c \<le> 0x7A \<or> 0x41 \<le> c \<and> c \<le> 0x5A \<or> 0x30 \<le> c \<and> c \<le> 0x39 \<or> c = 0x24 \<or> c = 0x5F"
  by (auto simp: IsAsciiIdentifier_def IsAlphaNumeric_def IsDecimalDigit_iff
      AsciiAlphaToLower_letter)

lemma ToAsciiLower_Upper:
  "ToAsciiLower c = (if 0x41 \<le> c \<and> c \<le> 0x5A then c + 0x20 else c)"
  "ToAsciiUpper c = (if 0x61 \<le> c \<and> c \<le> 0x7A then c - 0x20 else c)"
proof -
  show "ToAsciiLower c = (if 0x41 \<le> c \<and> c \<le> 0x5A then c + 0x20 else c)"
    by (rule uc32_enum_128 [where c = c], code_simp)
      (auto simp: ToAsciiLower_def IsAsciiUpper_def IsInRange_iff word_le_nat_alt)
  show "ToAsciiUpper c = (if 0x61 \<le> c \<and> c \<le> 0x7A then c - 0x20 else c)"
    by (rule uc32_enum_128 [where c = c], code_simp)
      (auto simp: ToAsciiUpper_def IsAsciiLower_def IsInRange_iff word_le_nat_alt)
qed

section \<open>Hexadecimal digits\<close>

lemma HexValue_other:
  assumes "0x80 \<le> c"
  shows "HexValue c = -1"
proof -
  define d where "d = c - 0x30"
  have c: "unat c < 2 ^ 32" "0x80 \<le> unat c"
    using unsigned_less [of c] assms by (simp_all add: word_le_nat_alt)
  then have d: "unat d = unat c - 0x30"
    by (simp add: d_def unat_sub_if')
  have "uint d \<le> uint (d OR 0x20)"
    by (simp add: uint_or or_greater_eq)
  then have or: "unat d \<le> unat (d OR 0x20)"
    by (simp add: word_le_def [symmetric] word_le_nat_alt)
  then have "unat ((d OR 0x20) - 0x31) = unat (d OR 0x20) - 0x31"
    using c d by (simp add: unat_sub_if')
  then have "\<not> (d OR 0x20) - 0x31 \<le> 5" "\<not> d \<le> 9"
    using c d or by (auto simp: word_le_nat_alt)
  then show ?thesis by (simp add: HexValue_def Let_def flip: d_def)
qed

text \<open>\<^verbatim>\<open>base::HexValue\<close> recognises exactly the hexadecimal digits and returns
  their value between 0 and 15; every other character gives -1. Its wrap-around
  arithmetic accepts nothing else among all 32-bit values.\<close>

lemma HexValue_correct:
  "(HexValue c \<noteq> -1 \<longleftrightarrow> IsHexDigit c) \<and> HexValue c \<in> {-1..15} \<and>
   (IsHexDigit c \<longrightarrow> ToAsciiUpper c = word_of_int (HexCharOfValue (HexValue c)))"
proof -
  have "(HexValue c \<noteq> -1 \<longleftrightarrow> IsHexDigit c) \<and> -1 \<le> HexValue c \<and> HexValue c \<le> 15 \<and>
    (IsHexDigit c \<longrightarrow> ToAsciiUpper c = word_of_int (HexCharOfValue (HexValue c)))"
    by (rule uc32_enum_128 [where c = c], code_simp)
      (auto simp: HexValue_other IsHexDigit_iff word_le_nat_alt)
  then show ?thesis by auto
qed

lemma HexValue_range: "HexValue c \<in> {-1..15}"
proof -
  have "-1 \<le> HexValue c \<and> HexValue c \<le> 15"
    by (rule uc32_enum_128 [where c = c], code_simp) (simp add: HexValue_other)
  then show ?thesis by auto
qed

lemma HexValue_digit:
  "0x30 \<le> c \<Longrightarrow> c \<le> 0x39 \<Longrightarrow> HexValue c = uint c - 0x30"
proof -
  have "0x30 \<le> c \<and> c \<le> 0x39 \<longrightarrow> HexValue c = uint c - 0x30"
    by (rule uc32_enum_128 [where c = c], code_simp) (auto simp: word_le_nat_alt)
  then show "0x30 \<le> c \<Longrightarrow> c \<le> 0x39 \<Longrightarrow> HexValue c = uint c - 0x30" by blast
qed

section \<open>The flags\<close>

lemma flag_bits:
  fixes f :: byte
  assumes "f = (if s then 1 else 0) OR (if p then 2 else 0) OR (if w then 4 OR 8 else 0) OR
    (if l then 8 OR 16 else 0) OR (if m then 16 else 0)"
  shows "f AND 1 \<noteq> 0 \<longleftrightarrow> s" "f AND 2 \<noteq> 0 \<longleftrightarrow> p" "f AND 4 \<noteq> 0 \<longleftrightarrow> w"
    "f AND 8 \<noteq> 0 \<longleftrightarrow> w \<or> l" "f AND 16 \<noteq> 0 \<longleftrightarrow> l \<or> m"
  unfolding assms by (cases s; cases p; cases w; cases l; cases m; simp)+

lemmas one_byte_flags_byte = flag_bits [OF kOneByteCharFlags_def [unfolded BuildOneByteCharFlags_def]]

section \<open>Line terminator sequences\<close>

lemma maybe_line_end:
  "kOneByteCharFlags b AND kMaybeLineEnd \<noteq> 0 \<longleftrightarrow> b = 0x0A \<or> b = 0x0D \<or> b = 0x28 \<or> b = 0x29"
  unfolding one_byte_flags_byte(5) by (auto simp: word_unat_eq_iff unat_widen)

text \<open>A character ends a line exactly when it is a line terminator, except
  that a carriage return followed by a line feed leaves that to the line feed: the
  flag table, which is indexed by the low byte only, loses no terminator and adds
  none.\<close>

lemma IsLineTerminatorSequence_iff:
  "IsLineTerminatorSequence c nxt \<longleftrightarrow> IsLineTerminator c \<and> \<not> (c = 0x0D \<and> nxt = 0x0A)"
proof -
  have range: "IsInRange c 0x2028 0x2029 \<longleftrightarrow> c = 0x2028 \<or> c = 0x2029"
  proof
    assume "IsInRange c 0x2028 0x2029"
    then have "unat c = unat (0x2028 :: uc32) \<or> unat c = unat (0x2029 :: uc32)"
      by (simp add: IsInRange_iff word_le_nat_alt) linarith
    then show "c = 0x2028 \<or> c = 0x2029" by (metis word_unat_eq_iff)
  qed (auto simp: IsInRange_iff)
  show ?thesis
    unfolding IsLineTerminatorSequence_def IsLineTerminator_def maybe_line_end range
    by auto
qed

section \<open>Fast and slow predicates\<close>

lemma one_byte_cast: "c \<le> 0xFF \<Longrightarrow> ucast (ucast (c :: uc32) :: byte) = c"
  by (simp add: word_unat_eq_iff unat_ucast word_le_nat_alt)

lemma latin1_code_point: "c \<le> 0xFF \<Longrightarrow> c \<le> kMaxCodePoint"
  by (simp add: word_le_nat_alt)

lemma one_byte_id_symbols [simp]:
  "IsOneByteIDStart 0x24" "IsOneByteIDStart 0x5F" "IsOneByteIDContinue 0x24" "IsOneByteIDContinue 0x5F"
  by code_simp+

text \<open>
  What the engine relies on from ICU: on the Latin-1 block its property tables
  are those of the Unicode character database. These are given here by the general
  categories of the block (\<^verbatim>\<open>Lu\<close>, \<^verbatim>\<open>Ll\<close>, \<^verbatim>\<open>Lo\<close>, \<^verbatim>\<open>Nd\<close>, \<^verbatim>\<open>Pc\<close>, \<^verbatim>\<open>Zs\<close>), as ranges of code points, and
  by the definition of \<^verbatim>\<open>ID_Start\<close> and \<^verbatim>\<open>ID_Continue\<close> of Unicode Standard Annex 31: letters, and letters,
  digits and connector punctuation with the middle dot (\<^verbatim>\<open>Other_ID_Continue\<close>).
\<close>

definition in_ranges :: "(uc32 \<times> uc32) list \<Rightarrow> uc32 \<Rightarrow> bool" where
  "in_ranges rs c \<longleftrightarrow> list_ex (\<lambda>(first, last). first \<le> c \<and> c \<le> last) rs"

definition latin1_letters :: "(uc32 \<times> uc32) list" where
  "latin1_letters =
     [(0x41, 0x5A), (0xC0, 0xD6), (0xD8, 0xDE)] @
     [(0x61, 0x7A), (0xB5, 0xB5), (0xDF, 0xF6), (0xF8, 0xFF)] @
     [(0xAA, 0xAA), (0xBA, 0xBA)]"

definition unicode_id_start :: "uc32 \<Rightarrow> bool" where
  "unicode_id_start c \<longleftrightarrow> in_ranges latin1_letters c"

definition unicode_id_continue :: "uc32 \<Rightarrow> bool" where
  "unicode_id_continue c \<longleftrightarrow> unicode_id_start c \<or> in_ranges [(0x30, 0x39), (0x5F, 0x5F), (0xB7, 0xB7)] c"

definition unicode_space_separator :: "uc32 \<Rightarrow> bool" where
  "unicode_space_separator c \<longleftrightarrow> in_ranges [(0x20, 0x20), (0xA0, 0xA0)] c"

text \<open>The one-byte tables of the code are these classes, with the dollar sign and the underscore.\<close>

lemma one_byte_unicode:
  "IsOneByteIDStart c \<longleftrightarrow> unicode_id_start c \<or> c = 0x24 \<or> c = 0x5F"
  "IsOneByteIDContinue c \<longleftrightarrow> unicode_id_continue c \<or> c = 0x24"
  "IsOneByteWhitespace c \<longleftrightarrow> unicode_space_separator c \<or> c = 0x09 \<or> c = 0x0B \<or> c = 0x0C"
proof -
  have single: "a \<le> c \<and> c \<le> a \<longleftrightarrow> c = a" for a by auto
  have letters: "0xD8 \<le> c \<and> c \<le> 0xDE \<or> 0xDF \<le> c \<and> c \<le> 0xF6 \<longleftrightarrow> 0xD8 \<le> c \<and> c \<le> 0xF6"
    by (auto simp: word_le_nat_alt)
  have start: "unicode_id_start c \<longleftrightarrow> (0x41 \<le> c \<and> c \<le> 0x5A) \<or> (0x61 \<le> c \<and> c \<le> 0x7A) \<or> c = 0xAA \<or> c = 0xB5 \<or> c = 0xBA \<or>
      (0xC0 \<le> c \<and> c \<le> 0xD6) \<or> (0xD8 \<le> c \<and> c \<le> 0xF6) \<or> (0xF8 \<le> c \<and> c \<le> 0xFF)"
    unfolding unicode_id_start_def in_ranges_def latin1_letters_def list_ex_append list_ex_Cons_iff list_ex_Nil_iff prod.case single letters [symmetric] by blast
  show "IsOneByteIDStart c \<longleftrightarrow> unicode_id_start c \<or> c = 0x24 \<or> c = 0x5F"
    unfolding IsOneByteIDStart_def start by blast
  show "IsOneByteIDContinue c \<longleftrightarrow> unicode_id_continue c \<or> c = 0x24"
    unfolding IsOneByteIDContinue_def unicode_id_continue_def in_ranges_def list_ex_Cons_iff list_ex_Nil_iff prod.case single start by blast
  show "IsOneByteWhitespace c \<longleftrightarrow> unicode_space_separator c \<or> c = 0x09 \<or> c = 0x0B \<or> c = 0x0C"
    unfolding IsOneByteWhitespace_def unicode_space_separator_def in_ranges_def list_ex_Cons_iff list_ex_Nil_iff prod.case single by blast
qed

locale icu_latin1 =
  fixes U :: icu
  assumes id_start_latin1: "c \<le> 0xFF \<Longrightarrow> icu_id_start U c \<longleftrightarrow> unicode_id_start c"
    and id_continue_latin1: "c \<le> 0xFF \<Longrightarrow> icu_id_continue U c \<longleftrightarrow> unicode_id_continue c"
    and space_latin1: "c \<le> 0xFF \<Longrightarrow> icu_space_separator U c \<longleftrightarrow> unicode_space_separator c"
begin

lemma start_slow:
  "c \<le> 0xFF \<Longrightarrow> IsIdentifierStartSlow U c \<longleftrightarrow> IsOneByteIDStart c \<or> c = 0x5C"
  using id_start_latin1 [of c] latin1_code_point [of c] one_byte_unicode(1) [of c]
  by (auto simp: IsIdentifierStartSlow_def u_property_def)

lemma part_slow:
  "c \<le> 0xFF \<Longrightarrow> IsIdentifierPartSlow U c \<longleftrightarrow> IsOneByteIDContinue c \<or> c = 0x5C"
  using id_continue_latin1 [of c] latin1_code_point [of c] one_byte_unicode(2) [of c]
  by (auto simp: IsIdentifierPartSlow_def u_property_def)

lemma white_slow:
  "c \<le> 0xFF \<Longrightarrow> IsWhiteSpaceSlow U c \<longleftrightarrow> IsOneByteWhitespace c"
  using space_latin1 [of c] latin1_code_point [of c] one_byte_unicode(3) [of c]
  by (auto simp: IsWhiteSpaceSlow_def u_property_def)

lemma fast_eq_slow:
  "IsIdentifierStart U c = IsIdentifierStartSlow U c"
  "IsIdentifierPart U c = IsIdentifierPartSlow U c"
  "IsWhiteSpace U c = IsWhiteSpaceSlow U c"
  "IsWhiteSpaceOrLineTerminator U c = IsWhiteSpaceOrLineTerminatorSlow U c"
proof -
  show "IsIdentifierStart U c = IsIdentifierStartSlow U c"
    using start_slow [of c] one_byte_flags_byte(1) [of "ucast c"] one_byte_cast [of c]
    by (auto simp: IsIdentifierStart_def IsInRange_iff)
  show "IsIdentifierPart U c = IsIdentifierPartSlow U c"
    using part_slow [of c] one_byte_flags_byte(2) [of "ucast c"] one_byte_cast [of c]
    by (auto simp: IsIdentifierPart_def IsInRange_iff)
  show "IsWhiteSpace U c = IsWhiteSpaceSlow U c"
    using white_slow [of c] one_byte_flags_byte(3) [of "ucast c"] one_byte_cast [of c]
    by (auto simp: IsWhiteSpace_def IsInRange_iff)
  show "IsWhiteSpaceOrLineTerminator U c = IsWhiteSpaceOrLineTerminatorSlow U c"
    using white_slow [of c] one_byte_flags_byte(4) [of "ucast c"] one_byte_cast [of c]
    by (auto simp: IsWhiteSpaceOrLineTerminator_def IsWhiteSpaceOrLineTerminatorSlow_def IsLineTerminator_def
        IsInRange_iff)
qed

end

text \<open>An ICU that knows the Latin-1 block and nothing else.\<close>

definition latin1_icu :: icu where
  "latin1_icu =
     \<lparr> icu_id_start = unicode_id_start, icu_id_continue = unicode_id_continue,
       icu_space_separator = unicode_space_separator \<rparr>"

interpretation latin1: icu_latin1 latin1_icu
  by unfold_locales (simp_all add: latin1_icu_def)

text \<open>C38. On every character the fast predicates, which read the one-byte flag
  table, agree with the slow predicates over ICU (the debug checks of
  \<^verbatim>\<open>char-predicates-inl.h\<close>), for every ICU that has on the Latin-1 block the properties the
  Unicode character database lists: each of the 256 entries of the table is right.\<close>

theorem fast_predicates_agree:
  assumes "icu_latin1 U"
  shows "IsIdentifierStart U c = IsIdentifierStartSlow U c \<and>
    IsIdentifierPart U c = IsIdentifierPartSlow U c \<and>
    IsWhiteSpace U c = IsWhiteSpaceSlow U c \<and>
    IsWhiteSpaceOrLineTerminator U c = IsWhiteSpaceOrLineTerminatorSlow U c"
  using icu_latin1.fast_eq_slow [OF assms] by blast

theorem fast_predicates_agree_witness:
  "icu_latin1 latin1_icu \<and> IsIdentifierPart latin1_icu 0xB7 = IsIdentifierPartSlow latin1_icu 0xB7"
  using fast_predicates_agree [OF latin1.icu_latin1_axioms, of "0xB7"] latin1.icu_latin1_axioms
  by blast

section \<open>Ends of the classes\<close>

text \<open>The scanner's end marker \<^verbatim>\<open>kEndOfInput = -1\<close> belongs to no class: the loops that
  skip or collect a class stop there.\<close>

lemma end_of_input_classes [simp]:
  "\<not> IsIdentifierStart U 0xFFFFFFFF" "\<not> IsIdentifierPart U 0xFFFFFFFF"
  "\<not> IsWhiteSpace U 0xFFFFFFFF" "\<not> IsWhiteSpaceOrLineTerminator U 0xFFFFFFFF"
  "\<not> IsLineTerminator 0xFFFFFFFF" "\<not> IsDecimalDigit 0xFFFFFFFF" "\<not> IsHexDigit 0xFFFFFFFF"
  "\<not> IsOctalDigit 0xFFFFFFFF" "\<not> IsBinaryDigit 0xFFFFFFFF" "\<not> IsAsciiIdentifier 0xFFFFFFFF"
  "\<not> IsNonOctalDecimalDigit 0xFFFFFFFF" "\<not> IsStringLiteralLineTerminator 0xFFFFFFFF"
  "HexValue 0xFFFFFFFF = -1"
  by (simp_all add: IsIdentifierStart_def IsIdentifierPart_def IsWhiteSpace_def
      IsWhiteSpaceOrLineTerminator_def IsIdentifierStartSlow_def IsIdentifierPartSlow_def
      IsWhiteSpaceSlow_def IsWhiteSpaceOrLineTerminatorSlow_def u_property_def IsLineTerminator_def
      IsDecimalDigit_iff IsHexDigit_iff IsOctalDigit_iff IsBinaryDigit_def IsAsciiIdentifier_iff
      IsNonOctalDecimalDigit_iff IsStringLiteralLineTerminator_def IsInRange_iff HexValue_other)

end
