(* ===== verification/Source_Dialect.thy ===== *)
theory Source_Dialect
  imports Token Char_Predicates
begin

text \<open>
  Source dialects and their reserved words: \<^verbatim>\<open>src/parsing/source-dialect.h\<close>, the
  gperf table of the English keywords (\<^verbatim>\<open>keywords-eng-gen.h\<close>), the string switch of
  the Spanish ones (\<^verbatim>\<open>keywords-spa-gen.h\<close>), the dispatch and the keyword list of
  \<^verbatim>\<open>scanner-inl.h\<close>, and the pseudo-keywords (\<^verbatim>\<open>pseudokeywords-gen.h\<close>) with the places
  where the parser, the preparser and the script flags read the dialect. The
  locale \<open>keyword_table\<close> states what the scanner expects of a keyword lookup; both
  tables are instances.
\<close>

section \<open>C strings\<close>

text \<open>\<^verbatim>\<open>std::strncmp\<close>: at most \<open>n\<close> bytes, and not past a terminating zero.\<close>

fun strncmp :: "byte list \<Rightarrow> byte list \<Rightarrow> nat \<Rightarrow> int" where
  "strncmp s t 0 = 0"
| "strncmp s t (Suc n) =
     (let a = (case s of [] \<Rightarrow> 0 | c # _ \<Rightarrow> c); b = (case t of [] \<Rightarrow> 0 | c # _ \<Rightarrow> c)
      in if a \<noteq> b then uint a - uint b else if a = 0 then 0 else strncmp (tl s) (tl t) n)"

section \<open>Dialects\<close>

datatype SourceDialect = kJsEng | kJsSpa

definition MatchesSourceDialectString :: "byte list \<Rightarrow> byte list \<Rightarrow> bool" where
  "MatchesSourceDialectString value expected \<longleftrightarrow>
     (let expected_length = length expected
      in length value = expected_length \<and> strncmp value expected expected_length = 0)"

text \<open>\<^verbatim>\<open>TryParseSourceDialect\<close> returns whether it stored a dialect, and which.\<close>

definition TryParseSourceDialect :: "byte list \<Rightarrow> SourceDialect option" where
  "TryParseSourceDialect value =
     (if MatchesSourceDialectString value (ascii ''js-eng'') then Some kJsEng
      else if MatchesSourceDialectString value (ascii ''js-spa'') then Some kJsSpa
      else None)"

fun SourceDialectName :: "SourceDialect \<Rightarrow> byte list" where
  "SourceDialectName kJsEng = ascii ''js-eng''"
| "SourceDialectName kJsSpa = ascii ''js-spa''"

text \<open>
  \<^verbatim>\<open>SetFlagsForFunctionFromScript\<close> (\<^verbatim>\<open>parse-info.cc\<close>) reads the dialect stored in a
  script; \<open>None\<close> is a script field that is not a string.
\<close>

definition source_dialect_from_script :: "uc16 list option \<Rightarrow> SourceDialect" where
  "source_dialect_from_script source_dialect =
     (case source_dialect of
        Some source_dialect_string \<Rightarrow>
          if source_dialect_string = map ucast (ascii ''js-spa'') then kJsSpa else kJsEng
      | None \<Rightarrow> kJsEng)"

section \<open>English keywords: the perfect hash\<close>

definition asso_values :: "nat list" where
  "asso_values =
     [56, 56, 56, 56, 56, 56, 56, 56, 56, 56, 56, 56, 56, 56, 56, 56,
      56, 56, 56, 56, 56, 56, 56, 56, 56, 56, 56, 56, 56, 56, 56, 56,
      56, 56, 56, 56, 56, 56, 56, 56, 56, 56, 56, 56, 56, 56, 56, 56,
      56, 56, 56, 56, 56, 56, 56, 56, 56, 56, 56, 56, 56, 56, 56, 56,
      56, 56, 56, 56, 56, 56, 56, 56, 56, 56, 56, 56, 56, 56, 56, 56,
      56, 56, 56, 56, 56, 56, 56, 56, 56, 56, 56, 56, 56, 56, 56, 56,
      56, 8, 0, 6, 0, 0, 9, 9, 9, 0, 56, 56, 34, 41, 0, 3,
      6, 56, 19, 10, 13, 16, 39, 26, 37, 36, 56, 56, 56, 56, 56, 56]"

definition PerfectKeywordHash_Hash :: "byte list \<Rightarrow> nat \<Rightarrow> 32 word" where
  "PerfectKeywordHash_Hash str len =
     word_of_nat len + word_of_nat (asso_values ! unat (str ! 1)) +
     word_of_nat (asso_values ! unat (str ! 0))"

definition kPerfectKeywordLengthTable :: "nat list" where
  "kPerfectKeywordLengthTable =
     [0, 0, 2, 3, 4, 2, 6, 7, 8, 9, 10, 2, 3, 3, 5, 3, 7, 8, 4, 5, 4, 7,
      5, 5, 5, 6, 4, 5, 6, 6, 4, 5, 7, 8, 9, 3, 4, 3, 4, 5, 5, 5, 6, 6,
      7, 5, 4, 6, 0, 0, 3, 10, 0, 0, 0, 6, 0, 0, 0, 0, 0, 0, 0, 0]"

definition kPerfectKeywordHashTable :: "(string \<times> token) list" where
  "kPerfectKeywordHashTable =
     [('''', Token_IDENTIFIER), ('''', Token_IDENTIFIER), (''in'', Token_IN),
      (''new'', Token_NEW), (''enum'', Token_ENUM), (''do'', Token_DO),
      (''delete'', Token_DELETE), (''default'', Token_DEFAULT), (''debugger'', Token_DEBUGGER),
      (''interface'', Token_FUTURE_STRICT_RESERVED_WORD), (''instanceof'', Token_INSTANCEOF), (''if'', Token_IF),
      (''get'', Token_GET), (''set'', Token_SET), (''const'', Token_CONST),
      (''for'', Token_FOR), (''finally'', Token_FINALLY), (''continue'', Token_CONTINUE),
      (''case'', Token_CASE), (''catch'', Token_CATCH), (''null'', Token_NULL_LITERAL),
      (''package'', Token_FUTURE_STRICT_RESERVED_WORD), (''false'', Token_FALSE_LITERAL), (''async'', Token_ASYNC),
      (''break'', Token_BREAK), (''return'', Token_RETURN), (''this'', Token_THIS),
      (''throw'', Token_THROW), (''public'', Token_FUTURE_STRICT_RESERVED_WORD), (''static'', Token_STATIC),
      (''with'', Token_WITH), (''super'', Token_SUPER), (''private'', Token_FUTURE_STRICT_RESERVED_WORD),
      (''function'', Token_FUNCTION), (''protected'', Token_FUTURE_STRICT_RESERVED_WORD), (''try'', Token_TRY),
      (''true'', Token_TRUE_LITERAL), (''let'', Token_LET), (''else'', Token_ELSE),
      (''await'', Token_AWAIT), (''while'', Token_WHILE), (''yield'', Token_YIELD),
      (''switch'', Token_SWITCH), (''export'', Token_EXPORT), (''extends'', Token_EXTENDS),
      (''class'', Token_CLASS), (''void'', Token_VOID), (''import'', Token_IMPORT),
      ('''', Token_IDENTIFIER), ('''', Token_IDENTIFIER), (''var'', Token_VAR),
      (''implements'', Token_FUTURE_STRICT_RESERVED_WORD), ('''', Token_IDENTIFIER), ('''', Token_IDENTIFIER),
      ('''', Token_IDENTIFIER), (''typeof'', Token_TYPEOF), ('''', Token_IDENTIFIER),
      ('''', Token_IDENTIFIER), ('''', Token_IDENTIFIER), ('''', Token_IDENTIFIER),
      ('''', Token_IDENTIFIER), ('''', Token_IDENTIFIER), ('''', Token_IDENTIFIER),
      ('''', Token_IDENTIFIER)]"

text \<open>The comparison loop: \<^verbatim>\<open>s\<close> runs to its terminating zero, \<^verbatim>\<open>str\<close> alongside.\<close>

fun same_name :: "byte list \<Rightarrow> byte list \<Rightarrow> bool" where
  "same_name [] str = True"
| "same_name (c # s) str = (if c \<noteq> hd str then False else same_name s (tl str))"

definition PerfectKeywordHash_GetToken :: "byte list \<Rightarrow> nat \<Rightarrow> token" where
  "PerfectKeywordHash_GetToken str len =
     (if 2 \<le> len \<and> len \<le> 10
      then let key = unat (PerfectKeywordHash_Hash str len AND 0x3f)
           in if len = kPerfectKeywordLengthTable ! key
              then (case kPerfectKeywordHashTable ! key of (name, value) \<Rightarrow>
                      if same_name (ascii name) str then value else Token_IDENTIFIER)
              else Token_IDENTIFIER
      else Token_IDENTIFIER)"

section \<open>Spanish keywords: the string switch\<close>

text \<open>A chain of conditional expressions, each comparing \<^verbatim>\<open>str\<close> with one word.\<close>

fun strncmp_chain :: "byte list \<Rightarrow> nat \<Rightarrow> (string \<times> token) list \<Rightarrow> token" where
  "strncmp_chain str len [] = Token_IDENTIFIER"
| "strncmp_chain str len ((word, value) # rest) =
     (if strncmp str (ascii word) len = 0 then value else strncmp_chain str len rest)"

definition JsSpaKeywordHash_GetToken :: "byte list \<Rightarrow> nat \<Rightarrow> token" where
  "JsSpaKeywordHash_GetToken str len =
     (if len = 2 then strncmp_chain str len
        [(''si'', Token_IF), (''en'', Token_IN)]
      else if len = 3 then strncmp_chain str len
        [(''sal'', Token_BREAK), (''haz'', Token_DO), (''por'', Token_FOR),
         (''lee'', Token_GET), (''sea'', Token_LET), (''pon'', Token_SET),
         (''var'', Token_VAR), (''con'', Token_WITH)]
      else if len = 4 then strncmp_chain str len
        [(''caso'', Token_CASE), (''sino'', Token_ELSE), (''enum'', Token_ENUM),
         (''nulo'', Token_NULL_LITERAL), (''este'', Token_THIS), (''cede'', Token_YIELD)]
      else if len = 5 then strncmp_chain str len
        [(''asinc'', Token_ASYNC), (''clase'', Token_CLASS), (''const'', Token_CONST),
         (''borra'', Token_DELETE), (''falso'', Token_FALSE_LITERAL), (''enfin'', Token_FINALLY),
         (''nuevo'', Token_NEW), (''super'', Token_SUPER), (''lanza'', Token_THROW),
         (''vacio'', Token_VOID)]
      else if len = 6 then strncmp_chain str len
        [(''espera'', Token_AWAIT), (''atrapa'', Token_CATCH), (''cambio'', Token_SWITCH),
         (''cierto'', Token_TRUE_LITERAL), (''prueba'', Token_TRY), (''tipode'', Token_TYPEOF)]
      else if len = 7 then strncmp_chain str len
        [(''defecto'', Token_DEFAULT), (''exporta'', Token_EXPORT), (''funcion'', Token_FUNCTION),
         (''importa'', Token_IMPORT), (''paquete'', Token_FUTURE_STRICT_RESERVED_WORD), (''privado'', Token_FUTURE_STRICT_RESERVED_WORD),
         (''publico'', Token_FUTURE_STRICT_RESERVED_WORD)]
      else if len = 8 then strncmp_chain str len
        [(''continua'', Token_CONTINUE), (''extiende'', Token_EXTENDS), (''interfaz'', Token_FUTURE_STRICT_RESERVED_WORD),
         (''devuelve'', Token_RETURN), (''estatico'', Token_STATIC), (''mientras'', Token_WHILE)]
      else if len = 9 then strncmp_chain str len
        [(''depurador'', Token_DEBUGGER), (''protegido'', Token_FUTURE_STRICT_RESERVED_WORD)]
      else if len = 10 then strncmp_chain str len
        [(''implementa'', Token_FUTURE_STRICT_RESERVED_WORD)]
      else if len = 11 then strncmp_chain str len
        [(''instanciade'', Token_INSTANCEOF)]
      else Token_IDENTIFIER)"

section \<open>The scanner's keyword matcher\<close>

definition KEYWORDS :: "(string \<times> token) list" where
  "KEYWORDS =
     [(''async'', Token_ASYNC), (''await'', Token_AWAIT), (''break'', Token_BREAK),
      (''case'', Token_CASE), (''catch'', Token_CATCH), (''class'', Token_CLASS),
      (''const'', Token_CONST), (''continue'', Token_CONTINUE), (''debugger'', Token_DEBUGGER),
      (''default'', Token_DEFAULT), (''delete'', Token_DELETE), (''do'', Token_DO),
      (''else'', Token_ELSE), (''enum'', Token_ENUM), (''export'', Token_EXPORT),
      (''extends'', Token_EXTENDS), (''false'', Token_FALSE_LITERAL), (''finally'', Token_FINALLY),
      (''for'', Token_FOR), (''function'', Token_FUNCTION), (''get'', Token_GET),
      (''if'', Token_IF), (''implements'', Token_FUTURE_STRICT_RESERVED_WORD), (''import'', Token_IMPORT),
      (''in'', Token_IN), (''instanceof'', Token_INSTANCEOF), (''interface'', Token_FUTURE_STRICT_RESERVED_WORD),
      (''let'', Token_LET), (''new'', Token_NEW), (''null'', Token_NULL_LITERAL),
      (''package'', Token_FUTURE_STRICT_RESERVED_WORD), (''private'', Token_FUTURE_STRICT_RESERVED_WORD), (''protected'', Token_FUTURE_STRICT_RESERVED_WORD),
      (''public'', Token_FUTURE_STRICT_RESERVED_WORD), (''return'', Token_RETURN), (''set'', Token_SET),
      (''static'', Token_STATIC), (''super'', Token_SUPER), (''switch'', Token_SWITCH),
      (''this'', Token_THIS), (''throw'', Token_THROW), (''true'', Token_TRUE_LITERAL),
      (''try'', Token_TRY), (''typeof'', Token_TYPEOF), (''var'', Token_VAR),
      (''void'', Token_VOID), (''while'', Token_WHILE), (''with'', Token_WITH),
      (''yield'', Token_YIELD)]"

definition KEYWORD_GROUPS :: "char list" where
  "KEYWORD_GROUPS = [CHR ''a'', CHR ''b'', CHR ''c'', CHR ''d'', CHR ''e'', CHR ''f'', CHR ''g'', CHR ''i'', CHR ''l'', CHR ''n'', CHR ''p'', CHR ''r'', CHR ''s'', CHR ''t'', CHR ''v'', CHR ''w'', CHR ''y'']"

text \<open>Both macros are applied to ASCII characters; a \<^verbatim>\<open>char\<close> is a code here.\<close>

definition IsKeywordStart :: "uc32 \<Rightarrow> bool" where
  "IsKeywordStart c \<longleftrightarrow> list_ex (\<lambda>ch. c = of_char ch) KEYWORD_GROUPS"

text \<open>The string searched by \<^verbatim>\<open>IsInString\<close> is the concatenation of all keywords with
  its terminating zero, which the bound \<^verbatim>\<open>i >= N\<close> includes.\<close>

definition CanBeKeywordCharacter :: "uc32 \<Rightarrow> bool" where
  "CanBeKeywordCharacter c \<longleftrightarrow> list_ex (\<lambda>k. list_ex (\<lambda>ch. c = of_char ch) (fst k)) KEYWORDS \<or> c = 0"

definition KeywordOrIdentifierToken :: "SourceDialect \<Rightarrow> byte list \<Rightarrow> nat \<Rightarrow> token" where
  "KeywordOrIdentifierToken source_dialect input input_length =
     (if source_dialect = kJsEng then PerfectKeywordHash_GetToken input input_length
      else if source_dialect = kJsSpa then JsSpaKeywordHash_GetToken input input_length
      else Token_IDENTIFIER)"

section \<open>Pseudo-keywords\<close>

datatype PseudoKeywordName =
  kArguments | kAs | kConstructor | kEval | kFrom | kMeta | kOf | kProto | kTarget

fun JsEngPseudoKeyword_GetSpelling :: "PseudoKeywordName \<Rightarrow> string" where
  "JsEngPseudoKeyword_GetSpelling kArguments = ''arguments''"
| "JsEngPseudoKeyword_GetSpelling kAs = ''as''"
| "JsEngPseudoKeyword_GetSpelling kConstructor = ''constructor''"
| "JsEngPseudoKeyword_GetSpelling kEval = ''eval''"
| "JsEngPseudoKeyword_GetSpelling kFrom = ''from''"
| "JsEngPseudoKeyword_GetSpelling kMeta = ''meta''"
| "JsEngPseudoKeyword_GetSpelling kOf = ''of''"
| "JsEngPseudoKeyword_GetSpelling kProto = ''__proto__''"
| "JsEngPseudoKeyword_GetSpelling kTarget = ''target''"

fun JsSpaPseudoKeyword_GetSpelling :: "PseudoKeywordName \<Rightarrow> string" where
  "JsSpaPseudoKeyword_GetSpelling kArguments = ''argumentos''"
| "JsSpaPseudoKeyword_GetSpelling kAs = ''como''"
| "JsSpaPseudoKeyword_GetSpelling kConstructor = ''constructor''"
| "JsSpaPseudoKeyword_GetSpelling kEval = ''eval''"
| "JsSpaPseudoKeyword_GetSpelling kFrom = ''desde''"
| "JsSpaPseudoKeyword_GetSpelling kMeta = ''meta''"
| "JsSpaPseudoKeyword_GetSpelling kOf = ''de''"
| "JsSpaPseudoKeyword_GetSpelling kProto = ''__proto__''"
| "JsSpaPseudoKeyword_GetSpelling kTarget = ''dest''"

fun SourceDialectNameSpelling :: "SourceDialect \<Rightarrow> PseudoKeywordName \<Rightarrow> string" where
  "SourceDialectNameSpelling kJsEng name = JsEngPseudoKeyword_GetSpelling name"
| "SourceDialectNameSpelling kJsSpa name = JsSpaPseudoKeyword_GetSpelling name"

text \<open>The physical representation of an \<^verbatim>\<open>AstRawString\<close> (\<^verbatim>\<open>src/ast/ast-value-factory.h\<close>).\<close>

record AstRawString =
  ast_is_one_byte :: bool
  literal_bytes :: "byte list"

definition IsOneByteEqualTo :: "AstRawString \<Rightarrow> byte list \<Rightarrow> bool" where
  "IsOneByteEqualTo this data =
     (if \<not> ast_is_one_byte this then False
      else let len = length (literal_bytes this)
           in if len \<noteq> length data then False
              else 0 = strncmp (literal_bytes this) data len)"

text \<open>A null pointer is \<open>None\<close>.\<close>

definition AstRawStringEqualsSourceDialectName ::
    "AstRawString option \<Rightarrow> SourceDialect \<Rightarrow> PseudoKeywordName \<Rightarrow> bool" where
  "AstRawStringEqualsSourceDialectName identifier source_dialect name =
     (case identifier of
        None \<Rightarrow> False
      | Some s \<Rightarrow> IsOneByteEqualTo s (ascii (SourceDialectNameSpelling source_dialect name)))"

datatype PreParserIdentifier =
  Await | Async | PrivateName | Constructor | Name | Default | Eval | Arguments

text \<open>
  \<^verbatim>\<open>GetIdentifierHelper\<close> (\<^verbatim>\<open>preparser.cc\<close>) asks the scanner for the current token, the
  dialect and whether the literal was escaped. The factory interns its strings, so
  the pointer comparison with \<^verbatim>\<open>name_string()\<close> compares contents.
\<close>

definition GetIdentifierHelper ::
    "token \<Rightarrow> SourceDialect \<Rightarrow> bool \<Rightarrow> AstRawString \<Rightarrow> PreParserIdentifier" where
  "GetIdentifierHelper current_token dialect literal_contains_escapes string =
     (if current_token = Token_AWAIT then Await
      else if current_token = Token_ASYNC then Async
      else if current_token = Token_PRIVATE_NAME then PrivateName
      else if AstRawStringEqualsSourceDialectName (Some string) dialect kConstructor then Constructor
      else if string = \<lparr> ast_is_one_byte = True, literal_bytes = ascii ''name'' \<rparr> then Name
      else if literal_contains_escapes then Default
      else if AstRawStringEqualsSourceDialectName (Some string) dialect kEval then Eval
      else if AstRawStringEqualsSourceDialectName (Some string) dialect kArguments then Arguments
      else Default)"

section \<open>String comparison\<close>

lemma strncmp_eq:
  assumes "length s = length t" and "0 \<notin> set t"
  shows "strncmp s t (length t) = 0 \<longleftrightarrow> s = t"
  using assms by (induction s t rule: list_induct2) (auto simp: Let_def dest: unsigned_word_eqI)

lemma MatchesSourceDialectString_iff:
  "0 \<notin> set expected \<Longrightarrow> MatchesSourceDialectString value expected \<longleftrightarrow> value = expected"
  by (auto simp: MatchesSourceDialectString_def Let_def strncmp_eq)

lemma IsOneByteEqualTo_iff:
  "0 \<notin> set data \<Longrightarrow> IsOneByteEqualTo s data \<longleftrightarrow> ast_is_one_byte s \<and> literal_bytes s = data"
  by (auto simp: IsOneByteEqualTo_def Let_def strncmp_eq)

lemma dialect_names_no_zero: "0 \<notin> set (ascii ''js-eng'')" "0 \<notin> set (ascii ''js-spa'')"
  by code_simp+

lemma dialect_names_distinct: "ascii ''js-eng'' \<noteq> ascii ''js-spa''"
  by code_simp

lemmas dialect_name_facts =
  dialect_names_no_zero dialect_names_distinct MatchesSourceDialectString_iff

lemma TryParseSourceDialect_iff:
  "TryParseSourceDialect value = Some d \<longleftrightarrow> value = SourceDialectName d"
  using dialect_names_distinct
  by (cases d) (auto simp: TryParseSourceDialect_def dialect_name_facts simp del: ascii_simps)

text \<open>Dialect names round-trip: parsing the name of a dialect gives that
  dialect, nothing else is parsed, and a script that stored the name of its dialect
  is compiled with that dialect again.\<close>

lemma source_dialect_roundtrip:
  "(TryParseSourceDialect value = Some d \<longleftrightarrow> value = SourceDialectName d) \<and>
   source_dialect_from_script (Some (map ucast (SourceDialectName d))) = d"
proof -
  have "(map ucast (ascii ''js-eng'') :: uc16 list) \<noteq> map ucast (ascii ''js-spa'')"
    by code_simp
  then have "source_dialect_from_script (Some (map ucast (SourceDialectName d))) = d"
    by (cases d) (simp_all add: source_dialect_from_script_def del: ascii_simps)
  then show ?thesis by (simp add: TryParseSourceDialect_iff)
qed

section \<open>The contract of a keyword lookup\<close>

text \<open>
  \<open>lookup\<close> is the token of an identifier-like word given by its bytes, \<open>words\<close> the
  reserved words it must know. The laws are only promised for the inputs the
  lookup accepts.
\<close>

locale keyword_table =
  fixes accepts :: "byte list \<Rightarrow> bool"
    and lookup :: "byte list \<Rightarrow> token"
    and words :: "(byte list \<times> token) list"
  assumes words_distinct: "distinct (map fst words)"
    and words_accepted: "(s, t) \<in> set words \<Longrightarrow> accepts s"
    and words_reserved: "(s, t) \<in> set words \<Longrightarrow> t \<noteq> Token_IDENTIFIER"
    and words_unique: "(s, t) \<in> set words \<Longrightarrow> (s', t) \<in> set words \<Longrightarrow>
      t \<noteq> Token_FUTURE_STRICT_RESERVED_WORD \<Longrightarrow> s = s'"
    and lookup_words: "accepts s \<Longrightarrow>
      lookup s = (case map_of words s of None \<Rightarrow> Token_IDENTIFIER | Some t \<Rightarrow> t)"
begin

lemma lookup_word: "(s, t) \<in> set words \<Longrightarrow> lookup s = t"
  using lookup_words [OF words_accepted] words_distinct by simp

lemma lookup_cases:
  assumes "accepts s"
  obtains "(s, lookup s) \<in> set words" | "s \<notin> fst ` set words" and "lookup s = Token_IDENTIFIER"
  using lookup_words [OF assms] map_of_SomeD [of words s]
  by (cases "map_of words s") (auto simp: map_of_eq_None_iff)

lemma reserved_iff: "accepts s \<Longrightarrow> lookup s \<noteq> Token_IDENTIFIER \<longleftrightarrow> s \<in> fst ` set words"
  by (erule lookup_cases) (force dest: words_reserved)+

lemma one_spelling:
  assumes "accepts s" and "accepts s'" and "lookup s = lookup s'"
    and "lookup s \<noteq> Token_IDENTIFIER" and "lookup s \<noteq> Token_FUTURE_STRICT_RESERVED_WORD"
  shows "s = s'"
  using lookup_cases [OF assms(1)] lookup_cases [OF assms(2)] assms(3-) words_unique
  by metis

end

definition keyword_bytes :: "(string \<times> token) list \<Rightarrow> (byte list \<times> token) list" where
  "keyword_bytes ks = map (\<lambda>(k, t). (ascii k, t)) ks"

text \<open>The same laws in a form that evaluates.\<close>

definition words_well_formed :: "(byte list \<times> token) list \<Rightarrow> bool" where
  "words_well_formed ws \<longleftrightarrow> distinct (map fst ws) \<and>
     list_all (\<lambda>(s, t). t \<noteq> Token_IDENTIFIER \<and> list_all (\<lambda>b. b < 128 \<and> b \<noteq> 0) s) ws \<and>
     distinct (map snd (filter (\<lambda>(s, t). t \<noteq> Token_FUTURE_STRICT_RESERVED_WORD) ws))"

lemma distinct_snd_unique:
  "distinct (map snd (filter P ws)) \<Longrightarrow> (s, t) \<in> set ws \<Longrightarrow> (s', t) \<in> set ws \<Longrightarrow>
   P (s, t) \<Longrightarrow> P (s', t) \<Longrightarrow> s = s'"
  by (induction ws) (force split: if_splits)+

lemma words_well_formedD:
  assumes "words_well_formed ws"
  shows "distinct (map fst ws)"
    "(s, t) \<in> set ws \<Longrightarrow> t \<noteq> Token_IDENTIFIER"
    "(s, t) \<in> set ws \<Longrightarrow> b \<in> set s \<Longrightarrow> b < 128"
    "(s, t) \<in> set ws \<Longrightarrow> 0 \<notin> set s"
    "(s, t) \<in> set ws \<Longrightarrow> (s', t) \<in> set ws \<Longrightarrow> t \<noteq> Token_FUTURE_STRICT_RESERVED_WORD \<Longrightarrow> s = s'"
  using assms distinct_snd_unique [of "\<lambda>(s, t). t \<noteq> Token_FUTURE_STRICT_RESERVED_WORD" ws s t s']
  by (auto simp: words_well_formed_def list_all_iff)

section \<open>The English table\<close>

text \<open>The perfect hash indexes a table of 128 entries with two bytes of its input.\<close>

definition is_ascii :: "byte list \<Rightarrow> bool" where
  "is_ascii s \<longleftrightarrow> list_all (\<lambda>b. b < 128) s"

abbreviation eng_words :: "(byte list \<times> token) list" where
  "eng_words \<equiv> keyword_bytes KEYWORDS"

lemma eng_words_well_formed: "words_well_formed eng_words"
  by code_simp

lemma same_name_iff: "length s = length str \<Longrightarrow> same_name s str \<longleftrightarrow> s = str"
  by (induction s str rule: list_induct2) auto

lemma hash_table_names:
  "list_all (\<lambda>k. case kPerfectKeywordHashTable ! k of (name, value) \<Rightarrow>
     length name = kPerfectKeywordLengthTable ! k \<and>
     (name \<noteq> [] \<longrightarrow> (name, value) \<in> set KEYWORDS)) [0..<64]"
  by code_simp

lemma eng_words_found:
  "list_all (\<lambda>(s, t). PerfectKeywordHash_GetToken s (length s) = t) eng_words"
  by code_simp

lemma PerfectKeywordHash_complete:
  "(s, t) \<in> set eng_words \<Longrightarrow> PerfectKeywordHash_GetToken s (length s) = t"
  using eng_words_found by (auto simp: list_all_iff)

lemma PerfectKeywordHash_sound:
  assumes "PerfectKeywordHash_GetToken s (length s) = t" and "t \<noteq> Token_IDENTIFIER"
  shows "(s, t) \<in> set eng_words"
proof -
  define key where "key = unat (PerfectKeywordHash_Hash s (length s) AND 0x3f)"
  obtain name val where e: "kPerfectKeywordHashTable ! key = (name, val)"
    by (cases "kPerfectKeywordHashTable ! key")
  have "key < 64"
  proof -
    have "(0x3f :: 32 word) = mask 6" by (simp add: mask_eq_exp_minus_1)
    then have "key = unat (PerfectKeywordHash_Hash s (length s)) mod 2 ^ 6"
      unfolding key_def by (simp only: unat_and_mask_numeral)
    then show ?thesis by simp
  qed
  then have t: "length name = kPerfectKeywordLengthTable ! key"
      "name \<noteq> [] \<longrightarrow> (ascii name, val) \<in> set eng_words"
    using hash_table_names [unfolded list_all_iff, rule_format, of key] e
    by (auto simp: keyword_bytes_def)
  have g: "2 \<le> length s" "length s = kPerfectKeywordLengthTable ! key" "same_name (ascii name) s" "t = val"
    using assms e unfolding PerfectKeywordHash_GetToken_def key_def [symmetric] Let_def
    by (auto split: if_splits)
  with t have "ascii name = s"
    using same_name_iff [of "ascii name" s] by simp
  with g t show ?thesis by auto
qed

lemma PerfectKeywordHash_lookup:
  "PerfectKeywordHash_GetToken s (length s) =
     (case map_of eng_words s of None \<Rightarrow> Token_IDENTIFIER | Some t \<Rightarrow> t)"
proof (cases "map_of eng_words s")
  case None
  then have "(s, t) \<notin> set eng_words" for t
    by (auto simp: map_of_eq_None_iff image_iff)
  then have "PerfectKeywordHash_GetToken s (length s) = Token_IDENTIFIER"
    using PerfectKeywordHash_sound by blast
  with None show ?thesis by simp
next
  case (Some t)
  then show ?thesis
    using PerfectKeywordHash_complete map_of_SomeD by fastforce
qed

interpretation eng: keyword_table is_ascii "\<lambda>s. PerfectKeywordHash_GetToken s (length s)" eng_words
  using words_well_formedD [OF eng_words_well_formed] PerfectKeywordHash_lookup
  by unfold_locales (auto simp: is_ascii_def list_all_iff)

section \<open>The Spanish table\<close>

text \<open>The words of \<^verbatim>\<open>src/parsing/keywords/keywords-spa.txt\<close>, from which the switch is
  generated.\<close>

definition spa_keywords :: "(string \<times> token) list" where
  "spa_keywords =
     [(''asinc'', Token_ASYNC), (''espera'', Token_AWAIT), (''sal'', Token_BREAK),
      (''caso'', Token_CASE), (''atrapa'', Token_CATCH), (''clase'', Token_CLASS),
      (''const'', Token_CONST), (''continua'', Token_CONTINUE), (''depurador'', Token_DEBUGGER),
      (''defecto'', Token_DEFAULT), (''borra'', Token_DELETE), (''haz'', Token_DO),
      (''sino'', Token_ELSE), (''enum'', Token_ENUM), (''exporta'', Token_EXPORT),
      (''extiende'', Token_EXTENDS), (''falso'', Token_FALSE_LITERAL), (''enfin'', Token_FINALLY),
      (''por'', Token_FOR), (''funcion'', Token_FUNCTION), (''lee'', Token_GET),
      (''si'', Token_IF), (''implementa'', Token_FUTURE_STRICT_RESERVED_WORD), (''importa'', Token_IMPORT),
      (''en'', Token_IN), (''instanciade'', Token_INSTANCEOF), (''interfaz'', Token_FUTURE_STRICT_RESERVED_WORD),
      (''sea'', Token_LET), (''nuevo'', Token_NEW), (''nulo'', Token_NULL_LITERAL),
      (''paquete'', Token_FUTURE_STRICT_RESERVED_WORD), (''privado'', Token_FUTURE_STRICT_RESERVED_WORD), (''protegido'', Token_FUTURE_STRICT_RESERVED_WORD),
      (''publico'', Token_FUTURE_STRICT_RESERVED_WORD), (''devuelve'', Token_RETURN), (''pon'', Token_SET),
      (''estatico'', Token_STATIC), (''super'', Token_SUPER), (''cambio'', Token_SWITCH),
      (''este'', Token_THIS), (''lanza'', Token_THROW), (''cierto'', Token_TRUE_LITERAL),
      (''prueba'', Token_TRY), (''tipode'', Token_TYPEOF), (''var'', Token_VAR),
      (''vacio'', Token_VOID), (''mientras'', Token_WHILE), (''con'', Token_WITH),
      (''cede'', Token_YIELD)]"

abbreviation spa_words :: "(byte list \<times> token) list" where
  "spa_words \<equiv> keyword_bytes spa_keywords"

lemma spa_words_well_formed: "words_well_formed spa_words"
  by code_simp

lemma strncmp_chain_lookup:
  assumes "list_all (\<lambda>(s, t). length s = length str \<and> 0 \<notin> set s) (keyword_bytes ws)"
  shows "strncmp_chain str (length str) ws =
    (case map_of (keyword_bytes ws) str of None \<Rightarrow> Token_IDENTIFIER | Some t \<Rightarrow> t)"
  using assms
proof (induction ws)
  case (Cons w ws)
  obtain k t where w: "w = (k, t)" by (cases w)
  with Cons.prems strncmp_eq [of str "ascii k"]
  have "strncmp str (ascii k) (length str) = 0 \<longleftrightarrow> str = ascii k"
    by (auto simp: keyword_bytes_def)
  with Cons w show ?case by (auto simp: keyword_bytes_def)
qed (simp add: keyword_bytes_def)

text \<open>The words of one length.\<close>

definition words_of_length :: "nat \<Rightarrow> (string \<times> token) list \<Rightarrow> (string \<times> token) list" where
  "words_of_length n ws = filter (\<lambda>w. length (fst w) = n) ws"

lemma map_of_words_of_length:
  "map_of (keyword_bytes (words_of_length (length str) ws)) str = map_of (keyword_bytes ws) str"
  by (induction ws) (auto simp: words_of_length_def keyword_bytes_def)

lemma spa_words_lengths:
  "words_of_length n spa_keywords \<noteq> [] \<Longrightarrow> n \<in> set [2, 3, 4, 5, 6, 7, 8, 9, 10, 11]"
proof -
  have "list_all (\<lambda>w. length (fst w) \<in> set [2, 3, 4, 5, 6, 7, 8, 9, 10, 11]) spa_keywords"
    by code_simp
  moreover assume "words_of_length n spa_keywords \<noteq> []"
  then obtain w where "w \<in> set spa_keywords" "length (fst w) = n"
    by (auto simp: words_of_length_def filter_empty_conv)
  ultimately show "n \<in> set [2, 3, 4, 5, 6, 7, 8, 9, 10, 11]"
    unfolding list_all_iff by blast
qed

lemma spa_words_by_length:
  "words_of_length 2 spa_keywords =
    [(''si'', Token_IF), (''en'', Token_IN)]"
  "words_of_length 3 spa_keywords =
    [(''sal'', Token_BREAK), (''haz'', Token_DO), (''por'', Token_FOR),
     (''lee'', Token_GET), (''sea'', Token_LET), (''pon'', Token_SET),
     (''var'', Token_VAR), (''con'', Token_WITH)]"
  "words_of_length 4 spa_keywords =
    [(''caso'', Token_CASE), (''sino'', Token_ELSE), (''enum'', Token_ENUM),
     (''nulo'', Token_NULL_LITERAL), (''este'', Token_THIS), (''cede'', Token_YIELD)]"
  "words_of_length 5 spa_keywords =
    [(''asinc'', Token_ASYNC), (''clase'', Token_CLASS), (''const'', Token_CONST),
     (''borra'', Token_DELETE), (''falso'', Token_FALSE_LITERAL), (''enfin'', Token_FINALLY),
     (''nuevo'', Token_NEW), (''super'', Token_SUPER), (''lanza'', Token_THROW),
     (''vacio'', Token_VOID)]"
  "words_of_length 6 spa_keywords =
    [(''espera'', Token_AWAIT), (''atrapa'', Token_CATCH), (''cambio'', Token_SWITCH),
     (''cierto'', Token_TRUE_LITERAL), (''prueba'', Token_TRY), (''tipode'', Token_TYPEOF)]"
  "words_of_length 7 spa_keywords =
    [(''defecto'', Token_DEFAULT), (''exporta'', Token_EXPORT), (''funcion'', Token_FUNCTION),
     (''importa'', Token_IMPORT), (''paquete'', Token_FUTURE_STRICT_RESERVED_WORD), (''privado'', Token_FUTURE_STRICT_RESERVED_WORD),
     (''publico'', Token_FUTURE_STRICT_RESERVED_WORD)]"
  "words_of_length 8 spa_keywords =
    [(''continua'', Token_CONTINUE), (''extiende'', Token_EXTENDS), (''interfaz'', Token_FUTURE_STRICT_RESERVED_WORD),
     (''devuelve'', Token_RETURN), (''estatico'', Token_STATIC), (''mientras'', Token_WHILE)]"
  "words_of_length 9 spa_keywords =
    [(''depurador'', Token_DEBUGGER), (''protegido'', Token_FUTURE_STRICT_RESERVED_WORD)]"
  "words_of_length 10 spa_keywords =
    [(''implementa'', Token_FUTURE_STRICT_RESERVED_WORD)]"
  "words_of_length 11 spa_keywords =
    [(''instanciade'', Token_INSTANCEOF)]"
  by code_simp+

lemma JsSpa_switch:
  "JsSpaKeywordHash_GetToken str len = strncmp_chain str len (words_of_length len spa_keywords)"
proof (cases "len \<in> set [2, 3, 4, 5, 6, 7, 8, 9, 10, 11]")
  case True
  then show ?thesis
    unfolding JsSpaKeywordHash_GetToken_def
    by (auto simp: spa_words_by_length simp del: strncmp_chain.simps)
next
  case False
  moreover from this have "words_of_length len spa_keywords = []"
    using spa_words_lengths by blast
  ultimately show ?thesis
    by (simp add: JsSpaKeywordHash_GetToken_def)
qed

lemma JsSpaKeywordHash_lookup:
  "JsSpaKeywordHash_GetToken s (length s) =
     (case map_of spa_words s of None \<Rightarrow> Token_IDENTIFIER | Some t \<Rightarrow> t)"
proof -
  have "list_all (\<lambda>(k, t). length k = length s \<and> 0 \<notin> set k)
      (keyword_bytes (words_of_length (length s) spa_keywords))"
    using words_well_formedD(4) [OF spa_words_well_formed]
    by (fastforce simp: list_all_iff keyword_bytes_def words_of_length_def)
  from strncmp_chain_lookup [OF this] show ?thesis
    by (simp add: JsSpa_switch map_of_words_of_length)
qed

interpretation spa: keyword_table "\<lambda>_. True" "\<lambda>s. JsSpaKeywordHash_GetToken s (length s)" spa_words
  using words_well_formedD [OF spa_words_well_formed] JsSpaKeywordHash_lookup
  by unfold_locales auto

section \<open>Keyword recognition\<close>

definition dialect_words :: "SourceDialect \<Rightarrow> (byte list \<times> token) list" where
  "dialect_words d = (case d of kJsEng \<Rightarrow> eng_words | kJsSpa \<Rightarrow> spa_words)"

text \<open>What a dialect's lookup may be given: the English hash reads a table of 128
  entries at the first two bytes of the word.\<close>

definition lookup_in_bounds :: "SourceDialect \<Rightarrow> byte list \<Rightarrow> bool" where
  "lookup_in_bounds d s \<longleftrightarrow> (d = kJsEng \<longrightarrow> is_ascii s)"

lemma KeywordOrIdentifierToken_lookup:
  "KeywordOrIdentifierToken d s (length s) =
     (case map_of (dialect_words d) s of None \<Rightarrow> Token_IDENTIFIER | Some t \<Rightarrow> t)"
  by (cases d) (simp_all add: KeywordOrIdentifierToken_def dialect_words_def
      PerfectKeywordHash_lookup JsSpaKeywordHash_lookup)

interpretation dialect: keyword_table "lookup_in_bounds d"
    "\<lambda>s. KeywordOrIdentifierToken d s (length s)" "dialect_words d" for d
  using words_well_formedD [OF eng_words_well_formed] words_well_formedD [OF spa_words_well_formed]
    KeywordOrIdentifierToken_lookup [of d]
  by (cases d; unfold_locales)
    (auto simp: lookup_in_bounds_def is_ascii_def list_all_iff dialect_words_def)

lemma hash_key_bound: "unat (PerfectKeywordHash_Hash s n AND 0x3f) < 64"
proof -
  have "(0x3f :: 32 word) = mask 6" by (simp add: mask_eq_exp_minus_1)
  then have "unat (PerfectKeywordHash_Hash s n AND 0x3f) = unat (PerfectKeywordHash_Hash s n) mod 2 ^ 6"
    by (simp only: unat_and_mask_numeral)
  then show ?thesis by simp
qed

lemma table_lengths:
  "length asso_values = 128" "length kPerfectKeywordHashTable = 64"
  "length kPerfectKeywordLengthTable = 64"
  by code_simp+

text \<open>C30. The perfect hash is exactly the list of English keywords the scanner is
  written against (the macro \<^verbatim>\<open>KEYWORDS\<close>): every ASCII word gets its token from that
  list, every other word is an identifier, and on ASCII input no access leaves the
  three tables.\<close>

theorem PerfectKeywordHash_correct:
  assumes "is_ascii s"
  shows "PerfectKeywordHash_GetToken s (length s) =
      (case map_of eng_words s of None \<Rightarrow> Token_IDENTIFIER | Some t \<Rightarrow> t) \<and>
    (\<forall>i < length s. unat (s ! i) < length asso_values) \<and>
    unat (PerfectKeywordHash_Hash s (length s) AND 0x3f) < length kPerfectKeywordHashTable \<and>
    length kPerfectKeywordHashTable = length kPerfectKeywordLengthTable"
  using assms hash_key_bound eng.lookup_words [OF assms]
  by (simp add: table_lengths is_ascii_def list_all_length word_less_nat_alt)

theorem PerfectKeywordHash_correct_witness:
  "is_ascii (ascii ''while'') \<and> PerfectKeywordHash_GetToken (ascii ''while'') 5 = Token_WHILE \<and>
   unat (ascii ''while'' ! 4) < length asso_values"
proof -
  have a: "is_ascii (ascii ''while'')" by code_simp
  moreover have "map_of eng_words (ascii ''while'') = Some Token_WHILE" by code_simp
  ultimately show ?thesis
    using PerfectKeywordHash_correct [OF a] by (simp add: eval_nat_numeral del: ascii_simps)
qed

text \<open>C31. The Spanish switch is exactly the Spanish word list: on every byte string,
  ASCII or not, it returns the token of the list, or \<^verbatim>\<open>IDENTIFIER\<close>.\<close>

theorem JsSpaKeywordHash_correct:
  "JsSpaKeywordHash_GetToken s (length s) =
     (case map_of spa_words s of None \<Rightarrow> Token_IDENTIFIER | Some t \<Rightarrow> t)"
  using spa.lookup_words by blast

lemma keyword_counts:
  "length (filter (\<lambda>w. snd w = t) spa_words) = length (filter (\<lambda>w. snd w = t) eng_words)"
  by (rule all_tokensI [where t = t]) code_simp

text \<open>The two dialects are the same language: each reserved token has as many
  Spanish as English spellings (one each, apart from the six words reserved in strict
  mode), so no construct is lost or added by translation; and within a dialect a
  token that is not one of those six has a single spelling.\<close>

lemma dialects_same_tokens:
  "length (filter (\<lambda>w. snd w = t) (dialect_words kJsSpa)) =
     length (filter (\<lambda>w. snd w = t) (dialect_words kJsEng)) \<and>
   (lookup_in_bounds d s \<and> lookup_in_bounds d s' \<and> t \<noteq> Token_IDENTIFIER \<and>
    t \<noteq> Token_FUTURE_STRICT_RESERVED_WORD \<and>
    KeywordOrIdentifierToken d s (length s) = t \<and> KeywordOrIdentifierToken d s' (length s') = t
    \<longrightarrow> s = s')"
proof -
  have "length (filter (\<lambda>w. snd w = t) (dialect_words kJsSpa)) =
     length (filter (\<lambda>w. snd w = t) (dialect_words kJsEng))"
    using keyword_counts by (simp add: dialect_words_def)
  then show ?thesis using dialect.one_spelling [of d s s'] by auto
qed

section \<open>Pseudo-keyword recognition\<close>

definition pseudo_keywords :: "PseudoKeywordName list" where
  "pseudo_keywords = [kArguments, kAs, kConstructor, kEval, kFrom, kMeta, kOf, kProto, kTarget]"

lemma pseudo_keywords_complete: "n \<in> set pseudo_keywords"
  by (cases n) (simp_all add: pseudo_keywords_def)

lemma spelling_facts:
  "list_all (\<lambda>d. distinct (map (\<lambda>n. ascii (SourceDialectNameSpelling d n)) pseudo_keywords) \<and>
     list_all (\<lambda>n. let s = ascii (SourceDialectNameSpelling d n)
        in 0 \<notin> set s \<and> KeywordOrIdentifierToken d s (length s) = Token_IDENTIFIER) pseudo_keywords)
   [kJsEng, kJsSpa]"
  by code_simp

lemma spelling:
  "distinct (map (\<lambda>n. ascii (SourceDialectNameSpelling d n)) pseudo_keywords)"
  "0 \<notin> set (ascii (SourceDialectNameSpelling d n))"
  "KeywordOrIdentifierToken d (ascii (SourceDialectNameSpelling d n))
     (length (SourceDialectNameSpelling d n)) = Token_IDENTIFIER"
  using spelling_facts pseudo_keywords_complete [of n]
  by (cases d; force simp: list_all_iff Let_def)+

lemma spelling_inj:
  "ascii (SourceDialectNameSpelling d n) = ascii (SourceDialectNameSpelling d m) \<Longrightarrow> n = m"
  using spelling(1) [of d] pseudo_keywords_complete
  by (auto simp: distinct_map dest: inj_onD)

text \<open>Contextual keywords work in both dialects: a pseudo-keyword's spelling is
  not a reserved word of its dialect, so the scanner delivers it as an identifier; it
  is recognised exactly on the one-byte string with that spelling; and no string is
  two pseudo-keywords at once.\<close>

lemma pseudo_keyword_recognition:
  "KeywordOrIdentifierToken d (ascii (SourceDialectNameSpelling d n))
     (length (SourceDialectNameSpelling d n)) = Token_IDENTIFIER \<and>
   (AstRawStringEqualsSourceDialectName (Some s) d n \<longleftrightarrow>
     ast_is_one_byte s \<and> literal_bytes s = ascii (SourceDialectNameSpelling d n)) \<and>
   \<not> (n \<noteq> m \<and> AstRawStringEqualsSourceDialectName (Some s) d n \<and>
      AstRawStringEqualsSourceDialectName (Some s) d m)"
  using spelling(2,3) [of d n] spelling(2) [of d m] spelling_inj [of d n m]
  by (auto simp: AstRawStringEqualsSourceDialectName_def IsOneByteEqualTo_iff)

end
