(* ===== verification/Literal_Buffer.thy ===== *)
theory Literal_Buffer
  imports Unicode
begin

text \<open>
  The collector of literal characters, \<^verbatim>\<open>src/parsing/literal-buffer.h\<close> and
  \<^verbatim>\<open>literal-buffer.cc\<close>: a growing byte store that holds one-byte characters until the
  first character above U+00FF and is then widened, in place when there is room.
  The store is the list of its bytes, two-byte units little-endian as on the
  engine's targets; fresh memory is zero in the model, and nothing read later
  depends on it. \<^verbatim>\<open>int\<close> sizes are natural numbers: the source text, and with it the
  literal, is shorter than \<open>2\<^sup>3\<^sup>0\<close> code units.
\<close>

section \<open>The buffer\<close>

record LiteralBuffer =
  backing_store :: "byte list"
  position :: nat
  is_one_byte :: bool

definition LiteralBuffer_init :: LiteralBuffer where
  "LiteralBuffer_init = \<lparr> backing_store = [], position = 0, is_one_byte = True \<rparr>"

abbreviation kInitialCapacity :: nat where "kInitialCapacity \<equiv> 16"
abbreviation kGrowthFactor :: nat where "kGrowthFactor \<equiv> 4"
abbreviation kMaxGrowth :: nat where "kMaxGrowth \<equiv> 1048576"
abbreviation kUC16Size :: nat where "kUC16Size \<equiv> 2"

text \<open>A \<^verbatim>\<open>uint16_t\<close> access to the store at a byte offset.\<close>

definition write16 :: "byte list \<Rightarrow> nat \<Rightarrow> uc16 \<Rightarrow> byte list" where
  "write16 store p u = store[p := ucast u, Suc p := ucast (drop_bit 8 u)]"

definition read16 :: "byte list \<Rightarrow> nat \<Rightarrow> uc16" where
  "read16 store p = push_bit 8 (ucast (store ! Suc p)) OR ucast (store ! p)"

definition vector_New :: "nat \<Rightarrow> byte list" where
  "vector_New n = replicate n 0"

definition MemCopy :: "byte list \<Rightarrow> byte list \<Rightarrow> nat \<Rightarrow> byte list" where
  "MemCopy dst src n = take n src @ drop n dst"

definition NewCapacity :: "nat \<Rightarrow> nat" where
  "NewCapacity min_capacity =
     (if min_capacity < kMaxGrowth div (kGrowthFactor - 1)
      then min_capacity * kGrowthFactor else min_capacity + kMaxGrowth)"

definition ExpandBuffer :: "LiteralBuffer \<Rightarrow> LiteralBuffer" where
  "ExpandBuffer b =
     (let min_capacity = max kInitialCapacity (length (backing_store b));
          new_store = vector_New (NewCapacity min_capacity);
          new_store = (if position b > 0 then MemCopy new_store (backing_store b) (position b)
                       else new_store)
      in b \<lparr> backing_store := new_store \<rparr>)"

text \<open>
  The widening loop runs from the last character down. When the store is large
  enough, source and destination are the same memory; otherwise the destination is
  fresh.
\<close>

fun widen_in_place :: "nat \<Rightarrow> byte list \<Rightarrow> byte list" where
  "widen_in_place 0 store = store"
| "widen_in_place (Suc i) store = widen_in_place i (write16 store (2 * i) (ucast (store ! i)))"

fun widen_to :: "nat \<Rightarrow> byte list \<Rightarrow> byte list \<Rightarrow> byte list" where
  "widen_to 0 src dst = dst"
| "widen_to (Suc i) src dst = widen_to i src (write16 dst (2 * i) (ucast (src ! i)))"

definition ConvertToTwoByte :: "LiteralBuffer \<Rightarrow> LiteralBuffer" where
  "ConvertToTwoByte b =
     (let new_content_size = position b * kUC16Size;
          store =
            (if new_content_size \<ge> length (backing_store b)
             then widen_to (position b) (backing_store b) (vector_New (NewCapacity new_content_size))
             else widen_in_place (position b) (backing_store b))
      in b \<lparr> backing_store := store, position := new_content_size, is_one_byte := False \<rparr>)"

definition AddOneByteChar :: "LiteralBuffer \<Rightarrow> byte \<Rightarrow> LiteralBuffer" where
  "AddOneByteChar b one_byte_char =
     (let b = (if position b \<ge> length (backing_store b) then ExpandBuffer b else b)
      in b \<lparr> backing_store := (backing_store b)[position b := one_byte_char],
             position := position b + 1 \<rparr>)"

definition AddTwoByteUnit :: "LiteralBuffer \<Rightarrow> uc16 \<Rightarrow> LiteralBuffer" where
  "AddTwoByteUnit b u =
     (let b = (if position b \<ge> length (backing_store b) then ExpandBuffer b else b)
      in b \<lparr> backing_store := write16 (backing_store b) (position b) u,
             position := position b + kUC16Size \<rparr>)"

definition AddTwoByteChar :: "LiteralBuffer \<Rightarrow> uc32 \<Rightarrow> LiteralBuffer" where
  "AddTwoByteChar b code_unit =
     (if code_unit \<le> kMaxNonSurrogateCharCode then AddTwoByteUnit b (ucast code_unit)
      else AddTwoByteUnit (AddTwoByteUnit b (LeadSurrogate code_unit)) (TrailSurrogate code_unit))"

definition AddChar :: "LiteralBuffer \<Rightarrow> uc32 \<Rightarrow> LiteralBuffer" where
  "AddChar b code_unit =
     (if is_one_byte b
      then if code_unit \<le> 0xff then AddOneByteChar b (ucast code_unit)
           else AddTwoByteChar (ConvertToTwoByte b) code_unit
      else AddTwoByteChar b code_unit)"

text \<open>\<^verbatim>\<open>AddChar(char)\<close> is used for ASCII characters while the buffer is one-byte.\<close>

definition AddChar_char :: "LiteralBuffer \<Rightarrow> byte \<Rightarrow> LiteralBuffer" where
  "AddChar_char b code_unit = AddOneByteChar b code_unit"

definition LiteralBuffer_Start :: "LiteralBuffer \<Rightarrow> LiteralBuffer" where
  "LiteralBuffer_Start b = b \<lparr> position := 0, is_one_byte := True \<rparr>"

definition one_byte_literal :: "LiteralBuffer \<Rightarrow> byte list" where
  "one_byte_literal b = take (position b) (backing_store b)"

definition two_byte_literal :: "LiteralBuffer \<Rightarrow> uc16 list" where
  "two_byte_literal b = map (\<lambda>i. read16 (backing_store b) (2 * i)) [0..<position b div 2]"

definition LiteralBuffer_length :: "LiteralBuffer \<Rightarrow> nat" where
  "LiteralBuffer_length b = (if is_one_byte b then position b else position b div 2)"

definition LiteralBuffer_Equals :: "LiteralBuffer \<Rightarrow> byte list \<Rightarrow> bool" where
  "LiteralBuffer_Equals b keyword \<longleftrightarrow>
     is_one_byte b \<and> length keyword = position b \<and>
     keyword = take (position b) (backing_store b)"

section \<open>Invariant and abstraction\<close>

text \<open>The code units a buffer holds, and those a character contributes.\<close>

definition literal_units :: "LiteralBuffer \<Rightarrow> uc16 list" where
  "literal_units b = (if is_one_byte b then map ucast (one_byte_literal b) else two_byte_literal b)"

definition code_units :: "uc32 \<Rightarrow> uc16 list" where
  "code_units c = (if c \<le> kMaxNonSurrogateCharCode then [ucast c] else [LeadSurrogate c, TrailSurrogate c])"

definition literal_inv :: "LiteralBuffer \<Rightarrow> bool" where
  "literal_inv b \<longleftrightarrow> position b \<le> length (backing_store b) \<and> even (length (backing_store b)) \<and>
     (\<not> is_one_byte b \<longrightarrow> even (position b))"

section \<open>Two-byte accesses\<close>

lemma length_write16 [simp]: "length (write16 st p u) = length st"
  by (simp add: write16_def)

lemma nth_write16:
  "write16 st p u ! k =
     (if k = Suc p \<and> k < length st then ucast (drop_bit 8 u)
      else if k = p \<and> k < length st then ucast u else st ! k)"
  by (cases "Suc p < length st"; cases "p < length st")
    (auto simp: write16_def nth_list_update list_update_beyond)

lemma join_bytes: "push_bit 8 (ucast (ucast (drop_bit 8 (u :: uc16)) :: byte)) OR ucast (ucast u :: byte) = u"
  by (rule bit_word_eqI) (auto simp: bit_simps)

lemma read_write16:
  assumes "even p" and "even q" and "Suc p < length st"
  shows "read16 (write16 st p u) q = (if p = q then u else read16 st q)"
proof -
  have "p \<noteq> Suc q" "q \<noteq> Suc p" using assms(1,2) by auto
  with assms(3) show ?thesis by (auto simp: read16_def nth_write16 join_bytes)
qed

lemma read16_cong: "st ! p = st' ! p \<Longrightarrow> st ! Suc p = st' ! Suc p \<Longrightarrow> read16 st p = read16 st' p"
  by (simp add: read16_def)

section \<open>Widening\<close>

lemma length_widen_in_place [simp]: "length (widen_in_place n st) = length st"
  by (induction n arbitrary: st) auto

lemma length_widen_to [simp]: "length (widen_to n src dst) = length dst"
  by (induction n arbitrary: dst) auto

lemma widen_in_place_above: "2 * n \<le> k \<Longrightarrow> widen_in_place n st ! k = st ! k"
  by (induction n arbitrary: st) (auto simp: nth_write16)

lemma widen_to_above: "2 * n \<le> k \<Longrightarrow> widen_to n src dst ! k = dst ! k"
  by (induction n arbitrary: dst) (auto simp: nth_write16)

text \<open>
  The in-place loop never overwrites a byte it has still to read: it writes at
  \<open>2 * i\<close> and above, and reads below \<open>i\<close> from then on.
\<close>

lemma read_widen_in_place:
  "i < n \<Longrightarrow> 2 * n \<le> length st \<Longrightarrow> read16 (widen_in_place n st) (2 * i) = ucast (st ! i)"
proof (induction n arbitrary: st)
  case (Suc n)
  let ?st = "write16 st (2 * n) (ucast (st ! n))"
  show ?case
  proof (cases "i = n")
    case True
    have "read16 (widen_in_place n ?st) (2 * n) = read16 ?st (2 * n)"
      by (rule read16_cong) (simp_all add: widen_in_place_above)
    then show ?thesis using True Suc.prems by (simp add: read_write16)
  next
    case False
    then have "i < n" using Suc.prems by simp
    then have "?st ! i = st ! i" by (simp add: nth_write16)
    with Suc.IH [of ?st] \<open>i < n\<close> Suc.prems show ?thesis by simp
  qed
qed simp

lemma read_widen_to:
  "i < n \<Longrightarrow> 2 * n \<le> length dst \<Longrightarrow> read16 (widen_to n src dst) (2 * i) = ucast (src ! i)"
proof (induction n arbitrary: dst)
  case (Suc n)
  let ?dst = "write16 dst (2 * n) (ucast (src ! n))"
  show ?case
  proof (cases "i = n")
    case True
    have "read16 (widen_to n src ?dst) (2 * n) = read16 ?dst (2 * n)"
      by (rule read16_cong) (simp_all add: widen_to_above)
    then show ?thesis using True Suc.prems by (simp add: read_write16)
  next
    case False
    then have "i < n" using Suc.prems by simp
    with Suc.IH [of ?dst] Suc.prems show ?thesis by simp
  qed
qed simp

lemma NewCapacity_ge: "n \<le> NewCapacity n" and NewCapacity_even: "even n \<Longrightarrow> even (NewCapacity n)"
  by (simp_all add: NewCapacity_def)

lemma ConvertToTwoByte_spec:
  assumes "literal_inv b" and "is_one_byte b"
  shows "literal_inv (ConvertToTwoByte b) \<and> \<not> is_one_byte (ConvertToTwoByte b) \<and>
    literal_units (ConvertToTwoByte b) = literal_units b"
proof -
  define st where "st = backing_store (ConvertToTwoByte b)"
  have pos: "position (ConvertToTwoByte b) = 2 * position b"
    "\<not> is_one_byte (ConvertToTwoByte b)"
    by (simp_all add: ConvertToTwoByte_def Let_def)
  have len: "2 * position b \<le> length st" "even (length st)"
    using assms NewCapacity_ge [of "2 * position b"] NewCapacity_even [of "2 * position b"]
    by (auto simp: st_def ConvertToTwoByte_def Let_def literal_inv_def vector_New_def mult.commute [of _ 2])
  have rd: "read16 st (2 * i) = ucast (backing_store b ! i)" if "i < position b" for i
    using that assms NewCapacity_ge [of "2 * position b"]
    by (auto simp: st_def ConvertToTwoByte_def Let_def literal_inv_def vector_New_def mult.commute [of _ 2]
        read_widen_to read_widen_in_place)
  have "two_byte_literal (ConvertToTwoByte b) = map ucast (one_byte_literal b)"
    using assms(1) rd
    by (auto simp: two_byte_literal_def one_byte_literal_def pos literal_inv_def st_def [symmetric]
        intro!: nth_equalityI)
  with pos len assms(2) show ?thesis
    by (simp add: literal_inv_def literal_units_def st_def)
qed

section \<open>Growing and appending\<close>

lemma ExpandBuffer_spec:
  assumes "literal_inv b"
  shows "literal_inv (ExpandBuffer b) \<and> is_one_byte (ExpandBuffer b) = is_one_byte b \<and>
    position (ExpandBuffer b) = position b \<and>
    literal_units (ExpandBuffer b) = literal_units b \<and>
    length (backing_store b) + 2 \<le> length (backing_store (ExpandBuffer b))"
proof -
  let ?n = "max kInitialCapacity (length (backing_store b))"
  define st where "st = backing_store (ExpandBuffer b)"
  have fields: "position (ExpandBuffer b) = position b" "is_one_byte (ExpandBuffer b) = is_one_byte b"
    by (simp_all add: ExpandBuffer_def Let_def)
  have cap: "?n + 2 \<le> NewCapacity ?n" by (auto simp: NewCapacity_def max_def)
  have len: "length st = NewCapacity ?n"
    using assms cap by (auto simp: st_def ExpandBuffer_def Let_def vector_New_def MemCopy_def literal_inv_def)
  have "even ?n" using assms by (simp add: literal_inv_def max_def)
  then have ev: "even (length st)" using NewCapacity_even len by simp
  have same: "st ! i = backing_store b ! i" if "i < position b" for i
    using that assms by (auto simp: st_def ExpandBuffer_def Let_def MemCopy_def literal_inv_def nth_append)
  have "take (position b) st = take (position b) (backing_store b)"
    using assms len cap same by (auto simp: literal_inv_def intro!: nth_equalityI)
  moreover have "read16 st (2 * i) = read16 (backing_store b) (2 * i)" if "i < position b div 2" for i
    using that same by (intro read16_cong) auto
  ultimately show ?thesis
    using assms fields len cap ev
    by (auto simp: literal_units_def one_byte_literal_def two_byte_literal_def literal_inv_def
        st_def [symmetric])
qed

lemma make_room:
  assumes "literal_inv b"
  defines "b' \<equiv> (if position b \<ge> length (backing_store b) then ExpandBuffer b else b)"
  shows "literal_inv b' \<and> is_one_byte b' = is_one_byte b \<and> position b' = position b \<and>
    literal_units b' = literal_units b \<and> position b' < length (backing_store b')"
  using assms(1) ExpandBuffer_spec [OF assms(1)] by (auto simp: b'_def literal_inv_def)


lemma AddOneByteChar_spec:
  assumes "literal_inv b" and "is_one_byte b"
  shows "literal_inv (AddOneByteChar b c) \<and> is_one_byte (AddOneByteChar b c) \<and>
    literal_units (AddOneByteChar b c) = literal_units b @ [ucast c]"
proof -
  define b' where "b' = (if position b \<ge> length (backing_store b) then ExpandBuffer b else b)"
  have r: "literal_inv b'" "is_one_byte b'" "literal_units b' = literal_units b"
    "position b' < length (backing_store b')"
    using make_room [OF assms(1)] assms(2) by (simp_all add: b'_def)
  have "AddOneByteChar b c = b' \<lparr> backing_store := (backing_store b')[position b' := c],
      position := position b' + 1 \<rparr>"
    by (simp add: AddOneByteChar_def Let_def b'_def)
  moreover have "literal_units b' @ [ucast c] =
      map ucast (take (Suc (position b')) ((backing_store b')[position b' := c]))"
    using r by (simp add: literal_units_def one_byte_literal_def take_Suc_conv_app_nth)
  ultimately show ?thesis
    using r by (simp add: literal_inv_def literal_units_def one_byte_literal_def)
qed

lemma AddTwoByteUnit_spec:
  assumes "literal_inv b" and "\<not> is_one_byte b"
  shows "literal_inv (AddTwoByteUnit b u) \<and> \<not> is_one_byte (AddTwoByteUnit b u) \<and>
    literal_units (AddTwoByteUnit b u) = literal_units b @ [u]"
proof -
  define b' where "b' = (if position b \<ge> length (backing_store b) then ExpandBuffer b else b)"
  have r: "literal_inv b'" "\<not> is_one_byte b'" "literal_units b' = literal_units b"
    "position b' < length (backing_store b')"
    using make_room [OF assms(1)] assms(2) by (simp_all add: b'_def)
  then obtain n where n: "position b' = 2 * n"
    by (auto simp: literal_inv_def elim: evenE)
  have room: "Suc (2 * n) < length (backing_store b')"
    using r n by (auto simp: literal_inv_def elim!: evenE)
  have new: "AddTwoByteUnit b u = b' \<lparr> backing_store := write16 (backing_store b') (2 * n) u,
      position := 2 * Suc n \<rparr>"
    by (simp add: AddTwoByteUnit_def Let_def flip: b'_def) (simp add: n)
  have "map (\<lambda>i. read16 (write16 (backing_store b') (2 * n) u) (2 * i)) [0..<n] =
      map (\<lambda>i. read16 (backing_store b') (2 * i)) [0..<n]"
    using room by (simp add: read_write16)
  moreover have "read16 (write16 (backing_store b') (2 * n) u) (2 * n) = u"
    using room by (simp add: read_write16)
  ultimately have "literal_units (AddTwoByteUnit b u) = literal_units b' @ [u]"
    using r(2) n new by (simp add: literal_units_def two_byte_literal_def)
  with r room n new show ?thesis
    by (simp add: literal_inv_def)
qed

lemma AddTwoByteChar_spec:
  assumes "literal_inv b" and "\<not> is_one_byte b"
  shows "literal_inv (AddTwoByteChar b c) \<and> \<not> is_one_byte (AddTwoByteChar b c) \<and>
    literal_units (AddTwoByteChar b c) = literal_units b @ code_units c"
  using AddTwoByteUnit_spec [OF assms] AddTwoByteUnit_spec
  by (simp add: AddTwoByteChar_def code_units_def)

lemma code_units_unit: "code_units (ucast (u :: uc16)) = [u]"
proof -
  have "(ucast u :: uc32) \<le> 0xFFFF" "(ucast (ucast u :: uc32) :: uc16) = u"
    using unat_uc16_less [of u] by (simp_all add: word_le_nat_alt word_unat_eq_iff unat_widen unat_ucast)
  then show ?thesis by (simp add: code_units_def)
qed

lemma AddChar_spec:
  assumes "literal_inv b"
  shows "literal_inv (AddChar b c) \<and> (is_one_byte (AddChar b c) \<longleftrightarrow> is_one_byte b \<and> c \<le> 0xff) \<and>
    literal_units (AddChar b c) = literal_units b @ code_units c"
proof -
  consider (one) "is_one_byte b" "c \<le> 0xff" | (widen) "is_one_byte b" "\<not> c \<le> 0xff"
    | (two) "\<not> is_one_byte b" by blast
  then show ?thesis
  proof cases
    case one
    then have "c \<le> 0xffff" "ucast (ucast c :: byte) = (ucast c :: uc16)"
      by (simp_all add: word_le_nat_alt word_unat_eq_iff unat_ucast)
    with one AddOneByteChar_spec [OF assms one(1)] show ?thesis
      by (simp add: AddChar_def code_units_def)
  next
    case widen
    with ConvertToTwoByte_spec [OF assms widen(1)] AddTwoByteChar_spec [of "ConvertToTwoByte b" c]
    show ?thesis by (simp add: AddChar_def)
  next
    case two
    with AddTwoByteChar_spec [OF assms two] show ?thesis by (simp add: AddChar_def)
  qed
qed

lemma Start_spec:
  "literal_inv b \<Longrightarrow> literal_inv (LiteralBuffer_Start b) \<and> is_one_byte (LiteralBuffer_Start b) \<and>
   literal_units (LiteralBuffer_Start b) = []"
  by (simp add: LiteralBuffer_Start_def literal_inv_def literal_units_def one_byte_literal_def)

lemma init_spec: "literal_inv LiteralBuffer_init"
  by (simp add: LiteralBuffer_init_def literal_inv_def)

section \<open>The contract of a literal collector\<close>

text \<open>
  What the scanner relies on: starting empties the literal, adding a character
  appends its code units, and the one-byte flag tells whether every character so
  far was Latin-1.
\<close>

locale literal_collector =
  fixes inv :: "'b \<Rightarrow> bool"
    and units :: "'b \<Rightarrow> uc16 list"
    and one_byte :: "'b \<Rightarrow> bool"
    and start :: "'b \<Rightarrow> 'b"
    and add :: "'b \<Rightarrow> uc32 \<Rightarrow> 'b"
  assumes start_law: "inv b \<Longrightarrow> inv (start b) \<and> one_byte (start b) \<and> units (start b) = []"
    and add_law: "inv b \<Longrightarrow> inv (add b c) \<and> (one_byte (add b c) \<longleftrightarrow> one_byte b \<and> c \<le> 0xff) \<and>
      units (add b c) = units b @ code_units c"
begin

lemma fold_add:
  "inv b \<Longrightarrow> inv (foldl add b cs) \<and>
   (one_byte (foldl add b cs) \<longleftrightarrow> one_byte b \<and> list_all (\<lambda>c. c \<le> 0xff) cs) \<and>
   units (foldl add b cs) = units b @ concat (map code_units cs)"
proof (induction cs arbitrary: b)
  case (Cons c cs)
  then show ?case using add_law [OF Cons.prems, of c] Cons.IH [of "add b c"] by auto
qed simp

lemma collect:
  "inv b \<Longrightarrow> inv (foldl add (start b) cs) \<and>
   (one_byte (foldl add (start b) cs) \<longleftrightarrow> list_all (\<lambda>c. c \<le> 0xff) cs) \<and>
   units (foldl add (start b) cs) = concat (map code_units cs)"
  using start_law fold_add [of "start b" cs] by simp

end

interpretation literal: literal_collector literal_inv literal_units is_one_byte
    LiteralBuffer_Start AddChar
  using Start_spec AddChar_spec by unfold_locales

lemma LiteralBuffer_length_units: "literal_inv b \<Longrightarrow> LiteralBuffer_length b = length (literal_units b)"
  by (simp add: LiteralBuffer_length_def literal_units_def one_byte_literal_def two_byte_literal_def
      literal_inv_def)

text \<open>C36. A literal buffer holds exactly what was put into it: after \<^verbatim>\<open>Start\<close> and any
  sequence of characters, however often it grew and wherever it was widened, its
  contents are the UTF-16 code units of these characters, its length is their number,
  and it is one-byte exactly when all of them are Latin-1.\<close>

theorem literal_buffer_contents:
  assumes "literal_inv b"
  shows "literal_inv (foldl AddChar (LiteralBuffer_Start b) cs) \<and>
    literal_units (foldl AddChar (LiteralBuffer_Start b) cs) = concat (map code_units cs) \<and>
    LiteralBuffer_length (foldl AddChar (LiteralBuffer_Start b) cs) =
      length (concat (map code_units cs)) \<and>
    (is_one_byte (foldl AddChar (LiteralBuffer_Start b) cs) \<longleftrightarrow> list_all (\<lambda>c. c \<le> 0xff) cs)"
  using literal.collect [OF assms, of cs] LiteralBuffer_length_units by simp

theorem literal_buffer_contents_witness:
  "literal_units (foldl AddChar (LiteralBuffer_Start LiteralBuffer_init) [0x61, 0x20AC, 0x1F600]) =
     [0x61, 0x20AC, 0xD83D, 0xDE00]"
proof -
  have "concat (map code_units [0x61, 0x20AC, 0x1F600]) = [0x61, 0x20AC, 0xD83D, 0xDE00]"
    by code_simp
  with literal_buffer_contents [OF init_spec, of "[0x61, 0x20AC, 0x1F600]"] show ?thesis
    by (simp only:)
qed

end
