(* ===== verification/Character_Stream.thy ===== *)
theory Character_Stream
  imports Unicode
begin

text \<open>
  The character streams the scanner reads from: \<^verbatim>\<open>Utf16CharacterStream\<close>
  (\<^verbatim>\<open>src/parsing/scanner.h\<close>) and its implementations
  (\<^verbatim>\<open>src/parsing/scanner-character-streams.cc\<close>). A byte stream is a class with
  \<^verbatim>\<open>GetDataAt\<close>; a character stream copies, converts or aliases the range that
  \<^verbatim>\<open>GetDataAt\<close> returns as its current block. The locale \<open>byte_stream\<close> is the
  concept the templates are written against, \<open>block_source\<close> what the base class
  expects of \<^verbatim>\<open>ReadBlock\<close>; all byte streams and the character streams over them are
  instances. \<^verbatim>\<open>Utf8ExternalStreamingStream\<close>, which decodes its chunks, is in \<open>Utf8_Stream\<close>.

  Pointers into a buffer are offsets from its start, a \<^verbatim>\<open>size_t\<close> is a natural number.
\<close>

section \<open>Byte streams\<close>

text \<open>A stream over one piece of memory: the string's characters from
  \<^verbatim>\<open>start_offset\<close>, of which the first \<^verbatim>\<open>length\<close> are the stream.\<close>

record 'c string_stream =
  string_data :: "'c list"
  start_offset :: nat
  stream_length :: nat

definition OnHeapStream_GetDataAt :: "'c string_stream \<Rightarrow> nat \<Rightarrow> 'c list" where
  "OnHeapStream_GetDataAt s pos =
     (let from = start_offset s + min (stream_length s) pos; to = start_offset s + stream_length s
      in take (to - from) (drop from (string_data s)))"

text \<open>\<^verbatim>\<open>data_\<close> is the string's memory plus the offset.\<close>

definition ExternalStringStream_GetDataAt :: "'c string_stream \<Rightarrow> nat \<Rightarrow> 'c list" where
  "ExternalStringStream_GetDataAt s pos =
     (let data = drop (start_offset s) (string_data s); from = min (stream_length s) pos
      in take (stream_length s - from) (drop from data))"

definition TestingStream_GetDataAt :: "'c string_stream \<Rightarrow> nat \<Rightarrow> 'c list" where
  "TestingStream_GetDataAt s pos =
     (let from = min (stream_length s) pos
      in take (stream_length s - from) (drop from (string_data s)))"

text \<open>
  A stream of chunks delivered by the embedder. \<open>source\<close> is what
  \<^verbatim>\<open>ExternalSourceStream::GetMoreData\<close> will deliver, one list of characters per call;
  it documents that zero length marks the end of the data, so nothing more to
  deliver is a zero-length chunk.
\<close>

record 'c chunk =
  chunk_data :: "'c list"
  chunk_position :: nat

definition end_position :: "'c chunk \<Rightarrow> nat" where
  "end_position c = chunk_position c + length (chunk_data c)"

record 'c chunked_stream =
  source :: "'c list list"
  chunks :: "'c chunk list"

definition GetMoreData :: "'c chunked_stream \<Rightarrow> 'c list \<times> 'c chunked_stream" where
  "GetMoreData s =
     (case source s of [] \<Rightarrow> ([], s) | d # ds \<Rightarrow> (d, s \<lparr> source := ds \<rparr>))"

definition ProcessChunk :: "'c chunked_stream \<Rightarrow> 'c list \<Rightarrow> nat \<Rightarrow> 'c chunked_stream" where
  "ProcessChunk s data position =
     s \<lparr> chunks := chunks s @ [\<lparr> chunk_data = data, chunk_position = position \<rparr>] \<rparr>"

definition FetchChunk :: "'c chunked_stream \<Rightarrow> nat \<Rightarrow> 'c chunked_stream" where
  "FetchChunk s position = (case GetMoreData s of (data, s') \<Rightarrow> ProcessChunk s' data position)"

text \<open>Walk forwards: fetch until the position is covered or the data ends.\<close>

function FetchUntil :: "'c chunked_stream \<Rightarrow> nat \<Rightarrow> 'c chunked_stream" where
  "FetchUntil s position =
     (if position \<ge> end_position (last (chunks s)) \<and> length (chunk_data (last (chunks s))) > 0
      then FetchUntil (FetchChunk s (end_position (last (chunks s)))) position else s)"
  by pat_completeness auto

termination
  by (relation "measure (\<lambda>(s, position).
      if length (chunk_data (last (chunks s))) > 0 then Suc (length (source s)) else 0)")
    (auto simp: FetchChunk_def GetMoreData_def ProcessChunk_def split: list.splits)

declare FetchUntil.simps [simp del]

text \<open>
  \<^verbatim>\<open>FindChunk\<close>: the loop for an empty vector fetches once, since that adds a chunk.
  The backwards walk finds the last chunk that starts at or before the position; that
  there is none is \<^verbatim>\<open>UNREACHABLE\<close>, an empty chunk here, and \<open>find_chunk\<close> below shows
  that it does not happen.
\<close>

definition FindChunk :: "'c chunked_stream \<Rightarrow> nat \<Rightarrow> 'c chunk \<times> 'c chunked_stream" where
  "FindChunk s position =
     (let s = (if chunks s = [] then FetchChunk s 0 else s);
          s = FetchUntil s position
      in (case find (\<lambda>c. chunk_position c \<le> position) (rev (chunks s)) of
            Some chunk \<Rightarrow> (chunk, s)
          | None \<Rightarrow> (\<lparr> chunk_data = [], chunk_position = 0 \<rparr>, s)))"

definition ChunkedStream_GetDataAt :: "'c chunked_stream \<Rightarrow> nat \<Rightarrow> 'c list \<times> 'c chunked_stream" where
  "ChunkedStream_GetDataAt s pos =
     (case FindChunk s pos of (chunk, s') \<Rightarrow>
        let buffer_end = length (chunk_data chunk);
            buffer_pos = min buffer_end (pos - chunk_position chunk)
        in (drop buffer_pos (chunk_data chunk), s'))"

section \<open>Character streams\<close>

abbreviation kBufferSize :: nat where "kBufferSize \<equiv> 512"

definition kWindows1252ToUC16 :: "uc16 list" where
  "kWindows1252ToUC16 =
     [0x0000, 0x0001, 0x0002, 0x0003, 0x0004, 0x0005, 0x0006, 0x0007,
      0x0008, 0x0009, 0x000A, 0x000B, 0x000C, 0x000D, 0x000E, 0x000F,
      0x0010, 0x0011, 0x0012, 0x0013, 0x0014, 0x0015, 0x0016, 0x0017,
      0x0018, 0x0019, 0x001A, 0x001B, 0x001C, 0x001D, 0x001E, 0x001F,
      0x0020, 0x0021, 0x0022, 0x0023, 0x0024, 0x0025, 0x0026, 0x0027,
      0x0028, 0x0029, 0x002A, 0x002B, 0x002C, 0x002D, 0x002E, 0x002F,
      0x0030, 0x0031, 0x0032, 0x0033, 0x0034, 0x0035, 0x0036, 0x0037,
      0x0038, 0x0039, 0x003A, 0x003B, 0x003C, 0x003D, 0x003E, 0x003F,
      0x0040, 0x0041, 0x0042, 0x0043, 0x0044, 0x0045, 0x0046, 0x0047,
      0x0048, 0x0049, 0x004A, 0x004B, 0x004C, 0x004D, 0x004E, 0x004F,
      0x0050, 0x0051, 0x0052, 0x0053, 0x0054, 0x0055, 0x0056, 0x0057,
      0x0058, 0x0059, 0x005A, 0x005B, 0x005C, 0x005D, 0x005E, 0x005F,
      0x0060, 0x0061, 0x0062, 0x0063, 0x0064, 0x0065, 0x0066, 0x0067,
      0x0068, 0x0069, 0x006A, 0x006B, 0x006C, 0x006D, 0x006E, 0x006F,
      0x0070, 0x0071, 0x0072, 0x0073, 0x0074, 0x0075, 0x0076, 0x0077,
      0x0078, 0x0079, 0x007A, 0x007B, 0x007C, 0x007D, 0x007E, 0x007F,
      0x20AC, 0x0081, 0x201A, 0x0192, 0x201E, 0x2026, 0x2020, 0x2021,
      0x02C6, 0x2030, 0x0160, 0x2039, 0x0152, 0x008D, 0x017D, 0x008F,
      0x0090, 0x2018, 0x2019, 0x201C, 0x201D, 0x2022, 0x2013, 0x2014,
      0x02DC, 0x2122, 0x0161, 0x203A, 0x0153, 0x009D, 0x017E, 0x0178,
      0x00A0, 0x00A1, 0x00A2, 0x00A3, 0x00A4, 0x00A5, 0x00A6, 0x00A7,
      0x00A8, 0x00A9, 0x00AA, 0x00AB, 0x00AC, 0x00AD, 0x00AE, 0x00AF,
      0x00B0, 0x00B1, 0x00B2, 0x00B3, 0x00B4, 0x00B5, 0x00B6, 0x00B7,
      0x00B8, 0x00B9, 0x00BA, 0x00BB, 0x00BC, 0x00BD, 0x00BE, 0x00BF,
      0x00C0, 0x00C1, 0x00C2, 0x00C3, 0x00C4, 0x00C5, 0x00C6, 0x00C7,
      0x00C8, 0x00C9, 0x00CA, 0x00CB, 0x00CC, 0x00CD, 0x00CE, 0x00CF,
      0x00D0, 0x00D1, 0x00D2, 0x00D3, 0x00D4, 0x00D5, 0x00D6, 0x00D7,
      0x00D8, 0x00D9, 0x00DA, 0x00DB, 0x00DC, 0x00DD, 0x00DE, 0x00DF,
      0x00E0, 0x00E1, 0x00E2, 0x00E3, 0x00E4, 0x00E5, 0x00E6, 0x00E7,
      0x00E8, 0x00E9, 0x00EA, 0x00EB, 0x00EC, 0x00ED, 0x00EE, 0x00EF,
      0x00F0, 0x00F1, 0x00F2, 0x00F3, 0x00F4, 0x00F5, 0x00F6, 0x00F7,
      0x00F8, 0x00F9, 0x00FA, 0x00FB, 0x00FC, 0x00FD, 0x00FE, 0x00FF]"

text \<open>
  The block that each \<^verbatim>\<open>ReadBlock\<close> makes of the range it got: \<^verbatim>\<open>CopyChars\<close> widens, the
  Windows-1252 stream translates, both at most \<^verbatim>\<open>kBufferSize\<close> characters; the
  unbuffered streams use the range itself.
\<close>

definition BufferedCharacterStream_block :: "byte list \<Rightarrow> uc16 list" where
  "BufferedCharacterStream_block rng = map ucast (take (min kBufferSize (length rng)) rng)"

definition UnbufferedCharacterStream_block :: "uc16 list \<Rightarrow> uc16 list" where
  "UnbufferedCharacterStream_block rng = rng"

definition Windows1252CharacterStream_block :: "byte list \<Rightarrow> uc16 list" where
  "Windows1252CharacterStream_block rng =
     map (\<lambda>c. kWindows1252ToUC16 ! unat c) (take (min kBufferSize (length rng)) rng)"

text \<open>The classes \<^verbatim>\<open>ScannerStream\<close> instantiates, with their byte stream.\<close>

datatype stream_class =
  Buffered_OnHeap "byte string_stream"
| Buffered_External "byte string_stream"
| Buffered_Testing "byte string_stream"
| Buffered_Chunked "byte chunked_stream"
| Unbuffered_External "uc16 string_stream"
| Unbuffered_Testing "uc16 string_stream"
| Unbuffered_Chunked "uc16 chunked_stream"
| Relocating "uc16 string_stream"
| Windows1252 "byte chunked_stream"

text \<open>The block a class reads at a position, with the byte stream after the read.\<close>

fun read_block :: "stream_class \<Rightarrow> nat \<Rightarrow> uc16 list \<times> stream_class" where
  "read_block (Buffered_OnHeap s) position =
     (BufferedCharacterStream_block (OnHeapStream_GetDataAt s position), Buffered_OnHeap s)"
| "read_block (Buffered_External s) position =
     (BufferedCharacterStream_block (ExternalStringStream_GetDataAt s position), Buffered_External s)"
| "read_block (Buffered_Testing s) position =
     (BufferedCharacterStream_block (TestingStream_GetDataAt s position), Buffered_Testing s)"
| "read_block (Buffered_Chunked s) position =
     (case ChunkedStream_GetDataAt s position of (rng, s') \<Rightarrow>
        (BufferedCharacterStream_block rng, Buffered_Chunked s'))"
| "read_block (Unbuffered_External s) position =
     (UnbufferedCharacterStream_block (ExternalStringStream_GetDataAt s position), Unbuffered_External s)"
| "read_block (Unbuffered_Testing s) position =
     (UnbufferedCharacterStream_block (TestingStream_GetDataAt s position), Unbuffered_Testing s)"
| "read_block (Unbuffered_Chunked s) position =
     (case ChunkedStream_GetDataAt s position of (rng, s') \<Rightarrow>
        (UnbufferedCharacterStream_block rng, Unbuffered_Chunked s'))"
| "read_block (Relocating s) position =
     (UnbufferedCharacterStream_block (OnHeapStream_GetDataAt s position), Relocating s)"
| "read_block (Windows1252 s) position =
     (case ChunkedStream_GetDataAt s position of (rng, s') \<Rightarrow>
        (Windows1252CharacterStream_block rng, Windows1252 s'))"

section \<open>Utf16CharacterStream\<close>

abbreviation kEndOfInput :: uc32 where "kEndOfInput \<equiv> 0xFFFFFFFF"

record Utf16CharacterStream =
  buffer :: "uc16 list"
  buffer_cursor :: nat
  buffer_pos :: nat
  has_parser_error :: bool
  impl :: stream_class

definition stream_set_parser_error :: "Utf16CharacterStream \<Rightarrow> Utf16CharacterStream" where
  "stream_set_parser_error st =
     st \<lparr> buffer_cursor := length (buffer st) + 1, has_parser_error := True \<rparr>"

definition stream_reset_parser_error_flag :: "Utf16CharacterStream \<Rightarrow> Utf16CharacterStream" where
  "stream_reset_parser_error_flag st = st \<lparr> has_parser_error := False \<rparr>"

definition pos :: "Utf16CharacterStream \<Rightarrow> nat" where
  "pos st = buffer_pos st + buffer_cursor st"

text \<open>Every \<^verbatim>\<open>ReadBlock\<close> puts the block at the position, the cursor at its start, and
  reports whether the block has characters.\<close>

definition ReadBlock :: "Utf16CharacterStream \<Rightarrow> nat \<Rightarrow> bool \<times> Utf16CharacterStream" where
  "ReadBlock st position =
     (case read_block (impl st) position of (block, impl') \<Rightarrow>
        (block \<noteq> [], st \<lparr> buffer := block, buffer_cursor := 0, buffer_pos := position,
                          impl := impl' \<rparr>))"

definition ReadBlockChecked :: "Utf16CharacterStream \<Rightarrow> nat \<Rightarrow> bool \<times> Utf16CharacterStream" where
  "ReadBlockChecked st position =
     (if \<not> has_parser_error st then ReadBlock st position else (False, st))"

definition stream_Peek :: "Utf16CharacterStream \<Rightarrow> uc32 \<times> Utf16CharacterStream" where
  "stream_Peek st =
     (if buffer_cursor st < length (buffer st) then (ucast (buffer st ! buffer_cursor st), st)
      else case ReadBlockChecked st (pos st) of (ok, st') \<Rightarrow>
             if ok then (ucast (buffer st' ! buffer_cursor st'), st') else (kEndOfInput, st'))"

definition stream_Advance :: "Utf16CharacterStream \<Rightarrow> uc32 \<times> Utf16CharacterStream" where
  "stream_Advance st =
     (case stream_Peek st of (result, st') \<Rightarrow>
        (result, st' \<lparr> buffer_cursor := buffer_cursor st' + 1 \<rparr>))"

text \<open>
  \<^verbatim>\<open>std::find_if\<close> over the rest of the buffer. The predicate is a closure that updates
  what it captured, here a value of type \<open>'a\<close>; the result is the index of the first hit.
\<close>

fun find_if :: "(uc32 \<Rightarrow> 'a \<Rightarrow> bool \<times> 'a) \<Rightarrow> 'a \<Rightarrow> uc16 list \<Rightarrow> nat \<Rightarrow> nat option \<times> 'a" where
  "find_if check a [] i = (None, a)"
| "find_if check a (raw # raws) i =
     (case check (ucast raw) a of (found, a') \<Rightarrow>
        if found then (Some i, a') else find_if check a' raws (Suc i))"

text \<open>The end of input the stream can reach, whatever its state: it bounds the loops.\<close>

definition chunks_limit :: "'c chunked_stream \<Rightarrow> nat" where
  "chunks_limit s = foldr max (map end_position (chunks s)) 0 + sum_list (map length (source s))"

fun stream_limit :: "stream_class \<Rightarrow> nat" where
  "stream_limit (Buffered_OnHeap s) = stream_length s"
| "stream_limit (Buffered_External s) = stream_length s"
| "stream_limit (Buffered_Testing s) = stream_length s"
| "stream_limit (Buffered_Chunked s) = chunks_limit s"
| "stream_limit (Unbuffered_External s) = stream_length s"
| "stream_limit (Unbuffered_Testing s) = stream_length s"
| "stream_limit (Unbuffered_Chunked s) = chunks_limit s"
| "stream_limit (Relocating s) = stream_length s"
| "stream_limit (Windows1252 s) = chunks_limit s"

section \<open>The contracts\<close>

text \<open>
  A byte stream gives, at a position, the data from there on as far as it has it
  contiguously, and nothing exactly at the end; reading does not change the text.
  The bound on what it can return holds in every state.
\<close>

locale byte_stream =
  fixes GetDataAt :: "'s \<Rightarrow> nat \<Rightarrow> 'c list \<times> 's"
    and content :: "'s \<Rightarrow> 'c list"
    and inv :: "'s \<Rightarrow> bool"
    and limit :: "'s \<Rightarrow> nat"
  assumes data_inv: "inv s \<Longrightarrow> GetDataAt s p = (r, s') \<Longrightarrow> inv s' \<and> content s' = content s"
    and data_prefix: "inv s \<Longrightarrow> GetDataAt s p = (r, s') \<Longrightarrow> r = take (length r) (drop p (content s))"
    and data_empty: "inv s \<Longrightarrow> GetDataAt s p = (r, s') \<Longrightarrow> r = [] \<longleftrightarrow> length (content s) \<le> p"
    and data_limit: "GetDataAt s p = (r, s') \<Longrightarrow> limit s' \<le> limit s \<and> (r \<noteq> [] \<longrightarrow> p + length r \<le> limit s')"
begin

text \<open>Translating at most \<open>n > 0\<close> characters of the range keeps the contract.\<close>

lemma translated:
  assumes "n > 0"
  shows "byte_stream (\<lambda>s p. case GetDataAt s p of (r, s') \<Rightarrow> (map f (take n r), s'))
    (\<lambda>s. map f (content s)) inv limit"
proof
  fix s p r s'
  assume "(case GetDataAt s p of (r, s') \<Rightarrow> (map f (take n r), s')) = (r, s')"
  then obtain q where q: "GetDataAt s p = (q, s')" "r = map f (take n q)"
    by (cases "GetDataAt s p") auto
  show "limit s' \<le> limit s \<and> (r \<noteq> [] \<longrightarrow> p + length r \<le> limit s')"
    using data_limit [OF q(1)] q(2) by auto
  assume "inv s"
  show "inv s' \<and> map f (content s') = map f (content s)"
    using data_inv [OF \<open>inv s\<close> q(1)] by simp
  show "r = take (length r) (drop p (map f (content s)))"
    using data_prefix [OF \<open>inv s\<close> q(1)] q(2)
    by (metis (no_types, lifting) drop_map length_map length_take min.commute take_map take_take)
  show "r = [] \<longleftrightarrow> length (map f (content s)) \<le> p"
    using data_empty [OF \<open>inv s\<close> q(1)] q(2) assms by simp
qed

end

section \<open>Streams over one string\<close>

definition string_stream_inv :: "'c string_stream \<Rightarrow> bool" where
  "string_stream_inv s \<longleftrightarrow> start_offset s + stream_length s \<le> length (string_data s)"

definition string_stream_content :: "'c string_stream \<Rightarrow> 'c list" where
  "string_stream_content s = take (stream_length s) (drop (start_offset s) (string_data s))"

lemma OnHeapStream_eq_External: "OnHeapStream_GetDataAt s p = ExternalStringStream_GetDataAt s p"
  by (simp add: OnHeapStream_GetDataAt_def ExternalStringStream_GetDataAt_def Let_def add.commute)

lemma External_GetDataAt:
  "ExternalStringStream_GetDataAt s p = drop p (string_stream_content s)"
  by (cases "stream_length s \<le> p")
    (simp_all add: ExternalStringStream_GetDataAt_def string_stream_content_def Let_def drop_take)

interpretation on_heap: byte_stream "\<lambda>s p. (OnHeapStream_GetDataAt s p, s)"
    string_stream_content string_stream_inv stream_length
  by unfold_locales
    (auto simp: OnHeapStream_eq_External External_GetDataAt string_stream_content_def string_stream_inv_def)

interpretation external: byte_stream "\<lambda>s p. (ExternalStringStream_GetDataAt s p, s)"
    string_stream_content string_stream_inv stream_length
  by unfold_locales
    (auto simp: External_GetDataAt string_stream_content_def string_stream_inv_def)

definition testing_stream_content :: "'c string_stream \<Rightarrow> 'c list" where
  "testing_stream_content s = take (stream_length s) (string_data s)"

lemma Testing_GetDataAt:
  "TestingStream_GetDataAt s p = drop p (testing_stream_content s)"
  by (cases "stream_length s \<le> p")
    (simp_all add: TestingStream_GetDataAt_def testing_stream_content_def Let_def drop_take)

interpretation testing: byte_stream "\<lambda>s p. (TestingStream_GetDataAt s p, s)"
    testing_stream_content "\<lambda>s. stream_length s \<le> length (string_data s)" stream_length
  by unfold_locales (auto simp: Testing_GetDataAt testing_stream_content_def)

section \<open>Streams of chunks\<close>

text \<open>The chunks cover the text without gaps, and only the last one may be empty.\<close>

fun chunks_from :: "nat \<Rightarrow> 'c chunk list \<Rightarrow> bool" where
  "chunks_from p [] = True"
| "chunks_from p (c # cs) \<longleftrightarrow>
     chunk_position c = p \<and> (cs \<noteq> [] \<longrightarrow> chunk_data c \<noteq> []) \<and> chunks_from (end_position c) cs"

abbreviation fetched :: "'c chunked_stream \<Rightarrow> 'c list" where
  "fetched s \<equiv> concat (map chunk_data (chunks s))"

definition at_end :: "'c chunked_stream \<Rightarrow> bool" where
  "at_end s \<longleftrightarrow> chunks s \<noteq> [] \<and> chunk_data (last (chunks s)) = []"

definition chunked_inv :: "'c chunked_stream \<Rightarrow> bool" where
  "chunked_inv s \<longleftrightarrow> chunks_from 0 (chunks s)"

definition chunked_content :: "'c chunked_stream \<Rightarrow> 'c list" where
  "chunked_content s =
     fetched s @ (if at_end s then [] else concat (takeWhile (\<lambda>d. d \<noteq> []) (source s)))"

lemma chunks_from_snoc:
  "chunks_from p (cs @ [c]) \<longleftrightarrow>
   chunks_from p cs \<and> chunk_position c = p + length (concat (map chunk_data cs)) \<and>
   (cs \<noteq> [] \<longrightarrow> chunk_data (last cs) \<noteq> [])"
proof (induction cs arbitrary: p)
  case (Cons a cs)
  have "p = chunk_position a \<longrightarrow> ?case"
    using Cons.IH [of "end_position a"]
    by (cases "cs = []") (simp_all add: end_position_def add.assoc conj_ac)
  then show ?case by (cases "p = chunk_position a") simp_all
qed simp

lemma end_position_last:
  "chunks_from p cs \<Longrightarrow> cs \<noteq> [] \<Longrightarrow>
   end_position (last cs) = p + length (concat (map chunk_data cs))"
  by (induction cs arbitrary: p) (auto simp: end_position_def)

lemma chunks_from_position: "chunks_from p cs \<Longrightarrow> c \<in> set cs \<Longrightarrow> p \<le> chunk_position c"
  by (induction cs arbitrary: p) (force simp: end_position_def)+

lemma FetchChunk_content:
  assumes "chunked_inv s" and "\<not> at_end s" and "p = length (fetched s)"
  shows "chunked_inv (FetchChunk s p) \<and> chunked_content (FetchChunk s p) = chunked_content s \<and>
    chunks (FetchChunk s p) \<noteq> []"
  using assms
  by (cases "source s")
    (auto simp: FetchChunk_def GetMoreData_def ProcessChunk_def chunked_inv_def chunked_content_def
      at_end_def chunks_from_snoc)

lemma FetchUntil_content:
  assumes "chunked_inv s" and "chunks s \<noteq> []"
  shows "chunked_inv (FetchUntil s p) \<and> chunked_content (FetchUntil s p) = chunked_content s \<and>
    chunks (FetchUntil s p) \<noteq> [] \<and>
    (p < length (fetched (FetchUntil s p)) \<or> at_end (FetchUntil s p))"
  using assms
proof (induction s p rule: FetchUntil.induct)
  case (1 s p)
  let ?q = "end_position (last (chunks s))"
  have q: "?q = length (fetched s)"
    using end_position_last [of 0 "chunks s"] 1 by (simp add: chunked_inv_def)
  show ?case
  proof (cases "?q \<le> p \<and> 0 < length (chunk_data (last (chunks s)))")
    case True
    then have "\<not> at_end s" by (auto simp: at_end_def)
    with FetchChunk_content [OF 1(2) _ q] 1(1) [OF True] True show ?thesis
      by (subst (1 2 3 4 5) FetchUntil.simps) simp
  next
    case False
    with 1 q show ?thesis
      by (subst (1 2 3 4 5) FetchUntil.simps) (auto simp: at_end_def)
  qed
qed

lemma find_append_case:
  "find P (xs @ ys) = (case find P xs of None \<Rightarrow> find P ys | Some x \<Rightarrow> Some x)"
  by (induction xs) auto

lemma find_chunk:
  assumes "chunks_from q cs" and "cs \<noteq> []" and "q \<le> p"
  shows "\<exists>c. find (\<lambda>c. chunk_position c \<le> p) (rev cs) = Some c \<and>
    (\<exists>rest. drop (p - q) (concat (map chunk_data cs)) =
      drop (min (length (chunk_data c)) (p - chunk_position c)) (chunk_data c) @ rest) \<and>
    (length (chunk_data c) \<le> p - chunk_position c \<longleftrightarrow>
      length (concat (map chunk_data cs)) \<le> p - q)"
  using assms
proof (induction cs arbitrary: q)
  case (Cons c cs)
  show ?case
  proof (cases "cs \<noteq> [] \<and> end_position c \<le> p")
    case True
    with Cons obtain d where d: "find (\<lambda>c. chunk_position c \<le> p) (rev cs) = Some d"
      "\<exists>rest. drop (p - end_position c) (concat (map chunk_data cs)) =
        drop (min (length (chunk_data d)) (p - chunk_position d)) (chunk_data d) @ rest"
      "length (chunk_data d) \<le> p - chunk_position d \<longleftrightarrow>
        length (concat (map chunk_data cs)) \<le> p - end_position c"
      by force
    have "drop (p - q) (concat (map chunk_data (c # cs))) =
        drop (p - end_position c) (concat (map chunk_data cs))"
      using True Cons.prems by (auto simp: end_position_def)
    with d True Cons.prems show ?thesis
      by (auto simp: find_append_case end_position_def)
  next
    case False
    have "find (\<lambda>c. chunk_position c \<le> p) (rev cs) = None"
    proof (cases "cs = []")
      case False
      with \<open>\<not> (cs \<noteq> [] \<and> end_position c \<le> p)\<close> Cons.prems chunks_from_position [of "end_position c" cs]
      have "\<not> chunk_position d \<le> p" if "d \<in> set cs" for d
        using that by force
      then show ?thesis by (simp add: find_None_iff)
    qed simp
    moreover have "drop (p - q) (concat (map chunk_data (c # cs))) =
        drop (min (length (chunk_data c)) (p - q)) (chunk_data c) @ concat (map chunk_data cs)"
      if "p - q < length (chunk_data c) \<or> cs = []"
      using that by (auto simp: min_def)
    ultimately show ?thesis
      using False Cons.prems by (auto simp: find_append_case end_position_def)
  qed
qed simp

lemma end_position_le_limit:
  "c \<in> set (chunks s) \<Longrightarrow> end_position c \<le> chunks_limit s"
proof -
  have "c \<in> set cs \<Longrightarrow> end_position c \<le> foldr max (map end_position cs) 0" for cs
    by (induction cs) auto
  then show "c \<in> set (chunks s) \<Longrightarrow> end_position c \<le> chunks_limit s"
    by (force simp: chunks_limit_def)
qed

lemma foldr_max_snoc: "foldr max (xs @ [x]) (0 :: nat) = max (foldr max xs 0) x"
  by (induction xs) auto

lemma FetchChunk_limit:
  "p \<le> foldr max (map end_position (chunks s)) 0 \<Longrightarrow> chunks_limit (FetchChunk s p) \<le> chunks_limit s"
  by (cases "source s")
    (auto simp: FetchChunk_def GetMoreData_def ProcessChunk_def chunks_limit_def foldr_max_snoc
      end_position_def simp del: foldr_append)

lemma FetchUntil_limit:
  "chunks s \<noteq> [] \<Longrightarrow> chunks_limit (FetchUntil s p) \<le> chunks_limit s"
proof (induction s p rule: FetchUntil.induct)
  case (1 s p)
  let ?q = "end_position (last (chunks s))"
  have "?q \<le> foldr max (map end_position (chunks s)) 0"
    using 1(2) by (cases "chunks s" rule: rev_cases) (auto simp: foldr_max_snoc simp del: foldr_append)
  from FetchChunk_limit [OF this] 1 show ?case
    by (subst FetchUntil.simps)
      (auto simp: FetchChunk_def ProcessChunk_def split: prod.splits intro: order_trans)
qed


lemma FindChunk_cases:
  obtains s1 where "FindChunk s p =
      (case find (\<lambda>c. chunk_position c \<le> p) (rev (chunks s1)) of
         Some chunk \<Rightarrow> (chunk, s1) | None \<Rightarrow> (\<lparr> chunk_data = [], chunk_position = 0 \<rparr>, s1))"
    and "chunks_limit s1 \<le> chunks_limit s"
    and "chunked_inv s \<Longrightarrow> chunked_inv s1 \<and> chunked_content s1 = chunked_content s \<and>
      chunks s1 \<noteq> [] \<and> (p < length (fetched s1) \<or> at_end s1)"
proof -
  let ?s0 = "if chunks s = [] then FetchChunk s 0 else s"
  have ne: "chunks ?s0 \<noteq> []"
    by (auto simp: FetchChunk_def ProcessChunk_def split: prod.splits)
  have "chunks_limit ?s0 \<le> chunks_limit s"
    using FetchChunk_limit [of 0 s] by simp
  then have "chunks_limit (FetchUntil ?s0 p) \<le> chunks_limit s"
    using FetchUntil_limit [OF ne, of p] by linarith
  moreover have "chunked_inv ?s0 \<and> chunked_content ?s0 = chunked_content s" if "chunked_inv s"
    using that FetchChunk_content [of s 0] by (simp add: at_end_def)
  ultimately show thesis
    using that [of "FetchUntil ?s0 p"] FetchUntil_content [OF _ ne, of p]
    by (simp add: FindChunk_def Let_def)
qed

lemma ChunkedStream_data:
  assumes "chunked_inv s" and "ChunkedStream_GetDataAt s p = (r, s')"
  shows "chunked_inv s' \<and> chunked_content s' = chunked_content s \<and>
    (\<exists>rest. drop p (chunked_content s) = r @ rest) \<and>
    (r = [] \<longleftrightarrow> length (chunked_content s) \<le> p)"
proof -
  obtain s1 where s1: "FindChunk s p =
      (case find (\<lambda>c. chunk_position c \<le> p) (rev (chunks s1)) of
         Some chunk \<Rightarrow> (chunk, s1) | None \<Rightarrow> (\<lparr> chunk_data = [], chunk_position = 0 \<rparr>, s1))"
    and inv1: "chunked_inv s1" "chunked_content s1 = chunked_content s" "chunks s1 \<noteq> []"
      "p < length (fetched s1) \<or> at_end s1"
    using assms(1) FindChunk_cases [of s p] by metis
  obtain c rest where c: "find (\<lambda>c. chunk_position c \<le> p) (rev (chunks s1)) = Some c"
    "drop p (fetched s1) = drop (min (length (chunk_data c)) (p - chunk_position c)) (chunk_data c) @ rest"
    "length (chunk_data c) \<le> p - chunk_position c \<longleftrightarrow> length (fetched s1) \<le> p"
    using find_chunk [of 0 "chunks s1" p] inv1 by (auto simp: chunked_inv_def)
  have r: "s' = s1" "r = drop (min (length (chunk_data c)) (p - chunk_position c)) (chunk_data c)"
    using assms(2) s1 c(1) by (simp_all add: ChunkedStream_GetDataAt_def Let_def)
  have e: "r = [] \<longleftrightarrow> length (fetched s1) \<le> p"
    using r c(3) by (auto simp: min_def)
  have len: "length (fetched s1) \<le> length (chunked_content s)"
    unfolding inv1(2) [symmetric] by (simp add: chunked_content_def)
  have "drop p (chunked_content s) = r @ rest @ drop (p - length (fetched s1))
      (if at_end s1 then [] else concat (takeWhile (\<lambda>d. d \<noteq> []) (source s1)))"
    unfolding inv1(2) [symmetric] using c(2) r(2) by (simp add: chunked_content_def)
  moreover have "length (chunked_content s) \<le> p" if "length (fetched s1) \<le> p"
    unfolding inv1(2) [symmetric] using that inv1(4) by (simp add: chunked_content_def)
  ultimately show ?thesis
    using inv1(1,2) r(1) e len by auto
qed

lemma ChunkedStream_limit:
  assumes "ChunkedStream_GetDataAt s p = (r, s')"
  shows "chunks_limit s' \<le> chunks_limit s \<and> (r \<noteq> [] \<longrightarrow> p + length r \<le> chunks_limit s')"
proof -
  obtain s1 where s1: "FindChunk s p =
      (case find (\<lambda>c. chunk_position c \<le> p) (rev (chunks s1)) of
         Some chunk \<Rightarrow> (chunk, s1) | None \<Rightarrow> (\<lparr> chunk_data = [], chunk_position = 0 \<rparr>, s1))"
    "chunks_limit s1 \<le> chunks_limit s"
    using FindChunk_cases [of s p] by metis
  show ?thesis
  proof (cases "find (\<lambda>c. chunk_position c \<le> p) (rev (chunks s1))")
    case None
    with s1 assms show ?thesis by (auto simp: ChunkedStream_GetDataAt_def)
  next
    case (Some c)
    then have "c \<in> set (chunks s1)" "chunk_position c \<le> p"
      by (metis find_Some_iff nth_mem set_rev, metis (mono_tags, lifting) find_Some_iff)
    then have "end_position c \<le> chunks_limit s1" "chunk_position c \<le> p"
      by (simp_all add: end_position_le_limit)
    with Some s1 assms show ?thesis
      by (auto simp: ChunkedStream_GetDataAt_def Let_def end_position_def)
  qed
qed

interpretation chunked: byte_stream ChunkedStream_GetDataAt chunked_content chunked_inv chunks_limit
proof
  fix s :: "'a chunked_stream" and p r s'
  assume g: "ChunkedStream_GetDataAt s p = (r, s')"
  show "chunks_limit s' \<le> chunks_limit s \<and> (r \<noteq> [] \<longrightarrow> p + length r \<le> chunks_limit s')"
    by (rule ChunkedStream_limit [OF g])
  assume i: "chunked_inv s"
  show "chunked_inv s' \<and> chunked_content s' = chunked_content s"
    "r = [] \<longleftrightarrow> length (chunked_content s) \<le> p"
    using ChunkedStream_data [OF i g] by auto
  show "r = take (length r) (drop p (chunked_content s))"
    using ChunkedStream_data [OF i g] by auto
qed

section \<open>All character streams\<close>

fun stream_text :: "stream_class \<Rightarrow> uc16 list" where
  "stream_text (Buffered_OnHeap s) = map ucast (string_stream_content s)"
| "stream_text (Buffered_External s) = map ucast (string_stream_content s)"
| "stream_text (Buffered_Testing s) = map ucast (testing_stream_content s)"
| "stream_text (Buffered_Chunked s) = map ucast (chunked_content s)"
| "stream_text (Unbuffered_External s) = string_stream_content s"
| "stream_text (Unbuffered_Testing s) = testing_stream_content s"
| "stream_text (Unbuffered_Chunked s) = chunked_content s"
| "stream_text (Relocating s) = string_stream_content s"
| "stream_text (Windows1252 s) = map (\<lambda>c. kWindows1252ToUC16 ! unat c) (chunked_content s)"

fun stream_class_inv :: "stream_class \<Rightarrow> bool" where
  "stream_class_inv (Buffered_OnHeap s) = string_stream_inv s"
| "stream_class_inv (Buffered_External s) = string_stream_inv s"
| "stream_class_inv (Buffered_Testing s) = (stream_length s \<le> length (string_data s))"
| "stream_class_inv (Buffered_Chunked s) = chunked_inv s"
| "stream_class_inv (Unbuffered_External s) = string_stream_inv s"
| "stream_class_inv (Unbuffered_Testing s) = (stream_length s \<le> length (string_data s))"
| "stream_class_inv (Unbuffered_Chunked s) = chunked_inv s"
| "stream_class_inv (Relocating s) = string_stream_inv s"
| "stream_class_inv (Windows1252 s) = chunked_inv s"


text \<open>A class whose \<^verbatim>\<open>ReadBlock\<close> is a byte stream keeps the contract of that stream.\<close>

definition class_laws :: "stream_class \<Rightarrow> bool" where
  "class_laws c \<longleftrightarrow> (\<forall>p r c'. read_block c p = (r, c') \<longrightarrow>
     stream_limit c' \<le> stream_limit c \<and> (r \<noteq> [] \<longrightarrow> p + length r \<le> stream_limit c') \<and>
     (stream_class_inv c \<longrightarrow> stream_class_inv c' \<and> stream_text c' = stream_text c \<and>
        r = take (length r) (drop p (stream_text c)) \<and> (r = [] \<longleftrightarrow> length (stream_text c) \<le> p)))"

lemma class_laws_lift:
  assumes "byte_stream G content I limit"
    and "\<And>s p. read_block (K s) p = (case G s p of (r, s') \<Rightarrow> (r, K s'))"
    and "\<And>s. stream_text (K s) = content s" and "\<And>s. stream_class_inv (K s) = I s"
    and "\<And>s. stream_limit (K s) = limit s"
  shows "class_laws (K s)"
  unfolding class_laws_def
  using byte_stream.data_limit [OF assms(1)] byte_stream.data_inv [OF assms(1)]
    byte_stream.data_empty [OF assms(1)] byte_stream.data_prefix [OF assms(1)]
  by (auto simp: assms(2-) split: prod.splits)

lemmas block_defs =
  BufferedCharacterStream_block_def Windows1252CharacterStream_block_def
  UnbufferedCharacterStream_block_def

lemma class_laws: "class_laws c"
proof (cases c)
  case (Buffered_OnHeap s)
  show ?thesis unfolding Buffered_OnHeap
    by (rule class_laws_lift [OF on_heap.translated [of 512 ucast]]) (simp_all add: block_defs min_def)
next
  case (Buffered_External s)
  show ?thesis unfolding Buffered_External
    by (rule class_laws_lift [OF external.translated [of 512 ucast]]) (simp_all add: block_defs min_def)
next
  case (Buffered_Testing s)
  show ?thesis unfolding Buffered_Testing
    by (rule class_laws_lift [OF testing.translated [of 512 ucast]]) (simp_all add: block_defs min_def)
next
  case (Buffered_Chunked s)
  show ?thesis unfolding Buffered_Chunked
    by (rule class_laws_lift [OF chunked.translated [of 512 ucast]])
      (simp_all add: block_defs min_def split: prod.splits)
next
  case (Unbuffered_External s)
  show ?thesis unfolding Unbuffered_External
    by (rule class_laws_lift [OF external.byte_stream_axioms]) (simp_all add: block_defs)
next
  case (Unbuffered_Testing s)
  show ?thesis unfolding Unbuffered_Testing
    by (rule class_laws_lift [OF testing.byte_stream_axioms]) (simp_all add: block_defs)
next
  case (Unbuffered_Chunked s)
  show ?thesis unfolding Unbuffered_Chunked
    by (rule class_laws_lift [OF chunked.byte_stream_axioms]) (simp_all add: block_defs)
next
  case (Relocating s)
  show ?thesis unfolding Relocating
    by (rule class_laws_lift [OF on_heap.byte_stream_axioms]) (simp_all add: block_defs)
next
  case (Windows1252 s)
  show ?thesis unfolding Windows1252
    by (rule class_laws_lift [OF chunked.translated [of 512 "\<lambda>c. kWindows1252ToUC16 ! unat c"]])
      (simp_all add: block_defs min_def split: prod.splits)
qed

interpretation blocks: byte_stream read_block stream_text stream_class_inv stream_limit
  using class_laws by unfold_locales (auto simp: class_laws_def)


section \<open>The unread input\<close>

text \<open>
  What is left to read, in every state of the stream: the rest of the buffer and
  whatever the byte stream may still deliver. It is the measure of every loop that
  reads characters.
\<close>

definition unread :: "Utf16CharacterStream \<Rightarrow> nat" where
  "unread st = (length (buffer st) - buffer_cursor st) +
     (stream_limit (impl st) - (buffer_pos st + length (buffer st)))"

lemma ReadBlockChecked_cases:
  obtains "has_parser_error st" and "ReadBlockChecked st p = (False, st)"
  | block c where "\<not> has_parser_error st" and "read_block (impl st) p = (block, c)"
      and "ReadBlockChecked st p = (block \<noteq> [],
        st \<lparr> buffer := block, buffer_cursor := 0, buffer_pos := p, impl := c \<rparr>)"
  by (cases "has_parser_error st"; cases "read_block (impl st) p")
    (simp_all add: ReadBlockChecked_def ReadBlock_def)

lemma read_block_unread:
  assumes "read_block (impl st) (pos st) = (block, c)" and "length (buffer st) \<le> buffer_cursor st"
  shows "stream_limit c - pos st \<le> unread st"
    "block \<noteq> [] \<Longrightarrow> length block + (stream_limit c - (pos st + length block)) \<le> unread st"
  using blocks.data_limit [OF assms(1)] assms(2) by (auto simp: unread_def pos_def)

lemma stream_Peek_unread: "stream_Peek st = (c, st') \<Longrightarrow> unread st' \<le> unread st"
proof (cases "buffer_cursor st < length (buffer st)")
  case False
  assume "stream_Peek st = (c, st')"
  with False show ?thesis
    using read_block_unread [of st]
    by (rule_tac ReadBlockChecked_cases [of st "pos st"])
      (auto simp: stream_Peek_def unread_def split: if_splits)
qed (simp add: stream_Peek_def)

lemma stream_Peek_eoi:
  "stream_Peek st = (c, st') \<Longrightarrow> c \<noteq> kEndOfInput \<longleftrightarrow> buffer_cursor st' < length (buffer st')"
proof -
  have e: "(ucast (u :: uc16) :: uc32) \<noteq> kEndOfInput" for u
    using unat_uc16_less [of u] by (auto simp: word_unat_eq_iff unat_widen)
  assume "stream_Peek st = (c, st')"
  then show ?thesis
    by (rule_tac ReadBlockChecked_cases [of st "pos st"])
      (auto simp: stream_Peek_def e split: if_splits)
qed

lemma stream_Advance_unread:
  assumes "stream_Advance st = (c, st')"
  shows "unread st' \<le> unread st" "c \<noteq> kEndOfInput \<Longrightarrow> unread st' < unread st"
proof -
  obtain st1 where st1: "stream_Peek st = (c, st1)" "st' = st1 \<lparr> buffer_cursor := buffer_cursor st1 + 1 \<rparr>"
    using assms by (cases "stream_Peek st") (auto simp: stream_Advance_def)
  have "unread st' \<le> unread st1" "c \<noteq> kEndOfInput \<Longrightarrow> unread st' < unread st1"
    using stream_Peek_eoi [OF st1(1)] by (auto simp: st1(2) unread_def)
  with stream_Peek_unread [OF st1(1)]
  show "unread st' \<le> unread st" "c \<noteq> kEndOfInput \<Longrightarrow> unread st' < unread st" by auto
qed

lemma find_if_bounds:
  "find_if check a us i = (Some j, a') \<Longrightarrow> i \<le> j \<and> j < i + length us"
proof (induction us arbitrary: a i)
  case (Cons u us)
  then show ?case by (cases "check (ucast u) a") (fastforce split: if_splits)
qed simp

section \<open>AdvanceUntil, Back and Seek\<close>

text \<open>
  The loop reads blocks until the predicate holds or the input ends. \<^verbatim>\<open>find_if\<close> starts
  at the cursor, so a cursor beyond the end of the buffer is outside the contract of
  the function: the scanner calls it only while its look-ahead character is not the
  end marker.
\<close>

function stream_AdvanceUntil ::
    "(uc32 \<Rightarrow> 'a \<Rightarrow> bool \<times> 'a) \<Rightarrow> 'a \<Rightarrow> Utf16CharacterStream \<Rightarrow> uc32 \<times> 'a \<times> Utf16CharacterStream"
where
  "stream_AdvanceUntil check a st =
     (case find_if check a (drop (buffer_cursor st) (buffer st)) (buffer_cursor st) of
        (None, a') \<Rightarrow>
          (case ReadBlockChecked (st \<lparr> buffer_cursor := length (buffer st) \<rparr>)
                  (pos (st \<lparr> buffer_cursor := length (buffer st) \<rparr>)) of
             (ok, st') \<Rightarrow>
               if \<not> ok then (kEndOfInput, a', st' \<lparr> buffer_cursor := buffer_cursor st' + 1 \<rparr>)
               else stream_AdvanceUntil check a' st')
      | (Some i, a') \<Rightarrow> (ucast (buffer st ! i), a', st \<lparr> buffer_cursor := i + 1 \<rparr>))"
  by pat_completeness auto

lemma read_at_end_less:
  assumes "ReadBlockChecked (st \<lparr> buffer_cursor := length (buffer st) \<rparr>)
    (buffer_pos st + length (buffer st)) = (True, st')"
  shows "stream_limit (impl st') - (buffer_pos st' + length (buffer st')) <
    stream_limit (impl st) - (buffer_pos st + length (buffer st))"
proof -
  let ?st = "st \<lparr> buffer_cursor := length (buffer st) \<rparr>"
  let ?p = "buffer_pos st + length (buffer st)"
  obtain block c where b: "read_block (impl st) ?p = (block, c)" "block \<noteq> []"
    "st' = ?st \<lparr> buffer := block, buffer_cursor := 0, buffer_pos := ?p, impl := c \<rparr>"
    using assms by (rule_tac ReadBlockChecked_cases [of ?st ?p]) auto
  with blocks.data_limit [OF b(1)] show ?thesis
    by (cases block) auto
qed

termination stream_AdvanceUntil
  by (relation "measure (\<lambda>(check, a, st).
      stream_limit (impl st) - (buffer_pos st + length (buffer st)))")
    (auto simp: pos_def dest: read_at_end_less [OF sym])

declare stream_AdvanceUntil.simps [simp del]

text \<open>A \<^verbatim>\<open>size_t\<close> wraps below zero.\<close>

definition size_pred :: "nat \<Rightarrow> nat" where
  "size_pred p = (if p = 0 then 2 ^ 64 - 1 else p - 1)"

definition stream_Back :: "Utf16CharacterStream \<Rightarrow> Utf16CharacterStream" where
  "stream_Back st =
     (if buffer_cursor st > 0 then st \<lparr> buffer_cursor := buffer_cursor st - 1 \<rparr>
      else snd (ReadBlockChecked st (size_pred (pos st))))"

definition stream_Seek :: "Utf16CharacterStream \<Rightarrow> nat \<Rightarrow> Utf16CharacterStream" where
  "stream_Seek st position =
     (if position \<ge> buffer_pos st \<and> position < buffer_pos st + length (buffer st)
      then st \<lparr> buffer_cursor := position - buffer_pos st \<rparr>
      else snd (ReadBlockChecked st position))"

text \<open>
  After a garbage collection the relocating stream fetches its range again;
  \<open>moved\<close> is whether the string's characters are at a new address.
\<close>

definition UpdateBufferPointers :: "bool \<Rightarrow> Utf16CharacterStream \<Rightarrow> Utf16CharacterStream" where
  "UpdateBufferPointers moved st =
     (case impl st of
        Relocating s \<Rightarrow>
          if moved then st \<lparr> buffer := OnHeapStream_GetDataAt s (buffer_pos st) \<rparr> else st
      | _ \<Rightarrow> st)"


lemma stream_AdvanceUntil_unread:
  assumes "stream_AdvanceUntil check a st = (c, a', st')"
  shows "unread st' \<le> unread st \<and> (c \<noteq> kEndOfInput \<longrightarrow> unread st' < unread st)"
  using assms
proof (induction check a st rule: stream_AdvanceUntil.induct)
  case (1 check a st)
  let ?st = "st \<lparr> buffer_cursor := length (buffer st) \<rparr>"
  obtain r a1 where r: "find_if check a (drop (buffer_cursor st) (buffer st)) (buffer_cursor st) = (r, a1)"
    by fastforce
  show ?case
  proof (cases r)
    case (Some i)
    with r find_if_bounds [of check a "drop (buffer_cursor st) (buffer st)" "buffer_cursor st" i a1]
    have "buffer_cursor st \<le> i" "i < length (buffer st)" by auto
    with 1(2) r Some show ?thesis
      by (auto simp: stream_AdvanceUntil.simps [of check a st] unread_def)
  next
    case None
    obtain ok st1 where st1: "ReadBlockChecked ?st (pos ?st) = (ok, st1)" by fastforce
    show ?thesis
    proof (cases ok)
      case True
      have "unread st1 \<le> unread ?st"
        using st1 True read_block_unread(2) [of ?st]
        by (rule_tac ReadBlockChecked_cases [of ?st "pos ?st"]) (auto simp: unread_def)
      moreover have "unread ?st \<le> unread st" by (simp add: unread_def)
      moreover have "stream_AdvanceUntil check a1 st1 = (c, a', st')"
        using 1(2) r None st1 True by (simp add: stream_AdvanceUntil.simps [of check a st])
      ultimately show ?thesis
        using 1(1) [OF r [symmetric] None st1 [symmetric]] True by fastforce
    next
      case False
      have "unread st1 \<le> unread ?st"
        using st1 False read_block_unread(1) [of ?st]
        by (rule_tac ReadBlockChecked_cases [of ?st "pos ?st"]) (auto simp: unread_def pos_def)
      with 1(2) r None st1 False show ?thesis
        by (auto simp: stream_AdvanceUntil.simps [of check a st] unread_def)
    qed
  qed
qed

lemma stream_Back_Advance: "stream_Back (snd (stream_Advance st)) = snd (stream_Peek st)"
  by (cases "stream_Peek st") (simp add: stream_Advance_def stream_Back_def)

lemma stream_Back_unread:
  assumes "0 < pos st"
  shows "unread (stream_Back st) \<le> Suc (unread st)"
proof (cases "buffer_cursor st > 0")
  case False
  have "size_pred (pos st) = pos st - 1" using assms by (simp add: size_pred_def)
  then show ?thesis
    using blocks.data_limit [of "impl st" "pos st - 1"] False assms
    by (rule_tac ReadBlockChecked_cases [of st "pos st - 1"])
      (auto simp: stream_Back_def unread_def pos_def dest!: spec)
qed (auto simp: stream_Back_def unread_def)

section \<open>Refinement of a list of code units\<close>

text \<open>
  The abstract stream: a fixed text and a position in it. The buffer is a window of
  the text.
\<close>

definition stream_inv :: "Utf16CharacterStream \<Rightarrow> bool" where
  "stream_inv st \<longleftrightarrow> stream_class_inv (impl st) \<and>
     buffer st = take (length (buffer st)) (drop (buffer_pos st) (stream_text (impl st)))"

definition text_of :: "Utf16CharacterStream \<Rightarrow> uc16 list" where
  "text_of st = stream_text (impl st)"

definition char_at :: "uc16 list \<Rightarrow> nat \<Rightarrow> uc32" where
  "char_at text p = (if p < length text then ucast (text ! p) else kEndOfInput)"

lemma ReadBlock_abs:
  assumes "stream_inv st" and "\<not> has_parser_error st" and "ReadBlockChecked st p = (ok, st')"
  shows "stream_inv st' \<and> text_of st' = text_of st \<and> \<not> has_parser_error st' \<and>
    pos st' = p \<and> buffer_cursor st' = 0 \<and> (ok \<longleftrightarrow> p < length (text_of st)) \<and>
    (ok \<longleftrightarrow> buffer st' \<noteq> [])"
proof -
  obtain block c where b: "read_block (impl st) p = (block, c)" "ok = (block \<noteq> [])"
    "st' = st \<lparr> buffer := block, buffer_cursor := 0, buffer_pos := p, impl := c \<rparr>"
    using assms(2,3) by (cases "read_block (impl st) p") (simp add: ReadBlockChecked_def ReadBlock_def)
  have i: "stream_class_inv (impl st)" using assms(1) by (simp add: stream_inv_def)
  have c: "stream_class_inv c" "stream_text c = stream_text (impl st)"
    using blocks.data_inv [OF i b(1)] by simp_all
  have "stream_inv st'"
    unfolding stream_inv_def b(3) by (simp add: c) (rule blocks.data_prefix [OF i b(1)])
  then show ?thesis
    using blocks.data_empty [OF i b(1)] assms(2) b(2,3) c(2) by (auto simp: text_of_def pos_def)
qed

lemma buffer_char:
  assumes "stream_inv st" and "buffer_cursor st < length (buffer st)"
  shows "pos st < length (text_of st)" "ucast (buffer st ! buffer_cursor st) = char_at (text_of st) (pos st)"
proof -
  let ?t = "drop (buffer_pos st) (text_of st)"
  have b: "buffer st = take (length (buffer st)) ?t"
    using assms(1) by (simp add: stream_inv_def text_of_def)
  have "length (buffer st) = length (take (length (buffer st)) ?t)"
    using b by (rule arg_cong)
  with assms(2) show p: "pos st < length (text_of st)"
    by (simp add: pos_def)
  have "buffer st ! buffer_cursor st = take (length (buffer st)) ?t ! buffer_cursor st"
    using b by (rule arg_cong)
  with assms(2) p show "ucast (buffer st ! buffer_cursor st) = char_at (text_of st) (pos st)"
    by (simp add: char_at_def pos_def)
qed

lemma stream_Peek_abs:
  assumes "stream_inv st" and "\<not> has_parser_error st" and "stream_Peek st = (c, st')"
  shows "c = char_at (text_of st) (pos st) \<and> stream_inv st' \<and> text_of st' = text_of st \<and>
    pos st' = pos st \<and> \<not> has_parser_error st' \<and>
    (c \<noteq> kEndOfInput \<longrightarrow> buffer_cursor st' < length (buffer st'))"
proof (cases "buffer_cursor st < length (buffer st)")
  case True
  with assms buffer_char [OF assms(1) True] show ?thesis by (auto simp: stream_Peek_def)
next
  case False
  obtain ok st1 where r: "ReadBlockChecked st (pos st) = (ok, st1)" by fastforce
  note a = ReadBlock_abs [OF assms(1,2) r]
  then have "ok \<Longrightarrow> ucast (buffer st1 ! buffer_cursor st1) = char_at (text_of st1) (pos st1)"
    using buffer_char(2) [of st1] by auto
  with a False r assms(3) stream_Peek_eoi [OF assms(3)] show ?thesis
    by (auto simp: stream_Peek_def char_at_def split: if_splits)
qed


lemma stream_Advance_abs:
  assumes "stream_inv st" and "\<not> has_parser_error st" and "stream_Advance st = (c, st')"
  shows "c = char_at (text_of st) (pos st) \<and> stream_inv st' \<and> text_of st' = text_of st \<and>
    pos st' = pos st + 1 \<and> \<not> has_parser_error st' \<and>
    (c \<noteq> kEndOfInput \<longrightarrow> buffer_cursor st' \<le> length (buffer st'))"
proof -
  obtain st1 where p: "stream_Peek st = (c, st1)" "st' = st1 \<lparr> buffer_cursor := buffer_cursor st1 + 1 \<rparr>"
    using assms(3) by (cases "stream_Peek st") (auto simp: stream_Advance_def)
  have "stream_inv (st1 \<lparr> buffer_cursor := k \<rparr>) \<longleftrightarrow> stream_inv st1" for k
    by (simp add: stream_inv_def)
  with stream_Peek_abs [OF assms(1,2) p(1)] show ?thesis
    by (auto simp: p(2) text_of_def pos_def)
qed

text \<open>The reference for \<^verbatim>\<open>AdvanceUntil\<close>: run the predicate along the text and stop after
  the first hit, or after the end.\<close>

fun first_hit :: "(uc32 \<Rightarrow> 'a \<Rightarrow> bool \<times> 'a) \<Rightarrow> 'a \<Rightarrow> uc16 list \<Rightarrow> uc32 \<times> 'a \<times> nat" where
  "first_hit check a [] = (kEndOfInput, a, 1)"
| "first_hit check a (u # us) =
     (case check (ucast u) a of (found, a') \<Rightarrow>
        if found then (ucast u, a', 1)
        else case first_hit check a' us of (c, a'', n) \<Rightarrow> (c, a'', Suc n))"

lemma find_if_Some:
  "find_if check a us i = (Some j, a') \<Longrightarrow>
   first_hit check a (us @ vs) = (ucast (us ! (j - i)), a', Suc (j - i))"
proof (induction us arbitrary: a i)
  case (Cons u us)
  obtain f a1 where f: "check (ucast u) a = (f, a1)" by fastforce
  show ?case
  proof (cases f)
    case False
    with Cons.prems f have "find_if check a1 us (Suc i) = (Some j, a')" by simp
    moreover from find_if_bounds [OF this] obtain k where "j = Suc (i + k)"
      by (auto simp: less_eq_Suc_le nat_le_iff_add)
    ultimately show ?thesis
      using Cons.IH [of a1 "Suc i"] f False by simp
  qed (use Cons.prems f in auto)
qed simp

lemma find_if_None:
  "find_if check a us i = (None, a') \<Longrightarrow>
   first_hit check a (us @ vs) =
     (case first_hit check a' vs of (c, a'', n) \<Rightarrow> (c, a'', length us + n))"
proof (induction us arbitrary: a i)
  case (Cons u us)
  obtain f a1 where f: "check (ucast u) a = (f, a1)" by fastforce
  with Cons.prems have "\<not> f" "find_if check a1 us (Suc i) = (None, a')"
    by (auto split: if_splits)
  with Cons.IH [OF this(2)] f show ?case
    by (simp split: prod.splits)
qed simp

lemma rest_of_buffer:
  assumes "stream_inv st" and "buffer_cursor st \<le> length (buffer st)"
  shows "drop (pos st) (text_of st) =
    drop (buffer_cursor st) (buffer st) @ drop (buffer_pos st + length (buffer st)) (text_of st)"
proof -
  let ?t = "drop (buffer_pos st) (text_of st)" and ?n = "length (buffer st)"
  have "?t = take ?n ?t @ drop ?n ?t" by (rule append_take_drop_id [symmetric])
  moreover have "take ?n ?t = buffer st"
    using assms(1) by (simp add: stream_inv_def text_of_def)
  ultimately have "?t = buffer st @ drop ?n ?t" by simp
  then have "drop (buffer_cursor st) ?t = drop (buffer_cursor st) (buffer st @ drop ?n ?t)"
    by (rule arg_cong)
  with assms(2) show ?thesis
    by (simp add: pos_def add.commute)
qed

lemma stream_AdvanceUntil_abs:
  assumes "stream_AdvanceUntil check a st = (c, a', st')"
    and "stream_inv st" and "\<not> has_parser_error st" and "buffer_cursor st \<le> length (buffer st)"
  shows "\<exists>n. first_hit check a (drop (pos st) (text_of st)) = (c, a', n) \<and> pos st' = pos st + n \<and>
    stream_inv st' \<and> text_of st' = text_of st \<and> \<not> has_parser_error st' \<and>
    (c \<noteq> kEndOfInput \<longrightarrow> buffer_cursor st' \<le> length (buffer st'))"
  using assms
proof (induction check a st rule: stream_AdvanceUntil.induct)
  case (1 check a st)
  let ?st = "st \<lparr> buffer_cursor := length (buffer st) \<rparr>"
  have st: "stream_inv ?st" "\<not> has_parser_error ?st" "text_of ?st = text_of st"
    "pos ?st = buffer_pos st + length (buffer st)"
    using 1(3,4) by (simp_all add: stream_inv_def text_of_def pos_def)
  obtain r a1 where r: "find_if check a (drop (buffer_cursor st) (buffer st)) (buffer_cursor st) = (r, a1)"
    by fastforce
  show ?case
  proof (cases r)
    case (Some i)
    note b = find_if_bounds [OF r [unfolded Some]]
    then have "buffer_cursor st \<le> i" "i < length (buffer st)" by auto
    moreover have "stream_inv (st \<lparr> buffer_cursor := i + 1 \<rparr>)" using 1(3) by (simp add: stream_inv_def)
    ultimately show ?thesis
      using find_if_Some [OF r [unfolded Some]] rest_of_buffer [OF 1(3,5)] 1(2,4) r Some
      by (auto simp: stream_AdvanceUntil.simps [of check a st] pos_def text_of_def)
  next
    case None
    obtain ok st1 where st1: "ReadBlockChecked ?st (pos ?st) = (ok, st1)" by fastforce
    note ab = ReadBlock_abs [OF st(1,2) st1]
    obtain c1 a2 n where h: "first_hit check a1 (drop (pos ?st) (text_of st)) = (c1, a2, n)"
      by (cases "first_hit check a1 (drop (pos ?st) (text_of st))") auto
    have hit: "first_hit check a (drop (pos st) (text_of st)) =
        (c1, a2, length (buffer st) - buffer_cursor st + n)"
      using find_if_None [OF r [unfolded None]] rest_of_buffer [OF 1(3,5)] h by (simp add: st(4))
    have p: "pos ?st = pos st + (length (buffer st) - buffer_cursor st)"
      using 1(5) by (simp add: pos_def)
    show ?thesis
    proof (cases ok)
      case True
      have "stream_AdvanceUntil check a1 st1 = (c, a', st')"
        using 1(2) r None st1 True by (simp add: stream_AdvanceUntil.simps [of check a st])
      with 1(1) [OF r [symmetric] None st1 [symmetric]] True ab st(3) h hit p show ?thesis
        by auto
    next
      case False
      then have "drop (pos ?st) (text_of st) = []" using ab st(3) by simp
      with h have "c1 = kEndOfInput" "a2 = a1" "n = 1" by auto
      moreover have "stream_inv (st1 \<lparr> buffer_cursor := k \<rparr>) \<longleftrightarrow> stream_inv st1" for k
        by (simp add: stream_inv_def)
      ultimately show ?thesis
        using hit p ab st(3) 1(2) r None st1 False
        by (auto simp: stream_AdvanceUntil.simps [of check a st] pos_def text_of_def)
    qed
  qed
qed


lemma stream_Back_abs:
  assumes "stream_inv st" and "\<not> has_parser_error st" and "0 < pos st"
  shows "stream_inv (stream_Back st) \<and> text_of (stream_Back st) = text_of st \<and>
    pos (stream_Back st) = pos st - 1 \<and> \<not> has_parser_error (stream_Back st)"
proof (cases "buffer_cursor st > 0")
  case True
  with assms show ?thesis
    by (auto simp: stream_Back_def stream_inv_def text_of_def pos_def)
next
  case False
  obtain ok st' where r: "ReadBlockChecked st (pos st - 1) = (ok, st')" by fastforce
  from ReadBlock_abs [OF assms(1,2) r] False assms(3) show ?thesis
    by (simp add: stream_Back_def size_pred_def r [unfolded One_nat_def])
qed

lemma stream_Seek_abs:
  assumes "stream_inv st" and "\<not> has_parser_error st"
  shows "stream_inv (stream_Seek st p) \<and> text_of (stream_Seek st p) = text_of st \<and>
    pos (stream_Seek st p) = p \<and> \<not> has_parser_error (stream_Seek st p)"
proof (cases "buffer_pos st \<le> p \<and> p < buffer_pos st + length (buffer st)")
  case True
  with assms show ?thesis
    by (auto simp: stream_Seek_def stream_inv_def text_of_def pos_def)
next
  case False
  obtain ok st' where r: "ReadBlockChecked st p = (ok, st')" by fastforce
  from ReadBlock_abs [OF assms r] show ?thesis
    unfolding stream_Seek_def using False by (auto simp: r)
qed

lemma error_reads_nothing:
  assumes "has_parser_error st" and "length (buffer st) \<le> buffer_cursor st"
  shows "stream_Peek st = (kEndOfInput, st)"
    "stream_Advance st = (kEndOfInput, st \<lparr> buffer_cursor := buffer_cursor st + 1 \<rparr>)"
  using assms by (simp_all add: stream_Peek_def stream_Advance_def ReadBlockChecked_def)

section \<open>Creating streams\<close>

text \<open>
  The string representations \<^verbatim>\<open>ScannerStream::For\<close> distinguishes. \<open>FlatString\<close> is what
  \<^verbatim>\<open>String::Flatten\<close> makes of a string that is not sliced; a sliced string is a window
  of a flat parent.
\<close>

datatype flat_string =
  SeqOneByteString "byte list" | SeqTwoByteString "uc16 list"
| ExternalOneByteString "byte list" | ExternalTwoByteString "uc16 list"

datatype js_string = FlatString flat_string | SlicedString flat_string nat nat

fun flat_units :: "flat_string \<Rightarrow> uc16 list" where
  "flat_units (SeqOneByteString d) = map ucast d"
| "flat_units (SeqTwoByteString d) = d"
| "flat_units (ExternalOneByteString d) = map ucast d"
| "flat_units (ExternalTwoByteString d) = d"

fun string_units :: "js_string \<Rightarrow> uc16 list" where
  "string_units (FlatString s) = flat_units s"
| "string_units (SlicedString s offset len) = take len (drop offset (flat_units s))"

fun js_string_ok :: "js_string \<Rightarrow> bool" where
  "js_string_ok (FlatString s) = True"
| "js_string_ok (SlicedString s offset len) \<longleftrightarrow> offset + len \<le> length (flat_units s)"

definition new_stream :: "nat \<Rightarrow> stream_class \<Rightarrow> Utf16CharacterStream" where
  "new_stream p c = \<lparr> buffer = [], buffer_cursor = 0, buffer_pos = p, has_parser_error = False,
     impl = c \<rparr>"

definition ScannerStream_For :: "js_string \<Rightarrow> nat \<Rightarrow> nat \<Rightarrow> Utf16CharacterStream" where
  "ScannerStream_For data start_pos end_pos =
     (let (start_off, data) =
            (case data of SlicedString parent offset _ \<Rightarrow> (offset, parent) | FlatString s \<Rightarrow> (0, s))
      in case data of
           ExternalOneByteString d \<Rightarrow> new_stream start_pos (Buffered_External
             \<lparr> string_data = d, start_offset = start_off, stream_length = end_pos \<rparr>)
         | ExternalTwoByteString d \<Rightarrow> new_stream start_pos (Unbuffered_External
             \<lparr> string_data = d, start_offset = start_off, stream_length = end_pos \<rparr>)
         | SeqOneByteString d \<Rightarrow> new_stream start_pos (Buffered_OnHeap
             \<lparr> string_data = d, start_offset = start_off, stream_length = end_pos \<rparr>)
         | SeqTwoByteString d \<Rightarrow> new_stream start_pos (Relocating
             \<lparr> string_data = d, start_offset = start_off, stream_length = end_pos \<rparr>))"

definition ScannerStream_ForTesting :: "byte list \<Rightarrow> Utf16CharacterStream" where
  "ScannerStream_ForTesting data = new_stream 0 (Buffered_Testing
     \<lparr> string_data = data, start_offset = 0, stream_length = length data \<rparr>)"

definition ScannerStream_ForTesting_uc16 :: "uc16 list \<Rightarrow> Utf16CharacterStream" where
  "ScannerStream_ForTesting_uc16 data = new_stream 0 (Unbuffered_Testing
     \<lparr> string_data = data, start_offset = 0, stream_length = length data \<rparr>)"

text \<open>
  Streaming sources. The encoding decides the class; in the two-byte encoding the
  delivered chunks are whole code units. These are the encodings whose streams fetch blocks
  of code units; the choice among all four, with UTF-8, is made in the root theory.
\<close>

datatype streamed_source =
  ONE_BYTE "byte list list" | TWO_BYTE "uc16 list list" | WINDOWS_1252 "byte list list"

fun ScannerStream_ForUnits :: "streamed_source \<Rightarrow> Utf16CharacterStream" where
  "ScannerStream_ForUnits (TWO_BYTE src) =
     new_stream 0 (Unbuffered_Chunked \<lparr> source = src, chunks = [] \<rparr>)"
| "ScannerStream_ForUnits (ONE_BYTE src) =
     new_stream 0 (Buffered_Chunked \<lparr> source = src, chunks = [] \<rparr>)"
| "ScannerStream_ForUnits (WINDOWS_1252 src) =
     new_stream 0 (Windows1252 \<lparr> source = src, chunks = [] \<rparr>)"

abbreviation delivered :: "'c list list \<Rightarrow> 'c list" where
  "delivered src \<equiv> concat (takeWhile (\<lambda>d. d \<noteq> []) src)"

fun streamed_units :: "streamed_source \<Rightarrow> uc16 list" where
  "streamed_units (TWO_BYTE src) = delivered src"
| "streamed_units (ONE_BYTE src) = map ucast (delivered src)"
| "streamed_units (WINDOWS_1252 src) = map (\<lambda>c. kWindows1252ToUC16 ! unat c) (delivered src)"

lemma new_stream_simps [simp]:
  "stream_inv (new_stream p c) \<longleftrightarrow> stream_class_inv c" "text_of (new_stream p c) = stream_text c"
  "pos (new_stream p c) = p" "\<not> has_parser_error (new_stream p c)"
  "buffer (new_stream p c) = []" "buffer_cursor (new_stream p c) = 0"
  by (simp_all add: new_stream_def stream_inv_def text_of_def pos_def)

section \<open>Properties\<close>

lemma ScannerStream_For_abs:
  assumes "js_string_ok data" and "end_pos \<le> length (string_units data)"
  shows "stream_inv (ScannerStream_For data start_pos end_pos) \<and>
    text_of (ScannerStream_For data start_pos end_pos) = take end_pos (string_units data) \<and>
    pos (ScannerStream_For data start_pos end_pos) = start_pos \<and>
    \<not> has_parser_error (ScannerStream_For data start_pos end_pos)"
proof (cases data)
  case (FlatString s)
  with assms show ?thesis
    by (cases s) (auto simp: ScannerStream_For_def string_stream_inv_def string_stream_content_def take_map)
next
  case (SlicedString s offset len)
  moreover from this assms have "end_pos \<le> len" by simp
  ultimately show ?thesis using assms
    by (cases s) (auto simp: ScannerStream_For_def string_stream_inv_def string_stream_content_def
        take_map drop_map min_def)
qed

text \<open>Every stream class reads its text: for a string that is on the heap or
  external, one- or two-byte, flat or sliced, the stream made by
  \<^verbatim>\<open>ScannerStream::For\<close> starts at the requested position of the string cut at the
  requested end, in a state in which its operations refine reading that text.\<close>

lemma ScannerStream_For_text:
  assumes "js_string_ok data" and "end_pos \<le> length (string_units data)"
  shows "stream_inv (ScannerStream_For data start_pos end_pos) \<and>
    text_of (ScannerStream_For data start_pos end_pos) = take end_pos (string_units data) \<and>
    pos (ScannerStream_For data start_pos end_pos) = start_pos \<and>
    \<not> has_parser_error (ScannerStream_For data start_pos end_pos)"
  using ScannerStream_For_abs [OF assms] .

lemma streamed_abs:
  "stream_inv (ScannerStream_ForUnits src) \<and>
   text_of (ScannerStream_ForUnits src) = streamed_units src \<and>
   pos (ScannerStream_ForUnits src) = 0 \<and> \<not> has_parser_error (ScannerStream_ForUnits src)"
  by (cases src) (simp_all add: chunked_inv_def chunked_content_def at_end_def)

text \<open>How a streamed source is cut into chunks does not matter: the text is the
  concatenation of the chunks up to the first empty one, translated by the encoding.\<close>

lemma streamed_text:
  "stream_inv (ScannerStream_ForUnits src) \<and>
   text_of (ScannerStream_ForUnits src) = streamed_units src \<and>
   pos (ScannerStream_ForUnits src) = 0"
  using streamed_abs [of src] by blast

text \<open>C32. Reading refines the text: \<^verbatim>\<open>Advance\<close> returns the code unit at the position, or
  the end marker behind the last one, and moves the position by one; \<^verbatim>\<open>Back\<close> undoes
  it, so that the same unit is read again; \<^verbatim>\<open>Seek\<close> moves to any position. The text
  never changes, whatever blocks are loaded on the way.\<close>

theorem stream_reads_text:
  assumes "stream_inv st" and "\<not> has_parser_error st"
  shows "\<exists>st1. stream_Advance st = (char_at (text_of st) (pos st), st1) \<and>
    stream_inv st1 \<and> text_of st1 = text_of st \<and> pos st1 = pos st + 1 \<and>
    pos (stream_Back st1) = pos st \<and>
    fst (stream_Advance (stream_Back st1)) = char_at (text_of st) (pos st) \<and>
    stream_inv (stream_Seek st1 p) \<and> pos (stream_Seek st1 p) = p \<and>
    fst (stream_Advance (stream_Seek st1 p)) = char_at (text_of st) p"
proof -
  obtain c st1 where a: "stream_Advance st = (c, st1)" by fastforce
  note A = stream_Advance_abs [OF assms a]
  have B: "stream_inv (stream_Back st1)" "text_of (stream_Back st1) = text_of st"
    "pos (stream_Back st1) = pos st" "\<not> has_parser_error (stream_Back st1)"
    using stream_Back_abs [of st1] A by auto
  have S: "stream_inv (stream_Seek st1 p)" "text_of (stream_Seek st1 p) = text_of st"
    "pos (stream_Seek st1 p) = p" "\<not> has_parser_error (stream_Seek st1 p)"
    using stream_Seek_abs [of st1 p] A by auto
  have "fst (stream_Advance (stream_Back st1)) = char_at (text_of st) (pos st)"
    using stream_Advance_abs [OF B(1,4)] B by (metis prod.collapse)
  moreover have "fst (stream_Advance (stream_Seek st1 p)) = char_at (text_of st) p"
    using stream_Advance_abs [OF S(1,4)] S by (metis prod.collapse)
  ultimately show ?thesis using a A B S by auto
qed

theorem stream_reads_text_witness:
  "\<exists>st1. stream_Advance (ScannerStream_ForTesting [0x61, 0x62]) = (0x61, st1) \<and>
     pos (stream_Back st1) = 0 \<and> fst (stream_Advance (stream_Seek st1 1)) = 0x62"
proof -
  let ?st = "ScannerStream_ForTesting [0x61, 0x62]"
  have "stream_inv ?st" "\<not> has_parser_error ?st" "text_of ?st = [0x61, 0x62]" "pos ?st = 0"
    by (simp_all add: ScannerStream_ForTesting_def testing_stream_content_def)
  with stream_reads_text [of ?st 1] show ?thesis by (auto simp: char_at_def)
qed

text \<open>\<^verbatim>\<open>AdvanceUntil\<close> is a search in the text: the predicate, with whatever it
  collects, is run on the units from the position on and stops behind the first unit
  it accepts, or behind the end; block boundaries are invisible.\<close>

lemma AdvanceUntil_searches_text:
  assumes "stream_inv st" and "\<not> has_parser_error st" and "buffer_cursor st \<le> length (buffer st)"
  shows "\<exists>c a' n st'. stream_AdvanceUntil check a st = (c, a', st') \<and>
    first_hit check a (drop (pos st) (text_of st)) = (c, a', n) \<and>
    pos st' = pos st + n \<and> stream_inv st' \<and> text_of st' = text_of st"
proof -
  obtain c a' st' where "stream_AdvanceUntil check a st = (c, a', st')"
    by (cases "stream_AdvanceUntil check a st") auto
  from this stream_AdvanceUntil_abs [OF this assms] show ?thesis by auto
qed

text \<open>A garbage collection between two reads is invisible: when the characters of
  an on-heap two-byte string move, the stream keeps its text and its position, and
  reads on from there.\<close>

lemma UpdateBufferPointers_invisible:
  assumes "stream_inv st" and "\<not> has_parser_error st"
  shows "stream_inv (UpdateBufferPointers moved st) \<and>
    text_of (UpdateBufferPointers moved st) = text_of st \<and>
    pos (UpdateBufferPointers moved st) = pos st \<and>
    fst (stream_Advance (UpdateBufferPointers moved st)) = fst (stream_Advance st)"
proof -
  have u: "stream_inv (UpdateBufferPointers moved st)" "text_of (UpdateBufferPointers moved st) = text_of st"
    "pos (UpdateBufferPointers moved st) = pos st" "\<not> has_parser_error (UpdateBufferPointers moved st)"
    using assms
    by (auto simp: UpdateBufferPointers_def stream_inv_def text_of_def pos_def OnHeapStream_eq_External
        External_GetDataAt split: stream_class.splits)
  have "fst (stream_Advance (UpdateBufferPointers moved st)) = char_at (text_of st) (pos st)"
    using stream_Advance_abs [OF u(1,4)] u by (metis prod.collapse)
  moreover have "fst (stream_Advance st) = char_at (text_of st) (pos st)"
    using stream_Advance_abs [OF assms] by (metis prod.collapse)
  ultimately show ?thesis using u by simp
qed

end
