(* ===== verification/Scanner_State.thy ===== *)
theory Scanner_State
  imports Source_Dialect Literal_Buffer Character_Stream
begin

text \<open>
  The state of \<^verbatim>\<open>Scanner\<close> (\<^verbatim>\<open>src/parsing/scanner.h\<close>), its low-level operations, the
  one-character token table and the scan flags (\<^verbatim>\<open>src/parsing/scanner-inl.h\<close>). The
  lemmas introduce \<open>input_left\<close>, the measure of all scanning loops, and the relation
  \<open>lex_step\<close>, which collects what every literal-level operation leaves unchanged and
  which invariants it keeps.
\<close>

section \<open>Data\<close>

record Location =
  beg_pos :: int
  end_pos :: int

abbreviation mk_Location :: "int \<Rightarrow> int \<Rightarrow> Location" where
  "mk_Location b e \<equiv> \<lparr> beg_pos = b, end_pos = e \<rparr>"

definition Location_length :: "Location \<Rightarrow> int" where
  "Location_length l = end_pos l - beg_pos l"

definition Location_IsValid :: "Location \<Rightarrow> bool" where
  "Location_IsValid l \<longleftrightarrow>
     IsInRange (word_of_int (beg_pos l) :: 32 word) 0 (word_of_int (end_pos l))"

abbreviation Location_invalid :: Location where
  "Location_invalid \<equiv> mk_Location (-1) 0"

text \<open>The messages the scanner reports.\<close>

datatype MessageTemplate =
  kNone | kInvalidHexEscapeSequence | kInvalidUnicodeEscapeSequence | kUndefinedUnicodeCodePoint
| kHtmlCommentInModule | kInvalidOrUnexpectedToken | kTemplate8Or9Escape | kStrict8Or9Escape
| kTemplateOctalLiteral | kStrictOctalEscape | kContinuousNumericSeparator
| kTrailingNumericSeparator | kStrictOctalLiteral | kZeroDigitNumericSeparator
| kStrictDecimalWithLeadingZero | kBigIntTooBig

record TokenDesc =
  location :: Location
  literal_chars :: LiteralBuffer
  raw_literal_chars :: LiteralBuffer
  desc_token :: token
  invalid_template_escape_message :: MessageTemplate
  invalid_template_escape_location :: Location
  smi_value :: "32 word"
  after_line_terminator :: bool

definition TokenDesc_init :: TokenDesc where
  "TokenDesc_init =
     \<lparr> location = mk_Location 0 0, literal_chars = LiteralBuffer_init,
       raw_literal_chars = LiteralBuffer_init, desc_token = Token_UNINITIALIZED,
       invalid_template_escape_message = kNone,
       invalid_template_escape_location = mk_Location 0 0, smi_value = 0,
       after_line_terminator = False \<rparr>"

datatype NumberKind = IMPLICIT_OCTAL | BINARY | OCTAL | HEX | DECIMAL | DECIMAL_WITH_LEADING_ZERO

fun NumberKind_value :: "NumberKind \<Rightarrow> nat" where
  "NumberKind_value IMPLICIT_OCTAL = 0"
| "NumberKind_value BINARY = 1"
| "NumberKind_value OCTAL = 2"
| "NumberKind_value HEX = 3"
| "NumberKind_value DECIMAL = 4"
| "NumberKind_value DECIMAL_WITH_LEADING_ZERO = 5"

definition IsValidBigIntKind :: "NumberKind \<Rightarrow> bool" where
  "IsValidBigIntKind kind \<longleftrightarrow>
     NumberKind_value BINARY \<le> NumberKind_value kind \<and> NumberKind_value kind \<le> NumberKind_value DECIMAL"

definition IsDecimalNumberKind :: "NumberKind \<Rightarrow> bool" where
  "IsDecimalNumberKind kind \<longleftrightarrow>
     NumberKind_value DECIMAL \<le> NumberKind_value kind \<and>
     NumberKind_value kind \<le> NumberKind_value DECIMAL_WITH_LEADING_ZERO"

text \<open>
  \<^verbatim>\<open>token_storage_[3]\<close> and the three pointers into it. The flags of the compilation the
  scanner reads are \<^verbatim>\<open>is_module\<close> and \<^verbatim>\<open>source_dialect\<close>.
\<close>

datatype slot = Slot0 | Slot1 | Slot2

record UnoptimizedCompileFlags =
  is_module :: bool
  flag_source_dialect :: SourceDialect

record Scanner =
  flags :: UnoptimizedCompileFlags
  current_slot :: slot
  next_slot :: slot
  next_next_slot :: slot
  source_stream :: Utf16CharacterStream
  c0 :: uc32
  token_storage :: "slot \<Rightarrow> TokenDesc"
  found_html_comment :: bool
  source_url :: LiteralBuffer
  source_mapping_url :: LiteralBuffer
  source_dialect_name :: LiteralBuffer
  source_dialect :: SourceDialect
  saw_non_comment_token :: bool
  found_source_dialect_comment :: bool
  octal_pos :: Location
  octal_message :: MessageTemplate
  scanner_error :: MessageTemplate
  scanner_error_location :: Location

abbreviation kInvalidSequence :: uc32 where "kInvalidSequence \<equiv> 0xFFFFFFFF"

definition IsInvalid :: "uc32 \<Rightarrow> bool" where
  "IsInvalid c \<longleftrightarrow> c = kInvalidSequence"

section \<open>Accessors\<close>

definition current_desc :: "Scanner \<Rightarrow> TokenDesc" where
  "current_desc s = token_storage s (current_slot s)"

definition next_desc :: "Scanner \<Rightarrow> TokenDesc" where
  "next_desc s = token_storage s (next_slot s)"

definition next_next_desc :: "Scanner \<Rightarrow> TokenDesc" where
  "next_next_desc s = token_storage s (next_next_slot s)"

definition update_next :: "(TokenDesc \<Rightarrow> TokenDesc) \<Rightarrow> Scanner \<Rightarrow> Scanner" where
  "update_next f s = s \<lparr> token_storage := (token_storage s)(next_slot s := f (next_desc s)) \<rparr>"

definition scanner_has_parser_error :: "Scanner \<Rightarrow> bool" where
  "scanner_has_parser_error s = has_parser_error (source_stream s)"

definition has_error :: "Scanner \<Rightarrow> bool" where
  "has_error s \<longleftrightarrow> scanner_error s \<noteq> kNone"

definition source_pos :: "Scanner \<Rightarrow> int" where
  "source_pos s = int (pos (source_stream s)) - 1"

definition current_token :: "Scanner \<Rightarrow> token" where
  "current_token s = desc_token (current_desc s)"

definition peek :: "Scanner \<Rightarrow> token" where
  "peek s = desc_token (next_desc s)"

definition HasLineTerminatorBeforeNext :: "Scanner \<Rightarrow> bool" where
  "HasLineTerminatorBeforeNext s = after_line_terminator (next_desc s)"

definition LiteralContainsEscapes :: "TokenDesc \<Rightarrow> bool" where
  "LiteralContainsEscapes desc \<longleftrightarrow>
     (let source_length = end_pos (location desc) - beg_pos (location desc);
          source_length = (if desc_token desc = Token_STRING then source_length - 2 else source_length)
      in int (LiteralBuffer_length (literal_chars desc)) \<noteq> source_length)"

definition has_invalid_template_escape :: "Scanner \<Rightarrow> bool" where
  "has_invalid_template_escape s \<longleftrightarrow> invalid_template_escape_message (current_desc s) \<noteq> kNone"

definition clear_invalid_template_escape_message :: "Scanner \<Rightarrow> Scanner" where
  "clear_invalid_template_escape_message s =
     s \<lparr> token_storage := (token_storage s)(current_slot s :=
           (current_desc s) \<lparr> invalid_template_escape_message := kNone \<rparr>) \<rparr>"

definition clear_octal_position :: "Scanner \<Rightarrow> Scanner" where
  "clear_octal_position s = s \<lparr> octal_pos := Location_invalid, octal_message := kNone \<rparr>"

text \<open>\<^verbatim>\<open>NextLiteralExactlyEquals\<close> and \<^verbatim>\<open>CurrentLiteralEquals\<close>; \<open>s\<close> is the array without its
  terminating zero, so that the template argument \<^verbatim>\<open>N\<close> is its length plus one.\<close>

definition NextLiteralExactlyEquals :: "Scanner \<Rightarrow> byte list \<Rightarrow> bool" where
  "NextLiteralExactlyEquals sc s =
     (if \<not> is_one_byte (literal_chars (next_desc sc)) then False
      else if Location_length (location (next_desc sc)) \<noteq> int (length s + 1) + 1 then False
      else let nxt = one_byte_literal (literal_chars (next_desc sc))
           in length nxt = length s \<and> strncmp s nxt (length s) = 0)"

definition CurrentLiteralEquals :: "Scanner \<Rightarrow> byte list \<Rightarrow> bool" where
  "CurrentLiteralEquals sc s =
     (if \<not> is_one_byte (literal_chars (current_desc sc)) then False
      else let cur = one_byte_literal (literal_chars (current_desc sc))
           in length cur = length s \<and> strncmp s cur (length s) = 0)"

section \<open>Errors\<close>

definition ReportScannerError :: "Location \<Rightarrow> MessageTemplate \<Rightarrow> Scanner \<Rightarrow> Scanner" where
  "ReportScannerError loc error s =
     (if has_error s then s
      else s \<lparr> scanner_error := error, scanner_error_location := loc \<rparr>)"

definition ReportScannerError_pos :: "int \<Rightarrow> MessageTemplate \<Rightarrow> Scanner \<Rightarrow> Scanner" where
  "ReportScannerError_pos p error s =
     (if has_error s then s
      else s \<lparr> scanner_error := error, scanner_error_location := mk_Location p (p + 1) \<rparr>)"

definition set_parser_error :: "Scanner \<Rightarrow> Scanner" where
  "set_parser_error s =
     (if \<not> scanner_has_parser_error s
      then s \<lparr> c0 := kEndOfInput, source_stream := stream_set_parser_error (source_stream s),
               token_storage := (\<lambda>i. let desc = token_storage s i
                 in if desc_token desc \<noteq> Token_UNINITIALIZED
                    then desc \<lparr> desc_token := Token_ILLEGAL \<rparr> else desc) \<rparr>
      else s)"

definition reset_parser_error_flag :: "Scanner \<Rightarrow> Scanner" where
  "reset_parser_error_flag s =
     s \<lparr> source_stream := stream_reset_parser_error_flag (source_stream s) \<rparr>"

section \<open>Characters\<close>

definition AddLiteralChar :: "uc32 \<Rightarrow> Scanner \<Rightarrow> Scanner" where
  "AddLiteralChar c s =
     update_next (\<lambda>d. d \<lparr> literal_chars := AddChar (literal_chars d) c \<rparr>) s"

definition AddLiteralChar_char :: "byte \<Rightarrow> Scanner \<Rightarrow> Scanner" where
  "AddLiteralChar_char c s =
     update_next (\<lambda>d. d \<lparr> literal_chars := AddChar_char (literal_chars d) c \<rparr>) s"

definition AddRawLiteralChar :: "uc32 \<Rightarrow> Scanner \<Rightarrow> Scanner" where
  "AddRawLiteralChar c s =
     update_next (\<lambda>d. d \<lparr> raw_literal_chars := AddChar (raw_literal_chars d) c \<rparr>) s"

definition Start_literal :: "Scanner \<Rightarrow> Scanner" where
  "Start_literal s =
     update_next (\<lambda>d. d \<lparr> literal_chars := LiteralBuffer_Start (literal_chars d) \<rparr>) s"

definition Start_raw_literal :: "Scanner \<Rightarrow> Scanner" where
  "Start_raw_literal s =
     update_next (\<lambda>d. d \<lparr> raw_literal_chars := LiteralBuffer_Start (raw_literal_chars d) \<rparr>) s"

definition set_after_line_terminator :: "bool \<Rightarrow> Scanner \<Rightarrow> Scanner" where
  "set_after_line_terminator b s = update_next (\<lambda>d. d \<lparr> after_line_terminator := b \<rparr>) s"

definition Advance :: "Scanner \<Rightarrow> Scanner" where
  "Advance s =
     (case stream_Advance (source_stream s) of (c, st) \<Rightarrow> s \<lparr> c0 := c, source_stream := st \<rparr>)"

text \<open>\<^verbatim>\<open>Advance<capture_raw>\<close>.\<close>

definition Advance_raw :: "bool \<Rightarrow> Scanner \<Rightarrow> Scanner" where
  "Advance_raw capture_raw s = Advance (if capture_raw then AddRawLiteralChar (c0 s) s else s)"

definition AddLiteralCharAdvance :: "Scanner \<Rightarrow> Scanner" where
  "AddLiteralCharAdvance s = Advance (AddLiteralChar (c0 s) s)"

text \<open>The predicate's captured state is passed in and comes back.\<close>

definition AdvanceUntil :: "(uc32 \<Rightarrow> 'a \<Rightarrow> bool \<times> 'a) \<Rightarrow> 'a \<Rightarrow> Scanner \<Rightarrow> 'a \<times> Scanner" where
  "AdvanceUntil check a s =
     (case stream_AdvanceUntil check a (source_stream s) of (c, a', st) \<Rightarrow>
        (a', s \<lparr> c0 := c, source_stream := st \<rparr>))"

definition scanner_CombineSurrogatePair :: "Scanner \<Rightarrow> bool \<times> Scanner" where
  "scanner_CombineSurrogatePair s =
     (if IsLeadSurrogate (c0 s)
      then case stream_Advance (source_stream s) of (c1, st) \<Rightarrow>
             if IsTrailSurrogate c1
             then (True, s \<lparr> c0 := CombineSurrogatePair (c0 s) c1, source_stream := st \<rparr>)
             else (False, s \<lparr> source_stream := stream_Back st \<rparr>)
      else (False, s))"

definition PushBack :: "uc32 \<Rightarrow> Scanner \<Rightarrow> Scanner" where
  "PushBack ch s = s \<lparr> source_stream := stream_Back (source_stream s), c0 := ch \<rparr>"

text \<open>\<^verbatim>\<open>Peek\<close> may load a block.\<close>

definition Peek :: "Scanner \<Rightarrow> uc32 \<times> Scanner" where
  "Peek s = (case stream_Peek (source_stream s) of (c, st) \<Rightarrow> (c, s \<lparr> source_stream := st \<rparr>))"

definition Select :: "token \<Rightarrow> Scanner \<Rightarrow> token \<times> Scanner" where
  "Select tok s = (tok, Advance s)"

definition Select_next :: "uc32 \<Rightarrow> token \<Rightarrow> token \<Rightarrow> Scanner \<Rightarrow> token \<times> Scanner" where
  "Select_next nxt tok_then tok_else s =
     (let s = Advance s
      in if c0 s = nxt then (tok_then, Advance s) else (tok_else, s))"

section \<open>One-character tokens and scan flags\<close>

definition GetOneCharToken :: "uc32 \<Rightarrow> token" where
  "GetOneCharToken c =
     (if c = 0x28 then Token_LPAREN else if c = 0x29 then Token_RPAREN
      else if c = 0x7B then Token_LBRACE else if c = 0x7D then Token_RBRACE
      else if c = 0x5B then Token_LBRACK else if c = 0x5D then Token_RBRACK
      else if c = 0x3F then Token_CONDITIONAL else if c = 0x3A then Token_COLON
      else if c = 0x3B then Token_SEMICOLON else if c = 0x2C then Token_COMMA
      else if c = 0x2E then Token_PERIOD else if c = 0x7C then Token_BIT_OR
      else if c = 0x26 then Token_BIT_AND else if c = 0x5E then Token_BIT_XOR
      else if c = 0x7E then Token_BIT_NOT else if c = 0x21 then Token_NOT
      else if c = 0x3C then Token_LT else if c = 0x3E then Token_GT
      else if c = 0x25 then Token_MOD else if c = 0x3D then Token_ASSIGN
      else if c = 0x2B then Token_ADD else if c = 0x2D then Token_SUB
      else if c = 0x2A then Token_MUL else if c = 0x2F then Token_DIV
      else if c = 0x23 then Token_PRIVATE_NAME else if c = 0x22 then Token_STRING
      else if c = 0x27 then Token_STRING else if c = 0x60 then Token_TEMPLATE_SPAN
      else if c = 0x5C then Token_IDENTIFIER
      else if c = 0x20 then Token_WHITESPACE else if c = 0x09 then Token_WHITESPACE
      else if c = 0x0B then Token_WHITESPACE else if c = 0x0C then Token_WHITESPACE
      else if c = 0x0D then Token_WHITESPACE else if c = 0x0A then Token_WHITESPACE
      else if IsDecimalDigit c then Token_NUMBER
      else if IsAsciiIdentifier c then Token_IDENTIFIER
      else Token_ILLEGAL)"

abbreviation kMaxAscii :: uc32 where "kMaxAscii \<equiv> 127"

text \<open>The tables \<^verbatim>\<open>one_char_tokens\<close> and \<^verbatim>\<open>character_scan_flags\<close> are these functions on
  0 to 127.\<close>

abbreviation kTerminatesLiteral :: byte where "kTerminatesLiteral \<equiv> 1"
abbreviation kCannotBeKeyword :: byte where "kCannotBeKeyword \<equiv> 2"
abbreviation kCannotBeKeywordStart :: byte where "kCannotBeKeywordStart \<equiv> 4"
abbreviation kStringTerminator :: byte where "kStringTerminator \<equiv> 8"
abbreviation kIdentifierNeedsSlowPath :: byte where "kIdentifierNeedsSlowPath \<equiv> 16"
abbreviation kMultilineCommentCharacterNeedsSlowPath :: byte where
  "kMultilineCommentCharacterNeedsSlowPath \<equiv> 32"

definition GetScanFlags :: "uc32 \<Rightarrow> byte" where
  "GetScanFlags c =
     (if IsAsciiIdentifier c \<and> \<not> CanBeKeywordCharacter c then kCannotBeKeyword else 0) OR
     (if IsKeywordStart c then 0 else kCannotBeKeywordStart) OR
     (if \<not> IsAsciiIdentifier c then kTerminatesLiteral else 0) OR
     (if c = 0x27 \<or> c = 0x22 \<or> c = 0x0A \<or> c = 0x0D \<or> c = 0x5C then kStringTerminator else 0) OR
     (if c = 0x5C then kIdentifierNeedsSlowPath else 0) OR
     (if c = 0x0A \<or> c = 0x0D \<or> c = 0x2A then kMultilineCommentCharacterNeedsSlowPath else 0)"

definition TerminatesLiteral :: "byte \<Rightarrow> bool" where
  "TerminatesLiteral scan_flags \<longleftrightarrow> scan_flags AND kTerminatesLiteral \<noteq> 0"

definition CanBeKeyword :: "byte \<Rightarrow> bool" where
  "CanBeKeyword scan_flags \<longleftrightarrow> \<not> (scan_flags AND kCannotBeKeyword \<noteq> 0)"

definition IdentifierNeedsSlowPath :: "byte \<Rightarrow> bool" where
  "IdentifierNeedsSlowPath scan_flags \<longleftrightarrow> scan_flags AND kIdentifierNeedsSlowPath \<noteq> 0"

definition MultilineCommentCharacterNeedsSlowPath :: "byte \<Rightarrow> bool" where
  "MultilineCommentCharacterNeedsSlowPath scan_flags \<longleftrightarrow>
     scan_flags AND kMultilineCommentCharacterNeedsSlowPath \<noteq> 0"

definition MayTerminateString :: "byte \<Rightarrow> bool" where
  "MayTerminateString scan_flags \<longleftrightarrow> scan_flags AND kStringTerminator \<noteq> 0"

definition CharCanBeKeyword :: "uc32 \<Rightarrow> bool" where
  "CharCanBeKeyword c \<longleftrightarrow> c < 128 \<and> CanBeKeyword (GetScanFlags c)"

section \<open>The measure of the scanning loops\<close>

text \<open>The unread input, and the look-ahead character if there is one.\<close>

definition input_left :: "Scanner \<Rightarrow> nat" where
  "input_left s = unread (source_stream s) + (if c0 s = kEndOfInput then 0 else 1)"

lemma update_next_simps [simp]:
  "source_stream (update_next f s) = source_stream s" "c0 (update_next f s) = c0 s"
  "flags (update_next f s) = flags s" "current_slot (update_next f s) = current_slot s"
  "next_slot (update_next f s) = next_slot s" "next_next_slot (update_next f s) = next_next_slot s"
  "found_html_comment (update_next f s) = found_html_comment s"
  "source_url (update_next f s) = source_url s"
  "source_mapping_url (update_next f s) = source_mapping_url s"
  "source_dialect_name (update_next f s) = source_dialect_name s"
  "source_dialect (update_next f s) = source_dialect s"
  "saw_non_comment_token (update_next f s) = saw_non_comment_token s"
  "found_source_dialect_comment (update_next f s) = found_source_dialect_comment s"
  "octal_pos (update_next f s) = octal_pos s" "octal_message (update_next f s) = octal_message s"
  "scanner_error (update_next f s) = scanner_error s"
  "scanner_error_location (update_next f s) = scanner_error_location s"
  "next_desc (update_next f s) = f (next_desc s)"
  "k \<noteq> next_slot s \<Longrightarrow> token_storage (update_next f s) k = token_storage s k"
  by (simp_all add: update_next_def next_desc_def)

lemma input_left_update_next [simp]: "input_left (update_next f s) = input_left s"
  by (simp add: input_left_def)

lemma Advance_left:
  "input_left (Advance s) \<le> unread (source_stream s)"
  using stream_Advance_unread [of "source_stream s"]
  by (cases "stream_Advance (source_stream s)") (auto simp: Advance_def input_left_def)

lemma AdvanceUntil_left:
  "AdvanceUntil check a s = (a', s') \<Longrightarrow> input_left s' \<le> unread (source_stream s)"
  using stream_AdvanceUntil_unread [of check a "source_stream s"]
  by (cases "stream_AdvanceUntil check a (source_stream s)")
    (auto simp: AdvanceUntil_def input_left_def)

lemma unread_le_left: "unread (source_stream s) \<le> input_left s"
  by (simp add: input_left_def)

lemma unread_less_left: "c0 s \<noteq> kEndOfInput \<Longrightarrow> unread (source_stream s) < input_left s"
  by (simp add: input_left_def)

section \<open>What an operation keeps\<close>

text \<open>
  The literal buffers of a token and the scanner's own are well formed, and the
  stream is a window of its text, as long as there is no parser error.
\<close>

definition desc_inv :: "TokenDesc \<Rightarrow> bool" where
  "desc_inv d \<longleftrightarrow> literal_inv (literal_chars d) \<and> literal_inv (raw_literal_chars d)"

text \<open>In an error state the stream delivers nothing any more.\<close>

definition error_stuck :: "Scanner \<Rightarrow> bool" where
  "error_stuck s \<longleftrightarrow> scanner_has_parser_error s \<and> c0 s = kEndOfInput \<and>
     length (buffer (source_stream s)) \<le> buffer_cursor (source_stream s)"

text \<open>
  \<open>lex_step s s'\<close>: going from \<open>s\<close> to \<open>s'\<close> reads on in the same text, does not touch
  the configuration, the dialect, the magic comments, the start of the next token or
  any other token, and keeps the invariants of the literal buffers and the stream.
\<close>

definition same_config :: "Scanner \<Rightarrow> Scanner \<Rightarrow> bool" where
  "same_config s s' \<longleftrightarrow> flags s' = flags s \<and> current_slot s' = current_slot s \<and>
     next_slot s' = next_slot s \<and> next_next_slot s' = next_next_slot s \<and>
     source_url s' = source_url s \<and> source_mapping_url s' = source_mapping_url s \<and>
     source_dialect_name s' = source_dialect_name s \<and> source_dialect s' = source_dialect s \<and>
     saw_non_comment_token s' = saw_non_comment_token s \<and>
     found_source_dialect_comment s' = found_source_dialect_comment s \<and>
     (\<forall>k. k \<noteq> next_slot s \<longrightarrow> token_storage s' k = token_storage s k) \<and>
     beg_pos (location (next_desc s')) = beg_pos (location (next_desc s))"

definition same_text :: "Utf16CharacterStream \<Rightarrow> Utf16CharacterStream \<Rightarrow> bool" where
  "same_text st st' \<longleftrightarrow> has_parser_error st' = has_parser_error st \<and>
     (stream_inv st \<longrightarrow> stream_inv st' \<and> text_of st' = text_of st)"

text \<open>
  The look-ahead character \<^verbatim>\<open>c0_\<close> is the code unit in front of the cursor, the end marker
  behind the text, or the code point of the surrogate pair in front of the cursor. The
  cursor leaves the buffer only behind the text, where the buffer is empty.
\<close>

definition looks_at :: "uc32 \<Rightarrow> Utf16CharacterStream \<Rightarrow> bool" where
  "looks_at c st \<longleftrightarrow> 0 < pos st \<and>
     (c = char_at (text_of st) (pos st - 1) \<or>
      1 < pos st \<and> pos st \<le> length (text_of st) \<and>
      IsLeadSurrogate (char_at (text_of st) (pos st - 2)) \<and>
      IsTrailSurrogate (char_at (text_of st) (pos st - 1)) \<and>
      c = CombineSurrogatePair (char_at (text_of st) (pos st - 2)) (char_at (text_of st) (pos st - 1)))"

definition cursor_in_buffer :: "Utf16CharacterStream \<Rightarrow> bool" where
  "cursor_in_buffer st \<longleftrightarrow> buffer_cursor st \<le> length (buffer st) \<or>
     buffer st = [] \<and> length (text_of st) \<le> buffer_pos st"

definition cursor_inv :: "Scanner \<Rightarrow> bool" where
  "cursor_inv s \<longleftrightarrow> looks_at (c0 s) (source_stream s) \<and> cursor_in_buffer (source_stream s)"

text \<open>How far the text has been read; behind the text all positions are the same.\<close>

definition front :: "Utf16CharacterStream \<Rightarrow> nat" where
  "front st = min (pos st) (Suc (length (text_of st)))"

definition reads_on :: "Scanner \<Rightarrow> Scanner \<Rightarrow> bool" where
  "reads_on s s' \<longleftrightarrow>
     (stream_inv (source_stream s) \<and> \<not> scanner_has_parser_error s \<and> cursor_inv s \<longrightarrow>
      cursor_inv s' \<and> front (source_stream s) \<le> front (source_stream s'))"

definition lex_step :: "Scanner \<Rightarrow> Scanner \<Rightarrow> bool" where
  "lex_step s s' \<longleftrightarrow> input_left s' \<le> input_left s \<and> same_config s s' \<and>
     same_text (source_stream s) (source_stream s') \<and>
     (desc_inv (next_desc s) \<longrightarrow> desc_inv (next_desc s')) \<and>
     (error_stuck s \<longrightarrow> error_stuck s') \<and> reads_on s s'"

lemma same_config_refl [simp]: "same_config s s"
  by (simp add: same_config_def)

lemma same_text_refl [simp]: "same_text st st"
  by (simp add: same_text_def)

lemma reads_on_same: "source_stream s' = source_stream s \<Longrightarrow> c0 s' = c0 s \<Longrightarrow> reads_on s s'"
  by (simp add: reads_on_def cursor_inv_def)

lemma reads_on_refl [simp]: "reads_on s s"
  by (simp add: reads_on_same)

lemma reads_on_update_next [simp]: "reads_on s (update_next f s') = reads_on s s'"
  by (simp add: reads_on_def cursor_inv_def)

lemma lex_step_refl [simp, intro]: "lex_step s s"
  by (simp add: lex_step_def reads_on_same)

lemma same_config_trans: "same_config s t \<Longrightarrow> same_config t u \<Longrightarrow> same_config s u"
  by (simp add: same_config_def)

lemma same_text_trans: "same_text s t \<Longrightarrow> same_text t u \<Longrightarrow> same_text s u"
  by (auto simp: same_text_def)

lemma reads_on_trans:
  "reads_on s t \<Longrightarrow> reads_on t u \<Longrightarrow> same_text (source_stream s) (source_stream t) \<Longrightarrow> reads_on s u"
  by (auto simp: reads_on_def same_text_def scanner_has_parser_error_def)

lemma lex_step_trans [trans]: "lex_step s t \<Longrightarrow> lex_step t u \<Longrightarrow> lex_step s u"
  by (auto simp: lex_step_def intro: same_config_trans same_text_trans reads_on_trans)

lemma lex_step_left: "lex_step s s' \<Longrightarrow> input_left s' \<le> input_left s"
  by (simp add: lex_step_def)

text \<open>The effect of the stream operations.\<close>

lemma same_text_Peek: "same_text st (snd (stream_Peek st))"
proof (cases "stream_Peek st")
  case (Pair c st')
  show ?thesis
  proof (cases "has_parser_error st")
    case True
    with Pair have "st' = st"
      by (auto simp: stream_Peek_def ReadBlockChecked_def split: if_splits)
    with Pair show ?thesis by simp
  next
    case False
    moreover have "has_parser_error st' = has_parser_error st"
      using Pair by (auto simp: stream_Peek_def ReadBlockChecked_def ReadBlock_def
          split: if_splits prod.splits)
    ultimately show ?thesis
      using Pair stream_Peek_abs [of st c st'] by (auto simp: same_text_def)
  qed
qed

lemma same_text_cursor: "same_text st st1 \<Longrightarrow> same_text st (st1 \<lparr> buffer_cursor := k \<rparr>)"
  by (auto simp: same_text_def stream_inv_def text_of_def)

lemma same_text_Advance: "same_text st (snd (stream_Advance st))"
  using same_text_cursor [OF same_text_Peek, of st "buffer_cursor (snd (stream_Peek st)) + 1"]
  by (cases "stream_Peek st") (simp add: stream_Advance_def)

lemma same_text_AdvanceUntil:
  "stream_AdvanceUntil check a st = (c, a', st') \<Longrightarrow> same_text st st'"
proof (induction check a st rule: stream_AdvanceUntil.induct)
  case (1 check a st)
  let ?st = "st \<lparr> buffer_cursor := length (buffer st) \<rparr>"
  obtain r a1 where r: "find_if check a (drop (buffer_cursor st) (buffer st)) (buffer_cursor st) = (r, a1)"
    by fastforce
  show ?case
  proof (cases r)
    case (Some i)
    with find_if_bounds [OF r [unfolded Some]] r 1(2) show ?thesis
      by (auto simp: stream_AdvanceUntil.simps [of check a st] same_text_def stream_inv_def text_of_def)
  next
    case None
    obtain ok st1 where st1: "ReadBlockChecked ?st (pos ?st) = (ok, st1)" by fastforce
    have e: "has_parser_error st1 = has_parser_error st" "has_parser_error st \<Longrightarrow> st1 = ?st \<and> \<not> ok"
      using st1 by (auto simp: ReadBlockChecked_def ReadBlock_def split: if_splits prod.splits)
    have "stream_inv st \<Longrightarrow> stream_inv ?st" "text_of ?st = text_of st"
      by (simp_all add: stream_inv_def text_of_def)
    then have t: "same_text st st1"
      using ReadBlock_abs [OF _ _ st1] e by (cases "has_parser_error st") (auto simp: same_text_def)
    show ?thesis
    proof (cases ok)
      case True
      then have "stream_AdvanceUntil check a1 st1 = (c, a', st')"
        using 1(2) r None st1 by (simp add: stream_AdvanceUntil.simps [of check a st])
      with 1(1) [OF r [symmetric] None st1 [symmetric]] True t same_text_trans show ?thesis by blast
    next
      case False
      then have "st' = st1 \<lparr> buffer_cursor := buffer_cursor st1 + 1 \<rparr>"
        using 1(2) r None st1 by (simp add: stream_AdvanceUntil.simps [of check a st])
      with t show ?thesis using same_text_cursor by simp
    qed
  qed
qed

text \<open>The cursor after a stream operation.\<close>

lemma unit_not_end: "(ucast (u :: uc16) :: uc32) \<noteq> kEndOfInput"
  using unat_uc16_less [of u] by (auto simp: word_unat_eq_iff unat_widen)

lemma char_at_end: "char_at t p = kEndOfInput \<longleftrightarrow> length t \<le> p"
  by (simp add: char_at_def unit_not_end)

lemma cursor_Peek:
  assumes "stream_inv st" and "\<not> has_parser_error st" and "cursor_in_buffer st"
    and "stream_Peek st = (c, st')"
  shows "cursor_in_buffer st' \<and> cursor_in_buffer (st' \<lparr> buffer_cursor := buffer_cursor st' + 1 \<rparr>)"
proof (cases "buffer_cursor st < length (buffer st)")
  case True
  with assms(3,4) show ?thesis by (simp add: stream_Peek_def cursor_in_buffer_def)
next
  case False
  obtain ok st1 where r: "ReadBlockChecked st (pos st) = (ok, st1)" by fastforce
  with False assms(4) have "st' = st1" by (auto simp: stream_Peek_def split: if_splits)
  with ReadBlock_abs [OF assms(1,2) r] show ?thesis
    by (cases ok) (auto simp: cursor_in_buffer_def pos_def text_of_def Suc_le_eq)
qed

lemma cursor_Advance:
  assumes "stream_inv st" and "\<not> has_parser_error st" and "cursor_in_buffer st"
    and "stream_Advance st = (c, st')"
  shows "looks_at c st' \<and> cursor_in_buffer st' \<and> front st \<le> front st'"
proof -
  obtain st1 where p: "stream_Peek st = (c, st1)" "st' = st1 \<lparr> buffer_cursor := buffer_cursor st1 + 1 \<rparr>"
    using assms(4) by (cases "stream_Peek st") (auto simp: stream_Advance_def)
  with stream_Advance_abs [OF assms(1,2,4)] cursor_Peek [OF assms(1-3) p(1)] show ?thesis
    by (auto simp: looks_at_def front_def)
qed

lemma cursor_AdvanceUntil:
  "stream_AdvanceUntil check a st = (c, a', st') \<Longrightarrow> stream_inv st \<Longrightarrow> \<not> has_parser_error st \<Longrightarrow>
   cursor_in_buffer st'"
proof (induction check a st rule: stream_AdvanceUntil.induct)
  case (1 check a st)
  let ?st = "st \<lparr> buffer_cursor := length (buffer st) \<rparr>"
  have i: "stream_inv ?st" "\<not> has_parser_error ?st" "text_of ?st = text_of st"
    using 1(3,4) by (simp_all add: stream_inv_def text_of_def)
  obtain r a1 where r: "find_if check a (drop (buffer_cursor st) (buffer st)) (buffer_cursor st) = (r, a1)"
    by fastforce
  show ?case
  proof (cases r)
    case (Some i)
    with find_if_bounds [OF r [unfolded Some]] r 1(2) show ?thesis
      by (auto simp: stream_AdvanceUntil.simps [of check a st] cursor_in_buffer_def)
  next
    case None
    obtain ok st1 where st1: "ReadBlockChecked ?st (pos ?st) = (ok, st1)" by fastforce
    note R = ReadBlock_abs [OF i(1,2) st1]
    show ?thesis
    proof (cases ok)
      case True
      then have "stream_AdvanceUntil check a1 st1 = (c, a', st')"
        using 1(2) r None st1 by (simp add: stream_AdvanceUntil.simps [of check a st])
      with 1(1) [OF r [symmetric] None st1 [symmetric]] True R show ?thesis by blast
    next
      case False
      then have "st' = st1 \<lparr> buffer_cursor := buffer_cursor st1 + 1 \<rparr>"
        using 1(2) r None st1 by (simp add: stream_AdvanceUntil.simps [of check a st])
      with R False i(3) show ?thesis by (auto simp: cursor_in_buffer_def pos_def text_of_def)
    qed
  qed
qed

lemma first_hit_char: "first_hit check a us = (c, a', n) \<Longrightarrow> 0 < n \<and> c = char_at us (n - 1)"
proof (induction us arbitrary: a c a' n)
  case (Cons u us)
  obtain f a1 where f: "check (ucast u) a = (f, a1)" by fastforce
  obtain c1 a2 n1 where h: "first_hit check a1 us = (c1, a2, n1)" by (metis prod.collapse)
  from Cons.IH [OF h] Cons.prems f h show ?case
    by (cases f) (auto simp: char_at_def nth_Cons' Suc_less_eq)
qed (auto simp: char_at_def)

lemma char_at_drop: "char_at (drop p t) k = char_at t (p + k)"
  by (auto simp: char_at_def less_diff_conv add.commute)

text \<open>Behind the text, \<^verbatim>\<open>AdvanceUntil\<close> starts from the end of the empty buffer.\<close>

lemma AdvanceUntil_cursor:
  "buffer st = [] \<Longrightarrow> stream_AdvanceUntil check a st = stream_AdvanceUntil check a (st \<lparr> buffer_cursor := 0 \<rparr>)"
  by (simp add: stream_AdvanceUntil.simps [of check a st]
      stream_AdvanceUntil.simps [of check a "st \<lparr> buffer_cursor := 0 \<rparr>"])

lemma looks_at_AdvanceUntil:
  assumes "stream_inv st" and "\<not> has_parser_error st" and "cursor_in_buffer st"
    and "stream_AdvanceUntil check a st = (c, a', st')"
  shows "looks_at c st' \<and> cursor_in_buffer st' \<and> front st \<le> front st'"
proof -
  define st0 where "st0 = (if buffer_cursor st \<le> length (buffer st) then st else st \<lparr> buffer_cursor := 0 \<rparr>)"
  have r: "stream_AdvanceUntil check a st0 = (c, a', st')"
    using assms(3,4) AdvanceUntil_cursor [of st check a]
    by (cases "buffer_cursor st \<le> length (buffer st)") (simp_all add: st0_def cursor_in_buffer_def)
  have i: "stream_inv st0" "\<not> has_parser_error st0" "buffer_cursor st0 \<le> length (buffer st0)"
    "text_of st0 = text_of st" "front st \<le> Suc (front st0)" "pos st \<le> pos st0 \<or> length (text_of st) \<le> pos st0"
    using assms(1-3) by (auto simp: st0_def stream_inv_def text_of_def cursor_in_buffer_def front_def pos_def)
  obtain n where n: "first_hit check a (drop (pos st0) (text_of st)) = (c, a', n)" "pos st' = pos st0 + n"
    "stream_inv st'" "text_of st' = text_of st"
    using stream_AdvanceUntil_abs [OF r i(1-3)] i(4) by auto
  have "0 < n" "c = char_at (text_of st) (pos st' - 1)"
    using first_hit_char [OF n(1)] n(2) by (auto simp: char_at_drop)
  then show ?thesis
    using n i cursor_AdvanceUntil [OF assms(4,1,2)] by (auto simp: looks_at_def front_def)
qed

section \<open>The low-level operations are lexical steps\<close>

lemma error_stuck_update_next [simp]: "error_stuck (update_next f s) = error_stuck s"
  by (simp add: error_stuck_def scanner_has_parser_error_def)

lemma lex_step_update_next:
  "(\<And>d. desc_inv d \<Longrightarrow> desc_inv (f d)) \<Longrightarrow>
   (\<And>d. beg_pos (location (f d)) = beg_pos (location d)) \<Longrightarrow> lex_step s (update_next f s)"
  by (auto simp: lex_step_def same_config_def reads_on_same)

lemma lex_step_Start:
  "lex_step s (Start_literal s)" "lex_step s (Start_raw_literal s)"
  "lex_step s (set_after_line_terminator b s)"
  unfolding Start_literal_def Start_raw_literal_def set_after_line_terminator_def
  by (rule lex_step_update_next, simp_all add: desc_inv_def Start_spec)+

lemma lex_step_AddLiteralChar:
  "lex_step s (AddLiteralChar c s)" "lex_step s (AddRawLiteralChar c s)"
  unfolding AddLiteralChar_def AddRawLiteralChar_def
  by (rule lex_step_update_next, simp_all add: desc_inv_def AddChar_spec)+

lemma lex_step_stream:
  assumes "same_text (source_stream s) st"
    and "unread st + (if c = kEndOfInput then 0 else 1) \<le> input_left s"
    and "error_stuck s \<Longrightarrow> c = kEndOfInput \<and> length (buffer st) \<le> buffer_cursor st"
    and "stream_inv (source_stream s) \<Longrightarrow> \<not> scanner_has_parser_error s \<Longrightarrow> cursor_inv s \<Longrightarrow>
      looks_at c st \<and> cursor_in_buffer st \<and> front (source_stream s) \<le> front st"
  shows "lex_step s (s \<lparr> c0 := c, source_stream := st \<rparr>)"
  using assms by (auto simp: lex_step_def same_config_def input_left_def next_desc_def error_stuck_def
      scanner_has_parser_error_def same_text_def reads_on_def cursor_inv_def)

lemma stuck_reads_nothing:
  assumes "error_stuck s"
  shows "stream_Advance (source_stream s) =
      (kEndOfInput, (source_stream s) \<lparr> buffer_cursor := buffer_cursor (source_stream s) + 1 \<rparr>)"
    "stream_Peek (source_stream s) = (kEndOfInput, source_stream s)"
    "length (buffer (source_stream s)) \<le> buffer_cursor (source_stream s)"
    "has_parser_error (source_stream s)"
  using assms error_reads_nothing [of "source_stream s"]
  by (simp_all add: error_stuck_def scanner_has_parser_error_def)

lemma lex_step_Advance: "lex_step s (Advance s)"
proof (cases "stream_Advance (source_stream s)")
  case (Pair c st)
  with stuck_reads_nothing [of s]
  have "error_stuck s \<Longrightarrow> c = kEndOfInput \<and> length (buffer st) \<le> buffer_cursor st" by auto
  moreover have "stream_inv (source_stream s) \<Longrightarrow> \<not> scanner_has_parser_error s \<Longrightarrow> cursor_inv s \<Longrightarrow>
      looks_at c st \<and> cursor_in_buffer st \<and> front (source_stream s) \<le> front st"
    using cursor_Advance [OF _ _ _ Pair] by (simp add: cursor_inv_def scanner_has_parser_error_def)
  ultimately show ?thesis
    using Pair lex_step_stream [of s st c] same_text_Advance [of "source_stream s"] Advance_left [of s]
      unread_le_left [of s] by (simp add: Advance_def input_left_def)
qed

lemma lex_step_AdvanceUntil: "AdvanceUntil check a s = (a', s') \<Longrightarrow> lex_step s s'"
proof (cases "stream_AdvanceUntil check a (source_stream s)")
  case (fields c a1 st)
  assume r: "AdvanceUntil check a s = (a', s')"
  with fields have s': "s' = s \<lparr> c0 := c, source_stream := st \<rparr>" by (simp add: AdvanceUntil_def)
  with AdvanceUntil_left [OF r] have "unread st + (if c = kEndOfInput then 0 else 1) \<le> input_left s"
    by (simp add: input_left_def)
  moreover have "error_stuck s \<Longrightarrow> c = kEndOfInput \<and> length (buffer st) \<le> buffer_cursor st"
    using fields stuck_reads_nothing [of s]
    by (auto simp: stream_AdvanceUntil.simps [of check a "source_stream s"] ReadBlockChecked_def)
  moreover have "stream_inv (source_stream s) \<Longrightarrow> \<not> scanner_has_parser_error s \<Longrightarrow> cursor_inv s \<Longrightarrow>
      looks_at c st \<and> cursor_in_buffer st \<and> front (source_stream s) \<le> front st"
    using looks_at_AdvanceUntil [OF _ _ _ fields] by (simp add: cursor_inv_def scanner_has_parser_error_def)
  ultimately show ?thesis using s' lex_step_stream same_text_AdvanceUntil [OF fields] by simp
qed

lemma lex_step_Peek: "Peek s = (c, s') \<Longrightarrow> lex_step s s'"
proof (cases "stream_Peek (source_stream s)")
  case (Pair c' st)
  assume "Peek s = (c, s')"
  with Pair have "s' = s \<lparr> c0 := c0 s, source_stream := st \<rparr>" by (simp add: Peek_def)
  moreover have "stream_inv (source_stream s) \<Longrightarrow> \<not> scanner_has_parser_error s \<Longrightarrow> cursor_inv s \<Longrightarrow>
      looks_at (c0 s) st \<and> cursor_in_buffer st \<and> front (source_stream s) \<le> front st"
    using stream_Peek_abs [OF _ _ Pair] cursor_Peek [OF _ _ _ Pair]
    by (auto simp: cursor_inv_def scanner_has_parser_error_def looks_at_def front_def)
  ultimately show ?thesis
    using Pair lex_step_stream [of s st "c0 s"] same_text_Peek [of "source_stream s"]
    stream_Peek_unread [OF Pair] stuck_reads_nothing [of s]
    by (simp add: input_left_def) (simp add: error_stuck_def)
qed

lemma Peek_c0: "Peek s = (c, s') \<Longrightarrow> c0 s' = c0 s"
  by (auto simp: Peek_def split: prod.splits)

text \<open>A combined pair is a supplementary code point.\<close>

lemma pair_bounds:
  "0x10000 \<le> unat (CombineSurrogatePair a b)" "unat (CombineSurrogatePair a b) < 0x110000"
  unfolding unat_CombineSurrogatePair
  using mod_less_divisor [of 1024 "unat a"] mod_less_divisor [of 1024 "unat b"] by linarith+

lemma CombineSurrogatePair_code_point: "CombineSurrogatePair a b \<noteq> kEndOfInput"
  using pair_bounds(2) [of a b] by auto

lemma pair_not_lead: "\<not> IsLeadSurrogate (CombineSurrogatePair a b)"
  using pair_bounds [of a b] by (simp add: IsLeadSurrogate_iff)

lemma lead_not_pair:
  "looks_at c st \<Longrightarrow> IsLeadSurrogate c \<Longrightarrow> c = char_at (text_of st) (pos st - 1)"
  by (auto simp: looks_at_def pair_not_lead)

lemma lex_step_CombineSurrogatePair:
  assumes "scanner_CombineSurrogatePair s = (b, s')"
  shows "lex_step s s'"
proof (cases "IsLeadSurrogate (c0 s)")
  case True
  then have c0: "c0 s \<noteq> kEndOfInput" by (auto simp: IsLeadSurrogate_def)
  then have "\<not> error_stuck s" by (simp add: error_stuck_def)
  obtain c1 st where st: "stream_Advance (source_stream s) = (c1, st)" by fastforce
  show ?thesis
  proof (cases "IsTrailSurrogate c1")
    case True
    then have "c1 \<noteq> kEndOfInput" by (auto simp: IsTrailSurrogate_def)
    with stream_Advance_unread(2) [OF st] have "unread st < unread (source_stream s)" .
    moreover have "looks_at (CombineSurrogatePair (c0 s) c1) st \<and> cursor_in_buffer st \<and>
        front (source_stream s) \<le> front st"
      if "stream_inv (source_stream s)" "\<not> scanner_has_parser_error s" "cursor_inv s"
      using that True \<open>c1 \<noteq> kEndOfInput\<close> cursor_Advance [OF _ _ _ st] stream_Advance_abs [OF _ _ st]
        lead_not_pair [of "c0 s" "source_stream s"] \<open>IsLeadSurrogate (c0 s)\<close>
      by (auto simp: looks_at_def cursor_inv_def scanner_has_parser_error_def char_at_end not_le)
    ultimately show ?thesis
      using True \<open>IsLeadSurrogate (c0 s)\<close> st assms \<open>\<not> error_stuck s\<close> same_text_Advance [of "source_stream s"] c0
      by (auto simp: scanner_CombineSurrogatePair_def input_left_def CombineSurrogatePair_code_point
          intro!: lex_step_stream)
  next
    case False
    have "stream_Back st = snd (stream_Peek (source_stream s))"
      using stream_Back_Advance [of "source_stream s"] st by simp
    moreover have "lex_step s (s \<lparr> source_stream := snd (stream_Peek (source_stream s)) \<rparr>)"
      by (rule lex_step_Peek [of s "fst (stream_Peek (source_stream s))"])
        (simp add: Peek_def split: prod.splits)
    ultimately show ?thesis
      using False True st assms by (simp add: scanner_CombineSurrogatePair_def)
  qed
qed (use assms in \<open>simp add: scanner_CombineSurrogatePair_def\<close>)

lemma lex_step_fields:
  "lex_step s (s \<lparr> octal_pos := l, octal_message := m \<rparr>)"
  "lex_step s (s \<lparr> scanner_error := m, scanner_error_location := l \<rparr>)"
  "lex_step s (s \<lparr> found_html_comment := h \<rparr>)"
  by (simp_all add: lex_step_def same_config_def input_left_def next_desc_def error_stuck_def
      scanner_has_parser_error_def reads_on_same)

lemma lex_step_Report:
  "lex_step s (ReportScannerError l m s)" "lex_step s (ReportScannerError_pos p m s)"
  by (simp_all add: ReportScannerError_def ReportScannerError_pos_def lex_step_fields)

lemma lex_step_Advance_raw: "lex_step s (Advance_raw raw s)"
  unfolding Advance_raw_def
  using lex_step_trans [OF lex_step_AddLiteralChar(2) lex_step_Advance] lex_step_Advance by simp

lemma lex_step_AddLiteralCharAdvance: "lex_step s (AddLiteralCharAdvance s)"
  unfolding AddLiteralCharAdvance_def
  by (rule lex_step_trans [OF lex_step_AddLiteralChar(1) lex_step_Advance])

lemmas lex_after_ops [lex_ops] =
  lex_step_trans [rotated, OF lex_step_Start(1)] lex_step_trans [rotated, OF lex_step_Start(2)]
  lex_step_trans [rotated, OF lex_step_Start(3)]
  lex_step_trans [rotated, OF lex_step_AddLiteralChar(1)]
  lex_step_trans [rotated, OF lex_step_AddLiteralChar(2)]
  lex_step_trans [rotated, OF lex_step_Advance]
  lex_step_trans [rotated, OF lex_step_fields(1)] lex_step_trans [rotated, OF lex_step_fields(2)]
  lex_step_trans [rotated, OF lex_step_fields(3)] lex_step_trans [rotated, OF lex_step_Report(1)]
  lex_step_trans [rotated, OF lex_step_Report(2)] lex_step_trans [rotated, OF lex_step_Advance_raw]
  lex_step_trans [rotated, OF lex_step_AddLiteralCharAdvance]

lemmas lex_after_results [lex_results] =
  lex_step_trans [rotated, OF lex_step_AdvanceUntil] lex_step_trans [rotated, OF lex_step_Peek]
  lex_step_trans [rotated, OF lex_step_CombineSurrogatePair]

text \<open>The strict versions, for the loops.\<close>

lemma left_simps [simp]:
  "input_left (AddLiteralChar c s) = input_left s" "input_left (AddRawLiteralChar c s) = input_left s"
  "input_left (Start_literal s) = input_left s" "input_left (Start_raw_literal s) = input_left s"
  "input_left (set_after_line_terminator b s) = input_left s"
  "c0 (AddLiteralChar c s) = c0 s" "c0 (AddRawLiteralChar c s) = c0 s"
  "c0 (Start_literal s) = c0 s" "c0 (Start_raw_literal s) = c0 s"
  "c0 (set_after_line_terminator b s) = c0 s"
  "source_stream (AddLiteralChar c s) = source_stream s"
  "source_stream (AddRawLiteralChar c s) = source_stream s"
  "source_stream (Start_literal s) = source_stream s"
  "source_stream (Start_raw_literal s) = source_stream s"
  "source_stream (set_after_line_terminator b s) = source_stream s"
  by (simp_all add: AddLiteralChar_def AddRawLiteralChar_def Start_literal_def Start_raw_literal_def
      set_after_line_terminator_def)

lemma Advance_less [scan_measure]: "c0 s \<noteq> kEndOfInput \<Longrightarrow> input_left (Advance s) < input_left s"
  using Advance_left unread_less_left by (rule le_less_trans)

lemma Advance_raw_less [scan_measure]:
  "c0 s \<noteq> kEndOfInput \<Longrightarrow> input_left (Advance_raw raw s) < input_left s"
  using Advance_less [of "AddRawLiteralChar (c0 s) s"] Advance_less [of s] by (simp add: Advance_raw_def)

lemma AddLiteralCharAdvance_less [scan_measure]:
  "c0 s \<noteq> kEndOfInput \<Longrightarrow> input_left (AddLiteralCharAdvance s) < input_left s"
  using Advance_less [of "AddLiteralChar (c0 s) s"] by (simp add: AddLiteralCharAdvance_def)

lemma AdvanceUntil_less [scan_measure]:
  "AdvanceUntil check a s = (a', s') \<Longrightarrow> c0 s \<noteq> kEndOfInput \<Longrightarrow> input_left s' < input_left s"
  using AdvanceUntil_left unread_less_left by (rule le_less_trans)

end
