(* ===== verification/Scanner_Literals.thy ===== *)
theory Scanner_Literals
  imports Scanner_State
begin

text \<open>
  The functions of \<^verbatim>\<open>src/parsing/scanner.cc\<close> and \<^verbatim>\<open>scanner-inl.h\<close> that scan the inside of
  a token: escapes, strings, templates, numbers, identifiers and keywords, private
  names and regular expressions. Every loop is a total function: each round reads a
  character that is not the end marker, so the unread input shrinks.
\<close>

section \<open>Escapes\<close>

fun ScanHexNumber_loop ::
    "bool \<Rightarrow> bool \<Rightarrow> int \<Rightarrow> nat \<Rightarrow> nat \<Rightarrow> uc32 \<Rightarrow> Scanner \<Rightarrow> uc32 \<times> Scanner" where
  "ScanHexNumber_loop capture_raw unicode beg expected_length 0 x s = (x, s)"
| "ScanHexNumber_loop capture_raw unicode beg expected_length (Suc n) x s =
     (let d = HexValue (c0 s)
      in if d < 0
         then (kInvalidSequence,
               ReportScannerError (mk_Location beg (beg + int expected_length + 2))
                 (if unicode then kInvalidUnicodeEscapeSequence else kInvalidHexEscapeSequence) s)
         else ScanHexNumber_loop capture_raw unicode beg expected_length n
                (x * 16 + word_of_int d) (Advance_raw capture_raw s))"

definition ScanHexNumber :: "bool \<Rightarrow> bool \<Rightarrow> nat \<Rightarrow> Scanner \<Rightarrow> uc32 \<times> Scanner" where
  "ScanHexNumber capture_raw unicode expected_length s =
     ScanHexNumber_loop capture_raw unicode (source_pos s - 2) expected_length expected_length 0 s"

function ScanUnlimitedLengthHexNumber_loop ::
    "bool \<Rightarrow> uc32 \<Rightarrow> int \<Rightarrow> uc32 \<Rightarrow> Scanner \<Rightarrow> uc32 \<times> Scanner" where
  "ScanUnlimitedLengthHexNumber_loop capture_raw max_value beg x s =
     (let d = HexValue (c0 s)
      in if d \<ge> 0
         then let x = x * 16 + word_of_int d
              in if x > max_value
                 then (kInvalidSequence,
                       ReportScannerError (mk_Location beg (source_pos s + 1))
                         kUndefinedUnicodeCodePoint s)
                 else ScanUnlimitedLengthHexNumber_loop capture_raw max_value beg x
                        (Advance_raw capture_raw s)
         else (x, s))"
  by pat_completeness auto

lemma HexValue_not_end: "0 \<le> HexValue c \<Longrightarrow> c \<noteq> kEndOfInput"
  by auto

termination ScanUnlimitedLengthHexNumber_loop
  by (relation "measure (\<lambda>(r, m, b, x, s). input_left s)")
    (auto simp: scan_measure dest: HexValue_not_end)

definition ScanUnlimitedLengthHexNumber ::
    "bool \<Rightarrow> uc32 \<Rightarrow> int \<Rightarrow> Scanner \<Rightarrow> uc32 \<times> Scanner" where
  "ScanUnlimitedLengthHexNumber capture_raw max_value beg s =
     (if HexValue (c0 s) < 0 then (kInvalidSequence, s)
      else ScanUnlimitedLengthHexNumber_loop capture_raw max_value beg 0 s)"

definition ScanUnicodeEscape :: "bool \<Rightarrow> Scanner \<Rightarrow> uc32 \<times> Scanner" where
  "ScanUnicodeEscape capture_raw s =
     (if c0 s = 0x7B
      then let beg = source_pos s - 2
           in case ScanUnlimitedLengthHexNumber capture_raw kMaxCodePoint beg
                     (Advance_raw capture_raw s) of (cp, s) \<Rightarrow>
                if cp = kInvalidSequence \<or> c0 s \<noteq> 0x7D
                then (kInvalidSequence,
                      ReportScannerError_pos (source_pos s) kInvalidUnicodeEscapeSequence s)
                else (cp, Advance_raw capture_raw s)
      else ScanHexNumber capture_raw True 4 s)"

text \<open>
  \<^verbatim>\<open>ScanOctalEscape\<close>: the loop returns the value and the number of digits it added.
  The digit and the new value are \<^verbatim>\<open>int\<close>s.
\<close>

fun ScanOctalEscape_loop :: "bool \<Rightarrow> nat \<Rightarrow> uc32 \<Rightarrow> nat \<Rightarrow> Scanner \<Rightarrow> uc32 \<times> nat \<times> Scanner" where
  "ScanOctalEscape_loop capture_raw 0 x i s = (x, i, s)"
| "ScanOctalEscape_loop capture_raw (Suc n) x i s =
     (let d = sint (c0 s - 0x30)
      in if d < 0 \<or> d > 7 then (x, i, s)
         else let nx = x * 8 + word_of_int d
              in if sint nx \<ge> 256 then (x, i, s)
                 else ScanOctalEscape_loop capture_raw n nx (Suc i) (Advance_raw capture_raw s))"

definition ScanOctalEscape :: "bool \<Rightarrow> uc32 \<Rightarrow> nat \<Rightarrow> Scanner \<Rightarrow> uc32 \<times> Scanner" where
  "ScanOctalEscape capture_raw c len s =
     (case ScanOctalEscape_loop capture_raw len (c - 0x30) 0 s of (x, i, s) \<Rightarrow>
        if c \<noteq> 0x30 \<or> i > 0 \<or> IsNonOctalDecimalDigit (c0 s)
        then (x, s \<lparr> octal_pos := mk_Location (source_pos s - int i - 1) (source_pos s - 1),
                    octal_message := (if capture_raw then kTemplateOctalLiteral else kStrictOctalEscape) \<rparr>)
        else (x, s))"

definition ScanEscape :: "bool \<Rightarrow> Scanner \<Rightarrow> bool \<times> Scanner" where
  "ScanEscape capture_raw s =
     (let c = c0 s; s = Advance_raw capture_raw s
      in if \<not> capture_raw \<and> IsLineTerminator c
         then (True, if IsCarriageReturn c \<and> IsLineFeed (c0 s) then Advance s else s)
         else if c = 0x62 then (True, AddLiteralChar 0x08 s)
         else if c = 0x66 then (True, AddLiteralChar 0x0C s)
         else if c = 0x6E then (True, AddLiteralChar 0x0A s)
         else if c = 0x72 then (True, AddLiteralChar 0x0D s)
         else if c = 0x74 then (True, AddLiteralChar 0x09 s)
         else if c = 0x75
         then (case ScanUnicodeEscape capture_raw s of (c, s) \<Rightarrow>
                 if IsInvalid c then (False, s) else (True, AddLiteralChar c s))
         else if c = 0x76 then (True, AddLiteralChar 0x0B s)
         else if c = 0x78
         then (case ScanHexNumber capture_raw False 2 s of (c, s) \<Rightarrow>
                 if IsInvalid c then (False, s) else (True, AddLiteralChar c s))
         else if 0x30 \<le> c \<and> c \<le> 0x37
         then (case ScanOctalEscape capture_raw c 2 s of (c, s) \<Rightarrow> (True, AddLiteralChar c s))
         else if c = 0x38 \<or> c = 0x39
         then (True, AddLiteralChar c
                 (s \<lparr> octal_pos := mk_Location (source_pos s - 2) (source_pos s - 1),
                      octal_message := (if capture_raw then kTemplate8Or9Escape else kStrict8Or9Escape) \<rparr>))
         else (True, AddLiteralChar c s))"

section \<open>Escapes are lexical steps\<close>

lemma lex_ScanHexNumber_loop:
  "ScanHexNumber_loop raw u b e n x s = (r, s') \<Longrightarrow> lex_step s0 s \<Longrightarrow> lex_step s0 s'"
proof (induction n arbitrary: x s)
  case (Suc n)
  show ?case
    by (insert Suc.prems) (auto simp: Let_def split: if_splits; (erule Suc.IH | rule lex_ops | assumption)+)
qed simp

lemma lex_ScanHexNumber [lex_results]:
  "ScanHexNumber raw u n s = (r, s') \<Longrightarrow> lex_step s0 s \<Longrightarrow> lex_step s0 s'"
  by (simp add: ScanHexNumber_def lex_ScanHexNumber_loop)

declare ScanUnlimitedLengthHexNumber_loop.simps [simp del]

lemma lex_ScanUnlimited_loop [lex_results]:
  "ScanUnlimitedLengthHexNumber_loop raw m b x s = (r, s') \<Longrightarrow> lex_step s0 s \<Longrightarrow> lex_step s0 s'"
proof (induction raw m b x s rule: ScanUnlimitedLengthHexNumber_loop.induct)
  case (1 raw m b x s)
  show ?case
    by (insert 1(2,3)) (auto simp: ScanUnlimitedLengthHexNumber_loop.simps [of raw m b x s] Let_def split: if_splits;
        (assumption | rule lex_ops 1(1) [OF refl _ refl])+)
qed

lemma lex_ScanUnlimited [lex_results]:
  "ScanUnlimitedLengthHexNumber raw m b s = (r, s') \<Longrightarrow> lex_step s0 s \<Longrightarrow> lex_step s0 s'"
  by (auto simp: ScanUnlimitedLengthHexNumber_def split: if_splits; (erule lex_results | rule lex_ops | assumption)+)

lemma lex_ScanUnicodeEscape [lex_results]:
  "ScanUnicodeEscape raw s = (r, s') \<Longrightarrow> lex_step s0 s \<Longrightarrow> lex_step s0 s'"
  by (auto simp: ScanUnicodeEscape_def Let_def split: if_splits prod.splits; (erule lex_results | rule lex_ops | assumption)+)

lemma lex_ScanOctalEscape_loop [lex_results]:
  "ScanOctalEscape_loop raw n x i s = (r, j, s') \<Longrightarrow> lex_step s0 s \<Longrightarrow> lex_step s0 s'"
proof (induction n arbitrary: x i s)
  case (Suc n)
  show ?case
    by (insert Suc.prems) (auto simp: Let_def split: if_splits; (erule Suc.IH | rule lex_ops | assumption)+)
qed simp

lemma lex_ScanOctalEscape [lex_results]:
  "ScanOctalEscape raw c n s = (r, s') \<Longrightarrow> lex_step s0 s \<Longrightarrow> lex_step s0 s'"
  by (auto simp: ScanOctalEscape_def split: if_splits prod.splits; (erule lex_results | rule lex_ops | assumption)+)

lemma lex_ScanEscape [lex_results]:
  "ScanEscape raw s = (r, s') \<Longrightarrow> lex_step s0 s \<Longrightarrow> lex_step s0 s'"
  by (auto simp: ScanEscape_def Let_def split: if_splits prod.splits; (erule lex_results | rule lex_ops | assumption)+)


section \<open>Strings\<close>

text \<open>\<^verbatim>\<open>AdvanceUntil\<close> with a closure that adds to the literal of the next token.\<close>

definition AdvanceUntil_literal ::
    "(uc32 \<Rightarrow> LiteralBuffer \<Rightarrow> bool \<times> LiteralBuffer) \<Rightarrow> Scanner \<Rightarrow> Scanner" where
  "AdvanceUntil_literal check s =
     (case AdvanceUntil check (literal_chars (next_desc s)) s of (b, s') \<Rightarrow>
        update_next (\<lambda>d. d \<lparr> literal_chars := b \<rparr>) s')"

definition string_check :: "uc32 \<Rightarrow> LiteralBuffer \<Rightarrow> bool \<times> LiteralBuffer" where
  "string_check c b =
     (if c > kMaxAscii
      then if IsStringLiteralLineTerminator c then (True, b) else (False, AddChar b c)
      else let char_flags = GetScanFlags c
           in if MayTerminateString char_flags then (True, b) else (False, AddChar b c))"

text \<open>What the closure keeps at each character, the search keeps.\<close>

lemma find_if_preserves:
  "find_if check a us i = (r, a') \<Longrightarrow> \<forall>c a. P a \<longrightarrow> P (snd (check c a)) \<Longrightarrow> P a \<Longrightarrow> P a'"
proof (induction us arbitrary: a i)
  case (Cons u us)
  obtain f a1 where f: "check (ucast u) a = (f, a1)" by fastforce
  with Cons.prems(2,3) have "P a1" by (metis snd_conv)
  with Cons f show ?case by (cases f) auto
qed simp

lemma stream_AdvanceUntil_preserves:
  "stream_AdvanceUntil check a st = (c, a', st') \<Longrightarrow> \<forall>c a. P a \<longrightarrow> P (snd (check c a)) \<Longrightarrow>
   P a \<Longrightarrow> P a'"
proof (induction check a st rule: stream_AdvanceUntil.induct)
  case (1 check a st)
  let ?st = "st \<lparr> buffer_cursor := length (buffer st) \<rparr>"
  obtain r a1 where r: "find_if check a (drop (buffer_cursor st) (buffer st)) (buffer_cursor st) = (r, a1)"
    by fastforce
  obtain ok st1 where st1: "ReadBlockChecked ?st (pos ?st) = (ok, st1)" by fastforce
  have P: "P a1" by (rule find_if_preserves [OF r 1(3,4)])
  show ?case
  proof (cases "r = None \<and> ok")
    case True
    then have "stream_AdvanceUntil check a1 st1 = (c, a', st')"
      using 1(2) r st1 by (simp add: stream_AdvanceUntil.simps [of check a st])
    with 1(1) [OF r [symmetric] _ st1 [symmetric]] True 1(3) P show ?thesis by simp
  next
    case False
    with 1(2) r st1 P show ?thesis
      by (auto simp: stream_AdvanceUntil.simps [of check a st] split: option.splits if_splits)
  qed
qed

lemma lex_AdvanceUntil_update:
  assumes "AdvanceUntil check a s = (a', s')" and "lex_step s0 s"
    and "\<And>d. desc_inv (next_desc s) \<Longrightarrow> desc_inv d \<Longrightarrow> desc_inv (f d)"
    and "\<And>d. beg_pos (location (f d)) = beg_pos (location d)"
  shows "lex_step s0 (update_next f s')"
proof -
  have "lex_step s s'" by (rule lex_step_AdvanceUntil [OF assms(1)])
  moreover have "next_desc s' = next_desc s"
    using assms(1) by (auto simp: AdvanceUntil_def next_desc_def split: prod.splits)
  ultimately have "lex_step s (update_next f s')"
    using assms(3,4) by (auto simp: lex_step_def same_config_def)
  with assms(2) show ?thesis by (rule lex_step_trans)
qed

lemma AdvanceUntil_preserves:
  "AdvanceUntil check a s = (a', s') \<Longrightarrow> \<forall>c a. P a \<longrightarrow> P (snd (check c a)) \<Longrightarrow> P a \<Longrightarrow> P a'"
  by (auto simp: AdvanceUntil_def split: prod.splits intro: stream_AdvanceUntil_preserves)

lemma lex_AdvanceUntil_string [lex_ops]:
  "lex_step s0 s \<Longrightarrow> lex_step s0 (AdvanceUntil_literal string_check s)"
proof (cases "AdvanceUntil string_check (literal_chars (next_desc s)) s")
  case (Pair b s')
  assume "lex_step s0 s"
  have "\<forall>c a. literal_inv a \<longrightarrow> literal_inv (snd (string_check c a))"
    by (simp add: string_check_def Let_def AddChar_spec)
  with AdvanceUntil_preserves [OF Pair] have "literal_inv (literal_chars (next_desc s)) \<Longrightarrow> literal_inv b"
    by blast
  with lex_AdvanceUntil_update [OF Pair \<open>lex_step s0 s\<close>] Pair show ?thesis
    by (simp add: AdvanceUntil_literal_def desc_inv_def)
qed

lemma AdvanceUntil_literal_left:
  "input_left (AdvanceUntil_literal check s) \<le> unread (source_stream s)"
  using AdvanceUntil_left [of check "literal_chars (next_desc s)" s]
  by (simp add: AdvanceUntil_literal_def split: prod.splits)

function ScanString_escapes :: "Scanner \<Rightarrow> bool \<times> Scanner" where
  "ScanString_escapes s =
     (if c0 s = 0x5C
      then let s1 = Advance s
           in if c0 s1 = kEndOfInput then (False, s1)
              else (case ScanEscape False s1 of (ok, s2) \<Rightarrow>
                      if \<not> ok then (False, s2) else ScanString_escapes s2)
      else (True, s))"
  by pat_completeness auto

termination ScanString_escapes
proof (relation "measure input_left", simp, goal_cases)
  case (1 s s1 ok s2)
  then have "lex_step s1 s2" by (metis lex_ScanEscape lex_step_refl)
  then have "input_left s2 \<le> input_left (Advance s)" using 1 lex_step_left by simp
  also have "\<dots> < input_left s" using 1 by (intro Advance_less) simp
  finally show ?case by simp
qed

declare ScanString_escapes.simps [simp del]

lemma lex_ScanString_escapes [lex_results]:
  "ScanString_escapes s = (r, s') \<Longrightarrow> lex_step s0 s \<Longrightarrow> lex_step s0 s'"
proof (induction s rule: ScanString_escapes.induct)
  case (1 s)
  show ?case
    by (insert 1(2,3)) (auto simp: ScanString_escapes.simps [of s] Let_def split: if_splits prod.splits;
        (assumption | rule lex_ops | erule lex_results | rule 1(1) [OF _ refl _ sym] | force)+)
qed

function ScanString_loop :: "uc32 \<Rightarrow> Scanner \<Rightarrow> token \<times> Scanner" where
  "ScanString_loop quote s =
     (case ScanString_escapes (AdvanceUntil_literal string_check s) of (ok, s) \<Rightarrow>
        if \<not> ok then (Token_ILLEGAL, s)
        else if c0 s = quote then (Token_STRING, Advance s)
        else if c0 s = kEndOfInput \<or> IsStringLiteralLineTerminator (c0 s) then (Token_ILLEGAL, s)
        else ScanString_loop quote (AddLiteralChar (c0 s) s))"
  by pat_completeness auto

text \<open>A round that ends with a character has read at least that one.\<close>

lemma unread_round:
  "lex_step s1 s2 \<Longrightarrow> input_left s1 \<le> unread (source_stream s) \<Longrightarrow> c0 s2 \<noteq> kEndOfInput \<Longrightarrow>
   unread (source_stream s2) < unread (source_stream s)"
  using lex_step_left [of s1 s2] by (simp add: input_left_def split: if_splits)

termination ScanString_loop
proof (relation "measure (\<lambda>(q, s). unread (source_stream s))", simp, goal_cases)
  case (1 quote s ok s2)
  then have "lex_step (AdvanceUntil_literal string_check s) s2"
    by (metis lex_ScanString_escapes lex_step_refl)
  with 1 unread_round [OF _ AdvanceUntil_literal_left] show ?case by simp
qed

declare ScanString_loop.simps [simp del]

definition ScanString :: "Scanner \<Rightarrow> token \<times> Scanner" where
  "ScanString s = ScanString_loop (c0 s) (Start_literal s)"

lemma lex_ScanString_loop [lex_results]:
  "ScanString_loop q s = (r, s') \<Longrightarrow> lex_step s0 s \<Longrightarrow> lex_step s0 s'"
proof (induction q s rule: ScanString_loop.induct)
  case (1 q s)
  show ?case
    by (insert 1(2,3)) (auto simp: ScanString_loop.simps [of q s] split: if_splits prod.splits;
        (assumption | rule lex_ops | erule lex_results | rule 1(1) [OF sym] | force)+)
qed

lemma lex_ScanString [lex_results]: "ScanString s = (r, s') \<Longrightarrow> lex_step s0 s \<Longrightarrow> lex_step s0 s'"
  by (auto simp: ScanString_def; (erule lex_results | rule lex_ops | assumption)+)


section \<open>Templates\<close>

text \<open>
  \<^verbatim>\<open>Scanner::ErrorState\<close> saves a message and its location, clears them, and restores
  them when the scope ends. \<^verbatim>\<open>MoveErrorTo\<close> hands an error to the token and clears it.
\<close>

definition ErrorState_MoveErrorTo ::
    "MessageTemplate \<Rightarrow> Location \<Rightarrow> TokenDesc \<Rightarrow> MessageTemplate \<times> Location \<times> TokenDesc" where
  "ErrorState_MoveErrorTo message loc dest =
     (if message = kNone then (message, loc, dest)
      else let dest = (if invalid_template_escape_message dest = kNone
                       then dest \<lparr> invalid_template_escape_message := message,
                                   invalid_template_escape_location := loc \<rparr>
                       else dest)
           in (kNone, Location_invalid, dest))"

definition MoveScannerErrorTo :: "Scanner \<Rightarrow> Scanner" where
  "MoveScannerErrorTo s =
     (case ErrorState_MoveErrorTo (scanner_error s) (scanner_error_location s) (next_desc s) of
        (message, loc, dest) \<Rightarrow>
          update_next (\<lambda>_. dest) (s \<lparr> scanner_error := message, scanner_error_location := loc \<rparr>))"

definition MoveOctalErrorTo :: "Scanner \<Rightarrow> Scanner" where
  "MoveOctalErrorTo s =
     (case ErrorState_MoveErrorTo (octal_message s) (octal_pos s) (next_desc s) of
        (message, loc, dest) \<Rightarrow>
          update_next (\<lambda>_. dest) (s \<lparr> octal_pos := loc, octal_message := message \<rparr>))"

lemma lex_MoveErrorTo [lex_ops]:
  "lex_step s0 s \<Longrightarrow> lex_step s0 (MoveScannerErrorTo s)"
  "lex_step s0 s \<Longrightarrow> lex_step s0 (MoveOctalErrorTo s)"
proof -
  have "lex_step s (MoveScannerErrorTo s)" "lex_step s (MoveOctalErrorTo s)"
    by (auto simp: MoveScannerErrorTo_def MoveOctalErrorTo_def ErrorState_MoveErrorTo_def Let_def
        lex_step_def same_config_def input_left_def update_next_def next_desc_def desc_inv_def
        error_stuck_def scanner_has_parser_error_def reads_on_same)
  then show "lex_step s0 s \<Longrightarrow> lex_step s0 (MoveScannerErrorTo s)"
    "lex_step s0 s \<Longrightarrow> lex_step s0 (MoveOctalErrorTo s)"
    using lex_step_trans by blast+
qed

text \<open>The template branch for a backslash, with the backslash consumed.\<close>

definition ScanTemplate_escape :: "Scanner \<Rightarrow> Scanner" where
  "ScanTemplate_escape s =
     (let s = AddRawLiteralChar 0x5C s
      in if IsLineTerminator (c0 s)
         then let lastChar = c0 s; s = Advance s
              in if lastChar = 0x0D
                 then AddRawLiteralChar 0x0A (if c0 s = 0x0A then Advance s else s)
                 else AddRawLiteralChar lastChar s
         else (case ScanEscape True s of (success, s) \<Rightarrow>
                 MoveOctalErrorTo (MoveScannerErrorTo s)))"

text \<open>The template branch for any other character, with it consumed.\<close>

definition ScanTemplate_char :: "uc32 \<Rightarrow> Scanner \<Rightarrow> Scanner" where
  "ScanTemplate_char c s =
     (let (c, s) = (if c = 0x0D then (0x0A, if c0 s = 0x0A then Advance s else s) else (c, s))
      in AddLiteralChar c (AddRawLiteralChar c s))"

lemma lex_ScanTemplate_escape [lex_ops]:
  "lex_step s0 s \<Longrightarrow> lex_step s0 (ScanTemplate_escape s)"
  by (auto simp: ScanTemplate_escape_def Let_def split: if_splits prod.splits; (erule lex_results | rule lex_ops | assumption)+)

lemma lex_ScanTemplate_char [lex_ops]:
  "lex_step s0 s \<Longrightarrow> lex_step s0 (ScanTemplate_char c s)"
  by (auto simp: ScanTemplate_char_def Let_def split: if_splits prod.splits; (erule lex_results | rule lex_ops | assumption)+)

function ScanTemplateSpan_loop :: "Scanner \<Rightarrow> token \<times> Scanner" where
  "ScanTemplateSpan_loop s =
     (let c = c0 s
      in if c = 0x60 then (Token_TEMPLATE_TAIL, Advance s)
         else case (if c = 0x24 then Peek s else (0, s)) of (p, s) \<Rightarrow>
                if c = 0x24 \<and> p = 0x7B then (Token_TEMPLATE_SPAN, Advance (Advance s))
                else if c = 0x5C then ScanTemplateSpan_loop (ScanTemplate_escape (Advance s))
                else if c = kEndOfInput then (Token_TEMPLATE_SPAN, s)
                else ScanTemplateSpan_loop (ScanTemplate_char c (Advance s)))"
  by pat_completeness auto

lemma template_round:
  assumes "(if c0 s = 0x24 then Peek s else (0, s)) = (p, s1)"
  shows "lex_step s s1" "c0 s1 = c0 s"
  using assms lex_step_Peek [of s p s1] Peek_c0 [of s p s1] by (auto split: if_splits)

lemma template_round_less:
  assumes "(p, s1) = (if c0 s = 0x24 then Peek s else (0, s))" and "c0 s \<noteq> kEndOfInput"
    and "lex_step (Advance s1) s2"
  shows "input_left s2 < input_left s"
  using template_round [OF assms(1) [symmetric]] Advance_less [of s1] lex_step_left [OF assms(3)]
    lex_step_left [of s s1] assms(2) by simp

termination ScanTemplateSpan_loop
  by (relation "measure input_left")
    (auto intro!: template_round_less lex_ScanTemplate_escape lex_ScanTemplate_char)

declare ScanTemplateSpan_loop.simps [simp del]

definition ScanTemplateSpan :: "Scanner \<Rightarrow> token \<times> Scanner" where
  "ScanTemplateSpan s =
     (let saved_error = (scanner_error s, scanner_error_location s);
          saved_octal = (octal_pos s, octal_message s);
          s = s \<lparr> scanner_error := kNone, scanner_error_location := Location_invalid \<rparr>;
          s = s \<lparr> octal_pos := Location_invalid, octal_message := kNone \<rparr>
      in case ScanTemplateSpan_loop (Start_raw_literal (Start_literal s)) of (result, s) \<Rightarrow>
           let s = update_next (\<lambda>d. d \<lparr> location := (location d) \<lparr> end_pos := source_pos s \<rparr>,
                                        desc_token := result \<rparr>) s;
               s = s \<lparr> octal_pos := fst saved_octal, octal_message := snd saved_octal \<rparr>;
               s = s \<lparr> scanner_error := fst saved_error, scanner_error_location := snd saved_error \<rparr>
           in (result, s))"

lemma lex_ScanTemplateSpan_loop [lex_results]:
  "ScanTemplateSpan_loop s = (r, s') \<Longrightarrow> lex_step s0 s \<Longrightarrow> lex_step s0 s'"
proof (induction s rule: ScanTemplateSpan_loop.induct)
  case (1 s)
  obtain p s1 where p: "(if c0 s = 0x24 then Peek s else (0, s)) = (p, s1)" by fastforce
  have s1: "lex_step s0 s1" using template_round(1) [OF p] 1(4) lex_step_trans by blast
  show ?case
    by (insert 1(3) p s1) (auto simp: ScanTemplateSpan_loop.simps [of s] Let_def split: if_splits;
        (assumption | rule lex_ops | rule 1(1,2) | force)+)
qed

lemma lex_update_desc [lex_ops]:
  "lex_step s0 s \<Longrightarrow>
   lex_step s0 (update_next (\<lambda>d. d \<lparr> location := (location d) \<lparr> end_pos := e \<rparr>, desc_token := t \<rparr>) s)"
  by (erule lex_step_trans, rule lex_step_update_next) (simp_all add: desc_inv_def)

lemma lex_ScanTemplateSpan [lex_results]:
  "ScanTemplateSpan s = (r, s') \<Longrightarrow> lex_step s0 s \<Longrightarrow> lex_step s0 s'"
  by (auto simp: ScanTemplateSpan_def Let_def split: prod.splits; (erule lex_results | rule lex_ops | assumption)+)


section \<open>Numbers\<close>

text \<open>The predicates passed to \<^verbatim>\<open>ScanDigitsWithNumericSeparators\<close>.\<close>

datatype digit_predicate = DecimalDigit | BinaryDigit | OctalDigit | HexDigit

fun is_digit :: "digit_predicate \<Rightarrow> uc32 \<Rightarrow> bool" where
  "is_digit DecimalDigit c = IsDecimalDigit c"
| "is_digit BinaryDigit c = IsBinaryDigit c"
| "is_digit OctalDigit c = IsOctalDigit c"
| "is_digit HexDigit c = IsHexDigit c"

lemma is_digit_end [simp]: "\<not> is_digit p kEndOfInput"
  by (cases p) simp_all

definition report_at_pos :: "MessageTemplate \<Rightarrow> Scanner \<Rightarrow> Scanner" where
  "report_at_pos message s =
     ReportScannerError (mk_Location (source_pos s) (source_pos s + 1)) message s"

function ScanDigits_loop :: "digit_predicate \<Rightarrow> bool \<Rightarrow> Scanner \<Rightarrow> bool \<times> Scanner" where
  "ScanDigits_loop pred separator_seen s =
     (if is_digit pred (c0 s) \<or> c0 s = 0x5F
      then if c0 s = 0x5F
           then let s1 = Advance s
                in if c0 s1 = 0x5F then (False, report_at_pos kContinuousNumericSeparator s1)
                   else ScanDigits_loop pred True s1
           else ScanDigits_loop pred False (AddLiteralCharAdvance s)
      else if separator_seen then (False, report_at_pos kTrailingNumericSeparator s)
      else (True, s))"
  by pat_completeness auto

termination ScanDigits_loop
  by (relation "measure (\<lambda>(p, b, s). input_left s)")
    (auto intro!: Advance_less AddLiteralCharAdvance_less)

declare ScanDigits_loop.simps [simp del]

definition ScanDigitsWithNumericSeparators ::
    "digit_predicate \<Rightarrow> bool \<Rightarrow> Scanner \<Rightarrow> bool \<times> Scanner" where
  "ScanDigitsWithNumericSeparators pred is_check_first_digit s =
     (if is_check_first_digit \<and> \<not> is_digit pred (c0 s) then (False, s)
      else ScanDigits_loop pred False s)"

function ScanDecimalDigits_loop :: "Scanner \<Rightarrow> Scanner" where
  "ScanDecimalDigits_loop s =
     (if IsDecimalDigit (c0 s) then ScanDecimalDigits_loop (AddLiteralCharAdvance s) else s)"
  by pat_completeness auto

termination ScanDecimalDigits_loop
  by (relation "measure input_left") (auto intro!: AddLiteralCharAdvance_less)

declare ScanDecimalDigits_loop.simps [simp del]

definition ScanDecimalDigits :: "bool \<Rightarrow> Scanner \<Rightarrow> bool \<times> Scanner" where
  "ScanDecimalDigits allow_numeric_separator s =
     (if allow_numeric_separator then ScanDigitsWithNumericSeparators DecimalDigit False s
      else let s = ScanDecimalDigits_loop s
           in if c0 s = 0x5F then (False, report_at_pos kInvalidOrUnexpectedToken s) else (True, s))"

text \<open>The value is a \<^verbatim>\<open>uint64_t\<close>: it wraps.\<close>

function ScanDecimalAsSmi_separators :: "64 word \<Rightarrow> bool \<Rightarrow> Scanner \<Rightarrow> bool \<times> 64 word \<times> Scanner" where
  "ScanDecimalAsSmi_separators val separator_seen s =
     (if IsDecimalDigit (c0 s) \<or> c0 s = 0x5F
      then if c0 s = 0x5F
           then let s1 = Advance s
                in if c0 s1 = 0x5F then (False, val, report_at_pos kContinuousNumericSeparator s1)
                   else ScanDecimalAsSmi_separators val True s1
           else ScanDecimalAsSmi_separators (10 * val + ucast (c0 s - 0x30)) False
                  (AddLiteralChar (c0 s) (Advance s))
      else if separator_seen then (False, val, report_at_pos kTrailingNumericSeparator s)
      else (True, val, s))"
  by pat_completeness auto

termination ScanDecimalAsSmi_separators
  by (relation "measure (\<lambda>(v, b, s). input_left s)") (auto intro!: Advance_less)

declare ScanDecimalAsSmi_separators.simps [simp del]

definition ScanDecimalAsSmiWithNumericSeparators ::
    "64 word \<Rightarrow> Scanner \<Rightarrow> bool \<times> 64 word \<times> Scanner" where
  "ScanDecimalAsSmiWithNumericSeparators val s = ScanDecimalAsSmi_separators val False s"

function ScanDecimalAsSmi_loop :: "64 word \<Rightarrow> Scanner \<Rightarrow> 64 word \<times> Scanner" where
  "ScanDecimalAsSmi_loop val s =
     (if IsDecimalDigit (c0 s)
      then ScanDecimalAsSmi_loop (10 * val + ucast (c0 s - 0x30)) (AddLiteralChar (c0 s) (Advance s))
      else (val, s))"
  by pat_completeness auto

termination ScanDecimalAsSmi_loop
  by (relation "measure (\<lambda>(v, s). input_left s)") (auto intro!: Advance_less)

declare ScanDecimalAsSmi_loop.simps [simp del]

definition ScanDecimalAsSmi :: "64 word \<Rightarrow> bool \<Rightarrow> Scanner \<Rightarrow> bool \<times> 64 word \<times> Scanner" where
  "ScanDecimalAsSmi val allow_numeric_separator s =
     (if allow_numeric_separator then ScanDecimalAsSmiWithNumericSeparators val s
      else case ScanDecimalAsSmi_loop val s of (val, s) \<Rightarrow> (True, val, s))"

definition ScanBinaryDigits :: "Scanner \<Rightarrow> bool \<times> Scanner" where
  "ScanBinaryDigits s = ScanDigitsWithNumericSeparators BinaryDigit True s"

definition ScanOctalDigits :: "Scanner \<Rightarrow> bool \<times> Scanner" where
  "ScanOctalDigits s = ScanDigitsWithNumericSeparators OctalDigit True s"

definition ScanHexDigits :: "Scanner \<Rightarrow> bool \<times> Scanner" where
  "ScanHexDigits s = ScanDigitsWithNumericSeparators HexDigit True s"

function ScanImplicitOctalDigits :: "int \<Rightarrow> Scanner \<Rightarrow> bool \<times> NumberKind \<times> Scanner" where
  "ScanImplicitOctalDigits start_pos s =
     (if IsNonOctalDecimalDigit (c0 s) then (True, DECIMAL_WITH_LEADING_ZERO, s)
      else if \<not> IsOctalDigit (c0 s)
      then (True, IMPLICIT_OCTAL,
            s \<lparr> octal_pos := mk_Location start_pos (source_pos s), octal_message := kStrictOctalLiteral \<rparr>)
      else ScanImplicitOctalDigits start_pos (AddLiteralCharAdvance s))"
  by pat_completeness auto

termination ScanImplicitOctalDigits
  by (relation "measure (\<lambda>(p, s). input_left s)") (auto intro!: AddLiteralCharAdvance_less)

declare ScanImplicitOctalDigits.simps [simp del]

definition ScanSignedInteger :: "Scanner \<Rightarrow> bool \<times> Scanner" where
  "ScanSignedInteger s =
     (let s = (if c0 s = 0x2B \<or> c0 s = 0x2D then AddLiteralCharAdvance s else s)
      in if \<not> IsDecimalDigit (c0 s) then (False, s) else ScanDecimalDigits True s)"

text \<open>\<^verbatim>\<open>Smi::kMaxValue\<close> on a 64-bit build without pointer compression, and
  \<^verbatim>\<open>BigInt::kMaxLengthBits / 4\<close>.\<close>

abbreviation kSmiMaxValue :: "64 word" where "kSmiMaxValue \<equiv> 2147483647"
abbreviation kMaxBigIntCharacters :: int where "kMaxBigIntCharacters \<equiv> 268435456"

text \<open>
  \<^verbatim>\<open>ScanNumber\<close> in three parts. The prefix after a leading zero decides the kind; an
  early \<^verbatim>\<open>return ILLEGAL\<close> is \<open>False\<close>.
\<close>

definition ScanNumber_zero :: "int \<Rightarrow> Scanner \<Rightarrow> bool \<times> NumberKind \<times> bool \<times> Scanner" where
  "ScanNumber_zero start_pos s =
     (let s = AddLiteralCharAdvance s
      in if AsciiAlphaToLower (c0 s) = 0x78
         then (case ScanHexDigits (AddLiteralCharAdvance s) of (ok, s) \<Rightarrow> (ok, HEX, True, s))
         else if AsciiAlphaToLower (c0 s) = 0x6F
         then (case ScanOctalDigits (AddLiteralCharAdvance s) of (ok, s) \<Rightarrow> (ok, OCTAL, True, s))
         else if AsciiAlphaToLower (c0 s) = 0x62
         then (case ScanBinaryDigits (AddLiteralCharAdvance s) of (ok, s) \<Rightarrow> (ok, BINARY, True, s))
         else if IsOctalDigit (c0 s)
         then (case ScanImplicitOctalDigits start_pos s of (ok, kind, s) \<Rightarrow>
                 (ok, kind, kind \<noteq> DECIMAL_WITH_LEADING_ZERO, s))
         else if IsNonOctalDecimalDigit (c0 s) then (True, DECIMAL_WITH_LEADING_ZERO, True, s)
         else if c0 s = 0x5F then (False, DECIMAL, True, report_at_pos kZeroDigitNumericSeparator s)
         else (True, DECIMAL, True, s))"

text \<open>The fractional part after the integer digits: success, whether a period was
  seen, and the state.\<close>

definition ScanNumber_fraction :: "bool \<Rightarrow> Scanner \<Rightarrow> bool \<times> bool \<times> Scanner" where
  "ScanNumber_fraction allow_numeric_separator s =
     (case ScanDecimalDigits allow_numeric_separator s of (ok, s) \<Rightarrow>
        if \<not> ok then (False, False, s)
        else if c0 s = 0x2E
        then let s = AddLiteralCharAdvance s
             in if c0 s = 0x5F then (False, True, s)
                else (case ScanDecimalDigits True s of (ok, s) \<Rightarrow> (ok, True, s))
        else (True, False, s))"

text \<open>Decimal digits; \<open>Some\<close> is an early return.\<close>

definition ScanNumber_decimal ::
    "icu \<Rightarrow> NumberKind \<Rightarrow> bool \<Rightarrow> int \<Rightarrow> Scanner \<Rightarrow> token option \<times> bool \<times> Scanner" where
  "ScanNumber_decimal U kind at_start start_pos s =
     (let allow_numeric_separator = (kind \<noteq> DECIMAL_WITH_LEADING_ZERO)
      in if at_start
         then (case ScanDecimalAsSmi 0 allow_numeric_separator s of (ok, val, s) \<Rightarrow>
                 if \<not> ok then (Some Token_ILLEGAL, False, s)
                 else if length (one_byte_literal (literal_chars (next_desc s))) \<le> 10 \<and>
                         val \<le> kSmiMaxValue \<and> c0 s \<noteq> 0x2E \<and> \<not> IsIdentifierStart U (c0 s)
                 then let s = update_next (\<lambda>d. d \<lparr> smi_value := ucast val \<rparr>) s;
                          s = (if kind = DECIMAL_WITH_LEADING_ZERO
                               then s \<lparr> octal_pos := mk_Location start_pos (source_pos s),
                                        octal_message := kStrictDecimalWithLeadingZero \<rparr>
                               else s)
                      in (Some Token_SMI, False, s)
                 else (case ScanNumber_fraction allow_numeric_separator s of (ok, seen_period, s) \<Rightarrow>
                         (if ok then None else Some Token_ILLEGAL, seen_period, s)))
         else (case ScanNumber_fraction allow_numeric_separator s of (ok, seen_period, s) \<Rightarrow>
                 (if ok then None else Some Token_ILLEGAL, seen_period, s)))"

text \<open>BigInt suffix, exponent and the character that may not follow a number.\<close>

definition ScanNumber_tail ::
    "icu \<Rightarrow> NumberKind \<Rightarrow> bool \<Rightarrow> int \<Rightarrow> Scanner \<Rightarrow> token \<times> Scanner" where
  "ScanNumber_tail U kind seen_period start_pos s =
     (let finish = (\<lambda>is_bigint s.
        if IsDecimalDigit (c0 s) \<or> IsIdentifierStart U (c0 s) then (Token_ILLEGAL, s)
        else let s = (if kind = DECIMAL_WITH_LEADING_ZERO
                      then s \<lparr> octal_pos := mk_Location start_pos (source_pos s),
                               octal_message := kStrictDecimalWithLeadingZero \<rparr>
                      else s)
             in (if is_bigint then Token_BIGINT else Token_NUMBER, s))
      in if c0 s = 0x6E \<and> \<not> seen_period \<and> IsValidBigIntKind kind
         then let len = source_pos s - start_pos - (if kind \<noteq> DECIMAL then 2 else 0)
              in if len > kMaxBigIntCharacters
                 then (Token_ILLEGAL,
                       ReportScannerError (mk_Location start_pos (source_pos s)) kBigIntTooBig s)
                 else finish True (Advance s)
         else if AsciiAlphaToLower (c0 s) = 0x65
         then if \<not> IsDecimalNumberKind kind then (Token_ILLEGAL, s)
              else (case ScanSignedInteger (AddLiteralCharAdvance s) of (ok, s) \<Rightarrow>
                      if \<not> ok then (Token_ILLEGAL, s) else finish False s)
         else finish False s)"

definition ScanNumber :: "icu \<Rightarrow> bool \<Rightarrow> Scanner \<Rightarrow> token \<times> Scanner" where
  "ScanNumber U seen_period s =
     (let s = Start_literal s; start_pos = source_pos s
      in if seen_period
         then let s = AddLiteralChar 0x2E s
              in if c0 s = 0x5F then (Token_ILLEGAL, s)
                 else (case ScanDecimalDigits True s of (ok, s) \<Rightarrow>
                         if \<not> ok then (Token_ILLEGAL, s)
                         else ScanNumber_tail U DECIMAL True start_pos s)
         else (case (if c0 s = 0x30 then ScanNumber_zero start_pos s else (True, DECIMAL, True, s)) of
                 (ok, kind, at_start, s) \<Rightarrow>
                   if \<not> ok then (Token_ILLEGAL, s)
                   else if IsDecimalNumberKind kind
                   then (case ScanNumber_decimal U kind at_start start_pos s of
                           (Some tok, seen_period, s) \<Rightarrow> (tok, s)
                         | (None, seen_period, s) \<Rightarrow> ScanNumber_tail U kind seen_period start_pos s)
                   else ScanNumber_tail U kind False start_pos s))"


section \<open>Numbers are lexical steps\<close>

lemma lex_report_at_pos [lex_ops]: "lex_step s0 s \<Longrightarrow> lex_step s0 (report_at_pos m s)"
  unfolding report_at_pos_def by (rule lex_ops)

lemma lex_ScanDigits_loop [lex_results]:
  "ScanDigits_loop p b s = (r, s') \<Longrightarrow> lex_step s0 s \<Longrightarrow> lex_step s0 s'"
proof (induction p b s rule: ScanDigits_loop.induct)
  case (1 p b s)
  show ?case
    by (insert 1(3,4)) (auto simp: ScanDigits_loop.simps [of p b s] Let_def split: if_splits;
        (assumption | rule lex_ops | rule 1(1,2) | force)+)
qed

lemma lex_ScanDigits [lex_results]:
  "ScanDigitsWithNumericSeparators p b s = (r, s') \<Longrightarrow> lex_step s0 s \<Longrightarrow> lex_step s0 s'"
  by (auto simp: ScanDigitsWithNumericSeparators_def split: if_splits; (erule lex_results | assumption)+)

lemma lex_ScanDecimalDigits_loop [lex_ops]:
  "lex_step s0 s \<Longrightarrow> lex_step s0 (ScanDecimalDigits_loop s)"
proof (induction s rule: ScanDecimalDigits_loop.induct)
  case (1 s)
  then show ?case by (simp add: ScanDecimalDigits_loop.simps [of s] lex_ops)
qed

lemma lex_ScanDecimalDigits [lex_results]:
  "ScanDecimalDigits b s = (r, s') \<Longrightarrow> lex_step s0 s \<Longrightarrow> lex_step s0 s'"
  by (auto simp: ScanDecimalDigits_def Let_def split: if_splits; (erule lex_results | rule lex_ops | assumption)+)

lemma lex_ScanDecimalAsSmi_separators [lex_results]:
  "ScanDecimalAsSmi_separators v b s = (r, v', s') \<Longrightarrow> lex_step s0 s \<Longrightarrow> lex_step s0 s'"
proof (induction v b s rule: ScanDecimalAsSmi_separators.induct)
  case (1 v b s)
  show ?case
    by (insert 1(3,4)) (auto simp: ScanDecimalAsSmi_separators.simps [of v b s] Let_def split: if_splits;
        (assumption | rule lex_ops | rule 1(1,2) | force)+)
qed

lemma lex_ScanDecimalAsSmi_loop [lex_results]:
  "ScanDecimalAsSmi_loop v s = (v', s') \<Longrightarrow> lex_step s0 s \<Longrightarrow> lex_step s0 s'"
proof (induction v s rule: ScanDecimalAsSmi_loop.induct)
  case (1 v s)
  then show ?case by (auto simp: ScanDecimalAsSmi_loop.simps [of v s] lex_ops split: if_splits)
qed

lemma lex_ScanDecimalAsSmi [lex_results]:
  "ScanDecimalAsSmi v b s = (r, v', s') \<Longrightarrow> lex_step s0 s \<Longrightarrow> lex_step s0 s'"
  by (auto simp: ScanDecimalAsSmi_def ScanDecimalAsSmiWithNumericSeparators_def split: if_splits prod.splits;
      (erule lex_results | assumption)+)

lemma lex_ScanImplicitOctalDigits [lex_results]:
  "ScanImplicitOctalDigits p s = (r, k, s') \<Longrightarrow> lex_step s0 s \<Longrightarrow> lex_step s0 s'"
proof (induction p s rule: ScanImplicitOctalDigits.induct)
  case (1 p s)
  then show ?case by (auto simp: ScanImplicitOctalDigits.simps [of p s] lex_ops split: if_splits)
qed

lemma lex_ScanSignedInteger [lex_results]:
  "ScanSignedInteger s = (r, s') \<Longrightarrow> lex_step s0 s \<Longrightarrow> lex_step s0 s'"
  by (auto simp: ScanSignedInteger_def Let_def split: if_splits; (erule lex_results | rule lex_ops | assumption)+)

lemma lex_ScanNumber_zero [lex_results]:
  "ScanNumber_zero p s = (r, k, b, s') \<Longrightarrow> lex_step s0 s \<Longrightarrow> lex_step s0 s'"
  by (clarsimp simp: ScanNumber_zero_def ScanHexDigits_def ScanOctalDigits_def ScanBinaryDigits_def Let_def
      split: if_splits prod.splits; (erule lex_results | rule lex_ops | assumption)+)

lemma lex_ScanNumber_fraction [lex_results]:
  "ScanNumber_fraction b s = (r, p, s') \<Longrightarrow> lex_step s0 s \<Longrightarrow> lex_step s0 s'"
  by (auto simp: ScanNumber_fraction_def Let_def split: if_splits prod.splits;
      (erule lex_results | rule lex_ops | assumption)+)

lemma lex_update_smi [lex_ops]:
  "lex_step s0 s \<Longrightarrow> lex_step s0 (update_next (\<lambda>d. d \<lparr> smi_value := v \<rparr>) s)"
  by (erule lex_step_trans, rule lex_step_update_next) (simp_all add: desc_inv_def)

lemma lex_ScanNumber_decimal [lex_results]:
  "ScanNumber_decimal U k a p s = (r, b, s') \<Longrightarrow> lex_step s0 s \<Longrightarrow> lex_step s0 s'"
  by (auto simp: ScanNumber_decimal_def Let_def split: if_splits prod.splits;
      (erule lex_results | rule lex_ops | assumption)+)

lemma lex_ScanNumber_tail [lex_results]:
  "ScanNumber_tail U k b p s = (r, s') \<Longrightarrow> lex_step s0 s \<Longrightarrow> lex_step s0 s'"
  by (auto simp: ScanNumber_tail_def Let_def split: if_splits prod.splits;
      (erule lex_results | rule lex_ops | assumption)+)

lemma lex_ScanNumber [lex_results]:
  "ScanNumber U b s = (r, s') \<Longrightarrow> lex_step s0 s \<Longrightarrow> lex_step s0 s'"
  by (auto simp: ScanNumber_def Let_def split: if_splits prod.splits option.splits;
      (erule lex_results | rule lex_ops | assumption)+)


section \<open>Identifiers and keywords\<close>

definition ScanIdentifierUnicodeEscape :: "Scanner \<Rightarrow> uc32 \<times> Scanner" where
  "ScanIdentifierUnicodeEscape s =
     (let s = Advance s
      in if c0 s \<noteq> 0x75 then (kInvalidSequence, s) else ScanUnicodeEscape False (Advance s))"

text \<open>\<^verbatim>\<open>P(c0_) || (CombineSurrogatePair() && P(c0_))\<close>, which reads a trail surrogate only
  if the first disjunct fails.\<close>

definition char_or_pair :: "(uc32 \<Rightarrow> bool) \<Rightarrow> Scanner \<Rightarrow> bool \<times> Scanner" where
  "char_or_pair P s =
     (if P (c0 s) then (True, s)
      else case scanner_CombineSurrogatePair s of (ok, s) \<Rightarrow> (ok \<and> P (c0 s), s))"

text \<open>The loop of \<^verbatim>\<open>ScanIdentifierOrKeywordInnerSlow\<close>; \<open>None\<close> is the early return of
  \<^verbatim>\<open>ILLEGAL\<close>, otherwise the values of \<^verbatim>\<open>escaped\<close> and \<^verbatim>\<open>can_be_keyword\<close>.\<close>

function InnerSlow_loop :: "icu \<Rightarrow> bool \<Rightarrow> bool \<Rightarrow> Scanner \<Rightarrow> (bool \<times> bool) option \<times> Scanner" where
  "InnerSlow_loop U escaped can_be_keyword s =
     (if c0 s = 0x5C
      then (case ScanIdentifierUnicodeEscape s of (c, s1) \<Rightarrow>
              if c = 0x5C \<or> \<not> IsIdentifierPart U c then (None, s1)
              else InnerSlow_loop U True (can_be_keyword \<and> CharCanBeKeyword c) (AddLiteralChar c s1))
      else (case char_or_pair (IsIdentifierPart U) s of (ok, s1) \<Rightarrow>
              if ok
              then InnerSlow_loop U escaped (can_be_keyword \<and> CharCanBeKeyword (c0 s1))
                     (AddLiteralCharAdvance s1)
              else (Some (escaped, can_be_keyword), s1)))"
  by pat_completeness auto

lemma lex_ScanIdentifierUnicodeEscape [lex_results]:
  "ScanIdentifierUnicodeEscape s = (c, s') \<Longrightarrow> lex_step s0 s \<Longrightarrow> lex_step s0 s'"
  by (auto simp: ScanIdentifierUnicodeEscape_def Let_def split: if_splits;
      (erule lex_results | rule lex_ops | assumption)+)

lemma ScanIdentifierUnicodeEscape_less:
  assumes "ScanIdentifierUnicodeEscape s = (c, s')" and "c0 s = 0x5C"
  shows "input_left s' < input_left s"
proof -
  have "lex_step (Advance s) s'"
    by (insert assms(1)) (auto simp: ScanIdentifierUnicodeEscape_def Let_def split: if_splits;
      (erule lex_results | rule lex_ops lex_step_refl)+)
  also have "input_left (Advance s) < input_left s" using assms(2) by (intro Advance_less) simp
  ultimately show ?thesis using lex_step_left by fastforce
qed

lemma lex_char_or_pair [lex_results]:
  "char_or_pair P s = (b, s') \<Longrightarrow> lex_step s0 s \<Longrightarrow> lex_step s0 s'"
  by (clarsimp simp: char_or_pair_def split: if_splits prod.splits; (erule lex_results | assumption)+)

lemma char_or_pair_holds: "char_or_pair P s = (True, s') \<Longrightarrow> P (c0 s')"
  by (auto simp: char_or_pair_def split: if_splits prod.splits)

termination InnerSlow_loop
proof (relation "measure (\<lambda>(U, e, k, s). input_left s)", simp, goal_cases)
  case (1 U e k s c s1)
  then show ?case using ScanIdentifierUnicodeEscape_less [of s c s1] by simp
next
  case (2 U e k s ok s1)
  then have m: "char_or_pair (IsIdentifierPart U) s = (True, s1)" by simp
  then have "c0 s1 \<noteq> kEndOfInput" using char_or_pair_holds by fastforce
  then have "input_left (AddLiteralCharAdvance s1) < input_left s1" by (rule AddLiteralCharAdvance_less)
  also have "\<dots> \<le> input_left s" using lex_char_or_pair [OF m lex_step_refl] by (rule lex_step_left)
  finally show ?case by simp
qed

declare InnerSlow_loop.simps [simp del]

definition ScanIdentifierOrKeywordInnerSlow :: "icu \<Rightarrow> bool \<Rightarrow> bool \<Rightarrow> Scanner \<Rightarrow> token \<times> Scanner" where
  "ScanIdentifierOrKeywordInnerSlow U escaped can_be_keyword s =
     (case InnerSlow_loop U escaped can_be_keyword s of
        (None, s) \<Rightarrow> (Token_ILLEGAL, s)
      | (Some (escaped, can_be_keyword), s) \<Rightarrow>
          (if (can_be_keyword \<or> source_dialect s \<noteq> kJsEng) \<and> is_one_byte (literal_chars (next_desc s))
           then let chars = one_byte_literal (literal_chars (next_desc s));
                    tok = KeywordOrIdentifierToken (source_dialect s) chars (length chars)
                in if TokenInRange tok Token_IDENTIFIER Token_YIELD then tok
                   else if tok = Token_FUTURE_STRICT_RESERVED_WORD
                   then if escaped then Token_ESCAPED_STRICT_RESERVED_WORD else tok
                   else if \<not> escaped then tok
                   else if TokenInRange tok Token_LET Token_STATIC then Token_ESCAPED_STRICT_RESERVED_WORD
                   else Token_ESCAPED_KEYWORD
           else Token_IDENTIFIER, s))"

text \<open>The closure of the fast path; it captures \<^verbatim>\<open>scan_flags\<close> and the literal.\<close>

definition ident_check :: "uc32 \<Rightarrow> byte \<times> LiteralBuffer \<Rightarrow> bool \<times> byte \<times> LiteralBuffer" where
  "ident_check c a =
     (case a of (scan_flags, b) \<Rightarrow>
        if c > kMaxAscii then (True, scan_flags OR kIdentifierNeedsSlowPath, b)
        else let char_flags = GetScanFlags c; scan_flags = scan_flags OR char_flags
             in if TerminatesLiteral char_flags then (True, scan_flags, b)
                else (False, scan_flags, AddChar_char b (ucast c)))"

definition ScanIdentifierOrKeywordInner :: "icu \<Rightarrow> Scanner \<Rightarrow> token \<times> Scanner" where
  "ScanIdentifierOrKeywordInner U s =
     (if c0 s \<le> kMaxAscii
      then if c0 s \<noteq> 0x5C
           then let scan_flags = drop_bit 1 (GetScanFlags (c0 s));
                    s = AddLiteralChar_char (ucast (c0 s)) s
                in case AdvanceUntil ident_check (scan_flags, literal_chars (next_desc s)) s of
                     ((scan_flags, b), s) \<Rightarrow>
                       let s = update_next (\<lambda>d. d \<lparr> literal_chars := b \<rparr>) s
                       in if \<not> IdentifierNeedsSlowPath scan_flags
                          then let chars = one_byte_literal (literal_chars (next_desc s))
                               in (if source_dialect s = kJsEng \<and> \<not> CanBeKeyword scan_flags
                                   then Token_IDENTIFIER
                                   else KeywordOrIdentifierToken (source_dialect s) chars (length chars), s)
                          else ScanIdentifierOrKeywordInnerSlow U False (CanBeKeyword scan_flags) s
           else (case ScanIdentifierUnicodeEscape s of (c, s) \<Rightarrow>
                   if c = 0x5C \<or> \<not> IsIdentifierStart U c then (Token_ILLEGAL, s)
                   else ScanIdentifierOrKeywordInnerSlow U True (CharCanBeKeyword c) (AddLiteralChar c s))
      else ScanIdentifierOrKeywordInnerSlow U False True s)"

definition ScanIdentifierOrKeyword :: "icu \<Rightarrow> Scanner \<Rightarrow> token \<times> Scanner" where
  "ScanIdentifierOrKeyword U s = ScanIdentifierOrKeywordInner U (Start_literal s)"

definition ScanPrivateName :: "icu \<Rightarrow> Scanner \<Rightarrow> token \<times> Scanner" where
  "ScanPrivateName U s =
     (let s = Start_literal s; p = source_pos s; s = Advance s
      in case char_or_pair (IsIdentifierStart U) s of (ok, s) \<Rightarrow>
           if ok
           then (case ScanIdentifierOrKeywordInner U (AddLiteralChar 0x23 s) of (tok, s) \<Rightarrow>
                   (if tok = Token_ILLEGAL then Token_ILLEGAL else Token_PRIVATE_NAME, s))
           else (Token_ILLEGAL, ReportScannerError_pos p kInvalidOrUnexpectedToken s))"


section \<open>Identifiers are lexical steps\<close>

lemma lex_InnerSlow_loop [lex_results]:
  "InnerSlow_loop U e k s = (r, s') \<Longrightarrow> lex_step s0 s \<Longrightarrow> lex_step s0 s'"
proof (induction U e k s rule: InnerSlow_loop.induct)
  case (1 U e k s)
  obtain c s1 where c: "ScanIdentifierUnicodeEscape s = (c, s1)" by fastforce
  obtain b s2 where b: "char_or_pair (IsIdentifierPart U) s = (b, s2)" by fastforce
  have l: "lex_step s0 s1" "lex_step s0 s2"
    using lex_ScanIdentifierUnicodeEscape [OF c 1(4)] lex_char_or_pair [OF b 1(4)] by simp_all
  show ?case
  proof (cases "c0 s = 0x5C")
    case True
    show ?thesis
      using 1(1) [OF True c [symmetric]] 1(3) c l(1) True
      by (auto simp: InnerSlow_loop.simps [of U e k s] lex_ops split: if_splits)
  next
    case False
    show ?thesis
      using 1(2) [OF False b [symmetric]] 1(3) b l(2) False
      by (auto simp: InnerSlow_loop.simps [of U e k s] lex_ops split: if_splits)
  qed
qed

lemma lex_InnerSlow [lex_results]:
  "ScanIdentifierOrKeywordInnerSlow U e k s = (r, s') \<Longrightarrow> lex_step s0 s \<Longrightarrow> lex_step s0 s'"
  by (auto simp: ScanIdentifierOrKeywordInnerSlow_def split: prod.splits option.splits;
      (erule lex_results | assumption)+)

text \<open>The fast path adds ASCII characters to a one-byte literal.\<close>

definition one_byte_inv :: "byte \<times> LiteralBuffer \<Rightarrow> bool" where
  "one_byte_inv a \<longleftrightarrow> literal_inv (snd a) \<and> is_one_byte (snd a)"

lemma ident_check_one_byte: "one_byte_inv a \<Longrightarrow> one_byte_inv (snd (ident_check c a))"
  by (auto simp: one_byte_inv_def ident_check_def Let_def AddChar_char_def AddOneByteChar_spec
      split: prod.splits)

lemma lex_ident_fast:
  assumes "AdvanceUntil ident_check (f, literal_chars (next_desc s1)) s1 = ((f', b), s2)"
    and "s1 = AddLiteralChar_char c s" and "is_one_byte (literal_chars (next_desc s))"
    and "lex_step s0 s"
  shows "lex_step s0 (update_next (\<lambda>d. d \<lparr> literal_chars := b \<rparr>) s2)"
proof -
  have l: "desc_inv (next_desc s) \<Longrightarrow> literal_inv (literal_chars (next_desc s1)) \<and>
      is_one_byte (literal_chars (next_desc s1))"
    using assms(2,3) by (simp add: AddLiteralChar_char_def AddChar_char_def desc_inv_def AddOneByteChar_spec)
  then have s1: "lex_step s s1"
    using assms(2) by (auto simp: AddLiteralChar_char_def lex_step_def same_config_def desc_inv_def)
  have b: "desc_inv (next_desc s) \<Longrightarrow> literal_inv b"
    using AdvanceUntil_preserves [OF assms(1), of one_byte_inv] l ident_check_one_byte
    by (simp add: one_byte_inv_def)
  have "lex_step s1 s2" "next_desc s2 = next_desc s1"
    using lex_step_AdvanceUntil [OF assms(1)] assms(1)
    by (auto simp: AdvanceUntil_def next_desc_def split: prod.splits)
  with s1 have "lex_step s s2" by (blast intro: lex_step_trans)
  with b have "lex_step s (update_next (\<lambda>d. d \<lparr> literal_chars := b \<rparr>) s2)"
    by (auto simp: lex_step_def same_config_def desc_inv_def)
  with assms(4) show ?thesis by (rule lex_step_trans)
qed

lemma lex_ScanIdentifierOrKeywordInner:
  assumes "ScanIdentifierOrKeywordInner U s = (r, s')" and "is_one_byte (literal_chars (next_desc s))"
    and "lex_step s0 s"
  shows "lex_step s0 s'"
proof (cases "c0 s \<le> kMaxAscii \<and> c0 s \<noteq> 0x5C")
  case True
  define s1 where "s1 = AddLiteralChar_char (ucast (c0 s)) s"
  obtain f b s2 where
    A: "AdvanceUntil ident_check (drop_bit 1 (GetScanFlags (c0 s)), literal_chars (next_desc s1)) s1 =
      ((f, b), s2)"
    by (metis prod.collapse)
  have "lex_step s0 (update_next (\<lambda>d. d \<lparr> literal_chars := b \<rparr>) s2)"
    by (rule lex_ident_fast [OF A s1_def assms(2,3)])
  then show ?thesis
    using True assms(1) A s1_def
    by (auto simp: ScanIdentifierOrKeywordInner_def Let_def split: if_splits intro: lex_InnerSlow)
next
  case False
  show ?thesis
    by (insert assms(1,3) False) (auto simp: ScanIdentifierOrKeywordInner_def split: if_splits prod.splits;
        (erule lex_results | rule lex_ops | assumption)+)
qed

lemma is_one_byte_Start [simp]: "is_one_byte (literal_chars (next_desc (Start_literal s)))"
  by (simp add: Start_literal_def LiteralBuffer_Start_def)

lemma lex_ScanIdentifierOrKeyword [lex_results]:
  "ScanIdentifierOrKeyword U s = (r, s') \<Longrightarrow> lex_step s0 s \<Longrightarrow> lex_step s0 s'"
  unfolding ScanIdentifierOrKeyword_def
  by (erule lex_ScanIdentifierOrKeywordInner, simp, rule lex_ops)


lemma next_desc_Advance [simp]: "next_desc (Advance s) = next_desc s"
  by (simp add: Advance_def next_desc_def split: prod.splits)

lemma next_desc_char_or_pair: "char_or_pair P s = (b, s') \<Longrightarrow> next_desc s' = next_desc s"
  by (auto simp: char_or_pair_def scanner_CombineSurrogatePair_def next_desc_def
      split: if_splits prod.splits)

lemma is_one_byte_AddChar: "is_one_byte b \<Longrightarrow> c \<le> 0xff \<Longrightarrow> is_one_byte (AddChar b c)"
  by (simp add: AddChar_def AddOneByteChar_def ExpandBuffer_def Let_def)

lemma lex_ScanPrivateName [lex_results]:
  assumes "ScanPrivateName U s = (r, s')" and "lex_step s0 s"
  shows "lex_step s0 s'"
proof -
  define s1 where "s1 = Advance (Start_literal s)"
  obtain b s2 where b: "char_or_pair (IsIdentifierStart U) s1 = (b, s2)" by fastforce
  have s1: "lex_step s0 s1" unfolding s1_def using assms(2) by (intro lex_ops)
  have s2: "lex_step s0 s2" by (rule lex_char_or_pair [OF b s1])
  have "is_one_byte (literal_chars (next_desc (AddLiteralChar 0x23 s2)))"
    using next_desc_char_or_pair [OF b] by (simp add: s1_def AddLiteralChar_def is_one_byte_AddChar)
  then show ?thesis
    using assms(1) b s2 s1_def
    by (auto simp: ScanPrivateName_def Let_def lex_ops split: if_splits prod.splits
        intro: lex_ScanIdentifierOrKeywordInner)
qed

section \<open>Regular expressions\<close>

text \<open>\<^verbatim>\<open>RegExpFlag\<close> is a set of bits in an \<^verbatim>\<open>int\<close>; the two feature flags are command-line
  options.\<close>

type_synonym RegExpFlags = "32 word"

record V8Flags =
  enable_experimental_regexp_engine :: bool
  harmony_regexp_unicode_sets :: bool

abbreviation kGlobal :: RegExpFlags where "kGlobal \<equiv> 1"
abbreviation kIgnoreCase :: RegExpFlags where "kIgnoreCase \<equiv> 2"
abbreviation kMultiline :: RegExpFlags where "kMultiline \<equiv> 4"
abbreviation kSticky :: RegExpFlags where "kSticky \<equiv> 8"
abbreviation kUnicode :: RegExpFlags where "kUnicode \<equiv> 16"
abbreviation kDotAll :: RegExpFlags where "kDotAll \<equiv> 32"
abbreviation kLinear :: RegExpFlags where "kLinear \<equiv> 64"
abbreviation kHasIndices :: RegExpFlags where "kHasIndices \<equiv> 128"
abbreviation kUnicodeSets :: RegExpFlags where "kUnicodeSets \<equiv> 256"

definition TryRegExpFlagFromChar :: "byte \<Rightarrow> RegExpFlags option" where
  "TryRegExpFlagFromChar c =
     (if c = 0x64 then Some kHasIndices else if c = 0x67 then Some kGlobal
      else if c = 0x69 then Some kIgnoreCase else if c = 0x6C then Some kLinear
      else if c = 0x6D then Some kMultiline else if c = 0x73 then Some kDotAll
      else if c = 0x75 then Some kUnicode else if c = 0x76 then Some kUnicodeSets
      else if c = 0x79 then Some kSticky else None)"

definition FlagFromChar :: "V8Flags \<Rightarrow> byte \<Rightarrow> RegExpFlags option" where
  "FlagFromChar v8_flags c =
     (case TryRegExpFlagFromChar c of None \<Rightarrow> None
      | Some f \<Rightarrow>
          if f = kLinear \<and> \<not> enable_experimental_regexp_engine v8_flags then None
          else if f = kUnicodeSets \<and> \<not> harmony_regexp_unicode_sets v8_flags then None
          else Some f)"

function ScanRegExpPattern_loop :: "bool \<Rightarrow> Scanner \<Rightarrow> bool \<times> Scanner" where
  "ScanRegExpPattern_loop in_character_class s =
     (if c0 s \<noteq> 0x2F \<or> in_character_class
      then if c0 s = kEndOfInput \<or> IsLineTerminator (c0 s) then (False, s)
           else if c0 s = 0x5C
           then let s1 = AddLiteralCharAdvance s
                in if c0 s1 = kEndOfInput \<or> IsLineTerminator (c0 s1) then (False, s1)
                   else ScanRegExpPattern_loop in_character_class (AddLiteralCharAdvance s1)
           else ScanRegExpPattern_loop
                  (if c0 s = 0x5D then False else if c0 s = 0x5B then True else in_character_class)
                  (AddLiteralCharAdvance s)
      else (True, s))"
  by pat_completeness auto

termination ScanRegExpPattern_loop
proof (relation "measure (\<lambda>(b, s). input_left s)", simp, goal_cases)
  case (1 b s s1)
  then show ?case
    using AddLiteralCharAdvance_less [of s] AddLiteralCharAdvance_less [of s1] by simp
next
  case (2 b s)
  then show ?case using AddLiteralCharAdvance_less [of s] by simp
qed

declare ScanRegExpPattern_loop.simps [simp del]

definition ScanRegExpPattern :: "Scanner \<Rightarrow> bool \<times> Scanner" where
  "ScanRegExpPattern s =
     (let s = Start_literal s;
          s = (if desc_token (next_desc s) = Token_ASSIGN_DIV then AddLiteralChar 0x3D s else s)
      in case ScanRegExpPattern_loop False s of (ok, s) \<Rightarrow>
           if \<not> ok then (False, s)
           else (True, update_next (\<lambda>d. d \<lparr> desc_token := Token_REGEXP_LITERAL \<rparr>) (Advance s)))"

text \<open>\<^verbatim>\<open>FlagFromChar\<close> takes a \<^verbatim>\<open>char\<close>: the argument \<^verbatim>\<open>c0_\<close> is truncated to eight bits.\<close>

function ScanRegExpFlags_loop ::
    "icu \<Rightarrow> V8Flags \<Rightarrow> RegExpFlags \<Rightarrow> Scanner \<Rightarrow> RegExpFlags option \<times> Scanner" where
  "ScanRegExpFlags_loop U v8_flags fl s =
     (if IsIdentifierPart U (c0 s)
      then (case FlagFromChar v8_flags (ucast (c0 s)) of None \<Rightarrow> (None, s)
            | Some flag \<Rightarrow>
                if fl AND flag \<noteq> 0 then (None, s)
                else ScanRegExpFlags_loop U v8_flags (fl OR flag) (AddLiteralCharAdvance s))
      else (Some fl, s))"
  by pat_completeness auto

termination ScanRegExpFlags_loop
  by (relation "measure (\<lambda>(U, v, f, s). input_left s)") (auto intro!: AddLiteralCharAdvance_less)

declare ScanRegExpFlags_loop.simps [simp del]

definition ScanRegExpFlags :: "icu \<Rightarrow> V8Flags \<Rightarrow> Scanner \<Rightarrow> RegExpFlags option \<times> Scanner" where
  "ScanRegExpFlags U v8_flags s =
     (case ScanRegExpFlags_loop U v8_flags 0 (Start_literal s) of
        (None, s) \<Rightarrow> (None, s)
      | (Some fl, s) \<Rightarrow>
          (Some fl, update_next (\<lambda>d. d \<lparr> location := (location d) \<lparr> end_pos := source_pos s \<rparr> \<rparr>) s))"

lemma lex_ScanRegExpPattern_loop [lex_results]:
  "ScanRegExpPattern_loop b s = (r, s') \<Longrightarrow> lex_step s0 s \<Longrightarrow> lex_step s0 s'"
proof (induction b s rule: ScanRegExpPattern_loop.induct)
  case (1 b s)
  show ?case
  proof (cases "c0 s = 0x5C")
    case True
    with 1(1) [OF _ _ True refl] 1(3,4) show ?thesis
      by (auto simp: ScanRegExpPattern_loop.simps [of b s] Let_def lex_ops split: if_splits)
  next
    case False
    with 1(2) [OF _ _ False] 1(3,4) show ?thesis
      by (auto simp: ScanRegExpPattern_loop.simps [of b s] Let_def lex_ops split: if_splits)
  qed
qed

lemma lex_update_token [lex_ops]:
  "lex_step s0 s \<Longrightarrow> lex_step s0 (update_next (\<lambda>d. d \<lparr> desc_token := t \<rparr>) s)"
  "lex_step s0 s \<Longrightarrow> lex_step s0 (update_next (\<lambda>d. d \<lparr> location := (location d) \<lparr> end_pos := e \<rparr> \<rparr>) s)"
  by (erule lex_step_trans, rule lex_step_update_next, simp_all add: desc_inv_def)+

lemma lex_ScanRegExpPattern [lex_results]:
  "ScanRegExpPattern s = (r, s') \<Longrightarrow> lex_step s0 s \<Longrightarrow> lex_step s0 s'"
  by (clarsimp simp: ScanRegExpPattern_def Let_def split: if_splits prod.splits;
      (erule lex_results | rule lex_ops | assumption)+)

lemma lex_ScanRegExpFlags_loop [lex_results]:
  "ScanRegExpFlags_loop U v f s = (r, s') \<Longrightarrow> lex_step s0 s \<Longrightarrow> lex_step s0 s'"
proof (induction U v f s rule: ScanRegExpFlags_loop.induct)
  case (1 U v f s)
  then show ?case
    by (auto simp: ScanRegExpFlags_loop.simps [of U v f s] lex_ops split: if_splits option.splits)
qed

lemma lex_ScanRegExpFlags [lex_results]:
  "ScanRegExpFlags U v s = (r, s') \<Longrightarrow> lex_step s0 s \<Longrightarrow> lex_step s0 s'"
  by (clarsimp simp: ScanRegExpFlags_def split: prod.splits option.splits;
      (erule lex_results | rule lex_ops | assumption)+)

end
