(* ===== verification/Scanner_Comments.thy ===== *)
theory Scanner_Comments
  imports Scanner_Literals
begin

text \<open>
  White space, comments and magic comments (\<^verbatim>\<open>SkipWhiteSpace\<close> of
  \<^verbatim>\<open>src/parsing/scanner-inl.h\<close> and \<^verbatim>\<open>SkipSingleHTMLComment\<close> to \<^verbatim>\<open>ScanHtmlComment\<close> of
  \<^verbatim>\<open>src/parsing/scanner.cc\<close>), in particular the \<^verbatim>\<open>sourceDialect\<close> comment that selects
  the keyword set. The relation \<open>scan_step\<close> extends \<open>lex_step\<close> to operations that may
  set the dialect or the parser error.
\<close>

section \<open>White space\<close>

text \<open>The closure captures \<^verbatim>\<open>next().after_line_terminator\<close> and \<^verbatim>\<open>hint\<close>.\<close>

definition white_check :: "icu \<Rightarrow> uc32 \<Rightarrow> bool \<times> uc32 \<Rightarrow> bool \<times> bool \<times> uc32" where
  "white_check U c a =
     (case a of (after_nl, hint) \<Rightarrow>
        if c = hint then (False, after_nl, hint)
        else if IsWhiteSpaceOrLineTerminator U c
        then (False, if \<not> after_nl \<and> IsLineTerminator c then True else after_nl, c)
        else (True, after_nl, hint))"

definition SkipWhiteSpace :: "icu \<Rightarrow> Scanner \<Rightarrow> token \<times> Scanner" where
  "SkipWhiteSpace U s =
     (if \<not> IsWhiteSpaceOrLineTerminator U (c0 s) then (Token_ILLEGAL, s)
      else let s = (if \<not> after_line_terminator (next_desc s) \<and> IsLineTerminator (c0 s)
                    then set_after_line_terminator True s else s)
           in case AdvanceUntil (white_check U) (after_line_terminator (next_desc s), 0x20) s of
                ((after_nl, hint), s) \<Rightarrow> (Token_WHITESPACE, set_after_line_terminator after_nl s))"

section \<open>Comments\<close>

text \<open>\<^verbatim>\<open>AdvanceUntil\<close> with a closure that captures nothing.\<close>

definition AdvanceUntil_char :: "(uc32 \<Rightarrow> bool) \<Rightarrow> Scanner \<Rightarrow> Scanner" where
  "AdvanceUntil_char check s = snd (AdvanceUntil (\<lambda>c a. (check c, a)) () s)"

lemma lex_AdvanceUntil_char [lex_ops]:
  "lex_step s0 s \<Longrightarrow> lex_step s0 (AdvanceUntil_char check s)"
  unfolding AdvanceUntil_char_def
  by (rule lex_step_trans [OF _ lex_step_AdvanceUntil]) (assumption, rule prod.collapse [symmetric])

lemma AdvanceUntil_char_left: "input_left (AdvanceUntil_char check s) \<le> unread (source_stream s)"
  unfolding AdvanceUntil_char_def by (rule AdvanceUntil_left) (rule prod.collapse [symmetric])

definition SkipSingleLineComment :: "Scanner \<Rightarrow> token \<times> Scanner" where
  "SkipSingleLineComment s = (Token_WHITESPACE, AdvanceUntil_char IsLineTerminator s)"

definition SkipSingleHTMLComment :: "Scanner \<Rightarrow> token \<times> Scanner" where
  "SkipSingleHTMLComment s =
     (if is_module (flags s)
      then (Token_ILLEGAL, ReportScannerError_pos (source_pos s) kHtmlCommentInModule s)
      else SkipSingleLineComment s)"

text \<open>The inner loops of \<^verbatim>\<open>SkipMultiLineComment\<close>: the stars before a possible slash;
  \<open>True\<close> if the comment is closed.\<close>

function skip_stars :: "Scanner \<Rightarrow> bool \<times> Scanner" where
  "skip_stars s =
     (if c0 s = 0x2A
      then let s1 = Advance s
           in if c0 s1 = 0x2F then (True, Advance s1) else skip_stars s1
      else (False, s))"
  by pat_completeness auto

termination skip_stars
  by (relation "measure input_left") (auto intro!: Advance_less)

declare skip_stars.simps [simp del]

definition multi_line_check :: "uc32 \<Rightarrow> bool" where
  "multi_line_check c =
     (if c > kMaxAscii then IsLineTerminator c
      else MultilineCommentCharacterNeedsSlowPath (GetScanFlags c))"

lemma lex_skip_stars [lex_results]:
  "skip_stars s = (r, s') \<Longrightarrow> lex_step s0 s \<Longrightarrow> lex_step s0 s'"
proof (induction s rule: skip_stars.induct)
  case (1 s)
  from 1(1) [OF _ refl] 1(2,3) show ?case
    by (auto simp: skip_stars.simps [of s] Let_def lex_ops split: if_splits)
qed

text \<open>The loop up to the first line terminator; \<open>True\<close> if the comment is closed.\<close>

function multi_line_first :: "Scanner \<Rightarrow> bool \<times> Scanner" where
  "multi_line_first s =
     (case skip_stars (AdvanceUntil_char multi_line_check s) of (closed, s2) \<Rightarrow>
        if closed then (True, s2)
        else if IsLineTerminator (c0 s2) then (False, set_after_line_terminator True s2)
        else if c0 s2 \<noteq> kEndOfInput then multi_line_first s2
        else (False, s2))"
  by pat_completeness auto

lemma star_round:
  assumes "skip_stars (AdvanceUntil_char check s) = (closed, s2)"
  shows "input_left s2 \<le> unread (source_stream s)"
    "c0 s2 \<noteq> kEndOfInput \<Longrightarrow> unread (source_stream s2) < unread (source_stream s)"
proof -
  show l: "input_left s2 \<le> unread (source_stream s)"
    using AdvanceUntil_char_left [of check s] lex_step_left [OF lex_skip_stars [OF assms lex_step_refl]]
    by linarith
  show "c0 s2 \<noteq> kEndOfInput \<Longrightarrow> unread (source_stream s2) < unread (source_stream s)"
    using unread_less_left [of s2] l by linarith
qed

termination multi_line_first
proof (relation "measure (\<lambda>s. unread (source_stream s))", simp, goal_cases)
  case (1 s closed s2)
  then show ?case using star_round(2) [of multi_line_check s closed s2] by simp
qed

declare multi_line_first.simps [simp del]

text \<open>The loop after it.\<close>

function multi_line_rest :: "Scanner \<Rightarrow> bool \<times> Scanner" where
  "multi_line_rest s =
     (if c0 s \<noteq> kEndOfInput
      then (case skip_stars (AdvanceUntil_char (\<lambda>c. c = 0x2A) s) of (closed, s2) \<Rightarrow>
              if closed then (True, s2) else multi_line_rest s2)
      else (False, s))"
  by pat_completeness auto

termination multi_line_rest
proof (relation "measure input_left", simp, goal_cases)
  case (1 s closed s2)
  then show ?case
    using star_round(1) [of "\<lambda>c. c = 0x2A" s closed s2] unread_less_left [of s] by simp
qed

declare multi_line_rest.simps [simp del]

definition SkipMultiLineComment :: "Scanner \<Rightarrow> token \<times> Scanner" where
  "SkipMultiLineComment s =
     (case (if \<not> after_line_terminator (next_desc s) then multi_line_first s else (False, s)) of
        (closed, s) \<Rightarrow>
          if closed then (Token_WHITESPACE, s)
          else case multi_line_rest s of (closed, s) \<Rightarrow>
            (if closed then Token_WHITESPACE else Token_ILLEGAL, s))"

text \<open>\<^verbatim>\<open>c0_ != '-' || Peek() != '-'\<close> peeks only after a dash.\<close>

definition ScanHtmlComment :: "Scanner \<Rightarrow> token \<times> Scanner" where
  "ScanHtmlComment s =
     (let s = Advance s
      in case (if c0 s \<noteq> 0x2D then (True, s)
               else case Peek s of (c, s) \<Rightarrow> (c \<noteq> 0x2D, s)) of (other, s) \<Rightarrow>
           if other then (Token_LT, PushBack 0x21 s)
           else SkipSingleHTMLComment ((Advance s) \<lparr> found_html_comment := True \<rparr>))"


section \<open>Magic comments\<close>

text \<open>
  The pointer \<^verbatim>\<open>value\<close> of \<^verbatim>\<open>TryToParseSourceURLComment\<close> aliases \<^verbatim>\<open>source_url_\<close> or
  \<^verbatim>\<open>source_mapping_url_\<close>, or is null for the dialect comment.
\<close>

datatype magic_value = ValueSourceUrl | ValueSourceMappingUrl | ValueNull

fun update_value :: "magic_value \<Rightarrow> (LiteralBuffer \<Rightarrow> LiteralBuffer) \<Rightarrow> Scanner \<Rightarrow> Scanner" where
  "update_value ValueSourceUrl f s = s \<lparr> source_url := f (source_url s) \<rparr>"
| "update_value ValueSourceMappingUrl f s = s \<lparr> source_mapping_url := f (source_mapping_url s) \<rparr>"
| "update_value ValueNull f s = s"

definition magic_comment_value :: "byte list \<Rightarrow> magic_value option" where
  "magic_comment_value name_literal =
     (if name_literal = ascii ''sourceURL'' then Some ValueSourceUrl
      else if name_literal = ascii ''sourceMappingURL'' then Some ValueSourceMappingUrl
      else if name_literal = ascii ''sourceDialect'' then Some ValueNull
      else None)"

lemma update_value_simps [simp]:
  "c0 (update_value v f s) = c0 s" "source_stream (update_value v f s) = source_stream s"
  "input_left (update_value v f s) = input_left s"
  by (cases v; simp add: input_left_def)+

text \<open>The loops over the name, white space, the value and what follows it.\<close>

function magic_name :: "icu \<Rightarrow> LiteralBuffer \<Rightarrow> Scanner \<Rightarrow> LiteralBuffer \<times> Scanner" where
  "magic_name U name s =
     (if c0 s \<noteq> kEndOfInput \<and> \<not> IsWhiteSpaceOrLineTerminator U (c0 s) \<and> c0 s \<noteq> 0x3D
      then magic_name U (AddChar name (c0 s)) (Advance s)
      else (name, s))"
  by pat_completeness auto

termination magic_name
  by (relation "measure (\<lambda>(U, n, s). input_left s)") (auto intro!: Advance_less)

function skip_white :: "icu \<Rightarrow> Scanner \<Rightarrow> Scanner" where
  "skip_white U s = (if IsWhiteSpace U (c0 s) then skip_white U (Advance s) else s)"
  by pat_completeness auto

termination skip_white
  by (relation "measure (\<lambda>(U, s). input_left s)") (auto intro!: Advance_less)

function magic_value_chars ::
    "icu \<Rightarrow> magic_value \<Rightarrow> LiteralBuffer \<Rightarrow> Scanner \<Rightarrow> LiteralBuffer \<times> Scanner" where
  "magic_value_chars U v lit s =
     (if c0 s \<noteq> kEndOfInput \<and> \<not> IsLineTerminator (c0 s)
      then if IsWhiteSpace U (c0 s) then (lit, s)
           else magic_value_chars U v (AddChar lit (c0 s))
                  (Advance (update_value v (\<lambda>b. AddChar b (c0 s)) s))
      else (lit, s))"
  by pat_completeness auto

lemma Advance_update_less:
  "c0 s \<noteq> kEndOfInput \<Longrightarrow> input_left (Advance (update_value v f s)) < input_left s"
  using Advance_less [of "update_value v f s"] by simp

termination magic_value_chars
  by (relation "measure (\<lambda>(U, v, l, s). input_left s)") (auto intro!: Advance_update_less)

function magic_value_end ::
    "icu \<Rightarrow> magic_value \<Rightarrow> LiteralBuffer \<Rightarrow> Scanner \<Rightarrow> LiteralBuffer \<times> Scanner" where
  "magic_value_end U v lit s =
     (if c0 s \<noteq> kEndOfInput \<and> \<not> IsLineTerminator (c0 s)
      then if \<not> IsWhiteSpace U (c0 s)
           then (LiteralBuffer_Start lit, update_value v LiteralBuffer_Start s)
           else magic_value_end U v lit (Advance s)
      else (lit, s))"
  by pat_completeness auto

termination magic_value_end
  by (relation "measure (\<lambda>(U, v, l, s). input_left s)") (auto intro!: Advance_less)

declare magic_name.simps [simp del] skip_white.simps [simp del] magic_value_chars.simps [simp del]
  magic_value_end.simps [simp del]

definition TrySetSourceDialect :: "byte list \<Rightarrow> Scanner \<Rightarrow> bool \<times> Scanner" where
  "TrySetSourceDialect value_literal s =
     (let failed = (False, set_parser_error
            (ReportScannerError_pos (source_pos s) kInvalidOrUnexpectedToken s))
      in if saw_non_comment_token s \<or> found_source_dialect_comment s then failed
         else case TryParseSourceDialect value_literal of
           Some parsed_source_dialect \<Rightarrow>
             (True, s \<lparr> source_dialect := parsed_source_dialect,
                source_dialect_name := foldl AddChar_char (LiteralBuffer_Start (source_dialect_name s)) value_literal,
                found_source_dialect_comment := True \<rparr>)
         | None \<Rightarrow> failed)"

definition TryToParseSourceURLComment :: "icu \<Rightarrow> Scanner \<Rightarrow> Scanner" where
  "TryToParseSourceURLComment U s =
     (if \<not> IsWhiteSpace U (c0 s) then s
      else case magic_name U (LiteralBuffer_Start LiteralBuffer_init) (Advance s) of (name, s) \<Rightarrow>
        if \<not> is_one_byte name then s
        else case magic_comment_value (one_byte_literal name) of None \<Rightarrow> s
        | Some v \<Rightarrow>
            let s = skip_white U s
            in if c0 s \<noteq> 0x3D then s
               else let s = skip_white U (Advance (update_value v LiteralBuffer_Start s))
                    in case magic_value_chars U v (LiteralBuffer_Start LiteralBuffer_init) s of (lit, s) \<Rightarrow>
                       case magic_value_end U v lit s of (lit, s) \<Rightarrow>
                         if v = ValueNull \<and> is_one_byte lit
                         then snd (TrySetSourceDialect (one_byte_literal lit) s) else s)"

definition SkipSourceURLComment :: "icu \<Rightarrow> Scanner \<Rightarrow> token \<times> Scanner" where
  "SkipSourceURLComment U s =
     (let s = TryToParseSourceURLComment U s
      in if IsLineTerminator (c0 s) \<or> c0 s = kEndOfInput then (Token_WHITESPACE, s)
         else SkipSingleLineComment s)"

section \<open>Comments are lexical steps\<close>

lemma lex_SkipWhiteSpace [lex_results]:
  "SkipWhiteSpace U s = (r, s') \<Longrightarrow> lex_step s0 s \<Longrightarrow> lex_step s0 s'"
  by (clarsimp simp: SkipWhiteSpace_def Let_def split: if_splits prod.splits;
      (erule lex_results | rule lex_ops | assumption)+)

lemma lex_SkipSingleLineComment [lex_results]:
  "SkipSingleLineComment s = (r, s') \<Longrightarrow> lex_step s0 s \<Longrightarrow> lex_step s0 s'"
  by (clarsimp simp: SkipSingleLineComment_def lex_ops)

lemma lex_SkipSingleHTMLComment [lex_results]:
  "SkipSingleHTMLComment s = (r, s') \<Longrightarrow> lex_step s0 s \<Longrightarrow> lex_step s0 s'"
  by (clarsimp simp: SkipSingleHTMLComment_def split: if_splits; (erule lex_results | rule lex_ops | assumption)+)

lemma lex_multi_line_first [lex_results]:
  "multi_line_first s = (r, s') \<Longrightarrow> lex_step s0 s \<Longrightarrow> lex_step s0 s'"
proof (induction s rule: multi_line_first.induct)
  case (1 s)
  obtain b s2 where b: "skip_stars (AdvanceUntil_char multi_line_check s) = (b, s2)" by fastforce
  have "lex_step s0 s2" by (rule lex_skip_stars [OF b lex_AdvanceUntil_char [OF 1(3)]])
  with 1(1) [OF b [symmetric]] 1(2) b show ?case
    by (auto simp: multi_line_first.simps [of s] lex_ops split: if_splits)
qed

lemma lex_multi_line_rest [lex_results]:
  "multi_line_rest s = (r, s') \<Longrightarrow> lex_step s0 s \<Longrightarrow> lex_step s0 s'"
proof (induction s rule: multi_line_rest.induct)
  case (1 s)
  obtain b s2 where b: "skip_stars (AdvanceUntil_char (\<lambda>c. c = 0x2A) s) = (b, s2)" by fastforce
  have "lex_step s0 s2" by (rule lex_skip_stars [OF b lex_AdvanceUntil_char [OF 1(3)]])
  with 1(1) [OF _ b [symmetric]] 1(2,3) b show ?case
    by (auto simp: multi_line_rest.simps [of s] lex_ops split: if_splits)
qed

lemma lex_SkipMultiLineComment [lex_results]:
  "SkipMultiLineComment s = (r, s') \<Longrightarrow> lex_step s0 s \<Longrightarrow> lex_step s0 s'"
  by (clarsimp simp: SkipMultiLineComment_def split: if_splits prod.splits;
      (erule lex_results | rule lex_ops | assumption)+)


section \<open>PushBack\<close>

text \<open>Pushing back the character that was just read leaves a peeked stream.\<close>

lemma PushBack_Advance: "PushBack (c0 s) (Advance s) = snd (Peek s)"
  using stream_Back_Advance [of "source_stream s"]
  by (cases "stream_Advance (source_stream s)"; cases "stream_Peek (source_stream s)")
    (simp add: PushBack_def Advance_def Peek_def)

lemma lex_snd_Peek [lex_ops]: "lex_step s0 s \<Longrightarrow> lex_step s0 (snd (Peek s))"
  by (rule lex_step_trans [OF _ lex_step_Peek]) (assumption, rule prod.collapse [symmetric])

lemma pos_Peek: "stream_Peek st = (c, st') \<Longrightarrow> pos st' = pos st"
  by (rule ReadBlockChecked_cases [of st "pos st"]) (auto simp: stream_Peek_def pos_def split: if_splits)

lemma pos_Advance: "stream_Advance st = (c, st') \<Longrightarrow> pos st' = Suc (pos st)"
  using pos_Peek [of st] by (cases "stream_Peek st") (auto simp: stream_Advance_def pos_def)

lemma same_text_Back:
  assumes "0 < pos st"
  shows "same_text st (stream_Back st)"
proof (cases "has_parser_error st")
  case True
  then show ?thesis
    by (auto simp: stream_Back_def same_text_def stream_inv_def text_of_def ReadBlockChecked_def)
next
  case False
  have "\<not> has_parser_error (stream_Back st)"
    using False by (simp add: stream_Back_def ReadBlockChecked_def ReadBlock_def split: prod.splits)
  with False stream_Back_abs [OF _ False assms] show ?thesis by (simp add: same_text_def)
qed

lemma cursor_Back:
  assumes "stream_inv st" and "\<not> has_parser_error st" and "0 < pos st" and "cursor_in_buffer st"
  shows "cursor_in_buffer (stream_Back st)"
proof (cases "buffer_cursor st > 0")
  case True
  with assms(4) show ?thesis by (auto simp: stream_Back_def cursor_in_buffer_def text_of_def)
next
  case False
  obtain ok st' where r: "ReadBlockChecked st (size_pred (pos st)) = (ok, st')" by fastforce
  from ReadBlock_abs [OF assms(1,2) r] False show ?thesis
    by (simp add: stream_Back_def cursor_in_buffer_def r)
qed

lemma reads_on_PushBack:
  assumes "Peek (Advance s) = (c, s1)" and "c0 s = ch"
  shows "reads_on s (PushBack ch s1)"
  unfolding reads_on_def
proof (intro impI; elim conjE)
  assume i: "stream_inv (source_stream s)" "\<not> scanner_has_parser_error s" "cursor_inv s"
  have l: "lex_step s s1" by (rule lex_step_trans [OF lex_step_Advance lex_step_Peek [OF assms(1)]])
  then have s1: "stream_inv (source_stream s1)" "text_of (source_stream s1) = text_of (source_stream s)"
      "\<not> has_parser_error (source_stream s1)" "cursor_inv s1"
    using i by (auto simp: lex_step_def same_text_def reads_on_def scanner_has_parser_error_def)
  have "pos (source_stream s1) = Suc (pos (source_stream s))"
    using assms(1) pos_Peek pos_Advance by (auto simp: Peek_def Advance_def split: prod.splits)
  with stream_Back_abs [OF s1(1,3)] cursor_Back [OF s1(1,3)] s1 i(3) assms(2)
  show "cursor_inv (PushBack ch s1) \<and> front (source_stream s) \<le> front (source_stream (PushBack ch s1))"
    by (auto simp: PushBack_def cursor_inv_def looks_at_def front_def)
qed

lemma lex_PushBack:
  assumes "Peek (Advance s) = (c, s1)" and "c0 s = ch" and "ch \<noteq> kEndOfInput"
    and "c0 s1 \<noteq> kEndOfInput"
  shows "lex_step s (PushBack ch s1)"
proof -
  have l: "lex_step s s1" by (rule lex_step_trans [OF lex_step_Advance lex_step_Peek [OF assms(1)]])
  have "pos (source_stream s1) = Suc (pos (source_stream s))"
    using assms(1) pos_Peek pos_Advance by (auto simp: Peek_def Advance_def split: prod.splits)
  then have p: "0 < pos (source_stream s1)" by simp
  have "input_left s1 \<le> unread (source_stream s)"
    using lex_step_left [OF lex_step_Peek [OF assms(1)]] Advance_left [of s] by simp
  with assms stream_Back_unread [OF p]
  have "unread (stream_Back (source_stream s1)) + 1 \<le> input_left s" by (simp add: input_left_def)
  moreover have "same_text (source_stream s) (stream_Back (source_stream s1))"
    using l same_text_Back [OF p] by (auto simp: lex_step_def intro: same_text_trans)
  moreover have "\<not> error_stuck s" using assms(2,3) by (simp add: error_stuck_def)
  ultimately show ?thesis
    using l assms(2,3) reads_on_PushBack [OF assms(1,2)]
    by (auto simp: PushBack_def lex_step_def same_config_def input_left_def next_desc_def)
qed

lemma lex_ScanHtmlComment:
  assumes "ScanHtmlComment s = (r, s')" and "c0 s = 0x21" and "lex_step s0 s"
  shows "lex_step s0 s'"
proof (cases "c0 (Advance s) = 0x2D")
  case False
  with assms PushBack_Advance [of s] show ?thesis by (simp add: ScanHtmlComment_def Let_def lex_ops)
next
  case True
  obtain c s1 where c: "Peek (Advance s) = (c, s1)" by fastforce
  have "lex_step s (PushBack 0x21 s1)"
    using lex_PushBack [OF c assms(2)] Peek_c0 [OF c] True by simp
  with assms(3) have pb: "lex_step s0 (PushBack 0x21 s1)" by (rule lex_step_trans)
  have "lex_step (Advance s) s1" by (rule lex_step_Peek [OF c])
  with lex_step_trans [OF assms(3) lex_step_Advance] have "lex_step s0 s1" by (rule lex_step_trans)
  then have "lex_step s0 ((Advance s1) \<lparr> found_html_comment := True \<rparr>)" by (intro lex_ops)
  with pb show ?thesis
    using True c assms(1) lex_SkipSingleHTMLComment
    by (cases "c = 0x2D") (fastforce simp: ScanHtmlComment_def)+
qed

section \<open>What a scan keeps\<close>

text \<open>
  The dialect in force is the one of the compile flags until a comment sets it, and
  \<^verbatim>\<open>source_dialect_name_\<close> is then its name.
\<close>

definition dialect_inv :: "Scanner \<Rightarrow> bool" where
  "dialect_inv s \<longleftrightarrow> literal_units (source_dialect_name s) =
       (if found_source_dialect_comment s then map ucast (SourceDialectName (source_dialect s)) else []) \<and>
     (\<not> found_source_dialect_comment s \<longrightarrow> source_dialect s = flag_source_dialect (flags s))"

definition scanner_inv :: "Scanner \<Rightarrow> bool" where
  "scanner_inv s \<longleftrightarrow> (\<forall>k. desc_inv (token_storage s k)) \<and> literal_inv (source_url s) \<and>
     literal_inv (source_mapping_url s) \<and> literal_inv (source_dialect_name s) \<and>
     stream_inv (source_stream s) \<and> (scanner_has_parser_error s \<longrightarrow> error_stuck s) \<and>
     (\<not> scanner_has_parser_error s \<longrightarrow> cursor_inv s) \<and> dialect_inv s"

text \<open>
  \<open>scan_step s s'\<close>: going from \<open>s\<close> to \<open>s'\<close> reads on in the same text and keeps the
  invariant; it sets the dialect at most once and not after a token; it touches
  tokens other than the next one only to raise the parser error.
\<close>

definition same_dialect :: "Scanner \<Rightarrow> Scanner \<Rightarrow> bool" where
  "same_dialect s s' \<longleftrightarrow> source_dialect s' = source_dialect s \<and>
     found_source_dialect_comment s' = found_source_dialect_comment s"

definition others_illegal :: "Scanner \<Rightarrow> bool" where
  "others_illegal s \<longleftrightarrow> (\<forall>k. k \<noteq> next_slot s \<longrightarrow>
     desc_token (token_storage s k) \<in> {Token_ILLEGAL, Token_UNINITIALIZED})"

definition scan_step :: "Scanner \<Rightarrow> Scanner \<Rightarrow> bool" where
  "scan_step s s' \<longleftrightarrow> input_left s' \<le> input_left s \<and> flags s' = flags s \<and>
     current_slot s' = current_slot s \<and> next_slot s' = next_slot s \<and>
     next_next_slot s' = next_next_slot s \<and> saw_non_comment_token s' = saw_non_comment_token s \<and>
     (scanner_inv s \<longrightarrow> scanner_inv s' \<and> text_of (source_stream s') = text_of (source_stream s)) \<and>
     (scanner_inv s \<and> \<not> scanner_has_parser_error s' \<longrightarrow> front (source_stream s) \<le> front (source_stream s')) \<and>
     (found_source_dialect_comment s \<or> saw_non_comment_token s \<longrightarrow> same_dialect s s') \<and>
     (scanner_has_parser_error s \<longrightarrow> scanner_has_parser_error s') \<and>
     (\<not> scanner_has_parser_error s' \<longrightarrow>
        (\<forall>k. k \<noteq> next_slot s \<longrightarrow> token_storage s' k = token_storage s k)) \<and>
     (\<forall>k. k \<noteq> next_slot s \<longrightarrow> (desc_token (token_storage s' k) = Token_UNINITIALIZED \<longleftrightarrow>
        desc_token (token_storage s k) = Token_UNINITIALIZED)) \<and>
     (scanner_has_parser_error s' \<and> (scanner_has_parser_error s \<longrightarrow> others_illegal s) \<longrightarrow> others_illegal s')"

lemma scan_step_refl [simp]: "scan_step s s"
  by (simp add: scan_step_def same_dialect_def)

lemma scan_step_trans: "scan_step s t \<Longrightarrow> scan_step t u \<Longrightarrow> scan_step s u"
  by (simp add: scan_step_def same_dialect_def) (blast intro: le_trans)

lemma lex_step_error: "lex_step s s' \<Longrightarrow> scanner_has_parser_error s' = scanner_has_parser_error s"
  by (simp add: lex_step_def same_text_def scanner_has_parser_error_def)

lemma lex_scan_step:
  assumes "lex_step s s'"
  shows "scan_step s s'"
proof -
  have d: "desc_inv (token_storage s' k)" if "\<forall>k. desc_inv (token_storage s k)" for k
    using assms that
    by (cases "k = next_slot s") (auto simp: lex_step_def same_config_def next_desc_def)
  have "scanner_inv s'" "text_of (source_stream s') = text_of (source_stream s)"
    "\<not> scanner_has_parser_error s' \<Longrightarrow> front (source_stream s) \<le> front (source_stream s')" if "scanner_inv s"
    using assms that d lex_step_error [OF assms]
    by (auto simp: scanner_inv_def lex_step_def same_config_def same_text_def dialect_inv_def reads_on_def)
  with assms lex_step_error [OF assms] show ?thesis
    by (auto simp: scan_step_def lex_step_def same_config_def same_dialect_def others_illegal_def)
qed


lemma scan_lex: "scan_step s0 s \<Longrightarrow> lex_step s s' \<Longrightarrow> scan_step s0 s'"
  using lex_scan_step scan_step_trans by blast

section \<open>Magic comments are scan steps\<close>

lemma scan_update_value:
  assumes "\<And>b. literal_inv b \<Longrightarrow> literal_inv (f b)"
  shows "scan_step s (update_value v f s)"
  using assms
  by (cases v) (auto simp: scan_step_def same_dialect_def scanner_inv_def dialect_inv_def input_left_def
      scanner_has_parser_error_def error_stuck_def cursor_inv_def others_illegal_def)

lemma set_parser_error_left: "input_left (set_parser_error s) \<le> input_left s"
  by (auto simp: set_parser_error_def input_left_def unread_def stream_set_parser_error_def)

lemma scan_set_parser_error: "scan_step s (set_parser_error s)"
proof (cases "scanner_has_parser_error s")
  case False
  then have "scanner_inv s \<Longrightarrow> scanner_inv (set_parser_error s)"
    by (auto simp: scanner_inv_def set_parser_error_def dialect_inv_def error_stuck_def desc_inv_def
        scanner_has_parser_error_def stream_set_parser_error_def stream_inv_def Let_def)
  with False set_parser_error_left [of s] show ?thesis
    by (auto simp: scan_step_def same_dialect_def set_parser_error_def scanner_has_parser_error_def
        stream_set_parser_error_def text_of_def others_illegal_def Let_def)
qed (simp add: set_parser_error_def)

lemma magic_name_keeps:
  "magic_name U b s = (b', s') \<Longrightarrow> lex_step s0 s \<Longrightarrow> lex_step s0 s'"
proof (induction U b s rule: magic_name.induct)
  case (1 U b s)
  then show ?case by (auto simp: magic_name.simps [of U b s] lex_ops split: if_splits)
qed

lemma lex_skip_white [lex_ops]: "lex_step s0 s \<Longrightarrow> lex_step s0 (skip_white U s)"
proof (induction U s rule: skip_white.induct)
  case (1 U s)
  then show ?case by (simp add: skip_white.simps [of U s] lex_ops)
qed

lemma scan_magic_value_chars:
  "magic_value_chars U v b s = (b', s') \<Longrightarrow> scan_step s0 s \<Longrightarrow>
   scan_step s0 s' \<and> (literal_inv b \<longrightarrow> literal_inv b')"
proof (induction U v b s rule: magic_value_chars.induct)
  case (1 U v b s)
  let ?s = "Advance (update_value v (\<lambda>b. AddChar b (c0 s)) s)"
  have "scan_step s0 (update_value v (\<lambda>b. AddChar b (c0 s)) s)"
    using 1(3) by (rule scan_step_trans) (rule scan_update_value, simp add: AddChar_spec)
  then have "scan_step s0 ?s" using lex_step_Advance by (rule scan_lex)
  moreover have "literal_inv b \<Longrightarrow> literal_inv (AddChar b (c0 s))" by (simp add: AddChar_spec)
  ultimately show ?case
    using 1 by (auto simp: magic_value_chars.simps [of U v b s] split: if_splits)
qed

lemma scan_magic_value_end:
  "magic_value_end U v b s = (b', s') \<Longrightarrow> scan_step s0 s \<Longrightarrow>
   scan_step s0 s' \<and> (literal_inv b \<longrightarrow> literal_inv b')"
proof (induction U v b s rule: magic_value_end.induct)
  case (1 U v b s)
  have "scan_step s0 (update_value v LiteralBuffer_Start s)"
    using 1(3) by (rule scan_step_trans) (rule scan_update_value, simp add: Start_spec)
  moreover have "scan_step s0 (Advance s)" using 1(3) lex_step_Advance by (rule scan_lex)
  ultimately show ?case
    using 1 by (auto simp: magic_value_end.simps [of U v b s] Start_spec split: if_splits)
qed

text \<open>Adding the bytes of a one-byte vector.\<close>

lemma foldl_AddChar_char:
  "literal_inv b \<Longrightarrow> is_one_byte b \<Longrightarrow>
   literal_inv (foldl AddChar_char b bs) \<and> literal_units (foldl AddChar_char b bs) = literal_units b @ map ucast bs"
proof (induction bs arbitrary: b)
  case (Cons x bs)
  have "literal_inv (AddChar_char b x)" "is_one_byte (AddChar_char b x)"
    "literal_units (AddChar_char b x) = literal_units b @ [ucast x]"
    using AddOneByteChar_spec [OF Cons.prems] by (simp_all add: AddChar_char_def)
  with Cons.IH [of "AddChar_char b x"] show ?case by simp
qed simp

lemma dialect_failure: "scan_step s (set_parser_error (ReportScannerError_pos p m s))"
  by (rule scan_step_trans [OF lex_scan_step [OF lex_step_Report(2)] scan_set_parser_error])

lemma scan_TrySetSourceDialect:
  assumes "TrySetSourceDialect v s = (ok, s')"
  shows "scan_step s s'"
proof (cases "ok")
  case False
  then show ?thesis
    using assms dialect_failure [of s "source_pos s" kInvalidOrUnexpectedToken]
    by (auto simp: TrySetSourceDialect_def Let_def split: if_splits option.splits)
next
  case True
  then obtain d where d: "\<not> saw_non_comment_token s" "\<not> found_source_dialect_comment s"
    "TryParseSourceDialect v = Some d" "s' = s \<lparr> source_dialect := d,
       source_dialect_name := foldl AddChar_char (LiteralBuffer_Start (source_dialect_name s)) v,
       found_source_dialect_comment := True \<rparr>"
    using assms by (auto simp: TrySetSourceDialect_def Let_def split: if_splits option.splits)
  have "v = SourceDialectName d" using d(3) TryParseSourceDialect_iff by blast
  then have "scanner_inv s \<Longrightarrow> scanner_inv s'"
    using d(4) foldl_AddChar_char [of "LiteralBuffer_Start (source_dialect_name s)" v]
      Start_spec [of "source_dialect_name s"]
    by (simp add: scanner_inv_def dialect_inv_def error_stuck_def scanner_has_parser_error_def cursor_inv_def)
  with d show ?thesis
    by (simp add: scan_step_def same_dialect_def input_left_def scanner_has_parser_error_def others_illegal_def)
qed


lemma scan_TryToParseSourceURLComment: "scan_step s (TryToParseSourceURLComment U s)"
proof -
  obtain name s1 where n: "magic_name U (LiteralBuffer_Start LiteralBuffer_init) (Advance s) = (name, s1)"
    by fastforce
  have s1: "scan_step s s1"
    by (rule lex_scan_step [OF magic_name_keeps [OF n lex_step_Advance]])
  have s2: "scan_step s (skip_white U s1)"
    by (rule scan_lex [OF s1 lex_skip_white [OF lex_step_refl]])
  show ?thesis
  proof (cases "magic_comment_value (one_byte_literal name)")
    case (Some v)
    define s3 where "s3 = skip_white U (Advance (update_value v LiteralBuffer_Start (skip_white U s1)))"
    have "scan_step s (update_value v LiteralBuffer_Start (skip_white U s1))"
      using s2 by (rule scan_step_trans) (rule scan_update_value, simp add: Start_spec)
    then have s3: "scan_step s s3"
      unfolding s3_def by (rule scan_lex) (rule lex_ops lex_step_refl)+
    obtain l s4 where l: "magic_value_chars U v (LiteralBuffer_Start LiteralBuffer_init) s3 = (l, s4)"
      by fastforce
    obtain l' s5 where l': "magic_value_end U v l s4 = (l', s5)" by fastforce
    have s5: "scan_step s s5"
      using scan_magic_value_chars [OF l s3] scan_magic_value_end [OF l'] by blast
    then have "scan_step s (snd (TrySetSourceDialect x s5))" for x
      by (rule scan_step_trans) (rule scan_TrySetSourceDialect, rule prod.collapse [symmetric])
    with s5 s2 s1 n Some l l' show ?thesis
      by (auto simp: TryToParseSourceURLComment_def s3_def Let_def)
  qed (use n s1 in \<open>auto simp: TryToParseSourceURLComment_def\<close>)
qed

lemma scan_SkipSourceURLComment:
  "SkipSourceURLComment U s = (r, s') \<Longrightarrow> scan_step s s'"
  using scan_TryToParseSourceURLComment [of s U]
    scan_lex [OF _ lex_SkipSingleLineComment [OF _ lex_step_refl], of s "TryToParseSourceURLComment U s"]
  by (auto simp: SkipSourceURLComment_def Let_def split: if_splits)

section \<open>The initial state\<close>

text \<open>
  The constructor. It leaves the character \<^verbatim>\<open>c0_\<close>, the three token pointers and
  \<^verbatim>\<open>scanner_error_\<close> unset; \<^verbatim>\<open>Init\<close> sets them before they are read, so the values here
  do not matter.
\<close>

definition new_Scanner :: "Utf16CharacterStream \<Rightarrow> UnoptimizedCompileFlags \<Rightarrow> Scanner" where
  "new_Scanner st fl =
     \<lparr> flags = fl, current_slot = Slot0, next_slot = Slot1, next_next_slot = Slot2,
       source_stream = st, c0 = 0, token_storage = (\<lambda>_. TokenDesc_init),
       found_html_comment = False, source_url = LiteralBuffer_init,
       source_mapping_url = LiteralBuffer_init, source_dialect_name = LiteralBuffer_init,
       source_dialect = flag_source_dialect fl, saw_non_comment_token = False,
       found_source_dialect_comment = False, octal_pos = Location_invalid, octal_message = kNone,
       scanner_error = kNone, scanner_error_location = mk_Location 0 0 \<rparr>"

definition Init :: "Scanner \<Rightarrow> Scanner" where
  "Init s =
     (let s = Advance s
      in s \<lparr> current_slot := Slot0, next_slot := Slot1, next_next_slot := Slot2,
             found_html_comment := False, scanner_error := kNone,
             source_dialect := flag_source_dialect (flags s),
             source_dialect_name := LiteralBuffer_Start (source_dialect_name s),
             saw_non_comment_token := False, found_source_dialect_comment := False \<rparr>)"

text \<open>Every stream starts with an empty buffer.\<close>

lemma new_stream_cursor [simp]: "cursor_in_buffer (new_stream k p)"
  by (simp add: new_stream_def cursor_in_buffer_def)

lemma source_streams_cursor [simp]:
  "cursor_in_buffer (ScannerStream_For data a b)" "cursor_in_buffer (ScannerStream_ForTesting bs)"
  "cursor_in_buffer (ScannerStream_ForTesting_uc16 us)" "cursor_in_buffer (ScannerStream_ForUnits src)"
  by (simp_all add: ScannerStream_For_def ScannerStream_ForTesting_def ScannerStream_ForTesting_uc16_def Let_def
      split: js_string.splits flat_string.splits) (cases src; simp)

lemma Init_new_Scanner:
  assumes "stream_inv st" and "\<not> has_parser_error st" and "cursor_in_buffer st"
  shows "scanner_inv (Init (new_Scanner st fl)) \<and> \<not> scanner_has_parser_error (Init (new_Scanner st fl)) \<and>
    text_of (source_stream (Init (new_Scanner st fl))) = text_of st \<and>
    pos (source_stream (Init (new_Scanner st fl))) = Suc (pos st) \<and>
    c0 (Init (new_Scanner st fl)) = char_at (text_of st) (pos st) \<and>
    \<not> saw_non_comment_token (Init (new_Scanner st fl)) \<and>
    \<not> found_source_dialect_comment (Init (new_Scanner st fl))"
proof -
  obtain c st1 where a: "stream_Advance st = (c, st1)" by fastforce
  with stream_Advance_abs [OF assms(1,2) a] cursor_Advance [OF assms a] show ?thesis
    using Start_spec [OF init_spec]
    by (simp add: cursor_inv_def Init_def new_Scanner_def Advance_def Let_def scanner_inv_def dialect_inv_def desc_inv_def
        scanner_has_parser_error_def TokenDesc_init_def init_spec)
qed

lemma testing_stream:
  "stream_inv (ScannerStream_ForTesting bs)" "\<not> has_parser_error (ScannerStream_ForTesting bs)"
  "text_of (ScannerStream_ForTesting bs) = map ucast bs" "pos (ScannerStream_ForTesting bs) = 0"
  by (simp_all add: ScannerStream_ForTesting_def testing_stream_content_def)

section \<open>Properties of the dialect comment\<close>

text \<open>The parser error turns every token that has been scanned into \<^verbatim>\<open>ILLEGAL\<close>.\<close>

lemma set_parser_error_tokens:
  "\<not> scanner_has_parser_error s \<Longrightarrow>
   scanner_has_parser_error (set_parser_error s) \<and>
   desc_token (token_storage (set_parser_error s) k) \<in> {Token_ILLEGAL, Token_UNINITIALIZED}"
  by (simp add: set_parser_error_def scanner_has_parser_error_def stream_set_parser_error_def Let_def)

text \<open>\<^verbatim>\<open>TrySetSourceDialect\<close> on every branch: it succeeds exactly for the name of a
  dialect in the first dialect comment before any token, and then installs that
  dialect and its name; otherwise it reports an error, makes every scanned token
  illegal and leaves the dialect alone.\<close>

lemma TrySetSourceDialect_spec:
  assumes "scanner_inv s" and "\<not> scanner_has_parser_error s"
    and "TrySetSourceDialect v s = (ok, s')"
  shows "(ok \<longleftrightarrow> \<not> saw_non_comment_token s \<and> \<not> found_source_dialect_comment s \<and>
        (\<exists>d. v = SourceDialectName d)) \<and>
    (ok \<longrightarrow> v = SourceDialectName (source_dialect s') \<and> found_source_dialect_comment s' \<and>
        literal_units (source_dialect_name s') = map ucast v \<and> \<not> scanner_has_parser_error s') \<and>
    (\<not> ok \<longrightarrow> same_dialect s s' \<and> scanner_has_parser_error s' \<and> has_error s' \<and>
        (\<forall>k. desc_token (token_storage s' k) \<in> {Token_ILLEGAL, Token_UNINITIALIZED}))"
proof -
  let ?f = "set_parser_error (ReportScannerError_pos (source_pos s) kInvalidOrUnexpectedToken s)"
  have f: "same_dialect s ?f" "has_error ?f"
    by (simp_all add: same_dialect_def set_parser_error_def ReportScannerError_pos_def has_error_def)
  have "\<not> scanner_has_parser_error (ReportScannerError_pos (source_pos s) kInvalidOrUnexpectedToken s)"
    using assms(2) by (simp add: ReportScannerError_pos_def scanner_has_parser_error_def)
  note e = set_parser_error_tokens [OF this]
  have units: "literal_units (foldl AddChar_char (LiteralBuffer_Start (source_dialect_name s)) v) = map ucast v"
    using assms(1) Start_spec [of "source_dialect_name s"]
      foldl_AddChar_char [of "LiteralBuffer_Start (source_dialect_name s)" v]
    by (simp add: scanner_inv_def)
  show ?thesis
  proof (cases ok)
    case True
    with assms(2,3) units show ?thesis
      by (auto simp: TrySetSourceDialect_def Let_def TryParseSourceDialect_iff scanner_has_parser_error_def
          split: if_splits option.splits)
  next
    case False
    with assms(3) have "s' = ?f"
      by (auto simp: TrySetSourceDialect_def Let_def split: if_splits option.splits)
    moreover have "saw_non_comment_token s \<or> found_source_dialect_comment s" if "v = SourceDialectName d" for d
      using False assms(3) that TryParseSourceDialect_iff [of v d]
      by (auto simp: TrySetSourceDialect_def Let_def split: if_splits)
    ultimately show ?thesis using False f e by blast
  qed
qed

end
