(* ===== verification/Scanner_Tokens.thy ===== *)
theory Scanner_Tokens
  imports Scanner_Comments
begin

text \<open>
  The token loop \<^verbatim>\<open>ScanSingleToken\<close> and \<^verbatim>\<open>Scan\<close> (\<^verbatim>\<open>src/parsing/scanner-inl.h\<close>), the
  three-token window (\<^verbatim>\<open>Next\<close>, \<^verbatim>\<open>PeekAhead\<close>), seeking and bookmarks, and the accessors
  the parser uses (\<^verbatim>\<open>src/parsing/scanner.cc\<close>, \<^verbatim>\<open>scanner.h\<close>). The theorems: scanning
  always terminates, keeps the invariant and makes progress; the window delivers the
  tokens in order; after a parser error every token is illegal; the dialect is fixed
  by the first token.
\<close>

section \<open>ScanSingleToken\<close>

text \<open>
  One round of the loop. A round ends with \<^verbatim>\<open>return token\<close> (\<open>returned\<close>) or by reaching
  the loop condition with a new value of \<^verbatim>\<open>token\<close> (\<open>continued\<close>).
\<close>

definition returned :: "token \<times> Scanner \<Rightarrow> token \<times> bool \<times> Scanner" where
  "returned r = (fst r, True, snd r)"

definition continued :: "token \<times> Scanner \<Rightarrow> token \<times> bool \<times> Scanner" where
  "continued r = (fst r, False, snd r)"

definition scan_conditional :: "Scanner \<Rightarrow> token \<times> bool \<times> Scanner" where
  "scan_conditional s =
     (let s = Advance s
      in if c0 s = 0x2E
         then let s = Advance s
              in if \<not> IsDecimalDigit (c0 s) then returned (Token_QUESTION_PERIOD, s)
                 else returned (Token_CONDITIONAL, PushBack 0x2E s)
         else if c0 s = 0x3F then returned (Select_next 0x3D Token_ASSIGN_NULLISH Token_NULLISH s)
         else returned (Token_CONDITIONAL, s))"

definition scan_lt :: "Scanner \<Rightarrow> token \<times> bool \<times> Scanner" where
  "scan_lt s =
     (let s = Advance s
      in if c0 s = 0x3D then returned (Select Token_LTE s)
         else if c0 s = 0x3C then returned (Select_next 0x3D Token_ASSIGN_SHL Token_SHL s)
         else if c0 s = 0x21 then continued (ScanHtmlComment s)
         else returned (Token_LT, s))"

definition scan_gt :: "Scanner \<Rightarrow> token \<times> bool \<times> Scanner" where
  "scan_gt s =
     (let s = Advance s
      in if c0 s = 0x3D then returned (Select Token_GTE s)
         else if c0 s = 0x3E
         then let s = Advance s
              in if c0 s = 0x3D then returned (Select Token_ASSIGN_SAR s)
                 else if c0 s = 0x3E then returned (Select_next 0x3D Token_ASSIGN_SHR Token_SHR s)
                 else returned (Token_SAR, s)
         else returned (Token_GT, s))"

definition scan_assign :: "Scanner \<Rightarrow> token \<times> bool \<times> Scanner" where
  "scan_assign s =
     (let s = Advance s
      in if c0 s = 0x3D then returned (Select_next 0x3D Token_EQ_STRICT Token_EQ s)
         else if c0 s = 0x3E then returned (Select Token_ARROW s)
         else returned (Token_ASSIGN, s))"

definition scan_not :: "Scanner \<Rightarrow> token \<times> bool \<times> Scanner" where
  "scan_not s =
     (let s = Advance s
      in if c0 s = 0x3D then returned (Select_next 0x3D Token_NE_STRICT Token_NE s)
         else returned (Token_NOT, s))"

definition scan_add :: "Scanner \<Rightarrow> token \<times> bool \<times> Scanner" where
  "scan_add s =
     (let s = Advance s
      in if c0 s = 0x2B then returned (Select Token_INC s)
         else if c0 s = 0x3D then returned (Select Token_ASSIGN_ADD s)
         else returned (Token_ADD, s))"

definition scan_sub :: "Scanner \<Rightarrow> token \<times> bool \<times> Scanner" where
  "scan_sub s =
     (let s = Advance s
      in if c0 s = 0x2D
         then let s = Advance s
              in if c0 s = 0x3E \<and> after_line_terminator (next_desc s)
                 then continued (SkipSingleHTMLComment s)
                 else returned (Token_DEC, s)
         else if c0 s = 0x3D then returned (Select Token_ASSIGN_SUB s)
         else returned (Token_SUB, s))"

definition scan_mul :: "Scanner \<Rightarrow> token \<times> bool \<times> Scanner" where
  "scan_mul s =
     (let s = Advance s
      in if c0 s = 0x2A then returned (Select_next 0x3D Token_ASSIGN_EXP Token_EXP s)
         else if c0 s = 0x3D then returned (Select Token_ASSIGN_MUL s)
         else returned (Token_MUL, s))"

definition scan_div :: "icu \<Rightarrow> Scanner \<Rightarrow> token \<times> bool \<times> Scanner" where
  "scan_div U s =
     (let s = Advance s
      in if c0 s = 0x2F
         then (case Peek s of (c, s) \<Rightarrow>
                 if c = 0x23 \<or> c = 0x40 then continued (SkipSourceURLComment U (Advance (Advance s)))
                 else continued (SkipSingleLineComment s))
         else if c0 s = 0x2A then continued (SkipMultiLineComment s)
         else if c0 s = 0x3D then returned (Select Token_ASSIGN_DIV s)
         else returned (Token_DIV, s))"

definition scan_bit_and :: "Scanner \<Rightarrow> token \<times> bool \<times> Scanner" where
  "scan_bit_and s =
     (let s = Advance s
      in if c0 s = 0x26 then returned (Select_next 0x3D Token_ASSIGN_AND Token_AND s)
         else if c0 s = 0x3D then returned (Select Token_ASSIGN_BIT_AND s)
         else returned (Token_BIT_AND, s))"

definition scan_bit_or :: "Scanner \<Rightarrow> token \<times> bool \<times> Scanner" where
  "scan_bit_or s =
     (let s = Advance s
      in if c0 s = 0x7C then returned (Select_next 0x3D Token_ASSIGN_OR Token_OR s)
         else if c0 s = 0x3D then returned (Select Token_ASSIGN_BIT_OR s)
         else returned (Token_BIT_OR, s))"

definition scan_period :: "icu \<Rightarrow> Scanner \<Rightarrow> token \<times> bool \<times> Scanner" where
  "scan_period U s =
     (let s = Advance s
      in if IsDecimalDigit (c0 s) then returned (ScanNumber U True s)
         else if c0 s = 0x2E
         then (case Peek s of (c, s) \<Rightarrow>
                 if c = 0x2E then returned (Token_ELLIPSIS, Advance (Advance s))
                 else returned (Token_PERIOD, s))
         else returned (Token_PERIOD, s))"

definition scan_hash :: "icu \<Rightarrow> Scanner \<Rightarrow> token \<times> bool \<times> Scanner" where
  "scan_hash U s =
     (case (if source_pos s = 0 then (case Peek s of (c, s) \<Rightarrow> (c = 0x21, s)) else (False, s)) of
        (hashbang, s) \<Rightarrow>
          if hashbang then continued (SkipSingleLineComment s) else returned (ScanPrivateName U s))"

text \<open>The \<^verbatim>\<open>switch\<close> on the token of an ASCII character. Its cases are the values of
  \<^verbatim>\<open>one_char_tokens\<close>; the last branch is \<^verbatim>\<open>IDENTIFIER\<close>.\<close>

definition scan_ascii :: "icu \<Rightarrow> Scanner \<Rightarrow> token \<times> bool \<times> Scanner" where
  "scan_ascii U s =
     (let tok = GetOneCharToken (c0 s)
      in if tok \<in> {Token_LPAREN, Token_RPAREN, Token_LBRACE, Token_RBRACE, Token_LBRACK, Token_RBRACK,
                    Token_COLON, Token_SEMICOLON, Token_COMMA, Token_BIT_NOT, Token_ILLEGAL}
         then returned (Select tok s)
         else if tok = Token_CONDITIONAL then scan_conditional s
         else if tok = Token_STRING then returned (ScanString s)
         else if tok = Token_LT then scan_lt s
         else if tok = Token_GT then scan_gt s
         else if tok = Token_ASSIGN then scan_assign s
         else if tok = Token_NOT then scan_not s
         else if tok = Token_ADD then scan_add s
         else if tok = Token_SUB then scan_sub s
         else if tok = Token_MUL then scan_mul s
         else if tok = Token_MOD then returned (Select_next 0x3D Token_ASSIGN_MOD Token_MOD s)
         else if tok = Token_DIV then scan_div U s
         else if tok = Token_BIT_AND then scan_bit_and s
         else if tok = Token_BIT_OR then scan_bit_or s
         else if tok = Token_BIT_XOR then returned (Select_next 0x3D Token_ASSIGN_BIT_XOR Token_BIT_XOR s)
         else if tok = Token_PERIOD then scan_period U s
         else if tok = Token_TEMPLATE_SPAN then returned (ScanTemplateSpan (Advance s))
         else if tok = Token_PRIVATE_NAME then scan_hash U s
         else if tok = Token_WHITESPACE then continued (SkipWhiteSpace U s)
         else if tok = Token_NUMBER then returned (ScanNumber U False s)
         else returned (ScanIdentifierOrKeyword U s))"

definition set_beg_pos :: "Scanner \<Rightarrow> Scanner" where
  "set_beg_pos s =
     update_next (\<lambda>d. d \<lparr> location := (location d) \<lparr> beg_pos := source_pos s \<rparr> \<rparr>) s"

definition scan_round :: "icu \<Rightarrow> Scanner \<Rightarrow> token \<times> bool \<times> Scanner" where
  "scan_round U s =
     (let s = set_beg_pos s
      in if c0 s \<le> kMaxAscii then scan_ascii U s
         else case char_or_pair (IsIdentifierStart U) s of (start, s) \<Rightarrow>
           if start then returned (ScanIdentifierOrKeyword U s)
           else if c0 s = kEndOfInput
           then returned (if has_parser_error (source_stream s) then Token_ILLEGAL else Token_EOS, s)
           else continued (SkipWhiteSpace U s))"


section \<open>A round of the loop\<close>

lemma returned_iff [simp]: "returned p = (t, r, s) \<longleftrightarrow> p = (t, s) \<and> r"
  by (cases p) (auto simp: returned_def)

lemma continued_iff [simp]: "continued p = (t, r, s) \<longleftrightarrow> p = (t, s) \<and> \<not> r"
  by (cases p) (auto simp: continued_def)

lemma lex_Select [lex_results]:
  "Select t s = (r, s') \<Longrightarrow> lex_step s0 s \<Longrightarrow> lex_step s0 s'"
  "Select_next c t t' s = (r, s') \<Longrightarrow> lex_step s0 s \<Longrightarrow> lex_step s0 s'"
  by (auto simp: Select_def Select_next_def Let_def lex_ops split: if_splits)

lemmas operator_defs =
  scan_gt_def scan_assign_def scan_not_def scan_add_def scan_mul_def scan_bit_and_def scan_bit_or_def

lemma lex_operators:
  "scan_gt s = (t, r, s') \<Longrightarrow> lex_step (Advance s) s'"
  "scan_assign s = (t, r, s') \<Longrightarrow> lex_step (Advance s) s'"
  "scan_not s = (t, r, s') \<Longrightarrow> lex_step (Advance s) s'"
  "scan_add s = (t, r, s') \<Longrightarrow> lex_step (Advance s) s'"
  "scan_mul s = (t, r, s') \<Longrightarrow> lex_step (Advance s) s'"
  "scan_bit_and s = (t, r, s') \<Longrightarrow> lex_step (Advance s) s'"
  "scan_bit_or s = (t, r, s') \<Longrightarrow> lex_step (Advance s) s'"
  by (clarsimp simp: operator_defs Let_def split: if_splits;
      (erule lex_results | rule lex_ops lex_step_refl)+)+

lemma lex_PushBack_Advance: "c0 s = ch \<Longrightarrow> lex_step s (PushBack ch (Advance s))"
  using PushBack_Advance [of s] lex_snd_Peek [OF lex_step_refl, of s] by simp

lemma lex_scan_conditional: "scan_conditional s = (t, r, s') \<Longrightarrow> lex_step (Advance s) s'"
  by (auto simp: scan_conditional_def Let_def split: if_splits
      intro: lex_Select lex_PushBack_Advance lex_step_Advance)

lemma lex_scan_lt: "scan_lt s = (t, r, s') \<Longrightarrow> lex_step (Advance s) s'"
  by (auto simp: scan_lt_def Let_def split: if_splits
      intro: lex_Select lex_ScanHtmlComment [OF _ _ lex_step_refl])

lemma lex_scan_sub: "scan_sub s = (t, r, s') \<Longrightarrow> lex_step (Advance s) s'"
  by (auto simp: scan_sub_def Let_def split: if_splits intro: lex_Select lex_SkipSingleHTMLComment lex_ops)

lemma lex_scan_period: "scan_period U s = (t, r, s') \<Longrightarrow> lex_step (Advance s) s'"
  by (clarsimp simp: scan_period_def Let_def split: if_splits prod.splits;
      (erule lex_results | rule lex_ops lex_step_refl)+)

text \<open>\<open>consumes\<close>: a scan step that reads at least one character.\<close>

definition consumes :: "Scanner \<Rightarrow> Scanner \<Rightarrow> bool" where
  "consumes s s' \<longleftrightarrow> scan_step s s' \<and> input_left s' < input_left s"

lemma consumes_lex:
  assumes "lex_step (Advance s) s'" and "c0 s \<noteq> kEndOfInput"
  shows "consumes s s'"
  using lex_scan_step [OF lex_step_trans [OF lex_step_Advance assms(1)]] lex_step_left [OF assms(1)]
    Advance_less [OF assms(2)]
  by (simp add: consumes_def)

lemma consumes_less: "lex_step s s' \<Longrightarrow> input_left s' < input_left s \<Longrightarrow> consumes s s'"
  by (simp add: consumes_def lex_scan_step)

lemma consumes_scan_div:
  assumes "scan_div U s = (t, r, s')" and "c0 s \<noteq> kEndOfInput"
  shows "consumes s s'"
proof -
  obtain c s1 where c: "Peek (Advance s) = (c, s1)" by fastforce
  have s1: "lex_step (Advance s) s1" by (rule lex_step_Peek [OF c])
  show ?thesis
  proof (cases "c0 (Advance s) = 0x2F \<and> (c = 0x23 \<or> c = 0x40)")
    case True
    then have "SkipSourceURLComment U (Advance (Advance s1)) = (t, s')"
      using assms(1) c by (auto simp: scan_div_def Let_def)
    from scan_SkipSourceURLComment [OF this]
    have a: "scan_step (Advance (Advance s1)) s'" .
    have l: "lex_step (Advance s) (Advance (Advance s1))" using s1 by (intro lex_ops)
    then have "consumes s (Advance (Advance s1))" using assms(2) by (rule consumes_lex)
    moreover have "input_left s' \<le> input_left (Advance (Advance s1))" using a by (simp add: scan_step_def)
    ultimately show ?thesis using scan_step_trans [OF _ a] unfolding consumes_def by force
  next
    case False
    with assms(1) c s1 have "lex_step (Advance s) s'"
      by (auto simp: scan_div_def Let_def split: if_splits
          intro: lex_Select lex_SkipSingleLineComment lex_SkipMultiLineComment)
    then show ?thesis using assms(2) by (rule consumes_lex)
  qed
qed


lemma consumes_SkipWhiteSpace:
  assumes "SkipWhiteSpace U s = (Token_WHITESPACE, s')"
  shows "consumes s s'"
proof -
  define s1 where "s1 = (if \<not> after_line_terminator (next_desc s) \<and> IsLineTerminator (c0 s)
    then set_after_line_terminator True s else s)"
  have s1: "input_left s1 = input_left s" "c0 s1 = c0 s" by (simp_all add: s1_def)
  have w: "IsWhiteSpaceOrLineTerminator U (c0 s)"
    using assms by (auto simp: SkipWhiteSpace_def split: if_splits)
  obtain a h s2 where a: "AdvanceUntil (white_check U) (after_line_terminator (next_desc s1), 0x20) s1 = ((a, h), s2)"
    by (metis prod.collapse)
  have "c0 s \<noteq> kEndOfInput" using w by auto
  with AdvanceUntil_less [OF a] s1 have "input_left s2 < input_left s" by simp
  moreover have "s' = set_after_line_terminator a s2"
    using assms w a by (simp add: SkipWhiteSpace_def s1_def [symmetric])
  ultimately show ?thesis
    using lex_SkipWhiteSpace [OF assms lex_step_refl] by (auto intro: consumes_less)
qed

lemma SkipWhiteSpace_token:
  "SkipWhiteSpace U s = (t, s') \<Longrightarrow>
   t = (if IsWhiteSpaceOrLineTerminator U (c0 s) then Token_WHITESPACE else Token_ILLEGAL)"
  by (auto simp: SkipWhiteSpace_def Let_def split: if_splits prod.splits)

lemma consumes_SkipSingleLineComment:
  assumes "SkipSingleLineComment s = (t, s')" and "c0 s \<noteq> kEndOfInput"
  shows "consumes s s'"
proof (rule consumes_less)
  show "lex_step s s'" by (rule lex_SkipSingleLineComment [OF assms(1) lex_step_refl])
  show "input_left s' < input_left s"
    using assms AdvanceUntil_char_left [of IsLineTerminator s] unread_less_left [of s]
    by (auto simp: SkipSingleLineComment_def)
qed

lemma consumes_ScanString:
  assumes "ScanString s = (t, s')" and "c0 s \<noteq> kEndOfInput"
  shows "consumes s s'"
proof (rule consumes_less)
  show "lex_step s s'" by (rule lex_ScanString [OF assms(1) lex_step_refl])
  let ?s = "AdvanceUntil_literal string_check (Start_literal s)"
  obtain ok s1 where e: "ScanString_escapes ?s = (ok, s1)" by fastforce
  have "lex_step ?s s1" by (rule lex_ScanString_escapes [OF e lex_step_refl])
  then have "lex_step ?s s'"
    using assms(1) e
    by (auto simp: ScanString_def ScanString_loop.simps [of "c0 s" "Start_literal s"] Let_def lex_ops split: if_splits
        intro: lex_ScanString_loop)
  then show "input_left s' < input_left s"
    using AdvanceUntil_literal_left [of string_check "Start_literal s"] unread_less_left [OF assms(2)]
      lex_step_left [of ?s s'] by simp
qed


text \<open>A number starts with a digit, which is read.\<close>

lemma ScanDecimalAsSmi_less:
  assumes "ScanDecimalAsSmi v b s = (r, v', s')" and "IsDecimalDigit (c0 s)"
  shows "input_left s' < input_left s"
proof -
  let ?s = "AddLiteralChar (c0 s) (Advance s)"
  have "c0 s \<noteq> kEndOfInput" "c0 s \<noteq> 0x5F" using assms(2) by (auto simp: IsDecimalDigit_iff)
  then have "lex_step ?s s'"
    using assms
    by (auto simp: ScanDecimalAsSmi_def ScanDecimalAsSmiWithNumericSeparators_def
        ScanDecimalAsSmi_separators.simps [of v False s] ScanDecimalAsSmi_loop.simps [of v s]
        split: if_splits prod.splits intro: lex_ScanDecimalAsSmi_separators lex_ScanDecimalAsSmi_loop)
  with lex_step_left [OF this] Advance_less [OF \<open>c0 s \<noteq> kEndOfInput\<close>] show ?thesis by simp
qed

lemma ScanNumber_less:
  assumes "ScanNumber U False s = (t, s')" and "IsDecimalDigit (c0 s)"
  shows "input_left s' < input_left s"
proof (cases "c0 s = 0x30")
  case True
  let ?s = "AddLiteralCharAdvance (Start_literal s)"
  obtain ok k a s1 where z: "ScanNumber_zero (source_pos (Start_literal s)) (Start_literal s) = (ok, k, a, s1)"
    by (metis prod.collapse)
  have "lex_step ?s s1"
    by (insert z) (clarsimp simp: ScanNumber_zero_def ScanHexDigits_def ScanOctalDigits_def
        ScanBinaryDigits_def Let_def split: if_splits prod.splits;
        (erule lex_results | rule lex_ops lex_step_refl)+)
  moreover have "lex_step s1 s'"
    by (insert assms(1) True z) (auto simp: ScanNumber_def Let_def split: if_splits prod.splits option.splits;
        (erule lex_ScanNumber_tail | erule lex_ScanNumber_decimal | rule lex_step_refl)+)
  ultimately have "input_left s' \<le> input_left ?s" by (blast intro: lex_step_left lex_step_trans)
  then show ?thesis using AddLiteralCharAdvance_less [of "Start_literal s"] True by simp
next
  case False
  obtain r b s1 where d: "ScanNumber_decimal U DECIMAL True (source_pos (Start_literal s)) (Start_literal s) = (r, b, s1)"
    by (metis prod.collapse)
  obtain ok v s2 where n: "ScanDecimalAsSmi 0 True (Start_literal s) = (ok, v, s2)" by (metis prod.collapse)
  have "lex_step s2 s1"
    by (insert d n) (auto simp: ScanNumber_decimal_def Let_def split: if_splits prod.splits;
        (rule lex_ops lex_step_refl | erule lex_ScanNumber_fraction)+)
  moreover have "lex_step s1 s'"
    by (insert assms(1) False d) (auto simp: ScanNumber_def IsDecimalNumberKind_def Let_def split: option.splits;
        (rule lex_step_refl | erule lex_ScanNumber_tail)+)
  ultimately have "input_left s' \<le> input_left s2" by (blast intro: lex_step_left lex_step_trans)
  then show ?thesis using ScanDecimalAsSmi_less [OF n] assms(2) by simp
qed

lemma consumes_ScanNumber:
  "ScanNumber U False s = (t, s') \<Longrightarrow> IsDecimalDigit (c0 s) \<Longrightarrow> consumes s s'"
  using lex_ScanNumber [OF _ lex_step_refl] ScanNumber_less consumes_less by blast


text \<open>The classes of one-byte characters do not depend on ICU.\<close>

lemma one_byte_classes:
  assumes "c \<le> 0xFF"
  shows "IsIdentifierStart U c \<longleftrightarrow> IsOneByteIDStart c \<or> c = 0x5C"
    "IsIdentifierPart U c \<longleftrightarrow> IsOneByteIDContinue c \<or> c = 0x5C"
    "IsWhiteSpace U c \<longleftrightarrow> IsOneByteWhitespace c"
    "IsWhiteSpaceOrLineTerminator U c \<longleftrightarrow> IsOneByteWhitespace c \<or> c = 0x0D \<or> c = 0x0A"
  using one_byte_flags_byte [of "ucast c"] one_byte_cast [OF assms] assms
  by (auto simp: IsIdentifierStart_def IsIdentifierPart_def IsWhiteSpace_def
      IsWhiteSpaceOrLineTerminator_def IsInRange_iff)

text \<open>Unicode derives \<^verbatim>\<open>ID_Continue\<close> from \<^verbatim>\<open>ID_Start\<close> by adding characters.\<close>

definition icu_start_continues :: "icu \<Rightarrow> bool" where
  "icu_start_continues U \<longleftrightarrow> (\<forall>c. icu_id_start U c \<longrightarrow> icu_id_continue U c)"

lemma start_is_part:
  assumes "icu_start_continues U" and "IsIdentifierStart U c"
  shows "IsIdentifierPart U c"
proof (cases "c \<le> 0xFF")
  case True
  with assms(2) show ?thesis
    by (auto simp: one_byte_classes IsOneByteIDStart_def IsOneByteIDContinue_def)
next
  case False
  with assms show ?thesis
    by (auto simp: IsIdentifierStart_def IsIdentifierPart_def IsInRange_iff IsIdentifierStartSlow_def
        IsIdentifierPartSlow_def u_property_def icu_start_continues_def)
qed

lemma consumes_identifier:
  assumes "ScanIdentifierOrKeyword U s = (t, s')" and "c0 s \<noteq> kEndOfInput"
    and "c0 s \<le> kMaxAscii \<or> IsIdentifierPart U (c0 s)"
  shows "consumes s s'"
proof (rule consumes_less)
  show "lex_step s s'" by (rule lex_ScanIdentifierOrKeyword [OF assms(1) lex_step_refl])
  define s0 where "s0 = Start_literal s"
  have i: "ScanIdentifierOrKeywordInner U s0 = (t, s')" "c0 s0 = c0 s" "input_left s0 = input_left s"
    using assms(1) by (simp_all add: ScanIdentifierOrKeyword_def s0_def)
  consider "c0 s \<le> kMaxAscii" "c0 s \<noteq> 0x5C" | "c0 s = 0x5C"
    | "\<not> c0 s \<le> kMaxAscii" "IsIdentifierPart U (c0 s)" using assms(3) by auto
  then show "input_left s' < input_left s"
  proof cases
    case 1
    define s1 where "s1 = AddLiteralChar_char (ucast (c0 s)) s0"
    obtain f b s2 where A: "AdvanceUntil ident_check
        (drop_bit 1 (GetScanFlags (c0 s)), literal_chars (next_desc s1)) s1 = ((f, b), s2)"
      by (metis prod.collapse)
    let ?s3 = "update_next (\<lambda>d. d \<lparr> literal_chars := b \<rparr>) s2"
    have "lex_step ?s3 s'"
      using i 1 A s1_def
      by (auto simp: ScanIdentifierOrKeywordInner_def Let_def split: if_splits intro: lex_InnerSlow)
    moreover have "input_left s2 < input_left s"
      using AdvanceUntil_less [OF A] i(2,3) assms(2) by (simp add: s1_def AddLiteralChar_char_def)
    ultimately show ?thesis using lex_step_left [of ?s3 s'] by simp
  next
    case 2
    obtain c s1 where c: "ScanIdentifierUnicodeEscape s0 = (c, s1)" by fastforce
    have "lex_step s1 s'"
      using i 2 c by (auto simp: ScanIdentifierOrKeywordInner_def lex_ops split: if_splits intro: lex_InnerSlow)
    with ScanIdentifierUnicodeEscape_less [OF c] 2 i show ?thesis using lex_step_left [of s1 s'] by simp
  next
    case 3
    obtain r s1 where r: "InnerSlow_loop U False True s0 = (r, s1)" by fastforce
    have "s' = s1"
      using i 3 r by (auto simp: ScanIdentifierOrKeywordInner_def ScanIdentifierOrKeywordInnerSlow_def
          split: option.splits)
    moreover have "c0 s \<noteq> 0x5C" using 3(1) by auto
    then have "lex_step (AddLiteralCharAdvance s0) s1"
      using r 3 i(2) by (auto simp: InnerSlow_loop.simps [of U False True s0] char_or_pair_def
          intro: lex_InnerSlow_loop)
    ultimately show ?thesis
      using lex_step_left [of _ s1] AddLiteralCharAdvance_less [of s0] i assms(2) by fastforce
  qed
qed


lemma one_char_number: "GetOneCharToken c = Token_NUMBER \<Longrightarrow> IsDecimalDigit c"
  by (simp add: GetOneCharToken_def split: if_splits)

lemma one_char_whitespace: "GetOneCharToken c = Token_WHITESPACE \<Longrightarrow> IsWhiteSpaceOrLineTerminator U c"
  by (simp add: GetOneCharToken_def one_byte_classes IsOneByteWhitespace_def split: if_splits)

lemma consumes_Select:
  "Select t s = (r, s') \<Longrightarrow> c0 s \<noteq> kEndOfInput \<Longrightarrow> consumes s s'"
  "Select_next c t t' s = (r, s') \<Longrightarrow> c0 s \<noteq> kEndOfInput \<Longrightarrow> consumes s s'"
  by (auto simp: Select_def Select_next_def Let_def lex_ops split: if_splits intro!: consumes_lex)

lemma consumes_ScanPrivateName:
  assumes "ScanPrivateName U s = (t, s')" and "c0 s \<noteq> kEndOfInput"
  shows "consumes s s'"
proof (rule consumes_less)
  show "lex_step s s'" by (rule lex_ScanPrivateName [OF assms(1) lex_step_refl])
  define s1 where "s1 = Advance (Start_literal s)"
  obtain b s2 where b: "char_or_pair (IsIdentifierStart U) s1 = (b, s2)" by fastforce
  have s2: "lex_step s1 s2" by (rule lex_char_or_pair [OF b lex_step_refl])
  have "is_one_byte (literal_chars (next_desc (AddLiteralChar 0x23 s2)))"
    using next_desc_char_or_pair [OF b] by (simp add: s1_def AddLiteralChar_def is_one_byte_AddChar)
  then have "lex_step s1 s'"
    using assms(1) b s2 s1_def
    by (auto simp: ScanPrivateName_def Let_def lex_ops split: if_splits prod.splits
        intro: lex_ScanIdentifierOrKeywordInner)
  then show "input_left s' < input_left s"
    using lex_step_left [of s1 s'] Advance_less [of "Start_literal s"] assms(2) by (simp add: s1_def)
qed

lemma consumes_scan_hash:
  assumes "scan_hash U s = (t, r, s')" and "c0 s \<noteq> kEndOfInput"
  shows "consumes s s'"
proof -
  obtain h s1 where h: "(if source_pos s = 0 then (case Peek s of (c, s) \<Rightarrow> (c = 0x21, s)) else (False, s)) = (h, s1)"
    by fastforce
  then have l: "lex_step s s1" and c: "c0 s1 = c0 s"
    using lex_step_Peek [of s] Peek_c0 [of s] by (auto split: if_splits prod.splits)
  have "consumes s1 s'"
    using assms h c by (auto simp: scan_hash_def intro: consumes_SkipSingleLineComment consumes_ScanPrivateName
        split: if_splits)
  then show ?thesis
    using lex_scan_step [OF l] lex_step_left [OF l] scan_step_trans by (fastforce simp: consumes_def)
qed

lemma consumes_ScanTemplateSpan:
  "ScanTemplateSpan (Advance s) = (t, s') \<Longrightarrow> c0 s \<noteq> kEndOfInput \<Longrightarrow> consumes s s'"
  by (rule consumes_lex [OF lex_ScanTemplateSpan [OF _ lex_step_refl]])

lemmas consumes_rules =
  consumes_Select consumes_ScanString consumes_scan_div consumes_scan_hash consumes_ScanTemplateSpan
  lex_operators [THEN consumes_lex] lex_scan_conditional [THEN consumes_lex] lex_scan_lt [THEN consumes_lex]
  lex_scan_sub [THEN consumes_lex] lex_scan_period [THEN consumes_lex]

lemma scan_ascii_consumes:
  assumes "c0 s \<le> kMaxAscii" and "scan_ascii U s = (t, r, s')"
  shows "consumes s s'"
proof -
  have c: "c0 s \<noteq> kEndOfInput" using assms(1) by auto
  let ?tok = "GetOneCharToken (c0 s)"
  consider "?tok = Token_WHITESPACE" | "?tok = Token_NUMBER"
    | "?tok \<noteq> Token_WHITESPACE" "?tok \<noteq> Token_NUMBER" by blast
  then show ?thesis
  proof cases
    case 1
    then show ?thesis
      using assms(2) one_char_whitespace [of "c0 s" U] consumes_SkipWhiteSpace [of U s s']
        SkipWhiteSpace_token [of U s t s'] by (simp add: scan_ascii_def)
  next
    case 2
    then show ?thesis
      using assms(2) one_char_number [of "c0 s"] consumes_ScanNumber [of U s t s'] by (simp add: scan_ascii_def)
  next
    case 3
    show ?thesis
      by (insert assms(2) 3) (simp add: scan_ascii_def Let_def split: if_splits;
          (elim conjE)?; (erule consumes_rules [OF _ c] | rule consumes_identifier [OF _ c disjI1 [OF assms(1)]]); assumption?)
  qed
qed


lemma set_beg_pos_simps [simp]: "c0 (set_beg_pos s) = c0 s" "input_left (set_beg_pos s) = input_left s"
  by (simp_all add: set_beg_pos_def)

lemma scan_set_beg_pos: "scan_step s (set_beg_pos s)"
  by (auto simp: scan_step_def same_dialect_def scanner_inv_def dialect_inv_def scanner_has_parser_error_def
      cursor_inv_def desc_inv_def set_beg_pos_def update_next_def next_desc_def error_stuck_def input_left_def others_illegal_def)

text \<open>
  A round is a scan step. It reads something unless it returns at the end of the
  input or on a character that starts no token.
\<close>

lemma scan_round_cases:
  assumes "scan_round U s = (t, r, s')"
  obtains (reads) s1 where "lex_step (set_beg_pos s) s1" and "consumes s1 s'"
  | (ident) s1 where "lex_step (set_beg_pos s) s1" and "ScanIdentifierOrKeyword U s1 = (t, s')"
      and "IsIdentifierStart U (c0 s1)" and "r"
  | (nothing) "lex_step (set_beg_pos s) s'" and "t = Token_ILLEGAL \<or> t = Token_EOS"
proof -
  let ?s = "set_beg_pos s"
  obtain b s1 where b: "char_or_pair (IsIdentifierStart U) ?s = (b, s1)" by fastforce
  have s1: "lex_step ?s s1" by (rule lex_char_or_pair [OF b lex_step_refl])
  consider "c0 s \<le> kMaxAscii" | "\<not> c0 s \<le> kMaxAscii" "b" | "\<not> c0 s \<le> kMaxAscii" "\<not> b" "c0 s1 = kEndOfInput"
    | "\<not> c0 s \<le> kMaxAscii" "\<not> b" "c0 s1 \<noteq> kEndOfInput" by blast
  then show thesis
  proof cases
    case 1
    then have "scan_ascii U ?s = (t, r, s')" using assms by (simp add: scan_round_def)
    from scan_ascii_consumes [OF _ this] 1 show thesis using reads [OF lex_step_refl] by simp
  next
    case 2
    with assms b have "ScanIdentifierOrKeyword U s1 = (t, s')" "r" by (simp_all add: scan_round_def Let_def)
    moreover have "IsIdentifierStart U (c0 s1)" using char_or_pair_holds [of _ ?s s1] b 2(2) by simp
    ultimately show thesis using ident [OF s1] by blast
  next
    case 3
    with assms b have "s' = s1" "t = Token_ILLEGAL \<or> t = Token_EOS"
      by (auto simp: scan_round_def Let_def split: if_splits)
    with s1 have "lex_step ?s s'" by simp
    then show thesis using \<open>t = Token_ILLEGAL \<or> t = Token_EOS\<close> by (rule nothing)
  next
    case 4
    with assms b have w: "SkipWhiteSpace U s1 = (t, s')" by (simp add: scan_round_def Let_def)
    show thesis
    proof (cases "t = Token_WHITESPACE")
      case True
      then show thesis using reads [OF s1] consumes_SkipWhiteSpace w by blast
    next
      case False
      with SkipWhiteSpace_token [OF w] have "t = Token_ILLEGAL \<or> t = Token_EOS" by (simp split: if_splits)
      with lex_SkipWhiteSpace [OF w s1] show thesis by (rule nothing)
    qed
  qed
qed

lemma scan_round_step:
  assumes "scan_round U s = (t, r, s')"
  shows "scan_step s s'"
proof -
  from assms have "scan_step (set_beg_pos s) s'"
  proof (cases rule: scan_round_cases)
    case (reads s1)
    then show ?thesis using lex_scan_step scan_step_trans by (simp add: consumes_def) blast
  next
    case (ident s1)
    then show ?thesis using lex_ScanIdentifierOrKeyword lex_scan_step by blast
  next
    case nothing
    then show ?thesis by (rule_tac lex_scan_step)
  qed
  with scan_set_beg_pos show ?thesis by (rule scan_step_trans)
qed

lemma reads_less: "lex_step (set_beg_pos s) s1 \<Longrightarrow> consumes s1 s' \<Longrightarrow> input_left s' < input_left s"
  using lex_step_left [of "set_beg_pos s" s1] by (simp add: consumes_def)

lemma scan_round_less:
  assumes "scan_round U s = (t, r, s')" and "\<not> r" and "t = Token_WHITESPACE"
  shows "input_left s' < input_left s"
  using assms(1) by (cases rule: scan_round_cases) (use assms(2,3) in \<open>auto intro: reads_less\<close>)

lemma scan_round_progress:
  assumes "scan_round U s = (t, r, s')" and "icu_start_continues U"
    and "t \<noteq> Token_ILLEGAL" and "t \<noteq> Token_EOS"
  shows "input_left s' < input_left s"
  using assms(1)
proof (cases rule: scan_round_cases)
  case (ident s1)
  have "c0 s1 \<noteq> kEndOfInput" using ident(3) by auto
  then have "consumes s1 s'"
    using consumes_identifier [OF ident(2)] start_is_part [OF assms(2) ident(3)] by blast
  with ident(1) show ?thesis by (rule reads_less)
qed (use assms(3,4) in \<open>auto intro: reads_less\<close>)

function ScanSingleToken :: "icu \<Rightarrow> Scanner \<Rightarrow> token \<times> Scanner" where
  "ScanSingleToken U s =
     (case scan_round U s of (tok, r, s1) \<Rightarrow>
        if \<not> r \<and> tok = Token_WHITESPACE then ScanSingleToken U s1 else (tok, s1))"
  by pat_completeness auto

termination ScanSingleToken
proof (relation "measure (\<lambda>(U, s). input_left s)", simp, goal_cases)
  case (1 U s tok q r s1)
  then show ?case using scan_round_less [of U s tok r s1] by simp
qed

declare ScanSingleToken.simps [simp del]


section \<open>Scan and the token window\<close>

text \<open>\<^verbatim>\<open>Scan(TokenDesc*)\<close> is only called with \<^verbatim>\<open>&next()\<close>.\<close>

definition Scan :: "icu \<Rightarrow> Scanner \<Rightarrow> Scanner" where
  "Scan U s =
     (let s = update_next (\<lambda>d. d \<lparr> after_line_terminator := False \<rparr>) s
      in case ScanSingleToken U s of (tok, s) \<Rightarrow>
           let s = update_next (\<lambda>d. d \<lparr> desc_token := tok \<rparr>) s;
               s = (if tok \<noteq> Token_WHITESPACE \<and> tok \<noteq> Token_UNINITIALIZED
                    then s \<lparr> saw_non_comment_token := True \<rparr> else s)
           in update_next (\<lambda>d. d \<lparr> location := (location d) \<lparr> end_pos := source_pos s \<rparr> \<rparr>) s)"

definition Initialize :: "icu \<Rightarrow> Scanner \<Rightarrow> Scanner" where
  "Initialize U s = Scan U (set_after_line_terminator True (Init s))"

text \<open>\<^verbatim>\<open>Next\<close> rotates the three descriptors; it scans unless a token was peeked.\<close>

definition Next :: "icu \<Rightarrow> Scanner \<Rightarrow> token \<times> Scanner" where
  "Next U s =
     (let previous = current_slot s;
          s = s \<lparr> current_slot := next_slot s \<rparr>;
          s = (if desc_token (next_next_desc s) = Token_UNINITIALIZED
               then let s = s \<lparr> next_slot := previous \<rparr>
                    in Scan U (set_after_line_terminator False s)
               else s \<lparr> next_slot := next_next_slot s, next_next_slot := previous,
                        token_storage := (token_storage s)(previous :=
                          (token_storage s previous) \<lparr> desc_token := Token_UNINITIALIZED \<rparr>) \<rparr>)
      in (current_token s, s))"

definition PeekAhead :: "icu \<Rightarrow> Scanner \<Rightarrow> token \<times> Scanner" where
  "PeekAhead U s =
     (if desc_token (next_next_desc s) \<noteq> Token_UNINITIALIZED then (desc_token (next_next_desc s), s)
      else let temp = next_slot s;
               s = s \<lparr> next_slot := next_next_slot s \<rparr>;
               s = Scan U (set_after_line_terminator False s);
               s = s \<lparr> next_next_slot := next_slot s, next_slot := temp \<rparr>
           in (desc_token (next_next_desc s), s))"

definition HasLineTerminatorAfterNext :: "icu \<Rightarrow> Scanner \<Rightarrow> bool \<times> Scanner" where
  "HasLineTerminatorAfterNext U s =
     (case PeekAhead U s of (_, s) \<Rightarrow> (after_line_terminator (next_next_desc s), s))"

definition ScanTemplateContinuation :: "Scanner \<Rightarrow> token \<times> Scanner" where
  "ScanTemplateContinuation s = ScanTemplateSpan s"

section \<open>Seeking and bookmarks\<close>

definition SeekForward :: "icu \<Rightarrow> int \<Rightarrow> Scanner \<Rightarrow> Scanner" where
  "SeekForward U p s =
     (if p = beg_pos (location (next_desc s)) then s
      else let current_pos = source_pos s;
               s = (if p \<noteq> current_pos
                    then set_after_line_terminator False
                           (Advance (s \<lparr> source_stream := stream_Seek (source_stream s) (unat (word_of_int p :: 64 word)) \<rparr>))
                    else s)
           in Scan U s)"

definition SeekNext :: "icu \<Rightarrow> nat \<Rightarrow> Scanner \<Rightarrow> Scanner" where
  "SeekNext U p s =
     (let s = s \<lparr> token_storage := (\<lambda>k. (token_storage s k) \<lparr> desc_token := Token_UNINITIALIZED,
                    invalid_template_escape_message := kNone \<rparr>) \<rparr>;
          s = s \<lparr> source_stream := stream_Seek (source_stream s) p \<rparr>
      in Scan U (set_after_line_terminator False (Advance s)))"

text \<open>A bookmark is a \<^verbatim>\<open>size_t\<close>; the two largest values are reserved.\<close>

abbreviation kNoBookmark :: "64 word" where "kNoBookmark \<equiv> 0xFFFFFFFFFFFFFFFE"
abbreviation kBookmarkWasApplied :: "64 word" where "kBookmarkWasApplied \<equiv> 0xFFFFFFFFFFFFFFFF"

record BookmarkScope =
  bookmark :: "64 word"
  had_parser_error :: bool

definition new_BookmarkScope :: "Scanner \<Rightarrow> BookmarkScope" where
  "new_BookmarkScope s =
     \<lparr> bookmark = kNoBookmark, had_parser_error = scanner_has_parser_error s \<rparr>"

definition BookmarkScope_Set :: "64 word \<Rightarrow> BookmarkScope \<Rightarrow> BookmarkScope" where
  "BookmarkScope_Set p b = b \<lparr> bookmark := p \<rparr>"

definition BookmarkScope_Apply :: "icu \<Rightarrow> BookmarkScope \<Rightarrow> Scanner \<Rightarrow> BookmarkScope \<times> Scanner" where
  "BookmarkScope_Apply U b s =
     (b \<lparr> bookmark := kBookmarkWasApplied \<rparr>,
      if had_parser_error b then set_parser_error s
      else SeekNext U (unat (bookmark b)) (reset_parser_error_flag s))"

definition BookmarkScope_HasBeenSet :: "BookmarkScope \<Rightarrow> bool" where
  "BookmarkScope_HasBeenSet b \<longleftrightarrow> bookmark b \<noteq> kNoBookmark \<and> bookmark b \<noteq> kBookmarkWasApplied"

definition BookmarkScope_HasBeenApplied :: "BookmarkScope \<Rightarrow> bool" where
  "BookmarkScope_HasBeenApplied b \<longleftrightarrow> bookmark b = kBookmarkWasApplied"

section \<open>What the parser reads off a token\<close>

text \<open>Internalized strings are given by their code units.\<close>

definition CurrentSymbol :: "Scanner \<Rightarrow> uc16 list" where
  "CurrentSymbol s =
     (if is_one_byte (literal_chars (current_desc s))
      then map ucast (one_byte_literal (literal_chars (current_desc s)))
      else two_byte_literal (literal_chars (current_desc s)))"

definition NextSymbol :: "Scanner \<Rightarrow> uc16 list" where
  "NextSymbol s =
     (if is_one_byte (literal_chars (next_desc s))
      then map ucast (one_byte_literal (literal_chars (next_desc s)))
      else two_byte_literal (literal_chars (next_desc s)))"

definition CurrentRawSymbol :: "Scanner \<Rightarrow> uc16 list" where
  "CurrentRawSymbol s =
     (if is_one_byte (raw_literal_chars (current_desc s))
      then map ucast (one_byte_literal (raw_literal_chars (current_desc s)))
      else two_byte_literal (raw_literal_chars (current_desc s)))"

definition CurrentLiteralAsCString :: "Scanner \<Rightarrow> byte list" where
  "CurrentLiteralAsCString s = one_byte_literal (literal_chars (current_desc s)) @ [0]"

definition LiteralBuffer_Internalize :: "LiteralBuffer \<Rightarrow> uc16 list" where
  "LiteralBuffer_Internalize b =
     (if is_one_byte b then map ucast (one_byte_literal b) else two_byte_literal b)"

definition SourceUrl :: "Scanner \<Rightarrow> uc16 list option" where
  "SourceUrl s =
     (if LiteralBuffer_length (source_url s) > 0 then Some (LiteralBuffer_Internalize (source_url s))
      else None)"

definition SourceMappingUrl :: "Scanner \<Rightarrow> uc16 list option" where
  "SourceMappingUrl s =
     (if LiteralBuffer_length (source_mapping_url s) > 0
      then Some (LiteralBuffer_Internalize (source_mapping_url s)) else None)"

definition SourceDialectString :: "Scanner \<Rightarrow> uc16 list" where
  "SourceDialectString s =
     (if LiteralBuffer_length (source_dialect_name s) > 0
      then LiteralBuffer_Internalize (source_dialect_name s)
      else map ucast (SourceDialectName (source_dialect s)))"

end
