(* ===== verification/Scanner_Runs.thy ===== *)
theory Scanner_Runs
  imports Scanner_Tokens
begin

text \<open>
  What one scan delivers: the tokens \<^verbatim>\<open>ScanSingleToken\<close> can return, its progress, where
  the token starts, and what \<^verbatim>\<open>Scan\<close> keeps, also after an error.
\<close>

section \<open>Tokens a scan can return\<close>

text \<open>A content token is neither a gap, nor unset, nor the end of the source.\<close>

definition content_token :: "token \<Rightarrow> bool" where
  "content_token t \<longleftrightarrow> t \<noteq> Token_WHITESPACE \<and> t \<noteq> Token_UNINITIALIZED \<and> t \<noteq> Token_EOS"

lemma content_words [simp]:
  "content_token Token_IDENTIFIER" "content_token Token_ILLEGAL" "content_token Token_SMI"
  "content_token Token_FUTURE_STRICT_RESERVED_WORD"
  "content_token Token_ESCAPED_STRICT_RESERVED_WORD" "content_token Token_ESCAPED_KEYWORD"
  "content_token Token_PRIVATE_NAME" "content_token Token_STRING" "content_token Token_TEMPLATE_SPAN"
  "content_token Token_TEMPLATE_TAIL" "content_token Token_NUMBER" "content_token Token_BIGINT"
  by (simp_all add: content_token_def)

lemma content_hash_table: "list_all (\<lambda>w. content_token (snd w)) kPerfectKeywordHashTable"
  by code_simp

lemma content_PerfectKeywordHash: "content_token (PerfectKeywordHash_GetToken str len)"
proof -
  let ?w = "kPerfectKeywordHashTable ! unat (PerfectKeywordHash_Hash str len AND 0x3f)"
  have "?w \<in> set kPerfectKeywordHashTable" using hash_key_bound by (simp add: table_lengths)
  then have "content_token (snd ?w)" using content_hash_table by (auto simp: list_all_iff)
  then show ?thesis
    by (auto simp: PerfectKeywordHash_GetToken_def Let_def split: prod.splits)
qed

lemma content_spa_words: "list_all (\<lambda>w. content_token (snd w)) spa_words"
  by code_simp

lemma content_JsSpaKeywordHash: "content_token (JsSpaKeywordHash_GetToken str (length str))"
  using spa.lookup_words [of str] content_spa_words
  by (auto simp: list_all_iff split: option.splits dest!: map_of_SomeD)

lemma content_KeywordOrIdentifier: "content_token (KeywordOrIdentifierToken d str (length str))"
  using content_PerfectKeywordHash content_JsSpaKeywordHash by (simp add: KeywordOrIdentifierToken_def)

lemma content_InnerSlow:
  "ScanIdentifierOrKeywordInnerSlow U e k s = (t, s') \<Longrightarrow> content_token t"
  using content_KeywordOrIdentifier
  by (auto simp: ScanIdentifierOrKeywordInnerSlow_def Let_def split: prod.splits option.splits)

lemma content_Inner:
  "ScanIdentifierOrKeywordInner U s = (t, s') \<Longrightarrow> content_token t"
  using content_KeywordOrIdentifier
  by (auto simp: ScanIdentifierOrKeywordInner_def Let_def split: prod.splits if_splits
      intro: content_InnerSlow)

lemma content_identifier [content_results]:
  "ScanIdentifierOrKeyword U s = (t, s') \<Longrightarrow> content_token t"
  by (simp add: ScanIdentifierOrKeyword_def content_Inner)

lemma content_ScanPrivateName [content_results]: "ScanPrivateName U s = (t, s') \<Longrightarrow> content_token t"
  by (auto simp: ScanPrivateName_def Let_def split: prod.splits if_splits)

lemma ScanString_loop_tokens:
  "ScanString_loop q s = (t, s') \<Longrightarrow> t = Token_STRING \<or> t = Token_ILLEGAL"
proof (induction q s rule: ScanString_loop.induct)
  case (1 q s)
  then show ?case by (auto simp: ScanString_loop.simps [of q s] split: prod.splits if_splits)
qed

lemma content_ScanString [content_results]: "ScanString s = (t, s') \<Longrightarrow> content_token t"
  using ScanString_loop_tokens by (fastforce simp: ScanString_def)

lemma ScanTemplateSpan_loop_tokens:
  "ScanTemplateSpan_loop s = (t, s') \<Longrightarrow> t = Token_TEMPLATE_SPAN \<or> t = Token_TEMPLATE_TAIL"
proof (induction s rule: ScanTemplateSpan_loop.induct)
  case (1 s)
  then show ?case by (auto simp: ScanTemplateSpan_loop.simps [of s] Let_def split: prod.splits if_splits)
qed

lemma content_ScanTemplateSpan [content_results]: "ScanTemplateSpan s = (t, s') \<Longrightarrow> content_token t"
  using ScanTemplateSpan_loop_tokens
  by (fastforce simp: ScanTemplateSpan_def Let_def split: prod.splits)

lemma content_ScanNumber_tail: "ScanNumber_tail U k b p s = (t, s') \<Longrightarrow> content_token t"
  by (auto simp: ScanNumber_tail_def Let_def split: prod.splits if_splits)

lemma content_ScanNumber [content_results]: "ScanNumber U b s = (t, s') \<Longrightarrow> content_token t"
  by (auto simp: ScanNumber_def ScanNumber_decimal_def Let_def
      split: prod.splits if_splits option.splits intro: content_ScanNumber_tail)

lemma content_Select [content_results]:
  "Select t s = (t', s') \<Longrightarrow> content_token t \<Longrightarrow> content_token t'"
  "Select_next c t1 t2 s = (t', s') \<Longrightarrow> content_token t1 \<Longrightarrow> content_token t2 \<Longrightarrow> content_token t'"
  by (auto simp: Select_def Select_next_def Let_def split: if_splits)

text \<open>A comment is a gap or an error; \<^verbatim>\<open><!\<close> that opens no comment is the operator \<^verbatim>\<open><\<close>.\<close>

lemma gap_tokens:
  "SkipWhiteSpace U s = (t, s') \<Longrightarrow> t = Token_WHITESPACE \<or> content_token t"
  "SkipSingleLineComment s = (t, s') \<Longrightarrow> t = Token_WHITESPACE \<or> content_token t"
  "SkipSingleHTMLComment s = (t, s') \<Longrightarrow> t = Token_WHITESPACE \<or> content_token t"
  "SkipMultiLineComment s = (t, s') \<Longrightarrow> t = Token_WHITESPACE \<or> content_token t"
  "SkipSourceURLComment U s = (t, s') \<Longrightarrow> t = Token_WHITESPACE \<or> content_token t"
proof -
  show single: "SkipSingleLineComment s = (t, s') \<Longrightarrow> t = Token_WHITESPACE \<or> content_token t" for s
    by (simp add: SkipSingleLineComment_def)
  show "SkipWhiteSpace U s = (t, s') \<Longrightarrow> t = Token_WHITESPACE \<or> content_token t"
    using SkipWhiteSpace_token [of U s t s'] by simp
  show "SkipSingleHTMLComment s = (t, s') \<Longrightarrow> t = Token_WHITESPACE \<or> content_token t"
    using single by (auto simp: SkipSingleHTMLComment_def split: if_splits)
  show "SkipMultiLineComment s = (t, s') \<Longrightarrow> t = Token_WHITESPACE \<or> content_token t"
    by (auto simp: SkipMultiLineComment_def split: prod.splits if_splits)
  show "SkipSourceURLComment U s = (t, s') \<Longrightarrow> t = Token_WHITESPACE \<or> content_token t"
    using single by (auto simp: SkipSourceURLComment_def Let_def split: if_splits)
qed

lemma ScanHtmlComment_token: "ScanHtmlComment s = (t, s') \<Longrightarrow> t = Token_WHITESPACE \<or> content_token t"
  using gap_tokens(3)
  by (auto simp: ScanHtmlComment_def Let_def split: prod.splits if_splits) (simp_all add: content_token_def)

text \<open>A round returns a content token or continues after a gap or with one.\<close>

definition round_token :: "token \<Rightarrow> bool \<Rightarrow> bool" where
  "round_token t r \<longleftrightarrow> content_token t \<or> \<not> r \<and> t = Token_WHITESPACE"

lemma round_operators:
  "scan_gt s = (t, r, s') \<Longrightarrow> round_token t r" "scan_assign s = (t, r, s') \<Longrightarrow> round_token t r"
  "scan_not s = (t, r, s') \<Longrightarrow> round_token t r" "scan_add s = (t, r, s') \<Longrightarrow> round_token t r"
  "scan_mul s = (t, r, s') \<Longrightarrow> round_token t r" "scan_bit_and s = (t, r, s') \<Longrightarrow> round_token t r"
  "scan_bit_or s = (t, r, s') \<Longrightarrow> round_token t r" "scan_conditional s = (t, r, s') \<Longrightarrow> round_token t r"
  by (auto simp: operator_defs scan_conditional_def round_token_def Let_def Select_def Select_next_def
      content_token_def split: if_splits)

lemma round_lt: "scan_lt s = (t, r, s') \<Longrightarrow> round_token t r"
  using ScanHtmlComment_token
  by (fastforce simp: scan_lt_def round_token_def Let_def Select_def Select_next_def content_token_def
      split: if_splits)

lemma round_sub: "scan_sub s = (t, r, s') \<Longrightarrow> round_token t r"
  using gap_tokens(3)
  by (fastforce simp: scan_sub_def round_token_def Let_def Select_def content_token_def split: if_splits)

lemma round_div: "scan_div U s = (t, r, s') \<Longrightarrow> round_token t r"
  using gap_tokens(2,4,5)
  by (fastforce simp: scan_div_def round_token_def Let_def Select_def content_token_def
      split: if_splits prod.splits)

lemma round_period: "scan_period U s = (t, r, s') \<Longrightarrow> round_token t r"
  using content_ScanNumber
  by (fastforce simp: scan_period_def round_token_def Let_def content_token_def split: if_splits prod.splits)

lemma round_hash: "scan_hash U s = (t, r, s') \<Longrightarrow> round_token t r"
  using gap_tokens(2) content_ScanPrivateName
  by (fastforce simp: scan_hash_def round_token_def split: if_splits prod.splits)

lemmas round_results = round_operators round_lt round_sub round_div round_period round_hash

lemma round_content: "content_token t \<Longrightarrow> round_token t r"
  by (simp add: round_token_def)

lemma round_whitespace: "SkipWhiteSpace U s = (t, s') \<Longrightarrow> round_token t False"
  using gap_tokens(1) by (auto simp: round_token_def)

lemma scan_ascii_token: "scan_ascii U s = (t, r, s') \<Longrightarrow> round_token t r"
  by (simp add: scan_ascii_def Let_def split: if_splits; (elim conjE)?;
      (erule round_results | erule round_whitespace | erule content_results [THEN round_content] |
       auto simp: Select_def Select_next_def round_token_def Let_def split: if_splits)?; (auto simp: content_token_def)?)

text \<open>Every round delivers a content token, continues, or is at the end of the source.\<close>

lemma scan_round_token:
  assumes "scan_round U s = (t, r, s')"
  shows "round_token t r \<or> t = Token_EOS \<and> r \<and> c0 s' = kEndOfInput \<and> \<not> scanner_has_parser_error s'"
proof -
  let ?s = "set_beg_pos s"
  obtain b s1 where b: "char_or_pair (IsIdentifierStart U) ?s = (b, s1)" by fastforce
  have "round_token t r" if "ScanIdentifierOrKeyword U s1 = (t, s')"
    using content_identifier [OF that] by (rule round_content)
  moreover have "\<not> r \<Longrightarrow> SkipWhiteSpace U s1 = (t, s') \<Longrightarrow> round_token t r"
    using round_whitespace [of U s1 t s'] by simp
  ultimately show ?thesis
    using assms b scan_ascii_token [of U ?s t r s']
    by (auto simp: scan_round_def Let_def scanner_has_parser_error_def round_content split: if_splits)
qed

section \<open>ScanSingleToken\<close>

text \<open>
  The loop as a sequence of rounds: all but the last are gaps, which read something.
\<close>

lemma ScanSingleToken_induct [consumes 1, case_names last gap]:
  assumes "ScanSingleToken U s = (t, s')"
    and "\<And>s r s'. scan_round U s = (t, r, s') \<Longrightarrow> r \<or> t \<noteq> Token_WHITESPACE \<Longrightarrow> P s s'"
    and "\<And>s s1 s'. scan_round U s = (Token_WHITESPACE, False, s1) \<Longrightarrow>
      ScanSingleToken U s1 = (t, s') \<Longrightarrow> P s1 s' \<Longrightarrow> P s s'"
  shows "P s s'"
  using assms
proof (induction U s rule: ScanSingleToken.induct)
  case (1 U s)
  obtain tok r s1 where r: "scan_round U s = (tok, r, s1)" by (metis prod.collapse)
  show ?case
  proof (cases "\<not> r \<and> tok = Token_WHITESPACE")
    case True
    with 1(2) r have n: "ScanSingleToken U s1 = (t, s')" by (simp add: ScanSingleToken.simps [of U s])
    have "P s1 s'" by (rule 1(1) [OF r [symmetric] refl True n]) (rule 1(3,4); assumption)+
    with n r True show ?thesis using 1(4) [of s s1 s'] by simp
  next
    case False
    with 1(2) r have "scan_round U s = (t, r, s')" by (auto simp: ScanSingleToken.simps [of U s])
    with False r 1(2) show ?thesis using 1(3) [of s r s'] by (auto simp: ScanSingleToken.simps [of U s])
  qed
qed

lemma ScanSingleToken_step: "ScanSingleToken U s = (t, s') \<Longrightarrow> scan_step s s'"
  by (induction rule: ScanSingleToken_induct) (auto intro: scan_round_step scan_step_trans)

lemma ScanSingleToken_token:
  assumes "ScanSingleToken U s = (t, s')"
  shows "content_token t \<or> t = Token_EOS \<and> c0 s' = kEndOfInput \<and> \<not> scanner_has_parser_error s'"
  using assms
  by (induction rule: ScanSingleToken_induct) (use scan_round_token in \<open>fastforce simp: round_token_def\<close>)+

lemma ScanSingleToken_progress:
  assumes "ScanSingleToken U s = (t, s')" and "icu_start_continues U"
    and "t \<noteq> Token_ILLEGAL" and "t \<noteq> Token_EOS"
  shows "input_left s' < input_left s"
  using assms(1)
proof (induction rule: ScanSingleToken_induct)
  case (last s r s')
  then show ?case using scan_round_progress assms(2-4) by blast
next
  case (gap s s1 s')
  then show ?case using scan_round_less [OF gap(1)] by simp
qed

text \<open>The round that ends the loop only touches the token it reads.\<close>

lemma lex_scan_div:
  assumes "scan_div U s = (t, r, s')" and "t \<noteq> Token_WHITESPACE"
  shows "lex_step (Advance s) s'"
proof -
  obtain c s1 where c: "Peek (Advance s) = (c, s1)" by fastforce
  have s1: "lex_step (Advance s) s1" by (rule lex_step_Peek [OF c])
  have "\<not> (c0 (Advance s) = 0x2F \<and> (c = 0x23 \<or> c = 0x40))"
    using assms c by (auto simp: scan_div_def SkipSourceURLComment_def SkipSingleLineComment_def Let_def
        split: if_splits)
  with assms(1) c s1 show ?thesis
    by (auto simp: scan_div_def Let_def split: if_splits
        intro: lex_Select lex_SkipSingleLineComment lex_SkipMultiLineComment)
qed

lemma lex_scan_hash: "scan_hash U s = (t, r, s') \<Longrightarrow> lex_step s s'"
  by (auto simp: scan_hash_def split: if_splits prod.splits
      intro: lex_SkipSingleLineComment lex_ScanPrivateName lex_step_Peek)

lemmas lex_round_rules =
  lex_operators [THEN lex_step_trans [OF lex_step_Advance]]
  lex_scan_conditional [THEN lex_step_trans [OF lex_step_Advance]]
  lex_scan_lt [THEN lex_step_trans [OF lex_step_Advance]]
  lex_scan_sub [THEN lex_step_trans [OF lex_step_Advance]]
  lex_scan_period [THEN lex_step_trans [OF lex_step_Advance]]
  lex_scan_div [THEN lex_step_trans [OF lex_step_Advance]] lex_scan_hash
  lex_Select [OF _ lex_step_refl] lex_ScanString [OF _ lex_step_refl]
  lex_ScanTemplateSpan [OF _ lex_step_Advance] lex_SkipWhiteSpace [OF _ lex_step_refl]
  lex_ScanNumber [OF _ lex_step_refl] lex_ScanIdentifierOrKeyword [OF _ lex_step_refl]

lemma scan_ascii_lex:
  "scan_ascii U s = (t, r, s') \<Longrightarrow> t \<noteq> Token_WHITESPACE \<Longrightarrow> lex_step s s'"
  by (simp add: scan_ascii_def Let_def split: if_splits; (elim conjE)?; (erule lex_round_rules; assumption?))

lemma scan_round_lex:
  assumes "scan_round U s = (t, r, s')" and "t \<noteq> Token_WHITESPACE"
  shows "lex_step (set_beg_pos s) s'"
proof -
  let ?s = "set_beg_pos s"
  obtain b s1 where b: "char_or_pair (IsIdentifierStart U) ?s = (b, s1)" by fastforce
  have s1: "lex_step ?s s1" by (rule lex_char_or_pair [OF b lex_step_refl])
  show ?thesis
    using assms b s1 scan_ascii_lex [of U ?s t r s'] lex_ScanIdentifierOrKeyword [of U s1 t s'] lex_SkipWhiteSpace [of U s1 t s']
    by (auto simp: scan_round_def Let_def split: if_splits)
qed

text \<open>So the token starts where the last round began.\<close>

lemma ScanSingleToken_location:
  assumes "ScanSingleToken U s = (t, s')"
  shows "\<exists>s1. scan_step s s1 \<and> scan_step s1 s' \<and>
    beg_pos (location (next_desc s')) = source_pos s1"
  using assms
proof (induction rule: ScanSingleToken_induct)
  case (last s r s')
  have "t \<noteq> Token_WHITESPACE" using last scan_round_token [OF last(1)] by (auto simp: round_token_def content_token_def)
  then have l: "lex_step (set_beg_pos s) s'" by (rule scan_round_lex [OF last(1)])
  then have "beg_pos (location (next_desc s')) = source_pos s"
    by (simp add: lex_step_def same_config_def set_beg_pos_def)
  then show ?case using scan_round_step [OF last(1)] by (intro exI [of _ s]) simp
next
  case (gap s s1 s')
  then show ?case using scan_round_step [OF gap(1)] scan_step_trans by blast
qed

section \<open>Scan\<close>

definition saw_token :: "Scanner \<Rightarrow> Scanner" where
  "saw_token s = s \<lparr> saw_non_comment_token := True \<rparr>"

definition finish_token :: "token \<Rightarrow> Scanner \<Rightarrow> Scanner" where
  "finish_token t s = update_next (\<lambda>d. d \<lparr> desc_token := t,
     location := (location d) \<lparr> end_pos := source_pos s \<rparr> \<rparr>) s"

text \<open>As every token counts as seen, \<^verbatim>\<open>Scan\<close> always sets \<^verbatim>\<open>saw_non_comment_token_\<close>.\<close>

lemma Scan_eq:
  assumes "ScanSingleToken U (set_after_line_terminator False s) = (t, s1)"
  shows "Scan U s = saw_token (finish_token t s1)"
proof -
  have "t \<noteq> Token_WHITESPACE" "t \<noteq> Token_UNINITIALIZED"
    using ScanSingleToken_token [OF assms] by (auto simp: content_token_def)
  with assms show ?thesis
    by (simp add: Scan_def set_after_line_terminator_def saw_token_def finish_token_def Let_def
        update_next_def next_desc_def source_pos_def)
qed

lemma saw_token_simps [simp]:
  "scanner_inv (saw_token s) = scanner_inv s" "source_stream (saw_token s) = source_stream s"
  "c0 (saw_token s) = c0 s" "token_storage (saw_token s) = token_storage s" "flags (saw_token s) = flags s"
  "current_slot (saw_token s) = current_slot s" "next_slot (saw_token s) = next_slot s"
  "next_next_slot (saw_token s) = next_next_slot s" "next_desc (saw_token s) = next_desc s"
  "saw_non_comment_token (saw_token s)" "input_left (saw_token s) = input_left s"
  "scanner_has_parser_error (saw_token s) = scanner_has_parser_error s"
  "source_dialect (saw_token s) = source_dialect s" "others_illegal (saw_token s) = others_illegal s"
  "found_source_dialect_comment (saw_token s) = found_source_dialect_comment s"
  by (simp_all add: saw_token_def scanner_inv_def dialect_inv_def error_stuck_def cursor_inv_def
      scanner_has_parser_error_def next_desc_def input_left_def others_illegal_def)

lemma finish_token_simps [simp]:
  "next_desc (finish_token t s) = (next_desc s) \<lparr> desc_token := t,
     location := (location (next_desc s)) \<lparr> end_pos := source_pos s \<rparr> \<rparr>"
  "source_stream (finish_token t s) = source_stream s" "c0 (finish_token t s) = c0 s"
  "input_left (finish_token t s) = input_left s"
  "scanner_has_parser_error (finish_token t s) = scanner_has_parser_error s"
  by (simp_all add: finish_token_def scanner_has_parser_error_def)

lemma lex_finish_token: "lex_step s (finish_token t s)"
  unfolding finish_token_def by (rule lex_step_update_next) (simp_all add: desc_inv_def)

text \<open>
  \<open>token_step s s'\<close>: the next token has been scanned. Compared with a scan step, a
  token has now been seen.
\<close>

definition token_step :: "Scanner \<Rightarrow> Scanner \<Rightarrow> bool" where
  "token_step s s' \<longleftrightarrow> (\<exists>s1. scan_step s s1 \<and> s' = saw_token s1)"

lemma Scan_token_step: "token_step s (Scan U s)"
proof -
  obtain t s1 where t: "ScanSingleToken U (set_after_line_terminator False s) = (t, s1)" by fastforce
  have "scan_step s (finish_token t s1)"
    using lex_scan_step [OF lex_step_Start(3)] ScanSingleToken_step [OF t] lex_scan_step [OF lex_finish_token]
    by (blast intro: scan_step_trans)
  with Scan_eq [OF t] show ?thesis by (auto simp: token_step_def)
qed

lemma token_step_keeps:
  assumes "token_step s s'"
  shows "flags s' = flags s" "current_slot s' = current_slot s" "next_slot s' = next_slot s"
    "next_next_slot s' = next_next_slot s" "saw_non_comment_token s'"
    "scanner_inv s \<Longrightarrow> scanner_inv s'" "scanner_inv s \<Longrightarrow> text_of (source_stream s') = text_of (source_stream s)"
    "saw_non_comment_token s \<Longrightarrow> same_dialect s s'"
    "scanner_has_parser_error s \<Longrightarrow> scanner_has_parser_error s'"
    "\<not> scanner_has_parser_error s' \<Longrightarrow> k \<noteq> next_slot s \<Longrightarrow> token_storage s' k = token_storage s k"
    "k \<noteq> next_slot s \<Longrightarrow> desc_token (token_storage s' k) = Token_UNINITIALIZED \<longleftrightarrow>
       desc_token (token_storage s k) = Token_UNINITIALIZED"
    "scanner_has_parser_error s' \<Longrightarrow> (scanner_has_parser_error s \<Longrightarrow> others_illegal s) \<Longrightarrow> others_illegal s'"
    "scanner_inv s \<Longrightarrow> \<not> scanner_has_parser_error s' \<Longrightarrow> front (source_stream s) \<le> front (source_stream s')"
    "input_left s' \<le> input_left s"
proof -
  obtain s1 where "scan_step s s1" and [simp]: "s' = saw_token s1"
    using assms by (auto simp: token_step_def)
  note k = this(1) [unfolded scan_step_def same_dialect_def]
  show "flags s' = flags s" "current_slot s' = current_slot s" "next_slot s' = next_slot s"
    "next_next_slot s' = next_next_slot s" "saw_non_comment_token s'" "input_left s' \<le> input_left s"
    "scanner_inv s \<Longrightarrow> scanner_inv s'" "scanner_inv s \<Longrightarrow> text_of (source_stream s') = text_of (source_stream s)"
    "saw_non_comment_token s \<Longrightarrow> same_dialect s s'"
    "scanner_has_parser_error s \<Longrightarrow> scanner_has_parser_error s'"
    using k by (simp_all add: same_dialect_def)
  show "\<not> scanner_has_parser_error s' \<Longrightarrow> k \<noteq> next_slot s \<Longrightarrow> token_storage s' k = token_storage s k"
    using k by simp
  show "k \<noteq> next_slot s \<Longrightarrow> desc_token (token_storage s' k) = Token_UNINITIALIZED \<longleftrightarrow>
       desc_token (token_storage s k) = Token_UNINITIALIZED"
    using k by simp
  show "scanner_inv s \<Longrightarrow> \<not> scanner_has_parser_error s' \<Longrightarrow> front (source_stream s) \<le> front (source_stream s')"
    using k by simp
  show "scanner_has_parser_error s' \<Longrightarrow> (scanner_has_parser_error s \<Longrightarrow> others_illegal s) \<Longrightarrow> others_illegal s'"
    using k by simp
qed

text \<open>The token that was scanned.\<close>

lemma Scan_peek:
  assumes "ScanSingleToken U (set_after_line_terminator False s) = (t, s1)"
  shows "peek (Scan U s) = t"
  using Scan_eq [OF assms] by (simp add: peek_def)

lemma stuck_round: "error_stuck s \<Longrightarrow> scan_round U s = (Token_ILLEGAL, True, set_beg_pos s)"
  by (simp add: scan_round_def char_or_pair_def scanner_CombineSurrogatePair_def error_stuck_def
      scanner_has_parser_error_def Let_def set_beg_pos_def IsLeadSurrogate_def)

lemma ScanSingleToken_error:
  assumes "ScanSingleToken U s = (t, s')" and "scanner_inv s" and "scanner_has_parser_error s'"
  shows "t = Token_ILLEGAL"
  using assms
proof (induction rule: ScanSingleToken_induct)
  case (last s r s')
  have "t \<noteq> Token_WHITESPACE" using last scan_round_token [OF last(1)] by (auto simp: round_token_def content_token_def)
  then have "lex_step (set_beg_pos s) s'" by (rule scan_round_lex [OF last(1)])
  with last(4) have "scanner_has_parser_error s"
    using lex_step_error [of "set_beg_pos s" s'] by (simp add: set_beg_pos_def scanner_has_parser_error_def)
  with last(3) have "error_stuck s" by (simp add: scanner_inv_def)
  with stuck_round last(1) show ?case by fastforce
next
  case (gap s s1 s')
  then show ?case using scan_round_step [OF gap(1)] by (simp add: scan_step_def)
qed

lemma peek_Scan:
  assumes "scanner_inv s"
  shows "peek (Scan U s) \<noteq> Token_WHITESPACE" "peek (Scan U s) \<noteq> Token_UNINITIALIZED"
    "scanner_has_parser_error (Scan U s) \<Longrightarrow> peek (Scan U s) = Token_ILLEGAL"
    "peek (Scan U s) = Token_EOS \<Longrightarrow> c0 (Scan U s) = kEndOfInput"
proof -
  obtain t s1 where t: "ScanSingleToken U (set_after_line_terminator False s) = (t, s1)" by fastforce
  have i: "scanner_inv (set_after_line_terminator False s)"
    using lex_scan_step [OF lex_step_Start(3)] assms by (simp add: scan_step_def)
  note c = ScanSingleToken_token [OF t]
  show "peek (Scan U s) \<noteq> Token_WHITESPACE" "peek (Scan U s) \<noteq> Token_UNINITIALIZED"
    using Scan_peek [OF t] c by (auto simp: content_token_def)
  show "scanner_has_parser_error (Scan U s) \<Longrightarrow> peek (Scan U s) = Token_ILLEGAL"
    using Scan_eq [OF t] Scan_peek [OF t] ScanSingleToken_error [OF t i] by simp
  show "peek (Scan U s) = Token_EOS \<Longrightarrow> c0 (Scan U s) = kEndOfInput"
    using Scan_eq [OF t] Scan_peek [OF t] c by (auto simp: content_token_def)
qed

end
