(* ===== verification/Scanner_Window.thy ===== *)
theory Scanner_Window
  imports Scanner_Runs
begin

text \<open>
  The token window and the operations of the parser on it: \<^verbatim>\<open>Next\<close>, \<^verbatim>\<open>PeekAhead\<close>, rescanning
  of regular expressions and templates, seeking and bookmarks. The states the parser
  can reach are given by a step relation; the theorems show its invariant, that the
  tokens are delivered in order and in time, and what happens after errors.
\<close>

section \<open>The token window\<close>

text \<open>
  The states between two calls of the parser: the next token has been scanned, no
  descriptor holds a gap, and after a parser error every token is illegal.
\<close>

definition tokens_ok :: "slot set \<Rightarrow> Scanner \<Rightarrow> bool" where
  "tokens_ok K s \<longleftrightarrow> (\<forall>k\<in>K. desc_token (token_storage s k) \<noteq> Token_WHITESPACE \<and>
     (scanner_has_parser_error s \<longrightarrow> desc_token (token_storage s k) \<in> {Token_ILLEGAL, Token_UNINITIALIZED}))"

definition window_inv :: "Scanner \<Rightarrow> bool" where
  "window_inv s \<longleftrightarrow> scanner_inv s \<and> distinct [current_slot s, next_slot s, next_next_slot s] \<and> saw_non_comment_token s \<and> tokens_ok UNIV s \<and>
     peek s \<noteq> Token_UNINITIALIZED"

lemma tokens_Scan:
  assumes "scanner_inv s" and "tokens_ok (- {next_slot s}) s"
  shows "tokens_ok UNIV (Scan U s)"
proof -
  note k = token_step_keeps [OF Scan_token_step [of s U]]
  have "tokens_ok (- {next_slot s}) (Scan U s)"
  proof (cases "scanner_has_parser_error (Scan U s)")
    case True
    have "scanner_has_parser_error s \<Longrightarrow> others_illegal s"
      using assms(2) by (auto simp: tokens_ok_def others_illegal_def)
    with k(12) [OF True] have "others_illegal (Scan U s)" by blast
    with k(3) show ?thesis by (fastforce simp: others_illegal_def tokens_ok_def)
  next
    case False
    with k(10) assms(2) show ?thesis by (simp add: tokens_ok_def)
  qed
  moreover have "tokens_ok {next_slot s} (Scan U s)"
    using peek_Scan [OF assms(1), of U] k(3) by (auto simp: tokens_ok_def peek_def next_desc_def)
  ultimately show "tokens_ok UNIV (Scan U s)" by (auto simp: tokens_ok_def)
qed

lemma window_Scan:
  assumes "scanner_inv s" and "tokens_ok (- {next_slot s}) s"
    and "distinct [current_slot s, next_slot s, next_next_slot s]"
  shows "window_inv (Scan U s)"
  using token_step_keeps [OF Scan_token_step [of s U]] assms tokens_Scan [OF assms(1,2)] peek_Scan [OF assms(1)]
  by (simp add: window_inv_def)

text \<open>Rotating the slots.\<close>

definition with_slots :: "slot \<Rightarrow> slot \<Rightarrow> slot \<Rightarrow> Scanner \<Rightarrow> Scanner" where
  "with_slots c n nn s = s \<lparr> current_slot := c, next_slot := n, next_next_slot := nn \<rparr>"

lemma with_slots_inv [simp]: "scanner_inv (with_slots c n nn s) = scanner_inv s"
  by (simp add: with_slots_def scanner_inv_def dialect_inv_def error_stuck_def cursor_inv_def
      scanner_has_parser_error_def)

lemma set_after_inv: "scanner_inv s \<Longrightarrow> scanner_inv (set_after_line_terminator b s)"
  using lex_scan_step [OF lex_step_Start(3)] by (simp add: scan_step_def)

lemma tokens_ok_set_after [simp]: "tokens_ok K (set_after_line_terminator b s) = tokens_ok K s"
  by (auto simp: tokens_ok_def set_after_line_terminator_def update_next_def next_desc_def
      scanner_has_parser_error_def)

lemma tokens_ok_with_slots [simp]: "tokens_ok K (with_slots c n nn s) = tokens_ok K s"
  by (simp add: tokens_ok_def with_slots_def scanner_has_parser_error_def)

lemma tokens_ok_mono: "tokens_ok UNIV s \<Longrightarrow> tokens_ok K s"
  by (simp add: tokens_ok_def)

lemma Next_scanning:
  assumes "desc_token (next_next_desc s) = Token_UNINITIALIZED"
  shows "Next U s = (let s' = Scan U (set_after_line_terminator False
     (with_slots (next_slot s) (current_slot s) (next_next_slot s) s)) in (current_token s', s'))"
  using assms by (simp add: Next_def with_slots_def Let_def next_next_desc_def)

definition forget_token :: "slot \<Rightarrow> Scanner \<Rightarrow> Scanner" where
  "forget_token k s = s \<lparr> token_storage := (token_storage s)(k :=
     (token_storage s k) \<lparr> desc_token := Token_UNINITIALIZED \<rparr>) \<rparr>"

lemma forget_token_inv: "scanner_inv s \<Longrightarrow> scanner_inv (forget_token k s)"
  by (simp add: forget_token_def scanner_inv_def dialect_inv_def error_stuck_def cursor_inv_def
      scanner_has_parser_error_def desc_inv_def)

lemma Next_peeked:
  assumes "desc_token (next_next_desc s) \<noteq> Token_UNINITIALIZED"
  shows "Next U s = (let s' = forget_token (current_slot s)
     (with_slots (next_slot s) (next_next_slot s) (current_slot s) s) in (current_token s', s'))"
  using assms by (simp add: Next_def with_slots_def forget_token_def Let_def next_next_desc_def)

text \<open>
  \<open>delivers s t s'\<close>: \<open>t\<close> is the token that was next in \<open>s\<close>, and \<open>s'\<close> is again a state
  between two calls, on the same text and in the same dialect.
\<close>

definition delivers :: "Scanner \<Rightarrow> token \<Rightarrow> Scanner \<Rightarrow> bool" where
  "delivers s t s' \<longleftrightarrow> window_inv s' \<and>
     t = (if scanner_has_parser_error s' then Token_ILLEGAL else peek s) \<and>
     (\<not> scanner_has_parser_error s' \<longrightarrow> current_desc s' = next_desc s) \<and>
     (scanner_has_parser_error s \<longrightarrow> scanner_has_parser_error s') \<and>
     text_of (source_stream s') = text_of (source_stream s) \<and> same_dialect s s' \<and> flags s' = flags s"

lemma window_facts:
  assumes "window_inv s"
  shows "scanner_inv s" "tokens_ok UNIV s" "peek s \<noteq> Token_UNINITIALIZED" "saw_non_comment_token s"
    "distinct [current_slot s, next_slot s, next_next_slot s]"
  using assms by (auto simp: window_inv_def scanner_inv_def)

lemma delivers_scanning:
  assumes "window_inv s" and "desc_token (next_next_desc s) = Token_UNINITIALIZED" and "Next U s = (t, s')"
  shows "delivers s t s'"
proof -
  define s1 where "s1 = set_after_line_terminator False
    (with_slots (next_slot s) (current_slot s) (next_next_slot s) s)"
  note i = window_facts [OF assms(1)]
  have s': "s' = Scan U s1" "t = current_token s'"
    using Next_scanning [OF assms(2), of U] assms(3) by (auto simp: s1_def Let_def)
  note k = token_step_keeps [OF Scan_token_step [of s1 U]]
  have i1: "scanner_inv s1" "tokens_ok UNIV s1"
    unfolding s1_def using i by (auto intro!: set_after_inv)
  have "distinct [current_slot s1, next_slot s1, next_next_slot s1]"
    using i(5) by (auto simp: s1_def set_after_line_terminator_def with_slots_def)
  then have w: "window_inv s'" unfolding s'(1) by (rule window_Scan [OF i1(1) tokens_ok_mono [OF i1(2)]])
  have c1: "current_desc s1 = next_desc s" "current_slot s1 \<noteq> next_slot s1"
    "saw_non_comment_token s1" "source_stream s1 = source_stream s" "source_dialect s1 = source_dialect s"
    "found_source_dialect_comment s1 = found_source_dialect_comment s" "flags s1 = flags s"
    using i(4,5) by (auto simp: s1_def set_after_line_terminator_def with_slots_def current_desc_def
        next_desc_def update_next_def)
  have "\<not> scanner_has_parser_error s' \<Longrightarrow> current_desc s' = next_desc s"
    using k(10) [of "current_slot s1"] c1(1,2) k(2) s'(1) by (simp add: current_desc_def)
  moreover have "desc_token (current_desc s') \<noteq> Token_UNINITIALIZED"
    using k(2) k(11) [of "current_slot s1"] c1(1,2) i(3) s'(1) by (simp add: current_desc_def peek_def)
  then have "scanner_has_parser_error s' \<Longrightarrow> t = Token_ILLEGAL"
    using w s'(2) by (auto simp: window_inv_def tokens_ok_def current_token_def current_desc_def)
  ultimately show ?thesis
    using w s' k(1) k(7) [OF i1(1)] k(8,9) c1
    by (auto simp: delivers_def current_token_def peek_def same_dialect_def scanner_has_parser_error_def)
qed

lemma delivers_peeked:
  assumes "window_inv s" and "desc_token (next_next_desc s) \<noteq> Token_UNINITIALIZED" and "Next U s = (t, s')"
  shows "delivers s t s' \<and> peek s' = desc_token (next_next_desc s) \<and> next_desc s' = next_next_desc s \<and>
    current_desc s' = next_desc s"
proof -
  define s1 where "s1 = with_slots (next_slot s) (next_next_slot s) (current_slot s) s"
  note i = window_facts [OF assms(1)]
  have s': "s' = forget_token (current_slot s) s1" "t = current_token s'"
    using Next_peeked [OF assms(2), of U] assms(3) by (auto simp: s1_def Let_def)
  have "scanner_inv s1" unfolding s1_def using i(1) by simp
  then have "scanner_inv s'" unfolding s'(1) by (rule forget_token_inv)
  moreover have n: "next_desc s' = next_next_desc s" "current_desc s' = next_desc s"
    using i(5) by (auto simp: s' s1_def with_slots_def forget_token_def next_desc_def next_next_desc_def
        current_desc_def)
  moreover have "distinct [current_slot s', next_slot s', next_next_slot s']"
    using i(5) by (auto simp: s' s1_def with_slots_def forget_token_def)
  moreover have "tokens_ok UNIV s'" "saw_non_comment_token s'" "source_stream s' = source_stream s"
    "same_dialect s s'" "flags s' = flags s"
    using i(2,4) by (auto simp: s' s1_def with_slots_def forget_token_def tokens_ok_def same_dialect_def
        scanner_has_parser_error_def)
  moreover have "scanner_has_parser_error s \<Longrightarrow> peek s = Token_ILLEGAL"
    using i(2,3) by (auto simp: tokens_ok_def peek_def next_desc_def)
  ultimately show ?thesis
    using assms(2) s'(2)
    by (simp add: delivers_def window_inv_def peek_def current_token_def scanner_has_parser_error_def)
qed

lemma delivers_Next: "window_inv s \<Longrightarrow> Next U s = (t, s') \<Longrightarrow> delivers s t s'"
  using delivers_scanning delivers_peeked by blast

section \<open>Looking ahead\<close>

lemma PeekAhead_scanning:
  assumes "desc_token (next_next_desc s) = Token_UNINITIALIZED"
  shows "PeekAhead U s = (let s2 = Scan U (set_after_line_terminator False
      (with_slots (current_slot s) (next_next_slot s) (next_next_slot s) s));
      s' = with_slots (current_slot s2) (next_slot s) (next_slot s2) s2
    in (desc_token (next_next_desc s'), s'))"
  using assms by (simp add: PeekAhead_def with_slots_def next_next_desc_def Let_def)

text \<open>Looking ahead fills the third descriptor and leaves the other two alone.\<close>

definition peeks :: "Scanner \<Rightarrow> token \<Rightarrow> Scanner \<Rightarrow> bool" where
  "peeks s t s' \<longleftrightarrow> window_inv s' \<and> t = desc_token (next_next_desc s') \<and> t \<noteq> Token_UNINITIALIZED \<and>
     (\<not> scanner_has_parser_error s' \<longrightarrow> current_desc s' = current_desc s \<and> next_desc s' = next_desc s) \<and>
     (scanner_has_parser_error s \<longrightarrow> scanner_has_parser_error s') \<and>
     text_of (source_stream s') = text_of (source_stream s) \<and> same_dialect s s' \<and> flags s' = flags s"

lemma peeks_scanning:
  assumes "window_inv s" and "desc_token (next_next_desc s) = Token_UNINITIALIZED"
    and "PeekAhead U s = (t, s')"
  shows "peeks s t s'"
proof -
  define s1 where "s1 = set_after_line_terminator False
    (with_slots (current_slot s) (next_next_slot s) (next_next_slot s) s)"
  define s2 where "s2 = Scan U s1"
  note i = window_facts [OF assms(1)]
  note k = token_step_keeps [OF Scan_token_step [of s1 U], folded s2_def]
  have s1: "current_slot s1 = current_slot s" "next_slot s1 = next_next_slot s" "flags s1 = flags s"
    "source_stream s1 = source_stream s" "saw_non_comment_token s1" "same_dialect s s1"
    "\<And>j. j \<noteq> next_next_slot s \<Longrightarrow> token_storage s1 j = token_storage s j"
    using i(4) by (auto simp: s1_def set_after_line_terminator_def with_slots_def same_dialect_def
        update_next_def next_desc_def)
  have s': "s' = with_slots (current_slot s) (next_slot s) (next_next_slot s) s2" "t = desc_token (next_next_desc s')"
    using PeekAhead_scanning [OF assms(2), of U] assms(3) k(2,3) s1(1,2) by (auto simp: s1_def s2_def Let_def)
  have i1: "scanner_inv s1" "tokens_ok UNIV s1"
    unfolding s1_def using i by (auto intro!: set_after_inv)
  have t: "t = peek s2" using s' k(3) s1(2) by (simp add: peek_def next_desc_def next_next_desc_def with_slots_def)
  have u: "desc_token (token_storage s2 (next_slot s)) \<noteq> Token_UNINITIALIZED"
    using k(11) [of "next_slot s"] s1(2,7) i(3,5) by (auto simp: peek_def next_desc_def)
  have "window_inv s'"
    using k(5) k(6) [OF i1(1)] tokens_Scan [OF i1(1) tokens_ok_mono [OF i1(2)], of U, folded s2_def] i(5) u
    by (simp add: window_inv_def s'(1)) (simp add: with_slots_def peek_def next_desc_def)
  moreover have "\<not> scanner_has_parser_error s' \<Longrightarrow> current_desc s' = current_desc s \<and> next_desc s' = next_desc s"
    using k(10) [of "current_slot s"] k(10) [of "next_slot s"] s1(2,7) i(5)
    by (auto simp: s' with_slots_def current_desc_def next_desc_def scanner_has_parser_error_def)
  ultimately show ?thesis
    using t s'(2) peek_Scan(2) [OF i1(1), of U, folded s2_def] k(1) k(7) [OF i1(1)] k(8,9) s1(3-6)
    by (auto simp: peeks_def s'(1) with_slots_def same_dialect_def scanner_has_parser_error_def)
qed

lemma peeks_PeekAhead:
  assumes "window_inv s" and "PeekAhead U s = (t, s')"
  shows "peeks s t s'"
proof (cases "desc_token (next_next_desc s) = Token_UNINITIALIZED")
  case True
  then show ?thesis by (rule peeks_scanning [OF assms(1) _ assms(2)])
next
  case False
  with assms show ?thesis by (auto simp: PeekAhead_def peeks_def same_dialect_def)
qed

section \<open>Regular expressions and template continuations\<close>

lemma peek_simps [simp]:
  "peek (Advance s) = peek s" "peek (AddLiteralChar c s) = peek s" "peek (Start_literal s) = peek s"
  "peek (AddLiteralCharAdvance s) = peek s"
  by (simp_all add: peek_def AddLiteralChar_def Start_literal_def AddLiteralCharAdvance_def)

lemma peek_ScanRegExpPattern_loop: "ScanRegExpPattern_loop b s = (r, s') \<Longrightarrow> peek s' = peek s"
proof (induction b s rule: ScanRegExpPattern_loop.induct)
  case (1 b s)
  then show ?case
    by (auto simp: ScanRegExpPattern_loop.simps [of b s] Let_def split: if_splits)
qed

lemma peek_ScanRegExpFlags_loop: "ScanRegExpFlags_loop U v f s = (r, s') \<Longrightarrow> peek s' = peek s"
proof (induction U v f s rule: ScanRegExpFlags_loop.induct)
  case (1 U v f s)
  then show ?case
    by (auto simp: ScanRegExpFlags_loop.simps [of U v f s] split: if_splits option.splits)
qed

lemma window_lex:
  assumes "window_inv s" and "lex_step s s'" and "peek s \<noteq> Token_ILLEGAL"
    and "content_token (peek s')"
  shows "window_inv s' \<and> \<not> scanner_has_parser_error s' \<and>
    text_of (source_stream s') = text_of (source_stream s) \<and> same_dialect s s' \<and> flags s' = flags s"
proof -
  note i = window_facts [OF assms(1)]
  have e: "\<not> scanner_has_parser_error s" using i(2,3) assms(3) by (auto simp: tokens_ok_def peek_def next_desc_def)
  have l: "scan_step s s'" by (rule lex_scan_step [OF assms(2)])
  have "\<not> scanner_has_parser_error s'" using lex_step_error [OF assms(2)] e by simp
  moreover from this l i(2) assms(4) have "tokens_ok UNIV s'"
    unfolding tokens_ok_def scan_step_def peek_def content_token_def next_desc_def by (metis UNIV_I)
  ultimately show ?thesis
    using l i assms by (auto simp: window_inv_def scan_step_def content_token_def)
qed

lemma window_RegExpPattern:
  assumes "window_inv s" and "ScanRegExpPattern s = (ok, s')" and "peek s = Token_DIV \<or> peek s = Token_ASSIGN_DIV"
  shows "lex_step s s'" "content_token (peek s')" "ok \<Longrightarrow> peek s' = Token_REGEXP_LITERAL"
proof -
  show "lex_step s s'" by (rule lex_ScanRegExpPattern [OF assms(2) lex_step_refl])
  have "(if ok then peek s' = Token_REGEXP_LITERAL else peek s' = peek s)"
    using assms(2) peek_ScanRegExpPattern_loop
    by (auto simp: ScanRegExpPattern_def Let_def peek_def split: prod.splits if_splits) (metis peek_def peek_simps(2,3))+
  then show "content_token (peek s')" "ok \<Longrightarrow> peek s' = Token_REGEXP_LITERAL"
    using assms(3) by (auto simp: content_token_def split: if_splits)
qed

lemma window_RegExpFlags:
  assumes "ScanRegExpFlags U v s = (r, s')" and "peek s = Token_REGEXP_LITERAL"
  shows "lex_step s s'" "peek s' = Token_REGEXP_LITERAL"
proof -
  show "lex_step s s'" by (rule lex_ScanRegExpFlags [OF assms(1) lex_step_refl])
  obtain r1 s1 where l: "ScanRegExpFlags_loop U v 0 (Start_literal s) = (r1, s1)" by fastforce
  from peek_ScanRegExpFlags_loop [OF l] assms l show "peek s' = Token_REGEXP_LITERAL"
    by (auto simp: ScanRegExpFlags_def peek_def split: option.splits) (simp_all add: Start_literal_def)
qed

lemma window_Template:
  assumes "ScanTemplateContinuation s = (t, s')"
  shows "lex_step s s'" "peek s' = t" "t = Token_TEMPLATE_SPAN \<or> t = Token_TEMPLATE_TAIL"
  using assms lex_ScanTemplateSpan [OF _ lex_step_refl] ScanTemplateSpan_loop_tokens
  by (auto simp: ScanTemplateContinuation_def ScanTemplateSpan_def Let_def peek_def next_desc_def update_next_def
      split: prod.splits)

section \<open>Seeking and bookmarks\<close>

text \<open>What a seek needs: everything but the look-ahead character, which it reads anew.\<close>

definition seekable :: "Scanner \<Rightarrow> bool" where
  "seekable s \<longleftrightarrow> (\<forall>k. desc_inv (token_storage s k)) \<and> literal_inv (source_url s) \<and>
     literal_inv (source_mapping_url s) \<and> literal_inv (source_dialect_name s) \<and>
     stream_inv (source_stream s) \<and> \<not> scanner_has_parser_error s \<and> dialect_inv s"

definition seek_to :: "nat \<Rightarrow> Scanner \<Rightarrow> Scanner" where
  "seek_to p s = set_after_line_terminator False
     (Advance (s \<lparr> source_stream := stream_Seek (source_stream s) p \<rparr>))"

lemma cursor_Seek:
  assumes "stream_inv st" and "\<not> has_parser_error st"
  shows "cursor_in_buffer (stream_Seek st p)"
proof (cases "buffer_pos st \<le> p \<and> p < buffer_pos st + length (buffer st)")
  case True
  then show ?thesis by (auto simp: stream_Seek_def cursor_in_buffer_def)
next
  case False
  obtain ok st' where r: "ReadBlockChecked st p = (ok, st')" by fastforce
  from ReadBlock_abs [OF assms r] False show ?thesis
    unfolding stream_Seek_def by (auto simp: r cursor_in_buffer_def)
qed

lemma seek_to_spec:
  assumes "seekable s"
  shows "scanner_inv (seek_to p s) \<and> \<not> scanner_has_parser_error (seek_to p s) \<and>
    text_of (source_stream (seek_to p s)) = text_of (source_stream s) \<and>
    pos (source_stream (seek_to p s)) = Suc p"
proof -
  let ?st = "stream_Seek (source_stream s) p"
  obtain c st' where a: "stream_Advance ?st = (c, st')" by fastforce
  have i: "stream_inv (source_stream s)" "\<not> has_parser_error (source_stream s)"
    using assms by (simp_all add: seekable_def scanner_has_parser_error_def)
  note k = stream_Seek_abs [OF i, of p]
  note A = stream_Advance_abs [OF _ _ a] cursor_Advance [OF _ _ cursor_Seek [OF i] a]
  have "scanner_inv (s \<lparr> c0 := c, source_stream := st' \<rparr>)"
    using assms k A by (simp add: seekable_def scanner_inv_def dialect_inv_def cursor_inv_def scanner_has_parser_error_def)
  with k A a show ?thesis
    by (simp add: seek_to_def Advance_def set_after_inv scanner_has_parser_error_def)
qed

lemma seek_to_simps [simp]:
  "next_slot (seek_to p s) = next_slot s" "current_slot (seek_to p s) = current_slot s"
  "next_next_slot (seek_to p s) = next_next_slot s" "flags (seek_to p s) = flags s"
  "saw_non_comment_token (seek_to p s) = saw_non_comment_token s"
  "source_dialect (seek_to p s) = source_dialect s"
  "found_source_dialect_comment (seek_to p s) = found_source_dialect_comment s"
  "desc_token (token_storage (seek_to p s) k) = desc_token (token_storage s k)"
  by (auto simp: seek_to_def set_after_line_terminator_def Advance_def update_next_def next_desc_def
      split: prod.splits)

lemma SeekForward_eq:
  "SeekForward U p s = (if p = beg_pos (location (next_desc s)) then s
     else Scan U (if p \<noteq> source_pos s then seek_to (unat (word_of_int p :: 64 word)) s else s))"
  by (simp add: SeekForward_def seek_to_def Let_def)

lemma seekable_inv: "scanner_inv s \<Longrightarrow> \<not> scanner_has_parser_error s \<Longrightarrow> seekable s"
  by (simp add: scanner_inv_def seekable_def)

text \<open>What every operation of the parser keeps.\<close>

definition keeps_source :: "Scanner \<Rightarrow> Scanner \<Rightarrow> bool" where
  "keeps_source s s' \<longleftrightarrow> window_inv s' \<and> text_of (source_stream s') = text_of (source_stream s) \<and>
     same_dialect s s' \<and> flags s' = flags s"

lemma keeps_Scan:
  assumes "scanner_inv s" and "tokens_ok (- {next_slot s}) s" and "saw_non_comment_token s"
    and "distinct [current_slot s, next_slot s, next_next_slot s]"
  shows "keeps_source s (Scan U s)"
  using token_step_keeps [OF Scan_token_step [of s U]] assms window_Scan [OF assms(1,2,4)]
  by (simp add: keeps_source_def)

lemma keeps_SeekForward:
  assumes "window_inv s" and "\<not> scanner_has_parser_error s"
  shows "keeps_source s (SeekForward U p s)"
proof -
  note i = window_facts [OF assms(1)]
  define s1 where "s1 = (if p \<noteq> source_pos s then seek_to (unat (word_of_int p :: 64 word)) s else s)"
  have "scanner_inv s1 \<and> text_of (source_stream s1) = text_of (source_stream s) \<and> \<not> scanner_has_parser_error s1"
    using seek_to_spec [OF seekable_inv [OF i(1) assms(2)]] i(1) assms(2) by (simp add: s1_def)
  moreover have "tokens_ok UNIV s1 = tokens_ok UNIV s"
    using calculation assms(2) by (auto simp: tokens_ok_def s1_def)
  moreover have "saw_non_comment_token s1" "same_dialect s s1" "flags s1 = flags s"
    "distinct [current_slot s1, next_slot s1, next_next_slot s1]"
    using i(4,5) by (auto simp: s1_def same_dialect_def)
  ultimately have "keeps_source s (Scan U s1)"
    using keeps_Scan [of s1 U] tokens_ok_mono [of s1] i(2) by (simp add: keeps_source_def same_dialect_def)
  with assms(1) show ?thesis by (simp add: SeekForward_eq s1_def keeps_source_def same_dialect_def)
qed

definition reset_tokens :: "Scanner \<Rightarrow> Scanner" where
  "reset_tokens s = s \<lparr> token_storage := (\<lambda>k. (token_storage s k) \<lparr> desc_token := Token_UNINITIALIZED,
     invalid_template_escape_message := kNone \<rparr>) \<rparr>"

lemma SeekNext_eq: "SeekNext U p s = Scan U (seek_to p (reset_tokens s))"
  by (simp add: SeekNext_def seek_to_def reset_tokens_def Let_def)

lemma keeps_SeekNext:
  assumes "seekable s" and "saw_non_comment_token s"
    and "distinct [current_slot s, next_slot s, next_next_slot s]"
  shows "keeps_source s (SeekNext U p s)"
proof -
  let ?r = "reset_tokens s"
  have "seekable ?r"
    using assms(1) by (simp add: reset_tokens_def seekable_def desc_inv_def dialect_inv_def scanner_has_parser_error_def)
  note k = seek_to_spec [OF this, of p]
  have r: "saw_non_comment_token ?r" "same_dialect s ?r" "flags ?r = flags s" "source_stream ?r = source_stream s"
    "current_slot ?r = current_slot s" "next_slot ?r = next_slot s" "next_next_slot ?r = next_next_slot s"
    "\<And>k. desc_token (token_storage ?r k) = Token_UNINITIALIZED"
    using assms(2) by (simp_all add: reset_tokens_def same_dialect_def)
  then have "keeps_source (seek_to p ?r) (Scan U (seek_to p ?r))"
    using k assms(3) by (intro keeps_Scan) (simp_all add: tokens_ok_def)
  with k r show ?thesis by (simp add: SeekNext_eq keeps_source_def same_dialect_def)
qed

lemma keeps_set_parser_error:
  assumes "window_inv s"
  shows "keeps_source s (set_parser_error s)"
proof -
  note i = window_facts [OF assms]
  have k: "scan_step s (set_parser_error s)" by (rule scan_set_parser_error)
  have "tokens_ok UNIV (set_parser_error s)" "peek (set_parser_error s) \<noteq> Token_UNINITIALIZED"
    using i(2,3) by (auto simp: tokens_ok_def set_parser_error_def peek_def next_desc_def Let_def)
  moreover have "same_dialect s (set_parser_error s)" by (simp add: set_parser_error_def same_dialect_def)
  ultimately show ?thesis using k i by (simp add: keeps_source_def window_inv_def scan_step_def)
qed

lemma keeps_Apply:
  assumes "window_inv s" and "BookmarkScope_Apply U b s = (b', s')"
  shows "keeps_source s s'"
proof (cases "had_parser_error b")
  case True
  with assms keeps_set_parser_error [OF assms(1)] show ?thesis by (auto simp: BookmarkScope_Apply_def)
next
  case False
  let ?r = "reset_parser_error_flag s"
  note i = window_facts [OF assms(1)]
  have r: "seekable ?r" "saw_non_comment_token ?r" "same_dialect s ?r" "flags ?r = flags s"
    "text_of (source_stream ?r) = text_of (source_stream s)"
    "distinct [current_slot ?r, next_slot ?r, next_next_slot ?r]"
    using i by (auto simp: reset_parser_error_flag_def stream_reset_parser_error_flag_def seekable_def scanner_inv_def
        scanner_has_parser_error_def dialect_inv_def same_dialect_def stream_inv_def text_of_def)
  from keeps_SeekNext [OF r(1,2,6)] r assms(2) False show ?thesis
    by (auto simp: BookmarkScope_Apply_def keeps_source_def same_dialect_def)
qed

section \<open>The states the parser can reach\<close>

text \<open>
  The calls the parser makes on a scanner. The guards are the conditions the code
  checks in debug mode; a seek is only made while there is no error (the parser seeks
  to the end of a function it has parsed before).
\<close>

inductive parser_step :: "icu \<Rightarrow> V8Flags \<Rightarrow> Scanner \<Rightarrow> Scanner \<Rightarrow> bool" for U v where
  step_Next: "Next U s = (t, s') \<Longrightarrow> parser_step U v s s'"
| step_PeekAhead: "PeekAhead U s = (t, s') \<Longrightarrow> parser_step U v s s'"
| step_RegExpPattern: "peek s = Token_DIV \<or> peek s = Token_ASSIGN_DIV \<Longrightarrow>
    ScanRegExpPattern s = (ok, s') \<Longrightarrow> parser_step U v s s'"
| step_RegExpFlags: "peek s = Token_REGEXP_LITERAL \<Longrightarrow> ScanRegExpFlags U v s = (r, s') \<Longrightarrow>
    parser_step U v s s'"
| step_Template: "peek s = Token_RBRACE \<Longrightarrow> ScanTemplateContinuation s = (t, s') \<Longrightarrow>
    parser_step U v s s'"
| step_SeekForward: "\<not> scanner_has_parser_error s \<Longrightarrow> parser_step U v s (SeekForward U p s)"
| step_Apply: "BookmarkScope_Apply U b s = (b', s') \<Longrightarrow> parser_step U v s s'"
| step_set_parser_error: "parser_step U v s (set_parser_error s)"
| step_clear_octal: "parser_step U v s (clear_octal_position s)"
| step_clear_escape: "parser_step U v s (clear_invalid_template_escape_message s)"

inductive_cases parser_stepE: "parser_step U v s s'"

inductive reachable :: "icu \<Rightarrow> V8Flags \<Rightarrow> Scanner \<Rightarrow> Scanner \<Rightarrow> bool" for U v s0 where
  reachable_init: "reachable U v s0 s0"
| reachable_step: "reachable U v s0 s \<Longrightarrow> parser_step U v s s' \<Longrightarrow> reachable U v s0 s'"

lemma keeps_clear:
  assumes "window_inv s"
  shows "keeps_source s (clear_octal_position s)" "keeps_source s (clear_invalid_template_escape_message s)"
  using assms
  by (auto simp: keeps_source_def same_dialect_def window_inv_def tokens_ok_def scanner_inv_def dialect_inv_def
      desc_inv_def cursor_inv_def error_stuck_def scanner_has_parser_error_def peek_def next_desc_def
      current_desc_def clear_octal_position_def clear_invalid_template_escape_message_def)

lemma keeps_window_lex:
  "window_inv s \<Longrightarrow> lex_step s s' \<Longrightarrow> peek s \<noteq> Token_ILLEGAL \<Longrightarrow> content_token (peek s') \<Longrightarrow> keeps_source s s'"
  using window_lex by (simp add: keeps_source_def)

lemma parser_step_keeps:
  assumes "parser_step U v s s'" and "window_inv s"
  shows "keeps_source s s'"
  using assms(1)
proof cases
  case (step_Next t)
  then show ?thesis using delivers_Next [OF assms(2)] by (auto simp: delivers_def keeps_source_def)
next
  case (step_PeekAhead t)
  then show ?thesis using peeks_PeekAhead [OF assms(2)] by (auto simp: peeks_def keeps_source_def)
next
  case (step_RegExpPattern ok)
  with window_RegExpPattern [OF assms(2)] assms(2) show ?thesis by (auto intro!: keeps_window_lex)
next
  case (step_RegExpFlags r)
  with window_RegExpFlags assms(2) show ?thesis
    by (auto intro!: keeps_window_lex simp: content_token_def)
next
  case (step_Template t)
  with window_Template [OF step_Template(2)] assms(2) show ?thesis
    by (auto intro!: keeps_window_lex)
next
  case (step_SeekForward p)
  then show ?thesis using keeps_SeekForward [OF assms(2)] by simp
next
  case (step_Apply b b')
  then show ?thesis using keeps_Apply [OF assms(2)] by blast
qed (use assms(2) keeps_set_parser_error keeps_clear in auto)

lemma reachable_keeps:
  assumes "reachable U v s0 s" and "window_inv s0"
  shows "keeps_source s0 s"
  using assms(1)
proof induction
  case reachable_init
  then show ?case using assms(2) by (simp add: keeps_source_def same_dialect_def)
next
  case (reachable_step s s')
  then show ?case
    using parser_step_keeps [of U v s s'] by (auto simp: keeps_source_def same_dialect_def)
qed

text \<open>A stream as the factory functions make it.\<close>

definition fresh_stream :: "Utf16CharacterStream \<Rightarrow> bool" where
  "fresh_stream st \<longleftrightarrow> stream_inv st \<and> \<not> has_parser_error st \<and> cursor_in_buffer st"

lemma fresh_streams:
  "js_string_ok data \<Longrightarrow> e \<le> length (string_units data) \<Longrightarrow> fresh_stream (ScannerStream_For data p e)"
  "fresh_stream (ScannerStream_ForTesting bs)" "fresh_stream (ScannerStream_ForUnits src)"
  using testing_stream ScannerStream_For_abs [of data e p] streamed_abs [of src] by (simp_all add: fresh_stream_def)

lemma Initialize_window:
  assumes "fresh_stream st"
  shows "window_inv (Initialize U (new_Scanner st fl))"
    "text_of (source_stream (Initialize U (new_Scanner st fl))) = text_of st"
    "flags (Initialize U (new_Scanner st fl)) = fl"
proof -
  let ?i = "Init (new_Scanner st fl)"
  let ?s = "set_after_line_terminator True ?i"
  have i: "scanner_inv ?i" "text_of (source_stream ?i) = text_of st"
    using Init_new_Scanner [of st fl] assms by (auto simp: fresh_stream_def)
  have "scanner_inv ?s" by (rule set_after_inv [OF i(1)])
  moreover have "flags ?i = fl" "distinct [current_slot ?s, next_slot ?s, next_next_slot ?s]" "tokens_ok UNIV ?i"
    by (simp_all add: Init_def new_Scanner_def Let_def set_after_line_terminator_def tokens_ok_def TokenDesc_init_def
        Advance_def split: prod.splits)
  ultimately show "window_inv (Initialize U (new_Scanner st fl))"
    "text_of (source_stream (Initialize U (new_Scanner st fl))) = text_of st"
    "flags (Initialize U (new_Scanner st fl)) = fl"
    using token_step_keeps [OF Scan_token_step [of ?s U]] window_Scan [of ?s U] tokens_ok_mono [of ?i] i(2)
    by (simp_all add: Initialize_def) (simp add: set_after_line_terminator_def)
qed

lemma Initialize_next_next: "desc_token (next_next_desc (Initialize U (new_Scanner st fl))) = Token_UNINITIALIZED"
proof -
  let ?s = "set_after_line_terminator True (Init (new_Scanner st fl))"
  have "next_next_slot ?s \<noteq> next_slot ?s" "desc_token (token_storage ?s (next_next_slot ?s)) = Token_UNINITIALIZED"
    by (simp_all add: Init_def new_Scanner_def Let_def set_after_line_terminator_def TokenDesc_init_def Advance_def
        split: prod.splits)
  with token_step_keeps(4,11) [OF Scan_token_step [of ?s U]] show ?thesis
    by (simp add: Initialize_def next_next_desc_def)
qed

section \<open>Properties of the scanner's runs\<close>

text \<open>C20. Whatever sequence of calls the parser makes after \<^verbatim>\<open>Initialize\<close>, the scanner stays
  well formed: its three descriptors are distinct, its literal buffers and its stream
  are consistent, \<^verbatim>\<open>c0_\<close> is the character of the text in front of the cursor, a next token
  has been scanned, and the text and the compile flags are those it was created with.\<close>

theorem reachable_window_inv:
  assumes "fresh_stream st" and "reachable U v (Initialize U (new_Scanner st fl)) s"
  shows "distinct [current_slot s, next_slot s, next_next_slot s] \<and> scanner_inv s \<and>
    peek s \<noteq> Token_UNINITIALIZED \<and> peek s \<noteq> Token_WHITESPACE \<and>
    (\<not> scanner_has_parser_error s \<longrightarrow> looks_at (c0 s) (source_stream s)) \<and>
    text_of (source_stream s) = text_of st \<and> flags s = fl"
proof -
  have "keeps_source (Initialize U (new_Scanner st fl)) s"
    by (rule reachable_keeps [OF assms(2) Initialize_window(1) [OF assms(1)]])
  then have "window_inv s" "text_of (source_stream s) = text_of st" "flags s = fl"
    using Initialize_window [OF assms(1)] by (simp_all add: keeps_source_def)
  then show ?thesis by (auto simp: window_inv_def scanner_inv_def cursor_inv_def tokens_ok_def peek_def next_desc_def)
qed

theorem reachable_window_inv_witness:
  "peek (snd (Next latin1_icu (Initialize latin1_icu (new_Scanner (ScannerStream_ForTesting (ascii ''si''))
     \<lparr> is_module = False, flag_source_dialect = kJsSpa \<rparr>)))) \<noteq> Token_UNINITIALIZED"
proof -
  let ?i = "Initialize latin1_icu (new_Scanner (ScannerStream_ForTesting (ascii ''si''))
     \<lparr> is_module = False, flag_source_dialect = kJsSpa \<rparr>)"
  have "reachable latin1_icu v ?i (snd (Next latin1_icu ?i))" for v
    by (rule reachable_step [OF reachable_init step_Next]) (rule prod.collapse [symmetric])
  from reachable_window_inv [OF fresh_streams(2) this] show ?thesis by blast
qed

lemma Internalize_units: "LiteralBuffer_Internalize b = literal_units b"
  by (simp add: LiteralBuffer_Internalize_def literal_units_def)

text \<open>C21. The dialect is settled when the scanner has been initialized: no later call
  changes it, the flag dialect is in force unless a comment selected another one, and
  \<^verbatim>\<open>SourceDialectString\<close>, which is stored with the script, is the name of the dialect in
  force.\<close>

theorem dialect_settled:
  assumes "fresh_stream st" and "reachable U v (Initialize U (new_Scanner st fl)) s"
  shows "source_dialect s = source_dialect (Initialize U (new_Scanner st fl)) \<and>
    (\<not> found_source_dialect_comment s \<longrightarrow> source_dialect s = flag_source_dialect fl) \<and>
    SourceDialectString s = map ucast (SourceDialectName (source_dialect s))"
proof -
  have k: "keeps_source (Initialize U (new_Scanner st fl)) s"
    by (rule reachable_keeps [OF assms(2) Initialize_window(1) [OF assms(1)]])
  then have "scanner_inv s" "flags s = fl"
    using Initialize_window [OF assms(1)] by (simp_all add: keeps_source_def window_inv_def)
  with k show ?thesis
    using Internalize_units LiteralBuffer_length_units [of "source_dialect_name s"]
    by (auto simp: keeps_source_def same_dialect_def scanner_inv_def dialect_inv_def SourceDialectString_def)
qed

theorem dialect_settled_witness:
  "SourceDialectString (Initialize latin1_icu (new_Scanner (ScannerStream_ForTesting (ascii ''si''))
     \<lparr> is_module = False, flag_source_dialect = kJsSpa \<rparr>)) =
   map ucast (SourceDialectName (source_dialect (Initialize latin1_icu
     (new_Scanner (ScannerStream_ForTesting (ascii ''si'')) \<lparr> is_module = False, flag_source_dialect = kJsSpa \<rparr>))))"
  using dialect_settled [OF fresh_streams(2) reachable_init] by blast

lemma window_peek_error: "window_inv s \<Longrightarrow> scanner_has_parser_error s \<Longrightarrow> peek s = Token_ILLEGAL"
  by (auto simp: window_inv_def tokens_ok_def peek_def next_desc_def)

text \<open>C22. After a parser error every token the parser can see is illegal, and it stays so:
  the next token and a token looked ahead to are \<^verbatim>\<open>ILLEGAL\<close>, \<^verbatim>\<open>Next\<close> returns \<^verbatim>\<open>ILLEGAL\<close> and
  the error remains. An error that a call raises itself shows in its own result.\<close>

theorem illegal_after_error:
  assumes "fresh_stream st" and "reachable U v (Initialize U (new_Scanner st fl)) s"
    and "Next U s = (t, s')" and "PeekAhead U s = (ta, sa)"
  shows "(scanner_has_parser_error s \<longrightarrow> peek s = Token_ILLEGAL \<and> scanner_has_parser_error s' \<and>
       scanner_has_parser_error sa) \<and>
    (scanner_has_parser_error s' \<longrightarrow> t = Token_ILLEGAL \<and> peek s' = Token_ILLEGAL) \<and>
    (scanner_has_parser_error sa \<longrightarrow> ta = Token_ILLEGAL)"
proof -
  have w: "window_inv s"
    using reachable_keeps [OF assms(2) Initialize_window(1) [OF assms(1)]] by (simp add: keeps_source_def)
  note n = delivers_Next [OF w assms(3), unfolded delivers_def]
  note a = peeks_PeekAhead [OF w assms(4), unfolded peeks_def]
  then have "ta \<noteq> Token_UNINITIALIZED" "ta = desc_token (next_next_desc sa)" "tokens_ok UNIV sa"
    unfolding window_inv_def by blast+
  then have "scanner_has_parser_error sa \<Longrightarrow> ta = Token_ILLEGAL"
    by (auto simp: tokens_ok_def next_next_desc_def)
  with n a window_peek_error [OF w] window_peek_error [of s'] show ?thesis by simp
qed

theorem illegal_after_error_witness:
  "fst (Next latin1_icu (set_parser_error (Initialize latin1_icu (new_Scanner (ScannerStream_ForTesting (ascii ''si''))
     \<lparr> is_module = False, flag_source_dialect = kJsSpa \<rparr>)))) = Token_ILLEGAL"
proof -
  let ?i = "Initialize latin1_icu (new_Scanner (ScannerStream_ForTesting (ascii ''si''))
     \<lparr> is_module = False, flag_source_dialect = kJsSpa \<rparr>)"
  let ?s = "set_parser_error ?i"
  have r: "reachable latin1_icu v ?i ?s" for v by (rule reachable_step [OF reachable_init step_set_parser_error])
  have "scanner_has_parser_error ?s"
    by (simp add: set_parser_error_def scanner_has_parser_error_def stream_set_parser_error_def)
  with illegal_after_error [OF fresh_streams(2) r prod.collapse [symmetric] prod.collapse [symmetric]]
  show ?thesis by blast
qed

text \<open>C23. The window delivers the tokens in order: \<^verbatim>\<open>Next\<close> returns the token that was next,
  with its descriptor; looking ahead changes neither the current nor the next token,
  and the token looked ahead to is delivered by the second \<^verbatim>\<open>Next\<close>. A scan that raises a
  parser error replaces the token by \<^verbatim>\<open>ILLEGAL\<close>.\<close>

theorem window_in_order:
  assumes "fresh_stream st" and "reachable U v (Initialize U (new_Scanner st fl)) s"
    and "PeekAhead U s = (t, s1)" and "Next U s1 = (t1, s2)" and "Next U s2 = (t2, s3)"
  shows "(scanner_has_parser_error s1 \<or> next_desc s1 = next_desc s \<and> current_desc s1 = current_desc s) \<and>
    t1 = (if scanner_has_parser_error s1 then Token_ILLEGAL else peek s) \<and>
    current_desc s2 = next_desc s1 \<and> next_desc s2 = next_next_desc s1 \<and> peek s2 = t \<and>
    t2 = (if scanner_has_parser_error s3 then Token_ILLEGAL else t)"
proof -
  have w: "window_inv s"
    using reachable_keeps [OF assms(2) Initialize_window(1) [OF assms(1)]] by (simp add: keeps_source_def)
  note p = peeks_PeekAhead [OF w assms(3), unfolded peeks_def]
  then have w1: "window_inv s1" "desc_token (next_next_desc s1) \<noteq> Token_UNINITIALIZED" by auto
  have "source_stream s2 = source_stream s1"
    using Next_peeked [OF w1(2), of U] assms(4) by (auto simp: Let_def forget_token_def with_slots_def)
  then have e: "scanner_has_parser_error s2 = scanner_has_parser_error s1"
    by (simp add: scanner_has_parser_error_def)
  note n1 = delivers_peeked [OF w1(1,2) assms(4)]
  then have w2: "window_inv s2" by (simp add: delivers_def)
  from p n1 delivers_Next [OF w2 assms(5)] e show ?thesis
    unfolding delivers_def peek_def by auto
qed

theorem window_in_order_witness:
  "peek (snd (Next latin1_icu (snd (PeekAhead latin1_icu (Initialize latin1_icu
     (new_Scanner (ScannerStream_ForTesting (ascii ''si (x)'')) \<lparr> is_module = False, flag_source_dialect = kJsSpa \<rparr>)))))) =
   fst (PeekAhead latin1_icu (Initialize latin1_icu
     (new_Scanner (ScannerStream_ForTesting (ascii ''si (x)'')) \<lparr> is_module = False, flag_source_dialect = kJsSpa \<rparr>)))"
  using window_in_order [OF fresh_streams(2) reachable_init prod.collapse [symmetric] prod.collapse [symmetric]
      prod.collapse [symmetric]] by blast

section \<open>Progress\<close>

text \<open>The tokens \<open>n\<close> calls of \<^verbatim>\<open>Next\<close> return.\<close>

primrec next_tokens :: "icu \<Rightarrow> nat \<Rightarrow> Scanner \<Rightarrow> token list" where
  "next_tokens U 0 s = []"
| "next_tokens U (Suc n) s = (case Next U s of (t, s') \<Rightarrow> t # next_tokens U n s')"

definition ending :: "token \<Rightarrow> bool" where
  "ending t \<longleftrightarrow> t = Token_EOS \<or> t = Token_ILLEGAL"

lemma Scan_progress:
  assumes "icu_start_continues U" and "\<not> ending (peek (Scan U s))"
  shows "input_left (Scan U s) < input_left s"
proof -
  obtain t s1 where t: "ScanSingleToken U (set_after_line_terminator False s) = (t, s1)" by fastforce
  have "t \<noteq> Token_ILLEGAL" "t \<noteq> Token_EOS" using assms(2) Scan_peek [OF t] by (auto simp: ending_def)
  from ScanSingleToken_progress [OF t assms(1) this] show ?thesis by (simp add: Scan_eq [OF t])
qed

text \<open>A call of \<^verbatim>\<open>Next\<close> that scans makes progress, and the next one scans again.\<close>

lemma Next_progress:
  assumes "window_inv s" and "desc_token (next_next_desc s) = Token_UNINITIALIZED"
    and "icu_start_continues U" and "Next U s = (t, s')"
  shows "desc_token (next_next_desc s') = Token_UNINITIALIZED" "ending (peek s') \<or> input_left s' < input_left s"
proof -
  define s1 where "s1 = set_after_line_terminator False
    (with_slots (next_slot s) (current_slot s) (next_next_slot s) s)"
  have s': "s' = Scan U s1" using Next_scanning [OF assms(2), of U] assms(4) by (auto simp: s1_def Let_def)
  note k = token_step_keeps [OF Scan_token_step [of s1 U]]
  have s1: "next_next_slot s1 = next_next_slot s" "next_slot s1 \<noteq> next_next_slot s"
    "token_storage s1 (next_next_slot s) = token_storage s (next_next_slot s)" "input_left s1 = input_left s"
    using window_facts(5) [OF assms(1)]
    by (auto simp: s1_def set_after_line_terminator_def with_slots_def update_next_def next_desc_def input_left_def)
  then show "desc_token (next_next_desc s') = Token_UNINITIALIZED"
    using k(4) k(11) [of "next_next_slot s"] assms(2) by (auto simp: s' next_next_desc_def)
  show "ending (peek s') \<or> input_left s' < input_left s"
    using Scan_progress [OF assms(3), of s1] s1(4) by (auto simp: s')
qed

lemma Next_ending: "window_inv s \<Longrightarrow> ending (peek s) \<Longrightarrow> Next U s = (t, s') \<Longrightarrow> ending t"
  using delivers_Next [of s U t s'] by (simp add: delivers_def ending_def)

lemma next_tokens_end:
  assumes "icu_start_continues U"
  shows "window_inv s \<Longrightarrow> desc_token (next_next_desc s) = Token_UNINITIALIZED \<Longrightarrow>
    input_left s < n \<or> ending (peek s) \<Longrightarrow> \<exists>t \<in> set (next_tokens U (Suc n) s). ending t"
proof (induction n arbitrary: s)
  case 0
  obtain t s' where "Next U s = (t, s')" by fastforce
  with 0 show ?case using Next_ending [of s U t s'] by simp
next
  case (Suc n)
  obtain t s' where t: "Next U s = (t, s')" by fastforce
  show ?case
  proof (cases "ending (peek s)")
    case True
    with Next_ending [OF Suc.prems(1) True t] t show ?thesis by simp
  next
    case False
    note p = Next_progress [OF Suc.prems(1,2) assms t]
    have "window_inv s'" using delivers_Next [OF Suc.prems(1) t] by (simp add: delivers_def)
    moreover have "input_left s' < n \<or> ending (peek s')" using False Suc.prems(3) p(2) by auto
    ultimately show ?thesis using Suc.IH [of s'] p(1) t by auto
  qed
qed

text \<open>C24. The scanner always reaches the end: from any reachable state in which no token
  has been looked ahead to, as many calls of \<^verbatim>\<open>Next\<close> as there are characters left, and two
  more, deliver the end of the source or an illegal token. (A non-ASCII character that
  starts an identifier continues one, as Unicode defines these classes.)\<close>

theorem scanner_reaches_end:
  assumes "icu_start_continues U" and "fresh_stream st"
    and "reachable U v (Initialize U (new_Scanner st fl)) s"
    and "desc_token (next_next_desc s) = Token_UNINITIALIZED"
  shows "\<exists>t \<in> set (next_tokens U (input_left s + 2) s). t = Token_EOS \<or> t = Token_ILLEGAL"
proof -
  have "window_inv s"
    using reachable_keeps [OF assms(3) Initialize_window(1) [OF assms(2)]] by (simp add: keeps_source_def)
  from next_tokens_end [OF assms(1) this assms(4), of "Suc (input_left s)"] show ?thesis
    by (simp add: ending_def)
qed

theorem scanner_reaches_end_witness:
  "\<exists>t. (t = Token_EOS \<or> t = Token_ILLEGAL) \<and>
     t \<in> set (next_tokens latin1_icu (input_left (Initialize latin1_icu
       (new_Scanner (ScannerStream_ForTesting (ascii ''si (x)'')) \<lparr> is_module = False, flag_source_dialect = kJsSpa \<rparr>)) + 2)
       (Initialize latin1_icu
       (new_Scanner (ScannerStream_ForTesting (ascii ''si (x)'')) \<lparr> is_module = False, flag_source_dialect = kJsSpa \<rparr>)))"
proof -
  let ?n = "new_Scanner (ScannerStream_ForTesting (ascii ''si (x)'')) \<lparr> is_module = False, flag_source_dialect = kJsSpa \<rparr>"
  have c: "icu_start_continues latin1_icu" by (auto simp: icu_start_continues_def latin1_icu_def unicode_id_continue_def)
  have "desc_token (next_next_desc (Initialize latin1_icu ?n)) = Token_UNINITIALIZED"
    by (rule Initialize_next_next)
  from scanner_reaches_end [OF c fresh_streams(2) reachable_init this] show ?thesis by blast
qed

section \<open>Locations\<close>

text \<open>The end marker is only seen behind the text.\<close>

lemma end_of_text: "looks_at kEndOfInput st \<Longrightarrow> length (text_of st) < pos st"
  using char_at_end [of "text_of st" "pos st - 1"] CombineSurrogatePair_code_point
  by (auto simp: looks_at_def)

lemma front_source_pos:
  "min (source_pos s) (int (length (text_of (source_stream s)))) = int (front (source_stream s)) - 1"
  by (simp add: front_def source_pos_def min_def)

lemma ScanSingleToken_bounds:
  assumes "ScanSingleToken U s = (t, s')" and "scanner_inv s" and "\<not> scanner_has_parser_error s'"
    and "L = int (length (text_of (source_stream s)))" and "b = beg_pos (location (next_desc s'))"
  shows "0 \<le> b \<and> min (source_pos s) L \<le> min b L \<and> min b L \<le> min (source_pos s') L"
proof -
  obtain s1 where s1: "scan_step s s1" "scan_step s1 s'" "b = source_pos s1"
    using ScanSingleToken_location [OF assms(1)] assms(5) by auto
  have e: "\<not> scanner_has_parser_error s1" using s1(2) assms(3) by (auto simp: scan_step_def)
  have i: "scanner_inv s1" "text_of (source_stream s1) = text_of (source_stream s)"
    "text_of (source_stream s') = text_of (source_stream s)"
    using s1(1,2) assms(2) by (auto simp: scan_step_def)
  have "front (source_stream s) \<le> front (source_stream s1)" "front (source_stream s1) \<le> front (source_stream s')"
    using s1(1,2) assms(2,3) e i(1) by (auto simp: scan_step_def)
  moreover have "0 \<le> source_pos s1"
    using i(1) e by (simp add: scanner_inv_def cursor_inv_def looks_at_def source_pos_def)
  ultimately show ?thesis
    using front_source_pos [of s] front_source_pos [of s1] front_source_pos [of s'] i(2,3) s1(3) assms(4) by simp
qed

text \<open>C25. Tokens are cut from the text in order: the token a scan delivers starts at or
  behind the place the scan began, ends at or behind its own start, and ends where the
  next scan begins (positions behind the end of the text count as the end). The end of
  the source is only reported when the whole text has been read.\<close>

theorem token_locations:
  assumes "scanner_inv s"
  shows "scanner_has_parser_error (Scan U s) \<or>
    (let text_end = int (length (text_of (source_stream s))); loc = location (next_desc (Scan U s))
     in 0 \<le> beg_pos loc \<and> min (source_pos s) text_end \<le> min (beg_pos loc) text_end \<and>
        min (beg_pos loc) text_end \<le> min (end_pos loc) text_end \<and> end_pos loc = source_pos (Scan U s) \<and>
        (peek (Scan U s) \<noteq> Token_EOS \<or> text_end \<le> source_pos (Scan U s)))"
proof (cases "scanner_has_parser_error (Scan U s)")
  case False
  let ?s = "set_after_line_terminator False s"
  obtain t s1 where t: "ScanSingleToken U ?s = (t, s1)" by fastforce
  note eq = Scan_eq [OF t]
  have e: "\<not> scanner_has_parser_error s1" using False by (simp add: eq)
  have i: "scanner_inv ?s" by (rule set_after_inv [OF assms])
  have p: "source_pos ?s = source_pos s" "source_pos (Scan U s) = source_pos s1"
    by (simp_all add: source_pos_def eq)
  have b: "0 \<le> beg_pos (location (next_desc s1)) \<and>
      min (source_pos s) (int (length (text_of (source_stream s)))) \<le>
        min (beg_pos (location (next_desc s1))) (int (length (text_of (source_stream s)))) \<and>
      min (beg_pos (location (next_desc s1))) (int (length (text_of (source_stream s)))) \<le>
        min (source_pos s1) (int (length (text_of (source_stream s))))"
    using ScanSingleToken_bounds [OF t i e refl refl] p(1) by simp
  have "scanner_inv s1" "text_of (source_stream s1) = text_of (source_stream s)"
    using ScanSingleToken_step [OF t] i by (auto simp: scan_step_def)
  then have "peek (Scan U s) = Token_EOS \<Longrightarrow> length (text_of (source_stream s)) < pos (source_stream s1)"
    using peek_Scan(4) [OF assms, of U] e by (auto simp: eq scanner_inv_def cursor_inv_def dest!: end_of_text)
  then have "peek (Scan U s) \<noteq> Token_EOS \<or> int (length (text_of (source_stream s))) \<le> source_pos s1"
    by (auto simp: source_pos_def)
  with b p(2) show ?thesis by (simp add: eq Let_def)
qed simp

theorem token_locations_witness:
  "scanner_inv (Init (new_Scanner (ScannerStream_ForTesting (ascii ''si'')) \<lparr> is_module = False, flag_source_dialect = kJsSpa \<rparr>)) \<and>
   (scanner_has_parser_error (Scan latin1_icu (Init (new_Scanner (ScannerStream_ForTesting (ascii ''si''))
      \<lparr> is_module = False, flag_source_dialect = kJsSpa \<rparr>))) \<or>
    0 \<le> beg_pos (location (next_desc (Scan latin1_icu (Init (new_Scanner (ScannerStream_ForTesting (ascii ''si''))
      \<lparr> is_module = False, flag_source_dialect = kJsSpa \<rparr>))))))"
proof -
  let ?s = "Init (new_Scanner (ScannerStream_ForTesting (ascii ''si'')) \<lparr> is_module = False, flag_source_dialect = kJsSpa \<rparr>)"
  have "scanner_inv ?s" using Init_new_Scanner [OF testing_stream(1,2) source_streams_cursor(2)] by blast
  with token_locations [OF this, of latin1_icu] show ?thesis unfolding Let_def by blast
qed

end
