(* ===== verification/Scanner_Text.thy ===== *)
theory Scanner_Text
  imports Scanner_Window
begin

text \<open>
  What the scanner makes of given texts. \<open>reading T p s\<close> abstracts the buffered stream
  and the look-ahead character: the scanner looks at position \<open>p\<close> of the text \<open>T\<close>. On
  this view the theorems say which token a word, a number, a string or an operator
  gives, what the dialect comment does, and where the code departs from its comments.
\<close>

section \<open>Reading at a position\<close>

definition reading :: "uc16 list \<Rightarrow> nat \<Rightarrow> Scanner \<Rightarrow> bool" where
  "reading T p s \<longleftrightarrow> scanner_inv s \<and> \<not> scanner_has_parser_error s \<and>
     text_of (source_stream s) = T \<and> pos (source_stream s) = Suc p \<and> c0 s = char_at T p"

text \<open>What does not change while a token is being read.\<close>

definition same_scan :: "Scanner \<Rightarrow> Scanner \<Rightarrow> bool" where
  "same_scan s s' \<longleftrightarrow> source_dialect s' = source_dialect s \<and> next_slot s' = next_slot s \<and>
     saw_non_comment_token s' = saw_non_comment_token s \<and>
     found_source_dialect_comment s' = found_source_dialect_comment s \<and> next_desc s' = next_desc s"

lemma same_scan_refl [simp]: "same_scan s s"
  by (simp add: same_scan_def)

lemma same_scan_trans: "same_scan s t \<Longrightarrow> same_scan t u \<Longrightarrow> same_scan s u"
  by (simp add: same_scan_def)

lemma reading_lex:
  assumes "reading T p s" and "lex_step s s'" and "pos (source_stream s') = Suc q" and "c0 s' = char_at T q"
  shows "reading T q s'"
  using assms lex_scan_step [OF assms(2)] lex_step_error [OF assms(2)] by (auto simp: reading_def scan_step_def)

lemma reading_Advance: "reading T p s \<Longrightarrow> reading T (Suc p) (Advance s)"
proof (rule reading_lex [OF _ lex_step_Advance])
  assume r: "reading T p s"
  obtain c st where a: "stream_Advance (source_stream s) = (c, st)" by fastforce
  have "stream_inv (source_stream s)" "\<not> has_parser_error (source_stream s)"
    using r by (auto simp: reading_def scanner_inv_def scanner_has_parser_error_def)
  from stream_Advance_abs [OF this a] r a
  show "pos (source_stream (Advance s)) = Suc (Suc p)" "c0 (Advance s) = char_at T (Suc p)"
    by (auto simp: reading_def Advance_def)
qed

lemma same_scan_Advance [simp]: "same_scan s (Advance s)"
  by (simp add: same_scan_def) (simp add: Advance_def split: prod.splits)

lemma reading_Peek:
  assumes "reading T p s" and "Peek s = (c, s')"
  shows "c = char_at T (Suc p)" "reading T p s'" "same_scan s s'"
proof -
  obtain c' st where a: "stream_Peek (source_stream s) = (c', st)" by fastforce
  have i: "stream_inv (source_stream s)" "\<not> has_parser_error (source_stream s)"
    using assms(1) by (auto simp: reading_def scanner_inv_def scanner_has_parser_error_def)
  note A = stream_Peek_abs [OF i a]
  show "c = char_at T (Suc p)" using A assms a by (auto simp: reading_def Peek_def)
  show "reading T p s'"
    using reading_lex [OF assms(1) lex_step_Peek [OF assms(2)]] A a assms by (auto simp: reading_def Peek_def)
  show "same_scan s s'" using assms(2) a by (auto simp: same_scan_def Peek_def next_desc_def)
qed

lemma reading_update_next:
  assumes "reading T p s" and "\<And>d. desc_inv d \<Longrightarrow> desc_inv (f d)"
  shows "reading T p (update_next f s)"
proof -
  have "\<forall>k. desc_inv (token_storage (update_next f s) k)"
    using assms by (simp add: reading_def scanner_inv_def update_next_def next_desc_def)
  with assms(1) show ?thesis
    by (auto simp: reading_def scanner_inv_def scanner_has_parser_error_def dialect_inv_def cursor_inv_def error_stuck_def)
qed

lemma reading_AdvanceUntil:
  assumes "reading T p s" and "p < length T" and "AdvanceUntil check a s = (a', s')"
    and "first_hit check a (drop (Suc p) T) = (c, a1, n)"
  shows "a' = a1" "reading T (p + n) s'" "same_scan s s'"
proof -
  obtain c' a2 st where r: "stream_AdvanceUntil check a (source_stream s) = (c', a2, st)" by (metis prod.collapse)
  have i: "stream_inv (source_stream s)" "\<not> has_parser_error (source_stream s)" "cursor_in_buffer (source_stream s)"
    using assms(1) by (auto simp: reading_def scanner_inv_def scanner_has_parser_error_def cursor_inv_def)
  have "buffer_cursor (source_stream s) \<le> length (buffer (source_stream s))"
    using i(3) assms(1,2) by (auto simp: cursor_in_buffer_def reading_def pos_def)
  from stream_AdvanceUntil_abs [OF r i(1,2) this] obtain n' where
    n': "first_hit check a (drop (Suc p) T) = (c', a2, n')" "pos st = Suc p + n'"
    using assms(1) by (auto simp: reading_def)
  with assms(4) have e: "c' = c" "a2 = a1" "n' = n" by auto
  have s': "a' = a2" "s' = s \<lparr> c0 := c', source_stream := st \<rparr>" using assms(3) r by (auto simp: AdvanceUntil_def)
  show "a' = a1" using s' e by simp
  have "0 < n" "c = char_at T (Suc p + (n - 1))"
    using first_hit_char [OF assms(4)] by (auto simp: char_at_drop)
  then show "reading T (p + n) s'"
    using n' e s' by (intro reading_lex [OF assms(1) lex_step_AdvanceUntil [OF assms(3)]]) auto
  show "same_scan s s'" using s' by (simp add: same_scan_def next_desc_def)
qed

text \<open>The text from the position on.\<close>

lemma drop_char:
  assumes "drop p T = u # us"
  shows "p < length T" "char_at T p = ucast u" "drop (Suc p) T = us"
proof -
  show l: "p < length T" using assms by (metis drop_all list.distinct(1) not_le)
  then have "drop p T = T ! p # drop (Suc p) T" by (simp add: Cons_nth_drop_Suc)
  with assms show "drop (Suc p) T = us" "char_at T p = ucast u" using l by (simp_all add: char_at_def)
qed

lemma drop_behind: "drop p T = us @ vs \<Longrightarrow> drop (p + length us) T = vs"
  using drop_drop [of "length us" p T] by (simp add: add.commute)

lemma reading_char: "reading T p s \<Longrightarrow> drop p T = u # us \<Longrightarrow> c0 s = ucast u"
  by (simp add: reading_def drop_char(2))

section \<open>Collecting characters\<close>

text \<open>The literal of the token being scanned.\<close>

abbreviation literal_so_far :: "Scanner \<Rightarrow> uc16 list" where
  "literal_so_far s \<equiv> literal_units (literal_chars (next_desc s))"

abbreviation latin1_so_far :: "Scanner \<Rightarrow> bool" where
  "latin1_so_far s \<equiv> is_one_byte (literal_chars (next_desc s))"

lemma Advance_update_next: "Advance (update_next f s) = update_next f (Advance s)"
  by (simp add: Advance_def update_next_def next_desc_def split: prod.splits)

lemma AddLiteralCharAdvance_eq: "AddLiteralCharAdvance s = AddLiteralChar (c0 s) (Advance s)"
  by (simp add: AddLiteralCharAdvance_def AddLiteralChar_def Advance_update_next)

lemma reading_literal_inv: "reading T p s \<Longrightarrow> literal_inv (literal_chars (next_desc s))"
  by (simp add: reading_def scanner_inv_def desc_inv_def next_desc_def)

lemma reading_Start:
  assumes "reading T p s"
  shows "reading T p (Start_literal s)" "literal_so_far (Start_literal s) = []" "latin1_so_far (Start_literal s)"
    "location (next_desc (Start_literal s)) = location (next_desc s)"
proof -
  show "reading T p (Start_literal s)" unfolding Start_literal_def
    by (rule reading_update_next [OF assms]) (simp add: desc_inv_def Start_spec)
  show "literal_so_far (Start_literal s) = []" "latin1_so_far (Start_literal s)"
    "location (next_desc (Start_literal s)) = location (next_desc s)"
    using Start_spec [OF reading_literal_inv [OF assms]] by (simp_all add: Start_literal_def)
qed

lemma reading_AddLiteralChar:
  assumes "reading T p s"
  shows "reading T p (AddLiteralChar c s)" "literal_so_far (AddLiteralChar c s) = literal_so_far s @ code_units c"
    "latin1_so_far (AddLiteralChar c s) \<longleftrightarrow> latin1_so_far s \<and> c \<le> 0xff"
    "location (next_desc (AddLiteralChar c s)) = location (next_desc s)"
proof -
  show "reading T p (AddLiteralChar c s)" unfolding AddLiteralChar_def
    by (rule reading_update_next [OF assms]) (simp add: desc_inv_def AddChar_spec)
  show "literal_so_far (AddLiteralChar c s) = literal_so_far s @ code_units c"
    "latin1_so_far (AddLiteralChar c s) \<longleftrightarrow> latin1_so_far s \<and> c \<le> 0xff"
    "location (next_desc (AddLiteralChar c s)) = location (next_desc s)"
    using AddChar_spec [OF reading_literal_inv [OF assms], of c] by (simp_all add: AddLiteralChar_def)
qed

text \<open>Taking the character in front of the cursor into the literal.\<close>

lemma reading_take_char:
  assumes "reading T p s" and "drop p T = u # us" and "s' = AddLiteralChar (c0 s) (Advance s)"
  shows "reading T (Suc p) s'" "literal_so_far s' = literal_so_far s @ [u]"
    "latin1_so_far s' \<longleftrightarrow> latin1_so_far s \<and> u \<le> 0xff"
    "location (next_desc s') = location (next_desc s)"
proof -
  note A = reading_AddLiteralChar [OF reading_Advance [OF assms(1)], of "c0 s"]
  have c: "c0 s = ucast u" by (rule reading_char [OF assms(1,2)])
  show "reading T (Suc p) s'" using A(1) assms(3) by simp
  show "literal_so_far s' = literal_so_far s @ [u]" using A(2) assms(3) c by (simp add: code_units_unit)
  have "(ucast u :: uc32) \<le> 0xff \<longleftrightarrow> u \<le> 0xff" by (simp add: word_le_nat_alt unat_widen)
  then show "latin1_so_far s' \<longleftrightarrow> latin1_so_far s \<and> u \<le> 0xff" using A(3) assms(3) c by simp
  show "location (next_desc s') = location (next_desc s)" using A(4) assms(3) by simp
qed

section \<open>Words\<close>

lemma scan_flag_bits:
  "TerminatesLiteral f \<longleftrightarrow> bit f 0" "CanBeKeyword f \<longleftrightarrow> \<not> bit f 1" "IdentifierNeedsSlowPath f \<longleftrightarrow> bit f 4"
  using and_exp_eq_0_iff_not_bit [of f 0] and_exp_eq_0_iff_not_bit [of f 1] and_exp_eq_0_iff_not_bit [of f 4]
  by (simp_all add: TerminatesLiteral_def CanBeKeyword_def IdentifierNeedsSlowPath_def)

lemma GetScanFlags_bits:
  "bit (GetScanFlags c) 0 \<longleftrightarrow> \<not> IsAsciiIdentifier c"
  "bit (GetScanFlags c) 1 \<longleftrightarrow> IsAsciiIdentifier c \<and> \<not> CanBeKeywordCharacter c"
  "bit (GetScanFlags c) 2 \<longleftrightarrow> \<not> IsKeywordStart c"
  "bit (GetScanFlags c) 4 \<longleftrightarrow> c = 0x5C"
  "bit (GetScanFlags c) 5 \<longleftrightarrow> c = 0x0A \<or> c = 0x0D \<or> c = 0x2A"
  by (simp_all add: GetScanFlags_def bit_or_iff)

text \<open>An ASCII word: identifier characters that do not start with a digit. It ends at the
  end of the text or before an ASCII character that continues no identifier.\<close>

definition ascii_word :: "byte list \<Rightarrow> bool" where
  "ascii_word w \<longleftrightarrow> w \<noteq> [] \<and> list_all (\<lambda>c. IsAsciiIdentifier (ucast c)) w \<and> \<not> IsDecimalDigit (ucast (hd w))"

definition ends_word :: "uc16 list \<Rightarrow> bool" where
  "ends_word rest \<longleftrightarrow> rest = [] \<or> hd rest \<le> 0x7F \<and> \<not> IsAsciiIdentifier (ucast (hd rest)) \<and> hd rest \<noteq> 0x5C"

lemma ucast_byte_unit: "(ucast (ucast (c :: byte) :: uc16) :: uc32) = ucast c"
  by (simp add: word_unat_eq_iff unat_widen)

lemma ucast_byte_back: "(ucast (ucast (c :: byte) :: uc32) :: byte) = c"
  using unat_byte_less [of c] by (simp add: word_unat_eq_iff unat_widen unat_ucast)

lemma ascii_identifier_bound: "IsAsciiIdentifier c \<Longrightarrow> c \<le> kMaxAscii"
  by (auto simp: IsAsciiIdentifier_iff word_le_nat_alt)

text \<open>The first character's flags are shifted: it counts if it cannot start a keyword.\<close>

lemma start_flags:
  assumes "IsAsciiIdentifier c"
  shows "\<not> IdentifierNeedsSlowPath (drop_bit 1 (GetScanFlags c))"
    "CanBeKeyword (drop_bit 1 (GetScanFlags c)) \<longleftrightarrow> IsKeywordStart c"
proof -
  have "bit (drop_bit 1 f) 1 \<longleftrightarrow> bit f 2" "bit (drop_bit 1 f) 4 \<longleftrightarrow> bit f 5" for f :: byte
    by (simp add: bit_drop_bit_eq numeral_2_eq_2) (simp add: bit_drop_bit_eq)
  then show "\<not> IdentifierNeedsSlowPath (drop_bit 1 (GetScanFlags c))"
    "CanBeKeyword (drop_bit 1 (GetScanFlags c)) \<longleftrightarrow> IsKeywordStart c"
    using GetScanFlags_bits(3,5) [of c] assms by (auto simp: scan_flag_bits IsAsciiIdentifier_iff)
qed

lemma ident_check_word:
  assumes "IsAsciiIdentifier c"
  shows "ident_check c (f, b) = (False, f OR GetScanFlags c, AddChar_char b (ucast c))"
  using assms ascii_identifier_bound [OF assms] GetScanFlags_bits(1) [of c]
  by (simp add: ident_check_def Let_def scan_flag_bits)

lemma ident_first_hit:
  assumes "ends_word rest"
  shows "list_all (\<lambda>c. IsAsciiIdentifier (ucast c)) w \<Longrightarrow>
    \<exists>f'. first_hit ident_check (f, b) (map ucast w @ rest) =
      (char_at rest 0, (f', foldl AddChar_char b w), Suc (length w)) \<and>
      (IdentifierNeedsSlowPath f' \<longleftrightarrow> IdentifierNeedsSlowPath f) \<and>
      (CanBeKeyword f' \<longleftrightarrow> CanBeKeyword f \<and> list_all (\<lambda>c. CanBeKeywordCharacter (ucast c)) w)"
proof (induction w arbitrary: f b)
  case Nil
  show ?case
  proof (cases rest)
    case (Cons u us)
    define c :: uc32 where "c = ucast u"
    have c: "c \<le> kMaxAscii" "\<not> IsAsciiIdentifier c" "c \<noteq> 0x5C"
      using assms Cons by (auto simp: ends_word_def c_def word_unat_eq_iff word_le_nat_alt unat_widen)
    then have "ident_check c (f, b) = (True, f OR GetScanFlags c, b)"
      using GetScanFlags_bits(1) [of c] by (auto simp: ident_check_def Let_def scan_flag_bits)
    with c GetScanFlags_bits [of c] Cons show ?thesis
      by (auto simp: char_at_def scan_flag_bits bit_or_iff c_def)
  qed (auto simp: char_at_def)
next
  case (Cons c w)
  let ?c = "ucast c :: uc32"
  have i: "IsAsciiIdentifier ?c" "?c \<noteq> 0x5C" using Cons.prems by (auto simp: IsAsciiIdentifier_iff)
  have u: "(ucast ?c :: byte) = c" by (rule ucast_byte_back)
  from Cons.IH [of "f OR GetScanFlags ?c" "AddChar_char b c"] Cons.prems GetScanFlags_bits [of ?c] i
    ident_check_word [OF i(1), of f b]
  show ?case by (auto simp: ucast_byte_unit u scan_flag_bits bit_or_iff)
qed

text \<open>The keyword filter of the fast path rejects no English keyword.\<close>

lemma ucast_of_char: "(ucast (of_char ch :: byte) :: uc32) = of_char ch"
  by (cases ch) (simp add: word_unat_eq_iff unat_widen)

lemma KEYWORD_starts: "list_all (\<lambda>k. fst k \<noteq> '''' \<and> hd (fst k) \<in> set KEYWORD_GROUPS) KEYWORDS"
  by (simp add: KEYWORDS_def KEYWORD_GROUPS_def)

lemma eng_words_filter:
  assumes "(w, t) \<in> set eng_words"
  shows "IsKeywordStart (ucast (hd w))" "list_all (\<lambda>c. CanBeKeywordCharacter (ucast c)) w"
proof -
  obtain k where k: "(k, t) \<in> set KEYWORDS" "w = ascii k" using assms by (auto simp: keyword_bytes_def)
  have "k \<noteq> ''''" "hd k \<in> set KEYWORD_GROUPS" using KEYWORD_starts k(1) by (auto simp: list_all_iff)
  then show "IsKeywordStart (ucast (hd w))"
    using k(2) by (auto simp: IsKeywordStart_def list_ex_iff ascii_def hd_map ucast_of_char)
  show "list_all (\<lambda>c. CanBeKeywordCharacter (ucast c)) w"
    unfolding list_all_iff
  proof
    fix c
    assume "c \<in> set w"
    then obtain ch where "ch \<in> set k" "c = of_char ch" using k(2) by (auto simp: ascii_def)
    with k(1) show "CanBeKeywordCharacter (ucast c)"
      unfolding CanBeKeywordCharacter_def list_ex_iff by (intro disjI1 bexI [of _ "(k, t)"] bexI [of _ ch])
        (simp_all add: ucast_of_char)
  qed
qed

lemma word_is_ascii: "ascii_word w \<Longrightarrow> is_ascii w"
  by (auto simp: ascii_word_def is_ascii_def list_all_iff dest!: bspec ascii_identifier_bound)
    (simp add: word_less_nat_alt word_le_nat_alt unat_widen)

lemma word_token:
  assumes "ascii_word w"
  shows "(if d = kJsEng \<and> \<not> (IsKeywordStart (ucast (hd w)) \<and> list_all (\<lambda>c. CanBeKeywordCharacter (ucast c)) (tl w))
     then Token_IDENTIFIER else KeywordOrIdentifierToken d w (length w)) =
    (case map_of (dialect_words d) w of None \<Rightarrow> Token_IDENTIFIER | Some t \<Rightarrow> t)"
proof (cases "d = kJsEng \<and> \<not> (IsKeywordStart (ucast (hd w)) \<and> list_all (\<lambda>c. CanBeKeywordCharacter (ucast c)) (tl w))")
  case True
  have "w \<noteq> []" using assms by (simp add: ascii_word_def)
  have "map_of eng_words w = None"
  proof (rule ccontr)
    assume "map_of eng_words w \<noteq> None"
    then obtain t where "(w, t) \<in> set eng_words" by (auto dest: map_of_SomeD)
    then have "IsKeywordStart (ucast (hd w)) \<and> list_all (\<lambda>c. CanBeKeywordCharacter (ucast c)) w"
      using eng_words_filter by blast
    with \<open>w \<noteq> []\<close> True show False by (cases w) auto
  qed
  with True show ?thesis by (simp add: dialect_words_def)
next
  case False
  with dialect.lookup_words [of d w] word_is_ascii [OF assms] show ?thesis
    by (auto simp: lookup_in_bounds_def)
qed

lemma one_byte_units: "is_one_byte b \<Longrightarrow> literal_units b = map ucast w \<Longrightarrow> one_byte_literal b = (w :: byte list)"
proof -
  have "inj (ucast :: byte \<Rightarrow> uc16)"
    by (rule injI) (simp add: word_unat_eq_iff unat_widen)
  then show "is_one_byte b \<Longrightarrow> literal_units b = map ucast w \<Longrightarrow> one_byte_literal b = w"
    by (simp add: literal_units_def inj_map_eq_map)
qed

lemma is_one_byte_foldl: "is_one_byte b \<Longrightarrow> is_one_byte (foldl AddChar_char b w)"
  by (induction w arbitrary: b) (simp_all add: AddChar_char_def AddOneByteChar_def ExpandBuffer_def Let_def)

lemma reading_word_start:
  "reading T p s \<Longrightarrow> reading T p (AddLiteralChar_char x (Start_literal s))"
proof -
  assume r: "reading T p s"
  then have "literal_inv (literal_chars (next_desc s))"
    by (simp add: reading_def scanner_inv_def desc_inv_def next_desc_def)
  then have l: "literal_inv (AddChar_char (LiteralBuffer_Start (literal_chars (next_desc s))) x)"
    using Start_spec AddOneByteChar_spec by (simp add: AddChar_char_def)
  have "AddLiteralChar_char x (Start_literal s) = update_next (\<lambda>d. d \<lparr> literal_chars :=
      AddChar_char (LiteralBuffer_Start (literal_chars (next_desc s))) x \<rparr>) s"
    by (simp add: AddLiteralChar_char_def Start_literal_def update_next_def next_desc_def)
  with reading_update_next [OF r] l show ?thesis by (simp add: desc_inv_def)
qed

text \<open>The fast path on a word.\<close>

lemma ScanIdentifier_word:
  assumes "reading T p s" and "drop p T = map ucast w @ rest" and "ascii_word w" and "ends_word rest"
    and "ScanIdentifierOrKeyword U s = (t, s')"
  shows "reading T (p + length w) s'"
    "t = (case map_of (dialect_words (source_dialect s)) w of None \<Rightarrow> Token_IDENTIFIER | Some t \<Rightarrow> t)"
    "is_one_byte (literal_chars (next_desc s'))" "one_byte_literal (literal_chars (next_desc s')) = w"
    "location (next_desc s') = location (next_desc s)" "saw_non_comment_token s' = saw_non_comment_token s"
proof -
  obtain x v where w: "w = x # v" using assms(3) by (cases w) (auto simp: ascii_word_def)
  let ?c = "ucast x :: uc32"
  have T: "drop p T = ucast x # (map ucast v @ rest)" using assms(2) w by simp
  note p = drop_char(1) [OF T]
  have "drop (Suc p) T = map ucast v @ rest" by (rule drop_char(3) [OF T])
  have c: "c0 s = ?c" using reading_char [OF assms(1) T] by (simp add: ucast_byte_unit)
  have i: "IsAsciiIdentifier ?c" "list_all (\<lambda>c. IsAsciiIdentifier (ucast c)) v"
    using assms(3) w by (simp_all add: ascii_word_def)
  have ci: "?c \<le> kMaxAscii" "?c \<noteq> 0x5C" using ascii_identifier_bound [OF i(1)] i(1) by (auto simp: IsAsciiIdentifier_iff)
  define b0 where "b0 = LiteralBuffer_Start (literal_chars (next_desc s))"
  define s1 where "s1 = AddLiteralChar_char x (Start_literal s)"
  have b0: "literal_inv b0" "is_one_byte b0" "literal_units b0 = []"
    using assms(1) Start_spec [of "literal_chars (next_desc s)"]
    by (auto simp: b0_def reading_def scanner_inv_def desc_inv_def next_desc_def)
  have s1: "reading T p s1" "literal_chars (next_desc s1) = AddChar_char b0 x"
    "source_dialect s1 = source_dialect s" "location (next_desc s1) = location (next_desc s)"
    "saw_non_comment_token s1 = saw_non_comment_token s"
    using reading_word_start [OF assms(1), of x] by (simp_all add: s1_def b0_def Start_literal_def AddLiteralChar_char_def)
  let ?f = "drop_bit 1 (GetScanFlags ?c)"
  obtain f where "first_hit ident_check (?f, AddChar_char b0 x) (map ucast v @ rest) =
      (char_at rest 0, (f, foldl AddChar_char (AddChar_char b0 x) v), Suc (length v))"
      "IdentifierNeedsSlowPath f \<longleftrightarrow> IdentifierNeedsSlowPath ?f"
      "CanBeKeyword f \<longleftrightarrow> CanBeKeyword ?f \<and> list_all (\<lambda>c. CanBeKeywordCharacter (ucast c)) v"
    using ident_first_hit [OF assms(4) i(2), of ?f "AddChar_char b0 x"] by blast
  then have h: "first_hit ident_check (?f, AddChar_char b0 x) (drop (Suc p) T) =
      (char_at rest 0, (f, foldl AddChar_char (AddChar_char b0 x) v), Suc (length v))"
      "\<not> IdentifierNeedsSlowPath f"
      "CanBeKeyword f \<longleftrightarrow> IsKeywordStart ?c \<and> list_all (\<lambda>c. CanBeKeywordCharacter (ucast c)) v"
    using start_flags [OF i(1)] \<open>drop (Suc p) T = map ucast v @ rest\<close> by simp_all
  obtain a s2 where A: "AdvanceUntil ident_check (drop_bit 1 (GetScanFlags ?c), AddChar_char b0 x) s1 = (a, s2)"
    by fastforce
  note R = reading_AdvanceUntil [OF s1(1) p A h(1)]
  define b where "b = foldl AddChar_char b0 w"
  have b: "literal_inv b" "literal_units b = map ucast w" "is_one_byte b"
    using foldl_AddChar_char [OF b0(1,2), of w] b0(3) is_one_byte_foldl [OF b0(2)] by (simp_all add: b_def)
  have s': "s' = update_next (\<lambda>d. d \<lparr> literal_chars := b \<rparr>) s2"
    "t = (if source_dialect s = kJsEng \<and> \<not> CanBeKeyword f then Token_IDENTIFIER
       else KeywordOrIdentifierToken (source_dialect s) w (length w))"
    using assms(5) c ci A R h(2) s1(2,3) one_byte_units [OF b(3,2)]
    by (auto simp: ScanIdentifierOrKeyword_def ScanIdentifierOrKeywordInner_def s1_def [symmetric] Let_def ucast_byte_back
        b_def w same_scan_def)
  show "reading T (p + length w) s'"
    using reading_update_next [OF R(2), of "\<lambda>d. d \<lparr> literal_chars := b \<rparr>"] b(1) w by (simp add: s' desc_inv_def)
  show "is_one_byte (literal_chars (next_desc s'))" "one_byte_literal (literal_chars (next_desc s')) = w"
    using b one_byte_units [OF b(3,2)] by (simp_all add: s')
  show "location (next_desc s') = location (next_desc s)" "saw_non_comment_token s' = saw_non_comment_token s"
    using R(3) s1(4,5) by (simp_all add: s' same_scan_def)
  show "t = (case map_of (dialect_words (source_dialect s)) w of None \<Rightarrow> Token_IDENTIFIER | Some t \<Rightarrow> t)"
    using word_token [OF assms(3), of "source_dialect s"] s'(2) h(3) w by simp
qed

text \<open>A round on a word: \<^verbatim>\<open>one_char_tokens\<close> sends it to the identifier scanner.\<close>

lemma one_char_identifier:
  assumes "IsAsciiIdentifier c" and "\<not> IsDecimalDigit c"
  shows "GetOneCharToken c = Token_IDENTIFIER"
  using assms by (auto simp: GetOneCharToken_def IsAsciiIdentifier_iff)

lemma scan_round_word:
  assumes "IsAsciiIdentifier (c0 s)" and "\<not> IsDecimalDigit (c0 s)"
  shows "scan_round U s = returned (ScanIdentifierOrKeyword U (set_beg_pos s))"
  using ascii_identifier_bound [OF assms(1)] one_char_identifier [OF assms]
  by (simp add: scan_round_def scan_ascii_def Let_def)

lemma reading_set_beg_pos: "reading T p s \<Longrightarrow> reading T p (set_beg_pos s)"
  unfolding set_beg_pos_def by (rule reading_update_next) (simp_all add: desc_inv_def)

lemma set_after_same: "after_line_terminator (next_desc s) \<Longrightarrow> set_after_line_terminator True s = s"
proof -
  assume "after_line_terminator (next_desc s)"
  then have "next_desc s \<lparr> after_line_terminator := True \<rparr> = next_desc s" by (cases "next_desc s") simp
  then show ?thesis
    by (simp add: set_after_line_terminator_def update_next_def next_desc_def)
qed

lemma reading_set_after: "reading T p s \<Longrightarrow> reading T p (set_after_line_terminator b s)"
  unfolding set_after_line_terminator_def by (rule reading_update_next) (simp_all add: desc_inv_def)

lemma reading_finish: "reading T p s \<Longrightarrow> reading T p (saw_token (finish_token t s))"
proof -
  assume "reading T p s"
  then have "reading T p (finish_token t s)"
    unfolding finish_token_def by (rule reading_update_next) (simp_all add: desc_inv_def)
  then show ?thesis by (simp add: reading_def)
qed

text \<open>A scan whose first round returns.\<close>

lemma Scan_one_round:
  assumes "reading T p s" and "scan_round U (set_after_line_terminator False s) = (t, ret, s1)"
    and "ret \<or> t \<noteq> Token_WHITESPACE" and "reading T q s1" and "beg_pos (location (next_desc s1)) = int p"
  shows "peek (Scan U s) = t" "reading T q (Scan U s)"
    "location (next_desc (Scan U s)) = mk_Location (int p) (int q)"
    "literal_chars (next_desc (Scan U s)) = literal_chars (next_desc s1)"
    "smi_value (next_desc (Scan U s)) = smi_value (next_desc s1)"
proof -
  have t: "ScanSingleToken U (set_after_line_terminator False s) = (t, s1)"
    using assms(2,3) by (auto simp: ScanSingleToken.simps)
  note eq = Scan_eq [OF t]
  show "peek (Scan U s) = t" by (rule Scan_peek [OF t])
  show "reading T q (Scan U s)" unfolding eq by (rule reading_finish [OF assms(4)])
  show "location (next_desc (Scan U s)) = mk_Location (int p) (int q)"
    using assms(4,5) by (simp add: eq reading_def source_pos_def)
  show "literal_chars (next_desc (Scan U s)) = literal_chars (next_desc s1)"
    "smi_value (next_desc (Scan U s)) = smi_value (next_desc s1)" by (simp_all add: eq)
qed

text \<open>The round on a word.\<close>

lemma NextSymbol_units: "NextSymbol s = literal_so_far s"
  by (simp add: NextSymbol_def literal_units_def)

lemma word_round:
  assumes "reading T p s" and "drop p T = map ucast w @ rest" and "ascii_word w" and "ends_word rest"
  obtains s1 where "scan_round U s =
      (case map_of (dialect_words (source_dialect s)) w of None \<Rightarrow> Token_IDENTIFIER | Some t \<Rightarrow> t, True, s1)"
    "reading T (p + length w) s1" "beg_pos (location (next_desc s1)) = int p" "literal_so_far s1 = map ucast w"
proof -
  define s0 where "s0 = set_beg_pos s"
  have r: "reading T p s0" unfolding s0_def by (rule reading_set_beg_pos [OF assms(1)])
  have d: "source_dialect s0 = source_dialect s" "beg_pos (location (next_desc s0)) = int p"
    using assms(1) by (simp_all add: s0_def set_beg_pos_def reading_def source_pos_def)
  obtain t s1 where t: "ScanIdentifierOrKeyword U s0 = (t, s1)" by fastforce
  note W = ScanIdentifier_word [OF r assms(2-4) t]
  have "w \<noteq> []" using assms(3) by (simp add: ascii_word_def)
  with reading_char [OF assms(1), of "ucast (hd w)"] assms(2) have c: "c0 s = ucast (hd w)"
    by (cases w) (simp_all add: ucast_byte_unit)
  have "IsAsciiIdentifier (c0 s)" "\<not> IsDecimalDigit (c0 s)"
    using assms(3) c by (cases w; simp add: ascii_word_def)+
  then have "scan_round U s = (t, True, s1)" using scan_round_word [of s U] t by (simp add: s0_def)
  moreover have "literal_so_far s1 = map ucast w" using W(3,4) by (simp add: literal_units_def)
  ultimately show ?thesis using that W(1,2,5) d by simp
qed

text \<open>C1. Keywords and identifiers in source text: whichever stream class of the scanner model the
  text comes from (strings, and chunks of one-byte, two-byte or Windows-1252 data), a word of
  ASCII identifier characters that ends at the end of the text or before another ASCII character is scanned as a whole; its token is the one the word list of
  the dialect in force gives, \<^verbatim>\<open>IDENTIFIER\<close> if it has none; its symbol is the word and
  its location the place of the word; and the scanner stands behind it.\<close>

theorem word_scanned:
  assumes "reading T p s" and "drop p T = map ucast w @ rest" and "ascii_word w" and "ends_word rest"
  shows "peek (Scan U s) =
      (case map_of (dialect_words (source_dialect s)) w of None \<Rightarrow> Token_IDENTIFIER | Some t \<Rightarrow> t) \<and>
    NextSymbol (Scan U s) = map ucast w \<and>
    location (next_desc (Scan U s)) = mk_Location (int p) (int (p + length w)) \<and>
    reading T (p + length w) (Scan U s)"
proof -
  let ?s = "set_after_line_terminator False s"
  have d: "source_dialect ?s = source_dialect s" by (simp add: set_after_line_terminator_def)
  obtain s1 where W: "scan_round U ?s =
      (case map_of (dialect_words (source_dialect s)) w of None \<Rightarrow> Token_IDENTIFIER | Some t \<Rightarrow> t, True, s1)"
    "reading T (p + length w) s1" "beg_pos (location (next_desc s1)) = int p" "literal_so_far s1 = map ucast w"
    by (rule word_round [OF reading_set_after [OF assms(1), of False] assms(2-4), of U, unfolded d])
  from Scan_one_round [OF assms(1) W(1) _ W(2,3)] W(4) show ?thesis by (simp add: NextSymbol_units)
qed

text \<open>The scanner before its first token.\<close>

lemma reading_Init:
  assumes "fresh_stream st" and "pos st = p"
  shows "reading (text_of st) p (Init (new_Scanner st fl))"
    "source_dialect (Init (new_Scanner st fl)) = flag_source_dialect fl"
  using Init_new_Scanner [of st fl] assms
  by (auto simp: reading_def fresh_stream_def Init_def new_Scanner_def Let_def Advance_def split: prod.splits)

lemma reading_testing:
  "reading (map ucast bs) 0 (Init (new_Scanner (ScannerStream_ForTesting bs) fl))"
  using reading_Init(1) [OF fresh_streams(2) testing_stream(4), of bs fl] by (simp add: testing_stream)

lemma reading_testing_uc16:
  "reading us 0 (Init (new_Scanner (ScannerStream_ForTesting_uc16 us) fl))"
proof -
  have "fresh_stream (ScannerStream_ForTesting_uc16 us)" "pos (ScannerStream_ForTesting_uc16 us) = 0"
    "text_of (ScannerStream_ForTesting_uc16 us) = us"
    by (simp_all add: fresh_stream_def) (simp_all add: ScannerStream_ForTesting_uc16_def testing_stream_content_def)
  from reading_Init(1) [OF this(1,2)] this(3) show ?thesis by simp
qed

theorem word_scanned_witness:
  "peek (Scan latin1_icu (Init (new_Scanner (ScannerStream_ForTesting (ascii ''si(x)''))
     \<lparr> is_module = False, flag_source_dialect = kJsSpa \<rparr>))) = Token_IF \<and>
   peek (Scan latin1_icu (Init (new_Scanner (ScannerStream_ForTesting (ascii ''si(x)''))
     \<lparr> is_module = False, flag_source_dialect = kJsEng \<rparr>))) = Token_IDENTIFIER"
proof -
  let ?fl = "\<lambda>d. \<lparr> is_module = False, flag_source_dialect = d \<rparr>"
  let ?s = "\<lambda>d. Init (new_Scanner (ScannerStream_ForTesting (ascii ''si(x)'')) (?fl d))"
  have d: "source_dialect (?s d) = d" for d
    using reading_Init(2) [OF fresh_streams(2) refl] by simp
  have w: "ascii_word (ascii ''si'')" "ends_word (map ucast (ascii ''(x)''))" by code_simp+
  have "map_of (dialect_words kJsSpa) (ascii ''si'') = Some Token_IF"
    "map_of (dialect_words kJsEng) (ascii ''si'') = None" by code_simp+
  moreover have "peek (Scan latin1_icu (?s d)) =
      (case map_of (dialect_words d) (ascii ''si'') of None \<Rightarrow> Token_IDENTIFIER | Some t \<Rightarrow> t)" for d
    using word_scanned [OF reading_testing [of "ascii ''si(x)''" "?fl d"] _ w, of latin1_icu] d [of d]
    by (simp del: map_of.simps)
  ultimately show ?thesis by simp
qed

section \<open>Where the code departs from its comments\<close>

text \<open>C39. A text that starts with two dashes always begins with the token \<^verbatim>\<open>DEC\<close>, also when a
  closing HTML comment follows: the value true that \<^verbatim>\<open>Initialize\<close> stores for the first
  token, so that the marker is skipped at the start of a script, is overwritten by
  \<^verbatim>\<open>Scan\<close> before it is read.\<close>

theorem html_close_at_start_not_skipped:
  assumes "fresh_stream st" and "pos st = 0" and "text_of st = 0x2D # 0x2D # rest"
  shows "peek (Initialize U (new_Scanner st fl)) = Token_DEC"
proof -
  define s where "s = set_after_line_terminator False (set_after_line_terminator True (Init (new_Scanner st fl)))"
  define s0 where "s0 = set_beg_pos s"
  have r: "reading (text_of st) 0 s0" unfolding s0_def s_def
    by (intro reading_set_beg_pos reading_set_after reading_Init(1) [OF assms(1,2)])
  have c: "c0 s0 = 0x2D" "c0 (Advance s0) = 0x2D"
    using r reading_Advance [OF r] assms(3) by (simp_all add: reading_def char_at_def)
  have a: "\<not> after_line_terminator (next_desc s0)"
    by (simp add: s0_def s_def set_beg_pos_def set_after_line_terminator_def)
  have "c0 s = 0x2D" using c(1) by (simp add: s0_def)
  then have "scan_round U s = (Token_DEC, True, Advance (Advance s0))"
    using c a by (simp add: scan_round_def scan_ascii_def scan_sub_def s0_def [symmetric] GetOneCharToken_def Let_def)
  then have "ScanSingleToken U s = (Token_DEC, Advance (Advance s0))"
    by (simp add: ScanSingleToken.simps)
  from Scan_peek [OF this [unfolded s_def]] show ?thesis by (simp add: Initialize_def)
qed

theorem html_close_at_start_not_skipped_witness:
  "peek (Initialize latin1_icu (new_Scanner (ScannerStream_ForTesting (ascii ''--> x''))
     \<lparr> is_module = False, flag_source_dialect = kJsEng \<rparr>)) = Token_DEC"
  by (rule html_close_at_start_not_skipped [OF fresh_streams(2) testing_stream(4)]) (simp add: testing_stream)

section \<open>The flags of a regular expression\<close>

text \<open>The letters the language knows, with the two that depend on flags of the engine, and the set of flags
  that given letters stand for: none of them may be unknown or given twice.\<close>

definition flag_letters :: "V8Flags \<Rightarrow> (byte \<times> RegExpFlags) list" where
  "flag_letters v =
     zip (ascii ''dgimsuy'') [kHasIndices, kGlobal, kIgnoreCase, kMultiline, kDotAll, kUnicode, kSticky] @
     (if enable_experimental_regexp_engine v then zip (ascii ''l'') [kLinear] else []) @
     (if harmony_regexp_unicode_sets v then zip (ascii ''v'') [kUnicodeSets] else [])"

definition flags_of :: "V8Flags \<Rightarrow> byte list \<Rightarrow> RegExpFlags" where
  "flags_of v bs = foldr (\<lambda>b fl. the (map_of (flag_letters v) b) OR fl) bs 0"

definition regexp_flags :: "V8Flags \<Rightarrow> byte list \<Rightarrow> RegExpFlags option" where
  "regexp_flags v bs = (if distinct bs \<and> set bs \<subseteq> fst ` set (flag_letters v) then Some (flags_of v bs) else None)"

lemma flag_letters_list:
  "set (flag_letters v) \<subseteq> set [(0x64, 128), (0x67, 1), (0x69, 2), (0x6C, 64), (0x6D, 4), (0x73, 32), (0x75, 16), (0x76, 256), (0x79, 8)]"
  by (auto simp: flag_letters_def)

lemma FlagFromChar_letters: "FlagFromChar v b = map_of (flag_letters v) b"
  by (simp add: FlagFromChar_def TryRegExpFlagFromChar_def flag_letters_def)

lemma flags_disjoint:
  assumes "map_of (flag_letters v) a = Some f" and "map_of (flag_letters v) b = Some g"
  shows "f AND g \<noteq> 0 \<longleftrightarrow> a = b"
proof -
  let ?l = "[(0x64, 128), (0x67, 1), (0x69, 2), (0x6C, 64), (0x6D, 4), (0x73, 32), (0x75, 16), (0x76, 256), (0x79, 8)] :: (byte \<times> RegExpFlags) list"
  have "list_all (\<lambda>(a, f). list_all (\<lambda>(b, g). f AND g \<noteq> 0 \<longleftrightarrow> a = b) ?l) ?l" by code_simp
  moreover have "(a, f) \<in> set ?l" "(b, g) \<in> set ?l"
    using assms [THEN map_of_SomeD] flag_letters_list [of v] by blast+
  ultimately show ?thesis unfolding list_all_iff by blast
qed

lemma flags_of_append: "flags_of v (as @ bs) = flags_of v as OR flags_of v bs"
  by (induction as) (simp_all add: flags_of_def or.assoc)

lemma flags_of_member:
  assumes "set bs \<subseteq> fst ` set (flag_letters v)" and "map_of (flag_letters v) b = Some f"
  shows "flags_of v bs AND f \<noteq> 0 \<longleftrightarrow> b \<in> set bs"
  using assms(1)
proof (induction bs)
  case Nil
  then show ?case by (simp add: flags_of_def)
next
  case (Cons a bs)
  obtain g where g: "map_of (flag_letters v) a = Some g"
    using Cons.prems by (metis list.set_intros(1) map_of_eq_None_iff not_None_eq subsetD)
  have "flags_of v (a # bs) AND f = (g AND f) OR (flags_of v bs AND f)" by (simp add: flags_of_def g bit.conj_disj_distrib2)
  then have "flags_of v (a # bs) AND f \<noteq> 0 \<longleftrightarrow> g AND f \<noteq> 0 \<or> flags_of v bs AND f \<noteq> 0" by (simp add: or_eq_0_iff)
  then show ?case using Cons flags_disjoint [OF g assms(2)] by auto
qed

lemma ScanRegExpFlags_loop_flags:
  assumes "reading T p s" and "drop p T = us @ rest" and "list_all (\<lambda>u. IsIdentifierPart U (ucast u)) us"
    and "\<not> IsIdentifierPart U (char_at rest 0)" and "regexp_flags v bs = Some fl"
  shows "\<exists>s'. ScanRegExpFlags_loop U v fl s = (regexp_flags v (bs @ map ucast us), s') \<and>
    (regexp_flags v (bs @ map ucast us) \<noteq> None \<longrightarrow> reading T (p + length us) s' \<and> literal_so_far s' = literal_so_far s @ us)"
  using assms
proof (induction us arbitrary: p s bs fl)
  case Nil
  then have "c0 s = char_at rest 0" using char_at_drop [of p T 0] by (simp add: reading_def)
  then show ?case using Nil by (simp add: ScanRegExpFlags_loop.simps [of U v fl s])
next
  case (Cons u us)
  define b :: byte where "b = ucast u"
  have c: "c0 s = ucast u" using reading_char [OF Cons.prems(1)] Cons.prems(2) by simp
  have b: "ucast (c0 s) = b" unfolding c b_def using unat_uc16_less [of u] by (simp add: word_unat_eq_iff unat_ucast)
  have part: "IsIdentifierPart U (c0 s)" using Cons.prems(3) c by simp
  have bs: "distinct bs" "set bs \<subseteq> fst ` set (flag_letters v)" "fl = flags_of v bs"
    using Cons.prems(5) by (auto simp: regexp_flags_def split: if_splits)
  have e: "bs @ map ucast (u # us) = (bs @ [b]) @ map ucast us" by (simp add: b_def)
  show ?case
  proof (cases "map_of (flag_letters v) b")
    case None
    then have "regexp_flags v (bs @ map ucast (u # us)) = None" unfolding e regexp_flags_def by (auto simp: map_of_eq_None_iff)
    then show ?thesis using None part b by (simp add: ScanRegExpFlags_loop.simps [of U v fl s] FlagFromChar_letters)
  next
    case (Some f)
    note m = flags_of_member [OF bs(2) Some, folded bs(3)]
    show ?thesis
    proof (cases "b \<in> set bs")
      case True
      then have "regexp_flags v (bs @ map ucast (u # us)) = None" unfolding e regexp_flags_def by auto
      then show ?thesis using Some True m part b by (simp add: ScanRegExpFlags_loop.simps [of U v fl s] FlagFromChar_letters)
    next
      case False
      have "b \<in> fst ` set (flag_letters v)" using Some by (metis map_of_eq_None_iff option.distinct(1))
      then have n: "regexp_flags v (bs @ [b]) = Some (fl OR f)"
        using False bs Some by (auto simp: regexp_flags_def flags_of_append) (simp add: flags_of_def)
      have d: "drop p T = u # us @ rest" using Cons.prems(2) by simp
      note r = reading_take_char [OF Cons.prems(1) d AddLiteralCharAdvance_eq]
      have l: "ScanRegExpFlags_loop U v fl s = ScanRegExpFlags_loop U v (fl OR f) (AddLiteralCharAdvance s)"
        using Some False m part b by (simp add: ScanRegExpFlags_loop.simps [of U v fl s] FlagFromChar_letters)
      from Cons.IH [OF r(1) drop_char(3) [OF d] _ Cons.prems(4) n] Cons.prems(3) show ?thesis
        unfolding l e using r(2) by auto
    qed
  qed
qed

text \<open>C40. The flags of a regular expression: as long as characters of identifiers follow they are taken for
  flags, each by its low eight bits, because \<^verbatim>\<open>FlagFromChar\<close> takes a \<^verbatim>\<open>char\<close>. They are accepted exactly if
  these bytes are flag letters, none of them twice, and the result is their set; then all of them have been
  read and the literal holds them. So U+0167, whose low byte is the letter \<^verbatim>\<open>g\<close>, is accepted as that flag.\<close>

theorem regexp_flags_scanned:
  assumes "reading T p s" and "drop p T = us @ rest" and "list_all (\<lambda>u. IsIdentifierPart U (ucast u)) us"
    and "\<not> IsIdentifierPart U (char_at rest 0)"
  shows "fst (ScanRegExpFlags U v s) = regexp_flags v (map ucast us) \<and>
    (regexp_flags v (map ucast us) \<noteq> None \<longrightarrow>
      reading T (p + length us) (snd (ScanRegExpFlags U v s)) \<and>
      literal_units (literal_chars (next_desc (snd (ScanRegExpFlags U v s)))) = us \<and>
      end_pos (location (next_desc (snd (ScanRegExpFlags U v s)))) = int (p + length us))"
proof -
  note S = reading_Start [OF assms(1)]
  have "regexp_flags v [] = Some 0" by (simp add: regexp_flags_def flags_of_def)
  from ScanRegExpFlags_loop_flags [OF S(1) assms(2-4) this] S(2)
  obtain s1 where s1: "ScanRegExpFlags_loop U v 0 (Start_literal s) = (regexp_flags v (map ucast us), s1)"
    "regexp_flags v (map ucast us) \<noteq> None \<longrightarrow> reading T (p + length us) s1 \<and> literal_so_far s1 = us" by auto
  show ?thesis
  proof (cases "regexp_flags v (map ucast us)")
    case None
    then show ?thesis using s1(1) by (simp add: ScanRegExpFlags_def)
  next
    case (Some fl)
    define s2 where "s2 = update_next (\<lambda>d. d \<lparr> location := (location d) \<lparr> end_pos := source_pos s1 \<rparr> \<rparr>) s1"
    have r: "reading T (p + length us) s1" "literal_so_far s1 = us" using s1(2) Some by auto
    have "reading T (p + length us) s2" unfolding s2_def by (rule reading_update_next [OF r(1)]) (simp add: desc_inv_def)
    moreover have "source_pos s1 = int (p + length us)" using r(1) by (simp add: reading_def source_pos_def)
    moreover have "ScanRegExpFlags U v s = (Some fl, s2)" using s1(1) Some by (simp add: ScanRegExpFlags_def s2_def)
    ultimately show ?thesis using Some r(2) by (simp add: s2_def)
  qed
qed

text \<open>An ICU that knows one letter more.\<close>

theorem regexp_flags_scanned_witness:
  "let U = latin1_icu \<lparr> icu_id_continue := (\<lambda>c. unicode_id_continue c \<or> c = 0x0167) \<rparr>;
       v = \<lparr> enable_experimental_regexp_engine = False, harmony_regexp_unicode_sets = False \<rparr>;
       flags = (\<lambda>us. fst (ScanRegExpFlags U v (Init (new_Scanner (ScannerStream_ForTesting_uc16 us)
         \<lparr> is_module = False, flag_source_dialect = kJsEng \<rparr>))))
   in flags [0x0167, 0x69] = Some (kGlobal OR kIgnoreCase) \<and> flags [0x67, 0x0167] = None \<and> flags [0x6C] = None"
proof -
  let ?U = "latin1_icu \<lparr> icu_id_continue := (\<lambda>c. unicode_id_continue c \<or> c = 0x0167) \<rparr>"
  let ?v = "\<lparr> enable_experimental_regexp_engine = False, harmony_regexp_unicode_sets = False \<rparr>"
  have p: "IsIdentifierPart ?U 0x0167" "IsIdentifierPart ?U 0x69" "IsIdentifierPart ?U 0x67" "IsIdentifierPart ?U 0x6C"
    "\<not> IsIdentifierPart ?U (char_at [] 0)" by code_simp+
  have e: "fst (ScanRegExpFlags ?U ?v (Init (new_Scanner (ScannerStream_ForTesting_uc16 us) fl))) = regexp_flags ?v (map ucast us)"
    if "list_all (\<lambda>u. IsIdentifierPart ?U (ucast u)) us" for us fl
    using regexp_flags_scanned [OF reading_testing_uc16 _ that p(5), of us ?v fl] by simp
  have f: "regexp_flags ?v (map ucast [0x0167 :: uc16, 0x69]) = Some (kGlobal OR kIgnoreCase)"
    "regexp_flags ?v (map ucast [0x67 :: uc16, 0x0167]) = None" "regexp_flags ?v (map ucast [0x6C :: uc16]) = None"
    by code_simp+
  show ?thesis unfolding Let_def using e [of "[0x0167, 0x69]"] e [of "[0x67, 0x0167]"] e [of "[0x6C]"] p(1-4) f by simp
qed

end
