(* ===== verification/Scanner_Numbers.thy ===== *)
theory Scanner_Numbers
  imports Scanner_Text
begin

text \<open>
  Decimal integer literals in source text. A numeral is a list of digits, each with a
  flag saying whether a separator stands before it; its value is the decimal number of
  its digits. The theorem says which token and value the scanner gives it, although
  the scanner accumulates the value in a 64-bit word that may wrap.
\<close>

section \<open>Numerals\<close>

definition digit_byte :: "byte \<Rightarrow> bool" where
  "digit_byte d \<longleftrightarrow> 0x30 \<le> d \<and> d \<le> 0x39"

definition numeral_text :: "(bool \<times> byte) list \<Rightarrow> uc16 list" where
  "numeral_text n = concat (map (\<lambda>(sep, d). (if sep then [0x5F] else []) @ [ucast d]) n)"

definition decimal_value :: "byte list \<Rightarrow> nat" where
  "decimal_value ds = foldl (\<lambda>v d. 10 * v + (unat d - 48)) 0 ds"

text \<open>What may follow a decimal integer.\<close>

definition ends_integer :: "icu \<Rightarrow> uc16 list \<Rightarrow> bool" where
  "ends_integer U rest \<longleftrightarrow> (let c = char_at rest 0 in
     \<not> IsDecimalDigit c \<and> c \<noteq> 0x5F \<and> c \<noteq> 0x2E \<and> \<not> IsIdentifierStart U c)"

lemma ucast_of_nat: "unat (x :: uc32) = n \<Longrightarrow> (ucast x :: 64 word) = of_nat n"
  by (auto simp: word_unat_eq_iff unat_ucast unat_of_nat)

lemma AsciiAlphaToLower_e: "AsciiAlphaToLower c = 0x65 \<longleftrightarrow> c = 0x45 \<or> c = 0x65"
proof (rule uc32_enum_128 [where c = c], code_simp)
  assume "0x80 \<le> c"
  moreover from this have "0x80 \<le> AsciiAlphaToLower c"
    using AsciiAlphaToLower_ge order_trans by blast
  ultimately show ?thesis by auto
qed

lemma digit_char:
  assumes "digit_byte d"
  shows "IsDecimalDigit (ucast (ucast d :: uc16))" "(ucast (ucast d :: uc16) :: uc32) \<noteq> 0x5F" "(ucast d :: uc16) \<le> 0xff"
    "(ucast (ucast (ucast d :: uc16) - 0x30 :: uc32) :: 64 word) = of_nat (unat d - 48)"
proof -
  have d: "48 \<le> unat d" "unat d \<le> 57" using assms by (simp_all add: digit_byte_def word_le_nat_alt)
  show "IsDecimalDigit (ucast (ucast d :: uc16))" "(ucast (ucast d :: uc16) :: uc32) \<noteq> 0x5F"
    "(ucast d :: uc16) \<le> 0xff"
    using d by (simp_all add: IsDecimalDigit_iff word_le_nat_alt unat_widen word_unat_eq_iff)
  have "unat (ucast (ucast d :: uc16) - 0x30 :: uc32) = unat d - 48"
    using d by (subst unat_sub) (simp_all add: word_le_nat_alt unat_widen)
  then show "(ucast (ucast (ucast d :: uc16) - 0x30 :: uc32) :: 64 word) = of_nat (unat d - 48)"
    by (rule ucast_of_nat)
qed

lemma decimal_fold_bounds:
  assumes "list_all digit_byte ds"
  shows "n * 10 ^ length ds \<le> foldl (\<lambda>v d. 10 * v + (unat d - 48)) n ds \<and>
    foldl (\<lambda>v d. 10 * v + (unat d - 48)) n ds < Suc n * 10 ^ length ds"
  using assms
proof (induction ds arbitrary: n)
  case (Cons d ds)
  have d: "48 \<le> unat d" "unat d \<le> 57" using Cons.prems by (simp_all add: digit_byte_def word_le_nat_alt)
  let ?m = "10 * n + (unat d - 48)"
  have "n * 10 ^ length (d # ds) \<le> ?m * 10 ^ length ds"
    by (simp add: algebra_simps)
  moreover have "Suc ?m * 10 ^ length ds \<le> (10 * Suc n) * 10 ^ length ds"
    using d by (intro mult_right_mono) simp_all
  ultimately show ?case
    using Cons.IH [of ?m] Cons.prems by (auto simp: algebra_simps)
qed simp

lemma decimal_value_bounds:
  assumes "list_all digit_byte ds"
  shows "decimal_value ds < 10 ^ length ds"
    "ds \<noteq> [] \<Longrightarrow> hd ds \<noteq> 0x30 \<Longrightarrow> 10 ^ (length ds - 1) \<le> decimal_value ds"
proof -
  show "decimal_value ds < 10 ^ length ds"
    using decimal_fold_bounds [OF assms, of 0] by (simp add: decimal_value_def)
  assume ds: "ds \<noteq> []" "hd ds \<noteq> 0x30"
  then obtain d es where e: "ds = d # es" "d \<noteq> 0x30" by (cases ds) auto
  have "48 < unat d" using assms e by (auto simp: digit_byte_def word_le_nat_alt word_unat_eq_iff)
  then have "10 ^ length es \<le> (unat d - 48) * 10 ^ length es" by simp
  also have "\<dots> \<le> decimal_value ds"
    using decimal_fold_bounds [of es "unat d - 48"] assms e by (simp add: decimal_value_def)
  finally show "10 ^ (length ds - 1) \<le> decimal_value ds" using e by simp
qed

text \<open>The 64-bit value decides whether a numeral without leading zero is small.\<close>

lemma small_value:
  assumes "list_all digit_byte ds" and "ds \<noteq> []" and "hd ds \<noteq> 0x30"
  shows "length ds \<le> 10 \<and> (of_nat (decimal_value ds) :: 64 word) \<le> kSmiMaxValue \<longleftrightarrow> decimal_value ds \<le> 2147483647"
proof (cases "length ds \<le> 10")
  case True
  then have "(10 :: nat) ^ length ds \<le> 10 ^ 10" by (intro power_increasing) simp_all
  with decimal_value_bounds(1) [OF assms(1)] have "decimal_value ds < 10 ^ 10" by linarith
  with True show ?thesis by (simp add: word_le_nat_alt unat_of_nat)
next
  case False
  then have "(10 :: nat) ^ 10 \<le> 10 ^ (length ds - 1)" by (intro power_increasing) simp_all
  also have "\<dots> \<le> decimal_value ds" by (rule decimal_value_bounds(2) [OF assms])
  finally show ?thesis using False by simp
qed

text \<open>The digit loop with separators on a numeral.\<close>

lemma numeral_text_simps:
  "numeral_text [] = []" "numeral_text ((True, d) # n) = 0x5F # ucast d # numeral_text n"
  "numeral_text ((False, d) # n) = ucast d # numeral_text n"
  by (simp_all add: numeral_text_def)

lemma separators_digit:
  assumes "reading T p s" and "drop p T = ucast d # us" and "digit_byte d"
  shows "ScanDecimalAsSmi_separators (of_nat v) b s =
    ScanDecimalAsSmi_separators (of_nat (10 * v + (unat d - 48))) False (AddLiteralChar (c0 s) (Advance s))"
  using reading_char [OF assms(1,2)] digit_char [OF assms(3)]
  by (simp add: ScanDecimalAsSmi_separators.simps [of _ b s])

lemma ScanDecimalAsSmi_numeral:
  assumes "reading T p s" and "drop p T = numeral_text n @ rest" and "list_all digit_byte (map snd n)"
    and "ends_integer U rest" and "latin1_so_far s" and "literal_so_far s = map ucast w"
  shows "\<exists>s'. ScanDecimalAsSmi_separators (of_nat v) False s =
      (True, of_nat (foldl (\<lambda>v d. 10 * v + (unat d - 48)) v (map snd n)), s') \<and>
    reading T (p + length (numeral_text n)) s' \<and> latin1_so_far s' \<and>
    literal_so_far s' = map ucast (w @ map snd n) \<and> location (next_desc s') = location (next_desc s)"
  using assms
proof (induction n arbitrary: p s v w)
  case Nil
  have "c0 s = char_at rest 0"
    using Nil.prems(1,2) char_at_drop [of p T 0] by (simp add: reading_def numeral_text_simps)
  with Nil.prems show ?case
    by (simp add: ScanDecimalAsSmi_separators.simps [of _ False s] ends_integer_def Let_def numeral_text_simps)
next
  case (Cons x n)
  obtain sep d where x: "x = (sep, d)" by fastforce
  have d: "digit_byte d" "list_all digit_byte (map snd n)" using Cons.prems(3) x by simp_all
  define s0 where "s0 = (if sep then Advance s else s)"
  define q where "q = (if sep then Suc p else p)"
  have r: "reading T q s0" "drop q T = ucast d # numeral_text n @ rest"
    using Cons.prems(1,2) reading_Advance [of T p s] drop_char(3) [of p T] x
    by (cases sep; simp add: s0_def q_def numeral_text_simps)+
  have lit: "literal_so_far s0 = map ucast w" "latin1_so_far s0" "location (next_desc s0) = location (next_desc s)"
    using Cons.prems(5,6) by (simp_all add: s0_def)
  define s1 where "s1 = AddLiteralChar (c0 s0) (Advance s0)"
  note D = reading_take_char [OF r s1_def]
  have l1: "latin1_so_far s1" "literal_so_far s1 = map ucast (w @ [d])"
    using D(2,3) lit digit_char(3) [OF d(1)] by simp_all
  from Cons.IH [OF D(1) drop_char(3) [OF r(2)] d(2) Cons.prems(4) l1, of "10 * v + (unat d - 48)"]
  obtain s' where s': "ScanDecimalAsSmi_separators (of_nat (10 * v + (unat d - 48))) False s1 =
      (True, of_nat (foldl (\<lambda>v d. 10 * v + (unat d - 48)) (10 * v + (unat d - 48)) (map snd n)), s')"
    "reading T (Suc q + length (numeral_text n)) s'" "latin1_so_far s'"
    "literal_so_far s' = map ucast ((w @ [d]) @ map snd n)" "location (next_desc s') = location (next_desc s1)"
    by auto
  have "ScanDecimalAsSmi_separators (of_nat v) False s = ScanDecimalAsSmi_separators (of_nat v) sep s0"
  proof (cases sep)
    case True
    have "c0 s = 0x5F" using reading_char [OF Cons.prems(1), of "0x5F"] Cons.prems(2) x True
      by (simp add: numeral_text_simps)
    moreover have "c0 (Advance s) \<noteq> 0x5F"
      using reading_char [OF r] digit_char(2) [OF d(1)] True by (simp add: s0_def)
    ultimately show ?thesis
      using True by (simp add: ScanDecimalAsSmi_separators.simps [of _ False s] s0_def)
  qed (simp add: s0_def)
  with separators_digit [OF r d(1), of v sep] s' D(4) lit(3) x show ?case
    by (cases sep) (auto simp: s1_def [symmetric] q_def numeral_text_simps)
qed

text \<open>Behind the digits nothing of a number follows: the general path stops at once.\<close>

lemma ends_integer_tail:
  assumes "c0 s = char_at rest 0" and "ends_integer U rest"
  shows "ScanNumber_fraction True s = (True, False, s)"
    "ScanNumber_tail U DECIMAL False start s = (Token_NUMBER, s)"
proof -
  have c: "\<not> IsDecimalDigit (c0 s)" "c0 s \<noteq> 0x5F" "c0 s \<noteq> 0x2E" "\<not> IsIdentifierStart U (c0 s)"
    using assms by (simp_all add: ends_integer_def Let_def)
  have "IsIdentifierStart U 0x6E" "IsIdentifierStart U 0x45" "IsIdentifierStart U 0x65"
    by (simp_all add: one_byte_classes IsOneByteIDStart_def)
  then have "c0 s \<noteq> 0x6E" "AsciiAlphaToLower (c0 s) \<noteq> 0x65"
    using c(4) by (auto simp: AsciiAlphaToLower_e)
  with c show "ScanNumber_fraction True s = (True, False, s)"
    "ScanNumber_tail U DECIMAL False start s = (Token_NUMBER, s)"
    by (simp_all add: ScanNumber_fraction_def ScanDecimalDigits_def ScanDigitsWithNumericSeparators_def
        ScanDigits_loop.simps [of _ False s] ScanNumber_tail_def Let_def)
qed

text \<open>\<^verbatim>\<open>ScanNumber\<close> on a numeral without leading zero.\<close>

lemma ScanNumber_numeral:
  assumes "reading T p s" and "drop p T = numeral_text n @ rest" and "list_all digit_byte (map snd n)"
    and "n \<noteq> []" and "\<not> fst (hd n)" and "snd (hd n) \<noteq> 0x30" and "ends_integer U rest"
    and "ScanNumber U False s = (t, s')"
  shows "t = (if decimal_value (map snd n) \<le> 2147483647 then Token_SMI else Token_NUMBER)"
    "reading T (p + length (numeral_text n)) s'" "literal_so_far s' = map ucast (map snd n)"
    "location (next_desc s') = location (next_desc s)"
    "t = Token_SMI \<Longrightarrow> smi_value (next_desc s') = of_nat (decimal_value (map snd n))"
proof -
  let ?v = "decimal_value (map snd n)"
  define s0 where "s0 = Start_literal s"
  note S = reading_Start [OF assms(1), folded s0_def]
  obtain s1 where s1: "ScanDecimalAsSmi_separators 0 False s0 = (True, of_nat ?v, s1)"
    "reading T (p + length (numeral_text n)) s1" "latin1_so_far s1" "literal_so_far s1 = map ucast (map snd n)"
    "location (next_desc s1) = location (next_desc s0)"
    using ScanDecimalAsSmi_numeral [OF S(1) assms(2,3,7) S(3), of "[]" 0] S(2) by (auto simp: decimal_value_def)
  have len: "length (one_byte_literal (literal_chars (next_desc s1))) = length (map snd n)"
    using one_byte_units [OF s1(3,4)] by simp
  have c1: "c0 s1 = char_at rest 0"
    using s1(2) char_at_drop [of "p + length (numeral_text n)" T 0] drop_behind [OF assms(2)] by (simp add: reading_def)
  have "c0 s0 \<noteq> 0x30"
  proof -
    obtain d m where n: "n = (False, d) # m" "d \<noteq> 0x30" "digit_byte d"
      using assms(3-6) by (cases n) auto
    have "c0 s0 = ucast (ucast d :: uc16)"
      using reading_char [OF S(1)] assms(2) n(1) by (simp add: numeral_text_simps)
    with n(2) show ?thesis by (simp add: word_unat_eq_iff unat_widen)
  qed
  then have R: "ScanNumber U False s =
      (case ScanNumber_decimal U DECIMAL True (source_pos s0) s0 of
         (Some tok, seen, s) \<Rightarrow> (tok, s) | (None, seen, s) \<Rightarrow> ScanNumber_tail U DECIMAL seen (source_pos s0) s)"
    by (simp add: ScanNumber_def s0_def [symmetric] Let_def IsDecimalNumberKind_def)
  have small: "length (map snd n) \<le> 10 \<and> (of_nat ?v :: 64 word) \<le> kSmiMaxValue \<longleftrightarrow> ?v \<le> 2147483647"
    by (rule small_value) (use assms(3,4,6) in \<open>auto simp: hd_map\<close>)
  have e: "c0 s1 \<noteq> 0x2E" "\<not> IsIdentifierStart U (c0 s1)" using assms(7) c1 by (simp_all add: ends_integer_def Let_def)
  define s2 where "s2 = update_next (\<lambda>d. d \<lparr> smi_value := ucast (of_nat ?v :: 64 word) \<rparr>) s1"
  have "(t, s') = (if ?v \<le> 2147483647 then (Token_SMI, s2) else (Token_NUMBER, s1))"
    using assms(8) R s1(1) len e small ends_integer_tail [OF c1 assms(7)]
    by (auto simp: ScanNumber_decimal_def ScanDecimalAsSmi_def ScanDecimalAsSmiWithNumericSeparators_def Let_def s2_def)
  moreover have "reading T (p + length (numeral_text n)) s2"
    unfolding s2_def by (rule reading_update_next [OF s1(2)]) (simp add: desc_inv_def)
  moreover have "(ucast (of_nat ?v :: 64 word) :: uc32) = of_nat ?v" if "?v \<le> 2147483647"
    using that by (simp add: word_unat_eq_iff unat_ucast unat_of_nat)
  ultimately show "t = (if ?v \<le> 2147483647 then Token_SMI else Token_NUMBER)"
    "reading T (p + length (numeral_text n)) s'" "literal_so_far s' = map ucast (map snd n)"
    "location (next_desc s') = location (next_desc s)"
    "t = Token_SMI \<Longrightarrow> smi_value (next_desc s') = of_nat ?v"
    using s1(2,4,5) S(4) by (auto simp: s2_def split: if_splits)
qed

text \<open>\<^verbatim>\<open>ScanNumber\<close> on a single zero: what may follow starts neither a prefix nor further digits.\<close>

lemma letter_start: "IsInRange (AsciiAlphaToLower c) 0x61 0x7A \<Longrightarrow> IsIdentifierStart U c"
  unfolding AsciiAlphaToLower_letter
  by (subst one_byte_classes(1)) (auto simp: IsOneByteIDStart_def word_le_nat_alt)

lemma ScanNumber_lone_zero:
  assumes "reading T p s" and "drop p T = 0x30 # rest" and "ends_integer U rest" and "ScanNumber U False s = (t, s')"
  shows "t = Token_SMI" "reading T (Suc p) s'" "literal_so_far s' = [0x30]"
    "location (next_desc s') = location (next_desc s)" "smi_value (next_desc s') = 0"
proof -
  define s0 where "s0 = Start_literal s"
  note S = reading_Start [OF assms(1), folded s0_def]
  define s1 where "s1 = AddLiteralCharAdvance s0"
  note r = reading_take_char [OF S(1) assms(2) s1_def [unfolded AddLiteralCharAdvance_eq]]
  have c1: "c0 s1 = char_at rest 0"
    using r(1) char_at_drop [of "Suc p" T 0] drop_char(3) [OF assms(2)] by (simp add: reading_def)
  have e: "\<not> IsDecimalDigit (c0 s1)" "c0 s1 \<noteq> 0x5F" "c0 s1 \<noteq> 0x2E" "\<not> IsIdentifierStart U (c0 s1)"
    using assms(3) c1 by (simp_all add: ends_integer_def Let_def)
  have prefix: "AsciiAlphaToLower (c0 s1) \<noteq> 0x78" "AsciiAlphaToLower (c0 s1) \<noteq> 0x6F" "AsciiAlphaToLower (c0 s1) \<noteq> 0x62"
    using letter_start [of "c0 s1" U] e(4) by (auto simp: IsInRange_iff)
  have digits: "\<not> IsOctalDigit (c0 s1)" "\<not> IsNonOctalDecimalDigit (c0 s1)"
    using e(1) by (auto simp: IsDecimalDigit_iff IsOctalDigit_iff IsNonOctalDecimalDigit_iff word_le_nat_alt)
  have z: "ScanNumber_zero q s0 = (True, DECIMAL, True, s1)" for q
    using prefix digits e(2) by (simp add: ScanNumber_zero_def s1_def [symmetric] Let_def)
  have l1: "literal_so_far s1 = map ucast [0x30 :: byte]" "latin1_so_far s1" using r(2,3) S(2,3) by simp_all
  have len: "length (one_byte_literal (literal_chars (next_desc s1))) = 1" using one_byte_units [OF l1(2,1)] by simp
  have smi: "ScanDecimalAsSmi 0 True s1 = (True, 0, s1)"
    using e(1,2) by (simp add: ScanDecimalAsSmi_def ScanDecimalAsSmiWithNumericSeparators_def
        ScanDecimalAsSmi_separators.simps [of _ False s1])
  define s2 where "s2 = update_next (\<lambda>d. d \<lparr> smi_value := 0 \<rparr>) s1"
  have "c0 s0 = 0x30" using reading_char [OF S(1) assms(2)] by simp
  then have "(t, s') = (Token_SMI, s2)"
    using assms(4) z len smi e(3,4)
    by (simp add: ScanNumber_def s0_def [symmetric] Let_def IsDecimalNumberKind_def ScanNumber_decimal_def s2_def)
  moreover have "reading T (Suc p) s2"
    unfolding s2_def by (rule reading_update_next [OF r(1)]) (simp add: desc_inv_def)
  ultimately show "t = Token_SMI" "reading T (Suc p) s'" "literal_so_far s' = [0x30]"
    "location (next_desc s') = location (next_desc s)" "smi_value (next_desc s') = 0"
    using l1(1) r(4) S(4) by (simp_all add: s2_def)
qed

text \<open>Both together.\<close>

lemma ScanNumber_integer:
  assumes "reading T p s" and "drop p T = numeral_text n @ rest" and "list_all digit_byte (map snd n)"
    and "n \<noteq> []" and "\<not> fst (hd n)" and "snd (hd n) \<noteq> 0x30 \<or> length n = 1" and "ends_integer U rest"
    and "ScanNumber U False s = (t, s')"
  shows "t = (if decimal_value (map snd n) \<le> 2147483647 then Token_SMI else Token_NUMBER)"
    "reading T (p + length (numeral_text n)) s'" "literal_so_far s' = map ucast (map snd n)"
    "location (next_desc s') = location (next_desc s)"
    "t = Token_SMI \<Longrightarrow> smi_value (next_desc s') = of_nat (decimal_value (map snd n))"
proof -
  have "t = (if decimal_value (map snd n) \<le> 2147483647 then Token_SMI else Token_NUMBER) \<and>
    reading T (p + length (numeral_text n)) s' \<and> literal_so_far s' = map ucast (map snd n) \<and>
    location (next_desc s') = location (next_desc s) \<and>
    (t = Token_SMI \<longrightarrow> smi_value (next_desc s') = of_nat (decimal_value (map snd n)))"
  proof (cases "snd (hd n) = 0x30")
    case False
    from ScanNumber_numeral [OF assms(1-5) False assms(7,8)] show ?thesis by blast
  next
    case True
    then have n: "n = [(False, 0x30)]" using assms(4-6) by (cases n) auto
    have d: "drop p T = 0x30 # rest" using assms(2) by (simp add: n numeral_text_simps)
    from ScanNumber_lone_zero [OF assms(1) d assms(7,8)] show ?thesis by (simp add: n numeral_text_simps decimal_value_def)
  qed
  then show "t = (if decimal_value (map snd n) \<le> 2147483647 then Token_SMI else Token_NUMBER)"
    "reading T (p + length (numeral_text n)) s'" "literal_so_far s' = map ucast (map snd n)"
    "location (next_desc s') = location (next_desc s)"
    "t = Token_SMI \<Longrightarrow> smi_value (next_desc s') = of_nat (decimal_value (map snd n))" by blast+
qed

lemma scan_round_digit:
  assumes "IsDecimalDigit (c0 s)"
  shows "scan_round U s = returned (ScanNumber U False (set_beg_pos s))"
proof -
  have "c0 s \<le> kMaxAscii" "GetOneCharToken (c0 s) = Token_NUMBER"
    using assms by (auto simp: IsDecimalDigit_iff GetOneCharToken_def word_le_nat_alt)
  then show ?thesis by (simp add: scan_round_def scan_ascii_def Let_def)
qed

text \<open>C5. Decimal integer literals: a single zero, or a numeral that starts with another digit, with or
  without numeric separators between its digits, is scanned as a whole when no digit, separator,
  period or start of an identifier follows. It is a \<^verbatim>\<open>SMI\<close> with its decimal value exactly if that value
  is at most \<^verbatim>\<open>Smi::kMaxValue\<close>, although the value is accumulated in a 64-bit word that wraps
  for long numerals, and a \<^verbatim>\<open>NUMBER\<close> otherwise; its literal is its digits without the
  separators. Numerals of more digits with a leading zero are not among these.\<close>

theorem integer_scanned:
  assumes "reading T p s" and "drop p T = numeral_text n @ rest" and "list_all digit_byte (map snd n)"
    and "n \<noteq> []" and "\<not> fst (hd n)" and "snd (hd n) \<noteq> 0x30 \<or> length n = 1" and "ends_integer U rest"
  shows "peek (Scan U s) = (if decimal_value (map snd n) \<le> 2147483647 then Token_SMI else Token_NUMBER) \<and>
    (decimal_value (map snd n) \<le> 2147483647 \<longrightarrow>
      unat (smi_value (next_desc (Scan U s))) = decimal_value (map snd n)) \<and>
    literal_units (literal_chars (next_desc (Scan U s))) = map (ucast \<circ> snd) n \<and>
    location (next_desc (Scan U s)) = mk_Location (int p) (int (p + length (numeral_text n))) \<and>
    reading T (p + length (numeral_text n)) (Scan U s)"
proof -
  define s0 where "s0 = set_beg_pos (set_after_line_terminator False s)"
  have r: "reading T p s0" unfolding s0_def by (intro reading_set_beg_pos reading_set_after assms(1))
  have b: "beg_pos (location (next_desc s0)) = int p"
    using assms(1) by (simp add: s0_def set_beg_pos_def set_after_line_terminator_def reading_def source_pos_def)
  obtain t s1 where t: "ScanNumber U False s0 = (t, s1)" by fastforce
  note N = ScanNumber_integer [OF r assms(2-7) t]
  obtain d m where n: "n = (False, d) # m" "digit_byte d" using assms(3-5) by (cases n) auto
  have "IsDecimalDigit (c0 s)"
    using reading_char [OF assms(1)] assms(2) n digit_char(1) [OF n(2)] by (simp add: numeral_text_simps)
  then have "scan_round U (set_after_line_terminator False s) = (t, True, s1)"
    using t by (simp add: s0_def scan_round_digit)
  note S = Scan_one_round [OF assms(1) this _ N(2)]
  have "unat (of_nat (decimal_value (map snd n)) :: 32 word) = decimal_value (map snd n)"
    if "decimal_value (map snd n) \<le> 2147483647" using that by (simp add: unat_of_nat)
  with S N b show ?thesis by auto
qed

theorem integer_scanned_witness:
  "peek (Scan latin1_icu (Init (new_Scanner (ScannerStream_ForTesting (ascii ''2_147483647;''))
     \<lparr> is_module = False, flag_source_dialect = kJsEng \<rparr>))) = Token_SMI \<and>
   peek (Scan latin1_icu (Init (new_Scanner (ScannerStream_ForTesting (ascii ''2_147483648;''))
     \<lparr> is_module = False, flag_source_dialect = kJsEng \<rparr>))) = Token_NUMBER \<and>
   peek (Scan latin1_icu (Init (new_Scanner (ScannerStream_ForTesting (ascii ''0;''))
     \<lparr> is_module = False, flag_source_dialect = kJsEng \<rparr>))) = Token_SMI"
proof -
  let ?fl = "\<lparr> is_module = False, flag_source_dialect = kJsEng \<rparr>"
  let ?n = "\<lambda>d. [(False, 0x32 :: byte), (True, 0x31), (False, 0x34), (False, 0x37), (False, 0x34), (False, 0x38),
    (False, 0x33), (False, 0x36), (False, 0x34), (False, d)]"
  have e: "ends_integer latin1_icu [0x3B]"
    by (simp add: ends_integer_def char_at_def IsDecimalDigit_iff one_byte_classes IsOneByteIDStart_def)
  have "decimal_value (map snd (?n 0x37)) = 2147483647" "decimal_value (map snd (?n 0x38)) = 2147483648"
    by (simp_all add: decimal_value_def)
  moreover have "list_all digit_byte (map snd (?n 0x37))" "list_all digit_byte (map snd (?n 0x38))"
    by (simp_all add: digit_byte_def)
  moreover have "map ucast (ascii ''2_147483647;'') = numeral_text (?n 0x37) @ [0x3B]"
    "map ucast (ascii ''2_147483648;'') = numeral_text (?n 0x38) @ [0x3B]"
    "map ucast (ascii ''0;'') = numeral_text [(False, 0x30)] @ [0x3B]"
    by (simp_all add: numeral_text_def)
  moreover have "decimal_value (map snd [(False, 0x30 :: byte)]) = 0" "list_all digit_byte (map snd [(False, 0x30 :: byte)])"
    by (simp_all add: decimal_value_def digit_byte_def)
  ultimately show ?thesis
    using integer_scanned [OF reading_testing [of "ascii ''2_147483647;''" ?fl] _ _ _ _ _ e, of "?n 0x37"]
      integer_scanned [OF reading_testing [of "ascii ''2_147483648;''" ?fl] _ _ _ _ _ e, of "?n 0x38"]
      integer_scanned [OF reading_testing [of "ascii ''0;''" ?fl] _ _ _ _ _ e, of "[(False, 0x30)]"]
    by simp
qed

end
