(* ===== verification/Scanner_Strings.thy ===== *)
theory Scanner_Strings
  imports Scanner_Text
begin

text \<open>
  String literals in source text: every string, written between quotes with its
  quotes, backslashes and line ends escaped, is read back by the scanner.
\<close>

section \<open>Writing a string literal\<close>

definition escape_unit :: "uc16 \<Rightarrow> uc16 \<Rightarrow> uc16 list" where
  "escape_unit quote u =
     (if u = quote \<or> u = 0x5C then [0x5C, u]
      else if u = 0x0A then [0x5C, 0x6E]
      else if u = 0x0D then [0x5C, 0x72]
      else [u])"

definition escaped_text :: "uc16 \<Rightarrow> uc16 list \<Rightarrow> uc16 list" where
  "escaped_text quote us = concat (map (escape_unit quote) us)"

definition string_text :: "uc16 \<Rightarrow> uc16 list \<Rightarrow> uc16 list" where
  "string_text quote us = quote # escaped_text quote us @ [quote]"

lemma escaped_text_simps [simp]:
  "escaped_text q [] = []" "escaped_text q (u # us) = escape_unit q u @ escaped_text q us"
  by (simp_all add: escaped_text_def)

section \<open>The closure of the string loop\<close>

text \<open>The units the search runs over without stopping.\<close>

definition plain :: "uc16 \<Rightarrow> bool" where
  "plain u \<longleftrightarrow> u \<notin> {0x27, 0x22, 0x0A, 0x0D, 0x5C}"

lemma MayTerminateString_bit: "MayTerminateString f \<longleftrightarrow> bit f 3"
  using and_exp_eq_0_iff_not_bit [of f 3] by (simp add: MayTerminateString_def)

lemma string_check_unit: "string_check (ucast u) b = (if plain u then (False, AddChar b (ucast u)) else (True, b))"
proof -
  have "bit (GetScanFlags c) 3 \<longleftrightarrow> c = 0x27 \<or> c = 0x22 \<or> c = 0x0A \<or> c = 0x0D \<or> c = 0x5C" for c
    by (simp add: GetScanFlags_def bit_or_iff)
  moreover have "(ucast u :: uc32) = 0x27 \<longleftrightarrow> u = 0x27" "(ucast u :: uc32) = 0x22 \<longleftrightarrow> u = 0x22"
    "(ucast u :: uc32) = 0x0A \<longleftrightarrow> u = 0x0A" "(ucast u :: uc32) = 0x0D \<longleftrightarrow> u = 0x0D" "(ucast u :: uc32) = 0x5C \<longleftrightarrow> u = 0x5C"
    "(ucast u :: uc32) \<le> kMaxAscii \<longleftrightarrow> u \<le> 0x7F"
    by (simp_all add: word_unat_eq_iff unat_widen word_le_nat_alt)
  ultimately show ?thesis
    by (auto simp: string_check_def MayTerminateString_bit plain_def IsStringLiteralLineTerminator_def Let_def)
qed

lemma string_first_hit:
  assumes "list_all plain vs" and "\<not> plain x"
  shows "first_hit string_check b (vs @ x # rest) =
    (ucast x, foldl (\<lambda>b u. AddChar b (ucast u)) b vs, Suc (length vs))"
  using assms(1) by (induction vs arbitrary: b) (simp_all add: string_check_unit assms(2))

lemma AddChar_units:
  "literal_inv b \<Longrightarrow> literal_inv (foldl (\<lambda>b u. AddChar b (ucast u)) b vs) \<and>
   literal_units (foldl (\<lambda>b u. AddChar b (ucast u)) b vs) = literal_units b @ vs"
  using AddChar_spec by (induction vs arbitrary: b) (simp_all add: code_units_unit)

text \<open>A search of the string loop.\<close>

lemma reading_string_search:
  assumes "reading T p s" and "drop (Suc p) T = vs @ x # rest" and "list_all plain vs" and "\<not> plain x"
    and "s' = AdvanceUntil_literal string_check s"
  shows "reading T (p + Suc (length vs)) s'" "literal_so_far s' = literal_so_far s @ vs"
    "location (next_desc s') = location (next_desc s)"
proof -
  have p: "p < length T" using assms(2) by (metis drop_all append_is_Nil_conv list.distinct(1) not_le not_less_eq_eq linear)
  let ?b = "literal_chars (next_desc s)" and ?b' = "foldl (\<lambda>b u. AddChar b (ucast u)) (literal_chars (next_desc s)) vs"
  obtain a s1 where A: "AdvanceUntil string_check ?b s = (a, s1)" by fastforce
  note R = reading_AdvanceUntil [OF assms(1) p A, unfolded assms(2), OF string_first_hit [OF assms(3,4)]]
  have s': "s' = update_next (\<lambda>d. d \<lparr> literal_chars := ?b' \<rparr>) s1"
    using assms(5) A R(1) by (simp add: AdvanceUntil_literal_def)
  note L = AddChar_units [OF reading_literal_inv [OF assms(1)], of vs]
  show "reading T (p + Suc (length vs)) s'" unfolding s'
    by (rule reading_update_next [OF R(2)]) (use L in \<open>simp add: desc_inv_def\<close>)
  show "literal_so_far s' = literal_so_far s @ vs" "location (next_desc s') = location (next_desc s)"
    using L R(3) by (simp_all add: s' same_scan_def)
qed

section \<open>The string loop\<close>

text \<open>The body of the loop behind the search, and what a finished string leaves.\<close>

definition string_rest :: "uc32 \<Rightarrow> Scanner \<Rightarrow> token \<times> Scanner" where
  "string_rest quote s =
     (case ScanString_escapes s of (ok, s) \<Rightarrow>
        if \<not> ok then (Token_ILLEGAL, s)
        else if c0 s = quote then (Token_STRING, Advance s)
        else if c0 s = kEndOfInput \<or> IsStringLiteralLineTerminator (c0 s) then (Token_ILLEGAL, s)
        else ScanString_loop quote (AddLiteralChar (c0 s) s))"

lemma ScanString_loop_rest: "ScanString_loop q s = string_rest q (AdvanceUntil_literal string_check s)"
  by (simp add: ScanString_loop.simps [of q s] string_rest_def)

definition string_done :: "uc16 list \<Rightarrow> nat \<Rightarrow> uc16 list \<Rightarrow> Location \<Rightarrow> token \<times> Scanner \<Rightarrow> bool" where
  "string_done T e lit loc r \<longleftrightarrow> fst r = Token_STRING \<and> reading T e (snd r) \<and>
     literal_so_far (snd r) = lit \<and> location (next_desc (snd r)) = loc"

definition quote_unit :: "uc16 \<Rightarrow> bool" where
  "quote_unit q \<longleftrightarrow> q = 0x22 \<or> q = 0x27"

lemma escape_plain: "quote_unit q \<Longrightarrow> plain u \<Longrightarrow> escape_unit q u = [u]"
  by (auto simp: plain_def escape_unit_def quote_unit_def)

lemma escaped_plain_prefix:
  "quote_unit q \<Longrightarrow> list_all plain vs \<Longrightarrow> escaped_text q (vs @ us) = vs @ escaped_text q us"
  by (induction vs) (simp_all add: escape_plain)

lemma escaped_stop:
  assumes "quote_unit q" and "us = [] \<or> \<not> plain (hd us)"
  obtains x tail where "escaped_text q us @ q # rest = x # tail" "\<not> plain x"
proof (cases us)
  case Nil
  then show ?thesis using that [of q rest] assms(1) by (auto simp: quote_unit_def plain_def)
next
  case (Cons u vs)
  then have "\<not> plain u" using assms(2) by simp
  then have "\<exists>x tail. escape_unit q u = x # tail \<and> \<not> plain x" by (auto simp: escape_unit_def plain_def)
  then show ?thesis using that Cons by auto
qed

lemma string_search:
  assumes "reading T p s" and "drop (Suc p) T = escaped_text q us @ q # rest" and "quote_unit q"
    and rest: "\<And>vs us' p' s'. us = vs @ us' \<Longrightarrow> reading T p' s' \<Longrightarrow> drop p' T = escaped_text q us' @ q # rest \<Longrightarrow>
      string_done T (p' + Suc (length (escaped_text q us'))) (literal_so_far s' @ us') (location (next_desc s'))
        (string_rest (ucast q) s')"
  shows "string_done T (Suc p + Suc (length (escaped_text q us))) (literal_so_far s @ us) (location (next_desc s))
    (ScanString_loop (ucast q) s)"
proof -
  define vs us' where "vs = takeWhile plain us" and "us' = dropWhile plain us"
  have us: "us = vs @ us'" by (simp add: vs_def us'_def)
  have vs: "list_all plain vs" "us' = [] \<or> \<not> plain (hd us')"
    using hd_dropWhile [of plain us] by (auto simp: vs_def us'_def list_all_iff dest: set_takeWhileD simp del: dropWhile_eq_Nil_conv)
  note e = escaped_plain_prefix [OF assms(3) vs(1), of us']
  obtain x tail where x: "escaped_text q us' @ q # rest = x # tail" "\<not> plain x"
    by (rule escaped_stop [OF assms(3) vs(2)])
  define s' where "s' = AdvanceUntil_literal string_check s"
  have d: "drop (Suc p) T = vs @ x # tail" using assms(2) e us x(1) by simp
  note S = reading_string_search [OF assms(1) d vs(1) x(2) s'_def]
  have "drop (p + Suc (length vs)) T = escaped_text q us' @ q # rest" using drop_behind [OF d] x(1) by simp
  from rest [OF us S(1) this] show ?thesis
    using S(2,3) us e by (simp add: ScanString_loop_rest s'_def [symmetric] add.assoc)
qed

text \<open>One escape sequence that stands for a single unit.\<close>

lemma escape_read:
  assumes "reading T p s" and "drop p T = escape_unit q u @ us" and "quote_unit q" and "escape_unit q u \<noteq> [u]"
  obtains s' where "ScanString_escapes s = ScanString_escapes s'" "reading T (p + length (escape_unit q u)) s'"
    "literal_so_far s' = literal_so_far s @ [u]" "location (next_desc s') = location (next_desc s)"
proof -
  obtain e where e: "escape_unit q u = [0x5C, e]"
    "e = u \<and> (u = 0x22 \<or> u = 0x27 \<or> u = 0x5C) \<or> e = 0x6E \<and> u = 0x0A \<or> e = 0x72 \<and> u = 0x0D"
    using assms(3,4) by (auto simp: escape_unit_def quote_unit_def split: if_splits)
  have T: "drop p T = 0x5C # e # us" using assms(2) e(1) by simp
  have c: "c0 s = 0x5C" "c0 (Advance s) = ucast e"
    using reading_char [OF assms(1) T] reading_char [OF reading_Advance [OF assms(1)] drop_char(3) [OF T]] by simp_all
  define s2 where "s2 = Advance (Advance s)"
  have r: "reading T (Suc (Suc p)) s2" unfolding s2_def by (intro reading_Advance assms(1))
  note A = reading_AddLiteralChar [OF r, of "ucast u"]
  have "ScanEscape False (Advance s) = (True, AddLiteralChar (ucast u) s2)"
    using e(2) by (elim disjE conjE) (simp_all add: c(2) ScanEscape_def Advance_raw_def s2_def IsLineTerminator_def)
  then have "ScanString_escapes s = ScanString_escapes (AddLiteralChar (ucast u) s2)"
    using c e(2) by (auto simp: ScanString_escapes.simps [of s])
  moreover have "literal_so_far s2 = literal_so_far s" "location (next_desc s2) = location (next_desc s)"
    by (simp_all add: s2_def)
  ultimately show ?thesis
    using that [of "AddLiteralChar (ucast u) s2"] A e(1) by (simp add: code_units_unit)
qed

lemma string_body:
  assumes "quote_unit q"
  shows "reading T p s \<Longrightarrow> drop p T = escaped_text q us @ q # rest \<Longrightarrow>
    string_done T (p + Suc (length (escaped_text q us))) (literal_so_far s @ us) (location (next_desc s))
      (string_rest (ucast q) s)"
proof (induction us arbitrary: p s rule: length_induct)
  case (1 us)
  note IH = 1(1) [rule_format]
  have q: "(ucast q :: uc32) \<noteq> 0x5C" using assms by (auto simp: quote_unit_def)
  show ?case
  proof (cases us)
    case Nil
    then have "c0 s = ucast q" using reading_char [OF 1(2)] 1(3) by simp
    then have "string_rest (ucast q) s = (Token_STRING, Advance s)"
      using q by (simp add: string_rest_def ScanString_escapes.simps [of s])
    with Nil reading_Advance [OF 1(2)] show ?thesis by (simp add: string_done_def)
  next
    case (Cons u vs)
    show ?thesis
    proof (cases "escape_unit q u = [u]")
      case True
      then have T: "drop p T = u # escaped_text q vs @ q # rest" using 1(3) Cons by simp
      have c: "c0 s = ucast u" by (rule reading_char [OF 1(2) T])
      have "u \<noteq> q" "u \<noteq> 0x5C" "u \<noteq> 0x0A" "u \<noteq> 0x0D" using True by (auto simp: escape_unit_def split: if_splits)
      then have "c0 s \<noteq> ucast q" "c0 s \<noteq> 0x5C" "\<not> IsStringLiteralLineTerminator (c0 s)" "c0 s \<noteq> kEndOfInput"
        using c unat_uc16_less [of u] by (auto simp: word_unat_eq_iff unat_widen IsStringLiteralLineTerminator_def)
      then have "string_rest (ucast q) s = ScanString_loop (ucast q) (AddLiteralChar (c0 s) s)"
        by (simp add: string_rest_def ScanString_escapes.simps [of s])
      moreover note A = reading_AddLiteralChar [OF 1(2), of "c0 s"]
      have "string_done T (Suc p + Suc (length (escaped_text q vs)))
          (literal_so_far (AddLiteralChar (c0 s) s) @ vs) (location (next_desc (AddLiteralChar (c0 s) s)))
          (ScanString_loop (ucast q) (AddLiteralChar (c0 s) s))"
        by (rule string_search [OF A(1) drop_char(3) [OF T] assms]) (use IH Cons in auto)
      ultimately show ?thesis using A(2,4) c True Cons by (simp add: code_units_unit)
    next
      case False
      obtain s' where s': "ScanString_escapes s = ScanString_escapes s'" "reading T (p + length (escape_unit q u)) s'"
        "literal_so_far s' = literal_so_far s @ [u]" "location (next_desc s') = location (next_desc s)"
        by (rule escape_read [OF 1(2) _ assms False, of "escaped_text q vs @ q # rest"]) (use 1(3) Cons in auto)
      have "drop (p + length (escape_unit q u)) T = escaped_text q vs @ q # rest"
        using drop_behind [of p T "escape_unit q u"] 1(3) Cons by simp
      from IH [OF _ s'(2) this] s' Cons show ?thesis by (simp add: string_rest_def add.assoc)
    qed
  qed
qed

section \<open>Strings are read back\<close>

lemma ScanString_text:
  assumes "reading T p s" and "drop p T = string_text q us @ rest" and "quote_unit q"
  shows "string_done T (p + length (string_text q us)) us (location (next_desc s)) (ScanString s)"
proof -
  have T: "drop p T = q # escaped_text q us @ q # rest" using assms(2) by (simp add: string_text_def)
  have c: "c0 s = ucast q" by (rule reading_char [OF assms(1) T])
  note S = reading_Start [OF assms(1)]
  have "string_done T (Suc p + Suc (length (escaped_text q us))) (literal_so_far (Start_literal s) @ us)
      (location (next_desc (Start_literal s))) (ScanString_loop (ucast q) (Start_literal s))"
    by (rule string_search [OF S(1) drop_char(3) [OF T] assms(3) string_body [OF assms(3)]])
  then show ?thesis using S(2,4) c by (simp add: ScanString_def string_text_def)
qed

lemma scan_round_string:
  assumes "c0 s = 0x22 \<or> c0 s = 0x27"
  shows "scan_round U s = returned (ScanString (set_beg_pos s))"
proof -
  have "c0 s \<le> kMaxAscii" "GetOneCharToken (c0 s) = Token_STRING"
    using assms by (auto simp: GetOneCharToken_def IsDecimalDigit_iff IsAsciiIdentifier_iff)
  then show ?thesis by (simp add: scan_round_def scan_ascii_def Let_def)
qed

text \<open>C3. String literals round trip: every string of code units, lone surrogates and line
  separators included, written between either quotes with that quote, backslashes and
  line ends escaped, is scanned as one \<^verbatim>\<open>STRING\<close> token whose symbol is the string and
  whose location is the literal with its quotes.\<close>

theorem string_scanned:
  assumes "reading T p s" and "drop p T = string_text q us @ rest" and "q = 0x22 \<or> q = 0x27"
  shows "peek (Scan U s) = Token_STRING \<and> NextSymbol (Scan U s) = us \<and>
    location (next_desc (Scan U s)) = mk_Location (int p) (int (p + length (string_text q us))) \<and>
    reading T (p + length (string_text q us)) (Scan U s)"
proof -
  define s0 where "s0 = set_beg_pos (set_after_line_terminator False s)"
  have r: "reading T p s0" unfolding s0_def by (intro reading_set_beg_pos reading_set_after assms(1))
  have b: "beg_pos (location (next_desc s0)) = int p"
    using assms(1) by (simp add: s0_def set_beg_pos_def set_after_line_terminator_def reading_def source_pos_def)
  obtain t s1 where t: "ScanString s0 = (t, s1)" by fastforce
  have D: "t = Token_STRING" "reading T (p + length (string_text q us)) s1" "literal_so_far s1 = us"
    "location (next_desc s1) = location (next_desc s0)"
    using ScanString_text [OF r assms(2)] assms(3) t by (auto simp: string_done_def quote_unit_def)
  have "c0 s = 0x22 \<or> c0 s = 0x27"
    using reading_char [OF assms(1)] assms(2,3) by (auto simp: string_text_def)
  then have "scan_round U (set_after_line_terminator False s) = (t, True, s1)"
    using t by (simp add: s0_def scan_round_string)
  note S = Scan_one_round [OF assms(1) this _ D(2)]
  from S D b show ?thesis by (simp add: NextSymbol_units)
qed

theorem string_scanned_witness:
  "NextSymbol (Scan latin1_icu (Init (new_Scanner (ScannerStream_ForTesting_uc16
       [0x22, 0x5C, 0x6E, 0x27, 0xD83D, 0x5C, 0x22, 0x22, 0x3B])
     \<lparr> is_module = False, flag_source_dialect = kJsEng \<rparr>))) = [0x0A, 0x27, 0xD83D, 0x22]"
proof -
  have "drop 0 [0x22, 0x5C, 0x6E, 0x27, 0xD83D, 0x5C, 0x22, 0x22, 0x3B] =
      string_text 0x22 [0x0A, 0x27, 0xD83D, 0x22] @ [0x3B]"
    by (simp add: string_text_def escape_unit_def)
  from string_scanned [OF reading_testing_uc16 this, of latin1_icu] show ?thesis by blast
qed

end
