(* ===== verification/Scanner_Operators.thy ===== *)
theory Scanner_Operators
  imports Scanner_Text
begin

text \<open>
  Punctuators in source text. The reference is maximal munch over the spellings of the
  token table: the first match in the list of punctuators ordered by decreasing length.
  The theorem says that the hand-written decision trees of \<^verbatim>\<open>ScanSingleToken\<close> compute it.
\<close>

section \<open>Maximal munch\<close>

text \<open>The tokens of the table that are spelled with other characters than letters;
  \<^verbatim>\<open>INIT\<close> is made by the parser only.\<close>

definition punctuators :: "(string \<times> token) list" where
  "punctuators = List.map_filter (\<lambda>(t, _, _, str, _). case str of None \<Rightarrow> None | Some w \<Rightarrow>
     if t = Token_INIT \<or> IsAsciiIdentifier (of_char (hd w)) then None else Some (w, t)) TOKEN_LIST"

definition punctuators_longest_first :: "(string \<times> token) list" where
  "punctuators_longest_first = concat (map (\<lambda>n. filter (\<lambda>(w, _). length w = n) punctuators) [4, 3, 2, 1])"

fun spelled_at :: "uc16 list \<Rightarrow> nat \<Rightarrow> string \<Rightarrow> bool" where
  "spelled_at T p [] = True"
| "spelled_at T p (c # w) \<longleftrightarrow> char_at T p = of_char c \<and> spelled_at T (Suc p) w"

definition longest_punctuator :: "uc16 list \<Rightarrow> nat \<Rightarrow> (string \<times> token) option" where
  "longest_punctuator T p = find (\<lambda>(w, _). spelled_at T p w) punctuators_longest_first"

text \<open>Places where a punctuator is the beginning of something else: a comment, a number
  with a leading period, or a conditional followed by such a number.\<close>

definition not_punctuation :: "uc16 list \<Rightarrow> nat \<Rightarrow> bool" where
  "not_punctuation T p \<longleftrightarrow> spelled_at T p ''//'' \<or> spelled_at T p ''/*'' \<or> spelled_at T p ''<!--'' \<or>
     spelled_at T p ''.'' \<and> IsDecimalDigit (char_at T (p + 1)) \<or>
     spelled_at T p ''?.'' \<and> IsDecimalDigit (char_at T (p + 2))"

lemma punctuators_explicit: "punctuators_longest_first =
  [(''>>>='', Token_ASSIGN_SHR), (''...'', Token_ELLIPSIS), (''??='', Token_ASSIGN_NULLISH),
   (''||='', Token_ASSIGN_OR), (''&&='', Token_ASSIGN_AND), (''<<='', Token_ASSIGN_SHL),
   (''>>='', Token_ASSIGN_SAR), (''**='', Token_ASSIGN_EXP), (''>>>'', Token_SHR),
   (''==='', Token_EQ_STRICT), (''!=='', Token_NE_STRICT), (''?.'', Token_QUESTION_PERIOD),
   (''=>'', Token_ARROW), (''|='', Token_ASSIGN_BIT_OR), (''^='', Token_ASSIGN_BIT_XOR),
   (''&='', Token_ASSIGN_BIT_AND), (''*='', Token_ASSIGN_MUL), (''/='', Token_ASSIGN_DIV),
   (''%='', Token_ASSIGN_MOD), (''+='', Token_ASSIGN_ADD), (''-='', Token_ASSIGN_SUB),
   (''??'', Token_NULLISH), (''||'', Token_OR), (''&&'', Token_AND), (''<<'', Token_SHL),
   (''>>'', Token_SAR), (''**'', Token_EXP), (''++'', Token_INC), (''--'', Token_DEC),
   (''=='', Token_EQ), (''!='', Token_NE), (''<='', Token_LTE), (''>='', Token_GTE),
   (''.'', Token_PERIOD), (''['', Token_LBRACK), (''('', Token_LPAREN), ('')'', Token_RPAREN),
   ('']'', Token_RBRACK), (''{'', Token_LBRACE), ('':'', Token_COLON),
   (''?'', Token_CONDITIONAL), ('';'', Token_SEMICOLON), (''}'', Token_RBRACE),
   (''='', Token_ASSIGN), ('','', Token_COMMA), (''|'', Token_BIT_OR), (''^'', Token_BIT_XOR),
   (''&'', Token_BIT_AND), (''*'', Token_MUL), (''/'', Token_DIV), (''%'', Token_MOD),
   (''+'', Token_ADD), (''-'', Token_SUB), (''!'', Token_NOT), (''~'', Token_BIT_NOT),
   (''<'', Token_LT), (''>'', Token_GT)]"
  by code_simp

section \<open>The decision trees\<close>

definition scans_punctuator :: "uc16 list \<Rightarrow> nat \<Rightarrow> Scanner \<Rightarrow> token \<times> bool \<times> Scanner \<Rightarrow> bool" where
  "scans_punctuator T p s r \<longleftrightarrow> (\<exists>w. longest_punctuator T p = Some (w, fst r) \<and>
     reading T (p + length w) (snd (snd r)) \<and> next_desc (snd (snd r)) = next_desc s)"

lemma reading_ahead:
  assumes "reading T p s"
  shows "reading T (Suc p) (Advance s)" "reading T (Suc (Suc p)) (Advance (Advance s))"
    "reading T (Suc (Suc (Suc p))) (Advance (Advance (Advance s)))"
    "reading T (Suc (Suc (Suc (Suc p)))) (Advance (Advance (Advance (Advance s))))"
    "c0 s = char_at T p" "c0 (Advance s) = char_at T (Suc p)" "c0 (Advance (Advance s)) = char_at T (Suc (Suc p))"
    "c0 (Advance (Advance (Advance s))) = char_at T (Suc (Suc (Suc p)))"
  using assms reading_Advance [of T] by (simp_all add: reading_def)

lemmas munch_simps = scans_punctuator_def longest_punctuator_def punctuators_explicit Select_def Select_next_def
  returned_def reading_ahead

lemma munch_gt: "reading T p s \<Longrightarrow> char_at T p = 0x3E \<Longrightarrow> scans_punctuator T p s (scan_gt s)"
  by (simp add: munch_simps scan_gt_def)

lemma munch_assign: "reading T p s \<Longrightarrow> char_at T p = 0x3D \<Longrightarrow> scans_punctuator T p s (scan_assign s)"
  by (simp add: munch_simps scan_assign_def)

lemma munch_not: "reading T p s \<Longrightarrow> char_at T p = 0x21 \<Longrightarrow> scans_punctuator T p s (scan_not s)"
  by (simp add: munch_simps scan_not_def)

lemma munch_add: "reading T p s \<Longrightarrow> char_at T p = 0x2B \<Longrightarrow> scans_punctuator T p s (scan_add s)"
  by (simp add: munch_simps scan_add_def)

lemma munch_mul: "reading T p s \<Longrightarrow> char_at T p = 0x2A \<Longrightarrow> scans_punctuator T p s (scan_mul s)"
  by (simp add: munch_simps scan_mul_def)

lemma munch_bit_and: "reading T p s \<Longrightarrow> char_at T p = 0x26 \<Longrightarrow> scans_punctuator T p s (scan_bit_and s)"
  by (simp add: munch_simps scan_bit_and_def)

lemma munch_bit_or: "reading T p s \<Longrightarrow> char_at T p = 0x7C \<Longrightarrow> scans_punctuator T p s (scan_bit_or s)"
  by (simp add: munch_simps scan_bit_or_def)

lemma munch_select:
  "reading T p s \<Longrightarrow> char_at T p = 0x25 \<Longrightarrow>
     scans_punctuator T p s (returned (Select_next 0x3D Token_ASSIGN_MOD Token_MOD s))"
  "reading T p s \<Longrightarrow> char_at T p = 0x5E \<Longrightarrow>
     scans_punctuator T p s (returned (Select_next 0x3D Token_ASSIGN_BIT_XOR Token_BIT_XOR s))"
  by (simp_all add: munch_simps)

text \<open>A dash before a closing angle is no comment when no line end has been seen.\<close>

lemma munch_sub:
  "reading T p s \<Longrightarrow> char_at T p = 0x2D \<Longrightarrow> \<not> after_line_terminator (next_desc s) \<Longrightarrow>
   scans_punctuator T p s (scan_sub s)"
  by (simp add: munch_simps scan_sub_def)

lemma munch_div:
  "reading T p s \<Longrightarrow> char_at T p = 0x2F \<Longrightarrow> \<not> not_punctuation T p \<Longrightarrow> scans_punctuator T p s (scan_div U s)"
  by (simp add: munch_simps scan_div_def not_punctuation_def)

text \<open>The characters that are pushed back.\<close>

lemma reading_PushBack:
  assumes "reading T p s" and "c0 s \<noteq> kEndOfInput"
  shows "reading T p (PushBack (c0 s) (Advance s))" "next_desc (PushBack (c0 s) (Advance s)) = next_desc s"
  using reading_Peek [OF assms(1) prod.collapse [symmetric]] by (simp_all add: PushBack_Advance same_scan_def)

lemma munch_conditional:
  "reading T p s \<Longrightarrow> char_at T p = 0x3F \<Longrightarrow> \<not> not_punctuation T p \<Longrightarrow>
   scans_punctuator T p s (scan_conditional s)"
  by (simp add: munch_simps scan_conditional_def not_punctuation_def)

lemma munch_period:
  assumes "reading T p s" and "char_at T p = 0x2E" and "\<not> not_punctuation T p"
  shows "scans_punctuator T p s (scan_period U s)"
proof -
  note r = reading_Advance [OF assms(1)]
  obtain c s1 where P: "Peek (Advance s) = (c, s1)" by fastforce
  note R = reading_Peek [OF r P]
  have "next_desc s1 = next_desc s" using R(3) by (simp add: same_scan_def)
  with assms P R(1) reading_ahead [OF R(2)] R(2) show ?thesis
    by (simp add: munch_simps scan_period_def not_punctuation_def Let_def)
qed

text \<open>The less-than sign before \<^verbatim>\<open>!\<close> that opens no comment.\<close>

lemma reading_PushBack_Peek:
  assumes "reading T p s" and "c0 s = ch" and "ch \<noteq> kEndOfInput" and "Peek (Advance s) = (c, s1)" and "c0 s1 \<noteq> kEndOfInput"
  shows "reading T p (PushBack ch s1)" "next_desc (PushBack ch s1) = next_desc s"
proof -
  note R = reading_Peek [OF reading_Advance [OF assms(1)] assms(4)]
  have "stream_inv (source_stream s1)" "\<not> has_parser_error (source_stream s1)"
    using R(2) by (auto simp: reading_def scanner_inv_def scanner_has_parser_error_def)
  then have "pos (stream_Back (source_stream s1)) = Suc p"
    using stream_Back_abs [of "source_stream s1"] R(2) by (simp add: reading_def)
  then show "reading T p (PushBack ch s1)"
    using assms(1,2) by (intro reading_lex [OF assms(1) lex_PushBack [OF assms(4,2,3,5)]]) (auto simp: PushBack_def reading_def)
  have "next_desc s1 = next_desc s" using R(3) by (simp add: same_scan_def)
  moreover have "next_desc (PushBack ch s1) = next_desc s1" by (simp add: PushBack_def next_desc_def)
  ultimately show "next_desc (PushBack ch s1) = next_desc s" by simp
qed

lemma ScanHtmlComment_other:
  assumes "reading T p s" and "char_at T p = 0x21" and "\<not> (char_at T (Suc p) = 0x2D \<and> char_at T (Suc (Suc p)) = 0x2D)"
  shows "\<exists>s'. ScanHtmlComment s = (Token_LT, s') \<and> reading T p s' \<and> next_desc s' = next_desc s"
proof (cases "c0 (Advance s) = 0x2D")
  case True
  obtain c s1 where P: "Peek (Advance s) = (c, s1)" by fastforce
  note R = reading_Peek [OF reading_Advance [OF assms(1)] P]
  have c: "c0 s = 0x21" "c0 s1 = 0x2D" "c \<noteq> 0x2D"
    using assms True R reading_ahead [OF assms(1)] by (simp_all add: reading_def)
  have "ScanHtmlComment s = (Token_LT, PushBack 0x21 s1)"
    using True P c(3) by (simp add: ScanHtmlComment_def)
  with reading_PushBack_Peek [OF assms(1) c(1) _ P] c show ?thesis by simp
next
  case False
  have c: "c0 s = 0x21" using assms(1,2) by (simp add: reading_def)
  then have "ScanHtmlComment s = (Token_LT, PushBack (c0 s) (Advance s))" using False by (simp add: ScanHtmlComment_def)
  with reading_PushBack [OF assms(1)] c show ?thesis by simp
qed

lemma munch_lt:
  assumes "reading T p s" and "char_at T p = 0x3C" and "\<not> not_punctuation T p"
  shows "scans_punctuator T p s (scan_lt s)"
proof (cases "char_at T (Suc p) = 0x21")
  case True
  obtain s' where "ScanHtmlComment (Advance s) = (Token_LT, s')" "reading T (Suc p) s'" "next_desc s' = next_desc s"
    using ScanHtmlComment_other [OF reading_Advance [OF assms(1)] True] assms True by (auto simp: not_punctuation_def)
  with True assms show ?thesis by (simp add: munch_simps scan_lt_def continued_def)
next
  case False
  with assms show ?thesis by (simp add: munch_simps scan_lt_def)
qed

text \<open>The single-character punctuators, and all together.\<close>

lemma munch_single:
  assumes "reading T p s" and "char_at T p \<in> {0x28, 0x29, 0x7B, 0x7D, 0x5B, 0x5D, 0x3A, 0x3B, 0x2C, 0x7E}"
  shows "scans_punctuator T p s (returned (Select (GetOneCharToken (char_at T p)) s))"
  using assms by (auto simp: munch_simps GetOneCharToken_def)

lemma longest_first_char:
  assumes "longest_punctuator T p = Some (w, t)"
  shows "char_at T p \<in> {0x28, 0x29, 0x7B, 0x7D, 0x5B, 0x5D, 0x3A, 0x3B, 0x2C, 0x7E} \<union>
    {0x3F, 0x3C, 0x3E, 0x3D, 0x21, 0x2B, 0x2D, 0x2A, 0x25, 0x2F, 0x26, 0x7C, 0x5E, 0x2E}"
proof -
  have "list_all (\<lambda>(w, t). w \<noteq> [] \<and> (of_char (hd w) :: uc32) \<in> set [0x28, 0x29, 0x7B, 0x7D, 0x5B, 0x5D, 0x3A, 0x3B, 0x2C,
     0x7E, 0x3F, 0x3C, 0x3E, 0x3D, 0x21, 0x2B, 0x2D, 0x2A, 0x25, 0x2F, 0x26, 0x7C, 0x5E, 0x2E]) punctuators_longest_first"
    by (simp add: punctuators_explicit)
  moreover have "(w, t) \<in> set punctuators_longest_first" "spelled_at T p w"
    using assms by (auto simp: longest_punctuator_def find_Some_iff in_set_conv_nth)
  ultimately show ?thesis by (cases w) (auto simp: list_all_iff)
qed

lemma longest_not_whitespace: "longest_punctuator T p = Some (w, t) \<Longrightarrow> t \<noteq> Token_WHITESPACE"
proof -
  assume "longest_punctuator T p = Some (w, t)"
  then have "(w, t) \<in> set punctuators_longest_first"
    by (auto simp: longest_punctuator_def find_Some_iff in_set_conv_nth)
  moreover have "list_all (\<lambda>(w, t). t \<noteq> Token_WHITESPACE) punctuators_longest_first"
    by (simp add: punctuators_explicit)
  ultimately show ?thesis by (auto simp: list_all_iff)
qed

lemma munch_ascii:
  assumes "reading T p s" and "longest_punctuator T p = Some (w, t)" and "\<not> not_punctuation T p"
    and "\<not> after_line_terminator (next_desc s)"
  shows "scans_punctuator T p s (scan_ascii U s)"
proof -
  have c: "c0 s = char_at T p" using assms(1) by (simp add: reading_def)
  from longest_first_char [OF assms(2)] show ?thesis
  proof (elim UnE)
    assume a: "char_at T p \<in> {0x28, 0x29, 0x7B, 0x7D, 0x5B, 0x5D, 0x3A, 0x3B, 0x2C, 0x7E}"
    then have "scan_ascii U s = returned (Select (GetOneCharToken (char_at T p)) s)"
      unfolding insert_iff empty_iff by (elim disjE) (simp_all add: scan_ascii_def c GetOneCharToken_def)
    with munch_single [OF assms(1) a] show ?thesis by simp
  next
    assume "char_at T p \<in> {0x3F, 0x3C, 0x3E, 0x3D, 0x21, 0x2B, 0x2D, 0x2A, 0x25, 0x2F, 0x26, 0x7C, 0x5E, 0x2E}"
    then show ?thesis
      unfolding insert_iff empty_iff
      by (elim disjE)
        (simp_all add: scan_ascii_def c GetOneCharToken_def assms(1,3,4) munch_conditional munch_lt munch_gt
          munch_assign munch_not munch_add munch_sub munch_mul munch_select munch_div munch_bit_and munch_bit_or munch_period)
  qed
qed

text \<open>C4. Punctuators are scanned by maximal munch: at every place where a punctuator of
  the token table is spelled, and where no comment, no number with a leading period and
  no conditional operator before such a number begins, the scanner delivers the longest
  one, with its place as the location, and stands behind it. A less-than sign before an
  exclamation mark that opens no comment is one of these places.\<close>

theorem punctuator_scanned:
  assumes "reading T p s" and "longest_punctuator T p = Some (w, t)" and "\<not> not_punctuation T p"
  shows "peek (Scan U s) = t \<and>
    location (next_desc (Scan U s)) = mk_Location (int p) (int (p + length w)) \<and>
    reading T (p + length w) (Scan U s)"
proof -
  define s0 where "s0 = set_beg_pos (set_after_line_terminator False s)"
  have r: "reading T p s0" unfolding s0_def by (intro reading_set_beg_pos reading_set_after assms(1))
  have b: "beg_pos (location (next_desc s0)) = int p" "\<not> after_line_terminator (next_desc s0)"
    using assms(1) by (simp_all add: s0_def set_beg_pos_def set_after_line_terminator_def reading_def source_pos_def)
  have c: "c0 s0 \<le> kMaxAscii" using longest_first_char [OF assms(2)] r by (auto simp: reading_def)
  obtain ret s1 where t: "scan_ascii U s0 = (t, ret, s1)" "reading T (p + length w) s1" "next_desc s1 = next_desc s0"
    using munch_ascii [OF r assms(2,3) b(2), of U] assms(2)
    by (cases "scan_ascii U s0") (auto simp: scans_punctuator_def)
  have "scan_round U (set_after_line_terminator False s) = (t, ret, s1)"
    using c t(1) by (simp add: scan_round_def s0_def [symmetric])
  moreover have "t \<noteq> Token_WHITESPACE"
    using longest_not_whitespace [OF assms(2)] .
  ultimately show ?thesis using Scan_one_round [OF assms(1) _ _ t(2)] t(3) b(1) by simp
qed

theorem punctuator_scanned_witness:
  "peek (Scan latin1_icu (Init (new_Scanner (ScannerStream_ForTesting (ascii ''>>>=1''))
     \<lparr> is_module = False, flag_source_dialect = kJsEng \<rparr>))) = Token_ASSIGN_SHR \<and>
   peek (Scan latin1_icu (Init (new_Scanner (ScannerStream_ForTesting (ascii ''<!-x''))
     \<lparr> is_module = False, flag_source_dialect = kJsEng \<rparr>))) = Token_LT"
proof -
  have "longest_punctuator (map ucast (ascii ''>>>=1'')) 0 = Some (''>>>='', Token_ASSIGN_SHR)"
    "\<not> not_punctuation (map ucast (ascii ''>>>=1'')) 0"
    "longest_punctuator (map ucast (ascii ''<!-x'')) 0 = Some (''<'', Token_LT)"
    "\<not> not_punctuation (map ucast (ascii ''<!-x'')) 0" by code_simp+
  with punctuator_scanned [OF reading_testing, of "ascii ''>>>=1''"]
    punctuator_scanned [OF reading_testing, of "ascii ''<!-x''"] show ?thesis by blast
qed

end
