(* ===== verification/Scanner_Dialect.thy ===== *)
theory Scanner_Dialect
  imports Scanner_Text
begin

text \<open>
  The dialect comment in source text: a script that begins with the comment
  \<^verbatim>\<open>//# sourceDialect=\<close> and the name of a dialect is scanned with the keywords of that
  dialect, whatever the flags say; any other name makes the script illegal.
\<close>

section \<open>Reading the comment\<close>

text \<open>A visible ASCII character.\<close>

definition graphic :: "byte \<Rightarrow> bool" where
  "graphic c \<longleftrightarrow> 0x21 \<le> c \<and> c \<le> 0x7E"

definition ends_line :: "uc16 list \<Rightarrow> bool" where
  "ends_line rest \<longleftrightarrow> rest = [] \<or> IsLineTerminator (ucast (hd rest))"

definition dialect_comment :: "byte list \<Rightarrow> uc16 list" where
  "dialect_comment name = map ucast (ascii ''//# sourceDialect='' @ name)"

lemma graphic_char:
  assumes "graphic c"
  shows "(ucast (ucast c :: uc16) :: uc32) \<noteq> kEndOfInput" "\<not> IsLineTerminator (ucast (ucast c :: uc16))"
    "\<not> IsWhiteSpace U (ucast (ucast c :: uc16))" "\<not> IsWhiteSpaceOrLineTerminator U (ucast (ucast c :: uc16))"
    "(ucast (ucast c :: uc16) :: uc32) \<le> 0xff"
proof -
  let ?c = "ucast (ucast c :: uc16) :: uc32"
  have c: "33 \<le> unat ?c" "unat ?c \<le> 126" using assms by (simp_all add: graphic_def word_le_nat_alt unat_widen)
  then have "?c \<noteq> kEndOfInput" "\<not> IsLineTerminator ?c" "?c \<le> 0xff" "?c \<noteq> 0x0D" "?c \<noteq> 0x0A" "\<not> IsOneByteWhitespace ?c"
    by (auto simp: IsLineTerminator_def IsOneByteWhitespace_def word_le_nat_alt word_unat_eq_iff)
  then show "?c \<noteq> kEndOfInput" "\<not> IsLineTerminator ?c" "\<not> IsWhiteSpace U ?c"
    "\<not> IsWhiteSpaceOrLineTerminator U ?c" "?c \<le> 0xff"
    using one_byte_classes(3,4) [of ?c U] by blast+
qed

text \<open>A name or value being collected.\<close>

definition collected :: "LiteralBuffer \<Rightarrow> byte list \<Rightarrow> bool" where
  "collected b w \<longleftrightarrow> literal_inv b \<and> is_one_byte b \<and> literal_units b = map ucast w"

lemma collected_init: "collected (LiteralBuffer_Start LiteralBuffer_init) []"
  using Start_spec [OF init_spec] by (simp add: collected_def)

lemma collected_AddChar:
  assumes "collected b w" and "graphic c"
  shows "collected (AddChar b (ucast (ucast c :: uc16))) (w @ [c])"
  using AddChar_spec [of b "ucast (ucast c :: uc16)"] assms graphic_char(5) [OF assms(2)]
  unfolding collected_def code_units_unit by simp

lemma collected_literal: "collected b w \<Longrightarrow> is_one_byte b \<and> one_byte_literal b = w"
  by (simp add: collected_def one_byte_units)

lemma magic_name_text:
  assumes "reading T p s" and "drop p T = map ucast w @ 0x3D # rest"
    and "list_all (\<lambda>c. graphic c \<and> c \<noteq> 0x3D) w" and "collected b n"
  shows "\<exists>b' s'. magic_name U b s = (b', s') \<and> collected b' (n @ w) \<and> reading T (p + length w) s' \<and> same_scan s s'"
  using assms
proof (induction w arbitrary: p s b n)
  case Nil
  then have "c0 s = 0x3D" using reading_char [of T p s "0x3D"] by simp
  with Nil show ?case by (simp add: magic_name.simps [of U b s])
next
  case (Cons c w)
  let ?c = "ucast (ucast c :: uc16) :: uc32"
  have T: "drop p T = ucast c # map ucast w @ 0x3D # rest" using Cons.prems(2) by simp
  have c: "c0 s = ?c" "graphic c" "?c \<noteq> 0x3D"
    using reading_char [OF Cons.prems(1) T] Cons.prems(3) by (auto simp: word_unat_eq_iff unat_widen)
  then have "magic_name U b s = magic_name U (AddChar b ?c) (Advance s)"
    using graphic_char [OF c(2)] by (simp add: magic_name.simps [of U b s])
  then show ?case
    using Cons.IH [OF reading_Advance [OF Cons.prems(1)] drop_char(3) [OF T] _ collected_AddChar [OF Cons.prems(4) c(2)]]
      Cons.prems(3) by (auto intro: same_scan_trans [OF same_scan_Advance])
qed

lemma ends_line_char:
  assumes "reading T p s" and "drop p T = rest" and "ends_line rest"
  shows "c0 s = kEndOfInput \<or> IsLineTerminator (c0 s)"
proof (cases rest)
  case Nil
  then show ?thesis using assms(1,2) by (simp add: reading_def char_at_def)
next
  case (Cons u us)
  then show ?thesis using assms reading_char [OF assms(1)] by (simp add: ends_line_def)
qed

lemma magic_value_text:
  assumes "reading T p s" and "drop p T = map ucast w @ rest" and "list_all graphic w" and "ends_line rest"
    and "collected b n"
  shows "\<exists>b' s'. magic_value_chars U ValueNull b s = (b', s') \<and> magic_value_end U ValueNull b' s' = (b', s') \<and>
    collected b' (n @ w) \<and> reading T (p + length w) s' \<and> same_scan s s'"
  using assms
proof (induction w arbitrary: p s b n)
  case Nil
  then have "c0 s = kEndOfInput \<or> IsLineTerminator (c0 s)" using ends_line_char [of T p s rest] by simp
  with Nil show ?case
    by (auto simp: magic_value_chars.simps [of U ValueNull b s] magic_value_end.simps [of U ValueNull b s])
next
  case (Cons c w)
  let ?c = "ucast (ucast c :: uc16) :: uc32"
  have T: "drop p T = ucast c # map ucast w @ rest" using Cons.prems(2) by simp
  have c: "c0 s = ?c" "graphic c" using reading_char [OF Cons.prems(1) T] Cons.prems(3) by simp_all
  then have "magic_value_chars U ValueNull b s = magic_value_chars U ValueNull (AddChar b ?c) (Advance s)"
    using graphic_char [OF c(2)] by (simp add: magic_value_chars.simps [of U ValueNull b s])
  then show ?case
    using Cons.IH [OF reading_Advance [OF Cons.prems(1)] drop_char(3) [OF T] _ Cons.prems(4)
        collected_AddChar [OF Cons.prems(5) c(2)]] Cons.prems(3)
    by (auto intro: same_scan_trans [OF same_scan_Advance])
qed

text \<open>The whole comment: its value is handed to \<^verbatim>\<open>TrySetSourceDialect\<close>.\<close>

lemma source_dialect_key:
  "list_all (\<lambda>c. graphic c \<and> c \<noteq> 0x3D) (ascii ''sourceDialect'')"
  "magic_comment_value (ascii ''sourceDialect'') = Some ValueNull"
  by code_simp+

lemma comment_value:
  assumes "reading T p s" and "drop p T = 0x20 # map ucast (ascii ''sourceDialect'') @ 0x3D # map ucast name @ rest"
    and "list_all graphic name" and "name \<noteq> []" and "ends_line rest"
  obtains s1 where "TryToParseSourceURLComment U s = snd (TrySetSourceDialect name s1)"
    "reading T (p + 15 + length name) s1" "same_scan s s1"
proof -
  let ?key = "ascii ''sourceDialect''"
  have c: "c0 s = 0x20" using reading_char [OF assms(1,2)] by simp
  have w: "IsWhiteSpace U 0x20" by (simp add: one_byte_classes IsOneByteWhitespace_def)
  obtain b s1 where N: "magic_name U (LiteralBuffer_Start LiteralBuffer_init) (Advance s) = (b, s1)"
    "collected b ?key" "reading T (Suc p + length ?key) s1" "same_scan (Advance s) s1"
    using magic_name_text [OF reading_Advance [OF assms(1)] drop_char(3) [OF assms(2)] source_dialect_key(1) collected_init, of U]
    by auto
  have T: "drop (Suc p + length ?key) T = 0x3D # map ucast name @ rest"
    using drop_behind [OF drop_char(3) [OF assms(2)]] by (simp del: ascii_simps)
  have c1: "c0 s1 = 0x3D" using reading_char [OF N(3) T] by simp
  then have w1: "skip_white U s1 = s1" by (simp add: skip_white.simps [of U s1] one_byte_classes IsOneByteWhitespace_def)
  note r2 = reading_Advance [OF N(3)]
  obtain x xs where x: "name = x # xs" "graphic x" using assms(3,4) by (cases name) auto
  have "c0 (Advance s1) = ucast (ucast x :: uc16)"
    using reading_char [OF r2] drop_char(3) [OF T] x(1) by simp
  then have w2: "skip_white U (Advance s1) = Advance s1"
    using graphic_char [OF x(2)] by (simp add: skip_white.simps [of U "Advance s1"])
  obtain b' s2 where V: "magic_value_chars U ValueNull (LiteralBuffer_Start LiteralBuffer_init) (Advance s1) = (b', s2)"
    "magic_value_end U ValueNull b' s2 = (b', s2)" "collected b' name"
    "reading T (Suc (Suc p + length ?key) + length name) s2" "same_scan (Advance s1) s2"
    using magic_value_text [OF r2 drop_char(3) [OF T] assms(3,5) collected_init, of U] by auto
  have "TryToParseSourceURLComment U s = snd (TrySetSourceDialect name s2)"
    using c w N(1) c1 w1 w2 V(1,2) collected_literal [OF N(2)] collected_literal [OF V(3)] source_dialect_key(2)
    by (simp add: TryToParseSourceURLComment_def del: ascii_simps)
  moreover have "same_scan s s2"
    using same_scan_trans [OF same_scan_Advance N(4)] same_scan_trans [OF same_scan_Advance V(5)] same_scan_trans by blast
  moreover have "Suc (Suc p + length ?key) + length name = p + 15 + length name" by simp
  ultimately show ?thesis using that [of s2] V(4) by argo
qed

lemma c0_TrySetSourceDialect: "c0 (snd (TrySetSourceDialect v s)) \<in> {c0 s, kEndOfInput}"
  by (simp add: TrySetSourceDialect_def Let_def set_parser_error_def ReportScannerError_pos_def split: option.splits)

lemma comment_round:
  assumes "reading T p s" and "drop p T = dialect_comment name @ rest"
    and "list_all graphic name" and "name \<noteq> []" and "ends_line rest"
  obtains s1 where "scan_round U s = (Token_WHITESPACE, False, snd (TrySetSourceDialect name s1))"
    "reading T (p + length (dialect_comment name)) s1" "same_scan (set_beg_pos s) s1"
proof -
  define s0 where "s0 = set_beg_pos s"
  have r: "reading T p s0" unfolding s0_def by (rule reading_set_beg_pos [OF assms(1)])
  let ?tail = "0x20 # map ucast (ascii ''sourceDialect'') @ 0x3D # map ucast name @ rest"
  have T: "drop p T = 0x2F # 0x2F # 0x23 # ?tail" using assms(2) by (simp add: dialect_comment_def)
  note T1 = drop_char(3) [OF T] note T2 = drop_char(3) [OF T1] note T3 = drop_char(3) [OF T2]
  note r1 = reading_Advance [OF r]
  obtain c s1 where P: "Peek (Advance s0) = (c, s1)" by fastforce
  note R = reading_Peek [OF r1 P]
  note r3 = reading_Advance [OF reading_Advance [OF R(2)]]
  have c: "c0 s0 = 0x2F" "c0 (Advance s0) = 0x2F" "c = 0x23"
    using reading_char [OF r T] reading_char [OF r1 T1] R(1) drop_char(2) [OF T2] by simp_all
  obtain s2 where s2: "TryToParseSourceURLComment U (Advance (Advance s1)) = snd (TrySetSourceDialect name s2)"
    "reading T (Suc (Suc (Suc p)) + 15 + length name) s2" "same_scan (Advance (Advance s1)) s2"
    by (rule comment_value [OF r3 T3 assms(3-5)])
  have l: "Suc (Suc (Suc p)) + 15 + length name = p + length (dialect_comment name)"
    by (simp add: dialect_comment_def length_ascii)
  then have "drop (Suc (Suc (Suc p)) + 15 + length name) T = rest" using drop_behind [OF assms(2)] by (simp only:)
  then have "c0 s2 = kEndOfInput \<or> IsLineTerminator (c0 s2)" by (rule ends_line_char [OF s2(2) _ assms(5)])
  then have "SkipSourceURLComment U (Advance (Advance s1)) = (Token_WHITESPACE, snd (TrySetSourceDialect name s2))"
    using s2(1) c0_TrySetSourceDialect [of name s2] by (auto simp: SkipSourceURLComment_def)
  then have "scan_round U s = (Token_WHITESPACE, False, snd (TrySetSourceDialect name s2))"
    using c P by (simp add: scan_round_def s0_def [symmetric] scan_ascii_def GetOneCharToken_def scan_div_def)
  then show ?thesis
  proof (rule that [OF _ s2(2) [unfolded l]])
    show "same_scan (set_beg_pos s) s2" unfolding s0_def [symmetric]
    using same_scan_trans [OF same_scan_Advance R(3)] same_scan_trans [OF same_scan_Advance same_scan_Advance] s2(3)
      same_scan_trans by blast
  qed
qed

section \<open>The line end and the first word\<close>

lemma white_round:
  assumes "reading T p s" and "drop p T = 0x0A # u # us" and "\<not> IsWhiteSpaceOrLineTerminator U (ucast u)"
  obtains s1 where "scan_round U s = (Token_WHITESPACE, False, s1)" "reading T (Suc p) s1"
    "source_dialect s1 = source_dialect s"
proof -
  define s0 where "s0 = set_after_line_terminator True (set_beg_pos s)"
  have r: "reading T p s0" unfolding s0_def by (intro reading_set_after reading_set_beg_pos assms(1))
  have c: "c0 s = 0x0A" using reading_char [OF assms(1,2)] by simp
  have a: "after_line_terminator (next_desc s0)" by (simp add: s0_def set_after_line_terminator_def)
  have l: "IsLineTerminator 0x0A" "IsWhiteSpaceOrLineTerminator U 0x0A"
    by (simp_all add: IsLineTerminator_def one_byte_classes)
  have "(ucast u :: uc32) \<noteq> 0x20"
    using assms(3) by (auto simp: one_byte_classes IsOneByteWhitespace_def)
  then have h: "first_hit (white_check U) (True, 0x20) (drop (Suc p) T) = (ucast u, (True, 0x20), 1)"
    using assms(3) drop_char(3) [OF assms(2)] by (simp add: white_check_def)
  obtain b s1 where A: "AdvanceUntil (white_check U) (True, 0x20) s0 = (b, s1)" by fastforce
  note R = reading_AdvanceUntil [OF r drop_char(1) [OF assms(2)] A h]
  have S: "SkipWhiteSpace U (set_beg_pos s) = (Token_WHITESPACE, set_after_line_terminator True s1)"
  proof (cases "after_line_terminator (next_desc (set_beg_pos s))")
    case False
    then show ?thesis using c l A R(1) a by (simp add: SkipWhiteSpace_def Let_def s0_def [symmetric])
  next
    case True
    then have "set_beg_pos s = s0" using set_after_same [of "set_beg_pos s"] by (simp add: s0_def)
    then show ?thesis using reading_char [OF r assms(2)] l A R(1) a by (simp add: SkipWhiteSpace_def Let_def)
  qed
  then have "scan_round U s = (Token_WHITESPACE, False, set_after_line_terminator True s1)"
    using c by (simp add: scan_round_def scan_ascii_def GetOneCharToken_def)
  moreover have "reading T (Suc p) (set_after_line_terminator True s1)" using reading_set_after [OF R(2)] by simp
  moreover have "source_dialect (set_after_line_terminator True s1) = source_dialect s"
    using R(3) by (simp add: same_scan_def s0_def set_after_line_terminator_def set_beg_pos_def)
  ultimately show ?thesis by (rule that)
qed

section \<open>The dialect of a script\<close>

lemma TrySetSourceDialect_name:
  assumes "reading T p s" and "\<not> saw_non_comment_token s" and "\<not> found_source_dialect_comment s"
    and "snd (TrySetSourceDialect (SourceDialectName d) s) = s'"
  shows "reading T p s'" "source_dialect s' = d" "found_source_dialect_comment s'"
proof -
  have t: "TryParseSourceDialect (SourceDialectName d) = Some d" by (simp add: TryParseSourceDialect_iff)
  have "scan_step s s'"
    using scan_TrySetSourceDialect [of "SourceDialectName d" s _ s'] assms(4) by (metis prod.collapse)
  moreover have s': "s' = s \<lparr> source_dialect := d, source_dialect_name :=
      foldl AddChar_char (LiteralBuffer_Start (source_dialect_name s)) (SourceDialectName d),
      found_source_dialect_comment := True \<rparr>"
    using assms(2-4) t by (simp add: TrySetSourceDialect_def Let_def)
  ultimately show "reading T p s'" using assms(1) by (auto simp: reading_def scan_step_def scanner_has_parser_error_def)
  show "source_dialect s' = d" "found_source_dialect_comment s'" by (simp_all add: s')
qed

lemma dialect_names_graphic: "list_all graphic (SourceDialectName d)" "SourceDialectName d \<noteq> []"
  by (cases d; simp add: graphic_def)+

text \<open>The scanner as \<^verbatim>\<open>Initialize\<close> starts it.\<close>

lemma Initialize_Scan:
  assumes "ScanSingleToken U (set_after_line_terminator False (set_after_line_terminator True (Init s))) = (t, s1)"
  shows "Initialize U s = saw_token (finish_token t s1)" "peek (Initialize U s) = t"
  using Scan_eq [OF assms] Scan_peek [OF assms] by (simp_all add: Initialize_def)

lemma starting_scanner:
  assumes "fresh_stream st" and "pos st = 0"
    and "s = set_after_line_terminator False (set_after_line_terminator True (Init (new_Scanner st fl)))"
  shows "reading (text_of st) 0 s" "\<not> saw_non_comment_token s" "\<not> found_source_dialect_comment s"
    "source_dialect s = flag_source_dialect fl"
proof -
  show "reading (text_of st) 0 s" unfolding assms(3) by (intro reading_set_after reading_Init(1) assms)
  show "\<not> saw_non_comment_token s" "\<not> found_source_dialect_comment s" "source_dialect s = flag_source_dialect fl"
    using reading_Init(2) [OF assms(1,2), of fl] by (simp_all add: assms(3) set_after_line_terminator_def Init_def Let_def)
qed

lemma word_not_white:
  assumes "ascii_word w"
  shows "\<not> IsWhiteSpaceOrLineTerminator U (ucast (ucast (hd w) :: uc16))"
proof -
  have "IsAsciiIdentifier (ucast (hd w))" using assms by (cases w) (simp_all add: ascii_word_def)
  then have "graphic (hd w)" by (auto simp: graphic_def IsAsciiIdentifier_iff word_le_nat_alt unat_widen word_unat_eq_iff)
  then show ?thesis by (rule graphic_char(4))
qed

text \<open>C2. The dialect comment: a script whose first line is \<^verbatim>\<open>//# sourceDialect=\<close> with the
  name of a dialect is scanned with the keywords of that dialect from its first word on,
  whatever dialect the flags ask for and whatever stream delivers the text; that first word on the second line
  is the first token.\<close>

theorem dialect_comment_selects:
  assumes "fresh_stream st" and "pos st = 0" and "ascii_word w" and "ends_word rest"
    and "text_of st = dialect_comment (SourceDialectName d) @ 0x0A # map ucast w @ rest"
  shows "source_dialect (Initialize U (new_Scanner st fl)) = d \<and>
    peek (Initialize U (new_Scanner st fl)) =
      (case map_of (dialect_words d) w of None \<Rightarrow> Token_IDENTIFIER | Some t \<Rightarrow> t) \<and>
    NextSymbol (Initialize U (new_Scanner st fl)) = map ucast w"
proof -
  define s where "s = set_after_line_terminator False (set_after_line_terminator True (Init (new_Scanner st fl)))"
  note S = starting_scanner [OF assms(1,2) s_def]
  let ?n = "SourceDialectName d" and ?T = "text_of st"
  let ?tok = "case map_of (dialect_words d) w of None \<Rightarrow> Token_IDENTIFIER | Some t \<Rightarrow> t"
  have T: "drop 0 ?T = dialect_comment ?n @ 0x0A # map ucast w @ rest" using assms(5) by simp
  obtain s1 where s1: "scan_round U s = (Token_WHITESPACE, False, snd (TrySetSourceDialect ?n s1))"
    "reading ?T (0 + length (dialect_comment ?n)) s1" "same_scan (set_beg_pos s) s1"
    by (rule comment_round [OF S(1) T dialect_names_graphic]) (simp_all add: ends_line_def IsLineTerminator_def)
  define s2 where "s2 = snd (TrySetSourceDialect ?n s1)"
  have n: "\<not> saw_non_comment_token s1" "\<not> found_source_dialect_comment s1"
    using s1(3) S(2,3) by (simp_all add: same_scan_def set_beg_pos_def)
  note D = TrySetSourceDialect_name [OF s1(2) n s2_def [symmetric]]
  obtain u us where u: "map ucast w @ rest = u # us" "u = ucast (hd w)" "\<not> IsWhiteSpaceOrLineTerminator U (ucast u)"
    using assms(3) word_not_white [OF assms(3), of U] by (cases w) (auto simp: ascii_word_def)
  obtain s3 where s3: "scan_round U s2 = (Token_WHITESPACE, False, s3)"
    "reading ?T (Suc (0 + length (dialect_comment ?n))) s3" "source_dialect s3 = source_dialect s2"
    by (rule white_round [OF D(1) _ u(3)]) (use drop_behind [OF T] u(1) in auto)
  obtain s4 where s4: "scan_round U s3 = (?tok, True, s4)" "literal_so_far s4 = map ucast w"
    by (rule word_round [OF s3(2) _ assms(3,4), of U, unfolded s3(3) D(2)])
      (use drop_char(3) [of "length (dialect_comment ?n)" ?T] drop_behind [OF T] in auto)
  have r: "ScanSingleToken U s2 = (?tok, s4)" "ScanSingleToken U s = (?tok, s4)"
    using s1(1) s3(1) s4(1) by (simp_all add: s2_def [symmetric] ScanSingleToken.simps [of U s] ScanSingleToken.simps [of U s2]
      ScanSingleToken.simps [of U s3])
  have "same_dialect s2 s4" using ScanSingleToken_step [OF r(1)] D(3) by (simp add: scan_step_def)
  then have "source_dialect s4 = d" using D(2) by (simp add: same_dialect_def)
  with Initialize_Scan [OF r(2) [unfolded s_def]] s4(2) show ?thesis
    by (simp add: NextSymbol_units finish_token_def)
qed

theorem dialect_comment_selects_witness:
  "peek (Initialize latin1_icu (new_Scanner (ScannerStream_ForTesting (ascii ''//# sourceDialect=js-spa'' @ [0x0A] @ ascii ''si(x)''))
     \<lparr> is_module = False, flag_source_dialect = kJsEng \<rparr>)) = Token_IF"
proof -
  let ?bs = "ascii ''//# sourceDialect=js-spa'' @ [0x0A] @ ascii ''si(x)''"
  have w: "ascii_word (ascii ''si'')" "ends_word (map ucast (ascii ''(x)''))"
    "map_of (dialect_words kJsSpa) (ascii ''si'') = Some Token_IF" by code_simp+
  have "text_of (ScannerStream_ForTesting ?bs) =
      dialect_comment (SourceDialectName kJsSpa) @ 0x0A # map ucast (ascii ''si'') @ map ucast (ascii ''(x)'')"
    by (simp add: testing_stream dialect_comment_def)
  from dialect_comment_selects [OF fresh_streams(2) testing_stream(4) w(1,2) this] w(3) show ?thesis
    by (simp del: ascii_simps map_of.simps)
qed

text \<open>C29. A dialect comment with an unknown name: a script whose first line is
  \<^verbatim>\<open>//# sourceDialect=\<close> with visible ASCII characters that name no dialect is rejected.
  Its first token is \<^verbatim>\<open>ILLEGAL\<close>, the parser error is set and the dialect is still the one
  of the flags.\<close>

theorem unknown_dialect_rejected:
  assumes "fresh_stream st" and "pos st = 0" and "list_all graphic name" and "name \<noteq> []"
    and "\<forall>d. name \<noteq> SourceDialectName d" and "text_of st = dialect_comment name @ rest" and "ends_line rest"
  shows "peek (Initialize U (new_Scanner st fl)) = Token_ILLEGAL \<and>
    scanner_has_parser_error (Initialize U (new_Scanner st fl)) \<and>
    source_dialect (Initialize U (new_Scanner st fl)) = flag_source_dialect fl"
proof -
  define s where "s = set_after_line_terminator False (set_after_line_terminator True (Init (new_Scanner st fl)))"
  note S = starting_scanner [OF assms(1,2) s_def]
  have T: "drop 0 (text_of st) = dialect_comment name @ rest" using assms(6) by simp
  obtain s1 where s1: "scan_round U s = (Token_WHITESPACE, False, snd (TrySetSourceDialect name s1))"
    "reading (text_of st) (0 + length (dialect_comment name)) s1" "same_scan (set_beg_pos s) s1"
    by (rule comment_round [OF S(1) T assms(3,4,7)])
  define s2 where "s2 = snd (TrySetSourceDialect name s1)"
  have p: "TryParseSourceDialect name = None"
    using assms(5) TryParseSourceDialect_iff [of name] by (cases "TryParseSourceDialect name") auto
  have e: "scanner_has_parser_error s2" "source_dialect s2 = flag_source_dialect fl" "error_stuck s2"
    using s1(2,3) S(2-4) p
    by (auto simp: s2_def TrySetSourceDialect_def Let_def set_parser_error_def ReportScannerError_pos_def reading_def
        scanner_has_parser_error_def stream_set_parser_error_def same_scan_def set_beg_pos_def error_stuck_def)
  have t: "ScanSingleToken U s = (Token_ILLEGAL, set_beg_pos s2)"
    using s1(1) stuck_round [OF e(3), of U]
    by (simp add: s2_def [symmetric] ScanSingleToken.simps [of U s] ScanSingleToken.simps [of U s2])
  from Initialize_Scan [OF t [unfolded s_def]] e(1,2) show ?thesis
    by (simp add: scanner_has_parser_error_def set_beg_pos_def finish_token_def)
qed

theorem unknown_dialect_rejected_witness:
  "peek (Initialize latin1_icu (new_Scanner (ScannerStream_ForTesting (ascii ''//# sourceDialect=js-fra''))
     \<lparr> is_module = False, flag_source_dialect = kJsEng \<rparr>)) = Token_ILLEGAL"
proof -
  have "ascii ''js-fra'' \<noteq> SourceDialectName d" for d by (cases d) simp_all
  moreover have "list_all graphic (ascii ''js-fra'')" by code_simp
  moreover have "text_of (ScannerStream_ForTesting (ascii ''//# sourceDialect=js-fra'')) =
      dialect_comment (ascii ''js-fra'') @ []"
    by (simp add: testing_stream dialect_comment_def)
  ultimately show ?thesis
    using unknown_dialect_rejected [OF fresh_streams(2) testing_stream(4), of "ascii ''js-fra''"]
    by (simp add: ends_line_def)
qed

end
