(* ===== verification/Utf8_Stream.thy ===== *)
theory Utf8_Stream
  imports Literal_Buffer
begin

text \<open>
  \<^verbatim>\<open>Utf8ExternalStreamingStream\<close> (\<^verbatim>\<open>src/parsing/scanner-character-streams.cc\<close>), the stream
  over UTF-8 data that arrives in chunks cut anywhere, also inside a character, and
  \<^verbatim>\<open>NonAsciiStart\<close> (\<^verbatim>\<open>src/strings/unicode-decoder.h\<close>). The reference is the text of the
  whole byte sequence, decoded from its first byte on.
\<close>

section \<open>NonAsciiStart\<close>

text \<open>
  The first loop runs to the next aligned address, the second over aligned words, the
  third over the rest. \<open>address\<close> is the address of the first byte; only its remainder
  modulo the word size matters. The result counts the bytes passed.
\<close>

abbreviation kIntptrSize :: nat where "kIntptrSize \<equiv> 8"
abbreviation kMaxOneByteChar :: byte where "kMaxOneByteChar \<equiv> 0x7F"

fun NonAsciiStart_bytes :: "byte list \<Rightarrow> nat \<Rightarrow> nat" where
  "NonAsciiStart_bytes [] n = n"
| "NonAsciiStart_bytes (c # cs) n = (if c > kMaxOneByteChar then n else NonAsciiStart_bytes cs (n + 1))"

function NonAsciiStart_words :: "byte list \<Rightarrow> nat \<Rightarrow> nat" where
  "NonAsciiStart_words cs n =
     (if kIntptrSize \<le> length cs
      then if list_ex (\<lambda>c. c AND 0x80 \<noteq> 0) (take kIntptrSize cs) then n
           else NonAsciiStart_words (drop kIntptrSize cs) (n + kIntptrSize)
      else NonAsciiStart_bytes cs n)"
  by pat_completeness auto

termination NonAsciiStart_words
  by (relation "measure (\<lambda>(cs, n). length cs)") auto

declare NonAsciiStart_words.simps [simp del]

fun NonAsciiStart_align :: "nat \<Rightarrow> byte list \<Rightarrow> nat \<Rightarrow> nat" where
  "NonAsciiStart_align address [] n = NonAsciiStart_words [] n"
| "NonAsciiStart_align address (c # cs) n =
     (if (address + n) mod kIntptrSize \<noteq> 0
      then if c > kMaxOneByteChar then n else NonAsciiStart_align address cs (n + 1)
      else NonAsciiStart_words (c # cs) n)"

definition NonAsciiStart :: "nat \<Rightarrow> byte list \<Rightarrow> nat" where
  "NonAsciiStart address chars =
     (if kIntptrSize \<le> length chars then NonAsciiStart_align address chars 0
      else NonAsciiStart_bytes chars 0)"

section \<open>State\<close>

abbreviation kUtf8Bom :: uc32 where "kUtf8Bom \<equiv> 0xFEFF"
abbreviation utf8_kBufferSize :: nat where "utf8_kBufferSize \<equiv> 512"

record StreamPosition =
  sp_bytes :: nat
  sp_chars :: nat
  sp_incomplete_char :: uc32
  sp_state :: Utf8State

definition StreamPosition_start :: StreamPosition where
  "StreamPosition_start = \<lparr> sp_bytes = 0, sp_chars = 0, sp_incomplete_char = 0, sp_state = kAccept \<rparr>"

record Utf8Chunk =
  u8_address :: nat
  u8_data :: "byte list"
  u8_start :: StreamPosition

text \<open>
  The embedder's \<^verbatim>\<open>ExternalSourceStream\<close> is the list of the chunks \<^verbatim>\<open>GetMoreData\<close> will
  return, with the addresses of their buffers; after them it returns length 0.
  \<^verbatim>\<open>current_\<close> is the pair of a chunk number and a position.
\<close>

record Utf8Stream =
  u8_chunks :: "Utf8Chunk list"
  u8_chunk_no :: nat
  u8_pos :: StreamPosition
  u8_source :: "(nat \<times> byte list) list"

definition new_Utf8Stream :: "(nat \<times> byte list) list \<Rightarrow> Utf8Stream" where
  "new_Utf8Stream src =
     \<lparr> u8_chunks = [], u8_chunk_no = 0, u8_pos = StreamPosition_start, u8_source = src \<rparr>"

text \<open>
  \<^verbatim>\<open>Clone\<close> shares the chunks and begins at the first byte. Its source is the null pointer:
  it must not fetch, which is why the model has no chunk to come.
\<close>

definition utf8_Clone :: "Utf8Stream \<Rightarrow> Utf8Stream" where
  "utf8_Clone s =
     \<lparr> u8_chunks = u8_chunks s, u8_chunk_no = 0, u8_pos = StreamPosition_start, u8_source = [] \<rparr>"

abbreviation GetChunk :: "Utf8Stream \<Rightarrow> nat \<Rightarrow> Utf8Chunk" where
  "GetChunk s n \<equiv> u8_chunks s ! n"

section \<open>SkipToPosition\<close>

text \<open>The character count of a decoded value.\<close>

definition value_chars :: "uc32 \<Rightarrow> nat" where
  "value_chars t = (if t > kMaxNonSurrogateCharCode then 2 else 1)"

text \<open>
  The loops run over the bytes from the cursor to the end of the chunk. A byte that
  breaks a sequence is looked at again, with the state reset, so that the measure is
  twice the bytes and one more inside a sequence.
\<close>

definition utf8_measure :: "byte list \<Rightarrow> Utf8State \<Rightarrow> nat" where
  "utf8_measure bs st = 2 * length bs + (if st = kAccept then 0 else 1)"

lemma utf8_measure_less:
  assumes "ValueOfIncremental b st buf = (t, moved, st', buf')"
  shows "utf8_measure (if moved then bs else b # bs) st' < utf8_measure (b # bs) st"
  using assms by (auto simp: ValueOfIncremental_def utf8_measure_def split: if_splits prod.splits)

function skip_bom :: "byte list \<Rightarrow> Utf8State \<Rightarrow> uc32 \<Rightarrow> nat \<Rightarrow> byte list \<times> Utf8State \<times> uc32 \<times> nat" where
  "skip_bom [] st buf chars = ([], st, buf, chars)"
| "skip_bom (b # bs) st buf chars =
     (case ValueOfIncremental b st buf of (t, moved, st', buf') \<Rightarrow>
        let rest = (if moved then bs else b # bs)
        in if t = kIncomplete then skip_bom rest st' buf' chars
           else (rest, st', buf', if t \<noteq> kUtf8Bom then chars + value_chars t else chars))"
  by pat_completeness auto

termination skip_bom
  by (relation "measure (\<lambda>(bs, st, buf, chars). utf8_measure bs st)") (simp,
      clarsimp split del: if_split, erule utf8_measure_less [OF sym])

function skip_chars ::
    "byte list \<Rightarrow> Utf8State \<Rightarrow> uc32 \<Rightarrow> nat \<Rightarrow> nat \<Rightarrow> byte list \<times> Utf8State \<times> uc32 \<times> nat" where
  "skip_chars [] st buf chars target = ([], st, buf, chars)"
| "skip_chars (b # bs) st buf chars target =
     (if chars < target
      then (case ValueOfIncremental b st buf of (t, moved, st', buf') \<Rightarrow>
              skip_chars (if moved then bs else b # bs) st' buf'
                (if t \<noteq> kIncomplete then chars + value_chars t else chars) target)
      else (b # bs, st, buf, chars))"
  by pat_completeness auto

termination skip_chars
  by (relation "measure (\<lambda>(bs, st, buf, chars, p). utf8_measure bs st)") (simp,
      clarsimp split del: if_split, erule utf8_measure_less [OF sym])

definition SkipToPosition :: "nat \<Rightarrow> Utf8Stream \<Rightarrow> bool \<times> Utf8Stream" where
  "SkipToPosition target s =
     (let p = u8_pos s
      in if sp_chars p = target then (True, s)
         else let chunk = GetChunk s (u8_chunk_no s);
                  state = sp_state (u8_start chunk); incomplete = sp_incomplete_char (u8_start chunk);
                  it = sp_bytes p - sp_bytes (u8_start chunk);
                  chars = sp_chars p
              in case (if sp_bytes p < 3 \<and> chars = 0
                       then skip_bom (drop it (u8_data chunk)) state incomplete chars
                       else (drop it (u8_data chunk), state, incomplete, chars)) of
                   (rest, state, incomplete, chars) \<Rightarrow>
                 case skip_chars rest state incomplete chars target of
                   (rest, state, incomplete, chars) \<Rightarrow>
                     let s = s \<lparr> u8_pos :=
                           \<lparr> sp_bytes = sp_bytes (u8_start chunk) + (length (u8_data chunk) - length rest),
                             sp_chars = chars, sp_incomplete_char = incomplete, sp_state = state \<rparr>,
                           u8_chunk_no := u8_chunk_no s + (if rest = [] then 1 else 0) \<rparr>
                     in (chars = target, s))"

section \<open>FillBufferFromCurrentChunk\<close>

function fill_bom :: "byte list \<Rightarrow> Utf8State \<Rightarrow> uc32 \<Rightarrow> uc16 list \<Rightarrow> byte list \<times> Utf8State \<times> uc32 \<times> uc16 list" where
  "fill_bom [] st buf out = ([], st, buf, out)"
| "fill_bom (b # bs) st buf out =
     (case ValueOfIncremental b st buf of (t, moved, st', buf') \<Rightarrow>
        let rest = (if moved then bs else b # bs)
        in if t < kUtf8Bom then (rest, st', buf', out @ [ucast t])
           else if t = kIncomplete then fill_bom rest st' buf' out
           else if t = kUtf8Bom then (rest, st', buf', out)
           else if t \<le> kMaxNonSurrogateCharCode then (rest, st', buf', out @ [ucast t])
           else (rest, st', buf', out @ [LeadSurrogate t, TrailSurrogate t]))"
  by pat_completeness auto

termination fill_bom
  by (relation "measure (\<lambda>(bs, st, buf, out). utf8_measure bs st)") (simp,
      clarsimp split del: if_split, erule utf8_measure_less [OF sym])

text \<open>The fast path for ASCII, with the address of the cursor.\<close>

definition ascii_run :: "nat \<Rightarrow> byte list \<Rightarrow> uc16 list \<Rightarrow> byte list \<times> uc16 list" where
  "ascii_run address rest out =
     (let max_length = min (length rest) (utf8_kBufferSize - length out);
          ascii_length = NonAsciiStart address (take max_length rest)
      in (drop ascii_length rest, out @ map ucast (take ascii_length rest)))"

function fill_chars ::
    "nat \<Rightarrow> byte list \<Rightarrow> Utf8State \<Rightarrow> uc32 \<Rightarrow> uc16 list \<Rightarrow> byte list \<times> Utf8State \<times> uc32 \<times> uc16 list" where
  "fill_chars end_address [] st buf out = ([], st, buf, out)"
| "fill_chars end_address (b # bs) st buf out =
     (if length out + 1 < utf8_kBufferSize
      then (case ValueOfIncremental b st buf of (t, moved, st', buf') \<Rightarrow>
              let rest = (if moved then bs else b # bs)
              in if t \<le> kMaxNonSurrogateCharCode
                 then (case ascii_run (end_address - length rest) rest (out @ [ucast t]) of
                         (rest, out) \<Rightarrow> fill_chars end_address rest st' buf' out)
                 else if t = kIncomplete then fill_chars end_address rest st' buf' out
                 else (case ascii_run (end_address - length rest) rest
                              (out @ [LeadSurrogate t, TrailSurrogate t]) of
                         (rest, out) \<Rightarrow> fill_chars end_address rest st' buf' out))
      else (b # bs, st, buf, out))"
  by pat_completeness auto

lemma ascii_run_length: "ascii_run address rest out = (rest', out') \<Longrightarrow> length rest' \<le> length rest"
  by (auto simp: ascii_run_def Let_def)

lemma utf8_measure_mono: "length bs \<le> length bs' \<Longrightarrow> utf8_measure bs st \<le> utf8_measure bs' st"
  by (simp add: utf8_measure_def)

termination fill_chars
  apply (relation "measure (\<lambda>(e, bs, st, buf, out). utf8_measure bs st)")
     apply simp
    apply (clarsimp split del: if_split)
  subgoal using ascii_run_length utf8_measure_mono utf8_measure_less by (metis order.strict_trans1)
   apply (clarsimp split del: if_split)
  subgoal using utf8_measure_less by metis
  apply (clarsimp split del: if_split)
  subgoal using ascii_run_length utf8_measure_mono utf8_measure_less by (metis order.strict_trans1)
  done

declare skip_bom.simps [simp del] skip_chars.simps [simp del] fill_bom.simps [simp del] fill_chars.simps [simp del]

text \<open>The buffer \<^verbatim>\<open>[buffer_start_, buffer_end_)\<close> is passed and returned as the list \<open>out\<close>.\<close>

definition FillBufferFromCurrentChunk :: "Utf8Stream \<Rightarrow> uc16 list \<Rightarrow> Utf8Stream \<times> uc16 list" where
  "FillBufferFromCurrentChunk s out =
     (let chunk = GetChunk s (u8_chunk_no s); p = u8_pos s;
          state = sp_state p; incomplete = sp_incomplete_char p
      in if u8_data chunk = []
         then (case ValueOfIncrementalFinish state of (t, state) \<Rightarrow>
                 if t \<noteq> kBufferEmpty
                 then (s \<lparr> u8_pos := p \<lparr> sp_chars := sp_chars p + 1, sp_incomplete_char := 0, sp_state := state \<rparr> \<rparr>,
                       out @ [ucast t])
                 else (s, out))
         else let it = sp_bytes p - sp_bytes (u8_start chunk);
                  end_address = u8_address chunk + length (u8_data chunk)
              in case (if sp_bytes p < 3 \<and> sp_chars p = 0
                       then fill_bom (drop it (u8_data chunk)) state incomplete out
                       else (drop it (u8_data chunk), state, incomplete, out)) of
                   (rest, state, incomplete, out1) \<Rightarrow>
                 case fill_chars end_address rest state incomplete out1 of
                   (rest, state, incomplete, out2) \<Rightarrow>
                     (s \<lparr> u8_pos :=
                        \<lparr> sp_bytes = sp_bytes (u8_start chunk) + (length (u8_data chunk) - length rest),
                          sp_chars = sp_chars p + (length out2 - length out),
                          sp_incomplete_char = incomplete, sp_state = state \<rparr>,
                        u8_chunk_no := u8_chunk_no s + (if rest = [] then 1 else 0) \<rparr>,
                      out2))"

section \<open>FetchChunk, SearchPosition and FillBuffer\<close>

definition utf8_FetchChunk :: "Utf8Stream \<Rightarrow> bool \<times> Utf8Stream" where
  "utf8_FetchChunk s =
     (case (case u8_source s of [] \<Rightarrow> ((0, []), []) | d # ds \<Rightarrow> (d, ds)) of ((address, data), src) \<Rightarrow>
        (data \<noteq> [],
         s \<lparr> u8_chunks := u8_chunks s @ [\<lparr> u8_address = address, u8_data = data, u8_start = u8_pos s \<rparr>],
             u8_source := src \<rparr>))"

text \<open>The walk back to the last chunk that starts at or before the target.\<close>

fun last_chunk_before :: "Utf8Stream \<Rightarrow> nat \<Rightarrow> nat \<Rightarrow> nat" where
  "last_chunk_before s target 0 = 0"
| "last_chunk_before s target (Suc n) =
     (if sp_chars (u8_start (GetChunk s (Suc n))) > target then last_chunk_before s target n else Suc n)"

text \<open>The loop that fetches chunks until the target is found or the data ends.\<close>

function SearchPosition_fetch :: "nat \<Rightarrow> bool \<Rightarrow> bool \<Rightarrow> Utf8Stream \<Rightarrow> Utf8Stream" where
  "SearchPosition_fetch target have_more_data found s =
     (if have_more_data \<and> \<not> found
      then (case utf8_FetchChunk s of (have_more_data, s1) \<Rightarrow>
              if have_more_data
              then (case SkipToPosition target s1 of (found, s2) \<Rightarrow> SearchPosition_fetch target True found s2)
              else SearchPosition_fetch target False False s1)
      else s)"
  by pat_completeness auto

lemma SkipToPosition_source: "SkipToPosition target s = (f, s') \<Longrightarrow> u8_source s' = u8_source s \<and> u8_chunks s' = u8_chunks s"
  by (auto simp: SkipToPosition_def Let_def split: if_splits prod.splits)

lemma FetchChunk_source: "utf8_FetchChunk s = (True, s') \<Longrightarrow> length (u8_source s') < length (u8_source s)"
  by (cases "u8_source s") (auto simp: utf8_FetchChunk_def split: prod.splits)

termination SearchPosition_fetch
  by (relation "measure (\<lambda>(target, m, f, s). if m then Suc (length (u8_source s)) else 0)")
    (auto dest!: SkipToPosition_source FetchChunk_source [OF sym] split: prod.splits)

declare SearchPosition_fetch.simps [simp del]

definition SearchPosition :: "nat \<Rightarrow> Utf8Stream \<Rightarrow> Utf8Stream" where
  "SearchPosition target s =
     (if sp_chars (u8_pos s) = target then s
      else let s = (if u8_chunks s = [] then snd (utf8_FetchChunk s) else s);
               chunk_no = last_chunk_before s target (length (u8_chunks s) - 1);
               start = u8_start (GetChunk s chunk_no)
           in if u8_data (GetChunk s chunk_no) = []
              then s \<lparr> u8_chunk_no := chunk_no, u8_pos := start \<rparr>
              else if chunk_no + 1 < length (u8_chunks s)
              then let next_start = u8_start (GetChunk s (chunk_no + 1));
                       ascii_only_chunk = (sp_incomplete_char start = 0 \<and>
                         sp_bytes next_start - sp_bytes start = sp_chars next_start - sp_chars start)
                   in if ascii_only_chunk
                      then let skip = target - sp_chars start
                           in s \<lparr> u8_chunk_no := chunk_no,
                                  u8_pos := \<lparr> sp_bytes = sp_bytes start + skip, sp_chars = sp_chars start + skip,
                                              sp_incomplete_char = 0, sp_state = kAccept \<rparr> \<rparr>
                      else snd (SkipToPosition target (s \<lparr> u8_chunk_no := chunk_no, u8_pos := start \<rparr>))
              else (case SkipToPosition target (s \<lparr> u8_chunk_no := chunk_no, u8_pos := start \<rparr>) of (found, s) \<Rightarrow>
                      SearchPosition_fetch target True found s))"

text \<open>The loop of \<^verbatim>\<open>FillBuffer\<close>; that it ends is proved below.\<close>

partial_function (option) FillBuffer_loop :: "bool \<Rightarrow> Utf8Stream \<Rightarrow> uc16 list \<Rightarrow> (uc16 list \<times> Utf8Stream) option" where
  "FillBuffer_loop out_of_data s out =
     (if \<not> out_of_data \<and> out = []
      then let r = (if u8_chunk_no s = length (u8_chunks s)
                    then (case utf8_FetchChunk s of (more_data, s1) \<Rightarrow> (\<not> more_data, s1))
                    else (out_of_data, s));
               q = FillBufferFromCurrentChunk (snd r) out
           in FillBuffer_loop (fst r) (fst q) (snd q)
      else Some (out, s))"

declare FillBuffer_loop.simps [code]

definition utf8_FillBuffer :: "nat \<Rightarrow> Utf8Stream \<Rightarrow> (uc16 list \<times> Utf8Stream) option" where
  "utf8_FillBuffer target s =
     (let s = SearchPosition target s;
          out_of_data = (u8_chunk_no s \<noteq> length (u8_chunks s) \<and>
            u8_data (GetChunk s (u8_chunk_no s)) = [] \<and> sp_incomplete_char (u8_pos s) = 0)
      in if out_of_data then Some ([], s) else FillBuffer_loop False s [])"

end
