(* ===== verification/Utf8_Text.thy ===== *)
theory Utf8_Text
  imports Utf8_Stream
begin

text \<open>
  What \<^verbatim>\<open>Utf8ExternalStreamingStream\<close> delivers. The text of a byte sequence is decoded from
  its first byte on, with a leading byte order mark removed and a truncated sequence at
  the end replaced. Reading forwards delivers this text for arbitrary bytes and chunks;
  seeking does so for valid UTF-8.
\<close>

section \<open>The text of a byte sequence\<close>

definition add_units :: "uc16 list \<Rightarrow> Utf8State \<times> uc32 \<times> uc16 list \<Rightarrow> Utf8State \<times> uc32 \<times> uc16 list" where
  "add_units E r = (case r of (st, buf, U) \<Rightarrow> (st, buf, E @ U))"

lemma add_units_simps [simp]:
  "add_units E (st, buf, U) = (st, buf, E @ U)" "add_units [] r = r" "add_units D (add_units E r) = add_units (D @ E) r"
  by (simp_all add: add_units_def split: prod.splits)

text \<open>The decoder on a part of the bytes: the state it ends in and the units produced.\<close>

function utf8_prefix :: "bool \<Rightarrow> byte list \<Rightarrow> Utf8State \<Rightarrow> uc32 \<Rightarrow> Utf8State \<times> uc32 \<times> uc16 list" where
  "utf8_prefix bom [] st buf = (st, buf, [])"
| "utf8_prefix bom (b # bs) st buf =
     (case ValueOfIncremental b st buf of (t, moved, st', buf') \<Rightarrow>
        let rest = (if moved then bs else b # bs)
        in if t = kIncomplete then utf8_prefix bom rest st' buf'
           else add_units (if bom \<and> t = kUtf8Bom then [] else code_units t) (utf8_prefix False rest st' buf'))"
  by pat_completeness auto

termination utf8_prefix
  by (relation "measure (\<lambda>(bom, bs, st, buf). utf8_measure bs st)") (simp,
      (clarsimp split del: if_split, erule utf8_measure_less [OF sym])+)

declare utf8_prefix.simps [simp del]

definition utf8_decode :: "bool \<Rightarrow> byte list \<Rightarrow> Utf8State \<Rightarrow> uc32 \<Rightarrow> uc16 list" where
  "utf8_decode bom bs st buf =
     (case utf8_prefix bom bs st buf of (st', buf', U) \<Rightarrow> U @ (if st' = kAccept then [] else [0xFFFD]))"

lemma utf8_decode_Nil: "utf8_decode bom [] st buf = (if st = kAccept then [] else [0xFFFD])"
  by (simp add: utf8_decode_def utf8_prefix.simps)

lemma utf8_decode_add:
  "utf8_prefix f bs st buf = add_units E (utf8_prefix f' bs' st' buf') \<Longrightarrow>
   utf8_decode f bs st buf = E @ utf8_decode f' bs' st' buf'"
  by (simp add: utf8_decode_def split: prod.splits)

definition utf8_text :: "byte list \<Rightarrow> uc16 list" where
  "utf8_text bs = utf8_decode True bs kAccept 0"

section \<open>Steps of the decoder\<close>

definition good_state :: "Utf8State \<Rightarrow> uc32 \<Rightarrow> bool" where
  "good_state st buf \<longleftrightarrow> utf8_partial st (unat buf)"

text \<open>How many bytes of the current sequence have been read.\<close>

definition pending :: "Utf8State \<Rightarrow> uc32 \<Rightarrow> nat" where
  "pending st buf =
     (case st of kAccept \<Rightarrow> 0
      | kTwoByte \<Rightarrow> (if unat buf < 0x20 then 1 else if unat buf < 0x400 then 2 else 3)
      | kThreeByte \<Rightarrow> (if unat buf < 0x10 then 1 else 2)
      | _ \<Rightarrow> 1)"

lemma good_accept [simp]: "good_state kAccept 0" "good_state kAccept buf \<longleftrightarrow> buf = 0" "pending kAccept buf = 0"
  by (simp_all add: good_state_def utf8_partial_def pending_def word_unat_eq_iff)

lemma pending_zero: "good_state st buf \<Longrightarrow> pending st buf = 0 \<longleftrightarrow> st = kAccept"
  by (cases st) (auto simp: pending_def good_state_def utf8_partial_def)

lemma partial_small: "utf8_partial st v \<Longrightarrow> v < 0x4400"
  by (cases st) (auto simp: utf8_partial_def)

lemma unat_of_partial: "utf8_partial st v \<Longrightarrow> unat (of_nat v :: uc32) = v"
  using partial_small [of st v] by (simp add: unat_of_nat)

lemma pending_lead:
  assumes "utf8_lead b = (st, v)" and "0x80 \<le> b" and "st \<noteq> kReject"
  shows "pending st (of_nat v) = 1"
proof -
  have "unat (of_nat v :: uc32) = v" using utf8_partial_lead [OF assms(1,2,3)] unat_of_partial by blast
  with assms show ?thesis by (auto simp: utf8_lead_def pending_def split: if_splits)
qed

lemma pending_cont:
  assumes "utf8_partial st v" and "st \<noteq> kAccept" and "b = 0x80 + m" and "m < 64" and "utf8_next st b = st'"
    and "st' \<noteq> kReject" and "st' \<noteq> kAccept"
  shows "pending st' (of_nat (v * 64 + m)) = Suc (pending st (of_nat v))"
proof -
  have "utf8_partial st' (v * 64 + m)" using utf8_partial_cont [OF assms(1-6)] assms(7) by simp
  then have "unat (of_nat (v * 64 + m) :: uc32) = v * 64 + m" "unat (of_nat v :: uc32) = v"
    using assms(1) unat_of_partial by blast+
  then show ?thesis
    using assms by (cases st) (auto simp: utf8_next_def utf8_partial_def pending_def split: if_splits)
qed

text \<open>All outcomes of one step.\<close>

lemma lead_step:
  assumes "ValueOfIncremental b kAccept 0 = (t, moved, st', buf')"
  shows "moved \<and> (st' = kAccept \<and> buf' = 0 \<and> t \<noteq> kIncomplete \<and> IsScalarValue t \<and> (t \<le> 0x7F \<or> t = kBadChar) \<or>
    st' \<noteq> kAccept \<and> t = kIncomplete \<and> good_state st' buf' \<and> pending st' buf' = 1)"
proof (cases "b \<le> 0x7f")
  case True
  then have "unat (ucast b :: uc32) \<le> 0x7f" by (simp add: word_le_nat_alt unat_widen)
  then have "IsScalarValue (ucast b)" "(ucast b :: uc32) \<noteq> kIncomplete" "(ucast b :: uc32) \<le> 0x7F"
    by (auto simp: IsScalarValue_nat word_le_nat_alt)
  with True assms show ?thesis by (auto simp: ValueOfIncremental_def)
next
  case False
  then have b: "0x80 \<le> unat b" by (simp add: word_le_nat_alt)
  obtain s w where l: "utf8_lead (unat b) = (s, w)" by fastforce
  show ?thesis
  proof (cases "s = kReject")
    case True
    then have "fst (Utf8_Decode b kAccept 0) = kReject" using decode_lead(1) l by simp
    then have "ValueOfIncremental b kAccept 0 = (kBadChar, True, kAccept, 0)"
      using False by (cases "Utf8_Decode b kAccept 0") (simp add: ValueOfIncremental_def)
    with assms show ?thesis by (auto simp: IsScalarValue_def)
  next
    case False
    note P = utf8_partial_lead [OF l b False]
    have "ValueOfIncremental b kAccept 0 = (kIncomplete, True, s, of_nat w)" by (rule voi_lead [OF b l False])
    with assms P pending_lead [OF l b False] unat_of_partial [of s w] show ?thesis by (auto simp: good_state_def)
  qed
qed

lemma cont_step:
  assumes "utf8_partial st v" and "st \<noteq> kAccept" and "ValueOfIncremental b st (of_nat v) = (t, moved, st', buf')"
  shows "t = kBadChar \<and> \<not> moved \<and> st' = kAccept \<and> buf' = 0 \<or>
    moved \<and> (st' = kAccept \<and> buf' = 0 \<and> t \<noteq> kIncomplete \<and> IsScalarValue t \<and> st = kTwoByte \<and> unat t div 64 = v \<or>
      st' \<noteq> kAccept \<and> t = kIncomplete \<and> good_state st' buf' \<and> pending st' buf' = Suc (pending st (of_nat v)))"
proof (cases "0x80 \<le> unat b \<and> unat b < 0xC0 \<and> utf8_next st (unat b) \<noteq> kReject")
  case True
  then obtain k where k: "unat b = 0x80 + k" "k < 64" by (auto simp: nat_le_iff_add)
  then have m: "unat b mod 64 = k" by (simp add: mod_add_left_eq [of "0x80", symmetric])
  have c: "ValueOfIncremental b st (of_nat v) =
    (if utf8_next st (unat b) = kAccept then (of_nat (v * 64 + k), True, kAccept, 0)
     else (kIncomplete, True, utf8_next st (unat b), of_nat (v * 64 + k)))"
    using voi_cont [of st b v] True assms(2) m by simp
  show ?thesis
  proof (cases "utf8_next st (unat b) = kAccept")
    case a: True
    have st: "st = kTwoByte" using a by (cases st) (auto simp: utf8_next_def split: if_splits)
    have "unat (of_nat (v * 64 + k) :: uc32) = v * 64 + k"
      using partial_small [OF assms(1)] k(2) by (subst unat_of_nat) simp
    moreover have "t = of_nat (v * 64 + k)" using c a assms(3) by simp
    ultimately have t: "unat t div 64 = v" using k(2) by simp
    from voi_from_partial [OF assms] c a assms(3) st t show ?thesis by auto
  next
    case False
    with utf8_partial_cont [OF assms(1,2) k refl] True have P: "utf8_partial (utf8_next st (unat b)) (v * 64 + k)" by simp
    with pending_cont [OF assms(1,2) k refl] True False have
      "pending (utf8_next st (unat b)) (of_nat (v * 64 + k)) = Suc (pending st (of_nat v))" by simp
    with P unat_of_partial [OF P] c False assms(3) show ?thesis by (auto simp: good_state_def)
  qed
next
  case False
  then have "fst (Utf8_Decode b st (of_nat v)) = kReject"
    using decode_cont_state [OF assms(2), of b "of_nat v"] by auto
  from not_cont_reject [OF assms(2) this] assms(3) show ?thesis by simp
qed

lemma decode_step:
  assumes "good_state st buf" and "ValueOfIncremental b st buf = (t, moved, st', buf')"
  obtains (broken) "st \<noteq> kAccept" "t = kBadChar" "\<not> moved" "st' = kAccept" "buf' = 0"
  | (complete) "moved" "st' = kAccept" "buf' = 0" "t \<noteq> kIncomplete" "IsScalarValue t"
      "st = kAccept \<longrightarrow> t \<le> 0x7F \<or> t = kBadChar" "st \<noteq> kAccept \<longrightarrow> st = kTwoByte \<and> unat t div 64 = unat buf"
  | (incomplete) "moved" "st' \<noteq> kAccept" "t = kIncomplete" "good_state st' buf'" "pending st' buf' = Suc (pending st buf)"
proof (cases "st = kAccept")
  case True
  then have "buf = 0" using assms(1) by simp
  with lead_step [of b t moved st' buf'] assms(2) True that(2,3) show ?thesis by auto
next
  case False
  have "ValueOfIncremental b st (of_nat (unat buf)) = (t, moved, st', buf')" using assms(2) by simp
  from cont_step [OF assms(1) [unfolded good_state_def] False this] False that show ?thesis by auto
qed

section \<open>Validity\<close>

text \<open>The bytes complete the sequence of the state and are valid behind it.\<close>

definition valid_from :: "byte list \<Rightarrow> Utf8State \<Rightarrow> bool" where
  "valid_from bs st \<longleftrightarrow> ValidateEncoding_loop bs st 0 = kAccept"

lemma Validate_buffer: "ValidateEncoding_loop bs st buf = ValidateEncoding_loop bs st buf'"
proof (induction bs arbitrary: st buf buf')
  case (Cons b bs)
  then show ?case using fst_Decode [of b st buf buf'] by (simp add: split_beta)
qed simp

lemma valid_simps [simp]: "valid_from [] st \<longleftrightarrow> st = kAccept" "\<not> valid_from bs kReject"
  by (cases bs; simp add: valid_from_def)+

lemma valid_Cons: "valid_from (b # bs) st \<longleftrightarrow> st \<noteq> kReject \<and> valid_from bs (fst (Utf8_Decode b st buf))"
  using Validate_buffer [of bs "fst (Utf8_Decode b st 0)" "snd (Utf8_Decode b st 0)" 0] fst_Decode [of b st buf 0]
  by (auto simp: valid_from_def split_beta)

lemma valid_step:
  assumes "ValueOfIncremental b st buf = (t, moved, st', buf')" and "valid_from (b # bs) st"
  shows "moved" and "valid_from bs st'"
proof -
  obtain s1 b1 where d: "Utf8_Decode b st buf = (s1, b1)" by fastforce
  have v: "valid_from bs s1" "s1 \<noteq> kReject" using assms(2) d valid_Cons [of b bs st buf] by auto
  have "s1 = kAccept" if "b \<le> 0x7f" "st = kAccept"
    using that d decode_lead(1) [of b] fst_Decode [of b st buf 0] by (simp add: utf8_lead_def word_le_nat_alt)
  with v d assms(1) show "moved" "valid_from bs st'" by (auto simp: ValueOfIncremental_def split: if_splits)
qed

section \<open>Runs of the decoder\<close>

text \<open>Reading from \<open>bs\<close> to \<open>rest\<close> has produced the units \<open>E\<close>, whatever follows.\<close>

definition decodes ::
    "bool \<Rightarrow> byte list \<Rightarrow> Utf8State \<Rightarrow> uc32 \<Rightarrow> uc16 list \<Rightarrow> bool \<Rightarrow> byte list \<Rightarrow> Utf8State \<Rightarrow> uc32 \<Rightarrow> bool" where
  "decodes f bs st buf E f' rest st' buf' \<longleftrightarrow> good_state st' buf' \<and> (\<exists>pre. bs = pre @ rest) \<and>
     (\<forall>ys. utf8_prefix f (bs @ ys) st buf = add_units E (utf8_prefix f' (rest @ ys) st' buf')) \<and>
     (\<forall>ys. valid_from (bs @ ys) st \<longrightarrow> valid_from (rest @ ys) st')"

lemma decodes_decode:
  "decodes f bs st buf E f' rest st' buf' \<Longrightarrow> utf8_decode f (bs @ ys) st buf = E @ utf8_decode f' (rest @ ys) st' buf'"
  unfolding decodes_def using utf8_decode_add by blast

lemma decodes_refl: "good_state st buf \<Longrightarrow> decodes f bs st buf [] f bs st buf"
  by (simp add: decodes_def)

lemma decodes_trans:
  "decodes f bs st buf E f1 bs1 st1 buf1 \<Longrightarrow> decodes f1 bs1 st1 buf1 E1 f2 bs2 st2 buf2 \<Longrightarrow>
   decodes f bs st buf (E @ E1) f2 bs2 st2 buf2"
  by (auto simp: decodes_def)

lemma decodes_step:
  assumes "good_state st buf" and "ValueOfIncremental b st buf = (t, moved, st', buf')"
    and "rest = (if moved then bs else b # bs)"
  shows "t = kIncomplete \<Longrightarrow> decodes f (b # bs) st buf [] f rest st' buf'"
    "t \<noteq> kIncomplete \<Longrightarrow>
      decodes f (b # bs) st buf (if f \<and> t = kUtf8Bom then [] else code_units t) False rest st' buf'"
proof -
  have g: "good_state st' buf'" by (rule decode_step [OF assms(1,2)]) auto
  have p: "\<exists>pre. b # bs = pre @ rest" using assms(3) by (auto intro: exI [of _ "[b]"] exI [of _ "[]"])
  have v: "valid_from (rest @ ys) st'" if "valid_from (b # bs @ ys) st" for ys
    using valid_step [OF assms(2) that] assms(3) by simp
  show "t = kIncomplete \<Longrightarrow> decodes f (b # bs) st buf [] f rest st' buf'"
    "t \<noteq> kIncomplete \<Longrightarrow>
      decodes f (b # bs) st buf (if f \<and> t = kUtf8Bom then [] else code_units t) False rest st' buf'"
    using g p v assms(2,3) unfolding decodes_def by (auto simp: utf8_prefix.simps(2) [of f b])
qed

lemma length_code_units: "length (code_units t) = value_chars t"
  by (auto simp: code_units_def value_chars_def not_less)

text \<open>The skipping loops count what the decoder produces.\<close>

lemma code_units_cases:
  assumes "IsScalarValue t"
  shows "value_chars t = 1 \<or> value_chars t = 2 \<and> IsTrailSurrogate (ucast (last (code_units t)))"
proof (cases "t \<le> 0xFFFF")
  case False
  then have "IsTrailSurrogate (ucast (TrailSurrogate t))"
    using unat_TrailSurrogate [of t] by (simp add: IsTrailSurrogate_iff unat_widen)
  with False show ?thesis by (auto simp: value_chars_def code_units_def not_le)
qed (auto simp: value_chars_def not_less)

lemma skip_chars_decodes:
  assumes "good_state st buf" and "skip_chars bs st buf chars target = (rest, st', buf', chars')"
  shows "\<exists>E. decodes False bs st buf E False rest st' buf' \<and> chars' = chars + length E \<and>
    (rest = [] \<or> target \<le> chars') \<and> (target \<le> chars \<longrightarrow> E = []) \<and>
    (chars \<le> target \<longrightarrow> chars' \<le> target \<or> chars' = Suc target \<and> E \<noteq> [] \<and> IsTrailSurrogate (ucast (last E)))"
  using assms
proof (induction bs st buf chars target rule: skip_chars.induct)
  case (1 st buf chars target)
  then show ?case by (auto simp: skip_chars.simps intro: decodes_refl exI [of _ "[]"])
next
  case (2 b bs st buf chars target)
  show ?case
  proof (cases "chars < target")
    case True
    obtain t moved s1 b1 where v: "ValueOfIncremental b st buf = (t, moved, s1, b1)" by (metis prod.collapse)
    define r where "r = (if moved then bs else b # bs)"
    define E0 where "E0 = (if t = kIncomplete then [] else code_units t)"
    have g: "good_state s1 b1" by (rule decode_step [OF 2(2) v]) auto
    have D: "decodes False (b # bs) st buf E0 False r s1 b1"
      using decodes_step [OF 2(2) v r_def, of False] by (simp add: E0_def)
    have "IsScalarValue t \<or> t = kIncomplete"
      by (rule decode_step [OF 2(2) v]) (auto simp: IsScalarValue_def)
    then have E0: "length E0 \<le> 1 \<or> length E0 = 2 \<and> IsTrailSurrogate (ucast (last E0))"
      using code_units_cases [of t] by (auto simp: E0_def length_code_units)
    have c: "(if t \<noteq> kIncomplete then chars + value_chars t else chars) = chars + length E0"
      by (simp add: E0_def length_code_units)
    have "skip_chars r s1 b1 (chars + length E0) target = (rest, st', buf', chars')"
      using 2(3) True v by (simp add: skip_chars.simps(2) [of b] r_def c)
    then obtain E where E: "decodes False r s1 b1 E False rest st' buf'" "chars' = chars + length E0 + length E"
      "rest = [] \<or> target \<le> chars'" "target \<le> chars + length E0 \<longrightarrow> E = []"
      "chars + length E0 \<le> target \<longrightarrow>
        chars' \<le> target \<or> chars' = Suc target \<and> E \<noteq> [] \<and> IsTrailSurrogate (ucast (last E))"
      using 2(1) [OF True v [symmetric] refl refl g] by (auto simp: r_def c)
    show ?thesis
    proof (intro exI [of _ "E0 @ E"] conjI impI)
      show "decodes False (b # bs) st buf (E0 @ E) False rest st' buf'" by (rule decodes_trans [OF D E(1)])
      show "chars' \<le> target \<or> chars' = Suc target \<and> E0 @ E \<noteq> [] \<and> IsTrailSurrogate (ucast (last (E0 @ E)))"
        using E0 E(2,4,5) True by (cases "chars + length E0 \<le> target") auto
    qed (use E(2,3) True in auto)
  next
    case False
    then show ?thesis using 2(2,3) by (auto simp: skip_chars.simps intro: decodes_refl exI [of _ "[]"])
  qed
qed

text \<open>A byte order mark is complete after exactly three bytes, and a sequence of which
  three bytes have been read is none.\<close>

lemma bom_pending:
  assumes "good_state st buf" and "ValueOfIncremental b st buf = (kUtf8Bom, moved, st', buf')"
  shows "moved \<and> pending st buf = 2"
proof (rule decode_step [OF assms])
  assume c: "moved" "st = kAccept \<longrightarrow> kUtf8Bom \<le> 0x7F \<or> kUtf8Bom = kBadChar"
    "st \<noteq> kAccept \<longrightarrow> st = kTwoByte \<and> unat kUtf8Bom div 64 = unat buf"
  then have "st = kTwoByte" "unat buf = 0x3FB" by auto
  with c(1) show ?thesis by (simp add: pending_def)
qed auto

lemma pending_three:
  assumes "good_state st buf" and "pending st buf = 3"
  shows "utf8_prefix f bs st buf = utf8_prefix False bs st buf"
proof (cases bs)
  case (Cons b cs)
  obtain t moved s1 b1 where v: "ValueOfIncremental b st buf = (t, moved, s1, b1)" by (metis prod.collapse)
  have p: "st \<noteq> kAccept" "pending st' buf' \<noteq> 4" for st' buf'
    using assms by (auto simp: pending_def split: Utf8State.splits)
  have "t \<noteq> kIncomplete" by (rule decode_step [OF assms(1) v]) (use p(2) assms(2) in auto)
  moreover have "t \<noteq> kUtf8Bom" using bom_pending [OF assms(1)] v assms(2) by auto
  ultimately show ?thesis using v Cons by (simp add: utf8_prefix.simps(2))
qed (simp add: utf8_prefix.simps(1))

definition one_char :: "uc16 list \<Rightarrow> bool" where
  "one_char E \<longleftrightarrow> length E \<le> 1 \<or> length E = 2 \<and> IsTrailSurrogate (ucast (last E))"

lemma one_char_code_units:
  assumes "good_state st buf" and "ValueOfIncremental b st buf = (t, moved, st', buf')" and "t \<noteq> kIncomplete"
  shows "one_char (code_units t)"
proof -
  have "IsScalarValue t" by (rule decode_step [OF assms(1,2)]) (use assms(3) in \<open>auto simp: IsScalarValue_def\<close>)
  then show ?thesis using code_units_cases [of t] by (auto simp: one_char_def length_code_units)
qed

text \<open>The first character, with a flag that says whether it is still incomplete.\<close>

definition first_char :: "byte list \<Rightarrow> Utf8State \<Rightarrow> uc32 \<Rightarrow> uc16 list \<Rightarrow> bool \<Rightarrow> byte list \<Rightarrow> Utf8State \<Rightarrow> uc32 \<Rightarrow> bool" where
  "first_char bs st buf E f' rest st' buf' \<longleftrightarrow> decodes True bs st buf E f' rest st' buf' \<and> one_char E \<and>
     (f' \<longrightarrow> E = [] \<and> rest = [] \<and> pending st' buf' = pending st buf + length bs) \<and>
     (\<not> f' \<longrightarrow> E \<noteq> [] \<or> pending st buf + length bs = 3 + length rest)"

lemma first_char_step:
  assumes "good_state st buf" and "ValueOfIncremental b st buf = (t, moved, s1, b1)"
    and "r = (if moved then bs else b # bs)"
  shows "t = kIncomplete \<Longrightarrow> first_char r s1 b1 E f' rest st' buf' \<Longrightarrow> first_char (b # bs) st buf E f' rest st' buf'"
    "t \<noteq> kIncomplete \<Longrightarrow> first_char (b # bs) st buf (if t = kUtf8Bom then [] else code_units t) False r s1 b1"
proof -
  assume t: "t = kIncomplete" and F: "first_char r s1 b1 E f' rest st' buf'"
  have "moved" "pending s1 b1 = Suc (pending st buf)" by (rule decode_step [OF assms(1,2)]; use t in auto)+
  with F decodes_trans [OF decodes_step(1) [OF assms t, of True]] assms(3)
  show "first_char (b # bs) st buf E f' rest st' buf'" by (auto simp: first_char_def)
next
  assume t: "t \<noteq> kIncomplete"
  have "code_units t \<noteq> []" by (simp add: code_units_def)
  moreover have "one_char []" by (simp add: one_char_def)
  ultimately show "first_char (b # bs) st buf (if t = kUtf8Bom then [] else code_units t) False r s1 b1"
    using decodes_step(2) [OF assms t, of True] bom_pending [OF assms(1)] assms(2,3)
      one_char_code_units [OF assms(1,2) t] by (auto simp: first_char_def)
qed

lemma first_char_empty: "good_state st buf \<Longrightarrow> first_char [] st buf [] True [] st buf"
  by (simp add: first_char_def decodes_refl one_char_def)

lemma skip_bom_first:
  assumes "good_state st buf" and "skip_bom bs st buf chars = (rest, st', buf', chars')"
  shows "\<exists>E f'. first_char bs st buf E f' rest st' buf' \<and> chars' = chars + length E"
  using assms
proof (induction bs st buf chars rule: skip_bom.induct)
  case (1 st buf chars)
  then show ?case using first_char_empty by (auto simp: skip_bom.simps)
next
  case (2 b bs st buf chars)
  obtain t moved s1 b1 where v: "ValueOfIncremental b st buf = (t, moved, s1, b1)" by (metis prod.collapse)
  define r where "r = (if moved then bs else b # bs)"
  have g: "good_state s1 b1" by (rule decode_step [OF 2(2) v]) auto
  note S = first_char_step [OF 2(2) v r_def]
  show ?case
  proof (cases "t = kIncomplete")
    case True
    then have "skip_bom r s1 b1 chars = (rest, st', buf', chars')"
      using 2(3) v by (simp add: skip_bom.simps(2) [of b] r_def)
    with 2(1) [OF v [symmetric] refl refl r_def True g] S(1) [OF True] show ?thesis by blast
  next
    case False
    with 2(3) v S(2) [OF False] show ?thesis
      by (auto simp: skip_bom.simps(2) [of b] r_def length_code_units intro!: exI)
  qed
qed

lemma fill_bom_first:
  assumes "good_state st buf" and "fill_bom bs st buf out = (rest, st', buf', out')"
  shows "\<exists>E f'. first_char bs st buf E f' rest st' buf' \<and> out' = out @ E"
  using assms
proof (induction bs st buf out rule: fill_bom.induct)
  case (1 st buf out)
  then show ?case using first_char_empty by (auto simp: fill_bom.simps)
next
  case (2 b bs st buf out)
  obtain t moved s1 b1 where v: "ValueOfIncremental b st buf = (t, moved, s1, b1)" by (metis prod.collapse)
  define r where "r = (if moved then bs else b # bs)"
  have g: "good_state s1 b1" by (rule decode_step [OF 2(2) v]) auto
  note S = first_char_step [OF 2(2) v r_def]
  show ?case
  proof (cases "t = kIncomplete")
    case True
    then have "fill_bom r s1 b1 out = (rest, st', buf', out')"
      using 2(3) v by (simp add: fill_bom.simps(2) [of b] r_def)
    from 2(1) [OF v [symmetric] refl refl r_def _ True g this] True S(1) [OF True] show ?thesis by fastforce
  next
    case False
    have "t < kUtf8Bom \<Longrightarrow> t \<le> kMaxNonSurrogateCharCode" by (simp add: word_less_nat_alt word_le_nat_alt)
    with 2(3) v False have "(rest, st', buf', out') =
        (r, s1, b1, out @ (if t = kUtf8Bom then [] else code_units t))"
      by (auto simp: fill_bom.simps(2) [of b] r_def [symmetric] code_units_def Let_def split: if_splits)
    with S(2) [OF False] show ?thesis by blast
  qed
qed

section \<open>The fast path for ASCII\<close>

lemma NonAsciiStart_bytes_spec:
  "\<exists>k \<le> length cs. NonAsciiStart_bytes cs n = n + k \<and> list_all (\<lambda>c. c \<le> kMaxOneByteChar) (take k cs)"
proof (induction cs arbitrary: n)
  case (Cons c cs)
  obtain k where "k \<le> length cs" "NonAsciiStart_bytes cs (n + 1) = n + 1 + k"
    "list_all (\<lambda>c. c \<le> kMaxOneByteChar) (take k cs)" using Cons by blast
  then show ?case
    by (cases "c \<le> kMaxOneByteChar") (auto simp: not_less not_le intro: exI [of _ "Suc k"] exI [of _ 0])
qed simp

lemma word_mask: "(c :: byte) AND 0x80 = 0 \<longleftrightarrow> c \<le> kMaxOneByteChar"
  by (rule byte_enum [where b = c]) code_simp

lemma NonAsciiStart_words_spec:
  "\<exists>k \<le> length cs. NonAsciiStart_words cs n = n + k \<and> list_all (\<lambda>c. c \<le> kMaxOneByteChar) (take k cs)"
proof (induction cs n rule: NonAsciiStart_words.induct)
  case (1 cs n)
  show ?case
  proof (cases "kIntptrSize \<le> length cs \<and> \<not> list_ex (\<lambda>c. c AND 0x80 \<noteq> 0) (take kIntptrSize cs)")
    case True
    then obtain k where k: "k \<le> length (drop kIntptrSize cs)"
      "NonAsciiStart_words (drop kIntptrSize cs) (n + kIntptrSize) = n + kIntptrSize + k"
      "list_all (\<lambda>c. c \<le> kMaxOneByteChar) (take k (drop kIntptrSize cs))" using 1 by blast
    have "list_all (\<lambda>c. c \<le> kMaxOneByteChar) (take kIntptrSize cs)"
      using True by (auto simp: list_all_iff list_ex_iff word_mask)
    with k True show ?thesis
      by (intro exI [of _ "kIntptrSize + k"]) (auto simp: NonAsciiStart_words.simps [of cs n] take_add)
  next
    case False
    then show ?thesis
      using NonAsciiStart_bytes_spec [of cs n] by (auto simp: NonAsciiStart_words.simps [of cs n] intro: exI [of _ 0])
  qed
qed

lemma NonAsciiStart_align_spec:
  "\<exists>k \<le> length cs. NonAsciiStart_align a cs n = n + k \<and> list_all (\<lambda>c. c \<le> kMaxOneByteChar) (take k cs)"
proof (induction cs arbitrary: n)
  case Nil
  then show ?case using NonAsciiStart_words_spec [of "[]" n] by simp
next
  case (Cons c cs)
  obtain k where k: "k \<le> length cs" "NonAsciiStart_align a cs (n + 1) = n + 1 + k"
    "list_all (\<lambda>c. c \<le> kMaxOneByteChar) (take k cs)" using Cons by blast
  show ?case
  proof (cases "(a + n) mod kIntptrSize \<noteq> 0 \<and> c \<le> kMaxOneByteChar")
    case True
    with k show ?thesis by (intro exI [of _ "Suc k"]) (simp add: not_less)
  next
    case False
    then show ?thesis using NonAsciiStart_words_spec [of "c # cs" n]
      by (auto simp: not_less not_le intro: exI [of _ 0])
  qed
qed

lemma NonAsciiStart_spec:
  "NonAsciiStart a cs \<le> length cs \<and> list_all (\<lambda>c. c \<le> kMaxOneByteChar) (take (NonAsciiStart a cs) cs)"
  using NonAsciiStart_align_spec [of cs a 0] NonAsciiStart_bytes_spec [of cs 0] by (auto simp: NonAsciiStart_def)

lemma byte_not_special: "(ucast (c :: byte) :: uc32) \<noteq> kIncomplete" "(ucast (c :: byte) :: uc32) \<noteq> kUtf8Bom"
  using unat_byte_less [of c] by (simp_all add: word_unat_eq_iff unat_widen)

lemma ascii_decodes:
  assumes "list_all (\<lambda>c. c \<le> kMaxOneByteChar) cs"
  shows "decodes False (cs @ r) kAccept 0 (map ucast cs) False r kAccept 0"
  using assms
proof (induction cs)
  case Nil
  then show ?case by (simp add: decodes_refl)
next
  case (Cons c cs)
  have u: "(ucast (ucast c :: uc16) :: uc32) = ucast c" by (simp add: word_unat_eq_iff unat_widen)
  note n = byte_not_special [of c]
  have c: "code_units (ucast c) = [ucast c]" using code_units_unit [of "ucast c"] unfolding u .
  have "ValueOfIncremental c kAccept 0 = (ucast c, True, kAccept, 0)" using Cons by (simp add: ValueOfIncremental_def)
  from decodes_trans [OF decodes_step(2) [OF good_accept(1) this refl n(1), of False "cs @ r"]] Cons c n
  show ?case by simp
qed

lemma ascii_run_decodes:
  assumes "ascii_run address rest out = (rest', out')" and "length out \<le> utf8_kBufferSize"
  shows "\<exists>E. decodes False rest kAccept 0 E False rest' kAccept 0 \<and> out' = out @ E \<and> length out' \<le> utf8_kBufferSize"
proof -
  define m where "m = min (length rest) (utf8_kBufferSize - length out)"
  define k where "k = NonAsciiStart address (take m rest)"
  have k: "k \<le> m" "list_all (\<lambda>c. c \<le> kMaxOneByteChar) (take k rest)"
    using NonAsciiStart_spec [of address "take m rest"] by (auto simp: k_def m_def min_def)
  have r: "rest' = drop k rest" "out' = out @ map ucast (take k rest)"
    using assms(1) by (auto simp: ascii_run_def Let_def m_def k_def)
  have "rest = take k rest @ rest'" using r by simp
  with ascii_decodes [OF k(2), of rest'] have "decodes False rest kAccept 0 (map ucast (take k rest)) False rest' kAccept 0" by simp
  moreover have "length out' \<le> utf8_kBufferSize" using r(2) k(1) assms(2) by (simp add: m_def) linarith
  ultimately show ?thesis using r(2) by blast
qed

section \<open>Filling the buffer\<close>

text \<open>The loop of \<^verbatim>\<open>FillBufferFromCurrentChunk\<close>: what it appends is what the decoder produces;
  it reads the whole chunk or appends something.\<close>

lemma fill_chars_decodes:
  assumes "good_state st buf" and "fill_chars a bs st buf out = (rest, st', buf', out')"
    and "length out \<le> utf8_kBufferSize"
  shows "\<exists>E. decodes False bs st buf E False rest st' buf' \<and> out' = out @ E \<and> length out' \<le> utf8_kBufferSize \<and>
    (length out + 1 < utf8_kBufferSize \<longrightarrow> rest = [] \<or> E \<noteq> [])"
  using assms
proof (induction a bs st buf out rule: fill_chars.induct)
  case (1 a st buf out)
  then show ?case by (auto simp: fill_chars.simps intro: decodes_refl exI [of _ "[]"])
next
  case (2 a b bs st buf out)
  show ?case
  proof (cases "length out + 1 < utf8_kBufferSize")
    case True
    obtain t moved s1 b1 where v: "ValueOfIncremental b st buf = (t, moved, s1, b1)" by (metis prod.collapse)
    define r where "r = (if moved then bs else b # bs)"
    have g: "good_state s1 b1" by (rule decode_step [OF 2(4) v]) auto
    show ?thesis
    proof (cases "t = kIncomplete")
      case inc: True
      then have "fill_chars a r s1 b1 out = (rest, st', buf', out')"
        using 2(5) v True by (simp add: fill_chars.simps(2) [of a b] r_def)
      from 2(2) [OF True v [symmetric] refl refl r_def _ inc g this 2(6)] inc
        decodes_trans [OF decodes_step(1) [OF 2(4) v r_def inc, of False]] True
      show ?thesis by fastforce
    next
      case False
      define u where "u = code_units t"
      have acc: "s1 = kAccept" "b1 = 0" by (rule decode_step [OF 2(4) v]; use False in auto)+
      obtain r1 o1 where A: "ascii_run (a - length r) r (out @ u) = (r1, o1)" by fastforce
      have l: "length u \<le> 2" "u \<noteq> []" by (simp_all add: u_def code_units_def)
      then have "length (out @ u) \<le> utf8_kBufferSize" using True by simp
      then obtain E1 where E1: "decodes False r kAccept 0 E1 False r1 kAccept 0" "o1 = (out @ u) @ E1"
        "length o1 \<le> utf8_kBufferSize" using ascii_run_decodes [OF A] by blast
      have f: "fill_chars a r1 s1 b1 o1 = (rest, st', buf', out')"
        using 2(5) v True False A by (auto simp: fill_chars.simps(2) [of a b] r_def u_def code_units_def split: if_splits)
      have "\<exists>E. decodes False r1 s1 b1 E False rest st' buf' \<and> out' = o1 @ E \<and> length out' \<le> utf8_kBufferSize"
      proof (cases "t \<le> kMaxNonSurrogateCharCode")
        case True
        from 2(1) [OF \<open>length out + 1 < utf8_kBufferSize\<close> v [symmetric] refl refl r_def True _ g f E1(3)] A True
        show ?thesis by (auto simp: u_def code_units_def)
      next
        case big: False
        from 2(3) [OF True v [symmetric] refl refl r_def big False _ g f E1(3)] A big
        show ?thesis by (auto simp: u_def code_units_def)
      qed
      then obtain E where E: "decodes False r1 s1 b1 E False rest st' buf'" "out' = o1 @ E" "length out' \<le> utf8_kBufferSize"
        by blast
      have "decodes False (b # bs) st buf u False r s1 b1"
        using decodes_step(2) [OF 2(4) v r_def False, of False] by (simp add: u_def)
      from decodes_trans [OF decodes_trans [OF this E1(1) [folded acc]] E(1)] E(2,3) E1(2) l(2)
      show ?thesis by (intro exI [of _ "(u @ E1) @ E"]) simp
    qed
  next
    case False
    then show ?thesis using 2(4-6) by (auto simp: fill_chars.simps intro: decodes_refl exI [of _ "[]"])
  qed
qed

section \<open>Positions\<close>

text \<open>A position is right for the bytes \<open>B\<close> of the whole source if what is decoded from
  there on is the rest of the text behind its character count.\<close>

definition at_start :: "StreamPosition \<Rightarrow> bool" where
  "at_start P \<longleftrightarrow> sp_bytes P < 3 \<and> sp_chars P = 0"

definition right_position :: "byte list \<Rightarrow> StreamPosition \<Rightarrow> bool" where
  "right_position B P \<longleftrightarrow> sp_bytes P \<le> length B \<and> good_state (sp_state P) (sp_incomplete_char P) \<and>
     sp_chars P \<le> length (utf8_text B) \<and>
     utf8_decode (at_start P) (drop (sp_bytes P) B) (sp_state P) (sp_incomplete_char P) =
       drop (sp_chars P) (utf8_text B) \<and>
     (at_start P \<longrightarrow> pending (sp_state P) (sp_incomplete_char P) = sp_bytes P) \<and>
     (ValidateEncoding B \<longrightarrow> valid_from (drop (sp_bytes P) B) (sp_state P))"

lemma right_start: "right_position B StreamPosition_start"
  by (simp add: right_position_def StreamPosition_start_def at_start_def utf8_text_def valid_from_def ValidateEncoding_def)

text \<open>A run of the decoder from a position, with the facts about the first character.\<close>

definition position_run ::
    "StreamPosition \<Rightarrow> byte list \<Rightarrow> uc16 list \<Rightarrow> byte list \<Rightarrow> Utf8State \<Rightarrow> uc32 \<Rightarrow> bool" where
  "position_run P bs E rest st' buf' \<longleftrightarrow> (\<exists>f'.
     decodes (at_start P) bs (sp_state P) (sp_incomplete_char P) E f' rest st' buf' \<and>
     (f' \<longrightarrow> at_start P \<and> E = [] \<and> rest = [] \<and>
        pending st' buf' = pending (sp_state P) (sp_incomplete_char P) + length bs) \<and>
     (at_start P \<and> \<not> f' \<longrightarrow> E \<noteq> [] \<or> 3 + length rest \<le> pending (sp_state P) (sp_incomplete_char P) + length bs))"

lemma pending_le: "pending st buf \<le> 3"
  by (simp add: pending_def split: Utf8State.splits)

lemma right_advance:
  assumes "right_position B P" and "drop (sp_bytes P) B = bs @ ys" and "position_run P bs E rest st' buf'"
    and "P' = \<lparr> sp_bytes = sp_bytes P + (length bs - length rest), sp_chars = sp_chars P + length E,
      sp_incomplete_char = buf', sp_state = st' \<rparr>"
  shows "right_position B P'" "E = take (length E) (drop (sp_chars P) (utf8_text B))"
    "drop (sp_bytes P') B = rest @ ys"
proof -
  let ?T = "utf8_text B" and ?pend = "pending (sp_state P) (sp_incomplete_char P)"
  obtain f' where D: "decodes (at_start P) bs (sp_state P) (sp_incomplete_char P) E f' rest st' buf'"
    and F: "f' \<longrightarrow> at_start P \<and> E = [] \<and> rest = [] \<and> pending st' buf' = ?pend + length bs"
      "at_start P \<and> \<not> f' \<longrightarrow> E \<noteq> [] \<or> 3 + length rest \<le> ?pend + length bs"
    using assms(3) unfolding position_run_def by blast
  obtain pre where pre: "bs = pre @ rest" and g: "good_state st' buf'" using D by (auto simp: decodes_def)
  have n: "sp_bytes P' = sp_bytes P + length pre" using pre assms(4) by simp
  have "drop (sp_bytes P') B = drop (length pre) (drop (sp_bytes P) B)" by (simp add: n add.commute)
  then show d: "drop (sp_bytes P') B = rest @ ys" using assms(2) pre by simp
  have len: "sp_bytes P' \<le> length B"
  proof -
    have "length (drop (sp_bytes P) B) = length pre + length (rest @ ys)" using assms(2) pre by simp
    then show ?thesis using n assms(1) by (simp add: right_position_def) linarith
  qed
  have e: "drop (sp_chars P) ?T = E @ utf8_decode f' (rest @ ys) st' buf'"
    using decodes_decode [OF D, of ys] assms(1,2) by (simp add: right_position_def)
  then show "E = take (length E) (drop (sp_chars P) ?T)" by simp
  have c: "sp_chars P' \<le> length ?T" "drop (sp_chars P') ?T = utf8_decode f' (rest @ ys) st' buf'"
  proof -
    have "length (drop (sp_chars P) ?T) \<ge> length E" using e by simp
    then show "sp_chars P' \<le> length ?T" using assms(1,4) by (simp add: right_position_def) linarith
    have "drop (sp_chars P') ?T = drop (length E) (drop (sp_chars P) ?T)" using assms(4) by (simp add: add.commute)
    then show "drop (sp_chars P') ?T = utf8_decode f' (rest @ ys) st' buf'" using e by simp
  qed
  have p: "at_start P \<longrightarrow> ?pend = sp_bytes P" using assms(1) by (simp add: right_position_def)
  have same: "utf8_decode f' (rest @ ys) st' buf' = utf8_decode (at_start P') (rest @ ys) st' buf' \<and>
      (at_start P' \<longrightarrow> pending st' buf' = sp_bytes P')"
  proof (cases f')
    case True
    with F(1) p n pre have "pending st' buf' = sp_bytes P'" "sp_chars P' = 0"
      using assms(4) by (simp_all add: at_start_def)
    then show ?thesis
      using True pending_le [of st' buf'] pending_three [OF g, of True] utf8_decode_add [of True _ st' buf' "[]" False _ st' buf'] by (cases "sp_bytes P' < 3") (auto simp: at_start_def)
  next
    case False
    have "\<not> at_start P'"
    proof (cases "at_start P")
      case True
      then show ?thesis using F(2) False p n pre assms(4) by (auto simp: at_start_def)
    next
      case False
      then show ?thesis using n assms(4) by (auto simp: at_start_def)
    qed
    with False show ?thesis by simp
  qed
  have f: "sp_state P' = st'" "sp_incomplete_char P' = buf'" using assms(4) by simp_all
  have "valid_from (bs @ ys) (sp_state P) \<longrightarrow> valid_from (rest @ ys) st'" using D by (simp add: decodes_def)
  then have "ValidateEncoding B \<longrightarrow> valid_from (rest @ ys) st'" using assms(1,2) by (simp add: right_position_def)
  then show "right_position B P'" unfolding right_position_def f d using len g c same by simp
qed

text \<open>What the loops of \<^verbatim>\<open>SkipToPosition\<close> and \<^verbatim>\<open>FillBufferFromCurrentChunk\<close> do from a position.\<close>

lemma run_of_first:
  assumes "at_start P" and "first_char bs (sp_state P) (sp_incomplete_char P) E1 f1 r1 st1 buf1"
    and "r1 \<noteq> [] \<or> \<not> f1 \<longrightarrow> decodes False r1 st1 buf1 E2 False rest st' buf'"
    and "f1 \<longrightarrow> E2 = [] \<and> rest = [] \<and> st' = st1 \<and> buf' = buf1"
  shows "position_run P bs (E1 @ E2) rest st' buf'"
proof (cases f1)
  case True
  with assms show ?thesis unfolding position_run_def first_char_def by (intro exI [of _ True]) auto
next
  case False
  then have D: "decodes False r1 st1 buf1 E2 False rest st' buf'" using assms(3) by simp
  moreover have "length rest \<le> length r1" using D by (auto simp: decodes_def)
  ultimately show ?thesis
    using assms(1,2) False decodes_trans [of True bs _ _ E1 False r1 st1 buf1 E2 False rest st' buf']
    unfolding position_run_def first_char_def by (intro exI [of _ False]) auto
qed

lemma run_of_rest:
  "\<not> at_start P \<Longrightarrow> decodes False bs (sp_state P) (sp_incomplete_char P) E False rest st' buf' \<Longrightarrow>
   position_run P bs E rest st' buf'"
  unfolding position_run_def by (intro exI [of _ False]) simp

lemma skip_run:
  assumes "good_state (sp_state P) (sp_incomplete_char P)" and "sp_chars P < target"
    and "(if at_start P then skip_bom bs (sp_state P) (sp_incomplete_char P) (sp_chars P)
      else (bs, sp_state P, sp_incomplete_char P, sp_chars P)) = (r1, st1, buf1, chars1)"
    and "skip_chars r1 st1 buf1 chars1 target = (rest, st', buf', chars')"
  shows "\<exists>E. position_run P bs E rest st' buf' \<and> chars' = sp_chars P + length E \<and> (rest = [] \<or> target \<le> chars') \<and>
    (chars' \<le> target \<or> chars' = Suc target \<and> E \<noteq> [] \<and> IsTrailSurrogate (ucast (last E)))"
proof (cases "at_start P")
  case True
  then have "skip_bom bs (sp_state P) (sp_incomplete_char P) (sp_chars P) = (r1, st1, buf1, chars1)" using assms(3) by simp
  from skip_bom_first [OF assms(1) this] obtain E1 f1 where
    F: "first_char bs (sp_state P) (sp_incomplete_char P) E1 f1 r1 st1 buf1" "chars1 = sp_chars P + length E1" by blast
  then have g: "good_state st1 buf1" "one_char E1" by (simp_all add: first_char_def decodes_def)
  from skip_chars_decodes [OF g(1) assms(4)] obtain E2 where
    E2: "decodes False r1 st1 buf1 E2 False rest st' buf'" "chars' = chars1 + length E2" "rest = [] \<or> target \<le> chars'"
      "target \<le> chars1 \<longrightarrow> E2 = []"
      "chars1 \<le> target \<longrightarrow> chars' \<le> target \<or> chars' = Suc target \<and> E2 \<noteq> [] \<and> IsTrailSurrogate (ucast (last E2))" by blast
  have "f1 \<longrightarrow> E2 = [] \<and> rest = [] \<and> st' = st1 \<and> buf' = buf1"
    using F(1) assms(4) E2(2) by (auto simp: first_char_def skip_chars.simps)
  then have "position_run P bs (E1 @ E2) rest st' buf'" using run_of_first [OF True F(1)] E2(1) by simp
  moreover have "chars' \<le> target \<or> chars' = Suc target \<and> E1 @ E2 \<noteq> [] \<and> IsTrailSurrogate (ucast (last (E1 @ E2)))"
    using g(2) E2(2,4,5) F(2) assms(2) by (cases "chars1 \<le> target") (auto simp: one_char_def)
  ultimately show ?thesis using E2(2,3) F(2) by (intro exI [of _ "E1 @ E2"]) simp
next
  case False
  then have "skip_chars bs (sp_state P) (sp_incomplete_char P) (sp_chars P) target = (rest, st', buf', chars')"
    using assms(3,4) by simp
  from skip_chars_decodes [OF assms(1) this] obtain E where
    "decodes False bs (sp_state P) (sp_incomplete_char P) E False rest st' buf'" "chars' = sp_chars P + length E"
    "rest = [] \<or> target \<le> chars'" "chars' \<le> target \<or> chars' = Suc target \<and> E \<noteq> [] \<and> IsTrailSurrogate (ucast (last E))"
    using assms(2) by auto
  with run_of_rest [OF False] show ?thesis by blast
qed

lemma fill_run:
  assumes "good_state (sp_state P) (sp_incomplete_char P)"
    and "(if at_start P then fill_bom bs (sp_state P) (sp_incomplete_char P) []
      else (bs, sp_state P, sp_incomplete_char P, [])) = (r1, st1, buf1, out1)"
    and "fill_chars a r1 st1 buf1 out1 = (rest, st', buf', out')"
  shows "position_run P bs out' rest st' buf' \<and> (rest = [] \<or> out' \<noteq> [])"
proof (cases "at_start P")
  case True
  then have "fill_bom bs (sp_state P) (sp_incomplete_char P) [] = (r1, st1, buf1, out1)" using assms(2) by simp
  from fill_bom_first [OF assms(1) this] obtain f1 where
    F: "first_char bs (sp_state P) (sp_incomplete_char P) out1 f1 r1 st1 buf1" by auto
  then have l: "length out1 \<le> 2" by (auto simp: first_char_def one_char_def)
  have g: "good_state st1 buf1" using F by (simp add: first_char_def decodes_def)
  from fill_chars_decodes [OF g assms(3)] l obtain E2 where
    E2: "decodes False r1 st1 buf1 E2 False rest st' buf'" "out' = out1 @ E2" "rest = [] \<or> E2 \<noteq> []" by auto
  have "f1 \<longrightarrow> E2 = [] \<and> rest = [] \<and> st' = st1 \<and> buf' = buf1"
    using F assms(3) E2(2) by (auto simp: first_char_def fill_chars.simps)
  with run_of_first [OF True F] E2 show ?thesis by simp
next
  case False
  with assms fill_chars_decodes [OF assms(1), of a bs "[]" rest st' buf' out'] run_of_rest [OF False]
  show ?thesis by auto
qed

section \<open>Positions inside a chunk\<close>

text \<open>Runs compose inside a chunk, where the first character is no longer incomplete.\<close>

lemma position_run_rest: "position_run P bs E rest st' buf' \<Longrightarrow> \<exists>pre. bs = pre @ rest"
  unfolding position_run_def decodes_def by blast

lemma position_run_trans:
  assumes "position_run P bs E rest (sp_state Q) (sp_incomplete_char Q)" and "rest \<noteq> []"
    and "at_start P \<longrightarrow> pending (sp_state P) (sp_incomplete_char P) = sp_bytes P"
    and "sp_bytes Q = sp_bytes P + (length bs - length rest)" and "sp_chars Q = sp_chars P + length E"
    and "position_run Q rest E2 rest2 st2 buf2"
  shows "position_run P bs (E @ E2) rest2 st2 buf2"
proof -
  obtain f' where D: "decodes (at_start P) bs (sp_state P) (sp_incomplete_char P) E f' rest (sp_state Q) (sp_incomplete_char Q)"
    and "\<not> f'" and F: "at_start P \<longrightarrow> E \<noteq> [] \<or> 3 + length rest \<le> pending (sp_state P) (sp_incomplete_char P) + length bs"
    using assms(1,2) unfolding position_run_def by blast
  obtain pre where pre: "bs = pre @ rest" using position_run_rest [OF assms(1)] by blast
  have Q: "\<not> at_start Q"
  proof (cases "at_start P")
    case True
    then show ?thesis using F assms(3-5) pre by (auto simp: at_start_def)
  next
    case False
    then show ?thesis using assms(4,5) by (auto simp: at_start_def)
  qed
  then obtain f2 where D2: "decodes False rest (sp_state Q) (sp_incomplete_char Q) E2 f2 rest2 st2 buf2" "\<not> f2"
    using assms(6) unfolding position_run_def by auto
  have "length rest2 \<le> length rest" using position_run_rest [OF assms(6)] by auto
  with F have F2: "at_start P \<longrightarrow> E @ E2 \<noteq> [] \<or> 3 + length rest2 \<le> pending (sp_state P) (sp_incomplete_char P) + length bs"
    by auto
  from D D2 \<open>\<not> f'\<close> have "decodes (at_start P) bs (sp_state P) (sp_incomplete_char P) (E @ E2) False rest2 st2 buf2"
    using decodes_trans by simp
  with F2 show ?thesis unfolding position_run_def by blast
qed

text \<open>The positions the loops reach from the start of a chunk, with the bytes left.\<close>

definition run_to :: "Utf8Chunk \<Rightarrow> StreamPosition \<Rightarrow> byte list \<Rightarrow> bool" where
  "run_to c P rest \<longleftrightarrow> rest = u8_data c \<and> P = u8_start c \<or>
     (\<exists>E. position_run (u8_start c) (u8_data c) E rest (sp_state P) (sp_incomplete_char P) \<and>
        sp_chars P = sp_chars (u8_start c) + length E \<and>
        sp_bytes P = sp_bytes (u8_start c) + (length (u8_data c) - length rest))"

lemma run_to_start: "run_to c (u8_start c) (u8_data c)"
  by (simp add: run_to_def)

lemma run_to_prefix:
  assumes "run_to c R []" and "u8_data c \<noteq> []"
  shows "\<exists>E. utf8_prefix (at_start (u8_start c)) (u8_data c) (sp_state (u8_start c)) (sp_incomplete_char (u8_start c)) =
      (sp_state R, sp_incomplete_char R, E) \<and> sp_chars R = sp_chars (u8_start c) + length E \<and>
      sp_bytes R = sp_bytes (u8_start c) + length (u8_data c)"
proof -
  obtain E where E: "position_run (u8_start c) (u8_data c) E [] (sp_state R) (sp_incomplete_char R)"
    "sp_chars R = sp_chars (u8_start c) + length E" "sp_bytes R = sp_bytes (u8_start c) + length (u8_data c)"
    using assms by (auto simp: run_to_def)
  then obtain f' where "decodes (at_start (u8_start c)) (u8_data c) (sp_state (u8_start c)) (sp_incomplete_char (u8_start c)) E f' []
      (sp_state R) (sp_incomplete_char R)" unfolding position_run_def by blast
  then have "utf8_prefix (at_start (u8_start c)) (u8_data c @ []) (sp_state (u8_start c)) (sp_incomplete_char (u8_start c)) =
      add_units E (utf8_prefix f' ([] @ []) (sp_state R) (sp_incomplete_char R))" unfolding decodes_def by blast
  with E(2,3) show ?thesis by (simp add: utf8_prefix.simps(1))
qed

lemma run_to_end: "run_to c P [] \<Longrightarrow> run_to c Q [] \<Longrightarrow> u8_data c \<noteq> [] \<Longrightarrow> P = Q"
  by (drule (1) run_to_prefix)+ (auto intro: StreamPosition.equality)

lemma run_to_step:
  assumes "run_to c P rest" and "rest \<noteq> []"
    and "at_start (u8_start c) \<longrightarrow> pending (sp_state (u8_start c)) (sp_incomplete_char (u8_start c)) = sp_bytes (u8_start c)"
    and "position_run P rest E rest2 st2 buf2"
  shows "run_to c \<lparr> sp_bytes = sp_bytes (u8_start c) + (length (u8_data c) - length rest2),
    sp_chars = sp_chars P + length E, sp_incomplete_char = buf2, sp_state = st2 \<rparr> rest2"
  using assms(1) unfolding run_to_def [of c P]
proof (elim disjE conjE exE)
  assume "rest = u8_data c" "P = u8_start c"
  then show ?thesis using assms(4) unfolding run_to_def by (intro disjI2 exI [of _ E]) simp
next
  fix E0
  assume R: "position_run (u8_start c) (u8_data c) E0 rest (sp_state P) (sp_incomplete_char P)"
    "sp_chars P = sp_chars (u8_start c) + length E0" "sp_bytes P = sp_bytes (u8_start c) + (length (u8_data c) - length rest)"
  from position_run_trans [OF R(1) assms(2,3) R(3,2) assms(4)] R(2)
  show ?thesis unfolding run_to_def by (intro disjI2 exI [of _ "E0 @ E"]) simp
qed

end
