(* ===== verification/Utf8_Reading.thy ===== *)
theory Utf8_Reading
  imports Utf8_Text
begin

text \<open>
  The stream \<^verbatim>\<open>Utf8ExternalStreamingStream\<close> as a whole: its invariant, what the private
  operations do under it, and that reading the stream forwards ends and delivers the text.
\<close>

section \<open>The stream invariant\<close>

definition utf8_ended :: "Utf8Stream \<Rightarrow> bool" where
  "utf8_ended s \<longleftrightarrow> u8_chunks s \<noteq> [] \<and> u8_data (last (u8_chunks s)) = []"

definition utf8_fetched :: "Utf8Stream \<Rightarrow> byte list" where
  "utf8_fetched s = concat (map u8_data (u8_chunks s))"

definition source_bytes :: "(nat \<times> byte list) list \<Rightarrow> byte list" where
  "source_bytes src = concat (takeWhile (\<lambda>d. d \<noteq> []) (map snd src))"

text \<open>All bytes of the stream, fetched and to come.\<close>

definition utf8_bytes :: "Utf8Stream \<Rightarrow> byte list" where
  "utf8_bytes s = utf8_fetched s @ (if utf8_ended s then [] else source_bytes (u8_source s))"

definition chunk_inv :: "Utf8Stream \<Rightarrow> nat \<Rightarrow> bool" where
  "chunk_inv s k \<longleftrightarrow> (u8_data (GetChunk s k) = [] \<longrightarrow> Suc k = length (u8_chunks s)) \<and>
     sp_bytes (u8_start (GetChunk s k)) = length (concat (map u8_data (take k (u8_chunks s)))) \<and>
     right_position (utf8_bytes s) (u8_start (GetChunk s k)) \<and>
     (k = 0 \<longrightarrow> u8_start (GetChunk s k) = StreamPosition_start) \<and>
     (Suc k < length (u8_chunks s) \<longrightarrow> run_to (GetChunk s k) (u8_start (GetChunk s (Suc k))) [])"

definition current_inv :: "Utf8Stream \<Rightarrow> bool" where
  "current_inv s \<longleftrightarrow> right_position (utf8_bytes s) (u8_pos s) \<and>
     (if u8_chunk_no s < length (u8_chunks s)
      then let c = GetChunk s (u8_chunk_no s); b = sp_bytes (u8_start c)
           in b \<le> sp_bytes (u8_pos s) \<and>
              (if u8_data c = [] then sp_bytes (u8_pos s) = b
               else sp_bytes (u8_pos s) < b + length (u8_data c) \<and> run_to c (u8_pos s) (drop (sp_bytes (u8_pos s) - b) (u8_data c)))
      else u8_chunk_no s = length (u8_chunks s) \<and> \<not> utf8_ended s \<and> sp_bytes (u8_pos s) = length (utf8_fetched s) \<and>
        (u8_chunks s = [] \<longrightarrow> u8_pos s = StreamPosition_start) \<and>
        (\<forall>k. Suc k = length (u8_chunks s) \<longrightarrow> run_to (GetChunk s k) (u8_pos s) []))"

definition utf8_inv :: "Utf8Stream \<Rightarrow> bool" where
  "utf8_inv s \<longleftrightarrow> (\<forall>k < length (u8_chunks s). chunk_inv s k) \<and> current_inv s \<and>
     (utf8_ended s \<and> utf8_text (utf8_bytes s) = [] \<longrightarrow> Suc (u8_chunk_no s) = length (u8_chunks s))"

lemma utf8_inv_new:
  "utf8_inv (new_Utf8Stream src)" "utf8_bytes (new_Utf8Stream src) = source_bytes src"
  by (simp_all add: utf8_inv_def new_Utf8Stream_def current_inv_def utf8_ended_def utf8_bytes_def utf8_fetched_def
      right_start) (simp add: StreamPosition_start_def)

text \<open>The bytes from the current position on.\<close>

lemma concat_split:
  assumes "k < length cs"
  shows "concat (map f cs) = concat (map f (take k cs)) @ f (cs ! k) @ concat (map f (drop (Suc k) cs))"
proof -
  have "cs = take k cs @ cs ! k # drop (Suc k) cs" using assms by (rule id_take_nth_drop)
  then show ?thesis by (metis concat.simps(2) concat_append list.simps(9) map_append)
qed

lemma chunk_bytes:
  assumes "chunk_inv s k" and "k < length (u8_chunks s)" and "i \<le> length (u8_data (GetChunk s k))"
  obtains ys where "drop (sp_bytes (u8_start (GetChunk s k)) + i) (utf8_bytes s) = drop i (u8_data (GetChunk s k)) @ ys"
    "\<And>j. j \<le> length (u8_data (GetChunk s k)) \<Longrightarrow>
      drop (sp_bytes (u8_start (GetChunk s k)) + j) (utf8_bytes s) = drop j (u8_data (GetChunk s k)) @ ys"
proof -
  let ?pre = "concat (map u8_data (take k (u8_chunks s)))" and ?d = "u8_data (GetChunk s k)"
  obtain ys where "utf8_bytes s = ?pre @ ?d @ ys"
    using concat_split [OF assms(2), of u8_data] by (auto simp: utf8_bytes_def utf8_fetched_def)
  then have "drop (sp_bytes (u8_start (GetChunk s k)) + j) (utf8_bytes s) = drop j ?d @ ys" if "j \<le> length ?d" for j
    using assms(1) that by (simp add: chunk_inv_def)
  with that assms(3) show ?thesis by blast
qed

section \<open>FetchChunk\<close>

lemma last_nth: "Suc k = length xs \<Longrightarrow> last xs = xs ! k"
  by (cases xs rule: rev_cases) auto

lemma not_ended_data:
  assumes "\<forall>k < length (u8_chunks s). chunk_inv s k" and "\<not> utf8_ended s" and "k < length (u8_chunks s)"
  shows "u8_data (GetChunk s k) \<noteq> []"
proof
  assume e: "u8_data (GetChunk s k) = []"
  then have "Suc k = length (u8_chunks s)" using assms(1,3) by (simp add: chunk_inv_def)
  from last_nth [OF this] have "last (u8_chunks s) = GetChunk s k" .
  with assms(2,3) e show False by (auto simp: utf8_ended_def)
qed

lemma FetchChunk_inv:
  assumes "utf8_inv s" and "u8_chunk_no s = length (u8_chunks s)" and "utf8_FetchChunk s = (m, s')"
  shows "utf8_inv s'" and "utf8_bytes s' = utf8_bytes s"
    and "u8_pos s' = u8_pos s \<and> u8_chunk_no s' = u8_chunk_no s \<and> length (u8_chunks s') = Suc (u8_chunk_no s)"
    and "m \<longleftrightarrow> u8_data (GetChunk s' (u8_chunk_no s)) \<noteq> []" and "m \<longleftrightarrow> \<not> utf8_ended s'"
    and "m \<Longrightarrow> length (u8_source s') < length (u8_source s)"
proof -
  obtain a d src where e: "(case u8_source s of [] \<Rightarrow> ((0, []), []) | d # ds \<Rightarrow> (d, ds)) = ((a, d), src)"
    by (metis prod.collapse)
  define c where "c = \<lparr> u8_address = a, u8_data = d, u8_start = u8_pos s \<rparr>"
  have s': "s' = s \<lparr> u8_chunks := u8_chunks s @ [c], u8_source := src \<rparr>" "m \<longleftrightarrow> d \<noteq> []"
    using assms(3) by (auto simp: utf8_FetchChunk_def e c_def)
  have inv: "\<forall>k < length (u8_chunks s). chunk_inv s k" "right_position (utf8_bytes s) (u8_pos s)"
    "\<not> utf8_ended s" "sp_bytes (u8_pos s) = length (utf8_fetched s)"
    "u8_chunks s = [] \<longrightarrow> u8_pos s = StreamPosition_start" "\<forall>k. Suc k = length (u8_chunks s) \<longrightarrow> run_to (GetChunk s k) (u8_pos s) []"
    using assms(1,2) by (simp_all add: utf8_inv_def current_inv_def)
  have "source_bytes (u8_source s) = d @ (if d = [] then [] else source_bytes src)"
    using e by (cases "u8_source s") (auto simp: source_bytes_def)
  moreover have end': "utf8_ended s' \<longleftrightarrow> d = []" by (simp add: utf8_ended_def s' c_def)
  ultimately show B: "utf8_bytes s' = utf8_bytes s"
    using inv(3) by (simp add: utf8_bytes_def utf8_fetched_def s' c_def)
  show "u8_pos s' = u8_pos s \<and> u8_chunk_no s' = u8_chunk_no s \<and> length (u8_chunks s') = Suc (u8_chunk_no s)"
    "m \<longleftrightarrow> u8_data (GetChunk s' (u8_chunk_no s)) \<noteq> []" "m \<longleftrightarrow> \<not> utf8_ended s'"
    using assms(2) s' end' by (simp_all add: c_def)
  show "m \<Longrightarrow> length (u8_source s') < length (u8_source s)" using assms(3) FetchChunk_source [of s s'] by simp
  have "chunk_inv s' k" if "k < length (u8_chunks s')" for k
  proof (cases "k < length (u8_chunks s)")
    case True
    have "chunk_inv s k" using inv(1) True by simp
    then show ?thesis using not_ended_data [OF inv(1,3) True] B True inv(6)
      by (cases "Suc k = length (u8_chunks s)") (auto simp: chunk_inv_def s' nth_append c_def)
  next
    case False
    then have "k = length (u8_chunks s)" using that s' by simp
    with inv(2,4,5) B assms(2) show ?thesis by (simp add: chunk_inv_def s' c_def utf8_fetched_def)
  qed
  moreover have "current_inv s'"
    using inv(2,4) assms(2) B run_to_start [of c] by (simp add: current_inv_def s' c_def Let_def)
  ultimately show "utf8_inv s'" using s' assms(2) by (simp add: utf8_inv_def)
qed

section \<open>Moving within a chunk\<close>

lemma chunk_start_Suc:
  assumes "\<forall>k < length (u8_chunks s). chunk_inv s k" and "Suc k < length (u8_chunks s)"
  shows "sp_bytes (u8_start (GetChunk s (Suc k))) = sp_bytes (u8_start (GetChunk s k)) + length (u8_data (GetChunk s k))"
  using assms by (simp add: chunk_inv_def take_Suc_conv_app_nth)

lemma fetched_length:
  assumes "\<forall>k < length (u8_chunks s). chunk_inv s k" and "Suc k = length (u8_chunks s)"
  shows "length (utf8_fetched s) = sp_bytes (u8_start (GetChunk s k)) + length (u8_data (GetChunk s k))"
proof -
  have "utf8_fetched s = concat (map u8_data (take k (u8_chunks s))) @ u8_data (GetChunk s k)"
    using concat_split [of k "u8_chunks s" u8_data] assms(2) by (simp add: utf8_fetched_def)
  with assms show ?thesis by (simp add: chunk_inv_def)
qed

lemma suffix_drop: "d = p @ r \<Longrightarrow> drop (length d - length r) d = r"
  by simp

text \<open>The position at the end of a run inside chunk \<open>k\<close>.\<close>

lemma current_advance:
  assumes "\<forall>k < length (u8_chunks s). chunk_inv s k" and "k < length (u8_chunks s)" and "u8_data (GetChunk s k) \<noteq> []"
    and "right_position (utf8_bytes s) P" and "sp_bytes (u8_start (GetChunk s k)) \<le> sp_bytes P"
    and "sp_bytes P < sp_bytes (u8_start (GetChunk s k)) + length (u8_data (GetChunk s k))"
    and "position_run P (drop (sp_bytes P - sp_bytes (u8_start (GetChunk s k))) (u8_data (GetChunk s k))) E rest st' buf'"
    and "s' = s \<lparr> u8_pos := \<lparr> sp_bytes = sp_bytes (u8_start (GetChunk s k)) + (length (u8_data (GetChunk s k)) - length rest),
      sp_chars = sp_chars P + length E, sp_incomplete_char = buf', sp_state = st' \<rparr>,
      u8_chunk_no := k + (if rest = [] then 1 else 0) \<rparr>"
    and "run_to (GetChunk s k) P (drop (sp_bytes P - sp_bytes (u8_start (GetChunk s k))) (u8_data (GetChunk s k)))"
  shows "current_inv s'" and "E = take (length E) (drop (sp_chars P) (utf8_text (utf8_bytes s)))"
proof -
  let ?d = "u8_data (GetChunk s k)" and ?b = "sp_bytes (u8_start (GetChunk s k))"
  let ?bs = "drop (sp_bytes P - ?b) ?d"
  have i: "sp_bytes P - ?b \<le> length ?d" using assms(5,6) by simp
  obtain ys where ys: "drop (?b + (sp_bytes P - ?b)) (utf8_bytes s) = ?bs @ ys"
    using chunk_bytes [of s k, OF _ assms(2) i] assms(1,2) by blast
  obtain pre where pre: "?bs = pre @ rest" using assms(7) unfolding position_run_def decodes_def by blast
  have le: "length rest \<le> length ?bs" unfolding pre by simp
  have b: "?b + (length ?d - length rest) = sp_bytes P + (length ?bs - length rest)" using le i assms(5) by simp
  have ys': "drop (sp_bytes P) (utf8_bytes s) = ?bs @ ys" using ys assms(5) by simp
  have pos: "u8_pos s' = \<lparr> sp_bytes = sp_bytes P + (length ?bs - length rest), sp_chars = sp_chars P + length E,
      sp_incomplete_char = buf', sp_state = st' \<rparr>" using assms(8) b by simp
  from right_advance [OF assms(4) ys' assms(7) pos]
  have R: "right_position (utf8_bytes s) (u8_pos s')" and
    "E = take (length E) (drop (sp_chars P) (utf8_text (utf8_bytes s)))" by blast+
  then show "E = take (length E) (drop (sp_chars P) (utf8_text (utf8_bytes s)))" by blast
  have B: "utf8_bytes s' = utf8_bytes s" "u8_chunks s' = u8_chunks s"
    using assms(8) by (simp_all add: utf8_bytes_def utf8_ended_def utf8_fetched_def)
  have at: "sp_bytes (u8_pos s') = ?b + (length ?d - length rest)" "u8_chunk_no s' = k + (if rest = [] then 1 else 0)"
    using assms(8) by simp_all
  have le2: "length rest \<le> length ?d" using le by simp
  have inv: "chunk_inv s k" using assms(1,2) by blast
  then have run: "run_to (GetChunk s k) (u8_pos s') rest"
    using run_to_step [OF assms(9) _ _ assms(7)] assms(5,6,8) by (simp add: chunk_inv_def right_position_def)
  have "?d = (take (sp_bytes P - ?b) ?d @ pre) @ rest" by (metis append.assoc append_take_drop_id pre)
  from suffix_drop [OF this] have rest: "drop (length ?d - length rest) ?d = rest" .
  show "current_inv s'"
  proof (cases "rest = []")
    case False
    with at le2 R B assms(2,3) run rest show ?thesis by (simp add: current_inv_def Let_def)
  next
    case True
    show ?thesis
    proof (cases "Suc k < length (u8_chunks s)")
      case Suc: True
      have "u8_pos s' = u8_start (GetChunk s (Suc k))"
        using run_to_end [OF _ _ assms(3)] run True inv Suc by (simp add: chunk_inv_def)
      with True at R B chunk_start_Suc [OF assms(1) Suc] Suc run_to_start show ?thesis by (simp add: current_inv_def Let_def)
    next
      case False
      then have k: "Suc k = length (u8_chunks s)" using assms(2) by simp
      then have "\<not> utf8_ended s'" using assms(3) B last_nth [OF k] by (simp add: utf8_ended_def)
      moreover have "utf8_fetched s' = utf8_fetched s" using B by (simp add: utf8_fetched_def)
      moreover have "\<forall>j. Suc j = length (u8_chunks s) \<longrightarrow> run_to (GetChunk s j) (u8_pos s') []"
        using run True k by (metis nat.inject)
      ultimately show ?thesis using True k at R B fetched_length [OF assms(1) k] by (auto simp: current_inv_def)
    qed
  qed
qed

section \<open>FillBufferFromCurrentChunk\<close>

text \<open>A later state of the stream with the same bytes, \<open>E\<close> further on in the text; nothing is
  fetched behind the terminating chunk.\<close>

definition delivers :: "Utf8Stream \<Rightarrow> uc16 list \<Rightarrow> Utf8Stream \<Rightarrow> bool" where
  "delivers s E s' \<longleftrightarrow> utf8_inv s' \<and> utf8_bytes s' = utf8_bytes s \<and>
     sp_chars (u8_pos s') = sp_chars (u8_pos s) + length E \<and>
     E = take (length E) (drop (sp_chars (u8_pos s)) (utf8_text (utf8_bytes s))) \<and>
     (utf8_ended s \<longrightarrow> u8_chunks s' = u8_chunks s)"

abbreviation text_left :: "Utf8Stream \<Rightarrow> uc16 list" where
  "text_left s \<equiv> drop (sp_chars (u8_pos s)) (utf8_text (utf8_bytes s))"

lemma same_bytes:
  "u8_chunks s' = u8_chunks s \<Longrightarrow> u8_source s' = u8_source s \<Longrightarrow>
   utf8_bytes s' = utf8_bytes s \<and> utf8_ended s' = utf8_ended s \<and> utf8_fetched s' = utf8_fetched s \<and> chunk_inv s' k = chunk_inv s k"
  by (simp add: utf8_bytes_def utf8_ended_def utf8_fetched_def chunk_inv_def)

lemma fill_chunk:
  assumes "utf8_inv s" and "u8_chunk_no s < length (u8_chunks s)" and "u8_data (GetChunk s (u8_chunk_no s)) \<noteq> []"
    and "FillBufferFromCurrentChunk s [] = (s', E)"
  shows "delivers s E s'" and "u8_chunks s' = u8_chunks s \<and> u8_source s' = u8_source s"
    and "u8_chunk_no s' = Suc (u8_chunk_no s) \<or> u8_chunk_no s' = u8_chunk_no s \<and> E \<noteq> []"
proof -
  let ?c = "GetChunk s (u8_chunk_no s)" and ?P = "u8_pos s"
  let ?b = "sp_bytes (u8_start ?c)"
  let ?bs = "drop (sp_bytes ?P - ?b) (u8_data ?c)"
  have inv: "\<forall>k < length (u8_chunks s). chunk_inv s k" "right_position (utf8_bytes s) ?P" "?b \<le> sp_bytes ?P"
    "sp_bytes ?P < ?b + length (u8_data ?c)" "run_to ?c ?P ?bs"
    using assms(1-3) by (simp_all add: utf8_inv_def current_inv_def Let_def)
  obtain r1 st1 buf1 out1 where A: "(if at_start ?P then fill_bom ?bs (sp_state ?P) (sp_incomplete_char ?P) []
      else (?bs, sp_state ?P, sp_incomplete_char ?P, [])) = (r1, st1, buf1, out1)" by (metis prod.collapse)
  obtain rest st2 buf2 out2 where F: "fill_chars (u8_address ?c + length (u8_data ?c)) r1 st1 buf1 out1 = (rest, st2, buf2, out2)"
    by (metis prod.collapse)
  have r: "s' = s \<lparr> u8_pos := \<lparr> sp_bytes = ?b + (length (u8_data ?c) - length rest), sp_chars = sp_chars ?P + length out2,
      sp_incomplete_char = buf2, sp_state = st2 \<rparr>, u8_chunk_no := u8_chunk_no s + (if rest = [] then 1 else 0) \<rparr>" "E = out2"
    using assms(3,4) A F unfolding FillBufferFromCurrentChunk_def Let_def at_start_def [symmetric]
    by (auto split del: if_split)
  have g: "good_state (sp_state ?P) (sp_incomplete_char ?P)" using inv(2) by (simp add: right_position_def)
  have run: "position_run ?P ?bs E rest st2 buf2" "rest = [] \<or> E \<noteq> []" using fill_run [OF g A F] r(2) by simp_all
  show C: "u8_chunks s' = u8_chunks s \<and> u8_source s' = u8_source s" using r by simp
  note adv = current_advance [OF inv(1) assms(2,3) inv(2,3,4) run(1) r(1) [folded r(2)] inv(5)]
  have "\<not> (utf8_ended s \<and> utf8_text (utf8_bytes s) = [])"
    using assms(1,3) last_nth [of "u8_chunk_no s" "u8_chunks s"] by (auto simp: utf8_inv_def utf8_ended_def)
  then have "utf8_inv s'" using inv(1) adv(1) C same_bytes [of s' s] by (auto simp: utf8_inv_def)
  then show "delivers s E s'" using adv(2) C same_bytes [of s' s] r by (simp add: delivers_def)
  show "u8_chunk_no s' = Suc (u8_chunk_no s) \<or> u8_chunk_no s' = u8_chunk_no s \<and> E \<noteq> []" using r run(2) by auto
qed

lemma terminal_left:
  assumes "utf8_inv s" and "u8_chunk_no s < length (u8_chunks s)" and "u8_data (GetChunk s (u8_chunk_no s)) = []"
  shows "text_left s = (if sp_state (u8_pos s) = kAccept then [] else [0xFFFD])" and "utf8_ended s"
    and "Suc (u8_chunk_no s) = length (u8_chunks s)" and "sp_bytes (u8_pos s) = length (utf8_bytes s)"
proof -
  have inv: "\<forall>k < length (u8_chunks s). chunk_inv s k" "right_position (utf8_bytes s) (u8_pos s)"
    "sp_bytes (u8_pos s) = sp_bytes (u8_start (GetChunk s (u8_chunk_no s)))"
    using assms by (simp_all add: utf8_inv_def current_inv_def Let_def)
  show n: "Suc (u8_chunk_no s) = length (u8_chunks s)" using inv(1) assms(2,3) by (simp add: chunk_inv_def)
  then show "utf8_ended s" using assms(3) last_nth [OF n] by (auto simp: utf8_ended_def)
  then show "sp_bytes (u8_pos s) = length (utf8_bytes s)"
    using fetched_length [OF inv(1) n] assms(3) inv(3) by (simp add: utf8_bytes_def)
  then show "text_left s = (if sp_state (u8_pos s) = kAccept then [] else [0xFFFD])"
    using inv(2) by (auto simp: right_position_def utf8_decode_Nil)
qed

lemma fill_terminal:
  assumes "utf8_inv s" and "u8_chunk_no s < length (u8_chunks s)" and "u8_data (GetChunk s (u8_chunk_no s)) = []"
    and "FillBufferFromCurrentChunk s [] = (s', E)"
  shows "delivers s E s'" and "u8_chunks s' = u8_chunks s \<and> u8_source s' = u8_source s \<and> u8_chunk_no s' = u8_chunk_no s"
    and "E = text_left s" and "sp_state (u8_pos s') = kAccept"
proof -
  note T = terminal_left [OF assms(1-3)]
  show C: "u8_chunks s' = u8_chunks s \<and> u8_source s' = u8_source s \<and> u8_chunk_no s' = u8_chunk_no s"
    and E: "E = text_left s" and "sp_state (u8_pos s') = kAccept"
    using assms(3,4) T(1) by (auto simp: FillBufferFromCurrentChunk_def ValueOfIncrementalFinish_def Let_def split: if_splits)
  show "delivers s E s'"
  proof (cases "sp_state (u8_pos s) = kAccept")
    case True
    then have "s' = s" "E = []" using assms(3,4) by (auto simp: FillBufferFromCurrentChunk_def ValueOfIncrementalFinish_def Let_def)
    then show ?thesis using assms(1) by (simp add: delivers_def)
  next
    case False
    then have P: "u8_pos s' = (u8_pos s) \<lparr> sp_chars := sp_chars (u8_pos s) + 1, sp_incomplete_char := 0, sp_state := kAccept \<rparr>"
      "text_left s = [0xFFFD]"
      using assms(3,4) T(1) by (auto simp: FillBufferFromCurrentChunk_def ValueOfIncrementalFinish_def Let_def)
    have len: "length (utf8_text (utf8_bytes s)) = Suc (sp_chars (u8_pos s))" using arg_cong [OF P(2), of length] by simp
    have "right_position (utf8_bytes s) (u8_pos s')" unfolding right_position_def
      using P(1) T(4) len by (simp add: at_start_def utf8_decode_Nil)
    then have "utf8_inv s'" using assms(1-3) C P same_bytes [of s' s] by (simp add: utf8_inv_def current_inv_def Let_def)
    then show ?thesis using C E P same_bytes [of s' s] by (simp add: delivers_def)
  qed
qed

section \<open>The loop of FillBuffer\<close>

lemma decode_nonempty:
  assumes "good_state st buf" and "bs \<noteq> []"
  shows "utf8_decode False bs st buf \<noteq> []"
  using assms
proof (induction False bs st buf rule: utf8_prefix.induct)
  case (2 b bs st buf)
  obtain t moved s1 b1 where v: "ValueOfIncremental b st buf = (t, moved, s1, b1)" by (metis prod.collapse)
  define r where "r = (if moved then bs else b # bs)"
  have g: "good_state s1 b1" by (rule decode_step [OF 2(3) v]) auto
  note S = decodes_step [OF 2(3) v r_def, of False, THEN decodes_decode, of "[]"]
  show ?case
  proof (cases "t = kIncomplete")
    case True
    have "s1 \<noteq> kAccept" by (rule decode_step [OF 2(3) v]; use True in auto)
    then have "utf8_decode False r s1 b1 \<noteq> []"
      using 2(1) [OF v [symmetric] refl refl r_def True g] by (cases "r = []") (auto simp: utf8_decode_Nil)
    then show ?thesis using S(1) [OF True] by simp
  next
    case False
    then show ?thesis using S(2) by (simp add: code_units_def)
  qed
qed simp

lemma bytes_left_text_left:
  assumes "right_position B P" and "sp_bytes P < length B" and "utf8_text B \<noteq> []"
  shows "drop (sp_chars P) (utf8_text B) \<noteq> []"
proof (cases "at_start P")
  case True
  then show ?thesis using assms(3) by (simp add: at_start_def)
next
  case False
  then show ?thesis using assms decode_nonempty [of "sp_state P" "sp_incomplete_char P" "drop (sp_bytes P) B"]
    by (simp add: right_position_def)
qed

text \<open>
  At the frontier no chunk is fetched yet behind the current one; a settled stream has
  finished the last character when it is at the terminating chunk.
\<close>

definition frontier :: "Utf8Stream \<Rightarrow> bool" where
  "frontier s \<longleftrightarrow> length (u8_chunks s) \<le> Suc (u8_chunk_no s)"

definition settled :: "Utf8Stream \<Rightarrow> bool" where
  "settled s \<longleftrightarrow> (u8_chunk_no s < length (u8_chunks s) \<and> u8_data (GetChunk s (u8_chunk_no s)) = [] \<longrightarrow>
     sp_state (u8_pos s) = kAccept)"

lemma delivers_nil: "delivers s [] s1 \<Longrightarrow> delivers s1 E s2 \<Longrightarrow> delivers s E s2"
  by (simp add: delivers_def utf8_ended_def)

lemma FillBuffer_loop_done: "out \<noteq> [] \<or> d \<Longrightarrow> FillBuffer_loop d s out = Some (out, s)"
  by (subst FillBuffer_loop.simps) auto

text \<open>
  The outcomes of one round of the loop: it ends with the next part of the text, or goes
  on with nothing delivered and less to read.
\<close>

definition round_outcome :: "Utf8Stream \<Rightarrow> bool" where
  "round_outcome s \<longleftrightarrow>
     (\<exists>E s'. delivers s E s' \<and> (frontier s \<longrightarrow> frontier s' \<and> settled s') \<and> (E = [] \<longrightarrow> text_left s = []) \<and>
        FillBuffer_loop False s [] = Some (E, s')) \<or>
     (\<exists>s'. delivers s [] s' \<and> (frontier s \<longrightarrow> frontier s') \<and> (utf8_ended s' \<longrightarrow> text_left s' \<noteq> []) \<and>
        FillBuffer_loop False s [] = FillBuffer_loop False s' [] \<and>
        length (u8_chunks s') - u8_chunk_no s' + length (u8_source s') < length (u8_chunks s) - u8_chunk_no s + length (u8_source s))"

lemma round_fetch:
  assumes "utf8_inv s" and "u8_chunk_no s = length (u8_chunks s)"
  shows "round_outcome s"
proof -
  obtain m s1 where f: "utf8_FetchChunk s = (m, s1)" by fastforce
  obtain s2 E where q: "FillBufferFromCurrentChunk s1 [] = (s2, E)" by fastforce
  note F = FetchChunk_inv [OF assms f]
  have loop: "FillBuffer_loop False s [] = FillBuffer_loop (\<not> m) s2 E"
    by (subst FillBuffer_loop.simps) (simp add: assms(2) f q)
  have c: "u8_chunk_no s1 < length (u8_chunks s1)" "length (u8_chunks s1) = Suc (u8_chunk_no s1)" using F(3) by simp_all
  have fr: "frontier s2" if "u8_chunks s2 = u8_chunks s1" "u8_chunk_no s1 \<le> u8_chunk_no s2"
    using that c by (simp add: frontier_def)
  have "\<not> utf8_ended s" using assms by (simp add: utf8_inv_def current_inv_def)
  then have d: "delivers s E s2" if "delivers s1 E s2" using that F(2,3) by (simp add: delivers_def)
  show ?thesis
  proof (cases m)
    case False
    then have "u8_data (GetChunk s1 (u8_chunk_no s1)) = []" using F(3,4) by simp
    note T = fill_terminal [OF F(1) c(1) this q]
    have "settled s2" using T(4) by (simp add: settled_def)
    moreover have "E = text_left s" using T(3) F(2,3) by simp
    ultimately show ?thesis unfolding round_outcome_def
      using d [OF T(1)] fr T(2) loop False FillBuffer_loop_done [of E True s2] by auto
  next
    case True
    then have data: "u8_data (GetChunk s1 (u8_chunk_no s1)) \<noteq> []" using F(3,4) by simp
    note T = fill_chunk [OF F(1) c(1) this q]
    have D: "delivers s E s2" "frontier s2" "\<not> utf8_ended s2" using d [OF T(1)] fr T(2,3) F(5) True same_bytes [of s2 s1] by auto
    show ?thesis
    proof (cases "E = []")
      case E: True
      with T(2,3) c F(3,6) True assms(2) have "length (u8_chunks s2) - u8_chunk_no s2 + length (u8_source s2) <
          length (u8_chunks s) - u8_chunk_no s + length (u8_source s)" by auto
      then show ?thesis unfolding round_outcome_def using D loop E True by auto
    next
      case False
      have "settled s2" using T(2,3) c data by (auto simp: settled_def)
      then show ?thesis unfolding round_outcome_def using D loop False FillBuffer_loop_done [of E "\<not> m" s2] by auto
    qed
  qed
qed

lemma round_fill:
  assumes "utf8_inv s" and "u8_chunk_no s < length (u8_chunks s)" and "utf8_ended s \<longrightarrow> text_left s \<noteq> []"
  shows "round_outcome s"
proof -
  obtain s2 E where q: "FillBufferFromCurrentChunk s [] = (s2, E)" by fastforce
  have loop: "FillBuffer_loop False s [] = FillBuffer_loop False s2 E"
    using assms(2) by (subst FillBuffer_loop.simps) (simp add: q)
  show ?thesis
  proof (cases "u8_data (GetChunk s (u8_chunk_no s)) = []")
    case True
    note T = fill_terminal [OF assms(1,2) True q]
    have "E \<noteq> []" using T(3) terminal_left(2) [OF assms(1,2) True] assms(3) by simp
    moreover have "settled s2" "frontier s \<longrightarrow> frontier s2" using T(2,4) by (simp_all add: settled_def frontier_def)
    ultimately show ?thesis unfolding round_outcome_def using T(1) loop FillBuffer_loop_done [of E False s2] by auto
  next
    case data: False
    note T = fill_chunk [OF assms(1,2) data q]
    have fr: "frontier s \<longrightarrow> frontier s2" using T(2,3) by (auto simp: frontier_def)
    show ?thesis
    proof (cases "E = []")
      case True
      have "utf8_ended s2 \<longrightarrow> text_left s2 \<noteq> []"
        using assms(3) T(1,2) True same_bytes [of s2 s] by (simp add: delivers_def)
      moreover have "length (u8_chunks s2) - u8_chunk_no s2 + length (u8_source s2) <
          length (u8_chunks s) - u8_chunk_no s + length (u8_source s)" using T(2,3) True assms(2) by auto
      ultimately show ?thesis unfolding round_outcome_def using T(1) fr loop True by auto
    next
      case False
      have "frontier s \<longrightarrow> settled s2" using T(2,3) data by (auto simp: settled_def frontier_def)
      then show ?thesis unfolding round_outcome_def using T(1) fr loop False FillBuffer_loop_done [of E False s2] by auto
    qed
  qed
qed

lemma FillBuffer_loop_ends:
  assumes "utf8_inv s" and "utf8_ended s \<longrightarrow> text_left s \<noteq> []"
  shows "\<exists>E s'. FillBuffer_loop False s [] = Some (E, s') \<and> delivers s E s' \<and> (E = [] \<longrightarrow> text_left s = []) \<and>
    (frontier s \<longrightarrow> frontier s' \<and> settled s')"
  using assms
proof (induction "length (u8_chunks s) - u8_chunk_no s + length (u8_source s)" arbitrary: s rule: less_induct)
  case less
  have "u8_chunk_no s = length (u8_chunks s) \<or> u8_chunk_no s < length (u8_chunks s)"
    using less(2) by (auto simp: utf8_inv_def current_inv_def split: if_splits)
  then have "round_outcome s" using round_fetch [OF less(2)] round_fill [OF less(2) _ less(3)] by blast
  then show ?case unfolding round_outcome_def
  proof (elim disjE exE conjE)
    fix s'
    assume D: "delivers s [] s'" and fr: "frontier s \<longrightarrow> frontier s'" and e: "utf8_ended s' \<longrightarrow> text_left s' \<noteq> []"
      and loop: "FillBuffer_loop False s [] = FillBuffer_loop False s' []"
      and m: "length (u8_chunks s') - u8_chunk_no s' + length (u8_source s') < length (u8_chunks s) - u8_chunk_no s + length (u8_source s)"
    have "utf8_inv s'" using D by (simp add: delivers_def)
    from less(1) [OF m this e] obtain E s2 where r: "FillBuffer_loop False s' [] = Some (E, s2)" "delivers s' E s2"
      "E = [] \<longrightarrow> text_left s' = []" "frontier s' \<longrightarrow> frontier s2 \<and> settled s2" by blast
    have "text_left s' = text_left s" using D by (simp add: delivers_def)
    with r loop fr delivers_nil [OF D r(2)] show ?thesis by auto
  qed auto
qed

section \<open>Reading forwards\<close>

lemma FillBuffer_progress:
  assumes "utf8_inv s" and "\<not> (u8_chunk_no s \<noteq> length (u8_chunks s) \<and>
    u8_data (GetChunk s (u8_chunk_no s)) = [] \<and> sp_incomplete_char (u8_pos s) = 0)"
  shows "utf8_ended s \<longrightarrow> text_left s \<noteq> []"
proof
  assume e: "utf8_ended s"
  have R: "right_position (utf8_bytes s) (u8_pos s)" using assms(1) by (simp add: utf8_inv_def current_inv_def)
  have k: "u8_chunk_no s < length (u8_chunks s)" using assms(1) e by (auto simp: utf8_inv_def current_inv_def split: if_splits)
  show "text_left s \<noteq> []"
  proof (cases "u8_data (GetChunk s (u8_chunk_no s)) = []")
    case True
    then have "sp_incomplete_char (u8_pos s) \<noteq> 0" using assms(2) k by auto
    then have "sp_state (u8_pos s) \<noteq> kAccept" using R by (auto simp: right_position_def)
    then show ?thesis using terminal_left(1) [OF assms(1) k True] by simp
  next
    case False
    have inv: "chunk_inv s (u8_chunk_no s)"
      "sp_bytes (u8_pos s) < sp_bytes (u8_start (GetChunk s (u8_chunk_no s))) + length (u8_data (GetChunk s (u8_chunk_no s)))"
      using assms(1) k False by (simp_all add: utf8_inv_def current_inv_def Let_def)
    moreover have "sp_bytes (u8_start (GetChunk s (u8_chunk_no s))) + length (u8_data (GetChunk s (u8_chunk_no s))) \<le> length (utf8_bytes s)"
      using concat_split [OF k, of u8_data] inv(1) by (simp add: utf8_bytes_def utf8_fetched_def chunk_inv_def)
    moreover have "utf8_text (utf8_bytes s) \<noteq> []"
      using assms(1) e False last_nth [of "u8_chunk_no s" "u8_chunks s"] by (auto simp: utf8_inv_def utf8_ended_def)
    ultimately show ?thesis using bytes_left_text_left [OF R] by simp
  qed
qed

lemma FillBuffer_here:
  assumes "utf8_inv s" and "settled s" and "frontier s"
  shows "\<exists>E s'. utf8_FillBuffer (sp_chars (u8_pos s)) s = Some (E, s') \<and> delivers s E s' \<and> (E = [] \<longrightarrow> text_left s = []) \<and>
    frontier s' \<and> settled s'"
proof -
  have P: "SearchPosition (sp_chars (u8_pos s)) s = s" by (simp add: SearchPosition_def)
  show ?thesis
  proof (cases "u8_chunk_no s \<noteq> length (u8_chunks s) \<and> u8_data (GetChunk s (u8_chunk_no s)) = [] \<and>
      sp_incomplete_char (u8_pos s) = 0")
    case True
    then have k: "u8_chunk_no s < length (u8_chunks s)" "u8_data (GetChunk s (u8_chunk_no s)) = []"
      using assms(1) by (auto simp: utf8_inv_def current_inv_def split: if_splits)
    then have "text_left s = []" using terminal_left(1) [OF assms(1)] assms(2) by (simp add: settled_def)
    moreover have "utf8_FillBuffer (sp_chars (u8_pos s)) s = Some ([], s)" using P True by (simp add: utf8_FillBuffer_def)
    ultimately show ?thesis using assms by (auto simp: delivers_def)
  next
    case False
    then have "utf8_FillBuffer (sp_chars (u8_pos s)) s = FillBuffer_loop False s []"
      unfolding utf8_FillBuffer_def P Let_def by (rule if_not_P)
    with FillBuffer_loop_ends [OF assms(1) FillBuffer_progress [OF assms(1) False]] assms(3) show ?thesis by auto
  qed
qed

text \<open>
  The reads of \<^verbatim>\<open>BufferedUtf16CharacterStream\<close> that go through the whole stream once: the
  buffer is filled behind what has been delivered until nothing more comes. Too little
  fuel gives \<^const>\<open>None\<close>, as would a call that does not return.
\<close>

primrec forward_read :: "nat \<Rightarrow> Utf8Stream \<Rightarrow> uc16 list \<Rightarrow> (uc16 list \<times> Utf8Stream) option" where
  "forward_read 0 s acc = None"
| "forward_read (Suc n) s acc =
     (case utf8_FillBuffer (length acc) s of
        None \<Rightarrow> None
      | Some (E, s') \<Rightarrow> if E = [] then Some (acc, s') else forward_read n s' (acc @ E))"

lemma forward_read_from:
  assumes "utf8_inv s" and "settled s" and "frontier s" and "utf8_text (utf8_bytes s) = T"
    and "acc = take (sp_chars (u8_pos s)) T" and "length T < n + length acc"
  shows "\<exists>s'. forward_read n s acc = Some (T, s')"
  using assms
proof (induction n arbitrary: s acc)
  case 0
  then show ?case by simp
next
  case (Suc n)
  have c: "sp_chars (u8_pos s) \<le> length T" using Suc(2,5) by (auto simp: utf8_inv_def current_inv_def right_position_def)
  then have a: "length acc = sp_chars (u8_pos s)" using Suc(6) by simp
  obtain E s' where F: "utf8_FillBuffer (sp_chars (u8_pos s)) s = Some (E, s')" "delivers s E s'"
    "E = [] \<longrightarrow> text_left s = []" "frontier s'" "settled s'" using FillBuffer_here [OF Suc(2-4)] by blast
  show ?case
  proof (cases "E = []")
    case True
    then have "length T \<le> length acc" using F(3) Suc(5) a by simp
    then have "acc = T" using Suc(6) a by simp
    then show ?thesis using F(1) True a by simp
  next
    case False
    have d: "sp_chars (u8_pos s') = sp_chars (u8_pos s) + length E" "utf8_text (utf8_bytes s') = T" "utf8_inv s'"
      "E = take (length E) (drop (sp_chars (u8_pos s)) T)" using F(2) Suc(5) by (auto simp: delivers_def)
    have "acc @ E = take (sp_chars (u8_pos s')) T" using Suc(6) d(4) unfolding d(1) take_add by simp
    moreover have "length T < n + length (acc @ E)" using Suc(7) False by (cases E) auto
    ultimately show ?thesis using Suc(1) [OF d(3) F(5,4) d(2)] F(1) a False by auto
  qed
qed

lemma forward_read_text:
  assumes "length (utf8_text (source_bytes src)) < n"
  shows "map_option fst (forward_read n (new_Utf8Stream src) []) = Some (utf8_text (source_bytes src))"
proof -
  have "settled (new_Utf8Stream src)" "frontier (new_Utf8Stream src)" "sp_chars (u8_pos (new_Utf8Stream src)) = 0"
    by (simp_all add: settled_def frontier_def new_Utf8Stream_def StreamPosition_start_def)
  with forward_read_from [OF utf8_inv_new(1), of src "utf8_text (source_bytes src)" "[]" n] utf8_inv_new(2) [of src] assms
  show ?thesis by auto
qed

text \<open>C33. Reading a UTF-8 stream forwards to its end terminates and delivers the text of its
  bytes, for arbitrary bytes (malformed ones are replaced) and wherever the chunks are
  cut: every call of \<^verbatim>\<open>FillBuffer\<close> returns, at most one call per character and one more is
  needed, and the concatenation of the buffers is the decoded text without a leading byte
  order mark.\<close>

theorem utf8_stream_delivers_text:
  "map_option fst (forward_read (Suc (length (utf8_text (source_bytes src))) + n) (new_Utf8Stream src) []) =
   Some (utf8_text (source_bytes src))"
  by (rule forward_read_text) simp

section \<open>Encoded text\<close>

lemma value_prefix:
  assumes "good_state st buf" and "bs \<noteq> []" and "CalculateValue_loop bs st buf n = (c, n + length bs)" and "c \<noteq> kBadChar"
  shows "utf8_prefix f bs st buf = (kAccept, 0, if f \<and> c = kUtf8Bom then [] else code_units c)"
  using assms
proof (induction bs arbitrary: st buf n)
  case (Cons b bs)
  obtain t moved s1 b1 where v: "ValueOfIncremental b st buf = (t, moved, s1, b1)" by (metis prod.collapse)
  have g: "good_state s1 b1" by (rule decode_step [OF Cons(2) v]) auto
  show ?case
  proof (cases "moved \<and> bs \<noteq> [] \<and> t = kIncomplete")
    case True
    then have "CalculateValue_loop bs s1 b1 (Suc n) = (c, Suc n + length bs)" using Cons(4) v by simp
    from Cons(1) [OF g _ this Cons(5)] True v show ?thesis by (simp add: utf8_prefix.simps(2) [of f b])
  next
    case False
    then have r: "moved" "bs = []" "s1 = kAccept" "t = c"
      using Cons(4,5) v by (auto split: if_splits)
    moreover have "t \<noteq> kIncomplete \<and> b1 = 0" by (rule decode_step [OF Cons(2) v]) (use r(3) in auto)
    ultimately show ?thesis using v by (simp add: utf8_prefix.simps)
  qed
qed simp

lemma length_Encode: "IsScalarValue c \<Longrightarrow> length (Utf8_Encode [] c None r) = Utf8_Length c None \<and> 0 < Utf8_Length c None"
  by (auto simp: Utf8_Encode_def Utf8_EncodeFourByte_def Utf8_Length_def IsScalarValue_nat IsLeadSurrogate_iff
      IsTrailSurrogate_iff word_le_nat_alt)

lemma prefix_Encode:
  assumes "IsScalarValue c"
  shows "utf8_prefix f (Utf8_Encode [] c None r) kAccept 0 = (kAccept, 0, if f \<and> c = kUtf8Bom then [] else code_units c)"
proof (cases "c = kBadChar")
  case True
  have "utf8_prefix f (Utf8_Encode [] kBadChar None r) kAccept 0 = (kAccept, 0, code_units kBadChar)"
    by (cases r; cases f; simp; code_simp)
  with True show ?thesis by simp
next
  case False
  let ?bs = "Utf8_Encode [] c None r"
  have V: "ValueOf ?bs = (c, length ?bs)" using ValueOf_Encode [OF assms, of r "[]"] length_Encode [OF assms] by simp
  have "?bs \<noteq> []" using length_Encode [OF assms, of r] by auto
  then obtain b bs where bs: "?bs = b # bs" by (cases ?bs) auto
  show ?thesis
  proof (cases "b \<le> 0x7F")
    case True
    then have "c = ucast b" "bs = []" using V bs by (auto simp: ValueOf_def)
    then show ?thesis using True bs byte_not_special [of b] by (simp add: utf8_prefix.simps ValueOfIncremental_def)
  next
    case big: False
    then have "CalculateValue_loop ?bs kAccept 0 0 = (c, 0 + length ?bs)" using V bs by (simp add: ValueOf_def CalculateValue_def)
    from value_prefix [OF good_accept(1) _ this False] bs show ?thesis by simp
  qed
qed

lemma prefix_append:
  assumes "good_state st buf" and "utf8_prefix f bs st buf = (kAccept, 0, U)" and "bs \<noteq> []"
  shows "utf8_prefix f (bs @ ys) st buf = add_units U (utf8_prefix False ys kAccept 0)"
  using assms
proof (induction f bs st buf arbitrary: U rule: utf8_prefix.induct)
  case (2 f b bs st buf)
  obtain t moved s1 b1 where v: "ValueOfIncremental b st buf = (t, moved, s1, b1)" by (metis prod.collapse)
  define r where "r = (if moved then bs else b # bs)"
  have r: "(if moved then bs @ ys else b # bs @ ys) = r @ ys" by (simp add: r_def)
  have g: "good_state s1 b1" by (rule decode_step [OF 2(3) v]) auto
  show ?case
  proof (cases "t = kIncomplete")
    case True
    then have p: "utf8_prefix f r s1 b1 = (kAccept, 0, U)" using 2(4) v by (simp add: utf8_prefix.simps(2) [of f b] r_def)
    have "s1 \<noteq> kAccept" by (rule decode_step [OF 2(3) v]) (use True in auto)
    with p have "r \<noteq> []" by (auto simp: utf8_prefix.simps)
    from 2(1) [OF v [symmetric] refl refl r_def True g p this] True v r show ?thesis
      by (simp add: utf8_prefix.simps(2) [of f b] Let_def)
  next
    case False
    define u where "u = (if f \<and> t = kUtf8Bom then [] else code_units t)"
    obtain U1 where p: "utf8_prefix False r s1 b1 = (kAccept, 0, U1)" "U = u @ U1"
      using 2(4) v False by (cases "utf8_prefix False r s1 b1") (simp add: utf8_prefix.simps(2) [of f b] r_def [symmetric] u_def)
    have "utf8_prefix False (r @ ys) s1 b1 = add_units U1 (utf8_prefix False ys kAccept 0)"
    proof (cases "r = []")
      case True
      with p show ?thesis by (simp add: utf8_prefix.simps(1))
    next
      case r: False
      show ?thesis by (rule 2(2) [OF v [symmetric] refl refl r_def False g p(1) r])
    qed
    with False v p(2) r show ?thesis by (simp add: utf8_prefix.simps(2) [of f b] Let_def u_def)
  qed
qed simp

definition Encode_all :: "uc32 list \<Rightarrow> byte list" where
  "Encode_all cs = concat (map (\<lambda>c. Utf8_Encode [] c None False) cs)"

lemma prefix_Encode_all:
  assumes "list_all IsScalarValue cs"
  shows "utf8_prefix False (Encode_all cs) kAccept 0 = (kAccept, 0, concat (map code_units cs))"
  using assms
proof (induction cs)
  case (Cons c cs)
  have c: "IsScalarValue c" using Cons(2) by simp
  have e: "Utf8_Encode [] c None False \<noteq> []" using length_Encode [OF c, of False] by auto
  from prefix_append [OF good_accept(1) prefix_Encode [OF c] e, of False "Encode_all cs"] Cons show ?case by (simp add: Encode_all_def)
qed (simp add: Encode_all_def utf8_prefix.simps)

lemma text_Encode_all:
  assumes "list_all IsScalarValue cs"
  shows "utf8_text (Encode_all cs) =
    concat (map code_units (if cs \<noteq> [] \<and> hd cs = kUtf8Bom then tl cs else cs))"
proof (cases cs)
  case Nil
  then show ?thesis by (simp add: Encode_all_def utf8_text_def utf8_decode_Nil)
next
  case (Cons c ds)
  then have c: "IsScalarValue c" "list_all IsScalarValue ds" using assms by simp_all
  have e: "Utf8_Encode [] c None False \<noteq> []" using length_Encode [of c False] c by auto
  have "Encode_all cs = Utf8_Encode [] c None False @ Encode_all ds" by (simp add: Encode_all_def Cons)
  with prefix_append [OF good_accept(1) prefix_Encode [OF c(1)] e, of True "Encode_all ds"] prefix_Encode_all [OF c(2)] Cons
  show ?thesis by (simp add: utf8_text_def utf8_decode_def)
qed

text \<open>C35. Round trip of encoded source text: characters encoded by \<^verbatim>\<open>Utf8::Encode\<close> and
  delivered in chunks cut anywhere, also inside a character, are read back by the stream as
  the same characters in UTF-16, a byte order mark in front apart.\<close>

theorem utf8_stream_roundtrip:
  assumes "list_all IsScalarValue cs" and "source_bytes src = Encode_all cs" and "2 * length cs < n"
  shows "map_option fst (forward_read n (new_Utf8Stream src) []) =
    Some (concat (map code_units (if cs \<noteq> [] \<and> hd cs = kUtf8Bom then tl cs else cs)))"
proof -
  have l: "length (concat (map code_units ds)) \<le> 2 * length ds" for ds
    by (induction ds) (auto simp: length_code_units value_chars_def)
  have t: "utf8_text (source_bytes src) = concat (map code_units (if cs \<noteq> [] \<and> hd cs = kUtf8Bom then tl cs else cs))"
    using assms(2) text_Encode_all [OF assms(1)] by simp
  have "length (utf8_text (source_bytes src)) \<le> 2 * length cs" unfolding t using l [of cs] l [of "tl cs"] by (cases cs) auto
  then show ?thesis using forward_read_text [of src n] assms(3) t by simp
qed

theorem utf8_stream_roundtrip_witness:
  "map_option fst (forward_read 9 (new_Utf8Stream [(0, [0xEF, 0xBB]), (5, [0xBF, 0x61, 0xC3]), (2, [0xA9, 0xF0, 0x9F, 0x98]), (0, [0x80])]) []) =
   Some [0x61, 0xE9, 0xD83D, 0xDE00]"
proof -
  let ?src = "[(0, [0xEF, 0xBB]), (5, [0xBF, 0x61, 0xC3]), (2, [0xA9, 0xF0, 0x9F, 0x98]), (0, [0x80])] :: (nat \<times> byte list) list"
  let ?cs = "[0xFEFF, 0x61, 0xE9, 0x1F600] :: uc32 list"
  have e: "source_bytes ?src = Encode_all ?cs" by code_simp
  have s: "list_all IsScalarValue ?cs" by code_simp
  have u: "concat (map code_units (if ?cs \<noteq> [] \<and> hd ?cs = kUtf8Bom then tl ?cs else ?cs)) = [0x61, 0xE9, 0xD83D, 0xDE00]"
    by code_simp
  have n: "2 * length ?cs < 9" by simp
  show ?thesis using utf8_stream_roundtrip [OF s e n] unfolding u .
qed

end
