(* ===== verification/Utf8_Seeking.thy ===== *)
theory Utf8_Seeking
  imports Utf8_Reading
begin

text \<open>
  Seeking in \<^verbatim>\<open>Utf8ExternalStreamingStream\<close>. On valid UTF-8 every position between two
  characters is found, from any state, by the chunk table, by the shortcut for chunks of
  ASCII characters or by fetching; on malformed data the shortcuts are not sound, and
  concrete inputs show what is lost.
\<close>

section \<open>Chunks of ASCII characters\<close>

text \<open>
  How many more units than bytes the sequence being read may still give, plus one: the
  last byte of a sequence of four gives two units.
\<close>

definition credit :: "Utf8State \<Rightarrow> uc32 \<Rightarrow> nat" where
  "credit st buf = (if pending st buf = 3 then 2 else if pending st buf = 2 \<or> st = kTwoByte \<or> st = kAccept then 1 else 0)"

lemma credit_accept [simp]: "credit kAccept buf = 1"
  by (simp add: credit_def)

lemma credit_step:
  assumes "good_state st buf" and "ValueOfIncremental b st buf = (t, moved, st', buf')" and "valid_from (b # bs) st"
  shows "t = kIncomplete \<Longrightarrow> credit st' buf' \<le> Suc (credit st buf)" (is "?i \<Longrightarrow> ?I")
    and "t = kIncomplete \<Longrightarrow> st = kAccept \<Longrightarrow> credit st' buf' \<le> 1" (is "?i \<Longrightarrow> ?a \<Longrightarrow> ?J")
    and "t \<noteq> kIncomplete \<Longrightarrow> st' = kAccept \<and> buf' = 0 \<and> value_chars t \<le> credit st buf" (is "?n \<Longrightarrow> ?N")
proof -
  have m: "moved" by (rule valid_step(1) [OF assms(2,3)])
  show ?I if ?i
    by (rule decode_step [OF assms(1,2)]) (use that in \<open>auto simp: credit_def\<close>)
  show ?J if ?i ?a
    by (rule decode_step [OF assms(1,2)]) (use that in \<open>auto simp: credit_def\<close>)
  show ?N if ?n
  proof (rule decode_step [OF assms(1,2)])
    assume a: "st = kAccept \<longrightarrow> t \<le> 0x7F \<or> t = kBadChar" "st \<noteq> kAccept \<longrightarrow> st = kTwoByte \<and> unat t div 64 = unat buf"
      and s: "st' = kAccept" "buf' = 0"
    have "unat t div 64 < 0x400 \<longleftrightarrow> t \<le> kMaxNonSurrogateCharCode" by (auto simp: word_le_nat_alt div_less_iff_less_mult)
    moreover have "t \<le> 0x7F \<Longrightarrow> t \<le> kMaxNonSurrogateCharCode" by (simp add: word_le_nat_alt)
    ultimately have "value_chars t \<le> credit st buf"
      using a by (cases "st = kAccept") (auto simp: value_chars_def credit_def pending_def not_less)
    with s show ?N by simp
  qed (use m that in auto)
qed

lemma run_bound:
  assumes "good_state st buf" and "utf8_prefix f bs st buf = (st', buf', E)" and "valid_from (bs @ ys) st" and "bs \<noteq> []"
  shows "Suc (length E) \<le> length bs + credit st buf"
  using assms
proof (induction f bs st buf arbitrary: E rule: utf8_prefix.induct)
  case (2 f b bs st buf)
  obtain t moved s1 b1 where v: "ValueOfIncremental b st buf = (t, moved, s1, b1)" by (metis prod.collapse)
  have valid: "valid_from (b # bs @ ys) st" using 2(5) by simp
  note C = credit_step [OF 2(3) v valid] and V = valid_step [OF v valid]
  have g: "good_state s1 b1" by (rule decode_step [OF 2(3) v]) auto
  have r: "bs = (if moved then bs else b # bs)" using V(1) by simp
  show ?case
  proof (cases "t = kIncomplete")
    case True
    then have p: "utf8_prefix f bs s1 b1 = (st', buf', E)" using 2(4) v V(1) by (simp add: utf8_prefix.simps(2) [of f b])
    show ?thesis
    proof (cases "bs = []")
      case True
      with p show ?thesis by (simp add: utf8_prefix.simps(1))
    next
      case False
      from 2(1) [OF v [symmetric] refl refl r True g p V(2) False] C(1) [OF True] show ?thesis by simp
    qed
  next
    case False
    define u where "u = (if f \<and> t = kUtf8Bom then [] else code_units t)"
    obtain E1 where p: "utf8_prefix False bs s1 b1 = (st', buf', E1)" "E = u @ E1"
      using 2(4) v V(1) False by (cases "utf8_prefix False bs s1 b1") (simp add: utf8_prefix.simps(2) [of f b] u_def)
    have u: "length u \<le> value_chars t" by (simp add: u_def length_code_units)
    have "length E1 \<le> length bs"
    proof (cases "bs = []")
      case True
      with p show ?thesis by (simp add: utf8_prefix.simps(1))
    next
      case bs: False
      from 2(2) [OF v [symmetric] refl refl r False g p(1) V(2) bs] C(3) [OF False] show ?thesis by simp
    qed
    with u p(2) C(3) [OF False] show ?thesis by simp
  qed
qed simp

text \<open>As many units as bytes: only ASCII characters.\<close>

lemma run_ascii:
  assumes "utf8_prefix f bs kAccept 0 = (st', buf', E)" and "valid_from (bs @ ys) kAccept" and "length E = length bs"
  shows "list_all (\<lambda>c. c \<le> kMaxOneByteChar) bs"
  using assms
proof (induction bs arbitrary: f E)
  case (Cons b bs)
  obtain t moved s1 b1 where v: "ValueOfIncremental b kAccept 0 = (t, moved, s1, b1)" by (metis prod.collapse)
  have valid: "valid_from (b # bs @ ys) kAccept" using Cons(3) by simp
  note C = credit_step [OF good_accept(1) v valid] and V = valid_step [OF v valid]
  show ?case
  proof (cases "b \<le> 0x7F")
    case True
    then have e: "t = ucast b" "s1 = kAccept" "b1 = 0" "moved" using v by (simp_all add: ValueOfIncremental_def)
    note n = byte_not_special [of b]
    have "(ucast b :: uc32) \<le> 0xFFFF" using unat_byte_less [of b] by (simp add: word_le_nat_alt unat_widen)
    then have u: "length (code_units (ucast b)) = 1" by (simp add: length_code_units value_chars_def not_less)
    obtain E1 where "utf8_prefix False bs kAccept 0 = (st', buf', E1)" "E = code_units (ucast b) @ E1"
      using Cons(2) v e n by (cases "utf8_prefix False bs kAccept 0") (simp add: utf8_prefix.simps(2) [of f b])
    with Cons(1) [of False E1] Cons(4) V(2) e u True show ?thesis by simp
  next
    case False
    then have "0x80 \<le> unat b" by (simp add: word_le_nat_alt)
    then have "fst (Utf8_Decode b kAccept 0) \<noteq> kAccept" using decode_lead(1) [of b] by (auto simp: utf8_lead_def split: if_splits)
    moreover have "fst (Utf8_Decode b kAccept 0) \<noteq> kReject" using valid valid_Cons [of b "bs @ ys" kAccept 0] by auto
    ultimately have t: "t = kIncomplete" using False v by (auto simp: ValueOfIncremental_def split: prod.splits if_splits)
    then have p: "utf8_prefix f bs s1 b1 = (st', buf', E)" using Cons(2) v V(1) by (simp add: utf8_prefix.simps(2) [of f b])
    have g: "good_state s1 b1" by (rule decode_step [OF good_accept(1) v]) auto
    have "length E \<le> length bs"
      using run_bound [OF g p V(2)] C(2) [OF t] p by (cases "bs = []") (auto simp: utf8_prefix.simps(1))
    with Cons(4) show ?thesis by simp
  qed
qed simp

lemma ascii_chunk:
  assumes "good_state st 0" and "utf8_prefix f bs st 0 = (st', buf', E)" and "valid_from (bs @ ys) st"
    and "length E = length bs" and "bs \<noteq> []"
  shows "st = kAccept" and "list_all (\<lambda>c. c \<le> kMaxOneByteChar) bs"
proof -
  show st: "st = kAccept"
  proof (rule ccontr)
    assume "st \<noteq> kAccept"
    then have "credit st 0 = 0" using assms(1) by (cases st) (auto simp: credit_def pending_def good_state_def utf8_partial_def)
    with run_bound [OF assms(1,2,3,5)] assms(4) show False by simp
  qed
  from run_ascii [of f bs st' buf' E ys] assms st show "list_all (\<lambda>c. c \<le> kMaxOneByteChar) bs" by simp
qed

section \<open>SkipToPosition\<close>

text \<open>A position in the middle of a surrogate pair.\<close>

definition mid_pair :: "uc16 list \<Rightarrow> nat \<Rightarrow> bool" where
  "mid_pair T p \<longleftrightarrow> p < length T \<and> IsTrailSurrogate (ucast (T ! p))"

abbreviation stream_text :: "Utf8Stream \<Rightarrow> uc16 list" where
  "stream_text s \<equiv> utf8_text (utf8_bytes s)"

lemma last_of_part:
  assumes "E = take (length E) (drop c T)" and "E \<noteq> []" and "c + length E = Suc p"
  shows "p < length T" and "last E = T ! p"
proof -
  have "length E \<le> length T - c" using arg_cong [OF assms(1), of length] by simp
  then show p: "p < length T" using assms(2,3) by (cases E) auto
  have "last E = take (length E) (drop c T) ! (length E - 1)" using assms(1,2) by (metis last_conv_nth)
  also have "\<dots> = T ! p" using assms(2,3) p by (cases E) auto
  finally show "last E = T ! p" .
qed

lemma start_current:
  assumes "\<forall>k < length (u8_chunks s). chunk_inv s k" and "u8_chunk_no s < length (u8_chunks s)"
    and "u8_pos s = u8_start (GetChunk s (u8_chunk_no s))"
  shows "current_inv s"
proof -
  have "chunk_inv s (u8_chunk_no s)" using assms by blast
  then show ?thesis using assms(2,3) run_to_start [of "GetChunk s (u8_chunk_no s)"]
    by (auto simp: current_inv_def chunk_inv_def Let_def)
qed

lemma seek_skip:
  assumes "\<forall>k < length (u8_chunks s). chunk_inv s k" and "u8_chunk_no s < length (u8_chunks s)"
    and "u8_data (GetChunk s (u8_chunk_no s)) \<noteq> []" and "u8_pos s = u8_start (GetChunk s (u8_chunk_no s))"
    and "sp_chars (u8_pos s) \<le> target" and "\<not> mid_pair (stream_text s) target" and "SkipToPosition target s = (found, s')"
  shows "current_inv s'" and "u8_chunks s' = u8_chunks s \<and> u8_source s' = u8_source s" and "found \<longleftrightarrow> sp_chars (u8_pos s') = target"
    and "\<not> found \<Longrightarrow> u8_chunk_no s' = Suc (u8_chunk_no s) \<and> sp_chars (u8_pos s') < target \<and>
      run_to (GetChunk s (u8_chunk_no s)) (u8_pos s') []"
proof -
  let ?c = "GetChunk s (u8_chunk_no s)" and ?P = "u8_pos s"
  let ?d = "u8_data ?c"
  show C: "u8_chunks s' = u8_chunks s \<and> u8_source s' = u8_source s" using SkipToPosition_source [OF assms(7)] by simp
  show f: "found \<longleftrightarrow> sp_chars (u8_pos s') = target" using assms(7) by (auto simp: SkipToPosition_def Let_def split: if_splits prod.splits)
  show "current_inv s'" and "\<not> found \<Longrightarrow> u8_chunk_no s' = Suc (u8_chunk_no s) \<and> sp_chars (u8_pos s') < target \<and>
      run_to ?c (u8_pos s') []"
  proof (atomize (full), cases "sp_chars ?P = target")
    case True
    then have "found" "s' = s" using assms(7) by (auto simp: SkipToPosition_def Let_def)
    with start_current [OF assms(1,2,4)] show "current_inv s' \<and> (\<not> found \<longrightarrow> u8_chunk_no s' = Suc (u8_chunk_no s) \<and>
        sp_chars (u8_pos s') < target \<and> run_to ?c (u8_pos s') [])" by simp
  next
    case False
    obtain r1 st1 buf1 chars1 where A: "(if at_start ?P then skip_bom ?d (sp_state ?P) (sp_incomplete_char ?P) (sp_chars ?P)
        else (?d, sp_state ?P, sp_incomplete_char ?P, sp_chars ?P)) = (r1, st1, buf1, chars1)" by (metis prod.collapse)
    obtain rest st2 buf2 chars2 where F: "skip_chars r1 st1 buf1 chars1 target = (rest, st2, buf2, chars2)"
      by (metis prod.collapse)
    have r: "s' = s \<lparr> u8_pos := \<lparr> sp_bytes = sp_bytes (u8_start ?c) + (length ?d - length rest), sp_chars = chars2,
        sp_incomplete_char = buf2, sp_state = st2 \<rparr>, u8_chunk_no := u8_chunk_no s + (if rest = [] then 1 else 0) \<rparr>"
      using assms(7) False A F unfolding SkipToPosition_def Let_def at_start_def [symmetric] assms(4) diff_self_eq_0 drop_0
      by (auto split del: if_split)
    have inv: "right_position (utf8_bytes s) ?P" "chunk_inv s (u8_chunk_no s)" using assms(1,2,4) by (auto simp: chunk_inv_def)
    then have g: "good_state (sp_state ?P) (sp_incomplete_char ?P)" by (simp add: right_position_def)
    from skip_run [OF g _ A F] False assms(5) obtain E where E: "position_run ?P ?d E rest st2 buf2"
      "chars2 = sp_chars ?P + length E" "rest = [] \<or> target \<le> chars2"
      "chars2 \<le> target \<or> chars2 = Suc target \<and> E \<noteq> [] \<and> IsTrailSurrogate (ucast (last E))" by auto
    have run: "run_to ?c ?P (drop (sp_bytes ?P - sp_bytes (u8_start ?c)) ?d)" using run_to_start [of ?c] assms(4) by simp
    have b: "sp_bytes (u8_start ?c) \<le> sp_bytes ?P" "sp_bytes ?P < sp_bytes (u8_start ?c) + length ?d" using assms(3,4) by simp_all
    have E': "position_run ?P (drop (sp_bytes ?P - sp_bytes (u8_start ?c)) ?d) E rest st2 buf2" using E(1) assms(4) by simp
    note adv = current_advance [OF assms(1-3) inv(1) b E' r [unfolded E(2)] run]
    have "chars2 \<le> target"
    proof (rule ccontr)
      assume "\<not> chars2 \<le> target"
      then have "chars2 = Suc target" "E \<noteq> []" "IsTrailSurrogate (ucast (last E))" using E(4) by auto
      with last_of_part [OF adv(2), of target] E(2) assms(6) show False by (simp add: mid_pair_def)
    qed
    moreover have "run_to ?c (u8_pos s') rest"
      using run_to_step [OF run _ _ E'] inv b E(2) r assms(3,4) by (simp add: chunk_inv_def right_position_def)
    ultimately show "current_inv s' \<and> (\<not> found \<longrightarrow> u8_chunk_no s' = Suc (u8_chunk_no s) \<and>
        sp_chars (u8_pos s') < target \<and> run_to ?c (u8_pos s') [])" using adv(1) f r E(3) by auto
  qed
qed

section \<open>SearchPosition\<close>

lemma last_chunk_before_spec:
  "last_chunk_before s target m \<le> m \<and>
   (last_chunk_before s target m \<noteq> 0 \<longrightarrow> sp_chars (u8_start (GetChunk s (last_chunk_before s target m))) \<le> target) \<and>
   (\<forall>j. last_chunk_before s target m < j \<and> j \<le> m \<longrightarrow> target < sp_chars (u8_start (GetChunk s j)))"
  by (induction m) (auto simp: not_less le_Suc_eq)

text \<open>What a search promises: the position is found, or it is behind the end of the text.\<close>

definition searched :: "Utf8Stream \<Rightarrow> nat \<Rightarrow> Utf8Stream \<Rightarrow> bool" where
  "searched s target s' \<longleftrightarrow> utf8_inv s' \<and> utf8_bytes s' = utf8_bytes s \<and> (utf8_ended s \<longrightarrow> u8_chunks s' = u8_chunks s) \<and>
     (sp_chars (u8_pos s') = target \<or>
      length (stream_text s) < target \<and> u8_chunk_no s' < length (u8_chunks s') \<and> u8_data (GetChunk s' (u8_chunk_no s')) = [])"

text \<open>The terminating chunk of valid data.\<close>

lemma terminal_valid:
  assumes "utf8_inv s" and "ValidateEncoding (utf8_bytes s)" and "u8_chunk_no s < length (u8_chunks s)"
    and "u8_data (GetChunk s (u8_chunk_no s)) = []"
  shows "sp_state (u8_pos s) = kAccept" "sp_incomplete_char (u8_pos s) = 0" "length (stream_text s) = sp_chars (u8_pos s)"
proof -
  have R: "right_position (utf8_bytes s) (u8_pos s)" using assms(1) by (simp add: utf8_inv_def current_inv_def)
  note T = terminal_left [OF assms(1,3,4)]
  show st: "sp_state (u8_pos s) = kAccept" using R T(4) assms(2) by (simp add: right_position_def)
  then show "sp_incomplete_char (u8_pos s) = 0" using R by (simp add: right_position_def)
  show "length (stream_text s) = sp_chars (u8_pos s)" using T(1) st R by (simp add: right_position_def)
qed

lemma SearchPosition_fetch_spec:
  assumes "utf8_inv s" and "ValidateEncoding (utf8_bytes s)" and "\<not> mid_pair (stream_text s) target"
    and "found \<longleftrightarrow> sp_chars (u8_pos s) = target"
    and "\<not> found \<longrightarrow> u8_chunk_no s = length (u8_chunks s) \<and> sp_chars (u8_pos s) < target"
  shows "searched s target (SearchPosition_fetch target True found s)"
  using assms
proof (induction "length (u8_source s)" arbitrary: s found rule: less_induct)
  case less
  show ?case
  proof (cases found)
    case True
    then have "SearchPosition_fetch target True found s = s" by (subst SearchPosition_fetch.simps) simp
    then show ?thesis using less(2,5) True by (simp add: searched_def)
  next
    case False
    then have k: "u8_chunk_no s = length (u8_chunks s)" "sp_chars (u8_pos s) < target" using less(6) by auto
    obtain m s1 where f: "utf8_FetchChunk s = (m, s1)" by fastforce
    note F = FetchChunk_inv [OF less(2) k(1) f]
    have open_end: "\<not> utf8_ended s" using less(2) k(1) by (simp add: utf8_inv_def current_inv_def)
    have c1: "u8_chunk_no s1 < length (u8_chunks s1)" "length (u8_chunks s1) = Suc (u8_chunk_no s1)" using F(3) by simp_all
    show ?thesis
    proof (cases m)
      case True
      obtain f2 s2 where q: "SkipToPosition target s1 = (f2, s2)" by fastforce
      have inv1: "\<forall>k < length (u8_chunks s1). chunk_inv s1 k" using F(1) by (simp add: utf8_inv_def)
      have pos1: "u8_pos s1 = u8_start (GetChunk s1 (u8_chunk_no s1))"
        using f k(1) by (auto simp: utf8_FetchChunk_def nth_append split: prod.splits)
      have d1: "u8_data (GetChunk s1 (u8_chunk_no s1)) \<noteq> []" using F(3,4) True by simp
      have le: "sp_chars (u8_pos s1) \<le> target" "\<not> mid_pair (stream_text s1) target" using F(2,3) k(2) less(4) by simp_all
      note S = seek_skip [OF inv1 c1(1) d1 pos1 le q]
      have B: "utf8_bytes s2 = utf8_bytes s" "\<not> utf8_ended s2" using same_bytes [of s2 s1] S(2) F(2,5) True by simp_all
      have "utf8_inv s2" using S(1,2) inv1 B same_bytes [of s2 s1] by (simp add: utf8_inv_def)
      moreover have "length (u8_source s2) < length (u8_source s)" using F(6) True S(2) by simp
      moreover have "\<not> f2 \<longrightarrow> u8_chunk_no s2 = length (u8_chunks s2) \<and> sp_chars (u8_pos s2) < target" using S(2,4) c1 by simp
      ultimately have "searched s2 target (SearchPosition_fetch target True f2 s2)" using less(1,3,4) B S(3) by simp
      moreover have "SearchPosition_fetch target True found s = SearchPosition_fetch target True f2 s2"
        by (subst SearchPosition_fetch.simps) (simp add: False f q True)
      ultimately show ?thesis using B open_end by (simp add: searched_def)
    next
      case ended: False
      have "SearchPosition_fetch target False False s1 = s1" by (subst SearchPosition_fetch.simps) simp
      then have "SearchPosition_fetch target True found s = s1"
        by (subst SearchPosition_fetch.simps) (simp add: False f ended)
      moreover have d1: "u8_data (GetChunk s1 (u8_chunk_no s1)) = []" using F(3,4) ended by simp
      moreover have "length (stream_text s1) < target" using terminal_valid(3) [OF F(1) _ c1(1) d1] F(2,3) less(3) k(2) by simp
      ultimately show ?thesis using F(1,2) c1 open_end by (simp add: searched_def)
    qed
  qed
qed

text \<open>The position the shortcut computes.\<close>

lemma ascii_position_run:
  assumes "list_all (\<lambda>c. c \<le> kMaxOneByteChar) d" and "sp_state P = kAccept" and "sp_incomplete_char P = 0"
    and "0 < n" and "n \<le> length d"
  shows "position_run P d (map ucast (take n d)) (drop n d) kAccept 0"
proof -
  have "list_all (\<lambda>c. c \<le> kMaxOneByteChar) (take n d)" using assms(1) by (auto simp: list_all_iff dest: in_set_takeD)
  from ascii_decodes [OF this, of "drop n d"]
  have D: "decodes False d kAccept 0 (map ucast (take n d)) False (drop n d) kAccept 0" by simp
  obtain c cs where d: "d = c # cs" using assms(4,5) by (cases d) auto
  have "utf8_prefix True (c # ys) kAccept 0 = utf8_prefix False (c # ys) kAccept 0" for ys
    using assms(1) d byte_not_special [of c] by (simp add: utf8_prefix.simps(2) [of _ c] ValueOfIncremental_def)
  with D have "decodes True d kAccept 0 (map ucast (take n d)) False (drop n d) kAccept 0" by (simp add: decodes_def d)
  with D assms show ?thesis unfolding position_run_def by (cases "at_start P") (auto intro!: exI [of _ False])
qed

lemma search_ascii:
  assumes "\<forall>k < length (u8_chunks s). chunk_inv s k" and "ValidateEncoding (utf8_bytes s)" and "Suc k < length (u8_chunks s)"
    and "u8_data (GetChunk s k) \<noteq> []" and "P = u8_start (GetChunk s k)" and "Q = u8_start (GetChunk s (Suc k))"
    and "sp_incomplete_char P = 0" and "sp_bytes Q - sp_bytes P = sp_chars Q - sp_chars P"
    and "sp_chars P + n < sp_chars Q"
    and "s' = s \<lparr> u8_chunk_no := k, u8_pos := \<lparr> sp_bytes = sp_bytes P + n, sp_chars = sp_chars P + n,
      sp_incomplete_char = 0, sp_state = kAccept \<rparr> \<rparr>"
  shows "current_inv s'"
proof -
  let ?c = "GetChunk s k"
  have k: "k < length (u8_chunks s)" "chunk_inv s k" using assms(1,3) by simp_all
  then have R: "right_position (utf8_bytes s) P" "run_to ?c Q []" using assms(3,5,6) by (simp_all add: chunk_inv_def)
  from run_to_prefix [OF R(2) assms(4)] obtain E where E:
    "utf8_prefix (at_start P) (u8_data ?c) (sp_state P) 0 = (sp_state Q, sp_incomplete_char Q, E)"
    "sp_chars Q = sp_chars P + length E" "sp_bytes Q = sp_bytes P + length (u8_data ?c)" using assms(5,7) by auto
  then have len: "length E = length (u8_data ?c)" "n < length (u8_data ?c)" using assms(8,9) by simp_all
  obtain ys where "drop (sp_bytes P) (utf8_bytes s) = u8_data ?c @ ys" using chunk_bytes [OF k(2,1), of 0] assms(5) by auto
  then have V: "valid_from (u8_data ?c @ ys) (sp_state P)" "good_state (sp_state P) 0"
    using R(1) assms(2,7) by (simp_all add: right_position_def)
  note A = ascii_chunk [OF V(2) E(1) V(1) len(1) assms(4)]
  show ?thesis
  proof (cases "n = 0")
    case True
    then have "u8_pos s' = P" using A(1) assms(7,10) by simp
    then show ?thesis using start_current [of s'] same_bytes [of s' s] assms(1,5,10) k(1) by simp
  next
    case False
    have run: "run_to ?c P (drop (sp_bytes P - sp_bytes (u8_start ?c)) (u8_data ?c))" using run_to_start assms(5) by simp
    have "position_run P (drop (sp_bytes P - sp_bytes (u8_start ?c)) (u8_data ?c)) (map ucast (take n (u8_data ?c)))
        (drop n (u8_data ?c)) kAccept 0"
      using ascii_position_run [OF A(2,1) assms(7)] False len(2) assms(5) by simp
    from current_advance(1) [OF assms(1) k(1) assms(4) R(1) _ _ this _ run, of s'] len(2) assms(4,5,10)
    show ?thesis by (simp add: fun_eq_iff)
  qed
qed

lemma search_chunk:
  assumes "utf8_inv s" and "ValidateEncoding (utf8_bytes s)" and "\<not> mid_pair (stream_text s) target"
    and "k < length (u8_chunks s)" and "u8_data (GetChunk s k) \<noteq> []" and "sp_chars (u8_start (GetChunk s k)) \<le> target"
    and "SkipToPosition target (s \<lparr> u8_chunk_no := k, u8_pos := u8_start (GetChunk s k) \<rparr>) = (found, s')"
  shows "Suc k < length (u8_chunks s) \<Longrightarrow> target < sp_chars (u8_start (GetChunk s (Suc k))) \<Longrightarrow> searched s target s'"
    and "Suc k = length (u8_chunks s) \<Longrightarrow> searched s target (SearchPosition_fetch target True found s')"
proof -
  define s1 where "s1 = s \<lparr> u8_chunk_no := k, u8_pos := u8_start (GetChunk s k) \<rparr>"
  have inv: "\<forall>k < length (u8_chunks s1). chunk_inv s1 k" "u8_chunk_no s1 < length (u8_chunks s1)"
    "u8_data (GetChunk s1 (u8_chunk_no s1)) \<noteq> []" "u8_pos s1 = u8_start (GetChunk s1 (u8_chunk_no s1))"
    "sp_chars (u8_pos s1) \<le> target" "\<not> mid_pair (stream_text s1) target" "SkipToPosition target s1 = (found, s')"
    using assms same_bytes [of s1 s] by (simp_all add: s1_def utf8_inv_def)
  note S = seek_skip [OF inv]
  have C: "u8_chunks s' = u8_chunks s" "u8_source s' = u8_source s" "u8_chunk_no s1 = k" "u8_chunks s1 = u8_chunks s"
    using S(2) by (simp_all add: s1_def)
  note B = same_bytes [OF C(1,2)]
  have I: "utf8_inv s'" if "utf8_ended s \<longrightarrow> stream_text s \<noteq> []"
    using S(1) assms(1) B C that by (auto simp: utf8_inv_def)
  show "searched s target s'" if next_chunk: "Suc k < length (u8_chunks s)" "target < sp_chars (u8_start (GetChunk s (Suc k)))"
  proof -
    have R: "chunk_inv s k" "chunk_inv s (Suc k)" using assms(1) next_chunk(1) by (simp_all add: utf8_inv_def)
    have "found"
    proof (rule ccontr)
      assume "\<not> found"
      then have "u8_pos s' = u8_start (GetChunk s (Suc k))"
        using S(4) R(1) next_chunk(1) run_to_end [OF _ _ assms(5)] C by (simp add: chunk_inv_def)
      with S(4) \<open>\<not> found\<close> next_chunk(2) show False by simp
    qed
    moreover have "stream_text s \<noteq> []" using R(2) next_chunk(2) by (auto simp: chunk_inv_def right_position_def)
    ultimately show ?thesis using I S(3) B C by (simp add: searched_def)
  qed
  show "searched s target (SearchPosition_fetch target True found s')" if last_chunk: "Suc k = length (u8_chunks s)"
  proof -
    have open_end: "\<not> utf8_ended s" using assms(5) last_nth [OF last_chunk] by (simp add: utf8_ended_def)
    then have "utf8_inv s'" using I by blast
    from SearchPosition_fetch_spec [OF this, of target found] B C S(3,4) assms(2,3) last_chunk open_end
    show ?thesis by (simp add: searched_def)
  qed
qed

lemma SearchPosition_spec:
  assumes "utf8_inv s" and "ValidateEncoding (utf8_bytes s)" and "\<not> mid_pair (stream_text s) target"
  shows "searched s target (SearchPosition target s)"
proof (cases "sp_chars (u8_pos s) = target")
  case True
  then show ?thesis using assms(1) by (simp add: SearchPosition_def searched_def)
next
  case False
  define s0 where "s0 = (if u8_chunks s = [] then snd (utf8_FetchChunk s) else s)"
  have s0: "utf8_inv s0" "utf8_bytes s0 = utf8_bytes s" "u8_chunks s0 \<noteq> []" "utf8_ended s \<longrightarrow> u8_chunks s0 = u8_chunks s"
  proof -
    have "u8_chunk_no s = length (u8_chunks s)" if "u8_chunks s = []"
      using assms(1) that by (simp add: utf8_inv_def current_inv_def)
    with FetchChunk_inv [OF assms(1), of "fst (utf8_FetchChunk s)" "snd (utf8_FetchChunk s)"] assms(1)
    show "utf8_inv s0" "utf8_bytes s0 = utf8_bytes s" "u8_chunks s0 \<noteq> []" "utf8_ended s \<longrightarrow> u8_chunks s0 = u8_chunks s"
      by (auto simp: s0_def utf8_ended_def)
  qed
  define k where "k = last_chunk_before s0 target (length (u8_chunks s0) - 1)"
  note L = last_chunk_before_spec [of s0 target "length (u8_chunks s0) - 1", folded k_def]
  have k: "k < length (u8_chunks s0)" "\<And>j. k < j \<Longrightarrow> j < length (u8_chunks s0) \<Longrightarrow> target < sp_chars (u8_start (GetChunk s0 j))"
    using L s0(3) by (cases "u8_chunks s0"; simp)+
  have inv: "\<forall>k < length (u8_chunks s0). chunk_inv s0 k" using s0(1) by (simp add: utf8_inv_def)
  have c: "sp_chars (u8_start (GetChunk s0 k)) \<le> target"
    using L inv k(1) by (cases "k = 0") (auto simp: chunk_inv_def StreamPosition_start_def)
  let ?P = "u8_start (GetChunk s0 k)" and ?Q = "u8_start (GetChunk s0 (Suc k))"
  define s1 where "s1 = s0 \<lparr> u8_chunk_no := k, u8_pos := ?P \<rparr>"
  note B1 = same_bytes [of s1 s0]
  obtain found s2 where q: "SkipToPosition target s1 = (found, s2)" by fastforce
  have V: "ValidateEncoding (utf8_bytes s0)" "\<not> mid_pair (stream_text s0) target" using assms(2,3) s0(2) by simp_all
  have up: "searched s target r" if "searched s0 target r" for r
    using that s0(2,4) by (simp add: searched_def utf8_ended_def)
  have def: "SearchPosition target s =
      (if u8_data (GetChunk s0 k) = [] then s1
       else if k + 1 < length (u8_chunks s0)
       then if sp_incomplete_char ?P = 0 \<and> sp_bytes ?Q - sp_bytes ?P = sp_chars ?Q - sp_chars ?P
            then s0 \<lparr> u8_chunk_no := k, u8_pos := \<lparr> sp_bytes = sp_bytes ?P + (target - sp_chars ?P),
                sp_chars = sp_chars ?P + (target - sp_chars ?P), sp_incomplete_char = 0, sp_state = kAccept \<rparr> \<rparr>
            else s2
       else SearchPosition_fetch target True found s2)"
    unfolding SearchPosition_def Let_def s0_def [symmetric] k_def [symmetric] s1_def [symmetric] q using False by simp
  consider (terminal) "u8_data (GetChunk s0 k) = []"
    | (shortcut) "u8_data (GetChunk s0 k) \<noteq> []" "Suc k < length (u8_chunks s0)"
        "sp_incomplete_char ?P = 0" "sp_bytes ?Q - sp_bytes ?P = sp_chars ?Q - sp_chars ?P"
    | (skip) "u8_data (GetChunk s0 k) \<noteq> []" "Suc k < length (u8_chunks s0)" "SearchPosition target s = s2"
    | (fetch) "u8_data (GetChunk s0 k) \<noteq> []" "Suc k = length (u8_chunks s0)"
    using def k(1) by force
  then show ?thesis
  proof cases
    case terminal
    have s1: "utf8_inv s1"
      using start_current [of s1] inv B1 k(1) terminal by (auto simp: utf8_inv_def s1_def chunk_inv_def)
    have "length (stream_text s1) = sp_chars ?P"
      using terminal_valid(3) [OF s1] B1 V(1) k(1) terminal by (simp add: s1_def)
    then have "searched s0 target s1" using s1 B1 k(1) c terminal by (auto simp: searched_def s1_def)
    then show ?thesis using def terminal up by simp
  next
    case shortcut
    define s3 where "s3 = s0 \<lparr> u8_chunk_no := k, u8_pos := \<lparr> sp_bytes = sp_bytes ?P + (target - sp_chars ?P),
      sp_chars = sp_chars ?P + (target - sp_chars ?P), sp_incomplete_char = 0, sp_state = kAccept \<rparr> \<rparr>"
    have t: "target < sp_chars ?Q" using k(2) shortcut(2) by simp
    have "current_inv s3"
      using search_ascii [OF inv V(1) shortcut(2,1) refl refl shortcut(3,4) _ s3_def] t c by simp
    moreover have "chunk_inv s0 (Suc k)" using inv shortcut(2) by simp
    then have "stream_text s0 \<noteq> []" using t by (auto simp: chunk_inv_def right_position_def)
    ultimately have "searched s0 target s3" using inv same_bytes [of s3 s0] c by (simp add: searched_def utf8_inv_def s3_def)
    moreover have "SearchPosition target s = s3" unfolding def s3_def using shortcut by simp
    ultimately show ?thesis using up by simp
  next
    case skip
    from search_chunk(1) [OF s0(1) V k(1) skip(1) c q [unfolded s1_def] skip(2)] k(2) [of "Suc k"] skip up show ?thesis by simp
  next
    case fetch
    from search_chunk(2) [OF s0(1) V k(1) fetch(1) c q [unfolded s1_def] fetch(2)] up fetch show ?thesis by (simp add: def)
  qed
qed

section \<open>Reading anywhere\<close>

lemma FillBuffer_anywhere:
  assumes "utf8_inv s" and "ValidateEncoding (utf8_bytes s)" and "\<not> mid_pair (stream_text s) target"
  shows "\<exists>E s'. utf8_FillBuffer target s = Some (E, s') \<and> utf8_inv s' \<and> utf8_bytes s' = utf8_bytes s \<and>
    (utf8_ended s \<longrightarrow> u8_chunks s' = u8_chunks s) \<and>
    E = take (length E) (drop target (stream_text s)) \<and> (E = [] \<longrightarrow> length (stream_text s) \<le> target)"
proof -
  define s1 where "s1 = SearchPosition target s"
  have S: "utf8_inv s1" "utf8_bytes s1 = utf8_bytes s" "utf8_ended s \<longrightarrow> u8_chunks s1 = u8_chunks s" "sp_chars (u8_pos s1) = target \<or> length (stream_text s) < target \<and>
      u8_chunk_no s1 < length (u8_chunks s1) \<and> u8_data (GetChunk s1 (u8_chunk_no s1)) = []"
    using SearchPosition_spec [OF assms] by (simp_all add: searched_def s1_def)
  have V: "ValidateEncoding (utf8_bytes s1)" using S(2) assms(2) by simp
  show ?thesis
  proof (cases "u8_chunk_no s1 \<noteq> length (u8_chunks s1) \<and> u8_data (GetChunk s1 (u8_chunk_no s1)) = [] \<and>
      sp_incomplete_char (u8_pos s1) = 0")
    case True
    then have k: "u8_chunk_no s1 < length (u8_chunks s1)" "u8_data (GetChunk s1 (u8_chunk_no s1)) = []"
      using S(1) by (auto simp: utf8_inv_def current_inv_def split: if_splits)
    have "utf8_FillBuffer target s = Some ([], s1)" using True by (simp add: utf8_FillBuffer_def s1_def [symmetric])
    with S terminal_valid(3) [OF S(1) V k] show ?thesis by auto
  next
    case False
    then have here: "sp_chars (u8_pos s1) = target" using S(4) terminal_valid(2) [OF S(1) V] by auto
    have "utf8_FillBuffer target s = FillBuffer_loop False s1 []"
      using False unfolding utf8_FillBuffer_def s1_def [symmetric] Let_def by (rule if_not_P)
    with FillBuffer_loop_ends [OF S(1) FillBuffer_progress [OF S(1) False]] here S(2,3) show ?thesis
      by (auto simp: delivers_def utf8_ended_def)
  qed
qed

text \<open>A sequence of reads at arbitrary positions; the results in order.\<close>

primrec seek_reads :: "nat list \<Rightarrow> Utf8Stream \<Rightarrow> (uc16 list list \<times> Utf8Stream) option" where
  "seek_reads [] s = Some ([], s)"
| "seek_reads (p # ps) s =
     (case utf8_FillBuffer p s of
        None \<Rightarrow> None
      | Some (E, s') \<Rightarrow> map_option (\<lambda>(Es, s''). (E # Es, s'')) (seek_reads ps s'))"

lemma seek_reads_spec:
  assumes "utf8_inv s" and "ValidateEncoding (utf8_bytes s)" and "list_all (\<lambda>p. \<not> mid_pair (stream_text s) p) ps"
  shows "\<exists>Es s'. seek_reads ps s = Some (Es, s') \<and> utf8_inv s' \<and> utf8_bytes s' = utf8_bytes s \<and>
    (utf8_ended s \<longrightarrow> u8_chunks s' = u8_chunks s) \<and>
    list_all2 (\<lambda>p E. E = take (length E) (drop p (stream_text s)) \<and> (E = [] \<longrightarrow> length (stream_text s) \<le> p)) ps Es"
  using assms
proof (induction ps arbitrary: s)
  case (Cons p ps)
  then have "\<not> mid_pair (stream_text s) p" by simp
  from FillBuffer_anywhere [OF Cons(2,3) this] obtain E s1 where F: "utf8_FillBuffer p s = Some (E, s1)" "utf8_inv s1"
    "utf8_bytes s1 = utf8_bytes s" "utf8_ended s \<longrightarrow> u8_chunks s1 = u8_chunks s"
    "E = take (length E) (drop p (stream_text s))" "E = [] \<longrightarrow> length (stream_text s) \<le> p" by blast
  from Cons(1) [OF F(2)] F(3) Cons(3,4) obtain Es s2 where
    "seek_reads ps s1 = Some (Es, s2)" "utf8_inv s2" "utf8_bytes s2 = utf8_bytes s1" "utf8_ended s1 \<longrightarrow> u8_chunks s2 = u8_chunks s1"
    "list_all2 (\<lambda>p E. E = take (length E) (drop p (stream_text s)) \<and> (E = [] \<longrightarrow> length (stream_text s) \<le> p)) ps Es" by auto
  with F show ?case by (auto simp: utf8_ended_def)
qed simp

text \<open>C34. On valid UTF-8, wherever the chunks are cut, any sequence of reads at positions
  that do not split a surrogate pair (forwards, backwards, behind the end, in whatever
  order) terminates, and each read at \<open>p\<close> returns a part of the text that starts at \<open>p\<close>;
  it returns nothing only at or behind the end of the text.\<close>

theorem utf8_seeks_find_text:
  assumes "ValidateEncoding (source_bytes src)"
    and "list_all (\<lambda>p. \<not> mid_pair (utf8_text (source_bytes src)) p) ps"
  shows "\<exists>Es s. seek_reads ps (new_Utf8Stream src) = Some (Es, s) \<and>
    list_all2 (\<lambda>p E. E = take (length E) (drop p (utf8_text (source_bytes src))) \<and>
      (E = [] \<longrightarrow> length (utf8_text (source_bytes src)) \<le> p)) ps Es"
  using seek_reads_spec [OF utf8_inv_new(1), of src ps] assms utf8_inv_new(2) [of src] by auto

theorem utf8_seeks_find_text_witness:
  "\<exists>Es s. seek_reads [3, 0, 2, 9] (new_Utf8Stream [(0, [0x61, 0xC3]), (5, [0xA9, 0x62]), (2, [0xF0, 0x9F, 0x98]), (0, [0x80])]) =
      Some (Es, s) \<and>
    list_all2 (\<lambda>p E. E = take (length E) (drop p [0x61, 0xE9, 0x62, 0xD83D, 0xDE00]) \<and> (E = [] \<longrightarrow> 5 \<le> p)) [3, 0, 2, 9] Es"
proof -
  let ?src = "[(0, [0x61, 0xC3]), (5, [0xA9, 0x62]), (2, [0xF0, 0x9F, 0x98]), (0, [0x80])] :: (nat \<times> byte list) list"
  have t: "utf8_text (source_bytes ?src) = [0x61, 0xE9, 0x62, 0xD83D, 0xDE00]" by code_simp
  have v: "ValidateEncoding (source_bytes ?src)" by code_simp
  have m: "list_all (\<lambda>p. \<not> mid_pair (utf8_text (source_bytes ?src)) p) [3, 0, 2, 9]" by code_simp
  have l: "length [0x61, 0xE9, 0x62, 0xD83D, 0xDE00 :: uc16] = 5" by simp
  show ?thesis using utf8_seeks_find_text [OF v m] unfolding t l .
qed

section \<open>Clones\<close>

lemma Clone_inv:
  assumes "utf8_inv s" and "utf8_ended s" and "stream_text s \<noteq> []"
  shows "utf8_inv (utf8_Clone s)" and "utf8_bytes (utf8_Clone s) = utf8_bytes s" and "utf8_ended (utf8_Clone s)"
proof -
  show e: "utf8_ended (utf8_Clone s)" using assms(2) by (simp add: utf8_Clone_def utf8_ended_def)
  with assms(2) show B: "utf8_bytes (utf8_Clone s) = utf8_bytes s" by (simp add: utf8_bytes_def utf8_fetched_def utf8_Clone_def)
  have C: "u8_chunks (utf8_Clone s) = u8_chunks s" "u8_chunk_no (utf8_Clone s) = 0"
    "u8_pos (utf8_Clone s) = StreamPosition_start" by (simp_all add: utf8_Clone_def)
  have inv: "\<forall>k < length (u8_chunks s). chunk_inv s k" "0 < length (u8_chunks s)" using assms(1,2) by (auto simp: utf8_inv_def utf8_ended_def)
  then have "\<forall>k < length (u8_chunks (utf8_Clone s)). chunk_inv (utf8_Clone s) k" using B C by (simp add: chunk_inv_def)
  moreover have "chunk_inv s 0" using inv by blast
  then have "u8_start (GetChunk s 0) = StreamPosition_start" by (simp add: chunk_inv_def)
  ultimately show "utf8_inv (utf8_Clone s)"
    using start_current [of "utf8_Clone s"] inv(2) B C assms(3) by (simp add: utf8_inv_def)
qed

text \<open>A clone of a stream of valid UTF-8 whose data has been fetched to the end, taken at
  any moment, answers all reads like the stream itself and never fetches: its chunks stay
  those it shares with the original. (The text must not be empty: see the next theorem.)\<close>

lemma utf8_clone_reads_text:
  assumes "ValidateEncoding (source_bytes src)" and "utf8_text (source_bytes src) \<noteq> []"
    and "list_all (\<lambda>p. \<not> mid_pair (utf8_text (source_bytes src)) p) (ps @ qs)"
    and "seek_reads ps (new_Utf8Stream src) = Some (Ds, s)" and "utf8_ended s"
  shows "\<exists>Es s'. seek_reads qs (utf8_Clone s) = Some (Es, s') \<and> u8_chunks s' = u8_chunks s \<and>
    list_all2 (\<lambda>p E. E = take (length E) (drop p (utf8_text (source_bytes src))) \<and>
      (E = [] \<longrightarrow> length (utf8_text (source_bytes src)) \<le> p)) qs Es"
proof -
  have s: "utf8_inv s" "utf8_bytes s = source_bytes src"
    using seek_reads_spec [OF utf8_inv_new(1), of src ps] assms(1,3,4) utf8_inv_new(2) [of src] by auto
  note C = Clone_inv [OF s(1) assms(5)]
  have "u8_chunks (utf8_Clone s) = u8_chunks s" by (simp add: utf8_Clone_def)
  with seek_reads_spec [OF C(1), of qs] C(2,3) s(2) assms(1-3) show ?thesis by auto
qed

text \<open>At the terminating chunk with nothing pending the loop of \<^verbatim>\<open>FillBuffer\<close> does not end unless it
  has just fetched that chunk.\<close>

lemma FillBuffer_loop_stuck:
  assumes "FillBuffer_loop d s out = Some r"
  shows "d \<or> out \<noteq> [] \<or> FillBufferFromCurrentChunk s [] \<noteq> (s, []) \<or> u8_chunk_no s = length (u8_chunks s)"
proof (rule FillBuffer_loop.raw_induct [OF _ assms])
  fix f d s out r
  assume IH: "\<And>d s out r. f d s out = Some r \<Longrightarrow>
      d \<or> out \<noteq> [] \<or> FillBufferFromCurrentChunk s [] \<noteq> (s, []) \<or> u8_chunk_no s = length (u8_chunks s)"
    and body: "(if \<not> d \<and> out = []
      then let r = (if u8_chunk_no s = length (u8_chunks s)
                    then (case utf8_FetchChunk s of (more_data, s1) \<Rightarrow> (\<not> more_data, s1))
                    else (d, s));
               q = FillBufferFromCurrentChunk (snd r) out
           in f (fst r) (fst q) (snd q)
      else Some (out, s)) = Some r"
  show "d \<or> out \<noteq> [] \<or> FillBufferFromCurrentChunk s [] \<noteq> (s, []) \<or> u8_chunk_no s = length (u8_chunks s)"
  proof (rule ccontr)
    assume n: "\<not> ?thesis"
    then have "f False s [] = Some r" using body by simp
    from IH [OF this] n show False by simp
  qed
qed

text \<open>A source that consists of a byte order mark only is read to its end as the empty
  text, but the first read of a clone taken then does not return: the loop of \<^verbatim>\<open>FillBuffer\<close>
  notices the end of the data only when it fetches the terminating chunk, and the clone finds
  that chunk in the list it shares.\<close>

lemma utf8_bom_clone_hangs:
  "\<exists>s. seek_reads [0] (new_Utf8Stream [(0, [0xEF, 0xBB, 0xBF])]) = Some ([[]], s) \<and> utf8_ended s \<and>
    utf8_FillBuffer 0 s = Some ([], s) \<and> utf8_FillBuffer 0 (utf8_Clone s) = None"
proof -
  define P where "P = \<lparr> sp_bytes = 3, sp_chars = 0, sp_incomplete_char = 0, sp_state = kAccept \<rparr>"
  define s where "s = \<lparr> u8_chunks = [\<lparr> u8_address = 0, u8_data = [0xEF, 0xBB, 0xBF], u8_start = StreamPosition_start \<rparr>,
    \<lparr> u8_address = 0, u8_data = [], u8_start = P \<rparr>], u8_chunk_no = 1, u8_pos = P, u8_source = [] \<rparr>"
  have r: "seek_reads [0] (new_Utf8Stream [(0, [0xEF, 0xBB, 0xBF])]) = Some ([[]], s)" "utf8_ended s"
    "utf8_FillBuffer 0 s = Some ([], s)"
    unfolding s_def P_def by code_simp+
  have f: "FillBufferFromCurrentChunk (utf8_Clone s) [] = (s, [])" "FillBufferFromCurrentChunk s [] = (s, [])"
    unfolding s_def P_def by code_simp+
  have n: "u8_chunk_no s \<noteq> length (u8_chunks s)" "u8_chunk_no (utf8_Clone s) \<noteq> length (u8_chunks (utf8_Clone s))"
    unfolding s_def by (simp_all add: utf8_Clone_def)
  have "FillBuffer_loop False s [] = None" using FillBuffer_loop_stuck [of False s "[]"] f(2) n(1)
    by (cases "FillBuffer_loop False s []") auto
  moreover have "FillBuffer_loop False (utf8_Clone s) [] = FillBuffer_loop False s []"
    by (subst FillBuffer_loop.simps) (simp add: f(1) n(2))
  moreover have "utf8_FillBuffer 0 (utf8_Clone s) = FillBuffer_loop False (utf8_Clone s) []"
    by (simp add: utf8_FillBuffer_def SearchPosition_def utf8_Clone_def s_def StreamPosition_start_def)
  ultimately show ?thesis using r by auto
qed

section \<open>Malformed data\<close>

text \<open>On malformed data reading again is not what was read. The stream takes the value
  collected so far, \<^verbatim>\<open>incomplete_char\<close>, being zero as "no character is incomplete", but
  after the lead bytes \<^verbatim>\<open>E0\<close> and \<^verbatim>\<open>F0\<close> it is zero as well: a truncated character at the end of
  the data, replaced by U+FFFD the first time, is lost the second time (first part); a
  chunk that begins inside such a character passes for one of ASCII characters if it
  has as many bytes as characters, and the replacement character in front of it is lost (second part).\<close>

lemma utf8_reread_loses_replacement:
  "map_option fst (seek_reads [0, 1, 2, 0, 1] (new_Utf8Stream [(0, [0x61, 0xE0])])) =
     Some [[0x61], [0xFFFD], [], [0x61], []] \<and>
   map_option fst (seek_reads [0, 2, 0] (new_Utf8Stream [(0, [0xE0]), (0, [0x41, 0xC3]), (0, [0xA9, 0x42])])) =
     Some [[0xFFFD, 0x41], [0xE9, 0x42], [0x41]] \<and>
   utf8_text [0x61, 0xE0] = [0x61, 0xFFFD] \<and> utf8_text [0xE0, 0x41, 0xC3, 0xA9, 0x42] = [0xFFFD, 0x41, 0xE9, 0x42]"
  by code_simp

end
