(* ===== verification/Bigint_Digits.thy ===== *)
theory Bigint_Digits
  imports V8_Prelude
begin

text \<open>
  Digits of big integers: \<^verbatim>\<open>src/bigint/digit-arithmetic.h\<close>, \<^verbatim>\<open>src/bigint/util.h\<close>. A digit
  is a 64-bit word. The header has two variants of most operations: one on a type of
  twice the width, one for compilers without it. Both are modelled; a locale states what
  the operations on digit vectors rely on, and both variants interpret it.
\<close>

section \<open>Digits\<close>

type_synonym digit = "64 word"
type_synonym twodigit = "128 word"

abbreviation kDigitBits :: nat where "kDigitBits \<equiv> 64"
abbreviation kHalfDigitBits :: nat where "kHalfDigitBits \<equiv> 32"

definition kHalfDigitBase :: digit where "kHalfDigitBase = push_bit kHalfDigitBits 1"
definition kHalfDigitMask :: digit where "kHalfDigitMask = kHalfDigitBase - 1"

definition digit_ismax :: "digit \<Rightarrow> bool" where
  "digit_ismax x \<longleftrightarrow> NOT x = 0"

section \<open>The variant with two-digit words\<close>

text \<open>A result and the carry, borrow or high digit.\<close>

definition digit_add2 :: "digit \<Rightarrow> digit \<Rightarrow> digit \<times> digit" where
  "digit_add2 a b =
     (let result = (ucast a :: twodigit) + ucast b
      in (ucast result, ucast (drop_bit kDigitBits result)))"

definition digit_add3 :: "digit \<Rightarrow> digit \<Rightarrow> digit \<Rightarrow> digit \<times> digit" where
  "digit_add3 a b c =
     (let result = (ucast a :: twodigit) + ucast b + ucast c
      in (ucast result, ucast (drop_bit kDigitBits result)))"

definition digit_sub :: "digit \<Rightarrow> digit \<Rightarrow> digit \<times> digit" where
  "digit_sub a b =
     (let result = (ucast a :: twodigit) - ucast b
      in (ucast result, ucast (drop_bit kDigitBits result AND 1)))"

definition digit_sub2 :: "digit \<Rightarrow> digit \<Rightarrow> digit \<Rightarrow> digit \<times> digit" where
  "digit_sub2 a b borrow_in =
     (let subtrahend = (ucast b :: twodigit) + ucast borrow_in;
          result = (ucast a :: twodigit) - subtrahend
      in (ucast result, ucast (drop_bit kDigitBits result AND 1)))"

definition digit_mul :: "digit \<Rightarrow> digit \<Rightarrow> digit \<times> digit" where
  "digit_mul a b =
     (let result = (ucast a :: twodigit) * ucast b
      in (ucast result, ucast (drop_bit kDigitBits result)))"

section \<open>The variant without\<close>

definition portable_add2 :: "digit \<Rightarrow> digit \<Rightarrow> digit \<times> digit" where
  "portable_add2 a b = (let result = a + b in (result, if result < a then 1 else 0))"

definition portable_add3 :: "digit \<Rightarrow> digit \<Rightarrow> digit \<Rightarrow> digit \<times> digit" where
  "portable_add3 a b c =
     (let result = a + b; carry = (if result < a then 1 else 0);
          result = result + c;
          carry = (if result < c then carry + 1 else carry)
      in (result, carry))"

definition portable_sub :: "digit \<Rightarrow> digit \<Rightarrow> digit \<times> digit" where
  "portable_sub a b = (let result = a - b in (result, if result > a then 1 else 0))"

definition portable_sub2 :: "digit \<Rightarrow> digit \<Rightarrow> digit \<Rightarrow> digit \<times> digit" where
  "portable_sub2 a b borrow_in =
     (let result = a - b; borrow_out = (if result > a then 1 else 0);
          borrow_out = (if result < borrow_in then borrow_out + 1 else borrow_out)
      in (result - borrow_in, borrow_out))"

text \<open>Multiplication in halves.\<close>

definition portable_mul :: "digit \<Rightarrow> digit \<Rightarrow> digit \<times> digit" where
  "portable_mul a b =
     (let a_low = a AND kHalfDigitMask; a_high = drop_bit kHalfDigitBits a;
          b_low = b AND kHalfDigitMask; b_high = drop_bit kHalfDigitBits b;
          r_low = a_low * b_low; r_mid1 = a_low * b_high;
          r_mid2 = a_high * b_low; r_high = a_high * b_high
      in case portable_add3 r_low (push_bit kHalfDigitBits r_mid1) (push_bit kHalfDigitBits r_mid2) of
           (low, carry) \<Rightarrow>
             (low, drop_bit kHalfDigitBits r_mid1 + drop_bit kHalfDigitBits r_mid2 + r_high + carry))"

section \<open>Division of two digits by one\<close>

text \<open>\<^verbatim>\<open>CountLeadingZeros\<close> (\<^verbatim>\<open>util.h\<close>): 64 for zero.\<close>

fun leading_zeros_from :: "nat \<Rightarrow> digit \<Rightarrow> nat" where
  "leading_zeros_from 0 value = 0"
| "leading_zeros_from (Suc n) value = (if bit value n then 0 else Suc (leading_zeros_from n value))"

definition CountLeadingZeros :: "digit \<Rightarrow> nat" where
  "CountLeadingZeros value = leading_zeros_from kDigitBits value"

text \<open>The correction of an estimated half-digit of the quotient.\<close>

function div_correct :: "digit \<Rightarrow> digit \<Rightarrow> digit \<Rightarrow> digit \<Rightarrow> digit \<Rightarrow> digit" where
  "div_correct q rhat vn1 vn0 un =
     (if q \<ge> kHalfDigitBase \<or> q * vn0 > rhat * kHalfDigitBase + un
      then if rhat + vn1 \<ge> kHalfDigitBase then q - 1 else div_correct (q - 1) (rhat + vn1) vn1 vn0 un
      else q)"
  by pat_completeness auto

lemma half_base: "unat kHalfDigitBase = 2 ^ 32" "kHalfDigitMask = mask 32"
  by (simp_all add: kHalfDigitBase_def kHalfDigitMask_def mask_eq_exp_minus_1 push_bit_eq_mult)

lemma unat_dec: "q \<noteq> 0 \<Longrightarrow> unat (q - 1 :: 'a::len word) = unat q - 1"
  by (rule unat_minus_one)

termination div_correct
proof (relation "measure (\<lambda>(q, _). unat q)")
  fix q rhat vn1 vn0 un :: digit
  assume c: "q \<ge> kHalfDigitBase \<or> q * vn0 > rhat * kHalfDigitBase + un"
  then have "q \<noteq> 0" by (auto simp: word_le_nat_alt half_base(1))
  then have "unat (q - 1) = unat q - 1" "0 < unat q" by (simp_all add: unat_dec unat_gt_0)
  then show "((q - 1, rhat + vn1, vn1, vn0, un), q, rhat, vn1, vn0, un) \<in> measure (\<lambda>(q, _). unat q)" by simp
qed simp

declare div_correct.simps [simp del]

text \<open>
  The last variant of \<^verbatim>\<open>digit_div\<close>, without assembly code: it divides in halves. The
  shift \<^verbatim>\<open>low >> ((kDigitBits - s) & kShiftMask)\<close> is masked because \<open>s\<close> may be 0.
\<close>

definition digit_div :: "digit \<Rightarrow> digit \<Rightarrow> digit \<Rightarrow> digit \<times> digit" where
  "digit_div high low divisor0 =
     (let s = CountLeadingZeros divisor0;
          divisor = push_bit s divisor0;
          vn1 = drop_bit kHalfDigitBits divisor; vn0 = divisor AND kHalfDigitMask;
          s_zero_mask = (if s = 0 then 0 else - 1);
          un32 = push_bit s high OR (drop_bit ((kDigitBits - s) mod kDigitBits) low AND s_zero_mask);
          un10 = push_bit s low;
          un1 = drop_bit kHalfDigitBits un10; un0 = un10 AND kHalfDigitMask;
          q1 = un32 div vn1; rhat = un32 - q1 * vn1;
          q1 = div_correct q1 rhat vn1 vn0 un1;
          un21 = un32 * kHalfDigitBase + un1 - q1 * divisor;
          q0 = un21 div vn1; rhat = un21 - q0 * vn1;
          q0 = div_correct q0 rhat vn1 vn0 un0
      in (q1 * kHalfDigitBase + q0, drop_bit s (un21 * kHalfDigitBase + un0 - q0 * divisor)))"

text \<open>The first variant is the machine instruction \<^verbatim>\<open>divq\<close>, which divides \<^verbatim>\<open>rdx:rax\<close>.\<close>

definition digit_div_divq :: "digit \<Rightarrow> digit \<Rightarrow> digit \<Rightarrow> digit \<times> digit" where
  "digit_div_divq high low divisor =
     (let dividend = push_bit kDigitBits (ucast high :: twodigit) OR ucast low
      in (ucast (dividend div ucast divisor), ucast (dividend mod ucast divisor)))"

section \<open>What digit operations promise\<close>

definition digit_base :: nat where "digit_base = 2 ^ 64"

lemma unat_digit: "unat (d :: digit) < digit_base"
  using unsigned_less [of d] by (simp add: digit_base_def)

lemma digit_base_pos [simp]: "0 < digit_base" "digit_base \<noteq> 0"
  by (simp_all add: digit_base_def)

lemma base_times_less: "digit_base * n < digit_base * k \<Longrightarrow> n < k"
  by simp

lemma base_power_less: "digit_base ^ i * n < digit_base ^ i * k \<Longrightarrow> n < k"
  by simp

locale digit_arithmetic =
  fixes add2 :: "digit \<Rightarrow> digit \<Rightarrow> digit \<times> digit"
    and add3 :: "digit \<Rightarrow> digit \<Rightarrow> digit \<Rightarrow> digit \<times> digit"
    and sub :: "digit \<Rightarrow> digit \<Rightarrow> digit \<times> digit"
    and sub2 :: "digit \<Rightarrow> digit \<Rightarrow> digit \<Rightarrow> digit \<times> digit"
    and mul :: "digit \<Rightarrow> digit \<Rightarrow> digit \<times> digit"
  assumes add2: "add2 a b = (r, c) \<Longrightarrow> unat r + digit_base * unat c = unat a + unat b"
    and add3: "add3 a b d = (r, c) \<Longrightarrow> unat r + digit_base * unat c = unat a + unat b + unat d"
    and sub: "sub a b = (r, c) \<Longrightarrow> unat r + unat b = unat a + digit_base * unat c"
    and sub2: "sub2 a b d = (r, c) \<Longrightarrow> unat d \<le> 1 \<Longrightarrow> unat r + unat b + unat d = unat a + digit_base * unat c"
    and mul: "mul a b = (r, h) \<Longrightarrow> unat r + digit_base * unat h = unat a * unat b"
begin

lemma carry_le:
  assumes "unat r + digit_base * unat c = n" and "n < digit_base * k"
  shows "unat c < k"
proof (rule base_times_less)
  show "digit_base * unat c < digit_base * k" using assms by linarith
qed

lemma add2_carry: "add2 a b = (r, c) \<Longrightarrow> unat c \<le> 1"
  using carry_le [OF add2, of a b r c 2] unat_digit [of a] unat_digit [of b] by simp

lemma add3_carry: "add3 a b d = (r, c) \<Longrightarrow> unat c \<le> 2"
  using carry_le [OF add3, of a b d r c 3] unat_digit [of a] unat_digit [of b] unat_digit [of d] by simp

lemma add3_carry1: "add3 a b d = (r, c) \<Longrightarrow> unat d \<le> 1 \<Longrightarrow> unat c \<le> 1"
  using carry_le [OF add3, of a b d r c 2] unat_digit [of a] unat_digit [of b] by simp

lemma sub_borrow:
  assumes "sub a b = (r, c)"
  shows "unat c \<le> 1"
proof -
  have "digit_base * unat c < digit_base * 2" using sub [OF assms] unat_digit [of r] unat_digit [of b] by linarith
  from base_times_less [OF this] show ?thesis by simp
qed

lemma sub2_borrow:
  assumes "sub2 a b d = (r, c)" and "unat d \<le> 1"
  shows "unat c \<le> 1"
proof -
  have "digit_base * unat c < digit_base * 2" using sub2 [OF assms] assms(2) unat_digit [of r] unat_digit [of b] by linarith
  from base_times_less [OF this] show ?thesis by simp
qed

end

text \<open>The laws determine the operations: any two implementations agree.\<close>

lemma digit_unique:
  assumes "unat r + digit_base * unat (c :: digit) = unat r' + digit_base * unat c'"
  shows "r = (r' :: digit)" and "c = c'"
proof -
  have "unat c = (unat r + digit_base * unat c) div digit_base" "unat c' = (unat r' + digit_base * unat c') div digit_base"
    using unat_digit [of r] unat_digit [of r'] by simp_all
  then have c: "unat c = unat c'" using assms by simp
  then show "c = c'" by (simp add: word_unat_eq_iff)
  show "r = r'" using assms c by (simp add: word_unat_eq_iff)
qed

section \<open>Both variants keep the promises\<close>

lemma unat_two: "unat (ucast (a :: digit) :: twodigit) = unat a"
  using unat_digit [of a] by (simp add: unat_ucast digit_base_def)

lemma split_two: "unat (ucast (x :: twodigit) :: digit) + digit_base * unat (ucast (drop_bit kDigitBits x) :: digit) = unat x"
proof -
  have "unat x < 2 ^ 128" using unsigned_less [of x] by simp
  then have "unat x div digit_base < digit_base" by (simp add: digit_base_def div_less_iff_less_mult)
  then show ?thesis by (simp add: unat_ucast unat_drop digit_base_def)
qed

lemma two_less: "n < digit_base * digit_base \<Longrightarrow> n mod 2 ^ LENGTH(128) = n"
  by (simp add: digit_base_def)

lemma unat_two_add: "unat x + unat y < digit_base * digit_base \<Longrightarrow> unat (x + y :: twodigit) = unat x + unat y"
  unfolding unat_word_ariths by (rule two_less)

lemma unat_two_mult: "unat x * unat y < digit_base * digit_base \<Longrightarrow> unat (x * y :: twodigit) = unat x * unat y"
  unfolding unat_word_ariths by (rule two_less)

text \<open>A difference of two-digit words: the lowest bit of the high half is the borrow.\<close>

lemma split_sub:
  fixes x y :: twodigit
  assumes "unat x < digit_base" and "unat y \<le> digit_base"
  shows "unat (ucast (x - y) :: digit) + unat y = unat x + digit_base * unat (ucast (drop_bit kDigitBits (x - y) AND 1) :: digit)"
proof -
  have m: "unat (z AND 1 :: twodigit) = unat z mod 2" for z using unat_and_mask_numeral [of z 1] by simp
  show ?thesis
  proof (cases "unat y \<le> unat x")
    case True
    then have "unat (x - y) = unat x - unat y" by (simp add: unat_sub_if')
    then show ?thesis using True assms by (simp add: unat_ucast m unat_drop digit_base_def)
  next
    case False
    define d where "d = unat y - unat x"
    have d: "0 < d" "d \<le> 2 ^ 64" using False assms by (simp_all add: d_def digit_base_def)
    have e: "unat (x - y) = 2 ^ 128 - d" using False by (simp add: unat_sub_if' d_def)
    have q: "(2 ^ 128 - d) div 2 ^ 64 = (2 ^ 64 - 1 :: nat)" "(2 ^ 128 - d) mod 2 ^ 64 = (2 ^ 64 - d :: nat)"
    proof -
      have "2 ^ 128 - d = (2 ^ 64 - d) + (2 ^ 64 - 1) * (2 ^ 64 :: nat)" using d by simp
      moreover have "2 ^ 64 - d < (2 ^ 64 :: nat)" using d by simp
      ultimately show "(2 ^ 128 - d) div 2 ^ 64 = (2 ^ 64 - 1 :: nat)" "(2 ^ 128 - d) mod 2 ^ 64 = (2 ^ 64 - d :: nat)"
        by (metis add.commute div_mult_self3 mod_mult_self2 div_less mod_less mult.commute zero_neq_numeral power_not_zero add_0_right)+
    qed
    have "unat (ucast (x - y) :: digit) = 2 ^ 64 - d" by (simp add: unat_ucast e q [simplified])
    moreover have "unat (ucast (drop_bit kDigitBits (x - y) AND 1) :: digit) = 1"
      by (simp add: unat_ucast m unat_drop e q [simplified])
    ultimately show ?thesis using d False by (simp add: digit_base_def d_def)
  qed
qed

interpretation native: digit_arithmetic digit_add2 digit_add3 digit_sub digit_sub2 digit_mul
proof
  fix a b d r c h :: digit
  note [simp] = unat_two
  have l: "unat a + unat b + unat d < digit_base * digit_base"
    using unat_digit [of a] unat_digit [of b] unat_digit [of d] by (simp add: digit_base_def)
  show "unat r + digit_base * unat c = unat a + unat b" if "digit_add2 a b = (r, c)"
    using that split_two [of "ucast a + ucast b"] unat_two_add [of "ucast a" "ucast b"] l by (auto simp: digit_add2_def Let_def)
  show "unat r + digit_base * unat c = unat a + unat b + unat d" if "digit_add3 a b d = (r, c)"
    using that split_two [of "ucast a + ucast b + ucast d"] unat_two_add [of "ucast a" "ucast b"]
      unat_two_add [of "ucast a + ucast b" "ucast d"] l by (auto simp: digit_add3_def Let_def)
  show "unat r + unat b = unat a + digit_base * unat c" if "digit_sub a b = (r, c)"
    using that split_sub [of "ucast a" "ucast b"] unat_digit [of a] unat_digit [of b] by (auto simp: digit_sub_def Let_def)
  show "unat r + unat b + unat d = unat a + digit_base * unat c" if "digit_sub2 a b d = (r, c)" "unat d \<le> 1"
    using that split_sub [of "ucast a" "ucast b + ucast d"] unat_two_add [of "ucast b" "ucast d"] unat_digit [of a] unat_digit [of b] l
    by (auto simp: digit_sub2_def Let_def)
  have "unat a * unat b < digit_base * digit_base" using unat_digit [of a] unat_digit [of b] by (simp add: mult_strict_mono)
  then show "unat r + digit_base * unat h = unat a * unat b" if "digit_mul a b = (r, h)"
    using that split_two [of "ucast a * ucast b"] unat_two_mult [of "ucast a" "ucast b"] by (auto simp: digit_mul_def Let_def)
qed

lemma unat_carry: "unat (if P then 1 else 0 :: digit) = (if P then 1 else 0)"
  by simp

lemma unat_digit_add: "unat (a + b :: digit) = (if unat a + unat b < digit_base then unat a + unat b else unat a + unat b - digit_base)"
  unfolding unat_plus_if' by (simp add: digit_base_def)

lemma unat_digit_sub: "unat (a - b :: digit) = (if unat b \<le> unat a then unat a - unat b else unat a + digit_base - unat b)"
  unfolding unat_sub_if' by (simp add: digit_base_def)

lemma portable_add2: "portable_add2 a b = (r, c) \<Longrightarrow> unat r + digit_base * unat c = unat a + unat b"
  using unat_digit [of a] unat_digit [of b]
  by (auto simp: portable_add2_def Let_def word_less_nat_alt unat_digit_add split: if_splits)

lemma portable_add3:
  assumes "portable_add3 a b d = (r, c)"
  shows "unat r + digit_base * unat c = unat a + unat b + unat d"
proof -
  obtain r1 c1 where 1: "portable_add2 a b = (r1, c1)" by fastforce
  obtain r2 c2 where 2: "portable_add2 d r1 = (r2, c2)" by fastforce
  have c: "c1 = (if a + b < a then 1 else 0)" "c2 = (if r < d then 1 else 0)" "r1 = a + b" "r = r2"
    using 1 2 assms by (auto simp: portable_add2_def portable_add3_def Let_def add.commute)
  then have "c = c1 + c2" using assms by (auto simp: portable_add3_def Let_def)
  moreover have "unat (c1 + c2) = unat c1 + unat c2" unfolding c by simp
  ultimately show ?thesis using portable_add2 [OF 1] portable_add2 [OF 2] c(4) by (simp add: distrib_left)
qed

lemma portable_sub: "portable_sub a b = (r, c) \<Longrightarrow> unat r + unat b = unat a + digit_base * unat c"
  using unat_digit [of a] unat_digit [of b]
  by (auto simp: portable_sub_def Let_def word_less_nat_alt unat_digit_sub split: if_splits)

lemma portable_sub2:
  assumes "portable_sub2 a b d = (r, c)" and "unat d \<le> 1"
  shows "unat r + unat b + unat d = unat a + digit_base * unat c"
proof -
  obtain r1 c1 where 1: "portable_sub a b = (r1, c1)" by fastforce
  have c: "c1 = (if a - b > a then 1 else 0)" "r1 = a - b" using 1 by (auto simp: portable_sub_def Let_def)
  have r: "r = r1 - d" "c = (if r1 < d then c1 + 1 else c1)" using assms(1) c by (auto simp: portable_sub2_def Let_def)
  show ?thesis
  proof (cases "r1 < d")
    case True
    then have "unat r1 = 0" "unat d = 1" using assms(2) by (simp_all add: word_less_nat_alt)
    moreover have "unat (c1 + 1) = unat c1 + 1" unfolding c by simp
    ultimately show ?thesis using True r portable_sub [OF 1] by (simp add: unat_digit_sub distrib_left)
  next
    case False
    then have "unat d \<le> unat r1" by (simp add: word_less_nat_alt)
    then show ?thesis using False r portable_sub [OF 1] by (simp add: unat_digit_sub)
  qed
qed

text \<open>Halves of digits.\<close>

definition half :: nat where "half = 2 ^ 32"

lemma half_half: "digit_base = half * half" "0 < half"
  by (simp_all add: digit_base_def half_def)

lemma unat_low_half: "unat (a AND kHalfDigitMask) = unat a mod half"
  by (simp add: half_base(2) unat_and_mask_numeral half_def)

lemma unat_high_half: "unat (drop_bit kHalfDigitBits a) = unat a div half"
  by (simp add: unat_drop half_def)

lemma unat_push_half: "unat (push_bit kHalfDigitBits (a :: digit)) = unat a mod half * half"
proof -
  have "unat (push_bit kHalfDigitBits a) = unat a * half mod (half * half)" by (simp add: unat_push half_def)
  then show ?thesis by (simp add: mult_mod_left)
qed

lemma high_half_less: "unat (a :: digit) div half < half" "unat a mod half < half"
  using unat_digit [of a] by (simp_all add: half_half less_mult_imp_div_less)

lemma unat_half_mult: "unat x < half \<Longrightarrow> unat y < half \<Longrightarrow> unat (x * y :: digit) = unat x * unat y"
proof -
  assume "unat x < half" "unat y < half"
  then have "unat x * unat y < half * half" by (simp add: mult_strict_mono)
  then have "unat x * unat y < 2 ^ LENGTH(64)" by (simp add: half_def)
  then show ?thesis unfolding unat_word_ariths by simp
qed

lemma portable_mul:
  assumes "portable_mul a b = (r, h)"
  shows "unat r + digit_base * unat h = unat a * unat b"
proof -
  define al ah bl bh where d: "al = a AND kHalfDigitMask" "ah = drop_bit kHalfDigitBits a"
    "bl = b AND kHalfDigitMask" "bh = drop_bit kHalfDigitBits b"
  have u: "unat al = unat a mod half" "unat ah = unat a div half" "unat bl = unat b mod half" "unat bh = unat b div half"
    by (simp_all add: d unat_low_half unat_high_half)
  then have p: "unat (al * bl) = unat al * unat bl" "unat (al * bh) = unat al * unat bh"
    "unat (ah * bl) = unat ah * unat bl" "unat (ah * bh) = unat ah * unat bh"
    using high_half_less [of a] high_half_less [of b] by (simp_all add: unat_half_mult)
  define m1 m2 where m: "m1 = unat al * unat bh" "m2 = unat ah * unat bl"
  obtain c where c: "portable_add3 (al * bl) (push_bit kHalfDigitBits (al * bh)) (push_bit kHalfDigitBits (ah * bl)) = (r, c)"
    and h: "h = drop_bit kHalfDigitBits (al * bh) + drop_bit kHalfDigitBits (ah * bl) + ah * bh + c"
    using assms by (auto simp: portable_mul_def Let_def d split: prod.splits)
  define n where "n = m1 div half + m2 div half + unat ah * unat bh + unat c"
  have "unat r + digit_base * unat c = unat al * unat bl + m1 mod half * half + m2 mod half * half"
    using portable_add3 [OF c] p by (simp add: unat_push_half m)
  moreover have dm: "m * half = m mod half * half + digit_base * (m div half)" for m
  proof -
    have "m * half = (m div half * half + m mod half) * half" by (simp only: div_mult_mod_eq)
    also have "\<dots> = m mod half * half + digit_base * (m div half)" by (simp only: half_half(1) distrib_left distrib_right ac_simps)
    finally show ?thesis .
  qed
  from dm [of m1] dm [of m2] have "m1 * half + m2 * half = m1 mod half * half + m2 mod half * half + digit_base * (m1 div half + m2 div half)"
    by (simp add: distrib_left)
  ultimately have "unat r + digit_base * n = unat al * unat bl + (m1 + m2) * half + digit_base * (unat ah * unat bh)"
    unfolding n_def by (simp add: distrib_left distrib_right)
  also have "\<dots> = (unat ah * half + unat al) * (unat bh * half + unat bl)" by (simp add: m half_half algebra_simps)
  also have "\<dots> = unat a * unat b" unfolding u by simp
  finally have e: "unat r + digit_base * n = unat a * unat b" .
  have "unat a * unat b < digit_base * digit_base" using unat_digit [of a] unat_digit [of b] by (simp add: mult_strict_mono)
  then have "digit_base * n < digit_base * digit_base" using e by linarith
  then have "n < digit_base" by (rule base_times_less)
  then have "unat h = n" using p unfolding h n_def by (simp add: unat_word_ariths unat_high_half m digit_base_def mod_simps)
  with e show ?thesis by simp
qed

interpretation portable: digit_arithmetic portable_add2 portable_add3 portable_sub portable_sub2 portable_mul
  by unfold_locales (fact portable_add2 portable_add3 portable_sub portable_sub2 portable_mul)+

section \<open>Division of two digits by one\<close>

lemma leading_zeros_from:
  assumes "unat d < 2 ^ n" and "d \<noteq> 0"
  shows "leading_zeros_from n d < n \<and> 2 ^ (n - 1) \<le> unat d * 2 ^ leading_zeros_from n d \<and>
    unat d * 2 ^ leading_zeros_from n d < 2 ^ n"
  using assms
proof (induction n)
  case (Suc n)
  have "bit (unat d) n \<longleftrightarrow> bit d n" by (auto simp: bit_unsigned_iff dest: bit_imp_le_length)
  then have b: "bit d n \<longleftrightarrow> odd (unat d div 2 ^ n)" by (simp add: bit_iff_odd [of "unat d"])
  show ?case
  proof (cases "unat d < 2 ^ n")
    case True
    with b have "\<not> bit d n" by simp
    moreover from Suc(1) [OF True Suc(3)] have "leading_zeros_from n d < n \<and>
      2 ^ (n - 1) \<le> unat d * 2 ^ leading_zeros_from n d \<and> unat d * 2 ^ leading_zeros_from n d < 2 ^ n" .
    ultimately show ?thesis by (cases n) auto
  next
    case False
    then have "unat d div 2 ^ n = 1" using Suc(2) by (intro div_nat_eqI) auto
    with b have "bit d n" by simp
    with False Suc(2) show ?thesis by simp
  qed
qed (simp add: unat_eq_zero)

lemma CountLeadingZeros_spec:
  assumes "d \<noteq> 0"
  shows "CountLeadingZeros d < 64" and "2 ^ 63 \<le> unat d * 2 ^ CountLeadingZeros d"
    and "unat d * 2 ^ CountLeadingZeros d < digit_base"
  using leading_zeros_from [of d 64] assms unat_digit [of d] by (auto simp: CountLeadingZeros_def digit_base_def)

text \<open>One half-digit of the quotient: the estimate is corrected to the exact value.\<close>

lemma div_correct_spec:
  assumes "unat q * v1 + unat rhat = u32" and "unat rhat < half" and "unat q \<le> half + 1"
    and "(u32 * half + unat un) div (v1 * half + unat vn0) \<le> unat q"
    and "(u32 * half + unat un) div (v1 * half + unat vn0) < half"
    and "unat vn1 = v1" and "0 < v1" and "v1 < half" and "unat vn0 < half" and "unat un < half"
  shows "unat (div_correct q rhat vn1 vn0 un) = (u32 * half + unat un) div (v1 * half + unat vn0)"
  using assms
proof (induction q rhat vn1 vn0 un rule: div_correct.induct)
  case (1 q rhat vn1 vn0 un)
  let ?v = "v1 * half + unat vn0" and ?u = "u32 * half + unat un"
  have hb: "unat kHalfDigitBase = half" by (simp add: half_base(1) half_def)
  have qv: "unat q * unat vn0 < digit_base"
  proof -
    have "unat q * unat vn0 \<le> (half + 1) * (half - 1)" using "1.prems"(3,9) by (intro mult_mono) auto
    also have "\<dots> < digit_base" by (simp add: half_def digit_base_def)
    finally show ?thesis .
  qed
  have ru: "unat rhat * half + unat un < digit_base"
  proof -
    have "unat rhat * half + unat un < (unat rhat + 1) * half" using "1.prems"(10) by simp
    also have "\<dots> \<le> half * half" using "1.prems"(2) by (intro mult_right_mono) auto
    finally show ?thesis by (simp add: half_half)
  qed
  have w: "unat (q * vn0) = unat q * unat vn0" "unat (rhat * kHalfDigitBase + un) = unat rhat * half + unat un"
    using qv ru by (simp_all add: unat_word_ariths hb digit_base_def mod_simps)
  have qu: "k * ?v \<le> ?u \<longleftrightarrow> k * unat vn0 \<le> r * half + unat un" if "k * v1 + r = u32" for k r
    using that by (auto simp: algebra_simps)
  have le: "k * ?v \<le> ?u \<longleftrightarrow> k \<le> ?u div ?v" for k using "1.prems"(7) half_half(2) by (simp add: less_eq_div_iff_mult_less_eq)
  show ?case
  proof (cases "q \<ge> kHalfDigitBase \<or> q * vn0 > rhat * kHalfDigitBase + un")
    case True
    have lt: "?u div ?v < unat q"
      using True
    proof
      assume "q \<ge> kHalfDigitBase"
      then show ?thesis using "1.prems"(5) hb by (simp add: word_le_nat_alt)
    next
      assume "q * vn0 > rhat * kHalfDigitBase + un"
      then have "\<not> unat q * unat vn0 \<le> unat rhat * half + unat un" using w by (simp add: word_less_nat_alt)
      then show ?thesis using qu [OF "1.prems"(1)] le [of "unat q"] by simp
    qed
    then have "q \<noteq> 0" by auto
    then have q: "unat (q - 1) = unat q - 1" "0 < unat q" by (simp_all add: unat_dec unat_gt_0)
    have r: "unat (rhat + vn1) = unat rhat + v1"
      using "1.prems"(2,6,8) by (simp add: unat_word_ariths half_def)
    have eq: "unat (q - 1) * v1 + unat (rhat + vn1) = u32" using q r "1.prems"(1) by (cases "unat q") auto
    show ?thesis
    proof (cases "rhat + vn1 \<ge> kHalfDigitBase")
      case stop: True
      have "unat (q - 1) * unat vn0 \<le> half * half" using q "1.prems"(3,9) by (intro mult_mono) auto
      also have "\<dots> \<le> unat (rhat + vn1) * half + unat un" using stop hb by (intro trans_le_add1 mult_right_mono) (simp_all add: word_le_nat_alt)
      finally have "unat (q - 1) \<le> ?u div ?v" using qu [OF eq] le by simp
      then have "unat (q - 1) = ?u div ?v" using lt q by simp
      then show ?thesis using True stop by (simp add: div_correct.simps [of q])
    next
      case False
      then have "unat (rhat + vn1) < half" using hb by (simp add: word_le_nat_alt)
      moreover have "unat (q - 1) \<le> half + 1" "?u div ?v \<le> unat (q - 1)" using q lt "1.prems"(3) by simp_all
      ultimately show ?thesis using "1.IH" [OF True False eq] "1.prems"(5-10) True False by (simp add: div_correct.simps [of q])
    qed
  next
    case False
    then have "unat q * unat vn0 \<le> unat rhat * half + unat un" using w by (simp add: word_less_nat_alt)
    then have "unat q \<le> ?u div ?v" using qu [OF "1.prems"(1)] le by simp
    then show ?thesis using False "1.prems"(4) by (simp add: div_correct.simps [of q])
  qed
qed

text \<open>The dividend shifted by the leading zeros of the divisor.\<close>

lemma shifted_dividend:
  fixes high low :: digit
  assumes "s < 64" and "unat high * 2 ^ s + 2 ^ s \<le> digit_base"
    and "un32 = push_bit s high OR (drop_bit ((kDigitBits - s) mod kDigitBits) low AND (if s = 0 then 0 else - 1))"
  shows "unat un32 * digit_base + unat (push_bit s low) = (unat high * digit_base + unat low) * 2 ^ s"
proof (cases "s = 0")
  case True
  then show ?thesis using assms(3) by simp
next
  case False
  have B: "digit_base = 2 ^ s * 2 ^ (64 - s)" using assms(1) by (simp add: digit_base_def flip: power_add)
  define x where "x = drop_bit (64 - s) low"
  have x: "unat x = unat low div 2 ^ (64 - s)" by (simp add: x_def unat_drop)
  have lt: "unat x < 2 ^ s" unfolding x using unat_digit [of low] B by (simp add: less_mult_imp_div_less)
  then have "take_bit s x = x" by (simp add: word_unat_eq_iff unat_take)
  then have "un32 = push_bit s high + x" using assms(1,3) False push_or_add [of s high x] by (simp add: x_def)
  moreover have "unat high * 2 ^ s < digit_base" by (rule less_le_trans [OF _ assms(2)]) simp
  then have "unat (push_bit s high) = unat high * 2 ^ s" unfolding unat_push by (simp add: digit_base_def)
  ultimately have u: "unat un32 = unat high * 2 ^ s + unat x"
    using lt assms(2) by (simp add: unat_digit_add)
  have "unat (push_bit s low) = unat low * 2 ^ s mod digit_base" by (simp add: unat_push digit_base_def)
  moreover have "unat low * 2 ^ s div digit_base = unat x" unfolding x B by (simp add: mult.commute)
  ultimately have "unat x * digit_base + unat (push_bit s low) = unat low * 2 ^ s" by (metis div_mult_mod_eq)
  then show ?thesis unfolding u by (simp add: algebra_simps)
qed

text \<open>One half-digit of the quotient and the remainder, in the arithmetic of words.\<close>

lemma half_division:
  fixes u32 un divisor :: digit
  assumes "2 ^ 63 \<le> unat divisor" and "unat u32 < unat divisor" and "unat un < half"
    and "vn1 = drop_bit kHalfDigitBits divisor" and "vn0 = divisor AND kHalfDigitMask"
    and "q = div_correct (u32 div vn1) (u32 - u32 div vn1 * vn1) vn1 vn0 un"
  shows "unat q = (unat u32 * half + unat un) div unat divisor"
    and "unat q < half"
    and "unat (u32 * kHalfDigitBase + un - q * divisor) = (unat u32 * half + unat un) mod unat divisor"
proof -
  let ?v1 = "unat divisor div half" and ?u = "unat u32 * half + unat un" and ?v = "unat divisor"
  have v: "unat vn1 = ?v1" "unat vn0 = ?v mod half" "?v1 * half + ?v mod half = ?v"
    by (simp_all add: assms(4,5) unat_high_half unat_low_half)
  have v1: "half \<le> 2 * ?v1" "0 < ?v1" "?v1 < half" "?v mod half < half"
    using assms(1) high_half_less [of divisor] by (simp_all add: half_def)
  have q: "unat (u32 div vn1) = unat u32 div ?v1" by (simp add: v(1) unat_div)
  have le: "unat u32 div ?v1 * ?v1 \<le> unat u32" by simp
  have prod: "unat (u32 div vn1 * vn1) = unat u32 div ?v1 * ?v1"
    using mod_less [OF le_less_trans [OF le unat_digit]] by (simp add: unat_word_ariths(2) q v(1) digit_base_def)
  then have r: "unat (u32 - u32 div vn1 * vn1) = unat u32 mod ?v1"
    using le by (simp add: unat_digit_sub modulo_nat_def mult.commute)
  have "unat u32 < ?v1 * half + half" using assms(2) v(3) v1(4) by linarith
  also have "\<dots> \<le> ?v1 * (half + 2)" using v1(1) by simp
  finally have est: "unat u32 div ?v1 \<le> half + 1" using v1(2) by (simp add: less_mult_imp_div_less mult.commute less_Suc_eq_le [symmetric])
  have u: "?u < half * ?v"
  proof -
    have "?u < (unat u32 + 1) * half" using assms(3) by simp
    also have "\<dots> \<le> ?v * half" using assms(2) by (intro mult_right_mono) auto
    finally show ?thesis by (simp add: mult.commute)
  qed
  then have small: "?u div ?v < half" by (simp add: less_mult_imp_div_less)
  have big: "?u div ?v \<le> unat u32 div ?v1"
  proof -
    have "?u div ?v \<le> ?u div (?v1 * half)" using v(3) v1(2) half_half(2) by (intro div_le_mono2) (simp, metis le_add1)
    also have "\<dots> = ?u div half div ?v1" by (simp add: div_mult2_eq mult.commute)
    also have "\<dots> = unat u32 div ?v1" using assms(3) half_half(2) by simp
    finally show ?thesis .
  qed
  have sum: "unat (u32 div vn1) * ?v1 + unat (u32 - u32 div vn1 * vn1) = unat u32" by (simp only: q r div_mult_mod_eq)
  have "unat (u32 - u32 div vn1 * vn1) < half" using r v1(2,3) mod_less_divisor [of ?v1 "unat u32"] by linarith
  with div_correct_spec [OF sum, of un vn0 vn1] show Q: "unat q = ?u div ?v"
    using assms(3,6) v v1 q est small big by simp
  then show "unat q < half" using small by simp
  have "word_of_nat (?u div ?v * ?v) = q * divisor" by (simp flip: Q)
  moreover have "word_of_nat ?u = u32 * kHalfDigitBase + un" by (simp add: kHalfDigitBase_def push_bit_eq_mult half_def)
  ultimately have "(u32 * kHalfDigitBase + un - q * divisor :: digit) = word_of_nat ?u - word_of_nat (?u div ?v * ?v)" by simp
  also have "\<dots> = word_of_nat (?u mod ?v)" 
    by (simp only: of_nat_diff [OF div_times_less_eq_dividend, symmetric] minus_div_mult_eq_mod)
  finally show "unat (u32 * kHalfDigitBase + un - q * divisor) = ?u mod ?v"
    using assms(1) less_trans [OF mod_less_divisor unat_digit, of divisor ?u] by (simp add: unat_of_nat digit_base_def)
qed

lemma digit_div_spec:
  assumes "high < divisor" and "digit_div high low divisor = (q, r)"
  shows "unat high * digit_base + unat low = unat q * unat divisor + unat r" and "r < divisor"
proof -
  define s where "s = CountLeadingZeros divisor"
  have "divisor \<noteq> 0" using assms(1) by auto
  note S = CountLeadingZeros_spec [OF this, folded s_def]
  define v un32 un10 un1 un0 vn1 vn0 where d: "v = push_bit s divisor"
    "un32 = push_bit s high OR (drop_bit ((kDigitBits - s) mod kDigitBits) low AND (if s = 0 then 0 else - 1))"
    "un10 = push_bit s low" "un1 = drop_bit kHalfDigitBits un10" "un0 = un10 AND kHalfDigitMask"
    "vn1 = drop_bit kHalfDigitBits v" "vn0 = v AND kHalfDigitMask"
  define q1 where "q1 = div_correct (un32 div vn1) (un32 - un32 div vn1 * vn1) vn1 vn0 un1"
  define un21 where "un21 = un32 * kHalfDigitBase + un1 - q1 * v"
  define q0 where "q0 = div_correct (un21 div vn1) (un21 - un21 div vn1 * vn1) vn1 vn0 un0"
  have res: "q = q1 * kHalfDigitBase + q0" "r = drop_bit s (un21 * kHalfDigitBase + un0 - q0 * v)"
    using assms(2) unfolding digit_div_def Let_def s_def [symmetric] d [symmetric] q1_def [symmetric] un21_def [symmetric]
      q0_def [symmetric] by simp_all
  let ?D = "unat divisor * 2 ^ s" and ?N = "unat high * digit_base + unat low"
  have v: "unat v = ?D" using S(3) by (simp add: d(1) unat_push digit_base_def)
  have "(unat high + 1) * 2 ^ s \<le> ?D" using assms(1) by (intro mult_right_mono) (simp_all add: word_less_nat_alt)
  then have hi: "unat high * 2 ^ s + 2 ^ s \<le> ?D" by (simp add: distrib_right)
  then have N: "unat un32 * digit_base + unat un10 = ?N * 2 ^ s" using shifted_dividend [OF S(1) _ d(2)] S(3) d(3) by simp
  have "unat un32 * digit_base < ?D * digit_base"
  proof -
    have "(unat high * digit_base + unat low) * 2 ^ s < (unat high * digit_base + digit_base) * 2 ^ s"
      using unat_digit [of low] by (intro mult_strict_right_mono) auto
    also have "\<dots> = (unat high * 2 ^ s + 2 ^ s) * digit_base" by (simp add: algebra_simps)
    also have "\<dots> \<le> ?D * digit_base" using hi by (rule mult_right_mono) simp
    finally show ?thesis using N by linarith
  qed
  then have u32: "unat un32 < unat v" using v by simp
  have vbig: "2 ^ 63 \<le> unat v" using v S(2) by simp
  have un: "unat un1 < half" "unat un0 < half" "unat un1 * half + unat un0 = unat un10"
    using high_half_less [of un10] by (simp_all add: d(4,5) unat_high_half unat_low_half)
  note H1 = half_division [OF vbig u32 un(1) d(6,7) q1_def, folded un21_def]
  have u21: "unat un21 < unat v" using H1(3) vbig by simp
  note H0 = half_division [OF vbig u21 un(2) d(6,7) q0_def]
  let ?U = "unat un32 * digit_base + unat un10"
  have "?U = (unat un32 * half + unat un1) * half + unat un0" using un(3) by (simp add: half_half algebra_simps)
  also have "\<dots> = (unat q1 * unat v + unat un21) * half + unat un0" using H1(1,3) by simp
  also have "\<dots> = unat q1 * half * unat v + (unat un21 * half + unat un0)" by (simp add: algebra_simps)
  also have "unat un21 * half + unat un0 = unat q0 * unat v + unat (un21 * kHalfDigitBase + un0 - q0 * v)" using H0(1,3) by simp
  finally have U: "?U = (unat q1 * half + unat q0) * unat v + unat (un21 * kHalfDigitBase + un0 - q0 * v)"
    by (simp add: algebra_simps)
  have "0 < unat v" by (rule less_le_trans [OF _ vbig]) simp
  then have lt: "unat (un21 * kHalfDigitBase + un0 - q0 * v) < ?D" unfolding H0(3) v by (rule mod_less_divisor)
  have "unat q1 * half + unat q0 < digit_base"
  proof -
    have "unat q1 * half + unat q0 < (unat q1 + 1) * half" using H0(2) by simp
    also have "\<dots> \<le> half * half" using H1(2) by (intro mult_right_mono) auto
    finally show ?thesis by (simp add: half_half)
  qed
  then have q: "unat q = unat q1 * half + unat q0" unfolding res(1)
    by (simp add: unat_word_ariths half_base(1) half_def digit_base_def mod_simps)
  define w where "w = unat (un21 * kHalfDigitBase + un0 - q0 * v)"
  have r: "unat r = w div 2 ^ s" unfolding res(2) w_def by (simp add: unat_drop)
  have eq: "?N * 2 ^ s = unat q * unat divisor * 2 ^ s + w" using U N v q w_def by (simp add: algebra_simps)
  have "w = (?N - unat q * unat divisor) * 2 ^ s" using eq by (simp add: diff_mult_distrib)
  then have w: "w = unat r * 2 ^ s" using r by simp
  have "?N * 2 ^ s = (unat q * unat divisor + unat r) * 2 ^ s" using eq w by (simp add: distrib_right)
  then show "?N = unat q * unat divisor + unat r" by simp
  have "unat r * 2 ^ s < unat divisor * 2 ^ s" using w lt w_def by simp
  then show "r < divisor" by (simp add: word_less_nat_alt)
qed

text \<open>The portable division of two digits by one, which works in halves after Knuth, is
  exact for every divisor above the high digit: quotient and remainder fit into a digit and
  are those the machine instruction computes.\<close>

lemma digit_div_exact:
  assumes "high < divisor"
  shows "digit_div high low divisor = digit_div_divq high low divisor \<and>
    unat (fst (digit_div high low divisor)) = (unat high * digit_base + unat low) div unat divisor \<and>
    unat (snd (digit_div high low divisor)) = (unat high * digit_base + unat low) mod unat divisor"
proof -
  obtain q r where qr: "digit_div high low divisor = (q, r)" by fastforce
  note D = digit_div_spec [OF assms qr]
  let ?N = "unat high * digit_base + unat low"
  have r: "unat r < unat divisor" using D(2) by (simp add: word_less_nat_alt)
  then have e: "?N div unat divisor = unat q" "?N mod unat divisor = unat r" using D(1) by simp_all
  have n: "unat (push_bit kDigitBits (ucast high :: twodigit) OR ucast low) = ?N"
  proof -
    have "take_bit 64 (ucast low :: twodigit) = ucast low" using unat_digit [of low] by (simp add: word_unat_eq_iff unat_take unat_two digit_base_def)
    then have "push_bit kDigitBits (ucast high :: twodigit) OR ucast low = push_bit kDigitBits (ucast high) + ucast low"
      using push_or_add [of 64 "ucast high :: twodigit" "ucast low"] by simp
    moreover have "unat (push_bit kDigitBits (ucast high :: twodigit)) = unat high * digit_base"
      using unat_digit [of high] by (simp add: unat_push unat_two digit_base_def)
    moreover have "unat high * digit_base + unat low < digit_base * digit_base"
    proof -
      have "unat high * digit_base + unat low < (unat high + 1) * digit_base" using unat_digit [of low] by simp
      also have "\<dots> \<le> digit_base * digit_base" using unat_digit [of high] by (intro mult_right_mono) auto
      finally show ?thesis .
    qed
    ultimately show ?thesis by (simp add: unat_two_add unat_two)
  qed
  let ?d = "push_bit kDigitBits (ucast high :: twodigit) OR ucast low"
  have "unat (?d div ucast divisor) = unat q" "unat (?d mod ucast divisor) = unat r" by (simp_all only: unat_div unat_mod n unat_two e)
  then have "digit_div_divq high low divisor = (q, r)"
    using unat_digit [of q] unat_digit [of r] by (simp add: digit_div_divq_def Let_def word_unat_eq_iff unat_ucast digit_base_def)
  with qr e show ?thesis by simp
qed

end
