(* ===== verification/Bigint_Vectors.thy ===== *)
theory Bigint_Vectors
  imports Bigint_Digits
begin

text \<open>
  Vectors of digits: \<^verbatim>\<open>Digits\<close> of \<^verbatim>\<open>src/bigint/bigint.h\<close> and the operations of
  \<^verbatim>\<open>src/bigint/vector-arithmetic.h\<close> and \<^verbatim>\<open>.cc\<close>. A vector is the list of its digits, the lowest
  first. Result vectors are allocated by the caller: an operation takes the length of the
  result, or its old digits where they matter, and returns its digits. A loop that would
  read behind the end of a vector gives \<^const>\<open>None\<close>.
\<close>

type_synonym digits = "digit list"

section \<open>Views, normalization and comparison\<close>

definition msd :: "digits \<Rightarrow> digit" where
  "msd X = X ! (length X - 1)"

function Normalize :: "digits \<Rightarrow> digits" where
  "Normalize X = (if 0 < length X \<and> msd X = 0 then Normalize (take (length X - 1) X) else X)"
  by pat_completeness auto

termination Normalize
  by (relation "measure length") auto

declare Normalize.simps [simp del]

fun Compare_loop :: "digits \<Rightarrow> digits \<Rightarrow> nat \<Rightarrow> int" where
  "Compare_loop A B 0 = 0"
| "Compare_loop A B (Suc i) = (if A ! i = B ! i then Compare_loop A B i else if A ! i > B ! i then 1 else - 1)"

definition Compare :: "digits \<Rightarrow> digits \<Rightarrow> int" where
  "Compare A0 B0 =
     (let A = Normalize A0; B = Normalize B0; diff = int (length A) - int (length B)
      in if diff \<noteq> 0 then diff else Compare_loop A B (length A))"

definition GreaterThanOrEqual :: "digits \<Rightarrow> digits \<Rightarrow> bool" where
  "GreaterThanOrEqual A B \<longleftrightarrow> Compare A B \<ge> 0"

definition IsDigitNormalized :: "digits \<Rightarrow> bool" where
  "IsDigitNormalized X \<longleftrightarrow> length X = 0 \<or> msd X \<noteq> 0"

definition IsBitNormalized :: "digits \<Rightarrow> bool" where
  "IsBitNormalized X \<longleftrightarrow> drop_bit (kDigitBits - 1) (msd X) = 1"

definition Digits_BitLength :: "digits \<Rightarrow> nat" where
  "Digits_BitLength X = length X * kDigitBits - CountLeadingZeros (msd X)"

section \<open>Addition and subtraction\<close>

text \<open>
  The loops of this file, over the digits of one or two vectors with a carry or borrow.
  The loops over two vectors end with the shorter one, which is the second.
\<close>

fun add3_loop :: "digits \<Rightarrow> digits \<Rightarrow> digit \<Rightarrow> digits \<times> digit" where
  "add3_loop (x # X) (y # Y) carry =
     (case digit_add3 x y carry of (z, carry) \<Rightarrow> case add3_loop X Y carry of (Z, carry) \<Rightarrow> (z # Z, carry))"
| "add3_loop X Y carry = ([], carry)"

fun add2_loop :: "digits \<Rightarrow> digit \<Rightarrow> digits \<times> digit" where
  "add2_loop (x # X) carry =
     (case digit_add2 x carry of (z, carry) \<Rightarrow> case add2_loop X carry of (Z, carry) \<Rightarrow> (z # Z, carry))"
| "add2_loop [] carry = ([], carry)"

fun sub2_loop :: "digits \<Rightarrow> digits \<Rightarrow> digit \<Rightarrow> digits \<times> digit" where
  "sub2_loop (x # X) (y # Y) borrow =
     (case digit_sub2 x y borrow of (z, borrow) \<Rightarrow> case sub2_loop X Y borrow of (Z, borrow) \<Rightarrow> (z # Z, borrow))"
| "sub2_loop X Y borrow = ([], borrow)"

fun sub_loop :: "digits \<Rightarrow> digit \<Rightarrow> digits \<times> digit" where
  "sub_loop (x # X) borrow =
     (case digit_sub x borrow of (z, borrow) \<Rightarrow> case sub_loop X borrow of (Z, borrow) \<Rightarrow> (z # Z, borrow))"
| "sub_loop [] borrow = ([], borrow)"

text \<open>The same with an early end when there is nothing to carry.\<close>

fun add2_until :: "digits \<Rightarrow> digit \<Rightarrow> digits \<times> digit" where
  "add2_until (z # Z) carry =
     (if carry \<noteq> 0
      then case digit_add2 z carry of (z, carry) \<Rightarrow> case add2_until Z carry of (Z, carry) \<Rightarrow> (z # Z, carry)
      else (z # Z, carry))"
| "add2_until [] carry = ([], carry)"

fun sub_until :: "digits \<Rightarrow> digit \<Rightarrow> digits \<times> digit" where
  "sub_until (z # Z) borrow =
     (if borrow \<noteq> 0
      then case digit_sub z borrow of (z, borrow) \<Rightarrow> case sub_until Z borrow of (Z, borrow) \<Rightarrow> (z # Z, borrow)
      else (z # Z, borrow))"
| "sub_until [] borrow = ([], borrow)"

definition AddAndReturnOverflow :: "digits \<Rightarrow> digits \<Rightarrow> digits \<times> digit" where
  "AddAndReturnOverflow Z X0 =
     (let X = Normalize X0
      in if length X = 0 then (Z, 0)
         else case add3_loop Z X 0 of (Z1, carry) \<Rightarrow>
              case add2_until (drop (length X) Z) carry of (Z2, carry) \<Rightarrow> (Z1 @ Z2, carry))"

definition SubAndReturnBorrow :: "digits \<Rightarrow> digits \<Rightarrow> digits \<times> digit" where
  "SubAndReturnBorrow Z X0 =
     (let X = Normalize X0
      in if length X = 0 then (Z, 0)
         else case sub2_loop Z X 0 of (Z1, borrow) \<Rightarrow>
              case sub_until (drop (length X) Z) borrow of (Z2, borrow) \<Rightarrow> (Z1 @ Z2, borrow))"

text \<open>\<^verbatim>\<open>Add(X, y)\<close> and \<^verbatim>\<open>Subtract(X, y)\<close> for one digit: the loops run until nothing is left to
  carry and do not look at the length.\<close>

fun Add_digit :: "digits \<Rightarrow> digit \<Rightarrow> digits option" where
  "Add_digit [] carry = None"
| "Add_digit (x # X) carry =
     (case digit_add2 x carry of (z, carry) \<Rightarrow>
        if carry \<noteq> 0 then map_option (Cons z) (Add_digit X carry) else Some (z # X))"

fun Subtract_digit :: "digits \<Rightarrow> digit \<Rightarrow> digits option" where
  "Subtract_digit [] borrow = None"
| "Subtract_digit (x # X) borrow =
     (case digit_sub x borrow of (z, borrow) \<Rightarrow>
        if borrow \<noteq> 0 then map_option (Cons z) (Subtract_digit X borrow) else Some (z # X))"

text \<open>The rest of the result: the carry, then zeros.\<close>

primrec fill_carry :: "nat \<Rightarrow> digit \<Rightarrow> digits" where
  "fill_carry 0 carry = []"
| "fill_carry (Suc n) carry = carry # fill_carry n 0"

definition Add_longer :: "nat \<Rightarrow> digits \<Rightarrow> digits \<Rightarrow> digits" where
  "Add_longer Zlen X Y =
     (case add3_loop X Y 0 of (Z1, carry) \<Rightarrow>
      case add2_loop (drop (length Y) X) carry of (Z2, carry) \<Rightarrow>
        Z1 @ Z2 @ fill_carry (Zlen - length X) carry)"

definition Add_digits :: "nat \<Rightarrow> digits \<Rightarrow> digits \<Rightarrow> digits" where
  "Add_digits Zlen X Y = (if length X < length Y then Add_longer Zlen Y X else Add_longer Zlen X Y)"

definition Subtract_digits :: "nat \<Rightarrow> digits \<Rightarrow> digits \<Rightarrow> digits" where
  "Subtract_digits Zlen X0 Y0 =
     (let X = Normalize X0; Y = Normalize Y0
      in case sub2_loop X Y 0 of (Z1, borrow) \<Rightarrow>
         case sub_loop (drop (length Y) X) borrow of (Z2, borrow) \<Rightarrow>
           Z1 @ Z2 @ replicate (Zlen - length X) 0)"

text \<open>Exactly the digits of \<open>Y\<close>; the higher digits of the result stay.\<close>

definition AddAndReturnCarry :: "digits \<Rightarrow> digits \<Rightarrow> digits \<Rightarrow> digits \<times> digit" where
  "AddAndReturnCarry Z X Y = (case add3_loop X Y 0 of (Z1, carry) \<Rightarrow> (Z1 @ drop (length Y) Z, carry))"

definition SubtractAndReturnBorrow :: "digits \<Rightarrow> digits \<Rightarrow> digits \<Rightarrow> digits \<times> digit" where
  "SubtractAndReturnBorrow Z X Y = (case sub2_loop X Y 0 of (Z1, borrow) \<Rightarrow> (Z1 @ drop (length Y) Z, borrow))"

definition AddSigned :: "nat \<Rightarrow> digits \<Rightarrow> bool \<Rightarrow> digits \<Rightarrow> bool \<Rightarrow> digits \<times> bool" where
  "AddSigned Zlen X x_negative Y y_negative =
     (if x_negative = y_negative then (Add_digits Zlen X Y, x_negative)
      else if GreaterThanOrEqual X Y then (Subtract_digits Zlen X Y, x_negative)
      else (Subtract_digits Zlen Y X, \<not> x_negative))"

definition SubtractSigned :: "nat \<Rightarrow> digits \<Rightarrow> bool \<Rightarrow> digits \<Rightarrow> bool \<Rightarrow> digits \<times> bool" where
  "SubtractSigned Zlen X x_negative Y y_negative =
     (if x_negative \<noteq> y_negative then (Add_digits Zlen X Y, x_negative)
      else if GreaterThanOrEqual X Y then (Subtract_digits Zlen X Y, x_negative)
      else (Subtract_digits Zlen Y X, \<not> x_negative))"

definition AddResultLength :: "nat \<Rightarrow> nat \<Rightarrow> nat" where
  "AddResultLength x_length y_length = max x_length y_length + 1"

definition AddSignedResultLength :: "nat \<Rightarrow> nat \<Rightarrow> bool \<Rightarrow> nat" where
  "AddSignedResultLength x_length y_length same_sign =
     (if same_sign then AddResultLength x_length y_length else max x_length y_length)"

definition SubtractSignedResultLength :: "nat \<Rightarrow> nat \<Rightarrow> bool \<Rightarrow> nat" where
  "SubtractSignedResultLength x_length y_length same_sign =
     (if same_sign then max x_length y_length else AddResultLength x_length y_length)"

definition AddOne :: "nat \<Rightarrow> digits \<Rightarrow> digits" where
  "AddOne Zlen X =
     (case add2_until X 1 of (Z, carry) \<Rightarrow>
        let Z = (if carry > 0 then Z @ [carry] else Z) in Z @ replicate (Zlen - length Z) 0)"

fun SubtractOne_loop :: "digits \<Rightarrow> digit \<Rightarrow> digits option" where
  "SubtractOne_loop (x # X) borrow =
     (if borrow > 0
      then case digit_sub x borrow of (z, borrow) \<Rightarrow> map_option (Cons z) (SubtractOne_loop X borrow)
      else Some (x # X))"
| "SubtractOne_loop [] borrow = (if borrow > 0 then None else Some [])"

definition SubtractOne :: "nat \<Rightarrow> digits \<Rightarrow> digits option" where
  "SubtractOne Zlen X = map_option (\<lambda>Z. Z @ replicate (Zlen - length Z) 0) (SubtractOne_loop X 1)"

section \<open>The value of a vector\<close>

primrec digits_value :: "digits \<Rightarrow> nat" where
  "digits_value [] = 0"
| "digits_value (d # ds) = unat d + digit_base * digits_value ds"

lemma value_append: "digits_value (X @ Y) = digits_value X + digit_base ^ length X * digits_value Y"
  by (induction X) (simp_all add: algebra_simps)

lemma value_zeros [simp]: "digits_value (replicate n 0) = 0"
  by (induction n) simp_all

lemma value_less: "digits_value X < digit_base ^ length X"
proof (induction X)
  case (Cons d X)
  have "unat d + digit_base * digits_value X < digit_base + digit_base * digits_value X" using unat_digit [of d] by simp
  also have "\<dots> = digit_base * (digits_value X + 1)" by simp
  also have "\<dots> \<le> digit_base * digit_base ^ length X" using Cons by (intro mult_left_mono) auto
  finally show ?case by simp
qed simp

lemma value_split: "digits_value X = digits_value (take n X) + digit_base ^ min (length X) n * digits_value (drop n X)"
  using value_append [of "take n X" "drop n X"] by simp

lemma value_fill_carry: "digits_value (fill_carry n c) = (if n = 0 then 0 else unat c)" "length (fill_carry n c) = n"
proof -
  have z: "digits_value (fill_carry m 0) = 0" for m by (induction m) simp_all
  show "digits_value (fill_carry n c) = (if n = 0 then 0 else unat c)" by (cases n) (simp_all add: z)
  show "length (fill_carry n c) = n" by (induction n arbitrary: c) simp_all
qed

text \<open>Only the zero vector has no highest digit after normalization.\<close>

lemma Normalize_spec:
  "digits_value (Normalize X) = digits_value X \<and> IsDigitNormalized (Normalize X) \<and> length (Normalize X) \<le> length X \<and>
   (\<exists>n. X = Normalize X @ replicate n 0)"
proof (induction X rule: Normalize.induct)
  case (1 X)
  show ?case
  proof (cases "0 < length X \<and> msd X = 0")
    case True
    then have e: "X = take (length X - 1) X @ [0]"
      using take_Suc_conv_app_nth [of "length X - 1" X] by (simp add: msd_def)
    have v: "digits_value (take (length X - 1) X) = digits_value X" using value_append [of "take (length X - 1) X" "[0]"] e by simp
    from 1 [OF True] obtain n where IH: "digits_value (Normalize (take (length X - 1) X)) = digits_value (take (length X - 1) X)"
      "IsDigitNormalized (Normalize (take (length X - 1) X))" "length (Normalize (take (length X - 1) X)) \<le> length X - 1"
      "take (length X - 1) X = Normalize (take (length X - 1) X) @ replicate n 0" by auto
    have "X = Normalize (take (length X - 1) X) @ replicate (Suc n) 0"
      using e IH(4) by (metis append.assoc replicate_append_same replicate_Suc)
    with IH(1-3) v True show ?thesis by (auto simp: Normalize.simps [of X] intro!: exI [of _ "Suc n"])
  next
    case False
    then show ?thesis by (auto simp: Normalize.simps [of X] IsDigitNormalized_def intro: exI [of _ 0])
  qed
qed

lemmas Normalize_value [simp] = Normalize_spec [THEN conjunct1]
lemmas Normalize_normal = Normalize_spec [THEN conjunct2, THEN conjunct1]
lemmas Normalize_length = Normalize_spec [THEN conjunct2, THEN conjunct2, THEN conjunct1]

lemma normal_lower:
  assumes "IsDigitNormalized X" and "X \<noteq> []"
  shows "digit_base ^ (length X - 1) \<le> digits_value X"
proof -
  have "X = take (length X - 1) X @ [msd X]"
    using take_Suc_conv_app_nth [of "length X - 1" X] assms(2) by (simp add: msd_def)
  then have "digits_value X = digits_value (take (length X - 1) X) + digit_base ^ (length X - 1) * unat (msd X)"
    using value_append [of "take (length X - 1) X" "[msd X]"] by simp
  moreover have "1 \<le> unat (msd X)" using assms by (simp add: IsDigitNormalized_def Suc_le_eq unat_gt_0)
  then have "digit_base ^ (length X - 1) * 1 \<le> digit_base ^ (length X - 1) * unat (msd X)" by (rule mult_left_mono) simp
  ultimately show ?thesis by linarith
qed

lemma normal_length_le:
  assumes "IsDigitNormalized X" and "digits_value X < digit_base ^ n"
  shows "length X \<le> n"
proof (cases "X = []")
  case False
  have "digit_base ^ (length X - 1) < digit_base ^ n" using normal_lower [OF assms(1) False] assms(2) by simp
  then have "length X - 1 < n" using power_strict_increasing_iff [of digit_base "length X - 1" n] by (simp add: digit_base_def)
  then show ?thesis by simp
qed simp

lemma sgn_diff: "a < b \<Longrightarrow> sgn (int a - int b) = - 1" "b < a \<Longrightarrow> sgn (int a - int b) = 1"
  by (simp_all add: sgn_if)

lemma Compare_loop_spec:
  assumes "n \<le> length A" and "n \<le> length B"
  shows "sgn (Compare_loop A B n) = sgn (int (digits_value (take n A)) - int (digits_value (take n B)))"
  using assms
proof (induction n)
  case (Suc n)
  have s: "digits_value (take (Suc n) V) = digits_value (take n V) + digit_base ^ n * unat (V ! n)" if "n < length V" for V
    using that by (simp add: take_Suc_conv_app_nth value_append)
  have l: "digits_value (take n V) < digit_base ^ n" if "n < length V" for V using that value_less [of "take n V"] by simp
  have less': "v + digit_base ^ n * a < w + digit_base ^ n * b" if "a < b" "v < digit_base ^ n" for a b v w :: nat
  proof -
    have "v + digit_base ^ n * a < digit_base ^ n * (a + 1)" using that(2) by simp
    also have "\<dots> \<le> digit_base ^ n * b" using that(1) by (intro mult_left_mono) auto
    finally show ?thesis by simp
  qed
  show ?case
  proof (cases "unat (A ! n)" "unat (B ! n)" rule: linorder_cases)
    case less
    then have "digits_value (take (Suc n) A) < digits_value (take (Suc n) B)" using Suc(2,3) s l less' by simp
    from sgn_diff(1) [OF this] less show ?thesis by (auto simp: word_less_nat_alt)
  next
    case equal
    then have "A ! n = B ! n" by (simp add: word_unat_eq_iff)
    with Suc s show ?thesis by simp
  next
    case greater
    then have "digits_value (take (Suc n) B) < digits_value (take (Suc n) A)" using Suc(2,3) s l less' by simp
    from sgn_diff(2) [OF this] greater show ?thesis by (auto simp: word_less_nat_alt)
  qed
qed simp

lemma Compare_spec: "sgn (Compare A B) = sgn (int (digits_value A) - int (digits_value B))"
proof -
  let ?A = "Normalize A" and ?B = "Normalize B"
  have lt: "digits_value X < digits_value Y" if "length X < length Y" "IsDigitNormalized Y" for X Y
  proof -
    have "digits_value X < digit_base ^ length X" by (rule value_less)
    also have "\<dots> \<le> digit_base ^ (length Y - 1)" using that(1) by (intro power_increasing) (simp_all add: Suc_le_eq)
    also have "\<dots> \<le> digits_value Y" using that by (intro normal_lower) auto
    finally show ?thesis .
  qed
  show ?thesis
    using lt [of ?A ?B] lt [of ?B ?A] Normalize_normal [of A] Normalize_normal [of B] Compare_loop_spec [of "length ?A" ?A ?B]
    by (cases "length ?A" "length ?B" rule: linorder_cases) (auto simp: Compare_def Let_def)
qed

lemma GreaterThanOrEqual_spec: "GreaterThanOrEqual A B \<longleftrightarrow> digits_value B \<le> digits_value A"
  using Compare_spec [of A B] by (auto simp: GreaterThanOrEqual_def sgn_if split: if_splits)

section \<open>The loops\<close>

lemma add3_loop_spec:
  assumes "add3_loop X Y c = (Z, c')" and "length Y \<le> length X" and "unat c \<le> 1"
  shows "length Z = length Y \<and> unat c' \<le> 1 \<and>
    digits_value Z + digit_base ^ length Y * unat c' = digits_value (take (length Y) X) + digits_value Y + unat c"
  using assms
proof (induction X Y c arbitrary: Z rule: add3_loop.induct)
  case (1 x X y Y c)
  obtain z c1 where d: "digit_add3 x y c = (z, c1)" by fastforce
  obtain Z1 where l: "add3_loop X Y c1 = (Z1, c')" "Z = z # Z1" using "1.prems"(1) d by (auto split: prod.splits)
  note A = native.add3 [OF d] and c1 = native.add3_carry1 [OF d "1.prems"(3)]
  from "1.IH" [OF d [symmetric] l(1)] "1.prems"(2) c1 have IH: "length Z1 = length Y" "unat c' \<le> 1"
    "digits_value Z1 + digit_base ^ length Y * unat c' = digits_value (take (length Y) X) + digits_value Y + unat c1" by auto
  have "unat z + digit_base * (digits_value Z1 + digit_base ^ length Y * unat c') =
      unat x + unat y + unat c + digit_base * (digits_value (take (length Y) X) + digits_value Y)"
    unfolding IH(3) using A by (simp add: distrib_left)
  with IH(1,2) l(2) show ?case by (simp add: algebra_simps)
qed auto

lemma add2_loop_spec:
  assumes "add2_loop X c = (Z, c')"
  shows "length Z = length X \<and> (unat c \<le> 1 \<longrightarrow> unat c' \<le> 1) \<and>
    digits_value Z + digit_base ^ length X * unat c' = digits_value X + unat c"
  using assms
proof (induction X c arbitrary: Z rule: add2_loop.induct)
  case (1 x X c)
  obtain z c1 where d: "digit_add2 x c = (z, c1)" by fastforce
  obtain Z1 where l: "add2_loop X c1 = (Z1, c')" "Z = z # Z1" using "1.prems" d by (auto split: prod.splits)
  from "1.IH" [OF d [symmetric] l(1)] native.add2_carry [OF d] have IH: "length Z1 = length X" "unat c' \<le> 1"
    "digits_value Z1 + digit_base ^ length X * unat c' = digits_value X + unat c1" by auto
  have "unat z + digit_base * (digits_value Z1 + digit_base ^ length X * unat c') = unat x + unat c + digit_base * digits_value X"
    unfolding IH(3) using native.add2 [OF d] by (simp add: distrib_left)
  with IH(1,2) l(2) show ?case by (simp add: algebra_simps)
qed auto

lemma add2_until_loop:
  "add2_until X c = (Z, c') \<Longrightarrow> length Z = length X \<and> digits_value Z + digit_base ^ length X * unat c' = digits_value X + unat c"
proof (induction X c arbitrary: Z rule: add2_until.induct)
  case (1 x X c)
  show ?case
  proof (cases "c = 0")
    case False
    obtain z c1 where d: "digit_add2 x c = (z, c1)" by fastforce
    obtain Z1 where l: "add2_until X c1 = (Z1, c')" "Z = z # Z1" using "1.prems" d False by (auto split: prod.splits)
    from "1.IH" [OF False d [symmetric] l(1)] have IH: "length Z1 = length X"
      "digits_value Z1 + digit_base ^ length X * unat c' = digits_value X + unat c1" by auto
    have "unat z + digit_base * (digits_value Z1 + digit_base ^ length X * unat c') = unat x + unat c + digit_base * digits_value X"
      unfolding IH(2) using native.add2 [OF d] by (simp add: distrib_left)
    with IH(1) l(2) show ?thesis by (simp add: algebra_simps)
  qed (use "1.prems" in auto)
qed auto

lemma sub2_loop_spec:
  assumes "sub2_loop X Y b = (Z, b')" and "length Y \<le> length X" and "unat b \<le> 1"
  shows "length Z = length Y \<and> unat b' \<le> 1 \<and>
    digits_value Z + digits_value Y + unat b = digits_value (take (length Y) X) + digit_base ^ length Y * unat b'"
  using assms
proof (induction X Y b arbitrary: Z rule: sub2_loop.induct)
  case (1 x X y Y b)
  obtain z b1 where d: "digit_sub2 x y b = (z, b1)" by fastforce
  obtain Z1 where l: "sub2_loop X Y b1 = (Z1, b')" "Z = z # Z1" using "1.prems"(1) d by (auto split: prod.splits)
  note A = native.sub2 [OF d "1.prems"(3)] and b1 = native.sub2_borrow [OF d "1.prems"(3)]
  from "1.IH" [OF d [symmetric] l(1)] "1.prems"(2) b1 have IH: "length Z1 = length Y" "unat b' \<le> 1"
    "digits_value Z1 + digits_value Y + unat b1 = digits_value (take (length Y) X) + digit_base ^ length Y * unat b'" by auto
  have "digit_base * (digits_value Z1 + digits_value Y + unat b1) = digit_base * (digits_value (take (length Y) X) + digit_base ^ length Y * unat b')"
    using IH(3) by simp
  with A IH(1,2) l(2) show ?case by (simp add: algebra_simps)
qed auto

lemma sub_loop_spec:
  assumes "sub_loop X b = (Z, b')"
  shows "length Z = length X \<and> (unat b \<le> 1 \<longrightarrow> unat b' \<le> 1) \<and>
    digits_value Z + unat b = digits_value X + digit_base ^ length X * unat b'"
  using assms
proof (induction X b arbitrary: Z rule: sub_loop.induct)
  case (1 x X b)
  obtain z b1 where d: "digit_sub x b = (z, b1)" by fastforce
  obtain Z1 where l: "sub_loop X b1 = (Z1, b')" "Z = z # Z1" using "1.prems" d by (auto split: prod.splits)
  from "1.IH" [OF d [symmetric] l(1)] native.sub_borrow [OF d] have IH: "length Z1 = length X" "unat b' \<le> 1"
    "digits_value Z1 + unat b1 = digits_value X + digit_base ^ length X * unat b'" by auto
  have "digit_base * (digits_value Z1 + unat b1) = digit_base * (digits_value X + digit_base ^ length X * unat b')" using IH(3) by simp
  with native.sub [OF d] IH(1,2) l(2) show ?case by (simp add: algebra_simps)
qed auto

lemma sub_until_loop:
  "sub_until X b = (Z, b') \<Longrightarrow> length Z = length X \<and> digits_value Z + unat b = digits_value X + digit_base ^ length X * unat b'"
proof (induction X b arbitrary: Z rule: sub_until.induct)
  case (1 x X b)
  show ?case
  proof (cases "b = 0")
    case False
    obtain z b1 where d: "digit_sub x b = (z, b1)" by fastforce
    obtain Z1 where l: "sub_until X b1 = (Z1, b')" "Z = z # Z1" using "1.prems" d False by (auto split: prod.splits)
    from "1.IH" [OF False d [symmetric] l(1)] have IH: "length Z1 = length X"
      "digits_value Z1 + unat b1 = digits_value X + digit_base ^ length X * unat b'" by auto
    have "digit_base * (digits_value Z1 + unat b1) = digit_base * (digits_value X + digit_base ^ length X * unat b')" using IH(2) by simp
    with native.sub [OF d] IH(1) l(2) show ?thesis by (simp add: algebra_simps)
  qed (use "1.prems" in auto)
qed auto

section \<open>Sums and differences\<close>

lemma mod_of_sum: "a + m * c = n \<Longrightarrow> a < m \<Longrightarrow> a = (n :: nat) mod m"
  by auto

text \<open>Two loops, one behind the other, give one equation.\<close>

lemma carry_join:
  assumes "digits_value Z1 + digit_base ^ k * c1 = v1 + w" and "digits_value Z2 + digit_base ^ l * c2 = v2 + c1" and "length Z1 = k"
  shows "digits_value (Z1 @ Z2) + digit_base ^ (k + l) * c2 = v1 + digit_base ^ k * v2 + w"
proof -
  have "digit_base ^ k * (digits_value Z2 + digit_base ^ l * c2) = digit_base ^ k * (v2 + c1)" using assms(2) by simp
  then show ?thesis using assms(1,3) by (simp add: value_append power_add algebra_simps)
qed

lemma borrow_join:
  assumes "digits_value Z1 + w = v1 + digit_base ^ k * b1" and "digits_value Z2 + b1 = v2 + digit_base ^ l * b2" and "length Z1 = k"
  shows "digits_value (Z1 @ Z2) + w = v1 + digit_base ^ k * v2 + digit_base ^ (k + l) * b2"
proof -
  have "digit_base ^ k * (digits_value Z2 + b1) = digit_base ^ k * (v2 + digit_base ^ l * b2)" using assms(2) by simp
  then show ?thesis using assms(1,3) by (simp add: value_append power_add algebra_simps)
qed

lemma value_take_drop: "n \<le> length X \<Longrightarrow> digits_value (take n X) + digit_base ^ n * digits_value (drop n X) = digits_value X"
  using value_split [of X n] by simp

lemma value_take: "digits_value (take n X) = digits_value X mod digit_base ^ n"
proof (cases "n \<le> length X")
  case True
  then have "digits_value X mod digit_base ^ n = digits_value (take n X) mod digit_base ^ n"
    by (simp flip: value_take_drop [OF True])
  then show ?thesis using value_less [of "take n X"] True by (simp add: min_absorb2)
next
  case False
  have "digits_value X < digit_base ^ n"
    by (rule less_le_trans [OF value_less]) (use False in \<open>simp add: power_increasing Suc_le_eq\<close>)
  then show ?thesis using False by simp
qed

lemma value_take_less: "digits_value (take n X) < digit_base ^ n"
  by (simp add: value_take)

lemma Add_longer_spec:
  assumes "length Y \<le> length X" and "length X \<le> Zlen"
  shows "length (Add_longer Zlen X Y) = Zlen \<and>
    digits_value (Add_longer Zlen X Y) = (digits_value X + digits_value Y) mod digit_base ^ Zlen"
proof -
  obtain Z1 c1 where 1: "add3_loop X Y 0 = (Z1, c1)" by fastforce
  obtain Z2 c2 where 2: "add2_loop (drop (length Y) X) c1 = (Z2, c2)" by fastforce
  note A = add3_loop_spec [OF 1 assms(1)] add2_loop_spec [OF 2]
  have len: "length Z1 = length Y" "length Z2 = length X - length Y" using A by auto
  have "digits_value (Z1 @ Z2) + digit_base ^ (length Y + (length X - length Y)) * unat c2 =
      digits_value (take (length Y) X) + digit_base ^ length Y * digits_value (drop (length Y) X) + digits_value Y"
    using A assms(1) by (intro carry_join [where ?c1.0 = "unat c1"]) auto
  then have sum: "digits_value (Z1 @ Z2) + digit_base ^ length X * unat c2 = digits_value X + digits_value Y"
    using assms(1) value_take_drop [OF assms(1)] by simp
  let ?Z = "(Z1 @ Z2) @ fill_carry (Zlen - length X) c2"
  have Z: "Add_longer Zlen X Y = ?Z" by (simp add: Add_longer_def 1 2)
  have lz: "length ?Z = Zlen" using len assms by (simp add: value_fill_carry(2))
  have v: "digits_value ?Z = digits_value (Z1 @ Z2) + digit_base ^ length X * digits_value (fill_carry (Zlen - length X) c2)"
    using len assms(1) by (simp add: value_append [of "Z1 @ Z2"] del: append_assoc)
  have "digits_value ?Z + digit_base ^ Zlen * (if Zlen = length X then unat c2 else 0) = digits_value X + digits_value Y"
    using v sum assms(2) by (auto simp: value_fill_carry(1))
  moreover have "digits_value ?Z < digit_base ^ Zlen" using value_less [of ?Z] lz by simp
  ultimately show ?thesis using mod_of_sum lz Z by metis
qed

lemma Add_digits_spec:
  assumes "length X \<le> Zlen" and "length Y \<le> Zlen"
  shows "length (Add_digits Zlen X Y) = Zlen"
    and "digits_value (Add_digits Zlen X Y) = (digits_value X + digits_value Y) mod digit_base ^ Zlen"
  using Add_longer_spec [of X Y Zlen] Add_longer_spec [of Y X Zlen] assms by (auto simp: Add_digits_def add.commute)

lemma Subtract_digits_spec:
  assumes "digits_value Y \<le> digits_value X" and "length (Normalize X) \<le> Zlen"
  shows "length (Subtract_digits Zlen X Y) = Zlen"
    and "digits_value (Subtract_digits Zlen X Y) = digits_value X - digits_value Y"
proof -
  let ?X = "Normalize X" and ?Y = "Normalize Y"
  have le: "length ?Y \<le> length ?X"
    using normal_length_le [OF Normalize_normal, of Y "length ?X"] value_less [of ?X] assms(1) by simp
  obtain Z1 b1 where 1: "sub2_loop ?X ?Y 0 = (Z1, b1)" by fastforce
  obtain Z2 b2 where 2: "sub_loop (drop (length ?Y) ?X) b1 = (Z2, b2)" by fastforce
  note A = sub2_loop_spec [OF 1 le] sub_loop_spec [OF 2]
  have len: "length Z1 = length ?Y" "length Z2 = length ?X - length ?Y" using A by auto
  have "digits_value (Z1 @ Z2) + digits_value ?Y = digits_value (take (length ?Y) ?X) +
      digit_base ^ length ?Y * digits_value (drop (length ?Y) ?X) + digit_base ^ (length ?Y + (length ?X - length ?Y)) * unat b2"
    using A by (intro borrow_join [where ?b1.0 = "unat b1"]) auto
  then have sum: "digits_value (Z1 @ Z2) + digits_value Y = digits_value X + digit_base ^ length ?X * unat b2"
    using le value_take_drop [OF le] by simp
  have "digits_value (Z1 @ Z2) < digit_base ^ length ?X" using value_less [of "Z1 @ Z2"] len le by simp
  then have "digit_base ^ length ?X * unat b2 < digit_base ^ length ?X * 1" using sum assms(1) by linarith
  then have "unat b2 = 0" by simp
  with sum have v: "digits_value (Z1 @ Z2) = digits_value X - digits_value Y" by simp
  have Z: "Subtract_digits Zlen X Y = (Z1 @ Z2) @ replicate (Zlen - length ?X) 0" by (simp add: Subtract_digits_def 1 2)
  show "length (Subtract_digits Zlen X Y) = Zlen" unfolding Z using len le assms(2) by simp
  show "digits_value (Subtract_digits Zlen X Y) = digits_value X - digits_value Y"
    unfolding Z value_append [of "Z1 @ Z2"] using v by simp
qed

section \<open>Signed sums\<close>

text \<open>Big integers are kept as sign and magnitude.\<close>

definition signed_value :: "bool \<Rightarrow> digits \<Rightarrow> int" where
  "signed_value negative X = (if negative then - int (digits_value X) else int (digits_value X))"

lemma sum_fits:
  assumes "length X < n" and "length Y < n"
  shows "digits_value X + digits_value Y < digit_base ^ n"
proof -
  obtain m where m: "n = Suc m" using assms(1) by (cases n) auto
  have "digits_value V < digit_base ^ m" if "length V \<le> m" for V :: digits
    using value_less [of V] power_increasing [of "length V" m digit_base] that by (simp add: Suc_le_eq)
  from this [of X] this [of Y] have "digits_value X + digits_value Y < 2 * digit_base ^ m" using assms m by simp
  also have "\<dots> \<le> digit_base * digit_base ^ m" by (intro mult_right_mono) (simp_all add: digit_base_def)
  finally show ?thesis using m by simp
qed

lemma Add_digits_exact:
  assumes "length X < Zlen" and "length Y < Zlen"
  shows "length (Add_digits Zlen X Y) = Zlen" and "digits_value (Add_digits Zlen X Y) = digits_value X + digits_value Y"
  using Add_digits_spec [of X Zlen Y] sum_fits [OF assms] assms by simp_all

lemma difference_fits:
  "digits_value Y \<le> digits_value X \<Longrightarrow> length X \<le> Zlen \<Longrightarrow>
   length (Subtract_digits Zlen X Y) = Zlen \<and> int (digits_value (Subtract_digits Zlen X Y)) = int (digits_value X) - int (digits_value Y)"
  using Subtract_digits_spec [of Y X Zlen] le_trans [OF Normalize_length] by simp

text \<open>Sums and differences of sign-and-magnitude integers: with a result vector of the
  length the library asks for, or longer, \<^verbatim>\<open>AddSigned\<close> and \<^verbatim>\<open>SubtractSigned\<close> fill it with the
  magnitude of the exact result and return its sign, for vectors of any length, leading zeros
  included.\<close>

lemma signed_sums_exact:
  "(case AddSigned (AddSignedResultLength (length X) (length Y) (x_negative = y_negative) + k) X x_negative Y y_negative of (Z, negative) \<Rightarrow>
      length Z = AddSignedResultLength (length X) (length Y) (x_negative = y_negative) + k \<and>
      signed_value negative Z = signed_value x_negative X + signed_value y_negative Y) \<and>
   (case SubtractSigned (SubtractSignedResultLength (length X) (length Y) (x_negative = y_negative) + k) X x_negative Y y_negative of (Z, negative) \<Rightarrow>
      length Z = SubtractSignedResultLength (length X) (length Y) (x_negative = y_negative) + k \<and>
      signed_value negative Z = signed_value x_negative X - signed_value y_negative Y)"
proof -
  note A = Add_digits_exact [of X "max (length X) (length Y) + 1 + k" Y]
  note D = difference_fits [of Y X "max (length X) (length Y) + k"] difference_fits [of X Y "max (length X) (length Y) + k"]
  show ?thesis
    using A D by (auto simp: AddSigned_def SubtractSigned_def AddSignedResultLength_def SubtractSignedResultLength_def
        AddResultLength_def GreaterThanOrEqual_spec signed_value_def)
qed

section \<open>Operations in place\<close>

lemma AddAndReturnOverflow_spec:
  assumes "AddAndReturnOverflow Z X = (Z', c)" and "length (Normalize X) \<le> length Z"
  shows "length Z' = length Z" and "digits_value Z' + digit_base ^ length Z * unat c = digits_value Z + digits_value X"
proof -
  let ?X = "Normalize X"
  have "length Z' = length Z \<and> digits_value Z' + digit_base ^ length Z * unat c = digits_value Z + digits_value ?X"
  proof (cases "?X = []")
    case True
    then show ?thesis using assms(1) by (auto simp: AddAndReturnOverflow_def)
  next
    case False
    obtain Z1 c1 where 1: "add3_loop Z ?X 0 = (Z1, c1)" by fastforce
    obtain Z2 where 2: "add2_until (drop (length ?X) Z) c1 = (Z2, c)" "Z' = Z1 @ Z2"
      using assms(1) False 1 by (auto simp: AddAndReturnOverflow_def Let_def split: prod.splits)
    note A = add3_loop_spec [OF 1 assms(2)] add2_until_loop [OF 2(1)]
    have "digits_value (Z1 @ Z2) + digit_base ^ (length ?X + (length Z - length ?X)) * unat c =
        digits_value (take (length ?X) Z) + digit_base ^ length ?X * digits_value (drop (length ?X) Z) + digits_value ?X"
      using A by (intro carry_join [where ?c1.0 = "unat c1"]) auto
    with A 2(2) assms(2) value_take_drop [OF assms(2)] show ?thesis by simp
  qed
  then show "length Z' = length Z" "digits_value Z' + digit_base ^ length Z * unat c = digits_value Z + digits_value X" by simp_all
qed

lemma SubAndReturnBorrow_spec:
  assumes "SubAndReturnBorrow Z X = (Z', b)" and "length (Normalize X) \<le> length Z"
  shows "length Z' = length Z" and "digits_value Z' + digits_value X = digits_value Z + digit_base ^ length Z * unat b"
proof -
  let ?X = "Normalize X"
  have "length Z' = length Z \<and> digits_value Z' + digits_value ?X = digits_value Z + digit_base ^ length Z * unat b"
  proof (cases "?X = []")
    case True
    then show ?thesis using assms(1) by (auto simp: SubAndReturnBorrow_def)
  next
    case False
    obtain Z1 b1 where 1: "sub2_loop Z ?X 0 = (Z1, b1)" by fastforce
    obtain Z2 where 2: "sub_until (drop (length ?X) Z) b1 = (Z2, b)" "Z' = Z1 @ Z2"
      using assms(1) False 1 by (auto simp: SubAndReturnBorrow_def Let_def split: prod.splits)
    note A = sub2_loop_spec [OF 1 assms(2)] sub_until_loop [OF 2(1)]
    have "digits_value (Z1 @ Z2) + digits_value ?X = digits_value (take (length ?X) Z) +
        digit_base ^ length ?X * digits_value (drop (length ?X) Z) + digit_base ^ (length ?X + (length Z - length ?X)) * unat b"
      using A by (intro borrow_join [where ?b1.0 = "unat b1"]) auto
    with A 2(2) assms(2) value_take_drop [OF assms(2)] show ?thesis by simp
  qed
  then show "length Z' = length Z" "digits_value Z' + digits_value X = digits_value Z + digit_base ^ length Z * unat b" by simp_all
qed

lemma Add_digit_spec:
  assumes "digits_value X + unat y < digit_base ^ length X" and "X \<noteq> []"
  shows "\<exists>Z. Add_digit X y = Some Z \<and> length Z = length X \<and> digits_value Z = digits_value X + unat y"
  using assms
proof (induction X y rule: Add_digit.induct)
  case (2 x X c)
  obtain z c1 where d: "digit_add2 x c = (z, c1)" by fastforce
  note A = native.add2 [OF d]
  show ?case
  proof (cases "c1 = 0")
    case True
    then show ?thesis using A d by simp
  next
    case False
    have "digit_base * (digits_value X + unat c1) \<le> unat x + unat c + digit_base * digits_value X" using A by (simp add: distrib_left)
    also have "\<dots> < digit_base * digit_base ^ length X" using "2.prems"(1) by simp
    finally have lt: "digits_value X + unat c1 < digit_base ^ length X" by (rule base_times_less)
    moreover have "X \<noteq> []" using lt False by (auto simp: unat_eq_zero)
    ultimately obtain Z where "Add_digit X c1 = Some Z" "length Z = length X" "digits_value Z = digits_value X + unat c1"
      using "2.IH" [OF d [symmetric] False] by blast
    with A d False show ?thesis by (simp add: distrib_left)
  qed
qed simp

lemma Subtract_digit_spec:
  assumes "unat y \<le> digits_value X" and "X \<noteq> []"
  shows "\<exists>Z. Subtract_digit X y = Some Z \<and> length Z = length X \<and> digits_value Z + unat y = digits_value X"
  using assms
proof (induction X y rule: Subtract_digit.induct)
  case (2 x X b)
  obtain z b1 where d: "digit_sub x b = (z, b1)" by fastforce
  note A = native.sub [OF d]
  show ?case
  proof (cases "b1 = 0")
    case True
    then show ?thesis using A d by simp
  next
    case False
    have "digit_base * unat b1 < digit_base * (digits_value X + 1)" using A unat_digit [of z] "2.prems"(1) by simp
    then have "unat b1 < digits_value X + 1" by (rule base_times_less)
    then have le: "unat b1 \<le> digits_value X" by simp
    moreover have "X \<noteq> []" using le False by (auto simp: unat_eq_zero)
    ultimately obtain Z where Z: "Subtract_digit X b1 = Some Z" "length Z = length X" "digits_value Z + unat b1 = digits_value X"
      using "2.IH" [OF d [symmetric] False] by blast
    have "digit_base * digits_value X = digit_base * digits_value Z + digit_base * unat b1"
      by (simp flip: Z(3) add: distrib_left)
    with A d False Z(1,2) show ?thesis by simp
  qed
qed simp

lemma AddOne_spec:
  assumes "length X < Zlen"
  shows "length (AddOne Zlen X) = Zlen \<and> digits_value (AddOne Zlen X) = digits_value X + 1"
proof -
  obtain Z c where 1: "add2_until X 1 = (Z, c)" by fastforce
  note A = add2_until_loop [OF 1]
  show ?thesis
    using A assms by (cases "c = 0") (simp_all add: AddOne_def 1 value_append word_neq_0_conv [symmetric])
qed

lemma SubtractOne_loop_spec:
  "unat b \<le> digits_value X \<Longrightarrow> \<exists>Z. SubtractOne_loop X b = Some Z \<and> length Z = length X \<and> digits_value Z + unat b = digits_value X"
proof (induction X b rule: SubtractOne_loop.induct)
  case (1 x X b)
  show ?case
  proof (cases "b > 0")
    case True
    obtain z b1 where d: "digit_sub x b = (z, b1)" by fastforce
    have "digit_base * unat b1 < digit_base * (digits_value X + 1)" using native.sub [OF d] unat_digit [of z] "1.prems" by simp
    then have "unat b1 < digits_value X + 1" by (rule base_times_less)
    then obtain Z where Z: "SubtractOne_loop X b1 = Some Z" "length Z = length X" "digits_value Z + unat b1 = digits_value X"
      using "1.IH" [OF True d [symmetric]] by auto
    have "digit_base * digits_value X = digit_base * digits_value Z + digit_base * unat b1"
      by (simp flip: Z(3) add: distrib_left)
    with native.sub [OF d] d True Z(1,2) show ?thesis by simp
  qed (simp add: word_gt_0)
qed (simp add: unat_eq_zero)

lemma SubtractOne_spec:
  assumes "0 < digits_value X" and "length X \<le> Zlen"
  shows "\<exists>Z. SubtractOne Zlen X = Some Z \<and> length Z = Zlen \<and> digits_value Z = digits_value X - 1"
  using SubtractOne_loop_spec [of 1 X] assms by (auto simp: SubtractOne_def value_append)

end
