(* ===== verification/Bigint_Shift.thy ===== *)
theory Bigint_Shift
  imports Bigint_Vectors
begin

text \<open>
  Shifts of vectors by less than a digit, and \<^verbatim>\<open>ShiftedDigits\<close>, the operands of the division
  algorithms shifted until the highest bit of the divisor is set: \<^verbatim>\<open>src/bigint/div-helpers.h\<close>
  and \<^verbatim>\<open>.cc\<close>.
\<close>

section \<open>The operations\<close>

definition Copy :: "nat \<Rightarrow> digits \<Rightarrow> digits" where
  "Copy Zlen X = X @ replicate (Zlen - length X) 0"

fun LeftShift_loop :: "digits \<Rightarrow> nat \<Rightarrow> digit \<Rightarrow> digits \<times> digit" where
  "LeftShift_loop (d # X) shift carry =
     (case LeftShift_loop X shift (drop_bit (kDigitBits - shift) d) of (Z, r) \<Rightarrow> ((push_bit shift d OR carry) # Z, r))"
| "LeftShift_loop [] shift carry = ([], carry)"

definition LeftShift :: "nat \<Rightarrow> digits \<Rightarrow> nat \<Rightarrow> digits" where
  "LeftShift Zlen X shift =
     (if shift = 0 then Copy Zlen X
      else case LeftShift_loop X shift 0 of (Z, carry) \<Rightarrow>
             let Z = (if length X < Zlen then Z @ [carry] else Z) in Z @ replicate (Zlen - length Z) 0)"

fun RightShift_loop :: "digits \<Rightarrow> nat \<Rightarrow> digit \<Rightarrow> digits" where
  "RightShift_loop (d # X) shift carry = (push_bit (kDigitBits - shift) d OR carry) # RightShift_loop X shift (drop_bit shift d)"
| "RightShift_loop [] shift carry = [carry]"

definition RightShift :: "nat \<Rightarrow> digits \<Rightarrow> nat \<Rightarrow> digits" where
  "RightShift Zlen X0 shift =
     (let X = Normalize X0
      in if shift = 0 then Copy Zlen X
         else case X of [] \<Rightarrow> replicate Zlen 0
              | d # ds \<Rightarrow> RightShift_loop ds shift (drop_bit shift d) @ replicate (Zlen - length X) 0)"

definition PutAt :: "digits \<Rightarrow> nat \<Rightarrow> digits" where
  "PutAt A count = (let len = min (length A) count in take len A @ replicate (count - len) 0)"

text \<open>The shift is \<^const>\<open>None\<close> where the code has \<open>-1\<close>, to detect it from the leading zeros.\<close>

definition ShiftedDigits :: "digits \<Rightarrow> nat option \<Rightarrow> digits \<times> nat" where
  "ShiftedDigits original shift =
     (let leading_zeros = CountLeadingZeros (msd original);
          len = (case shift of None \<Rightarrow> length original
                 | Some s \<Rightarrow> if s > leading_zeros then length original + 1 else length original);
          shift = (case shift of None \<Rightarrow> leading_zeros | Some s \<Rightarrow> s)
      in if shift = 0 then (original, shift) else (LeftShift len original shift, shift))"

section \<open>Correctness\<close>

lemma value_Copy: "length X \<le> Zlen \<Longrightarrow> length (Copy Zlen X) = Zlen \<and> digits_value (Copy Zlen X) = digits_value X"
  by (simp add: Copy_def value_append)

text \<open>A shifted digit with the bits of its neighbour in the gap.\<close>

lemma shifted_digit:
  fixes d c :: digit
  assumes "0 < s" and "s < 64" and "unat c < 2 ^ s"
  shows "unat (push_bit s d OR c) + digit_base * unat (drop_bit (64 - s) d) = unat d * 2 ^ s + unat c"
    and "unat (drop_bit (64 - s) d) < 2 ^ s"
proof -
  have B: "digit_base = 2 ^ s * 2 ^ (64 - s)" using assms(2) by (simp add: digit_base_def flip: power_add)
  have x: "unat (drop_bit (64 - s) d) = unat d div 2 ^ (64 - s)" by (simp add: unat_drop)
  show "unat (drop_bit (64 - s) d) < 2 ^ s" unfolding x using unat_digit [of d] B by (simp add: less_mult_imp_div_less)
  have "take_bit s c = c" using assms(3) by (simp add: word_unat_eq_iff unat_take)
  then have o: "push_bit s d OR c = push_bit s d + c" using push_or_add [of s d c] by simp
  have p: "unat (push_bit s d) = unat d mod 2 ^ (64 - s) * 2 ^ s"
    using assms(2) by (simp add: unat_push flip: take_bit_eq_mod) (simp add: take_bit_eq_mod mult_mod_left flip: power_add)
  have "unat (push_bit s d) + unat c < digit_base"
  proof -
    have "(unat d mod 2 ^ (64 - s) + 1) * 2 ^ s \<le> 2 ^ (64 - s) * 2 ^ s"
      by (intro mult_right_mono) (simp_all add: Suc_le_eq)
    then show ?thesis using assms(3) by (simp add: p B mult.commute)
  qed
  then have "unat (push_bit s d OR c) = unat d mod 2 ^ (64 - s) * 2 ^ s + unat c" by (simp add: o unat_digit_add p)
  moreover have "(q * P + r) * S = q * (S * P) + r * S" for q P r S :: nat by (simp add: algebra_simps)
  from this [of "unat d div 2 ^ (64 - s)" "2 ^ (64 - s)" "unat d mod 2 ^ (64 - s)" "2 ^ s"]
  have "unat d * 2 ^ s = unat d div 2 ^ (64 - s) * digit_base + unat d mod 2 ^ (64 - s) * 2 ^ s"
    unfolding B by (simp only: div_mult_mod_eq)
  ultimately show "unat (push_bit s d OR c) + digit_base * unat (drop_bit (64 - s) d) = unat d * 2 ^ s + unat c"
    by (simp add: x)
qed

lemma LeftShift_loop_spec:
  assumes "LeftShift_loop X s c = (Z, c')" and "0 < s" and "s < 64" and "unat c < 2 ^ s"
  shows "length Z = length X \<and> unat c' < 2 ^ s \<and> digits_value Z + digit_base ^ length X * unat c' = digits_value X * 2 ^ s + unat c"
  using assms(1,4)
proof (induction X arbitrary: Z c)
  case (Cons d X)
  obtain Z1 where l: "LeftShift_loop X s (drop_bit (64 - s) d) = (Z1, c')" "Z = (push_bit s d OR c) # Z1"
    using Cons.prems(1) by (auto split: prod.splits)
  note sd = shifted_digit [OF assms(2,3) Cons.prems(2), of d]
  from Cons.IH [OF l(1) sd(2)] have IH: "length Z1 = length X" "unat c' < 2 ^ s"
    "digits_value Z1 + digit_base ^ length X * unat c' = digits_value X * 2 ^ s + unat (drop_bit (64 - s) d)" by auto
  have "digits_value Z + digit_base ^ length (d # X) * unat c' =
      unat (push_bit s d OR c) + digit_base * (digits_value Z1 + digit_base ^ length X * unat c')"
    by (simp add: l(2) algebra_simps)
  also have "\<dots> = digits_value (d # X) * 2 ^ s + unat c" unfolding IH(3) using sd(1) by (simp add: algebra_simps)
  finally show ?case using IH(1,2) l(2) by simp
qed simp

lemma LeftShift_spec:
  assumes "shift < 64" and "length X \<le> Zlen" and "digits_value X * 2 ^ shift < digit_base ^ Zlen"
  shows "length (LeftShift Zlen X shift) = Zlen" and "digits_value (LeftShift Zlen X shift) = digits_value X * 2 ^ shift"
proof -
  have "length (LeftShift Zlen X shift) = Zlen \<and> digits_value (LeftShift Zlen X shift) = digits_value X * 2 ^ shift"
  proof (cases "shift = 0")
    case True
    then show ?thesis using value_Copy [OF assms(2)] by (simp add: LeftShift_def)
  next
    case False
    obtain Z c where l: "LeftShift_loop X shift 0 = (Z, c)" by (rule prod.exhaust)
    from LeftShift_loop_spec [OF l] False assms(1)
    have A: "length Z = length X" "digits_value Z + digit_base ^ length X * unat c = digits_value X * 2 ^ shift" by auto
    show ?thesis
    proof (cases "length X < Zlen")
      case True
      then show ?thesis using A False by (simp add: LeftShift_def l value_append)
    next
      case full: False
      then have "digits_value X * 2 ^ shift < digit_base ^ length X" using assms(2,3) by simp
      then have "digit_base ^ length X * unat c < digit_base ^ length X * 1" using A(2) by linarith
      then have "unat c = 0" by simp
      then show ?thesis using A False full assms(2) by (simp add: LeftShift_def l)
    qed
  qed
  then show "length (LeftShift Zlen X shift) = Zlen" and "digits_value (LeftShift Zlen X shift) = digits_value X * 2 ^ shift"
    by simp_all
qed

lemma RightShift_loop_spec:
  assumes "0 < s" and "s < 64" and "unat c < 2 ^ (64 - s)"
  shows "length (RightShift_loop X s c) = Suc (length X) \<and> digits_value (RightShift_loop X s c) = digits_value X * 2 ^ (64 - s) + unat c"
  using assms(3)
proof (induction X arbitrary: c)
  case (Cons d X)
  have "64 - (64 - s) = s" using assms(2) by simp
  with shifted_digit [of "64 - s" c d] assms Cons.prems
  have sd: "unat (push_bit (64 - s) d OR c) + digit_base * unat (drop_bit s d) = unat d * 2 ^ (64 - s) + unat c"
    "unat (drop_bit s d) < 2 ^ (64 - s)" by simp_all
  from Cons.IH [OF sd(2)] sd(1) show ?case by (simp add: algebra_simps)
qed simp

lemma RightShift_digits:
  assumes "0 < s" and "s < 64"
  shows "length (RightShift_loop ds s (drop_bit s d)) = Suc (length ds) \<and>
    digits_value (RightShift_loop ds s (drop_bit s d)) = digits_value (d # ds) div 2 ^ s"
proof -
  have B: "digit_base = 2 ^ s * 2 ^ (64 - s)" using assms(2) by (simp add: digit_base_def flip: power_add)
  have x: "unat (drop_bit s d) = unat d div 2 ^ s" by (simp add: unat_drop)
  then have "unat (drop_bit s d) < 2 ^ (64 - s)"
    using unat_digit [of d] B by (simp add: less_mult_imp_div_less mult.commute)
  note A = RightShift_loop_spec [OF assms this, of ds]
  have "digits_value (d # ds) div 2 ^ s = (unat d + 2 ^ s * (2 ^ (64 - s) * digits_value ds)) div 2 ^ s"
    by (simp add: B mult.assoc)
  also have "\<dots> = digits_value ds * 2 ^ (64 - s) + unat d div 2 ^ s" by (simp add: mult.commute)
  finally show ?thesis using A x by simp
qed

lemma RightShift_spec:
  assumes "shift < 64" and "length (Normalize X) \<le> Zlen"
  shows "length (RightShift Zlen X shift) = Zlen" and "digits_value (RightShift Zlen X shift) = digits_value X div 2 ^ shift"
proof -
  have "length (RightShift Zlen X shift) = Zlen \<and> digits_value (RightShift Zlen X shift) = digits_value (Normalize X) div 2 ^ shift"
  proof (cases "shift = 0")
    case True
    then show ?thesis using value_Copy [OF assms(2)] by (simp add: RightShift_def)
  next
    case False
    show ?thesis
    proof (cases "Normalize X")
      case Nil
      then show ?thesis using False by (simp add: RightShift_def)
    next
      case (Cons d ds)
      then show ?thesis using RightShift_digits [OF _ assms(1), of ds d] False assms(2) by (simp add: RightShift_def value_append)
    qed
  qed
  then show "length (RightShift Zlen X shift) = Zlen" and "digits_value (RightShift Zlen X shift) = digits_value X div 2 ^ shift"
    by simp_all
qed

lemma PutAt_spec: "length (PutAt A count) = count" "digits_value (PutAt A count) = digits_value A mod digit_base ^ count"
  by (cases "count \<le> length A"; simp add: PutAt_def Let_def value_append min_def flip: value_take)+

text \<open>A shift detected from the leading zeros sets the highest bit and loses none.\<close>

lemma value_msd:
  assumes "X \<noteq> []"
  shows "digits_value X = digits_value (take (length X - 1) X) + digit_base ^ (length X - 1) * unat (msd X)"
proof -
  have "X = take (length X - 1) X @ [msd X]"
    using take_Suc_conv_app_nth [of "length X - 1" X] assms by (simp add: msd_def)
  then show ?thesis using value_append [of "take (length X - 1) X" "[msd X]"] by simp
qed

lemma shifted_fits:
  assumes "X \<noteq> []" and "msd X \<noteq> 0" and "s \<le> CountLeadingZeros (msd X)"
  shows "digits_value X * 2 ^ s < digit_base ^ length X"
proof -
  let ?k = "length X - 1" and ?c = "CountLeadingZeros (msd X)"
  note C = CountLeadingZeros_spec [OF assms(2)]
  have len: "length X = Suc ?k" using assms(1) by (cases X) simp_all
  have l: "digits_value (take ?k X) < digit_base ^ ?k" using value_less [of "take ?k X"] by simp
  have B: "digit_base = 2 ^ (64 - ?c) * 2 ^ ?c" using C(1) by (simp add: digit_base_def flip: power_add)
  have "unat (msd X) < 2 ^ (64 - ?c)" using C(3) by (simp add: B)
  then have "(unat (msd X) + 1) * 2 ^ ?c \<le> digit_base" by (subst B) (intro mult_right_mono; simp)
  then have fit: "digit_base ^ ?k * ((unat (msd X) + 1) * 2 ^ ?c) \<le> digit_base ^ ?k * digit_base" by (rule mult_left_mono) simp
  have "digits_value X * 2 ^ s \<le> digits_value X * 2 ^ ?c" using assms(3) by (intro mult_left_mono power_increasing) simp_all
  also have "\<dots> < (digit_base ^ ?k * (unat (msd X) + 1)) * 2 ^ ?c"
    using value_msd [OF assms(1)] l by simp
  also have "\<dots> \<le> digit_base ^ Suc ?k" using fit by (simp add: algebra_simps)
  also have "\<dots> = digit_base ^ length X" by (simp only: len [symmetric])
  finally show ?thesis .
qed

lemma ShiftedDigits_spec:
  assumes "ShiftedDigits X None = (Z, s)" and "X \<noteq> []" and "msd X \<noteq> 0"
  shows "s < 64" and "length Z = length X" and "digits_value Z = digits_value X * 2 ^ s" and "2 ^ 63 \<le> unat (msd Z)"
proof -
  note C = CountLeadingZeros_spec [OF assms(3)]
  have s: "s = CountLeadingZeros (msd X)" and Z: "Z = (if s = 0 then X else LeftShift (length X) X s)"
    using assms(1) by (auto simp: ShiftedDigits_def Let_def split: if_splits)
  show s64: "s < 64" using C(1) by (simp add: s)
  let ?k = "length X - 1"
  have "digits_value X * 2 ^ s < digit_base ^ length X" using shifted_fits [OF assms(2,3)] by (simp add: s)
  then have "length Z = length X \<and> digits_value Z = digits_value X * 2 ^ s"
    using LeftShift_spec [OF s64, of X "length X"] Z by auto
  then show Zs: "length Z = length X" "digits_value Z = digits_value X * 2 ^ s" by simp_all
  have "digit_base ^ ?k * (unat (msd X) * 2 ^ s) \<le> digits_value Z"
    unfolding Zs(2) value_msd [OF assms(2)] by (simp add: algebra_simps)
  moreover have "digits_value Z < digit_base ^ ?k * (unat (msd Z) + 1)"
    using value_msd [of Z] value_less [of "take ?k Z"] Zs(1) assms(2) by (cases "Z = []") simp_all
  ultimately have "digit_base ^ ?k * (unat (msd X) * 2 ^ s) < digit_base ^ ?k * (unat (msd Z) + 1)" by linarith
  then have "unat (msd X) * 2 ^ s < unat (msd Z) + 1" by (rule base_power_less)
  then show "2 ^ 63 \<le> unat (msd Z)" using C(2) by (simp add: s)
qed

end
