(* ===== verification/Bigint_Multiply.thy ===== *)
theory Bigint_Multiply
  imports Bigint_Vectors Complex_Main
begin

text \<open>
  Multiplication of vectors: \<^verbatim>\<open>src/bigint/mul-schoolbook.cc\<close>. The schoolbook algorithm
  computes the result column by column: column \<open>i\<close> is the sum of the products of digits whose
  indices add up to \<open>i\<close>, kept in a digit and two counters of carries.
\<close>

section \<open>Multiplication by a digit\<close>

fun MultiplySingle_loop :: "digits \<Rightarrow> digit \<Rightarrow> digit \<Rightarrow> digit \<Rightarrow> digits \<times> digit \<times> digit" where
  "MultiplySingle_loop (x # X) y carry high =
     (case digit_mul x y of (low, new_high) \<Rightarrow>
      case digit_add3 low high carry of (z, carry) \<Rightarrow>
      case MultiplySingle_loop X y carry new_high of (Z, r) \<Rightarrow> (z # Z, r))"
| "MultiplySingle_loop [] y carry high = ([], carry, high)"

definition MultiplySingle :: "nat \<Rightarrow> digits \<Rightarrow> digit \<Rightarrow> digits" where
  "MultiplySingle Zlen X y =
     (case MultiplySingle_loop X y 0 0 of (Z, carry, high) \<Rightarrow>
        Z @ [carry + high] @ replicate (Zlen - (length X + 1)) 0)"

section \<open>Schoolbook multiplication\<close>

text \<open>The macro \<^verbatim>\<open>BODY(min, max)\<close>, on the variables \<^verbatim>\<open>zi\<close>, \<^verbatim>\<open>next\<close>, \<^verbatim>\<open>carry\<close> and \<^verbatim>\<open>next_carry\<close>.\<close>

definition BODY_step ::
    "digits \<Rightarrow> digits \<Rightarrow> nat \<Rightarrow> nat \<Rightarrow> digit \<times> digit \<times> digit \<times> digit \<Rightarrow> digit \<times> digit \<times> digit \<times> digit" where
  "BODY_step X Y i j r =
     (case r of (zi, next_digit, carry, next_carry) \<Rightarrow>
      case digit_mul (X ! j) (Y ! (i - j)) of (low, high) \<Rightarrow>
      case digit_add2 zi low of (zi, carrybit) \<Rightarrow>
      case digit_add2 next_digit high of (next_digit, carrybit2) \<Rightarrow>
        (zi, next_digit, carry + carrybit, next_carry + carrybit2))"

definition BODY ::
    "digits \<Rightarrow> digits \<Rightarrow> nat \<Rightarrow> nat \<Rightarrow> nat \<Rightarrow> digit \<times> digit \<times> digit \<times> digit \<Rightarrow> digit \<times> digit \<times> digit \<times> digit" where
  "BODY X Y i lo hi r = fold (BODY_step X Y i) [lo..<Suc hi] r"

text \<open>The loops over the columns; \<open>range_of i\<close> gives the bounds of the inner loop.\<close>

fun columns ::
    "(nat \<Rightarrow> nat \<times> nat) \<Rightarrow> digits \<Rightarrow> digits \<Rightarrow> nat list \<Rightarrow> digit \<times> digit \<times> digit \<Rightarrow> digits \<times> digit \<times> digit \<times> digit" where
  "columns range_of X Y [] r = ([], r)"
| "columns range_of X Y (i # is) (next_digit, carry, next_carry) =
     (case digit_add2 next_digit carry of (zi, carry) \<Rightarrow>
      case BODY X Y i (fst (range_of i)) (snd (range_of i)) (zi, next_carry + carry, 0, 0) of (zi, r) \<Rightarrow>
      case columns range_of X Y is r of (Z, r) \<Rightarrow> (zi # Z, r))"

definition MultiplySchoolbook :: "nat \<Rightarrow> digits \<Rightarrow> digits \<Rightarrow> digits" where
  "MultiplySchoolbook Zlen X Y =
     (if length X = 0 \<or> length Y = 0 then replicate Zlen 0
      else case digit_mul (X ! 0) (Y ! 0) of (z0, next_digit) \<Rightarrow>
           case (if 1 < length Y
                 then case BODY X Y 1 0 1 (next_digit, 0, 0, 0) of (z1, r) \<Rightarrow> ([z0, z1], r)
                 else ([z0], next_digit, 0, 0)) of (Z1, r) \<Rightarrow>
           case columns (\<lambda>i. (0, i)) X Y [length Z1..<length Y] r of (Z2, r) \<Rightarrow>
           case columns (\<lambda>i. (i - (length Y - 1), min i (length X - 1))) X Y [length Y..<length X + length Y - 1] r of
             (Z3, next_digit, carry, next_carry) \<Rightarrow>
               Z1 @ Z2 @ Z3 @ [fst (digit_add2 next_digit carry)] @ replicate (Zlen - (length X + length Y)) 0)"

section \<open>Correctness\<close>

lemma MultiplySingle_loop_spec:
  assumes "MultiplySingle_loop X y c h = (Z, c', h')" and "unat c \<le> 1"
  shows "length Z = length X \<and> unat c' \<le> 1 \<and>
    digits_value Z + digit_base ^ length X * (unat c' + unat h') = digits_value X * unat y + unat c + unat h"
  using assms
proof (induction X y c h arbitrary: Z rule: MultiplySingle_loop.induct)
  case (1 x X y c h)
  obtain low nh where m: "digit_mul x y = (low, nh)" by fastforce
  obtain z c1 where a: "digit_add3 low h c = (z, c1)" by fastforce
  obtain Z1 where l: "MultiplySingle_loop X y c1 nh = (Z1, c', h')" "Z = z # Z1"
    using "1.prems"(1) m a by (auto split: prod.splits)
  from "1.IH" [OF m [symmetric] a [symmetric] l(1) native.add3_carry1 [OF a "1.prems"(2)]]
  have IH: "length Z1 = length X" "unat c' \<le> 1"
    "digits_value Z1 + digit_base ^ length X * (unat c' + unat h') = digits_value X * unat y + unat c1 + unat nh" by auto
  have "unat z + digit_base * (digits_value Z1 + digit_base ^ length X * (unat c' + unat h')) =
      unat x * unat y + unat c + unat h + digit_base * (digits_value X * unat y)"
    unfolding IH(3) using native.mul [OF m] native.add3 [OF a] by (simp add: distrib_left)
  with IH(1,2) l(2) show ?case by (simp add: algebra_simps)
qed simp

lemma MultiplySingle_spec:
  assumes "length X < Zlen"
  shows "length (MultiplySingle Zlen X y) = Zlen" and "digits_value (MultiplySingle Zlen X y) = digits_value X * unat y"
proof -
  obtain Z c h where l: "MultiplySingle_loop X y 0 0 = (Z, c, h)" by (metis prod.collapse)
  from MultiplySingle_loop_spec [OF l] have A: "length Z = length X"
    "digits_value Z + digit_base ^ length X * (unat c + unat h) = digits_value X * unat y" by auto
  have "digits_value X * unat y < digit_base ^ length X * digit_base"
    using value_less [of X] unat_digit [of y] by (simp add: mult_strict_mono)
  then have "digit_base ^ length X * (unat c + unat h) < digit_base ^ length X * digit_base" using A(2) by linarith
  then have s: "unat (c + h) = unat c + unat h" by (simp add: unat_digit_add)
  have M: "MultiplySingle Zlen X y = Z @ [c + h] @ replicate (Zlen - (length X + 1)) 0" by (simp add: MultiplySingle_def l)
  show "length (MultiplySingle Zlen X y) = Zlen" unfolding M using A(1) assms by simp
  show "digits_value (MultiplySingle Zlen X y) = digits_value X * unat y"
    unfolding M using A s by (simp add: value_append)
qed

subsection \<open>One column\<close>

text \<open>What the four variables of \<^verbatim>\<open>BODY\<close> hold: the digit of the column, and above it the next digit
  with the carries into it and out of it.\<close>

fun pending :: "digit \<times> digit \<times> digit \<Rightarrow> nat" where
  "pending (next_digit, carry, next_carry) = unat next_digit + unat carry + digit_base * unat next_carry"

fun counters_within :: "nat \<Rightarrow> digit \<times> digit \<times> digit \<Rightarrow> bool" where
  "counters_within n (next_digit, carry, next_carry) \<longleftrightarrow> unat carry \<le> n \<and> unat next_carry \<le> n"

definition product_at :: "digits \<Rightarrow> digits \<Rightarrow> nat \<Rightarrow> nat \<Rightarrow> nat" where
  "product_at X Y i j = unat (X ! j) * unat (Y ! (i - j))"

lemma count_carry:
  assumes "unat c \<le> n" and "unat b \<le> 1" and "Suc n < digit_base"
  shows "unat (c + b :: digit) = unat c + unat b"
  using assms by (simp add: unat_digit_add)

lemma BODY_step_spec:
  assumes "BODY_step X Y i j (zi, r) = (zi', r')" and "counters_within n r" and "Suc n < digit_base"
  shows "unat zi' + digit_base * pending r' = unat zi + digit_base * pending r + product_at X Y i j"
    and "counters_within (Suc n) r'"
proof -
  obtain nd c nc where r: "r = (nd, c, nc)" by (cases r)
  obtain low high where m: "digit_mul (X ! j) (Y ! (i - j)) = (low, high)" by fastforce
  obtain z1 b1 where 1: "digit_add2 zi low = (z1, b1)" by fastforce
  obtain n1 b2 where 2: "digit_add2 nd high = (n1, b2)" by fastforce
  note carries = native.add2_carry [OF 1] native.add2_carry [OF 2]
  have E: "zi' = z1" "r' = (n1, c + b1, nc + b2)" using assms(1) by (simp_all add: BODY_step_def r m 1 2)
  have s: "unat (c + b1) = unat c + unat b1" "unat (nc + b2) = unat nc + unat b2"
    using assms(2,3) carries by (auto simp: r intro: count_carry)
  show "counters_within (Suc n) r'" using assms(2) carries by (simp add: E s r)
  have "digit_base * pending r' =
      digit_base * (unat n1 + digit_base * unat b2) + digit_base * (unat c + digit_base * unat nc) + digit_base * unat b1"
    unfolding E(2) pending.simps s by (simp add: distrib_left)
  also have "\<dots> = digit_base * pending r + digit_base * unat high + digit_base * unat b1"
    unfolding native.add2 [OF 2] by (simp add: r algebra_simps)
  finally show "unat zi' + digit_base * pending r' = unat zi + digit_base * pending r + product_at X Y i j"
    using native.add2 [OF 1] native.mul [OF m] by (simp add: E(1) product_at_def)
qed

lemma BODY_spec:
  assumes "fold (BODY_step X Y i) js (zi, r) = (zi', r')" and "counters_within n r" and "n + length js < digit_base"
  shows "unat zi' + digit_base * pending r' = unat zi + digit_base * pending r + (\<Sum>j\<leftarrow>js. product_at X Y i j) \<and>
    counters_within (n + length js) r'"
  using assms
proof (induction js arbitrary: zi r n)
  case (Cons j js)
  obtain z1 r1 where 1: "BODY_step X Y i j (zi, r) = (z1, r1)" by (rule prod.exhaust)
  from BODY_step_spec [OF 1 Cons.prems(2)] Cons.prems(3) Cons.IH [of z1 r1 "Suc n"] Cons.prems(1) 1
  show ?case by auto
qed simp

subsection \<open>All columns\<close>

lemma columns_spec:
  assumes "m \<le> n" and "columns range_of X Y [m..<n] r = (Z, r')" and "counters_within N r"
    and "\<And>i. m \<le> i \<Longrightarrow> i < n \<Longrightarrow> Suc (snd (range_of i)) - fst (range_of i) \<le> N" and "Suc N < digit_base"
  shows "length Z = n - m \<and> counters_within N r' \<and>
    digit_base ^ m * digits_value Z + digit_base ^ n * pending r' =
    digit_base ^ m * pending r + (\<Sum>i = m..<n. digit_base ^ i * (\<Sum>j = fst (range_of i)..snd (range_of i). product_at X Y i j))"
  using assms
proof (induction m arbitrary: Z r rule: inc_induct)
  case (step m)
  obtain nd c nc where r: "r = (nd, c, nc)" by (cases r)
  obtain z0 c1 where a: "digit_add2 nd c = (z0, c1)" by fastforce
  let ?js = "[fst (range_of m)..<Suc (snd (range_of m))]"
  obtain z r1 where b: "fold (BODY_step X Y m) ?js (z0, nc + c1, 0, 0) = (z, r1)" by (rule prod.exhaust)
  obtain Z1 where l: "columns range_of X Y [Suc m..<n] r1 = (Z1, r')" "Z = z # Z1"
    using step.prems(1) step.hyps(2) a b by (auto simp: upt_conv_Cons r BODY_def split: prod.splits simp del: upt_Suc)
  have len: "length ?js \<le> N" using step.prems(3) [of m] step.hyps by (simp del: upt_Suc)
  have s: "unat (nc + c1) = unat nc + unat c1"
    using step.prems(2,4) native.add2_carry [OF a] by (auto simp: r intro: count_carry)
  have p: "unat z0 + digit_base * pending (nc + c1, 0, 0) = pending r"
    using native.add2 [OF a] by (simp only: s r pending.simps) (simp add: distrib_left)
  from BODY_spec [OF b, of 0] len step.prems(4)
  have B: "counters_within (length ?js) r1"
    "unat z + digit_base * pending r1 = pending r + (\<Sum>j\<leftarrow>?js. product_at X Y m j)"
    unfolding p by simp_all
  have "counters_within N r1" using B(1) len by (cases r1) simp
  from step.IH [OF l(1) this] step.prems(3,4)
  have IH: "length Z1 = n - Suc m" "counters_within N r'"
    "digit_base ^ Suc m * digits_value Z1 + digit_base ^ n * pending r' =
      digit_base ^ Suc m * pending r1 + (\<Sum>i = Suc m..<n. digit_base ^ i * (\<Sum>j = fst (range_of i)..snd (range_of i). product_at X Y i j))"
    by auto
  have "digit_base ^ m * digits_value Z + digit_base ^ n * pending r' =
      digit_base ^ m * (unat z + digit_base * pending r1) +
      (\<Sum>i = Suc m..<n. digit_base ^ i * (\<Sum>j = fst (range_of i)..snd (range_of i). product_at X Y i j))"
    using IH(3) by (simp add: l(2) algebra_simps)
  moreover have "(\<Sum>j\<leftarrow>?js. product_at X Y m j) = (\<Sum>j = fst (range_of m)..snd (range_of m). product_at X Y m j)"
    by (simp only: sum_list_distinct_conv_sum_set [OF distinct_upt] set_upt atLeastLessThanSuc_atLeastAtMost)
  ultimately show ?case
    using IH(1,2) step.hyps(2) by (simp add: B(2) l(2) sum.atLeast_Suc_lessThan distrib_left)
qed simp

subsection \<open>The whole product\<close>

definition digit_at :: "digits \<Rightarrow> nat \<Rightarrow> nat" where
  "digit_at X i = (if i < length X then unat (X ! i) else 0)"

lemma value_sum: "digits_value X = (\<Sum>i < length X. digit_at X i * digit_base ^ i)"
proof (induction X rule: rev_induct)
  case (snoc x X)
  have "(\<Sum>i < length X. digit_at (X @ [x]) i * digit_base ^ i) = (\<Sum>i < length X. digit_at X i * digit_base ^ i)"
    by (rule sum.cong) (simp_all add: digit_at_def nth_append)
  then show ?case using snoc by (simp add: value_append digit_at_def)
qed simp

definition column_sum :: "digits \<Rightarrow> digits \<Rightarrow> nat \<Rightarrow> nat" where
  "column_sum X Y i = (\<Sum>j\<le>i. digit_at X j * digit_at Y (i - j))"

lemma product_of_values:
  assumes "X \<noteq> []" and "Y \<noteq> []"
  shows "digits_value X * digits_value Y = (\<Sum>i < length X + length Y - 1. digit_base ^ i * column_sum X Y i)"
proof -
  have up: "{..<length V} = {..length V - 1}" if "V \<noteq> []" for V :: digits
    using that by (cases V) (auto simp: lessThan_Suc_atMost)
  have n: "{..<length X + length Y - 1} = {..length X - 1 + (length Y - 1)}"
    using assms by (cases X; cases Y) (auto simp: lessThan_Suc_atMost)
  show ?thesis
    unfolding value_sum up [OF assms(1)] up [OF assms(2)] n column_sum_def
    by (subst polynomial_product_nat) (use assms in \<open>auto simp: digit_at_def mult.commute\<close>)
qed

lemma column_sum_range:
  assumes "lo = i + 1 - length Y" and "hi = min i (length X - 1)" and "X \<noteq> []"
  shows "(\<Sum>j = lo..hi. product_at X Y i j) = column_sum X Y i"
proof -
  have "(\<Sum>j = lo..hi. product_at X Y i j) = (\<Sum>j = lo..hi. digit_at X j * digit_at Y (i - j))"
    using assms by (intro sum.cong) (cases X; auto simp: product_at_def digit_at_def)+
  also have "\<dots> = (\<Sum>j\<le>i. digit_at X j * digit_at Y (i - j))"
    using assms by (intro sum.mono_neutral_left) (auto simp: digit_at_def)
  finally show ?thesis by (simp add: column_sum_def)
qed

lemma column_sum_list:
  assumes "lo = i + 1 - length Y" and "hi = min i (length X - 1)" and "X \<noteq> []"
  shows "(\<Sum>j\<leftarrow>[lo..<Suc hi]. product_at X Y i j) = column_sum X Y i"
  by (simp only: sum_list_distinct_conv_sum_set [OF distinct_upt] set_upt atLeastLessThanSuc_atLeastAtMost
      column_sum_range [OF assms])

lemma unrolled_columns:
  assumes "digit_mul (X ! 0) (Y ! 0) = (z0, nd)" and "Y \<noteq> []" and "length Y \<le> length X"
    and "(if 1 < length Y then case BODY X Y 1 0 1 (nd, 0, 0, 0) of (z1, r) \<Rightarrow> ([z0, z1], r) else ([z0], nd, 0, 0)) = (Z, r)"
  shows "0 < length Z \<and> length Z \<le> length Y \<and> counters_within (length X) r \<and>
    digits_value Z + digit_base ^ length Z * pending r = (\<Sum>i < length Z. digit_base ^ i * column_sum X Y i)"
proof -
  have c0: "unat z0 + digit_base * unat nd = column_sum X Y 0"
    using native.mul [OF assms(1)] assms(2,3) by (simp add: column_sum_def digit_at_def) fastforce
  show ?thesis
  proof (cases "1 < length Y")
    case True
    obtain z1 r1 where b: "BODY X Y 1 0 1 (nd, 0, 0, 0) = (z1, r1)" by (rule prod.exhaust)
    have X: "X \<noteq> []" and h: "1 = min 1 (length X - 1)" and l: "0 = 1 + 1 - length Y" using True assms(3) by auto
    note c1 = column_sum_list [OF l h X]
    from BODY_spec [OF b [unfolded BODY_def], of 0]
    have B: "unat z1 + digit_base * pending r1 = unat nd + column_sum X Y 1" "counters_within (Suc (Suc 0)) r1"
      unfolding c1 by (simp_all add: digit_base_def)
    have "digit_base * (unat z1 + digit_base * pending r1) = digit_base * unat nd + digit_base * column_sum X Y 1"
      unfolding B(1) by (rule distrib_left)
    moreover have "counters_within (length X) r1" using B(2) True assms(3) by (cases r1) auto
    moreover have "Z = [z0, z1]" "r = r1" using assms(4) b True by simp_all
    ultimately show ?thesis
      using True c0 by (simp add: numeral_2_eq_2 distrib_left mult.assoc)
  qed (use assms c0 in \<open>auto simp: Suc_le_eq\<close>)
qed

lemma columns_sum:
  assumes "columns range_of X Y [m..<n] r = (Z, r')" and "m \<le> n" and "counters_within (length X) r"
    and "\<And>i. m \<le> i \<Longrightarrow> i < n \<Longrightarrow> range_of i = (i + 1 - length Y, min i (length X - 1))"
    and "Suc (length X) < digit_base" and "X \<noteq> []"
  shows "length Z = n - m \<and> counters_within (length X) r' \<and>
    digit_base ^ m * digits_value Z + digit_base ^ n * pending r' =
    digit_base ^ m * pending r + (\<Sum>i = m..<n. digit_base ^ i * column_sum X Y i)"
proof -
  have "Suc (snd (range_of i)) - fst (range_of i) \<le> length X" if "m \<le> i" "i < n" for i
    using assms(4) [OF that] assms(6) by (cases X) auto
  moreover have "(\<Sum>i = m..<n. digit_base ^ i * (\<Sum>j = fst (range_of i)..snd (range_of i). product_at X Y i j)) =
      (\<Sum>i = m..<n. digit_base ^ i * column_sum X Y i)"
    using assms(4) column_sum_range [OF refl refl assms(6)] by (intro sum.cong refl) simp
  ultimately show ?thesis using columns_spec [OF assms(2,1,3) _ assms(5)] by simp
qed

theorem MultiplySchoolbook_spec:
  assumes "length Y \<le> length X" and "length X < 2 ^ 31" and "length X + length Y \<le> Zlen"
  shows "length (MultiplySchoolbook Zlen X Y) = Zlen"
    and "digits_value (MultiplySchoolbook Zlen X Y) = digits_value X * digits_value Y"
proof -
  have "length (MultiplySchoolbook Zlen X Y) = Zlen \<and>
    digits_value (MultiplySchoolbook Zlen X Y) = digits_value X * digits_value Y"
  proof (cases "X = [] \<or> Y = []")
    case True
    then show ?thesis by (auto simp: MultiplySchoolbook_def)
  next
    case False
    let ?lx = "length X" and ?ly = "length Y" and ?S = "\<lambda>m n. \<Sum>i = m..<n. digit_base ^ i * column_sum X Y i"
    let ?N = "?lx + ?ly - 1"
    obtain z0 nd where 0: "digit_mul (X ! 0) (Y ! 0) = (z0, nd)" by (rule prod.exhaust)
    obtain Z1 r1 where 1: "(if 1 < ?ly then case BODY X Y 1 0 1 (nd, 0, 0, 0) of (z1, r) \<Rightarrow> ([z0, z1], r) else ([z0], nd, 0, 0)) = (Z1, r1)"
      by (rule prod.exhaust)
    obtain Z2 r2 where 2: "columns (\<lambda>i. (0, i)) X Y [length Z1..<?ly] r1 = (Z2, r2)" by (rule prod.exhaust)
    obtain Z3 nd' c nc where 3: "columns (\<lambda>i. (i - (?ly - 1), min i (?lx - 1))) X Y [?ly..<?N] r2 = (Z3, nd', c, nc)"
      by (rule prod_cases4)
    note A1 = unrolled_columns [OF 0 _ assms(1) 1]
    have N: "Suc ?lx < digit_base" using assms(2) by (simp add: digit_base_def)
    have X: "X \<noteq> []" "Y \<noteq> []" using False by auto
    have A2: "length Z2 = ?ly - length Z1 \<and> counters_within ?lx r2 \<and>
        digit_base ^ length Z1 * digits_value Z2 + digit_base ^ ?ly * pending r2 = digit_base ^ length Z1 * pending r1 + ?S (length Z1) ?ly"
      using A1 X assms(1) by (intro columns_sum [OF 2 _ _ _ N]) auto
    have A3: "length Z3 = ?N - ?ly \<and> counters_within ?lx (nd', c, nc) \<and>
        digit_base ^ ?ly * digits_value Z3 + digit_base ^ ?N * pending (nd', c, nc) = digit_base ^ ?ly * pending r2 + ?S ?ly ?N"
      using A2 X assms(1) by (intro columns_sum [OF 3 _ _ _ N]) (auto simp: Suc_le_eq)
    have len: "length (Z1 @ Z2 @ Z3) = ?N" using A1 A2 A3 X assms(1) by (cases X; cases Y) simp_all
    have "?S 0 ?N = ?S 0 (length Z1) + ?S (length Z1) ?ly + ?S ?ly ?N"
      using A1 X sum.atLeastLessThan_concat [of 0 ?ly ?N, symmetric] by (cases X) (simp_all add: sum.atLeastLessThan_concat)
    then have "digits_value (Z1 @ Z2 @ Z3) + digit_base ^ ?N * pending (nd', c, nc) = ?S 0 ?N"
      using A1 A2 A3 X by (simp add: value_append atLeast0LessThan power_add [symmetric] distrib_left mult.assoc [symmetric])
    then have P: "digits_value (Z1 @ Z2 @ Z3) + digit_base ^ ?N * pending (nd', c, nc) = digits_value X * digits_value Y"
      by (simp add: product_of_values [OF X] atLeast0LessThan)
    have "digits_value X * digits_value Y < digit_base ^ ?lx * digit_base ^ ?ly"
      using value_less [of X] value_less [of Y] by (simp add: mult_strict_mono)
    also have "\<dots> = digit_base ^ ?N * digit_base" using X by (cases X) (simp_all add: power_add)
    finally have "digit_base ^ ?N * pending (nd', c, nc) < digit_base ^ ?N * digit_base" using P by linarith
    then have lt: "pending (nd', c, nc) < digit_base" by simp
    obtain d c' where d: "digit_add2 nd' c = (d, c')" by (rule prod.exhaust)
    have "digit_base * unat nc < digit_base * 1" "digit_base * unat c' < digit_base * 1"
      using lt native.add2 [OF d] unfolding pending.simps by linarith+
    then have "unat nc = 0" "unat c' = 0" by simp_all
    then have "unat d = pending (nd', c, nc)" using native.add2 [OF d] by simp
    moreover have "MultiplySchoolbook Zlen X Y = (Z1 @ Z2 @ Z3) @ [d] @ replicate (Zlen - (?lx + ?ly)) 0"
      by (simp only: MultiplySchoolbook_def 0 1 2 3 d prod.case length_0_conv X simp_thms if_False fst_conv append_assoc)
    moreover have "?N + Suc (Zlen - (?lx + ?ly)) = Zlen" using assms(3) X by (cases X) simp_all
    ultimately show ?thesis using P len by (simp add: value_append del: append_assoc length_append) (simp add: value_append)
  qed
  then show "length (MultiplySchoolbook Zlen X Y) = Zlen"
    and "digits_value (MultiplySchoolbook Zlen X Y) = digits_value X * digits_value Y" by simp_all
qed

end
