(* ===== verification/Bigint_Karatsuba.thy ===== *)
theory Bigint_Karatsuba
  imports Bigint_Multiply
begin

text \<open>
  Karatsuba multiplication: \<^verbatim>\<open>src/bigint/mul-karatsuba.cc\<close>. The scratch memory is passed along
  and returned, so that the lengths the code gives it are part of what is proved. The checks
  for an interrupt, which only the build without the advanced algorithms has, are left out.
\<close>

abbreviation kKaratsubaThreshold :: nat where "kKaratsubaThreshold \<equiv> 34"

section \<open>The length of the operands\<close>

definition RoundUp :: "int \<Rightarrow> int \<Rightarrow> int" where
  "RoundUp x y = (x + y - 1) AND - y"

definition BitLength :: "nat \<Rightarrow> nat" where
  "BitLength n = 32 - leading_zeros_from 32 (of_nat n)"

definition RoundUpLen :: "nat \<Rightarrow> nat" where
  "RoundUpLen len =
     (if len \<le> 36 then nat (RoundUp (int len) 2)
      else let shift = BitLength len - 5;
               shift = (if drop_bit shift len \<ge> 0x18 then shift + 1 else shift);
               additive = push_bit shift 1 - 1
           in if shift \<ge> 2 \<and> len AND additive < push_bit (shift - 2) 1 then len
              else push_bit shift (drop_bit shift (len + additive)))"

function KaratsubaLength_loop :: "nat \<Rightarrow> nat \<Rightarrow> nat \<times> nat" where
  "KaratsubaLength_loop n i = (if n > kKaratsubaThreshold then KaratsubaLength_loop (drop_bit 1 n) (i + 1) else (n, i))"
  by pat_completeness auto

termination KaratsubaLength_loop
  by (relation "measure fst") (auto simp: drop_bit_eq_div)

declare KaratsubaLength_loop.simps [simp del]

definition KaratsubaLength :: "nat \<Rightarrow> nat" where
  "KaratsubaLength n = (case KaratsubaLength_loop (RoundUpLen n) 0 of (n, i) \<Rightarrow> push_bit i n)"

section \<open>The algorithm\<close>

definition KaratsubaSubtractionHelper :: "nat \<Rightarrow> digits \<Rightarrow> digits \<Rightarrow> int \<Rightarrow> digits \<times> int" where
  "KaratsubaSubtractionHelper result_len X0 Y0 sign =
     (let X = Normalize X0; Y = Normalize Y0
      in case (if \<not> GreaterThanOrEqual X Y then (Y, X, - sign) else (X, Y, sign)) of (X, Y, sign) \<Rightarrow>
         case sub2_loop X Y 0 of (Z1, borrow) \<Rightarrow>
         case sub_loop (drop (length Y) X) borrow of (Z2, borrow) \<Rightarrow>
           (Z1 @ Z2 @ replicate (result_len - length X) 0, sign))"

text \<open>Additions and subtractions on the digits from index \<open>i\<close> on, as in \<^verbatim>\<open>AddAndReturnOverflow(Z + i, X)\<close>.\<close>

definition add_at :: "nat \<Rightarrow> digits \<Rightarrow> digits \<Rightarrow> digits" where
  "add_at i Z X = take i Z @ fst (AddAndReturnOverflow (drop i Z) X)"

definition sub_at :: "nat \<Rightarrow> digits \<Rightarrow> digits \<Rightarrow> digits" where
  "sub_at i Z X = take i Z @ fst (SubAndReturnBorrow (drop i Z) X)"

text \<open>
  The result and the scratch memory are given with their old digits. The carries that leave
  the result are only for a debug check.
\<close>

function KaratsubaMain :: "digits \<Rightarrow> digits \<Rightarrow> digits \<Rightarrow> digits \<Rightarrow> nat \<Rightarrow> digits \<times> digits" where
  "KaratsubaMain Z X Y scratch n =
     (if n < kKaratsubaThreshold
      then let X = Normalize X; Y = Normalize Y; len = length (take (2 * n) Z)
           in ((if length X \<ge> length Y then MultiplySchoolbook len X Y else MultiplySchoolbook len Y X) @ drop (2 * n) Z, scratch)
      else
        let n2 = drop_bit 1 n;
            X0 = take n2 X; X1 = take n2 (drop n2 X);
            Y0 = take n2 Y; Y1 = take n2 (drop n2 Y);
            scratch_for_recursion = take (2 * n) (drop (2 * n) scratch)
        in case KaratsubaMain (take n scratch) X0 Y0 scratch_for_recursion n2 of (P0, scratch_for_recursion) \<Rightarrow>
           let Z = P0 @ drop n Z
           in case KaratsubaMain (take n (drop n scratch)) X1 Y1 scratch_for_recursion n2 of (P2, scratch_for_recursion) \<Rightarrow>
           let en = min (length (drop n Z)) (length P2);
               Z = take n Z @ take en P2 @ drop (n + en) Z;
               Z = add_at n2 Z P0;
               Z = add_at n2 Z P2
           in case KaratsubaSubtractionHelper n2 X1 X0 1 of (X_diff, sign) \<Rightarrow>
              case KaratsubaSubtractionHelper n2 Y0 Y1 sign of (Y_diff, sign) \<Rightarrow>
              case KaratsubaMain P2 X_diff Y_diff scratch_for_recursion n2 of (P1, scratch_for_recursion) \<Rightarrow>
                (if sign > 0 then add_at n2 Z P1 else sub_at n2 Z P1,
                 X_diff @ Y_diff @ P1 @ scratch_for_recursion @ drop (4 * n) scratch))"
  by pat_completeness auto

lemma half_less: "\<not> n < kKaratsubaThreshold \<Longrightarrow> drop_bit 1 n < (n :: nat)"
  by (simp add: drop_bit_eq_div)

termination KaratsubaMain
  by (relation "measure (\<lambda>(Z, X, Y, scratch, n). n)") (simp_all only: wf_measure in_measure prod.case half_less not_False_eq_True)

declare KaratsubaMain.simps [simp del]

text \<open>Memory that a function allocates for itself.\<close>

definition ScratchDigits :: "nat \<Rightarrow> digits" where
  "ScratchDigits len = replicate len 0"

text \<open>The values that the variable \<open>i\<close> of \<^verbatim>\<open>for (int i = k; i < len; i += k)\<close> takes.\<close>

definition chunk_starts :: "nat \<Rightarrow> nat \<Rightarrow> nat list" where
  "chunk_starts k len = map ((*) k) [1..<(len + k - 1) div k]"

lemma chunk_starts_bounds: "i \<in> set (chunk_starts k len) \<Longrightarrow> k \<le> i \<and> i < len"
proof -
  assume "i \<in> set (chunk_starts k len)"
  then obtain j where "i = k * j" "j \<in> set [1..<(len + k - 1) div k]" unfolding chunk_starts_def by (auto simp del: set_upt)
  then have j: "i = k * j" "1 \<le> j" "Suc j \<le> (len + k - 1) div k" by auto
  then have "k \<noteq> 0" by (cases k) simp_all
  then have "Suc j * k \<le> len + k - 1" using j(3) by (simp only: less_eq_div_iff_mult_less_eq)
  then show ?thesis using j \<open>k \<noteq> 0\<close> by (simp add: mult.commute)
qed

function KaratsubaStart :: "digits \<Rightarrow> digits \<Rightarrow> digits \<Rightarrow> digits \<Rightarrow> nat \<Rightarrow> digits \<times> digits"
  and KaratsubaChunk :: "digits \<Rightarrow> digits \<Rightarrow> digits \<Rightarrow> digits \<Rightarrow> digits \<times> digits" where
  "KaratsubaStart Z X Y scratch k =
     (case KaratsubaMain Z X Y scratch k of (Z, scratch) \<Rightarrow>
      let Z = take (2 * k) Z @ replicate (length Z - 2 * k) 0
      in if k < length Y \<or> length X \<noteq> length Y
         then
           let T = ScratchDigits (2 * k); X0 = take k X; Y1 = drop (min k (length Y)) Y; Y0 = take k Y
           in case (if 0 < length Y1
                    then case KaratsubaChunk T X0 Y1 scratch of (T, scratch) \<Rightarrow> (add_at k Z T, T, scratch)
                    else (Z, T, scratch)) of (Z, T, scratch) \<Rightarrow>
              case fold (\<lambda>i (Z, T, scratch).
                     case KaratsubaChunk T (take k (drop i X)) Y0 scratch of (T, scratch) \<Rightarrow>
                     let Z = add_at i Z T
                     in if 0 < length Y1
                        then case KaratsubaChunk T (take k (drop i X)) Y1 scratch of (T, scratch) \<Rightarrow> (add_at (i + k) Z T, T, scratch)
                        else (Z, T, scratch))
                   (chunk_starts k (length X)) (Z, T, scratch) of (Z, T, scratch) \<Rightarrow> (Z, scratch)
         else (Z, scratch))"
| "KaratsubaChunk Z X0 Y0 scratch =
     (let X = Normalize X0; Y = Normalize Y0
      in if length X = 0 \<or> length Y = 0 then (replicate (length Z) 0, scratch)
         else case (if length X < length Y then (Y, X) else (X, Y)) of (X, Y) \<Rightarrow>
              if length Y = 1 then (MultiplySingle (length Z) X (Y ! 0), scratch)
              else if length Y < kKaratsubaThreshold then (MultiplySchoolbook (length Z) X Y, scratch)
              else KaratsubaStart Z X Y scratch (KaratsubaLength (length Y)))"
  by pat_completeness auto

text \<open>The chunks are smaller than the operands; an empty one ends the recursion.\<close>

definition karatsuba_size :: "digits \<Rightarrow> digits \<Rightarrow> nat" where
  "karatsuba_size X Y = (if X = [] \<or> Y = [] then 0 else 2 * (length X + length Y) + 2)"

lemma chunk_size:
  "karatsuba_size (take k X) (drop (min k (length Y)) Y) < 2 * (length X + length Y) + 1"
  "i \<in> set (chunk_starts k (length X)) \<Longrightarrow> karatsuba_size (take k (drop i X)) (take k Y) < 2 * (length X + length Y) + 1"
  "i \<in> set (chunk_starts k (length X)) \<Longrightarrow>
    karatsuba_size (take k (drop i X)) (drop (min k (length Y)) Y) < 2 * (length X + length Y) + 1"
  using chunk_starts_bounds [of i k "length X"] by (cases "k = 0"; auto simp: karatsuba_size_def min_def)+

lemma normal_size:
  assumes "(X, Y) = (if length (Normalize X0) < length (Normalize Y0) then (Normalize Y0, Normalize X0) else (Normalize X0, Normalize Y0))"
    and "\<not> (length (Normalize X0) = 0 \<or> length (Normalize Y0) = 0)"
  shows "2 * (length X + length Y) + 1 < karatsuba_size X0 Y0"
proof -
  have "X0 \<noteq> []" "Y0 \<noteq> []" using assms(2) by (auto simp: Normalize.simps)
  then show ?thesis
    using assms(1) Normalize_length [of X0] Normalize_length [of Y0] by (auto simp: karatsuba_size_def split: if_splits)
qed

termination KaratsubaStart
  by (relation "measure (\<lambda>r. case r of Inl (Z, X, Y, scratch, k) \<Rightarrow> 2 * (length X + length Y) + 1
        | Inr (Z, X, Y, scratch) \<Rightarrow> karatsuba_size X Y)")
    (simp_all only: wf_measure in_measure sum.case prod.case chunk_size normal_size simp_thms)

declare KaratsubaStart.simps [simp del] KaratsubaChunk.simps [simp del]

definition MultiplyKaratsuba :: "digits \<Rightarrow> digits \<Rightarrow> digits \<Rightarrow> digits" where
  "MultiplyKaratsuba Z X Y =
     (let k = KaratsubaLength (length Y); scratch_len = 4 * k
      in fst (KaratsubaStart Z X Y (ScratchDigits scratch_len) k))"

section \<open>Lengths\<close>

lemma RoundUp_2: "RoundUp (int n) 2 = int (2 * ((n + 1) div 2))"
  by (simp add: RoundUp_def and_rec [of _ "- 2"] zdiv_int)

lemma BitLength_spec:
  assumes "0 < n" and "n < 2 ^ 32"
  shows "0 < BitLength n" and "2 ^ (BitLength n - 1) \<le> n" and "n < 2 ^ BitLength n"
proof -
  have u: "unat (of_nat n :: digit) = n" using assms(2) by (simp add: unat_of_nat)
  let ?z = "leading_zeros_from 32 (of_nat n)"
  have d: "(of_nat n :: digit) \<noteq> 0" using assms(1) u by (metis unat_0 less_irrefl)
  from leading_zeros_from [of "of_nat n" 32] u d assms
  have z: "?z < 32" "2 ^ 31 \<le> n * 2 ^ ?z" "n * 2 ^ ?z < 2 ^ 32" by auto
  have p: "(2::nat) ^ 31 = 2 ^ (BitLength n - 1) * 2 ^ ?z" "(2::nat) ^ 32 = 2 ^ BitLength n * 2 ^ ?z"
    using z(1) by (simp_all only: BitLength_def flip: power_add) simp_all
  show "0 < BitLength n" using z(1) by (simp add: BitLength_def)
  show "2 ^ (BitLength n - 1) \<le> n" using z(2) unfolding p by (simp only: mult_le_cancel2) simp
  show "n < 2 ^ BitLength n" using z(3) unfolding p by (simp only: mult_less_cancel2)
qed

text \<open>
  Lengths are rounded to multiples of a power of two, which is between the 24th and the 12th
  part of the length.
\<close>

definition length_unit :: "nat \<Rightarrow> nat" where
  "length_unit len = (if len \<le> 36 then 2 else let shift = BitLength len - 5 in 2 ^ (if drop_bit shift len \<ge> 0x18 then shift + 1 else shift))"

lemma length_unit_bounds:
  assumes "36 < len" and "len < 2 ^ 32"
  shows "12 * length_unit len \<le> len" and "len < 24 * length_unit len" and "\<exists>s. length_unit len = 2 ^ Suc s"
proof -
  have L: "0 < BitLength len" "2 ^ (BitLength len - 1) \<le> len" "len < 2 ^ BitLength len"
    using BitLength_spec [of len] assms by auto
  have "\<not> BitLength len \<le> 5"
  proof
    assume "BitLength len \<le> 5"
    then have "(2::nat) ^ BitLength len \<le> 2 ^ 5" by (intro power_increasing) simp_all
    then show False using L(3) assms(1) by simp
  qed
  then have "BitLength len = Suc (BitLength len - 6) + 5" by simp
  then obtain t where t: "BitLength len = Suc t + 5" ..
  have b: "16 * 2 ^ Suc t \<le> len" "len < 32 * 2 ^ Suc t" using L(2,3) by (simp_all add: t power_add)
  have top: "drop_bit (Suc t) len \<ge> 0x18 \<longleftrightarrow> 24 * 2 ^ Suc t \<le> len" by (simp add: drop_bit_eq_div less_eq_div_iff_mult_less_eq)
  show "12 * length_unit len \<le> len" and "len < 24 * length_unit len" and "\<exists>s. length_unit len = 2 ^ Suc s"
    using b top assms(1) by (auto simp: length_unit_def t Let_def intro: exI [of _ t] exI [of _ "Suc t"])
qed

lemma length_unit_even: "len < 2 ^ 32 \<Longrightarrow> \<exists>s. length_unit len = 2 ^ Suc s"
  using length_unit_bounds(3) [of len] by (cases "36 < len") (auto simp: length_unit_def intro: exI [of _ 0])

lemma power_le_dvd: "(2::nat) ^ a < 2 * 2 ^ b \<Longrightarrow> 2 ^ a dvd (2::nat) ^ b"
  using power_strict_increasing_iff [of "2::nat" a "Suc b"] by (intro le_imp_power_dvd) simp

lemma length_unit_mono:
  assumes "m \<le> len" and "len < 2 ^ 32"
  shows "length_unit m dvd length_unit len"
proof -
  obtain a b where ab: "length_unit m = 2 ^ Suc a" "length_unit len = 2 ^ Suc b"
    using length_unit_even [of m] length_unit_even [of len] assms by auto
  show ?thesis
  proof (cases "36 < m")
    case True
    then have "length_unit m < 2 * length_unit len"
      using length_unit_bounds(1) [of m] length_unit_bounds(2) [of len] assms by linarith
    then show ?thesis unfolding ab by (rule power_le_dvd)
  next
    case False
    then show ?thesis unfolding ab(2) by (simp add: length_unit_def)
  qed
qed

lemma RoundUpLen_eq:
  assumes "len < 2 ^ 32"
  shows "RoundUpLen len = length_unit len * ((len + length_unit len - 1) div length_unit len) \<or>
    (RoundUpLen len = len \<and> 36 < len \<and> 4 dvd length_unit len \<and> len mod length_unit len < length_unit len div 4)"
proof (cases "36 < len")
  case True
  define shift where "shift = (if drop_bit (BitLength len - 5) len \<ge> 0x18 then BitLength len - 5 + 1 else BitLength len - 5)"
  have u: "length_unit len = 2 ^ shift" using True by (simp add: length_unit_def shift_def Let_def)
  have m: "push_bit shift 1 - 1 = (mask shift :: nat)" by (simp add: mask_eq_exp_minus_1 push_bit_eq_mult)
  have a: "len AND mask shift = len mod 2 ^ shift" by (simp add: take_bit_eq_mod flip: take_bit_eq_mask)
  have R: "RoundUpLen len = (if shift \<ge> 2 \<and> len mod 2 ^ shift < 2 ^ (shift - 2) then len
      else 2 ^ shift * ((len + (2 ^ shift - 1)) div 2 ^ shift))"
    using True unfolding RoundUpLen_def Let_def shift_def [symmetric] m a
    by (simp add: push_bit_eq_mult drop_bit_eq_div mult.commute mask_eq_exp_minus_1)
  have "(2::nat) ^ shift = 2 ^ (shift - 2) * 4" if "2 \<le> shift" using power_add [of "2::nat" "shift - 2" 2] that
    by (simp only: le_add_diff_inverse2) simp
  then show ?thesis unfolding u using True by (auto simp: R)
next
  case False
  then show ?thesis by (simp add: RoundUpLen_def RoundUp_2 length_unit_def)
qed

lemma RoundUpLen_bounds:
  assumes "len < 2 ^ 32"
  shows "len \<le> RoundUpLen len" and "RoundUpLen len < len + length_unit len"
    and "length_unit len dvd c \<Longrightarrow> len \<le> c \<Longrightarrow> RoundUpLen len \<le> c"
proof -
  let ?u = "length_unit len"
  obtain s where s: "?u = 2 ^ Suc s" using length_unit_even [OF assms] by blast
  then have u: "0 < ?u" by simp
  let ?r = "?u * ((len + ?u - 1) div ?u)"
  have e: "?r + (len + ?u - 1) mod ?u = len + ?u - 1" by (simp only: mult_div_mod_eq)
  have r1: "len \<le> ?r" using e mod_less_divisor [OF u, of "len + ?u - 1"] by linarith
  have r2: "?r < len + ?u" using e u by linarith
  have r3: "?r \<le> c" if c: "?u dvd c" "len \<le> c" for c
  proof -
    obtain d where d: "c = ?u * d" using c(1) by (rule dvdE)
    have "len + ?u - 1 < ?u * Suc d" using c(2) u unfolding d mult_Suc_right by linarith
    then have "(len + ?u - 1) div ?u < Suc d" by (simp add: less_mult_imp_div_less mult.commute)
    then show ?thesis unfolding d by (intro mult_left_mono) simp_all
  qed
  show "len \<le> RoundUpLen len" using RoundUpLen_eq [OF assms] r1 by linarith
  show "RoundUpLen len < len + ?u" using RoundUpLen_eq [OF assms] r2 u by linarith
  show "RoundUpLen len \<le> c" if "length_unit len dvd c" "len \<le> c" using RoundUpLen_eq [OF assms] r3 [OF that] that(2) by linarith
qed

lemma KaratsubaLength_loop_spec:
  "\<exists>j. KaratsubaLength_loop n i = (n div 2 ^ j, i + j) \<and> n div 2 ^ j \<le> 34 \<and> (j = 0 \<or> 17 \<le> n div 2 ^ j)"
proof (induction n i rule: KaratsubaLength_loop.induct)
  case (1 n i)
  show ?case
  proof (cases "34 < n")
    case True
    with 1 obtain j where "KaratsubaLength_loop (n div 2) (i + 1) = (n div 2 div 2 ^ j, i + 1 + j)" "n div 2 div 2 ^ j \<le> 34"
      "j = 0 \<or> 17 \<le> n div 2 div 2 ^ j" by (auto simp: drop_bit_eq_div)
    with True show ?thesis
      by (intro exI [of _ "Suc j"]) (auto simp: KaratsubaLength_loop.simps [of n] drop_bit_eq_div div_mult2_eq)
  qed (auto simp: KaratsubaLength_loop.simps [of n] intro!: exI [of _ 0])
qed

lemma KaratsubaLength_eq:
  obtains j where "KaratsubaLength n = 2 ^ j * (RoundUpLen n div 2 ^ j)" and "RoundUpLen n div 2 ^ j \<le> 34"
    and "j = 0 \<or> 17 \<le> RoundUpLen n div 2 ^ j"
proof -
  from KaratsubaLength_loop_spec [of "RoundUpLen n" 0] obtain j
    where "KaratsubaLength_loop (RoundUpLen n) 0 = (RoundUpLen n div 2 ^ j, j)" "RoundUpLen n div 2 ^ j \<le> 34"
      "j = 0 \<or> 17 \<le> RoundUpLen n div 2 ^ j" by auto
  with that [of j] show thesis by (simp add: KaratsubaLength_def push_bit_eq_mult mult.commute)
qed

lemma KaratsubaLength_bounds:
  assumes "34 \<le> n" and "n < 2 ^ 32"
  shows "34 \<le> KaratsubaLength n" and "3 * KaratsubaLength n \<le> 4 * n" and "n \<le> 2 * KaratsubaLength n"
    and "KaratsubaLength n \<le> RoundUpLen n"
proof -
  let ?r = "RoundUpLen n"
  obtain j where j: "KaratsubaLength n = 2 ^ j * (?r div 2 ^ j)" "?r div 2 ^ j \<le> 34" "j = 0 \<or> 17 \<le> ?r div 2 ^ j"
    by (rule KaratsubaLength_eq)
  note R = RoundUpLen_bounds [OF assms(2)]
  show le: "KaratsubaLength n \<le> ?r" unfolding j(1) by simp
  have "?r < KaratsubaLength n + 2 ^ j" unfolding j(1)
    using mult_div_mod_eq [of "2 ^ j" ?r] mod_less_divisor [of "2 ^ j" ?r] zero_less_power [of "2::nat" j] by linarith
  moreover have "2 ^ j * 17 \<le> KaratsubaLength n \<or> j = 0" using j(3) unfolding j(1) by auto
  ultimately show "n \<le> 2 * KaratsubaLength n" using R(1) assms(1) by auto
  show "34 \<le> KaratsubaLength n"
  proof (cases j)
    case 0
    then show ?thesis using j(1) R(1) assms(1) by simp
  next
    case (Suc i)
    have "2 ^ 1 * 17 \<le> 2 ^ j * (?r div 2 ^ j)" using j(3) Suc by (intro mult_mono) simp_all
    then show ?thesis unfolding j(1) by simp
  qed
  have "12 * length_unit n \<le> n \<or> length_unit n = 2" using length_unit_bounds(1) [of n] assms by (auto simp: length_unit_def)
  then show "3 * KaratsubaLength n \<le> 4 * n" using le R(2) assms(1) by auto
qed

text \<open>A length that the function returns is a multiple of its own unit, so no shorter length is rounded above it.\<close>

lemma half_unit_floor:
  fixes u n :: nat
  assumes "2 ^ j dvd u" and "u < 3 * 2 ^ j" and "n mod u < u div 4" and "0 < u"
  shows "2 ^ j * (n div 2 ^ j) = u * (n div u)"
proof -
  obtain d where d: "u = 2 ^ j * d" using assms(1) by (rule dvdE)
  then have "d < 3" "0 < d" using assms(2,4) by simp_all
  have "n mod u + 2 ^ j * (d * (n div u)) = n" using mod_mult_div_eq [of n u] unfolding d by (simp only: mult.assoc)
  then have "n div 2 ^ j = (n mod u + 2 ^ j * (d * (n div u))) div 2 ^ j" by simp
  also have "\<dots> = d * (n div u) + n mod u div 2 ^ j" by (rule div_mult_self2) simp
  finally have "n div 2 ^ j = d * (n div u) + n mod u div 2 ^ j" .
  moreover have "n mod u < 2 ^ j" using assms(2,3) by linarith
  ultimately show ?thesis using d by simp
qed

lemma short_lengths: "KaratsubaLength 34 = 34" "KaratsubaLength 35 = 36" "KaratsubaLength 36 = 36"
  by code_simp+

lemma KaratsubaLength_unit:
  assumes "34 \<le> n" and "n < 2 ^ 31"
  shows "length_unit (KaratsubaLength n) dvd KaratsubaLength n"
proof -
  let ?r = "RoundUpLen n" and ?u = "length_unit n" and ?k = "KaratsubaLength n"
  obtain j where j: "?k = 2 ^ j * (?r div 2 ^ j)" "?r div 2 ^ j \<le> 34" "j = 0 \<or> 17 \<le> ?r div 2 ^ j"
    by (rule KaratsubaLength_eq)
  have n32: "n < 2 ^ 32" using assms(2) by simp
  note R = RoundUpLen_bounds [OF n32] and K = KaratsubaLength_bounds [OF assms(1) n32]
  obtain s where s: "?u = 2 ^ Suc s" using length_unit_even [OF n32] by blast
  have p: "(0::nat) < 2 ^ j" by simp
  have r35: "?r < 35 * 2 ^ j" using j(2) p by (simp add: div_less_iff_less_mult flip: less_Suc_eq_le)
  have jr: "j = 0 \<or> 17 * 2 ^ j \<le> ?r" using j(3) p by (simp add: less_eq_div_iff_mult_less_eq)
  show ?thesis
  proof (cases "36 < n")
    case True
    note U = length_unit_bounds(1,2) [OF True n32]
    have r24: "?r \<le> 24 * ?u" using R(3) [of "24 * ?u"] U(2) by simp
    have "j \<noteq> 0" using r35 R(1) True by (cases j) simp_all
    then have "(2::nat) ^ j < 2 * 2 ^ Suc s" using jr r24 zero_less_power [of "2::nat" "Suc s"] unfolding s by linarith
    then have ju: "2 ^ j dvd ?u" unfolding s by (rule power_le_dvd)
    have u3: "?u < 3 * 2 ^ j" using U(1) R(1) r35 by linarith
    from RoundUpLen_eq [OF n32] have uk: "?u dvd ?k"
    proof
      assume "?r = ?u * ((n + ?u - 1) div ?u)"
      then have "?u dvd ?r" by (metis dvd_triv_left)
      then have "2 ^ j dvd ?r" using ju dvd_trans by blast
      then have "?k = ?r" unfolding j(1) by simp
      then show ?thesis using \<open>?u dvd ?r\<close> by simp
    next
      assume *: "?r = n \<and> 36 < n \<and> 4 dvd ?u \<and> n mod ?u < ?u div 4"
      then have "2 ^ j * (n div 2 ^ j) = ?u * (n div ?u)" using half_unit_floor [OF ju u3] s by simp
      then show ?thesis unfolding j(1) using * by simp
    qed
    show ?thesis
    proof (cases "36 < ?k")
      case k: True
      have k32: "?k < 2 ^ 32" using K(2) assms(2) by simp
      note V = length_unit_bounds [OF k k32]
      obtain t where t: "length_unit ?k = 2 ^ Suc t" using V(3) by blast
      show ?thesis
      proof (cases "?k = 24 * ?u")
        case True
        have "(2::nat) ^ Suc t < 2 * 2 ^ Suc (Suc s)" using V(1) True zero_less_power [of "2::nat" s] unfolding s t power_Suc by linarith
        then have "2 ^ Suc t dvd (2::nat) ^ Suc (Suc s)" by (rule power_le_dvd)
        also have "\<dots> dvd 24 * ?u" unfolding s by (simp add: dvd_def)
        finally have "2 ^ Suc t dvd ?k" unfolding True .
        then show ?thesis unfolding t .
      next
        case False
        then have "?k < 24 * ?u" using K(4) r24 by simp
        then have "(2::nat) ^ Suc t < 2 * 2 ^ Suc s" using V(1) unfolding s t by simp
        then have "length_unit ?k dvd ?u" unfolding s t by (rule power_le_dvd)
        then show ?thesis using uk by (rule dvd_trans)
      qed
    next
      case False
      have "2 dvd ?u" unfolding s by simp
      then have "2 dvd ?k" using uk by (rule dvd_trans)
      then show ?thesis using False by (simp add: length_unit_def)
    qed
  next
    case False
    then have "n \<in> {34, 35, 36}" using assms(1) by auto
    then have "?k \<in> {34, 36}"
      by (elim insertE) (simp_all only: short_lengths insert_iff empty_iff simp_thms)
    then show ?thesis by (auto simp: length_unit_def)
  qed
qed

lemma KaratsubaLength_mono:
  assumes "34 \<le> n" and "n < 2 ^ 31" and "34 \<le> m" and "m \<le> KaratsubaLength n"
  shows "KaratsubaLength m \<le> KaratsubaLength n"
proof -
  have k32: "KaratsubaLength n < 2 ^ 32" using KaratsubaLength_bounds(2) [of n] assms(1,2) by simp
  then have m32: "m < 2 ^ 32" using assms(4) by simp
  have "length_unit m dvd KaratsubaLength n"
    using length_unit_mono [OF assms(4) k32] KaratsubaLength_unit [OF assms(1,2)] by (rule dvd_trans)
  then have "RoundUpLen m \<le> KaratsubaLength n" using RoundUpLen_bounds(3) [OF m32] assms(4) by blast
  then show ?thesis using KaratsubaLength_bounds(4) [OF assms(3) m32] by simp
qed

text \<open>The lengths can be halved until the schoolbook algorithm takes over.\<close>

function halvable :: "nat \<Rightarrow> bool" where
  "halvable n = (if n < kKaratsubaThreshold then True else even n \<and> halvable (n div 2))"
  by pat_completeness auto

termination halvable
  by (relation "measure id") auto

declare halvable.simps [simp del]

lemma halvable_power: "q \<le> 34 \<Longrightarrow> halvable (2 ^ j * q)"
proof (induction j)
  case 0
  then show ?case by (cases "q = 34") (simp_all add: halvable.simps [of q] halvable.simps [of 34] halvable.simps [of 17])
next
  case (Suc j)
  then show ?case by (subst halvable.simps) simp
qed

lemma KaratsubaLength_halvable: "halvable (KaratsubaLength n)"
  by (rule KaratsubaLength_eq [of n]) (simp add: halvable_power)

section \<open>Correctness\<close>

lemma add_at_spec:
  assumes "i \<le> length Z" and "digits_value X < digit_base ^ (length Z - i)"
  shows "length (add_at i Z X) = length Z"
    and "int (digits_value (add_at i Z X)) = (int (digits_value Z) + int (digit_base ^ i) * int (digits_value X)) mod int (digit_base ^ length Z)"
proof -
  obtain Z' c where a: "AddAndReturnOverflow (drop i Z) X = (Z', c)" by (rule prod.exhaust)
  have "length (Normalize X) \<le> length (drop i Z)"
    using assms by (intro normal_length_le Normalize_normal) simp
  note A = AddAndReturnOverflow_spec [OF a this]
  have len: "length (add_at i Z X) = length Z" using A(1) assms(1) by (simp add: add_at_def a)
  have "digits_value (add_at i Z X) + digit_base ^ length Z * unat c =
      digits_value (take i Z) + digit_base ^ i * (digits_value Z' + digit_base ^ length (drop i Z) * unat c)"
    using assms(1) by (simp add: add_at_def a value_append algebra_simps flip: power_add)
  also have "\<dots> = digits_value Z + digit_base ^ i * digits_value X"
    unfolding A(2) using value_take_drop [OF assms(1)] by (simp add: algebra_simps)
  finally have "digits_value (add_at i Z X) = (digits_value Z + digit_base ^ i * digits_value X) mod digit_base ^ length Z"
    using value_less [of "add_at i Z X"] by (intro mod_of_sum) (simp_all add: len)
  then show "int (digits_value (add_at i Z X)) = (int (digits_value Z) + int (digit_base ^ i) * int (digits_value X)) mod int (digit_base ^ length Z)"
    by (simp add: zmod_int)
  show "length (add_at i Z X) = length Z" by (rule len)
qed

lemma sub_at_spec:
  assumes "i \<le> length Z" and "digits_value X < digit_base ^ (length Z - i)"
  shows "length (sub_at i Z X) = length Z"
    and "int (digits_value (sub_at i Z X)) = (int (digits_value Z) - int (digit_base ^ i) * int (digits_value X)) mod int (digit_base ^ length Z)"
proof -
  obtain Z' b where a: "SubAndReturnBorrow (drop i Z) X = (Z', b)" by (rule prod.exhaust)
  have "length (Normalize X) \<le> length (drop i Z)"
    using assms by (intro normal_length_le Normalize_normal) simp
  note A = SubAndReturnBorrow_spec [OF a this]
  have len: "length (sub_at i Z X) = length Z" using A(1) assms(1) by (simp add: sub_at_def a)
  have p: "digit_base ^ length Z = digit_base ^ i * digit_base ^ length (drop i Z)" using assms(1) by (simp flip: power_add)
  have "digits_value (sub_at i Z X) + digit_base ^ i * digits_value X =
      digits_value (take i Z) + digit_base ^ i * (digits_value Z' + digits_value X)"
    using assms(1) by (simp add: sub_at_def a value_append algebra_simps)
  also have "\<dots> = digits_value Z + digit_base ^ length Z * unat b"
    unfolding A(2) p using value_take_drop [OF assms(1)] by (simp add: algebra_simps)
  finally have "int (digits_value (sub_at i Z X)) + int (digit_base ^ i) * int (digits_value X) =
      int (digits_value Z) + int (digit_base ^ length Z) * int (unat b)" by (metis of_nat_add of_nat_mult)
  then have "int (digits_value Z) - int (digit_base ^ i) * int (digits_value X) =
      int (digits_value (sub_at i Z X)) - int (digit_base ^ length Z) * int (unat b)" by simp
  moreover have "int (digits_value (sub_at i Z X)) < int (digit_base ^ length Z)"
    using value_less [of "sub_at i Z X"] unfolding len by (simp only: of_nat_less_iff)
  ultimately show "int (digits_value (sub_at i Z X)) = (int (digits_value Z) - int (digit_base ^ i) * int (digits_value X)) mod int (digit_base ^ length Z)"
    by (simp add: mod_diff_eq [symmetric, of _ "_ * _"])
  show "length (sub_at i Z X) = length Z" by (rule len)
qed

lemma Normalize_idem: "Normalize (Normalize X) = Normalize X"
  using Normalize_normal [of X] by (auto simp: Normalize.simps [of "Normalize X"] IsDigitNormalized_def)

lemma KaratsubaSubtractionHelper_spec:
  assumes "KaratsubaSubtractionHelper n X Y s = (Z, s')" and "length X \<le> n" and "length Y \<le> n"
  shows "length Z = n" and "s' * int (digits_value Z) = s * (int (digits_value X) - int (digits_value Y))" and "s' = s \<or> s' = - s"
proof -
  have le: "length (Normalize X) \<le> n" "length (Normalize Y) \<le> n" using Normalize_length [of X] Normalize_length [of Y] assms(2,3) by simp_all
  have "(Z, s') = (if digits_value Y \<le> digits_value X then (Subtract_digits n X Y, s) else (Subtract_digits n Y X, - s))"
    using assms(1) unfolding KaratsubaSubtractionHelper_def
    by (auto simp: Subtract_digits_def Let_def GreaterThanOrEqual_spec split: prod.splits)
  then show "length Z = n" and "s' * int (digits_value Z) = s * (int (digits_value X) - int (digits_value Y))" and "s' = s \<or> s' = - s"
    using Subtract_digits_spec [of Y X n] Subtract_digits_spec [of X Y n] le by (auto split: if_splits simp: of_nat_diff algebra_simps)
qed

lemma value_halves:
  assumes "n = 2 * h"
  shows "digits_value (take n X) = digits_value (take h X) + digit_base ^ h * digits_value (take h (drop h X))"
proof (cases "h \<le> length X")
  case True
  have "take n X = take h X @ take h (drop h X)" using assms by (simp add: take_add [symmetric] mult_2)
  then show ?thesis using True by (simp add: value_append min_absorb2)
qed (use assms in simp)

text \<open>The two outer products side by side; the upper one is cut where the result ends.\<close>

lemma karatsuba_join:
  assumes "length P0 = n" and "length P2 = n" and "n \<le> length Z" and "digit_base ^ n * digits_value P2 < digit_base ^ length Z"
    and "en = min (length Z - n) n"
  shows "length (P0 @ take en P2 @ drop (n + en) Z) = length Z"
    and "digits_value (P0 @ take en P2 @ drop (n + en) Z) =
      digits_value P0 + digit_base ^ n * digits_value P2 + digit_base ^ (2 * n) * digits_value (drop (2 * n) Z)"
proof -
  show "length (P0 @ take en P2 @ drop (n + en) Z) = length Z" using assms by simp
  show "digits_value (P0 @ take en P2 @ drop (n + en) Z) =
      digits_value P0 + digit_base ^ n * digits_value P2 + digit_base ^ (2 * n) * digits_value (drop (2 * n) Z)"
  proof (cases "2 * n \<le> length Z")
    case True
    then have "en = n" using assms(5) by simp
    then show ?thesis unfolding mult_2 using assms(1,2) by (simp add: value_append power_add algebra_simps)
  next
    case False
    then have en: "en = length Z - n" using assms(5) by simp
    have "digit_base ^ n * digits_value P2 < digit_base ^ n * digit_base ^ en"
      using assms(3,4) by (simp add: en flip: power_add)
    then have "digits_value P2 < digit_base ^ en" by (rule base_power_less)
    then have "digits_value (take en P2) = digits_value P2" by (simp add: value_take)
    then show ?thesis using False assms(1,3) en by (simp add: value_append)
  qed
qed

lemma product_fits:
  assumes "p < digit_base ^ n" and "p < digit_base ^ length Z"
  shows "p + digit_base ^ n * digits_value (drop n Z) < digit_base ^ length Z"
proof (cases "n \<le> length Z")
  case True
  have "p + digit_base ^ n * digits_value (drop n Z) < digit_base ^ n * (digits_value (drop n Z) + 1)" using assms(1) by simp
  also have "\<dots> \<le> digit_base ^ n * digit_base ^ length (drop n Z)"
    using value_less [of "drop n Z"] by (intro mult_left_mono) simp_all
  also have "\<dots> = digit_base ^ length Z" using True by (simp flip: power_add)
  finally show ?thesis .
qed (use assms(2) in simp)

lemma karatsuba_identity:
  fixes x0 x1 y0 y1 xd yd b :: int
  assumes "s1 * xd = x1 - x0" and "s2 * yd = s1 * (y0 - y1)"
  shows "x0 * y0 + b * b * (x1 * y1) + b * (x0 * y0) + b * (x1 * y1) + s2 * (b * (xd * yd)) = (x0 + b * x1) * (y0 + b * y1)"
proof -
  have "s2 * (b * (xd * yd)) = b * xd * (s2 * yd)" by (simp add: algebra_simps)
  also have "\<dots> = b * (s1 * xd) * (y0 - y1)" unfolding assms(2) by (simp add: algebra_simps)
  finally show ?thesis unfolding assms(1) by (simp add: algebra_simps)
qed

lemma karatsuba_combine:
  assumes "h \<le> length Z" and "digits_value P0 < digit_base ^ (length Z - h)" and "digits_value P2 < digit_base ^ (length Z - h)"
    and "digits_value P1 < digit_base ^ (length Z - h)" and "s = 1 \<or> s = - 1" and "e < digit_base ^ length Z"
    and "int e = int (digits_value Z) + int (digit_base ^ h) * int (digits_value P0) + int (digit_base ^ h) * int (digits_value P2) +
      s * (int (digit_base ^ h) * int (digits_value P1))"
  shows "length (if s > 0 then add_at h (add_at h (add_at h Z P0) P2) P1 else sub_at h (add_at h (add_at h Z P0) P2) P1) = length Z \<and>
    digits_value (if s > 0 then add_at h (add_at h (add_at h Z P0) P2) P1 else sub_at h (add_at h (add_at h Z P0) P2) P1) = e"
proof -
  let ?Z3 = "add_at h Z P0" let ?Z4 = "add_at h ?Z3 P2" let ?M = "int (digit_base ^ length Z)"
  note A3 = add_at_spec [OF assms(1,2)]
  have A4: "length ?Z4 = length Z"
    "int (digits_value ?Z4) = (int (digits_value ?Z3) + int (digit_base ^ h) * int (digits_value P2)) mod ?M"
    using add_at_spec [of h ?Z3 P2] A3(1) assms(1,3) by simp_all
  have e: "int e mod ?M = int e" using assms(6) by (simp only: mod_pos_pos_trivial of_nat_0_le_iff of_nat_less_iff)
  have "length (if s > 0 then add_at h ?Z4 P1 else sub_at h ?Z4 P1) = length Z \<and>
      int (digits_value (if s > 0 then add_at h ?Z4 P1 else sub_at h ?Z4 P1)) = int e"
    using assms(5)
  proof
    assume s: "s = 1"
    have "length (add_at h ?Z4 P1) = length Z"
      "int (digits_value (add_at h ?Z4 P1)) = (int (digits_value ?Z4) + int (digit_base ^ h) * int (digits_value P1)) mod ?M"
      using add_at_spec [of h ?Z4 P1] A4(1) assms(1,4) by simp_all
    then show ?thesis using e unfolding assms(7) A4(2) A3(2) s by (simp add: mod_simps)
  next
    assume s: "s = - 1"
    have "length (sub_at h ?Z4 P1) = length Z"
      "int (digits_value (sub_at h ?Z4 P1)) = (int (digits_value ?Z4) - int (digit_base ^ h) * int (digits_value P1)) mod ?M"
      using sub_at_spec [of h ?Z4 P1] A4(1) assms(1,4) by simp_all
    then show ?thesis using e unfolding assms(7) A4(2) A3(2) s by (simp add: mod_simps)
  qed
  then show ?thesis by (simp only: of_nat_eq_iff)
qed

lemma KaratsubaMain_spec:
  assumes "KaratsubaMain Z X Y scratch n = (Z', scratch')" and "halvable n" and "n + n div 2 \<le> length Z"
    and "digits_value (take n X) * digits_value (take n Y) < digit_base ^ length Z" and "4 * n \<le> length scratch"
    and "n < 34 \<Longrightarrow> length X \<le> n \<and> length Y \<le> n \<and> 2 * n \<le> length Z"
  shows "length Z' = length Z \<and> length scratch' = length scratch \<and>
    digits_value Z' = digits_value (take n X) * digits_value (take n Y) + digit_base ^ (2 * n) * digits_value (drop (2 * n) Z)"
  using assms
proof (induction n arbitrary: Z X Y scratch Z' scratch' rule: less_induct)
  case (less n)
  show ?case
  proof (cases "n < 34")
    case True
    let ?X = "Normalize X" and ?Y = "Normalize Y"
    have L: "length ?X \<le> n" "length ?Y \<le> n" "2 * n \<le> length Z" "take n X = X" "take n Y = Y"
      using less.prems(6) [OF True] Normalize_length [of X] Normalize_length [of Y] by auto
    let ?P = "if length ?X \<ge> length ?Y then MultiplySchoolbook (2 * n) ?X ?Y else MultiplySchoolbook (2 * n) ?Y ?X"
    have "length ?P = 2 * n \<and> digits_value ?P = digits_value X * digits_value Y"
      using L True MultiplySchoolbook_spec [of ?Y ?X "2 * n"] MultiplySchoolbook_spec [of ?X ?Y "2 * n"] by (auto simp: mult.commute)
    moreover have "Z' = ?P @ drop (2 * n) Z" "scratch' = scratch"
      using less.prems(1) True L(3) by (simp_all add: KaratsubaMain.simps [of Z] Let_def min_absorb2)
    ultimately show ?thesis using L by (simp add: value_append)
  next
    case False
    define h where "h = n div 2"
    have n: "n = 2 * h" "halvable h" "h < n" using less.prems(2) False by (auto simp: h_def halvable.simps [of n])
    have d: "drop_bit 1 n = h" by (simp add: h_def drop_bit_eq_div)
    let ?X0 = "take h X" and ?X1 = "take h (drop h X)" and ?Y0 = "take h Y" and ?Y1 = "take h (drop h Y)"
    have IH: "length P = length Z \<and> length r = length scr \<and> digits_value P = digits_value V * digits_value W"
      if "KaratsubaMain Z V W scr h = (P, r)" "length Z = n" "length V \<le> h" "length W \<le> h" "length scr = 2 * n" for Z V W scr P r
    proof -
      have "digits_value V * digits_value W < digit_base ^ h * digit_base ^ h"
        using value_take_less [of h V] value_take_less [of h W] that(3,4) by (intro mult_strict_mono) simp_all
      also have "\<dots> = digit_base ^ n" by (simp add: n(1) mult_2 power_add)
      finally show ?thesis using less.IH [OF n(3) that(1) n(2)] that(2-5) n(1) by simp
    qed
    obtain P0 r0 where 0: "KaratsubaMain (take n scratch) ?X0 ?Y0 (take (2 * n) (drop (2 * n) scratch)) h = (P0, r0)" by (rule prod.exhaust)
    obtain P2 r2 where 2: "KaratsubaMain (take n (drop n scratch)) ?X1 ?Y1 r0 h = (P2, r2)" by (rule prod.exhaust)
    obtain Xd s1 where x: "KaratsubaSubtractionHelper h ?X1 ?X0 1 = (Xd, s1)" by (rule prod.exhaust)
    obtain Yd s2 where y: "KaratsubaSubtractionHelper h ?Y0 ?Y1 s1 = (Yd, s2)" by (rule prod.exhaust)
    obtain P1 r1 where 1: "KaratsubaMain P2 Xd Yd r2 h = (P1, r1)" by (rule prod.exhaust)
    have I0: "length P0 = n" "length r0 = 2 * n" "digits_value P0 = digits_value ?X0 * digits_value ?Y0"
      using IH [OF 0] less.prems(5) by auto
    have I2: "length P2 = n" "length r2 = 2 * n" "digits_value P2 = digits_value ?X1 * digits_value ?Y1"
      using IH [OF 2] less.prems(5) I0(2) by auto
    note X = KaratsubaSubtractionHelper_spec [OF x] and Y = KaratsubaSubtractionHelper_spec [OF y]
    have I1: "length P1 = n" "length r1 = 2 * n" "digits_value P1 = digits_value Xd * digits_value Yd"
      using IH [OF 1] I2 X(1) Y(1) by auto
    define en where "en = min (length Z - n) n"
    define Z2 where "Z2 = P0 @ take en P2 @ drop (n + en) Z"
    define Z4 where "Z4 = add_at h (add_at h Z2 P0) P2"
    have e: "take n (P0 @ drop n Z) @ take (min (length (drop n (P0 @ drop n Z))) (length P2)) P2 @
        drop (n + min (length (drop n (P0 @ drop n Z))) (length P2)) (P0 @ drop n Z) = Z2"
      using I0(1) I2(1) by (simp add: Z2_def en_def add.commute)
    have R: "Z' = (if s2 > 0 then add_at h Z4 P1 else sub_at h Z4 P1)" "scratch' = Xd @ Yd @ P1 @ r1 @ drop (4 * n) scratch"
      using less.prems(1) False
      unfolding KaratsubaMain.simps [of Z] Let_def d by (simp_all only: 0 2 x y 1 e Z4_def prod.case prod.inject if_False)
    let ?B = "digit_base ^ h" and ?M = "digit_base ^ length Z"
    have Bn: "digit_base ^ n = ?B * ?B" by (simp add: n(1) mult_2 power_add)
    let ?prod = "digits_value (take n X) * digits_value (take n Y)" and ?rest = "digit_base ^ (2 * n) * digits_value (drop (2 * n) Z)"
    have halves: "digits_value (take n V) = digits_value (take h V) + ?B * digits_value (take h (drop h V))" for V
      by (rule value_halves [OF n(1)])
    have "digit_base ^ n * digits_value P2 \<le> ?prod" unfolding halves Bn I2(3) by (simp add: algebra_simps)
    then have up: "digit_base ^ n * digits_value P2 < ?M" using less.prems(4) by (rule le_less_trans)
    have "n \<le> length Z" using less.prems(3) by simp
    note Z2 = karatsuba_join [OF I0(1) I2(1) this up en_def, folded Z2_def]
    have fit: "h \<le> length Z" "digits_value P < digit_base ^ (length Z - h)" if "length P = n" for P
    proof -
      have "digits_value P < digit_base ^ n" using value_less [of P] that by simp
      also have "\<dots> \<le> digit_base ^ (length Z - h)" using less.prems(3) by (intro power_increasing) (simp_all add: h_def Suc_le_eq)
      finally show "digits_value P < digit_base ^ (length Z - h)" .
    qed (use less.prems(3) in \<open>simp add: h_def\<close>)
    have E: "?prod + ?rest < ?M"
    proof (rule product_fits [OF _ less.prems(4)])
      have "?prod < digit_base ^ n * digit_base ^ n" by (intro mult_strict_mono value_take_less) simp_all
      then show "?prod < digit_base ^ (2 * n)" by (simp add: mult_2 power_add)
    qed
    have "s1 * int (digits_value Xd) = int (digits_value ?X1) - int (digits_value ?X0)" using X(2) by simp
    from karatsuba_identity [OF this Y(2), of "int ?B"]
    have "int (?prod + ?rest) = int (digits_value Z2) + int ?B * int (digits_value P0) + int ?B * int (digits_value P2) +
        s2 * (int ?B * int (digits_value P1))"
      unfolding Z2(2) Bn halves I0(3) I1(3) I2(3) by (simp add: algebra_simps)
    moreover have "s2 = 1 \<or> s2 = - 1" using X(3) Y(3) by auto
    ultimately have "length Z' = length Z \<and> digits_value Z' = ?prod + ?rest"
      using karatsuba_combine [of h Z2 P0 P2 P1 s2 "?prod + ?rest"] fit [OF I0(1)] fit(2) [OF I2(1)] fit(2) [OF I1(1)] E
      unfolding R(1) Z4_def Z2(1) by simp
    moreover have "length scratch' = length scratch" using R(2) X(1) Y(1) I1(1,2) n(1) less.prems(5) by simp
    ultimately show ?thesis by simp
  qed
qed

subsection \<open>Operands of different lengths\<close>

lemma add_at_exact:
  assumes "i \<le> length Z" and "digits_value Z + digit_base ^ i * digits_value X < digit_base ^ length Z"
  shows "length (add_at i Z X) = length Z" and "digits_value (add_at i Z X) = digits_value Z + digit_base ^ i * digits_value X"
proof -
  have "digit_base ^ i * digits_value X < digit_base ^ i * digit_base ^ (length Z - i)"
    using assms by (simp flip: power_add)
  then have lt: "digits_value X < digit_base ^ (length Z - i)" by (rule base_power_less)
  show "length (add_at i Z X) = length Z" by (rule add_at_spec(1) [OF assms(1) lt])
  have "int (digits_value (add_at i Z X)) = int ((digits_value Z + digit_base ^ i * digits_value X) mod digit_base ^ length Z)"
    unfolding add_at_spec(2) [OF assms(1) lt] by (simp add: zmod_int)
  then show "digits_value (add_at i Z X) = digits_value Z + digit_base ^ i * digits_value X"
    using assms(2) by (simp only: of_nat_eq_iff mod_less)
qed

lemma value_take_le: "digits_value (take n X) \<le> digits_value X"
  by (simp add: value_take)

lemma value_chunk:
  assumes "i \<le> length X"
  shows "digits_value (take (i + k) X) = digits_value (take i X) + digit_base ^ i * digits_value (take k (drop i X))"
  using assms by (simp add: take_add value_append min_absorb2)

lemma value_product_less:
  assumes "a \<le> digits_value X" and "b \<le> digits_value Y" and "length X + length Y \<le> n"
  shows "a * b < digit_base ^ n"
proof -
  have "a * b \<le> digits_value X * digits_value Y" using assms(1,2) by (rule mult_mono) simp_all
  also have "\<dots> < digit_base ^ length X * digit_base ^ length Y"
    using value_less [of X] value_less [of Y] by (intro mult_strict_mono) simp_all
  also have "\<dots> \<le> digit_base ^ n"
    unfolding power_add [symmetric] using assms(3) by (intro power_increasing) (simp_all add: Suc_le_eq)
  finally show ?thesis .
qed

text \<open>One pass of the loop over the chunks.\<close>

definition chunk_pass :: "digits \<Rightarrow> digits \<Rightarrow> nat \<Rightarrow> nat \<Rightarrow> digits \<times> digits \<times> digits \<Rightarrow> digits \<times> digits \<times> digits" where
  "chunk_pass X Y k = (\<lambda>i (Z, T, scratch).
     case KaratsubaChunk T (take k (drop i X)) (take k Y) scratch of (T, scratch) \<Rightarrow>
     let Z = add_at i Z T
     in if 0 < length (drop (min k (length Y)) Y)
        then case KaratsubaChunk T (take k (drop i X)) (drop (min k (length Y)) Y) scratch of (T, scratch) \<Rightarrow> (add_at (i + k) Z T, T, scratch)
        else (Z, T, scratch))"

text \<open>What the chunks must satisfy, for operands smaller than the given ones.\<close>

definition chunks_multiply :: "nat \<Rightarrow> nat \<Rightarrow> nat \<Rightarrow> bool" where
  "chunks_multiply bound k slen \<longleftrightarrow> (\<forall>T V W scratch T' scratch'.
     KaratsubaChunk T V W scratch = (T', scratch') \<longrightarrow> length V + length W < bound \<longrightarrow> length V \<le> k \<longrightarrow> length W \<le> k \<longrightarrow>
     length T = 2 * k \<longrightarrow> length scratch = slen \<longrightarrow>
     length T' = 2 * k \<and> length scratch' = slen \<and> digits_value T' = digits_value V * digits_value W)"

lemma chunk_pass_spec:
  assumes "chunks_multiply (length X + length Y) k slen" and "chunk_pass X Y k i (Z, T, scratch) = (Z', T', scratch')"
    and "0 < k" and "k \<le> i" and "i < length X" and "length Y \<le> 2 * k" and "length X + length Y \<le> length Z"
    and "length T = 2 * k" and "length scratch = slen" and "digits_value Z = digits_value (take i X) * digits_value Y"
  shows "length Z' = length Z \<and> length T' = 2 * k \<and> length scratch' = slen \<and> digits_value Z' = digits_value (take (i + k) X) * digits_value Y"
proof -
  let ?V = "take k (drop i X)" and ?Y0 = "take k Y" and ?Y1 = "drop (min k (length Y)) Y"
  obtain T1 s1 where 1: "KaratsubaChunk T ?V ?Y0 scratch = (T1, s1)" by (rule prod.exhaust)
  have C: "length T' = 2 * k \<and> length scratch' = slen \<and> digits_value T' = digits_value ?V * digits_value W"
    if "KaratsubaChunk T ?V W scratch = (T', scratch')" "length W \<le> k" "length W \<le> length Y" "length T = 2 * k" "length scratch = slen"
    for T W scratch T' scratch'
    using assms(1) that assms(3-5) unfolding chunks_multiply_def by simp
  have C1: "length T1 = 2 * k" "length s1 = slen" "digits_value T1 = digits_value ?V * digits_value ?Y0"
    using C [OF 1] assms(8,9) by auto
  have y: "digits_value Y = digits_value ?Y0 + digit_base ^ k * digits_value ?Y1"
    using value_take_drop [of k Y] by (cases "k \<le> length Y") (simp_all add: min_absorb1 min_absorb2)
  have total: "digits_value (take i X) * digits_value Y + digit_base ^ i * (digits_value ?V * digits_value Y) = digits_value (take (i + k) X) * digits_value Y"
    using assms(5) by (simp add: value_chunk algebra_simps)
  have fits: "digits_value (take (i + k) X) * digits_value Y < digit_base ^ length Z"
    by (rule value_product_less [OF value_take_le order_refl assms(7)])
  have step1: "length (add_at i Z T1) = length Z"
    "digits_value (add_at i Z T1) = digits_value (take i X) * digits_value Y + digit_base ^ i * (digits_value ?V * digits_value ?Y0)"
    using add_at_exact [of i Z T1] assms(5,7,10) total fits C1(3) y by (simp_all add: algebra_simps)
  show ?thesis
  proof (cases "0 < length ?Y1")
    case True
    obtain T2 s2 where 2: "KaratsubaChunk T1 ?V ?Y1 s1 = (T2, s2)" by (rule prod.exhaust)
    have C2: "length T2 = 2 * k" "length s2 = slen" "digits_value T2 = digits_value ?V * digits_value ?Y1"
      using C [OF 2] C1(1,2) assms(6) by auto
    have "i + k \<le> length Z" using True assms(5,7) by simp
    moreover have "digits_value (add_at i Z T1) + digit_base ^ (i + k) * digits_value T2 = digits_value (take (i + k) X) * digits_value Y"
      unfolding step1(2) C2(3) total [symmetric] by (simp add: y power_add algebra_simps)
    ultimately have "length (add_at (i + k) (add_at i Z T1) T2) = length Z"
      "digits_value (add_at (i + k) (add_at i Z T1) T2) = digits_value (take (i + k) X) * digits_value Y"
      using add_at_exact [of "i + k" "add_at i Z T1" T2] step1(1) fits by simp_all
    moreover have "(Z', T', scratch') = (add_at (i + k) (add_at i Z T1) T2, T2, s2)"
      unfolding assms(2) [symmetric] using True by (simp only: chunk_pass_def 1 2 prod.case Let_def if_True)
    ultimately show ?thesis using C2 by simp
  next
    case False
    then have "digits_value ?Y1 = 0" by simp
    moreover have "(Z', T', scratch') = (add_at i Z T1, T1, s1)"
      unfolding assms(2) [symmetric] using False by (simp only: chunk_pass_def 1 prod.case Let_def if_False)
    ultimately show ?thesis using step1 C1 total y by simp
  qed
qed

lemma chunk_passes_spec:
  assumes "chunks_multiply (length X + length Y) k slen" and "0 < k" and "length Y \<le> 2 * k" and "length X + length Y \<le> length Z"
    and "length T = 2 * k" and "length scratch = slen" and "digits_value Z = digits_value (take k X) * digits_value Y"
    and "fold (chunk_pass X Y k) (map ((*) k) [1..<j]) (Z, T, scratch) = (Z', T', scratch')" and "0 < j" and "k * j < length X + k"
  shows "length Z' = length Z \<and> length T' = 2 * k \<and> length scratch' = slen \<and> digits_value Z' = digits_value (take (k * j) X) * digits_value Y"
  using assms(8-10)
proof (induction j arbitrary: Z' T' scratch')
  case (Suc j)
  show ?case
  proof (cases "j = 0")
    case True
    then show ?thesis using Suc.prems(1) assms(4-7) by simp
  next
    case False
    obtain Z1 T1 s1 where 1: "fold (chunk_pass X Y k) (map ((*) k) [1..<j]) (Z, T, scratch) = (Z1, T1, s1)" by (rule prod_cases3)
    have "k * j < length X" using Suc.prems(3) by simp
    from Suc.IH [OF 1] False this have IH: "length Z1 = length Z" "length T1 = 2 * k" "length s1 = slen"
      "digits_value Z1 = digits_value (take (k * j) X) * digits_value Y" by auto
    have "chunk_pass X Y k (k * j) (Z1, T1, s1) = (Z', T', scratch')" using Suc.prems(1) 1 False by simp
    from chunk_pass_spec [OF assms(1) this assms(2) _ \<open>k * j < length X\<close> assms(3) _ IH(2-4)] False IH(1) assms(4)
    show ?thesis by (simp add: add.commute)
  qed
qed simp

lemma round_up_div:
  fixes k n :: nat
  assumes "0 < k" and "0 < n"
  shows "0 < (n + k - 1) div k" and "k * ((n + k - 1) div k) < n + k" and "n \<le> k * ((n + k - 1) div k)"
  using mult_div_mod_eq [of k "n + k - 1"] mod_less_divisor [OF assms(1), of "n + k - 1"] assms
  by (simp add: div_greater_zero_iff, linarith+)

lemma KaratsubaStart_eq:
  "KaratsubaStart Z X Y scratch k =
     (case KaratsubaMain Z X Y scratch k of (Z, scratch) \<Rightarrow>
      let Z = take (2 * k) Z @ replicate (length Z - 2 * k) 0
      in if k < length Y \<or> length X \<noteq> length Y
         then
           let T = ScratchDigits (2 * k); Y1 = drop (min k (length Y)) Y
           in case (if 0 < length Y1
                    then case KaratsubaChunk T (take k X) Y1 scratch of (T, scratch) \<Rightarrow> (add_at k Z T, T, scratch)
                    else (Z, T, scratch)) of (Z, T, scratch) \<Rightarrow>
              case fold (chunk_pass X Y k) (chunk_starts k (length X)) (Z, T, scratch) of (Z, T, scratch) \<Rightarrow> (Z, scratch)
         else (Z, scratch))"
  by (simp only: KaratsubaStart.simps [of Z] chunk_pass_def Let_def)

lemma first_chunk:
  assumes "chunks_multiply (length X + length Y) k slen"
    and "(if 0 < length (drop (min k (length Y)) Y)
        then case KaratsubaChunk T (take k X) (drop (min k (length Y)) Y) s0 of (T, scratch) \<Rightarrow> (add_at k Z1 T, T, scratch)
        else (Z1, T, s0)) = (Z2, T2, s2)"
    and "0 < k" and "length Y \<le> 2 * k" and "length X + length Y \<le> length Z1" and "length T = 2 * k" and "length s0 = slen"
    and "digits_value Z1 = digits_value (take k X) * digits_value (take k Y)"
  shows "length Z2 = length Z1 \<and> length T2 = 2 * k \<and> length s2 = slen \<and> digits_value Z2 = digits_value (take k X) * digits_value Y"
proof (cases "k < length Y")
  case True
  let ?Y1 = "drop k Y"
  obtain T1 s1 where c: "KaratsubaChunk T (take k X) ?Y1 s0 = (T1, s1)" by (rule prod.exhaust)
  have "length (take k X) + length ?Y1 < length X + length Y" "length ?Y1 \<le> k" using True assms(3,4) by auto
  then have C: "length T1 = 2 * k" "length s1 = slen" "digits_value T1 = digits_value (take k X) * digits_value ?Y1"
    using assms(1,6,7) c unfolding chunks_multiply_def by auto
  have "digits_value Z1 + digit_base ^ k * digits_value T1 = digits_value (take k X) * digits_value Y"
    using value_take_drop [of k Y] True by (simp add: assms(8) C(3) algebra_simps flip: value_take_drop [of k Y])
  moreover have "digits_value (take k X) * digits_value Y < digit_base ^ length Z1"
    using value_take_le order_refl assms(5) by (rule value_product_less)
  ultimately show ?thesis using add_at_exact [of k Z1 T1] assms(2,5) True c C by (auto simp: min_absorb1)
next
  case False
  then show ?thesis using assms(2,6-8) by (simp add: min_absorb2)
qed

lemma KaratsubaStart_spec:
  assumes "KaratsubaStart Z X Y scratch (KaratsubaLength (length Y)) = (Z', scratch')"
    and "chunks_multiply (length X + length Y) (KaratsubaLength (length Y)) (length scratch)"
    and "34 \<le> length Y" and "length Y \<le> length X" and "length X + length Y < 2 ^ 30" and "length X + length Y \<le> length Z"
    and "4 * KaratsubaLength (length Y) \<le> length scratch"
  shows "length Z' = length Z \<and> length scratch' = length scratch \<and> digits_value Z' = digits_value X * digits_value Y"
proof -
  define k where "k = KaratsubaLength (length Y)"
  have K: "34 \<le> k" "3 * k \<le> 4 * length Y" "length Y \<le> 2 * k"
    using KaratsubaLength_bounds [of "length Y"] assms(3-5) by (simp_all add: k_def)
  obtain Z0 s0 where m: "KaratsubaMain Z X Y scratch k = (Z0, s0)" by (rule prod.exhaust)
  have "digits_value (take k X) * digits_value (take k Y) < digit_base ^ length Z"
    using value_take_le value_take_le assms(6) by (rule value_product_less)
  from KaratsubaMain_spec [OF m _ _ this] K assms(3,4,6,7)
  have M: "length Z0 = length Z" "length s0 = length scratch"
    "digits_value Z0 mod digit_base ^ (2 * k) = digits_value (take k X) * digits_value (take k Y) mod digit_base ^ (2 * k)"
    by (auto simp: k_def KaratsubaLength_halvable)
  let ?Z1 = "take (2 * k) Z0 @ replicate (length Z0 - 2 * k) 0" and ?x0 = "digits_value (take k X)"
  have "?x0 * digits_value (take k Y) < digit_base ^ (2 * k)"
    using order_refl order_refl by (rule value_product_less) simp
  then have Z1: "length ?Z1 = length Z" "digits_value ?Z1 = ?x0 * digits_value (take k Y)"
    using M by (simp_all add: value_append value_take)
  show ?thesis
  proof (cases "k < length Y \<or> length X \<noteq> length Y")
    case False
    then have "Z' = ?Z1" "scratch' = s0" using assms(1) m by (simp_all add: KaratsubaStart_eq Let_def flip: k_def)
    then show ?thesis using Z1 M(2) False by simp
  next
    case True
    let ?Y1 = "drop (min k (length Y)) Y"
    obtain Z2 T2 s2 where f: "(if 0 < length ?Y1
        then case KaratsubaChunk (ScratchDigits (2 * k)) (take k X) ?Y1 s0 of (T, scratch) \<Rightarrow> (add_at k ?Z1 T, T, scratch)
        else (?Z1, ScratchDigits (2 * k), s0)) = (Z2, T2, s2)" by (rule prod_cases3)
    have F: "length Z2 = length Z" "length T2 = 2 * k" "length s2 = length scratch" "digits_value Z2 = ?x0 * digits_value Y"
      using first_chunk [OF assms(2) [folded k_def] f] K assms(4,6) Z1 M(2) by (auto simp: ScratchDigits_def)
    let ?j = "(length X + k - 1) div k"
    obtain T3 where p: "fold (chunk_pass X Y k) (map ((*) k) [1..<?j]) (Z2, T2, s2) = (Z', T3, scratch')"
      using assms(1) True unfolding KaratsubaStart_eq chunk_starts_def [symmetric] k_def [symmetric] m prod.case Let_def f
      by (auto split: prod.splits)
    have k: "0 < k" "0 < length X" using K(1) assms(3,4) by linarith+
    note j = round_up_div [OF k]
    from chunk_passes_spec [OF assms(2) [folded k_def] _ K(3) _ F(2-4) p j(1,2)] K(1) F(1) assms(6) j(3)
    show ?thesis by simp
  qed
qed

lemma KaratsubaChunk_spec:
  assumes "KaratsubaChunk T X Y scratch = (T', scratch')" and "34 \<le> N" and "N < 2 ^ 30"
    and "length X \<le> KaratsubaLength N" and "length Y \<le> KaratsubaLength N" and "length X + length Y < 2 ^ 30"
    and "4 * KaratsubaLength N \<le> length scratch" and "length X + length Y \<le> length T"
  shows "length T' = length T \<and> length scratch' = length scratch \<and> digits_value T' = digits_value X * digits_value Y"
  using assms
proof (induction "length X + length Y" arbitrary: T X Y scratch T' scratch' N rule: less_induct)
  case less
  let ?X = "Normalize X" and ?Y = "Normalize Y"
  have L: "length ?X \<le> length X" "length ?Y \<le> length Y" by (rule Normalize_length)+
  show ?case
  proof (cases "?X = [] \<or> ?Y = []")
    case True
    then have "digits_value X * digits_value Y = 0" by (metis Normalize_value digits_value.simps(1) mult_zero_left mult_zero_right)
    then show ?thesis using less.prems(1) True by (auto simp: KaratsubaChunk.simps [of T])
  next
    case False
    obtain V W where VW: "(if length ?X < length ?Y then (?Y, ?X) else (?X, ?Y)) = (V, W)" by (rule prod.exhaust)
    have S: "length W \<le> length V" "digits_value V * digits_value W = digits_value X * digits_value Y" "W \<noteq> []"
      "length V \<le> KaratsubaLength N" "length V + length W \<le> length X + length Y"
      using VW False L less.prems(4,5) by (auto split: if_splits simp: mult.commute)
    have R: "(T', scratch') = (if length W = 1 then (MultiplySingle (length T) V (W ! 0), scratch)
        else if length W < 34 then (MultiplySchoolbook (length T) V W, scratch)
        else KaratsubaStart T V W scratch (KaratsubaLength (length W)))"
      using less.prems(1) False VW by (simp add: KaratsubaChunk.simps [of T] Let_def)
    consider "length W = 1" | "length W \<noteq> 1" "length W < 34" | "34 \<le> length W" by linarith
    then show ?thesis
    proof cases
      case 1
      then have "digits_value W = unat (W ! 0)" by (cases W) simp_all
      then show ?thesis using R 1 S(2,5) less.prems(8) MultiplySingle_spec [of V "length T" "W ! 0"] by simp
    next
      case 2
      then show ?thesis using R S less.prems(6,8) MultiplySchoolbook_spec [of W V "length T"] by simp
    next
      case 3
      let ?k = "KaratsubaLength (length W)"
      have w: "length W < 2 ^ 30" "length W \<le> KaratsubaLength N" using S(1,4,5) less.prems(6) by simp_all
      have "?k \<le> KaratsubaLength N" using KaratsubaLength_mono [of N "length W"] less.prems(2,3) 3 w by simp
      then have k: "4 * ?k \<le> length scratch" using less.prems(7) by simp
      have "chunks_multiply (length V + length W) ?k (length scratch)"
        unfolding chunks_multiply_def
      proof (intro allI impI)
        fix T1 V1 W1 s1 T2 s2
        assume c: "KaratsubaChunk T1 V1 W1 s1 = (T2, s2)" "length V1 + length W1 < length V + length W"
          "length V1 \<le> ?k" "length W1 \<le> ?k" "length T1 = 2 * ?k" "length s1 = length scratch"
        have "length V1 + length W1 < length X + length Y" using c(2) S(5) by simp
        from less.hyps [OF this c(1) 3 w(1) c(3,4)] this c(3-6) k less.prems(6)
        show "length T2 = 2 * ?k \<and> length s2 = length scratch \<and> digits_value T2 = digits_value V1 * digits_value W1" by simp
      qed
      then show ?thesis using KaratsubaStart_spec [of T V W scratch T' scratch'] R 3 S k less.prems(6,8) by simp
    qed
  qed
qed

theorem MultiplyKaratsuba_spec:
  assumes "34 \<le> length Y" and "length Y \<le> length X" and "length X + length Y < 2 ^ 30" and "length X + length Y \<le> length Z"
  shows "length (MultiplyKaratsuba Z X Y) = length Z" and "digits_value (MultiplyKaratsuba Z X Y) = digits_value X * digits_value Y"
proof -
  let ?k = "KaratsubaLength (length Y)" let ?s = "ScratchDigits (4 * ?k)"
  obtain Z' s' where k: "KaratsubaStart Z X Y ?s ?k = (Z', s')" by (rule prod.exhaust)
  have len: "length ?s = 4 * ?k" by (simp add: ScratchDigits_def)
  have "chunks_multiply (length X + length Y) ?k (length ?s)"
    unfolding chunks_multiply_def
  proof (intro allI impI)
    fix T1 V1 W1 s1 T2 s2
    assume c: "KaratsubaChunk T1 V1 W1 s1 = (T2, s2)" "length V1 + length W1 < length X + length Y"
      "length V1 \<le> ?k" "length W1 \<le> ?k" "length T1 = 2 * ?k" "length s1 = length ?s"
    show "length T2 = 2 * ?k \<and> length s2 = length ?s \<and> digits_value T2 = digits_value V1 * digits_value W1"
      using KaratsubaChunk_spec [OF c(1) assms(1) _ c(3,4)] c assms(2,3) len by simp
  qed
  from KaratsubaStart_spec [OF k this assms] len
  show "length (MultiplyKaratsuba Z X Y) = length Z" and "digits_value (MultiplyKaratsuba Z X Y) = digits_value X * digits_value Y"
    by (simp_all add: MultiplyKaratsuba_def k)
qed

section \<open>The choice of the algorithm\<close>

text \<open>
  \<^verbatim>\<open>ProcessorImpl::Multiply\<close> of \<^verbatim>\<open>src/bigint/bigint-internal.cc\<close> as it is built without
  \<^verbatim>\<open>V8_ADVANCED_BIGINT_ALGORITHMS\<close>; with them it differs for factors that both have at least
  \<^verbatim>\<open>kToomThreshold\<close> digits.
\<close>

definition Multiply :: "digits \<Rightarrow> digits \<Rightarrow> digits \<Rightarrow> digits" where
  "Multiply Z X0 Y0 =
     (let X = Normalize X0; Y = Normalize Y0
      in if length X = 0 \<or> length Y = 0 then replicate (length Z) 0
         else case (if length X < length Y then (Y, X) else (X, Y)) of (X, Y) \<Rightarrow>
              if length Y = 1 then MultiplySingle (length Z) X (Y ! 0)
              else if length Y < kKaratsubaThreshold then MultiplySchoolbook (length Z) X Y
              else MultiplyKaratsuba Z X Y)"

definition MultiplyResultLength :: "digits \<Rightarrow> digits \<Rightarrow> nat" where
  "MultiplyResultLength X Y = length X + length Y"

lemma Multiply_spec:
  assumes "length X + length Y \<le> length Z" and "length X + length Y < 2 ^ 30"
  shows "length (Multiply Z X Y) = length Z \<and> digits_value (Multiply Z X Y) = digits_value X * digits_value Y"
proof (cases "Normalize X = [] \<or> Normalize Y = []")
  case True
  then have "digits_value X * digits_value Y = 0" by (metis Normalize_value digits_value.simps(1) mult_zero_left mult_zero_right)
  then show ?thesis using True by (auto simp: Multiply_def)
next
  case False
  let ?X = "Normalize X" and ?Y = "Normalize Y"
  obtain V W where VW: "(if length ?X < length ?Y then (?Y, ?X) else (?X, ?Y)) = (V, W)" by (rule prod.exhaust)
  have S: "length W \<le> length V" "digits_value V * digits_value W = digits_value X * digits_value Y" "W \<noteq> []"
    "length V + length W \<le> length X + length Y"
    using VW False Normalize_length [of X] Normalize_length [of Y] by (auto split: if_splits simp: mult.commute)
  have R: "Multiply Z X Y = (if length W = 1 then MultiplySingle (length Z) V (W ! 0)
      else if length W < 34 then MultiplySchoolbook (length Z) V W else MultiplyKaratsuba Z V W)"
    using False VW by (simp add: Multiply_def Let_def)
  consider "length W = 1" | "length W \<noteq> 1" "length W < 34" | "34 \<le> length W" by linarith
  then show ?thesis
  proof cases
    case 1
    then have "digits_value W = unat (W ! 0)" by (cases W) simp_all
    then show ?thesis using R 1 S(2,4) assms MultiplySingle_spec [of V "length Z" "W ! 0"] by simp
  next
    case 2
    then show ?thesis using R S assms MultiplySchoolbook_spec [of W V "length Z"] by simp
  next
    case 3
    then show ?thesis using R S assms MultiplyKaratsuba_spec [of W V Z] by simp
  qed
qed

text \<open>C19. Multiplication is exact: with a result of the length the library asks for, or longer, it
  is filled with the product of the operands, whatever algorithm their lengths select (by a
  digit, schoolbook, Karatsuba with recursion, unequal lengths and scratch memory) and whatever
  the result memory held before.\<close>

theorem multiply_exact:
  assumes "MultiplyResultLength X Y \<le> length Z" and "MultiplyResultLength X Y < 2 ^ 30"
  shows "length (Multiply Z X Y) = length Z \<and> digits_value (Multiply Z X Y) = digits_value X * digits_value Y"
  using assms unfolding MultiplyResultLength_def by (rule Multiply_spec)

theorem multiply_exact_witness:
  "length (Multiply (replicate 80 7) (replicate 40 1) (replicate 38 2)) = 80 \<and>
   digits_value (Multiply (replicate 80 7) (replicate 40 1) (replicate 38 2)) = digits_value (replicate 40 1) * digits_value (replicate 38 2)"
  using multiply_exact [of "replicate 40 1" "replicate 38 2" "replicate 80 7"] by (simp add: MultiplyResultLength_def)

end
