(* ===== verification/Bigint_Divide.thy ===== *)
theory Bigint_Divide
  imports Bigint_Shift Bigint_Multiply
begin

text \<open>
  Division: \<^verbatim>\<open>src/bigint/div-schoolbook.cc\<close>. The quotient and the remainder are both optional for
  the caller, who asks for none with a result of length 0.
\<close>

section \<open>Division by a digit\<close>

fun DivideSingle_loop :: "digits \<Rightarrow> digit \<Rightarrow> digit \<Rightarrow> digits \<times> digit" where
  "DivideSingle_loop [] b remainder = ([], remainder)"
| "DivideSingle_loop (a # A) b remainder =
     (case DivideSingle_loop A b remainder of (Q, remainder) \<Rightarrow>
      case digit_div remainder a b of (q, remainder) \<Rightarrow> (q # Q, remainder))"

definition DivideSingle :: "nat \<Rightarrow> digits \<Rightarrow> digit \<Rightarrow> digits \<times> digit" where
  "DivideSingle Qlen A b =
     (let len = length A
      in if Qlen \<noteq> 0
         then if A ! (len - 1) \<ge> b
              then case DivideSingle_loop A b 0 of (Q, remainder) \<Rightarrow> (Q @ replicate (Qlen - len) 0, remainder)
              else case DivideSingle_loop (take (len - 1) A) b (A ! (len - 1)) of (Q, remainder) \<Rightarrow>
                     (Q @ replicate (Qlen - (len - 1)) 0, remainder)
         else ([], snd (DivideSingle_loop A b 0)))"

section \<open>Schoolbook division\<close>

definition InplaceAdd :: "digits \<Rightarrow> digits \<Rightarrow> digits \<times> digit" where
  "InplaceAdd Z X = AddAndReturnCarry Z Z X"

definition InplaceSub :: "digits \<Rightarrow> digits \<Rightarrow> digits \<times> digit" where
  "InplaceSub Z X = SubtractAndReturnBorrow Z Z X"

definition ProductGreaterThan :: "digit \<Rightarrow> digit \<Rightarrow> digit \<Rightarrow> digit \<Rightarrow> bool" where
  "ProductGreaterThan factor1 factor2 high low =
     (case digit_mul factor1 factor2 of (result_low, result_high) \<Rightarrow>
        result_high > high \<or> (result_high = high \<and> result_low > low))"

definition QLengthOK :: "nat \<Rightarrow> digits \<Rightarrow> digits \<Rightarrow> bool" where
  "QLengthOK Qlen A B =
     (if GreaterThanOrEqual (take (length B) (drop (length A - length B) A)) B
      then Qlen \<ge> length A - length B + 1 else Qlen \<ge> length A - length B)"

lemma two_digits_less:
  "unat h * digit_base + unat l < unat h' * digit_base + unat (l' :: digit) \<longleftrightarrow> h < h' \<or> (h = h' \<and> l < (l' :: digit))"
  for h h' l :: digit
proof -
  have *: "unat a * digit_base + unat c < unat b * digit_base + unat d" if "a < b" for a b c d :: digit
  proof -
    have "(unat a + 1) * digit_base \<le> unat b * digit_base"
      using that by (intro mult_right_mono) (simp_all add: word_less_nat_alt Suc_le_eq)
    then show ?thesis using unat_digit [of c] by simp
  qed
  show ?thesis
  proof (cases h h' rule: linorder_cases)
    case less
    then show ?thesis using * [of h h' l l'] by simp
  next
    case equal
    then show ?thesis by (simp add: word_less_nat_alt)
  next
    case greater
    then show ?thesis using * [of h' h l' l] by auto
  qed
qed

lemma ProductGreaterThan_spec:
  "ProductGreaterThan a b high low \<longleftrightarrow> unat a * unat b > unat high * digit_base + unat low"
proof -
  obtain l h where m: "digit_mul a b = (l, h)" by (rule prod.exhaust)
  have "unat h * digit_base + unat l = unat a * unat b" using native.mul [OF m] by (simp add: mult.commute)
  with two_digits_less [of high low h l] show ?thesis by (auto simp: ProductGreaterThan_def m)
qed

text \<open>The loop that decrements the estimate.\<close>

function qhat_loop :: "digit \<Rightarrow> digit \<Rightarrow> digit \<Rightarrow> digit \<Rightarrow> digit \<Rightarrow> digit" where
  "qhat_loop qhat rhat vn1 vn2 ujn2 =
     (if ProductGreaterThan qhat vn2 rhat ujn2
      then let qhat = qhat - 1; prev_rhat = rhat; rhat = rhat + vn1
           in if rhat < prev_rhat then qhat else qhat_loop qhat rhat vn1 vn2 ujn2
      else qhat)"
  by pat_completeness auto

termination qhat_loop
proof (relation "measure (\<lambda>(qhat, _). unat qhat)")
  fix qhat rhat vn1 vn2 ujn2 qhat' prev rhat' :: digit
  assume "ProductGreaterThan qhat vn2 rhat ujn2" and "qhat' = qhat - 1"
  then have "qhat \<noteq> 0" by (auto simp: ProductGreaterThan_spec)
  then have "unat (qhat - 1) < unat qhat" by (simp add: unat_dec unat_gt_0)
  then show "((qhat', rhat', vn1, vn2, ujn2), qhat, rhat, vn1, vn2, ujn2) \<in> measure (\<lambda>(qhat, _). unat qhat)"
    using \<open>qhat' = qhat - 1\<close> by simp
qed simp

declare qhat_loop.simps [simp del]

definition estimate_qhat :: "digits \<Rightarrow> digits \<Rightarrow> nat \<Rightarrow> digit" where
  "estimate_qhat B U j =
     (let n = length B; vn1 = B ! (n - 1); ujn = U ! (j + n)
      in if ujn \<noteq> vn1
         then case digit_div ujn (U ! (j + n - 1)) vn1 of (qhat, rhat) \<Rightarrow>
                qhat_loop qhat rhat vn1 (B ! (n - 2)) (U ! (j + n - 2))
         else - 1)"

text \<open>One pass of the loop over the digits of the quotient: the dividend that remains, and the digit.\<close>

definition DivideSchoolbook_step :: "digits \<Rightarrow> nat \<Rightarrow> digits \<Rightarrow> digits \<times> digit" where
  "DivideSchoolbook_step B j U =
     (let n = length B; qhat = estimate_qhat B U j;
          qhatv = (if qhat = 0 then replicate (n + 1) 0 else MultiplySingle (n + 1) B qhat)
      in case InplaceSub (drop j U) qhatv of (Uj, c) \<Rightarrow>
           if c \<noteq> 0
           then case InplaceAdd Uj B of (Uj, c) \<Rightarrow> (take j U @ Uj[n := Uj ! n + c], qhat - 1)
           else (take j U @ Uj, qhat))"

fun DivideSchoolbook_loop :: "digits \<Rightarrow> nat \<Rightarrow> digits \<Rightarrow> digits \<times> digits" where
  "DivideSchoolbook_loop B 0 U = (case DivideSchoolbook_step B 0 U of (U, qhat) \<Rightarrow> (U, [qhat]))"
| "DivideSchoolbook_loop B (Suc j) U =
     (case DivideSchoolbook_step B (Suc j) U of (U, qhat) \<Rightarrow>
      case DivideSchoolbook_loop B j U of (U, Q) \<Rightarrow> (U, Q @ [qhat]))"

text \<open>The digits of the quotient that have no room in \<open>Q\<close> are not stored; the room they leave is cleared.\<close>

definition DivideSchoolbook :: "nat \<Rightarrow> nat \<Rightarrow> digits \<Rightarrow> digits \<Rightarrow> digits \<times> digits" where
  "DivideSchoolbook Qlen Rlen A B0 =
     (let m = length A - length B0
      in case ShiftedDigits B0 None of (B, shift) \<Rightarrow>
         case DivideSchoolbook_loop B m (LeftShift (length A + 1) A shift) of (U, Q) \<Rightarrow>
           (take Qlen Q @ replicate (Qlen - (m + 1)) 0, if Rlen \<noteq> 0 then RightShift Rlen U shift else []))"

section \<open>Correctness of the division by a digit\<close>

lemma DivideSingle_loop_spec:
  assumes "DivideSingle_loop A b r = (Q, r')" and "r < b"
  shows "length Q = length A \<and> r' < b \<and> digits_value A + digit_base ^ length A * unat r = digits_value Q * unat b + unat r'"
  using assms(1)
proof (induction A arbitrary: Q r')
  case (Cons a A)
  obtain Q1 r1 where 1: "DivideSingle_loop A b r = (Q1, r1)" by (rule prod.exhaust)
  obtain q r2 where 2: "digit_div r1 a b = (q, r2)" by (rule prod.exhaust)
  have E: "Q = q # Q1" "r' = r2" using Cons.prems 1 2 by simp_all
  from Cons.IH [OF 1] have IH: "length Q1 = length A" "r1 < b"
    "digits_value A + digit_base ^ length A * unat r = digits_value Q1 * unat b + unat r1" by auto
  note d = digit_div_spec [OF IH(2) 2]
  have "digits_value (a # A) + digit_base ^ length (a # A) * unat r =
      unat a + digit_base * (digits_value A + digit_base ^ length A * unat r)" by (simp add: algebra_simps)
  also have "\<dots> = digits_value Q * unat b + unat r'"
    unfolding IH(3) E using d(1) by (simp add: algebra_simps)
  finally show ?case using IH(1) d(2) E by simp
qed (use assms(2) in simp)

lemma div_mod_unique: "n = q * b + r \<Longrightarrow> r < b \<Longrightarrow> n div b = q \<and> n mod b = r" for n :: nat
  by (simp add: div_mult_self3)

lemma DivideSingle_spec:
  assumes "b \<noteq> 0" and "A \<noteq> []" and "Qlen \<noteq> 0 \<longrightarrow> (if b \<le> msd A then length A else length A - 1) \<le> Qlen"
  shows "unat (snd (DivideSingle Qlen A b)) = digits_value A mod unat b"
    and "length (fst (DivideSingle Qlen A b)) = Qlen"
    and "Qlen \<noteq> 0 \<Longrightarrow> digits_value (fst (DivideSingle Qlen A b)) = digits_value A div unat b"
proof -
  have *: "unat (snd (DivideSingle Qlen A b)) = digits_value A mod unat b \<and> length (fst (DivideSingle Qlen A b)) = Qlen \<and>
    (Qlen \<noteq> 0 \<longrightarrow> digits_value (fst (DivideSingle Qlen A b)) = digits_value A div unat b)"
  proof (cases "Qlen \<noteq> 0 \<and> \<not> b \<le> msd A")
    case True
    then have lt: "msd A < b" by (simp add: not_le)
    obtain Q r where l: "DivideSingle_loop (take (length A - 1) A) b (msd A) = (Q, r)" by (rule prod.exhaust)
    from DivideSingle_loop_spec [OF l lt] have S: "length Q = length A - 1" "r < b" "digits_value A = digits_value Q * unat b + unat r"
      using value_msd [OF assms(2)] by auto
    have "DivideSingle Qlen A b = (Q @ replicate (Qlen - (length A - 1)) 0, r)"
      using True l by (simp add: DivideSingle_def Let_def msd_def)
    then show ?thesis
      using div_mod_unique [OF S(3)] S(1,2) True assms(3) by (auto simp: value_append word_less_nat_alt)
  next
    case False
    obtain Q r where l: "DivideSingle_loop A b 0 = (Q, r)" by (rule prod.exhaust)
    have "0 < b" using assms(1) by (simp add: word_gt_0)
    from DivideSingle_loop_spec [OF l this] have S: "length Q = length A" "r < b" "digits_value A = digits_value Q * unat b + unat r" by auto
    have "DivideSingle Qlen A b = (if Qlen \<noteq> 0 then Q @ replicate (Qlen - length A) 0 else [], r)"
      using False l by (auto simp: DivideSingle_def Let_def msd_def)
    then show ?thesis
      using div_mod_unique [OF S(3)] S(1,2) False assms(3) by (auto simp: value_append word_less_nat_alt)
  qed
  show "unat (snd (DivideSingle Qlen A b)) = digits_value A mod unat b"
    and "length (fst (DivideSingle Qlen A b)) = Qlen" using * by simp_all
  show "digits_value (fst (DivideSingle Qlen A b)) = digits_value A div unat b" if "Qlen \<noteq> 0" using * that by simp
qed

section \<open>The estimate of a quotient digit\<close>

text \<open>The quotient of the three highest digits by two is at most one above the digit, and never below.\<close>

lemma three_by_two_estimate:
  fixes w b P :: nat
  assumes "b = v * P + bl" and "bl < P" and "w = t * P + wl" and "wl < P" and "0 < v" and "t div v \<le> v"
  shows "w div b \<le> t div v" and "t div v \<le> w div b + 1"
proof -
  have b: "0 < b" using assms(1,2,5) by simp
  have "w div b * (v * P) \<le> w div b * b" by (simp add: assms(1))
  also have "\<dots> \<le> w" by simp
  also have "\<dots> < (t + 1) * P" using assms(3,4) by simp
  finally have "w div b * v * P < (t + 1) * P" by (simp add: mult.assoc)
  then have "w div b * v < t + 1" by (simp only: mult_less_cancel2)
  then show "w div b \<le> t div v" using assms(5) by (simp add: less_eq_div_iff_mult_less_eq)
  show "t div v \<le> w div b + 1"
  proof (cases "t div v")
    case (Suc q)
    have "q * b \<le> q * ((v + 1) * P)" using assms(1,2) by (intro mult_left_mono) simp_all
    also have "\<dots> = (q * v + q) * P" by (simp add: algebra_simps)
    also have "\<dots> \<le> t * P"
    proof (rule mult_right_mono)
      have "(q + 1) * v \<le> t" using div_times_less_eq_dividend [of t v] Suc by simp
      then show "q * v + q \<le> t" using assms(6) Suc by simp
    qed simp
    also have "\<dots> \<le> w" using assms(3) by simp
    finally have "q \<le> w div b" using b by (simp add: less_eq_div_iff_mult_less_eq)
    then show ?thesis using Suc by simp
  qed simp
qed

text \<open>Where the highest digits agree, the highest digit value is the estimate.\<close>

lemma largest_estimate:
  fixes w b P :: nat
  assumes "b = v * P + bl" and "bl < P" and "w = v * \<beta> * P + wl" and "w < \<beta> * b" and "\<beta> \<le> 2 * v" and "0 < v"
  shows "w div b \<le> \<beta> - 1" and "\<beta> - 1 \<le> w div b + 1"
proof -
  have b: "0 < b" using assms(1,2,6) by simp
  have "w div b < \<beta>" using assms(4) by (simp add: less_mult_imp_div_less)
  then show "w div b \<le> \<beta> - 1" by simp
  have "(\<beta> - 2) * b \<le> (\<beta> - 2) * ((v + 1) * P)" using assms(1,2) by (intro mult_left_mono) simp_all
  also have "\<dots> = ((\<beta> - 2) * v + (\<beta> - 2)) * P" by (simp add: algebra_simps)
  also have "\<dots> \<le> v * \<beta> * P"
  proof (rule mult_right_mono)
    have "(\<beta> - 2) * v + (\<beta> - 2) \<le> (\<beta> - 2) * v + 2 * v" using assms(5) by simp
    also have "\<dots> \<le> v * \<beta>" if "2 \<le> \<beta>" using le_Suc_ex [OF that] by (auto simp: algebra_simps)
    finally show "(\<beta> - 2) * v + (\<beta> - 2) \<le> v * \<beta>" by (cases "2 \<le> \<beta>") simp_all
  qed simp
  also have "\<dots> \<le> w" using assms(3) by simp
  finally have "\<beta> - 2 \<le> w div b" using b by (simp add: less_eq_div_iff_mult_less_eq)
  then show "\<beta> - 1 \<le> w div b + 1" by simp
qed

lemma qhat_loop_spec:
  assumes "unat qhat * unat vn1 + unat rhat = u" and "0 < unat vn1"
    and "(u * digit_base + unat ujn2) div (unat vn1 * digit_base + unat vn2) \<le> unat qhat"
  shows "unat (qhat_loop qhat rhat vn1 vn2 ujn2) = (u * digit_base + unat ujn2) div (unat vn1 * digit_base + unat vn2)"
  using assms
proof (induction qhat rhat vn1 vn2 ujn2 rule: qhat_loop.induct)
  case (1 qhat rhat vn1 vn2 ujn2)
  let ?v = "unat vn1 * digit_base + unat vn2" and ?t = "u * digit_base + unat ujn2"
  have v: "0 < ?v" using "1.prems"(2) by simp
  have scale: "q * ?v + r * digit_base = u * digit_base + q * unat vn2" if "q * unat vn1 + r = u" for q r
    unfolding that [symmetric] by (simp add: algebra_simps)
  show ?case
  proof (cases "ProductGreaterThan qhat vn2 rhat ujn2")
    case True
    then have gt: "unat rhat * digit_base + unat ujn2 < unat qhat * unat vn2" by (simp add: ProductGreaterThan_spec)
    then have nz: "qhat \<noteq> 0" by auto
    let ?q = "qhat - 1"
    have q: "unat ?q = unat qhat - 1" "unat qhat = unat ?q + 1" using nz by (simp_all add: unat_dec unat_gt_0)
    have "?t < unat qhat * ?v" using scale [OF "1.prems"(1)] gt by linarith
    then have "?t div ?v < unat qhat" using v by (simp add: div_less_iff_less_mult)
    then have le: "?t div ?v \<le> unat ?q" using q(2) by linarith
    have u: "unat ?q * unat vn1 + (unat rhat + unat vn1) = u" using "1.prems"(1) by (simp add: q(2) algebra_simps)
    show ?thesis
    proof (cases "rhat + vn1 < rhat")
      case over: True
      then have "digit_base \<le> unat rhat + unat vn1" by (simp add: word_less_nat_alt unat_digit_add split: if_splits)
      then have "digit_base * digit_base \<le> (unat rhat + unat vn1) * digit_base" by (rule mult_right_mono) simp
      moreover have "unat ?q * unat vn2 \<le> digit_base * digit_base"
        using unat_digit [of ?q] unat_digit [of vn2] by (intro mult_mono) simp_all
      ultimately have "unat ?q * ?v \<le> ?t" using scale [OF u] by linarith
      then have "unat ?q \<le> ?t div ?v" using v by (simp add: less_eq_div_iff_mult_less_eq)
      then show ?thesis using True over le by (simp add: qhat_loop.simps [of qhat] Let_def)
    next
      case False
      then have "unat (rhat + vn1) = unat rhat + unat vn1"
        using unat_digit [of vn1] by (simp add: word_less_nat_alt unat_digit_add split: if_splits)
      with "1.IH" [OF True refl refl refl False _ "1.prems"(2) le] u show ?thesis
        using True False by (simp add: qhat_loop.simps [of qhat] Let_def)
    qed
  next
    case False
    then have "unat qhat * unat vn2 \<le> unat rhat * digit_base + unat ujn2" by (simp add: ProductGreaterThan_spec)
    then have "unat qhat * ?v \<le> ?t" using scale [OF "1.prems"(1)] by linarith
    then have "unat qhat \<le> ?t div ?v" using v by (simp add: less_eq_div_iff_mult_less_eq)
    then show ?thesis using False "1.prems"(3) by (simp add: qhat_loop.simps [of qhat])
  qed
qed

lemma value_top_two:
  assumes "length X = Suc (Suc k)"
  shows "digits_value X = (unat (X ! Suc k) * digit_base + unat (X ! k)) * digit_base ^ k + digits_value (take k X)"
proof -
  have "X = take k X @ [X ! k, X ! Suc k]"
    using assms take_Suc_conv_app_nth [of "Suc k" X] take_Suc_conv_app_nth [of k X] by simp
  then have "digits_value X = digits_value (take k X @ [X ! k, X ! Suc k])" by simp
  then show ?thesis using assms by (simp add: value_append algebra_simps)
qed

lemma value_top_three:
  assumes "length X = Suc (Suc (Suc k))"
  shows "digits_value X =
    ((unat (X ! Suc (Suc k)) * digit_base + unat (X ! Suc k)) * digit_base + unat (X ! k)) * digit_base ^ k + digits_value (take k X)"
  using value_top_two [OF assms] take_Suc_conv_app_nth [of k X] assms by (simp add: value_append algebra_simps)

lemma estimate_qhat_spec:
  assumes "2 \<le> length B" and "2 ^ 63 \<le> unat (msd B)" and "j + length B < length U"
    and "w = digits_value (take (Suc (length B)) (drop j U))" and "w < digit_base * digits_value B"
  shows "w div digits_value B \<le> unat (estimate_qhat B U j)" and "unat (estimate_qhat B U j) \<le> w div digits_value B + 1"
proof -
  obtain k where k: "length B = Suc (Suc k)" using assms(1) by (metis add_2_eq_Suc le_Suc_ex)
  let ?W = "take (Suc (length B)) (drop j U)" and ?v1 = "unat (msd B)" and ?v2 = "unat (B ! k)"
  have W: "length ?W = Suc (Suc (Suc k))" "?W ! i = U ! (j + i)" if "i < Suc (Suc (Suc k))" for i
    using assms(3) k that by auto
  have lo: "digits_value (take i V) < digit_base ^ i" if "i \<le> length V" for i V
    using value_less [of "take i V"] that by (simp add: min_absorb2)
  let ?u0 = "unat (U ! (j + Suc (Suc k)))" and ?u1 = "unat (U ! (j + Suc k))" and ?u2 = "unat (U ! (j + k))"
  let ?t = "(?u0 * digit_base + ?u1) * digit_base + ?u2" and ?v = "?v1 * digit_base + ?v2" and ?P = "digit_base ^ k"
  have B: "digits_value B = ?v * ?P + digits_value (take k B)" using value_top_two [OF k] by (simp add: msd_def k)
  have w: "w = ?t * ?P + digits_value (take k ?W)" using value_top_three [OF W(1) [OF lessI]] W(2) assms(4) by simp
  have v1: "0 < ?v1" using assms(2) by (simp add: less_le_trans [of 0 "2 ^ 63"])
  have vn: "B ! Suc k = msd B" by (simp add: msd_def k)
  have "w div digits_value B \<le> unat (estimate_qhat B U j) \<and> unat (estimate_qhat B U j) \<le> w div digits_value B + 1"
  proof (cases "U ! (j + Suc (Suc k)) = msd B")
    case True
    have "w div digits_value B \<le> digit_base - 1 \<and> digit_base - 1 \<le> w div digits_value B + 1"
    proof (intro conjI)
      have b: "digits_value B = ?v1 * (digit_base * ?P) + (?v2 * ?P + digits_value (take k B))"
        using B by (simp add: algebra_simps)
      have bl: "?v2 * ?P + digits_value (take k B) < digit_base * ?P"
      proof -
        have "(?v2 + 1) * ?P \<le> digit_base * ?P" using unat_digit [of "B ! k"] by (intro mult_right_mono) simp_all
        then show ?thesis using lo [of k B] k by simp
      qed
      have wl: "w = ?v1 * digit_base * (digit_base * ?P) + ((?u1 * digit_base + ?u2) * ?P + digits_value (take k ?W))"
        using w True by (simp add: algebra_simps)
      have 2: "digit_base \<le> 2 * ?v1" using assms(2) by (simp add: digit_base_def)
      show "w div digits_value B \<le> digit_base - 1" by (rule largest_estimate(1) [OF b bl wl assms(5) 2 v1])
      show "digit_base - 1 \<le> w div digits_value B + 1" by (rule largest_estimate(2) [OF b bl wl assms(5) 2 v1])
    qed
    moreover have "unat (- 1 :: digit) = digit_base - 1"
      by (simp add: digit_base_def unsigned_minus_1_eq_mask mask_eq_exp_minus_1)
    ultimately show ?thesis using True by (simp add: estimate_qhat_def Let_def vn k)
  next
    case False
    have "?u0 * (digit_base * digit_base * ?P) \<le> w" using w by (simp add: algebra_simps)
    also have "\<dots> < digit_base * digits_value B" by (rule assms(5))
    also have "\<dots> \<le> digit_base * ((?v1 + 1) * digit_base * ?P)"
    proof (rule mult_left_mono)
      have "(?v + 1) * ?P \<le> (?v1 + 1) * digit_base * ?P"
        using unat_digit [of "B ! k"] by (intro mult_right_mono) simp_all
      then show "digits_value B \<le> (?v1 + 1) * digit_base * ?P" using B lo [of k B] k by simp
    qed simp
    also have "\<dots> = (?v1 + 1) * (digit_base * digit_base * ?P)" by (simp only: ac_simps)
    finally have "?u0 < ?v1 + 1" by (simp only: mult_less_cancel2)
    with False have lt: "U ! (j + Suc (Suc k)) < msd B" by (auto simp: word_less_nat_alt word_unat_eq_iff)
    obtain q r where d: "digit_div (U ! (j + Suc (Suc k))) (U ! (j + Suc k)) (msd B) = (q, r)" by (rule prod.exhaust)
    note D = digit_div_spec [OF lt d]
    have "?t div ?v \<le> ?t div (?v1 * digit_base)" using v1 by (intro div_le_mono2) simp_all
    also have "\<dots> = (?u0 * digit_base + ?u1) div ?v1" by (simp add: div_mult2_eq mult.commute [of ?v1] less_imp_neq unat_digit)
    also have "\<dots> = unat q" unfolding D(1) using D(2) v1 by (simp add: word_less_nat_alt)
    finally have tq: "?t div ?v \<le> unat q" .
    have "digit_base \<le> ?v1 * digit_base" using v1 by simp
    then have tv: "?t div ?v \<le> ?v" using tq unat_digit [of q] by linarith
    have "unat (estimate_qhat B U j) = ?t div ?v"
      using False qhat_loop_spec [OF D(1) [symmetric] v1 tq] d by (simp add: estimate_qhat_def Let_def vn k)
    then show ?thesis
      using three_by_two_estimate [OF B lo w lo _ tv] v1 k assms(3) by simp
  qed
  then show "w div digits_value B \<le> unat (estimate_qhat B U j)" and "unat (estimate_qhat B U j) \<le> w div digits_value B + 1"
    by simp_all
qed

section \<open>Correctness of the schoolbook division\<close>

lemma InplaceSub_spec:
  assumes "InplaceSub Z X = (Z', b)" and "length X \<le> length Z"
  shows "\<exists>Z1. Z' = Z1 @ drop (length X) Z \<and> length Z1 = length X \<and> unat b \<le> 1 \<and>
    digits_value Z1 + digits_value X = digits_value (take (length X) Z) + digit_base ^ length X * unat b"
proof -
  obtain Z1 b1 where l: "sub2_loop Z X 0 = (Z1, b1)" by (rule prod.exhaust)
  show ?thesis using sub2_loop_spec [OF l assms(2)] assms(1) by (auto simp: InplaceSub_def SubtractAndReturnBorrow_def l)
qed

text \<open>Adding the divisor back after a subtraction that went below zero.\<close>

lemma add_back:
  assumes "InplaceAdd Z B = (Z', c)" and "length B < length Z"
    and "digits_value (take (Suc (length B)) Z) + digits_value B = digit_base ^ Suc (length B) + r" and "r < digit_base ^ length B"
  shows "\<exists>Z1. Z'[length B := Z' ! length B + c] = Z1 @ drop (Suc (length B)) Z \<and> length Z1 = Suc (length B) \<and> digits_value Z1 = r"
proof -
  let ?n = "length B"
  obtain Z1 c1 where l: "add3_loop Z B 0 = (Z1, c1)" by (rule prod.exhaust)
  have A: "length Z1 = ?n" "unat c1 \<le> 1" "digits_value Z1 + digit_base ^ ?n * unat c1 = digits_value (take ?n Z) + digits_value B"
    using add3_loop_spec [OF l] assms(2) by auto
  have Z': "Z' = Z1 @ drop ?n Z" "c = c1" using assms(1) by (simp_all add: InplaceAdd_def AddAndReturnCarry_def l)
  have d: "drop ?n Z = Z ! ?n # drop (Suc ?n) Z" using assms(2) by (simp add: Cons_nth_drop_Suc)
  have t: "take (Suc ?n) Z = take ?n Z @ [Z ! ?n]" using assms(2) by (simp add: take_Suc_conv_app_nth)
  have v: "digits_value Z1 + digit_base ^ ?n * (unat (Z ! ?n) + unat c1) = digit_base ^ ?n * digit_base + r"
    using A(3) assms(2,3) by (simp add: t value_append algebra_simps)
  have "digit_base ^ ?n * digit_base < digit_base ^ ?n * (unat (Z ! ?n) + unat c1 + 1)"
    using v value_less [of Z1] A(1) by (simp add: distrib_left)
  then have "digit_base < unat (Z ! ?n) + unat c1 + 1" by (rule base_power_less)
  moreover have "unat (Z ! ?n) + unat c1 \<le> digit_base" using unat_digit [of "Z ! ?n"] A(2) by simp
  ultimately have e: "unat (Z ! ?n) + unat c1 = digit_base" by simp
  then have "unat (Z ! ?n + c1) = 0" by (simp add: unat_digit_add)
  moreover have "digits_value Z1 = r" using v by (simp add: e)
  ultimately show ?thesis
    using A(1) by (intro exI [of _ "Z1 @ [Z ! ?n + c1]"]) (simp add: Z' d nth_append value_append list_update_append)
qed

lemma DivideSchoolbook_step_spec:
  assumes "DivideSchoolbook_step B j U = (U', q)" and "2 \<le> length B" and "2 ^ 63 \<le> unat (msd B)"
    and "j + length B < length U" and "digits_value (drop (Suc j) U) < digits_value B"
  shows "length U' = length U \<and> take j U' = take j U \<and> digits_value (drop j U') < digits_value B \<and>
    digits_value (drop j U) = unat q * digits_value B + digits_value (drop j U')"
proof -
  let ?n = "length B" and ?b = "digits_value B" and ?D = "drop j U" and ?qhat = "estimate_qhat B U j"
  let ?w = "digits_value (take (Suc ?n) ?D)"
  let ?qhatv = "if ?qhat = 0 then replicate (?n + 1) 0 else MultiplySingle (?n + 1) B ?qhat"
  have D: "?D = U ! j # drop (Suc j) U" using assms(4) by (simp add: Cons_nth_drop_Suc)
  have "digit_base * (digits_value (drop (Suc j) U) + 1) \<le> digit_base * ?b" using assms(5) by (intro mult_left_mono) simp_all
  then have lt: "digits_value ?D < digit_base * ?b" using unat_digit [of "U ! j"] unfolding D by simp
  also have "\<dots> < digit_base * digit_base ^ ?n" using value_less [of B] by simp
  finally have small: "digits_value ?D < digit_base ^ Suc ?n" by simp
  have split: "?w + digit_base ^ Suc ?n * digits_value (drop (Suc ?n) ?D) = digits_value ?D"
    using assms(4) by (intro value_take_drop) simp
  then have "digit_base ^ Suc ?n * digits_value (drop (Suc ?n) ?D) < digit_base ^ Suc ?n * 1" using small by linarith
  then have top: "digits_value (drop (Suc ?n) ?D) = 0" by (simp only: mult_less_cancel1) simp
  then have w: "?w = digits_value ?D" using split by simp
  have b: "0 < ?b" using assms(5) by simp
  note est = estimate_qhat_spec [OF assms(2,3,4) refl, unfolded w]
  have qv: "length ?qhatv = Suc ?n" "digits_value ?qhatv = unat ?qhat * ?b"
    using MultiplySingle_spec [of B "Suc ?n" ?qhat] by (auto simp: mult.commute)
  obtain D1 c where s: "InplaceSub ?D ?qhatv = (D1, c)" by (rule prod.exhaust)
  have "length ?qhatv \<le> length ?D" unfolding qv(1) using assms(4) by simp
  from InplaceSub_spec [OF s this, unfolded qv w] obtain Z1 where Z1: "D1 = Z1 @ drop (Suc ?n) ?D" "length Z1 = Suc ?n" "unat c \<le> 1"
    "digits_value Z1 + unat ?qhat * ?b = digits_value ?D + digit_base ^ Suc ?n * unat c"
    by blast
  have len: "length ?D = Suc ?n + (length U - j - Suc ?n)" "j \<le> length U" using assms(4) by simp_all
  show ?thesis
  proof (cases "c = 0")
    case True
    then have "U' = take j U @ D1" "q = ?qhat" using assms(1) s by (simp_all add: DivideSchoolbook_step_def Let_def)
    moreover have e: "digits_value ?D = unat ?qhat * ?b + digits_value Z1" using Z1(4) True by simp
    then have "unat ?qhat \<le> digits_value ?D div ?b" using b by (simp add: less_eq_div_iff_mult_less_eq)
    then have "unat ?qhat = digits_value ?D div ?b" using est(1) [OF lt] by simp
    then have "digits_value Z1 = digits_value ?D mod ?b" using e by (simp add: minus_mult_div_eq_mod [symmetric])
    then have "digits_value Z1 < ?b" using b mod_less_divisor by metis
    ultimately show ?thesis using Z1(1,2) e top assms(4) by (simp add: value_append)
  next
    case False
    then have c: "unat c = 1" using Z1(3) by (metis le_Suc_eq One_nat_def le_zero_eq unat_eq_zero)
    have "digits_value ?D < unat ?qhat * ?b" using Z1(4) value_less [of Z1] Z1(2) c by simp
    then have "digits_value ?D div ?b < unat ?qhat" using b by (simp add: div_less_iff_less_mult)
    then have q: "unat ?qhat = digits_value ?D div ?b + 1" using est(2) [OF lt] by simp
    define r where "r = digits_value ?D mod ?b"
    have e: "digits_value ?D = digits_value ?D div ?b * ?b + r" by (simp add: r_def)
    have r: "r < ?b" "r < digit_base ^ ?n" using b value_less [of B] by (auto simp: r_def intro: less_trans mod_less_divisor)
    have "digits_value (take (Suc ?n) D1) + ?b = digit_base ^ Suc ?n + r"
      using Z1(1,2,4) e unfolding q c by simp
    moreover obtain D2 c2 where a: "InplaceAdd D1 B = (D2, c2)" by (rule prod.exhaust)
    ultimately obtain Z2 where Z2: "D2[?n := D2 ! ?n + c2] = Z2 @ drop (Suc ?n) D1" "length Z2 = Suc ?n" "digits_value Z2 = r"
      using add_back [OF a _ _ r(2)] Z1(1,2) by auto
    have "U' = take j U @ Z2 @ drop (Suc ?n) D1" "q = ?qhat - 1"
      using assms(1) s a False Z2(1) by (simp_all add: DivideSchoolbook_step_def Let_def)
    moreover have "?qhat \<noteq> 0" using q by auto
    then have "unat (?qhat - 1) = digits_value ?D div ?b" using q by (simp add: unat_dec)
    ultimately show ?thesis using Z1(1,2) Z2(2,3) e top r(1) len by (simp add: value_append)
  qed
qed

lemma DivideSchoolbook_loop_spec:
  assumes "DivideSchoolbook_loop B j U = (U', Q)" and "2 \<le> length B" and "2 ^ 63 \<le> unat (msd B)"
    and "j + length B < length U" and "digits_value (drop (Suc j) U) < digits_value B"
  shows "length U' = length U \<and> length Q = Suc j \<and> digits_value U' < digits_value B \<and>
    digits_value U = digits_value Q * digits_value B + digits_value U'"
  using assms(1,4,5)
proof (induction j arbitrary: U U' Q)
  case 0
  then obtain q where "DivideSchoolbook_step B 0 U = (U', q)" "Q = [q]" by (auto split: prod.splits)
  then show ?case using DivideSchoolbook_step_spec [OF _ assms(2,3) "0.prems"(2,3)] by simp
next
  case (Suc j)
  obtain U1 q where s: "DivideSchoolbook_step B (Suc j) U = (U1, q)" by (rule prod.exhaust)
  obtain Q1 where l: "DivideSchoolbook_loop B j U1 = (U', Q1)" "Q = Q1 @ [q]"
    using Suc.prems(1) s by (auto split: prod.splits)
  from DivideSchoolbook_step_spec [OF s assms(2,3) Suc.prems(2,3)]
  have S: "length U1 = length U" "take (Suc j) U1 = take (Suc j) U" "digits_value (drop (Suc j) U1) < digits_value B"
    "digits_value (drop (Suc j) U) = unat q * digits_value B + digits_value (drop (Suc j) U1)" by auto
  from Suc.IH [OF l(1) _ S(3)] Suc.prems(2) S(1)
  have IH: "length U' = length U" "length Q1 = Suc j" "digits_value U' < digits_value B"
    "digits_value U1 = digits_value Q1 * digits_value B + digits_value U'" by auto
  have "digits_value U = digits_value (take (Suc j) U1) + digit_base ^ Suc j * (unat q * digits_value B + digits_value (drop (Suc j) U1))"
    unfolding S(2) S(4) [symmetric] using Suc.prems(2) by (simp only: value_take_drop)
  also have "\<dots> = digits_value U1 + digit_base ^ Suc j * unat q * digits_value B"
    using value_take_drop [of "Suc j" U1] Suc.prems(2) S(1) by (simp only: distrib_left mult.assoc) simp
  finally show ?case using IH l(2) by (simp add: value_append algebra_simps)
qed

lemma DivideSchoolbook_spec:
  assumes "2 \<le> length B" and "length B \<le> length A" and "msd B \<noteq> 0" and "Rlen = 0 \<or> length B \<le> Rlen"
    and "DivideSchoolbook Qlen Rlen A B = (Q, R)"
  shows "length Q = Qlen \<and> digits_value Q = (digits_value A div digits_value B) mod digit_base ^ Qlen \<and> length R = Rlen \<and>
    (Rlen \<noteq> 0 \<longrightarrow> digits_value R = digits_value A mod digits_value B)"
proof -
  let ?m = "length A - length B"
  obtain B1 s where B1: "ShiftedDigits B None = (B1, s)" by (rule prod.exhaust)
  have "B \<noteq> []" using assms(1) by auto
  note S = ShiftedDigits_spec [OF B1 this assms(3)]
  let ?U = "LeftShift (length A + 1) A s"
  obtain U Q1 where l: "DivideSchoolbook_loop B1 ?m ?U = (U, Q1)" by (rule prod.exhaust)
  have s64: "(2 :: nat) ^ s \<le> 2 ^ 63" using S(1) by (intro power_increasing) simp_all
  have "digits_value A * 2 ^ s < digit_base ^ length A * 2 ^ s" using value_less [of A] by simp
  also have "\<dots> \<le> digit_base ^ length A * 2 ^ 63" using s64 by (rule mult_left_mono) simp
  finally have A63: "digits_value A * 2 ^ s < digit_base ^ length A * 2 ^ 63" .
  also have "\<dots> \<le> digit_base ^ length A * digit_base" by (rule mult_left_mono) (simp_all add: digit_base_def)
  finally have U: "length ?U = length A + 1" "digits_value ?U = digits_value A * 2 ^ s"
    using LeftShift_spec [OF S(1), of A "length A + 1"] by (simp_all add: mult.commute)
  have "digit_base ^ Suc ?m * digits_value (drop (Suc ?m) ?U) \<le> digits_value ?U"
    using value_take_drop [of "Suc ?m" ?U] U(1) assms(1,2) by simp
  also have "\<dots> < digit_base ^ length A * 2 ^ 63" using A63 unfolding U(2) .
  also have "\<dots> = digit_base ^ Suc ?m * (digit_base ^ (length B - 1) * 2 ^ 63)"
  proof -
    have "length A = Suc ?m + (length B - 1)" using assms(1,2) by simp
    then show ?thesis by (metis mult.assoc power_add)
  qed
  finally have "digits_value (drop (Suc ?m) ?U) < digit_base ^ (length B - 1) * 2 ^ 63" by (rule base_power_less)
  also have "\<dots> \<le> digits_value B1"
  proof -
    have "digit_base ^ (length B - 1) * 2 ^ 63 \<le> digit_base ^ (length B - 1) * unat (msd B1)"
      using S(4) by (rule mult_left_mono) simp
    moreover have "digit_base ^ (length B - 1) * unat (msd B1) \<le> digits_value B1"
      using value_msd [of B1] S(2) \<open>B \<noteq> []\<close> by (cases "B1 = []") simp_all
    ultimately show ?thesis by (rule order_trans)
  qed
  finally have top: "digits_value (drop (Suc ?m) ?U) < digits_value B1" .
  from DivideSchoolbook_loop_spec [OF l _ S(4) _ top] S(2) U assms(1,2)
  have L: "length Q1 = Suc ?m" "digits_value U < digits_value B1"
    "digits_value A * 2 ^ s = digits_value Q1 * digits_value B1 + digits_value U" by auto
  have qr: "digits_value Q1 = digits_value A div digits_value B" "digits_value U = digits_value A mod digits_value B * 2 ^ s"
    using div_mod_unique [OF L(3,2)] by (simp_all add: S(3) mult_mod_left)
  have "length (Normalize U) \<le> length B"
    using L(2) value_less [of B1] S(2) by (intro normal_length_le Normalize_normal) simp
  then have R: "Rlen \<noteq> 0 \<longrightarrow> length (RightShift Rlen U s) = Rlen \<and> digits_value (RightShift Rlen U s) = digits_value A mod digits_value B"
    using RightShift_spec [OF S(1), of U Rlen] assms(4) qr(2) by auto
  have "Q = take Qlen Q1 @ replicate (Qlen - (?m + 1)) 0" "R = (if Rlen \<noteq> 0 then RightShift Rlen U s else [])"
    using assms(5) by (simp_all only: DivideSchoolbook_def Let_def B1 l prod.case prod.inject)
  then show ?thesis using R L(1) qr(1) by (auto simp: value_append value_take)
qed

end
