(* ===== verification/Bigint_Burnikel.thy ===== *)
theory Bigint_Burnikel
  imports Bigint_Karatsuba Bigint_Divide
begin

text \<open>
  Burnikel-Ziegler division: \<^verbatim>\<open>src/bigint/div-burnikel.cc\<close>, and the functions that choose an
  algorithm for divisions, of \<^verbatim>\<open>src/bigint/bigint-internal.cc\<close>. The result of a function is
  \<^const>\<open>None\<close> if one of the loops that look at no length runs behind the end of a vector. The
  checks for an interrupt are left out.
\<close>

abbreviation kBurnikelThreshold :: nat where "kBurnikelThreshold \<equiv> 57"

section \<open>The recursion\<close>

definition SpecialCompare :: "digit \<Rightarrow> digits \<Rightarrow> digits \<Rightarrow> int" where
  "SpecialCompare a_high A0 B0 =
     (let B = Normalize B0;
          A = (if a_high = 0 then Normalize A0 else A0);
          a_len = (if a_high = 0 then length A else length A + 1);
          diff = int a_len - int (length B)
      in if diff \<noteq> 0 then diff
         else if a_high \<noteq> 0
              then if a_high > B ! (a_len - 1) then 1
                   else if a_high < B ! (a_len - 1) then - 1
                   else Compare_loop A B (a_len - 1)
              else Compare_loop A B a_len)"

definition SetOnes :: "nat \<Rightarrow> digits" where
  "SetOnes len = replicate len (- 1)"

definition DivideBasecase :: "digits \<Rightarrow> digits \<Rightarrow> digits \<Rightarrow> digits \<Rightarrow> digits \<times> digits" where
  "DivideBasecase Q R A0 B0 =
     (let A = Normalize A0; B = Normalize B0; cmp = Compare A B
      in if cmp \<le> 0
         then let Q = replicate (length Q) 0
              in if cmp = 0 then (Q[0 := 1], replicate (length R) 0) else (Q, PutAt A (length R))
         else if length B = 1
              then case DivideSingle (length Q) A (B ! 0) of (Q, remainder) \<Rightarrow> (Q, R[0 := remainder])
              else DivideSchoolbook (length Q) (length R) A B)"

text \<open>The loop that corrects the estimate of the quotient.\<close>

lemma Subtract_digit_decreases: "Subtract_digit X b = Some Z \<Longrightarrow> length Z = length X \<and> digits_value Z + unat b = digits_value X"
proof (induction X b arbitrary: Z rule: Subtract_digit.induct)
  case (2 x X b)
  obtain z b1 where d: "digit_sub x b = (z, b1)" by (rule prod.exhaust)
  show ?case
  proof (cases "b1 = 0")
    case True
    then show ?thesis using "2.prems" native.sub [OF d] d by auto
  next
    case False
    then obtain Z1 where Z1: "Subtract_digit X b1 = Some Z1" "Z = z # Z1" using "2.prems" d by auto
    from "2.IH" [OF d [symmetric] False Z1(1)] have IH: "length Z1 = length X" "digits_value Z1 + unat b1 = digits_value X" by auto
    have "digit_base * digits_value X = digit_base * digits_value Z1 + digit_base * unat b1" by (simp flip: IH(2) add: distrib_left)
    then show ?thesis using IH(1) Z1(2) native.sub [OF d] by simp
  qed
qed simp

function D3n2n_correct :: "digit \<Rightarrow> digits \<Rightarrow> digits \<Rightarrow> digits \<Rightarrow> digits \<Rightarrow> (digit \<times> digits \<times> digits) option" where
  "D3n2n_correct r1_high R Qhat D B =
     (if SpecialCompare r1_high R D < 0
      then case AddAndReturnCarry R R B of (R, carry) \<Rightarrow>
           (case Subtract_digit Qhat 1 of None \<Rightarrow> None | Some Qhat \<Rightarrow> D3n2n_correct (r1_high + carry) R Qhat D B)
      else Some (r1_high, R, Qhat))"
  by pat_completeness auto

termination D3n2n_correct
  by (relation "measure (\<lambda>(r1_high, R, Qhat, D, B). digits_value Qhat)") (auto dest: Subtract_digit_decreases)

declare D3n2n_correct.simps [simp del]

function D3n2n :: "digits \<Rightarrow> digits \<Rightarrow> digits \<Rightarrow> digits \<Rightarrow> digits \<Rightarrow> (digits \<times> digits) option"
  and D2n1n :: "digits \<Rightarrow> digits \<Rightarrow> digits \<Rightarrow> digits \<Rightarrow> (digits \<times> digits) option" where
  "D3n2n Q R A1A2 A3 B =
     (let n = length B div 2;
          A1 = take n (drop n A1A2); B1 = take n (drop n B); B2 = take n B; R1 = take n (drop n R)
      in case (if Compare A1 B1 < 0
               then map_option (\<lambda>(Qhat, R1). (Qhat, R1, 0)) (D2n1n Q R1 A1A2 B1)
               else let temp = Subtract_digits (length R1) A1 B1;
                        r1_high = (if 0 < length (Normalize temp) then Normalize temp ! 0 else 0)
                    in case AddAndReturnCarry temp (take n A1A2) B1 of (R1, carry) \<Rightarrow>
                         Some (SetOnes (length Q), R1, r1_high + carry)) of
           None \<Rightarrow> None
         | Some (Qhat, R1, r1_high) \<Rightarrow>
             let D = Multiply (ScratchDigits (2 * n)) Qhat B2;
                 R = PutAt A3 n @ R1
             in map_option (\<lambda>(r1_high, R, Qhat). (Qhat, fst (SubtractAndReturnBorrow R R D))) (D3n2n_correct r1_high R Qhat D B))"
| "D2n1n Q R A B =
     (let n = length B
      in if odd n \<or> n < kBurnikelThreshold then Some (DivideBasecase Q R A B)
         else let h = n div 2;
                  A1A2 = take n (drop n A); A3 = take h (drop h A); A4 = take h A
              in case D3n2n (take h (drop h Q)) (ScratchDigits n) A1A2 A3 B of
                   None \<Rightarrow> None
                 | Some (Q1, R1) \<Rightarrow> map_option (\<lambda>(Q2, R). (Q2 @ Q1, R)) (D3n2n (take h Q) R R1 A4 B))"
  by pat_completeness auto

lemma Compare_less: "Compare A B < 0 \<longleftrightarrow> digits_value A < digits_value B"
  using Compare_spec [of A B] by (auto simp: sgn_if split: if_splits)

termination D3n2n
proof (relation "measure (\<lambda>r. case r of Inl (Q, R, A1A2, A3, B) \<Rightarrow> 2 * length B | Inr (Q, R, A, B) \<Rightarrow> 2 * length B + 1)", goal_cases)
  case (2 Q R A1A2 A3 B n A1 B1 B2 R1)
  then have "0 < digits_value B1" by (simp only: Compare_less)
  then have "B1 \<noteq> []" by auto
  then show ?case using 2 by auto
qed auto

declare D3n2n.simps [simp del] D2n1n.simps [simp del]

section \<open>The whole division\<close>

definition DIV_CEIL :: "nat \<Rightarrow> nat \<Rightarrow> nat" where
  "DIV_CEIL x y = (x - 1) div y + 1"

text \<open>The loop over the blocks below the two highest, with \<open>i\<close> blocks left.\<close>

fun DivideBurnikelZiegler_loop :: "digits \<Rightarrow> digits \<Rightarrow> nat \<Rightarrow> digits \<Rightarrow> digits \<Rightarrow> (digits \<times> digits) option" where
  "DivideBurnikelZiegler_loop A B 0 Q Ri = Some (Q, Ri)"
| "DivideBurnikelZiegler_loop A B (Suc i) Q Ri =
     (let n = length B
      in case D2n1n (take n (drop (i * n) Q)) Ri (PutAt (drop (n * i) A) n @ PutAt Ri n) B of
           None \<Rightarrow> None
         | Some (Qi, Ri) \<Rightarrow> DivideBurnikelZiegler_loop A B i (take (i * n) Q @ Qi @ drop (i * n + n) Q) Ri)"

definition DivideBurnikelZiegler :: "digits \<Rightarrow> nat \<Rightarrow> digits \<Rightarrow> digits \<Rightarrow> (digits \<times> digits) option" where
  "DivideBurnikelZiegler Q Rlen A0 B0 =
     (let r = length A0; s = length B0;
          m = push_bit (BitLength (s div kBurnikelThreshold)) 1;
          j = DIV_CEIL s m;
          n = j * m;
          sigma = CountLeadingZeros (B0 ! (s - 1));
          digit_shift = n - s;
          B = replicate digit_shift 0 @ LeftShift (n - digit_shift) B0 sigma;
          extra_digit = (if CountLeadingZeros (A0 ! (r - 1)) < sigma + 1 then 1 else 0);
          r = length A0 + digit_shift + extra_digit;
          A = replicate digit_shift 0 @ LeftShift (r - digit_shift) A0 sigma;
          t = max (DIV_CEIL r n) 2;
          Z = PutAt (drop (n * (t - 2)) A) (n * 2)
      in case D2n1n (ScratchDigits n) (ScratchDigits n) Z B of
           None \<Rightarrow> None
         | Some (Qi, Ri) \<Rightarrow>
             let target = drop (n * (t - 2)) Q;
                 Q = take (n * (t - 2)) Q @ PutAt (Normalize Qi) (length target)
             in map_option (\<lambda>(Q, Ri). (Q, if Rlen \<noteq> 0 then RightShift Rlen (Normalize (drop digit_shift Ri)) sigma else []))
                  (DivideBurnikelZiegler_loop A B (t - 2) Q Ri))"

section \<open>Correctness of the recursion\<close>

lemma high_part_less:
  fixes c d P a b :: nat
  assumes "c < P" and "d < P"
  shows "c + P * a < d + P * b \<longleftrightarrow> a < b \<or> (a = b \<and> c < d)"
proof -
  have *: "c + P * a < d + P * b" if "a < b" "c < P" for a b c d
  proof -
    have "P * (a + 1) \<le> P * b" using that(1) by (intro mult_left_mono) simp_all
    then show ?thesis using that(2) by simp
  qed
  show ?thesis using * [of a b c d] * [of b a d c] assms by (cases a b rule: linorder_cases) auto
qed

lemma SpecialCompare_spec: "SpecialCompare a A B < 0 \<longleftrightarrow> digits_value A + digit_base ^ length A * unat a < digits_value B"
proof (cases "a = 0")
  case True
  have "SpecialCompare a A B = Compare A B"
    using True by (simp add: SpecialCompare_def Compare_def Let_def)
  then show ?thesis using True by (simp add: Compare_less)
next
  case False
  let ?B = "Normalize B" and ?v = "digits_value A + digit_base ^ length A * unat a"
  have lo: "digit_base ^ length A \<le> ?v" using False by (simp add: Suc_le_eq unat_gt_0 trans_le_add2)
  show ?thesis
  proof (cases "length A + 1" "length ?B" rule: linorder_cases)
    case less
    have "?v < digit_base ^ Suc (length A)" using value_less [of "A @ [a]"] by (simp add: value_append)
    also have "\<dots> \<le> digit_base ^ (length ?B - 1)" using less by (intro power_increasing) (simp_all add: Suc_le_eq)
    also have "\<dots> \<le> digits_value ?B" using less by (intro normal_lower Normalize_normal) auto
    finally show ?thesis using False less by (simp add: SpecialCompare_def Let_def)
  next
    case equal
    let ?i = "length A"
    have B: "?B = take ?i ?B @ [?B ! ?i]" using equal take_Suc_conv_app_nth [of ?i ?B] by simp
    have v: "digits_value B = digits_value (take ?i ?B) + digit_base ^ ?i * unat (?B ! ?i)"
      using value_append [of "take ?i ?B" "[?B ! ?i]"] equal unfolding B [symmetric] by simp
    have lt: "digits_value (take ?i ?B) < digit_base ^ ?i" by (rule value_take_less)
    have c: "Compare_loop A ?B ?i < 0 \<longleftrightarrow> digits_value A < digits_value (take ?i ?B)"
      using Compare_loop_spec [of ?i A ?B] equal by (auto simp: sgn_if split: if_splits)
    have e: "SpecialCompare a A B = (if a > ?B ! ?i then 1 else if a < ?B ! ?i then - 1 else Compare_loop A ?B ?i)"
      using False equal [symmetric] by (simp add: SpecialCompare_def Let_def)
    have "SpecialCompare a A B < 0 \<longleftrightarrow> unat a < unat (?B ! ?i) \<or> (unat a = unat (?B ! ?i) \<and> digits_value A < digits_value (take ?i ?B))"
      unfolding e using c by (auto simp: word_less_nat_alt word_unat_eq_iff)
    then show ?thesis unfolding v high_part_less [OF value_less lt] by simp
  next
    case greater
    have "digits_value ?B < digit_base ^ length ?B" by (rule value_less)
    also have "\<dots> \<le> digit_base ^ length A" using greater by (intro power_increasing) (simp_all add: Suc_le_eq)
    finally show ?thesis using lo False greater by (simp add: SpecialCompare_def Let_def)
  qed
qed

text \<open>
  The correction keeps the equation between the dividend, the estimate and the remainder, and
  ends with a remainder below the divisor.
\<close>

lemma AddAndReturnCarry_spec:
  assumes "AddAndReturnCarry Z X Y = (Z', c)" and "length Y = length Z" and "length Y \<le> length X"
  shows "length Z' = length Z \<and> unat c \<le> 1 \<and> digits_value Z' + digit_base ^ length Z * unat c = digits_value (take (length Y) X) + digits_value Y"
proof -
  obtain Z1 c1 where l: "add3_loop X Y 0 = (Z1, c1)" by (rule prod.exhaust)
  show ?thesis using add3_loop_spec [OF l assms(3)] assms(1,2) by (auto simp: AddAndReturnCarry_def l)
qed

lemma D3n2n_correct_spec:
  assumes "a + digits_value D = digits_value Q * digits_value B + (digits_value R + digit_base ^ length R * unat h)"
    and "digits_value R + digit_base ^ length R * unat h < digits_value D + digits_value B"
    and "length B = length R" and "length D = length R"
  shows "\<exists>h' R' Q'. D3n2n_correct h R Q D B = Some (h', R', Q') \<and> length R' = length R \<and> length Q' = length Q \<and>
    a + digits_value D = digits_value Q' * digits_value B + (digits_value R' + digit_base ^ length R * unat h') \<and>
    digits_value D \<le> digits_value R' + digit_base ^ length R * unat h' \<and>
    digits_value R' + digit_base ^ length R * unat h' < digits_value D + digits_value B"
  using assms
proof (induction h R Q D B rule: D3n2n_correct.induct)
  case (1 h R Q D B)
  let ?P = "digit_base ^ length R"
  show ?case
  proof (cases "SpecialCompare h R D < 0")
    case False
    then show ?thesis using "1.prems" by (simp add: D3n2n_correct.simps [of h] SpecialCompare_spec)
  next
    case True
    then have lt: "digits_value R + ?P * unat h < digits_value D" by (simp add: SpecialCompare_spec)
    obtain R1 c where a: "AddAndReturnCarry R R B = (R1, c)" by (rule prod.exhaust)
    have A: "length R1 = length R" "unat c \<le> 1" "digits_value R1 + ?P * unat c = digits_value R + digits_value B"
      using AddAndReturnCarry_spec [OF a] "1.prems"(3) by auto
    have "digits_value Q \<noteq> 0" using "1.prems"(1) lt by (cases "digits_value Q") simp_all
    then obtain Q1 where q: "Subtract_digit Q 1 = Some Q1" using Subtract_digit_spec [of 1 Q] by (cases "Q = []") (auto simp: Suc_le_eq)
    from Subtract_digit_decreases [OF q] have Q1: "length Q1 = length Q" "digits_value Q = digits_value Q1 + 1" by auto
    have "?P * unat h < ?P * 1" using lt value_less [of D] unfolding "1.prems"(4) by linarith
    then have "unat h < 1" by (rule base_power_less)
    then have h: "unat (h + c) = unat h + unat c" using A(2) by (simp add: unat_digit_add digit_base_def)
    have tot: "digits_value R1 + digit_base ^ length R1 * unat (h + c) = digits_value R + ?P * unat h + digits_value B"
      unfolding h A(1) distrib_left using A(3) by simp
    have "a + digits_value D = digits_value Q1 * digits_value B + (digits_value R1 + digit_base ^ length R1 * unat (h + c))"
      unfolding tot using "1.prems"(1) Q1(2) by simp
    from "1.IH" [OF True a [symmetric] q this] tot lt A(1) "1.prems"(3,4)
    have "\<exists>h' R' Q'. D3n2n_correct (h + c) R1 Q1 D B = Some (h', R', Q') \<and> length R' = length R1 \<and> length Q' = length Q1 \<and>
      a + digits_value D = digits_value Q' * digits_value B + (digits_value R' + digit_base ^ length R1 * unat h') \<and>
      digits_value D \<le> digits_value R' + digit_base ^ length R1 * unat h' \<and>
      digits_value R' + digit_base ^ length R1 * unat h' < digits_value D + digits_value B" by simp
    then show ?thesis using True a q A(1) Q1(1) by (simp add: D3n2n_correct.simps [of h])
  qed
qed

definition divides_to :: "nat \<Rightarrow> nat \<Rightarrow> digits \<Rightarrow> digits \<Rightarrow> bool" where
  "divides_to a b Q R \<longleftrightarrow> a = digits_value Q * b + digits_value R \<and> digits_value R < b"

lemma value_SetOnes: "digits_value (SetOnes n) + 1 = digit_base ^ n"
proof (induction n)
  case (Suc n)
  have "unat (- 1 :: digit) + 1 = digit_base" by (simp add: digit_base_def unsigned_minus_1_eq_mask mask_eq_exp_minus_1)
  then have "digits_value (SetOnes (Suc n)) + 1 = digit_base * (digits_value (SetOnes n) + 1)" by (simp add: SetOnes_def)
  then show ?case unfolding Suc by simp
qed (simp add: SetOnes_def)

text \<open>The estimate of the quotient and its remainder, from the recursion or from the highest digits.\<close>

lemma D3n2n_estimate:
  assumes "length B = 2 * n" and "length A1A2 = 2 * n" and "length Q = n" and "length R1 = n"
    and "digits_value A1A2 < digits_value B"
    and "digits_value (drop n A1A2) < digits_value (drop n B) \<Longrightarrow>
      \<exists>Q' R'. D2n1n Q R1 A1A2 (drop n B) = Some (Q', R') \<and> length Q' = n \<and> length R' = n \<and> divides_to (digits_value A1A2) (digits_value (drop n B)) Q' R'"
  shows "\<exists>Qhat R' h. (if Compare (drop n A1A2) (drop n B) < 0
               then map_option (\<lambda>(Qhat, R1). (Qhat, R1, 0)) (D2n1n Q R1 A1A2 (drop n B))
               else let temp = Subtract_digits (length R1) (drop n A1A2) (drop n B);
                        r1_high = (if 0 < length (Normalize temp) then Normalize temp ! 0 else 0)
                    in case AddAndReturnCarry temp (take n A1A2) (drop n B) of (R1, carry) \<Rightarrow>
                         Some (SetOnes (length Q), R1, r1_high + carry)) = Some (Qhat, R', h) \<and>
    length Qhat = n \<and> length R' = n \<and>
    digits_value A1A2 = digits_value Qhat * digits_value (drop n B) + (digits_value R' + digit_base ^ n * unat h) \<and>
    (digits_value R' + digit_base ^ n * unat h < digits_value (drop n B) \<or> digits_value Qhat = digit_base ^ n - 1)"
proof (cases "digits_value (drop n A1A2) < digits_value (drop n B)")
  case True
  then show ?thesis using assms(6) by (auto simp: Compare_less divides_to_def)
next
  case False
  let ?A1 = "drop n A1A2" and ?A2 = "take n A1A2" and ?B1 = "drop n B"
  have A: "digits_value ?A2 + digit_base ^ n * digits_value ?A1 = digits_value A1A2"
    and B: "digits_value (take n B) + digit_base ^ n * digits_value ?B1 = digits_value B"
    using value_take_drop [of n A1A2] value_take_drop [of n B] assms(1,2) by simp_all
  have "digit_base ^ n * digits_value ?A1 < digit_base ^ n * (digits_value ?B1 + 1)"
    using A B assms(5) value_take_less [of n B] by simp
  then have "digits_value ?A1 < digits_value ?B1 + 1" by (rule base_power_less)
  then have eq: "digits_value ?A1 = digits_value ?B1" using False by simp
  define temp where "temp = Subtract_digits n ?A1 ?B1"
  have t: "length temp = n" "digits_value temp = 0"
    using Subtract_digits_spec [of ?B1 ?A1 n] eq Normalize_length [of ?A1] assms(2) by (simp_all add: temp_def)
  have "Normalize temp = []"
    using normal_length_le [OF Normalize_normal, of temp 0] t(2) by simp
  moreover obtain R' c where a: "AddAndReturnCarry temp ?A2 ?B1 = (R', c)" by (rule prod.exhaust)
  moreover have "length R' = n" "digits_value R' + digit_base ^ n * unat c = digits_value ?A2 + digits_value ?B1"
    using AddAndReturnCarry_spec [OF a] t(1) assms(1,2) by simp_all
  moreover have "digits_value (SetOnes n) = digit_base ^ n - 1" using value_SetOnes [of n] by simp
  moreover have "digits_value A1A2 = (digit_base ^ n - 1) * digits_value ?B1 + (digits_value ?A2 + digits_value ?B1)"
    using A eq by (cases "digit_base ^ n") (simp_all add: diff_mult_distrib)
  ultimately show ?thesis using False assms(3,4) by (simp add: Compare_less Let_def SetOnes_def flip: temp_def)
qed

lemma same_remainder:
  fixes x y :: nat
  assumes "x + d = r + M * b" and "y + d = r + M * h" and "x < M" and "y < M"
  shows "x = y"
proof -
  have "x + M * h = y + M * b" using assms(1,2) by linarith
  then have "(x + M * h) mod M = (y + M * b) mod M" by simp
  then show ?thesis using assms(3,4) by simp
qed

lemma D3n2n_spec:
  assumes "length B = 2 * n" and "length A1A2 = 2 * n" and "length A3 = n" and "length Q = n" and "length R = 2 * n" and "2 * n < 2 ^ 30"
    and "digits_value A1A2 < digits_value B"
    and "\<And>Q R1. length Q = n \<Longrightarrow> length R1 = n \<Longrightarrow> digits_value (drop n A1A2) < digits_value (drop n B) \<Longrightarrow>
      \<exists>Q' R'. D2n1n Q R1 A1A2 (drop n B) = Some (Q', R') \<and> length Q' = n \<and> length R' = n \<and> divides_to (digits_value A1A2) (digits_value (drop n B)) Q' R'"
  shows "\<exists>Q' R'. D3n2n Q R A1A2 A3 B = Some (Q', R') \<and> length Q' = n \<and> length R' = 2 * n \<and>
    divides_to (digits_value A3 + digit_base ^ n * digits_value A1A2) (digits_value B) Q' R'"
proof -
  let ?P = "digit_base ^ n" and ?B1 = "drop n B" and ?B2 = "take n B"
  let ?a = "digits_value A3 + ?P * digits_value A1A2"
  from D3n2n_estimate [OF assms(1,2,4) _ assms(7), of "drop n R"] assms(4,5,8)
  obtain Qhat R' h where E: "(if Compare (drop n A1A2) (drop n B) < 0
               then map_option (\<lambda>(Qhat, R1). (Qhat, R1, 0)) (D2n1n Q (drop n R) A1A2 (drop n B))
               else let temp = Subtract_digits (length (drop n R)) (drop n A1A2) (drop n B);
                        r1_high = (if 0 < length (Normalize temp) then Normalize temp ! 0 else 0)
                    in case AddAndReturnCarry temp (take n A1A2) (drop n B) of (R1, carry) \<Rightarrow>
                         Some (SetOnes (length Q), R1, r1_high + carry)) = Some (Qhat, R', h)"
    "length Qhat = n" "length R' = n"
    "digits_value A1A2 = digits_value Qhat * digits_value ?B1 + (digits_value R' + ?P * unat h)"
    "digits_value R' + ?P * unat h < digits_value ?B1 \<or> digits_value Qhat = ?P - 1" by auto
  let ?D = "Multiply (ScratchDigits (2 * n)) Qhat ?B2" and ?R0 = "PutAt A3 n @ R'" and ?M = "digit_base ^ (2 * n)"
  have M: "?M = ?P * ?P" by (simp add: mult_2 power_add)
  have D: "length ?D = 2 * n" "digits_value ?D = digits_value Qhat * digits_value ?B2"
    using Multiply_spec [of Qhat ?B2 "ScratchDigits (2 * n)"] E(2) assms(1,6) by (simp_all add: ScratchDigits_def)
  have A3: "digits_value A3 < ?P" using value_less [of A3] assms(3) by simp
  have R0: "length ?R0 = 2 * n" "digits_value ?R0 = digits_value A3 + ?P * digits_value R'"
    using PutAt_spec [of A3 n] E(3) A3 by (simp_all add: value_append)
  have B: "digits_value ?B2 + ?P * digits_value ?B1 = digits_value B" using value_take_drop [of n B] assms(1) by simp
  have tot: "digits_value ?R0 + ?M * unat h = digits_value A3 + ?P * (digits_value R' + ?P * unat h)"
    unfolding R0(2) M by (simp add: algebra_simps)
  have eq: "?a + digits_value ?D = digits_value Qhat * digits_value B + (digits_value ?R0 + ?M * unat h)"
    unfolding tot D(2) E(4) by (simp add: algebra_simps flip: B)
  have "digits_value ?R0 + ?M * unat h < digits_value ?D + digits_value B"
    using E(5)
  proof
    assume "digits_value R' + ?P * unat h < digits_value ?B1"
    then have "?P * (digits_value R' + ?P * unat h + 1) \<le> ?P * digits_value ?B1" by (intro mult_left_mono) simp_all
    then show ?thesis unfolding tot using A3 B by simp
  next
    assume q: "digits_value Qhat = ?P - 1"
    have "?P * (digits_value A1A2 + 1) \<le> ?P * digits_value B" using assms(7) by (intro mult_left_mono) simp_all
    then have "?a < (?P - 1) * digits_value B + digits_value B" using A3 by (cases ?P) simp_all
    then show ?thesis using eq unfolding q by linarith
  qed
  from D3n2n_correct_spec [OF eq [folded R0(1)] this [folded R0(1)]] R0(1) D(1) assms(1)
  obtain h2 R2 Q2 where C: "D3n2n_correct h ?R0 Qhat ?D B = Some (h2, R2, Q2)" "length R2 = 2 * n" "length Q2 = n"
    "?a + digits_value ?D = digits_value Q2 * digits_value B + (digits_value R2 + ?M * unat h2)"
    "digits_value ?D \<le> digits_value R2 + ?M * unat h2" "digits_value R2 + ?M * unat h2 < digits_value ?D + digits_value B"
    using E(2) by auto
  obtain R3 b where s: "SubtractAndReturnBorrow R2 R2 ?D = (R3, b)" by (rule prod.exhaust)
  from InplaceSub_spec [of R2 ?D R3 b] s C(2) D(1)
  have S: "length R3 = 2 * n" "digits_value R3 + digits_value ?D = digits_value R2 + ?M * unat b"
    by (auto simp: InplaceSub_def)
  have "digits_value R3 < ?M" "digits_value B < ?M" using value_less [of R3] value_less [of B] S(1) assms(1) by simp_all
  then have rem: "digits_value R3 = digits_value R2 + ?M * unat h2 - digits_value ?D"
    using C(5,6) by (intro same_remainder [OF S(2), where h = "unat h2"]) linarith+
  have h: "length B div 2 = n" "take n (drop n A1A2) = drop n A1A2" "take n (drop n B) = drop n B" "take n (drop n R) = drop n R"
    using assms(1,2,5) by simp_all
  have "D3n2n Q R A1A2 A3 B = Some (Q2, R3)"
    unfolding D3n2n.simps [of Q] Let_def h E(1) [unfolded Let_def] option.case prod.case C(1) option.map s fst_conv ..
  moreover have "divides_to ?a (digits_value B) Q2 R3" using C(4-6) unfolding divides_to_def rem by linarith
  ultimately show ?thesis using C(3) S(1) by blast
qed

lemma divides_to_div:
  "0 < b \<Longrightarrow> digits_value Q = a div b \<Longrightarrow> digits_value R = a mod b \<Longrightarrow> divides_to a b Q R"
  by (simp add: divides_to_def)

lemma block_less:
  assumes "n \<le> length A" and "digits_value (drop n A) < b"
  shows "digits_value A < digit_base ^ n * b"
proof -
  have "digits_value A < digit_base ^ n * (digits_value (drop n A) + 1)"
    using value_take_drop [OF assms(1)] value_take_less [of n A] by simp
  also have "\<dots> \<le> digit_base ^ n * b" using assms(2) by (intro mult_left_mono) simp_all
  finally show ?thesis .
qed

lemma DivideBasecase_spec:
  assumes "2 ^ 63 \<le> unat (msd B)" and "B \<noteq> []" and "length A = 2 * length B" and "length Q = length B" and "length R = length B"
    and "digits_value (drop (length B) A) < digits_value B" and "DivideBasecase Q R A B = (Q', R')"
  shows "length Q' = length B \<and> length R' = length B \<and> divides_to (digits_value A) (digits_value B) Q' R'"
proof -
  let ?n = "length B" and ?A = "Normalize A"
  have nz: "msd B \<noteq> 0" using assms(1) by auto
  then have B: "Normalize B = B" by (simp add: Normalize.simps [of B])
  have Bn: "digits_value B < digit_base ^ ?n" by (rule value_less)
  have b: "0 < digits_value B" using assms(6) by simp
  have n1: "1 \<le> ?n" using assms(2) by (cases B) simp_all
  have lt: "digits_value A < digit_base ^ ?n * digits_value B" using assms(3,6) by (intro block_less) simp_all
  then have q: "digits_value A div digits_value B < digit_base ^ ?n" by (simp add: less_mult_imp_div_less)
  have cmp: "sgn (Compare ?A B) = sgn (int (digits_value A) - int (digits_value B))" using Compare_spec [of ?A B] by simp
  consider "digits_value A = digits_value B" | "digits_value A < digits_value B" | "digits_value B < digits_value A" "?n = 1"
    | "digits_value B < digits_value A" "2 \<le> ?n" using n1 by linarith
  then show ?thesis
  proof cases
    case 1
    then have "Compare ?A B = 0" using cmp by (simp add: sgn_0_0)
    then have "Q' = (replicate ?n 0)[0 := 1]" "R' = replicate ?n 0" using assms(4,5,7) by (auto simp: DivideBasecase_def B)
    then show ?thesis using 1 b assms(2) by (cases B) (simp_all add: divides_to_def)
  next
    case 2
    then have "Compare ?A B < 0" using Compare_less [of ?A B] by simp
    then have "Q' = replicate ?n 0" "R' = PutAt ?A ?n" using assms(4,5,7) by (simp_all add: DivideBasecase_def B)
    then show ?thesis using 2 PutAt_spec [of ?A ?n] Bn by (simp add: divides_to_def)
  next
    case 3
    then have c: "Compare ?A B > 0" using cmp by (simp add: sgn_if split: if_splits)
    obtain d where d: "B = [d]" using 3(2) by (cases B) simp_all
    obtain Q1 r where s: "DivideSingle 1 ?A d = (Q1, r)" by (rule prod.exhaust)
    have res: "Q' = Q1" "R' = R[0 := r]" using c assms(4,7) s by (simp_all add: DivideBasecase_def B) (simp_all add: d)
    have A: "?A \<noteq> []" using 3(1) by (metis Normalize_value digits_value.simps(1) not_less0)
    have "digit_base ^ (length ?A - 1) * unat (msd ?A) < digit_base ^ 1 * unat d"
      using value_msd [OF A] lt by (simp add: d)
    then have "length ?A \<noteq> 2" if "d \<le> msd ?A" using that base_power_less by (auto simp: word_le_nat_alt)
    then have "(if d \<le> msd ?A then length ?A else length ?A - 1) \<le> 1" using Normalize_length [of A] assms(3) d by auto
    then have S: "unat r = digits_value A mod unat d" "length Q1 = 1" "digits_value Q1 = digits_value A div unat d"
      using DivideSingle_spec [of d ?A 1] A s nz by (simp_all add: d msd_def)
    have "R = [R ! 0]" using assms(5) 3(2) by (cases R) simp_all
    then have "R' = [r]" using res(2) by (metis list_update_code(2))
    then show ?thesis using S res(1) b by (intro conjI divides_to_div) (simp_all add: d)
  next
    case 4
    then have c: "Compare ?A B > 0" using cmp by (simp add: sgn_if split: if_splits)
    have le: "?n \<le> length ?A"
    proof (rule ccontr)
      assume "\<not> ?n \<le> length ?A"
      then have "digit_base ^ length ?A \<le> digit_base ^ (?n - 1)" by (intro power_increasing) (simp_all add: Suc_le_eq)
      moreover have "digit_base ^ (?n - 1) \<le> digits_value B" using nz assms(2) by (intro normal_lower) (simp_all add: IsDigitNormalized_def)
      ultimately show False using value_less [of ?A] 4(1) by simp
    qed
    have "DivideSchoolbook ?n ?n ?A B = (Q', R')" using c 4(2) assms(4,5,7) by (simp add: DivideBasecase_def B)
    from DivideSchoolbook_spec [OF 4(2) le nz _ this] q assms(2) b show ?thesis by (auto intro!: divides_to_div)
  qed
qed

lemma D2n1n_spec:
  assumes "2 ^ 63 \<le> unat (msd B)" and "B \<noteq> []" and "length A = 2 * length B" and "length Q = length B" and "length R = length B"
    and "digits_value (drop (length B) A) < digits_value B" and "length B < 2 ^ 29"
  shows "\<exists>Q' R'. D2n1n Q R A B = Some (Q', R') \<and> length Q' = length B \<and> length R' = length B \<and>
    divides_to (digits_value A) (digits_value B) Q' R'"
  using assms
proof (induction "length B" arbitrary: A B Q R rule: less_induct)
  case less
  let ?n = "length B"
  show ?case
  proof (cases "odd ?n \<or> ?n < 57")
    case True
    then show ?thesis using DivideBasecase_spec [OF less.prems(1-6)] by (cases "DivideBasecase Q R A B") (simp add: D2n1n.simps)
  next
    case False
    define h where "h = ?n div 2"
    have n: "?n = 2 * h" "h < ?n" "0 < h" using False by (auto simp: h_def)
    let ?B1 = "drop h B"
    have B1: "length ?B1 = h" "?B1 \<noteq> []" "msd ?B1 = msd B" using n by (auto simp: msd_def mult_2)
    have rec: "\<exists>Q' R'. D3n2n Q R A1A2 A3 B = Some (Q', R') \<and> length Q' = h \<and> length R' = 2 * h \<and>
        divides_to (digits_value A3 + digit_base ^ h * digits_value A1A2) (digits_value B) Q' R'"
      if "length A1A2 = 2 * h" "length A3 = h" "length Q = h" "length R = 2 * h" "digits_value A1A2 < digits_value B" for Q R A1A2 A3
    proof (rule D3n2n_spec [OF n(1) that(1-4) _ that(5)])
      fix Q R1 :: digits
      assume "length Q = h" "length R1 = h" "digits_value (drop h A1A2) < digits_value ?B1"
      then show "\<exists>Q' R'. D2n1n Q R1 A1A2 ?B1 = Some (Q', R') \<and> length Q' = h \<and> length R' = h \<and> divides_to (digits_value A1A2) (digits_value ?B1) Q' R'"
        using less.hyps [of ?B1 A1A2 Q R1] B1 n that(1) less.prems(1,7) by simp
    qed (use n(1) less.prems(7) in simp)
    let ?A12 = "drop ?n A" and ?A3 = "take h (drop h A)" and ?A4 = "take h A"
    obtain Q1 R1 where 1: "D3n2n (take h (drop h Q)) (ScratchDigits ?n) ?A12 ?A3 B = Some (Q1, R1)" "length Q1 = h" "length R1 = 2 * h"
      "divides_to (digits_value ?A3 + digit_base ^ h * digits_value ?A12) (digits_value B) Q1 R1"
      using rec [of ?A12 ?A3 "take h (drop h Q)" "ScratchDigits ?n"] n(1) less.prems(3,4,6) by (auto simp: ScratchDigits_def)
    obtain Q2 R2 where 2: "D3n2n (take h Q) R R1 ?A4 B = Some (Q2, R2)" "length Q2 = h" "length R2 = 2 * h"
      "divides_to (digits_value ?A4 + digit_base ^ h * digits_value R1) (digits_value B) Q2 R2"
      using rec [of R1 ?A4 "take h Q" R] 1(3,4) n(1) less.prems(3-5) by (auto simp: divides_to_def)
    have "digits_value A = digits_value ?A4 + digit_base ^ h * (digits_value ?A3 + digit_base ^ h * digits_value ?A12)"
      using value_take_drop [of h A] value_take_drop [of h "drop h A"] n(1) less.prems(3) by (simp add: mult_2)
    then have "divides_to (digits_value A) (digits_value B) (Q2 @ Q1) R2"
      using 1(4) 2(2,4) unfolding divides_to_def by (simp add: value_append algebra_simps)
    moreover have "D2n1n Q R A B = Some (Q2 @ Q1, R2)"
      using False 1(1) 2(1) less.prems(3) by (simp add: D2n1n.simps [of Q] Let_def flip: h_def)
    ultimately show ?thesis using 1(2) 2(2,3) n(1) by simp
  qed
qed

section \<open>Correctness of the whole division\<close>

lemma DivideBurnikelZiegler_loop_spec:
  assumes "2 ^ 63 \<le> unat (msd B)" and "B \<noteq> []" and "length B < 2 ^ 29" and "length B * i \<le> length A" and "length B * i \<le> length Q"
    and "length R = length B"
    and "digits_value (drop (length B * i) A) = digits_value (drop (length B * i) Q) * digits_value B + digits_value R"
    and "digits_value R < digits_value B"
  shows "\<exists>Q' R'. DivideBurnikelZiegler_loop A B i Q R = Some (Q', R') \<and> length Q' = length Q \<and> length R' = length B \<and>
    divides_to (digits_value A) (digits_value B) Q' R'"
  using assms(4-)
proof (induction i arbitrary: Q R)
  case (Suc i)
  let ?n = "length B" and ?b = "digits_value B"
  let ?D = "drop (?n * i) A" and ?Z = "PutAt (drop (?n * i) A) ?n @ PutAt R ?n"
  have dropA: "drop (?n * Suc i) A = drop ?n ?D" by (simp add: add.commute)
  have n: "?n \<le> length ?D" using Suc.prems(1) by simp
  have R: "digits_value R < digit_base ^ ?n" using value_less [of R] Suc.prems(3) by simp
  have Z: "length ?Z = 2 * ?n" "digits_value ?Z = digits_value (take ?n ?D) + digit_base ^ ?n * digits_value R" "digits_value (drop ?n ?Z) = digits_value R"
    using R by (simp_all add: value_append PutAt_spec value_take)
  let ?Qi = "take ?n (drop (i * ?n) Q)"
  have "length ?Qi = ?n" using Suc.prems(2) by (simp add: mult.commute)
  moreover have "digits_value (drop ?n ?Z) < ?b" unfolding Z(3) by (rule Suc.prems(5))
  ultimately obtain Q1 R1 where 1: "D2n1n ?Qi R ?Z B = Some (Q1, R1)" "length Q1 = ?n" "length R1 = ?n"
    "divides_to (digits_value ?Z) ?b Q1 R1"
    using D2n1n_spec [OF assms(1,2) Z(1) _ Suc.prems(3) _ assms(3)] by blast
  let ?Q2 = "take (i * ?n) Q @ Q1 @ drop (i * ?n + ?n) Q"
  have Q2: "length ?Q2 = length Q" "drop (?n * i) ?Q2 = Q1 @ drop (?n * Suc i) Q"
    using Suc.prems(2) 1(2) by (simp_all add: mult.commute add.commute)
  have "digits_value ?D = digits_value (take ?n ?D) + digit_base ^ ?n * digits_value (drop (?n * Suc i) A)"
    unfolding dropA using value_take_drop [OF n] by simp
  then have "digits_value ?D = digits_value (drop (?n * i) ?Q2) * ?b + digits_value R1"
    using 1(2,4) Z(2) unfolding Suc.prems(4) Q2(2) by (simp add: divides_to_def value_append algebra_simps)
  from Suc.IH [OF _ _ 1(3) this] Suc.prems(1,2) Q2(1) 1(1,2,4)
  show ?case by (simp add: divides_to_def Let_def)
qed (simp add: divides_to_def)

lemma block_length:
  assumes "0 < s" and "s < 2 ^ 32" and "m = push_bit (BitLength (s div 57)) 1" and "n = DIV_CEIL s m * m"
  shows "s \<le> n" and "n < 2 * s"
proof -
  have m: "m = 2 ^ BitLength (s div 57)" using assms(3) by (simp add: push_bit_eq_mult)
  have "m \<le> s"
  proof (cases "s div 57 = 0")
    case True
    have "BitLength 0 = 0" by code_simp
    then show ?thesis using True assms(1) by (simp add: m)
  next
    case False
    then have "2 ^ (BitLength (s div 57) - 1) \<le> s div 57" "0 < BitLength (s div 57)" using BitLength_spec [of "s div 57"] assms(2) by auto
    then have "m \<le> 2 * (s div 57)" unfolding m by (cases "BitLength (s div 57)") simp_all
    then show ?thesis by linarith
  qed
  have "0 < m" by (simp add: m)
  have "(s - 1) div m * m + (s - 1) mod m = s - 1" by (simp only: div_mult_mod_eq)
  moreover have "n = (s - 1) div m * m + m" using assms(4) by (simp add: DIV_CEIL_def)
  ultimately show "s \<le> n" and "n < 2 * s"
    using mod_less_divisor [OF \<open>0 < m\<close>, of "s - 1"] \<open>m \<le> s\<close> assms(1) by linarith+
qed

text \<open>The highest two blocks of the shifted dividend are below the divisor, shifted by a block.\<close>

lemma top_blocks:
  assumes "2 * digits_value A < digit_base ^ length A" and "2 ^ 63 \<le> unat (msd B)" and "B \<noteq> []" and "n = length B"
    and "n * k \<le> length A" and "length A \<le> n * (k + 2)"
  shows "length (PutAt (drop (n * k) A) (n * 2)) = 2 * n" and "digits_value (PutAt (drop (n * k) A) (n * 2)) = digits_value (drop (n * k) A)"
    and "digits_value (drop n (PutAt (drop (n * k) A) (n * 2))) < digits_value B"
proof -
  let ?D = "drop (n * k) A" let ?Z = "PutAt ?D (n * 2)"
  show len: "length ?Z = 2 * n" by (simp add: PutAt_spec)
  have "length ?D \<le> n * 2" using assms(5,6) by simp
  then show v: "digits_value ?Z = digits_value ?D" using value_take_less [of "n * 2" ?D] by (simp add: PutAt_spec)
  have "digit_base ^ (n * k) * (2 * digits_value ?D) \<le> 2 * digits_value A" using value_take_drop [OF assms(5)] by simp
  also have "\<dots> < digit_base ^ length A" by (rule assms(1))
  also have "\<dots> \<le> digit_base ^ (n * (k + 2))" using assms(6) by (intro power_increasing) (simp_all add: Suc_le_eq)
  also have "\<dots> = digit_base ^ (n * k) * (digit_base ^ n * digit_base ^ n)" by (simp add: power_add algebra_simps)
  finally have D: "2 * digits_value ?D < digit_base ^ n * digit_base ^ n" by (rule base_power_less)
  have "digit_base ^ n = digit_base ^ (n - 1) * (2 * 2 ^ 63)" using assms(3,4) by (cases B) (simp_all add: digit_base_def)
  also have "\<dots> \<le> digit_base ^ (n - 1) * (2 * unat (msd B))" using assms(2) by (intro mult_left_mono) simp_all
  also have "\<dots> \<le> 2 * digits_value B" using value_msd [OF assms(3)] assms(4) by simp
  finally have "digit_base ^ n * digit_base ^ n \<le> digit_base ^ n * (2 * digits_value B)" by (rule mult_left_mono) simp
  moreover have "digit_base ^ n * (2 * digits_value (drop n ?Z)) \<le> 2 * digits_value ?D"
    using value_take_drop [of n ?Z] len v by simp
  ultimately have "digit_base ^ n * (2 * digits_value (drop n ?Z)) < digit_base ^ n * (2 * digits_value B)" using D by linarith
  then have "2 * digits_value (drop n ?Z) < 2 * digits_value B" by (rule base_power_less)
  then show "digits_value (drop n ?Z) < digits_value B" by simp
qed

lemma quotient_less:
  assumes "B \<noteq> []" and "msd B \<noteq> 0" and "length B \<le> length A"
  shows "digits_value A div digits_value B < digit_base ^ (length A - length B + 1)"
proof (rule less_mult_imp_div_less)
  have "length A = length A - length B + 1 + (length B - 1)" using assms(1,3) by (cases B) simp_all
  then have "digit_base ^ length A = digit_base ^ (length A - length B + 1) * digit_base ^ (length B - 1)" by (metis power_add)
  also have "\<dots> \<le> digit_base ^ (length A - length B + 1) * digits_value B"
    using assms(1,2) by (intro mult_left_mono normal_lower) (simp_all add: IsDigitNormalized_def)
  finally show "digits_value A < digit_base ^ (length A - length B + 1) * digits_value B" using value_less [of A] by simp
qed

lemma value_lead_zeros: "digits_value (replicate k 0 @ X) = digit_base ^ k * digits_value X"
  by (simp add: value_append)

lemma shifted_dividend_fits:
  assumes "A \<noteq> []" and "msd A \<noteq> 0" and "sigma < 64"
    and "extra = (if CountLeadingZeros (A ! (length A - 1)) < sigma + 1 then 1 else 0)"
  shows "length (LeftShift (length A + extra) A sigma) = length A + extra"
    and "digits_value (LeftShift (length A + extra) A sigma) = digits_value A * 2 ^ sigma"
    and "2 * (digits_value A * 2 ^ sigma) < digit_base ^ (length A + extra)"
proof -
  show fits: "2 * (digits_value A * 2 ^ sigma) < digit_base ^ (length A + extra)"
  proof (cases "CountLeadingZeros (msd A) < sigma + 1")
    case False
    then show ?thesis using shifted_fits [OF assms(1,2), of "sigma + 1"] assms(4) by (simp add: msd_def mult_ac)
  next
    case True
    have "digits_value A * 2 ^ Suc sigma < digit_base ^ length A * 2 ^ Suc sigma" using value_less [of A] by simp
    also have "(2::nat) ^ Suc sigma \<le> 2 ^ 64" using assms(3) by (intro power_increasing) simp_all
    finally show ?thesis using True assms(4) by (simp add: msd_def mult_ac digit_base_def)
  qed
  then have "digits_value A * 2 ^ sigma < digit_base ^ (length A + extra)" by simp
  with LeftShift_spec [OF assms(3), of A "length A + extra"]
  show "length (LeftShift (length A + extra) A sigma) = length A + extra"
    and "digits_value (LeftShift (length A + extra) A sigma) = digits_value A * 2 ^ sigma" by simp_all
qed

text \<open>The quotient and the remainder of the shifted operands, and the remainder shifted back.\<close>

lemma scaled_division:
  assumes "divides_to (a * c) (b * c) Q R" and "0 < c"
  shows "digits_value Q = a div b" and "digits_value R = a mod b * c"
proof -
  from assms(1) have "a * c = digits_value Q * (b * c) + digits_value R" "digits_value R < b * c" by (simp_all add: divides_to_def)
  from div_mod_unique [OF this] have "a * c div (b * c) = digits_value Q" "a * c mod (b * c) = digits_value R" by auto
  then show "digits_value Q = a div b" and "digits_value R = a mod b * c" using assms(2) by (simp_all add: mult_mod_left)
qed

lemma block_count:
  assumes "0 < n" and "0 < r" and "k = max (DIV_CEIL r n) 2 - 2"
  shows "r \<le> n * (k + 2)" and "k = 0 \<or> n * k + n < r"
proof -
  have e: "n * ((r - 1) div n) + (r - 1) mod n = r - 1" by (simp only: mult_div_mod_eq)
  have "(r - 1) div n + 1 \<le> k + 2" using assms(3) by (simp add: DIV_CEIL_def)
  then have "n * ((r - 1) div n + 1) \<le> n * (k + 2)" by (rule mult_left_mono) simp
  then show "r \<le> n * (k + 2)" using e mod_less_divisor [OF assms(1), of "r - 1"] assms(2)
    unfolding distrib_left by linarith
  show "k = 0 \<or> n * k + n < r"
  proof (cases "k = 0")
    case False
    then have "(r - 1) div n = k + 1" using assms(3) by (simp add: DIV_CEIL_def max_def split: if_splits)
    then have "n * (k + 1) \<le> r - 1" using e by (metis le_add1)
    then have "n * k + n < r" unfolding distrib_left using assms(2) by linarith
    then show ?thesis ..
  qed simp
qed

lemma remainder_back:
  assumes "digits_value R = r * (digit_base ^ k * 2 ^ sigma)" and "k \<le> length R" and "sigma < 64" and "r * 2 ^ sigma < digit_base ^ s" and "s \<le> Rlen"
  shows "length (RightShift Rlen (Normalize (drop k R)) sigma) = Rlen" and "digits_value (RightShift Rlen (Normalize (drop k R)) sigma) = r"
proof -
  have "digit_base ^ k * digits_value (drop k R) = digit_base ^ k * (r * 2 ^ sigma)"
    using value_take_drop [OF assms(2)] value_take [of k R] unfolding assms(1) by (simp add: mult_ac)
  then have d: "digits_value (drop k R) = r * 2 ^ sigma" by simp
  then have "length (Normalize (Normalize (drop k R))) \<le> Rlen"
    using assms(4,5) by (intro order_trans [OF normal_length_le [OF Normalize_normal]]) simp_all
  from RightShift_spec [OF assms(3) this] d
  show "length (RightShift Rlen (Normalize (drop k R)) sigma) = Rlen" and "digits_value (RightShift Rlen (Normalize (drop k R)) sigma) = r"
    by simp_all
qed

lemma DivideBurnikelZiegler_spec:
  assumes "B \<noteq> []" and "msd B \<noteq> 0" and "msd A \<noteq> 0" and "length B \<le> length A" and "length A < 2 ^ 28"
    and "length A - length B < length Q" and "Rlen = 0 \<or> length B \<le> Rlen"
  shows "\<exists>Q' R'. DivideBurnikelZiegler Q Rlen A B = Some (Q', R') \<and> length Q' = length Q \<and>
    digits_value Q' = digits_value A div digits_value B \<and> length R' = Rlen \<and> (Rlen \<noteq> 0 \<longrightarrow> digits_value R' = digits_value A mod digits_value B)"
proof -
  define s where "s = length B"
  define m :: nat where "m = push_bit (BitLength (s div 57)) 1"
  define n where "n = DIV_CEIL s m * m"
  define sigma where "sigma = CountLeadingZeros (msd B)"
  define extra where "extra = (if CountLeadingZeros (A ! (length A - 1)) < sigma + 1 then 1 else 0 :: nat)"
  define ds where "ds = n - s"
  define B1 where "B1 = replicate ds 0 @ LeftShift s B sigma"
  define A1 where "A1 = replicate ds 0 @ LeftShift (length A + extra) A sigma"
  define k where "k = max (DIV_CEIL (length A + ds + extra) n) 2 - 2"
  have s: "0 < s" "s \<le> length A" "s < 2 ^ 32" "A \<noteq> []" using assms(1,4,5) by (auto simp: s_def)
  have n: "s \<le> n" "n < 2 * s" using block_length [OF s(1,3) m_def n_def] by simp_all
  have "ShiftedDigits B None = (LeftShift s B sigma, sigma)"
    by (simp add: ShiftedDigits_def sigma_def [symmetric] LeftShift_def Copy_def s_def Let_def)
  note S = ShiftedDigits_spec [OF this assms(1,2)]
  have B1: "length B1 = n" "digits_value B1 = digits_value B * (digit_base ^ ds * 2 ^ sigma)" "msd B1 = msd (LeftShift s B sigma)" "B1 \<noteq> []"
    using S(2,3) n s(1) by (auto simp: B1_def ds_def s_def value_lead_zeros msd_def nth_append)
  note F = shifted_dividend_fits [OF s(4) assms(3) S(1) extra_def]
  have A1: "length A1 = length A + ds + extra" "digits_value A1 = digits_value A * (digit_base ^ ds * 2 ^ sigma)"
    using F(1,2) by (simp_all add: A1_def value_lead_zeros)
  have A1half: "2 * digits_value A1 < digit_base ^ length A1"
  proof -
    have "digit_base ^ ds * (2 * (digits_value A * 2 ^ sigma)) < digit_base ^ ds * digit_base ^ (length A + extra)" using F(3) by simp
    then show ?thesis unfolding A1 by (simp add: power_add mult_ac)
  qed
  have n0: "0 < n" "0 < length A1" using n s A1(1) by auto
  have k: "length A1 \<le> n * (k + 2)" "k = 0 \<or> n * k + n < length A1"
    using block_count [OF n0, of k] by (simp_all add: k_def A1(1))
  have "extra \<le> 1" by (simp add: extra_def)
  then have nk: "n * k \<le> length A1" "n * k < length Q" using k(2) assms(6) n(1) s(2) by (auto simp: A1(1) ds_def s_def)
  note top = top_blocks [OF A1half S(4) [folded B1(3)] B1(4) B1(1) [symmetric] nk(1) k(1)]
  let ?Z = "PutAt (drop (n * k) A1) (n * 2)"
  have n29: "length B1 < 2 ^ 29" using B1(1) n(2) s(2) assms(5) by simp
  obtain Qi Ri where 1: "D2n1n (ScratchDigits n) (ScratchDigits n) ?Z B1 = Some (Qi, Ri)" "length Qi = n" "length Ri = n"
    "divides_to (digits_value ?Z) (digits_value B1) Qi Ri"
    using D2n1n_spec [of B1 ?Z "ScratchDigits n" "ScratchDigits n"] S(4) B1 top n29 by (auto simp: ScratchDigits_def)
  let ?Q1 = "take (n * k) Q @ PutAt (Normalize Qi) (length (drop (n * k) Q))"
  have "digit_base ^ (n * k) * digits_value Qi < digit_base ^ (n * k) * digit_base ^ (length Q - n * k)"
  proof -
    have "digit_base ^ (n * k) * digits_value Qi * digits_value B1 \<le> digit_base ^ (n * k) * digits_value (drop (n * k) A1)"
      using 1(4) top(2) by (simp add: divides_to_def mult.assoc)
    also have "\<dots> \<le> digits_value A1" using value_take_drop [OF nk(1)] by linarith
    finally have "digit_base ^ (n * k) * digits_value Qi * digits_value B * (digit_base ^ ds * 2 ^ sigma) \<le> digits_value A * (digit_base ^ ds * 2 ^ sigma)"
      unfolding A1(2) B1(2) by (simp only: mult.assoc)
    then have "digit_base ^ (n * k) * digits_value Qi * digits_value B \<le> digits_value A" by (simp only: mult_le_cancel2) simp
    moreover have "0 < digits_value B" using B1(2) 1(4) by (cases "digits_value B") (simp_all add: divides_to_def)
    ultimately have "digit_base ^ (n * k) * digits_value Qi \<le> digits_value A div digits_value B" by (simp add: less_eq_div_iff_mult_less_eq)
    also have "\<dots> < digit_base ^ (length A - length B + 1)" by (rule quotient_less [OF assms(1,2,4)])
    also have "\<dots> \<le> digit_base ^ length Q" using assms(6) by (intro power_increasing) (simp_all add: Suc_le_eq)
    finally show ?thesis using nk(2) by (simp flip: power_add)
  qed
  then have "digits_value Qi < digit_base ^ (length Q - n * k)" by (rule base_power_less)
  then have Q1: "length ?Q1 = length Q" "digits_value (drop (n * k) ?Q1) = digits_value Qi"
    using nk(2) by (simp_all add: PutAt_spec)
  have "digits_value (drop (n * k) A1) = digits_value (drop (n * k) ?Q1) * digits_value B1 + digits_value Ri"
    "digits_value Ri < digits_value B1"
    using 1(4) top(2) Q1(2) by (simp_all add: divides_to_def)
  from DivideBurnikelZiegler_loop_spec [OF _ B1(4) n29, unfolded B1(1) B1(3), OF S(4) nk(1) _ 1(3) this] nk(2) Q1(1)
  obtain Q' R' where L: "DivideBurnikelZiegler_loop A1 B1 k ?Q1 Ri = Some (Q', R')" "length Q' = length Q" "length R' = n"
    "divides_to (digits_value A1) (digits_value B1) Q' R'" by auto
  note D = scaled_division [OF L(4) [unfolded A1(2) B1(2)]]
  have eq: "DivideBurnikelZiegler Q Rlen A B = Some (Q', if Rlen \<noteq> 0 then RightShift Rlen (Normalize (drop ds R')) sigma else [])"
  proof -
    have "n - ds = s" "length A + ds + extra - ds = length A + extra" "B ! (s - 1) = msd B"
      "max (DIV_CEIL (length A + ds + extra) n) 2 - 2 = k"
      using n(1) by (simp_all add: ds_def k_def msd_def s_def)
    then show ?thesis
      unfolding DivideBurnikelZiegler_def Let_def s_def [symmetric] m_def [symmetric] n_def [symmetric] ds_def [symmetric]
      by (simp only: sigma_def [symmetric] extra_def [symmetric] B1_def [symmetric] A1_def [symmetric] 1(1) L(1) option.case prod.case option.map)
  qed
  have "digits_value A mod digits_value B < digits_value B" using L(4) B1(2) by (cases "digits_value B") (simp_all add: divides_to_def)
  then have "digits_value A mod digits_value B * 2 ^ sigma < digits_value B * 2 ^ sigma" by simp
  also have "\<dots> < digit_base ^ s" using S(2,3) value_less [of "LeftShift s B sigma"] by (simp add: s_def)
  finally have r: "digits_value A mod digits_value B * 2 ^ sigma < digit_base ^ s" .
  have "Rlen \<noteq> 0 \<longrightarrow> length (RightShift Rlen (Normalize (drop ds R')) sigma) = Rlen \<and>
      digits_value (RightShift Rlen (Normalize (drop ds R')) sigma) = digits_value A mod digits_value B"
    using remainder_back [OF D(2) _ S(1) r, of Rlen] L(3) assms(7) by (auto simp: ds_def s_def)
  then show ?thesis using eq L(2) D(1) by auto
qed

section \<open>The choice of the algorithm\<close>

text \<open>
  \<^verbatim>\<open>ProcessorImpl::Divide\<close> and \<^verbatim>\<open>Modulo\<close> as they are built without
  \<^verbatim>\<open>V8_ADVANCED_BIGINT_ALGORITHMS\<close>; with them they differ for divisors of at least
  \<^verbatim>\<open>kBarrettThreshold\<close> digits.
\<close>

definition DivideResultLength :: "digits \<Rightarrow> digits \<Rightarrow> nat" where
  "DivideResultLength A B = length A - length B + 1"

definition ModuloResultLength :: "digits \<Rightarrow> nat" where
  "ModuloResultLength B = length B"

definition Divide :: "digits \<Rightarrow> digits \<Rightarrow> digits \<Rightarrow> digits option" where
  "Divide Q A0 B0 =
     (let A = Normalize A0; B = Normalize B0; cmp = Compare A B
      in if cmp < 0 then Some (replicate (length Q) 0)
         else if cmp = 0 then Some ((replicate (length Q) 0)[0 := 1])
         else if length B = 1 then Some (fst (DivideSingle (length Q) A (B ! 0)))
         else if length B < kBurnikelThreshold then Some (fst (DivideSchoolbook (length Q) 0 A B))
         else map_option fst (DivideBurnikelZiegler Q 0 A B))"

definition Modulo :: "nat \<Rightarrow> digits \<Rightarrow> digits \<Rightarrow> digits option" where
  "Modulo Rlen A0 B0 =
     (let A = Normalize A0; B = Normalize B0; cmp = Compare A B
      in if cmp < 0 then Some (B @ replicate (Rlen - length B) 0)
         else if cmp = 0 then Some (replicate Rlen 0)
         else if length B = 1 then Some (snd (DivideSingle 0 A (B ! 0)) # replicate (Rlen - 1) 0)
         else if length B < kBurnikelThreshold then Some (snd (DivideSchoolbook 0 Rlen A B))
         else map_option snd (DivideBurnikelZiegler (ScratchDigits (DivideResultLength A B)) Rlen A B))"

lemma Compare_zero: "Compare A B = 0 \<longleftrightarrow> digits_value A = digits_value B"
  using Compare_spec [of A B] by (auto simp: sgn_if split: if_splits)

lemma normal_operands:
  assumes "0 < digits_value B" and "digits_value B < digits_value A"
  shows "Normalize B \<noteq> []" and "Normalize A \<noteq> []" and "msd (Normalize B) \<noteq> 0" and "msd (Normalize A) \<noteq> 0"
    and "length (Normalize B) \<le> length (Normalize A)"
proof -
  have nonempty: "Normalize X \<noteq> []" if "0 < digits_value X" for X using that by (metis Normalize_value digits_value.simps(1) less_irrefl)
  show "Normalize B \<noteq> []" "Normalize A \<noteq> []" using nonempty [of B] nonempty [of A] assms by linarith+
  then show "msd (Normalize B) \<noteq> 0" "msd (Normalize A) \<noteq> 0"
    using Normalize_normal [of A] Normalize_normal [of B] by (simp_all add: IsDigitNormalized_def)
  show "length (Normalize B) \<le> length (Normalize A)"
    using assms(2) value_less [of "Normalize A"] by (intro normal_length_le Normalize_normal) simp
qed

text \<open>Division is exact: for every divisor other than zero and a result with room for the
  quotient, it returns, and the result is filled with the quotient of the operands, whatever
  algorithm their lengths select: none for small dividends, division by a digit, schoolbook
  division, or Burnikel-Ziegler with its recursion on halves.\<close>

lemma Divide_spec:
  assumes "0 < digits_value B" and "DivideResultLength (Normalize A) (Normalize B) \<le> length Q" and "length A < 2 ^ 28"
  shows "\<exists>Q'. Divide Q A B = Some Q' \<and> length Q' = length Q \<and> digits_value Q' = digits_value A div digits_value B"
proof -
  let ?A = "Normalize A" and ?B = "Normalize B"
  have Q: "length ?A - length ?B < length Q" using assms(2) by (simp add: DivideResultLength_def)
  consider "digits_value A < digits_value B" | "digits_value A = digits_value B" | "digits_value B < digits_value A" by linarith
  then show ?thesis
  proof cases
    case 1
    then show ?thesis by (simp add: Divide_def Compare_less)
  next
    case 2
    then have "Divide Q A B = Some ((replicate (length Q) 0)[0 := 1])" by (simp add: Divide_def Compare_less Compare_zero)
    moreover have "digits_value ((replicate (length Q) 0)[0 := 1]) = 1" using Q by (cases "length Q") simp_all
    ultimately show ?thesis using 2 assms(1) by simp
  next
    case 3
    note N = normal_operands [OF assms(1) 3]
    have c: "\<not> Compare ?A ?B < 0" "Compare ?A ?B \<noteq> 0" using 3 by (simp_all add: Compare_less Compare_zero)
    have q: "digits_value A div digits_value B < digit_base ^ length Q"
    proof -
      have "digits_value A div digits_value B < digit_base ^ (length ?A - length ?B + 1)" using quotient_less [OF N(1,3,5)] by simp
      also have "\<dots> \<le> digit_base ^ length Q" using Q by (intro power_increasing) (simp_all add: Suc_le_eq)
      finally show ?thesis .
    qed
    have A28: "length ?A < 2 ^ 28" using Normalize_length [of A] assms(3) by simp
    consider "length ?B = 1" | "2 \<le> length ?B" "length ?B < 57" | "57 \<le> length ?B" using N(1) [folded length_0_conv] by linarith
    then show ?thesis
    proof cases
      case 1
      obtain d where d: "?B = [d]" using 1 by (cases ?B) simp_all
      have "digits_value B = unat d" using d by (metis Normalize_value add.right_neutral digits_value.simps mult_0_right)
      moreover from this have "d \<noteq> 0" using assms(1) by auto
      moreover have "(if d \<le> msd ?A then length ?A else length ?A - 1) \<le> length Q" "length Q \<noteq> 0" using Q 1 by auto
      ultimately show ?thesis
        using DivideSingle_spec [of d ?A "length Q"] N(2) c by (auto simp: Divide_def d)
    next
      case 2
      obtain Q' R' where s: "DivideSchoolbook (length Q) 0 ?A ?B = (Q', R')" by (rule prod.exhaust)
      have "Divide Q A B = Some Q'" using c 2 s by (simp add: Divide_def)
      then show ?thesis using DivideSchoolbook_spec [OF 2(1) N(5,3) _ s] q by simp
    next
      case 3
      then have "Divide Q A B = map_option fst (DivideBurnikelZiegler Q 0 ?A ?B)" using c by (simp add: Divide_def)
      then show ?thesis using DivideBurnikelZiegler_spec [OF N(1,3,4,5) A28 Q, of 0] by auto
    qed
  qed
qed

text \<open>The remainder: it is exact for a dividend that is at least the divisor, on every path; for a
  smaller dividend, which is its own remainder, the function returns the divisor.\<close>

lemma Modulo_spec:
  assumes "0 < digits_value B" and "ModuloResultLength (Normalize B) \<le> Rlen" and "length A < 2 ^ 28"
  shows "\<exists>R. Modulo Rlen A B = Some R \<and> length R = Rlen \<and>
    digits_value R = (if digits_value A < digits_value B then digits_value B else digits_value A mod digits_value B)"
proof -
  let ?A = "Normalize A" and ?B = "Normalize B"
  have R: "length ?B \<le> Rlen" using assms(2) by (simp add: ModuloResultLength_def)
  consider "digits_value A < digits_value B" | "digits_value A = digits_value B" | "digits_value B < digits_value A" by linarith
  then show ?thesis
  proof cases
    case 1
    then show ?thesis using R by (simp add: Modulo_def Let_def Compare_less value_append)
  next
    case 2
    then show ?thesis by (simp add: Modulo_def Compare_less Compare_zero)
  next
    case 3
    note N = normal_operands [OF assms(1) 3]
    have c: "\<not> Compare ?A ?B < 0" "Compare ?A ?B \<noteq> 0" using 3 by (simp_all add: Compare_less Compare_zero)
    have A28: "length ?A < 2 ^ 28" using Normalize_length [of A] assms(3) by simp
    have R0: "Rlen \<noteq> 0" using N(1) R by (cases ?B) auto
    consider "length ?B = 1" | "2 \<le> length ?B" "length ?B < 57" | "57 \<le> length ?B" using N(1) [folded length_0_conv] by linarith
    then show ?thesis
    proof cases
      case 1
      obtain d where d: "?B = [d]" using 1 by (cases ?B) simp_all
      have "digits_value B = unat d" using d by (metis Normalize_value add.right_neutral digits_value.simps mult_0_right)
      moreover from this have "d \<noteq> 0" using assms(1) by auto
      ultimately show ?thesis
        using DivideSingle_spec [of d ?A 0] N(2) 3 c R0 by (simp add: Modulo_def d)
    next
      case 2
      obtain Q' R' where s: "DivideSchoolbook 0 Rlen ?A ?B = (Q', R')" by (rule prod.exhaust)
      have "Modulo Rlen A B = Some R'" using c 2 s by (simp add: Modulo_def)
      then show ?thesis using DivideSchoolbook_spec [OF 2(1) N(5,3) _ s] R R0 3 by simp
    next
      case 4: 3
      let ?Q = "ScratchDigits (DivideResultLength ?A ?B)"
      have "length ?A - length ?B < length ?Q" by (simp add: ScratchDigits_def DivideResultLength_def)
      moreover have "Modulo Rlen A B = map_option snd (DivideBurnikelZiegler ?Q Rlen ?A ?B)" using c 4 by (simp add: Modulo_def Let_def)
      ultimately show ?thesis using DivideBurnikelZiegler_spec [OF N(1,3,4,5) A28, of ?Q Rlen] R R0 3 by auto
    qed
  qed
qed

end
