(* ===== verification/Bigint_Bitwise.thy ===== *)
theory Bigint_Bitwise
  imports Bigint_Shift Bigint_Burnikel
begin

text \<open>
  The bitwise operations on big integers: \<^verbatim>\<open>src/bigint/bitwise.cc\<close> and the result lengths of
  \<^verbatim>\<open>src/bigint/bigint.h\<close>. The numbers are sign and magnitude; the operations are those of two's
  complement, so that a negative number is read through its magnitude less one. The
  functions named \<^verbatim>\<open>LeftShift\<close> and \<^verbatim>\<open>RightShift\<close> in that file are \<open>LeftShift_by\<close> and
  \<open>RightShift_by\<close> here.
\<close>

section \<open>The operations\<close>

text \<open>The loops over pairs of digits: with both, or only the second operand less one.\<close>

fun pairs_less_one :: "(digit \<Rightarrow> digit \<Rightarrow> digit) \<Rightarrow> digits \<Rightarrow> digits \<Rightarrow> digit \<Rightarrow> digit \<Rightarrow> digits \<times> digit \<times> digit" where
  "pairs_less_one w (x # X) (y # Y) x_borrow y_borrow =
     (case digit_sub x x_borrow of (x, x_borrow) \<Rightarrow> case digit_sub y y_borrow of (y, y_borrow) \<Rightarrow>
      case pairs_less_one w X Y x_borrow y_borrow of (Z, x_borrow, y_borrow) \<Rightarrow> (w x y # Z, x_borrow, y_borrow))"
| "pairs_less_one w X Y x_borrow y_borrow = ([], x_borrow, y_borrow)"

fun pairs_second_less_one :: "(digit \<Rightarrow> digit \<Rightarrow> digit) \<Rightarrow> digits \<Rightarrow> digits \<Rightarrow> digit \<Rightarrow> digits \<times> digit" where
  "pairs_second_less_one w (x # X) (y # Y) borrow =
     (case digit_sub y borrow of (y, borrow) \<Rightarrow>
      case pairs_second_less_one w X Y borrow of (Z, borrow) \<Rightarrow> (w x y # Z, borrow))"
| "pairs_second_less_one w X Y borrow = ([], borrow)"

definition pad :: "nat \<Rightarrow> digits \<Rightarrow> digits" where
  "pad Zlen Z = Z @ replicate (Zlen - length Z) 0"

definition BitwiseAnd_PosPos :: "nat \<Rightarrow> digits \<Rightarrow> digits \<Rightarrow> digits" where
  "BitwiseAnd_PosPos Zlen X Y = pad Zlen (map2 (AND) X Y)"

definition BitwiseAnd_NegNeg :: "nat \<Rightarrow> digits \<Rightarrow> digits \<Rightarrow> digits option" where
  "BitwiseAnd_NegNeg Zlen X Y =
     (case pairs_less_one (OR) X Y 1 1 of (Z, x_borrow, y_borrow) \<Rightarrow>
      case sub_loop (drop (length Z) X) x_borrow of (Zx, x_borrow) \<Rightarrow>
      case sub_loop (drop (length (Z @ Zx)) Y) y_borrow of (Zy, y_borrow) \<Rightarrow>
        Add_digit (pad Zlen (Z @ Zx @ Zy)) 1)"

definition BitwiseAnd_PosNeg :: "nat \<Rightarrow> digits \<Rightarrow> digits \<Rightarrow> digits" where
  "BitwiseAnd_PosNeg Zlen X Y =
     (case pairs_second_less_one (\<lambda>x y. x AND NOT y) X Y 1 of (Z, borrow) \<Rightarrow> pad Zlen (Z @ drop (length Z) X))"

definition BitwiseOr_PosPos :: "nat \<Rightarrow> digits \<Rightarrow> digits \<Rightarrow> digits" where
  "BitwiseOr_PosPos Zlen X Y =
     (let Z = map2 (OR) X Y; Z = Z @ drop (length Z) X; Z = Z @ drop (length Z) Y in pad Zlen Z)"

definition BitwiseOr_NegNeg :: "nat \<Rightarrow> digits \<Rightarrow> digits \<Rightarrow> digits option" where
  "BitwiseOr_NegNeg Zlen X Y =
     (case pairs_less_one (AND) X Y 1 1 of (Z, x_borrow, y_borrow) \<Rightarrow> Add_digit (pad Zlen Z) 1)"

definition BitwiseOr_PosNeg :: "nat \<Rightarrow> digits \<Rightarrow> digits \<Rightarrow> digits option" where
  "BitwiseOr_PosNeg Zlen X Y =
     (case pairs_second_less_one (\<lambda>x y. y AND NOT x) X Y 1 of (Z, borrow) \<Rightarrow>
      case sub_loop (drop (length Z) Y) borrow of (Zy, borrow) \<Rightarrow> Add_digit (pad Zlen (Z @ Zy)) 1)"

definition BitwiseXor_PosPos :: "nat \<Rightarrow> digits \<Rightarrow> digits \<Rightarrow> digits" where
  "BitwiseXor_PosPos Zlen X0 Y0 =
     (case if length Y0 < length X0 then (Y0, X0) else (X0, Y0) of (X, Y) \<Rightarrow>
        pad Zlen (map2 (XOR) X Y @ drop (length X) Y))"

definition BitwiseXor_NegNeg :: "nat \<Rightarrow> digits \<Rightarrow> digits \<Rightarrow> digits" where
  "BitwiseXor_NegNeg Zlen X Y =
     (case pairs_less_one (XOR) X Y 1 1 of (Z, x_borrow, y_borrow) \<Rightarrow>
      case sub_loop (drop (length Z) X) x_borrow of (Zx, x_borrow) \<Rightarrow>
      case sub_loop (drop (length (Z @ Zx)) Y) y_borrow of (Zy, y_borrow) \<Rightarrow>
        pad Zlen (Z @ Zx @ Zy))"

definition BitwiseXor_PosNeg :: "nat \<Rightarrow> digits \<Rightarrow> digits \<Rightarrow> digits option" where
  "BitwiseXor_PosNeg Zlen X Y =
     (case pairs_second_less_one (XOR) X Y 1 of (Z, borrow) \<Rightarrow>
      let Z = Z @ drop (length Z) X
      in case sub_loop (drop (length Z) Y) borrow of (Zy, borrow) \<Rightarrow> Add_digit (pad Zlen (Z @ Zy)) 1)"

definition BitwiseAnd_PosPos_ResultLength :: "nat \<Rightarrow> nat \<Rightarrow> nat" where
  "BitwiseAnd_PosPos_ResultLength x_length y_length = min x_length y_length"

definition BitwiseAnd_NegNeg_ResultLength :: "nat \<Rightarrow> nat \<Rightarrow> nat" where
  "BitwiseAnd_NegNeg_ResultLength x_length y_length = max x_length y_length + 1"

definition BitwiseAnd_PosNeg_ResultLength :: "nat \<Rightarrow> nat" where
  "BitwiseAnd_PosNeg_ResultLength x_length = x_length"

definition BitwiseOrResultLength :: "nat \<Rightarrow> nat \<Rightarrow> nat" where
  "BitwiseOrResultLength x_length y_length = max x_length y_length"

definition BitwiseXor_PosPos_ResultLength :: "nat \<Rightarrow> nat \<Rightarrow> nat" where
  "BitwiseXor_PosPos_ResultLength x_length y_length = max x_length y_length"

definition BitwiseXor_NegNeg_ResultLength :: "nat \<Rightarrow> nat \<Rightarrow> nat" where
  "BitwiseXor_NegNeg_ResultLength x_length y_length = max x_length y_length"

definition BitwiseXor_PosNeg_ResultLength :: "nat \<Rightarrow> nat \<Rightarrow> nat" where
  "BitwiseXor_PosNeg_ResultLength x_length y_length = max x_length y_length + 1"

section \<open>Shifts\<close>

definition LeftShift_ResultLength :: "nat \<Rightarrow> digit \<Rightarrow> digit \<Rightarrow> nat" where
  "LeftShift_ResultLength x_length x_most_significant_digit shift =
     (let digit_shift = unat shift div kDigitBits; bits_shift = unat shift mod kDigitBits;
          grow = (bits_shift \<noteq> 0 \<and> drop_bit (kDigitBits - bits_shift) x_most_significant_digit \<noteq> 0)
      in x_length + digit_shift + (if grow then 1 else 0))"

definition LeftShift_by :: "nat \<Rightarrow> digits \<Rightarrow> digit \<Rightarrow> digits" where
  "LeftShift_by Zlen X shift =
     (let digit_shift = unat shift div kDigitBits; bits_shift = unat shift mod kDigitBits
      in if bits_shift = 0 then pad Zlen (replicate digit_shift 0 @ X)
         else case LeftShift_loop X bits_shift 0 of (Z, carry) \<Rightarrow>
              pad Zlen (replicate digit_shift 0 @ Z @ (if carry \<noteq> 0 then [carry] else [])))"

text \<open>The second component is \<^verbatim>\<open>state->must_round_down\<close>, which is false from the start.\<close>

definition RightShift_ResultLength :: "digits \<Rightarrow> bool \<Rightarrow> digit \<Rightarrow> nat \<times> bool" where
  "RightShift_ResultLength X x_sign shift =
     (let digit_shift = unat shift div kDigitBits; bits_shift = unat shift mod kDigitBits;
          result_length = length X - digit_shift
      in if length X \<le> digit_shift then (0, False)
         else let mask = push_bit bits_shift 1 - 1;
                  must_round_down = (x_sign \<and> ((X ! digit_shift) AND mask \<noteq> 0 \<or> list_ex (\<lambda>x. x \<noteq> 0) (take digit_shift X)))
              in (if must_round_down \<and> bits_shift = 0 \<and> digit_ismax (msd X) then result_length + 1 else result_length,
                  must_round_down))"

definition RightShift_by :: "nat \<Rightarrow> digits \<Rightarrow> digit \<Rightarrow> bool \<Rightarrow> digits option" where
  "RightShift_by Zlen X shift must_round_down =
     (let digit_shift = unat shift div kDigitBits; bits_shift = unat shift mod kDigitBits
      in case (if bits_shift = 0 then Some (drop digit_shift X)
               else case drop digit_shift X of [] \<Rightarrow> None
                    | d # ds \<Rightarrow> Some (RightShift_loop ds bits_shift (drop_bit bits_shift d))) of
           None \<Rightarrow> None
         | Some Z \<Rightarrow> if must_round_down then Add_digit (pad Zlen Z) 1 else Some (pad Zlen Z))"

section \<open>Truncation\<close>

definition TruncateToNBits :: "digits \<Rightarrow> digits \<Rightarrow> nat \<Rightarrow> digits" where
  "TruncateToNBits Z X n =
     (let digits = DIV_CEIL n kDigitBits; bits = n mod kDigitBits; last = digits - 1; msd = X ! last;
          msd = (if bits \<noteq> 0 then let dropped = kDigitBits - bits in drop_bit dropped (push_bit dropped msd) else msd)
      in take last X @ [msd] @ drop digits Z)"

definition TruncateAndSubFromPowerOfTwo :: "digits \<Rightarrow> digits \<Rightarrow> nat \<Rightarrow> digits" where
  "TruncateAndSubFromPowerOfTwo Z X n =
     (let digits = DIV_CEIL n kDigitBits; bits = n mod kDigitBits; last = digits - 1; have_x = min last (length X)
      in case sub2_loop (replicate have_x 0) (take have_x X) 0 of (Z1, borrow) \<Rightarrow>
         case sub_loop (replicate (last - have_x) 0) borrow of (Z2, borrow) \<Rightarrow>
         let msd = (if last < length X then X ! last else 0);
             result = (if bits = 0 then fst (digit_sub2 0 msd borrow)
                       else let dropped = kDigitBits - bits; msd = drop_bit dropped (push_bit dropped msd); minuend_msd = push_bit bits 1
                            in fst (digit_sub2 minuend_msd msd borrow) AND (minuend_msd - 1))
         in Z1 @ Z2 @ [result] @ drop digits Z)"

text \<open>\<^const>\<open>None\<close> stands for \<open>-1\<close>: the number is unchanged.\<close>

definition AsIntNResultLength :: "digits \<Rightarrow> bool \<Rightarrow> nat \<Rightarrow> nat option" where
  "AsIntNResultLength X x_negative n =
     (let needed_digits = DIV_CEIL n kDigitBits
      in if length X < needed_digits then None
         else if length X > needed_digits then Some needed_digits
         else let top_digit = X ! (needed_digits - 1); compare_digit = push_bit ((n - 1) mod kDigitBits) 1
              in if top_digit < compare_digit then None
                 else if top_digit > compare_digit then Some needed_digits
                 else if \<not> x_negative then Some needed_digits
                 else if list_ex (\<lambda>x. x \<noteq> 0) (take (needed_digits - 1) X) then Some needed_digits
                 else None)"

definition AsIntN :: "digits \<Rightarrow> digits \<Rightarrow> bool \<Rightarrow> nat \<Rightarrow> digits \<times> bool" where
  "AsIntN Z X x_negative n =
     (let needed_digits = DIV_CEIL n kDigitBits; top_digit = X ! (needed_digits - 1);
          compare_digit = push_bit ((n - 1) mod kDigitBits) 1;
          has_bit = (top_digit AND compare_digit = compare_digit)
      in if \<not> has_bit then (TruncateToNBits Z X n, x_negative)
         else (TruncateAndSubFromPowerOfTwo Z X n,
               if \<not> x_negative then True
               else if top_digit AND (compare_digit - 1) \<noteq> 0 then False
               else \<not> list_ex (\<lambda>x. x \<noteq> 0) (take (needed_digits - 1) X)))"

definition AsUintN_Pos_ResultLength :: "digits \<Rightarrow> nat \<Rightarrow> nat option" where
  "AsUintN_Pos_ResultLength X n =
     (let needed_digits = DIV_CEIL n kDigitBits
      in if length X < needed_digits then None
         else if length X > needed_digits then Some needed_digits
         else let bits_in_top_digit = n mod kDigitBits
              in if bits_in_top_digit = 0 then None
                 else if drop_bit bits_in_top_digit (X ! (needed_digits - 1)) = 0 then None
                 else Some needed_digits)"

definition AsUintN_Neg_ResultLength :: "nat \<Rightarrow> nat" where
  "AsUintN_Neg_ResultLength n = (n - 1) div kDigitBits + 1"

definition AsUintN_Pos :: "digits \<Rightarrow> digits \<Rightarrow> nat \<Rightarrow> digits" where
  "AsUintN_Pos Z X n = TruncateToNBits Z X n"

definition AsUintN_Neg :: "digits \<Rightarrow> digits \<Rightarrow> nat \<Rightarrow> digits" where
  "AsUintN_Neg Z X n = TruncateAndSubFromPowerOfTwo Z X n"

section \<open>Bitwise operations digit by digit\<close>

text \<open>
  An operation on digits that computes an operation on integers, which works on blocks of
  bits independently: what the loops over pairs of digits rely on. It may keep, or drop, the
  digits that only one operand has.
\<close>

abbreviation ivalue :: "digits \<Rightarrow> int" where "ivalue X \<equiv> int (digits_value X)"

locale bitwise_digits =
  fixes w :: "digit \<Rightarrow> digit \<Rightarrow> digit" and f :: "int \<Rightarrow> int \<Rightarrow> int"
  assumes unsigned: "uint (w x y) = f (uint x) (uint y)"
    and join: "0 \<le> a \<Longrightarrow> a < 2 ^ k \<Longrightarrow> 0 \<le> c \<Longrightarrow> c < 2 ^ k \<Longrightarrow>
      f (a + 2 ^ k * b) (c + 2 ^ k * d) = f a c + 2 ^ k * f b d"
begin

lemma zero: "f 0 0 = 0"
  using join [of 0 0 0 0 0] by simp

lemma map2_value: "length X = length Y \<Longrightarrow> ivalue (map2 w X Y) = f (ivalue X) (ivalue Y)"
proof (induction X Y rule: list_induct2)
  case (Cons x X y Y)
  have "ivalue (map2 w (x # X) (y # Y)) = f (uint x) (uint y) + 2 ^ 64 * f (ivalue X) (ivalue Y)"
    using Cons unsigned [of x y] by (simp add: digit_base_def flip: uint_nat)
  also have "\<dots> = f (uint x + 2 ^ 64 * ivalue X) (uint y + 2 ^ 64 * ivalue Y)"
    using uint_lt2p [of x] uint_lt2p [of y] by (subst join) simp_all
  finally show ?case by (simp add: digit_base_def flip: uint_nat)
qed (simp add: zero)

lemma split_value:
  assumes "n = min (length X) (length Y)"
  shows "f (ivalue X) (ivalue Y) = ivalue (map2 w X Y) + int digit_base ^ n * f (ivalue (drop n X)) (ivalue (drop n Y))"
proof -
  have b: "int digit_base ^ n = 2 ^ (64 * n)" by (simp add: digit_base_def power_mult)
  have v: "ivalue V = ivalue (take n V) + 2 ^ (64 * n) * ivalue (drop n V)" "ivalue (take n V) < 2 ^ (64 * n)" if "n \<le> length V" for V
    using value_take_drop [OF that] value_take_less [of n V] b by (simp_all flip: b of_nat_power of_nat_mult of_nat_add)
  have "map2 w X Y = map2 w (take n X) (take n Y)" using assms by (intro nth_equalityI) auto
  then have m: "ivalue (map2 w X Y) = f (ivalue (take n X)) (ivalue (take n Y))" using assms by (simp add: map2_value)
  show ?thesis
    unfolding b m using v [of X] v [of Y] assms by (metis join min.cobounded1 min.cobounded2 of_nat_0_le_iff)
qed

end

locale bitwise_keep = bitwise_digits +
  assumes keep: "f b 0 = b" "f 0 d = d"
begin

lemma keep_value: "ivalue (map2 w X Y @ drop (length Y) X @ drop (length X) Y) = f (ivalue X) (ivalue Y)"
  using split_value [OF refl, of X Y] keep
  by (cases "length X \<le> length Y") (simp_all add: value_append min_def)

end

locale bitwise_mask = bitwise_digits +
  assumes mask: "f b 0 = 0" "f 0 d = 0"
begin

lemma mask_value: "ivalue (map2 w X Y) = f (ivalue X) (ivalue Y)"
  using split_value [OF refl, of X Y] mask by (cases "length X \<le> length Y") (simp_all add: min_def)

end

locale bitwise_clear = bitwise_digits +
  assumes clear: "f b 0 = b" "f 0 d = 0"
begin

lemma clear_value: "ivalue (map2 w X Y @ drop (length Y) X) = f (ivalue X) (ivalue Y)"
  using split_value [OF refl, of X Y] clear
  by (cases "length X \<le> length Y") (simp_all add: value_append min_def)

end

text \<open>The blocks of bits below and above \<open>k\<close>.\<close>

lemma bits_low_high:
  assumes "0 \<le> a" and "a < (2 :: int) ^ k"
  shows "take_bit k (a + 2 ^ k * b) = a" and "drop_bit k (a + 2 ^ k * b) = b"
  using assms by (simp_all add: take_bit_eq_mod drop_bit_eq_div)

lemma bits_from_blocks: "take_bit k x = a \<Longrightarrow> drop_bit k x = b \<Longrightarrow> x = a + 2 ^ k * (b :: int)"
  using bits_ident [of k x] by (simp add: push_bit_eq_mult algebra_simps)

lemma take_bit_clear: "take_bit k (x AND NOT y) = take_bit k x AND NOT (take_bit k y)" for x y :: int
  by (rule bit_eqI) (auto simp: bit_simps)

lemma drop_bit_clear: "drop_bit k (x AND NOT y) = drop_bit k x AND NOT (drop_bit k y)" for x y :: int
  by (rule bit_eqI) (auto simp: bit_simps)

lemma uint_clear: "uint (x AND NOT y) = uint x AND NOT (uint y)" for x y :: digit
  using bit_imp_le_length [of x] by (intro bit_eqI) (auto simp: bit_simps)

interpretation conj: bitwise_mask "(AND)" "(AND)"
  by unfold_locales (auto simp: bits_low_high intro!: bits_from_blocks simp: unsigned_and_eq)

interpretation disj: bitwise_keep "(OR)" "(OR)"
  by unfold_locales (auto simp: bits_low_high intro!: bits_from_blocks simp: unsigned_or_eq)

interpretation parity: bitwise_keep "(XOR)" "(XOR)"
  by unfold_locales (auto simp: bits_low_high intro!: bits_from_blocks simp: unsigned_xor_eq)

interpretation clear: bitwise_clear "\<lambda>x y. x AND NOT y" "\<lambda>x y. x AND NOT y"
proof (unfold_locales, goal_cases)
  case (2 a k c b d)
  then show ?case using take_bit_clear [of k "a + 2 ^ k * b" "c + 2 ^ k * d"] drop_bit_clear [of k "a + 2 ^ k * b" "c + 2 ^ k * d"]
    by (intro bits_from_blocks) (simp_all only: bits_low_high)
qed (simp_all add: uint_clear)

section \<open>The loops in terms of digits\<close>

abbreviation less_one :: "digits \<Rightarrow> digits" where "less_one X \<equiv> fst (sub_loop X 1)"

lemma sub_loop_append:
  "sub_loop (X @ Y) b = (case sub_loop X b of (Z1, b1) \<Rightarrow> case sub_loop Y b1 of (Z2, b2) \<Rightarrow> (Z1 @ Z2, b2))"
  by (induction X b rule: sub_loop.induct) (auto split: prod.splits)

lemma sub_loop_length [simp]: "length (fst (sub_loop X b)) = length X"
  using sub_loop_spec [of X b "fst (sub_loop X b)" "snd (sub_loop X b)"] by simp

lemma sub_loop_take: "sub_loop X b = (fst (sub_loop (take n X) b) @ fst (sub_loop (drop n X) (snd (sub_loop (take n X) b))),
    snd (sub_loop (drop n X) (snd (sub_loop (take n X) b))))"
  using sub_loop_append [of "take n X" "drop n X" b] by (simp add: case_prod_unfold)

lemma pairs_less_one_eq:
  "pairs_less_one w X Y bx b2 =
     (map2 w (fst (sub_loop X bx)) (fst (sub_loop Y b2)),
      snd (sub_loop (take (length Y) X) bx), snd (sub_loop (take (length X) Y) b2))"
  by (induction w X Y bx b2 rule: pairs_less_one.induct) (auto split: prod.splits)

lemma pairs_second_less_one_eq:
  "pairs_second_less_one w X Y b = (map2 w X (fst (sub_loop Y b)), snd (sub_loop (take (length X) Y) b))"
  by (induction w X Y b rule: pairs_second_less_one.induct) (auto split: prod.splits)

lemma sub_loop_drop: "fst (sub_loop (drop n X) (snd (sub_loop (take n X) b))) = drop n (fst (sub_loop X b))"
  using arg_cong [OF sub_loop_take [of X b n], of "\<lambda>p. drop n (fst p)"] by (cases "n \<le> length X") simp_all

lemma less_one_value:
  assumes "0 < digits_value X"
  shows "digits_value (less_one X) = digits_value X - 1"
proof -
  obtain Z b where l: "sub_loop X 1 = (Z, b)" by (rule prod.exhaust)
  from sub_loop_spec [OF l] have A: "length Z = length X" "digits_value Z + 1 = digits_value X + digit_base ^ length X * unat b" by auto
  have "digit_base ^ length X * unat b < digit_base ^ length X * 1"
    using A(2) value_less [of Z, unfolded A(1)] assms by linarith
  then have "unat b = 0" by simp
  with A(2) l show ?thesis by simp
qed

lemma value_pad [simp]: "digits_value (pad Zlen Z) = digits_value Z"
  by (simp add: pad_def value_append)

lemma length_pad: "length Z \<le> Zlen \<Longrightarrow> length (pad Zlen Z) = Zlen"
  by (simp add: pad_def)

text \<open>Adding one to a padded vector that has room for the result.\<close>

lemma Add_one_pad:
  assumes "length Z \<le> Zlen" and "digits_value Z + 1 < digit_base ^ Zlen"
  shows "\<exists>Z'. Add_digit (pad Zlen Z) 1 = Some Z' \<and> length Z' = Zlen \<and> digits_value Z' = digits_value Z + 1"
proof -
  have "Zlen \<noteq> 0" using assms(2) by (cases Zlen) simp_all
  then have "pad Zlen Z \<noteq> []" using length_pad [OF assms(1)] by auto
  with Add_digit_spec [of "pad Zlen Z" 1] assms length_pad [OF assms(1)] show ?thesis by simp
qed

lemma pairs_less_one_rest:
  assumes "pairs_less_one w X Y 1 1 = (Z, bx, by')" and "sub_loop (drop (length Z) X) bx = (Zx, bx')"
    and "sub_loop (drop (length (Z @ Zx)) Y) by' = (Zy, by'')"
  shows "Z = map2 w (less_one X) (less_one Y)" and "Zx = drop (length Y) (less_one X)" and "Zy = drop (length X) (less_one Y)"
proof -
  show Z: "Z = map2 w (less_one X) (less_one Y)" using assms(1) by (simp add: pairs_less_one_eq)
  show Zx: "Zx = drop (length Y) (less_one X)"
  proof (cases "length Y \<le> length X")
    case True
    then have "length Z = length Y" using Z by simp
    then show ?thesis using assms(1,2) sub_loop_drop [of "length Y" X 1] by (simp add: pairs_less_one_eq)
  qed (use assms(2) Z in simp)
  have "length (Z @ Zx) = length X \<or> length Y \<le> length X \<and> length (Z @ Zx) = length X" using Z Zx by auto
  then show "Zy = drop (length X) (less_one Y)"
    using assms(1,3) sub_loop_drop [of "length X" Y 1] by (auto simp: pairs_less_one_eq)
qed

section \<open>The operations compute those of two's complement\<close>

text \<open>A negative number is the complement of its magnitude less one.\<close>

lemma negative_complement: "0 < (x :: int) \<Longrightarrow> - x = NOT (x - 1)"
  by (simp add: not_int_def)

lemma neg_and_neg: "(- x) AND (- y) = - (((x - 1) OR (y - 1)) + 1)" for x y :: int
proof -
  have "(- x) AND (- y) = NOT (x - 1) AND NOT (y - 1)" by (simp add: not_int_def)
  also have "\<dots> = NOT ((x - 1) OR (y - 1))" by simp
  finally show ?thesis by (simp add: not_int_def)
qed

lemma neg_or_neg: "(- x) OR (- y) = - (((x - 1) AND (y - 1)) + 1)" for x y :: int
proof -
  have "(- x) OR (- y) = NOT (x - 1) OR NOT (y - 1)" by (simp add: not_int_def)
  also have "\<dots> = NOT ((x - 1) AND (y - 1))" by simp
  finally show ?thesis by (simp add: not_int_def)
qed

lemma pos_or_neg: "x OR (- y) = - (((y - 1) AND NOT x) + 1)" for x y :: int
proof -
  have "x OR (- y) = x OR NOT (y - 1)" by (simp add: not_int_def)
  also have "\<dots> = NOT ((y - 1) AND NOT x)" by (simp add: or.commute)
  finally show ?thesis unfolding not_int_def [of "(y - 1) AND NOT x"] by simp
qed

lemma pos_and_neg: "x AND (- y) = x AND NOT (y - 1)" for x y :: int
  by (simp add: not_int_def)

lemma neg_xor_neg: "(- x) XOR (- y) = (x - 1) XOR (y - 1)" for x y :: int
proof -
  have "(- x) XOR (- y) = NOT (x - 1) XOR NOT (y - 1)" by (simp add: not_int_def)
  then show ?thesis by simp
qed

lemma pos_xor_neg: "x XOR (- y) = - ((x XOR (y - 1)) + 1)" for x y :: int
proof -
  have "x XOR (- y) = x XOR NOT (y - 1)" by (simp add: not_int_def)
  then show ?thesis by (simp add: not_int_def [of "_ XOR _"])
qed

lemma less_one_ivalue: "0 < digits_value X \<Longrightarrow> ivalue (less_one X) = ivalue X - 1"
  by (simp add: less_one_value of_nat_diff)

lemma And_PosPos_spec:
  assumes "BitwiseAnd_PosPos_ResultLength (length X) (length Y) \<le> Zlen"
  shows "length (BitwiseAnd_PosPos Zlen X Y) = Zlen" and "ivalue (BitwiseAnd_PosPos Zlen X Y) = ivalue X AND ivalue Y"
  using assms by (simp_all add: BitwiseAnd_PosPos_def BitwiseAnd_PosPos_ResultLength_def length_pad conj.mask_value)

lemma And_PosNeg_spec:
  assumes "BitwiseAnd_PosNeg_ResultLength (length X) \<le> Zlen" and "0 < digits_value Y"
  shows "length (BitwiseAnd_PosNeg Zlen X Y) = Zlen" and "ivalue (BitwiseAnd_PosNeg Zlen X Y) = ivalue X AND - ivalue Y"
proof -
  have e: "BitwiseAnd_PosNeg Zlen X Y = pad Zlen (map2 (\<lambda>x y. x AND NOT y) X (less_one Y) @ drop (length (less_one Y)) X)"
    by (cases "length X \<le> length Y") (simp_all add: BitwiseAnd_PosNeg_def pairs_second_less_one_eq min_def)
  show "length (BitwiseAnd_PosNeg Zlen X Y) = Zlen" unfolding e
    using assms(1) by (intro length_pad) (simp add: BitwiseAnd_PosNeg_ResultLength_def)
  show "ivalue (BitwiseAnd_PosNeg Zlen X Y) = ivalue X AND - ivalue Y"
    unfolding e value_pad clear.clear_value pos_and_neg less_one_ivalue [OF assms(2)] ..
qed

lemma Or_PosPos_spec:
  assumes "BitwiseOrResultLength (length X) (length Y) \<le> Zlen"
  shows "length (BitwiseOr_PosPos Zlen X Y) = Zlen" and "ivalue (BitwiseOr_PosPos Zlen X Y) = ivalue X OR ivalue Y"
proof -
  have e: "BitwiseOr_PosPos Zlen X Y = pad Zlen (map2 (OR) X Y @ drop (length Y) X @ drop (length X) Y)"
    by (cases "length X \<le> length Y") (simp_all add: BitwiseOr_PosPos_def min_def)
  show "length (BitwiseOr_PosPos Zlen X Y) = Zlen" unfolding e
    using assms by (intro length_pad) (auto simp: BitwiseOrResultLength_def)
  show "ivalue (BitwiseOr_PosPos Zlen X Y) = ivalue X OR ivalue Y" unfolding e value_pad disj.keep_value ..
qed

lemma Xor_PosPos_spec:
  assumes "BitwiseXor_PosPos_ResultLength (length X) (length Y) \<le> Zlen"
  shows "length (BitwiseXor_PosPos Zlen X Y) = Zlen" and "ivalue (BitwiseXor_PosPos Zlen X Y) = ivalue X XOR ivalue Y"
proof -
  obtain A B where ab: "(if length Y < length X then (Y, X) else (X, Y)) = (A, B)" by (rule prod.exhaust)
  then have l: "length A \<le> length B" "length B = max (length X) (length Y)" by (auto split: if_splits)
  have e: "BitwiseXor_PosPos Zlen X Y = pad Zlen (map2 (XOR) A B @ drop (length B) A @ drop (length A) B)"
    using l(1) by (simp add: BitwiseXor_PosPos_def ab)
  show "length (BitwiseXor_PosPos Zlen X Y) = Zlen" unfolding e
    using assms l by (intro length_pad) (simp add: BitwiseXor_PosPos_ResultLength_def)
  have "ivalue A XOR ivalue B = ivalue X XOR ivalue Y" using ab by (auto simp: xor.commute split: if_splits)
  then show "ivalue (BitwiseXor_PosPos Zlen X Y) = ivalue X XOR ivalue Y" unfolding e value_pad parity.keep_value .
qed

text \<open>One digit more than the operands have is enough for adding one.\<close>

lemma Add_one_grows:
  assumes "length Z < Zlen"
  shows "\<exists>Z'. Add_digit (pad Zlen Z) 1 = Some Z' \<and> length Z' = Zlen \<and> ivalue Z' = ivalue Z + 1"
proof -
  have "digit_base ^ length Z * digit_base \<le> digit_base ^ Zlen"
    using assms power_increasing [of "Suc (length Z)" Zlen digit_base] by (simp add: digit_base_def mult.commute)
  moreover have "digits_value Z + 1 < digit_base ^ length Z * digit_base"
    using value_less [of Z] by (simp add: digit_base_def)
  ultimately show ?thesis using Add_one_pad [of Z Zlen] assms by auto
qed

lemma And_NegNeg_spec:
  assumes "BitwiseAnd_NegNeg_ResultLength (length X) (length Y) \<le> Zlen" and "0 < digits_value X" and "0 < digits_value Y"
  shows "\<exists>Z. BitwiseAnd_NegNeg Zlen X Y = Some Z \<and> length Z = Zlen \<and> - ivalue Z = - ivalue X AND - ivalue Y"
proof -
  obtain Z bx b2 where 1: "pairs_less_one (OR) X Y 1 1 = (Z, bx, b2)" by (metis prod_cases3)
  obtain Zx bx' where 2: "sub_loop (drop (length Z) X) bx = (Zx, bx')" by (rule prod.exhaust)
  obtain Zy b2' where 3: "sub_loop (drop (length (Z @ Zx)) Y) b2 = (Zy, b2')" by (rule prod.exhaust)
  note R = pairs_less_one_rest [OF 1 2 3]
  have v: "ivalue (Z @ Zx @ Zy) = (ivalue X - 1) OR (ivalue Y - 1)"
    using disj.keep_value [of "less_one X" "less_one Y"] assms(2,3) by (simp add: R less_one_ivalue)
  have "length (Z @ Zx @ Zy) < Zlen" using assms(1) by (auto simp: R BitwiseAnd_NegNeg_ResultLength_def)
  from Add_one_grows [OF this] show ?thesis using 1 2 3 by (auto simp: BitwiseAnd_NegNeg_def v neg_and_neg)
qed

lemma Or_NegNeg_spec:
  assumes "BitwiseOrResultLength (length X) (length Y) \<le> Zlen" and "0 < digits_value X" and "0 < digits_value Y"
  shows "\<exists>Z. BitwiseOr_NegNeg Zlen X Y = Some Z \<and> length Z = Zlen \<and> - ivalue Z = - ivalue X OR - ivalue Y"
proof -
  let ?Z = "map2 (AND) (less_one X) (less_one Y)"
  have v: "ivalue ?Z = (ivalue X - 1) AND (ivalue Y - 1)" using assms(2,3) by (simp add: conj.mask_value less_one_ivalue)
  then have "ivalue ?Z \<le> ivalue X - 1" using assms(2) by simp
  then have "digits_value ?Z + 1 < digit_base ^ length X" using value_less [of X] by simp
  also have "\<dots> \<le> digit_base ^ Zlen" using assms(1) by (intro power_increasing) (auto simp: BitwiseOrResultLength_def digit_base_def)
  finally have lt: "digits_value ?Z + 1 < digit_base ^ Zlen" .
  have "length ?Z \<le> Zlen" using assms(1) unfolding BitwiseOrResultLength_def by simp linarith
  with Add_one_pad [OF _ lt] obtain Z' where "Add_digit (pad Zlen ?Z) 1 = Some Z'" "length Z' = Zlen" "digits_value Z' = digits_value ?Z + 1"
    by blast
  with v show ?thesis by (simp add: BitwiseOr_NegNeg_def pairs_less_one_eq neg_or_neg)
qed

lemma Or_PosNeg_spec:
  assumes "BitwiseOrResultLength (length X) (length Y) \<le> Zlen" and "0 < digits_value Y"
  shows "\<exists>Z. BitwiseOr_PosNeg Zlen X Y = Some Z \<and> length Z = Zlen \<and> - ivalue Z = ivalue X OR - ivalue Y"
proof -
  let ?Z = "map2 (\<lambda>x y. x AND NOT y) (less_one Y) X @ drop (length X) (less_one Y)"
  have v: "ivalue ?Z = (ivalue Y - 1) AND NOT (ivalue X)"
    using clear.clear_value [of "less_one Y" X] assms(2) by (simp add: less_one_ivalue)
  then have "ivalue ?Z \<le> ivalue Y - 1" using assms(2) by simp
  then have "digits_value ?Z + 1 < digit_base ^ length Y" using value_less [of Y] by simp
  also have "\<dots> \<le> digit_base ^ Zlen" using assms(1) by (intro power_increasing) (auto simp: BitwiseOrResultLength_def digit_base_def)
  finally have lt: "digits_value ?Z + 1 < digit_base ^ Zlen" .
  have "length ?Z \<le> Zlen" using assms(1) unfolding BitwiseOrResultLength_def by simp linarith
  with Add_one_pad [OF _ lt] obtain Z' where Z': "Add_digit (pad Zlen ?Z) 1 = Some Z'" "length Z' = Zlen" "digits_value Z' = digits_value ?Z + 1"
    by blast
  have m: "map2 (\<lambda>x y. y AND NOT x) X (less_one Y) = map2 (\<lambda>x y. x AND NOT y) (less_one Y) X"
    by (rule nth_equalityI) auto
  have "BitwiseOr_PosNeg Zlen X Y = Add_digit (pad Zlen ?Z) 1"
  proof (cases "length X \<le> length Y")
    case True
    then show ?thesis using sub_loop_drop [of "length X" Y 1]
      by (simp add: BitwiseOr_PosNeg_def pairs_second_less_one_eq case_prod_unfold m [unfolded case_prod_unfold])
  qed (simp add: BitwiseOr_PosNeg_def pairs_second_less_one_eq m)
  with Z' v show ?thesis by (simp add: pos_or_neg)
qed

lemma Xor_NegNeg_spec:
  assumes "BitwiseXor_NegNeg_ResultLength (length X) (length Y) \<le> Zlen" and "0 < digits_value X" and "0 < digits_value Y"
  shows "length (BitwiseXor_NegNeg Zlen X Y) = Zlen" and "ivalue (BitwiseXor_NegNeg Zlen X Y) = - ivalue X XOR - ivalue Y"
proof -
  obtain Z bx b2 where 1: "pairs_less_one (XOR) X Y 1 1 = (Z, bx, b2)" by (metis prod_cases3)
  obtain Zx bx' where 2: "sub_loop (drop (length Z) X) bx = (Zx, bx')" by (rule prod.exhaust)
  obtain Zy b2' where 3: "sub_loop (drop (length (Z @ Zx)) Y) b2 = (Zy, b2')" by (rule prod.exhaust)
  note R = pairs_less_one_rest [OF 1 2 3]
  have e: "BitwiseXor_NegNeg Zlen X Y = pad Zlen (Z @ Zx @ Zy)" using 1 2 3 by (simp add: BitwiseXor_NegNeg_def)
  show "length (BitwiseXor_NegNeg Zlen X Y) = Zlen"
    unfolding e using assms(1) by (intro length_pad) (auto simp: R BitwiseXor_NegNeg_ResultLength_def)
  have "ivalue (Z @ Zx @ Zy) = (ivalue X - 1) XOR (ivalue Y - 1)"
    using parity.keep_value [of "less_one X" "less_one Y"] assms(2,3) by (simp add: R less_one_ivalue)
  then show "ivalue (BitwiseXor_NegNeg Zlen X Y) = - ivalue X XOR - ivalue Y" unfolding e value_pad neg_xor_neg .
qed

lemma Xor_PosNeg_spec:
  assumes "BitwiseXor_PosNeg_ResultLength (length X) (length Y) \<le> Zlen" and "0 < digits_value Y"
  shows "\<exists>Z. BitwiseXor_PosNeg Zlen X Y = Some Z \<and> length Z = Zlen \<and> - ivalue Z = ivalue X XOR - ivalue Y"
proof -
  let ?Z = "map2 (XOR) X (less_one Y) @ drop (length Y) X @ drop (length X) (less_one Y)"
  have v: "ivalue ?Z = ivalue X XOR (ivalue Y - 1)"
    using parity.keep_value [of X "less_one Y"] assms(2) by (simp add: less_one_ivalue)
  have "length ?Z < Zlen" using assms(1) by (auto simp: BitwiseXor_PosNeg_ResultLength_def)
  note Z' = Add_one_grows [OF this]
  have "BitwiseXor_PosNeg Zlen X Y = Add_digit (pad Zlen ?Z) 1"
  proof (cases "length X \<le> length Y")
    case True
    then show ?thesis using sub_loop_drop [of "length X" Y 1]
      by (simp add: BitwiseXor_PosNeg_def pairs_second_less_one_eq case_prod_unfold)
  qed (simp add: BitwiseXor_PosNeg_def pairs_second_less_one_eq)
  with Z' v show ?thesis by (auto simp: pos_xor_neg)
qed

section \<open>Bits of a vector\<close>

lemma base_power: "digit_base ^ l * 2 ^ r = 2 ^ (64 * l + r)"
  by (simp add: digit_base_def power_add power_mult)

lemma value_zero_iff: "digits_value X = 0 \<longleftrightarrow> \<not> list_ex (\<lambda>x. x \<noteq> 0) X"
  by (induction X) (simp_all add: digit_base_def unat_eq_zero)

text \<open>The value of a vector cut at a bit, and the value of the bits above.\<close>

lemma value_mod_bits: "digits_value X mod 2 ^ (64 * l + r) = digits_value (take l X) + digit_base ^ l * (digits_value (drop l X) mod 2 ^ r)"
proof (cases "l \<le> length X")
  case True
  then have v: "digits_value X = digits_value (take l X) + digit_base ^ l * digits_value (drop l X)" by (simp add: value_take_drop)
  have "digits_value X mod digit_base ^ l = digits_value (take l X)" "digits_value X div digit_base ^ l = digits_value (drop l X)"
    using value_take_less [of l X] v by (simp_all add: digit_base_def)
  then show ?thesis by (simp add: mod_mult2_eq flip: base_power)
next
  case False
  have "digits_value X < digit_base ^ length X * 1" using value_less [of X] by simp
  also have "digit_base ^ length X * 1 \<le> digit_base ^ l * 2 ^ r"
    using False by (intro mult_mono power_increasing) (simp_all add: digit_base_def)
  finally show ?thesis using False by (simp flip: base_power)
qed

lemma value_div_bits: "digits_value X div 2 ^ (64 * l + r) = digits_value (drop l X) div 2 ^ r"
proof -
  have "digits_value X div digit_base ^ l = digits_value (drop l X)"
  proof (cases "l \<le> length X")
    case True
    have "digits_value X = digits_value (take l X) + digit_base ^ l * digits_value (drop l X)" using True by (simp add: value_take_drop)
    with value_take_less [of l X] show ?thesis by (simp add: digit_base_def)
  next
    case False
    then have "digit_base ^ length X \<le> digit_base ^ l" by (intro power_increasing) (simp_all add: digit_base_def)
    then have "digits_value X < digit_base ^ l" using value_less [of X] by (rule less_le_trans [rotated])
    with False show ?thesis by simp
  qed
  then show ?thesis by (simp add: div_mult2_eq flip: base_power)
qed

lemma value_drop_mod:
  assumes "l < length X" and "r \<le> 64"
  shows "digits_value (drop l X) mod 2 ^ r = unat (X ! l) mod 2 ^ r"
proof -
  have "digit_base = 2 ^ r * 2 ^ (64 - r)" using assms(2) by (simp add: digit_base_def flip: power_add)
  then show ?thesis using Cons_nth_drop_Suc [OF assms(1)] by (metis digits_value.simps(2) mod_mult_self2 mult.assoc)
qed

lemma unat_below_bit: "unat (d AND (push_bit r 1 - 1)) = unat d mod 2 ^ r" for d :: digit
proof -
  have "push_bit r 1 - 1 = (mask r :: digit)" by (simp add: mask_eq_exp_minus_1 push_bit_eq_mult)
  then show ?thesis by (simp add: unat_take flip: take_bit_eq_mask take_bit_eq_mod)
qed

lemma unat_cut: "r \<le> 64 \<Longrightarrow> unat (drop_bit (64 - r) (push_bit (64 - r) d)) = unat d mod 2 ^ r" for d :: digit
proof -
  assume r: "r \<le> 64"
  have "drop_bit (64 - r) (push_bit (64 - r) d) = take_bit r d"
    using bit_imp_le_length [of d] r by (intro bit_eqI) (auto simp: bit_simps)
  then show ?thesis by (simp add: unat_take)
qed

section \<open>Shifts multiply and divide\<close>

lemma LeftShift_loop_carry: "snd (LeftShift_loop X s c) = (if X = [] then c else drop_bit (64 - s) (last X))"
  by (induction X s c rule: LeftShift_loop.induct) (auto split: prod.splits)

lemma msd_last: "X \<noteq> [] \<Longrightarrow> msd X = last X"
  by (simp add: msd_def last_conv_nth)

lemma LeftShift_by_spec:
  assumes "X \<noteq> []" and "LeftShift_ResultLength (length X) (msd X) shift \<le> Zlen"
  shows "length (LeftShift_by Zlen X shift) = Zlen" and "digits_value (LeftShift_by Zlen X shift) = digits_value X * 2 ^ unat shift"
proof -
  define l r where lr: "l = unat shift div 64" "r = unat shift mod 64"
  then have s: "2 ^ unat shift = digit_base ^ l * 2 ^ r" unfolding base_power by simp
  obtain Z c where 1: "LeftShift_loop X r 0 = (Z, c)" by (rule prod.exhaust)
  have c: "c = drop_bit (64 - r) (msd X)" using LeftShift_loop_carry [of X r 0] 1 assms(1) by (simp add: msd_last)
  show "length (LeftShift_by Zlen X shift) = Zlen"
    using assms(2) 1 c LeftShift_loop_spec [OF 1] lr
    by (cases "r = 0") (auto simp: LeftShift_by_def LeftShift_ResultLength_def Let_def pad_def)
  show "digits_value (LeftShift_by Zlen X shift) = digits_value X * 2 ^ unat shift"
  proof (cases "r = 0")
    case True
    then show ?thesis using lr s by (simp add: LeftShift_by_def value_append)
  next
    case False
    have A: "length Z = length X" "digits_value Z + digit_base ^ length X * unat c = digits_value X * 2 ^ r"
      using LeftShift_loop_spec [OF 1] False lr by auto
    have "digits_value (LeftShift_by Zlen X shift) = digit_base ^ l * (digits_value Z + digit_base ^ length X * unat c)"
      using False lr 1 A(1) by (simp add: LeftShift_by_def value_append)
    then show ?thesis unfolding A(2) s by simp
  qed
qed

lemma ismax_iff: "digit_ismax d \<longleftrightarrow> unat d = digit_base - 1"
proof -
  have "digit_ismax d \<longleftrightarrow> d = - 1" unfolding digit_ismax_def by (metis bit.compl_one bit.compl_zero bit.double_compl)
  also have "\<dots> \<longleftrightarrow> unat d = unat (- 1 :: digit)" by (simp add: word_unat_eq_iff)
  finally show ?thesis by (simp add: unsigned_minus_1_eq_mask mask_eq_exp_minus_1 digit_base_def)
qed

lemma value_not_max:
  assumes "X \<noteq> []" and "\<not> digit_ismax (msd X)"
  shows "digits_value X + 1 < digit_base ^ length X"
proof -
  let ?n = "length X - 1"
  have l: "digit_base ^ length X = digit_base ^ ?n * digit_base" using assms(1) by (cases X) (simp_all add: mult.commute)
  have m: "unat (msd X) + 2 \<le> digit_base" using assms(2) unat_digit [of "msd X"] by (simp add: ismax_iff)
  have "digits_value X + 1 \<le> digit_base ^ ?n * (unat (msd X) + 1)"
    using value_msd [OF assms(1)] value_take_less [of ?n X] by (simp add: algebra_simps)
  also have "\<dots> < digit_base ^ ?n * digit_base" using m by (simp add: digit_base_def)
  finally show ?thesis unfolding l .
qed

text \<open>Rounding happens for a negative number exactly if a set bit is shifted out.\<close>

lemma RightShift_rounds:
  assumes "RightShift_ResultLength X sign shift = (len, rounds)" and "0 < len"
  shows "unat shift div 64 < length X" and "rounds \<longleftrightarrow> sign \<and> digits_value X mod 2 ^ unat shift \<noteq> 0"
    and "len = length X - unat shift div 64 + (if rounds \<and> unat shift mod 64 = 0 \<and> digit_ismax (msd X) then 1 else 0)"
proof -
  let ?l = "unat shift div 64" and ?r = "unat shift mod 64"
  show l: "?l < length X"
    and "len = length X - ?l + (if rounds \<and> ?r = 0 \<and> digit_ismax (msd X) then 1 else 0)"
    using assms by (auto simp: RightShift_ResultLength_def Let_def split: if_splits)
  have "digits_value X mod 2 ^ unat shift = digits_value (take ?l X) + digit_base ^ ?l * unat (X ! ?l AND (push_bit ?r 1 - 1))"
    unfolding unat_below_bit using value_mod_bits [of X ?l ?r] value_drop_mod [OF l, of ?r] by simp
  moreover have "rounds \<longleftrightarrow> sign \<and> (X ! ?l AND (push_bit ?r 1 - 1) \<noteq> 0 \<or> digits_value (take ?l X) \<noteq> 0)"
    using assms l by (auto simp: RightShift_ResultLength_def Let_def value_zero_iff)
  ultimately show "rounds \<longleftrightarrow> sign \<and> digits_value X mod 2 ^ unat shift \<noteq> 0"
    by (auto simp: digit_base_def unat_eq_zero)
qed

lemma RightShift_by_magnitude:
  assumes "RightShift_ResultLength X sign shift = (len, rounds)" and "0 < len"
  shows "\<exists>Z. RightShift_by len X shift rounds = Some Z \<and> length Z = len \<and>
    digits_value Z = digits_value X div 2 ^ unat shift + (if rounds then 1 else 0)"
proof -
  define l r where lr: "l = unat shift div 64" "r = unat shift mod 64"
  note R = RightShift_rounds [OF assms, folded lr]
  have ne: "drop l X \<noteq> []" using R(1) by simp
  have v: "digits_value X div 2 ^ unat shift = digits_value (drop l X) div 2 ^ r"
    using value_div_bits [of X l r] lr by simp
  obtain Y where Y: "(if r = 0 then Some (drop l X) else case drop l X of [] \<Rightarrow> None
      | d # ds \<Rightarrow> Some (RightShift_loop ds r (drop_bit r d))) = Some Y" "length Y = length X - l"
    "digits_value Y = digits_value (drop l X) div 2 ^ r" "rounds \<Longrightarrow> digits_value Y + 1 < digit_base ^ len"
  proof (cases "r = 0")
    case True
    have "digits_value (drop l X) + 1 < digit_base ^ len" if rounds
    proof (cases "digit_ismax (msd X)")
      case True
      then have "length (drop l X) < len" using R(3) \<open>rounds\<close> \<open>r = 0\<close> by simp
      then have "digit_base ^ length (drop l X) * digit_base \<le> digit_base ^ len"
        using power_increasing [of "Suc (length (drop l X))" len digit_base] by (simp add: digit_base_def mult.commute)
      with value_less [of "drop l X"] show ?thesis by (simp add: digit_base_def)
    next
      case False
      moreover have "X \<noteq> []" using R(1) by auto
      ultimately show ?thesis using value_not_max [OF ne] R by (simp add: msd_last ne)
    qed
    with that [of "drop l X"] True show thesis by simp
  next
    case False
    obtain d ds where d: "drop l X = d # ds" using ne by (cases "drop l X") auto
    have r: "0 < r" "r < 64" using False lr by auto
    note A = RightShift_digits [OF r, of ds d]
    have "length X - l = Suc (length ds)" using d by (metis length_Cons length_drop)
    moreover have "digits_value (drop l X) div 2 ^ r + 1 < digit_base ^ (length X - l)"
    proof -
      have "2 ^ 1 \<le> (2 :: nat) ^ r" using r by (intro power_increasing) simp_all
      then have "digits_value (drop l X) div 2 ^ r \<le> digits_value (drop l X) div 2" by (intro div_le_mono2) simp_all
      moreover have "digit_base \<le> digit_base ^ (length X - l)" using R(1) self_le_power [of digit_base "length X - l"] by (simp add: digit_base_def)
      ultimately show ?thesis using value_less [of "drop l X"] by (simp add: digit_base_def)
    qed
    ultimately show thesis using that [of "RightShift_loop ds r (drop_bit r d)"] A False d R(3) by simp
  qed
  have "length Y \<le> len" using R(3) Y(2) by simp
  then show ?thesis
    using Add_one_pad [of Y len] Y v length_pad [of Y len]
    by (auto simp: RightShift_by_def simp flip: lr)
qed

lemma signed_value_if: "signed_value n X = (if n then - ivalue X else ivalue X)"
  by (simp add: signed_value_def)

lemma RightShift_by_spec:
  assumes "RightShift_ResultLength X sign shift = (len, rounds)" and "0 < len"
  shows "\<exists>Z. RightShift_by len X shift rounds = Some Z \<and> length Z = len \<and>
    signed_value sign Z = signed_value sign X div 2 ^ unat shift"
proof -
  let ?p = "2 ^ unat shift :: nat"
  obtain Z where Z: "RightShift_by len X shift rounds = Some Z" "length Z = len"
    "digits_value Z = digits_value X div ?p + (if rounds then 1 else 0)" using RightShift_by_magnitude [OF assms] by blast
  have m: "ivalue X mod int ?p = 0 \<longleftrightarrow> digits_value X mod ?p = 0" by (metis of_nat_eq_0_iff zmod_int)
  have "signed_value sign Z = signed_value sign X div int ?p"
    using Z(3) RightShift_rounds(2) [OF assms] zdiv_zminus1_eq_if [of "int ?p" "ivalue X", unfolded m]
    by (simp only: signed_value_if) (simp add: zdiv_int)
  with Z show ?thesis by simp
qed

lemma RightShift_to_nothing:
  assumes "fst (RightShift_ResultLength X sign shift) = 0" and "X \<noteq> []" and "0 < digits_value X"
  shows "signed_value sign X div 2 ^ unat shift = (if sign then - 1 else 0)"
proof -
  let ?l = "unat shift div 64"
  have "length X \<le> ?l" using assms(1) by (auto simp: RightShift_ResultLength_def Let_def split: if_splits)
  then have "digits_value X div 2 ^ unat shift = 0" using value_div_bits [of X ?l "unat shift mod 64"] by simp
  then have "digits_value X < 2 ^ unat shift" by (simp add: div_eq_0_iff)
  then have "ivalue X < 2 ^ unat shift" by (metis of_nat_less_iff of_nat_numeral of_nat_power)
  with assms(3) show ?thesis using div_pos_neg_trivial zdiv_zminus1_eq_if [of "2 ^ unat shift" "ivalue X"]
    by (auto simp: signed_value_if div_pos_pos_trivial mod_pos_pos_trivial)
qed

section \<open>Truncation to a number of bits\<close>

lemma unat_bit: "r < 64 \<Longrightarrow> unat (push_bit r 1 :: digit) = 2 ^ r"
proof -
  assume "r < 64"
  then have "(2 :: nat) ^ r < 2 ^ 64" by (intro power_strict_increasing) simp_all
  then have "unat (push_bit r 1 :: digit) = 2 ^ r" unfolding unat_push by simp
  then show ?thesis .
qed

lemma last_bits:
  assumes "0 < n"
  obtains r where "n = 64 * (DIV_CEIL n 64 - 1) + r" and "0 < r" and "r \<le> 64" and "r = (if n mod 64 = 0 then 64 else n mod 64)"
    and "(n - 1) mod 64 = r - 1"
proof -
  define r where "r = (n - 1) mod 64 + 1"
  have "n = 64 * (DIV_CEIL n 64 - 1) + r" using assms unfolding r_def DIV_CEIL_def by simp
  moreover have "r = (if n mod 64 = 0 then 64 else n mod 64)" unfolding r_def using assms by (cases n) (simp_all add: mod_Suc)
  moreover have "0 < r" "r \<le> 64" "(n - 1) mod 64 = r - 1" using mod_less_divisor [of 64 "n - 1"] unfolding r_def by linarith+
  ultimately show thesis by (intro that)
qed

lemma TruncateToNBits_spec:
  assumes "0 < n" and "DIV_CEIL n 64 \<le> length X" and "length Z = DIV_CEIL n 64"
  shows "length (TruncateToNBits Z X n) = DIV_CEIL n 64" and "digits_value (TruncateToNBits Z X n) = digits_value X mod 2 ^ n"
proof -
  let ?l = "DIV_CEIL n 64 - 1"
  obtain r where r: "n = 64 * ?l + r" "0 < r" "r \<le> 64" "r = (if n mod 64 = 0 then 64 else n mod 64)" using last_bits [OF assms(1)] by metis
  have l: "?l < length X" "Suc ?l = DIV_CEIL n 64" using assms(2) by (simp_all add: DIV_CEIL_def)
  define d where "d = (if n mod 64 \<noteq> 0 then drop_bit (64 - n mod 64) (push_bit (64 - n mod 64) (X ! ?l)) else X ! ?l)"
  have e: "TruncateToNBits Z X n = take ?l X @ [d]" using assms(3) by (simp add: TruncateToNBits_def Let_def d_def)
  have d: "unat d = unat (X ! ?l) mod 2 ^ r"
    using r(4) unat_digit [of "X ! ?l"] unat_cut [of "n mod 64" "X ! ?l"] by (auto simp: d_def digit_base_def)
  show "length (TruncateToNBits Z X n) = DIV_CEIL n 64" using l by (simp add: e)
  have "digits_value X mod 2 ^ n = digits_value (take ?l X) + digit_base ^ ?l * (unat (X ! ?l) mod 2 ^ r)"
    using value_mod_bits [of X ?l r] value_drop_mod [OF l(1) r(3)] r(1) by simp
  then show "digits_value (TruncateToNBits Z X n) = digits_value X mod 2 ^ n"
    using l by (simp add: e d value_append min_def)
qed

text \<open>Two numbers below a power whose sum is a multiple of it are complements.\<close>

lemma complement_of_sum:
  assumes "T + W = P * c" and "T < P" and "W < (P :: nat)"
  shows "T = (P - W) mod P"
proof -
  have "P * c < P * 2" using assms by linarith
  then have "c = 0 \<or> c = 1" by auto
  then show ?thesis using assms by auto
qed

lemma top_digit_complement:
  fixes d b :: digit
  assumes "unat b \<le> 1" and "r = (if m = 0 then 64 else m)"
    and "R = (if m = 0 then fst (digit_sub2 0 d b)
      else fst (digit_sub2 (push_bit m 1) (drop_bit (64 - m) (push_bit (64 - m) d)) b) AND (push_bit m 1 - 1))" and "m < 64"
  shows "\<exists>c. unat R + unat d mod 2 ^ r + unat b = 2 ^ r * c \<and> unat R < 2 ^ r"
proof (cases "m = 0")
  case True
  obtain c where c: "digit_sub2 0 d b = (R, c)" using assms(3) True by (metis prod.collapse)
  have "unat d mod 2 ^ r = unat d" "unat R < 2 ^ r" using unat_digit [of d] unat_digit [of R] assms(2) True by (simp_all add: digit_base_def)
  with native.sub2 [OF c assms(1)] assms(2) True show ?thesis by (auto simp: digit_base_def)
next
  case False
  let ?d = "drop_bit (64 - m) (push_bit (64 - m) d)"
  obtain S c where S: "digit_sub2 (push_bit m 1) ?d b = (S, c)" by (rule prod.exhaust)
  have d: "unat ?d = unat d mod 2 ^ m" using assms(4) by (simp add: unat_cut)
  have s: "unat S + unat d mod 2 ^ m + unat b = 2 ^ m + digit_base * unat c"
    using native.sub2 [OF S assms(1)] unat_bit [OF assms(4)] unfolding d by simp
  have R: "unat R = unat S mod 2 ^ m" using assms(3) False S by (simp only: fst_conv if_False unat_below_bit)
  have "(2 :: nat) ^ m dvd digit_base" using assms(4) by (simp add: digit_base_def le_imp_power_dvd [of m 64 "2 :: nat", simplified])
  then have "2 ^ m dvd unat S + unat d mod 2 ^ m + unat b" unfolding s by simp
  then have "2 ^ m dvd unat R + unat d mod 2 ^ m + unat b" unfolding R by (metis dvd_eq_mod_eq_0 mod_add_left_eq)
  then show ?thesis using assms(2) False R by (auto simp: dvd_def)
qed

lemma TruncateAndSub_spec:
  assumes "0 < n" and "length Z = DIV_CEIL n 64"
  shows "length (TruncateAndSubFromPowerOfTwo Z X n) = DIV_CEIL n 64"
    and "digits_value (TruncateAndSubFromPowerOfTwo Z X n) = (2 ^ n - digits_value X mod 2 ^ n) mod 2 ^ n"
proof -
  let ?l = "DIV_CEIL n 64 - 1"
  let ?h = "min ?l (length X)" and ?d = "if ?l < length X then X ! ?l else 0"
  obtain r where r: "n = 64 * ?l + r" "0 < r" "r \<le> 64" "r = (if n mod 64 = 0 then 64 else n mod 64)" using last_bits [OF assms(1)] by metis
  obtain Z1 b1 where 1: "sub2_loop (replicate ?h 0) (take ?h X) 0 = (Z1, b1)" by (rule prod.exhaust)
  obtain Z2 b where 2: "sub_loop (replicate (?l - ?h) 0) b1 = (Z2, b)" by (rule prod.exhaust)
  define R where "R = (if n mod 64 = 0 then fst (digit_sub2 0 ?d b)
    else fst (digit_sub2 (push_bit (n mod 64) 1) (drop_bit (64 - n mod 64) (push_bit (64 - n mod 64) ?d)) b) AND (push_bit (n mod 64) 1 - 1))"
  have e: "TruncateAndSubFromPowerOfTwo Z X n = Z1 @ Z2 @ [R]"
    unfolding TruncateAndSubFromPowerOfTwo_def Let_def 1 2 prod.case R_def using assms(2) by simp
  have A: "length Z1 = ?h" "unat b1 \<le> 1" "digits_value Z1 + digits_value (take ?h X) = digit_base ^ ?h * unat b1"
    using sub2_loop_spec [OF 1] by simp_all
  have B: "length Z2 = ?l - ?h" "unat b \<le> 1" "digits_value Z2 + unat b1 = digit_base ^ (?l - ?h) * unat b"
    using sub_loop_spec [OF 2] A(2) by simp_all
  have t: "take ?h X = take ?l X" by (simp add: min_def)
  have low: "digits_value (Z1 @ Z2) + digits_value (take ?l X) = digit_base ^ ?l * unat b"
  proof -
    have "digits_value (Z1 @ Z2) + digits_value (take ?h X) = digit_base ^ ?h * (digits_value Z2 + unat b1)"
      using A by (simp add: value_append algebra_simps)
    also have "\<dots> = digit_base ^ (?h + (?l - ?h)) * unat b" unfolding B(3) by (simp add: power_add)
    also have "?h + (?l - ?h) = ?l" by simp
    finally show ?thesis unfolding t .
  qed
  obtain c where c: "unat R + unat ?d mod 2 ^ r + unat b = 2 ^ r * c" "unat R < 2 ^ r"
    using top_digit_complement [OF B(2) r(4) R_def] by auto
  have W: "digits_value X mod 2 ^ n = digits_value (take ?l X) + digit_base ^ ?l * (unat ?d mod 2 ^ r)"
    using value_mod_bits [of X ?l r] value_drop_mod [of ?l X r] r(1,3) by (cases "?l < length X") simp_all
  have l: "length (Z1 @ Z2) = ?l" "Suc ?l = DIV_CEIL n 64" using A(1) B(1) by (simp_all add: DIV_CEIL_def)
  then show "length (TruncateAndSubFromPowerOfTwo Z X n) = DIV_CEIL n 64" by (simp add: e)
  have v: "digits_value (TruncateAndSubFromPowerOfTwo Z X n) = digits_value (Z1 @ Z2) + digit_base ^ ?l * unat R"
    using value_append [of "Z1 @ Z2" "[R]"] l(1) by (simp add: e)
  have n: "2 ^ n = digit_base ^ ?l * 2 ^ r" using base_power [of ?l r] r(1) by simp
  have "digits_value (TruncateAndSubFromPowerOfTwo Z X n) + digits_value X mod 2 ^ n
      = digit_base ^ ?l * (unat R + unat ?d mod 2 ^ r + unat b)" using low v W by (simp add: algebra_simps)
  then have s: "digits_value (TruncateAndSubFromPowerOfTwo Z X n) + digits_value X mod 2 ^ n = 2 ^ n * c" unfolding c(1) n by simp
  have "digits_value (Z1 @ Z2) + digit_base ^ ?l * unat R < digit_base ^ ?l * (unat R + 1)"
    using value_less [of "Z1 @ Z2"] l(1) by simp
  also have "\<dots> \<le> 2 ^ n" unfolding n using c(2) by (intro mult_left_mono) auto
  finally show "digits_value (TruncateAndSubFromPowerOfTwo Z X n) = (2 ^ n - digits_value X mod 2 ^ n) mod 2 ^ n"
    using complement_of_sum [OF s] v by simp
qed

lemma bit_value:
  assumes "l < length X" and "q < 64"
  shows "bit (digits_value X) (64 * l + q) \<longleftrightarrow> bit (X ! l) q"
proof -
  have "bit (digits_value X) (64 * l + q) \<longleftrightarrow> bit (digits_value (drop l X)) q" by (simp add: bit_iff_odd value_div_bits)
  also have "\<dots> \<longleftrightarrow> bit (take_bit 64 (digits_value (drop l X))) q" using assms(2) by (simp add: bit_take_bit_iff)
  also have "take_bit 64 (digits_value (drop l X)) = unat (X ! l)"
    using value_drop_mod [OF assms(1), of 64] unat_digit [of "X ! l"] by (simp add: take_bit_eq_mod digit_base_def)
  finally show ?thesis by (simp add: bit_unsigned_iff)
qed

lemma mod_next_bit: "v mod 2 ^ Suc k = v mod 2 ^ k + (if bit v k then 2 ^ k else 0)" for v :: nat
proof -
  have "v mod 2 ^ Suc k = 2 ^ k * (v div 2 ^ k mod 2) + v mod 2 ^ k" using mod_mult2_eq [of v "2 ^ k" 2] by (simp add: mult.commute)
  then show ?thesis by (simp add: bit_iff_odd odd_iff_mod_2_eq_one)
qed

text \<open>The two's complement number of the low bits, for both signs.\<close>

lemma signed_low_bits:
  fixes v :: int
  shows "signed_take_bit k v = (if v mod 2 ^ Suc k < 2 ^ k then v mod 2 ^ Suc k else v mod 2 ^ Suc k - 2 ^ Suc k)"
    and "signed_take_bit k (- v) = (if v mod 2 ^ Suc k \<le> 2 ^ k then - (v mod 2 ^ Suc k) else 2 ^ Suc k - v mod 2 ^ Suc k)"
proof -
  define W where "W = v mod 2 ^ Suc k"
  have W: "0 \<le> W" "W < 2 * 2 ^ k" by (simp_all add: W_def)
  have "signed_take_bit k v = (W + 2 ^ k) mod (2 * 2 ^ k) - 2 ^ k"
    by (simp add: signed_take_bit_eq_take_bit_shift take_bit_eq_mod W_def mod_simps)
  also have "(W + 2 ^ k) mod (2 * 2 ^ k) = (if W < 2 ^ k then W + 2 ^ k else W - 2 ^ k)"
    using W mod_pos_pos_trivial [of "W + 2 ^ k" "2 * 2 ^ k"] mod_pos_pos_trivial [of "W - 2 ^ k" "2 * 2 ^ k"]
      mod_add_self2 [of "W - 2 ^ k" "2 * 2 ^ k"] by (auto simp: add.commute)
  finally show "signed_take_bit k v = (if v mod 2 ^ Suc k < 2 ^ k then v mod 2 ^ Suc k else v mod 2 ^ Suc k - 2 ^ Suc k)"
    unfolding W_def by simp
  have "signed_take_bit k (- v) = (2 ^ k - W) mod (2 * 2 ^ k) - 2 ^ k"
    by (simp add: signed_take_bit_eq_take_bit_shift take_bit_eq_mod W_def mod_simps)
  also have "(2 ^ k - W) mod (2 * 2 ^ k) = (if W \<le> 2 ^ k then 2 ^ k - W else 2 ^ k - W + 2 * 2 ^ k)"
    using W mod_pos_pos_trivial [of "2 ^ k - W" "2 * 2 ^ k"] mod_pos_pos_trivial [of "2 ^ k - W + 2 * 2 ^ k" "2 * 2 ^ k"]
      mod_add_self2 [of "2 ^ k - W" "2 * 2 ^ k"] by auto
  finally show "signed_take_bit k (- v) = (if v mod 2 ^ Suc k \<le> 2 ^ k then - (v mod 2 ^ Suc k) else 2 ^ Suc k - v mod 2 ^ Suc k)"
    unfolding W_def by simp
qed

lemma and_single_bit: "(d AND push_bit q 1 = push_bit q 1) \<longleftrightarrow> bit d q" if "q < 64" for d :: digit
proof
  assume "d AND push_bit q 1 = push_bit q 1"
  then have "bit (d AND push_bit q 1) q = bit (push_bit q 1 :: digit) q" by simp
  with that show "bit d q" by (simp add: bit_simps)
next
  assume "bit d q"
  then show "d AND push_bit q 1 = push_bit q 1" by (intro bit_eqI) (auto simp: bit_simps bit_1_iff)
qed

text \<open>The position of the sign bit and what is below it.\<close>

lemma sign_position:
  assumes "0 < n" and "DIV_CEIL n 64 \<le> length X"
  defines "l \<equiv> DIV_CEIL n 64 - 1" and "q \<equiv> (n - 1) mod 64"
  shows "X ! l AND push_bit q 1 = push_bit q 1 \<longleftrightarrow> bit (digits_value X) (n - 1)"
    and "X ! l AND (push_bit q 1 - 1) \<noteq> 0 \<or> list_ex (\<lambda>x. x \<noteq> 0) (take l X) \<longleftrightarrow> digits_value X mod 2 ^ (n - 1) \<noteq> 0"
proof -
  have l: "l < length X" "q < 64" "n - 1 = 64 * l + q" using assms(2) by (simp_all add: l_def q_def DIV_CEIL_def)
  show "X ! l AND push_bit q 1 = push_bit q 1 \<longleftrightarrow> bit (digits_value X) (n - 1)"
    unfolding and_single_bit [OF l(2)] l(3) bit_value [OF l(1,2)] ..
  have "digits_value X mod 2 ^ (n - 1) = digits_value (take l X) + digit_base ^ l * unat (X ! l AND (push_bit q 1 - 1))"
    unfolding l(3) value_mod_bits unat_below_bit using value_drop_mod [OF l(1), of q] l(2) by simp
  then show "X ! l AND (push_bit q 1 - 1) \<noteq> 0 \<or> list_ex (\<lambda>x. x \<noteq> 0) (take l X) \<longleftrightarrow> digits_value X mod 2 ^ (n - 1) \<noteq> 0"
    unfolding value_zero_iff [of "take l X", symmetric, THEN arg_cong [of _ _ Not], simplified] by (auto simp: digit_base_def unat_eq_zero)
qed

lemma AsIntN_spec:
  assumes "AsIntN Z X x_negative n = (Z', negative)"
    and "0 < n" and "DIV_CEIL n 64 \<le> length X" and "length Z = DIV_CEIL n 64"
  shows "length Z' = DIV_CEIL n 64 \<and> signed_value negative Z' = signed_take_bit (n - 1) (signed_value x_negative X)"
proof -
  define k where "k = n - 1"
  then have n: "n = Suc k" using assms(2) by simp
  define v where "v = digits_value X"
  note P = sign_position [OF assms(2,3), folded k_def v_def]
  have W: "v mod 2 ^ n = v mod 2 ^ k + (if bit v k then 2 ^ k else 0)" unfolding n by (rule mod_next_bit)
  have lt: "v mod 2 ^ k < 2 ^ k" by simp
  have i: "int v mod 2 ^ Suc k = int (v mod 2 ^ n)" by (simp add: n zmod_int)
  note T = TruncateToNBits_spec [OF assms(2,3,4), folded v_def]
  note U = TruncateAndSub_spec [OF assms(2,4), of X, folded v_def]
  show ?thesis
  proof (cases "bit v k")
    case False
    then have "Z' = TruncateToNBits Z X n" "negative = x_negative"
      using assms(1) P(1) unfolding AsIntN_def Let_def k_def by (auto split: if_splits)
    moreover have "int (v mod 2 ^ n) < 2 ^ k" using W False lt by simp
    ultimately show ?thesis
      using T signed_low_bits [of k "int v"] unfolding signed_value_if i k_def [symmetric] by (simp flip: v_def)
  next
    case True
    then have Z': "Z' = TruncateAndSubFromPowerOfTwo Z X n"
      and neg: "negative = (x_negative \<longrightarrow> v mod 2 ^ k = 0)"
      using assms(1) P unfolding AsIntN_def Let_def k_def by (auto split: if_splits)
    have ge: "2 ^ k \<le> v mod 2 ^ n" "v mod 2 ^ n = 2 ^ k \<longleftrightarrow> v mod 2 ^ k = 0" "v mod 2 ^ n < 2 ^ n" using W True lt by (simp_all add: n)
    then have "digits_value Z' = 2 ^ n - v mod 2 ^ n"
      unfolding Z' U(2) using zero_less_power [of "2 :: nat" k] by (intro mod_less) linarith
    then have z: "ivalue Z' = 2 ^ n - int (v mod 2 ^ n)" using ge(3) by (simp add: of_nat_diff less_imp_le)
    have ge': "2 ^ k \<le> int (v mod 2 ^ n)" "int (v mod 2 ^ n) = 2 ^ k \<longleftrightarrow> v mod 2 ^ k = 0"
      using ge(1,2) by (metis of_nat_le_iff of_nat_numeral of_nat_power, metis of_nat_eq_iff of_nat_numeral of_nat_power)
    show ?thesis
      using U(1) z ge' neg signed_low_bits [of k "int v"] unfolding signed_value_if i Z' k_def [symmetric]
      by (auto simp: n simp flip: v_def)
  qed
qed

text \<open>Where the code answers that the number is unchanged, truncation indeed does nothing.\<close>

lemma value_top:
  assumes "length X = Suc l"
  shows "digits_value X = digits_value (take l X) + digit_base ^ l * unat (X ! l)" and "digits_value (take l X) < digit_base ^ l"
  using value_msd [of X] assms value_take_less [of l X] by (cases "X = []"; simp add: msd_def)+

lemma AsIntN_unchanged:
  assumes "AsIntNResultLength X x_negative n = None" and "0 < n"
  shows "signed_take_bit (n - 1) (signed_value x_negative X) = signed_value x_negative X"
proof -
  define l q where lq: "l = DIV_CEIL n 64 - 1" "q = (n - 1) mod 64"
  have l: "DIV_CEIL n 64 = Suc l" "q < 64" "n - 1 = 64 * l + q" by (simp_all add: lq DIV_CEIL_def)
  have b: "2 ^ (n - 1) = digit_base ^ l * 2 ^ q" unfolding l(3) base_power ..
  let ?v = "digits_value X"
  have "?v < 2 ^ (n - 1) \<or> x_negative \<and> ?v = 2 ^ (n - 1)"
  proof (cases "length X = Suc l")
    case True
    note t = value_top [OF this] and u = unat_bit [OF l(2)]
    consider "X ! l < push_bit q 1" | "X ! l = push_bit q 1" "x_negative" "\<not> list_ex (\<lambda>x. x \<noteq> 0) (take l X)"
      using assms True unfolding AsIntNResultLength_def Let_def l(1) lq(2) [symmetric] by (auto split: if_splits)
    then show ?thesis
    proof cases
      case 1
      then have "unat (X ! l) + 1 \<le> 2 ^ q" unfolding word_less_nat_alt u by simp
      then have "digit_base ^ l * (unat (X ! l) + 1) \<le> digit_base ^ l * 2 ^ q" by (rule mult_left_mono) simp
      then show ?thesis unfolding b using t by simp
    next
      case 2
      then show ?thesis using t u unfolding b by (simp flip: value_zero_iff)
    qed
  next
    case False
    then have "length X \<le> l" using assms unfolding AsIntNResultLength_def Let_def l(1) by (auto split: if_splits)
    then have "digit_base ^ length X * 1 \<le> digit_base ^ l * 2 ^ q" by (intro mult_mono power_increasing) (simp_all add: digit_base_def)
    then show ?thesis using value_less [of X] unfolding b by simp
  qed
  then have "ivalue X < 2 ^ (n - 1) \<or> x_negative \<and> ivalue X = 2 ^ (n - 1)"
    by (metis of_nat_less_iff of_nat_numeral of_nat_power)
  moreover have "0 \<le> ivalue X" "0 < (2 :: int) ^ (n - 1)" by simp_all
  ultimately have "- (2 ^ (n - 1)) \<le> signed_value x_negative X" "signed_value x_negative X < 2 ^ (n - 1)"
    unfolding signed_value_if by (auto simp del: of_nat_less_numeral_power_cancel_iff of_nat_le_numeral_power_cancel_iff split: if_splits)
  then show ?thesis by (rule signed_take_bit_int_eq_self)
qed

lemma AsUintN_unchanged:
  assumes "AsUintN_Pos_ResultLength X n = None" and "0 < n"
  shows "digits_value X < 2 ^ n"
proof -
  define l where "l = DIV_CEIL n 64 - 1"
  have l: "DIV_CEIL n 64 = Suc l" by (simp add: l_def DIV_CEIL_def)
  obtain r where r: "n = 64 * l + r" "0 < r" "r \<le> 64" "r = (if n mod 64 = 0 then 64 else n mod 64)"
    using last_bits [OF assms(2), folded l_def] by metis
  have "digits_value (drop l X) < 2 ^ r"
  proof (cases "length X = Suc l")
    case True
    then have d: "drop l X = [X ! l]" using Cons_nth_drop_Suc [of l X] by simp
    have "n mod 64 \<noteq> 0 \<Longrightarrow> unat (X ! l) div 2 ^ (n mod 64) = 0"
      using assms True unfolding AsUintN_Pos_ResultLength_def Let_def l
      by (auto simp: unat_eq_zero simp flip: unat_drop split: if_splits)
    then show ?thesis using r(4) unat_digit [of "X ! l"] by (auto simp: d digit_base_def div_eq_0_iff)
  next
    case False
    then have "length X \<le> l" using assms unfolding AsUintN_Pos_ResultLength_def Let_def l by (auto split: if_splits)
    then show ?thesis by simp
  qed
  then have "digits_value X div 2 ^ n = 0" unfolding r(1) value_div_bits by simp
  then show ?thesis by (simp add: div_eq_0_iff)
qed

lemma ResultLength_needed:
  "AsIntNResultLength X x_negative n = Some len \<Longrightarrow> len = DIV_CEIL n 64 \<and> DIV_CEIL n 64 \<le> length X"
  "AsUintN_Pos_ResultLength X n = Some len \<Longrightarrow> len = DIV_CEIL n 64 \<and> DIV_CEIL n 64 \<le> length X"
  by (auto simp: AsIntNResultLength_def AsUintN_Pos_ResultLength_def Let_def split: if_splits)

end
