(* ===== verification/BigInt_Object.thy ===== *)
theory BigInt_Object
  imports Bigint_Bitwise "HOL-Library.Signed_Division"
begin

text \<open>
  BigInt values: \<^verbatim>\<open>src/objects/bigint.cc\<close> and \<^verbatim>\<open>bigint.h\<close>. A BigInt is its sign and its digits; the
  operations of the language allocate a result of the length the library asks for, let the
  library fill it and make it canonical. Allocation fails beyond \<open>kMaxLength\<close> digits. The
  digits of a fresh object are not initialized by the code; here they are zeros.
\<close>

record bigint =
  bigint_sign :: bool
  bigint_digits :: digits

text \<open>What an operation throws. \<open>EmptyHandle\<close> is an empty result without an exception; \<open>Undefined\<close> stands for a
  failed \<^verbatim>\<open>CHECK\<close>, a fatal error or an access outside of a vector in the library.\<close>

datatype bigint_failure = kBigIntTooBig | kBigIntDivZero | kMustBePositive | kBigIntShr | kInvalidStringLength | kBigIntFromNumber | EmptyHandle | Undefined

type_synonym bigint_result = "bigint_failure + bigint"

abbreviation kMaxLengthBits :: nat where "kMaxLengthBits \<equiv> 2 ^ 30"

abbreviation kMaxLength :: nat where "kMaxLength \<equiv> 2 ^ 24"

section \<open>Allocation\<close>

abbreviation is_zero :: "bigint \<Rightarrow> bool" where "is_zero x \<equiv> length (bigint_digits x) = 0"

abbreviation set_sign :: "bool \<Rightarrow> bigint \<Rightarrow> bigint" where "set_sign new_sign x \<equiv> x \<lparr> bigint_sign := new_sign \<rparr>"

abbreviation set_digits :: "digits \<Rightarrow> bigint \<Rightarrow> bigint" where "set_digits ds x \<equiv> x \<lparr> bigint_digits := ds \<rparr>"

definition MutableBigInt_New :: "nat \<Rightarrow> bigint_result" where
  "MutableBigInt_New len =
     (if len > kMaxLength then Inl kBigIntTooBig else Inr \<lparr> bigint_sign = False, bigint_digits = replicate len 0 \<rparr>)"

definition ToHandleChecked :: "bigint_result \<Rightarrow> bigint_result" where
  "ToHandleChecked maybe = (case maybe of Inl e \<Rightarrow> Inl Undefined | Inr x \<Rightarrow> Inr x)"

definition from_library :: "'a option \<Rightarrow> bigint_failure + 'a" where
  "from_library z = (case z of None \<Rightarrow> Inl Undefined | Some z \<Rightarrow> Inr z)"

definition Canonicalize :: "bigint \<Rightarrow> bigint" where
  "Canonicalize result =
     (let new_digits = Normalize (bigint_digits result)
      in if length new_digits \<noteq> length (bigint_digits result)
         then let result = set_digits new_digits result
              in if length new_digits = 0 then set_sign False result else result
         else result)"

definition MakeImmutable :: "bigint_result \<Rightarrow> bigint_result" where
  "MakeImmutable maybe = (case maybe of Inl e \<Rightarrow> Inl e | Inr result \<Rightarrow> Inr (Canonicalize result))"

definition BigInt_Zero :: bigint where
  "BigInt_Zero = Canonicalize \<lparr> bigint_sign = False, bigint_digits = [] \<rparr>"

definition NewFromInt :: "32 word \<Rightarrow> bigint" where
  "NewFromInt v =
     (if v = 0 then BigInt_Zero
      else let sign = (sint v < 0);
               digit = (if \<not> sign then scast v
                        else if v = 0x80000000 then 0x7FFFFFFF + 1
                        else scast (- v))
           in Canonicalize \<lparr> bigint_sign = sign, bigint_digits = [digit] \<rparr>)"

definition MutableBigInt_Copy :: "bigint \<Rightarrow> bigint_result" where
  "MutableBigInt_Copy x =
     (case ToHandleChecked (MutableBigInt_New (length (bigint_digits x))) of Inl e \<Rightarrow> Inl e
      | Inr result \<Rightarrow> Inr (set_digits (bigint_digits x) result))"

section \<open>Arithmetic\<close>

definition UnaryMinus :: "bigint \<Rightarrow> bigint_result" where
  "UnaryMinus x =
     (if is_zero x then Inr x
      else case MutableBigInt_Copy x of Inl e \<Rightarrow> Inl e
           | Inr result \<Rightarrow> MakeImmutable (Inr (set_sign (\<not> bigint_sign x) result)))"

definition AbsoluteAddOne :: "bigint \<Rightarrow> bool \<Rightarrow> bigint_result" where
  "AbsoluteAddOne x sign =
     (let X = bigint_digits x; input_length = length X;
          will_overflow = list_all digit_ismax X;
          result_length = input_length + (if will_overflow then 1 else 0)
      in case MutableBigInt_New result_length of Inl e \<Rightarrow> Inl e
         | Inr result \<Rightarrow>
             let Z = (if input_length = 0 then [1]
                      else if input_length = 1 \<and> \<not> will_overflow then [X ! 0 + 1]
                      else AddOne result_length X)
             in Inr (set_sign sign (set_digits Z result)))"

definition AbsoluteSubOne :: "bigint \<Rightarrow> bigint_result" where
  "AbsoluteSubOne x =
     (let X = bigint_digits x
      in case ToHandleChecked (MutableBigInt_New (length X)) of Inl e \<Rightarrow> Inl e
         | Inr result \<Rightarrow>
             if length X = 1 then Inr (set_digits [X ! 0 - 1] result)
             else case from_library (SubtractOne (length X) X) of Inl e \<Rightarrow> Inl e
                  | Inr Z \<Rightarrow> Inr (set_digits Z result))"

definition BitwiseNot :: "bigint \<Rightarrow> bigint_result" where
  "BitwiseNot x = MakeImmutable (if bigint_sign x then AbsoluteSubOne x else AbsoluteAddOne x True)"

definition Increment :: "bigint \<Rightarrow> bigint_result" where
  "Increment x =
     (if bigint_sign x
      then case AbsoluteSubOne x of Inl e \<Rightarrow> Inl e | Inr result \<Rightarrow> MakeImmutable (Inr (set_sign True result))
      else MakeImmutable (AbsoluteAddOne x False))"

definition Decrement :: "bigint \<Rightarrow> bigint_result" where
  "Decrement x =
     (if bigint_sign x then MakeImmutable (AbsoluteAddOne x True)
      else if is_zero x then Inr (NewFromInt (- 1))
      else MakeImmutable (AbsoluteSubOne x))"

definition BigInt_Add :: "bigint \<Rightarrow> bigint \<Rightarrow> bigint_result" where
  "BigInt_Add x y =
     (if is_zero x then Inr y
      else if is_zero y then Inr x
      else let X = bigint_digits x; Y = bigint_digits y; xsign = bigint_sign x; ysign = bigint_sign y;
               result_length = AddSignedResultLength (length X) (length Y) (xsign = ysign)
           in case MutableBigInt_New result_length of Inl e \<Rightarrow> Inl e
              | Inr result \<Rightarrow>
                  case AddSigned result_length X xsign Y ysign of (Z, result_sign) \<Rightarrow>
                    MakeImmutable (Inr (set_sign result_sign (set_digits Z result))))"

definition BigInt_Subtract :: "bigint \<Rightarrow> bigint \<Rightarrow> bigint_result" where
  "BigInt_Subtract x y =
     (if is_zero y then Inr x
      else if is_zero x then UnaryMinus y
      else let X = bigint_digits x; Y = bigint_digits y; xsign = bigint_sign x; ysign = bigint_sign y;
               result_length = SubtractSignedResultLength (length X) (length Y) (xsign = ysign)
           in case MutableBigInt_New result_length of Inl e \<Rightarrow> Inl e
              | Inr result \<Rightarrow>
                  case SubtractSigned result_length X xsign Y ysign of (Z, result_sign) \<Rightarrow>
                    MakeImmutable (Inr (set_sign result_sign (set_digits Z result))))"

definition BigInt_Multiply :: "bigint \<Rightarrow> bigint \<Rightarrow> bigint_result" where
  "BigInt_Multiply x y =
     (if is_zero x then Inr x
      else if is_zero y then Inr y
      else let X = bigint_digits x; Y = bigint_digits y
           in case MutableBigInt_New (MultiplyResultLength X Y) of Inl e \<Rightarrow> Inl e
              | Inr result \<Rightarrow>
                  let Z = Multiply (bigint_digits result) X Y
                  in MakeImmutable (Inr (set_sign (bigint_sign x \<noteq> bigint_sign y) (set_digits Z result))))"

definition BigInt_Divide :: "bigint \<Rightarrow> bigint \<Rightarrow> bigint_result" where
  "BigInt_Divide x y =
     (let X = bigint_digits x; Y = bigint_digits y
      in if is_zero y then Inl kBigIntDivZero
         else if Compare X Y < 0 then Inr BigInt_Zero
         else let result_sign = (bigint_sign x \<noteq> bigint_sign y)
              in if length Y = 1 \<and> Y ! 0 = 1
                 then (if result_sign = bigint_sign x then Inr x else UnaryMinus x)
                 else case MutableBigInt_New (DivideResultLength X Y) of Inl e \<Rightarrow> Inl e
                      | Inr quot \<Rightarrow>
                          case from_library (Divide (bigint_digits quot) X Y) of Inl e \<Rightarrow> Inl e
                          | Inr Q \<Rightarrow> MakeImmutable (Inr (set_sign result_sign (set_digits Q quot))))"

definition BigInt_Remainder :: "bigint \<Rightarrow> bigint \<Rightarrow> bigint_result" where
  "BigInt_Remainder x y =
     (let X = bigint_digits x; Y = bigint_digits y
      in if is_zero y then Inl kBigIntDivZero
         else if Compare X Y < 0 then Inr x
         else if length Y = 1 \<and> Y ! 0 = 1 then Inr BigInt_Zero
         else case MutableBigInt_New (ModuloResultLength Y) of Inl e \<Rightarrow> Inl e
              | Inr remainder \<Rightarrow>
                  case from_library (Modulo (length (bigint_digits remainder)) X Y) of Inl e \<Rightarrow> Inl e
                  | Inr R \<Rightarrow> MakeImmutable (Inr (set_sign (bigint_sign x) (set_digits R remainder))))"

text \<open>The loop of \<^verbatim>\<open>Exponentiate\<close>; the result is \<^const>\<open>None\<close> while its handle is null.\<close>

function Exponentiate_loop :: "nat \<Rightarrow> bigint option \<Rightarrow> bigint \<Rightarrow> bigint_result" where
  "Exponentiate_loop n result running_square =
     (if n = 0 then from_library result
      else case BigInt_Multiply running_square running_square of Inl e \<Rightarrow> Inl e
           | Inr running_square \<Rightarrow>
               if n mod 2 = 1
               then case result of None \<Rightarrow> Exponentiate_loop (n div 2) (Some running_square) running_square
                    | Some r \<Rightarrow>
                        case BigInt_Multiply r running_square of Inl e \<Rightarrow> Inl e
                        | Inr r \<Rightarrow> Exponentiate_loop (n div 2) (Some r) running_square
               else Exponentiate_loop (n div 2) result running_square)"
  by pat_completeness auto

termination Exponentiate_loop
  by (relation "measure fst") auto

declare Exponentiate_loop.simps [simp del]

definition Exponentiate :: "bigint \<Rightarrow> bigint \<Rightarrow> bigint_result" where
  "Exponentiate base exponent =
     (let B = bigint_digits base; E = bigint_digits exponent
      in if bigint_sign exponent then Inl kMustBePositive
         else if is_zero exponent then Inr (NewFromInt 1)
         else if is_zero base then Inr base
         else if length B = 1 \<and> B ! 0 = 1
         then (if bigint_sign base \<and> E ! 0 AND 1 = 0 then UnaryMinus base else Inr base)
         else if length E > 1 then Inl kBigIntTooBig
         else let exp_value = E ! 0
              in if exp_value = 1 then Inr base
                 else if unat exp_value \<ge> kMaxLengthBits then Inl kBigIntTooBig
                 else let n = unat exp_value
                      in if length B = 1 \<and> B ! 0 = 2
                         then let needed_digits = 1 + n div kDigitBits
                              in case MutableBigInt_New needed_digits of Inl e \<Rightarrow> Inl e
                                 | Inr result \<Rightarrow>
                                     let msd = push_bit (n mod kDigitBits) 1;
                                         result = set_digits ((replicate needed_digits 0)[needed_digits - 1 := msd]) result;
                                         result = (if bigint_sign base then set_sign (n mod 2 \<noteq> 0) result else result)
                                     in MakeImmutable (Inr result)
                         else Exponentiate_loop (n div 2) (if n mod 2 = 1 then Some base else None) base)"

section \<open>Bitwise operations\<close>

definition BigInt_BitwiseAnd :: "bigint \<Rightarrow> bigint \<Rightarrow> bigint_result" where
  "BigInt_BitwiseAnd x y =
     (let x_sign = bigint_sign x; y_sign = bigint_sign y
      in MakeImmutable (
         if \<not> x_sign \<and> \<not> y_sign
         then let X = bigint_digits x; Y = bigint_digits y; result_length = BitwiseAnd_PosPos_ResultLength (length X) (length Y)
              in case ToHandleChecked (MutableBigInt_New result_length) of Inl e \<Rightarrow> Inl e
                 | Inr result \<Rightarrow> Inr (set_digits (BitwiseAnd_PosPos result_length X Y) result)
         else if x_sign \<and> y_sign
         then let X = bigint_digits x; Y = bigint_digits y; result_length = BitwiseAnd_NegNeg_ResultLength (length X) (length Y)
              in case MutableBigInt_New result_length of Inl e \<Rightarrow> Inl e
                 | Inr result \<Rightarrow>
                     case from_library (BitwiseAnd_NegNeg result_length X Y) of Inl e \<Rightarrow> Inl e
                     | Inr Z \<Rightarrow> Inr (set_sign True (set_digits Z result))
         else case (if x_sign then (y, x) else (x, y)) of (x, y) \<Rightarrow>
              let X = bigint_digits x; Y = bigint_digits y; result_length = BitwiseAnd_PosNeg_ResultLength (length X)
              in case ToHandleChecked (MutableBigInt_New result_length) of Inl e \<Rightarrow> Inl e
                 | Inr result \<Rightarrow> Inr (set_digits (BitwiseAnd_PosNeg result_length X Y) result)))"

definition BigInt_BitwiseXor :: "bigint \<Rightarrow> bigint \<Rightarrow> bigint_result" where
  "BigInt_BitwiseXor x y =
     (let x_sign = bigint_sign x; y_sign = bigint_sign y
      in MakeImmutable (
         if \<not> x_sign \<and> \<not> y_sign
         then let X = bigint_digits x; Y = bigint_digits y; result_length = BitwiseXor_PosPos_ResultLength (length X) (length Y)
              in case ToHandleChecked (MutableBigInt_New result_length) of Inl e \<Rightarrow> Inl e
                 | Inr result \<Rightarrow> Inr (set_digits (BitwiseXor_PosPos result_length X Y) result)
         else if x_sign \<and> y_sign
         then let X = bigint_digits x; Y = bigint_digits y; result_length = BitwiseXor_NegNeg_ResultLength (length X) (length Y)
              in case ToHandleChecked (MutableBigInt_New result_length) of Inl e \<Rightarrow> Inl e
                 | Inr result \<Rightarrow> Inr (set_digits (BitwiseXor_NegNeg result_length X Y) result)
         else case (if x_sign then (y, x) else (x, y)) of (x, y) \<Rightarrow>
              let X = bigint_digits x; Y = bigint_digits y; result_length = BitwiseXor_PosNeg_ResultLength (length X) (length Y)
              in case MutableBigInt_New result_length of Inl e \<Rightarrow> Inl e
                 | Inr result \<Rightarrow>
                     case from_library (BitwiseXor_PosNeg result_length X Y) of Inl e \<Rightarrow> Inl e
                     | Inr Z \<Rightarrow> Inr (set_sign True (set_digits Z result))))"

definition BigInt_BitwiseOr :: "bigint \<Rightarrow> bigint \<Rightarrow> bigint_result" where
  "BigInt_BitwiseOr x y =
     (let x_sign = bigint_sign x; y_sign = bigint_sign y;
          result_length = BitwiseOrResultLength (length (bigint_digits x)) (length (bigint_digits y))
      in case ToHandleChecked (MutableBigInt_New result_length) of Inl e \<Rightarrow> Inl e
         | Inr result \<Rightarrow>
             MakeImmutable (
             if \<not> x_sign \<and> \<not> y_sign
             then Inr (set_digits (BitwiseOr_PosPos result_length (bigint_digits x) (bigint_digits y)) result)
             else if x_sign \<and> y_sign
             then case from_library (BitwiseOr_NegNeg result_length (bigint_digits x) (bigint_digits y)) of Inl e \<Rightarrow> Inl e
                  | Inr Z \<Rightarrow> Inr (set_sign True (set_digits Z result))
             else case (if x_sign then (y, x) else (x, y)) of (x, y) \<Rightarrow>
                  case from_library (BitwiseOr_PosNeg result_length (bigint_digits x) (bigint_digits y)) of Inl e \<Rightarrow> Inl e
                  | Inr Z \<Rightarrow> Inr (set_sign True (set_digits Z result))))"

section \<open>Shifts\<close>

definition ToShiftAmount :: "bigint \<Rightarrow> digit option" where
  "ToShiftAmount x =
     (if length (bigint_digits x) > 1 then None
      else let v = bigint_digits x ! 0 in if unat v > kMaxLengthBits then None else Some v)"

definition RightShiftByMaximum :: "bool \<Rightarrow> bigint" where
  "RightShiftByMaximum sign = (if sign then NewFromInt (- 1) else BigInt_Zero)"

definition LeftShiftByAbsolute :: "bigint \<Rightarrow> bigint \<Rightarrow> bigint_result" where
  "LeftShiftByAbsolute x y =
     (case ToShiftAmount y of None \<Rightarrow> Inl kBigIntTooBig
      | Some shift \<Rightarrow>
          let X = bigint_digits x; result_length = LeftShift_ResultLength (length X) (X ! (length X - 1)) shift
          in if result_length > kMaxLength then Inl kBigIntTooBig
             else case MutableBigInt_New result_length of Inl e \<Rightarrow> Inl e
                  | Inr result \<Rightarrow>
                      MakeImmutable (Inr (set_sign (bigint_sign x) (set_digits (LeftShift_by result_length X shift) result))))"

definition RightShiftByAbsolute :: "bigint \<Rightarrow> bigint \<Rightarrow> bigint_result" where
  "RightShiftByAbsolute x y =
     (let sign = bigint_sign x
      in case ToShiftAmount y of None \<Rightarrow> Inr (RightShiftByMaximum sign)
         | Some shift \<Rightarrow>
             case RightShift_ResultLength (bigint_digits x) sign shift of (result_length, must_round_down) \<Rightarrow>
               if result_length \<le> 0 then Inr (RightShiftByMaximum sign)
               else case ToHandleChecked (MutableBigInt_New result_length) of Inl e \<Rightarrow> Inl e
                    | Inr result \<Rightarrow>
                        case from_library (RightShift_by result_length (bigint_digits x) shift must_round_down) of Inl e \<Rightarrow> Inl e
                        | Inr Z \<Rightarrow>
                            let result = set_digits Z result
                            in MakeImmutable (Inr (if sign then set_sign True result else result)))"

definition BigInt_LeftShift :: "bigint \<Rightarrow> bigint \<Rightarrow> bigint_result" where
  "BigInt_LeftShift x y =
     (if is_zero y \<or> is_zero x then Inr x
      else if bigint_sign y then RightShiftByAbsolute x y
      else LeftShiftByAbsolute x y)"

definition BigInt_SignedRightShift :: "bigint \<Rightarrow> bigint \<Rightarrow> bigint_result" where
  "BigInt_SignedRightShift x y =
     (if is_zero y \<or> is_zero x then Inr x
      else if bigint_sign y then LeftShiftByAbsolute x y
      else RightShiftByAbsolute x y)"

definition BigInt_UnsignedRightShift :: "bigint \<Rightarrow> bigint \<Rightarrow> bigint_result" where
  "BigInt_UnsignedRightShift x y = Inl kBigIntShr"

section \<open>The numbers BigInts stand for\<close>

definition bigint_wf :: "bigint \<Rightarrow> bool" where
  "bigint_wf x \<longleftrightarrow> IsDigitNormalized (bigint_digits x) \<and> length (bigint_digits x) \<le> kMaxLength \<and>
     (bigint_digits x = [] \<longrightarrow> \<not> bigint_sign x)"

definition bigint_value :: "bigint \<Rightarrow> int" where
  "bigint_value x = signed_value (bigint_sign x) (bigint_digits x)"

text \<open>The contract of an operation: it delivers a well-formed BigInt for a number, or throws that the
  BigInt would be too big, which may happen under a condition only.\<close>

definition computes :: "bool \<Rightarrow> bigint_result \<Rightarrow> int \<Rightarrow> bool" where
  "computes big r v \<longleftrightarrow>
     (case r of Inr z \<Rightarrow> bigint_wf z \<and> bigint_value z = v | Inl e \<Rightarrow> e = kBigIntTooBig \<and> big)"

text \<open>The smallest magnitude that needs all digits an object may have.\<close>

definition near_limit :: "int \<Rightarrow> bool" where
  "near_limit v \<longleftrightarrow> int digit_base ^ (kMaxLength - 1) \<le> \<bar>v\<bar>"

lemma computes_Inr [simp]: "computes big (Inr z) v \<longleftrightarrow> bigint_wf z \<and> bigint_value z = v"
  by (simp add: computes_def)

lemma computes_Inl [simp]: "computes big (Inl e) v \<longleftrightarrow> e = kBigIntTooBig \<and> big"
  by (simp add: computes_def)

lemma computes_mono: "computes big r v \<Longrightarrow> (big \<Longrightarrow> big') \<Longrightarrow> computes big' r v"
  by (auto simp: computes_def split: sum.splits)

lemma Normalize_same: "length (Normalize X) = length X \<Longrightarrow> Normalize X = X"
  using Normalize_spec [of X] by (metis append_Nil2 append_eq_conv_conj length_0_conv length_append nat_add_left_cancel_less
      add_cancel_left_right)

lemma Canonicalize_spec:
  assumes "length (bigint_digits r) \<le> kMaxLength" and "bigint_digits r = [] \<Longrightarrow> \<not> bigint_sign r"
  shows "bigint_wf (Canonicalize r)" and "bigint_value (Canonicalize r) = bigint_value r"
proof -
  note N = Normalize_normal [of "bigint_digits r"] Normalize_length [of "bigint_digits r"] Normalize_value [of "bigint_digits r"]
  show "bigint_wf (Canonicalize r)"
  proof (cases "length (Normalize (bigint_digits r)) = length (bigint_digits r)")
    case True
    with N(1) Normalize_same [OF this] assms show ?thesis by (simp add: Canonicalize_def bigint_wf_def)
  next
    case False
    then show ?thesis using assms N by (auto simp: Canonicalize_def bigint_wf_def Let_def)
  qed
  have "Normalize (bigint_digits r) = [] \<Longrightarrow> digits_value (bigint_digits r) = 0" using N(3) by (metis digits_value.simps(1))
  then show "bigint_value (Canonicalize r) = bigint_value r"
    by (auto simp: Canonicalize_def bigint_value_def signed_value_if Let_def)
qed

lemma zero_spec [simp]: "bigint_wf BigInt_Zero" "bigint_value BigInt_Zero = 0"
  unfolding BigInt_Zero_def
  using Canonicalize_spec [of "\<lparr> bigint_sign = False, bigint_digits = [] \<rparr>"] by (simp_all add: bigint_value_def signed_value_if)

lemma MakeImmutable_computes:
  assumes "length (bigint_digits r) \<le> kMaxLength" and "bigint_digits r = [] \<Longrightarrow> \<not> bigint_sign r" and "bigint_value r = v"
  shows "computes big (MakeImmutable (Inr r)) v"
  using Canonicalize_spec [OF assms(1,2)] assms(3) by (simp add: MakeImmutable_def)

text \<open>The pattern of all operations: allocate, fill, set the sign, make canonical.\<close>

lemma allocate_computes:
  assumes "len > kMaxLength \<Longrightarrow> big"
    and "len \<le> kMaxLength \<Longrightarrow> length Z = len \<and> signed_value sign Z = v \<and> (len = 0 \<longrightarrow> \<not> sign)"
  shows "computes big (case MutableBigInt_New len of Inl e \<Rightarrow> Inl e
    | Inr result \<Rightarrow> MakeImmutable (Inr (set_sign sign (set_digits Z result)))) v"
proof (cases "len > kMaxLength")
  case False
  then have "length Z = len \<and> signed_value sign Z = v \<and> (len = 0 \<longrightarrow> \<not> sign)" using assms(2) by simp
  with False show ?thesis by (auto simp: MutableBigInt_New_def bigint_value_def intro!: MakeImmutable_computes)
qed (use assms(1) in \<open>simp add: MutableBigInt_New_def\<close>)

lemma wf_nonzero:
  assumes "bigint_wf x" and "bigint_digits x \<noteq> []"
  shows "digit_base ^ (length (bigint_digits x) - 1) \<le> digits_value (bigint_digits x)" and "0 < digits_value (bigint_digits x)"
    and "length (bigint_digits x) \<le> kMaxLength"
proof -
  show "digit_base ^ (length (bigint_digits x) - 1) \<le> digits_value (bigint_digits x)"
    using assms normal_lower by (simp add: bigint_wf_def)
  moreover have "0 < digit_base ^ (length (bigint_digits x) - 1)" by (simp add: digit_base_def)
  ultimately show "0 < digits_value (bigint_digits x)" by linarith
  show "length (bigint_digits x) \<le> kMaxLength" using assms(1) by (simp add: bigint_wf_def)
qed

lemma value_abs: "\<bar>bigint_value x\<bar> = ivalue (bigint_digits x)"
  by (simp add: bigint_value_def signed_value_if)

lemma value_zero: "bigint_wf x \<Longrightarrow> bigint_value x = 0 \<longleftrightarrow> bigint_digits x = []"
  using wf_nonzero(2) [of x] by (cases "bigint_digits x = []") (auto simp: bigint_value_def signed_value_if)

lemma value_negative: "bigint_wf x \<Longrightarrow> bigint_value x < 0 \<longleftrightarrow> bigint_sign x"
  using wf_nonzero(2) [of x] by (cases "bigint_digits x = []") (auto simp: bigint_value_def signed_value_if bigint_wf_def)

lemma near_limit_length:
  assumes "bigint_wf x" and "length (bigint_digits x) \<ge> kMaxLength" and "\<bar>bigint_value x\<bar> \<le> \<bar>v\<bar>"
  shows "near_limit v"
proof -
  have "bigint_digits x \<noteq> []" using assms(2) by auto
  then have "digit_base ^ (kMaxLength - 1) \<le> digits_value (bigint_digits x)"
    using wf_nonzero [OF assms(1)] assms(2) by (metis le_antisym)
  then have "int (digit_base ^ (kMaxLength - 1)) \<le> \<bar>v\<bar>" using assms(3) unfolding value_abs by linarith
  then show ?thesis unfolding near_limit_def of_nat_power .
qed

section \<open>Arithmetic is exact\<close>

lemma checked_New: "len \<le> kMaxLength \<Longrightarrow> ToHandleChecked (MutableBigInt_New len) = MutableBigInt_New len"
  by (simp add: ToHandleChecked_def MutableBigInt_New_def)

lemma UnaryMinus_spec:
  assumes "bigint_wf x"
  shows "computes False (UnaryMinus x) (- bigint_value x)"
proof (cases "bigint_digits x = []")
  case True
  then show ?thesis using assms by (simp add: UnaryMinus_def bigint_value_def signed_value_if)
next
  case False
  have l: "length (bigint_digits x) \<le> kMaxLength" using assms by (simp add: bigint_wf_def)
  have "UnaryMinus x = MakeImmutable (Inr \<lparr> bigint_sign = \<not> bigint_sign x, bigint_digits = bigint_digits x \<rparr>)"
    using False l by (simp add: UnaryMinus_def MutableBigInt_Copy_def ToHandleChecked_def MutableBigInt_New_def)
  then show ?thesis using False l by (auto simp: bigint_value_def signed_value_if intro!: MakeImmutable_computes)
qed

lemma BigInt_Add_spec:
  assumes "bigint_wf x" and "bigint_wf y"
  shows "computes (near_limit (bigint_value x + bigint_value y)) (BigInt_Add x y) (bigint_value x + bigint_value y)"
proof (cases "bigint_digits x = [] \<or> bigint_digits y = []")
  case True
  then show ?thesis using assms by (auto simp: BigInt_Add_def bigint_value_def signed_value_if)
next
  case False
  let ?X = "bigint_digits x" and ?Y = "bigint_digits y" and ?s = "bigint_sign x = bigint_sign y"
  let ?len = "AddSignedResultLength (length ?X) (length ?Y) ?s"
  obtain Z neg where Z: "AddSigned ?len ?X (bigint_sign x) ?Y (bigint_sign y) = (Z, neg)" by (rule prod.exhaust)
  have S: "length Z = ?len" "signed_value neg Z = bigint_value x + bigint_value y"
    using signed_sums_exact [of ?X ?Y "bigint_sign x" "bigint_sign y" 0] Z by (simp_all add: bigint_value_def)
  have "near_limit (bigint_value x + bigint_value y)" if "?len > kMaxLength"
  proof -
    have l: "?s" "length ?X \<ge> kMaxLength \<or> length ?Y \<ge> kMaxLength"
      using that assms by (auto simp: AddSignedResultLength_def AddResultLength_def bigint_wf_def split: if_splits)
    then have "\<bar>bigint_value x\<bar> \<le> \<bar>bigint_value x + bigint_value y\<bar>" "\<bar>bigint_value y\<bar> \<le> \<bar>bigint_value x + bigint_value y\<bar>"
      by (auto simp: bigint_value_def signed_value_if)
    then show ?thesis using near_limit_length assms l(2) by blast
  qed
  moreover have "0 < ?len" using False by (auto simp: AddSignedResultLength_def AddResultLength_def less_max_iff_disj)
  moreover have "BigInt_Add x y = (case MutableBigInt_New ?len of Inl e \<Rightarrow> Inl e
    | Inr result \<Rightarrow> MakeImmutable (Inr (set_sign neg (set_digits Z result))))"
    using False by (simp add: BigInt_Add_def Let_def Z split: sum.splits)
  ultimately show ?thesis using S by (simp only:) (intro allocate_computes, auto)
qed

lemma BigInt_Subtract_spec:
  assumes "bigint_wf x" and "bigint_wf y"
  shows "computes (near_limit (bigint_value x - bigint_value y)) (BigInt_Subtract x y) (bigint_value x - bigint_value y)"
proof (cases "bigint_digits x = [] \<or> bigint_digits y = []")
  case True
  then show ?thesis using assms computes_mono [OF UnaryMinus_spec [OF assms(2)]]
    by (auto simp: BigInt_Subtract_def bigint_value_def signed_value_if)
next
  case False
  let ?X = "bigint_digits x" and ?Y = "bigint_digits y" and ?s = "bigint_sign x = bigint_sign y"
  let ?len = "SubtractSignedResultLength (length ?X) (length ?Y) ?s"
  obtain Z neg where Z: "SubtractSigned ?len ?X (bigint_sign x) ?Y (bigint_sign y) = (Z, neg)" by (rule prod.exhaust)
  have S: "length Z = ?len" "signed_value neg Z = bigint_value x - bigint_value y"
    using signed_sums_exact [of ?X ?Y "bigint_sign x" "bigint_sign y" 0] Z by (simp_all add: bigint_value_def)
  have "near_limit (bigint_value x - bigint_value y)" if "?len > kMaxLength"
  proof -
    have l: "\<not> ?s" "length ?X \<ge> kMaxLength \<or> length ?Y \<ge> kMaxLength"
      using that assms by (auto simp: SubtractSignedResultLength_def AddResultLength_def bigint_wf_def split: if_splits)
    then have "\<bar>bigint_value x\<bar> \<le> \<bar>bigint_value x - bigint_value y\<bar>" "\<bar>bigint_value y\<bar> \<le> \<bar>bigint_value x - bigint_value y\<bar>"
      by (auto simp: bigint_value_def signed_value_if)
    then show ?thesis using near_limit_length assms l(2) by blast
  qed
  moreover have "0 < ?len" using False by (auto simp: SubtractSignedResultLength_def AddResultLength_def less_max_iff_disj)
  moreover have "BigInt_Subtract x y = (case MutableBigInt_New ?len of Inl e \<Rightarrow> Inl e
    | Inr result \<Rightarrow> MakeImmutable (Inr (set_sign neg (set_digits Z result))))"
    using False by (simp add: BigInt_Subtract_def Let_def Z split: sum.splits)
  ultimately show ?thesis using S by (simp only:) (intro allocate_computes, auto)
qed

text \<open>A product that needs more digits than there may be is near the limit.\<close>

lemma near_limit_product:
  assumes "bigint_wf x" and "bigint_wf y" and "bigint_digits x \<noteq> []" and "bigint_digits y \<noteq> []"
    and "length (bigint_digits x) + length (bigint_digits y) > kMaxLength"
  shows "near_limit (bigint_value x * bigint_value y)"
proof -
  let ?m = "length (bigint_digits x)" and ?n = "length (bigint_digits y)"
  have "kMaxLength - 1 \<le> (?m - 1) + (?n - 1)" using assms(3-5) by (cases "bigint_digits x"; cases "bigint_digits y") simp_all
  then have "digit_base ^ (kMaxLength - 1) \<le> digit_base ^ ((?m - 1) + (?n - 1))"
    by (rule power_increasing) (simp add: digit_base_def)
  also have "\<dots> \<le> digits_value (bigint_digits x) * digits_value (bigint_digits y)"
    unfolding power_add using assms by (intro mult_mono wf_nonzero) simp_all
  finally have "int (digit_base ^ (kMaxLength - 1)) \<le> \<bar>bigint_value x * bigint_value y\<bar>"
    unfolding abs_mult value_abs of_nat_mult [symmetric] of_nat_le_iff .
  then show ?thesis unfolding near_limit_def of_nat_power .
qed

lemma BigInt_Multiply_spec:
  assumes "bigint_wf x" and "bigint_wf y"
  shows "computes (near_limit (bigint_value x * bigint_value y)) (BigInt_Multiply x y) (bigint_value x * bigint_value y)"
proof (cases "bigint_digits x = [] \<or> bigint_digits y = []")
  case True
  then show ?thesis using assms by (auto simp: BigInt_Multiply_def bigint_value_def signed_value_if)
next
  case False
  let ?X = "bigint_digits x" and ?Y = "bigint_digits y"
  let ?len = "MultiplyResultLength ?X ?Y" and ?v = "bigint_value x * bigint_value y"
  have e: "BigInt_Multiply x y = (case MutableBigInt_New ?len of Inl e \<Rightarrow> Inl e
    | Inr result \<Rightarrow> MakeImmutable (Inr (set_sign (bigint_sign x \<noteq> bigint_sign y) (set_digits (Multiply (replicate ?len 0) ?X ?Y) result))))"
    using False by (simp add: BigInt_Multiply_def MutableBigInt_New_def Let_def)
  have "?len < 2 ^ 30" using assms by (simp add: bigint_wf_def MultiplyResultLength_def)
  then have M: "length (Multiply (replicate ?len 0) ?X ?Y) = ?len"
    "digits_value (Multiply (replicate ?len 0) ?X ?Y) = digits_value ?X * digits_value ?Y"
    using Multiply_spec [of ?X ?Y "replicate ?len 0"] by (simp_all add: MultiplyResultLength_def)
  then have "signed_value (bigint_sign x \<noteq> bigint_sign y) (Multiply (replicate ?len 0) ?X ?Y) = ?v"
    by (auto simp: bigint_value_def signed_value_if)
  moreover have "0 < ?len" using False by (simp add: MultiplyResultLength_def)
  moreover have "near_limit ?v" if "?len > kMaxLength"
    using near_limit_product [OF assms] that False by (simp add: MultiplyResultLength_def)
  ultimately show ?thesis unfolding e using M(1) by (intro allocate_computes) simp_all
qed

text \<open>Adding one to, and subtracting one from, the magnitude.\<close>

lemma all_ones:
  "list_all digit_ismax X \<longleftrightarrow> digits_value X + 1 = digit_base ^ length X"
proof (induction X)
  case (Cons d X)
  have "digits_value (d # X) + 1 = digit_base ^ length (d # X) \<longleftrightarrow>
      unat d + 1 + digit_base * digits_value X = digit_base * digit_base ^ length X" by simp
  also have "\<dots> \<longleftrightarrow> unat d = digit_base - 1 \<and> digits_value X + 1 = digit_base ^ length X"
  proof
    assume a: "unat d + 1 + digit_base * digits_value X = digit_base * digit_base ^ length X"
    have "unat d + 1 \<le> digit_base" using unat_digit [of d] by simp
    then have "digit_base * digit_base ^ length X \<le> digit_base * (digits_value X + 1)" using a by simp
    then have "digit_base ^ length X \<le> digits_value X + 1" by (simp add: digit_base_def)
    then have e: "digits_value X + 1 = digit_base ^ length X" using value_less [of X] by simp
    moreover have "digit_base * (digits_value X + 1) = digit_base + digit_base * digits_value X" by (simp add: algebra_simps)
    ultimately show "unat d = digit_base - 1 \<and> digits_value X + 1 = digit_base ^ length X" using a by simp
  next
    assume "unat d = digit_base - 1 \<and> digits_value X + 1 = digit_base ^ length X"
    then have "unat d + 1 = digit_base" and e: "digit_base ^ length X = digits_value X + 1" by (simp_all add: digit_base_def)
    then show "unat d + 1 + digit_base * digits_value X = digit_base * digit_base ^ length X" unfolding e by simp
  qed
  also have "\<dots> \<longleftrightarrow> list_all digit_ismax (d # X)" using Cons.IH ismax_iff [of d] by simp
  finally show ?case by simp
qed simp

lemma AddOne_fits:
  assumes "\<not> list_all digit_ismax X"
  shows "length (AddOne (length X) X) = length X" and "digits_value (AddOne (length X) X) = digits_value X + 1"
proof -
  obtain Z c where 1: "add2_until X 1 = (Z, c)" by (rule prod.exhaust)
  have A: "length Z = length X" "digits_value Z + digit_base ^ length X * unat c = digits_value X + 1"
    using add2_until_loop [OF 1] by simp_all
  have "digits_value X + 1 < digit_base ^ length X" using assms value_less [of X] unfolding all_ones by linarith
  then have "digit_base ^ length X * unat c < digit_base ^ length X * 1" using A(2) by linarith
  then have "c = 0" by (simp add: unat_eq_zero)
  with A show "length (AddOne (length X) X) = length X" "digits_value (AddOne (length X) X) = digits_value X + 1"
    by (simp_all add: AddOne_def 1)
qed

lemma AbsoluteAddOne_spec:
  assumes "bigint_wf x"
  shows "computes (near_limit (bigint_value x))
    (MakeImmutable (AbsoluteAddOne x sign)) (if sign then - (\<bar>bigint_value x\<bar> + 1) else \<bar>bigint_value x\<bar> + 1)"
proof -
  let ?X = "bigint_digits x"
  let ?o = "list_all digit_ismax ?X"
  let ?len = "length ?X + (if ?o then 1 else 0)"
  define Z where "Z = (if length ?X = 0 then [1] else if length ?X = 1 \<and> \<not> ?o then [?X ! 0 + 1] else AddOne ?len ?X)"
  have Z: "length Z = ?len" "digits_value Z = digits_value ?X + 1"
  proof -
    have "length Z = ?len \<and> digits_value Z = digits_value ?X + 1"
    proof (cases "length ?X = 1 \<and> \<not> ?o")
      case True
      then obtain d where d: "?X = [d]" by (metis One_nat_def length_0_conv length_Suc_conv)
      then have "unat d + 1 < digit_base" using True all_ones [of "[d]"] unat_digit [of d] by simp
      then show ?thesis using d True unat_digit_add [of d 1] by (simp add: Z_def)
    next
      case False
      then show ?thesis using AddOne_spec [of ?X ?len] AddOne_fits [of ?X] by (cases "?X = []"; cases ?o) (auto simp: Z_def)
    qed
    then show "length Z = ?len" "digits_value Z = digits_value ?X + 1" by simp_all
  qed
  have "near_limit (bigint_value x)" if "?len > kMaxLength"
    using that assms by (intro near_limit_length [of x]) (simp_all add: bigint_wf_def split: if_splits)
  moreover have "MakeImmutable (AbsoluteAddOne x sign) = (case MutableBigInt_New ?len of Inl e \<Rightarrow> Inl e
    | Inr result \<Rightarrow> MakeImmutable (Inr (set_sign sign (set_digits Z result))))"
    by (simp add: AbsoluteAddOne_def Let_def Z_def MakeImmutable_def split: sum.splits)
  moreover have "0 < ?len" by simp
  ultimately show ?thesis using Z by (simp only:) (intro allocate_computes, simp_all add: value_abs signed_value_if)
qed

lemma AbsoluteSubOne_spec:
  assumes "bigint_wf x" and "bigint_digits x \<noteq> []"
  shows "\<exists>Z. AbsoluteSubOne x = Inr \<lparr> bigint_sign = False, bigint_digits = Z \<rparr> \<and> length Z = length (bigint_digits x) \<and>
    ivalue Z = \<bar>bigint_value x\<bar> - 1"
proof -
  let ?X = "bigint_digits x"
  note w = wf_nonzero [OF assms]
  have n: "ToHandleChecked (MutableBigInt_New (length ?X)) = Inr \<lparr> bigint_sign = False, bigint_digits = replicate (length ?X) 0 \<rparr>"
    using w(3) by (simp add: ToHandleChecked_def MutableBigInt_New_def)
  obtain Z where "SubtractOne (length ?X) ?X = Some Z" "length Z = length ?X" "digits_value Z = digits_value ?X - 1"
    using SubtractOne_spec [OF w(2), of "length ?X"] by auto
  moreover have "digits_value [?X ! 0 - 1] = digits_value ?X - 1" if one: "length ?X = 1"
  proof -
    obtain d where d: "?X = [d]" using one by (metis One_nat_def length_0_conv length_Suc_conv)
    then have "d \<noteq> 0" using w(2) by (auto simp: unat_gt_0)
    with d show ?thesis by (simp add: unat_dec)
  qed
  moreover have "AbsoluteSubOne x = (if length ?X = 1 then Inr \<lparr> bigint_sign = False, bigint_digits = [?X ! 0 - 1] \<rparr>
    else case from_library (SubtractOne (length ?X) ?X) of Inl e \<Rightarrow> Inl e | Inr Z \<Rightarrow> Inr \<lparr> bigint_sign = False, bigint_digits = Z \<rparr>)"
    unfolding AbsoluteSubOne_def Let_def n by (simp split: sum.splits)
  ultimately show ?thesis
    using w(2) by (cases "length ?X = 1") (auto simp: from_library_def value_abs)
qed

lemma NewFromInt_small: "bigint_wf (NewFromInt 1)" "bigint_value (NewFromInt 1) = 1"
  "bigint_wf (NewFromInt (- 1))" "bigint_value (NewFromInt (- 1)) = - 1"
proof -
  have e: "NewFromInt 1 = Canonicalize \<lparr> bigint_sign = False, bigint_digits = [1] \<rparr>"
    "NewFromInt (- 1) = Canonicalize \<lparr> bigint_sign = True, bigint_digits = [1] \<rparr>"
    by (simp_all add: NewFromInt_def)
  show "bigint_wf (NewFromInt 1)" "bigint_value (NewFromInt 1) = 1" "bigint_wf (NewFromInt (- 1))" "bigint_value (NewFromInt (- 1)) = - 1"
    unfolding e using Canonicalize_spec [of "\<lparr> bigint_sign = False, bigint_digits = [1] \<rparr>"]
      Canonicalize_spec [of "\<lparr> bigint_sign = True, bigint_digits = [1] \<rparr>"] by (simp_all add: bigint_value_def signed_value_if)
qed

lemma SubOne_computes:
  assumes "bigint_wf x" and "bigint_digits x \<noteq> []" and "AbsoluteSubOne x = Inr r"
  shows "computes big (MakeImmutable (Inr r)) (\<bar>bigint_value x\<bar> - 1)"
    and "computes big (MakeImmutable (Inr (set_sign True r))) (1 - \<bar>bigint_value x\<bar>)"
  using AbsoluteSubOne_spec [OF assms(1,2)] assms wf_nonzero(3) [OF assms(1,2)]
  by (auto simp: bigint_value_def signed_value_if intro!: MakeImmutable_computes)

lemma unary_spec:
  assumes "bigint_wf x"
  shows "computes (near_limit (bigint_value x)) (BitwiseNot x) (NOT (bigint_value x))"
    and "computes (near_limit (bigint_value x)) (Increment x) (bigint_value x + 1)"
    and "computes (near_limit (bigint_value x)) (Decrement x) (bigint_value x - 1)"
proof -
  note A = AbsoluteAddOne_spec [OF assms]
  have v: "bigint_value x = (if bigint_sign x then - \<bar>bigint_value x\<bar> else \<bar>bigint_value x\<bar>)"
    by (simp add: bigint_value_def signed_value_if)
  have S: "\<exists>r. AbsoluteSubOne x = Inr r \<and> computes (near_limit (bigint_value x)) (MakeImmutable (Inr r)) (\<bar>bigint_value x\<bar> - 1) \<and>
      computes (near_limit (bigint_value x)) (MakeImmutable (Inr (set_sign True r))) (1 - \<bar>bigint_value x\<bar>)"
    if "bigint_digits x \<noteq> []"
    using AbsoluteSubOne_spec [OF assms that] SubOne_computes [OF assms that] by blast
  have n: "bigint_sign x \<Longrightarrow> bigint_digits x \<noteq> []" using assms by (auto simp: bigint_wf_def)
  show "computes (near_limit (bigint_value x)) (BitwiseNot x) (NOT (bigint_value x))"
  proof (cases "bigint_sign x")
    case True
    then have "\<bar>bigint_value x\<bar> - 1 = NOT (bigint_value x)" using v by (simp add: not_int_def)
    with S n True show ?thesis by (auto simp: BitwiseNot_def)
  next
    case False
    then have "- (\<bar>bigint_value x\<bar> + 1) = NOT (bigint_value x)" using v by (simp add: not_int_def)
    with A [of True] False show ?thesis by (simp add: BitwiseNot_def)
  qed
  show "computes (near_limit (bigint_value x)) (Increment x) (bigint_value x + 1)"
    using A [of False] S n v by (cases "bigint_sign x") (auto simp: Increment_def algebra_simps)
  show "computes (near_limit (bigint_value x)) (Decrement x) (bigint_value x - 1)"
  proof (cases "bigint_sign x")
    case True
    then have "- (\<bar>bigint_value x\<bar> + 1) = bigint_value x - 1" using v by simp
    with A [of True] True show ?thesis by (simp add: Decrement_def)
  next
    case False
    then show ?thesis using S v NewFromInt_small value_zero [OF assms]
      by (cases "bigint_digits x = []") (auto simp: Decrement_def)
  qed
qed

section \<open>Division\<close>

lemma Compare_less_value: "Compare X Y < 0 \<longleftrightarrow> digits_value X < digits_value Y"
  using Compare_less by simp

lemma value_one: "length Y = 1 \<Longrightarrow> Y ! 0 = 1 \<Longrightarrow> digits_value Y = 1"
  by (cases Y) simp_all

lemma normal_Normalize: "IsDigitNormalized X \<Longrightarrow> Normalize X = X"
  by (auto simp: Normalize.simps [of X] IsDigitNormalized_def)

lemma sign_value: "bigint_value x = (if bigint_sign x then - 1 else 1) * ivalue (bigint_digits x)"
  by (simp add: bigint_value_def signed_value_if)

lemma sdiv_magnitudes: "(if s then - 1 else 1) * int a sdiv ((if t then - 1 else 1) * int b) = (if s \<noteq> t then - 1 else 1) * int (a div b)"
  by (auto simp: signed_divide_int_def zdiv_int sgn_if)

lemma smod_magnitudes: "(if s then - 1 else 1) * int a smod ((if t then - 1 else 1) * int b) = (if s then - 1 else 1) * int (a mod b)"
  by (auto simp: signed_modulo_int_def zmod_int sgn_if)

lemma BigInt_Divide_spec:
  assumes "bigint_wf x" and "bigint_wf y" and "bigint_digits y \<noteq> []"
  shows "computes False (BigInt_Divide x y) (bigint_value x sdiv bigint_value y)"
proof -
  let ?X = "bigint_digits x" and ?Y = "bigint_digits y" and ?s = "bigint_sign x \<noteq> bigint_sign y"
  have v: "bigint_value x sdiv bigint_value y = (if ?s then - 1 else 1) * int (digits_value ?X div digits_value ?Y)"
    unfolding sign_value by (rule sdiv_magnitudes)
  consider "digits_value ?X < digits_value ?Y" | "digits_value ?Y \<le> digits_value ?X" "length ?Y = 1 \<and> ?Y ! 0 = 1"
    | "digits_value ?Y \<le> digits_value ?X" "\<not> (length ?Y = 1 \<and> ?Y ! 0 = 1)" by linarith
  then show ?thesis
  proof cases
    case 1
    then show ?thesis using assms(3) unfolding v by (simp add: BigInt_Divide_def Compare_less_value)
  next
    case 2
    then have "digits_value ?Y = 1" by (simp add: value_one)
    then have "bigint_value x sdiv bigint_value y = (if ?s = bigint_sign x then bigint_value x else - bigint_value x)"
      unfolding v by (auto simp: bigint_value_def signed_value_if)
    then show ?thesis using 2 assms UnaryMinus_spec [OF assms(1)] by (simp add: BigInt_Divide_def Compare_less_value)
  next
    case 3
    have n: "Normalize ?X = ?X" "Normalize ?Y = ?Y" using assms(1,2) by (simp_all add: bigint_wf_def normal_Normalize)
    let ?len = "DivideResultLength ?X ?Y"
    have X: "length ?X \<le> kMaxLength" using assms(1) by (simp add: bigint_wf_def)
    then obtain Q where Q: "Divide (replicate ?len 0) ?X ?Y = Some Q" "length Q = ?len" "digits_value Q = digits_value ?X div digits_value ?Y"
      using Divide_spec [of ?Y ?X "replicate ?len 0"] wf_nonzero(2) [OF assms(2,3)] n by auto
    have l: "?len \<le> kMaxLength" "0 < ?len" using X assms(3) by (cases ?Y; simp add: DivideResultLength_def)+
    have "computes False (case MutableBigInt_New ?len of Inl e \<Rightarrow> Inl e
      | Inr result \<Rightarrow> MakeImmutable (Inr (set_sign ?s (set_digits Q result)))) (bigint_value x sdiv bigint_value y)"
      unfolding v using l Q by (intro allocate_computes) (auto simp: signed_value_if)
    moreover have "BigInt_Divide x y = (case MutableBigInt_New ?len of Inl e \<Rightarrow> Inl e
      | Inr result \<Rightarrow> MakeImmutable (Inr (set_sign ?s (set_digits Q result))))"
      using 3 assms(3) l Q(1) by (auto simp: BigInt_Divide_def Compare_less_value MutableBigInt_New_def from_library_def Let_def)
    ultimately show ?thesis by simp
  qed
qed

lemma BigInt_Remainder_spec:
  assumes "bigint_wf x" and "bigint_wf y" and "bigint_digits y \<noteq> []"
  shows "computes False (BigInt_Remainder x y) (bigint_value x smod bigint_value y)"
proof -
  let ?X = "bigint_digits x" and ?Y = "bigint_digits y"
  have v: "bigint_value x smod bigint_value y = (if bigint_sign x then - 1 else 1) * int (digits_value ?X mod digits_value ?Y)"
    unfolding sign_value by (rule smod_magnitudes)
  consider "digits_value ?X < digits_value ?Y" | "digits_value ?Y \<le> digits_value ?X" "length ?Y = 1 \<and> ?Y ! 0 = 1"
    | "digits_value ?Y \<le> digits_value ?X" "\<not> (length ?Y = 1 \<and> ?Y ! 0 = 1)" by linarith
  then show ?thesis
  proof cases
    case 1
    then show ?thesis using assms unfolding v by (simp add: BigInt_Remainder_def Compare_less_value sign_value)
  next
    case 2
    then have "digits_value ?Y = 1" by (simp add: value_one)
    then show ?thesis using 2 assms(3) unfolding v by (simp add: BigInt_Remainder_def Compare_less_value)
  next
    case 3
    have n: "Normalize ?Y = ?Y" using assms(2) by (simp add: bigint_wf_def normal_Normalize)
    let ?len = "ModuloResultLength ?Y"
    have X: "length ?X \<le> kMaxLength" using assms(1) by (simp add: bigint_wf_def)
    then obtain R where R: "Modulo ?len ?X ?Y = Some R" "length R = ?len" "digits_value R = digits_value ?X mod digits_value ?Y"
      using Modulo_spec [of ?Y ?len ?X] wf_nonzero(2) [OF assms(2,3)] n 3(1) by auto
    have l: "?len \<le> kMaxLength" "0 < ?len" using wf_nonzero(3) [OF assms(2,3)] assms(3) by (simp_all add: ModuloResultLength_def)
    have "computes False (case MutableBigInt_New ?len of Inl e \<Rightarrow> Inl e
      | Inr result \<Rightarrow> MakeImmutable (Inr (set_sign (bigint_sign x) (set_digits R result)))) (bigint_value x smod bigint_value y)"
      unfolding v using l R by (intro allocate_computes) (auto simp: signed_value_if)
    moreover have "BigInt_Remainder x y = (case MutableBigInt_New ?len of Inl e \<Rightarrow> Inl e
      | Inr result \<Rightarrow> MakeImmutable (Inr (set_sign (bigint_sign x) (set_digits R result))))"
      using 3 assms(3) l R(1) by (auto simp: BigInt_Remainder_def Compare_less_value MutableBigInt_New_def from_library_def Let_def)
    ultimately show ?thesis by simp
  qed
qed

section \<open>Powers\<close>

lemma near_limit_mono: "near_limit u \<Longrightarrow> \<bar>u\<bar> \<le> \<bar>v\<bar> \<Longrightarrow> near_limit v"
  unfolding near_limit_def by linarith

lemma abs_le_times_power: "1 \<le> \<bar>b\<bar> \<Longrightarrow> \<bar>a :: int\<bar> \<le> \<bar>a * b ^ m\<bar>"
proof -
  assume "1 \<le> \<bar>b\<bar>"
  then have "1 \<le> \<bar>b\<bar> ^ m" by (rule one_le_power)
  then have "\<bar>a\<bar> * 1 \<le> \<bar>a\<bar> * \<bar>b\<bar> ^ m" by (rule mult_left_mono) simp
  then show ?thesis by (simp add: abs_mult power_abs)
qed

text \<open>What the loop still multiplies: the result so far and the remaining squares.\<close>

lemma Exponentiate_loop_spec:
  assumes "bigint_wf sq" and "1 \<le> \<bar>bigint_value sq\<bar>" and "\<And>r. result = Some r \<Longrightarrow> bigint_wf r \<and> bigint_value r = R"
    and "result = None \<Longrightarrow> R = 1 \<and> n \<noteq> 0" and "1 \<le> \<bar>R\<bar>"
  shows "computes (near_limit (R * bigint_value sq ^ (2 * n))) (Exponentiate_loop n result sq) (R * bigint_value sq ^ (2 * n))"
  using assms
proof (induction n result sq arbitrary: R rule: Exponentiate_loop.induct)
  case (1 n result sq)
  let ?q = "bigint_value sq * bigint_value sq" and ?v = "R * bigint_value sq ^ (2 * n)"
  have v: "?v = R * ?q ^ n" by (simp add: power_mult power2_eq_square)
  have q1: "1 \<le> \<bar>?q\<bar>" using "1.prems"(2) mult_mono [of 1 "\<bar>bigint_value sq\<bar>" 1 "\<bar>bigint_value sq\<bar>"] by (simp add: abs_mult)
  show ?case
  proof (cases "n = 0")
    case True
    then obtain r where "result = Some r" using "1.prems"(4) by auto
    with True "1.prems"(3) show ?thesis by (simp add: Exponentiate_loop.simps [of 0] from_library_def)
  next
    case False
    then have n: "n = Suc (n - 1)" by simp
    have vq: "?v = R * ?q * ?q ^ (n - 1)" unfolding v by (subst n) simp
    have le: "\<bar>R * ?q\<bar> \<le> \<bar>?v\<bar>" unfolding vq by (rule abs_le_times_power [OF q1])
    have "\<bar>?q\<bar> * 1 \<le> \<bar>?q\<bar> * \<bar>R\<bar>" using "1.prems"(5) by (rule mult_left_mono) simp
    then have le': "\<bar>?q\<bar> \<le> \<bar>?v\<bar>" using le by (simp add: abs_mult mult.commute)
    show ?thesis
    proof (cases "BigInt_Multiply sq sq")
      case (Inl e)
      then show ?thesis using BigInt_Multiply_spec [OF "1.prems"(1,1)] False near_limit_mono [OF _ le']
        by (simp add: Exponentiate_loop.simps [of n])
    next
      case (Inr s2)
      then have s2: "bigint_wf s2" "bigint_value s2 = ?q" using BigInt_Multiply_spec [OF "1.prems"(1,1)] by simp_all
      show ?thesis
      proof (cases "n mod 2 = 1")
        case even: False
        have "2 * (n div 2) = n" using even by presburger
        then have w: "?v = R * bigint_value s2 ^ (2 * (n div 2))" unfolding v s2(2) by simp
        have "result = None \<Longrightarrow> R = 1 \<and> n div 2 \<noteq> 0" using "1.prems"(4) even False by auto
        from "1.IH"(3) [OF False Inr even s2(1) _ "1.prems"(3) this "1.prems"(5), folded w] q1 s2(2)
        show ?thesis using even by (simp add: Exponentiate_loop.simps [of n] False Inr)
      next
        case odd: True
        have "2 * (n div 2) = n - 1" using odd by presburger
        then have w: "?v = R * ?q * bigint_value s2 ^ (2 * (n div 2))" unfolding vq s2(2) by simp
        have R1: "1 \<le> \<bar>R * ?q\<bar>" using q1 "1.prems"(5) mult_mono [of 1 "\<bar>R\<bar>" 1 "\<bar>?q\<bar>"] by (simp add: abs_mult)
        show ?thesis
        proof (cases result)
          case None
          then have "R * ?q = ?q" using "1.prems"(4) by simp
          with "1.IH"(1) [OF False Inr odd None s2(1), of "R * ?q", folded w] s2 q1 R1 show ?thesis
            by (simp add: Exponentiate_loop.simps [of n] False Inr odd None)
        next
          case (Some r)
          then have r: "bigint_wf r" "bigint_value r = R" using "1.prems"(3) by simp_all
          note M = BigInt_Multiply_spec [OF r(1) s2(1), unfolded r(2) s2(2)]
          show ?thesis
          proof (cases "BigInt_Multiply r s2")
            case (Inl e)
            then show ?thesis using M near_limit_mono [OF _ le]
              by (simp add: Exponentiate_loop.simps [of n] False Inr odd Some)
          next
            case r2: (Inr r2)
            with "1.IH"(2) [OF False Inr odd Some r2 s2(1), of "R * ?q", folded w] M s2 q1 R1 show ?thesis
              by (simp add: Exponentiate_loop.simps [of n] False Inr odd Some)
          qed
        qed
      qed
    qed
  qed
qed

lemma base_power_le: "64 * m \<le> e \<Longrightarrow> 2 \<le> \<bar>b\<bar> \<Longrightarrow> int digit_base ^ m \<le> \<bar>b ^ e\<bar>"
proof -
  assume m: "64 * m \<le> e" and b: "2 \<le> \<bar>b\<bar>"
  have "int digit_base ^ m = 2 ^ (64 * m)" by (simp add: digit_base_def power_mult)
  also have "\<dots> \<le> 2 ^ e" using m by (rule power_increasing) simp
  also have "\<dots> \<le> \<bar>b\<bar> ^ e" using b by (rule power_mono) simp
  finally show ?thesis by (simp add: power_abs)
qed

lemma near_limit_power: "kMaxLengthBits \<le> e \<Longrightarrow> 2 \<le> \<bar>b\<bar> \<Longrightarrow> near_limit (b ^ e)"
  unfolding near_limit_def by (rule base_power_le) simp_all

lemma even_value: "X \<noteq> [] \<Longrightarrow> even (digits_value X) \<longleftrightarrow> X ! 0 AND 1 = 0"
proof -
  have "unat (d AND 1) = unat d mod 2" for d :: digit using unat_below_bit [of d 1] by simp
  then have "d AND 1 = 0 \<longleftrightarrow> even (unat d)" for d :: digit by (metis dvd_eq_mod_eq_0 unat_eq_zero)
  moreover have "even digit_base" by (simp add: digit_base_def)
  ultimately show "X \<noteq> [] \<Longrightarrow> even (digits_value X) \<longleftrightarrow> X ! 0 AND 1 = 0" by (cases X) simp_all
qed

text \<open>The fast path for powers of two.\<close>

lemma power_of_two_digits:
  "digits_value ((replicate (1 + n div 64) 0)[1 + n div 64 - 1 := push_bit (n mod 64) 1]) = 2 ^ n"
proof -
  have "(replicate (1 + n div 64) 0)[1 + n div 64 - 1 := push_bit (n mod 64) 1] = replicate (n div 64) 0 @ [push_bit (n mod 64) (1 :: digit)]"
    by (simp add: list_update_append replicate_append_same [symmetric] del: replicate_append_same)
  then have "digits_value ((replicate (1 + n div 64) 0)[1 + n div 64 - 1 := push_bit (n mod 64) 1]) =
      digit_base ^ (n div 64) * unat (push_bit (n mod 64) 1 :: digit)" by (simp only: value_append) simp
  also have "unat (push_bit (n mod 64) 1 :: digit) = 2 ^ (n mod 64)" by (rule unat_bit) simp
  also have "digit_base ^ (n div 64) * 2 ^ (n mod 64) = 2 ^ n" unfolding base_power by simp
  finally show ?thesis .
qed

lemma Exponentiate_spec:
  assumes "bigint_wf b" and "bigint_wf e" and "\<not> bigint_sign e"
  shows "computes (near_limit (bigint_value b ^ nat (bigint_value e))) (Exponentiate b e) (bigint_value b ^ nat (bigint_value e))"
proof -
  let ?B = "bigint_digits b" and ?E = "bigint_digits e" and ?b = "bigint_value b"
  define m where "m = digits_value ?E"
  have ve: "nat (bigint_value e) = m" using assms(3) by (simp add: bigint_value_def signed_value_if m_def)
  consider "?E = []" | "?E \<noteq> []" "?B = []" | "?E \<noteq> []" "length ?B = 1 \<and> ?B ! 0 = 1"
    | "?E \<noteq> []" "?B \<noteq> []" "\<not> (length ?B = 1 \<and> ?B ! 0 = 1)" by blast
  then show ?thesis
  proof cases
    case 1
    then show ?thesis using assms(3) NewFromInt_small by (simp add: ve m_def Exponentiate_def)
  next
    case 2
    then have "0 < m" using wf_nonzero(2) [OF assms(2)] by (simp add: m_def)
    with 2 show ?thesis using assms value_zero [OF assms(1)] by (simp add: ve Exponentiate_def zero_power)
  next
    case 3
    then have "digits_value ?B = 1" "?B \<noteq> []" by (auto simp: value_one)
    moreover have "even m \<longleftrightarrow> ?E ! 0 AND 1 = 0" unfolding m_def using 3(1) by (rule even_value)
    ultimately have "?b ^ m = (if bigint_sign b \<and> ?E ! 0 AND 1 = 0 then - ?b else ?b)"
      by (auto simp: bigint_value_def signed_value_if)
    with 3 show ?thesis using assms \<open>?B \<noteq> []\<close> computes_mono [OF UnaryMinus_spec [OF assms(1)]]
      by (auto simp: ve Exponentiate_def)
  next
    case 4
    have b2: "2 \<le> \<bar>?b\<bar>"
    proof (rule ccontr)
      assume "\<not> 2 \<le> \<bar>?b\<bar>"
      then have "digits_value ?B = 1" using wf_nonzero(2) [OF assms(1) 4(2)] unfolding value_abs by linarith
      have "digit_base ^ (length ?B - 1) \<le> digits_value ?B" by (rule wf_nonzero [OF assms(1) 4(2)])
      then have "\<not> 0 < length ?B - 1"
        using \<open>digits_value ?B = 1\<close> self_le_power [of digit_base "length ?B - 1"] by (auto simp: digit_base_def)
      then have "length ?B = 1" using 4(2) by (cases ?B) simp_all
      with \<open>digits_value ?B = 1\<close> have "?B ! 0 = 1" by (cases ?B) (auto simp: word_unat_eq_iff)
      with 4(3) \<open>length ?B = 1\<close> show False by simp
    qed
    show ?thesis
    proof (cases "length ?E > 1")
      case True
      have "digit_base ^ 1 \<le> digit_base ^ (length ?E - 1)" using True by (intro power_increasing) (simp_all add: digit_base_def)
      then have "kMaxLengthBits \<le> m" using wf_nonzero(1) [OF assms(2) 4(1)] by (simp add: m_def digit_base_def)
      then show ?thesis using near_limit_power [OF _ b2] assms(3) 4 True by (auto simp: ve Exponentiate_def)
    next
      case False
      then obtain d where d: "?E = [d]" using 4(1) by (cases ?E; cases "tl ?E") auto
      then have m: "m = unat d" by (simp add: m_def)
      define D where "D = (replicate (1 + m div 64) 0)[1 + m div 64 - 1 := push_bit (m mod 64) (1 :: digit)]"
      have e: "Exponentiate b e = (if d = 1 then Inr b else if kMaxLengthBits \<le> m then Inl kBigIntTooBig
        else if length ?B = 1 \<and> ?B ! 0 = 2
        then case MutableBigInt_New (1 + m div 64) of Inl e \<Rightarrow> Inl e
          | Inr result \<Rightarrow> MakeImmutable (Inr (set_sign (bigint_sign b \<and> m mod 2 \<noteq> 0) (set_digits D result)))
        else Exponentiate_loop (m div 2) (if m mod 2 = 1 then Some b else None) b)"
        unfolding Exponentiate_def Let_def d m MutableBigInt_New_def D_def using assms(3) 4 by auto
      consider "d = 1" | "kMaxLengthBits \<le> m" "d \<noteq> 1" | "m < kMaxLengthBits" "d \<noteq> 1" "length ?B = 1 \<and> ?B ! 0 = 2"
        | "m < kMaxLengthBits" "d \<noteq> 1" "\<not> (length ?B = 1 \<and> ?B ! 0 = 2)" by linarith
      then show ?thesis
      proof cases
        case 1
        then show ?thesis using assms(1) by (simp add: e ve m)
      next
        case 2
        then show ?thesis using near_limit_power [OF _ b2] by (simp add: e ve)
      next
        case 3
        then have "digits_value ?B = 2" by (cases ?B) simp_all
        then have "?b ^ m = (if bigint_sign b \<and> m mod 2 \<noteq> 0 then - (2 ^ m) else 2 ^ m)"
          by (auto simp: bigint_value_def signed_value_if power_minus_odd odd_iff_mod_2_eq_one even_iff_mod_2_eq_zero)
        moreover have D: "length D = 1 + m div 64" "digits_value D = 2 ^ m" unfolding D_def power_of_two_digits by (simp_all only: length_list_update length_replicate)
        ultimately have "signed_value (bigint_sign b \<and> m mod 2 \<noteq> 0) D = ?b ^ m" by (auto simp: signed_value_if)
        then have "computes (near_limit (?b ^ m)) (case MutableBigInt_New (1 + m div 64) of Inl e \<Rightarrow> Inl e
          | Inr result \<Rightarrow> MakeImmutable (Inr (set_sign (bigint_sign b \<and> m mod 2 \<noteq> 0) (set_digits D result)))) (?b ^ m)"
          using D(1) 3(1) by (intro allocate_computes) auto
        with 3 show ?thesis unfolding e ve by simp
      next
        case 4
        have "0 < m" using wf_nonzero(2) [OF assms(2)] d by (simp add: m_def)
        moreover have "m \<noteq> 1" using 4(2) by (auto simp: m word_unat_eq_iff)
        ultimately have h: "m div 2 \<noteq> 0" by auto
        let ?R = "if m mod 2 = 1 then ?b else 1"
        have p: "?R * ?b ^ (2 * (m div 2)) = ?b ^ m"
        proof -
          have "?R = ?b ^ (m mod 2)" by (auto simp: mod2_eq_if)
          then show ?thesis by (simp flip: power_add)
        qed
        have "computes (near_limit (?b ^ m)) (Exponentiate_loop (m div 2) (if m mod 2 = 1 then Some b else None) b) (?b ^ m)"
          unfolding p [symmetric]
        proof (rule Exponentiate_loop_spec)
          show "bigint_wf b" "1 \<le> \<bar>?b\<bar>" using assms(1) b2 by simp_all
          show "1 \<le> \<bar>?R\<bar>" using b2 by simp
        qed (use assms(1) h in \<open>auto split: if_splits\<close>)
        then show ?thesis unfolding e ve using 4 by auto
      qed
    qed
  qed
qed

section \<open>Bitwise operations and shifts\<close>

text \<open>The same pattern for results the library may not be able to deliver.\<close>

lemma library_computes:
  assumes "len > kMaxLength \<Longrightarrow> big"
    and "len \<le> kMaxLength \<Longrightarrow> \<exists>Z. r = Some Z \<and> length Z = len \<and> signed_value sign Z = v \<and> (len = 0 \<longrightarrow> \<not> sign)"
  shows "computes big (MakeImmutable (case MutableBigInt_New len of Inl e \<Rightarrow> Inl e
    | Inr result \<Rightarrow> case from_library r of Inl e \<Rightarrow> Inl e | Inr Z \<Rightarrow> Inr (set_sign sign (set_digits Z result)))) v"
proof (cases "len > kMaxLength")
  case False
  then obtain Z where "r = Some Z" "length Z = len" "signed_value sign Z = v" "len = 0 \<longrightarrow> \<not> sign" using assms(2) by auto
  with False show ?thesis by (auto simp: MutableBigInt_New_def bigint_value_def from_library_def intro!: MakeImmutable_computes)
qed (use assms(1) in \<open>simp add: MutableBigInt_New_def MakeImmutable_def\<close>)

lemma fill_computes:
  assumes "len \<le> kMaxLength" and "length Z = len" and "ivalue Z = v"
  shows "computes big (MakeImmutable (case ToHandleChecked (MutableBigInt_New len) of Inl e \<Rightarrow> Inl e
    | Inr result \<Rightarrow> Inr (set_digits Z result))) v"
  using assms by (auto simp: ToHandleChecked_def MutableBigInt_New_def bigint_value_def signed_value_if intro!: MakeImmutable_computes)

text \<open>The magnitude of the conjunction of two negative numbers is at least theirs.\<close>

lemma or_upper: "0 \<le> (a :: int) \<Longrightarrow> 0 \<le> b \<Longrightarrow> a \<le> a OR b"
proof -
  assume "0 \<le> a" "0 \<le> b"
  have "a = (a OR b) AND a" by (rule bit_eqI) (auto simp: bit_simps)
  moreover have "(a OR b) AND a \<le> a OR b" using \<open>0 \<le> a\<close> \<open>0 \<le> b\<close> by simp
  ultimately show ?thesis by simp
qed

lemma wf_signs:
  assumes "bigint_wf x"
  shows "bigint_sign x \<Longrightarrow> bigint_digits x \<noteq> [] \<and> 0 < digits_value (bigint_digits x) \<and> bigint_value x = - ivalue (bigint_digits x)"
    and "\<not> bigint_sign x \<Longrightarrow> bigint_value x = ivalue (bigint_digits x)"
    and "length (bigint_digits x) \<le> kMaxLength"
  using assms wf_nonzero(2) [OF assms] by (auto simp: bigint_wf_def bigint_value_def signed_value_if)

lemma BigInt_BitwiseAnd_mixed:
  assumes "bigint_wf x" and "bigint_wf y" and "\<not> bigint_sign x" and "bigint_sign y"
  shows "computes False (BigInt_BitwiseAnd x y) (bigint_value x AND bigint_value y)"
    and "computes False (BigInt_BitwiseAnd y x) (bigint_value x AND bigint_value y)"
proof -
  note wx = wf_signs [OF assms(1)] and wy = wf_signs [OF assms(2)]
  let ?X = "bigint_digits x" and ?Y = "bigint_digits y"
  have "computes False (MakeImmutable (case ToHandleChecked (MutableBigInt_New (BitwiseAnd_PosNeg_ResultLength (length ?X))) of
      Inl e \<Rightarrow> Inl e | Inr result \<Rightarrow> Inr (set_digits (BitwiseAnd_PosNeg (BitwiseAnd_PosNeg_ResultLength (length ?X)) ?X ?Y) result)))
      (bigint_value x AND bigint_value y)"
    using And_PosNeg_spec [OF order_refl, of ?Y ?X] wx wy assms(3,4)
    by (intro fill_computes) (simp_all add: BitwiseAnd_PosNeg_ResultLength_def)
  then show "computes False (BigInt_BitwiseAnd x y) (bigint_value x AND bigint_value y)"
    "computes False (BigInt_BitwiseAnd y x) (bigint_value x AND bigint_value y)"
    using assms(3,4) by (simp_all add: BigInt_BitwiseAnd_def Let_def)
qed

lemma BigInt_BitwiseAnd_spec:
  assumes "bigint_wf x" and "bigint_wf y"
  shows "computes (near_limit (bigint_value x AND bigint_value y)) (BigInt_BitwiseAnd x y) (bigint_value x AND bigint_value y)"
proof -
  note wx = wf_signs [OF assms(1)] and wy = wf_signs [OF assms(2)]
  let ?X = "bigint_digits x" and ?Y = "bigint_digits y" and ?v = "bigint_value x AND bigint_value y"
  consider "\<not> bigint_sign x" "\<not> bigint_sign y" | "bigint_sign x" "bigint_sign y"
    | "\<not> bigint_sign x" "bigint_sign y" | "bigint_sign x" "\<not> bigint_sign y" by blast
  then show ?thesis
  proof cases
    case 1
    let ?len = "BitwiseAnd_PosPos_ResultLength (length ?X) (length ?Y)"
    have "computes (near_limit ?v) (MakeImmutable (case ToHandleChecked (MutableBigInt_New ?len) of
        Inl e \<Rightarrow> Inl e | Inr result \<Rightarrow> Inr (set_digits (BitwiseAnd_PosPos ?len ?X ?Y) result))) ?v"
      using And_PosPos_spec [OF order_refl, of ?X ?Y] wx wy 1
      by (intro fill_computes) (simp_all add: BitwiseAnd_PosPos_ResultLength_def)
    with 1 show ?thesis by (simp add: BigInt_BitwiseAnd_def Let_def)
  next
    case 2
    let ?len = "BitwiseAnd_NegNeg_ResultLength (length ?X) (length ?Y)"
    obtain Z where Z: "BitwiseAnd_NegNeg ?len ?X ?Y = Some Z" "length Z = ?len" "- ivalue Z = ?v"
      using And_NegNeg_spec [OF order_refl, of ?X ?Y] wx(1) wy(1) 2 by auto
    have "near_limit ?v" if "?len > kMaxLength"
    proof -
      have "?v = - (((ivalue ?X - 1) OR (ivalue ?Y - 1)) + 1)" using wx(1) wy(1) 2 by (simp add: neg_and_neg)
      moreover have "0 \<le> ivalue ?X - 1" "0 \<le> ivalue ?Y - 1" using wx(1) wy(1) 2 by auto
      ultimately have "\<bar>bigint_value x\<bar> \<le> \<bar>?v\<bar>" "\<bar>bigint_value y\<bar> \<le> \<bar>?v\<bar>"
        using or_upper [of "ivalue ?X - 1" "ivalue ?Y - 1"] or_upper [of "ivalue ?Y - 1" "ivalue ?X - 1"]
        by (simp_all add: value_abs or.commute)
      moreover have "kMaxLength \<le> length ?X \<or> kMaxLength \<le> length ?Y"
        using that wx(3) wy(3) by (auto simp: BitwiseAnd_NegNeg_ResultLength_def)
      ultimately show ?thesis using near_limit_length assms by blast
    qed
    then have "computes (near_limit ?v) (MakeImmutable (case MutableBigInt_New ?len of Inl e \<Rightarrow> Inl e
      | Inr result \<Rightarrow> case from_library (BitwiseAnd_NegNeg ?len ?X ?Y) of Inl e \<Rightarrow> Inl e | Inr Z \<Rightarrow> Inr (set_sign True (set_digits Z result)))) ?v"
      using Z by (intro library_computes) (simp_all add: signed_value_if BitwiseAnd_NegNeg_ResultLength_def)
    with 2 show ?thesis by (simp add: BigInt_BitwiseAnd_def Let_def)
  next
    case 3
    with BigInt_BitwiseAnd_mixed(1) [OF assms] show ?thesis by (blast intro: computes_mono)
  next
    case 4
    with BigInt_BitwiseAnd_mixed(2) [OF assms(2,1)] show ?thesis by (subst (1 2) and.commute) (blast intro: computes_mono)
  qed
qed

lemma BigInt_BitwiseOr_mixed:
  assumes "bigint_wf x" and "bigint_wf y" and "\<not> bigint_sign x" and "bigint_sign y"
  shows "computes False (BigInt_BitwiseOr x y) (bigint_value x OR bigint_value y)"
    and "computes False (BigInt_BitwiseOr y x) (bigint_value x OR bigint_value y)"
proof -
  note wx = wf_signs [OF assms(1)] and wy = wf_signs [OF assms(2)]
  let ?X = "bigint_digits x" and ?Y = "bigint_digits y"
  define len where "len = BitwiseOrResultLength (length ?X) (length ?Y)"
  have l: "len \<le> kMaxLength" "len \<noteq> 0" using wx wy assms(4) by (auto simp: len_def BitwiseOrResultLength_def max_def)
  obtain Z where Z: "BitwiseOr_PosNeg len ?X ?Y = Some Z" "length Z = len" "- ivalue Z = bigint_value x OR bigint_value y"
    using Or_PosNeg_spec [of ?X ?Y len] wx(2) wy(1) assms(3,4) by (auto simp: len_def)
  have "computes False (MakeImmutable (case MutableBigInt_New len of Inl e \<Rightarrow> Inl e
    | Inr result \<Rightarrow> case from_library (BitwiseOr_PosNeg len ?X ?Y) of Inl e \<Rightarrow> Inl e | Inr Z \<Rightarrow> Inr (set_sign True (set_digits Z result))))
    (bigint_value x OR bigint_value y)"
    using Z l by (intro library_computes) (simp_all add: signed_value_if)
  moreover have "BitwiseOrResultLength (length ?Y) (length ?X) = len" by (simp add: len_def BitwiseOrResultLength_def max.commute)
  ultimately show "computes False (BigInt_BitwiseOr x y) (bigint_value x OR bigint_value y)"
    "computes False (BigInt_BitwiseOr y x) (bigint_value x OR bigint_value y)"
    using assms(3,4) l(1) by (simp_all add: BigInt_BitwiseOr_def Let_def len_def [symmetric] ToHandleChecked_def MutableBigInt_New_def)
qed

lemma BigInt_BitwiseOr_spec:
  assumes "bigint_wf x" and "bigint_wf y"
  shows "computes False (BigInt_BitwiseOr x y) (bigint_value x OR bigint_value y)"
proof -
  note wx = wf_signs [OF assms(1)] and wy = wf_signs [OF assms(2)]
  let ?X = "bigint_digits x" and ?Y = "bigint_digits y" and ?v = "bigint_value x OR bigint_value y"
  define len where "len = BitwiseOrResultLength (length ?X) (length ?Y)"
  have l: "len \<le> kMaxLength" using wx wy by (auto simp: len_def BitwiseOrResultLength_def)
  consider "\<not> bigint_sign x" "\<not> bigint_sign y" | "bigint_sign x" "bigint_sign y"
    | "\<not> bigint_sign x" "bigint_sign y" | "bigint_sign x" "\<not> bigint_sign y" by blast
  then show ?thesis
  proof cases
    case 1
    have "computes False (MakeImmutable (case ToHandleChecked (MutableBigInt_New len) of
        Inl e \<Rightarrow> Inl e | Inr result \<Rightarrow> Inr (set_digits (BitwiseOr_PosPos len ?X ?Y) result))) ?v"
      using Or_PosPos_spec [of ?X ?Y len] wx wy 1 l by (intro fill_computes) (simp_all add: len_def)
    with 1 l show ?thesis by (simp add: BigInt_BitwiseOr_def Let_def len_def [symmetric] ToHandleChecked_def MutableBigInt_New_def)
  next
    case 2
    obtain Z where Z: "BitwiseOr_NegNeg len ?X ?Y = Some Z" "length Z = len" "- ivalue Z = ?v"
      using Or_NegNeg_spec [of ?X ?Y len] wx(1) wy(1) 2 by (auto simp: len_def)
    have "len \<noteq> 0" using wx 2 by (auto simp: len_def BitwiseOrResultLength_def max_def)
    then have "computes False (MakeImmutable (case MutableBigInt_New len of Inl e \<Rightarrow> Inl e
      | Inr result \<Rightarrow> case from_library (BitwiseOr_NegNeg len ?X ?Y) of Inl e \<Rightarrow> Inl e | Inr Z \<Rightarrow> Inr (set_sign True (set_digits Z result)))) ?v"
      using Z l by (intro library_computes) (simp_all add: signed_value_if)
    with 2 l show ?thesis by (simp add: BigInt_BitwiseOr_def Let_def len_def [symmetric] ToHandleChecked_def MutableBigInt_New_def)
  next
    case 3
    with BigInt_BitwiseOr_mixed(1) [OF assms] show ?thesis by blast
  next
    case 4
    with BigInt_BitwiseOr_mixed(2) [OF assms(2,1)] show ?thesis by (simp add: or.commute)
  qed
qed

text \<open>An operand of the greatest length makes the exclusive or of numbers of different signs fail,
  also when the result would be short.\<close>

abbreviation longest :: "bigint \<Rightarrow> bool" where "longest x \<equiv> length (bigint_digits x) = kMaxLength"

lemma BigInt_BitwiseXor_mixed:
  assumes "bigint_wf x" and "bigint_wf y" and "\<not> bigint_sign x" and "bigint_sign y"
  shows "computes (longest x \<or> longest y) (BigInt_BitwiseXor x y) (bigint_value x XOR bigint_value y)"
    and "computes (longest x \<or> longest y) (BigInt_BitwiseXor y x) (bigint_value x XOR bigint_value y)"
proof -
  note wx = wf_signs [OF assms(1)] and wy = wf_signs [OF assms(2)]
  let ?X = "bigint_digits x" and ?Y = "bigint_digits y"
  define len where "len = BitwiseXor_PosNeg_ResultLength (length ?X) (length ?Y)"
  have l: "len > kMaxLength \<Longrightarrow> longest x \<or> longest y" "len \<noteq> 0"
    using wx(3) wy(3) by (auto simp: len_def BitwiseXor_PosNeg_ResultLength_def max_def split: if_splits)
  obtain Z where Z: "BitwiseXor_PosNeg len ?X ?Y = Some Z" "length Z = len" "- ivalue Z = bigint_value x XOR bigint_value y"
    using Xor_PosNeg_spec [of ?X ?Y len] wx(2) wy(1) assms(3,4) by (auto simp: len_def)
  have "computes (longest x \<or> longest y) (MakeImmutable (case MutableBigInt_New len of Inl e \<Rightarrow> Inl e
    | Inr result \<Rightarrow> case from_library (BitwiseXor_PosNeg len ?X ?Y) of Inl e \<Rightarrow> Inl e | Inr Z \<Rightarrow> Inr (set_sign True (set_digits Z result))))
    (bigint_value x XOR bigint_value y)"
    using Z l by (intro library_computes) (simp_all add: signed_value_if)
  then show "computes (longest x \<or> longest y) (BigInt_BitwiseXor x y) (bigint_value x XOR bigint_value y)"
    "computes (longest x \<or> longest y) (BigInt_BitwiseXor y x) (bigint_value x XOR bigint_value y)"
    using assms(3,4) unfolding len_def by (simp_all add: BigInt_BitwiseXor_def Let_def)
qed

lemma BigInt_BitwiseXor_spec:
  assumes "bigint_wf x" and "bigint_wf y"
  shows "computes (bigint_sign x \<noteq> bigint_sign y \<and> (longest x \<or> longest y)) (BigInt_BitwiseXor x y) (bigint_value x XOR bigint_value y)"
proof -
  note wx = wf_signs [OF assms(1)] and wy = wf_signs [OF assms(2)]
  let ?X = "bigint_digits x" and ?Y = "bigint_digits y" and ?v = "bigint_value x XOR bigint_value y"
  consider "\<not> bigint_sign x" "\<not> bigint_sign y" | "bigint_sign x" "bigint_sign y"
    | "\<not> bigint_sign x" "bigint_sign y" | "bigint_sign x" "\<not> bigint_sign y" by blast
  then show ?thesis
  proof cases
    case 1
    let ?len = "BitwiseXor_PosPos_ResultLength (length ?X) (length ?Y)"
    have "computes False (MakeImmutable (case ToHandleChecked (MutableBigInt_New ?len) of
        Inl e \<Rightarrow> Inl e | Inr result \<Rightarrow> Inr (set_digits (BitwiseXor_PosPos ?len ?X ?Y) result))) ?v"
      using Xor_PosPos_spec [OF order_refl, of ?X ?Y] wx wy 1
      by (intro fill_computes) (simp_all add: BitwiseXor_PosPos_ResultLength_def)
    with 1 show ?thesis by (simp add: BigInt_BitwiseXor_def Let_def)
  next
    case 2
    let ?len = "BitwiseXor_NegNeg_ResultLength (length ?X) (length ?Y)"
    have "computes False (MakeImmutable (case ToHandleChecked (MutableBigInt_New ?len) of
        Inl e \<Rightarrow> Inl e | Inr result \<Rightarrow> Inr (set_digits (BitwiseXor_NegNeg ?len ?X ?Y) result))) ?v"
      using Xor_NegNeg_spec [OF order_refl, of ?X ?Y] wx wy 2
      by (intro fill_computes) (simp_all add: BitwiseXor_NegNeg_ResultLength_def)
    with 2 show ?thesis by (simp add: BigInt_BitwiseXor_def Let_def)
  next
    case 3
    with BigInt_BitwiseXor_mixed(1) [OF assms] show ?thesis by simp
  next
    case 4
    with BigInt_BitwiseXor_mixed(2) [OF assms(2,1)] show ?thesis by (auto simp: xor.commute intro: computes_mono)
  qed
qed

text \<open>Shift counts and the numbers that do not fit at all.\<close>

definition beyond_limit :: "int \<Rightarrow> bool" where
  "beyond_limit v \<longleftrightarrow> int digit_base ^ kMaxLength \<le> \<bar>v\<bar>"

lemma ToShiftAmount_spec:
  assumes "bigint_wf y" and "bigint_digits y \<noteq> []"
  shows "ToShiftAmount y = Some shift \<Longrightarrow> nat \<bar>bigint_value y\<bar> = unat shift"
    and "ToShiftAmount y = None \<Longrightarrow> kMaxLengthBits \<le> nat \<bar>bigint_value y\<bar>"
proof -
  let ?Y = "bigint_digits y"
  have one: "digits_value ?Y = unat (?Y ! 0)" if "\<not> length ?Y > 1" using that assms(2) by (cases ?Y; cases "tl ?Y") auto
  show "ToShiftAmount y = Some shift \<Longrightarrow> nat \<bar>bigint_value y\<bar> = unat shift"
    using one by (auto simp: ToShiftAmount_def Let_def value_abs split: if_splits)
  have "kMaxLengthBits \<le> digits_value ?Y" if "length ?Y > 1"
  proof -
    have "digit_base ^ 1 \<le> digit_base ^ (length ?Y - 1)" using that by (intro power_increasing) (simp_all add: digit_base_def)
    with wf_nonzero(1) [OF assms] show ?thesis by (simp add: digit_base_def)
  qed
  then show "ToShiftAmount y = None \<Longrightarrow> kMaxLengthBits \<le> nat \<bar>bigint_value y\<bar>"
    using one by (auto simp: ToShiftAmount_def Let_def value_abs split: if_splits)
qed

lemma LeftShift_needs:
  assumes "X \<noteq> []" and "IsDigitNormalized X"
  shows "digit_base ^ (LeftShift_ResultLength (length X) (msd X) shift - 1) \<le> digits_value X * 2 ^ unat shift"
proof -
  define l r where lr: "l = unat shift div 64" "r = unat shift mod 64"
  have s: "2 ^ unat shift = digit_base ^ l * 2 ^ r" unfolding base_power by (simp add: lr)
  let ?n = "length X - 1"
  have n: "length X = Suc ?n" using assms(1) by (cases X) simp_all
  show ?thesis
  proof (cases "r \<noteq> 0 \<and> drop_bit (64 - r) (msd X) \<noteq> 0")
    case True
    then have "0 < unat (msd X) div 2 ^ (64 - r)" by (simp add: unat_gt_0 flip: unat_drop)
    then have "2 ^ (64 - r) \<le> unat (msd X)" by (simp add: div_greater_zero_iff)
    then have "digit_base ^ ?n * 2 ^ (64 - r) \<le> digit_base ^ ?n * unat (msd X)" by (rule mult_left_mono) simp
    also have "\<dots> \<le> digits_value X" using value_msd [OF assms(1)] by simp
    finally have "digit_base ^ ?n * 2 ^ (64 - r) * (digit_base ^ l * 2 ^ r) \<le> digits_value X * 2 ^ unat shift" unfolding s by (rule mult_right_mono) simp
    moreover have "digit_base = 2 ^ (64 - r) * 2 ^ r" using lr(2) by (simp add: digit_base_def flip: power_add)
    then have "digit_base ^ ?n * 2 ^ (64 - r) * (digit_base ^ l * 2 ^ r) = digit_base ^ (?n + l + 1)" by (simp add: power_add)
    moreover have "LeftShift_ResultLength (length X) (msd X) shift - 1 = ?n + l + 1"
      using True n by (simp add: LeftShift_ResultLength_def Let_def flip: lr)
    ultimately show ?thesis by simp
  next
    case False
    have "digit_base ^ ?n * (digit_base ^ l * 1) \<le> digits_value X * (digit_base ^ l * 2 ^ r)"
      by (intro mult_mono normal_lower assms) simp_all
    moreover have "LeftShift_ResultLength (length X) (msd X) shift - 1 = ?n + l"
      using False n by (auto simp: LeftShift_ResultLength_def Let_def simp flip: lr)
    ultimately show ?thesis by (simp add: s power_add)
  qed
qed

lemma LeftShiftByAbsolute_spec:
  assumes "bigint_wf x" and "bigint_wf y" and "bigint_digits x \<noteq> []" and "bigint_digits y \<noteq> []"
  defines "v \<equiv> bigint_value x * 2 ^ nat \<bar>bigint_value y\<bar>"
  shows "computes (beyond_limit v) (LeftShiftByAbsolute x y) v"
proof -
  let ?X = "bigint_digits x"
  note T = ToShiftAmount_spec [OF assms(2,4)] and w = wf_nonzero [OF assms(1,3)]
  have av: "\<bar>v\<bar> = int (digits_value ?X * 2 ^ nat \<bar>bigint_value y\<bar>)" by (simp add: v_def abs_mult value_abs)
  show ?thesis
  proof (cases "ToShiftAmount y")
    case None
    have "64 * kMaxLength \<le> nat \<bar>bigint_value y\<bar>" using T(2) [OF None] by simp
    from base_power_le [OF this, of 2] have "int digit_base ^ kMaxLength \<le> 2 ^ nat \<bar>bigint_value y\<bar>" by simp
    also have "\<dots> \<le> \<bar>v\<bar>" unfolding av using w(2) by simp
    finally show ?thesis using None by (simp add: LeftShiftByAbsolute_def beyond_limit_def)
  next
    case (Some shift)
    let ?len = "LeftShift_ResultLength (length ?X) (msd ?X) shift"
    have n: "nat \<bar>bigint_value y\<bar> = unat shift" using T(1) [OF Some] .
    have nz: "0 < ?len" using assms(3) by (simp add: LeftShift_ResultLength_def Let_def)
    have "beyond_limit v" if "?len > kMaxLength"
    proof -
      have "kMaxLength \<le> ?len - 1" using that by simp
      then have "digit_base ^ kMaxLength \<le> digit_base ^ (?len - 1)" by (rule power_increasing) (simp add: digit_base_def)
      also have "\<dots> \<le> digits_value ?X * 2 ^ unat shift" using assms(1,3) by (intro LeftShift_needs) (simp_all add: bigint_wf_def)
      finally have "int (digit_base ^ kMaxLength) \<le> \<bar>v\<bar>" unfolding av n of_nat_le_iff .
      then show ?thesis unfolding beyond_limit_def of_nat_power .
    qed
    moreover have "LeftShiftByAbsolute x y = (case MutableBigInt_New ?len of Inl e \<Rightarrow> Inl e
      | Inr result \<Rightarrow> MakeImmutable (Inr (set_sign (bigint_sign x) (set_digits (LeftShift_by ?len ?X shift) result))))"
      by (simp add: LeftShiftByAbsolute_def Some Let_def MutableBigInt_New_def msd_def)
    moreover have "signed_value (bigint_sign x) (LeftShift_by ?len ?X shift) = v"
      unfolding v_def n using LeftShift_by_spec(2) [OF assms(3) order_refl, of shift] by (simp add: bigint_value_def signed_value_if)
    ultimately show ?thesis
      using LeftShift_by_spec(1) [OF assms(3) order_refl, of shift] nz by (simp only:) (intro allocate_computes, auto)
  qed
qed

lemma RightShiftByMaximum_spec: "bigint_wf (RightShiftByMaximum sign)" "bigint_value (RightShiftByMaximum sign) = (if sign then - 1 else 0)"
  by (simp_all add: RightShiftByMaximum_def NewFromInt_small)

lemma RightShiftByAbsolute_spec:
  assumes "bigint_wf x" and "bigint_wf y" and "bigint_digits x \<noteq> []" and "bigint_digits y \<noteq> []"
  shows "computes False (RightShiftByAbsolute x y) (bigint_value x div 2 ^ nat \<bar>bigint_value y\<bar>)"
proof -
  let ?X = "bigint_digits x"
  note T = ToShiftAmount_spec [OF assms(2,4)] and w = wf_nonzero [OF assms(1,3)]
  show ?thesis
  proof (cases "ToShiftAmount y")
    case None
    have "64 * kMaxLength \<le> nat \<bar>bigint_value y\<bar>" using T(2) [OF None] by simp
    from base_power_le [OF this, of 2] have p: "int digit_base ^ kMaxLength \<le> 2 ^ nat \<bar>bigint_value y\<bar>" by simp
    have "digits_value ?X < digit_base ^ length ?X" by (rule value_less)
    also have "\<dots> \<le> digit_base ^ kMaxLength" using w(3) by (rule power_increasing) (simp add: digit_base_def)
    finally have "ivalue ?X < int digit_base ^ kMaxLength" unfolding of_nat_power [symmetric] of_nat_less_iff .
    then have "ivalue ?X < 2 ^ nat \<bar>bigint_value y\<bar>" using p by linarith
    then have "bigint_value x div 2 ^ nat \<bar>bigint_value y\<bar> = (if bigint_sign x then - 1 else 0)"
      using w(2) div_pos_neg_trivial zdiv_zminus1_eq_if [of "2 ^ nat \<bar>bigint_value y\<bar>" "ivalue ?X"]
      by (auto simp: bigint_value_def signed_value_if div_pos_pos_trivial mod_pos_pos_trivial)
    then show ?thesis using None RightShiftByMaximum_spec by (simp add: RightShiftByAbsolute_def)
  next
    case (Some shift)
    obtain len rounds where R: "RightShift_ResultLength ?X (bigint_sign x) shift = (len, rounds)" by (rule prod.exhaust)
    have n: "nat \<bar>bigint_value y\<bar> = unat shift" using T(1) [OF Some] .
    show ?thesis
    proof (cases "len = 0")
      case True
      then show ?thesis unfolding n
        using RightShift_to_nothing [of ?X "bigint_sign x" shift] R assms(3) w(2) Some RightShiftByMaximum_spec [of "bigint_sign x"]
        by (simp add: RightShiftByAbsolute_def bigint_value_def [of x])
    next
      case False
      obtain Z where Z: "RightShift_by len ?X shift rounds = Some Z" "length Z = len"
        "signed_value (bigint_sign x) Z = signed_value (bigint_sign x) ?X div 2 ^ unat shift"
        using RightShift_by_spec [OF R] False by auto
      have "len \<le> kMaxLength"
        using RightShift_rounds [OF R] False w(3) mod_less_divisor [of "2 ^ unat shift" "digits_value ?X"]
        by (cases "unat shift div 64") (auto split: if_splits)
      then show ?thesis unfolding n using Z False R Some
        by (auto simp: RightShiftByAbsolute_def bigint_value_def ToHandleChecked_def MutableBigInt_New_def from_library_def
            signed_value_if intro!: MakeImmutable_computes)
    qed
  qed
qed

text \<open>A shift by a signed count: to the right it rounds down.\<close>

definition int_shift :: "int \<Rightarrow> int \<Rightarrow> int" where
  "int_shift v n = (if 0 \<le> n then v * 2 ^ nat n else v div 2 ^ nat (- n))"

lemma shifts_spec:
  assumes "bigint_wf x" and "bigint_wf y"
  shows "computes (beyond_limit (int_shift (bigint_value x) (bigint_value y))) (BigInt_LeftShift x y) (int_shift (bigint_value x) (bigint_value y))"
    and "computes (beyond_limit (int_shift (bigint_value x) (- bigint_value y))) (BigInt_SignedRightShift x y)
      (int_shift (bigint_value x) (- bigint_value y))"
proof -
  note z = value_zero [OF assms(1)] value_zero [OF assms(2)] value_negative [OF assms(2)]
  note L = LeftShiftByAbsolute_spec [OF assms] and R = computes_mono [OF RightShiftByAbsolute_spec [OF assms] FalseE]
  show "computes (beyond_limit (int_shift (bigint_value x) (bigint_value y))) (BigInt_LeftShift x y) (int_shift (bigint_value x) (bigint_value y))"
  proof (cases "bigint_digits y = [] \<or> bigint_digits x = []")
    case False
    then show ?thesis using L R z by (cases "bigint_sign y") (auto simp: BigInt_LeftShift_def int_shift_def)
  qed (use assms z in \<open>auto simp: BigInt_LeftShift_def int_shift_def\<close>)
  show "computes (beyond_limit (int_shift (bigint_value x) (- bigint_value y))) (BigInt_SignedRightShift x y)
      (int_shift (bigint_value x) (- bigint_value y))"
  proof (cases "bigint_digits y = [] \<or> bigint_digits x = []")
    case False
    then show ?thesis using L R z by (cases "bigint_sign y") (auto simp: BigInt_SignedRightShift_def int_shift_def)
  qed (use assms z in \<open>auto simp: BigInt_SignedRightShift_def int_shift_def\<close>)
qed

section \<open>Properties\<close>

lemmas concrete_bigint = bigint_wf_def IsDigitNormalized_def msd_def bigint_value_def signed_value_if

text \<open>C6. The arithmetic operators refine those of the integers: for well-formed BigInts, sum, difference,
  product, negation, increment and decrement deliver the canonical BigInt of the exact result, or
  throw that it is too big, which happens only within one digit of the maximum length.\<close>

theorem bigint_arithmetic_exact:
  assumes "bigint_wf x" and "bigint_wf y"
  shows "computes (near_limit (bigint_value x + bigint_value y)) (BigInt_Add x y) (bigint_value x + bigint_value y) \<and>
    computes (near_limit (bigint_value x - bigint_value y)) (BigInt_Subtract x y) (bigint_value x - bigint_value y) \<and>
    computes (near_limit (bigint_value x * bigint_value y)) (BigInt_Multiply x y) (bigint_value x * bigint_value y) \<and>
    computes False (UnaryMinus x) (- bigint_value x) \<and>
    computes (near_limit (bigint_value x)) (Increment x) (bigint_value x + 1) \<and>
    computes (near_limit (bigint_value x)) (Decrement x) (bigint_value x - 1)"
  using assms by (intro conjI BigInt_Add_spec BigInt_Subtract_spec BigInt_Multiply_spec UnaryMinus_spec unary_spec)

theorem bigint_arithmetic_exact_witness:
  "bigint_wf \<lparr> bigint_sign = False, bigint_digits = [5, 1] \<rparr> \<and> bigint_wf \<lparr> bigint_sign = True, bigint_digits = [7] \<rparr> \<and>
   computes (near_limit (bigint_value \<lparr> bigint_sign = False, bigint_digits = [5, 1] \<rparr> + - 7))
     (BigInt_Add \<lparr> bigint_sign = False, bigint_digits = [5, 1] \<rparr> \<lparr> bigint_sign = True, bigint_digits = [7] \<rparr>)
     (bigint_value \<lparr> bigint_sign = False, bigint_digits = [5, 1] \<rparr> + - 7)"
  using bigint_arithmetic_exact [of "\<lparr> bigint_sign = False, bigint_digits = [5, 1] \<rparr>" "\<lparr> bigint_sign = True, bigint_digits = [7] \<rparr>"]
  by (simp add: concrete_bigint)

text \<open>C7. Division and remainder of well-formed BigInts: a zero divisor throws; otherwise they never
  fail and give the quotient rounded towards zero and the remainder with the sign of the dividend.\<close>

theorem bigint_division_exact:
  assumes "bigint_wf x" and "bigint_wf y"
  shows "if bigint_value y = 0
    then BigInt_Divide x y = Inl kBigIntDivZero \<and> BigInt_Remainder x y = Inl kBigIntDivZero
    else computes False (BigInt_Divide x y) (bigint_value x sdiv bigint_value y) \<and>
      computes False (BigInt_Remainder x y) (bigint_value x smod bigint_value y)"
  using BigInt_Divide_spec [OF assms] BigInt_Remainder_spec [OF assms] value_zero [OF assms(2)]
  by (simp add: BigInt_Divide_def BigInt_Remainder_def)

theorem bigint_division_exact_witness:
  "BigInt_Divide \<lparr> bigint_sign = True, bigint_digits = [7] \<rparr> \<lparr> bigint_sign = False, bigint_digits = [] \<rparr> = Inl kBigIntDivZero \<and>
   computes False (BigInt_Divide \<lparr> bigint_sign = True, bigint_digits = [7] \<rparr> \<lparr> bigint_sign = False, bigint_digits = [2] \<rparr>) (- 3) \<and>
   computes False (BigInt_Remainder \<lparr> bigint_sign = True, bigint_digits = [7] \<rparr> \<lparr> bigint_sign = False, bigint_digits = [2] \<rparr>) (- 1)"
  using bigint_division_exact [of "\<lparr> bigint_sign = True, bigint_digits = [7] \<rparr>" "\<lparr> bigint_sign = False, bigint_digits = [] \<rparr>"]
    bigint_division_exact [of "\<lparr> bigint_sign = True, bigint_digits = [7] \<rparr>" "\<lparr> bigint_sign = False, bigint_digits = [2] \<rparr>"]
  by (simp add: concrete_bigint signed_divide_int_def signed_modulo_int_def)

text \<open>C8. Powers of well-formed BigInts: a negative exponent throws; otherwise square-and-multiply and the
  fast path for powers of two give the exact power, or it is too big, within one digit of the
  maximum length, no matter which intermediate product failed.\<close>

theorem bigint_power_exact:
  assumes "bigint_wf b" and "bigint_wf e"
  shows "if bigint_value e < 0 then Exponentiate b e = Inl kMustBePositive
    else computes (near_limit (bigint_value b ^ nat (bigint_value e))) (Exponentiate b e) (bigint_value b ^ nat (bigint_value e))"
  using Exponentiate_spec [OF assms] value_negative [OF assms(2)] by (simp add: Exponentiate_def)

theorem bigint_power_exact_witness:
  "computes (near_limit ((- 3) ^ 5)) (Exponentiate \<lparr> bigint_sign = True, bigint_digits = [3] \<rparr> \<lparr> bigint_sign = False, bigint_digits = [5] \<rparr>)
     ((- 3) ^ 5)"
  using bigint_power_exact [of "\<lparr> bigint_sign = True, bigint_digits = [3] \<rparr>" "\<lparr> bigint_sign = False, bigint_digits = [5] \<rparr>"]
  by (simp add: concrete_bigint)

text \<open>C9. The bitwise operators on sign and magnitude are those of two's complement integers of unlimited
  width. Conjunction and complement may fail near the maximum length; disjunction never fails;
  exclusive or fails only for operands of different signs of which one has the maximum length.\<close>

theorem bigint_bitwise_exact:
  assumes "bigint_wf x" and "bigint_wf y"
  shows "computes (near_limit (bigint_value x AND bigint_value y)) (BigInt_BitwiseAnd x y) (bigint_value x AND bigint_value y) \<and>
    computes False (BigInt_BitwiseOr x y) (bigint_value x OR bigint_value y) \<and>
    computes (bigint_sign x \<noteq> bigint_sign y \<and> (longest x \<or> longest y)) (BigInt_BitwiseXor x y) (bigint_value x XOR bigint_value y) \<and>
    computes (near_limit (bigint_value x)) (BitwiseNot x) (NOT (bigint_value x))"
  using assms by (intro conjI BigInt_BitwiseAnd_spec BigInt_BitwiseOr_spec BigInt_BitwiseXor_spec unary_spec)

theorem bigint_bitwise_exact_witness:
  "computes False (BigInt_BitwiseOr \<lparr> bigint_sign = True, bigint_digits = [6, 1] \<rparr> \<lparr> bigint_sign = False, bigint_digits = [9] \<rparr>)
     (bigint_value \<lparr> bigint_sign = True, bigint_digits = [6, 1] \<rparr> OR 9)"
  using bigint_bitwise_exact [of "\<lparr> bigint_sign = True, bigint_digits = [6, 1] \<rparr>" "\<lparr> bigint_sign = False, bigint_digits = [9] \<rparr>"]
  by (simp add: concrete_bigint)

text \<open>C10. Shifts of well-formed BigInts by a BigInt count of either sign: the exact product with, or the
  floor of the quotient by, a power of two, also where the count has many digits; only a result
  that does not fit throws, and the unsigned shift always does.\<close>

theorem bigint_shifts_exact:
  assumes "bigint_wf x" and "bigint_wf y"
  shows "computes (beyond_limit (int_shift (bigint_value x) (bigint_value y))) (BigInt_LeftShift x y) (int_shift (bigint_value x) (bigint_value y)) \<and>
    computes (beyond_limit (int_shift (bigint_value x) (- bigint_value y))) (BigInt_SignedRightShift x y)
      (int_shift (bigint_value x) (- bigint_value y)) \<and>
    BigInt_UnsignedRightShift x y = Inl kBigIntShr"
  using shifts_spec [OF assms] by (simp add: BigInt_UnsignedRightShift_def)

theorem bigint_shifts_exact_witness:
  "computes (beyond_limit (- 3)) (BigInt_SignedRightShift \<lparr> bigint_sign = True, bigint_digits = [5] \<rparr> \<lparr> bigint_sign = False, bigint_digits = [1] \<rparr>) (- 3)"
  using bigint_shifts_exact [of "\<lparr> bigint_sign = True, bigint_digits = [5] \<rparr>" "\<lparr> bigint_sign = False, bigint_digits = [1] \<rparr>"]
  by (simp add: concrete_bigint int_shift_def)

end
