(* ===== verification/BigInt_Convert.thy ===== *)
theory BigInt_Convert
  imports BigInt_Object
begin

text \<open>
  BigInts and machine words: truncation to a number of bits, conversion from and to 64-bit integers
  and arrays of words, comparison, and the serialized form, all of \<^verbatim>\<open>src/objects/bigint.cc\<close>, for
  64-bit digits on a little-endian machine.
\<close>

section \<open>Truncation and words\<close>

definition BigInt_AsIntN :: "64 word \<Rightarrow> bigint \<Rightarrow> bigint_result" where
  "BigInt_AsIntN n x =
     (let X = bigint_digits x
      in if is_zero x \<or> unat n > kMaxLengthBits then Inr x
         else if n = 0 then Inr BigInt_Zero
         else case AsIntNResultLength X (bigint_sign x) (unat n) of None \<Rightarrow> Inr x
              | Some needed_length \<Rightarrow>
                  case ToHandleChecked (MutableBigInt_New needed_length) of Inl e \<Rightarrow> Inl e
                  | Inr result \<Rightarrow>
                      case AsIntN (bigint_digits result) X (bigint_sign x) (unat n) of (Z, negative) \<Rightarrow>
                        MakeImmutable (Inr (set_sign negative (set_digits Z result))))"

definition BigInt_AsUintN :: "64 word \<Rightarrow> bigint \<Rightarrow> bigint_result" where
  "BigInt_AsUintN n x =
     (let X = bigint_digits x
      in if is_zero x then Inr x
         else if n = 0 then Inr BigInt_Zero
         else if bigint_sign x
         then (if unat n > kMaxLengthBits then Inl kBigIntTooBig
               else case ToHandleChecked (MutableBigInt_New (AsUintN_Neg_ResultLength (unat n))) of Inl e \<Rightarrow> Inl e
                    | Inr result \<Rightarrow> MakeImmutable (Inr (set_digits (AsUintN_Neg (bigint_digits result) X (unat n)) result)))
         else if unat n \<ge> kMaxLengthBits then Inr x
         else case AsUintN_Pos_ResultLength X (unat n) of None \<Rightarrow> Inr x
              | Some result_length \<Rightarrow>
                  case ToHandleChecked (MutableBigInt_New result_length) of Inl e \<Rightarrow> Inl e
                  | Inr result \<Rightarrow> MakeImmutable (Inr (set_digits (AsUintN_Pos (bigint_digits result) X (unat n)) result)))"

definition FromInt64 :: "64 word \<Rightarrow> bigint" where
  "FromInt64 n =
     (if n = 0 then BigInt_Zero
      else let sign = (sint n < 0);
               absolute = (if \<not> sign then n
                           else if n = 0x8000000000000000 then 0x7FFFFFFFFFFFFFFF + 1
                           else - n)
           in Canonicalize \<lparr> bigint_sign = sign, bigint_digits = [absolute] \<rparr>)"

definition FromUint64 :: "64 word \<Rightarrow> bigint" where
  "FromUint64 n = (if n = 0 then BigInt_Zero else Canonicalize \<lparr> bigint_sign = False, bigint_digits = [n] \<rparr>)"

definition FromWords64 :: "int \<Rightarrow> int \<Rightarrow> 64 word list \<Rightarrow> bigint_result" where
  "FromWords64 sign_bit words64_count words =
     (if words64_count < 0 \<or> words64_count > int kMaxLength then Inl kBigIntTooBig
      else if words64_count = 0 then Inr BigInt_Zero
      else case MutableBigInt_New (nat words64_count) of Inl e \<Rightarrow> Inl e
           | Inr result \<Rightarrow> MakeImmutable (Inr (set_digits (take (nat words64_count) words) (set_sign (sign_bit \<noteq> 0) result))))"

definition Words64Count :: "bigint \<Rightarrow> nat" where
  "Words64Count x = length (bigint_digits x)"

text \<open>The sign bit, the count and the contents of the array of \<open>available\<close> words.\<close>

definition ToWordsArray64 :: "bigint \<Rightarrow> 64 word list \<Rightarrow> int \<times> nat \<times> 64 word list" where
  "ToWordsArray64 x words =
     (let sign_bit = (if bigint_sign x then 1 else 0); available_words = length words; words64_count = Words64Count x
      in if available_words = 0 then (sign_bit, words64_count, words)
         else let copied = take available_words (bigint_digits x)
              in (sign_bit, words64_count, copied @ drop (length copied) words))"

definition GetRawBits :: "bigint \<Rightarrow> 64 word \<times> bool" where
  "GetRawBits x =
     (if is_zero x then (0, True)
      else let raw = bigint_digits x ! 0; lossless = (length (bigint_digits x) \<le> 1)
           in (if bigint_sign x then NOT raw + 1 else raw, lossless))"

definition AsInt64 :: "bigint \<Rightarrow> 64 word \<times> bool" where
  "AsInt64 x = (case GetRawBits x of (raw, lossless) \<Rightarrow> (raw, if (sint raw < 0) \<noteq> bigint_sign x then False else lossless))"

definition AsUint64 :: "bigint \<Rightarrow> 64 word \<times> bool" where
  "AsUint64 x = (case GetRawBits x of (raw, lossless) \<Rightarrow> (raw, if bigint_sign x then False else lossless))"

section \<open>Comparison\<close>

datatype ComparisonResult = kLessThan | kEqual | kGreaterThan | kUndefined

definition UnequalSign :: "bool \<Rightarrow> ComparisonResult" where
  "UnequalSign left_negative = (if left_negative then kLessThan else kGreaterThan)"

definition AbsoluteGreater :: "bool \<Rightarrow> ComparisonResult" where
  "AbsoluteGreater both_negative = (if both_negative then kLessThan else kGreaterThan)"

definition AbsoluteLess :: "bool \<Rightarrow> ComparisonResult" where
  "AbsoluteLess both_negative = (if both_negative then kGreaterThan else kLessThan)"

definition CompareToBigInt :: "bigint \<Rightarrow> bigint \<Rightarrow> ComparisonResult" where
  "CompareToBigInt x y =
     (let x_sign = bigint_sign x
      in if x_sign \<noteq> bigint_sign y then UnequalSign x_sign
         else let result = Compare (bigint_digits x) (bigint_digits y)
              in if result > 0 then AbsoluteGreater x_sign
                 else if result < 0 then AbsoluteLess x_sign
                 else kEqual)"

definition EqualToBigInt :: "bigint \<Rightarrow> bigint \<Rightarrow> bool" where
  "EqualToBigInt x y =
     (if bigint_sign x \<noteq> bigint_sign y then False
      else if length (bigint_digits x) \<noteq> length (bigint_digits y) then False
      else list_all (\<lambda>(d, e). d = e) (zip (bigint_digits x) (bigint_digits y)))"

section \<open>Serialization\<close>

definition SignBits_encode :: "bool \<Rightarrow> 32 word" where
  "SignBits_encode v = (if v then 1 else 0)"

definition SignBits_decode :: "32 word \<Rightarrow> bool" where
  "SignBits_decode v \<longleftrightarrow> v AND 1 \<noteq> 0"

definition LengthBits_encode :: "nat \<Rightarrow> 32 word" where
  "LengthBits_encode v = push_bit 1 (of_nat v)"

definition LengthBits_decode :: "32 word \<Rightarrow> nat" where
  "LengthBits_decode v = unat (drop_bit 1 (v AND (push_bit 30 (push_bit 1 1) - push_bit 1 1)))"

definition GetBitfieldForSerialization :: "bigint \<Rightarrow> 32 word" where
  "GetBitfieldForSerialization x = SignBits_encode (bigint_sign x) OR LengthBits_encode (length (bigint_digits x) * 8)"

definition DigitsByteLengthForBitfield :: "32 word \<Rightarrow> nat" where
  "DigitsByteLengthForBitfield bitfield = LengthBits_decode bitfield"

text \<open>The bytes of the digits as they are in memory.\<close>

definition digit_bytes :: "digit \<Rightarrow> 8 word list" where
  "digit_bytes d = map (\<lambda>i. ucast (drop_bit (8 * i) d)) [0..<8]"

definition SerializeDigits :: "bigint \<Rightarrow> 8 word list" where
  "SerializeDigits x = concat (map digit_bytes (bigint_digits x))"

primrec digit_of_bytes :: "8 word list \<Rightarrow> digit" where
  "digit_of_bytes [] = 0"
| "digit_of_bytes (b # bs) = push_bit 8 (digit_of_bytes bs) OR ucast b"

primrec digits_in_memory :: "nat \<Rightarrow> 8 word list \<Rightarrow> digits" where
  "digits_in_memory 0 bytes = []"
| "digits_in_memory (Suc n) bytes = digit_of_bytes (take 8 bytes) # digits_in_memory n (drop 8 bytes)"

definition FromSerializedDigits :: "32 word \<Rightarrow> 8 word list \<Rightarrow> bigint_result" where
  "FromSerializedDigits bitfield digits_storage =
     (let bytelength = LengthBits_decode bitfield; sign = SignBits_decode bitfield;
          len = (bytelength + 8 - 1) div 8
      in if len = 0 \<and> sign then Inl EmptyHandle
         else if len > kMaxLength then Inl Undefined
         else let bytes = take bytelength digits_storage @ replicate (len * 8 - bytelength) 0
              in MakeImmutable (Inr \<lparr> bigint_sign = sign, bigint_digits = digits_in_memory len bytes \<rparr>))"

section \<open>Truncation is that of two's complement\<close>

lemma value_bounded:
  assumes "bigint_wf x"
  shows "\<bar>bigint_value x\<bar> < int digit_base ^ kMaxLength"
proof -
  have "digits_value (bigint_digits x) < digit_base ^ length (bigint_digits x)" by (rule value_less)
  also have "\<dots> \<le> digit_base ^ kMaxLength" using assms by (intro power_increasing) (simp_all add: bigint_wf_def digit_base_def)
  finally show ?thesis unfolding value_abs of_nat_power [symmetric] of_nat_less_iff .
qed

lemma limit_power: "kMaxLengthBits \<le> m \<Longrightarrow> int digit_base ^ kMaxLength \<le> 2 ^ m"
  using base_power_le [of kMaxLength m 2] by simp

lemma wf_below:
  assumes "bigint_wf x" and "kMaxLengthBits \<le> m"
  shows "\<bar>bigint_value x\<bar> < 2 ^ m"
  using value_bounded [OF assms(1)] limit_power [OF assms(2)] by linarith

lemma needed_length:
  assumes "0 < n" and "n \<le> kMaxLengthBits"
  shows "DIV_CEIL n 64 \<le> kMaxLength" and "DIV_CEIL n 64 = AsUintN_Neg_ResultLength n" and "0 < DIV_CEIL n 64"
proof -
  have "(n - 1) div 64 < kMaxLength" using assms by (simp add: div_less_iff_less_mult)
  then show "DIV_CEIL n 64 \<le> kMaxLength" by (simp add: DIV_CEIL_def)
qed (simp_all add: DIV_CEIL_def AsUintN_Neg_ResultLength_def)

lemma BigInt_AsIntN_spec:
  assumes "bigint_wf x"
  shows "computes False (BigInt_AsIntN n x) (if n = 0 then 0 else signed_take_bit (unat n - 1) (bigint_value x))"
proof -
  let ?X = "bigint_digits x"
  consider "?X = []" | "?X \<noteq> []" "unat n > kMaxLengthBits" | "?X \<noteq> []" "unat n \<le> kMaxLengthBits" "n = 0"
    | "?X \<noteq> []" "unat n \<le> kMaxLengthBits" "n \<noteq> 0" by linarith
  then show ?thesis
  proof cases
    case 1
    then have "bigint_value x = 0" using value_zero [OF assms] by simp
    with 1 assms show ?thesis by (simp add: BigInt_AsIntN_def)
  next
    case 2
    then have "\<bar>bigint_value x\<bar> < 2 ^ (unat n - 1)" using assms by (intro wf_below) simp_all
    then have "signed_take_bit (unat n - 1) (bigint_value x) = bigint_value x" by (intro signed_take_bit_int_eq_self) linarith+
    moreover have "n \<noteq> 0" using 2 by auto
    ultimately show ?thesis using 2 assms by (simp add: BigInt_AsIntN_def)
  next
    case 3
    then show ?thesis by (simp add: BigInt_AsIntN_def)
  next
    case 4
    then have n0: "0 < unat n" by (simp add: unat_gt_0)
    show ?thesis
    proof (cases "AsIntNResultLength ?X (bigint_sign x) (unat n)")
      case None
      from AsIntN_unchanged [OF None n0] None 4 assms show ?thesis by (simp add: BigInt_AsIntN_def bigint_value_def)
    next
      case (Some len)
      note l = ResultLength_needed(1) [OF Some] and m = needed_length [OF n0 4(2)]
      obtain Z neg where Z: "AsIntN (replicate len 0) ?X (bigint_sign x) (unat n) = (Z, neg)" by (rule prod.exhaust)
      have "length Z = DIV_CEIL (unat n) 64" "signed_value neg Z = signed_take_bit (unat n - 1) (bigint_value x)"
        using AsIntN_spec [OF Z n0] l by (simp_all add: bigint_value_def)
      then show ?thesis using 4 Some l m Z
        by (auto simp: BigInt_AsIntN_def ToHandleChecked_def MutableBigInt_New_def bigint_value_def intro!: MakeImmutable_computes)
    qed
  qed
qed

lemma truncated_negative: "int ((2 ^ n - v mod 2 ^ n) mod 2 ^ n) = take_bit n (- int v)"
proof -
  have "v mod 2 ^ n \<le> 2 ^ n" by (simp add: less_imp_le)
  then have "int ((2 ^ n - v mod 2 ^ n) mod 2 ^ n) = (2 ^ n - int v mod 2 ^ n) mod 2 ^ n" by (simp add: zmod_int of_nat_diff)
  also have "\<dots> = (- int v) mod 2 ^ n" by (simp add: mod_simps)
  finally show ?thesis by (simp add: take_bit_eq_mod)
qed

lemma BigInt_AsUintN_spec:
  assumes "bigint_wf x"
  shows "computes (beyond_limit (take_bit (unat n) (bigint_value x))) (BigInt_AsUintN n x) (take_bit (unat n) (bigint_value x))"
proof -
  let ?X = "bigint_digits x"
  note w = wf_signs [OF assms]
  consider "?X = []" | "n = 0" | "?X \<noteq> []" "n \<noteq> 0" "bigint_sign x" "unat n > kMaxLengthBits"
    | "?X \<noteq> []" "n \<noteq> 0" "bigint_sign x" "unat n \<le> kMaxLengthBits"
    | "?X \<noteq> []" "n \<noteq> 0" "\<not> bigint_sign x" "kMaxLengthBits \<le> unat n"
    | "?X \<noteq> []" "n \<noteq> 0" "\<not> bigint_sign x" "unat n < kMaxLengthBits" by linarith
  then show ?thesis
  proof cases
    case 1
    then have "bigint_value x = 0" using value_zero [OF assms] by simp
    with 1 assms show ?thesis by (simp add: BigInt_AsUintN_def)
  next
    case 2
    then show ?thesis using assms value_zero [OF assms] by (auto simp: BigInt_AsUintN_def)
  next
    case 3
    then obtain m where n: "unat n = Suc m" by (cases "unat n") simp_all
    then have b: "\<bar>bigint_value x\<bar> < 2 ^ m" using assms 3 by (intro wf_below) simp_all
    have "take_bit (unat n) (bigint_value x) = 2 ^ unat n + bigint_value x"
      using b value_negative [OF assms] 3(3) mod_pos_pos_trivial [of "2 ^ unat n + bigint_value x" "2 ^ unat n"]
      unfolding take_bit_eq_mod n by simp
    moreover have "int digit_base ^ kMaxLength \<le> 2 ^ m" using 3 n by (intro limit_power) simp
    ultimately have "beyond_limit (take_bit (unat n) (bigint_value x))" using b unfolding beyond_limit_def n by simp
    with 3 show ?thesis by (simp add: BigInt_AsUintN_def)
  next
    case 4
    then have n0: "0 < unat n" by (simp add: unat_gt_0)
    note m = needed_length [OF n0 4(4)]
    let ?Z = "AsUintN_Neg (replicate (DIV_CEIL (unat n) 64) 0) ?X (unat n)"
    have "length ?Z = DIV_CEIL (unat n) 64" "ivalue ?Z = take_bit (unat n) (bigint_value x)"
      using TruncateAndSub_spec [OF n0, of "replicate (DIV_CEIL (unat n) 64) 0" ?X] w(1) 4(3)
      by (simp_all add: AsUintN_Neg_def truncated_negative)
    then show ?thesis using 4 m
      by (auto simp: BigInt_AsUintN_def ToHandleChecked_def MutableBigInt_New_def bigint_value_def signed_value_if intro!: MakeImmutable_computes)
  next
    case 5
    then have "take_bit (unat n) (bigint_value x) = bigint_value x"
      using wf_below [OF assms 5(4)] w(2) by (intro take_bit_int_eq_self) simp_all
    with 5 assms show ?thesis by (simp add: BigInt_AsUintN_def)
  next
    case 6
    then have n0: "0 < unat n" by (simp add: unat_gt_0)
    show ?thesis
    proof (cases "AsUintN_Pos_ResultLength ?X (unat n)")
      case None
      then have "digits_value ?X < 2 ^ unat n" using n0 by (rule AsUintN_unchanged)
      then have "take_bit (unat n) (bigint_value x) = bigint_value x"
        using w(2) 6(3) by (intro take_bit_int_eq_self) simp_all
      with None 6 assms show ?thesis by (simp add: BigInt_AsUintN_def)
    next
      case (Some len)
      note l = ResultLength_needed(2) [OF Some] and m = needed_length [OF n0 less_imp_le [OF 6(4)]]
      have "length (AsUintN_Pos (replicate len 0) ?X (unat n)) = len" "ivalue (AsUintN_Pos (replicate len 0) ?X (unat n)) = take_bit (unat n) (bigint_value x)"
        using TruncateToNBits_spec [OF n0, of ?X "replicate len 0"] l w(2) 6(3) by (simp_all add: AsUintN_Pos_def take_bit_eq_mod zmod_int)
      then show ?thesis using 6 Some l m
        by (auto simp: BigInt_AsUintN_def ToHandleChecked_def MutableBigInt_New_def bigint_value_def signed_value_if intro!: MakeImmutable_computes)
    qed
  qed
qed

section \<open>Words\<close>

lemma sint_cases: "sint n = (if uint n < 2 ^ 63 then uint n else uint n - 2 ^ 64)" for n :: "64 word"
proof -
  have "uint n mod 2 ^ Suc 63 = uint n" using uint_lt2p [of n] by (simp add: mod_pos_pos_trivial)
  then show ?thesis using signed_low_bits(1) [of 63 "uint n"] by (simp add: sint_uint)
qed

lemma uint_negated: "n \<noteq> 0 \<Longrightarrow> uint (- n) = 2 ^ 64 - uint n" for n :: "64 word"
proof -
  assume "n \<noteq> 0"
  then have "unat (- n) = digit_base - unat n" using unat_digit_sub [of 0 n] by (simp add: unat_eq_zero)
  then have "int (unat (- n)) = int digit_base - int (unat n)" using unat_digit [of n] by (simp add: of_nat_diff)
  then show ?thesis unfolding uint_nat by (simp add: digit_base_def)
qed

lemma Canonicalize_wf: "bigint_wf x \<Longrightarrow> Canonicalize x = x"
  by (simp add: Canonicalize_def bigint_wf_def normal_Normalize)

lemma one_digit:
  assumes "d \<noteq> 0"
  shows "bigint_wf \<lparr> bigint_sign = sign, bigint_digits = [d] \<rparr>"
    and "Canonicalize \<lparr> bigint_sign = sign, bigint_digits = [d] \<rparr> = \<lparr> bigint_sign = sign, bigint_digits = [d] \<rparr>"
proof -
  show w: "bigint_wf \<lparr> bigint_sign = sign, bigint_digits = [d] \<rparr>" using assms by (simp add: concrete_bigint)
  show "Canonicalize \<lparr> bigint_sign = sign, bigint_digits = [d] \<rparr> = \<lparr> bigint_sign = sign, bigint_digits = [d] \<rparr>" by (rule Canonicalize_wf [OF w])
qed

lemma BigInt_Zero_eq: "BigInt_Zero = \<lparr> bigint_sign = False, bigint_digits = [] \<rparr>"
  by (simp add: BigInt_Zero_def Canonicalize_wf concrete_bigint)

lemma FromInt64_eq: "FromInt64 n = (if n = 0 then \<lparr> bigint_sign = False, bigint_digits = [] \<rparr>
    else if sint n < 0 then \<lparr> bigint_sign = True, bigint_digits = [- n] \<rparr> else \<lparr> bigint_sign = False, bigint_digits = [n] \<rparr>)"
proof -
  have "(0x7FFFFFFFFFFFFFFF + 1 :: 64 word) = - 0x8000000000000000" by simp
  then show ?thesis by (simp add: FromInt64_def BigInt_Zero_eq one_digit Let_def)
qed

lemma FromUint64_eq: "FromUint64 n = \<lparr> bigint_sign = False, bigint_digits = (if n = 0 then [] else [n]) \<rparr>"
  by (simp add: FromUint64_def BigInt_Zero_eq one_digit)

lemma FromInt64_spec: "bigint_wf (FromInt64 n)" "bigint_value (FromInt64 n) = sint n"
proof -
  show "bigint_wf (FromInt64 n)" by (simp add: FromInt64_eq concrete_bigint)
  have "sint n < 0 \<Longrightarrow> n \<noteq> 0 \<Longrightarrow> uint (- n) = - sint n" using uint_negated [of n] by (simp add: sint_cases split: if_splits)
  moreover have "\<not> sint n < 0 \<Longrightarrow> uint n = sint n" using uint_lt2p [of n] by (auto simp: sint_cases split: if_splits)
  ultimately show "bigint_value (FromInt64 n) = sint n" by (auto simp: FromInt64_eq bigint_value_def signed_value_if simp flip: uint_nat)
qed

lemma FromUint64_spec: "bigint_wf (FromUint64 n)" "bigint_value (FromUint64 n) = uint n"
  by (auto simp: FromUint64_eq concrete_bigint simp flip: uint_nat)

lemma GetRawBits_spec:
  assumes "bigint_wf x"
  shows "GetRawBits x = (word_of_int (bigint_value x), length (bigint_digits x) \<le> 1)"
proof (cases "bigint_digits x")
  case (Cons d ds)
  have "of_nat digit_base = (0 :: 64 word)" by (simp add: digit_base_def)
  then have "word_of_int (ivalue (bigint_digits x)) = d" by (simp add: Cons)
  then have "word_of_int (bigint_value x) = (if bigint_sign x then - d else d)" by (simp add: bigint_value_def signed_value_if)
  moreover have "NOT d + 1 = - d" by (simp add: not_eq_complement)
  ultimately show ?thesis by (simp add: GetRawBits_def Cons)
qed (use assms value_zero [OF assms] in \<open>simp add: GetRawBits_def\<close>)

lemma long_value: "bigint_wf x \<Longrightarrow> 1 < length (bigint_digits x) \<Longrightarrow> 2 ^ 64 \<le> \<bar>bigint_value x\<bar>"
proof -
  assume w: "bigint_wf x" and l: "1 < length (bigint_digits x)"
  have "digit_base ^ 1 \<le> digit_base ^ (length (bigint_digits x) - 1)" using l by (intro power_increasing) (simp_all add: digit_base_def)
  also have "\<dots> \<le> digits_value (bigint_digits x)" using w l by (intro wf_nonzero) auto
  finally have "int digit_base \<le> ivalue (bigint_digits x)" by simp
  then show ?thesis unfolding value_abs by (simp add: digit_base_def)
qed

lemma As64_spec:
  assumes "bigint_wf x"
  shows "AsInt64 x = (word_of_int (bigint_value x), - (2 ^ 63) \<le> bigint_value x \<and> bigint_value x < 2 ^ 63)"
    and "AsUint64 x = (word_of_int (bigint_value x), 0 \<le> bigint_value x \<and> bigint_value x < 2 ^ 64)"
proof -
  note n = value_negative [OF assms] and z = value_zero [OF assms]
  consider "bigint_digits x = []" | d where "bigint_digits x = [d]" "d \<noteq> 0" | "1 < length (bigint_digits x)"
  proof (cases "bigint_digits x")
    case (Cons d ds)
    with assms that show thesis by (cases ds) (auto simp: bigint_wf_def IsDigitNormalized_def msd_def)
  qed blast
  then have "AsInt64 x = (word_of_int (bigint_value x), - (2 ^ 63) \<le> bigint_value x \<and> bigint_value x < 2 ^ 63) \<and>
    AsUint64 x = (word_of_int (bigint_value x), 0 \<le> bigint_value x \<and> bigint_value x < 2 ^ 64)"
  proof cases
    case 1
    then show ?thesis using z n by (simp add: AsInt64_def AsUint64_def GetRawBits_spec [OF assms])
  next
    case 2
    then have v: "bigint_value x = (if bigint_sign x then - uint d else uint d)" by (simp add: bigint_value_def signed_value_if flip: uint_nat)
    have u: "0 < uint d" "uint d < 2 ^ 64" using 2(2) uint_lt2p [of d] word_gt_0 [of d] by (simp_all add: word_less_def)
    have "word_of_int (bigint_value x) = (if bigint_sign x then - d else d)" unfolding v by simp
    then show ?thesis using 2 u uint_negated [OF 2(2)]
      by (auto simp: AsInt64_def AsUint64_def GetRawBits_spec [OF assms] v sint_cases split: if_splits)
  next
    case 3
    from long_value [OF assms 3] n show ?thesis
      using 3 by (auto simp: AsInt64_def AsUint64_def GetRawBits_spec [OF assms] abs_if split: if_splits)
  qed
  then show "AsInt64 x = (word_of_int (bigint_value x), - (2 ^ 63) \<le> bigint_value x \<and> bigint_value x < 2 ^ 63)"
    "AsUint64 x = (word_of_int (bigint_value x), 0 \<le> bigint_value x \<and> bigint_value x < 2 ^ 64)" by simp_all
qed

lemma words_roundtrip:
  assumes "bigint_wf x" and "ToWordsArray64 x (replicate (Words64Count x + k) 0) = (sign_bit, count, words)"
  shows "FromWords64 sign_bit (int count) words = Inr x"
proof -
  have e: "sign_bit = (if bigint_sign x then 1 else 0)" "count = length (bigint_digits x)" "take count words = bigint_digits x"
    using assms(2) by (auto simp: ToWordsArray64_def Words64Count_def Let_def split: if_splits)
  have l: "count \<le> kMaxLength" using assms(1) e(2) by (simp add: bigint_wf_def)
  show ?thesis
  proof (cases "count = 0")
    case True
    then have "x = BigInt_Zero" using assms(1) e(2) unfolding BigInt_Zero_eq by (cases x) (simp add: bigint_wf_def)
    with True show ?thesis by (simp add: FromWords64_def)
  next
    case False
    have "MakeImmutable (Inr \<lparr> bigint_sign = bigint_sign x, bigint_digits = bigint_digits x \<rparr>) = Inr x"
      using Canonicalize_wf [OF assms(1)] by (cases x) (simp add: MakeImmutable_def)
    with False l e show ?thesis by (cases "bigint_sign x") (simp_all add: FromWords64_def MutableBigInt_New_def)
  qed
qed

section \<open>Comparison and canonical form\<close>

lemma value_inject: "length X = length Y \<Longrightarrow> digits_value X = digits_value Y \<Longrightarrow> X = Y"
proof (induction X Y rule: list_induct2)
  case (Cons x X y Y)
  have "unat x = digits_value (x # X) mod digit_base" "unat y = digits_value (y # Y) mod digit_base"
    "digits_value X = digits_value (x # X) div digit_base" "digits_value Y = digits_value (y # Y) div digit_base"
    using unat_digit [of x] unat_digit [of y] by (simp_all add: digit_base_def)
  with Cons.prems have "unat x = unat y" "digits_value X = digits_value Y" by (simp_all only:)
  with Cons.IH show ?case by (simp add: word_unat_eq_iff)
qed simp

lemma normal_inject:
  assumes "IsDigitNormalized X" and "IsDigitNormalized Y" and "digits_value X = digits_value Y"
  shows "X = Y"
proof -
  have le: "length X \<le> length Y" if "IsDigitNormalized X" "digits_value X = digits_value Y" for X Y
  proof (rule ccontr)
    assume "\<not> length X \<le> length Y"
    then have "digit_base ^ length Y \<le> digit_base ^ (length X - 1)" by (intro power_increasing) (auto simp: digit_base_def)
    also have "\<dots> \<le> digits_value X" using \<open>\<not> length X \<le> length Y\<close> that(1) by (intro normal_lower) auto
    finally show False using value_less [of Y] that(2) by simp
  qed
  have "length X = length Y" using le [OF assms(1,3)] le [OF assms(2) assms(3) [symmetric]] by simp
  then show ?thesis using assms(3) by (rule value_inject)
qed

lemma wf_inject:
  assumes "bigint_wf x" and "bigint_wf y" and "bigint_value x = bigint_value y"
  shows "x = y"
proof -
  have "bigint_sign x = bigint_sign y" using value_negative assms by metis
  moreover have "ivalue (bigint_digits x) = ivalue (bigint_digits y)" using assms(3) by (metis value_abs)
  then have "bigint_digits x = bigint_digits y" using assms(1,2) by (intro normal_inject) (simp_all add: bigint_wf_def)
  ultimately show ?thesis by (cases x; cases y) simp
qed

lemma list_all_eq_zip: "length X = length Y \<Longrightarrow> list_all (\<lambda>(d, e). d = e) (zip X Y) \<longleftrightarrow> X = Y"
  by (induction X Y rule: list_induct2) simp_all

lemma EqualToBigInt_eq: "EqualToBigInt x y \<longleftrightarrow> x = y" for x y :: bigint
  by (cases x; cases y) (auto simp: EqualToBigInt_def list_all_eq_zip)

lemma CompareToBigInt_spec:
  assumes "bigint_wf x" and "bigint_wf y"
  shows "CompareToBigInt x y = (if bigint_value x < bigint_value y then kLessThan
    else if bigint_value x = bigint_value y then kEqual else kGreaterThan)"
proof (cases "bigint_sign x = bigint_sign y")
  case False
  then show ?thesis using value_negative [OF assms(1)] value_negative [OF assms(2)]
    by (cases "bigint_sign x") (auto simp: CompareToBigInt_def UnequalSign_def)
next
  case True
  let ?X = "bigint_digits x" and ?Y = "bigint_digits y"
  have "Compare ?X ?Y < 0 \<longleftrightarrow> ivalue ?X < ivalue ?Y" "Compare ?X ?Y = 0 \<longleftrightarrow> ivalue ?X = ivalue ?Y"
    by (simp_all add: Compare_less Compare_zero)
  then show ?thesis using True
    by (auto simp: CompareToBigInt_def AbsoluteGreater_def AbsoluteLess_def Let_def bigint_value_def signed_value_if)
qed

section \<open>The serialized form\<close>

lemma digit_of_bytes_slice:
  "digit_of_bytes (map (\<lambda>i. ucast (drop_bit (8 * i) d)) [j..<j + k]) = take_bit (8 * k) (drop_bit (8 * j) d)"
proof (induction k arbitrary: j)
  case (Suc k)
  have "push_bit 8 (take_bit (8 * k) (drop_bit (8 * Suc j) d)) OR ucast (ucast (drop_bit (8 * j) d) :: 8 word)
      = take_bit (8 * Suc k) (drop_bit (8 * j) d)"
    by (rule bit_eqI) (auto simp: bit_simps algebra_simps)
  with Suc.IH [of "Suc j"] show ?case by (simp add: upt_conv_Cons del: upt_Suc)
qed simp

lemma digit_bytes_roundtrip [simp]: "digit_of_bytes (digit_bytes d) = d" "length (digit_bytes d) = 8"
proof -
  have "take_bit 64 d = d" by (rule take_bit_word_eq_self) simp
  then show "digit_of_bytes (digit_bytes d) = d" using digit_of_bytes_slice [of d 0 8] by (simp add: digit_bytes_def)
qed (simp add: digit_bytes_def)

lemma digits_in_memory_roundtrip: "digits_in_memory (length ds) (concat (map digit_bytes ds)) = ds"
  by (induction ds) simp_all

lemma length_SerializeDigits: "length (SerializeDigits x) = length (bigint_digits x) * 8"
  by (simp add: SerializeDigits_def length_concat comp_def sum_list_triv)

lemma length_digits_in_memory [simp]: "length (digits_in_memory n bytes) = n"
  by (induction n arbitrary: bytes) simp_all

lemma field_above_sign:
  assumes "0 < k" and "k \<le> 2"
  shows "drop_bit k (((if s then 1 else 0) OR push_bit k v) AND push_bit k (mask 30)) = take_bit 30 (v :: 32 word)"
    and "bit ((if s then 1 else 0) OR push_bit k v) 0 = s"
  using assms by (auto intro!: bit_eqI simp: bit_simps)

lemma bitfield_roundtrip:
  assumes "n < 2 ^ 30"
  shows "LengthBits_decode (SignBits_encode s OR LengthBits_encode n) = n" and "SignBits_decode (SignBits_encode s OR LengthBits_encode n) = s"
proof -
  let ?w = "SignBits_encode s OR LengthBits_encode n"
  have m: "push_bit 30 (push_bit 1 1) - push_bit 1 1 = push_bit 1 (mask 30 :: 32 word)"
    by (simp add: mask_eq_exp_minus_1 push_bit_eq_mult)
  have "drop_bit 1 (?w AND push_bit 1 (mask 30)) = take_bit 30 (of_nat n :: 32 word)"
    unfolding SignBits_encode_def LengthBits_encode_def by (rule field_above_sign) simp_all
  moreover have "unat (take_bit 30 (of_nat n :: 32 word)) = n"
    unfolding unat_take unat_of_nat using assms by simp
  ultimately show "LengthBits_decode ?w = n" unfolding LengthBits_decode_def m by simp
  have "bit ?w 0 = s" unfolding SignBits_encode_def LengthBits_encode_def by (rule field_above_sign) simp_all
  moreover have "?w AND 1 \<noteq> 0 \<longleftrightarrow> bit ?w 0" by (simp add: and_one_eq bit_0 mod2_eq_if)
  ultimately show "SignBits_decode ?w = s" by (simp add: SignBits_decode_def)
qed

lemma FromSerializedDigits_cases:
  "FromSerializedDigits bitfield bytes = Inl EmptyHandle \<and> LengthBits_decode bitfield = 0 \<and> SignBits_decode bitfield \<or>
   FromSerializedDigits bitfield bytes = Inl Undefined \<and> LengthBits_decode bitfield > kMaxLength * 8 \<or>
   (\<exists>x. FromSerializedDigits bitfield bytes = Inr x \<and> bigint_wf x)"
proof -
  let ?n = "(LengthBits_decode bitfield + 8 - 1) div 8"
  consider "?n = 0 \<and> SignBits_decode bitfield" | "?n > kMaxLength" | "\<not> (?n = 0 \<and> SignBits_decode bitfield)" "?n \<le> kMaxLength" by linarith
  then show ?thesis
  proof cases
    case 1
    then have "LengthBits_decode bitfield + 8 - 1 < 8" by (auto simp: div_eq_0_iff)
    with 1 show ?thesis by (simp add: FromSerializedDigits_def)
  next
    case 2
    have "kMaxLength * 8 < LengthBits_decode bitfield"
    proof (rule ccontr)
      assume "\<not> kMaxLength * 8 < LengthBits_decode bitfield"
      then have "?n \<le> (kMaxLength * 8 + 7) div 8" by (intro div_le_mono) simp
      with 2 show False by simp
    qed
    moreover have "?n \<noteq> 0" using 2 by auto
    ultimately show ?thesis using 2 unfolding FromSerializedDigits_def Let_def by simp
  next
    case 3
    let ?x = "\<lparr> bigint_sign = SignBits_decode bitfield, bigint_digits = digits_in_memory ?n
      (take (LengthBits_decode bitfield) bytes @ replicate (?n * 8 - LengthBits_decode bitfield) 0) \<rparr>"
    have "FromSerializedDigits bitfield bytes = Inr (Canonicalize ?x)"
      unfolding FromSerializedDigits_def Let_def using 3 by (auto simp: MakeImmutable_def)
    moreover have "bigint_digits ?x = [] \<Longrightarrow> \<not> bigint_sign ?x" using 3(1) length_digits_in_memory [of ?n] by (metis list.size(3) select_convs(1,2))
    then have "bigint_wf (Canonicalize ?x)" using 3(2) by (intro Canonicalize_spec) simp_all
    ultimately show ?thesis by blast
  qed
qed

section \<open>Properties\<close>

text \<open>C26. \<^verbatim>\<open>BigInt.asIntN\<close> and \<^verbatim>\<open>BigInt.asUintN\<close> take the low bits of the two's complement number, signed or
  not, for every width and every well-formed BigInt; only the unsigned truncation of a negative
  number to more bits than a BigInt may have throws.\<close>

theorem bigint_truncation_exact:
  assumes "bigint_wf x"
  shows "computes False (BigInt_AsIntN n x) (if n = 0 then 0 else signed_take_bit (unat n - 1) (bigint_value x)) \<and>
    computes (beyond_limit (take_bit (unat n) (bigint_value x))) (BigInt_AsUintN n x) (take_bit (unat n) (bigint_value x))"
  using BigInt_AsIntN_spec [OF assms] BigInt_AsUintN_spec [OF assms] by blast

theorem bigint_truncation_exact_witness:
  "computes False (BigInt_AsIntN 3 \<lparr> bigint_sign = True, bigint_digits = [12] \<rparr>) (- 4) \<and>
   computes (beyond_limit 4) (BigInt_AsUintN 3 \<lparr> bigint_sign = True, bigint_digits = [12] \<rparr>) 4"
  using bigint_truncation_exact [of "\<lparr> bigint_sign = True, bigint_digits = [12] \<rparr>" 3]
  by (simp add: concrete_bigint signed_take_bit_eq_take_bit_shift take_bit_eq_mod)

text \<open>C27. Conversion to 64-bit integers keeps the low bits, and the flag tells exactly whether the number
  fits; from 64-bit integers and back is the identity, and so is the way through an array of words
  of the right size or larger.\<close>

theorem bigint_words_roundtrip:
  assumes "bigint_wf x" and "ToWordsArray64 x (replicate (Words64Count x + k) 0) = (sign_bit, count, words)"
  shows "AsInt64 x = (word_of_int (bigint_value x), - (2 ^ 63) \<le> bigint_value x \<and> bigint_value x < 2 ^ 63) \<and>
    AsUint64 x = (word_of_int (bigint_value x), 0 \<le> bigint_value x \<and> bigint_value x < 2 ^ 64) \<and>
    bigint_value (FromInt64 n) = sint n \<and> AsInt64 (FromInt64 n) = (n, True) \<and> AsUint64 (FromUint64 n) = (n, True) \<and>
    FromWords64 sign_bit (int count) words = Inr x"
proof -
  have "- (2 ^ 63) \<le> sint n \<and> sint n < 2 ^ 63" using sint_greater_eq [of n] sint_less [of n] by simp
  moreover have "0 \<le> uint n \<and> uint n < 2 ^ 64" using uint_lt2p [of n] by simp
  ultimately show ?thesis
    using As64_spec [OF assms(1)] As64_spec [OF FromInt64_spec(1)] As64_spec [OF FromUint64_spec(1)] words_roundtrip [OF assms]
    by (simp add: FromInt64_spec FromUint64_spec)
qed

theorem bigint_words_roundtrip_witness:
  "AsInt64 \<lparr> bigint_sign = True, bigint_digits = [0x8000000000000000] \<rparr> = (0x8000000000000000, True) \<and>
   FromWords64 1 1 [0x8000000000000000] = Inr \<lparr> bigint_sign = True, bigint_digits = [0x8000000000000000] \<rparr>"
  using bigint_words_roundtrip [of "\<lparr> bigint_sign = True, bigint_digits = [0x8000000000000000] \<rparr>" 0 1 1 "[0x8000000000000000]" 0]
  by (simp add: concrete_bigint ToWordsArray64_def Words64Count_def)

text \<open>Comparison of well-formed BigInts compares the numbers, and equality of sign and digits is
  equality of the numbers, because the canonical form is unique.\<close>

lemma bigint_comparison_exact:
  assumes "bigint_wf x" and "bigint_wf y"
  shows "CompareToBigInt x y = (if bigint_value x < bigint_value y then kLessThan
      else if bigint_value x = bigint_value y then kEqual else kGreaterThan) \<and>
    (EqualToBigInt x y \<longleftrightarrow> bigint_value x = bigint_value y)"
  using CompareToBigInt_spec [OF assms] wf_inject [OF assms] EqualToBigInt_eq by auto

text \<open>C28. A BigInt is read back from its serialized form. On arbitrary data deserialization delivers a
  well-formed BigInt, or rejects a negative zero; but it does not reject a length beyond the maximum,
  on which the allocation ends the process.\<close>

theorem bigint_serialization_roundtrip:
  assumes "bigint_wf x"
  shows "FromSerializedDigits (GetBitfieldForSerialization x) (SerializeDigits x) = Inr x \<and>
    length (SerializeDigits x) = DigitsByteLengthForBitfield (GetBitfieldForSerialization x) \<and>
    (FromSerializedDigits bitfield bytes = Inl EmptyHandle \<and> LengthBits_decode bitfield = 0 \<and> SignBits_decode bitfield \<or>
     FromSerializedDigits bitfield bytes = Inl Undefined \<and> LengthBits_decode bitfield > kMaxLength * 8 \<or>
     (\<exists>y. FromSerializedDigits bitfield bytes = Inr y \<and> bigint_wf y))"
proof -
  let ?n = "length (bigint_digits x)"
  have n: "?n \<le> kMaxLength" using assms by (simp add: bigint_wf_def)
  then have "?n * 8 < 2 ^ 30" by simp
  note b = bitfield_roundtrip [OF this, of "bigint_sign x", folded GetBitfieldForSerialization_def]
  have l: "length (SerializeDigits x) = ?n * 8" by (rule length_SerializeDigits)
  have "\<not> (?n = 0 \<and> bigint_sign x)" using assms by (simp add: bigint_wf_def)
  moreover have "(?n * 8 + 8 - 1) div 8 = ?n" by simp
  ultimately have "FromSerializedDigits (GetBitfieldForSerialization x) (SerializeDigits x) =
      MakeImmutable (Inr \<lparr> bigint_sign = bigint_sign x, bigint_digits = digits_in_memory ?n (SerializeDigits x) \<rparr>)"
    unfolding FromSerializedDigits_def Let_def b using n l by auto
  also have "\<dots> = Inr x"
    using Canonicalize_wf [OF assms] digits_in_memory_roundtrip [of "bigint_digits x"] by (cases x) (simp add: MakeImmutable_def SerializeDigits_def)
  finally show ?thesis using l b FromSerializedDigits_cases by (simp add: DigitsByteLengthForBitfield_def)
qed

theorem bigint_serialization_roundtrip_witness:
  "FromSerializedDigits (GetBitfieldForSerialization \<lparr> bigint_sign = True, bigint_digits = [258] \<rparr>)
     (SerializeDigits \<lparr> bigint_sign = True, bigint_digits = [258] \<rparr>) = Inr \<lparr> bigint_sign = True, bigint_digits = [258] \<rparr>"
  using bigint_serialization_roundtrip [of "\<lparr> bigint_sign = True, bigint_digits = [258] \<rparr>"] by (simp add: concrete_bigint)

end
