(* ===== verification/Bigint_FromString.thy ===== *)
theory Bigint_FromString
  imports Bigint_Bitwise
begin

text \<open>
  Big integers from strings: \<^verbatim>\<open>FromStringAccumulator\<close> of \<^verbatim>\<open>src/bigint/bigint.h\<close>, which collects
  the characters in parts of one digit each, and \<^verbatim>\<open>src/bigint/fromstring.cc\<close>, which combines
  the parts. A read or write outside of a buffer, a shift by the full width and the use of an
  uninitialized variable give \<^const>\<open>None\<close>.
\<close>

section \<open>The accumulator\<close>

abbreviation kStackParts :: nat where "kStackParts \<equiv> 8"

datatype Result = kOk | kMaxSizeExceeded

text \<open>\<open>stack_parts\<close> are the used ones, so that \<^verbatim>\<open>stack_parts_used_\<close> is its length.\<close>

record FromStringAccumulator =
  stack_parts :: digits
  heap_parts :: digits
  max_multiplier :: digit
  last_multiplier :: digit
  max_digits :: nat
  accumulator_result :: Result
  inline_everything :: bool
  accumulator_radix :: "8 word"

text \<open>The constructor leaves \<^verbatim>\<open>last_multiplier_\<close> uninitialized; it is written before it is read.\<close>

definition new_FromStringAccumulator :: "nat \<Rightarrow> FromStringAccumulator" where
  "new_FromStringAccumulator max_digits0 =
     \<lparr> stack_parts = [], heap_parts = [], max_multiplier = 0, last_multiplier = 0, max_digits = max max_digits0 kStackParts,
       accumulator_result = kOk, inline_everything = False, accumulator_radix = 0 \<rparr>"

definition ResultLength :: "FromStringAccumulator \<Rightarrow> nat" where
  "ResultLength acc = max (length (stack_parts acc)) (length (heap_parts acc))"

definition kCharValue :: "digit list" where
  "kCharValue =
    [255, 255, 255, 255, 255, 255, 255, 255,
     255, 255, 255, 255, 255, 255, 255, 255,
     255, 255, 255, 255, 255, 255, 255, 255,
     255, 255, 255, 255, 255, 255, 255, 255,
     255, 255, 255, 255, 255, 255, 255, 255,
     255, 255, 255, 255, 255, 255, 255, 255,
     0, 1, 2, 3, 4, 5, 6, 7,
     8, 9, 255, 255, 255, 255, 255, 255,
     255, 10, 11, 12, 13, 14, 15, 16,
     17, 18, 19, 20, 21, 22, 23, 24,
     25, 26, 27, 28, 29, 30, 31, 32,
     33, 34, 35, 255, 255, 255, 255, 255,
     255, 10, 11, 12, 13, 14, 15, 16,
     17, 18, 19, 20, 21, 22, 23, 24,
     25, 26, 27, 28, 29, 30, 31, 32,
     33, 34, 35, 255, 255, 255, 255, 255]"

definition kCharBits :: "nat list" where
  "kCharBits = [1, 2, 3, 0, 4, 0, 0, 0, 5]"

text \<open>The test that ends the number, with the value of the character if it is a digit.\<close>

definition char_digit :: "digit \<Rightarrow> uc32 \<Rightarrow> digit option" where
  "char_digit radix c =
     (if c > 127 then None else let d = kCharValue ! unat c in if d \<ge> radix then None else Some d)"

text \<open>\<^verbatim>\<open>AddPart(digit_t part)\<close>.\<close>

definition AddPart_digit :: "digit \<Rightarrow> FromStringAccumulator \<Rightarrow> bool \<times> FromStringAccumulator" where
  "AddPart_digit part acc =
     (if length (stack_parts acc) < kStackParts then (True, acc \<lparr> stack_parts := stack_parts acc @ [part] \<rparr>)
      else let acc = (if length (heap_parts acc) = 0 then acc \<lparr> heap_parts := stack_parts acc \<rparr> else acc)
           in if length (heap_parts acc) \<ge> max_digits acc then (False, acc \<lparr> accumulator_result := kMaxSizeExceeded \<rparr>)
              else (True, acc \<lparr> heap_parts := heap_parts acc @ [part] \<rparr>))"

text \<open>\<^verbatim>\<open>AddPart(digit_t multiplier, digit_t part, bool is_last)\<close>, with the inlined \<^verbatim>\<open>MultiplySingle\<close>.\<close>

fun AddPart_loop :: "digits \<Rightarrow> digit \<Rightarrow> digit \<Rightarrow> digit \<Rightarrow> digits \<times> digit \<times> digit" where
  "AddPart_loop [] multiplier carry high = ([], carry, high)"
| "AddPart_loop (p # ps) multiplier carry high =
     (let result = (ucast p :: twodigit) * ucast multiplier;
          new_high = ucast (drop_bit kDigitBits result); low = (ucast result :: digit);
          result = (ucast low :: twodigit) + ucast high + ucast carry;
          carry = ucast (drop_bit kDigitBits result)
      in case AddPart_loop ps multiplier carry new_high of (ps, r) \<Rightarrow> (ucast result # ps, r))"

definition AddPart :: "digit \<Rightarrow> digit \<Rightarrow> bool \<Rightarrow> FromStringAccumulator \<Rightarrow> (bool \<times> FromStringAccumulator) option" where
  "AddPart multiplier part is_last acc =
     (if inline_everything acc
      then case AddPart_loop (stack_parts acc) multiplier part 0 of (ps, carry, high) \<Rightarrow>
             if length (stack_parts acc) \<ge> kStackParts then None
             else Some (True, acc \<lparr> stack_parts := ps @ [carry + high] \<rparr>)
      else Some (AddPart_digit part
             (if is_last then acc \<lparr> last_multiplier := multiplier \<rparr> else acc \<lparr> max_multiplier := multiplier \<rparr>)))"

text \<open>One part of \<^verbatim>\<open>ParsePowerTwo\<close>: the unused bits, the part, whether the number ends, and the rest.\<close>

fun ParsePowerTwo_part :: "digit \<Rightarrow> nat \<Rightarrow> uc32 list \<Rightarrow> nat \<Rightarrow> digit \<Rightarrow> (nat \<times> digit \<times> bool \<times> uc32 list) option" where
  "ParsePowerTwo_part radix char_bits [] bits_left part = None"
| "ParsePowerTwo_part radix char_bits (c # cs) bits_left part =
     (case char_digit radix c of
        None \<Rightarrow> Some (bits_left, part, True, c # cs)
      | Some d \<Rightarrow>
          if bits_left < char_bits then Some (bits_left, part, False, c # cs)
          else let bits_left = bits_left - char_bits; part = push_bit char_bits part OR d
               in if cs = [] then Some (bits_left, part, True, []) else ParsePowerTwo_part radix char_bits cs bits_left part)"

definition char_bits :: "digit \<Rightarrow> nat" where
  "char_bits radix = (let i = unat (drop_bit 2 radix) in if i < length kCharBits then kCharBits ! i else 0)"

lemma char_bits_le: "char_bits radix \<le> 5"
proof -
  have "\<forall>b \<in> set kCharBits. b \<le> 5" by (simp add: kCharBits_def)
  then show ?thesis by (simp add: char_bits_def Let_def)
qed

lemma ParsePowerTwo_part_rest:
  "ParsePowerTwo_part radix b cs bits part = Some (l, p, fin, rest) \<Longrightarrow>
   length rest \<le> length cs \<and> (\<not> fin \<and> b \<le> bits \<longrightarrow> length rest < length cs)"
  by (induction radix b cs bits part rule: ParsePowerTwo_part.induct)
    (fastforce simp: Let_def split: option.splits if_splits)+

function ParsePowerTwo_loop :: "digit \<Rightarrow> uc32 list \<Rightarrow> FromStringAccumulator \<Rightarrow> (uc32 list \<times> FromStringAccumulator) option" where
  "ParsePowerTwo_loop radix cs acc =
     (case ParsePowerTwo_part radix (char_bits radix) cs kDigitBits 0 of
        None \<Rightarrow> None
      | Some (bits_left, part, fin, rest) \<Rightarrow>
          (case AddPart_digit part acc of (ok, acc) \<Rightarrow>
             if \<not> ok then Some (rest, acc)
             else if fin then Some (rest, acc \<lparr> last_multiplier := of_nat bits_left \<rparr>)
             else ParsePowerTwo_loop radix rest acc))"
  by pat_completeness auto

termination ParsePowerTwo_loop
proof (relation "measure (\<lambda>(radix, cs, acc). length cs)", goal_cases)
  case (2 radix cs acc x2 x y xa ya xb yb xc yc)
  then show ?case using ParsePowerTwo_part_rest [of radix "char_bits radix" cs kDigitBits 0] char_bits_le [of radix] by fastforce
qed simp

declare ParsePowerTwo_loop.simps [simp del]

definition ParsePowerTwo :: "uc32 list \<Rightarrow> digit \<Rightarrow> FromStringAccumulator \<Rightarrow> (uc32 list \<times> FromStringAccumulator) option" where
  "ParsePowerTwo cs radix acc =
     (if unat (drop_bit 2 radix) \<ge> length kCharBits then None
      else ParsePowerTwo_loop radix cs (acc \<lparr> accumulator_radix := ucast radix \<rparr>))"

text \<open>One part of \<^verbatim>\<open>Parse\<close>, which ends before the multiplier would overflow.\<close>

fun Parse_part :: "digit \<Rightarrow> uc32 list \<Rightarrow> digit \<Rightarrow> digit \<Rightarrow> (digit \<times> digit \<times> bool \<times> uc32 list) option" where
  "Parse_part radix [] multiplier part = None"
| "Parse_part radix (c # cs) multiplier part =
     (case char_digit radix c of
        None \<Rightarrow> Some (multiplier, part, True, c # cs)
      | Some d \<Rightarrow>
          if unat multiplier * unat radix \<ge> 2 ^ kDigitBits then Some (multiplier, part, False, c # cs)
          else let multiplier = multiplier * radix; part = part * radix + d
               in if cs = [] then Some (multiplier, part, True, []) else Parse_part radix cs multiplier part)"

lemma Parse_part_rest:
  "Parse_part radix cs m part = Some (m', p, fin, rest) \<Longrightarrow>
   length rest \<le> length cs \<and> (\<not> fin \<and> unat m * unat radix < 2 ^ kDigitBits \<longrightarrow> length rest < length cs)"
  by (induction radix cs m part rule: Parse_part.induct) (fastforce simp: Let_def split: option.splits if_splits)+

function Parse_loop :: "digit \<Rightarrow> uc32 list \<Rightarrow> FromStringAccumulator \<Rightarrow> (uc32 list \<times> FromStringAccumulator) option" where
  "Parse_loop radix cs acc =
     (case Parse_part radix cs 1 0 of
        None \<Rightarrow> None
      | Some (multiplier, part, fin, rest) \<Rightarrow>
          (case AddPart multiplier part fin acc of
             None \<Rightarrow> None
           | Some (ok, acc) \<Rightarrow> if \<not> ok \<or> fin then Some (rest, acc) else Parse_loop radix rest acc))"
  by pat_completeness auto

termination Parse_loop
proof (relation "measure (\<lambda>(radix, cs, acc). length cs)", goal_cases)
  case (2 radix cs acc x2 x y xa ya xb yb x2a xc yc)
  have "unat (1 :: digit) * unat radix < 2 ^ kDigitBits" using unsigned_less [of radix] by simp
  with 2 show ?case using Parse_part_rest [of radix cs 1 0] by fastforce
qed simp

declare Parse_loop.simps [simp del]

definition kInlineThreshold :: nat where
  "kInlineThreshold = kStackParts * kDigitBits * 100 div 517"

definition Parse :: "uc32 list \<Rightarrow> digit \<Rightarrow> FromStringAccumulator \<Rightarrow> (uc32 list \<times> FromStringAccumulator) option" where
  "Parse cs radix acc0 =
     (let acc = acc0 \<lparr> inline_everything := length cs \<le> kInlineThreshold \<rparr>
      in if \<not> inline_everything acc \<and> radix AND (radix - 1) = 0 then ParsePowerTwo cs radix acc else Parse_loop radix cs acc)"

section \<open>The classic algorithm\<close>

text \<open>Multiply what is there by the multiplier and add the next part; \<open>n\<close> is the length of \<^verbatim>\<open>already_set\<close>.\<close>

definition classic_step :: "digit \<Rightarrow> digit \<Rightarrow> digits \<times> nat \<Rightarrow> (digits \<times> nat) option" where
  "classic_step multiplier part s =
     (case s of (Z, n) \<Rightarrow>
        map_option (\<lambda>Z. (Z, n + 1)) (Add_digit (MultiplySingle (length Z) (take n Z) multiplier) part))"

fun classic_loop :: "digit \<Rightarrow> digits \<Rightarrow> digits \<times> nat \<Rightarrow> (digits \<times> nat) option" where
  "classic_loop multiplier [] s = Some s"
| "classic_loop multiplier (p # ps) s =
     (case classic_step multiplier p s of None \<Rightarrow> None | Some s \<Rightarrow> classic_loop multiplier ps s)"

text \<open>The parts between the first and the last get the same multiplier.\<close>

definition classic_parts :: "digits \<Rightarrow> digits \<Rightarrow> FromStringAccumulator \<Rightarrow> digits option" where
  "classic_parts Z parts acc =
     (case classic_loop (max_multiplier acc) (butlast (tl parts)) (Z, 1) of
        None \<Rightarrow> None
      | Some s \<Rightarrow> map_option fst (classic_step (last_multiplier acc) (last parts) s))"

definition FromStringClassic :: "nat \<Rightarrow> FromStringAccumulator \<Rightarrow> digits option" where
  "FromStringClassic Zlen acc =
     (let Z = stack_parts acc ! 0 # replicate (Zlen - 1) 0
      in if length (stack_parts acc) = 1 then Some Z
         else if length (heap_parts acc) = 0 then classic_parts Z (stack_parts acc) acc
         else classic_parts Z (heap_parts acc) acc)"

section \<open>The fast algorithm\<close>

text \<open>
  The three buffers of \<^verbatim>\<open>FromStringLarge\<close> hold chunks of \<^verbatim>\<open>part_len\<close> digits at the same places, so
  that a pass runs through all three in step: \<open>P\<close>, \<open>M\<close> and \<open>T\<close> are what is left of the buffers
  of the parts, the multipliers and of the one to be filled. The new multipliers overwrite the
  old parts. The pass returns the new parts and the new multipliers. In the first pass the chunks
  are single digits and the multipliers are known; \<open>prev\<close> is the multiplier written last.
\<close>

fun large_first :: "digit \<Rightarrow> digit \<Rightarrow> nat \<Rightarrow> nat \<Rightarrow> digits \<Rightarrow> digit \<times> digit \<Rightarrow> digits \<times> digits" where
  "large_first max_mult last_mult num_parts i (p_in # p_in2 # P) prev =
     (let m_in = max_mult; m_in2 = (if i = num_parts - 2 then last_mult else max_mult)
      in case digit_mul p_in m_in2 of (p_low, p_high) \<Rightarrow>
         case digit_add2 p_low p_in2 of (p0, carry) \<Rightarrow>
         let (m0, m1) = (if i > 0 then if i > 2 \<and> m_in2 \<noteq> last_mult then prev else digit_mul m_in m_in2
                         else (p_in, p_in2))
         in case large_first max_mult last_mult num_parts (i + 2) P (m0, m1) of
              (new_parts, new_multipliers) \<Rightarrow> (p0 # (p_high + carry) # new_parts, m0 # m1 # new_multipliers))"
| "large_first max_mult last_mult num_parts i [p] prev = ([p], [last_mult])"
| "large_first max_mult last_mult num_parts i [] prev = ([], [])"

text \<open>
  The other passes. A sub-vector at the end of a buffer is cut to what is there. The copy of the
  previous multiplier, which is compared with the present one, writes \<^verbatim>\<open>new_part_len\<close> digits.
\<close>

function large_pass ::
    "nat \<Rightarrow> nat \<Rightarrow> nat \<Rightarrow> digits \<Rightarrow> digits \<Rightarrow> digits \<Rightarrow> digits \<times> digits \<times> digits \<Rightarrow> (digits \<times> digits) option" where
  "large_pass part_len num_parts i P M T prev =
     (if i + 1 < num_parts
      then let new_part_len = part_len * 2;
               p_in = take part_len P; p_in2 = take part_len (drop part_len P);
               m_in = take part_len M; m_in2 = take part_len (drop part_len M);
               p_out = fst (AddAndReturnOverflow (Multiply (take new_part_len T) p_in m_in2) p_in2);
               m_old = take new_part_len P
           in case (if i > 0
                    then case prev of (m_in_prev, m_in2_prev, m_out_prev) \<Rightarrow>
                           if i > 2 \<and> Compare m_in m_in_prev = 0 \<and> Compare m_in2 m_in2_prev = 0
                           then if length m_old < new_part_len then None else Some m_out_prev
                           else Some (Multiply m_old m_in m_in2)
                    else Some m_old) of
                None \<Rightarrow> None
              | Some m_out \<Rightarrow>
                  map_option (\<lambda>(new_parts, new_multipliers). (p_out @ new_parts, m_out @ new_multipliers))
                    (large_pass part_len num_parts (i + 2) (drop new_part_len P) (drop new_part_len M) (drop new_part_len T)
                       (m_in, m_in2, m_out))
      else if i < num_parts
           then let out_len = min (part_len * 2) (length P); p_in = take part_len P; m_in = take part_len M
                in Some (pad out_len p_in @ drop out_len T, pad out_len m_in @ drop out_len P)
           else Some (T, P))"
  by pat_completeness auto

termination large_pass
  by (relation "measure (\<lambda>(part_len, num_parts, i, rest). num_parts - i)") auto

declare large_pass.simps [simp del]

text \<open>The buffers change their roles after each pass. They are named to see where the result is.\<close>

datatype buffer = HeapParts | MultipliersStorage | ResultZ

function large_loop ::
    "nat \<Rightarrow> nat \<Rightarrow> buffer \<times> digits \<Rightarrow> buffer \<times> digits \<Rightarrow> buffer \<times> digits \<Rightarrow> (buffer \<times> digits) option" where
  "large_loop num_parts part_len parts multipliers temp =
     (if num_parts > 1
      then case large_pass part_len num_parts 0 (snd parts) (snd multipliers) (snd temp) ([], [], []) of
             None \<Rightarrow> None
           | Some (new_parts, new_multipliers) \<Rightarrow>
               large_loop ((num_parts + 1) div 2) (part_len * 2) (fst temp, new_parts) (fst parts, new_multipliers) multipliers
      else Some parts)"
  by pat_completeness auto

termination large_loop
  by (relation "measure (\<lambda>(num_parts, rest). num_parts)") auto

declare large_loop.simps [simp del]

definition FromStringLarge :: "digits \<Rightarrow> FromStringAccumulator \<Rightarrow> digits option" where
  "FromStringLarge Z acc =
     (let num_parts = length (heap_parts acc); multipliers_storage = ScratchDigits num_parts
      in case large_first (max_multiplier acc) (last_multiplier acc) num_parts 0 (heap_parts acc) (0, 0) of
           (new_parts, new_multipliers) \<Rightarrow>
             case large_loop ((num_parts + 1) div 2) 2 (ResultZ, new_parts) (HeapParts, new_multipliers)
                    (MultipliersStorage, multipliers_storage) of
               None \<Rightarrow> None
             | Some (buf, parts) \<Rightarrow>
                 Some (if buf \<noteq> ResultZ then pad (length Z) parts else parts @ drop num_parts Z))"

section \<open>Radixes that are powers of two\<close>

text \<open>
  The inner loop fills \<^verbatim>\<open>digit\<close> from the parts that are left, the last one first, and also returns
  the rest of the part that did not fit.
\<close>

fun power_two_fill :: "nat \<Rightarrow> digits \<Rightarrow> digit \<Rightarrow> nat \<Rightarrow> (digits \<times> digit \<times> digit \<times> nat) option" where
  "power_two_fill max_part_bits [] digit digit_bits = None"
| "power_two_fill max_part_bits (part # parts) digit digit_bits =
     (let part_bits = max_part_bits; digit = digit OR push_bit digit_bits part; part_shift = kDigitBits - digit_bits
      in if part_shift > part_bits
         then if parts = [] then Some ([], digit, 0, 0)
              else if digit_bits + part_bits < kDigitBits then power_two_fill max_part_bits parts digit (digit_bits + part_bits)
              else Some (parts, digit, 0, 0)
         else if part_shift = kDigitBits then None
         else Some (parts, digit, drop_bit part_shift part, part_bits - part_shift))"

lemma power_two_fill_rest: "power_two_fill b ps d n = Some (rest, r) \<Longrightarrow> length rest < length ps"
  by (induction b ps d n rule: power_two_fill.induct) (fastforce simp: Let_def split: if_splits)+

text \<open>The outer loop; the inner one must be entered, or \<^verbatim>\<open>part\<close> is not initialized.\<close>

function power_two_loop :: "nat \<Rightarrow> digits \<Rightarrow> digit \<Rightarrow> nat \<Rightarrow> digits option" where
  "power_two_loop max_part_bits parts digit digit_bits =
     (if parts = [] then Some (if digit_bits > 0 then [digit] else [])
      else if digit_bits \<ge> kDigitBits then None
      else case power_two_fill max_part_bits parts digit digit_bits of
             None \<Rightarrow> None
           | Some (parts, z, digit, digit_bits) \<Rightarrow> map_option (Cons z) (power_two_loop max_part_bits parts digit digit_bits))"
  by pat_completeness auto

termination power_two_loop
  by (relation "measure (\<lambda>(b, parts, rest). length parts)") (auto dest: power_two_fill_rest)

declare power_two_loop.simps [simp del]

definition FromStringBasePowerOfTwo :: "nat \<Rightarrow> FromStringAccumulator \<Rightarrow> digits option" where
  "FromStringBasePowerOfTwo Zlen acc =
     (let parts = rev (if length (heap_parts acc) > 0 then heap_parts acc else stack_parts acc);
          radix = accumulator_radix acc;
          char_bits = BitLength (unat radix - 1);
          unused_last_part_bits = unat (last_multiplier acc);
          unused_part_bits = kDigitBits mod char_bits;
          max_part_bits = kDigitBits - unused_part_bits
      in if unused_last_part_bits = 0 then Some (pad Zlen parts)
         else map_option (pad Zlen)
           (power_two_loop max_part_bits (tl parts) (hd parts) (kDigitBits - unused_last_part_bits)))"

definition IsPowerOfTwo :: "nat \<Rightarrow> bool" where
  "IsPowerOfTwo n \<longleftrightarrow> n > 0 \<and> n AND (n - 1) = 0"

abbreviation kFromStringLargeThreshold :: nat where "kFromStringLargeThreshold \<equiv> 300"

text \<open>\<^verbatim>\<open>ProcessorImpl::FromString\<close>: \<open>Z\<close> is the allocated result with its old contents.\<close>

definition FromString :: "digits \<Rightarrow> FromStringAccumulator \<Rightarrow> digits option" where
  "FromString Z acc =
     (if inline_everything acc then Some (pad (length Z) (stack_parts acc))
      else if length (stack_parts acc) = 0 then Some (replicate (length Z) 0)
      else if IsPowerOfTwo (unat (accumulator_radix acc)) then FromStringBasePowerOfTwo (length Z) acc
      else if ResultLength acc < kFromStringLargeThreshold then FromStringClassic (length Z) acc
      else FromStringLarge Z acc)"

section \<open>The number a string stands for\<close>

text \<open>The digits of all radixes up to 36: the decimal digits, then the letters in either case; 255 is the value
  of a character that is no digit in any of them.\<close>

definition char_value :: "uc32 \<Rightarrow> nat" where
  "char_value c =
     (if 0x30 \<le> c \<and> c \<le> 0x39 then unat c - 0x30
      else if 0x41 \<le> c \<and> c \<le> 0x5A then unat c - 0x41 + 10
      else if 0x61 \<le> c \<and> c \<le> 0x7A then unat c - 0x61 + 10
      else 255)"

definition valid_char :: "digit \<Rightarrow> uc32 \<Rightarrow> bool" where
  "valid_char radix c \<longleftrightarrow> c \<le> 127 \<and> char_value c < unat radix"

definition horner :: "nat \<Rightarrow> nat list \<Rightarrow> nat" where
  "horner b ds = foldl (\<lambda>v d. v * b + d) 0 ds"

definition chars_value :: "digit \<Rightarrow> uc32 list \<Rightarrow> nat" where
  "chars_value radix cs = horner (unat radix) (map char_value cs)"

text \<open>The table of the code has these values.\<close>

lemma kCharValue_spec: "n < 128 \<Longrightarrow> kCharValue ! n = of_nat (char_value (of_nat n))"
proof -
  have "list_all (\<lambda>n. kCharValue ! n = of_nat (char_value (of_nat n))) [0..<128]" by code_simp
  then show "n < 128 \<Longrightarrow> kCharValue ! n = of_nat (char_value (of_nat n))" by (simp add: list_all_iff)
qed

lemma char_value_le: "char_value c \<le> 255"
  by (auto simp: char_value_def word_le_nat_alt)

lemma char_digit_spec: "char_digit radix c = (if valid_char radix c then Some (of_nat (char_value c)) else None)"
proof (cases "c > 127")
  case True
  then show ?thesis by (simp add: char_digit_def valid_char_def not_le)
next
  case False
  then have "kCharValue ! unat c = of_nat (char_value c)" using kCharValue_spec [of "unat c"] by (simp add: word_less_nat_alt)
  moreover have "unat (of_nat (char_value c) :: digit) = char_value c" using char_value_le [of c] by (simp add: unat_of_nat)
  ultimately show ?thesis using False by (auto simp: char_digit_def valid_char_def Let_def word_le_nat_alt word_less_nat_alt)
qed

lemma valid_char_digit: "valid_char radix c \<longleftrightarrow> char_digit radix c \<noteq> None"
  by (simp add: char_digit_spec)

lemma char_digit_value: "char_digit r c = Some d \<Longrightarrow> char_value c = unat d"
  using char_value_le [of c] by (auto simp: char_digit_spec unat_of_nat split: if_splits)

lemma foldl_horner: "foldl (\<lambda>v d. v * b + d) a ds = a * b ^ length ds + foldl (\<lambda>v d. v * b + d) (0 :: nat) ds"
proof (induction ds arbitrary: a)
  case (Cons d ds)
  show ?case using Cons [of "a * b + d"] Cons [of d] by (simp add: distrib_right mult.assoc)
qed simp

lemma horner_simps [simp]: "horner b [] = 0" "horner b (d # ds) = d * b ^ length ds + horner b ds"
  using foldl_horner [of b d ds] by (simp_all add: horner_def)

lemma horner_append: "horner b (xs @ ys) = horner b xs * b ^ length ys + horner b ys"
  by (induction xs) (simp_all add: algebra_simps power_add)

lemma horner_less:
  assumes "\<forall>d \<in> set ds. d < b"
  shows "horner b ds < b ^ length ds"
  using assms
proof (induction ds)
  case (Cons d ds)
  have "d * b ^ length ds + horner b ds < (d + 1) * b ^ length ds" using Cons by simp
  also have "\<dots> \<le> b * b ^ length ds" using Cons.prems by (intro mult_right_mono) auto
  finally show ?case by simp
qed simp

lemma chars_value_append: "chars_value r (xs @ ys) = chars_value r xs * unat r ^ length ys + chars_value r ys"
  by (simp add: chars_value_def horner_append)

lemma chars_value_less:
  assumes "\<forall>c \<in> set cs. valid_char r c"
  shows "chars_value r cs < unat r ^ length cs"
proof -
  have "\<forall>d \<in> set (map char_value cs). d < unat r" using assms by (auto simp: valid_char_def)
  from horner_less [OF this] show ?thesis by (simp add: chars_value_def)
qed

subsection \<open>What a part is\<close>

lemma power_le_of_bracket:
  assumes "(b :: nat) ^ j < n" and "n \<le> b ^ Suc k" and "2 \<le> b"
  shows "j \<le> k"
proof -
  have "b ^ j < b ^ Suc k" using assms(1,2) by linarith
  then have "j < Suc k" using assms(3) power_strict_increasing_iff [of b j "Suc k"] by simp
  then show ?thesis by simp
qed

text \<open>What the loops of \<^verbatim>\<open>Parse\<close> and \<^verbatim>\<open>ParsePowerTwo\<close> read as one part, after the characters \<open>pre\<close>: the
  power of the radix, the part, whether the number ends here, and the rest.\<close>

definition reads_part :: "digit \<Rightarrow> nat \<Rightarrow> uc32 list \<Rightarrow> uc32 list \<Rightarrow> nat \<Rightarrow> digit \<Rightarrow> bool \<Rightarrow> uc32 list \<Rightarrow> bool" where
  "reads_part r full pre cs m p fin rest \<longleftrightarrow>
     (\<exists>used. cs = used @ rest \<and> (\<forall>c \<in> set used. valid_char r c) \<and> m = unat r ^ length (pre @ used) \<and>
        unat p = chars_value r (pre @ used) \<and> (fin \<longleftrightarrow> rest = [] \<or> \<not> valid_char r (hd rest)) \<and> (\<not> fin \<longrightarrow> m = full) \<and>
        m \<le> full \<and> (pre @ used = [] \<longrightarrow> fin))"

lemma reads_part_stop:
  assumes "m = unat r ^ length pre" and "unat p = chars_value r pre" and "fin \<longleftrightarrow> rest = [] \<or> \<not> valid_char r (hd rest)"
    and "\<not> fin \<longrightarrow> m = full" and "m \<le> full" and "pre = [] \<longrightarrow> fin"
  shows "reads_part r full pre rest m p fin rest"
  using assms unfolding reads_part_def by (intro exI [of _ "[]"]) simp

lemma reads_part_on:
  assumes "reads_part r full (pre @ [c]) cs m p fin rest" and "valid_char r c"
  shows "reads_part r full pre (c # cs) m p fin rest"
proof -
  obtain used where "cs = used @ rest" "\<forall>c \<in> set used. valid_char r c" "m = unat r ^ length ((pre @ [c]) @ used)"
    "unat p = chars_value r ((pre @ [c]) @ used)" "fin \<longleftrightarrow> rest = [] \<or> \<not> valid_char r (hd rest)" "\<not> fin \<longrightarrow> m = full" "m \<le> full"
    using assms(1) unfolding reads_part_def by blast
  then show ?thesis using assms(2) unfolding reads_part_def by (intro exI [of _ "c # used"]) simp
qed

lemma chars_value_snoc: "char_digit r c = Some d \<Longrightarrow> chars_value r (pre @ [c]) = chars_value r pre * unat r + unat d"
  by (simp add: chars_value_append) (simp add: chars_value_def char_digit_value)

lemma Parse_part_spec:
  assumes "2 \<le> unat r" and "unat r ^ K < 2 ^ 64" and "2 ^ 64 \<le> unat r ^ Suc K" and "0 < K"
    and "cs \<noteq> []" and "unat m = unat r ^ length pre" and "unat p = chars_value r pre" and "\<forall>c \<in> set pre. valid_char r c"
  shows "\<exists>m' p' fin rest. Parse_part r cs m p = Some (m', p', fin, rest) \<and>
    reads_part r (unat r ^ K) pre cs (unat m') p' fin rest"
  using assms
proof (induction r cs m p arbitrary: pre rule: Parse_part.induct)
  case (2 r c cs m p)
  have "unat m < 2 ^ 64" using unsigned_less [of m] by simp
  then have "length pre \<le> K" using power_le_of_bracket [of "unat r" "length pre" "2 ^ 64" K] 2(2,4,7) by simp
  then have full: "unat m \<le> unat r ^ K" using 2(2,7) by (simp add: power_increasing)
  show ?case
  proof (cases "char_digit r c")
    case None
    then show ?thesis using reads_part_stop [OF 2(7,8), of True "c # cs"] full by (auto simp: valid_char_digit)
  next
    case (Some d)
    then have v: "valid_char r c" by (simp add: valid_char_digit)
    show ?thesis
    proof (cases "unat m * unat r \<ge> 2 ^ 64")
      case True
      have "2 ^ 64 \<le> unat r ^ Suc (length pre)" using True 2(7) by (simp add: mult.commute)
      then have "K \<le> length pre" using power_le_of_bracket [of "unat r" K "2 ^ 64" "length pre"] 2(2,3) by simp
      with \<open>length pre \<le> K\<close> have "unat m = unat r ^ K" "pre \<noteq> []" using 2(5,7) by auto
      then have "reads_part r (unat r ^ K) pre (c # cs) (unat m) p False (c # cs)" using 2(7,8) v by (intro reads_part_stop) simp_all
      then show ?thesis using True Some by auto
    next
      case False
      have V: "\<forall>c \<in> set (pre @ [c]). valid_char r c" using 2(9) v by simp
      have m: "unat (m * r) = unat r ^ length (pre @ [c])" using False 2(7) by (simp add: unat_mult_lem [THEN iffD1])
      have "unat p * unat r + unat d < unat m * unat r"
        using chars_value_less [OF V] chars_value_snoc [OF Some, of pre] 2(7,8) by (simp add: mult.commute)
      then have "unat p * unat r + unat d < 2 ^ 64" using False by linarith
      then have p: "unat (p * r + d) = chars_value r (pre @ [c])"
        using chars_value_snoc [OF Some, of pre] 2(8) by (simp add: unat_word_ariths)
      show ?thesis
      proof (cases "cs = []")
        case True
        have "unat (m * r) < 2 ^ 64" using unat_digit [of "m * r"] by (simp add: digit_base_def)
        then have "length (pre @ [c]) \<le> K" using power_le_of_bracket [OF _ 2(4,2)] m by simp
        then have "unat r ^ length (pre @ [c]) \<le> unat r ^ K" using 2(2) by (intro power_increasing) simp_all
        then have "reads_part r (unat r ^ K) (pre @ [c]) [] (unat (m * r)) (p * r + d) True []"
          using m p by (intro reads_part_stop) simp_all
        then show ?thesis using reads_part_on v Some False True by fastforce
      next
        case cs: False
        from "2.IH" [OF Some _ refl refl cs 2(2-5) cs m p V] False
        obtain m' p' fin rest where "Parse_part r cs (m * r) (p * r + d) = Some (m', p', fin, rest)"
          "reads_part r (unat r ^ K) (pre @ [c]) cs (unat m') p' fin rest" by auto
        then show ?thesis using reads_part_on v Some False cs by fastforce
      qed
    qed
  qed
qed simp

lemma ParsePowerTwo_part_spec:
  assumes "unat r = 2 ^ b" and "0 < b" and "b \<le> 64" and "cs \<noteq> []" and "bits + b * length pre = 64" and "unat p = chars_value r pre"
    and "\<forall>c \<in> set pre. valid_char r c"
  shows "\<exists>bits' p' fin rest. ParsePowerTwo_part r b cs bits p = Some (bits', p', fin, rest) \<and> bits' \<le> 64 \<and>
    reads_part r (unat r ^ (64 div b)) pre cs (2 ^ (64 - bits')) p' fin rest"
  using assms
proof (induction r b cs bits p arbitrary: pre rule: ParsePowerTwo_part.induct)
  case (2 r b c cs bits p)
  have pw: "unat r ^ n = 2 ^ (b * n)" for n using 2(2) by (simp add: power_mult)
  have le: "(2 :: nat) ^ (64 - bits) = unat r ^ length pre" using 2(6) unfolding pw by simp
  have "length pre \<le> 64 div b" using 2(3,6) by (simp add: less_eq_div_iff_mult_less_eq mult.commute)
  then have full: "unat r ^ length pre \<le> unat r ^ (64 div b)" using 2(2) by (intro power_increasing) simp_all
  show ?case
  proof (cases "char_digit r c")
    case None
    then show ?thesis using reads_part_stop [OF le 2(7), of True "c # cs"] full le 2(6) by (auto simp: valid_char_digit)
  next
    case (Some d)
    then have v: "valid_char r c" by (simp add: valid_char_digit)
    show ?thesis
    proof (cases "bits < b")
      case True
      then have "64 div b = length pre" using 2(3,6) by (intro div_nat_eqI) auto
      moreover have "pre \<noteq> []" using True 2(4,6) by auto
      ultimately have "reads_part r (unat r ^ (64 div b)) pre (c # cs) (2 ^ (64 - bits)) p False (c # cs)"
        using 2(7) v le by (intro reads_part_stop) simp_all
      then show ?thesis using True Some 2(6) by auto
    next
      case False
      have V: "\<forall>c \<in> set (pre @ [c]). valid_char r c" using 2(8) v by simp
      have bits: "bits - b + b * length (pre @ [c]) = 64" using False 2(6) by simp
      have d: "unat d < 2 ^ b" using chars_value_less [of "[c]" r] v char_digit_value [OF Some] 2(2) by (simp add: chars_value_def)
      then have "take_bit b d = d" by (metis take_bit_nat_eq_self unsigned_take_bit_eq word_unat_eq_iff)
      then have o: "push_bit b p OR d = push_bit b p + d" using push_or_add [of b p d] by simp
      have "unat p * 2 ^ b + unat d < 2 ^ (b * length (pre @ [c]))"
        using chars_value_less [OF V] chars_value_snoc [OF Some, of pre] 2(2,7) pw by (simp add: power_add)
      also have "\<dots> \<le> 2 ^ 64" using bits by (intro power_increasing) auto
      finally have "unat (push_bit b p + d) = unat p * 2 ^ b + unat d"
        by (simp add: unat_word_ariths unat_push)
      then have p: "unat (push_bit b p OR d) = chars_value r (pre @ [c])"
        using chars_value_snoc [OF Some, of pre] 2(2,7) o by simp
      show ?thesis
      proof (cases "cs = []")
        case True
        have "length (pre @ [c]) \<le> 64 div b" using 2(3) bits by (simp add: less_eq_div_iff_mult_less_eq mult.commute)
        then have "unat r ^ length (pre @ [c]) \<le> unat r ^ (64 div b)" using 2(2) by (intro power_increasing) simp_all
        moreover have "2 ^ (64 - (bits - b)) = unat r ^ length (pre @ [c])" using bits unfolding pw by (metis add_diff_cancel_left')
        ultimately have "reads_part r (unat r ^ (64 div b)) (pre @ [c]) [] (2 ^ (64 - (bits - b))) (push_bit b p OR d) True []"
          using p by (intro reads_part_stop) simp_all
        then have "reads_part r (unat r ^ (64 div b)) pre [c] (2 ^ (64 - (bits - b))) (push_bit b p OR d) True []"
          using v by (rule reads_part_on)
        moreover have "ParsePowerTwo_part r b (c # cs) bits p = Some (bits - b, push_bit b p OR d, True, [])"
          using Some False True by simp
        moreover have "bits - b \<le> 64" using bits by linarith
        ultimately show ?thesis using True by blast
      next
        case cs: False
        from "2.IH" [OF Some False refl refl cs 2(2-4) cs bits p V]
        obtain bits' p' fin rest where "ParsePowerTwo_part r b cs (bits - b) (push_bit b p OR d) = Some (bits', p', fin, rest)"
          "bits' \<le> 64" "reads_part r (unat r ^ (64 div b)) (pre @ [c]) cs (2 ^ (64 - bits')) p' fin rest" by auto
        moreover from reads_part_on [OF this(3) v]
        have "reads_part r (unat r ^ (64 div b)) pre (c # cs) (2 ^ (64 - bits')) p' fin rest" .
        moreover have "ParsePowerTwo_part r b (c # cs) bits p = ParsePowerTwo_part r b cs (bits - b) (push_bit b p OR d)"
          using Some False cs by simp
        ultimately show ?thesis by auto
      qed
    qed
  qed
qed simp

subsection \<open>The loops over the parts\<close>

text \<open>
  Both loops read parts and add them to the accumulator until the number ends or the accumulator
  refuses. What they read is a list of parts that are all full but the last, and their number is
  that of the characters.
\<close>

definition parts_of :: "digit \<Rightarrow> nat \<Rightarrow> digits \<Rightarrow> nat \<Rightarrow> uc32 list \<Rightarrow> bool" where
  "parts_of r full ps m cs \<longleftrightarrow>
     ps \<noteq> [] \<and> (\<forall>p \<in> set (butlast ps). unat p < full) \<and> unat (last ps) < m \<and> m \<le> full \<and>
     (\<exists>j. m = unat r ^ j \<and> (j = 0 \<longrightarrow> length ps = 1)) \<and>
     unat r ^ length (takeWhile (valid_char r) cs) = full ^ (length ps - 1) * m \<and>
     chars_value r (takeWhile (valid_char r) cs) = horner full (map unat (butlast ps)) * m + unat (last ps)"

fun add_all :: "('i \<Rightarrow> digit \<Rightarrow> bool \<Rightarrow> 'a \<Rightarrow> (bool \<times> 'a) option) \<Rightarrow> ('i \<times> digit) list \<Rightarrow> 'a \<Rightarrow> (bool \<times> 'a) option" where
  "add_all add [] acc = Some (True, acc)"
| "add_all add ((i, p) # items) acc =
     (case add i p (items = []) acc of
        None \<Rightarrow> None
      | Some (ok, acc) \<Rightarrow> if ok then add_all add items acc else Some (False, acc))"

lemma parts_of_single:
  assumes "reads_part r full [] cs m p True rest" and "2 \<le> unat r"
  shows "parts_of r full [p] m cs \<and> rest = dropWhile (valid_char r) cs"
proof -
  obtain used where u: "cs = used @ rest" "\<forall>c \<in> set used. valid_char r c" "m = unat r ^ length used" "unat p = chars_value r used"
    "rest = [] \<or> \<not> valid_char r (hd rest)" "m \<le> full" using assms(1) unfolding reads_part_def by auto
  have t: "takeWhile (valid_char r) rest = [] \<and> dropWhile (valid_char r) rest = rest" using u(5) by (cases rest) auto
  with u show ?thesis using chars_value_less [OF u(2)]
    by (auto simp: parts_of_def takeWhile_append dropWhile_append)
qed

lemma parts_of_Cons:
  assumes "reads_part r full [] cs full p False rest" and "parts_of r full ps m rest" and "2 \<le> unat r"
  shows "parts_of r full (p # ps) m cs \<and> dropWhile (valid_char r) rest = dropWhile (valid_char r) cs"
proof -
  obtain used where u: "cs = used @ rest" "\<forall>c \<in> set used. valid_char r c" "full = unat r ^ length used" "unat p = chars_value r used"
    "valid_char r (hd rest)" "rest \<noteq> []" using assms(1) unfolding reads_part_def by auto
  let ?vs = "takeWhile (valid_char r) rest"
  have P: "ps \<noteq> []" "\<forall>p \<in> set (butlast ps). unat p < full" "unat (last ps) < m" "m \<le> full"
    "unat r ^ length ?vs = full ^ (length ps - 1) * m" "chars_value r ?vs = horner full (map unat (butlast ps)) * m + unat (last ps)"
    using assms(2) by (auto simp: parts_of_def)
  have t: "takeWhile (valid_char r) cs = used @ ?vs" "dropWhile (valid_char r) cs = dropWhile (valid_char r) rest"
    using u(1,2) by (auto simp: takeWhile_append dropWhile_append)
  have "?vs \<noteq> []" using u(5,6) by (cases rest) auto
  obtain j where j: "m = unat r ^ j" "j = 0 \<longrightarrow> length ps = 1" using assms(2) by (auto simp: parts_of_def)
  have "j \<noteq> 0"
  proof
    assume "j = 0"
    then have "unat r ^ length ?vs = 1" using j P(5) by simp
    then show False using \<open>?vs \<noteq> []\<close> assms(3) by simp
  qed
  have n: "length ps = Suc (length ps - 1)" using P(1) by (cases ps) auto
  have "unat r ^ length (used @ ?vs) = full ^ length ps * m"
    using u(3) P(5) by (subst n) (simp add: power_add)
  moreover have "chars_value r (used @ ?vs) = horner full (map unat (butlast (p # ps))) * m + unat (last (p # ps))"
    using P(1,5,6) u(4) by (simp add: chars_value_append algebra_simps)
  moreover have "unat p < full" using chars_value_less [OF u(2)] u(3,4) by simp
  ultimately show ?thesis using P(1-4) j(1) \<open>j \<noteq> 0\<close> t by (auto simp: parts_of_def)
qed

locale part_loop =
  fixes supports :: "digit \<Rightarrow> bool" and full :: "digit \<Rightarrow> nat"
    and next_part :: "digit \<Rightarrow> uc32 list \<Rightarrow> ('i \<times> digit \<times> bool \<times> uc32 list) option" and mult :: "'i \<Rightarrow> nat"
    and add :: "'i \<Rightarrow> digit \<Rightarrow> bool \<Rightarrow> 'a \<Rightarrow> (bool \<times> 'a) option"
    and loop :: "digit \<Rightarrow> uc32 list \<Rightarrow> 'a \<Rightarrow> (uc32 list \<times> 'a) option"
  assumes radix: "supports r \<Longrightarrow> 2 \<le> unat r"
    and next_part: "supports r \<Longrightarrow> cs \<noteq> [] \<Longrightarrow>
      \<exists>i p fin rest. next_part r cs = Some (i, p, fin, rest) \<and> reads_part r (full r) [] cs (mult i) p fin rest"
    and loop: "loop r cs acc =
      (case next_part r cs of
         None \<Rightarrow> None
       | Some (i, p, fin, rest) \<Rightarrow>
           (case add i p fin acc of
              None \<Rightarrow> None
            | Some (ok, acc) \<Rightarrow> if \<not> ok \<or> fin then Some (rest, acc) else loop r rest acc))"
begin

lemma loop_adds_parts:
  assumes "supports r" and "cs \<noteq> []"
  shows "\<exists>items. parts_of r (full r) (map snd items) (mult (fst (last items))) cs \<and> (\<forall>x \<in> set (butlast items). mult (fst x) = full r) \<and>
    (\<forall>acc. case add_all add items acc of
       None \<Rightarrow> loop r cs acc = None
     | Some (ok, acc') \<Rightarrow> \<exists>rest. loop r cs acc = Some (rest, acc') \<and> (ok \<longrightarrow> rest = dropWhile (valid_char r) cs))"
  using assms(2)
proof (induction cs rule: length_induct)
  case (1 cs)
  obtain i p fin rest where n: "next_part r cs = Some (i, p, fin, rest)" and R: "reads_part r (full r) [] cs (mult i) p fin rest"
    using next_part [OF assms(1) 1(2)] by auto
  note L = loop [of r cs, unfolded n option.case prod.case]
  show ?case
  proof (cases fin)
    case True
    then have P: "parts_of r (full r) [p] (mult i) cs" "rest = dropWhile (valid_char r) cs" using parts_of_single R radix [OF assms(1)] by auto
    have "case add_all add [(i, p)] acc of None \<Rightarrow> loop r cs acc = None
      | Some (ok, acc') \<Rightarrow> \<exists>rest. loop r cs acc = Some (rest, acc') \<and> (ok \<longrightarrow> rest = dropWhile (valid_char r) cs)" for acc
      using True P(2) by (auto simp: L [of acc] split: option.splits)
    with P(1) show ?thesis by (intro exI [of _ "[(i, p)]"]) auto
  next
    case False
    then have f: "mult i = full r" "length rest < length cs" "rest \<noteq> []" using R by (auto simp: reads_part_def)
    with 1 obtain items where I: "parts_of r (full r) (map snd items) (mult (fst (last items))) rest"
      "\<forall>x \<in> set (butlast items). mult (fst x) = full r"
      "\<And>acc. case add_all add items acc of None \<Rightarrow> loop r rest acc = None
       | Some (ok, acc') \<Rightarrow> \<exists>rest'. loop r rest acc = Some (rest', acc') \<and> (ok \<longrightarrow> rest' = dropWhile (valid_char r) rest)"
      by blast
    have P: "parts_of r (full r) (p # map snd items) (mult (fst (last items))) cs" "dropWhile (valid_char r) rest = dropWhile (valid_char r) cs"
      using parts_of_Cons [OF _ I(1) radix [OF assms(1)]] R False f(1) by auto
    have ne: "items \<noteq> []" using I(1) by (auto simp: parts_of_def)
    have "case add_all add ((i, p) # items) acc of None \<Rightarrow> loop r cs acc = None
      | Some (ok, acc') \<Rightarrow> \<exists>rest. loop r cs acc = Some (rest, acc') \<and> (ok \<longrightarrow> rest = dropWhile (valid_char r) cs)" for acc
    proof (cases "add i p False acc")
      case (Some s)
      then show ?thesis using I(3) [of "snd s"] False ne P(2) by (cases s) (auto simp: L [of acc] split: option.splits)
    qed (use False ne L [of acc] in simp)
    with P(1) I(2) ne f(1) show ?thesis by (intro exI [of _ "(i, p) # items"]) auto
  qed
qed

end

text \<open>The most characters of a part whose multiplier fits a digit.\<close>

definition part_chars_table :: "nat list" where
  "part_chars_table = [63, 40, 31, 27, 24, 22, 21, 20, 19, 18, 17, 17, 16, 16, 15, 15, 15, 15, 14, 14, 14, 14, 13, 13, 13, 13, 13, 13, 13, 12, 12, 12, 12, 12, 12]"

definition part_chars :: "digit \<Rightarrow> nat" where
  "part_chars r = part_chars_table ! (unat r - 2)"

definition any_radix :: "digit \<Rightarrow> bool" where
  "any_radix r \<longleftrightarrow> 2 \<le> unat r \<and> unat r \<le> 36"

lemma part_chars_bounds:
  assumes "any_radix r"
  shows "unat r ^ part_chars r < 2 ^ 64" and "2 ^ 64 \<le> unat r ^ Suc (part_chars r)"
    and "if unat r \<le> 30 then 13 \<le> part_chars r else part_chars r = 12"
proof -
  have *: "list_all (\<lambda>b :: nat. b ^ (part_chars_table ! (b - 2)) < 2 ^ 64 \<and> 2 ^ 64 \<le> b ^ Suc (part_chars_table ! (b - 2)) \<and>
    (if b \<le> 30 then 13 \<le> part_chars_table ! (b - 2) else part_chars_table ! (b - 2) = 12)) [2..<37]"
    by (simp add: part_chars_table_def)
  have "unat r \<in> set [2..<37]" using assms unfolding any_radix_def set_upt by simp
  from bspec [OF * [unfolded list_all_iff] this]
  show "unat r ^ part_chars r < 2 ^ 64" and "2 ^ 64 \<le> unat r ^ Suc (part_chars r)"
    and "if unat r \<le> 30 then 13 \<le> part_chars r else part_chars r = 12" unfolding part_chars_def by blast+
qed

interpretation parse: part_loop any_radix "\<lambda>r. unat r ^ part_chars r" "\<lambda>r cs. Parse_part r cs 1 0" unat AddPart Parse_loop
proof
  show "2 \<le> unat r" if "any_radix r" for r using that by (simp add: any_radix_def)
  show "\<exists>i p fin rest. Parse_part r cs 1 0 = Some (i, p, fin, rest) \<and> reads_part r (unat r ^ part_chars r) [] cs (unat i) p fin rest"
    if "any_radix r" "cs \<noteq> []" for r cs
    using Parse_part_spec [OF _ part_chars_bounds(1,2) _ that(2), of r 1 "[]" 0] part_chars_bounds(3) [OF that(1)] that
    by (auto simp: any_radix_def chars_value_def split: if_splits)
  show "Parse_loop r cs acc = (case Parse_part r cs 1 0 of None \<Rightarrow> None
      | Some (i, p, fin, rest) \<Rightarrow> (case AddPart i p fin acc of None \<Rightarrow> None
          | Some (ok, acc) \<Rightarrow> if \<not> ok \<or> fin then Some (rest, acc) else Parse_loop r rest acc))" for r cs acc
    by (subst Parse_loop.simps) simp
qed

definition two_radix :: "digit \<Rightarrow> bool" where
  "two_radix r \<longleftrightarrow> r = 2 \<or> r = 4 \<or> r = 8 \<or> r = 16 \<or> r = 32"

definition add_bits :: "nat \<Rightarrow> digit \<Rightarrow> bool \<Rightarrow> FromStringAccumulator \<Rightarrow> (bool \<times> FromStringAccumulator) option" where
  "add_bits bits_left part fin acc =
     (case AddPart_digit part acc of
        (ok, acc) \<Rightarrow> Some (ok, if ok \<and> fin then acc \<lparr> last_multiplier := of_nat bits_left \<rparr> else acc))"

lemma two_radix_bits:
  assumes "two_radix r"
  shows "unat r = 2 ^ char_bits r" and "0 < char_bits r" and "BitLength (unat r - 1) = char_bits r"
    and "unat (drop_bit 2 r) < length kCharBits" and "IsPowerOfTwo (unat (ucast r :: 8 word))" and "unat (ucast r :: 8 word) = unat r"
proof -
  have *: "list_all (\<lambda>r :: digit. unat r = 2 ^ char_bits r \<and> 0 < char_bits r \<and> BitLength (unat r - 1) = char_bits r \<and>
    unat (drop_bit 2 r) < length kCharBits \<and> IsPowerOfTwo (unat (ucast r :: 8 word)) \<and> unat (ucast r :: 8 word) = unat r)
    [2, 4, 8, 16, 32]" by code_simp
  have "r \<in> set [2, 4, 8, 16, 32]" using assms by (simp add: two_radix_def)
  from bspec [OF * [unfolded list_all_iff] this]
  show "unat r = 2 ^ char_bits r" and "0 < char_bits r" and "BitLength (unat r - 1) = char_bits r"
    and "unat (drop_bit 2 r) < length kCharBits" and "IsPowerOfTwo (unat (ucast r :: 8 word))" and "unat (ucast r :: 8 word) = unat r"
    by blast+
qed

lemma two_radix_iff: "any_radix r \<Longrightarrow> r AND (r - 1) = 0 \<longleftrightarrow> two_radix r"
proof -
  assume "any_radix r"
  moreover have "list_all (\<lambda>r :: digit. 2 \<le> unat r \<longrightarrow> (r AND (r - 1) = 0 \<longleftrightarrow> two_radix r)) (map word_of_nat [0..<37])"
    by code_simp
  ultimately show ?thesis using word_enum_less [of "\<lambda>r :: digit. 2 \<le> unat r \<longrightarrow> (r AND (r - 1) = 0 \<longleftrightarrow> two_radix r)" 37 r]
    by (simp add: any_radix_def)
qed

interpretation parse_bits: part_loop two_radix "\<lambda>r. unat r ^ (64 div char_bits r)"
  "\<lambda>r cs. ParsePowerTwo_part r (char_bits r) cs kDigitBits 0" "\<lambda>bits. if bits \<le> 64 then 2 ^ (64 - bits) else 0"
  add_bits ParsePowerTwo_loop
proof
  show "2 \<le> unat r" if "two_radix r" for r using that by (auto simp: two_radix_def)
  show "\<exists>i p fin rest. ParsePowerTwo_part r (char_bits r) cs kDigitBits 0 = Some (i, p, fin, rest) \<and>
      reads_part r (unat r ^ (64 div char_bits r)) [] cs (if i \<le> 64 then 2 ^ (64 - i) else 0) p fin rest"
    if "two_radix r" "cs \<noteq> []" for r cs
    using ParsePowerTwo_part_spec [of r "char_bits r" cs 64 "[]" 0] two_radix_bits(1,2) [OF that(1)] char_bits_le [of r] that(2)
    by (auto simp: chars_value_def)
  show "ParsePowerTwo_loop r cs acc = (case ParsePowerTwo_part r (char_bits r) cs kDigitBits 0 of None \<Rightarrow> None
      | Some (i, p, fin, rest) \<Rightarrow> (case add_bits i p fin acc of None \<Rightarrow> None
          | Some (ok, acc) \<Rightarrow> if \<not> ok \<or> fin then Some (rest, acc) else ParsePowerTwo_loop r rest acc))" for r cs acc
    by (subst ParsePowerTwo_loop.simps) (auto simp: add_bits_def split: option.splits prod.splits)
qed

subsection \<open>What the accumulator holds\<close>

definition all_parts :: "FromStringAccumulator \<Rightarrow> digits" where
  "all_parts acc = (if heap_parts acc = [] then stack_parts acc else heap_parts acc)"

definition acc_wf :: "FromStringAccumulator \<Rightarrow> bool" where
  "acc_wf acc \<longleftrightarrow> length (stack_parts acc) \<le> kStackParts \<and> kStackParts \<le> max_digits acc \<and> length (all_parts acc) \<le> max_digits acc \<and>
     (heap_parts acc \<noteq> [] \<longrightarrow> length (stack_parts acc) = kStackParts \<and> kStackParts \<le> length (heap_parts acc) \<and>
       take kStackParts (heap_parts acc) = stack_parts acc)"

lemma ResultLength_parts: "acc_wf acc \<Longrightarrow> ResultLength acc = length (all_parts acc)"
  by (auto simp: acc_wf_def ResultLength_def all_parts_def dest: arg_cong [of _ _ length])

lemma AddPart_digit_spec:
  assumes "acc_wf acc" and "AddPart_digit p acc = (ok, acc')" and "accumulator_result acc = kOk"
  shows "acc_wf acc'" and "max_multiplier acc' = max_multiplier acc" and "last_multiplier acc' = last_multiplier acc"
    and "inline_everything acc' = inline_everything acc" and "accumulator_radix acc' = accumulator_radix acc"
    and "max_digits acc' = max_digits acc" and "accumulator_result acc' = (if ok then kOk else kMaxSizeExceeded)"
    and "if ok then all_parts acc' = all_parts acc @ [p] else length (all_parts acc) = max_digits acc"
  using assms by (auto simp: AddPart_digit_def acc_wf_def all_parts_def Let_def split: if_splits)

text \<open>Adding the parts one by one: they are appended, until the maximum is reached.\<close>

lemma add_all_parts:
  assumes "acc_wf acc" and "accumulator_result acc = kOk" and "\<not> inline_everything acc" and "items \<noteq> []"
  shows "\<exists>ok acc'. add_all AddPart items acc = Some (ok, acc') \<and> acc_wf acc' \<and> \<not> inline_everything acc' \<and>
    accumulator_radix acc' = accumulator_radix acc \<and> max_digits acc' = max_digits acc \<and>
    (if ok then accumulator_result acc' = kOk \<and> all_parts acc' = all_parts acc @ map snd items \<and>
        last_multiplier acc' = fst (last items) \<and>
        max_multiplier acc' = (if length items = 1 then max_multiplier acc else fst (last (butlast items)))
     else accumulator_result acc' = kMaxSizeExceeded \<and> max_digits acc < length (all_parts acc) + length items)"
  using assms
proof (induction items arbitrary: acc)
  case (Cons x items)
  obtain m p where x: "x = (m, p)" by fastforce
  define acc1 where "acc1 = (if items = [] then acc \<lparr> last_multiplier := m \<rparr> else acc \<lparr> max_multiplier := m \<rparr>)"
  have wf1: "acc_wf acc1" "accumulator_result acc1 = kOk" "all_parts acc1 = all_parts acc" "inline_everything acc1 = inline_everything acc"
    "accumulator_radix acc1 = accumulator_radix acc" "max_digits acc1 = max_digits acc"
    using Cons.prems(1,2) by (auto simp: acc1_def acc_wf_def all_parts_def)
  obtain ok acc2 where a: "AddPart_digit p acc1 = (ok, acc2)" by fastforce
  note A = AddPart_digit_spec [OF wf1(1) a wf1(2)]
  have e: "AddPart m p (items = []) acc = Some (ok, acc2)" using Cons.prems(3) a by (simp add: AddPart_def acc1_def)
  show ?case
  proof (cases "ok \<and> items \<noteq> []")
    case True
    have B: "accumulator_result acc2 = kOk" "\<not> inline_everything acc2" "all_parts acc2 = all_parts acc @ [p]" "max_multiplier acc2 = m"
      "accumulator_radix acc2 = accumulator_radix acc" "max_digits acc2 = max_digits acc"
      using A wf1 Cons.prems(3) True by (simp_all add: acc1_def)
    from Cons.IH [OF A(1) B(1,2)] True obtain ok' acc' where I: "add_all AddPart items acc2 = Some (ok', acc')"
      "acc_wf acc'" "\<not> inline_everything acc'" "accumulator_radix acc' = accumulator_radix acc2" "max_digits acc' = max_digits acc2"
      "if ok' then accumulator_result acc' = kOk \<and> all_parts acc' = all_parts acc2 @ map snd items \<and>
          last_multiplier acc' = fst (last items) \<and>
          max_multiplier acc' = (if length items = 1 then max_multiplier acc2 else fst (last (butlast items)))
       else accumulator_result acc' = kMaxSizeExceeded \<and> max_digits acc2 < length (all_parts acc2) + length items" by blast
    then have "add_all AddPart (x # items) acc = Some (ok', acc')" using True x e by simp
    then show ?thesis using I(2-6) True x B(3-6)
      by (intro exI [of _ ok'] exI [of _ acc'] conjI) (cases ok'; cases items; simp)+
  next
    case False
    with e A wf1 Cons.prems(3) x show ?thesis by (auto simp: acc1_def split: if_splits)
  qed
qed simp

lemma add_all_bits:
  assumes "acc_wf acc" and "accumulator_result acc = kOk" and "items \<noteq> []"
  shows "\<exists>ok acc'. add_all add_bits items acc = Some (ok, acc') \<and> acc_wf acc' \<and> inline_everything acc' = inline_everything acc \<and>
    accumulator_radix acc' = accumulator_radix acc \<and> max_digits acc' = max_digits acc \<and>
    (if ok then accumulator_result acc' = kOk \<and> all_parts acc' = all_parts acc @ map snd items \<and>
        last_multiplier acc' = of_nat (fst (last items))
     else accumulator_result acc' = kMaxSizeExceeded \<and> max_digits acc < length (all_parts acc) + length items)"
  using assms
proof (induction items arbitrary: acc)
  case (Cons x items)
  obtain b p where x: "x = (b, p)" by fastforce
  obtain ok acc1 where a: "AddPart_digit p acc = (ok, acc1)" by fastforce
  note A = AddPart_digit_spec [OF Cons.prems(1) a Cons.prems(2)]
  define acc2 where "acc2 = (if ok \<and> items = [] then acc1 \<lparr> last_multiplier := of_nat b \<rparr> else acc1)"
  have A2: "acc_wf acc2" "accumulator_result acc2 = accumulator_result acc1" "all_parts acc2 = all_parts acc1"
    "inline_everything acc2 = inline_everything acc1" "accumulator_radix acc2 = accumulator_radix acc1" "max_digits acc2 = max_digits acc1"
    using A(1) by (auto simp: acc2_def acc_wf_def all_parts_def)
  have e: "add_bits b p (items = []) acc = Some (ok, acc2)" using a by (simp add: add_bits_def acc2_def)
  show ?case
  proof (cases "ok \<and> items \<noteq> []")
    case True
    have B: "accumulator_result acc2 = kOk" "inline_everything acc2 = inline_everything acc" "all_parts acc2 = all_parts acc @ [p]"
      "accumulator_radix acc2 = accumulator_radix acc" "max_digits acc2 = max_digits acc"
      using A A2 True by simp_all
    from Cons.IH [OF A2(1) B(1)] True obtain ok' acc' where I: "add_all add_bits items acc2 = Some (ok', acc')"
      "acc_wf acc'" "inline_everything acc' = inline_everything acc2" "accumulator_radix acc' = accumulator_radix acc2"
      "max_digits acc' = max_digits acc2"
      "if ok' then accumulator_result acc' = kOk \<and> all_parts acc' = all_parts acc2 @ map snd items \<and>
          last_multiplier acc' = of_nat (fst (last items))
       else accumulator_result acc' = kMaxSizeExceeded \<and> max_digits acc2 < length (all_parts acc2) + length items" by blast
    then have "add_all add_bits (x # items) acc = Some (ok', acc')" using True x e by simp
    then show ?thesis using I(2-6) True x B
      by (intro exI [of _ ok'] exI [of _ acc'] conjI) (cases ok'; simp)+
  next
    case False
    with e A A2 x show ?thesis by (auto simp: acc2_def split: if_splits)
  qed
qed simp

text \<open>The inlined path multiplies at once and has room for eight digits.\<close>

lemma AddPart_loop_spec:
  assumes "AddPart_loop ps m c h = (qs, c', h')"
  shows "length qs = length ps \<and> digits_value qs + digit_base ^ length ps * (unat c' + unat h') = digits_value ps * unat m + unat c + unat h"
  using assms
proof (induction ps arbitrary: c h qs)
  case (Cons p ps)
  obtain low nh where 1: "digit_mul p m = (low, nh)" by fastforce
  obtain z c1 where 2: "digit_add3 low h c = (z, c1)" by fastforce
  obtain qs' where 3: "AddPart_loop ps m c1 nh = (qs', c', h')" "qs = z # qs'"
    using Cons.prems 1 2 by (auto simp: Let_def digit_mul_def digit_add3_def split: prod.splits)
  from Cons.IH [OF 3(1)] have IH: "length qs' = length ps"
    "digits_value qs' + digit_base ^ length ps * (unat c' + unat h') = digits_value ps * unat m + unat c1 + unat nh" by auto
  have "unat z + digit_base * (digits_value qs' + digit_base ^ length ps * (unat c' + unat h')) =
      unat p * unat m + unat c + unat h + digit_base * (digits_value ps * unat m)"
    unfolding IH(2) using native.mul [OF 1] native.add3 [OF 2] by (simp add: distrib_left)
  with IH(1) 3(2) show ?case by (simp add: algebra_simps)
qed simp

lemma AddPart_inline:
  assumes "inline_everything acc" and "length (stack_parts acc) < kStackParts" and "unat p < unat m"
  shows "\<exists>qs. AddPart m p is_last acc = Some (True, acc \<lparr> stack_parts := qs \<rparr>) \<and> length qs = Suc (length (stack_parts acc)) \<and>
    digits_value qs = digits_value (stack_parts acc) * unat m + unat p"
proof -
  let ?ps = "stack_parts acc"
  obtain qs c h where l: "AddPart_loop ?ps m p 0 = (qs, c, h)" by (metis prod.collapse)
  from AddPart_loop_spec [OF l] have A: "length qs = length ?ps"
    "digits_value qs + digit_base ^ length ?ps * (unat c + unat h) = digits_value ?ps * unat m + unat p" by auto
  have "digits_value ?ps * unat m + unat p < (digits_value ?ps + 1) * unat m" using assms(3) by simp
  also have "\<dots> \<le> digit_base ^ length ?ps * digit_base" using value_less [of ?ps] unat_digit [of m] by (intro mult_mono) auto
  finally have "digit_base ^ length ?ps * (unat c + unat h) < digit_base ^ length ?ps * digit_base" using A(2) by linarith
  then have s: "unat (c + h) = unat c + unat h" by (simp add: unat_digit_add)
  show ?thesis using assms(1,2) A s l by (intro exI [of _ "qs @ [c + h]"]) (simp add: AddPart_def value_append)
qed

lemma add_all_inline:
  assumes "inline_everything acc" and "\<forall>x \<in> set items. unat (snd x) < unat (fst x)" and "length (stack_parts acc) \<le> kStackParts"
  shows "if length (stack_parts acc) + length items \<le> kStackParts
    then \<exists>qs. add_all AddPart items acc = Some (True, acc \<lparr> stack_parts := qs \<rparr>) \<and>
      length qs = length (stack_parts acc) + length items \<and>
      digits_value qs = foldl (\<lambda>v x. v * unat (fst x) + unat (snd x)) (digits_value (stack_parts acc)) items
    else add_all AddPart items acc = None"
  using assms
proof (induction items arbitrary: acc)
  case (Cons x items)
  obtain m p where x: "x = (m, p)" by fastforce
  show ?case
  proof (cases "length (stack_parts acc) < kStackParts")
    case True
    from AddPart_inline [OF Cons.prems(1) this, of p m "items = []"] Cons.prems(2) x obtain qs where
      q: "AddPart m p (items = []) acc = Some (True, acc \<lparr> stack_parts := qs \<rparr>)" "length qs = Suc (length (stack_parts acc))"
      "digits_value qs = digits_value (stack_parts acc) * unat m + unat p" by auto
    with Cons.IH [of "acc \<lparr> stack_parts := qs \<rparr>"] Cons.prems x True show ?thesis by (auto split: if_splits)
  next
    case False
    then have "AddPart m p (items = []) acc = None"
      using Cons.prems(1) AddPart_loop_spec by (auto simp: AddPart_def split: prod.splits)
    with False x show ?thesis by simp
  qed
qed (auto intro!: exI [of _ "stack_parts _"])

lemma items_value:
  assumes "items \<noteq> []" and "\<forall>x \<in> set (butlast items). unat (fst x) = full"
  shows "foldl (\<lambda>v x. v * unat (fst x) + unat (snd x)) 0 items =
    horner full (map unat (butlast (map snd items))) * unat (fst (last items)) + unat (snd (last items))"
proof -
  have "foldl (\<lambda>v x. v * unat (fst x) + unat (snd x)) a xs = foldl (\<lambda>v d. v * full + d) a (map (unat \<circ> snd) xs)"
    if "\<forall>x \<in> set xs. unat (fst x) = full" for a and xs :: "('a::len word \<times> 'b::len word) list"
    using that by (induction xs arbitrary: a) auto
  from this [OF assms(2), of 0] show ?thesis
    by (subst append_butlast_last_id [OF assms(1), symmetric]) (simp add: foldl_append horner_def map_butlast comp_def)
qed

subsection \<open>The classic algorithm\<close>

lemma classic_step_spec:
  assumes "digits_value Z < digit_base ^ n" and "n < length Z" and "unat p < unat m"
  shows "\<exists>Z'. classic_step m p (Z, n) = Some (Z', n + 1) \<and> length Z' = length Z \<and>
    digits_value Z' = digits_value Z * unat m + unat p \<and> digits_value Z' < digit_base ^ (n + 1)"
proof -
  let ?M = "MultiplySingle (length Z) (take n Z) m"
  have v: "digits_value (take n Z) = digits_value Z" using assms(1) by (simp add: value_take)
  have M: "length ?M = length Z" "digits_value ?M = digits_value Z * unat m"
    using MultiplySingle_spec [of "take n Z" "length Z" m] assms(2) v by auto
  have ne: "?M \<noteq> []" using M(1) assms(2) by (metis list.size(3) not_less_zero)
  have "digits_value Z * unat m + unat p < (digits_value Z + 1) * unat m" using assms(3) by simp
  also have "\<dots> \<le> digit_base ^ n * digit_base" using assms(1) unat_digit [of m] by (intro mult_mono) auto
  finally have less: "digits_value Z * unat m + unat p < digit_base ^ (n + 1)" by (simp add: mult.commute)
  also have "digit_base ^ (n + 1) \<le> digit_base ^ length Z" using assms(2) by (intro power_increasing) (auto simp: Suc_le_eq)
  finally obtain Z' where "Add_digit ?M p = Some Z'" "length Z' = length Z" "digits_value Z' = digits_value Z * unat m + unat p"
    using Add_digit_spec [OF _ ne, of p] M by auto
  then show ?thesis using less by (simp add: classic_step_def)
qed

lemma classic_loop_spec:
  assumes "digits_value Z < digit_base ^ n" and "n + length ps \<le> length Z" and "\<forall>p \<in> set ps. unat p < unat m"
  shows "\<exists>Z'. classic_loop m ps (Z, n) = Some (Z', n + length ps) \<and> length Z' = length Z \<and>
    digits_value Z' = digits_value Z * unat m ^ length ps + horner (unat m) (map unat ps) \<and>
    digits_value Z' < digit_base ^ (n + length ps)"
  using assms
proof (induction ps arbitrary: Z n)
  case (Cons p ps)
  obtain Z1 where Z1: "classic_step m p (Z, n) = Some (Z1, n + 1)" "length Z1 = length Z"
    "digits_value Z1 = digits_value Z * unat m + unat p" "digits_value Z1 < digit_base ^ (n + 1)"
    using classic_step_spec [of Z n p m] Cons.prems by auto
  from Cons.IH [OF Z1(4)] Cons.prems Z1(2) obtain Z2 where
    "classic_loop m ps (Z1, n + 1) = Some (Z2, n + 1 + length ps)" "length Z2 = length Z1"
    "digits_value Z2 = digits_value Z1 * unat m ^ length ps + horner (unat m) (map unat ps)"
    "digits_value Z2 < digit_base ^ (n + 1 + length ps)" by auto
  with Z1 show ?case by (simp add: algebra_simps)
qed simp

lemma classic_parts_spec:
  assumes "2 \<le> length ps" and "length ps \<le> length Z" and "digits_value Z = unat (hd ps)"
    and "\<forall>p \<in> set (butlast ps). unat p < unat (max_multiplier acc)" and "unat (last ps) < unat (last_multiplier acc)"
  shows "\<exists>Z'. classic_parts Z ps acc = Some Z' \<and> length Z' = length Z \<and>
    digits_value Z' = horner (unat (max_multiplier acc)) (map unat (butlast ps)) * unat (last_multiplier acc) + unat (last ps)"
proof -
  obtain p qs where ps: "ps = p # qs" "qs \<noteq> []" using assms(1) by (cases ps) (auto simp: Suc_le_eq)
  have "digits_value Z < digit_base ^ 1" using assms(3) unat_digit by simp
  from classic_loop_spec [OF this, of "butlast qs" "max_multiplier acc"] assms(2,4) ps obtain Z1 where
    Z1: "classic_loop (max_multiplier acc) (butlast qs) (Z, 1) = Some (Z1, 1 + length (butlast qs))" "length Z1 = length Z"
    "digits_value Z1 = unat p * unat (max_multiplier acc) ^ length (butlast qs) + horner (unat (max_multiplier acc)) (map unat (butlast qs))"
    "digits_value Z1 < digit_base ^ (1 + length (butlast qs))" using assms(3) by auto
  have "1 + length (butlast qs) < length Z1" using Z1(2) assms(2) ps by (cases qs) auto
  from classic_step_spec [OF Z1(4) this assms(5)] Z1 ps show ?thesis by (auto simp: classic_parts_def)
qed

lemma FromStringClassic_spec:
  assumes "acc_wf acc" and "all_parts acc = ps" and "ps \<noteq> []" and "length ps \<le> Zlen"
    and "2 \<le> length ps \<longrightarrow> full = unat (max_multiplier acc)" and "\<forall>p \<in> set (butlast ps). unat p < full"
    and "unat (last ps) < unat (last_multiplier acc)"
  shows "\<exists>Z. FromStringClassic Zlen acc = Some Z \<and> length Z = Zlen \<and>
    digits_value Z = horner full (map unat (butlast ps)) * unat (last_multiplier acc) + unat (last ps)"
proof -
  let ?Z = "stack_parts acc ! 0 # replicate (Zlen - 1) 0"
  have hd: "stack_parts acc ! 0 = hd ps"
    using assms(1-3) unfolding acc_wf_def all_parts_def by (metis hd_conv_nth nth_take zero_less_numeral)
  have Z: "length ?Z = Zlen" "digits_value ?Z = unat (hd ps)" using assms(3,4) hd by (cases ps; simp)+
  show ?thesis
  proof (cases "length ps = 1")
    case True
    then have "length (stack_parts acc) = 1" using assms(1,2) by (auto simp: acc_wf_def all_parts_def split: if_splits)
    then show ?thesis using True Z assms(2) by (cases ps) (auto simp: FromStringClassic_def)
  next
    case False
    then have l: "2 \<le> length ps" using assms(3) by (cases ps) (auto simp: Suc_le_eq)
    then have "length (stack_parts acc) \<noteq> 1" using assms(1,2) by (auto simp: acc_wf_def all_parts_def split: if_splits)
    then have "FromStringClassic Zlen acc = classic_parts ?Z ps acc"
      using assms(2) by (auto simp: FromStringClassic_def all_parts_def Let_def)
    moreover have "\<forall>p \<in> set (butlast ps). unat p < unat (max_multiplier acc)" using assms(5,6) l by simp
    ultimately show ?thesis using classic_parts_spec [OF l _ Z(2) _ assms(7)] Z(1) assms(4,5) l by simp
  qed
qed

end
