(* ===== verification/Bigint_Combine.thy ===== *)
theory Bigint_Combine
  imports Bigint_FromString
begin

text \<open>
  Combining the parts of a number: that the algorithms of \<^verbatim>\<open>fromstring.cc\<close> for radixes that are
  powers of two and for many parts return and give the number, and so does parsing as a whole.
\<close>

section \<open>Radixes that are powers of two\<close>

text \<open>The number of a list of parts of \<open>b\<close> bits, the lowest first.\<close>

primrec bits_value :: "nat \<Rightarrow> digits \<Rightarrow> nat" where
  "bits_value b [] = 0"
| "bits_value b (p # ps) = unat p + 2 ^ b * bits_value b ps"

lemma bits_value_append: "bits_value b (xs @ ys) = bits_value b xs + 2 ^ (b * length xs) * bits_value b ys"
  by (induction xs) (simp_all add: algebra_simps power_add)

lemma bits_value_rev: "bits_value b (rev ps) = horner (2 ^ b) (map unat ps)"
  by (induction ps) (simp_all add: bits_value_append power_mult)

lemma bits_value_digits: "bits_value 64 ps = digits_value ps"
  by (induction ps) (simp_all add: digit_base_def)

lemma shifted_or:
  fixes d p :: digit
  assumes "unat d < 2 ^ n" and "n < 64"
  shows "unat (d OR push_bit n p) + 2 ^ 64 * unat (drop_bit (64 - n) p) = unat d + 2 ^ n * unat p"
proof -
  have "take_bit n d = d" using assms(1) by (metis take_bit_nat_eq_self unsigned_take_bit_eq word_unat_eq_iff)
  then have "d OR push_bit n p = push_bit n p + d" using push_or_add [of n p d] by (simp add: or.commute)
  moreover have "2 ^ n * (unat p mod 2 ^ (64 - n)) = unat p * 2 ^ n mod 2 ^ 64"
    using assms(2) mult_mod_right [of "2 ^ n" "unat p" "2 ^ (64 - n)"] by (simp add: mult.commute flip: power_add)
  then have q: "unat (push_bit n p) = 2 ^ n * (unat p mod 2 ^ (64 - n))" by (simp add: unat_push)
  moreover have "2 ^ n * (unat p mod 2 ^ (64 - n)) + unat d < 2 ^ 64"
  proof -
    have "2 ^ n * (unat p mod 2 ^ (64 - n)) + unat d < 2 ^ n * (unat p mod 2 ^ (64 - n) + 1)" using assms(1) by simp
    also have "\<dots> \<le> 2 ^ n * 2 ^ (64 - n)" by (intro mult_left_mono) (simp_all add: Suc_le_eq)
    finally show ?thesis using assms(2) by (simp flip: power_add)
  qed
  ultimately have "unat (d OR push_bit n p) = 2 ^ n * (unat p mod 2 ^ (64 - n)) + unat d" by (simp add: unat_word_ariths)
  moreover have "2 ^ 64 * unat (drop_bit (64 - n) p) = 2 ^ n * (2 ^ (64 - n) * (unat p div 2 ^ (64 - n)))"
    using assms(2) by (simp add: unat_drop mult.assoc [symmetric] flip: power_add)
  ultimately show ?thesis by (simp add: distrib_left [symmetric] flip: add_mult_distrib2)
qed

lemma power_two_fill_spec:
  assumes "parts \<noteq> []" and "n < 64" and "unat d < 2 ^ n" and "\<forall>p \<in> set parts. unat p < 2 ^ b" and "b \<le> 64" and "b = 64 \<longrightarrow> 0 < n"
  shows "\<exists>rest z d' n'. power_two_fill b parts d n = Some (rest, z, d', n') \<and> set rest \<subseteq> set parts \<and> n' < 64 \<and> unat d' < 2 ^ n' \<and>
    (b = 64 \<longrightarrow> 0 < n') \<and> unat d + 2 ^ n * bits_value b parts = unat z + 2 ^ 64 * (unat d' + 2 ^ n' * bits_value b rest)"
  using assms
proof (induction b parts d n rule: power_two_fill.induct)
  case (2 b p parts d n)
  note o = shifted_or [OF 2(4,3), of p]
  have p: "unat p < 2 ^ b" using 2(5) by simp
  show ?case
  proof (cases "b + n < 64")
    case True
    have "unat (drop_bit (64 - n) p) = 0"
    proof -
      have "(2 :: nat) ^ b \<le> 2 ^ (64 - n)" using True by (intro power_increasing) simp_all
      then have "unat p < 2 ^ (64 - n)" using p by linarith
      then show ?thesis by (simp add: unat_drop)
    qed
    with o have z: "unat (d OR push_bit n p) = unat d + 2 ^ n * unat p" by simp
    show ?thesis
    proof (cases "parts = []")
      case True
      then have "power_two_fill b (p # parts) d n = Some ([], d OR push_bit n p, 0, 0)" using \<open>b + n < 64\<close> by (auto simp: Let_def)
      then show ?thesis using \<open>b + n < 64\<close> True z by auto
    next
      case False
      have "unat d + 2 ^ n * unat p < 2 ^ n * (1 + unat p)" using 2(4) by (simp add: distrib_left)
      also have "\<dots> \<le> 2 ^ n * 2 ^ b" using p by (intro mult_left_mono) auto
      finally have "unat (d OR push_bit n p) < 2 ^ (n + b)" using z by (simp add: power_add)
      then have "\<exists>rest z d' n'. power_two_fill b parts (d OR push_bit n p) (n + b) = Some (rest, z, d', n') \<and> set rest \<subseteq> set parts \<and>
        n' < 64 \<and> unat d' < 2 ^ n' \<and> (b = 64 \<longrightarrow> 0 < n') \<and>
        unat (d OR push_bit n p) + 2 ^ (n + b) * bits_value b parts = unat z + 2 ^ 64 * (unat d' + 2 ^ n' * bits_value b rest)"
        using 2(1) [OF refl refl refl _ False] True False 2(5,6) by (auto simp: add.commute)
      moreover have "power_two_fill b (p # parts) d n = power_two_fill b parts (d OR push_bit n p) (n + b)" using True False by (auto simp: Let_def)
      ultimately show ?thesis using z by (auto simp: power_add algebra_simps)
    qed
  next
    case False
    have "power_two_fill b (p # parts) d n = Some (parts, d OR push_bit n p, drop_bit (64 - n) p, b - (64 - n))"
      using False 2(3,6,7) by (auto simp: Let_def)
    moreover have "unat (drop_bit (64 - n) p) < 2 ^ (b - (64 - n))"
    proof -
      have "unat p < 2 ^ (b - (64 - n)) * 2 ^ (64 - n)" using p False 2(3) by (simp flip: power_add)
      then show ?thesis by (simp add: unat_drop less_mult_imp_div_less)
    qed
    moreover have "n + b = 64 + (b - (64 - n))" using False 2(3) by simp
    then have "(2::nat) ^ n * 2 ^ b = 2 ^ 64 * 2 ^ (b - (64 - n))" by (simp only: power_add [symmetric])
    then have "unat d + 2 ^ n * bits_value b (p # parts) =
        unat (d OR push_bit n p) + 2 ^ 64 * (unat (drop_bit (64 - n) p) + 2 ^ (b - (64 - n)) * bits_value b parts)"
      using o by (simp add: distrib_left mult.assoc [symmetric])
    moreover have "b - (64 - n) < 64" "b = 64 \<longrightarrow> 0 < b - (64 - n)" using 2(3,6,7) False by auto
    ultimately show ?thesis by auto
  qed
qed simp

lemma power_two_loop_spec:
  assumes "parts = [] \<or> n < 64" and "unat d < 2 ^ n" and "\<forall>p \<in> set parts. unat p < 2 ^ b" and "b \<le> 64" and "b = 64 \<and> parts \<noteq> [] \<longrightarrow> 0 < n"
  shows "\<exists>Z. power_two_loop b parts d n = Some Z \<and> length Z \<le> Suc (length parts) \<and> digits_value Z = unat d + 2 ^ n * bits_value b parts"
  using assms
proof (induction parts arbitrary: d n rule: length_induct)
  case (1 parts)
  show ?case
  proof (cases "parts = []")
    case True
    then show ?thesis using 1(3) by (auto simp: power_two_loop.simps)
  next
    case False
    then obtain rest z d' n' where f: "power_two_fill b parts d n = Some (rest, z, d', n')" "set rest \<subseteq> set parts" "n' < 64" "unat d' < 2 ^ n'"
      "b = 64 \<longrightarrow> 0 < n'" "unat d + 2 ^ n * bits_value b parts = unat z + 2 ^ 64 * (unat d' + 2 ^ n' * bits_value b rest)"
      using power_two_fill_spec [of parts n d b] 1(2-6) by blast
    have "length rest < length parts" using f(1) by (rule power_two_fill_rest)
    with 1(1) f(2-5) 1(4,5) obtain Z where "power_two_loop b rest d' n' = Some Z" "length Z \<le> Suc (length rest)"
      "digits_value Z = unat d' + 2 ^ n' * bits_value b rest" by blast
    with f(1,6) \<open>length rest < length parts\<close> False 1(2) show ?thesis by (auto simp: power_two_loop.simps [of b parts] digit_base_def)
  qed
qed

lemma FromStringBasePowerOfTwo_spec:
  assumes "two_radix r" and "acc_wf acc" and "accumulator_radix acc = ucast r" and "parts_of r (unat r ^ (64 div char_bits r)) (all_parts acc) (2 ^ (64 - bits)) cs"
    and "last_multiplier acc = of_nat bits" and "bits \<le> 64" and "length (all_parts acc) \<le> Zlen"
  shows "\<exists>Z. FromStringBasePowerOfTwo Zlen acc = Some Z \<and> length Z = Zlen \<and> digits_value Z = chars_value r (takeWhile (valid_char r) cs)"
proof -
  let ?ps = "all_parts acc" and ?c = "char_bits r"
  let ?b = "64 - 64 mod ?c"
  have b: "unat r ^ (64 div ?c) = 2 ^ ?b" unfolding two_radix_bits(1) [OF assms(1)]
    by (simp add: minus_mod_eq_mult_div flip: power_mult)
  have P: "?ps \<noteq> []" "\<forall>p \<in> set (butlast ?ps). unat p < 2 ^ ?b" "unat (last ?ps) < 2 ^ (64 - bits)" "(2::nat) ^ (64 - bits) \<le> 2 ^ ?b"
    "chars_value r (takeWhile (valid_char r) cs) = horner (2 ^ ?b) (map unat (butlast ?ps)) * 2 ^ (64 - bits) + unat (last ?ps)"
    using assms(4) unfolding b parts_of_def by blast+
  obtain j where j: "(2::nat) ^ (64 - bits) = unat r ^ j" "j = 0 \<longrightarrow> length ?ps = 1" using assms(4) by (auto simp: parts_of_def)
  have u: "unat (last_multiplier acc) = bits" using assms(5,6) by (simp add: unat_of_nat)
  have e: "?ps = butlast ?ps @ [last ?ps]" using P(1) by simp
  have rv: "rev ?ps = last ?ps # rev (butlast ?ps)" by (subst e) simp
  have h: "(if length (heap_parts acc) > 0 then heap_parts acc else stack_parts acc) = ?ps" by (simp add: all_parts_def)
  have D: "FromStringBasePowerOfTwo Zlen acc = (if bits = 0 then Some (pad Zlen (rev ?ps))
      else map_option (pad Zlen) (power_two_loop ?b (rev (butlast ?ps)) (last ?ps) (64 - bits)))"
    unfolding FromStringBasePowerOfTwo_def Let_def h rv using u two_radix_bits(3,6) [OF assms(1)] assms(3) by simp
  show ?thesis
  proof (cases "bits = 0")
    case True
    then have "(2 :: nat) ^ 64 \<le> 2 ^ ?b" using P(4) by simp
    then have "64 \<le> ?b" by (rule power_le_imp_le_exp [rotated]) simp
    then have "?b = 64" by simp
    then have "digits_value (rev ?ps) = chars_value r (takeWhile (valid_char r) cs)"
      using P(5) True bits_value_rev [of 64 "butlast ?ps"] unfolding rv by (simp add: bits_value_digits digit_base_def)
    then show ?thesis using D True assms(7) by (simp add: length_pad)
  next
    case False
    have "?b = 64 \<and> rev (butlast ?ps) \<noteq> [] \<longrightarrow> 0 < 64 - bits"
    proof (intro impI)
      assume "?b = 64 \<and> rev (butlast ?ps) \<noteq> []"
      then have "length ?ps \<noteq> 1" using e by (metis One_nat_def length_0_conv length_butlast diff_self_eq_0 rev.simps(1))
      then have "j \<noteq> 0" using j(2) by blast
      then have "1 < unat r ^ j" using assms(1) by (intro one_less_power) (auto simp: two_radix_def)
      then show "0 < 64 - bits" using j(1) by (metis gr0I less_irrefl power_0)
    qed
    then obtain Z where Z: "power_two_loop ?b (rev (butlast ?ps)) (last ?ps) (64 - bits) = Some Z" "length Z \<le> length ?ps"
      "digits_value Z = unat (last ?ps) + 2 ^ (64 - bits) * bits_value ?b (rev (butlast ?ps))"
      using power_two_loop_spec [of "rev (butlast ?ps)" "64 - bits" "last ?ps" ?b] P(1-3) False by (cases ?ps rule: rev_cases) auto
    then show ?thesis using D False P(5) assms(7) by (simp add: bits_value_rev length_pad)
  qed
qed

section \<open>The fast algorithm\<close>

text \<open>A buffer holds the values of its chunks; the last chunk may be shorter.\<close>

fun chunks :: "nat \<Rightarrow> digits \<Rightarrow> nat list \<Rightarrow> bool" where
  "chunks L P [] \<longleftrightarrow> P = []"
| "chunks L P (v # vs) \<longleftrightarrow> P \<noteq> [] \<and> (vs \<noteq> [] \<longrightarrow> L < length P) \<and> digits_value (take L P) = v \<and> chunks L (drop L P) vs"

text \<open>The number of a list of parts and multipliers; the first multiplier does not matter.\<close>

fun combined :: "nat \<Rightarrow> nat list \<Rightarrow> nat list \<Rightarrow> nat" where
  "combined a (p # ps) (m # ms) = combined (a * m + p) ps ms"
| "combined a ps ms = a"

text \<open>A pass combines neighbours and leaves the number unchanged.\<close>

fun pair_parts :: "nat list \<Rightarrow> nat list \<Rightarrow> nat list" where
  "pair_parts (p # p2 # ps) (m # m2 # ms) = (p * m2 + p2) # pair_parts ps ms"
| "pair_parts ps ms = ps"

fun pair_mults :: "nat list \<Rightarrow> nat list" where
  "pair_mults (m # m2 # ms) = m * m2 # pair_mults ms"
| "pair_mults ms = ms"

lemma combined_pairs: "length ps = length ms \<Longrightarrow> combined a (pair_parts ps ms) (pair_mults ms) = combined a ps ms"
  by (induction ps ms arbitrary: a rule: pair_parts.induct) (auto simp: algebra_simps length_Suc_conv Suc_length_conv)

lemma length_pairs [simp]: "length (pair_mults ms) = (length ms + 1) div 2" "length ps = length ms \<Longrightarrow> length (pair_parts ps ms) = (length ms + 1) div 2"
  by (induction ms rule: pair_mults.induct; simp) (induction ps ms rule: pair_parts.induct; auto simp: length_Suc_conv)

text \<open>All multipliers are \<open>F\<close>, but the last may be smaller, and is if its chunk is shorter.\<close>

definition multipliers_ok :: "nat \<Rightarrow> bool \<Rightarrow> nat list \<Rightarrow> bool" where
  "multipliers_ok F short ms \<longleftrightarrow> (\<forall>m \<in> set (butlast ms). m = F) \<and> (ms \<noteq> [] \<longrightarrow> last ms \<le> F \<and> (short \<longrightarrow> last ms < F))"

definition parts_below :: "nat list \<Rightarrow> nat list \<Rightarrow> bool" where
  "parts_below ps ms \<longleftrightarrow> list_all2 (<) ps ms"

lemma parts_below_pairs:
  assumes "parts_below ps ms"
  shows "parts_below (pair_parts ps ms) (pair_mults ms)"
  using assms unfolding parts_below_def
proof (induction ps ms rule: pair_parts.induct)
  case (1 p p2 ps m m2 ms)
  then have "p < m" "p2 < m2" by auto
  have "p * m2 + p2 < (p + 1) * m2" using \<open>p2 < m2\<close> by simp
  also have "\<dots> \<le> m * m2" using \<open>p < m\<close> by (intro mult_right_mono) auto
  finally show ?case using 1 by simp
qed (auto simp: list_all2_Cons1)

lemma multipliers_ok_pairs:
  assumes "multipliers_ok F short ms" and "2 \<le> F"
  shows "multipliers_ok (F * F) (short \<or> odd (length ms)) (pair_mults ms)"
  using assms(1)
proof (induction ms rule: pair_mults.induct [case_names pair none single])
  case (pair m m2 ms)
  have F: "0 < F" using assms(2) by simp
  show ?case
  proof (cases "ms = []")
    case True
    then show ?thesis using pair(2) F by (auto simp: multipliers_ok_def mult_le_mono intro!: mult_le_mono)
  next
    case False
    then have "pair_mults ms \<noteq> []" by (cases ms rule: pair_mults.cases) auto
    then show ?thesis using pair False by (auto simp: multipliers_ok_def)
  qed
next
  case none
  then show ?case by (simp add: multipliers_ok_def)
next
  case (single v)
  have "v \<le> F" using single by (simp add: multipliers_ok_def)
  also have "F < F * F" using assms(2) by simp
  finally show ?case by (simp add: multipliers_ok_def)
qed

lemma multiply_chunks:
  assumes "L < length X" and "length Y = length X" and "length Z = length X" and "length X < 2 ^ 30"
  shows "length (Multiply (take (L * 2) Z) (take L X) (take L (drop L Y))) = min (L * 2) (length X)"
    and "digits_value (Multiply (take (L * 2) Z) (take L X) (take L (drop L Y))) = digits_value (take L X) * digits_value (take L (drop L Y))"
proof -
  have "length (take L X) + length (take L (drop L Y)) = min (L * 2) (length X)" "length (take (L * 2) Z) = min (L * 2) (length X)"
    using assms(1-3) by auto
  with Multiply_spec [of "take L X" "take L (drop L Y)" "take (L * 2) Z"] assms(4)
  show "length (Multiply (take (L * 2) Z) (take L X) (take L (drop L Y))) = min (L * 2) (length X)"
    and "digits_value (Multiply (take (L * 2) Z) (take L X) (take L (drop L Y))) = digits_value (take L X) * digits_value (take L (drop L Y))"
    by linarith+
qed

lemma combine_chunks:
  assumes "L < length P" and "length M = length P" and "length T = length P" and "length P < 2 ^ 30"
    and "digits_value (take L (drop L P)) < digits_value (take L (drop L M))"
  defines "out \<equiv> fst (AddAndReturnOverflow (Multiply (take (L * 2) T) (take L P) (take L (drop L M))) (take L (drop L P)))"
  shows "length out = min (L * 2) (length P)"
    and "digits_value out = digits_value (take L P) * digits_value (take L (drop L M)) + digits_value (take L (drop L P))"
proof -
  let ?Q = "Multiply (take (L * 2) T) (take L P) (take L (drop L M))" and ?p1 = "take L P" and ?p2 = "take L (drop L P)"
    and ?m2 = "take L (drop L M)"
  note Q = multiply_chunks [OF assms(1-4)]
  obtain c where a: "AddAndReturnOverflow ?Q ?p2 = (out, c)" unfolding out_def by (metis prod.collapse)
  have "length (Normalize ?p2) \<le> length ?Q" using Normalize_length [of ?p2] Q(1) assms(1) by simp
  note A = AddAndReturnOverflow_spec [OF a this]
  have "digits_value ?p1 * digits_value ?m2 + digits_value ?p2 < (digits_value ?p1 + 1) * digits_value ?m2" using assms(5) by simp
  also have "\<dots> \<le> digit_base ^ length ?p1 * digit_base ^ length ?m2"
    using value_less [of ?p1] value_less [of ?m2] by (intro mult_mono) auto
  also have "\<dots> = digit_base ^ length ?Q"
  proof -
    have "length ?p1 + length ?m2 = length ?Q" unfolding Q(1) using assms(1,2) by auto
    then show ?thesis by (simp only: power_add [symmetric])
  qed
  finally have "digit_base ^ length ?Q * unat c < digit_base ^ length ?Q * 1" using A(2) Q(2) by linarith
  from base_power_less [OF this] have "unat c = 0" by simp
  then show "length out = min (L * 2) (length P)"
    and "digits_value out = digits_value ?p1 * digits_value ?m2 + digits_value ?p2" using A Q by simp_all
qed

lemma chunks_append:
  assumes "chunks L X vs" and "0 < length Y" and "length Y = min L n" and "vs \<noteq> [] \<longrightarrow> L < n" and "digits_value Y = v"
  shows "chunks L (Y @ X) (v # vs)"
  using assms by (cases vs) auto

lemma chunks_length: "chunks L X vs \<Longrightarrow> length X \<le> L * length vs"
  by (induction vs arbitrary: X) fastforce+

lemma chunks_short: "chunks L X vs \<Longrightarrow> length X < L * length vs \<Longrightarrow> vs \<noteq> []"
  by auto

text \<open>What a pass knows of the pair of chunks before: their product is there to be copied.\<close>

definition prev_ok :: "nat \<Rightarrow> nat \<Rightarrow> digits \<times> digits \<times> digits \<Rightarrow> bool" where
  "prev_ok L F prev \<longleftrightarrow> (case prev of (m, m2, out) \<Rightarrow> digits_value m2 = F \<and> digits_value out = digits_value m * F \<and> length out = L * 2)"

lemma large_pass_spec:
  assumes "chunks L P ps" and "chunks L M ms" and "length ps = length ms" and "length M = length P" and "length T = length P"
    and "length P < 2 ^ 30" and "parts_below ps ms" and "multipliers_ok F (length P < L * length ps) ms"
    and "0 < i" and "num_parts = i + length ps" and "2 < i \<and> ps \<noteq> [] \<longrightarrow> prev_ok L F prev" and "0 < L"
  shows "\<exists>P' M'. large_pass L num_parts i P M T prev = Some (P', M') \<and> length P' = length P \<and> length M' = length P \<and>
    chunks (L * 2) P' (pair_parts ps ms) \<and> chunks (L * 2) M' (pair_mults ms)"
  using assms
proof (induction ps ms arbitrary: i P M T prev rule: pair_parts.induct)
  case (1 p p2 ps m m2 ms)
  let ?m = "take L M" and ?m2 = "take L (drop L M)" and ?old = "take (L * 2) P"
  have l: "L < length P" "L < length M" using 1(2,5) by auto
  have V: "digits_value (take L P) = p" "digits_value (take L (drop L P)) = p2" "digits_value ?m = m" "digits_value ?m2 = m2"
    "chunks L (drop (L * 2) P) ps" "chunks L (drop (L * 2) M) ms" using 1(2,3) by (simp_all add: mult_2_right)
  have lt: "p2 < m2" using 1(8) by (simp add: parts_below_def)
  define p_out where "p_out = fst (AddAndReturnOverflow (Multiply (take (L * 2) T) (take L P) ?m2) (take L (drop L P)))"
  have po: "length p_out = min (L * 2) (length P)" "digits_value p_out = p * m2 + p2"
    using combine_chunks [OF l(1) 1(5-7)] lt V unfolding p_out_def by simp_all
  obtain a b c where prev: "prev = (a, b, c)" by (metis prod.exhaust)
  have "\<exists>m_out. (if i > 0 then case prev of (m_in_prev, m_in2_prev, m_out_prev) \<Rightarrow>
        if i > 2 \<and> Compare ?m m_in_prev = 0 \<and> Compare ?m2 m_in2_prev = 0
        then if length ?old < L * 2 then None else Some m_out_prev else Some (Multiply ?old ?m ?m2)
      else Some ?old) = Some m_out \<and> length m_out = min (L * 2) (length P) \<and> digits_value m_out = m * m2"
  proof (cases "i > 2 \<and> Compare ?m a = 0 \<and> Compare ?m2 b = 0")
    case True
    then have e: "m = digits_value a" "m2 = F" "digits_value c = m * m2" "length c = L * 2"
      using 1(12) prev Compare_spec [of ?m a] Compare_spec [of ?m2 b] V(3,4) by (auto simp: prev_ok_def sgn_if split: if_splits)
    have "\<not> length P < L * 2"
    proof
      assume s: "length P < L * 2"
      then have "ps = []" using V(5) by (cases ps) auto
      then show False using 1(4,9) s e(2) by (auto simp: multipliers_ok_def)
    qed
    then show ?thesis using True prev e 1(10) by auto
  next
    case False
    have "length M < 2 ^ 30" using 1(5,7) by simp
    from multiply_chunks [OF l(2) refl 1(5) [symmetric] this, unfolded 1(5) V(3,4)]
    show ?thesis unfolding prev prod.case if_not_P [OF False] if_P [OF 1(10)] by blast
  qed
  then obtain m_out where mo: "(if i > 0 then case prev of (m_in_prev, m_in2_prev, m_out_prev) \<Rightarrow>
        if i > 2 \<and> Compare ?m m_in_prev = 0 \<and> Compare ?m2 m_in2_prev = 0
        then if length ?old < L * 2 then None else Some m_out_prev else Some (Multiply ?old ?m ?m2)
      else Some ?old) = Some m_out" "length m_out = min (L * 2) (length P)" "digits_value m_out = m * m2" by blast
  have unfolded: "large_pass L num_parts i P M T prev = map_option (\<lambda>(new_parts, new_multipliers). (p_out @ new_parts, m_out @ new_multipliers))
      (large_pass L num_parts (i + 2) (drop (L * 2) P) (drop (L * 2) M) (drop (L * 2) T) (?m, ?m2, m_out))"
    using 1(11) mo(1) by (subst large_pass.simps) (simp add: p_out_def Let_def)
  have mk: "multipliers_ok F (length (drop (L * 2) P) < L * length ps) ms"
    using 1(4,9) by (cases "ms = []") (auto simp: multipliers_ok_def)
  have pk: "ps \<noteq> [] \<Longrightarrow> prev_ok L F (?m, ?m2, m_out)"
  proof -
    assume "ps \<noteq> []"
    then have "ms \<noteq> []" "length P > L * 2" using 1(4) V(5) by (auto; cases ps; auto)+
    then have "m2 = F" using 1(9) by (cases ms) (auto simp: multipliers_ok_def)
    then show ?thesis using mo(2,3) V(3,4) \<open>length P > L * 2\<close> by (simp add: prev_ok_def)
  qed
  have "length P - L * 2 < 2 ^ 30" using 1(7) by simp
  then obtain P' M' where R: "large_pass L num_parts (i + 2) (drop (L * 2) P) (drop (L * 2) M) (drop (L * 2) T) (?m, ?m2, m_out) = Some (P', M')"
    "length P' = length P - L * 2" "length M' = length P - L * 2" "chunks (L * 2) P' (pair_parts ps ms)" "chunks (L * 2) M' (pair_mults ms)"
    using 1(1) [of "drop (L * 2) P" "drop (L * 2) M" "drop (L * 2) T" "i + 2" "(?m, ?m2, m_out)"] V(5,6) mk pk 1(4-8,11,13)
    by (auto simp: parts_below_def)
  have "pair_parts ps ms \<noteq> [] \<longrightarrow> L * 2 < length P" "pair_mults ms \<noteq> [] \<longrightarrow> L * 2 < length P"
    using R(2-5) by (auto simp: neq_Nil_conv)
  moreover have "0 < length p_out" "0 < length m_out" unfolding po(1) mo(2) using l(1) 1(13) by auto
  ultimately have "chunks (L * 2) (p_out @ P') (pair_parts (p # p2 # ps) (m # m2 # ms))" "chunks (L * 2) (m_out @ M') (pair_mults (m # m2 # ms))"
    using chunks_append [OF R(4) _ po(1) _ po(2)] chunks_append [OF R(5) _ mo(2) _ mo(3)] unfolding pair_parts.simps pair_mults.simps by blast+
  then show ?case using unfolded R(1-3) po(1) mo(2) by auto
qed (auto simp: large_pass.simps pad_def Let_def Suc_length_conv length_Suc_conv)

text \<open>The state between two passes.\<close>

definition level_ok :: "nat \<Rightarrow> digits \<Rightarrow> digits \<Rightarrow> digits \<Rightarrow> nat list \<Rightarrow> nat list \<Rightarrow> nat \<Rightarrow> bool" where
  "level_ok L P M T ps ms F \<longleftrightarrow>
     chunks L P ps \<and> chunks L M ms \<and> length ps = length ms \<and> length M = length P \<and> length T = length P \<and>
     parts_below (tl ps) (tl ms) \<and> multipliers_ok F (length P < L * length ps) (tl ms) \<and> 0 < L \<and> 2 \<le> F \<and> length P < 2 ^ 30"

lemma multipliers_ok_mono: "multipliers_ok F s ms \<Longrightarrow> (s' \<longrightarrow> s) \<Longrightarrow> multipliers_ok F s' ms"
  by (auto simp: multipliers_ok_def)

lemma large_pass_level:
  assumes "level_ok L P M T ps ms F" and "1 < length ps"
  shows "\<exists>P' M' g. large_pass L (length ps) 0 P M T prev = Some (P', M') \<and>
    level_ok (L * 2) P' M' M (pair_parts ps ms) (g # tl (pair_mults ms)) (F * F)"
proof -
  obtain p p2 qs m m2 ns where ps: "ps = p # p2 # qs" "ms = m # m2 # ns" "length qs = length ns"
    using assms by (auto simp: level_ok_def length_Suc_conv Suc_length_conv dest!: less_imp_Suc_add)
  have A: "chunks L P ps" "chunks L M ms" "length M = length P" "length T = length P" "p2 < m2" "parts_below qs ns"
    "multipliers_ok F (length P < L * length ps) (m2 # ns)" "0 < L" "2 \<le> F" "length P < 2 ^ 30"
    using assms(1) ps by (auto simp: level_ok_def parts_below_def)
  have V: "digits_value (take L P) = p" "digits_value (take L (drop L P)) = p2" "digits_value (take L (drop L M)) = m2"
    "chunks L (drop (L * 2) P) qs" "chunks L (drop (L * 2) M) ns" "L < length P" using A(1,2) ps by (simp_all add: mult_2_right)
  define p_out where "p_out = fst (AddAndReturnOverflow (Multiply (take (L * 2) T) (take L P) (take L (drop L M))) (take L (drop L P)))"
  have po: "length p_out = min (L * 2) (length P)" "digits_value p_out = p * m2 + p2"
    using combine_chunks [OF V(6) A(3,4,10)] A(5) V(1-3) unfolding p_out_def by simp_all
  let ?m_out = "take (L * 2) P"
  have mk: "multipliers_ok F (length P - L * 2 < L * length qs) ns"
    using A(7) ps by (cases "ns = []") (auto simp: multipliers_ok_def)
  have "length P - L * 2 < 2 ^ 30" using A(10) by simp
  then obtain P' M' where R: "large_pass L (length ps) 2 (drop (L * 2) P) (drop (L * 2) M) (drop (L * 2) T)
      (take L M, take L (drop L M), ?m_out) = Some (P', M')" "length P' = length P - L * 2" "length M' = length P - L * 2"
    "chunks (L * 2) P' (pair_parts qs ns)" "chunks (L * 2) M' (pair_mults ns)"
    using large_pass_spec [of L "drop (L * 2) P" qs "drop (L * 2) M" ns "drop (L * 2) T" F 2 "length ps" "(take L M, take L (drop L M), ?m_out)"]
      V(4,5) mk ps A(3,4,6,8) by auto
  have e: "large_pass L (length ps) 0 P M T prev = Some (p_out @ P', ?m_out @ M')"
    using ps(1) R(1) by (subst large_pass.simps) (simp add: p_out_def Let_def numeral_2_eq_2)
  have l: "0 < length p_out" unfolding po(1) using V(6) A(8) by auto
  have long: "pair_parts qs ns \<noteq> [] \<longrightarrow> L * 2 < length P" "pair_mults ns \<noteq> [] \<longrightarrow> L * 2 < length P"
    using R(2-5) by (auto simp: neq_Nil_conv)
  have "chunks (L * 2) (p_out @ P') (pair_parts ps ms)" using chunks_append [OF R(4) l po(1) long(1) po(2)] ps by (simp del: chunks.simps)
  moreover have "chunks (L * 2) (?m_out @ M') (digits_value ?m_out # pair_mults ns)"
    using A(8) V(6) by (intro chunks_append [OF R(5) _ _ long(2) refl]) auto
  moreover have "multipliers_ok (F * F) (length P < L * 2 * length (pair_parts ps ms)) (pair_mults ns)"
  proof (cases "ns = []")
    case False
    show ?thesis
    proof (rule multipliers_ok_mono [OF multipliers_ok_pairs [OF mk A(9)]], intro impI)
      assume s: "length P < L * 2 * length (pair_parts ps ms)"
      show "length P - L * 2 < L * length qs \<or> odd (length ns)"
      proof (cases "odd (length ns)")
        case False
        then obtain b where b: "length ns = 2 * b" by (auto elim: evenE)
        then have "0 < L * (2 * b)" using \<open>ns \<noteq> []\<close> A(8) by (cases ns) auto
        moreover have "length P < L * 2 + L * (2 * b)" using s ps b by (simp add: mult.assoc)
        ultimately have "length P - L * 2 < L * (2 * b)" by linarith
        then show ?thesis using ps b by simp
      qed simp
    qed
  qed (simp add: multipliers_ok_def)
  moreover have "4 \<le> F * F" using A(9) mult_le_mono [of 2 F 2 F] by simp
  moreover have "length (p_out @ P') = length P" "length (?m_out @ M') = length P" using R(2,3) po(1) by auto
  moreover have "tl (pair_parts ps ms) = pair_parts qs ns" "tl (pair_mults ms) = pair_mults ns" using ps by simp_all
  moreover have "length (pair_parts ps ms) = length (digits_value ?m_out # pair_mults ns)" using ps by simp
  ultimately have "level_ok (L * 2) (p_out @ P') (?m_out @ M') M (pair_parts ps ms) (digits_value ?m_out # tl (pair_mults ms)) (F * F)"
    using parts_below_pairs [OF A(6)] A(3,8,10) unfolding level_ok_def list.sel by (simp del: chunks.simps)
  with e show ?thesis by blast
qed

lemma large_loop_spec:
  assumes "level_ok L P M T ps ms F" and "ps \<noteq> []"
  shows "\<exists>buf P'. large_loop (length ps) L (a, P) (b, M) (c, T) = Some (buf, P') \<and> length P' = length P \<and> digits_value P' = combined 0 ps ms"
  using assms
proof (induction "length ps" arbitrary: L P M T ps ms F a b c rule: less_induct)
  case less
  show ?case
  proof (cases "1 < length ps")
    case True
    have len: "length (pair_parts ps ms) = (length ps + 1) div 2" "length ps = length ms" using less.prems(1) by (auto simp: level_ok_def)
    obtain P' M' g where R: "large_pass L (length ps) 0 P M T ([], [], []) = Some (P', M')"
      "level_ok (L * 2) P' M' M (pair_parts ps ms) (g # tl (pair_mults ms)) (F * F)"
      using large_pass_level [OF less.prems(1) True] by blast
    then have "0 < length (pair_parts ps ms)" "length (pair_parts ps ms) < length ps" using len True by auto
    then have "pair_parts ps ms \<noteq> []" "length (pair_parts ps ms) < length ps" by auto
    from less.hyps [OF this(2) R(2) this(1), of c a b] obtain buf P'' where
      I: "large_loop (length (pair_parts ps ms)) (L * 2) (c, P') (a, M') (b, M) = Some (buf, P'')" "length P'' = length P'"
      "digits_value P'' = combined 0 (pair_parts ps ms) (g # tl (pair_mults ms))" by blast
    have "combined 0 (pair_parts ps ms) (g # tl (pair_mults ms)) = combined 0 (pair_parts ps ms) (pair_mults ms)"
      using len True by (cases ps; cases ms; cases "tl ps"; cases "tl ms") auto
    moreover have "length P' = length P" using R(2) less.prems(1) by (simp add: level_ok_def)
    ultimately show ?thesis using I R(1) True len combined_pairs [OF len(2), of 0]
      by (subst large_loop.simps) simp
  next
    case False
    then obtain p m where "ps = [p]" "ms = [m]" using less.prems by (cases ps; cases ms) (auto simp: level_ok_def)
    then show ?thesis using less.prems(1) by (subst large_loop.simps) (auto simp: level_ok_def)
  qed
qed

text \<open>The first pass, on single digits.\<close>

lemma single_combine:
  assumes "digit_mul p m2 = (lo, hi)" and "digit_add2 lo p2 = (z, c)" and "unat p2 < unat m2"
  shows "unat z + digit_base * unat (hi + c) = unat p * unat m2 + unat p2"
proof -
  note A = native.mul [OF assms(1)] native.add2 [OF assms(2)]
  have "unat p * unat m2 + unat p2 < (unat p + 1) * unat m2" using assms(3) by simp
  also have "\<dots> \<le> digit_base * digit_base" using unat_digit [of p] unat_digit [of m2] by (intro mult_mono) auto
  finally have "digit_base * (unat hi + unat c) < digit_base * digit_base" using A by (simp add: distrib_left)
  then have "unat (hi + c) = unat hi + unat c" by (simp add: unat_digit_add)
  with A show ?thesis by (simp add: distrib_left)
qed

definition first_mults :: "digit \<Rightarrow> digit \<Rightarrow> nat \<Rightarrow> nat list" where
  "first_mults mx ml n = replicate (n - 1) (unat mx) @ [unat ml]"

lemma first_mults_Cons: "0 < n \<Longrightarrow> first_mults mx ml (Suc n) = unat mx # first_mults mx ml n"
  by (cases n) (simp_all add: first_mults_def)

lemma large_first_spec:
  assumes "0 < i" and "num_parts = i + length ps" and "ps \<noteq> []" and "\<forall>p \<in> set (butlast ps). unat p < unat mx" and "unat (last ps) < unat ml"
    and "2 < i \<longrightarrow> unat (fst prev) + digit_base * unat (snd prev) = unat mx * unat mx"
    and "large_first mx ml num_parts i ps prev = (P', M')"
  shows "length P' = length ps \<and> length M' = length ps \<and>
    chunks 2 P' (pair_parts (map unat ps) (first_mults mx ml (length ps))) \<and> chunks 2 M' (pair_mults (first_mults mx ml (length ps)))"
  using assms
proof (induction mx ml num_parts i ps prev arbitrary: P' M' rule: large_first.induct)
  case (1 mx ml num_parts i p p2 ps prev)
  define m2 where "m2 = (if i = num_parts - 2 then ml else mx)"
  have m2: "m2 = (if ps = [] then ml else mx)" using 1(3) by (simp add: m2_def)
  obtain lo hi where d: "digit_mul p m2 = (lo, hi)" by fastforce
  obtain z c where a: "digit_add2 lo p2 = (z, c)" by fastforce
  obtain m0 m1 where m: "(if i > 2 \<and> m2 \<noteq> ml then prev else digit_mul mx m2) = (m0, m1)" by fastforce
  have lt: "unat p2 < unat m2" using 1(5,6) by (auto simp: m2 split: if_splits)
  have V: "unat z + digit_base * unat (hi + c) = unat p * unat m2 + unat p2" by (rule single_combine [OF d a lt])
  have W: "unat m0 + digit_base * unat m1 = unat mx * unat m2"
    using m 1(7) native.mul [of mx m2 m0 m1] by (auto simp: m2 split: if_splits)
  obtain P1 M1 where R: "large_first mx ml num_parts (i + 2) ps (m0, m1) = (P1, M1)" by fastforce
  have e: "P' = z # (hi + c) # P1" "M' = m0 # m1 # M1"
    using 1(2,8) d a m R by (auto simp: Let_def m2_def [symmetric])
  show ?case
  proof (cases "ps = []")
    case True
    then have "P1 = []" "M1 = []" using R by auto
    then show ?thesis using e V W True m2 by (simp add: first_mults_def)
  next
    case False
    have "length P1 = length ps \<and> length M1 = length ps \<and>
      chunks 2 P1 (pair_parts (map unat ps) (first_mults mx ml (length ps))) \<and> chunks 2 M1 (pair_mults (first_mults mx ml (length ps)))"
      using 1(1) [OF refl m2_def d [symmetric] a [symmetric] _ m [symmetric] _ _ False _ _ _ R] False 1(2,3,5,6) W m2 by auto
    then show ?thesis using e V W False m2 by (auto simp: first_mults_Cons)
  qed
qed (auto simp: first_mults_def)

lemma large_first_level:
  assumes "2 \<le> length ps" and "length ps < 2 ^ 30" and "\<forall>p \<in> set (butlast ps). unat p < unat mx" and "unat (last ps) < unat ml"
    and "unat ml \<le> unat mx" and "2 \<le> unat mx" and "large_first mx ml (length ps) 0 ps prev = (P, M)" and "length T = length ps"
  shows "\<exists>g. level_ok 2 P M T (pair_parts (map unat ps) (first_mults mx ml (length ps)))
    (g # tl (pair_mults (first_mults mx ml (length ps)))) (unat mx * unat mx)"
proof -
  obtain p p2 qs where ps: "ps = p # p2 # qs" using assms(1) by (auto simp: length_Suc_conv numeral_2_eq_2 dest!: le_Suc_ex)
  define m2 where "m2 = (if 0 = length ps - 2 then ml else mx)"
  have m2: "m2 = (if qs = [] then ml else mx)" using ps by (simp add: m2_def)
  obtain lo hi where d: "digit_mul p m2 = (lo, hi)" by fastforce
  obtain z c where a: "digit_add2 lo p2 = (z, c)" by fastforce
  obtain P1 M1 where R: "large_first mx ml (length ps) 2 qs (p, p2) = (P1, M1)" by fastforce
  have e: "P = z # (hi + c) # P1" "M = p # p2 # M1"
    using assms(7) d a R unfolding ps by (auto simp: Let_def m2 numeral_2_eq_2 split: if_splits)
  have lt: "unat p2 < unat m2" using assms(3,4) ps by (auto simp: m2 split: if_splits)
  have V: "unat z + digit_base * unat (hi + c) = unat p * unat m2 + unat p2" by (rule single_combine [OF d a lt])
  let ?F = "unat mx * unat mx"
  have F: "2 \<le> ?F" using assms(6) mult_le_mono [of 1 "unat mx" 2 "unat mx"] by simp
  show ?thesis
  proof (cases "qs = []")
    case True
    then have "P1 = []" "M1 = []" using R by auto
    then show ?thesis using e V F True m2 ps assms(2,8)
      by (auto simp: level_ok_def first_mults_def parts_below_def multipliers_ok_def)
  next
    case False
    let ?ms = "first_mults mx ml (length qs)"
    from large_first_spec [OF _ _ False _ _ _ R] False assms(3,4) ps
    have S: "length P1 = length qs" "length M1 = length qs" "chunks 2 P1 (pair_parts (map unat qs) ?ms)" "chunks 2 M1 (pair_mults ?ms)" by auto
    have b: "parts_below (map unat qs) ?ms"
      using False assms(3,4) ps by (cases qs rule: rev_cases)
        (auto simp: parts_below_def first_mults_def list_all2_append list_all2_conv_all_nth nth_append all_set_conv_all_nth split: if_splits)
    have k: "multipliers_ok (unat mx) False ?ms" using assms(5) by (auto simp: multipliers_ok_def first_mults_def butlast_append)
    have lm: "length ?ms = length qs" using False by (simp add: first_mults_def)
    then have "multipliers_ok ?F (length ps < 2 * length (pair_parts (map unat ps) (first_mults mx ml (length ps)))) (pair_mults ?ms)"
      by (intro multipliers_ok_mono [OF multipliers_ok_pairs [OF k assms(6)]])
        (use False ps in \<open>auto elim!: evenE simp: first_mults_Cons\<close>)
    then show ?thesis using e V F S parts_below_pairs [OF b] m2 False ps assms(2,8) lm
      by (intro exI [of _ "unat p + digit_base * unat p2"]) (auto simp: level_ok_def first_mults_Cons)
  qed
qed

lemma combined_replicate:
  "combined a (xs @ [y]) (replicate (length xs) F @ [m]) = (a * F ^ length xs + horner F xs) * m + y"
  by (induction xs arbitrary: a) (simp_all add: algebra_simps)

lemma combined_parts:
  assumes "ps \<noteq> []"
  shows "combined 0 (map unat ps) (first_mults mx ml (length ps)) = horner (unat mx) (map unat (butlast ps)) * unat ml + unat (last ps)"
  using assms combined_replicate [of 0 "map unat (butlast ps)" "unat (last ps)" "unat mx" "unat ml"]
  by (cases ps rule: rev_cases) (simp_all add: first_mults_def)

lemma FromStringLarge_spec:
  assumes "heap_parts acc = ps" and "2 \<le> length ps" and "length ps < 2 ^ 30" and "length Z = length ps"
    and "\<forall>p \<in> set (butlast ps). unat p < unat (max_multiplier acc)" and "unat (last ps) < unat (last_multiplier acc)"
    and "unat (last_multiplier acc) \<le> unat (max_multiplier acc)" and "2 \<le> unat (max_multiplier acc)"
  shows "\<exists>Z'. FromStringLarge Z acc = Some Z' \<and> length Z' = length Z \<and>
    digits_value Z' = horner (unat (max_multiplier acc)) (map unat (butlast ps)) * unat (last_multiplier acc) + unat (last ps)"
proof -
  let ?mx = "max_multiplier acc" and ?ml = "last_multiplier acc"
  let ?ms = "first_mults ?mx ?ml (length ps)"
  let ?qs = "pair_parts (map unat ps) ?ms"
  obtain P M where f: "large_first ?mx ?ml (length ps) 0 ps (0, 0) = (P, M)" by fastforce
  obtain g where lv: "level_ok 2 P M (ScratchDigits (length ps)) ?qs (g # tl (pair_mults ?ms)) (unat ?mx * unat ?mx)"
    using large_first_level [OF assms(2,3,5-8) f, of "ScratchDigits (length ps)"] by (auto simp: ScratchDigits_def)
  have ne: "ps \<noteq> []" and lm: "length (map unat ps) = length ?ms" using assms(2) by (auto simp: first_mults_def)
  have q: "length ?qs = (length ps + 1) div 2" using lm by (simp add: first_mults_def)
  have "0 < length ?qs" using q assms(2) by simp
  then have "?qs \<noteq> []" by auto
  from large_loop_spec [OF lv this, of ResultZ HeapParts MultipliersStorage] obtain buf P' where
    l: "large_loop ((length ps + 1) div 2) 2 (ResultZ, P) (HeapParts, M) (MultipliersStorage, ScratchDigits (length ps)) = Some (buf, P')"
    "length P' = length P" "digits_value P' = combined 0 ?qs (g # tl (pair_mults ?ms))" unfolding q by blast
  have "length (pair_mults ?ms) = length ?qs" using lm by simp
  then have "combined 0 ?qs (g # tl (pair_mults ?ms)) = combined 0 ?qs (pair_mults ?ms)"
    using \<open>?qs \<noteq> []\<close> by (cases ?qs; cases "pair_mults ?ms") auto
  also have "\<dots> = combined 0 (map unat ps) ?ms" using lm by (rule combined_pairs)
  finally have v: "digits_value P' = horner (unat ?mx) (map unat (butlast ps)) * unat ?ml + unat (last ps)"
    using l(3) combined_parts [OF ne] by simp
  have "length P = length ps" using lv by (simp add: level_ok_def ScratchDigits_def)
  then have "FromStringLarge Z acc = Some P'"
    using f l(1,2) assms(1,4) by (auto simp: FromStringLarge_def Let_def pad_def)
  then show ?thesis using v l(2) \<open>length P = length ps\<close> assms(4) by simp
qed

section \<open>Parsing a number\<close>

lemma part_powers:
  assumes "parts_of r (unat r ^ K) ps m cs" and "2 \<le> unat r" and "0 < K"
  shows "\<exists>j. length (takeWhile (valid_char r) cs) = K * (length ps - 1) + j \<and> j \<le> K \<and> (1 < length ps \<longrightarrow> 0 < j)"
proof -
  obtain j where j: "m = unat r ^ j" "j = 0 \<longrightarrow> length ps = 1" "m \<le> unat r ^ K"
    "unat r ^ length (takeWhile (valid_char r) cs) = (unat r ^ K) ^ (length ps - 1) * m" using assms(1) by (auto simp: parts_of_def)
  have "unat r ^ length (takeWhile (valid_char r) cs) = unat r ^ (K * (length ps - 1) + j)"
    using j(1,4) by (simp add: power_add power_mult)
  then have "length (takeWhile (valid_char r) cs) = K * (length ps - 1) + j" using assms(2) by simp
  moreover have "j \<le> K" using j(1,3) assms(2) power_le_imp_le_exp [of "unat r" j K] by simp
  ultimately show ?thesis using j(2) by auto
qed

text \<open>A number of more parts than fit is large.\<close>

lemma parts_large:
  assumes "parts_of r (unat r ^ K) ps m cs" and "2 \<le> unat r" and "2 ^ 64 \<le> unat r ^ Suc K" and "D < length ps"
  shows "2 ^ (64 * D) \<le> unat r ^ (length (takeWhile (valid_char r) cs) + D)"
proof -
  have m: "0 < m" "unat r ^ length (takeWhile (valid_char r) cs) = (unat r ^ K) ^ (length ps - 1) * m"
    using assms(1) by (auto simp: parts_of_def)
  have "(2 :: nat) ^ (64 * D) \<le> (unat r ^ Suc K) ^ D" unfolding power_mult using assms(3) by (intro power_mono) auto
  also have "\<dots> = (unat r ^ K) ^ D * unat r ^ D" by (simp add: power_mult_distrib mult.commute)
  also have "\<dots> \<le> (unat r ^ K) ^ (length ps - 1) * m * unat r ^ D"
  proof (intro mult_right_mono)
    have "(unat r ^ K) ^ D \<le> (unat r ^ K) ^ (length ps - 1)" using assms(2,4) by (intro power_increasing) auto
    also have "\<dots> \<le> (unat r ^ K) ^ (length ps - 1) * m" using m(1) by simp
    finally show "(unat r ^ K) ^ D \<le> (unat r ^ K) ^ (length ps - 1) * m" .
  qed simp
  finally show ?thesis using m(2) by (simp add: power_add)
qed

text \<open>What parsing delivers: the rest behind the number and an accumulator from which the number is
  obtained, or the message that the number is too large.\<close>

definition parses :: "digit \<Rightarrow> nat \<Rightarrow> uc32 list \<Rightarrow> (uc32 list \<times> FromStringAccumulator) option \<Rightarrow> bool" where
  "parses r D cs result \<longleftrightarrow>
     (\<exists>rest acc. result = Some (rest, acc) \<and>
        (case accumulator_result acc of
           kOk \<Rightarrow> rest = dropWhile (valid_char r) cs \<and> ResultLength acc \<le> D \<and>
             (\<forall>Z. length Z = ResultLength acc \<longrightarrow> (\<exists>Z'. FromString Z acc = Some Z' \<and> length Z' = length Z \<and>
                digits_value Z' = chars_value r (takeWhile (valid_char r) cs)))
         | kMaxSizeExceeded \<Rightarrow> 2 ^ (64 * D) \<le> unat r ^ (length (takeWhile (valid_char r) cs) + D)))"

lemma new_accumulator_wf: "acc_wf (new_FromStringAccumulator n)"
  by (simp add: acc_wf_def new_FromStringAccumulator_def all_parts_def)

lemma stack_parts_used: "acc_wf acc \<Longrightarrow> all_parts acc \<noteq> [] \<Longrightarrow> stack_parts acc \<noteq> []"
  by (auto simp: acc_wf_def all_parts_def split: if_splits)

lemma Parse_bits_spec:
  assumes "two_radix r" and "cs \<noteq> []" and "length cs > kInlineThreshold"
  shows "parses r (max n kStackParts) cs (Parse cs r (new_FromStringAccumulator n))"
proof -
  let ?c = "char_bits r" and ?D = "max n kStackParts"
  define acc where "acc = new_FromStringAccumulator n \<lparr> accumulator_radix := ucast r \<rparr>"
  note T = two_radix_bits [OF assms(1)]
  have r: "any_radix r" "2 \<le> unat r" using assms(1) by (auto simp: two_radix_def any_radix_def)
  have e: "Parse cs r (new_FromStringAccumulator n) = ParsePowerTwo_loop r cs acc"
    using assms(3) two_radix_iff [OF r(1)] assms(1) T(4)
    by (simp add: Parse_def ParsePowerTwo_def new_FromStringAccumulator_def not_le acc_def)
  let ?m = "\<lambda>bits. if bits \<le> 64 then 2 ^ (64 - bits) else 0"
  obtain items where I: "parts_of r (unat r ^ (64 div ?c)) (map snd items) (?m (fst (last items))) cs"
    "\<And>acc. case add_all add_bits items acc of None \<Rightarrow> ParsePowerTwo_loop r cs acc = None
      | Some (ok, acc') \<Rightarrow> \<exists>rest. ParsePowerTwo_loop r cs acc = Some (rest, acc') \<and> (ok \<longrightarrow> rest = dropWhile (valid_char r) cs)"
    using parse_bits.loop_adds_parts [OF assms(1,2)] by blast
  have wf: "acc_wf acc" "accumulator_result acc = kOk" "all_parts acc = []" "max_digits acc = ?D"
    "accumulator_radix acc = ucast r" "inline_everything acc = False"
    by (simp_all add: acc_def acc_wf_def new_FromStringAccumulator_def all_parts_def)
  have "items \<noteq> []" and bits: "fst (last items) \<le> 64" using I(1) by (auto simp: parts_of_def split: if_splits)
  from add_all_bits [OF wf(1,2) this(1), unfolded wf(3-6) append_Nil list.size add_0]
  obtain ok acc' where A: "add_all add_bits items acc = Some (ok, acc')" "acc_wf acc'"
    "inline_everything acc' = False" "accumulator_radix acc' = ucast r" "max_digits acc' = ?D"
    "if ok then accumulator_result acc' = kOk \<and> all_parts acc' = map snd items \<and> last_multiplier acc' = of_nat (fst (last items))
     else accumulator_result acc' = kMaxSizeExceeded \<and> ?D < length items" by blast
  obtain rest where L: "ParsePowerTwo_loop r cs acc = Some (rest, acc')" "ok \<longrightarrow> rest = dropWhile (valid_char r) cs"
    using I(2) [of acc] A(1) by auto
  have P: "parts_of r (unat r ^ (64 div ?c)) (map snd items) (2 ^ (64 - fst (last items))) cs" using I(1) bits by simp
  show ?thesis
  proof (cases ok)
    case True
    then have O: "accumulator_result acc' = kOk" "all_parts acc' = map snd items" "last_multiplier acc' = of_nat (fst (last items))" using A(6) by auto
    have F: "FromString Z acc' = FromStringBasePowerOfTwo (length Z) acc'" for Z
      using A(2-4) O(2) \<open>items \<noteq> []\<close> T(5) stack_parts_used [of acc'] by (simp add: FromString_def)
    have "\<exists>Z'. FromString Z acc' = Some Z' \<and> length Z' = length Z \<and> digits_value Z' = chars_value r (takeWhile (valid_char r) cs)"
      if "length Z = ResultLength acc'" for Z
      unfolding F using FromStringBasePowerOfTwo_spec [OF assms(1) A(2,4) _ O(3) bits, of cs "length Z"] P O(2) ResultLength_parts [OF A(2)] that by simp
    then show ?thesis using e L True O(1) ResultLength_parts [OF A(2)] A(2,5) by (auto simp: parses_def acc_wf_def)
  next
    case False
    have "64 < ?c * Suc (64 div ?c)" using T(2) by (simp add: dividend_less_times_div)
    then have "(2 :: nat) ^ 64 \<le> unat r ^ Suc (64 div ?c)" unfolding T(1) power_mult [symmetric] by (intro power_increasing) auto
    from parts_large [OF P r(2) this, of ?D] show ?thesis using e L(1) A(6) False by (simp add: parses_def)
  qed
qed

lemma Parse_parts_spec:
  assumes "any_radix r" and "\<not> two_radix r" and "cs \<noteq> []" and "length cs > kInlineThreshold" and "n < 2 ^ 29"
  shows "parses r (max n kStackParts) cs (Parse cs r (new_FromStringAccumulator n))"
proof -
  let ?K = "part_chars r" and ?D = "max n kStackParts"
  define acc where "acc = new_FromStringAccumulator n"
  note K = part_chars_bounds [OF assms(1)]
  have r: "2 \<le> unat r" using assms(1) by (simp add: any_radix_def)
  have e: "Parse cs r (new_FromStringAccumulator n) = Parse_loop r cs acc"
    using assms(4) two_radix_iff [OF assms(1)] assms(2) by (simp add: Parse_def new_FromStringAccumulator_def not_le acc_def)
  obtain items where I: "parts_of r (unat r ^ ?K) (map snd items) (unat (fst (last items))) cs"
    "\<forall>x \<in> set (butlast items). unat (fst x) = unat r ^ ?K"
    "\<And>acc. case add_all AddPart items acc of None \<Rightarrow> Parse_loop r cs acc = None
      | Some (ok, acc') \<Rightarrow> \<exists>rest. Parse_loop r cs acc = Some (rest, acc') \<and> (ok \<longrightarrow> rest = dropWhile (valid_char r) cs)"
    using parse.loop_adds_parts [OF assms(1,3)] by blast
  have wf: "acc_wf acc" "accumulator_result acc = kOk" "all_parts acc = []" "max_digits acc = ?D"
    "accumulator_radix acc = 0" "\<not> inline_everything acc"
    by (simp_all add: acc_def acc_wf_def new_FromStringAccumulator_def all_parts_def)
  have ne: "items \<noteq> []" using I(1) by (auto simp: parts_of_def)
  from add_all_parts [OF wf(1,2,6) this, unfolded wf(3-5) append_Nil list.size add_0]
  obtain ok acc' where A: "add_all AddPart items acc = Some (ok, acc')" "acc_wf acc'"
    "\<not> inline_everything acc'" "accumulator_radix acc' = 0" "max_digits acc' = ?D"
    "if ok then accumulator_result acc' = kOk \<and> all_parts acc' = map snd items \<and> last_multiplier acc' = fst (last items) \<and>
       max_multiplier acc' = (if length items = 1 then max_multiplier acc else fst (last (butlast items)))
     else accumulator_result acc' = kMaxSizeExceeded \<and> ?D < length items" by blast
  obtain rest where L: "Parse_loop r cs acc = Some (rest, acc')" "ok \<longrightarrow> rest = dropWhile (valid_char r) cs"
    using I(3) [of acc] A(1) by auto
  show ?thesis
  proof (cases ok)
    case True
    let ?ps = "all_parts acc'"
    have O: "accumulator_result acc' = kOk" "?ps = map snd items" "last_multiplier acc' = fst (last items)"
      "1 < length items \<longrightarrow> unat (max_multiplier acc') = unat r ^ ?K"
      using A(6) True I(2) by (cases items rule: rev_cases; auto split: if_splits)+
    have P: "?ps \<noteq> []" "\<forall>p \<in> set (butlast ?ps). unat p < unat r ^ ?K" "unat (last ?ps) < unat (last_multiplier acc')"
      "unat (last_multiplier acc') \<le> unat r ^ ?K"
      "chars_value r (takeWhile (valid_char r) cs) = horner (unat r ^ ?K) (map unat (butlast ?ps)) * unat (last_multiplier acc') + unat (last ?ps)"
      using I(1) O(2,3) unfolding parts_of_def by simp_all
    have len: "ResultLength acc' = length ?ps" "length ?ps \<le> ?D" using ResultLength_parts [OF A(2)] A(2,5) by (auto simp: acc_wf_def)
    have "\<exists>Z'. FromString Z acc' = Some Z' \<and> length Z' = length Z \<and> digits_value Z' = chars_value r (takeWhile (valid_char r) cs)"
      if Z: "length Z = ResultLength acc'" for Z
    proof (cases "ResultLength acc' < kFromStringLargeThreshold")
      case True
      then have "FromString Z acc' = FromStringClassic (length Z) acc'"
        using A(2-4) P(1) stack_parts_used [of acc'] by (simp add: FromString_def IsPowerOfTwo_def)
      moreover have "2 \<le> length ?ps \<longrightarrow> unat r ^ ?K = unat (max_multiplier acc')" using O(2,4) by auto
      ultimately show ?thesis using FromStringClassic_spec [OF A(2) refl P(1) _ _ P(2,3), of "length Z"] Z len(1) P(5) by simp
    next
      case False
      then have "FromString Z acc' = FromStringLarge Z acc'"
        using A(2-4) P(1) stack_parts_used [of acc'] by (simp add: FromString_def IsPowerOfTwo_def)
      moreover have h: "heap_parts acc' = ?ps" using False len(1) A(2) by (auto simp: all_parts_def acc_wf_def)
      moreover have mx: "unat (max_multiplier acc') = unat r ^ ?K" using O(2,4) False len(1) by simp
      moreover have "2 \<le> unat r ^ ?K"
      proof -
        have "unat r ^ 1 \<le> unat r ^ ?K" using r K(3) by (intro power_increasing) (auto split: if_splits)
        then show ?thesis using r by simp
      qed
      moreover have "length ?ps < 2 ^ 30" using len(2) assms(5) by simp
      ultimately show ?thesis using FromStringLarge_spec [OF h, of Z] P(2-5) Z len(1) False by simp
    qed
    then show ?thesis using e L True O(1) len by (auto simp: parses_def)
  next
    case False
    from parts_large [OF I(1) r K(2), of ?D] show ?thesis using e L(1) A(6) False by (simp add: parses_def)
  qed
qed

text \<open>Short strings: eight parts are enough but for the largest radixes.\<close>

definition overruns_stack :: "digit \<Rightarrow> uc32 list \<Rightarrow> bool" where
  "overruns_stack r cs \<longleftrightarrow> 30 < unat r \<and> 96 < length (takeWhile (valid_char r) cs) \<and> length cs \<le> kInlineThreshold"

lemma kInlineThreshold_eq: "kInlineThreshold = 99"
  by (simp add: kInlineThreshold_def)

lemma inline_parts:
  assumes "any_radix r" and "parts_of r (unat r ^ part_chars r) ps m cs" and "length cs \<le> kInlineThreshold"
  shows "length ps \<le> kStackParts \<longleftrightarrow> \<not> overruns_stack r cs"
proof -
  let ?K = "part_chars r" and ?n = "length (takeWhile (valid_char r) cs)"
  note K = part_chars_bounds(3) [OF assms(1)]
  have r: "2 \<le> unat r" "0 < ?K" using assms(1) K by (auto simp: any_radix_def split: if_splits)
  obtain j where j: "?n = ?K * (length ps - 1) + j" "j \<le> ?K" "1 < length ps \<longrightarrow> 0 < j" using part_powers [OF assms(2) r] by blast
  have n: "?n \<le> 99" using length_takeWhile_le [of "valid_char r" cs] assms(3) kInlineThreshold_eq by linarith
  have ne: "0 < length ps" using assms(2) by (auto simp: parts_of_def)
  show ?thesis
  proof (cases "length ps \<le> 8")
    case True
    then have "?K * (length ps - 1) \<le> ?K * 7" by (intro mult_left_mono) auto
    then show ?thesis using True j K by (auto simp: overruns_stack_def split: if_splits)
  next
    case False
    then have "?K * 8 \<le> ?K * (length ps - 1)" "0 < j" using j(3) by (auto intro!: mult_left_mono)
    then have "?K * 8 < ?n" unfolding j(1) by linarith
    then show ?thesis using False n K assms(3) by (auto simp: overruns_stack_def split: if_splits)
  qed
qed

lemma Parse_inline_spec:
  assumes "any_radix r" and "cs \<noteq> []" and "length cs \<le> kInlineThreshold"
  shows "if overruns_stack r cs then Parse cs r (new_FromStringAccumulator n) = None
    else parses r (max n kStackParts) cs (Parse cs r (new_FromStringAccumulator n))"
proof -
  let ?K = "part_chars r" and ?D = "max n kStackParts"
  define acc where "acc = new_FromStringAccumulator n \<lparr> inline_everything := True \<rparr>"
  have e: "Parse cs r (new_FromStringAccumulator n) = Parse_loop r cs acc" using assms(3) by (simp add: Parse_def acc_def Let_def)
  obtain items where I: "parts_of r (unat r ^ ?K) (map snd items) (unat (fst (last items))) cs"
    "\<forall>x \<in> set (butlast items). unat (fst x) = unat r ^ ?K"
    "\<And>acc. case add_all AddPart items acc of None \<Rightarrow> Parse_loop r cs acc = None
      | Some (ok, acc') \<Rightarrow> \<exists>rest. Parse_loop r cs acc = Some (rest, acc') \<and> (ok \<longrightarrow> rest = dropWhile (valid_char r) cs)"
    using parse.loop_adds_parts [OF assms(1,2)] by blast
  have ne: "items \<noteq> []" using I(1) by (auto simp: parts_of_def)
  have below: "\<forall>x \<in> set items. unat (snd x) < unat (fst x)"
    using I(1,2) ne by (cases items rule: rev_cases) (auto simp: parts_of_def butlast_append)
  have a: "inline_everything acc" "stack_parts acc = []" "accumulator_result acc = kOk" "heap_parts acc = []"
    by (simp_all add: acc_def new_FromStringAccumulator_def)
  note A = add_all_inline [OF a(1) below, unfolded a(2) list.size add_0 digits_value.simps]
  note V = items_value [OF ne I(2)]
  have fits: "length items \<le> kStackParts \<longleftrightarrow> \<not> overruns_stack r cs" using inline_parts [OF assms(1) I(1) assms(3)] by simp
  show ?thesis
  proof (cases "overruns_stack r cs")
    case True
    then show ?thesis using A fits I(3) [of acc] e by auto
  next
    case False
    then obtain qs where q: "add_all AddPart items acc = Some (True, acc \<lparr> stack_parts := qs \<rparr>)" "length qs = length items"
      "digits_value qs = chars_value r (takeWhile (valid_char r) cs)"
      using A V I(1) fits ne by (auto simp: parts_of_def last_map)
    let ?acc = "acc \<lparr> stack_parts := qs \<rparr>"
    have "ResultLength ?acc = length qs" using a(4) by (simp add: ResultLength_def)
    moreover have "FromString Z ?acc = Some qs" if "length Z = length qs" for Z
      using a(1) that by (simp add: FromString_def pad_def)
    ultimately show ?thesis using I(3) [of acc] q e a(3) False fits by (auto simp: parses_def)
  qed
qed

lemma Parse_spec:
  assumes "any_radix r" and "cs \<noteq> []" and "n < 2 ^ 29"
  shows "if overruns_stack r cs then Parse cs r (new_FromStringAccumulator n) = None
    else parses r (max n kStackParts) cs (Parse cs r (new_FromStringAccumulator n))"
proof (cases "length cs \<le> kInlineThreshold")
  case False
  then have "\<not> overruns_stack r cs" by (simp add: overruns_stack_def)
  then show ?thesis using Parse_bits_spec [of r cs n] Parse_parts_spec [of r cs n] assms False by auto
qed (rule Parse_inline_spec [OF assms(1,2)])

text \<open>C14. The accumulator reads the digits at the start of a string in any radix, and what the library makes of the
  parts, whichever algorithm their number and the radix select, is the number they stand for, in no more digits
  than allowed. It reports an excess only for a number of about the maximum length. With a radix above 30,
  however, 97 to 99 digits overrun the parts on the stack.\<close>

theorem string_parse_exact:
  assumes "any_radix r" and "cs \<noteq> []" and "n < 2 ^ 29"
  shows "(Parse cs r (new_FromStringAccumulator n) = None \<longleftrightarrow>
      30 < unat r \<and> 96 < length (takeWhile (valid_char r) cs) \<and> length cs \<le> 99) \<and>
    (\<forall>rest acc. Parse cs r (new_FromStringAccumulator n) = Some (rest, acc) \<longrightarrow>
      (case accumulator_result acc of
         kOk \<Rightarrow> rest = dropWhile (valid_char r) cs \<and> ResultLength acc \<le> max n kStackParts \<and>
           (\<forall>Z. length Z = ResultLength acc \<longrightarrow> (\<exists>Z'. FromString Z acc = Some Z' \<and> length Z' = length Z \<and>
              digits_value Z' = chars_value r (takeWhile (valid_char r) cs)))
       | kMaxSizeExceeded \<Rightarrow> 2 ^ (64 * max n kStackParts) \<le> unat r ^ (length (takeWhile (valid_char r) cs) + max n kStackParts)))"
  using Parse_spec [OF assms] unfolding overruns_stack_def kInlineThreshold_eq parses_def by (auto split: if_splits)

theorem string_parse_exact_witness:
  "Parse (replicate 97 0x7A) 36 (new_FromStringAccumulator 16) = None"
proof -
  have "takeWhile (valid_char 36) (replicate 97 0x7A) = replicate 97 0x7A" by code_simp
  then show ?thesis using string_parse_exact [of 36 "replicate 97 0x7A" 16] by (simp add: any_radix_def)
qed

end
