(* ===== verification/Bigint_ToString.thy ===== *)
theory Bigint_ToString
  imports Bigint_Combine
begin

text \<open>
  Big integers to strings: \<^verbatim>\<open>src/bigint/tostring.cc\<close> as built without
  \<^verbatim>\<open>V8_ADVANCED_BIGINT_ALGORITHMS\<close>. The string is written from its end: \<open>out\<close> is what stands between
  \<^verbatim>\<open>out_\<close> and \<^verbatim>\<open>out_end_\<close>, so that \<^verbatim>\<open>*(--out) = c\<close> puts a character in front.
\<close>

section \<open>Tables and powers\<close>

definition kMaxBitsPerChar :: "nat list" where
  "kMaxBitsPerChar =
    [0, 0, 32, 51, 64, 75, 83, 90, 96,
     102, 107, 111, 115, 119, 122, 126, 128,
     131, 134, 136, 139, 141, 143, 145, 147,
     149, 151, 153, 154, 156, 158, 159, 160,
     162, 163, 165, 166]"

abbreviation kBitsPerCharTableShift :: nat where "kBitsPerCharTableShift \<equiv> 5"

definition kBitsPerCharTableMultiplier :: nat where
  "kBitsPerCharTableMultiplier = push_bit kBitsPerCharTableShift 1"

definition kConversionChars :: "byte list" where
  "kConversionChars = ascii ''0123456789abcdefghijklmnopqrstuvwxyz''"

function digit_pow_loop :: "digit \<Rightarrow> digit \<Rightarrow> digit \<Rightarrow> digit" where
  "digit_pow_loop result b exponent =
     (if exponent > 0
      then digit_pow_loop (if exponent AND 1 \<noteq> 0 then result * b else result) (b * b) (drop_bit 1 exponent)
      else result)"
  by pat_completeness auto

termination digit_pow_loop
  by (relation "measure (\<lambda>(result, b, exponent). unat exponent)") (auto simp: unat_drop word_gt_0 unat_gt_0)

declare digit_pow_loop.simps [simp del]

definition digit_pow :: "digit \<Rightarrow> digit \<Rightarrow> digit" where
  "digit_pow b exponent = digit_pow_loop 1 b exponent"

text \<open>The compile-time version; exponent zero does not occur.\<close>

fun digit_pow_rec :: "digit \<Rightarrow> nat \<Rightarrow> digit" where
  "digit_pow_rec b 0 = 0"
| "digit_pow_rec b (Suc n) = (if n = 0 then b else b * digit_pow_rec b n)"

section \<open>The classic algorithm\<close>

text \<open>The last chunk has no leading zeros. The specialized version is used for radix 10 only.\<close>

function BasecaseFixedLast :: "digit \<Rightarrow> byte list \<Rightarrow> byte list" where
  "BasecaseFixedLast chunk out =
     (if chunk \<noteq> 0 then BasecaseFixedLast (chunk div 10) ((0x30 + ucast (chunk mod 10)) # out) else out)"
  by pat_completeness auto

termination BasecaseFixedLast
  by (relation "measure (\<lambda>(chunk, out). unat chunk)") (auto simp: unat_div unat_gt_0 div_less_dividend)

declare BasecaseFixedLast.simps [simp del]

text \<open>With radix 1 the loop would not end; division by zero has no result.\<close>

partial_function (option) BasecaseLast_loop :: "digit \<Rightarrow> digit \<Rightarrow> byte list \<Rightarrow> byte list option" where
  "BasecaseLast_loop radix digit out =
     (if radix = 0 then None
      else let out = kConversionChars ! unat (digit mod radix) # out; rest = digit div radix
           in if rest > 0 then BasecaseLast_loop radix rest out else Some out)"

definition BasecaseLast :: "digit \<Rightarrow> digit \<Rightarrow> byte list \<Rightarrow> byte list option" where
  "BasecaseLast radix digit out = (if radix = 10 then Some (BasecaseFixedLast digit out) else BasecaseLast_loop radix digit out)"

text \<open>Other chunks have \<^verbatim>\<open>chunk_chars_\<close> characters.\<close>

primrec BasecaseMiddle :: "digit \<Rightarrow> nat \<Rightarrow> digit \<Rightarrow> byte list \<Rightarrow> byte list" where
  "BasecaseMiddle radix 0 digit out = out"
| "BasecaseMiddle radix (Suc n) digit out =
     BasecaseMiddle radix n (digit div radix) (kConversionChars ! unat (digit mod radix) # out)"

text \<open>\<^verbatim>\<open>DivideByMagic<10>\<close>: division by a power of ten that fits a half digit, and its characters.\<close>

definition magic_chunk_chars :: nat where
  "magic_chunk_chars = kHalfDigitBits * kBitsPerCharTableMultiplier div kMaxBitsPerChar ! 10"

definition magic_chunk_divisor :: digit where
  "magic_chunk_divisor = digit_pow_rec 10 magic_chunk_chars"

fun magic_loop :: "digits \<Rightarrow> digits \<times> digit" where
  "magic_loop [] = ([], 0)"
| "magic_loop (d # ds) =
     (case magic_loop ds of (rest, remainder) \<Rightarrow>
      let upper = push_bit kHalfDigitBits remainder OR drop_bit kHalfDigitBits d;
          u_result = upper div magic_chunk_divisor; remainder = upper mod magic_chunk_divisor;
          lower = push_bit kHalfDigitBits remainder OR (d AND kHalfDigitMask);
          l_result = lower div magic_chunk_divisor; remainder = lower mod magic_chunk_divisor
      in ((push_bit kHalfDigitBits u_result OR l_result) # rest, remainder))"

primrec magic_chars :: "nat \<Rightarrow> digit \<Rightarrow> byte list \<Rightarrow> byte list" where
  "magic_chars 0 remainder out = out"
| "magic_chars (Suc n) remainder out = magic_chars n (remainder div 10) ((0x30 + ucast (remainder mod 10)) # out)"

definition DivideByMagic :: "digits \<Rightarrow> byte list \<Rightarrow> digits \<times> byte list" where
  "DivideByMagic input out =
     (case magic_loop input of (rest, remainder) \<Rightarrow> (rest, magic_chars magic_chunk_chars remainder out))"

text \<open>The fields \<^verbatim>\<open>Start\<close> sets, and the loop, which divides until one digit is left.\<close>

definition chunk_chars :: "digit \<Rightarrow> nat" where
  "chunk_chars radix = kDigitBits * kBitsPerCharTableMultiplier div kMaxBitsPerChar ! unat radix"

definition chunk_divisor :: "digit \<Rightarrow> digit" where
  "chunk_divisor radix = digit_pow radix (of_nat (chunk_chars radix))"

partial_function (option) Classic_loop :: "digit \<Rightarrow> digits \<Rightarrow> byte list \<Rightarrow> byte list option" where
  "Classic_loop radix dividend out =
     (let (rest, out) = (if radix = 10 then DivideByMagic dividend out
                         else case DivideSingle (length dividend) dividend (chunk_divisor radix) of (rest, chunk) \<Rightarrow>
                                (rest, BasecaseMiddle radix (chunk_chars radix) chunk out));
          rest = Normalize rest
      in if length rest > 1 then Classic_loop radix rest out
         else if length rest = 0 then None
         else BasecaseLast radix (rest ! 0) out)"

definition Classic :: "digit \<Rightarrow> digits \<Rightarrow> byte list option" where
  "Classic radix ds =
     (if length ds = 0 then Some [0x30]
      else if length ds = 1 then BasecaseLast radix (ds ! 0) []
      else Classic_loop radix ds [])"

section \<open>Radixes that are powers of two\<close>

fun trailing_zeros_from :: "nat \<Rightarrow> uc32 \<Rightarrow> nat" where
  "trailing_zeros_from 0 value = 0"
| "trailing_zeros_from (Suc n) value = (if bit value (31 - n) then 0 else Suc (trailing_zeros_from n value))"

definition CountTrailingZeros :: "uc32 \<Rightarrow> nat" where
  "CountTrailingZeros value = trailing_zeros_from 32 value"

text \<open>The loops over the full characters of a digit, with the bits that are left, and over the rest of
  the highest digit. With radix 1, which has no bits per character, they would not end.\<close>

partial_function (option) full_chars :: "nat \<Rightarrow> digit \<Rightarrow> digit \<Rightarrow> nat \<Rightarrow> byte list \<Rightarrow> (digit \<times> nat \<times> byte list) option" where
  "full_chars bits_per_char char_mask digit available_bits out =
     (if available_bits \<ge> bits_per_char
      then full_chars bits_per_char char_mask (drop_bit bits_per_char digit) (available_bits - bits_per_char)
             (kConversionChars ! unat (digit AND char_mask) # out)
      else Some (digit, available_bits, out))"

partial_function (option) last_chars :: "nat \<Rightarrow> digit \<Rightarrow> digit \<Rightarrow> byte list \<Rightarrow> byte list option" where
  "last_chars bits_per_char char_mask digit out =
     (if digit \<noteq> 0
      then last_chars bits_per_char char_mask (drop_bit bits_per_char digit) (kConversionChars ! unat (digit AND char_mask) # out)
      else Some out)"

text \<open>The leftover bits of the digit before, \<open>digit\<close>, are the low bits of the first character.\<close>

fun power_digits :: "nat \<Rightarrow> digit \<Rightarrow> digits \<Rightarrow> digit \<Rightarrow> nat \<Rightarrow> byte list \<Rightarrow> byte list option" where
  "power_digits bits_per_char char_mask [] digit available_bits out = None"
| "power_digits bits_per_char char_mask [d] digit available_bits out =
     (let current = (digit OR push_bit available_bits d) AND char_mask
      in last_chars bits_per_char char_mask (drop_bit (bits_per_char - available_bits) d) (kConversionChars ! unat current # out))"
| "power_digits bits_per_char char_mask (new_digit # d # ds) digit available_bits out =
     (let current = (digit OR push_bit available_bits new_digit) AND char_mask;
          consumed_bits = bits_per_char - available_bits
      in case full_chars bits_per_char char_mask (drop_bit consumed_bits new_digit) (kDigitBits - consumed_bits)
                (kConversionChars ! unat current # out) of
           None \<Rightarrow> None
         | Some (digit, available_bits, out) \<Rightarrow> power_digits bits_per_char char_mask (d # ds) digit available_bits out)"

definition BasePowerOfTwo :: "digit \<Rightarrow> digits \<Rightarrow> byte list option" where
  "BasePowerOfTwo radix ds = power_digits (CountTrailingZeros (ucast radix)) (radix - 1) ds 0 0 []"

section \<open>The whole conversion\<close>

text \<open>\<^verbatim>\<open>Finish\<close> drops leading zeros and adds the sign. Writing before the start of the buffer has no
  result; \<^verbatim>\<open>memmove\<close> then puts the string at the start.\<close>

definition Finish :: "bool \<Rightarrow> nat \<Rightarrow> byte list \<Rightarrow> byte list option" where
  "Finish sign chars_available out =
     (let out' = (if sign then [0x2D] else []) @ dropWhile (\<lambda>c. c = 0x30) out
      in if length out > chars_available \<or> length out' > chars_available then None else Some out')"

definition bigint_ToString :: "digits \<Rightarrow> digit \<Rightarrow> bool \<Rightarrow> nat \<Rightarrow> byte list option" where
  "bigint_ToString X radix sign out_length =
     (let ds = Normalize X
      in case (if IsPowerOfTwo (unat radix) then BasePowerOfTwo radix ds else Classic radix ds) of
           None \<Rightarrow> None
         | Some out \<Rightarrow> Finish sign out_length out)"

definition ToStringResultLength :: "digits \<Rightarrow> digit \<Rightarrow> bool \<Rightarrow> nat" where
  "ToStringResultLength X radix sign =
     (let bit_length = Digits_BitLength X
      in (if IsPowerOfTwo (unat radix)
          then let bits_per_char = CountTrailingZeros (ucast radix) in DIV_CEIL bit_length bits_per_char + of_bool sign
          else let max_bits_per_char = kMaxBitsPerChar ! unat radix; min_bits_per_char = max_bits_per_char - 1
               in DIV_CEIL (bit_length * kBitsPerCharTableMultiplier) min_bits_per_char)
         + of_bool sign)"

section \<open>The characters of a number\<close>

function number_chars :: "nat \<Rightarrow> nat \<Rightarrow> byte list \<Rightarrow> byte list" where
  "number_chars r n out = (if n = 0 \<or> r < 2 then out else number_chars r (n div r) (kConversionChars ! (n mod r) # out))"
  by pat_completeness auto

termination number_chars
  by (relation "measure (\<lambda>(r, n, out). n)") (auto intro: div_less_dividend)

declare number_chars.simps [simp del]

lemma number_chars_0 [simp]: "number_chars r 0 out = out"
  by (subst number_chars.simps) simp

lemma number_chars_step: "0 < n \<Longrightarrow> 2 \<le> r \<Longrightarrow> number_chars r n out = number_chars r (n div r) (kConversionChars ! (n mod r) # out)"
  by (subst number_chars.simps) simp

lemma number_chars_append: "2 \<le> r \<Longrightarrow> number_chars r n out = number_chars r n [] @ out"
proof (induction n arbitrary: out rule: less_induct)
  case (less n)
  show ?case
  proof (cases "n = 0")
    case False
    let ?c = "kConversionChars ! (n mod r)"
    have "n div r < n" using False less.prems by (intro div_less_dividend) auto
    from less.IH [OF this less.prems, of "?c # out"] less.IH [OF this less.prems, of "[?c]"]
    show ?thesis using number_chars_step [OF _ less.prems] False by simp
  qed simp
qed

lemma number_chars_snoc:
  "0 < n \<Longrightarrow> 2 \<le> r \<Longrightarrow> number_chars r n [] = number_chars r (n div r) [] @ [kConversionChars ! (n mod r)]"
  using number_chars_step [of n r "[]"] number_chars_append [of r "n div r" "[kConversionChars ! (n mod r)]"] by simp

lemma conversion_char:
  assumes "k < 36"
  shows "unat (ucast (kConversionChars ! k) :: uc32) \<le> 127" and "kCharValue ! unat (ucast (kConversionChars ! k) :: uc32) = of_nat k"
    and "kConversionChars ! k = 0x30 \<longleftrightarrow> k = 0"
proof -
  have *: "list_all (\<lambda>k. unat (ucast (kConversionChars ! k) :: uc32) \<le> 127 \<and>
    kCharValue ! unat (ucast (kConversionChars ! k) :: uc32) = of_nat k \<and> (kConversionChars ! k = 0x30 \<longleftrightarrow> k = 0)) [0..<36]"
    by code_simp
  from bspec [OF * [unfolded list_all_iff], of k] assms
  show "unat (ucast (kConversionChars ! k) :: uc32) \<le> 127" and "kCharValue ! unat (ucast (kConversionChars ! k) :: uc32) = of_nat k"
    and "kConversionChars ! k = 0x30 \<longleftrightarrow> k = 0" by auto
qed

lemma char_digit_conversion:
  assumes "any_radix r" and "k < unat r"
  shows "char_digit r (ucast (kConversionChars ! k)) = Some (of_nat k)"
proof -
  have k: "k < 36" "unat (of_nat k :: digit) = k" using assms by (auto simp: any_radix_def unat_of_nat)
  have "\<not> (127 :: uc32) < ucast (kConversionChars ! k)" using conversion_char(1) [OF k(1)] by (simp add: word_less_nat_alt)
  moreover have "\<not> r \<le> (of_nat k :: digit)" using assms(2) k(2) by (simp add: word_le_nat_alt)
  ultimately show ?thesis using conversion_char(2) [OF k(1)] by (simp add: char_digit_def)
qed

text \<open>They are read back as the number, without a leading zero, and their count is that of the digits.\<close>

lemma number_chars_read:
  assumes "any_radix r"
  shows "chars_value r (map ucast (number_chars (unat r) n [])) = n \<and> (\<forall>c \<in> set (number_chars (unat r) n []). valid_char r (ucast c)) \<and>
    (0 < n \<longrightarrow> number_chars (unat r) n [] \<noteq> [] \<and> hd (number_chars (unat r) n []) \<noteq> 0x30 \<and>
      unat r ^ (length (number_chars (unat r) n []) - 1) \<le> n)"
proof (induction n rule: less_induct)
  case (less n)
  have r: "2 \<le> unat r" using assms by (simp add: any_radix_def)
  show ?case
  proof (cases "n = 0")
    case True
    then show ?thesis by (simp add: chars_value_def)
  next
    case False
    let ?q = "n div unat r" and ?k = "n mod unat r"
    let ?cs = "number_chars (unat r) ?q []" and ?c = "kConversionChars ! ?k"
    have lt: "?q < n" "?k < unat r" using False r by (auto intro: div_less_dividend)
    have "?k < 36" using lt(2) assms unfolding any_radix_def by linarith
    then have k: "?k < 36" "unat (of_nat ?k :: digit) = ?k" by (simp_all add: unat_of_nat)
    note d = char_digit_conversion [OF assms lt(2)]
    have e: "number_chars (unat r) n [] = ?cs @ [?c]" using False r by (intro number_chars_snoc) auto
    note IH = less.IH [OF lt(1)]
    have "chars_value r (map ucast (?cs @ [?c])) = n" using chars_value_snoc [OF d, of "map ucast ?cs"] IH k(2) by simp
    moreover have "valid_char r (ucast ?c)" using d by (simp add: valid_char_digit)
    moreover have "hd (?cs @ [?c]) \<noteq> 0x30 \<and> unat r ^ (length (?cs @ [?c]) - 1) \<le> n"
    proof (cases "?q = 0")
      case True
      then have "n < unat r" using r by (simp add: div_eq_0_iff)
      then show ?thesis using True False conversion_char(3) [OF k(1)] by simp
    next
      case q: False
      with IH have h: "?cs \<noteq> []" "hd ?cs \<noteq> 0x30" "unat r ^ (length ?cs - 1) \<le> ?q" by auto
      have "unat r ^ length ?cs = unat r ^ (length ?cs - 1) * unat r" using h(1) by (cases ?cs) auto
      also have "\<dots> \<le> ?q * unat r" using h(3) by (rule mult_right_mono) simp
      also have "\<dots> \<le> n" by simp
      finally show ?thesis using h by simp
    qed
    ultimately show ?thesis unfolding e using IH by auto
  qed
qed

section \<open>The classic algorithm is exact\<close>

lemma decimal_char: "k < 10 \<Longrightarrow> 0x30 + (ucast (of_nat k :: digit) :: byte) = kConversionChars ! k"
proof -
  assume "k < 10"
  moreover have "list_all (\<lambda>k. 0x30 + (ucast (of_nat k :: digit) :: byte) = kConversionChars ! k) [0..<10]" by code_simp
  ultimately show ?thesis by (auto simp: list_all_iff)
qed

lemma decimal_digit: "0x30 + (ucast (d mod 10 :: digit) :: byte) = kConversionChars ! (unat d mod 10)"
proof -
  have "unat (d mod 10) = unat d mod 10" by (simp add: unat_mod_distrib)
  moreover have "of_nat (unat (d mod 10)) = d mod 10" by simp
  ultimately have "d mod 10 = of_nat (unat d mod 10)" by simp
  then show ?thesis using decimal_char [of "unat d mod 10"] by simp
qed

lemma unat_div_mod: "unat (d div r) = unat d div unat r" "unat (d mod r) = unat d mod unat (r :: digit)"
  by (simp_all add: unat_div_distrib unat_mod_distrib)

lemma BasecaseFixedLast_spec: "BasecaseFixedLast d out = number_chars 10 (unat d) out"
proof (induction d out rule: BasecaseFixedLast.induct)
  case (1 d out)
  show ?case
  proof (cases "d = 0")
    case False
    then have "0 < unat d" by (simp add: unat_gt_0)
    then show ?thesis using 1 [OF False] False number_chars_step [of "unat d" 10 out]
      by (simp add: BasecaseFixedLast.simps [of d] decimal_digit unat_div_mod)
  qed (simp add: BasecaseFixedLast.simps)
qed

lemma BasecaseLast_spec:
  assumes "2 \<le> unat r" and "d \<noteq> 0"
  shows "BasecaseLast r d out = Some (number_chars (unat r) (unat d) out)"
proof -
  have "BasecaseLast_loop r d out = Some (number_chars (unat r) (unat d) out)" if "d \<noteq> 0" for d out
    using that
  proof (induction "unat d" arbitrary: d out rule: less_induct)
    case less
    have "r \<noteq> 0" "0 < unat d" using assms(1) less.prems by (auto simp: unat_gt_0)
    show ?case
    proof (cases "d div r = 0")
      case True
      then have "unat d div unat r = 0" by (metis unat_0 unat_div_mod(1))
      then show ?thesis using True \<open>r \<noteq> 0\<close> number_chars_step [OF \<open>0 < unat d\<close> assms(1), of out]
        by (subst BasecaseLast_loop.simps) (simp add: unat_div_mod)
    next
      case False
      have "unat (d div r) < unat d" using \<open>0 < unat d\<close> assms(1) by (simp add: unat_div_mod div_less_dividend)
      from less.hyps [OF this False, of "kConversionChars ! unat (d mod r) # out"] show ?thesis
        using False \<open>r \<noteq> 0\<close> number_chars_step [OF \<open>0 < unat d\<close> assms(1), of out]
        by (subst BasecaseLast_loop.simps) (simp add: unat_div_mod word_gt_0)
    qed
  qed
  then show ?thesis using assms(2) by (simp add: BasecaseLast_def BasecaseFixedLast_spec)
qed

text \<open>A full chunk in the middle.\<close>

lemma BasecaseMiddle_spec:
  assumes "unat d < unat r ^ k" and "0 < q" and "2 \<le> unat r"
  shows "number_chars (unat r) q (BasecaseMiddle r k d out) = number_chars (unat r) (q * unat r ^ k + unat d) out"
  using assms
proof (induction k arbitrary: d out)
  case (Suc k)
  have "unat (d div r) < unat r ^ k" using Suc.prems(1,3) by (simp add: unat_div_mod less_mult_imp_div_less mult.commute)
  moreover have "(q * unat r ^ Suc k + unat d) div unat r = q * unat r ^ k + unat d div unat r"
    "(q * unat r ^ Suc k + unat d) mod unat r = unat d mod unat r"
    using Suc.prems(3) by (simp_all add: mult.left_commute [of q] del: mult.commute)
  moreover have "0 < q * unat r ^ Suc k + unat d" using Suc.prems by simp
  ultimately show ?case using Suc.IH [of "d div r"] Suc.prems number_chars_step [of "q * unat r ^ Suc k + unat d" "unat r" out]
    by (simp add: unat_div_mod)
qed simp

lemma magic_chars_spec: "magic_chars k d out = BasecaseMiddle 10 k d out"
  by (induction k arbitrary: d out) (simp_all add: decimal_digit unat_div_mod)

lemma magic_constants: "magic_chunk_chars = 9" "magic_chunk_divisor = 1000000000"
  by code_simp+

lemma join_halves:
  assumes "unat a < 2 ^ 32" and "unat b < 2 ^ 32"
  shows "unat (push_bit 32 a OR b :: digit) = unat a * 2 ^ 32 + unat b"
  using shifted_or [of b 32 a] assms by (simp add: or.commute unat_drop)

lemma join_less: "a < m \<Longrightarrow> b < k \<Longrightarrow> a * k + b < m * (k :: nat)"
proof -
  assume "a < m" "b < k"
  have "a * k + b < (a + 1) * k" using \<open>b < k\<close> by simp
  also have "\<dots> \<le> m * k" using \<open>a < m\<close> by (intro mult_right_mono) auto
  finally show ?thesis .
qed

lemma magic_loop_spec:
  "magic_loop X = (Q, r) \<Longrightarrow> length Q = length X \<and> unat r < 10 ^ 9 \<and> digits_value X = digits_value Q * 10 ^ 9 + unat r"
proof (induction X arbitrary: Q r)
  case (Cons d X)
  obtain Q1 r1 where 1: "magic_loop X = (Q1, r1)" by fastforce
  from Cons.IH [OF 1] have IH: "length Q1 = length X" "unat r1 < 10 ^ 9" "digits_value X = digits_value Q1 * 10 ^ 9 + unat r1" by auto
  let ?C = "1000000000 :: digit"
  define upper where "upper = push_bit 32 r1 OR drop_bit 32 d"
  define lower where "lower = push_bit 32 (upper mod ?C) OR (d AND kHalfDigitMask)"
  have e: "Q = (push_bit 32 (upper div ?C) OR lower div ?C) # Q1" "r = lower mod ?C"
    using Cons.prems 1 by (simp_all add: magic_constants upper_def lower_def Let_def)
  have d: "unat d < 2 ^ 32 * 2 ^ 32" using unat_digit [of d] by (simp add: digit_base_def)
  then have "unat (drop_bit 32 d) < 2 ^ 32" unfolding unat_drop by (rule less_mult_imp_div_less)
  then have u: "unat upper = unat r1 * 2 ^ 32 + unat d div 2 ^ 32"
    using join_halves [of r1 "drop_bit 32 d"] IH(2) by (simp add: upper_def unat_drop)
  have h: "unat (d AND kHalfDigitMask) = unat d mod 2 ^ 32" by (simp add: half_base(2) unat_and_mask_numeral)
  have m: "unat (upper mod ?C) = unat upper mod 10 ^ 9" "unat (upper div ?C) = unat upper div 10 ^ 9"
    "unat (lower mod ?C) = unat lower mod 10 ^ 9" "unat (lower div ?C) = unat lower div 10 ^ 9" by (simp_all add: unat_div_mod)
  have "unat upper mod 10 ^ 9 < 10 ^ 9" "unat d mod 2 ^ 32 < 2 ^ 32" by simp_all
  then have l: "unat lower = unat upper mod 10 ^ 9 * 2 ^ 32 + unat d mod 2 ^ 32"
    using join_halves [of "upper mod ?C" "d AND kHalfDigitMask"] h m(1) by (simp add: lower_def)
  have "unat upper < 10 ^ 9 * 2 ^ 32" unfolding u by (rule join_less [OF IH(2) less_mult_imp_div_less [OF d]])
  moreover have "unat lower < 10 ^ 9 * 2 ^ 32" unfolding l by (rule join_less) simp_all
  ultimately have q: "unat (push_bit 32 (upper div ?C) OR lower div ?C) = unat upper div 10 ^ 9 * 2 ^ 32 + unat lower div 10 ^ 9"
    using join_halves [of "upper div ?C" "lower div ?C"] m(2,4) by (simp add: less_mult_imp_div_less)
  have "unat d = unat d div 2 ^ 32 * 2 ^ 32 + unat d mod 2 ^ 32" by simp
  then have "unat d + digit_base * unat r1 = unat upper * 2 ^ 32 + unat d mod 2 ^ 32" using u by (simp add: digit_base_def)
  also have "\<dots> = (unat upper div 10 ^ 9 * 10 ^ 9 + unat upper mod 10 ^ 9) * 2 ^ 32 + unat d mod 2 ^ 32" by (simp only: div_mult_mod_eq)
  also have "\<dots> = unat upper div 10 ^ 9 * 2 ^ 32 * 10 ^ 9 + unat lower" unfolding l by (simp only: algebra_simps)
  also have "\<dots> = unat upper div 10 ^ 9 * 2 ^ 32 * 10 ^ 9 + (unat lower div 10 ^ 9 * 10 ^ 9 + unat lower mod 10 ^ 9)" by (simp only: div_mult_mod_eq)
  finally have "unat d + digit_base * unat r1 = unat (push_bit 32 (upper div ?C) OR lower div ?C) * 10 ^ 9 + unat r"
    unfolding q e(2) m(3) by simp
  then have "digits_value (d # X) = digits_value Q * 10 ^ 9 + unat r"
    using IH(3) unfolding e(1) by (simp add: algebra_simps)
  then show ?case using IH(1) e m(3) by simp
qed simp

section \<open>Powers and chunk sizes\<close>

lemma digit_pow_loop_spec: "digit_pow_loop a b e = a * b ^ unat e"
proof (induction a b e rule: digit_pow_loop.induct)
  case (1 a b e)
  show ?case
  proof (cases "e > 0")
    case True
    have o: "e AND 1 \<noteq> 0 \<longleftrightarrow> odd (unat e)" by (simp add: and_one_eq odd_iff_mod_2_eq_one word_unat_eq_iff unat_mod_distrib)
    have "(b * b) ^ (unat e div 2) * (if odd (unat e) then b else 1) = b ^ unat e"
      by (cases "even (unat e)") (auto elim!: evenE oddE simp: power_mult power2_eq_square mult.commute power_mult_distrib)
    then show ?thesis using 1 [OF True] True o by (subst digit_pow_loop.simps) (auto simp: unat_drop mult.assoc mult.commute split: if_splits)
  next
    case False
    then show ?thesis by (subst digit_pow_loop.simps) (auto simp: word_gt_0)
  qed
qed

text \<open>The table: between one below and the entry is 32 times the bits of a character.\<close>

lemma bits_per_char_table:
  assumes "any_radix r" and "\<not> two_radix r"
  shows "2 ^ (kMaxBitsPerChar ! unat r - 1) \<le> unat r ^ 32" and "unat r ^ 32 < 2 ^ (kMaxBitsPerChar ! unat r)"
    and "1 < kMaxBitsPerChar ! unat r" and "kMaxBitsPerChar ! unat r \<le> 166"
proof -
  have *: "list_all (\<lambda>b :: nat. b = 2 \<or> b = 4 \<or> b = 8 \<or> b = 16 \<or> b = 32 \<or> 2 ^ (kMaxBitsPerChar ! b - 1) \<le> b ^ 32 \<and>
    b ^ 32 < 2 ^ (kMaxBitsPerChar ! b) \<and> 1 < kMaxBitsPerChar ! b \<and> kMaxBitsPerChar ! b \<le> 166) [2..<37]"
    by (simp add: kMaxBitsPerChar_def)
  have "unat r \<in> set [2..<37]" using assms(1) unfolding any_radix_def set_upt by simp
  from bspec [OF * [unfolded list_all_iff] this] assms(2)
  show "2 ^ (kMaxBitsPerChar ! unat r - 1) \<le> unat r ^ 32" and "unat r ^ 32 < 2 ^ (kMaxBitsPerChar ! unat r)"
    and "1 < kMaxBitsPerChar ! unat r" and "kMaxBitsPerChar ! unat r \<le> 166"
    by (auto simp: two_radix_def word_unat_eq_iff)
qed

lemma table_multiplier: "kBitsPerCharTableMultiplier = 32"
  by (simp add: kBitsPerCharTableMultiplier_def)

lemma chunk_divisor_spec:
  assumes "any_radix r" and "\<not> two_radix r"
  shows "unat (chunk_divisor r) = unat r ^ chunk_chars r" and "0 < chunk_chars r"
proof -
  let ?m = "kMaxBitsPerChar ! unat r" and ?k = "chunk_chars r"
  note t = bits_per_char_table [OF assms]
  have k: "?k = 2048 div ?m" by (simp add: chunk_chars_def table_multiplier)
  then show p: "0 < ?k" using t(3,4) by (simp add: div_greater_zero_iff)
  have "(unat r ^ ?k) ^ 32 = (unat r ^ 32) ^ ?k" by (simp add: mult.commute flip: power_mult)
  also have "\<dots> < (2 ^ ?m) ^ ?k" using t(2) p by (intro power_strict_mono) auto
  also have "\<dots> \<le> 2 ^ (64 * 32)" unfolding power_mult [symmetric] using k by (intro power_increasing) (auto simp: times_div_less_eq_dividend)
  finally have "(unat r ^ ?k) ^ 32 < (2 ^ 64) ^ 32" by (simp only: power_mult)
  then have less: "unat r ^ ?k < 2 ^ 64" by (rule power_less_imp_less_base) simp
  have "?k \<le> 2048" unfolding k by (rule div_le_dividend)
  then have "?k < 2 ^ 64" by simp
  then have "chunk_divisor r = r ^ ?k" by (simp add: chunk_divisor_def digit_pow_def digit_pow_loop_spec unat_of_nat)
  moreover have "unat (r ^ n) = unat r ^ n" if "unat r ^ n < 2 ^ 64" for n
    using that
  proof (induction n)
    case (Suc n)
    have "unat r ^ n \<le> unat r ^ Suc n" using assms(1) by (intro power_increasing) (auto simp: any_radix_def)
    then have "unat r ^ n < 2 ^ 64" using Suc.prems by linarith
    then have "unat (r ^ n) = unat r ^ n" by (rule Suc.IH)
    then show ?case using Suc.prems by (simp add: unat_word_ariths)
  qed simp
  ultimately show "unat (chunk_divisor r) = unat r ^ ?k" using less by simp
qed

text \<open>One round of the loop splits off a full chunk.\<close>

lemma Classic_round:
  fixes r :: digit and ds :: digits and out :: "byte list"
  assumes "any_radix r" and "\<not> two_radix r" and "1 < length ds" and "IsDigitNormalized ds"
  defines "divided \<equiv> (if r = 10 then DivideByMagic ds out
      else case DivideSingle (length ds) ds (chunk_divisor r) of (rest, chunk) \<Rightarrow> (rest, BasecaseMiddle r (chunk_chars r) chunk out))"
  shows "\<exists>rest out'. divided = (rest, out') \<and> 0 < digits_value rest \<and> digits_value rest < digits_value ds \<and>
    number_chars (unat r) (digits_value rest) out' = number_chars (unat r) (digits_value ds) out"
proof -
  have r: "2 \<le> unat r" using assms(1) by (simp add: any_radix_def)
  have big: "digit_base \<le> digits_value ds"
  proof -
    have "digit_base ^ 1 \<le> digit_base ^ (length ds - 1)" using assms(3) by (intro power_increasing) (auto simp: Suc_le_eq)
    also have "\<dots> \<le> digits_value ds" by (intro normal_lower [OF assms(4)]) (use assms(3) in auto)
    finally show ?thesis by simp
  qed
  obtain rest c k where R: "divided = (rest, BasecaseMiddle r k c out)" "unat c < unat r ^ k"
    "digits_value ds = digits_value rest * unat r ^ k + unat c" "0 < k" "unat r ^ k < digit_base"
  proof (cases "r = 10")
    case True
    obtain Q x where m: "magic_loop ds = (Q, x)" by fastforce
    from magic_loop_spec [OF m] show thesis
      by (intro that [of Q 9 x]) (simp_all add: divided_def True DivideByMagic_def m magic_constants magic_chars_spec digit_base_def)
  next
    case False
    note C = chunk_divisor_spec [OF assms(1,2)]
    have p: "0 < unat (chunk_divisor r)" unfolding C(1) using r by simp
    then have "chunk_divisor r \<noteq> 0" "ds \<noteq> []" using assms(3) by auto
    note D = DivideSingle_spec [OF this, of "length ds"]
    obtain Q x where d: "DivideSingle (length ds) ds (chunk_divisor r) = (Q, x)" by fastforce
    have X: "unat x = digits_value ds mod unat r ^ chunk_chars r" "digits_value Q = digits_value ds div unat r ^ chunk_chars r"
      using D(1,3) d \<open>ds \<noteq> []\<close> by (simp_all add: C(1))
    show thesis
    proof (rule that)
      show "divided = (Q, BasecaseMiddle r (chunk_chars r) x out)" using d False by (simp add: divided_def)
      show "unat x < unat r ^ chunk_chars r" unfolding X(1) using p C(1) by simp
      show "digits_value ds = digits_value Q * unat r ^ chunk_chars r + unat x"
        unfolding X by (rule div_mult_mod_eq [symmetric])
      show "unat r ^ chunk_chars r < digit_base" using unat_digit [of "chunk_divisor r"] by (simp add: C(1))
    qed (rule C(2))
  qed
  have "0 < digits_value rest"
  proof (rule ccontr)
    assume "\<not> 0 < digits_value rest"
    then show False using R(2,3,5) big by simp
  qed
  moreover have "digits_value rest < digits_value ds"
  proof -
    have "1 < unat r ^ k" using r R(4) by (intro one_less_power) auto
    then have "digits_value rest < digits_value rest * unat r ^ k" using calculation by simp
    then show ?thesis using R(3) by linarith
  qed
  ultimately show ?thesis using R(1,3) BasecaseMiddle_spec [OF R(2) _ r] by auto
qed

lemma Classic_loop_spec:
  assumes "any_radix r" and "\<not> two_radix r" and "1 < length ds" and "IsDigitNormalized ds"
  shows "Classic_loop r ds out = Some (number_chars (unat r) (digits_value ds) out)"
  using assms(3,4)
proof (induction "digits_value ds" arbitrary: ds out rule: less_induct)
  case less
  obtain rest out' where R: "(if r = 10 then DivideByMagic ds out
      else case DivideSingle (length ds) ds (chunk_divisor r) of (rest, chunk) \<Rightarrow> (rest, BasecaseMiddle r (chunk_chars r) chunk out)) = (rest, out')"
    "0 < digits_value rest" "digits_value rest < digits_value ds"
    "number_chars (unat r) (digits_value rest) out' = number_chars (unat r) (digits_value ds) out"
    using Classic_round [OF assms(1,2) less.prems, of out] by blast
  have e: "Classic_loop r ds out = (let rest = Normalize rest in
      if length rest > 1 then Classic_loop r rest out' else if length rest = 0 then None else BasecaseLast r (rest ! 0) out')"
    by (subst Classic_loop.simps) (simp only: R(1) prod.case Let_def)
  have ne: "Normalize rest \<noteq> []" using R(2) Normalize_value [of rest] by (metis digits_value.simps(1) less_irrefl)
  show ?case
  proof (cases "1 < length (Normalize rest)")
    case True
    then show ?thesis using less.hyps [of "Normalize rest" out'] R(3,4) Normalize_normal [of rest] e by simp
  next
    case False
    then obtain d where d: "Normalize rest = [d]" using ne by (cases "Normalize rest") auto
    then have v: "unat d = digits_value rest" using Normalize_value [of rest] by simp
    then have "d \<noteq> 0" using R(2) by (auto simp: unat_eq_zero)
    then show ?thesis using e d v R(4) BasecaseLast_spec [of r d out'] assms(1) by (simp add: any_radix_def)
  qed
qed

lemma Classic_spec:
  assumes "any_radix r" and "\<not> two_radix r" and "IsDigitNormalized ds" and "ds \<noteq> []"
  shows "Classic r ds = Some (number_chars (unat r) (digits_value ds) [])"
proof (cases "length ds = 1")
  case True
  then obtain d where d: "ds = [d]" by (cases ds) auto
  then have "d \<noteq> 0" using assms(3) by (simp add: IsDigitNormalized_def msd_def)
  then show ?thesis using d BasecaseLast_spec [of r d "[]"] assms(1) by (simp add: Classic_def any_radix_def)
next
  case False
  then have "1 < length ds" using assms(4) by (cases ds) auto
  then show ?thesis using Classic_loop_spec [OF assms(1,2) _ assms(3), of "[]"] by (auto simp: Classic_def)
qed

section \<open>Radixes that are powers of two are exact\<close>

lemma two_radix_chars:
  assumes "two_radix r"
  shows "CountTrailingZeros (ucast r) = char_bits r" and "r - 1 = mask (char_bits r)" and "IsPowerOfTwo (unat r)"
proof -
  have *: "list_all (\<lambda>r :: digit. CountTrailingZeros (ucast r) = char_bits r \<and> r - 1 = mask (char_bits r) \<and> IsPowerOfTwo (unat r))
    [2, 4, 8, 16, 32]" by code_simp
  have "r \<in> set [2, 4, 8, 16, 32]" using assms by (simp add: two_radix_def)
  from bspec [OF * [unfolded list_all_iff] this]
  show "CountTrailingZeros (ucast r) = char_bits r" and "r - 1 = mask (char_bits r)" and "IsPowerOfTwo (unat r)" by blast+
qed

lemma low_bits_char: "kConversionChars ! unat (d AND mask b :: digit) = kConversionChars ! (unat d mod 2 ^ b)"
  by (simp add: unat_and_mask_numeral)

lemma split_low:
  assumes "(b :: nat) \<le> n"
  shows "(d + 2 ^ n * V) mod 2 ^ b = d mod (2 ^ b :: nat)" and "(d + 2 ^ n * V) div 2 ^ b = d div 2 ^ b + 2 ^ (n - b) * V"
proof -
  have e: "(2 :: nat) ^ n * V = 2 ^ b * (2 ^ (n - b) * V)" using assms by (simp add: mult.assoc [symmetric] flip: power_add)
  show "(d + 2 ^ n * V) mod 2 ^ b = d mod (2 ^ b :: nat)" and "(d + 2 ^ n * V) div 2 ^ b = d div 2 ^ b + 2 ^ (n - b) * V"
    unfolding e by simp_all
qed

lemma full_chars_spec:
  assumes "0 < b" and "unat d < 2 ^ n"
  shows "\<exists>d' n' out'. full_chars b (mask b) d n out = Some (d', n', out') \<and> n' < b \<and> unat d' < 2 ^ n' \<and>
    (\<forall>V > 0. number_chars (2 ^ b) (unat d' + 2 ^ n' * V) out' = number_chars (2 ^ b) (unat d + 2 ^ n * V) out)"
  using assms(2)
proof (induction n arbitrary: d out rule: less_induct)
  case (less n)
  show ?case
  proof (cases "b \<le> n")
    case True
    let ?d = "drop_bit b d" and ?out = "kConversionChars ! unat (d AND mask b) # out"
    have "n - b < n" using True assms(1) by simp
    moreover have "unat ?d < 2 ^ (n - b)"
    proof -
      have "unat d < 2 ^ (n - b) * 2 ^ b" using less.prems True by (simp flip: power_add)
      then show ?thesis unfolding unat_drop by (rule less_mult_imp_div_less)
    qed
    ultimately obtain d' n' out' where I: "full_chars b (mask b) ?d (n - b) ?out = Some (d', n', out')" "n' < b" "unat d' < 2 ^ n'"
      "\<And>V. 0 < V \<Longrightarrow> number_chars (2 ^ b) (unat d' + 2 ^ n' * V) out' = number_chars (2 ^ b) (unat ?d + 2 ^ (n - b) * V) ?out"
      using less.IH by blast
    have "number_chars (2 ^ b) (unat ?d + 2 ^ (n - b) * V) ?out = number_chars (2 ^ b) (unat d + 2 ^ n * V) out" if "0 < V" for V
    proof -
      have "0 < unat d + 2 ^ n * V" "2 \<le> (2 :: nat) ^ b" using that assms(1) by (cases b; simp)+
      from number_chars_step [OF this, of out] show ?thesis by (simp add: split_low [OF True] unat_drop low_bits_char)
    qed
    then show ?thesis using I True by (subst full_chars.simps) auto
  next
    case False
    then show ?thesis using less.prems by (subst full_chars.simps) auto
  qed
qed

lemma last_chars_spec:
  assumes "0 < b"
  shows "last_chars b (mask b) d out = Some (number_chars (2 ^ b) (unat d) out)"
proof (induction "unat d" arbitrary: d out rule: less_induct)
  case less
  show ?case
  proof (cases "d = 0")
    case False
    then have p: "0 < unat d" "2 \<le> (2 :: nat) ^ b" using assms by (cases b; simp add: unat_gt_0)+
    then have "unat (drop_bit b d) < unat d" by (simp add: unat_drop div_less_dividend)
    from less.hyps [OF this, of "kConversionChars ! unat (d AND mask b) # out"] show ?thesis
      using False number_chars_step [OF p, of out] by (subst last_chars.simps) (simp add: unat_drop low_bits_char)
  qed (subst last_chars.simps, simp)
qed

lemma joined_char:
  fixes d x :: digit
  assumes "n < b" and "b < 64" and "unat d < 2 ^ n"
  shows "kConversionChars ! unat ((d OR push_bit n x) AND mask b) = kConversionChars ! ((unat d + 2 ^ n * (unat x + 2 ^ 64 * V)) mod 2 ^ b)"
    and "(unat d + 2 ^ n * (unat x + 2 ^ 64 * V)) div 2 ^ b = unat (drop_bit (b - n) x) + 2 ^ (64 - (b - n)) * V"
proof -
  have s: "unat (d OR push_bit n x) + 2 ^ 64 * unat (drop_bit (64 - n) x) = unat d + 2 ^ n * unat x"
    using shifted_or [OF assms(3), of x] assms(1,2) by simp
  have "(unat d + 2 ^ n * (unat x + 2 ^ 64 * V)) mod 2 ^ b = (unat d + 2 ^ n * unat x + 2 ^ 64 * (2 ^ n * V)) mod 2 ^ b"
    by (simp add: algebra_simps)
  also have "\<dots> = (unat d + 2 ^ n * unat x) mod 2 ^ b" using split_low(1) [of b 64] assms(2) by simp
  also have "\<dots> = unat (d OR push_bit n x) mod 2 ^ b" unfolding s [symmetric] using split_low(1) [of b 64] assms(2) by simp
  finally show "kConversionChars ! unat ((d OR push_bit n x) AND mask b) = kConversionChars ! ((unat d + 2 ^ n * (unat x + 2 ^ 64 * V)) mod 2 ^ b)"
    by (simp add: low_bits_char)
  have pw: "(2 :: nat) ^ b = 2 ^ n * 2 ^ (b - n)" using assms(1) by (simp flip: power_add)
  have "(unat d + 2 ^ n * (unat x + 2 ^ 64 * V)) div 2 ^ b = (unat d + 2 ^ n * (unat x + 2 ^ 64 * V)) div 2 ^ n div 2 ^ (b - n)"
    unfolding pw by (rule div_mult2_eq)
  also have "(unat d + 2 ^ n * (unat x + 2 ^ 64 * V)) div 2 ^ n = unat x + 2 ^ 64 * V" using assms(3) by simp
  also have "\<dots> div 2 ^ (b - n) = unat (drop_bit (b - n) x) + 2 ^ (64 - (b - n)) * V"
    using split_low(2) [of "b - n" 64 "unat x" V] assms(2) by (simp add: unat_drop)
  finally show "(unat d + 2 ^ n * (unat x + 2 ^ 64 * V)) div 2 ^ b = unat (drop_bit (b - n) x) + 2 ^ (64 - (b - n)) * V" .
qed

lemma power_digits_spec:
  assumes "0 < b" and "b < 64" and "n < b" and "unat d < 2 ^ n" and "ds \<noteq> []" and "last ds \<noteq> 0"
  shows "power_digits b (mask b) ds d n out = Some (number_chars (2 ^ b) (unat d + 2 ^ n * digits_value ds) out)"
  using assms(3-6)
proof (induction ds arbitrary: d n out)
  case (Cons x ds)
  have two: "2 \<le> (2 :: nat) ^ b" using assms(1) by (cases b) simp_all
  have pos: "0 < digits_value (x # ds)"
    using Cons.prems(4) by (cases ds rule: rev_cases) (auto simp: value_append unat_gt_0)
  note J = joined_char [OF Cons.prems(1) assms(2) Cons.prems(2), of x]
  let ?c = "kConversionChars ! unat ((d OR push_bit n x) AND mask b)"
  have step: "number_chars (2 ^ b) (unat d + 2 ^ n * digits_value (x # ds)) out =
      number_chars (2 ^ b) (unat (drop_bit (b - n) x) + 2 ^ (64 - (b - n)) * digits_value ds) (?c # out)"
    using number_chars_step [of "unat d + 2 ^ n * digits_value (x # ds)" "2 ^ b" out] pos two J [of "digits_value ds"]
    by (simp add: digit_base_def)
  show ?case
  proof (cases ds)
    case Nil
    then show ?thesis using step last_chars_spec [OF assms(1), of "drop_bit (b - n) x"] by simp
  next
    case (Cons y ys)
    have "unat (drop_bit (b - n) x) < 2 ^ (64 - (b - n))"
    proof -
      have "unat x < 2 ^ (64 - (b - n)) * 2 ^ (b - n)" using unat_digit [of x] assms(2) by (simp add: digit_base_def flip: power_add)
      then show ?thesis unfolding unat_drop by (rule less_mult_imp_div_less)
    qed
    from full_chars_spec [OF assms(1) this, of "?c # out"] obtain d' n' out' where
      F: "full_chars b (mask b) (drop_bit (b - n) x) (64 - (b - n)) (?c # out) = Some (d', n', out')" "n' < b" "unat d' < 2 ^ n'"
      "\<And>V. 0 < V \<Longrightarrow> number_chars (2 ^ b) (unat d' + 2 ^ n' * V) out' =
        number_chars (2 ^ b) (unat (drop_bit (b - n) x) + 2 ^ (64 - (b - n)) * V) (?c # out)" by blast
    have "last ds \<noteq> 0" "0 < digits_value ds"
      using Cons.prems(4) \<open>ds = y # ys\<close> by (auto simp: unat_gt_0) (cases ys rule: rev_cases; auto simp: value_append unat_gt_0)
    then show ?thesis using Cons.IH [OF F(2,3), of out'] F(1,4) step \<open>ds = y # ys\<close> by (simp add: Let_def)
  qed
qed simp

lemma BasePowerOfTwo_spec:
  assumes "two_radix r" and "IsDigitNormalized ds" and "ds \<noteq> []"
  shows "BasePowerOfTwo r ds = Some (number_chars (unat r) (digits_value ds) [])"
proof -
  have "last ds \<noteq> 0" using assms(2,3) by (simp add: IsDigitNormalized_def msd_def last_conv_nth)
  then show ?thesis
    using power_digits_spec [of "char_bits r" 0 0 ds "[]"] two_radix_bits(1,2) [OF assms(1)] char_bits_le [of r] assms(3)
    by (simp add: BasePowerOfTwo_def two_radix_chars [OF assms(1)])
qed

section \<open>The buffer is long enough\<close>

lemma bit_length_bound:
  assumes "IsDigitNormalized X" and "X \<noteq> []"
  shows "digits_value X < 2 ^ Digits_BitLength X"
proof -
  let ?n = "length X - 1" and ?z = "CountLeadingZeros (msd X)"
  have "msd X \<noteq> 0" using assms by (simp add: IsDigitNormalized_def)
  note z = CountLeadingZeros_spec [OF this]
  have "unat (msd X) * 2 ^ ?z < 2 ^ (64 - ?z) * 2 ^ ?z" using z(1,3) by (simp add: digit_base_def flip: power_add)
  then have m: "unat (msd X) < 2 ^ (64 - ?z)" by simp
  have "digits_value X = digits_value (take ?n X) + digit_base ^ ?n * unat (msd X)"
    using value_msd [OF assms(2)] by simp
  also have "\<dots> < digit_base ^ ?n * 2 ^ (64 - ?z)"
    using join_less [OF m value_take_less [of ?n X]] by (simp add: mult.commute add.commute)
  also have "\<dots> = 2 ^ (64 * ?n + (64 - ?z))" by (simp only: digit_base_def power_add power_mult)
  also have "64 * ?n + (64 - ?z) = Digits_BitLength X" using z(1) assms(2) by (cases X) (auto simp: Digits_BitLength_def)
  finally show ?thesis .
qed

lemma DIV_CEIL_bound: "0 < m \<Longrightarrow> 0 < c \<Longrightarrow> m * (c - 1) < a \<Longrightarrow> c \<le> DIV_CEIL a m"
proof -
  assume "0 < m" "0 < c" "m * (c - 1) < a"
  then have "c - 1 \<le> (a - 1) div m" "0 < a" by (simp_all add: less_eq_div_iff_mult_less_eq mult.commute)
  then show ?thesis by (simp add: DIV_CEIL_def)
qed

lemma two_radix_power: "any_radix r \<Longrightarrow> IsPowerOfTwo (unat r) \<longleftrightarrow> two_radix r"
proof -
  assume "any_radix r"
  moreover have "list_all (\<lambda>r :: digit. 2 \<le> unat r \<longrightarrow> (IsPowerOfTwo (unat r) \<longleftrightarrow> two_radix r)) (map word_of_nat [0..<37])"
    by code_simp
  ultimately show ?thesis using word_enum_less [of "\<lambda>r :: digit. 2 \<le> unat r \<longrightarrow> (IsPowerOfTwo (unat r) \<longleftrightarrow> two_radix r)" 37 r]
    by (simp add: any_radix_def)
qed

lemma result_length_enough:
  assumes "any_radix r" and "IsDigitNormalized X" and "X \<noteq> []"
  shows "length (number_chars (unat r) (digits_value X) []) + of_bool sign \<le> ToStringResultLength X r sign"
proof -
  let ?cs = "number_chars (unat r) (digits_value X) []" and ?l = "Digits_BitLength X"
  have "0 < digits_value X" using normal_lower [OF assms(2,3)] by (metis digit_base_pos(1) gr0I not_le zero_less_power)
  then have c: "0 < length ?cs" "unat r ^ (length ?cs - 1) \<le> digits_value X" using number_chars_read [OF assms(1), of "digits_value X"] by auto
  have less: "unat r ^ (length ?cs - 1) < 2 ^ ?l" using c(2) bit_length_bound [OF assms(2,3)] by linarith
  show ?thesis
  proof (cases "two_radix r")
    case True
    note T = two_radix_bits(1,2) [OF True]
    have "(2 :: nat) ^ (char_bits r * (length ?cs - 1)) < 2 ^ ?l" using less unfolding T(1) power_mult .
    then have "char_bits r * (length ?cs - 1) < ?l" by simp
    from DIV_CEIL_bound [OF T(2) c(1) this] show ?thesis
      by (simp add: ToStringResultLength_def two_radix_chars [OF True])
  next
    case False
    let ?m = "kMaxBitsPerChar ! unat r - 1"
    note t = bits_per_char_table [OF assms(1) False]
    have "(2 :: nat) ^ (?m * (length ?cs - 1)) \<le> (unat r ^ 32) ^ (length ?cs - 1)"
      unfolding power_mult using t(1) by (intro power_mono) auto
    also have "\<dots> = (unat r ^ (length ?cs - 1)) ^ 32" by (simp add: mult.commute flip: power_mult)
    also have "\<dots> < (2 ^ ?l) ^ 32" using less by (intro power_strict_mono) auto
    also have "\<dots> = 2 ^ (?l * 32)" by (simp only: power_mult)
    finally have "?m * (length ?cs - 1) < ?l * 32" by simp
    from DIV_CEIL_bound [OF _ c(1) this] t(3) show ?thesis
      using two_radix_power [OF assms(1)] False by (simp add: ToStringResultLength_def table_multiplier Let_def)
  qed
qed

text \<open>The string of a number in a buffer of the length that was computed, or longer.\<close>

lemma bigint_ToString_spec:
  assumes "any_radix r" and "IsDigitNormalized X" and "X \<noteq> []" and "ToStringResultLength X r sign \<le> n"
  shows "bigint_ToString X r sign n = Some ((if sign then [0x2D] else []) @ number_chars (unat r) (digits_value X) [])"
proof -
  let ?cs = "number_chars (unat r) (digits_value X) []"
  have "0 < digits_value X" using normal_lower [OF assms(2,3)] by (metis digit_base_pos(1) gr0I not_le zero_less_power)
  then have c: "?cs \<noteq> []" "hd ?cs \<noteq> 0x30" using number_chars_read [OF assms(1), of "digits_value X"] by auto
  then have d: "dropWhile (\<lambda>c. c = 0x30) ?cs = ?cs" by (cases ?cs) auto
  have "Normalize X = X" using assms(2,3) by (simp add: Normalize.simps IsDigitNormalized_def)
  moreover have "(if IsPowerOfTwo (unat r) then BasePowerOfTwo r X else Classic r X) = Some ?cs"
    using two_radix_power [OF assms(1)] BasePowerOfTwo_spec [of r X] Classic_spec [OF assms(1), of X] assms(2,3) by auto
  moreover have "length ?cs + of_bool sign \<le> n" using result_length_enough [OF assms(1-3), of sign] assms(4) by linarith
  ultimately show ?thesis using d by (cases sign) (auto simp: bigint_ToString_def Finish_def Let_def)
qed

end
