(* ===== verification/BigInt_Strings.thy ===== *)
theory BigInt_Strings
  imports BigInt_Convert Bigint_ToString Char_Predicates "HOL-Library.Sublist"
begin

text \<open>
  BigInts and strings: \<^verbatim>\<open>BigInt::Allocate\<close>, \<^verbatim>\<open>ToString\<close> and the comparisons with strings of
  \<^verbatim>\<open>src/objects/bigint.cc\<close>, and \<^verbatim>\<open>StringToBigIntHelper\<close> of \<^verbatim>\<open>src/numbers/conversions.cc\<close>, which serves the
  BigInt constructor and the literals of the scanner. A string is its list of characters; \<^verbatim>\<open>current\<close> is what
  lies between it and \<^verbatim>\<open>end\<close>.
\<close>

section \<open>From the accumulator to an object\<close>

definition BigInt_Allocate :: "FromStringAccumulator \<Rightarrow> bool \<Rightarrow> bigint_result" where
  "BigInt_Allocate accumulator negative =
     (let digits = ResultLength accumulator
      in case ToHandleChecked (MutableBigInt_New digits) of Inl e \<Rightarrow> Inl e
         | Inr result \<Rightarrow>
             case from_library (FromString (bigint_digits result) accumulator) of Inl e \<Rightarrow> Inl e
             | Inr Z \<Rightarrow>
                 let result = set_digits Z result
                 in MakeImmutable (Inr (if digits > 0 then set_sign negative result else result)))"

section \<open>Strings of BigInts\<close>

abbreviation String_kMaxLength :: nat where "String_kMaxLength \<equiv> 2 ^ 29 - 24"

definition zero_string :: "byte list" where
  "zero_string = [0x30]"

text \<open>The loop of the fast path, which writes from the end of the buffer.\<close>

function decimal_loop :: "digit \<Rightarrow> byte list \<Rightarrow> byte list" where
  "decimal_loop digit out =
     (if digit \<noteq> 0 then decimal_loop (digit div 10) ((0x30 + ucast (digit mod 10)) # out) else out)"
  by pat_completeness auto

termination decimal_loop
  by (relation "measure (\<lambda>(digit, out). unat digit)") (auto simp: unat_div unat_gt_0 div_less_dividend)

declare decimal_loop.simps [simp del]

definition decimal_length :: "digit \<Rightarrow> bool \<Rightarrow> nat" where
  "decimal_length digit sign =
     (let bit_length = kDigitBits - CountLeadingZeros digit; kShift = 7; kShiftedBitsPerChar = 425
      in push_bit kShift bit_length div kShiftedBitsPerChar + 1 + of_bool sign)"

definition ToString_fast :: "digit \<Rightarrow> bool \<Rightarrow> bigint_failure + byte list" where
  "ToString_fast digit sign =
     (let chars_allocated = decimal_length digit sign;
          out = (if sign then [0x2D] else []) @ decimal_loop digit []
      in if length out > chars_allocated then Inl Undefined else Inr out)"

definition BigInt_ToString :: "bigint \<Rightarrow> digit \<Rightarrow> bool \<Rightarrow> bigint_failure + byte list" where
  "BigInt_ToString x radix throw_on_error =
     (if is_zero x then Inr zero_string
      else let sign = bigint_sign x; X = bigint_digits x
           in if length X = 1 \<and> radix = 10 then ToString_fast (X ! 0) sign
              else let chars_allocated = ToStringResultLength X radix sign
                   in if chars_allocated > String_kMaxLength
                      then Inl (if throw_on_error then kInvalidStringLength else EmptyHandle)
                      else from_library (bigint_ToString X radix sign chars_allocated))"

definition NoSideEffectsToString :: "bigint \<Rightarrow> bigint_failure + byte list" where
  "NoSideEffectsToString x =
     (if is_zero x then Inr zero_string
      else let X = bigint_digits x; sign = bigint_sign x
           in if length X > 100 then Inr (ascii ''<a very large BigInt>'')
              else let chars_allocated = ToStringResultLength X 10 sign
                   in from_library (bigint_ToString X 10 sign chars_allocated))"

section \<open>The helper for integers in strings\<close>

datatype State = kRunning | kError | kJunk | kEmpty | kZero | kDone

datatype Sign = kNegative | kPositive | kNone

record StringToIntHelper =
  helper_radix :: digit
  helper_cursor :: nat
  helper_length :: nat
  helper_sign :: Sign
  leading_zero :: bool
  allow_binary_and_octal_prefixes :: bool
  allow_trailing_junk :: bool
  helper_state :: State

abbreviation set_state :: "State \<Rightarrow> 'a StringToIntHelper_scheme \<Rightarrow> 'a StringToIntHelper_scheme" where
  "set_state s h \<equiv> h \<lparr> helper_state := s \<rparr>"

definition isDigit :: "uc32 \<Rightarrow> digit \<Rightarrow> bool" where
  "isDigit x radix \<longleftrightarrow>
     (x \<ge> 0x30 \<and> x \<le> 0x39 \<and> unat x < 0x30 + unat radix) \<or>
     (radix > 10 \<and> x \<ge> 0x61 \<and> unat x + 10 < 0x61 + unat radix) \<or>
     (radix > 10 \<and> x \<ge> 0x41 \<and> unat x + 10 < 0x41 + unat radix)"

text \<open>What is left at the first character that is not white space; the code also returns whether there is one.\<close>

fun AdvanceToNonspace :: "icu \<Rightarrow> uc32 list \<Rightarrow> uc32 list" where
  "AdvanceToNonspace U [] = []"
| "AdvanceToNonspace U (c # cs) = (if \<not> IsWhiteSpaceOrLineTerminator U c then c # cs else AdvanceToNonspace U cs)"

text \<open>The steps of \<^verbatim>\<open>DetectRadixInternal\<close>, each for a position before the end. A step that returns from
  the function has set the state.\<close>

definition detect_sign :: "uc32 list \<Rightarrow> 'a StringToIntHelper_scheme \<Rightarrow> uc32 list \<times> 'a StringToIntHelper_scheme" where
  "detect_sign current h =
     (if hd current = 0x2B
      then let current = tl current
           in if current = [] then (current, set_state kJunk h) else (current, h \<lparr> helper_sign := kPositive \<rparr>)
      else if hd current = 0x2D
      then let current = tl current
           in if current = [] then (current, set_state kJunk h) else (current, h \<lparr> helper_sign := kNegative \<rparr>)
      else (current, h))"

text \<open>A prefix letter, which must not be the last character.\<close>

definition skip_prefix :: "uc32 list \<Rightarrow> 'a StringToIntHelper_scheme \<Rightarrow> uc32 list \<times> 'a StringToIntHelper_scheme" where
  "skip_prefix current h =
     (let current = tl current in if current = [] then (current, set_state kJunk h) else (current, h))"

definition detect_prefix :: "uc32 list \<Rightarrow> 'a StringToIntHelper_scheme \<Rightarrow> uc32 list \<times> 'a StringToIntHelper_scheme" where
  "detect_prefix current h =
     (if helper_radix h = 0
      then let h = h \<lparr> helper_radix := 10 \<rparr>
           in if hd current = 0x30
              then let current = tl current
                   in if current = [] then (current, set_state kZero h)
                      else if hd current = 0x78 \<or> hd current = 0x58 then skip_prefix current (h \<lparr> helper_radix := 16 \<rparr>)
                      else if allow_binary_and_octal_prefixes h \<and> (hd current = 0x6F \<or> hd current = 0x4F)
                      then skip_prefix current (h \<lparr> helper_radix := 8 \<rparr>)
                      else if allow_binary_and_octal_prefixes h \<and> (hd current = 0x62 \<or> hd current = 0x42)
                      then skip_prefix current (h \<lparr> helper_radix := 2 \<rparr>)
                      else (current, h \<lparr> leading_zero := True \<rparr>)
              else (current, h)
      else if helper_radix h = 16
      then if hd current = 0x30
           then let current = tl current
                in if current = [] then (current, set_state kZero h)
                   else if hd current = 0x78 \<or> hd current = 0x58 then skip_prefix current h
                   else (current, h \<lparr> leading_zero := True \<rparr>)
           else (current, h)
      else (current, h))"

fun skip_zeros :: "uc32 list \<Rightarrow> 'a StringToIntHelper_scheme \<Rightarrow> uc32 list \<times> 'a StringToIntHelper_scheme" where
  "skip_zeros [] h = ([], set_state kZero h)"
| "skip_zeros (c # cs) h = (if c = 0x30 then skip_zeros cs (h \<lparr> leading_zero := True \<rparr>) else (c # cs, h))"

definition DetectRadixInternal :: "icu \<Rightarrow> uc32 list \<Rightarrow> 'a StringToIntHelper_scheme \<Rightarrow> 'a StringToIntHelper_scheme" where
  "DetectRadixInternal U start h =
     (let h = h \<lparr> helper_length := length start \<rparr>; current = AdvanceToNonspace U start
      in if current = [] then set_state kEmpty h
         else case detect_sign current h of (current, h) \<Rightarrow>
           if helper_state h \<noteq> kRunning then h
           else case detect_prefix current h of (current, h) \<Rightarrow>
             if helper_state h \<noteq> kRunning then h
             else case skip_zeros current h of (current, h) \<Rightarrow>
               if helper_state h \<noteq> kRunning then h
               else if \<not> leading_zero h \<and> \<not> isDigit (hd current) (helper_radix h) then set_state kJunk h
               else h \<lparr> helper_cursor := length start - length current \<rparr>)"

section \<open>The helper for BigInts\<close>

datatype Behavior = kStringToBigInt | kLiteral

record StringToBigIntHelper = StringToIntHelper +
  helper_accumulator :: FromStringAccumulator
  helper_behavior :: Behavior

definition new_StringToBigIntHelper :: "Behavior \<Rightarrow> StringToBigIntHelper" where
  "new_StringToBigIntHelper behavior =
     \<lparr> helper_radix = 0, helper_cursor = 0, helper_length = 0, helper_sign = kNone, leading_zero = False,
       allow_binary_and_octal_prefixes = True, allow_trailing_junk = (behavior \<noteq> kStringToBigInt), helper_state = kRunning,
       helper_accumulator = new_FromStringAccumulator kMaxLength, helper_behavior = behavior \<rparr>"

definition ParseInternal :: "icu \<Rightarrow> uc32 list \<Rightarrow> StringToBigIntHelper \<Rightarrow> StringToBigIntHelper option" where
  "ParseInternal U start h =
     (let current = drop (helper_cursor h) (take (helper_length h) start)
      in case Parse current (helper_radix h) (helper_accumulator h) of None \<Rightarrow> None
         | Some (current, accumulator) \<Rightarrow>
             let h = h \<lparr> helper_accumulator := accumulator \<rparr>
             in Some (if accumulator_result accumulator = kMaxSizeExceeded then set_state kError h
                      else if \<not> allow_trailing_junk h \<and> AdvanceToNonspace U current \<noteq> [] then set_state kJunk h
                      else set_state kDone h))"

definition ParseInt :: "icu \<Rightarrow> uc32 list \<Rightarrow> StringToBigIntHelper \<Rightarrow> StringToBigIntHelper option" where
  "ParseInt U subject h =
     (let h = DetectRadixInternal U subject h
      in if helper_state h \<noteq> kRunning then Some h else ParseInternal U subject h)"

definition GetResult :: "icu \<Rightarrow> uc32 list \<Rightarrow> StringToBigIntHelper \<Rightarrow> bigint_result" where
  "GetResult U subject h =
     (case ParseInt U subject h of None \<Rightarrow> Inl Undefined
      | Some h \<Rightarrow>
          if helper_behavior h = kStringToBigInt \<and> helper_sign h \<noteq> kNone \<and> helper_radix h \<noteq> 10 then Inl EmptyHandle
          else if helper_state h = kEmpty \<and> helper_behavior h \<noteq> kStringToBigInt then Inl Undefined
          else let h = (if helper_state h = kEmpty then set_state kZero h else h)
               in case helper_state h of
                    kJunk \<Rightarrow> Inl EmptyHandle
                  | kError \<Rightarrow> Inl EmptyHandle
                  | kZero \<Rightarrow> Inr BigInt_Zero
                  | kDone \<Rightarrow> BigInt_Allocate (helper_accumulator h) (helper_sign h = kNegative)
                  | _ \<Rightarrow> Inl Undefined)"

definition DecimalString :: "icu \<Rightarrow> uc32 list \<Rightarrow> StringToBigIntHelper \<Rightarrow> byte list option" where
  "DecimalString U subject h =
     (case ParseInt U subject h of None \<Rightarrow> None
      | Some h \<Rightarrow>
          if helper_state h = kZero then Some zero_string
          else let num_digits = ResultLength (helper_accumulator h)
               in case FromString (replicate num_digits 0) (helper_accumulator h) of None \<Rightarrow> None
                  | Some digits \<Rightarrow> bigint_ToString digits 10 False (ToStringResultLength digits 10 False))"

definition StringToBigInt :: "icu \<Rightarrow> uc32 list \<Rightarrow> bigint_result" where
  "StringToBigInt U string = GetResult U string (new_StringToBigIntHelper kStringToBigInt)"

definition BigIntLiteral :: "icu \<Rightarrow> byte list \<Rightarrow> bigint_result" where
  "BigIntLiteral U string =
     GetResult U (map ucast (takeWhile (\<lambda>c. c \<noteq> 0) string)) (new_StringToBigIntHelper kLiteral)"

definition BigIntLiteralToDecimal :: "icu \<Rightarrow> byte list \<Rightarrow> byte list option" where
  "BigIntLiteralToDecimal U literal = DecimalString U (map ucast literal) (new_StringToBigIntHelper kLiteral)"

section \<open>Comparison with strings\<close>

text \<open>No exception is pending when \<^verbatim>\<open>StringToBigInt\<close> returns an empty handle.\<close>

definition CompareToString :: "icu \<Rightarrow> bigint \<Rightarrow> uc32 list \<Rightarrow> bigint_failure + ComparisonResult" where
  "CompareToString U x y =
     (case StringToBigInt U y of
        Inr ny \<Rightarrow> Inr (CompareToBigInt x ny)
      | Inl e \<Rightarrow> if e \<noteq> EmptyHandle then Inl e else Inr kUndefined)"

definition EqualToString :: "icu \<Rightarrow> bigint \<Rightarrow> uc32 list \<Rightarrow> bigint_failure + bool" where
  "EqualToString U x y =
     (case StringToBigInt U y of
        Inr n \<Rightarrow> Inr (EqualToBigInt x n)
      | Inl e \<Rightarrow> if e \<noteq> EmptyHandle then Inl e else Inr False)"

section \<open>The strings that are written\<close>

text \<open>The numeral of a BigInt in a radix.\<close>

definition numeral_chars :: "digit \<Rightarrow> bigint \<Rightarrow> byte list" where
  "numeral_chars r x =
     (if is_zero x then zero_string
      else (if bigint_sign x then [0x2D] else []) @ number_chars (unat r) (digits_value (bigint_digits x)) [])"

lemma decimal_loop_eq: "decimal_loop d out = number_chars 10 (unat d) out"
proof -
  have "decimal_loop d out = BasecaseFixedLast d out"
    by (induction d out rule: decimal_loop.induct) (metis BasecaseFixedLast.simps decimal_loop.simps)
  then show ?thesis by (simp add: BasecaseFixedLast_spec)
qed

lemma decimal_length_enough:
  assumes "d \<noteq> 0"
  shows "length (number_chars 10 (unat d) []) + of_bool sign \<le> decimal_length d sign"
proof -
  define b where "b = 64 - CountLeadingZeros d"
  define k where "k = length (number_chars 10 (unat d) []) - 1"
  have "any_radix 10" by (simp add: any_radix_def)
  from number_chars_read [OF this, of "unat d"] assms have k: "10 ^ k \<le> unat d" "length (number_chars 10 (unat d) []) = k + 1"
    by (auto simp: k_def unat_gt_0)
  note z = CountLeadingZeros_spec [OF assms]
  have "unat d * 2 ^ CountLeadingZeros d < 2 ^ b * 2 ^ CountLeadingZeros d"
    using z(1,3) by (simp add: b_def digit_base_def flip: power_add)
  then have "10 ^ k < (2 :: nat) ^ b" using k(1) by simp
  then have less: "((10 :: nat) ^ k) ^ 128 < (2 ^ b) ^ 128" by (intro power_strict_mono) auto
  have "k \<le> b * 128 div 425"
  proof (rule ccontr)
    assume "\<not> k \<le> b * 128 div 425"
    then have le: "128 * b \<le> 425 * k" by linarith
    have "((2 :: nat) ^ b) ^ 128 = 2 ^ (128 * b)" by (simp add: power_mult mult.commute)
    also have "\<dots> \<le> 2 ^ (425 * k)" using le by (intro power_increasing) auto
    also have "\<dots> = (2 ^ 425) ^ k" by (simp add: power_mult)
    also have "\<dots> \<le> (10 ^ 128) ^ k" by (intro power_mono) auto
    also have "\<dots> = (10 ^ k) ^ 128" by (metis power_mult mult.commute)
    finally show False using less by (metis not_less)
  qed
  then show ?thesis using k(2) by (simp add: decimal_length_def b_def push_bit_eq_mult)
qed

lemma ToString_fast_spec:
  assumes "d \<noteq> 0"
  shows "ToString_fast d sign = Inr ((if sign then [0x2D] else []) @ number_chars 10 (unat d) [])"
  using decimal_length_enough [OF assms, of sign] by (auto simp: ToString_fast_def decimal_loop_eq Let_def)

text \<open>Only the generic path asks for a length.\<close>

definition too_long :: "digit \<Rightarrow> bigint \<Rightarrow> bool" where
  "too_long r x \<longleftrightarrow> \<not> is_zero x \<and> \<not> (length (bigint_digits x) = 1 \<and> r = 10) \<and>
     ToStringResultLength (bigint_digits x) r (bigint_sign x) > String_kMaxLength"

lemma BigInt_ToString_spec:
  assumes "any_radix r" and "bigint_wf x"
  shows "BigInt_ToString x r throw =
    (if too_long r x then Inl (if throw then kInvalidStringLength else EmptyHandle) else Inr (numeral_chars r x))"
proof (cases "is_zero x")
  case False
  then have n: "IsDigitNormalized (bigint_digits x)" "bigint_digits x \<noteq> []" using assms(2) by (auto simp: bigint_wf_def)
  show ?thesis
  proof (cases "length (bigint_digits x) = 1 \<and> r = 10")
    case True
    then obtain d where d: "bigint_digits x = [d]" by (cases "bigint_digits x") auto
    have "0 < digits_value (bigint_digits x)" using wf_nonzero(2) [OF assms(2) n(2)] .
    then have "d \<noteq> 0" using d by auto
    from ToString_fast_spec [OF this] True d show ?thesis
      by (simp add: BigInt_ToString_def too_long_def numeral_chars_def)
  next
    case fast: False
    from bigint_ToString_spec [OF assms(1) n order_refl, of "bigint_sign x"] fast n(2) show ?thesis
      by (auto simp: BigInt_ToString_def too_long_def numeral_chars_def from_library_def Let_def)
  qed
qed (simp add: BigInt_ToString_def too_long_def numeral_chars_def)

lemma NoSideEffectsToString_spec:
  assumes "bigint_wf x"
  shows "NoSideEffectsToString x =
    Inr (if length (bigint_digits x) > 100 then ascii ''<a very large BigInt>'' else numeral_chars 10 x)"
proof (cases "is_zero x")
  case False
  have r: "any_radix 10" by (simp add: any_radix_def)
  have n: "IsDigitNormalized (bigint_digits x)" "bigint_digits x \<noteq> []" using assms False by (auto simp: bigint_wf_def)
  from bigint_ToString_spec [OF r n order_refl, of "bigint_sign x"] n(2) show ?thesis
    by (auto simp: NoSideEffectsToString_def numeral_chars_def from_library_def Let_def)
qed (simp add: NoSideEffectsToString_def numeral_chars_def)

section \<open>The strings that are read\<close>

text \<open>
  What a string stands for, as the language defines it: white space around it does not count, the empty
  string is zero, a sign goes with decimal digits only, and a prefix selects another radix.
\<close>

abbreviation space :: "icu \<Rightarrow> uc32 \<Rightarrow> bool" where "space U \<equiv> IsWhiteSpaceOrLineTerminator U"

definition trim_right :: "(uc32 \<Rightarrow> bool) \<Rightarrow> uc32 list \<Rightarrow> uc32 list" where
  "trim_right P cs = rev (dropWhile P (rev cs))"

definition split_sign :: "uc32 list \<Rightarrow> Sign \<times> uc32 list" where
  "split_sign cs =
     (case cs of [] \<Rightarrow> (kNone, cs)
      | c # ds \<Rightarrow> if c = 0x2B then (kPositive, ds) else if c = 0x2D then (kNegative, ds) else (kNone, cs))"

definition prefix_radix :: "uc32 \<Rightarrow> digit option" where
  "prefix_radix c =
     (if c = 0x78 \<or> c = 0x58 then Some 16
      else if c = 0x6F \<or> c = 0x4F then Some 8
      else if c = 0x62 \<or> c = 0x42 then Some 2 else None)"

definition split_prefix :: "uc32 list \<Rightarrow> digit \<times> uc32 list" where
  "split_prefix cs =
     (case cs of c # p # ds \<Rightarrow>
        (if c = 0x30 then case prefix_radix p of Some r \<Rightarrow> (r, ds) | None \<Rightarrow> (10, cs) else (10, cs))
      | _ \<Rightarrow> (10, cs))"

definition digits_number :: "digit \<Rightarrow> uc32 list \<Rightarrow> int option" where
  "digits_number r ds = (if ds \<noteq> [] \<and> list_all (valid_char r) ds then Some (int (chars_value r ds)) else None)"

definition string_integer :: "icu \<Rightarrow> uc32 list \<Rightarrow> int option" where
  "string_integer U s =
     (let t = trim_right (space U) (dropWhile (space U) s)
      in if t = [] then Some 0
         else case split_sign t of (sg, cs) \<Rightarrow>
              case split_prefix cs of (r, ds) \<Rightarrow>
                if sg \<noteq> kNone \<and> r \<noteq> 10 then None
                else map_option (\<lambda>v. if sg = kNegative then - v else v) (digits_number r ds))"

lemma AdvanceToNonspace_eq: "AdvanceToNonspace U cs = dropWhile (space U) cs"
  by (induction cs) auto

text \<open>The table of characters, and that none of those in a number is white space.\<close>

lemma valid_char_iff:
  assumes "any_radix r"
  shows "valid_char r c \<longleftrightarrow> (let n = unat c in 48 \<le> n \<and> n \<le> 57 \<and> n - 48 < unat r \<or>
    65 \<le> n \<and> n \<le> 90 \<and> n - 55 < unat r \<or> 97 \<le> n \<and> n \<le> 122 \<and> n - 87 < unat r)"
  using assms by (auto simp: valid_char_def char_value_def word_le_nat_alt any_radix_def Let_def split: if_splits)

lemma isDigit_iff:
  assumes "any_radix r"
  shows "isDigit c r \<longleftrightarrow> valid_char r c"
  using assms unfolding valid_char_iff [OF assms] Let_def isDigit_def any_radix_def
  by (auto simp: word_le_nat_alt word_less_nat_alt)

lemma space_small: "unat c < 128 \<Longrightarrow> space U c \<longleftrightarrow> unat c \<in> {9, 10, 11, 12, 13, 32}"
  using one_byte_flags_byte(4) [of "ucast c"] one_byte_cast [of c]
  by (auto simp: IsWhiteSpaceOrLineTerminator_def IsInRange_iff IsOneByteWhitespace_def word_le_nat_alt word_unat_eq_iff)

lemma valid_not_space: "any_radix r \<Longrightarrow> valid_char r c \<Longrightarrow> \<not> space U c"
  using space_small [of c U] valid_char_iff [of r c] by (auto simp: Let_def)

lemma prefix_not_space: "prefix_radix c = Some r \<Longrightarrow> \<not> space U c"
  using space_small [of c U] by (auto simp: prefix_radix_def split: if_splits)

lemma marks_not_space: "\<not> space U 0x30" "\<not> space U 0x2B" "\<not> space U 0x2D"
  using space_small [of "0x30" U] space_small [of "0x2B" U] space_small [of "0x2D" U] by auto

subsection \<open>White space at the end\<close>

lemma trim_right_Nil [simp]: "trim_right P [] = []"
  by (simp add: trim_right_def)

lemma trim_right_append:
  "trim_right P (xs @ ys) = (if list_all P ys then trim_right P xs else xs @ trim_right P ys)"
  by (induction ys rule: rev_induct) (auto simp: trim_right_def)

lemma trim_right_Cons: "trim_right P (c # cs) = (if list_all P cs \<and> P c then [] else c # trim_right P cs)"
  using trim_right_append [of P "[c]" cs] by (auto simp: trim_right_def dropWhile_eq_Nil_conv list_all_iff)

lemma trim_right_empty: "trim_right P cs = [] \<longleftrightarrow> list_all P cs"
  by (auto simp: trim_right_def dropWhile_eq_Nil_conv list_all_iff)

lemma trim_right_id: "list_all (\<lambda>c. \<not> P c) cs \<Longrightarrow> trim_right P cs = cs"
  by (induction cs) (auto simp: trim_right_Cons)

lemma digits_number_trim:
  assumes "any_radix r"
  shows "digits_number r (trim_right (space U) ds) =
    (let vs = takeWhile (valid_char r) ds
     in if vs \<noteq> [] \<and> list_all (space U) (dropWhile (valid_char r) ds) then Some (int (chars_value r vs)) else None)"
proof -
  define vs rest where "vs = takeWhile (valid_char r) ds" and "rest = dropWhile (valid_char r) ds"
  have ds: "ds = vs @ rest" by (simp add: vs_def rest_def)
  have vs: "list_all (valid_char r) vs" by (auto simp: vs_def list_all_iff dest: set_takeWhileD)
  then have "trim_right (space U) vs = vs" using valid_not_space [OF assms] by (intro trim_right_id) (auto simp: list_all_iff)
  moreover have "\<not> list_all (space U) rest \<Longrightarrow> \<not> list_all (valid_char r) (trim_right (space U) rest)"
    using hd_dropWhile [of "valid_char r" ds] unfolding rest_def [symmetric] by (cases rest) (auto simp: trim_right_Cons)
  ultimately show ?thesis using vs unfolding vs_def [symmetric] rest_def [symmetric] Let_def
    by (subst ds) (simp add: trim_right_append digits_number_def)
qed

lemma split_prefix_trim:
  "split_prefix (trim_right (space U) cs) = (case split_prefix cs of (r, ds) \<Rightarrow> (r, trim_right (space U) ds))"
proof (cases cs)
  case (Cons c ds)
  show ?thesis
  proof (cases ds)
    case (Cons p es)
    show ?thesis using marks_not_space [of U] prefix_not_space [of p _ U] unfolding \<open>cs = c # ds\<close> Cons
      by (cases "prefix_radix p") (auto simp: split_prefix_def trim_right_Cons split: list.splits if_splits)
  qed (auto simp: \<open>cs = c # ds\<close> split_prefix_def trim_right_Cons)
qed (simp add: split_prefix_def)

lemma split_sign_trim:
  assumes "\<not> list_all (space U) cs"
  shows "split_sign (trim_right (space U) cs) = (case split_sign cs of (sg, ds) \<Rightarrow> (sg, trim_right (space U) ds))"
  using assms marks_not_space [of U]
  by (cases cs) (auto simp: split_sign_def trim_right_Cons)

text \<open>The definition of the integer, with what the scan of the string sees.\<close>

lemma string_integer_scan:
  assumes "dropWhile (space U) s \<noteq> []" and "split_sign (dropWhile (space U) s) = (sg, cs)" and "split_prefix cs = (r, ds)"
  shows "string_integer U s =
    (if sg \<noteq> kNone \<and> r \<noteq> 10 then None
     else if takeWhile (valid_char r) ds \<noteq> [] \<and> list_all (space U) (dropWhile (valid_char r) ds)
     then Some ((if sg = kNegative then - 1 else 1) * int (chars_value r (takeWhile (valid_char r) ds))) else None)"
proof -
  have n: "\<not> list_all (space U) (dropWhile (space U) s)"
    using assms(1) hd_dropWhile [of "space U" s] by (cases "dropWhile (space U) s") auto
  have "r = 2 \<or> r = 8 \<or> r = 10 \<or> r = 16" using assms(3)
    by (auto simp: split_prefix_def prefix_radix_def split: list.splits if_splits option.splits)
  then have r: "any_radix r" by (auto simp: any_radix_def)
  show ?thesis using digits_number_trim [OF r, of U ds] n
    by (cases "r = 10") (auto simp: string_integer_def trim_right_empty split_sign_trim [OF n] split_prefix_trim assms(2,3) Let_def)
qed

lemma string_integer_empty: "dropWhile (space U) s = [] \<Longrightarrow> string_integer U s = Some 0"
  unfolding string_integer_def by (simp only: trim_right_Nil Let_def simp_thms if_True)

subsection \<open>The scan\<close>

lemma skip_zeros_spec:
  "skip_zeros cs h =
    (let z = dropWhile (\<lambda>c. c = 0x30) cs; h' = (if cs \<noteq> [] \<and> hd cs = 0x30 then h \<lparr> leading_zero := True \<rparr> else h)
     in (z, if z = [] then set_state kZero h' else h'))"
  by (induction cs arbitrary: h) (auto simp: Let_def)

lemma detect_prefix_spec:
  assumes "cs \<noteq> []" and "helper_radix h = 0" and "allow_binary_and_octal_prefixes h"
  shows "detect_prefix cs h =
    (case split_prefix cs of (r, ds) \<Rightarrow>
       if ds = cs
       then if hd cs \<noteq> 0x30 then (cs, h \<lparr> helper_radix := r \<rparr>)
            else (tl cs, if tl cs = [] then set_state kZero (h \<lparr> helper_radix := r \<rparr>)
                         else h \<lparr> helper_radix := r, leading_zero := True \<rparr>)
       else (ds, if ds = [] then set_state kJunk (h \<lparr> helper_radix := r \<rparr>) else h \<lparr> helper_radix := r \<rparr>))"
proof (cases cs)
  case (Cons c ds)
  show ?thesis using assms
    by (cases ds) (auto simp: Cons detect_prefix_def split_prefix_def prefix_radix_def skip_prefix_def Let_def)
qed (use assms in simp)

lemma detect_sign_spec:
  assumes "cs \<noteq> []" and "helper_sign h = kNone"
  shows "detect_sign cs h =
    (case split_sign cs of (sg, ds) \<Rightarrow> (ds, if ds = [] then set_state kJunk h else h \<lparr> helper_sign := sg \<rparr>))"
  using assms by (cases cs) (auto simp: detect_sign_def split_sign_def)

text \<open>What an accumulator holds after a successful parse.\<close>

definition holds_number :: "nat \<Rightarrow> FromStringAccumulator \<Rightarrow> nat \<Rightarrow> bool" where
  "holds_number D acc v \<longleftrightarrow> ResultLength acc \<le> D \<and>
     (\<forall>Z. length Z = ResultLength acc \<longrightarrow> (\<exists>Z'. FromString Z acc = Some Z' \<and> length Z' = length Z \<and> digits_value Z' = v))"

lemma parses_cases:
  assumes "parses r D cs result"
  obtains rest acc where "result = Some (rest, acc)"
    and "accumulator_result acc = kOk \<longrightarrow> rest = dropWhile (valid_char r) cs"
    and "accumulator_result acc = kOk \<longrightarrow> holds_number D acc (chars_value r (takeWhile (valid_char r) cs))"
    and "accumulator_result acc = kMaxSizeExceeded \<longrightarrow> 2 ^ (64 * D) \<le> unat r ^ (length (takeWhile (valid_char r) cs) + D)"
  using assms unfolding parses_def holds_number_def by (fastforce split: Result.splits)

lemma BigInt_Allocate_spec:
  assumes "holds_number kMaxLength acc v"
  shows "\<exists>x. BigInt_Allocate acc negative = Inr x \<and> bigint_wf x \<and> bigint_value x = (if negative then - 1 else 1) * int v"
proof -
  let ?n = "ResultLength acc"
  obtain Z where Z: "FromString (replicate ?n 0) acc = Some Z" "length Z = ?n" "digits_value Z = v"
    using assms unfolding holds_number_def by (metis length_replicate)
  define y where "y = \<lparr> bigint_sign = (if ?n > 0 then negative else False), bigint_digits = Z \<rparr>"
  have y: "length (bigint_digits y) \<le> kMaxLength" "bigint_digits y = [] \<Longrightarrow> \<not> bigint_sign y"
    using assms Z(2) by (auto simp: y_def holds_number_def)
  have "BigInt_Allocate acc negative = Inr (Canonicalize y)"
    using assms Z by (simp add: BigInt_Allocate_def ToHandleChecked_def MutableBigInt_New_def from_library_def MakeImmutable_def
        holds_number_def y_def Let_def)
  moreover have "bigint_value y = (if negative then - 1 else 1) * int v"
    using Z by (cases Z) (auto simp: y_def bigint_value_def signed_value_if)
  ultimately show ?thesis using Canonicalize_spec [OF y] by simp
qed

lemma zero_char:
  assumes "any_radix r"
  shows "char_value 0x30 = 0" and "valid_char r 0x30"
  using assms by (simp_all add: valid_char_def char_value_def any_radix_def)

lemma zeros_skipped:
  assumes "any_radix r"
  defines "skip \<equiv> dropWhile (\<lambda>c. c = 0x30)"
  shows "chars_value r (takeWhile (valid_char r) (skip cs)) = chars_value r (takeWhile (valid_char r) cs)"
    and "dropWhile (valid_char r) (skip cs) = dropWhile (valid_char r) cs"
    and "length (takeWhile (valid_char r) (skip cs)) \<le> length cs"
  using zero_char [OF assms(1)] unfolding skip_def
  by (induction cs) (auto simp: chars_value_def intro: length_takeWhile_le le_SucI)

lemma nonzero_char:
  assumes "any_radix r" and "valid_char r c" and "c \<noteq> 0x30"
  shows "0 < char_value c"
  using assms by (auto simp: valid_char_def char_value_def any_radix_def word_le_nat_alt word_unat_eq_iff split: if_splits)

lemma skipped_positive:
  assumes "any_radix r" and "dropWhile (\<lambda>c. c = 0x30) cs \<noteq> []" and "dropWhile (valid_char r) cs = []"
  shows "0 < chars_value r (takeWhile (valid_char r) cs)"
proof -
  obtain c zs where z: "dropWhile (\<lambda>c. c = 0x30) cs = c # zs" using assms(2) by (cases "dropWhile (\<lambda>c. c = 0x30) cs") auto
  have "c \<noteq> 0x30" using hd_dropWhile [of "\<lambda>c. c = 0x30" cs] z by simp
  moreover have "valid_char r c" using zeros_skipped(2) [OF assms(1), of cs] assms(3) z by (auto split: if_splits)
  ultimately have "0 < chars_value r (takeWhile (valid_char r) (c # zs))"
    using nonzero_char [OF assms(1)] assms(1) by (simp add: chars_value_def any_radix_def)
  then show ?thesis using zeros_skipped(1) [OF assms(1), of cs] z by simp
qed

lemma size_exceeded:
  assumes "2 \<le> unat r" and "unat r \<le> 16" and "2 ^ (64 * kMaxLength) \<le> unat r ^ (n + kMaxLength)"
  shows "15 * kMaxLength \<le> n"
proof -
  note assms(3)
  also have "unat r ^ (n + kMaxLength) \<le> 16 ^ (n + kMaxLength)" using assms(2) by (rule power_mono) simp
  also have "\<dots> = (2 :: nat) ^ (4 * (n + kMaxLength))" unfolding power_mult by simp
  finally have "64 * kMaxLength \<le> 4 * (n + kMaxLength)" by (rule power_le_imp_le_exp [rotated]) simp
  then show ?thesis by simp
qed

text \<open>What the helper has found: white space ends a string, but anything may follow a literal.\<close>

definition found :: "icu \<Rightarrow> uc32 list \<Rightarrow> digit \<Rightarrow> uc32 list \<Rightarrow> StringToBigIntHelper \<Rightarrow> bool" where
  "found U s r ds h \<longleftrightarrow>
     (let vs = takeWhile (valid_char r) ds; rest = dropWhile (valid_char r) ds
      in case helper_state h of
           kJunk \<Rightarrow> vs = [] \<or> helper_behavior h = kStringToBigInt \<and> \<not> list_all (space U) rest
         | kError \<Rightarrow> 15 * kMaxLength \<le> length s
         | kZero \<Rightarrow> vs \<noteq> [] \<and> rest = [] \<and> chars_value r vs = 0
         | kDone \<Rightarrow> vs \<noteq> [] \<and> (helper_behavior h = kStringToBigInt \<longrightarrow> list_all (space U) rest) \<and>
             (rest = [] \<longrightarrow> 0 < chars_value r vs) \<and> holds_number kMaxLength (helper_accumulator h) (chars_value r vs)
         | _ \<Rightarrow> False)"

lemma ParseInternal_spec:
  assumes "any_radix r" and "unat r \<le> 16" and "drop n s = cs" and "cs \<noteq> []" and "length cs \<le> length s"
    and "helper_radix h = r" and "helper_length h = length s" and "helper_cursor h = n"
    and "helper_accumulator h = new_FromStringAccumulator kMaxLength"
  obtains h' where "ParseInternal U s h = Some h'" "helper_sign h' = helper_sign h" "helper_radix h' = r"
    "helper_behavior h' = helper_behavior h"
    "helper_state h' = kError \<and> 15 * kMaxLength \<le> length s \<or>
     helper_state h' = kJunk \<and> \<not> allow_trailing_junk h \<and> \<not> list_all (space U) (dropWhile (valid_char r) cs) \<or>
     helper_state h' = kDone \<and> (\<not> allow_trailing_junk h \<longrightarrow> list_all (space U) (dropWhile (valid_char r) cs)) \<and>
       holds_number kMaxLength (helper_accumulator h') (chars_value r (takeWhile (valid_char r) cs))"
proof -
  let ?acc = "new_FromStringAccumulator kMaxLength"
  have "\<not> overruns_stack r cs" using assms(2) by (simp add: overruns_stack_def)
  with Parse_spec [OF assms(1,4), of kMaxLength] have "parses r kMaxLength cs (Parse cs r ?acc)" by simp
  then obtain rest acc where P: "Parse cs r ?acc = Some (rest, acc)"
    and ok: "accumulator_result acc = kOk \<longrightarrow> rest = dropWhile (valid_char r) cs"
      "accumulator_result acc = kOk \<longrightarrow> holds_number kMaxLength acc (chars_value r (takeWhile (valid_char r) cs))"
    and big: "accumulator_result acc = kMaxSizeExceeded \<longrightarrow>
      2 ^ (64 * kMaxLength) \<le> unat r ^ (length (takeWhile (valid_char r) cs) + kMaxLength)"
    by (rule parses_cases)
  have "2 \<le> unat r" using assms(1) by (simp add: any_radix_def)
  from size_exceeded [OF this assms(2) big [rule_format]] have
    big: "accumulator_result acc = kMaxSizeExceeded \<Longrightarrow> 15 * kMaxLength \<le> length s"
    using length_takeWhile_le [of "valid_char r" cs] assms(5) by linarith
  let ?h = "h \<lparr> helper_accumulator := acc \<rparr>"
  let ?state = "if accumulator_result acc = kMaxSizeExceeded then kError
    else if \<not> allow_trailing_junk h \<and> \<not> list_all (space U) rest then kJunk else kDone"
  have "ParseInternal U s h = Some (set_state ?state ?h)"
    using P assms(3,6-9) by (auto simp: ParseInternal_def AdvanceToNonspace_eq list_all_iff Let_def)
  moreover have "?state = kError \<and> 15 * kMaxLength \<le> length s \<or>
     ?state = kJunk \<and> \<not> allow_trailing_junk h \<and> \<not> list_all (space U) (dropWhile (valid_char r) cs) \<or>
     ?state = kDone \<and> (\<not> allow_trailing_junk h \<longrightarrow> list_all (space U) (dropWhile (valid_char r) cs)) \<and>
       holds_number kMaxLength acc (chars_value r (takeWhile (valid_char r) cs))"
  proof (cases "accumulator_result acc")
    case kOk
    with ok show ?thesis by simp
  qed (use big in simp)
  ultimately show ?thesis using that [of "set_state ?state ?h"] assms(6) by simp
qed

text \<open>The end of the scan: leading zeros, then the digits.\<close>

definition scan_digits :: "icu \<Rightarrow> uc32 list \<Rightarrow> uc32 list \<Rightarrow> StringToBigIntHelper \<Rightarrow> StringToBigIntHelper option" where
  "scan_digits U start current h =
     (case skip_zeros current h of (current, h) \<Rightarrow>
        if helper_state h \<noteq> kRunning then Some h
        else if \<not> leading_zero h \<and> \<not> isDigit (hd current) (helper_radix h) then Some (set_state kJunk h)
        else ParseInternal U start (h \<lparr> helper_cursor := length start - length current \<rparr>))"

lemma ParseInt_scan:
  assumes "helper_state h = kRunning"
  shows "ParseInt U s h =
    (let h = h \<lparr> helper_length := length s \<rparr>; current = dropWhile (space U) s
     in if current = [] then Some (set_state kEmpty h)
        else case detect_sign current h of (current, h) \<Rightarrow>
          if helper_state h \<noteq> kRunning then Some h
          else case detect_prefix current h of (current, h) \<Rightarrow>
            if helper_state h \<noteq> kRunning then Some h else scan_digits U s current h)"
  using assms unfolding ParseInt_def DetectRadixInternal_def AdvanceToNonspace_eq scan_digits_def Let_def
  by (auto split: prod.splits)

lemma scan_digits_spec:
  assumes "any_radix r" and "unat r \<le> 16" and "suffix cs s" and "cs \<noteq> []" and "helper_radix h = r"
    and "helper_length h = length s" and "helper_accumulator h = new_FromStringAccumulator kMaxLength"
    and "helper_state h = kRunning" and "allow_trailing_junk h \<longleftrightarrow> helper_behavior h \<noteq> kStringToBigInt"
    and "ds = (if leading_zero h then 0x30 # cs else cs)"
  obtains h' where "scan_digits U s cs h = Some h'" "helper_sign h' = helper_sign h" "helper_radix h' = r"
    "helper_behavior h' = helper_behavior h" "found U s r ds h'"
proof -
  let ?z = "dropWhile (\<lambda>c. c = 0x30) cs" and ?lz = "leading_zero h \<or> hd cs = 0x30"
  note zero = zero_char [OF assms(1)] and skipped = zeros_skipped [OF assms(1), of cs]
  have vs: "takeWhile (valid_char r) ds \<noteq> [] \<longleftrightarrow> leading_zero h \<or> valid_char r (hd cs)"
    using assms(4,10) zero(2) by (cases cs) auto
  have v: "chars_value r (takeWhile (valid_char r) ds) = chars_value r (takeWhile (valid_char r) ?z)"
    "dropWhile (valid_char r) ds = dropWhile (valid_char r) ?z"
    using skipped(1,2) zero assms(10) by (auto simp: chars_value_def)
  define g where "g = (if hd cs = 0x30 then h \<lparr> leading_zero := True \<rparr> else h)"
  have g: "helper_sign g = helper_sign h" "helper_radix g = r" "helper_behavior g = helper_behavior h" "leading_zero g = ?lz"
    "helper_length g = length s" "helper_accumulator g = new_FromStringAccumulator kMaxLength" "helper_state g = kRunning"
    "allow_trailing_junk g = allow_trailing_junk h"
    using assms(5-8) by (simp_all add: g_def)
  have skip: "skip_zeros cs h = (?z, if ?z = [] then set_state kZero g else g)"
    using assms(4) by (simp add: skip_zeros_spec g_def Let_def)
  consider (zero) "?z = []" | (junk) "?z \<noteq> []" "\<not> ?lz" "\<not> valid_char r (hd cs)"
    | (digits) "?z \<noteq> []" "?lz \<or> valid_char r (hd cs)" by blast
  then show ?thesis
  proof cases
    case zero
    then have "hd cs = 0x30" using assms(4) by (cases cs) (auto split: if_splits)
    moreover have "chars_value r (takeWhile (valid_char r) ds) = 0" "dropWhile (valid_char r) ds = []"
      unfolding v zero by (simp_all add: chars_value_def)
    ultimately have "found U s r ds (set_state kZero g)" using vs zero_char(2) [OF assms(1)] by (simp add: found_def Let_def)
    then show ?thesis using that [of "set_state kZero g"] zero g skip by (simp add: scan_digits_def)
  next
    case junk
    then have "?z = cs" using assms(4) by (cases cs) auto
    then have "scan_digits U s cs h = Some (set_state kJunk g)" using junk skip g isDigit_iff [OF assms(1)]
      by (simp add: scan_digits_def)
    moreover have "found U s r ds (set_state kJunk g)" using junk vs by (simp add: found_def Let_def)
    ultimately show ?thesis using that [of "set_state kJunk g"] g by simp
  next
    case digits
    let ?n = "length s - length ?z"
    have suf: "suffix ?z s" using assms(3) suffix_dropWhile suffix_order.trans by blast
    then have z: "drop ?n s = ?z" "length ?z \<le> length s" by (auto simp: suffix_def suffix_length_le)
    have "?lz \<or> isDigit (hd ?z) r" using digits assms(4) isDigit_iff [OF assms(1)] by (cases cs) auto
    then have s: "scan_digits U s cs h = ParseInternal U s (g \<lparr> helper_cursor := ?n \<rparr>)" using g
      unfolding scan_digits_def skip if_not_P [OF digits(1)] by auto
    obtain h' where h': "ParseInternal U s (g \<lparr> helper_cursor := ?n \<rparr>) = Some h'"
      "helper_sign h' = helper_sign g" "helper_radix h' = r" "helper_behavior h' = helper_behavior g"
      "helper_state h' = kError \<and> 15 * kMaxLength \<le> length s \<or>
       helper_state h' = kJunk \<and> \<not> allow_trailing_junk g \<and> \<not> list_all (space U) (dropWhile (valid_char r) ?z) \<or>
       helper_state h' = kDone \<and> (\<not> allow_trailing_junk g \<longrightarrow> list_all (space U) (dropWhile (valid_char r) ?z)) \<and>
         holds_number kMaxLength (helper_accumulator h') (chars_value r (takeWhile (valid_char r) ?z))"
      using ParseInternal_spec [OF assms(1,2) z(1) digits(1) z(2), of "g \<lparr> helper_cursor := ?n \<rparr>" U] g by auto
    have "takeWhile (valid_char r) ds \<noteq> []" using digits(2) vs zero_char(2) [OF assms(1)] by auto
    moreover have "dropWhile (valid_char r) ds = [] \<Longrightarrow> 0 < chars_value r (takeWhile (valid_char r) ds)"
      using skipped_positive [OF assms(1) digits(1)] v skipped(1,2) by simp
    ultimately have "found U s r ds h'" using h'(4,5) v g(3,8) assms(9) unfolding found_def Let_def by auto
    then show ?thesis using that [of h'] s h' g by simp
  qed
qed

lemma split_prefix_radix:
  assumes "split_prefix cs = (r, ds)"
  shows "any_radix r" and "unat r \<le> 16" and "suffix ds cs" and "ds = cs \<or> length ds + 2 = length cs"
proof -
  have "(r = 2 \<or> r = 8 \<or> r = 10 \<or> r = 16) \<and> suffix ds cs \<and> (ds = cs \<or> length ds + 2 = length cs)" using assms
    by (auto simp: split_prefix_def prefix_radix_def split: list.splits if_splits option.splits intro: suffix_ConsI)
  then show "any_radix r" "unat r \<le> 16" "suffix ds cs" "ds = cs \<or> length ds + 2 = length cs" by (auto simp: any_radix_def)
qed

lemma split_sign_suffix: "split_sign cs = (sg, ds) \<Longrightarrow> suffix ds cs"
  by (auto simp: split_sign_def split: list.splits if_splits intro: suffix_ConsI)

text \<open>After the sign: the prefix selects the radix and the digits follow.\<close>

lemma scan_prefix:
  assumes "split_prefix cs = (r, ds)" and "cs \<noteq> []" and "suffix cs s" and "helper_radix h = 0"
    and "allow_binary_and_octal_prefixes h" and "helper_length h = length s" and "\<not> leading_zero h"
    and "helper_accumulator h = new_FromStringAccumulator kMaxLength" and "helper_state h = kRunning"
    and "allow_trailing_junk h \<longleftrightarrow> helper_behavior h \<noteq> kStringToBigInt"
  obtains h' where "(case detect_prefix cs h of (current, h) \<Rightarrow>
      if helper_state h \<noteq> kRunning then Some h else scan_digits U s current h) = Some h'"
    "helper_sign h' = helper_sign h" "helper_radix h' = r" "helper_behavior h' = helper_behavior h" "found U s r ds h'"
proof -
  let ?result = "case detect_prefix cs h of (current, h) \<Rightarrow>
      if helper_state h \<noteq> kRunning then Some h else scan_digits U s current h"
  define g where "g = h \<lparr> helper_radix := r \<rparr>"
  have g: "helper_sign g = helper_sign h" "helper_radix g = r" "helper_behavior g = helper_behavior h"
    "helper_length g = length s" "helper_accumulator g = new_FromStringAccumulator kMaxLength" "helper_state g = kRunning"
    "allow_trailing_junk g \<longleftrightarrow> helper_behavior g \<noteq> kStringToBigInt" "\<not> leading_zero g"
    using assms by (simp_all add: g_def)
  have pre: "detect_prefix cs h = (if ds = cs then if hd cs \<noteq> 0x30 then (cs, g)
         else (tl cs, if tl cs = [] then set_state kZero g else g \<lparr> leading_zero := True \<rparr>)
       else (ds, if ds = [] then set_state kJunk g else g))"
    using detect_prefix_spec [OF assms(2,4,5)] assms(1) by (simp add: g_def)
  note radix = split_prefix_radix [OF assms(1)]
  note result = that
  have scan: thesis if "?result = scan_digits U s es k" "suffix es s" "es \<noteq> []" "k = g \<or> k = g \<lparr> leading_zero := True \<rparr>"
    "ds = (if leading_zero k then 0x30 # es else es)" for es k
  proof (rule scan_digits_spec [OF radix(1,2) that(2,3), of k ds U])
    fix h' assume "scan_digits U s es k = Some h'" "helper_sign h' = helper_sign k" "helper_radix h' = r"
      "helper_behavior h' = helper_behavior k" "found U s r ds h'"
    then show thesis using result [of h'] that(1,4) g(1,3) by auto
  qed (use that(4,5) g in auto)
  consider (plain) "ds = cs" "hd cs \<noteq> 0x30" | (zero) "ds = [0x30]" "tl cs = []" "ds = cs"
    | (zeros) "ds = 0x30 # tl cs" "tl cs \<noteq> []" "ds = cs"
    | (junk) "ds \<noteq> cs" "ds = []" | (prefix) "ds \<noteq> cs" "ds \<noteq> []"
    using assms(2) by (cases cs) auto
  then show ?thesis
  proof cases
    case plain
    then show ?thesis using scan [of cs g] assms(2,3) pre g by simp
  next
    case zero
    have "found U s r ds (set_state kZero g)" using zero zero_char [OF radix(1)] by (simp add: found_def chars_value_def)
    then show ?thesis using that [of "set_state kZero g"] pre zero g by auto
  next
    case zeros
    have "suffix (tl cs) s" using assms(3) suffix_tl suffix_order.trans by blast
    then show ?thesis using scan [of "tl cs" "g \<lparr> leading_zero := True \<rparr>"] zeros pre g by (cases cs) auto
  next
    case junk
    then show ?thesis using that [of "set_state kJunk g"] pre g by (simp add: found_def)
  next
    case prefix
    have "suffix ds s" using assms(3) radix(3) suffix_order.trans by blast
    then show ?thesis using scan [of ds g] prefix pre g by simp
  qed
qed

text \<open>The whole scan. Only a string of junk may leave the sign and the radix behind.\<close>

lemma ParseInt_spec:
  assumes "dropWhile (space U) s \<noteq> []" and "split_sign (dropWhile (space U) s) = (sg, cs)" and "split_prefix cs = (r, ds)"
  obtains h where "ParseInt U s (new_StringToBigIntHelper b) = Some h" "helper_behavior h = b"
    "helper_state h \<noteq> kJunk \<longrightarrow> helper_sign h = sg \<and> helper_radix h = r" "found U s r ds h"
proof -
  define h0 where "h0 = (new_StringToBigIntHelper b) \<lparr> helper_length := length s \<rparr>"
  have h0: "helper_state h0 = kRunning" "helper_sign h0 = kNone" "helper_radix h0 = 0" "allow_binary_and_octal_prefixes h0"
    "helper_behavior h0 = b" "helper_length h0 = length s" "helper_accumulator h0 = new_FromStringAccumulator kMaxLength"
    "allow_trailing_junk h0 \<longleftrightarrow> b \<noteq> kStringToBigInt" "\<not> leading_zero h0"
    by (simp_all add: h0_def new_StringToBigIntHelper_def)
  have run: "helper_state (new_StringToBigIntHelper b) = kRunning" by (simp add: new_StringToBigIntHelper_def)
  note P = ParseInt_scan [OF run, of U s, unfolded Let_def if_not_P [OF assms(1)] h0_def [symmetric]]
  have sign: "detect_sign (dropWhile (space U) s) h0 = (cs, if cs = [] then set_state kJunk h0 else h0 \<lparr> helper_sign := sg \<rparr>)"
    using detect_sign_spec [OF assms(1) h0(2)] assms(2) by simp
  show ?thesis
  proof (cases "cs = []")
    case True
    then have "ds = []" using assms(3) by (simp add: split_prefix_def)
    then show ?thesis using that [of "set_state kJunk h0"] P sign True h0 by (simp add: found_def)
  next
    case False
    have "suffix cs s" using split_sign_suffix [OF assms(2)] suffix_dropWhile suffix_order.trans by blast
    from scan_prefix [OF assms(3) False this, of "h0 \<lparr> helper_sign := sg \<rparr>" U] h0 obtain h' where
      "(case detect_prefix cs (h0 \<lparr> helper_sign := sg \<rparr>) of (current, h) \<Rightarrow>
         if helper_state h \<noteq> kRunning then Some h else scan_digits U s current h) = Some h'"
      "helper_sign h' = sg" "helper_radix h' = r" "helper_behavior h' = b" "found U s r ds h'" by auto
    then show ?thesis using that [of h'] P sign False h0(1) by simp
  qed
qed

subsection \<open>The results\<close>

lemma StringToBigInt_spec:
  "case string_integer U s of
     None \<Rightarrow> StringToBigInt U s = Inl EmptyHandle
   | Some v \<Rightarrow> (\<exists>x. StringToBigInt U s = Inr x \<and> bigint_wf x \<and> bigint_value x = v) \<or>
       StringToBigInt U s = Inl EmptyHandle \<and> 15 * kMaxLength \<le> length s"
proof (cases "dropWhile (space U) s = []")
  case True
  let ?h = "new_StringToBigIntHelper kStringToBigInt"
  have "ParseInt U s ?h = Some (set_state kEmpty (?h \<lparr> helper_length := length s \<rparr>))"
    using ParseInt_scan [of ?h U s] True by (simp add: new_StringToBigIntHelper_def Let_def)
  then have "StringToBigInt U s = Inr BigInt_Zero"
    by (simp add: StringToBigInt_def GetResult_def new_StringToBigIntHelper_def)
  then show ?thesis using string_integer_empty [OF True] by auto
next
  case False
  obtain sg cs r ds where split: "split_sign (dropWhile (space U) s) = (sg, cs)" "split_prefix cs = (r, ds)" by force
  obtain h where h: "ParseInt U s (new_StringToBigIntHelper kStringToBigInt) = Some h" "helper_behavior h = kStringToBigInt"
    "helper_state h \<noteq> kJunk \<longrightarrow> helper_sign h = sg \<and> helper_radix h = r" "found U s r ds h"
    using ParseInt_spec [OF False split] by blast
  let ?vs = "takeWhile (valid_char r) ds" and ?rest = "dropWhile (valid_char r) ds"
  let ?v = "(if sg = kNegative then - 1 else 1) * int (chars_value r ?vs)"
  note I = string_integer_scan [OF False split]
  have R: "StringToBigInt U s = (if helper_sign h \<noteq> kNone \<and> helper_radix h \<noteq> 10 then Inl EmptyHandle
    else case helper_state h of kDone \<Rightarrow> BigInt_Allocate (helper_accumulator h) (helper_sign h = kNegative)
      | kZero \<Rightarrow> Inr BigInt_Zero | kEmpty \<Rightarrow> Inr BigInt_Zero | kRunning \<Rightarrow> Inl Undefined | _ \<Rightarrow> Inl EmptyHandle)"
    using h(1,2) by (auto simp: StringToBigInt_def GetResult_def Let_def split: State.splits)
  show ?thesis
  proof (cases "helper_state h")
    case kDone
    then have f: "?vs \<noteq> []" "list_all (space U) ?rest" "holds_number kMaxLength (helper_accumulator h) (chars_value r ?vs)"
      using h(2,4) by (auto simp: found_def Let_def)
    then show ?thesis using BigInt_Allocate_spec [OF f(3), of "sg = kNegative"] h(3) kDone R I by auto
  next
    case kZero
    with h(4) have "?vs \<noteq> [] \<and> ?rest = [] \<and> chars_value r ?vs = 0" by (simp add: found_def Let_def)
    then have "?vs \<noteq> []" "list_all (space U) ?rest" "chars_value r ?vs = 0" by (simp_all only: list.pred_inject simp_thms)
    then show ?thesis using h(3) kZero R I by auto
  next
    case kJunk
    then have "?vs = [] \<or> \<not> list_all (space U) ?rest" using h(2,4) by (auto simp: found_def Let_def)
    then have "string_integer U s = None" unfolding I by auto
    then show ?thesis using kJunk R by simp
  next
    case kError
    then have "15 * kMaxLength \<le> length s" using h(4) by (simp add: found_def Let_def)
    then show ?thesis using kError R by (simp split: option.splits)
  qed (use h(4) in \<open>auto simp: found_def Let_def\<close>)
qed

lemma StringToBigInt_value:
  assumes "string_integer U s = Some (bigint_value x)" and "bigint_wf x" and "length s < 15 * kMaxLength"
  shows "StringToBigInt U s = Inr x"
proof -
  obtain y where "StringToBigInt U s = Inr y" "bigint_wf y" "bigint_value y = bigint_value x"
    using StringToBigInt_spec [of U s] assms(1,3) by auto
  then show ?thesis using wf_inject [OF assms(2), of y] by simp
qed

text \<open>The numerals of BigInts are read as their values.\<close>

lemma byte_char_eq: "(ucast c :: uc32) = 0x30 \<longleftrightarrow> c = 0x30" for c :: byte
proof -
  have "take_bit 32 (unat c) = unat c" by (rule take_bit_nat_eq_self) (use unsigned_less [of c, where 'a = nat] in simp)
  then show ?thesis by (simp add: word_unat_eq_iff unsigned_ucast_eq)
qed

lemma numeral_digits:
  assumes "any_radix r" and "bigint_wf x"
  defines "cs \<equiv> map ucast (number_chars (unat r) (digits_value (bigint_digits x)) [])"
  shows "chars_value r cs = digits_value (bigint_digits x)" and "list_all (valid_char r) cs"
    and "\<not> is_zero x \<Longrightarrow> cs \<noteq> [] \<and> hd cs \<noteq> 0x30"
proof -
  note n = number_chars_read [OF assms(1), of "digits_value (bigint_digits x)"]
  show "chars_value r cs = digits_value (bigint_digits x)" and "list_all (valid_char r) cs"
    using n by (auto simp: cs_def list_all_iff)
  assume "\<not> is_zero x"
  then have "0 < digits_value (bigint_digits x)" using wf_nonzero(2) [OF assms(2)] by simp
  with n have *: "number_chars (unat r) (digits_value (bigint_digits x)) [] \<noteq> []"
    "hd (number_chars (unat r) (digits_value (bigint_digits x)) []) \<noteq> 0x30" by auto
  with * show "cs \<noteq> [] \<and> hd cs \<noteq> 0x30" by (simp add: cs_def hd_map byte_char_eq)
qed

lemma scan_all_valid:
  "list_all (valid_char r) cs \<Longrightarrow> takeWhile (valid_char r) cs = cs \<and> dropWhile (valid_char r) cs = []"
  by (induction cs) auto

lemma decimal_integer:
  assumes "cs \<noteq> []" and "list_all (valid_char 10) cs" and "hd cs = 0x30 \<longrightarrow> tl cs = []"
  shows "string_integer U cs = Some (int (chars_value 10 cs))"
    and "string_integer U (0x2D # cs) = Some (- int (chars_value 10 cs))"
proof -
  obtain c ds where cs: "cs = c # ds" using assms(1) by (cases cs) auto
  have ten: "any_radix 10" by (simp add: any_radix_def)
  have c: "valid_char 10 c" "\<not> space U c" "c \<noteq> 0x2B" "c \<noteq> 0x2D"
    using assms(2) valid_not_space [OF ten, of c U] valid_char_iff [OF ten, of c] by (auto simp: cs Let_def)
  have p: "split_prefix cs = (10, cs)" using assms(3) by (cases ds) (auto simp: cs split_prefix_def)
  note v = scan_all_valid [OF assms(2)]
  show "string_integer U cs = Some (int (chars_value 10 cs))"
  proof -
    have "dropWhile (space U) cs = cs" "split_sign cs = (kNone, cs)" using c by (simp_all add: cs split_sign_def)
    then show ?thesis using string_integer_scan [of U cs kNone cs 10 cs] assms(1) p by (simp add: conjunct1 [OF v] conjunct2 [OF v])
  qed
  show "string_integer U (0x2D # cs) = Some (- int (chars_value 10 cs))"
    using string_integer_scan [of U "0x2D # cs" kNegative cs 10 cs] marks_not_space(3) [of U] assms(1) p v
    by (simp add: split_sign_def)
qed

lemma prefixed_integer:
  assumes "prefix_radix p = Some r" and "cs \<noteq> []" and "list_all (valid_char r) cs"
  shows "string_integer U (0x30 # p # cs) = Some (int (chars_value r cs))"
  using string_integer_scan [of U "0x30 # p # cs" kNone "0x30 # p # cs" r cs] marks_not_space(1) [of U] assms(1,2)
    scan_all_valid [OF assms(3)]
  by (simp add: split_sign_def split_prefix_def)

lemma numeral_integer:
  assumes "bigint_wf x"
  shows "string_integer U (map ucast (numeral_chars 10 x)) = Some (bigint_value x)"
proof -
  have ten: "any_radix 10" by (simp add: any_radix_def)
  show ?thesis
  proof (cases "is_zero x")
    case True
    then have "string_integer U [0x30] = Some (bigint_value x)"
      using decimal_integer(1) [of "[0x30]" U] zero_char [OF ten] by (simp add: chars_value_def bigint_value_def signed_value_if)
    then show ?thesis using True by (simp add: numeral_chars_def zero_string_def)
  next
    case False
    note n = numeral_digits [OF ten assms]
    from decimal_integer [OF _ n(2), of U] n(1) n(3) [OF False] False show ?thesis
      by (auto simp: numeral_chars_def bigint_value_def signed_value_if)
  qed
qed

lemma prefixed_numeral_integer:
  assumes "prefix_radix p = Some r" and "bigint_wf x" and "\<not> bigint_sign x"
  shows "string_integer U (0x30 # p # map ucast (numeral_chars r x)) = Some (bigint_value x)"
proof -
  have r: "any_radix r" using assms(1) by (auto simp: prefix_radix_def any_radix_def split: if_splits)
  show ?thesis
  proof (cases "is_zero x")
    case True
    then have "string_integer U (0x30 # p # [0x30]) = Some (bigint_value x)"
      using prefixed_integer [OF assms(1), of "[0x30]" U] zero_char [OF r] by (simp add: chars_value_def bigint_value_def signed_value_if)
    then show ?thesis using True by (simp add: numeral_chars_def zero_string_def)
  next
    case False
    note n = numeral_digits [OF r assms(2)]
    from prefixed_integer [OF assms(1) _ n(2), of U] n(1) n(3) [OF False] False assms(3) show ?thesis
      by (simp add: numeral_chars_def bigint_value_def signed_value_if)
  qed
qed

subsection \<open>Literals\<close>

text \<open>The digits of a literal may have zeros on top; the string is that of the number.\<close>

lemma DIV_CEIL_mono: "x \<le> y \<Longrightarrow> DIV_CEIL x n \<le> DIV_CEIL y n"
  by (simp add: DIV_CEIL_def div_le_mono)

lemma CountLeadingZeros_le: "CountLeadingZeros d \<le> 64"
proof -
  have "leading_zeros_from n d \<le> n" for n by (induction n) auto
  then show ?thesis by (simp add: CountLeadingZeros_def)
qed

lemma bit_length_padded: "Digits_BitLength (Normalize X) \<le> Digits_BitLength X"
proof (cases "length (Normalize X) = length X")
  case True
  then show ?thesis using Normalize_same [OF True] by simp
next
  case False
  then have "length (Normalize X) + 1 \<le> length X" using Normalize_length [of X] by linarith
  then show ?thesis using CountLeadingZeros_le [of "msd X"] unfolding Digits_BitLength_def by simp
qed

lemma Normalize_id: "IsDigitNormalized Y \<Longrightarrow> Y \<noteq> [] \<Longrightarrow> Normalize Y = Y"
  by (simp add: Normalize.simps IsDigitNormalized_def)

lemma ToString_padded:
  assumes "any_radix r" and "0 < digits_value X"
  shows "bigint_ToString X r sign (ToStringResultLength X r sign) =
    Some ((if sign then [0x2D] else []) @ number_chars (unat r) (digits_value X) [])"
proof -
  note N = Normalize_normal [of X] Normalize_value [of X] Normalize_length [of X]
  have ne: "Normalize X \<noteq> []" using assms(2) N(2) by (metis digits_value.simps(1) less_irrefl)
  have "ToStringResultLength (Normalize X) r sign \<le> ToStringResultLength X r sign"
    using bit_length_padded [of X] by (simp add: ToStringResultLength_def Let_def DIV_CEIL_mono)
  from bigint_ToString_spec [OF assms(1) N(1) ne this] N(2)
  have "bigint_ToString (Normalize X) r sign (ToStringResultLength X r sign) =
    Some ((if sign then [0x2D] else []) @ number_chars (unat r) (digits_value X) [])" by simp
  moreover have "Normalize (Normalize X) = Normalize X" using Normalize_id [OF N(1) ne] .
  ultimately show ?thesis by (simp add: bigint_ToString_def)
qed

lemma literal_scan:
  assumes "split_prefix cs = (r, ds)" and "digits_number r ds = Some v"
  shows "dropWhile (space U) cs = cs" and "split_sign cs = (kNone, cs)" and "cs \<noteq> []" and "0 \<notin> set cs"
    and "takeWhile (valid_char r) ds = ds" and "dropWhile (valid_char r) ds = []" and "v = int (chars_value r ds)"
proof -
  note r = split_prefix_radix [OF assms(1)]
  have ds: "ds \<noteq> []" "list_all (valid_char r) ds" and v: "v = int (chars_value r ds)"
    using assms(2) by (auto simp: digits_number_def split: if_splits)
  then show "takeWhile (valid_char r) ds = ds" "dropWhile (valid_char r) ds = []" "v = int (chars_value r ds)"
    using scan_all_valid [OF ds(2)] by auto
  show "cs \<noteq> []" using ds(1) r(3) by auto
  then obtain c cs' where cs: "cs = c # cs'" by (cases cs) auto
  have "c = 0x30 \<or> valid_char r c" "ds = cs \<or> (\<exists>p. prefix_radix p = Some r \<and> cs = c # p # ds)" using assms(1) ds
    by (auto simp: cs split_prefix_def split: list.splits option.splits if_splits)
  moreover have "c = 0x30 \<or> valid_char r c \<Longrightarrow> \<not> space U c \<and> c \<noteq> 0x2B \<and> c \<noteq> 0x2D \<and> c \<noteq> 0"
    using marks_not_space(1) [of U] valid_not_space [OF r(1), of c U] valid_char_iff [OF r(1), of c] by (auto simp: Let_def)
  moreover have "prefix_radix p = Some r \<Longrightarrow> p \<noteq> 0" for p by (auto simp: prefix_radix_def split: if_splits)
  moreover have "0 \<notin> set ds" using ds(2) valid_char_iff [OF r(1), of 0] by (auto simp: list_all_iff Let_def)
  ultimately show "dropWhile (space U) cs = cs" "split_sign cs = (kNone, cs)" "0 \<notin> set cs"
    by (auto simp: cs split_sign_def)
qed

lemma literal_spec:
  assumes "split_prefix cs = (r, ds)" and "digits_number r ds = Some v" and "length cs < 15 * kMaxLength"
  shows "\<exists>x. GetResult U cs (new_StringToBigIntHelper kLiteral) = Inr x \<and> bigint_wf x \<and> bigint_value x = v \<and>
    DecimalString U cs (new_StringToBigIntHelper kLiteral) = Some (numeral_chars 10 x)"
proof -
  note l = literal_scan [OF assms(1,2)] and ten = any_radix_def [of 10]
  obtain h where h: "ParseInt U cs (new_StringToBigIntHelper kLiteral) = Some h" "helper_behavior h = kLiteral"
    "helper_state h \<noteq> kJunk \<longrightarrow> helper_sign h = kNone \<and> helper_radix h = r" "found U cs r ds h"
    using ParseInt_spec [of U cs kNone cs r ds kLiteral, unfolded l(1)] l(2,3) assms(1) by blast
  have "ds \<noteq> []" using assms(2) by (auto simp: digits_number_def)
  then have f: "helper_state h = kZero \<and> chars_value r ds = 0 \<or>
    helper_state h = kDone \<and> 0 < chars_value r ds \<and> holds_number kMaxLength (helper_accumulator h) (chars_value r ds)"
    using h(2,4) assms(3) unfolding found_def l(5,6) Let_def by (cases "helper_state h") auto
  show ?thesis
  proof (cases "helper_state h = kZero")
    case True
    then show ?thesis using h f l(7)
      by (auto simp: GetResult_def DecimalString_def numeral_chars_def BigInt_Zero_eq bigint_wf_def bigint_value_def
          signed_value_if IsDigitNormalized_def)
  next
    case False
    with f have fin: "helper_state h = kDone" "0 < chars_value r ds" "holds_number kMaxLength (helper_accumulator h) (chars_value r ds)"
      by auto
    obtain x where x: "BigInt_Allocate (helper_accumulator h) False = Inr x" "bigint_wf x" "bigint_value x = int (chars_value r ds)"
      using BigInt_Allocate_spec [OF fin(3), of False] by auto
    obtain Z where Z: "FromString (replicate (ResultLength (helper_accumulator h)) 0) (helper_accumulator h) = Some Z"
      "digits_value Z = chars_value r ds" using fin(3) unfolding holds_number_def by (metis length_replicate)
    have "\<not> bigint_sign x" "digits_value (bigint_digits x) = chars_value r ds" "\<not> is_zero x"
      using x(2,3) fin(2) value_negative [OF x(2)] value_zero [OF x(2)] by (auto simp: bigint_value_def signed_value_if)
    then show ?thesis using h fin x Z ToString_padded [of 10 Z False] l(7)
      by (simp add: GetResult_def DecimalString_def numeral_chars_def ten)
  qed
qed

section \<open>Correctness\<close>

lemma CompareToString_spec:
  assumes "bigint_wf x" and "length s < 15 * kMaxLength"
  shows "CompareToString U x s = Inr (case string_integer U s of None \<Rightarrow> kUndefined
      | Some v \<Rightarrow> if bigint_value x < v then kLessThan else if bigint_value x = v then kEqual else kGreaterThan)"
    and "EqualToString U x s = Inr (string_integer U s = Some (bigint_value x))"
proof -
  have "CompareToString U x s = Inr (case string_integer U s of None \<Rightarrow> kUndefined
      | Some v \<Rightarrow> if bigint_value x < v then kLessThan else if bigint_value x = v then kEqual else kGreaterThan) \<and>
    EqualToString U x s = Inr (string_integer U s = Some (bigint_value x))"
  proof (cases "string_integer U s")
    case None
    then show ?thesis using StringToBigInt_spec [of U s] by (simp add: CompareToString_def EqualToString_def)
  next
    case (Some v)
    then obtain y where y: "StringToBigInt U s = Inr y" "bigint_wf y" "bigint_value y = v"
      using StringToBigInt_spec [of U s] assms(2) by auto
    then show ?thesis using Some CompareToBigInt_spec [OF assms(1) y(2)] wf_inject [OF assms(1) y(2)] EqualToBigInt_eq [of x y]
      by (auto simp: CompareToString_def EqualToString_def)
  qed
  then show "CompareToString U x s = Inr (case string_integer U s of None \<Rightarrow> kUndefined
      | Some v \<Rightarrow> if bigint_value x < v then kLessThan else if bigint_value x = v then kEqual else kGreaterThan)"
    and "EqualToString U x s = Inr (string_integer U s = Some (bigint_value x))" by auto
qed

text \<open>C11. A string is converted to the BigInt for the integer it stands for, with white space around it, an empty
  string for zero, a sign before decimal digits or a prefix for another radix, and to nothing if it stands for none.
  Only a string of more than 250 million characters may be given up as too large. Comparison with such a string is
  comparison with its integer; a string that stands for none is neither equal, less nor greater.\<close>

theorem string_to_bigint_exact:
  "(case string_integer U s of
      None \<Rightarrow> StringToBigInt U s = Inl EmptyHandle
    | Some v \<Rightarrow> (\<exists>x. StringToBigInt U s = Inr x \<and> bigint_wf x \<and> bigint_value x = v) \<or>
        StringToBigInt U s = Inl EmptyHandle \<and> 15 * kMaxLength \<le> length s) \<and>
   (bigint_wf x \<and> length s < 15 * kMaxLength \<longrightarrow>
      CompareToString U x s = Inr (case string_integer U s of None \<Rightarrow> kUndefined
        | Some v \<Rightarrow> if bigint_value x < v then kLessThan else if bigint_value x = v then kEqual else kGreaterThan) \<and>
      EqualToString U x s = Inr (string_integer U s = Some (bigint_value x)))"
  using StringToBigInt_spec [of U s] CompareToString_spec [of x s U] by blast

theorem string_to_bigint_exact_witness:
  "CompareToString latin1_icu \<lparr> bigint_sign = False, bigint_digits = [255] \<rparr> [0x20, 0x30, 0x78, 0x66, 0x65, 0x20] = Inr kGreaterThan"
proof -
  have s: "string_integer latin1_icu [0x20, 0x30, 0x78, 0x66, 0x65, 0x20] = Some 254" by code_simp
  show ?thesis
    using string_to_bigint_exact [of latin1_icu "[0x20, 0x30, 0x78, 0x66, 0x65, 0x20]" "\<lparr> bigint_sign = False, bigint_digits = [255] \<rparr>"]
    by (simp add: s concrete_bigint)
qed

text \<open>C12. A BigInt is written in any radix as its digits without leading zeros behind the sign, unless the
  estimate of the length exceeds that of a string; the buffer is always long enough, also in the fast path. The
  decimal string, and that of a natural number behind the prefix of its radix, is converted back to the BigInt.\<close>

theorem bigint_string_roundtrip:
  assumes "any_radix r" and "bigint_wf x"
  shows "BigInt_ToString x r throw =
      (if \<not> is_zero x \<and> \<not> (length (bigint_digits x) = 1 \<and> r = 10) \<and>
          ToStringResultLength (bigint_digits x) r (bigint_sign x) > String_kMaxLength
       then Inl (if throw then kInvalidStringLength else EmptyHandle) else Inr (numeral_chars r x)) \<and>
    NoSideEffectsToString x =
      Inr (if length (bigint_digits x) > 100 then ascii ''<a very large BigInt>'' else numeral_chars 10 x) \<and>
    (length (numeral_chars 10 x) < 15 * kMaxLength \<longrightarrow> StringToBigInt U (map ucast (numeral_chars 10 x)) = Inr x) \<and>
    (prefix_radix p = Some r \<and> \<not> bigint_sign x \<and> length (numeral_chars r x) + 2 < 15 * kMaxLength \<longrightarrow>
       StringToBigInt U (0x30 # p # map ucast (numeral_chars r x)) = Inr x)"
proof (intro conjI impI)
  assume "length (numeral_chars 10 x) < 15 * kMaxLength"
  then show "StringToBigInt U (map ucast (numeral_chars 10 x)) = Inr x"
    by (intro StringToBigInt_value numeral_integer assms(2)) simp
next
  assume "prefix_radix p = Some r \<and> \<not> bigint_sign x \<and> length (numeral_chars r x) + 2 < 15 * kMaxLength"
  then show "StringToBigInt U (0x30 # p # map ucast (numeral_chars r x)) = Inr x"
    by (intro StringToBigInt_value prefixed_numeral_integer assms(2)) auto
qed (use BigInt_ToString_spec [OF assms] NoSideEffectsToString_spec [OF assms(2)] in \<open>simp_all add: too_long_def\<close>)

theorem bigint_string_roundtrip_witness:
  "BigInt_ToString \<lparr> bigint_sign = True, bigint_digits = [254] \<rparr> 16 True = Inr (ascii ''-fe'')"
proof -
  let ?x = "\<lparr> bigint_sign = True, bigint_digits = [254] \<rparr>"
  have "number_chars 16 254 [] = [0x66, 0x65]" by code_simp
  then have "numeral_chars 16 ?x = ascii ''-fe''" by (simp add: numeral_chars_def ascii_def)
  moreover have "ToStringResultLength [254] 16 True = 4" by code_simp
  ultimately show ?thesis using bigint_string_roundtrip [of 16 ?x True latin1_icu 0]
    by (simp add: any_radix_def concrete_bigint)
qed

text \<open>C13. A BigInt literal, digits with or without the prefix of a radix, is the BigInt for its value, and the
  property name made of it is the decimal numeral of that value.\<close>

theorem bigint_literal_exact:
  assumes "split_prefix (map ucast literal) = (r, ds)" and "digits_number r ds = Some v" and "length literal < 15 * kMaxLength"
  shows "\<exists>x. BigIntLiteral U literal = Inr x \<and> bigint_wf x \<and> bigint_value x = v \<and>
    BigIntLiteralToDecimal U literal = Some (numeral_chars 10 x)"
proof -
  have "0 \<notin> set (map ucast literal :: uc32 list)" by (rule literal_scan(4) [OF assms(1,2)])
  then have all: "takeWhile (\<lambda>c. c \<noteq> 0) literal = literal" by (auto simp: takeWhile_eq_all_conv intro: rev_image_eqI)
  show ?thesis using literal_spec [OF assms(1,2), of U] assms(3) unfolding BigIntLiteral_def BigIntLiteralToDecimal_def all by simp
qed

theorem bigint_literal_exact_witness:
  "\<exists>x. BigIntLiteral latin1_icu (ascii ''0b11111111'') = Inr x \<and> bigint_value x = 255"
proof -
  have "split_prefix (map ucast (ascii ''0b11111111'')) = (2, map of_char ''11111111'')" by code_simp
  moreover have "digits_number 2 (map of_char ''11111111'') = Some 255" by code_simp
  ultimately show ?thesis using bigint_literal_exact [of "ascii ''0b11111111''" 2 "map of_char ''11111111''" 255 latin1_icu] by auto
qed

end
