(* ===== verification/BigInt_Double.thy ===== *)
theory BigInt_Double
  imports BigInt_Strings
begin

text \<open>
  BigInts and numbers: conversion from and to doubles and comparison with numbers of
  \<^verbatim>\<open>src/objects/bigint.cc\<close>. A double is its 64 bits, as \<^verbatim>\<open>base::bit_cast\<close> gives them; the masks are those of
  \<^verbatim>\<open>src/base/numbers/double.h\<close>.
\<close>

section \<open>Doubles\<close>

type_synonym double = "64 word"

abbreviation kSignificandMask :: "64 word" where "kSignificandMask \<equiv> 0x000FFFFFFFFFFFFF"
abbreviation kHiddenBit :: "64 word" where "kHiddenBit \<equiv> 0x0010000000000000"
abbreviation kPhysicalSignificandSize :: nat where "kPhysicalSignificandSize \<equiv> 52"
abbreviation V8_INFINITY :: double where "V8_INFINITY \<equiv> 0x7FF0000000000000"
abbreviation minus_V8_INFINITY :: double where "minus_V8_INFINITY \<equiv> 0xFFF0000000000000"

definition raw_exponent :: "double \<Rightarrow> nat" where
  "raw_exponent double_bits = unat (drop_bit kPhysicalSignificandSize double_bits AND 0x7FF)"

text \<open>The tests of the language on doubles: \<^verbatim>\<open>std::isnan(y)\<close>, \<^verbatim>\<open>std::isfinite(y)\<close>, \<^verbatim>\<open>y == 0\<close> and \<^verbatim>\<open>y < 0\<close>.\<close>

definition isnan :: "double \<Rightarrow> bool" where
  "isnan y \<longleftrightarrow> raw_exponent y = 0x7FF \<and> y AND kSignificandMask \<noteq> 0"

definition isfinite :: "double \<Rightarrow> bool" where
  "isfinite y \<longleftrightarrow> raw_exponent y \<noteq> 0x7FF"

definition double_zero :: "double \<Rightarrow> bool" where
  "double_zero y \<longleftrightarrow> raw_exponent y = 0 \<and> y AND kSignificandMask = 0"

definition double_negative :: "double \<Rightarrow> bool" where
  "double_negative y \<longleftrightarrow> bit y 63 \<and> \<not> isnan y \<and> \<not> double_zero y"

text \<open>Equality of doubles, \<^verbatim>\<open>==\<close>: NaN is equal to nothing and the zeros are equal to each other.\<close>

definition double_equal :: "double \<Rightarrow> double \<Rightarrow> bool" where
  "double_equal x y \<longleftrightarrow> \<not> isnan x \<and> \<not> isnan y \<and> (x = y \<or> double_zero x \<and> double_zero y)"

text \<open>\<^verbatim>\<open>std::floor\<close> of a positive double and \<^verbatim>\<open>std::ceil\<close> of a negative one: the bits of the mantissa behind the
  point are cleared; a double below 1 becomes a zero of its sign.\<close>

definition double_trunc :: "double \<Rightarrow> double" where
  "double_trunc x =
     (let e = raw_exponent x
      in if e < 0x3FF then (if bit x 63 then push_bit 63 1 else 0)
         else if e \<ge> 0x3FF + 52 then x
         else push_bit (0x3FF + 52 - e) (drop_bit (0x3FF + 52 - e) x))"

definition DoubleToInteger :: "double \<Rightarrow> double" where
  "DoubleToInteger x =
     (if isnan x \<or> double_zero x then 0
      else if \<not> isfinite x then x
      else let r = double_trunc x in if double_zero r then 0 else r)"

text \<open>A number is a small integer or a double on the heap.\<close>

datatype number = Smi "32 word" | HeapNumber double

section \<open>From doubles\<close>

text \<open>The mantissa cut at the most significant digit, whose top bit is \<open>msd_topbit\<close>: the digit, what is
  left of the mantissa and the number of bits in it.\<close>

definition align_mantissa :: "nat \<Rightarrow> 64 word \<Rightarrow> digit \<times> 64 word \<times> int" where
  "align_mantissa msd_topbit mantissa =
     (let kMantissaTopBit = 52
      in if msd_topbit < kMantissaTopBit
         then let remaining_mantissa_bits = kMantissaTopBit - msd_topbit
              in (drop_bit remaining_mantissa_bits mantissa, push_bit (64 - remaining_mantissa_bits) mantissa,
                  int remaining_mantissa_bits)
         else (push_bit (msd_topbit - kMantissaTopBit) mantissa, 0, 0))"

text \<open>The digits below the most significant one, the highest first.\<close>

fun fill_digits :: "nat \<Rightarrow> 64 word \<Rightarrow> int \<Rightarrow> digits" where
  "fill_digits 0 mantissa remaining_mantissa_bits = []"
| "fill_digits (Suc n) mantissa remaining_mantissa_bits =
     (if remaining_mantissa_bits > 0 then mantissa # fill_digits n 0 (remaining_mantissa_bits - int kDigitBits)
      else 0 # fill_digits n mantissa remaining_mantissa_bits)"

definition NewFromDouble :: "double \<Rightarrow> bigint" where
  "NewFromDouble v =
     (if double_zero v then BigInt_Zero
      else let sign = double_negative v; exponent = raw_exponent v - 0x3FF; digits = exponent div kDigitBits + 1;
               mantissa = (v AND kSignificandMask) OR kHiddenBit; msd_topbit = exponent mod kDigitBits
           in case align_mantissa msd_topbit mantissa of (digit, mantissa, remaining_mantissa_bits) \<Rightarrow>
                Canonicalize \<lparr> bigint_sign = sign, bigint_digits = rev (digit # fill_digits (digits - 1) mantissa remaining_mantissa_bits) \<rparr>)"

definition FromNumber :: "number \<Rightarrow> bigint_result" where
  "FromNumber n =
     (case n of Smi v \<Rightarrow> Inr (NewFromInt v)
      | HeapNumber v \<Rightarrow> if \<not> isfinite v \<or> \<not> double_equal (DoubleToInteger v) v then Inl kBigIntFromNumber else Inr (NewFromDouble v))"

section \<open>To doubles\<close>

datatype Rounding = kRoundDown | kTie | kRoundUp

text \<open>The digits below \<open>digit_index\<close> decide when the bits of the current one do not.\<close>

definition decide_bits :: "digits \<Rightarrow> nat \<Rightarrow> nat \<Rightarrow> digit \<Rightarrow> Rounding" where
  "decide_bits X top_unconsumed_bit digit_index current_digit =
     (let bitmask = push_bit top_unconsumed_bit 1
      in if current_digit AND bitmask = 0 then kRoundDown
         else if current_digit AND (bitmask - 1) \<noteq> 0 then kRoundUp
         else if list_ex (\<lambda>d. d \<noteq> 0) (take digit_index X) then kRoundUp
         else kTie)"

definition DecideRounding :: "digits \<Rightarrow> int \<Rightarrow> nat \<Rightarrow> digit \<Rightarrow> Rounding" where
  "DecideRounding X mantissa_bits_unset digit_index current_digit =
     (if mantissa_bits_unset > 0 then kRoundDown
      else if mantissa_bits_unset < 0 then decide_bits X (nat (- mantissa_bits_unset - 1)) digit_index current_digit
      else if digit_index = 0 then kRoundDown
      else decide_bits X (kDigitBits - 1) (digit_index - 1) (X ! (digit_index - 1)))"

text \<open>The mantissa without its hidden bit, the number of bits missing in it, and the digit reached.\<close>

definition collect_mantissa :: "digits \<Rightarrow> 64 word \<times> int \<times> nat \<times> digit" where
  "collect_mantissa X =
     (let digit_index = length X - 1; current_digit = X ! digit_index;
          shift = CountLeadingZeros current_digit + 1;
          mantissa = (if shift = 64 then 0 else push_bit shift current_digit);
          mantissa = drop_bit 12 mantissa;
          mantissa_bits_unset = int shift - 12;
          (mantissa, mantissa_bits_unset, digit_index, current_digit) =
            (if mantissa_bits_unset \<ge> int kDigitBits \<and> digit_index > 0
             then let digit_index = digit_index - 1; current_digit = X ! digit_index
                  in (mantissa OR push_bit (nat (mantissa_bits_unset - int kDigitBits)) current_digit,
                      mantissa_bits_unset - int kDigitBits, digit_index, current_digit)
             else (mantissa, mantissa_bits_unset, digit_index, current_digit))
      in if mantissa_bits_unset > 0 \<and> digit_index > 0
         then let digit_index = digit_index - 1; current_digit = X ! digit_index
              in (mantissa OR drop_bit (nat (int kDigitBits - mantissa_bits_unset)) current_digit,
                  mantissa_bits_unset - int kDigitBits, digit_index, current_digit)
         else (mantissa, mantissa_bits_unset, digit_index, current_digit))"

definition assemble_double :: "bool \<Rightarrow> nat \<Rightarrow> 64 word \<Rightarrow> double" where
  "assemble_double sign exponent mantissa =
     (if sign then push_bit 63 1 else 0) OR push_bit kPhysicalSignificandSize (of_nat (exponent + 0x3FF)) OR mantissa"

definition ToDouble :: "bigint \<Rightarrow> double" where
  "ToDouble x =
     (if is_zero x then 0
      else let X = bigint_digits x; sign = bigint_sign x; x_bitlength = length X * kDigitBits - CountLeadingZeros (X ! (length X - 1));
               infinity = (if sign then minus_V8_INFINITY else V8_INFINITY)
           in if x_bitlength > 1024 then infinity
              else let exponent = x_bitlength - 1
                   in case collect_mantissa X of (mantissa, mantissa_bits_unset, digit_index, current_digit) \<Rightarrow>
                      let rounding = DecideRounding X mantissa_bits_unset digit_index current_digit
                      in if rounding = kRoundUp \<or> rounding = kTie \<and> mantissa AND 1 = 1
                         then let mantissa = mantissa + 1
                              in if drop_bit kPhysicalSignificandSize mantissa \<noteq> 0
                                 then if exponent + 1 > 1023 then infinity else assemble_double sign (exponent + 1) 0
                                 else assemble_double sign exponent mantissa
                         else assemble_double sign exponent mantissa)"

abbreviation kSmiMax :: digit where "kSmiMax \<equiv> 2147483647"

definition ToNumber :: "bigint \<Rightarrow> number" where
  "ToNumber x =
     (if is_zero x then Smi 0
      else if length (bigint_digits x) = 1 \<and> bigint_digits x ! 0 < kSmiMax
      then let v = ucast (bigint_digits x ! 0) in Smi (if bigint_sign x then - v else v)
      else HeapNumber (ToDouble x))"

section \<open>Comparison with numbers\<close>

fun compare_digits :: "bool \<Rightarrow> digits \<Rightarrow> 64 word \<Rightarrow> int \<Rightarrow> ComparisonResult" where
  "compare_digits x_sign [] mantissa remaining_mantissa_bits = (if mantissa \<noteq> 0 then AbsoluteLess x_sign else kEqual)"
| "compare_digits x_sign (digit # ds) mantissa remaining_mantissa_bits =
     (let (compare_mantissa, mantissa, remaining_mantissa_bits) =
        (if remaining_mantissa_bits > 0 then (mantissa, 0, remaining_mantissa_bits - int kDigitBits)
         else (0, mantissa, remaining_mantissa_bits))
      in if digit > compare_mantissa then AbsoluteGreater x_sign
         else if digit < compare_mantissa then AbsoluteLess x_sign
         else compare_digits x_sign ds mantissa remaining_mantissa_bits)"

definition CompareToDouble :: "bigint \<Rightarrow> double \<Rightarrow> ComparisonResult" where
  "CompareToDouble x y =
     (if isnan y then kUndefined
      else if y = V8_INFINITY then kLessThan
      else if y = minus_V8_INFINITY then kGreaterThan
      else let X = bigint_digits x; x_sign = bigint_sign x; y_sign = double_negative y
           in if x_sign \<noteq> y_sign then UnequalSign x_sign
              else if double_zero y then if is_zero x then kEqual else kGreaterThan
              else if is_zero x then kLessThan
              else let mantissa = y AND kSignificandMask; exponent = int (raw_exponent y) - 0x3FF
                   in if exponent < 0 then AbsoluteGreater x_sign
                      else let x_length = length X; x_msd = X ! (x_length - 1);
                               msd_leading_zeros = CountLeadingZeros x_msd;
                               x_bitlength = int (x_length * kDigitBits - msd_leading_zeros); y_bitlength = exponent + 1
                           in if x_bitlength < y_bitlength then AbsoluteLess x_sign
                              else if x_bitlength > y_bitlength then AbsoluteGreater x_sign
                              else let mantissa = mantissa OR kHiddenBit; msd_topbit = kDigitBits - 1 - msd_leading_zeros
                                   in case align_mantissa msd_topbit mantissa of
                                        (compare_mantissa, mantissa, remaining_mantissa_bits) \<Rightarrow>
                                          if x_msd > compare_mantissa then AbsoluteGreater x_sign
                                          else if x_msd < compare_mantissa then AbsoluteLess x_sign
                                          else compare_digits x_sign (rev (take (x_length - 1) X)) mantissa remaining_mantissa_bits)"

text \<open>\<open>std::abs\<close> of a small integer.\<close>

definition smi_abs :: "32 word \<Rightarrow> digit" where
  "smi_abs v = of_int \<bar>sint v\<bar>"

definition EqualToNumber :: "bigint \<Rightarrow> number \<Rightarrow> bool" where
  "EqualToNumber x y =
     (case y of
        Smi v \<Rightarrow> if v = 0 then is_zero x
                 else length (bigint_digits x) = 1 \<and> bigint_sign x = (sint v < 0) \<and> bigint_digits x ! 0 = smi_abs v
      | HeapNumber v \<Rightarrow> CompareToDouble x v = kEqual)"

definition CompareToNumber :: "bigint \<Rightarrow> number \<Rightarrow> ComparisonResult" where
  "CompareToNumber x y =
     (case y of
        Smi y_value \<Rightarrow>
          let x_sign = bigint_sign x; y_sign = (sint y_value < 0)
          in if x_sign \<noteq> y_sign then UnequalSign x_sign
             else if is_zero x then if y_value = 0 then kEqual else kLessThan
             else if length (bigint_digits x) > 1 then AbsoluteGreater x_sign
             else let abs_value = smi_abs y_value; x_digit = bigint_digits x ! 0
                  in if x_digit > abs_value then AbsoluteGreater x_sign
                     else if x_digit < abs_value then AbsoluteLess x_sign
                     else kEqual
      | HeapNumber v \<Rightarrow> CompareToDouble x v)"

section \<open>The fields of a double\<close>

abbreviation significand :: "double \<Rightarrow> nat" where "significand y \<equiv> unat (y AND kSignificandMask)"

lemma or_add:
  fixes a b :: "64 word"
  assumes "2 ^ n dvd unat a" and "unat b < 2 ^ n"
  shows "unat (a OR b) = unat a + unat b"
proof -
  obtain q where "unat a = push_bit n q" using assms(1) by (auto simp: push_bit_eq_mult elim!: dvdE)
  moreover have "unat b = take_bit n (unat b)" using assms(2) by (simp add: take_bit_nat_eq_self)
  ultimately have "\<not> bit (unat a) k \<or> \<not> bit (unat b) k" for k by (metis bit_push_bit_iff bit_take_bit_iff linorder_not_less)
  then have "unat a + unat b = unat a OR unat b" by (intro disjunctive_add) blast
  then show ?thesis by (simp add: unsigned_or_eq)
qed

lemma field_values:
  "significand y = unat y mod 2 ^ 52" "raw_exponent y = unat y div 2 ^ 52 mod 2 ^ 11" "bit y 63 \<longleftrightarrow> 2 ^ 63 \<le> unat y"
proof -
  have "kSignificandMask = mask 52" "(0x7FF :: 64 word) = mask 11" by (simp_all add: mask_eq_exp_minus_1)
  then show "significand y = unat y mod 2 ^ 52" "raw_exponent y = unat y div 2 ^ 52 mod 2 ^ 11"
    unfolding raw_exponent_def by (simp_all only: unat_and_mask_numeral unat_drop)
  have "unat y < 2 ^ 64" using unsigned_less [of y] by simp
  then have "unat y div 2 ^ 63 < 2" by simp
  then have "odd (unat y div 2 ^ 63) \<longleftrightarrow> unat y div 2 ^ 63 \<noteq> 0" by (cases "unat y div 2 ^ 63") auto
  moreover have "bit (unat y) 63 \<longleftrightarrow> bit y 63" by (simp add: bit_unsigned_iff)
  ultimately show "bit y 63 \<longleftrightarrow> 2 ^ 63 \<le> unat y" unfolding bit_iff_odd [of "unat y"] by (simp add: div_eq_0_iff not_less)
qed

lemma field_bounds: "significand y < 2 ^ 52" "raw_exponent y < 2 ^ 11" "raw_exponent y \<le> 0x7FF"
  using mod_less_divisor [of "2 ^ 11" "unat y div 2 ^ 52"] unfolding field_values by simp_all

lemma double_split: "unat y = (if bit y 63 then 2 ^ 63 else 0) + raw_exponent y * 2 ^ 52 + significand y"
proof -
  let ?q = "unat y div 2 ^ 63"
  have "unat y < 2 ^ 64" using unsigned_less [of y] by simp
  then have "?q < 2" by simp
  then have "?q = (if bit y 63 then 1 else 0)" unfolding field_values(3) by (cases ?q) (auto simp: div_eq_0_iff)
  moreover have "unat y div 2 ^ 52 div 2 ^ 11 = ?q" by (simp add: div_mult2_eq [symmetric])
  ultimately have "unat y div 2 ^ 52 = (if bit y 63 then 2 ^ 11 else 0) + raw_exponent y"
    using div_mult_mod_eq [of "unat y div 2 ^ 52" "2 ^ 11"] unfolding field_values(2) by (simp split: if_splits)
  then show ?thesis using div_mult_mod_eq [of "unat y" "2 ^ 52"] unfolding field_values(1) by (simp split: if_splits)
qed

lemma double_eqI:
  "bit y 63 = bit z 63 \<Longrightarrow> raw_exponent y = raw_exponent z \<Longrightarrow> significand y = significand z \<Longrightarrow> y = z"
  using double_split [of y] double_split [of z] by (simp add: word_unat_eq_iff)

lemma hidden_bit: "unat ((y AND kSignificandMask) OR kHiddenBit) = significand y + 2 ^ 52"
  using or_add [of 52 kHiddenBit "y AND kSignificandMask"] field_bounds(1) [of y] by (simp add: or.commute)

text \<open>A finite double is a multiple of the least positive one, \<open>2 ^ -1074\<close>; it is a whole number if that
  multiple is one of \<open>2 ^ 1074\<close>.\<close>

definition double_units :: "double \<Rightarrow> int" where
  "double_units y =
     (let m = unat (y AND kSignificandMask); e = raw_exponent y
      in (if bit y 63 then - 1 else 1) * int (if e = 0 then m else (m + 2 ^ 52) * 2 ^ (e - 1)))"

definition is_whole :: "double \<Rightarrow> bool" where
  "is_whole y \<longleftrightarrow> 2 ^ 1074 dvd double_units y"

text \<open>The magnitude of a finite double, in units of the least positive one.\<close>

definition magnitude :: "double \<Rightarrow> nat" where
  "magnitude y = (if raw_exponent y = 0 then significand y else (significand y + 2 ^ 52) * 2 ^ (raw_exponent y - 1))"

lemma double_units_magnitude: "double_units y = (if bit y 63 then - 1 else 1) * int (magnitude y)"
  by (simp add: double_units_def magnitude_def Let_def)

lemma magnitude_upper: "magnitude y < 2 ^ (52 + raw_exponent y)"
proof (cases "raw_exponent y")
  case (Suc n)
  then have "magnitude y < 2 ^ 53 * 2 ^ n" using field_bounds(1) [of y] by (simp add: magnitude_def)
  then show ?thesis using Suc by (simp add: power_add)
qed (use field_bounds(1) [of y] in \<open>simp add: magnitude_def\<close>)

lemma magnitude_lower: "0 < raw_exponent y \<Longrightarrow> 2 ^ (51 + raw_exponent y) \<le> magnitude y"
proof -
  assume "0 < raw_exponent y"
  then obtain n where "raw_exponent y = Suc n" by (cases "raw_exponent y") auto
  then show ?thesis by (simp add: magnitude_def power_add)
qed

lemma magnitude_less: "raw_exponent y < raw_exponent z \<Longrightarrow> magnitude y < magnitude z"
proof -
  assume less: "raw_exponent y < raw_exponent z"
  have "magnitude y < 2 ^ (52 + raw_exponent y)" by (rule magnitude_upper)
  also have "\<dots> \<le> 2 ^ (51 + raw_exponent z)" using less by (intro power_increasing) auto
  also have "\<dots> \<le> magnitude z" using less by (intro magnitude_lower) simp
  finally show ?thesis .
qed

lemma magnitude_inject: "magnitude y = magnitude z \<Longrightarrow> raw_exponent y = raw_exponent z \<and> significand y = significand z"
proof -
  assume eq: "magnitude y = magnitude z"
  then have "raw_exponent y = raw_exponent z" using magnitude_less [of y z] magnitude_less [of z y] by (metis linorder_neqE_nat nat_neq_iff)
  then show ?thesis using eq by (auto simp: magnitude_def split: if_splits)
qed

lemma double_zero_iff: "double_zero y \<longleftrightarrow> magnitude y = 0"
  by (auto simp: double_zero_def magnitude_def unat_eq_0)

lemma units_inject:
  assumes "double_units y = double_units z" and "\<not> double_zero y"
  shows "y = z"
proof -
  have "magnitude y = magnitude z" using assms(1) by (auto simp: double_units_magnitude split: if_splits)
  moreover from this have "bit y 63 = bit z 63"
    using assms by (auto simp: double_units_magnitude double_zero_iff split: if_splits)
  ultimately show ?thesis using magnitude_inject [of y z] by (intro double_eqI) auto
qed

lemma finite_cases: "isfinite y \<longleftrightarrow> \<not> isnan y \<and> y \<noteq> V8_INFINITY \<and> y \<noteq> minus_V8_INFINITY"
proof -
  have inf: "raw_exponent V8_INFINITY = 0x7FF" "significand V8_INFINITY = 0" "\<not> bit V8_INFINITY 63"
    "raw_exponent minus_V8_INFINITY = 0x7FF" "significand minus_V8_INFINITY = 0" "bit minus_V8_INFINITY 63"
    unfolding field_values by simp_all
  have "y = V8_INFINITY \<or> y = minus_V8_INFINITY" if "raw_exponent y = 0x7FF" "significand y = 0"
    using that inf double_eqI [of y V8_INFINITY] double_eqI [of y minus_V8_INFINITY] by (cases "bit y 63") auto
  then show ?thesis using inf by (auto simp: isfinite_def isnan_def unat_eq_0)
qed

lemma negative_units: "isfinite y \<Longrightarrow> double_negative y \<longleftrightarrow> double_units y < 0"
  by (auto simp: double_negative_def double_units_magnitude double_zero_iff isfinite_def isnan_def)

subsection \<open>Whole numbers\<close>

lemma cleared_bits: "k < 64 \<Longrightarrow> push_bit k (drop_bit k x) = x \<longleftrightarrow> 2 ^ k dvd unat x" for x :: "64 word"
proof -
  assume k: "k < 64"
  have "unat (push_bit k (drop_bit k x)) = unat x div 2 ^ k * 2 ^ k mod 2 ^ 64" using unat_push [of k "drop_bit k x"] unat_drop [of k x] by simp
  also have "\<dots> = unat x div 2 ^ k * 2 ^ k"
  proof (rule mod_less)
    have "unat x div 2 ^ k * 2 ^ k \<le> unat x" by (rule div_times_less_eq_dividend)
    moreover have "unat x < 2 ^ 64" using unsigned_less [of x] by simp
    ultimately show "unat x div 2 ^ k * 2 ^ k < 2 ^ 64" by (rule le_less_trans)
  qed
  finally have "push_bit k (drop_bit k x) = x \<longleftrightarrow> unat x div 2 ^ k * 2 ^ k = unat x" unfolding word_unat_eq_iff by simp
  then show ?thesis by (metis dvd_div_mult_self dvd_triv_right)
qed

lemma whole_iff: "is_whole y \<longleftrightarrow> 2 ^ 1074 dvd magnitude y"
proof -
  have "is_whole y \<longleftrightarrow> int (2 ^ 1074) dvd int (magnitude y)" unfolding is_whole_def double_units_magnitude of_nat_power of_nat_numeral by (cases "bit y 63") simp_all
  then show ?thesis unfolding of_nat_dvd_iff .
qed

lemma zero_words: "double_zero 0" "double_zero (push_bit 63 1)" by code_simp+

lemma DoubleToInteger_whole:
  assumes "isfinite y"
  shows "double_equal (DoubleToInteger y) y \<longleftrightarrow> is_whole y"
proof (cases "double_zero y")
  case True
  then show ?thesis using zero_words assms by (simp add: DoubleToInteger_def double_equal_def whole_iff double_zero_iff isnan_def isfinite_def)
next
  case False
  have nan: "\<not> isnan y" using assms by (simp add: isnan_def isfinite_def)
  have eq: "double_equal (DoubleToInteger y) y \<longleftrightarrow> double_trunc y = y"
    using assms False nan zero_words by (auto simp: DoubleToInteger_def double_equal_def Let_def)
  let ?e = "raw_exponent y"
  consider "?e < 0x3FF" | "0x3FF + 52 \<le> ?e" | "0x3FF \<le> ?e" "?e < 0x3FF + 52" by linarith
  then show ?thesis
  proof cases
    case 1
    have "double_zero (double_trunc y)" using 1 zero_words by (simp add: double_trunc_def)
    then have "double_trunc y \<noteq> y" using False by auto
    moreover have "magnitude y < 2 ^ 1074" using magnitude_upper [of y] 1 power_increasing [of "52 + ?e" 1074 "2 :: nat"] by (simp add: le_less_trans less_le_trans)
    then have "\<not> 2 ^ 1074 dvd magnitude y" using False unfolding double_zero_iff by (metis dvd_imp_le not_gr_zero not_less)
    ultimately show ?thesis unfolding eq whole_iff by blast
  next
    case 2
    have "double_trunc y = y" using 2 by (simp add: double_trunc_def)
    moreover have "1074 \<le> ?e - 1" "?e \<noteq> 0" using 2 by simp_all
    then have "2 ^ 1074 dvd magnitude y" unfolding magnitude_def if_not_P [OF \<open>?e \<noteq> 0\<close>] by (intro dvd_mult le_imp_power_dvd)
    ultimately show ?thesis unfolding eq whole_iff by blast
  next
    case 3
    define k where "k = 0x3FF + 52 - ?e"
    have k: "k \<le> 52" "k < 64" "?e - 1 + k = 1074" "?e \<noteq> 0" using 3 by (auto simp: k_def)
    have "double_trunc y = push_bit k (drop_bit k y)" using 3 by (simp add: double_trunc_def Let_def k_def)
    then have "double_trunc y = y \<longleftrightarrow> 2 ^ k dvd unat y" using cleared_bits [OF k(2)] by simp
    also have "\<dots> \<longleftrightarrow> 2 ^ k dvd significand y"
      unfolding field_values(1) by (rule dvd_mod_iff [OF le_imp_power_dvd [OF k(1)], symmetric])
    also have "\<dots> \<longleftrightarrow> 2 ^ k dvd significand y + 2 ^ 52" by (rule dvd_add_left_iff [OF le_imp_power_dvd [OF k(1)], symmetric])
    also have "\<dots> \<longleftrightarrow> 2 ^ (?e - 1) * 2 ^ k dvd 2 ^ (?e - 1) * (significand y + 2 ^ 52)" by simp
    also have "\<dots> \<longleftrightarrow> 2 ^ 1074 dvd magnitude y" unfolding power_add [symmetric] k(3) magnitude_def if_not_P [OF k(4)] by (simp only: mult.commute)
    finally show ?thesis unfolding eq whole_iff .
  qed
qed

subsection \<open>Cutting the mantissa\<close>

lemma align_mantissa_spec:
  assumes "align_mantissa t m = (hi, lo, bits)" and "unat m < 2 ^ 53" and "t < 64"
  shows "unat hi * 2 ^ 64 + unat lo = unat m * 2 ^ (t + 12)" and "bits \<le> 0 \<Longrightarrow> lo = 0"
proof -
  have "unat hi * 2 ^ 64 + unat lo = unat m * 2 ^ (t + 12) \<and> (bits \<le> 0 \<longrightarrow> lo = 0)"
  proof (cases "t < 52")
    case True
    then have f: "hi = drop_bit (52 - t) m" "lo = push_bit (12 + t) m" "bits = int (52 - t)"
      using assms(1) by (auto simp: align_mantissa_def Let_def)
    have "(2 :: nat) ^ 64 = 2 ^ (12 + t) * 2 ^ (52 - t)" using True unfolding power_add [symmetric] by simp
    then have d: "unat m * 2 ^ (12 + t) div 2 ^ 64 = unat m div 2 ^ (52 - t)"
      using div_mult_mult1 [of "2 ^ (12 + t)" "unat m" "2 ^ (52 - t)"] by (simp only: mult.commute) simp
    have "unat hi = unat m div 2 ^ (52 - t)" "unat lo = unat m * 2 ^ (12 + t) mod 2 ^ 64"
      unfolding f by (simp_all add: unat_drop unat_push)
    then have "unat hi * 2 ^ 64 + unat lo = unat m * 2 ^ (12 + t)" unfolding d [symmetric] by (simp only: div_mult_mod_eq)
    then show ?thesis using f(3) True unfolding add.commute [of t] by simp
  next
    case False
    then have f: "hi = push_bit (t - 52) m" "lo = 0" using assms(1) by (auto simp: align_mantissa_def Let_def)
    have "unat m * 2 ^ (t - 52) < 2 ^ 53 * 2 ^ (t - 52)" using assms(2) by simp
    also have "\<dots> = 2 ^ (t + 1)" using False unfolding power_add [symmetric] by simp
    also have "\<dots> \<le> 2 ^ 64" using assms(3) by (intro power_increasing) auto
    finally have "unat hi = unat m * 2 ^ (t - 52)" using f(1) by (simp add: unat_push)
    moreover have "(2 :: nat) ^ (t - 52) * 2 ^ 64 = 2 ^ (t + 12)" using False unfolding power_add [symmetric] by simp
    ultimately show ?thesis using f(2) unfolding mult.assoc by (simp only: mult.assoc) simp
  qed
  then show "unat hi * 2 ^ 64 + unat lo = unat m * 2 ^ (t + 12)" and "bits \<le> 0 \<Longrightarrow> lo = 0" by auto
qed

lemma align_bits: "align_mantissa t m = (hi, lo, bits) \<Longrightarrow> bits \<le> 52"
  by (auto simp: align_mantissa_def Let_def split: if_splits)

lemma fill_digits_eq:
  assumes "bits \<le> 64" and "bits \<le> 0 \<longrightarrow> lo = 0"
  shows "fill_digits n lo bits = (if n = 0 then [] else lo # replicate (n - 1) 0)"
proof -
  have zeros: "bits \<le> 0 \<Longrightarrow> fill_digits n 0 bits = replicate n 0" for n bits by (induction n) auto
  show ?thesis using assms zeros [of "bits - 64"] zeros [of bits] by (cases n) auto
qed

text \<open>The scale of the units: a whole double is \<open>v\<close> times \<open>2 ^ 1074\<close> of them.\<close>

lemma rescale: "M * 2 ^ (E + a) = V * 2 ^ (a + b) \<Longrightarrow> M * 2 ^ (E + c) = V * 2 ^ (b + c)" for M V :: nat
  by (simp add: power_add)

lemma whole_exponent:
  assumes "magnitude y = v * 2 ^ 1074" and "0 < v"
  shows "0x3FF \<le> raw_exponent y" and "(significand y + 2 ^ 52) * 2 ^ (raw_exponent y - 0x3FF + 12) = v * 2 ^ 64"
proof -
  have "1 * 2 ^ 1074 \<le> v * 2 ^ 1074" using assms(2) by (intro mult_right_mono) auto
  also have "\<dots> < 2 ^ (52 + raw_exponent y)" unfolding assms(1) [symmetric] by (rule magnitude_upper)
  finally have "(2 :: nat) ^ 1074 < 2 ^ (52 + raw_exponent y)" unfolding mult_1 .
  then have "1074 < 52 + raw_exponent y" by (rule power_less_imp_less_exp [rotated]) simp
  then show e: "0x3FF \<le> raw_exponent y" by simp
  have r: "raw_exponent y \<noteq> 0" "raw_exponent y - 1 = raw_exponent y - 0x3FF + 1022" "1022 + 52 = (1074 :: nat)" using e by simp_all
  have "(significand y + 2 ^ 52) * 2 ^ (raw_exponent y - 0x3FF + 1022) = v * 2 ^ (1022 + 52)"
    using assms(1) unfolding magnitude_def if_not_P [OF r(1)] r(2,3) .
  from rescale [OF this, of 12] show "(significand y + 2 ^ 52) * 2 ^ (raw_exponent y - 0x3FF + 12) = v * 2 ^ 64"
    by (simp only: numeral_plus_numeral add_num_simps)
qed

text \<open>The digits of the number \<open>(hi * 2 ^ 64 + lo) * 2 ^ (64 * n) / 2 ^ 64\<close>, if it is whole.\<close>

lemma aligned_digits:
  assumes "(unat hi * 2 ^ 64 + unat lo) * (2 ^ 64) ^ n = w * 2 ^ 64"
  shows "digits_value (rev (hi # (if n = 0 then [] else lo # replicate (n - 1) 0))) = w"
proof (cases n)
  case 0
  then have "unat hi * 2 ^ 64 + unat lo = w * 2 ^ 64" using assms by simp
  then have "w = (unat hi * 2 ^ 64 + unat lo) div 2 ^ 64" by simp
  also have "\<dots> = unat hi" using unsigned_less [of lo, where 'a = nat] by simp
  finally show ?thesis using 0 by simp
next
  case (Suc k)
  have "digits_value (rev (hi # lo # replicate k 0)) = (unat hi * 2 ^ 64 + unat lo) * (2 ^ 64) ^ k"
    by (simp add: value_append digit_base_def algebra_simps)
  moreover have "(unat hi * 2 ^ 64 + unat lo) * (2 ^ 64) ^ k * 2 ^ 64 = w * 2 ^ 64" using assms Suc by (simp add: mult_ac)
  ultimately show ?thesis using Suc by simp
qed

lemma whole_magnitude:
  assumes "double_units y = v * 2 ^ 1074"
  shows "magnitude y = nat \<bar>v\<bar> * 2 ^ 1074"
proof -
  have "int (magnitude y) = \<bar>double_units y\<bar>" by (simp add: double_units_magnitude)
  also have "\<dots> = int (nat \<bar>v\<bar> * 2 ^ 1074)" unfolding assms abs_mult by simp
  finally show ?thesis unfolding of_nat_eq_iff .
qed

lemma NewFromDouble_spec:
  assumes "isfinite y" and "double_units y = v * 2 ^ 1074"
  shows "bigint_wf (NewFromDouble y)" and "bigint_value (NewFromDouble y) = v"
proof -
  have "bigint_wf (NewFromDouble y) \<and> bigint_value (NewFromDouble y) = v"
  proof (cases "double_zero y")
    case True
    then have "double_units y = 0" by (simp add: double_units_magnitude double_zero_iff)
    then show ?thesis using assms(2) True by (simp add: NewFromDouble_def)
  next
    case False
    have m: "magnitude y = nat \<bar>v\<bar> * 2 ^ 1074" by (rule whole_magnitude [OF assms(2)])
    then have "0 < nat \<bar>v\<bar>" using False unfolding double_zero_iff by (cases "nat \<bar>v\<bar>") auto
    note e = whole_exponent [OF m this]
    define E where "E = raw_exponent y - 0x3FF"
    obtain hi lo bits where a: "align_mantissa (E mod 64) ((y AND kSignificandMask) OR kHiddenBit) = (hi, lo, bits)"
      using prod_cases3 by blast
    have M: "unat ((y AND kSignificandMask) OR kHiddenBit) < 2 ^ 53" unfolding hidden_bit using field_bounds(1) [of y] by simp
    note al = align_mantissa_spec [OF a M mod_less_divisor] and b = align_bits [OF a]
    have fill: "fill_digits (E div 64) lo bits = (if E div 64 = 0 then [] else lo # replicate (E div 64 - 1) 0)"
      using al(2) b by (intro fill_digits_eq) auto
    have "(unat hi * 2 ^ 64 + unat lo) * (2 ^ 64) ^ (E div 64) = (significand y + 2 ^ 52) * 2 ^ (E + 12)"
    proof -
      have "E + 12 = E mod 64 + 12 + 64 * (E div 64)" by simp
      then have "(2 :: nat) ^ (E + 12) = 2 ^ (E mod 64 + 12) * (2 ^ 64) ^ (E div 64)" by (metis power_add power_mult)
      then show ?thesis using al(1) unfolding hidden_bit by (simp add: mult_ac)
    qed
    then have "(unat hi * 2 ^ 64 + unat lo) * (2 ^ 64) ^ (E div 64) = nat \<bar>v\<bar> * 2 ^ 64" using e(2) unfolding E_def by simp
    note digits = aligned_digits [OF this]
    define z where "z = \<lparr> bigint_sign = double_negative y, bigint_digits = rev (hi # fill_digits (E div 64) lo bits) \<rparr>"
    have "NewFromDouble y = Canonicalize z"
      using False a unfolding NewFromDouble_def z_def E_def by (simp add: Let_def)
    moreover have "E div 64 < 2 ^ 11" using field_bounds(2) [of y] unfolding E_def by linarith
    then have "length (bigint_digits z) \<le> kMaxLength" unfolding z_def fill by auto
    moreover have "bigint_digits z \<noteq> []" by (simp add: z_def)
    moreover have "bigint_value z = v" using digits negative_units [OF assms(1)] unfolding z_def fill assms(2)
      by (auto simp: bigint_value_def signed_value_if mult_less_0_iff)
    ultimately show ?thesis using Canonicalize_spec [of z] by simp
  qed
  then show "bigint_wf (NewFromDouble y)" and "bigint_value (NewFromDouble y) = v" by auto
qed

section \<open>Comparison\<close>

text \<open>The order of two numbers of the same sign, by their magnitudes.\<close>

definition abs_order :: "bool \<Rightarrow> nat \<Rightarrow> nat \<Rightarrow> ComparisonResult" where
  "abs_order sign a b = (if a < b then AbsoluteLess sign else if a = b then kEqual else AbsoluteGreater sign)"

definition int_order :: "int \<Rightarrow> int \<Rightarrow> ComparisonResult" where
  "int_order a b = (if a < b then kLessThan else if a = b then kEqual else kGreaterThan)"

lemma abs_order_int: "abs_order sign a b = int_order ((if sign then - 1 else 1) * int a) ((if sign then - 1 else 1) * int b)"
  by (auto simp: abs_order_def int_order_def AbsoluteLess_def AbsoluteGreater_def)

lemma abs_order_scale: "0 < k \<Longrightarrow> abs_order sign (a * k) (b * k) = abs_order sign a b"
  by (simp add: abs_order_def)

lemma abs_order_digits:
  assumes "v < k" and "w < k"
  shows "abs_order sign (d * k + v) (e * k + w) =
    (if d > e then AbsoluteGreater sign else if d < e then AbsoluteLess sign else abs_order sign v w)"
proof (cases d e rule: linorder_cases)
  case less
  have "d * k + v < (d + 1) * k" using assms by simp
  also have "\<dots> \<le> e * k" using less by (intro mult_right_mono) auto
  finally show ?thesis using less by (simp add: abs_order_def)
next
  case greater
  have "e * k + w < (e + 1) * k" using assms by simp
  also have "\<dots> \<le> d * k" using greater by (intro mult_right_mono) auto
  finally show ?thesis using greater by (simp add: abs_order_def)
qed (simp add: abs_order_def)

lemma compare_digits_zero:
  "bits \<le> 0 \<Longrightarrow> compare_digits sign ds 0 bits = abs_order sign (digits_value (rev ds)) 0"
  by (induction ds) (auto simp: abs_order_def value_append word_gt_0 unat_eq_0)

lemma compare_digits_spec:
  assumes "bits \<le> 64" and "bits \<le> 0 \<longrightarrow> lo = 0"
  shows "compare_digits sign ds lo bits = abs_order sign (digits_value (rev ds) * digit_base) (unat lo * digit_base ^ length ds)"
proof (cases ds)
  case Nil
  then show ?thesis by (simp add: abs_order_def unat_gt_0)
next
  case (Cons d es)
  let ?k = "digit_base ^ length es" and ?v = "digits_value (rev es)"
  have v: "?v < ?k" using value_less [of "rev es"] by simp
  have "abs_order sign (digits_value (rev ds) * digit_base) (unat lo * digit_base ^ length ds) =
    abs_order sign (unat d * ?k + ?v) (unat lo * ?k + 0)"
    using abs_order_scale [of digit_base sign "unat d * ?k + ?v" "unat lo * ?k"]
    by (simp add: Cons value_append mult_ac add.commute)
  also have "\<dots> = (if unat d > unat lo then AbsoluteGreater sign else if unat d < unat lo then AbsoluteLess sign else abs_order sign ?v 0)"
    using v by (intro abs_order_digits) auto
  finally show ?thesis using assms compare_digits_zero [of "bits - 64" sign es] compare_digits_zero [of bits sign es]
    by (auto simp: Cons word_less_nat_alt)
qed

subsection \<open>The top of a BigInt\<close>

lemma top_bit:
  assumes "IsDigitNormalized X" and "X \<noteq> []"
  obtains t where "t < 64" "CountLeadingZeros (msd X) = 63 - t" "2 ^ t \<le> unat (msd X)" "unat (msd X) < 2 ^ (t + 1)"
    "Digits_BitLength X = 64 * (length X - 1) + t + 1"
proof -
  define z where "z = CountLeadingZeros (msd X)"
  have "msd X \<noteq> 0" using assms by (simp add: IsDigitNormalized_def)
  note c = CountLeadingZeros_spec [OF this, folded z_def]
  have t: "63 - z + z = 63" "63 - z + 1 + z = 64" using c(1) by simp_all
  have "2 ^ (63 - z) * 2 ^ z \<le> unat (msd X) * 2 ^ z" using c(2) unfolding power_add [symmetric] t(1) .
  moreover have "unat (msd X) * 2 ^ z < 2 ^ (63 - z + 1) * 2 ^ z"
    using c(3) unfolding power_add [symmetric] t(2) by (simp add: digit_base_def)
  moreover have "Digits_BitLength X = 64 * (length X - 1) + (63 - z) + 1"
    using c(1) assms(2) by (cases X) (auto simp: Digits_BitLength_def z_def)
  ultimately show ?thesis using c(1) by (intro that [of "63 - z"]) (auto simp: z_def [symmetric])
qed

lemma msd_value_split: "X \<noteq> [] \<Longrightarrow> digits_value X = unat (msd X) * digit_base ^ (length X - 1) + digits_value (take (length X - 1) X)"
  using value_append [of "take (length X - 1) X" "[msd X]"] take_Suc_conv_app_nth [of "length X - 1" X] by (simp add: msd_def)

lemma bit_length_lower:
  assumes "IsDigitNormalized X" and "X \<noteq> []"
  shows "2 ^ (Digits_BitLength X - 1) \<le> digits_value X"
proof -
  obtain t where t: "2 ^ t \<le> unat (msd X)" "Digits_BitLength X = 64 * (length X - 1) + t + 1" using top_bit [OF assms] by blast
  have "2 ^ (Digits_BitLength X - 1) = 2 ^ t * digit_base ^ (length X - 1)"
    unfolding t(2) by (simp add: power_add power_mult digit_base_def)
  also have "\<dots> \<le> unat (msd X) * digit_base ^ (length X - 1)" using t(1) by simp
  finally show ?thesis using msd_value_split [OF assms(2)] by simp
qed

subsection \<open>The comparison\<close>

lemma abs_order_rescale:
  "abs_order sign (V * 2 ^ (a + b)) (M * 2 ^ (E + a)) = abs_order sign (V * 2 ^ (b + c)) (M * 2 ^ (E + c))"
proof -
  have "abs_order sign (V * 2 ^ (a + b)) (M * 2 ^ (E + a)) = abs_order sign (V * 2 ^ b) (M * 2 ^ E)"
    using abs_order_scale [of "2 ^ a" sign "V * 2 ^ b" "M * 2 ^ E"] by (simp add: power_add mult_ac)
  then show ?thesis using abs_order_scale [of "2 ^ c" sign "V * 2 ^ b" "M * 2 ^ E"] by (simp add: power_add mult_ac)
qed

lemma magnitude_exponent:
  assumes "0x3FF \<le> raw_exponent y"
  shows "magnitude y = (significand y + 2 ^ 52) * 2 ^ (raw_exponent y - 0x3FF + 1022)"
proof -
  have r: "raw_exponent y \<noteq> 0" "raw_exponent y - 1 = raw_exponent y - 0x3FF + 1022" using assms by simp_all
  then show ?thesis unfolding magnitude_def if_not_P [OF r(1)] r(2) by simp
qed

text \<open>Both have the same bit length, so that the mantissa is aligned with the top digit.\<close>

lemma compare_aligned:
  assumes "IsDigitNormalized X" and "X \<noteq> []" and "0x3FF \<le> raw_exponent y" and "Digits_BitLength X = raw_exponent y - 0x3FF + 1"
    and "align_mantissa (63 - CountLeadingZeros (msd X)) ((y AND kSignificandMask) OR kHiddenBit) = (hi, lo, bits)"
  shows "abs_order sign (digits_value X * 2 ^ 1074) (magnitude y) =
    (if msd X > hi then AbsoluteGreater sign else if msd X < hi then AbsoluteLess sign
     else compare_digits sign (rev (take (length X - 1) X)) lo bits)"
proof -
  obtain t where t: "t < 64" "CountLeadingZeros (msd X) = 63 - t" "Digits_BitLength X = 64 * (length X - 1) + t + 1"
    using top_bit [OF assms(1,2)] by blast
  have tt: "63 - CountLeadingZeros (msd X) = t" using t by simp
  let ?n = "length X - 1" and ?E = "raw_exponent y - 0x3FF" and ?M = "significand y + 2 ^ 52"
  let ?low = "take ?n X"
  have E: "?E = 64 * ?n + t" using t(3) assms(4) by simp
  have M: "unat ((y AND kSignificandMask) OR kHiddenBit) < 2 ^ 53" unfolding hidden_bit using field_bounds(1) [of y] by simp
  note al = align_mantissa_spec [OF assms(5) [unfolded tt] M t(1), unfolded hidden_bit] and b = align_bits [OF assms(5)]
  have n: "1022 + 52 = (1074 :: nat)" "52 + 12 = (64 :: nat)" by simp_all
  have "?E + 12 = t + 12 + 64 * ?n" using E by simp
  then have "(2 :: nat) ^ (?E + 12) = 2 ^ (t + 12) * digit_base ^ ?n" by (simp only: power_add power_mult digit_base_def)
  then have "?M * 2 ^ (?E + 12) = ?M * 2 ^ (t + 12) * digit_base ^ ?n" by (simp only: mult.assoc)
  also have "\<dots> = unat hi * digit_base ^ (?n + 1) + unat lo * digit_base ^ ?n"
    unfolding al(1) [symmetric] by (simp add: digit_base_def algebra_simps)
  finally have R: "?M * 2 ^ (?E + 12) = unat hi * digit_base ^ (?n + 1) + unat lo * digit_base ^ ?n" .
  have L: "digits_value X * 2 ^ 64 = unat (msd X) * digit_base ^ (?n + 1) + digits_value ?low * digit_base"
    unfolding msd_value_split [OF assms(2)] by (simp add: digit_base_def algebra_simps)
  have "abs_order sign (digits_value X * 2 ^ 1074) (magnitude y) = abs_order sign (digits_value X * 2 ^ 64) (?M * 2 ^ (?E + 12))"
    using abs_order_rescale [of sign "digits_value X" 1022 52 ?M ?E 12] unfolding n magnitude_exponent [OF assms(3)] .
  also have "\<dots> = (if unat (msd X) > unat hi then AbsoluteGreater sign else if unat (msd X) < unat hi then AbsoluteLess sign
      else abs_order sign (digits_value ?low * digit_base) (unat lo * digit_base ^ ?n))"
    unfolding L R
  proof (rule abs_order_digits)
    show "digits_value ?low * digit_base < digit_base ^ (?n + 1)" using value_less [of ?low] by (simp add: digit_base_def)
    show "unat lo * digit_base ^ ?n < digit_base ^ (?n + 1)" using unat_digit [of lo] by (simp add: digit_base_def)
  qed
  also have "abs_order sign (digits_value ?low * digit_base) (unat lo * digit_base ^ ?n) =
      compare_digits sign (rev ?low) lo bits"
    using compare_digits_spec [of bits lo sign "rev ?low"] al(2) b by simp
  finally show ?thesis by (simp add: word_less_nat_alt)
qed

lemma compare_lengths:
  assumes "IsDigitNormalized X" and "X \<noteq> []" and "0x3FF \<le> raw_exponent y"
  shows "Digits_BitLength X < raw_exponent y - 0x3FF + 1 \<Longrightarrow> digits_value X * 2 ^ 1074 < magnitude y"
    and "raw_exponent y - 0x3FF + 1 < Digits_BitLength X \<Longrightarrow> magnitude y < digits_value X * 2 ^ 1074"
proof -
  let ?l = "Digits_BitLength X"
  { assume "?l < raw_exponent y - 0x3FF + 1"
    then have "?l + 1074 \<le> 51 + raw_exponent y" using assms(3) by simp
    have "digits_value X * 2 ^ 1074 < 2 ^ ?l * 2 ^ 1074" using bit_length_bound [OF assms(1,2)] by (rule mult_strict_right_mono) simp
    also have "\<dots> = 2 ^ (?l + 1074)" by (rule power_add [symmetric])
    also have "\<dots> \<le> 2 ^ (51 + raw_exponent y)" using \<open>?l + 1074 \<le> _\<close> by (rule power_increasing) simp
    also have "\<dots> \<le> magnitude y" using assms(3) by (intro magnitude_lower) simp
    finally show "digits_value X * 2 ^ 1074 < magnitude y" . }
  { assume "raw_exponent y - 0x3FF + 1 < ?l"
    then have "52 + raw_exponent y \<le> ?l - 1 + 1074" using assms(3) by simp
    have "magnitude y < 2 ^ (52 + raw_exponent y)" by (rule magnitude_upper)
    also have "\<dots> \<le> 2 ^ (?l - 1 + 1074)" using \<open>_ \<le> ?l - 1 + 1074\<close> by (rule power_increasing) simp
    also have "\<dots> = 2 ^ (?l - 1) * 2 ^ 1074" by (rule power_add)
    also have "\<dots> \<le> digits_value X * 2 ^ 1074" using bit_length_lower [OF assms(1,2)] by (rule mult_right_mono) simp
    finally show "magnitude y < digits_value X * 2 ^ 1074" . }
qed

lemma CompareToDouble_spec:
  assumes "bigint_wf x" and "isfinite y"
  shows "CompareToDouble x y = int_order (bigint_value x * 2 ^ 1074) (double_units y)"
proof (cases "bigint_sign x = double_negative y")
  case False
  have s: "\<not> isnan y" "y \<noteq> V8_INFINITY" "y \<noteq> minus_V8_INFINITY" using assms(2) finite_cases by auto
  note neg = negative_units [OF assms(2)] value_negative [OF assms(1)]
  have "bigint_value x * 2 ^ 1074 < 0 \<longleftrightarrow> bigint_sign x" using neg(2) by (simp add: mult_less_0_iff)
  then show ?thesis using False neg(1) s by (auto simp: CompareToDouble_def Let_def UnequalSign_def int_order_def)
next
  case True
  let ?X = "bigint_digits x" and ?sign = "bigint_sign x"
  have s: "\<not> isnan y" "y \<noteq> V8_INFINITY" "y \<noteq> minus_V8_INFINITY" using assms(2) finite_cases by auto
  have N: "IsDigitNormalized ?X" using assms(1) by (simp add: bigint_wf_def)
  have units: "double_units y = (if ?sign then - 1 else 1) * int (magnitude y)"
    using negative_units [OF assms(2)] True by (auto simp: double_units_magnitude split: if_splits)
  have v: "bigint_value x * 2 ^ 1074 = (if ?sign then - 1 else 1) * int (digits_value ?X * 2 ^ 1074)"
    by (simp add: bigint_value_def signed_value_if)
  have order: "int_order (bigint_value x * 2 ^ 1074) (double_units y) = abs_order ?sign (digits_value ?X * 2 ^ 1074) (magnitude y)"
    unfolding abs_order_int units v ..
  consider (zero) "double_zero y" | (empty) "\<not> double_zero y" "is_zero x"
    | (small) "\<not> double_zero y" "\<not> is_zero x" "raw_exponent y < 0x3FF" | (large) "\<not> double_zero y" "\<not> is_zero x" "0x3FF \<le> raw_exponent y"
    by linarith
  then show ?thesis
  proof cases
    case zero
    then have "\<not> ?sign" using True by (simp add: double_negative_def)
    moreover have "is_zero x \<longleftrightarrow> digits_value ?X = 0" using wf_nonzero(2) [OF assms(1)] by (cases "is_zero x") auto
    ultimately show ?thesis unfolding order using zero True s
      by (auto simp: CompareToDouble_def Let_def abs_order_def double_zero_iff AbsoluteGreater_def)
  next
    case empty
    then have "\<not> ?sign" using assms(1) by (auto simp: bigint_wf_def)
    then show ?thesis unfolding order using empty True s
      by (auto simp: CompareToDouble_def Let_def abs_order_def double_zero_iff AbsoluteLess_def)
  next
    case small
    have "magnitude y < 2 ^ (52 + raw_exponent y)" by (rule magnitude_upper)
    also have "\<dots> \<le> 2 ^ 1074" using small(3) by (intro power_increasing) auto
    also have "\<dots> \<le> digits_value ?X * 2 ^ 1074" using wf_nonzero(2) [OF assms(1)] small(2) by simp
    finally show ?thesis unfolding order using small True s by (simp add: CompareToDouble_def Let_def abs_order_def)
  next
    case large
    have C: "CompareToDouble x y = abs_order ?sign (digits_value ?X * 2 ^ 1074) (magnitude y)"
    proof -
      let ?m = "(y AND kSignificandMask) OR kHiddenBit" and ?l = "Digits_BitLength ?X" and ?e = "raw_exponent y - 0x3FF + 1"
      have e: "int (raw_exponent y) - 0x3FF + 1 = int ?e" "\<not> int (raw_exponent y) - 0x3FF < 0" using large(3) by auto
      have l: "length ?X * 64 - CountLeadingZeros (?X ! (length ?X - 1)) = ?l" by (simp add: Digits_BitLength_def msd_def)
      obtain hi lo bits where a: "align_mantissa (63 - CountLeadingZeros (msd ?X)) ?m = (hi, lo, bits)" using prod_cases3 by blast
      have "CompareToDouble x y = (if ?l < ?e then AbsoluteLess ?sign else if ?l > ?e then AbsoluteGreater ?sign
        else if msd ?X > hi then AbsoluteGreater ?sign else if msd ?X < hi then AbsoluteLess ?sign
        else compare_digits ?sign (rev (take (length ?X - 1) ?X)) lo bits)"
        using s True large(1,2) e(2) a [unfolded msd_def] unfolding CompareToDouble_def Let_def l msd_def e(1) of_nat_less_iff
        by (simp cong: if_cong)
      then show ?thesis using compare_lengths [OF N _ large(3)] compare_aligned [OF N _ large(3) _ a] large(2)
        by (cases ?l ?e rule: linorder_cases) (auto simp: abs_order_def)
    qed
    show ?thesis unfolding order C ..
  qed
qed

section \<open>Rounding\<close>

text \<open>How a remainder \<open>R\<close> of \<open>L\<close> bits is rounded.\<close>

definition rounding_of :: "nat \<Rightarrow> nat \<Rightarrow> Rounding" where
  "rounding_of R L = (if 2 * R < 2 ^ L then kRoundDown else if 2 * R = 2 ^ L then kTie else kRoundUp)"

lemma single_bit_zero: "q < 64 \<Longrightarrow> d AND push_bit q 1 = 0 \<longleftrightarrow> \<not> bit d q" for d :: digit
proof -
  assume q: "q < 64"
  have "d AND push_bit q 1 = 0 \<longleftrightarrow> (\<forall>n. \<not> bit (d AND push_bit q 1) n)" using bit_eq_iff by force
  also have "\<dots> \<longleftrightarrow> \<not> bit d q" using q by (auto simp: bit_simps)
  finally show ?thesis .
qed

lemma low_bits_zero: "q < 64 \<Longrightarrow> d AND (push_bit q 1 - 1) = 0 \<longleftrightarrow> unat d mod 2 ^ q = 0" for d :: digit
proof -
  have "push_bit q 1 - 1 = (mask q :: digit)" by (simp add: mask_eq_exp_minus_1 push_bit_eq_mult)
  then show ?thesis using unat_and_mask_numeral [of d q] by (metis unat_eq_0)
qed

lemma bit_mod: "unat d mod 2 ^ Suc q = (if bit d q then 2 ^ q else 0) + unat d mod 2 ^ q" if "q < 64" for d :: digit
proof -
  have "bit d q \<longleftrightarrow> bit (unat d) q" using that by (simp add: bit_unsigned_iff)
  then show ?thesis using take_bit_Suc_from_most [of q "unat d"] by (auto simp: take_bit_eq_mod)
qed

lemma decide_bits_spec:
  assumes "q < 64" and "j \<le> length X"
  shows "decide_bits X q j c = rounding_of (unat c mod 2 ^ Suc q * digit_base ^ j + digits_value (take j X)) (Suc q + 64 * j)"
proof -
  let ?T = "digits_value (take j X)" and ?k = "digit_base ^ j" and ?r = "unat c mod 2 ^ q"
  have T: "?T < ?k" using value_less [of "take j X"] assms(2) by simp
  have P: "(2 :: nat) ^ (Suc q + 64 * j) = 2 * (2 ^ q * ?k)" by (simp add: power_add power_mult digit_base_def)
  have ex: "list_ex (\<lambda>d. d \<noteq> 0) (take j X) \<longleftrightarrow> ?T \<noteq> 0"
    using value_zero_iff [of "take j X"] by simp
  note unfolded = decide_bits_def Let_def single_bit_zero [OF assms(1)] low_bits_zero [OF assms(1)] ex rounding_of_def P bit_mod [OF assms(1)]
  show ?thesis
  proof (cases "bit c q")
    case False
    have "?r * ?k + ?T < (?r + 1) * ?k" using T by simp
    also have "\<dots> \<le> 2 ^ q * ?k" by (intro mult_right_mono) (simp_all add: Suc_leI)
    finally show ?thesis using False unfolding unfolded by simp
  next
    case True
    have "0 < ?k" by (simp add: digit_base_def)
    then show ?thesis using True unfolding unfolded by (auto simp: algebra_simps)
  qed
qed

lemma DecideRounding_spec:
  assumes "s < 64" and "j \<le> length X"
  shows "DecideRounding X (- int s) j c = rounding_of (unat c mod 2 ^ s * digit_base ^ j + digits_value (take j X)) (s + 64 * j)"
proof (cases s)
  case (Suc q)
  then show ?thesis using decide_bits_spec [of q j X c] assms by (simp add: DecideRounding_def)
next
  case 0
  show ?thesis
  proof (cases j)
    case 0
    then show ?thesis using \<open>s = 0\<close> by (simp add: DecideRounding_def rounding_of_def)
  next
    case (Suc i)
    have "take j X = take i X @ [X ! i]" using Suc assms(2) by (simp add: take_Suc_conv_app_nth)
    then have T: "digits_value (take j X) = unat (X ! i) * digit_base ^ i + digits_value (take i X)"
      using Suc assms(2) by (simp add: value_append mult.commute)
    have "unat (X ! i) mod 2 ^ Suc 63 = unat (X ! i)" using unsigned_less [of "X ! i", where 'a = nat] by simp
    then show ?thesis using decide_bits_spec [of 63 i X "X ! i"] Suc assms(2) \<open>s = 0\<close> T
      by (simp add: DecideRounding_def)
  qed
qed

subsection \<open>Collecting the mantissa\<close>

lemma top_fraction:
  fixes d :: digit
  assumes "t < 64" and "2 ^ t \<le> unat d" and "unat d < 2 ^ (t + 1)"
  defines "m \<equiv> drop_bit 12 (if 64 - t = 64 then 0 else push_bit (64 - t) d)"
  shows "52 \<le> t \<Longrightarrow> unat m + 2 ^ 52 = unat d div 2 ^ (t - 52)"
    and "t < 52 \<Longrightarrow> unat m = (unat d - 2 ^ t) * 2 ^ (52 - t)"
proof -
  define r where "r = unat d - 2 ^ t"
  have d: "unat d = 2 ^ t + r" and r: "r < 2 ^ t" using assms(2,3) by (auto simp: r_def)
  have full: "(2 :: nat) ^ t * 2 ^ (64 - t) = 2 ^ 64" using assms(1) unfolding power_add [symmetric] by simp
  have "unat m = r * 2 ^ (64 - t) div 2 ^ 12"
  proof (cases "t = 0")
    case True
    then show ?thesis using r by (simp add: m_def)
  next
    case False
    have "r * 2 ^ (64 - t) < 2 ^ t * 2 ^ (64 - t)" using r by simp
    then have "r * 2 ^ (64 - t) < 2 ^ 64" unfolding full .
    then have "unat d * 2 ^ (64 - t) mod 2 ^ 64 = r * 2 ^ (64 - t)"
      unfolding d distrib_right full by (simp only: mod_add_self1 mod_less)
    then show ?thesis using False by (simp add: m_def unat_drop unat_push)
  qed
  note m = this
  { assume t: "52 \<le> t"
    have a: "(2 :: nat) ^ 12 = 2 ^ (64 - t) * 2 ^ (t - 52)" and b: "(2 :: nat) ^ t = 2 ^ 52 * 2 ^ (t - 52)"
      using t assms(1) unfolding power_add [symmetric] by simp_all
    have "unat m = r div 2 ^ (t - 52)" unfolding m a mult.commute [of r] by (rule div_mult_mult1) simp
    moreover have "unat d div 2 ^ (t - 52) = 2 ^ 52 + r div 2 ^ (t - 52)" unfolding d b by (rule div_mult_self3) simp
    ultimately show "unat m + 2 ^ 52 = unat d div 2 ^ (t - 52)" by (simp only: add.commute) }
  { assume t: "t < 52"
    have "(2 :: nat) ^ (64 - t) = 2 ^ (52 - t) * 2 ^ 12" using t unfolding power_add [symmetric] by simp
    then show "unat m = (unat d - 2 ^ t) * 2 ^ (52 - t)" unfolding m r_def [symmetric] by (simp only: mult.assoc [symmetric]) simp }
qed

text \<open>Either all of a short number is in the mantissa, or \<open>s\<close> bits of the digit \<open>c\<close> and the \<open>j\<close> digits below it are not.\<close>

lemma collect_mantissa_spec:
  assumes "IsDigitNormalized X" and "X \<noteq> []" and "collect_mantissa X = (m, unset, j, c)"
  shows "Digits_BitLength X < 53 \<Longrightarrow> unat m + 2 ^ 52 = digits_value X * 2 ^ (53 - Digits_BitLength X) \<and> unset > 0"
    and "53 \<le> Digits_BitLength X \<Longrightarrow> \<exists>s K. s < 64 \<and> j < length X \<and> unset = - int s \<and> Digits_BitLength X = 53 + s + 64 * j \<and>
      unat m + 2 ^ 52 = K div 2 ^ s \<and> unat c mod 2 ^ s = K mod 2 ^ s \<and> digits_value X = K * digit_base ^ j + digits_value (take j X)"
proof -
  obtain t where t: "t < 64" "CountLeadingZeros (msd X) = 63 - t" "2 ^ t \<le> unat (msd X)" "unat (msd X) < 2 ^ (t + 1)"
    "Digits_BitLength X = 64 * (length X - 1) + t + 1" using top_bit [OF assms(1,2)] by blast
  have shift: "CountLeadingZeros (X ! (length X - 1)) + 1 = 64 - t" using t(1,2) by (simp add: msd_def)
  let ?m = "drop_bit 12 (if 64 - t = 64 then 0 else push_bit (64 - t) (msd X))"
  let ?d = "X ! (length X - 2)"
  note f = top_fraction [OF t(1,3,4)]
  have "int (64 - t) - 12 = 52 - int t" "nat (12 + int t) = t + 12" using t(1) by simp_all
  then have C: "collect_mantissa X = (if t < 52 \<and> 1 < length X
      then (?m OR drop_bit (t + 12) ?d, - int (t + 12), length X - 2, ?d) else (?m, 52 - int t, length X - 1, msd X))"
    using t(1) unfolding collect_mantissa_def Let_def shift by (auto simp: msd_def nat_diff_distrib numeral_2_eq_2)
  show "unat m + 2 ^ 52 = digits_value X * 2 ^ (53 - Digits_BitLength X) \<and> unset > 0" if "Digits_BitLength X < 53"
  proof -
    have "length X - 1 = 0" and l: "t < 52" using that t(5) by linarith+
    then have "length X = 1" using assms(2) by (cases X) auto
    then have "digits_value X = unat (msd X)" by (cases X) (auto simp: msd_def)
    moreover have "2 ^ t * 2 ^ (52 - t) = (2 :: nat) ^ 52" using l unfolding power_add [symmetric] by simp
    moreover have "(unat (msd X) - 2 ^ t) * 2 ^ (52 - t) + 2 ^ t * 2 ^ (52 - t) = unat (msd X) * 2 ^ (52 - t)"
      using t(3) unfolding distrib_right [symmetric] by simp
    ultimately show ?thesis using C l \<open>length X = 1\<close> t(5) f(2) [OF l] assms(3) by auto
  qed
  show "\<exists>s K. s < 64 \<and> j < length X \<and> unset = - int s \<and> Digits_BitLength X = 53 + s + 64 * j \<and>
      unat m + 2 ^ 52 = K div 2 ^ s \<and> unat c mod 2 ^ s = K mod 2 ^ s \<and> digits_value X = K * digit_base ^ j + digits_value (take j X)"
    if "53 \<le> Digits_BitLength X"
  proof (cases "52 \<le> t")
    case True
    then have "m = ?m" "unset = - int (t - 52)" "j = length X - 1" "c = msd X" using C assms(3) by auto
    then show ?thesis using f(1) [OF True] t(1,5) True msd_value_split [OF assms(2)] assms(2)
      by (intro exI [of _ "t - 52"] exI [of _ "unat (msd X)"]) (auto simp: Suc_le_eq)
  next
    case False
    then have l: "t < 52" "1 < length X" using that t(5) by (simp, cases "length X - 1") auto
    then have e: "m = ?m OR drop_bit (t + 12) ?d" "unset = - int (t + 12)" "j = length X - 2" "c = ?d" using C assms(3) by auto
    have B: "digit_base = 2 ^ (52 - t) * 2 ^ (t + 12)" using l(1) unfolding digit_base_def power_add [symmetric] by simp
    have q: "unat ?d div 2 ^ (t + 12) < 2 ^ (52 - t)" using unat_digit [of ?d] unfolding B by (rule less_mult_imp_div_less)
    have "2 ^ t * 2 ^ (52 - t) = (2 :: nat) ^ 52" using l(1) unfolding power_add [symmetric] by simp
    then have M: "unat ?m + 2 ^ 52 = unat (msd X) * 2 ^ (52 - t)" using t(3) f(2) [OF l(1)] by (metis distrib_right le_add_diff_inverse2)
    have m: "unat m = unat ?m + unat ?d div 2 ^ (t + 12)"
      using or_add [of "52 - t" ?m "drop_bit (t + 12) ?d"] q f(2) [OF l(1)] by (simp add: e(1) unat_drop)
    let ?K = "unat (msd X) * digit_base + unat ?d"
    have K: "?K div 2 ^ (t + 12) = unat (msd X) * 2 ^ (52 - t) + unat ?d div 2 ^ (t + 12)" "?K mod 2 ^ (t + 12) = unat ?d mod 2 ^ (t + 12)"
      unfolding B mult.assoc [symmetric] by (simp_all only: div_mult_self3 mod_mult_self3 power_not_zero zero_neq_numeral not_False_eq_True)
    show ?thesis
    proof (intro exI conjI)
      show "t + 12 < 64" "j < length X" "unset = - int (t + 12)" "Digits_BitLength X = 53 + (t + 12) + 64 * j"
        using l e(2,3) t(5) by simp_all
      show "unat m + 2 ^ 52 = ?K div 2 ^ (t + 12)" unfolding K m using M by linarith
      show "unat c mod 2 ^ (t + 12) = ?K mod 2 ^ (t + 12)" unfolding K e(4) ..
      have n: "length X - 1 = Suc j" using l(2) e(3) by simp
      then have "take (length X - 1) X = take j X @ [?d]" using e(3) l(2) take_Suc_conv_app_nth [of j X] by simp
      then show "digits_value X = ?K * digit_base ^ j + digits_value (take j X)"
        using msd_value_split [OF assms(2)] n e(3) l(2) by (simp add: value_append algebra_simps)
    qed
  qed
qed

lemma collected:
  assumes "IsDigitNormalized X" and "X \<noteq> []" and "collect_mantissa X = (m, unset, j, c)"
  defines "V \<equiv> digits_value X" and "l \<equiv> Digits_BitLength X"
  shows "l < 53 \<Longrightarrow> unat m + 2 ^ 52 = V * 2 ^ (53 - l) \<and> DecideRounding X unset j c = kRoundDown"
    and "53 \<le> l \<Longrightarrow> unat m + 2 ^ 52 = V div 2 ^ (l - 53) \<and> DecideRounding X unset j c = rounding_of (V mod 2 ^ (l - 53)) (l - 53)"
    and "unat m < 2 ^ 52"
proof -
  note C = collect_mantissa_spec [OF assms(1-3), folded V_def l_def]
  show small: "unat m + 2 ^ 52 = V * 2 ^ (53 - l) \<and> DecideRounding X unset j c = kRoundDown" if "l < 53"
    using C(1) [OF that] by (simp add: DecideRounding_def)
  show large: "unat m + 2 ^ 52 = V div 2 ^ (l - 53) \<and> DecideRounding X unset j c = rounding_of (V mod 2 ^ (l - 53)) (l - 53)" if l53: "53 \<le> l"
  proof -
    obtain s K where K: "s < 64" "j < length X" "unset = - int s" "l = 53 + s + 64 * j" "unat m + 2 ^ 52 = K div 2 ^ s"
      "unat c mod 2 ^ s = K mod 2 ^ s" "V = K * digit_base ^ j + digits_value (take j X)"
      using C(2) [OF l53] by blast
    let ?k = "digit_base ^ j" and ?T = "digits_value (take j X)"
    let ?R = "K mod 2 ^ s * ?k + ?T"
    have L: "l - 53 = s + 64 * j" using K(4) by simp
    have P: "(2 :: nat) ^ (s + 64 * j) = 2 ^ s * ?k" by (simp add: power_add power_mult digit_base_def)
    have "?T < ?k" using value_less [of "take j X"] K(2) by simp
    then have "?R < (K mod 2 ^ s + 1) * ?k" by simp
    also have "\<dots> \<le> 2 ^ s * ?k" by (intro mult_right_mono) (simp_all add: Suc_leI)
    finally have R: "?R < 2 ^ s * ?k" .
    have "K * ?k = K div 2 ^ s * (2 ^ s * ?k) + K mod 2 ^ s * ?k"
      unfolding mult.assoc [symmetric] distrib_right [symmetric] div_mult_mod_eq ..
    then have "V = K div 2 ^ s * (2 ^ s * ?k) + ?R" unfolding K(7) by (simp only: add.assoc)
    then have "V div (2 ^ s * ?k) = K div 2 ^ s" "V mod (2 ^ s * ?k) = ?R"
      using R by (metis div_mult_self3 div_less add_0_right mult_eq_0_iff not_less0, metis mod_mult_self3 mod_less)
    then show ?thesis using DecideRounding_spec [OF K(1), of j X c] K(2,3,5,6) unfolding L P by simp
  qed
  have V: "V < 2 ^ l" unfolding V_def l_def by (rule bit_length_bound [OF assms(1,2)])
  have "unat m + 2 ^ 52 < 2 ^ 53"
  proof (cases "l < 53")
    case True
    have "V * 2 ^ (53 - l) < 2 ^ l * 2 ^ (53 - l)" using V by simp
    also have "\<dots> = 2 ^ 53" using True unfolding power_add [symmetric] by simp
    finally show ?thesis using small [OF True] by simp
  next
    case False
    then have "(2 :: nat) ^ l = 2 ^ 53 * 2 ^ (l - 53)" unfolding power_add [symmetric] by simp
    then have "V div 2 ^ (l - 53) < 2 ^ 53" using V by (intro less_mult_imp_div_less) simp
    then show ?thesis using large False by simp
  qed
  then show "unat m < 2 ^ 52" by simp
qed

subsection \<open>Assembling the result\<close>

lemma assemble_fields:
  assumes "unat m < 2 ^ 52" and "e < 2 ^ 10"
  shows "raw_exponent (assemble_double sign e m) = e + 0x3FF" and "significand (assemble_double sign e m) = unat m"
    and "bit (assemble_double sign e m) 63 = sign" and "isfinite (assemble_double sign e m)"
proof -
  have e: "e + 0x3FF < 2 ^ 11" using assms(2) by simp
  let ?e = "push_bit 52 (of_nat (e + 0x3FF)) :: 64 word" and ?s = "(if sign then push_bit 63 1 else 0) :: 64 word"
  have n: "n < 2 ^ 64 \<Longrightarrow> unat (of_nat n :: 64 word) = n" for n by (simp add: unat_of_nat)
  have u: "unat (of_nat (e + 0x3FF) :: 64 word) = e + 0x3FF" by (rule n, rule less_trans [OF e]) simp
  have "unat ?e = (e + 0x3FF) * 2 ^ 52 mod 2 ^ 64" unfolding unat_push u by simp
  also have "\<dots> = (e + 0x3FF) * 2 ^ 52" using e by (intro mod_less) simp
  finally have E: "unat ?e = (e + 0x3FF) * 2 ^ 52" .
  have S: "unat ?s = (if sign then 2 ^ 63 else 0)" by (simp add: unat_bit)
  have "unat (?e OR m) = (e + 0x3FF) * 2 ^ 52 + unat m" using or_add [of 52 ?e m] assms(1) unfolding E by simp
  moreover have "(e + 0x3FF) * 2 ^ 52 + unat m < 2 ^ 63" using e assms(1) by simp
  ultimately have "unat (?s OR (?e OR m)) = (if sign then 2 ^ 63 else 0) + ((e + 0x3FF) * 2 ^ 52 + unat m)"
    using or_add [of 63 ?s "?e OR m"] unfolding S by auto
  then have A: "unat (assemble_double sign e m) = (if sign then 2 ^ 63 else 0) + ((e + 0x3FF) * 2 ^ 52 + unat m)"
    unfolding assemble_double_def by (simp only: or.assoc)
  have A': "unat (assemble_double sign e m) = ((if sign then 1 else 0) * 2 ^ 11 + (e + 0x3FF)) * 2 ^ 52 + unat m" unfolding A by simp
  have fields: "m < b \<Longrightarrow> ((a * c + x) * b + m) div b = a * c + x" "m < b \<Longrightarrow> ((a * c + x) * b + m) mod b = m" for a b c x m :: nat by simp_all
  show raw: "raw_exponent (assemble_double sign e m) = e + 0x3FF"
    unfolding field_values A' fields(1) [OF assms(1)] mod_mult_self3 using e by simp
  show "significand (assemble_double sign e m) = unat m" unfolding field_values A' fields(2) [OF assms(1)] ..
  show "bit (assemble_double sign e m) 63 = sign" unfolding field_values A using e assms(1) by auto
  show "isfinite (assemble_double sign e m)" using assms(2) unfolding isfinite_def raw by simp
qed

lemma assemble_magnitude:
  assumes "unat m < 2 ^ 52" and "1 \<le> l" and "l \<le> 1024"
  shows "magnitude (assemble_double sign (l - 1) m) = (unat m + 2 ^ 52) * 2 ^ (l + 1021)"
proof -
  have e: "l - 1 < 2 ^ 10" "l - 1 + 0x3FF \<noteq> 0" "l - 1 + 0x3FF - 1 = l + 1021" using assms(2,3) by simp_all
  note f = assemble_fields [OF assms(1) e(1), of sign]
  show ?thesis unfolding magnitude_def f(1,2) if_not_P [OF e(2)] e(3) ..
qed

text \<open>A number of \<open>l\<close> bits rounded to 53 of them, ties to even.\<close>

definition goes_up :: "nat \<Rightarrow> nat \<Rightarrow> bool" where
  "goes_up V L \<longleftrightarrow> 2 ^ L < 2 * (V mod 2 ^ L) \<or> 2 * (V mod 2 ^ L) = 2 ^ L \<and> odd (V div 2 ^ L)"

definition rounded :: "nat \<Rightarrow> nat \<Rightarrow> nat" where
  "rounded V l = (if l < 53 then V else (V div 2 ^ (l - 53) + of_bool (goes_up V (l - 53))) * 2 ^ (l - 53))"

lemma odd_mantissa: "m AND 1 = 1 \<longleftrightarrow> odd (unat m)" for m :: "64 word"
proof -
  have "m AND 1 = (if odd m then 1 else 0)" by (simp add: and_one_eq odd_iff_mod_2_eq_one)
  moreover have "odd m \<longleftrightarrow> odd (unat m)" using bit_unsigned_iff [of m 0, where 'a = nat] by (simp add: bit_0)
  ultimately show ?thesis by simp
qed

text \<open>The decision and the new mantissa in terms of the quotient and the remainder.\<close>

lemma ToDouble_cases:
  assumes "bigint_wf x" and "\<not> is_zero x"
  defines "V \<equiv> digits_value (bigint_digits x)" and "l \<equiv> Digits_BitLength (bigint_digits x)" and "sign \<equiv> bigint_sign x"
  assumes "l \<le> 1024"
  obtains m where "unat m < 2 ^ 52"
    "l < 53 \<Longrightarrow> unat m + 2 ^ 52 = V * 2 ^ (53 - l) \<and> ToDouble x = assemble_double sign (l - 1) m"
    "53 \<le> l \<Longrightarrow> unat m + 2 ^ 52 = V div 2 ^ (l - 53) \<and>
      ToDouble x = (if \<not> goes_up V (l - 53) then assemble_double sign (l - 1) m
        else if unat m + 1 < 2 ^ 52 then assemble_double sign (l - 1) (m + 1)
        else if l = 1024 then if sign then minus_V8_INFINITY else V8_INFINITY
        else assemble_double sign l 0)"
proof -
  let ?X = "bigint_digits x"
  have N: "IsDigitNormalized ?X" "?X \<noteq> []" using assms(1,2) by (auto simp: bigint_wf_def)
  obtain m unset j c where C: "collect_mantissa ?X = (m, unset, j, c)" using prod_cases4 by blast
  note c = collected [OF N C, folded V_def l_def]
  let ?r = "DecideRounding ?X unset j c"
  have l: "1 \<le> l" using top_bit [OF N] unfolding l_def by (metis le_add2)
  have m1: "unat (m + 1) = unat m + 1" using c(3) by (subst unat_word_ariths) simp
  have carry: "drop_bit 52 (m + 1) \<noteq> 0 \<longleftrightarrow> \<not> unat m + 1 < 2 ^ 52"
    using c(3) m1 unat_drop [of 52 "m + 1"] by (simp add: unat_eq_0 [symmetric] div_eq_0_iff del: unat_eq_0)
  have bl: "length ?X * kDigitBits - CountLeadingZeros (?X ! (length ?X - 1)) = l" by (simp add: l_def Digits_BitLength_def msd_def)
  have T: "ToDouble x = (if \<not> (?r = kRoundUp \<or> ?r = kTie \<and> m AND 1 = 1) then assemble_double sign (l - 1) m
        else if unat m + 1 < 2 ^ 52 then assemble_double sign (l - 1) (m + 1)
        else if l = 1024 then if sign then minus_V8_INFINITY else V8_INFINITY
        else assemble_double sign l 0)"
    using assms(2,6) l C carry unfolding ToDouble_def Let_def bl sign_def by auto
  show ?thesis
  proof (rule that [of m])
    show "unat m < 2 ^ 52" by (rule c(3))
    show "unat m + 2 ^ 52 = V * 2 ^ (53 - l) \<and> ToDouble x = assemble_double sign (l - 1) m" if "l < 53"
      using c(1) [OF that] T by simp
    show "unat m + 2 ^ 52 = V div 2 ^ (l - 53) \<and>
      ToDouble x = (if \<not> goes_up V (l - 53) then assemble_double sign (l - 1) m
        else if unat m + 1 < 2 ^ 52 then assemble_double sign (l - 1) (m + 1)
        else if l = 1024 then if sign then minus_V8_INFINITY else V8_INFINITY
        else assemble_double sign l 0)" if "53 \<le> l"
    proof -
      have "odd (unat m) \<longleftrightarrow> odd (V div 2 ^ (l - 53))" unfolding conjunct1 [OF c(2) [OF that], symmetric] by simp
      then have "?r = kRoundUp \<or> ?r = kTie \<and> m AND 1 = 1 \<longleftrightarrow> goes_up V (l - 53)"
        using c(2) [OF that] unfolding odd_mantissa goes_up_def by (auto simp: rounding_of_def)
      then show ?thesis using c(2) [OF that] T by simp
    qed
  qed
qed

lemma assembled:
  assumes "unat m < 2 ^ 52" and "1 \<le> l" and "l \<le> 1024" and "(unat m + 2 ^ 52) * 2 ^ (l + 1021) = W * 2 ^ 1074"
  shows "isfinite (assemble_double sign (l - 1) m)" and "bit (assemble_double sign (l - 1) m) 63 = sign"
    and "magnitude (assemble_double sign (l - 1) m) = W * 2 ^ 1074" and "significand (assemble_double sign (l - 1) m) = unat m"
    and "W < 2 ^ 1024"
proof -
  have e: "l - 1 < 2 ^ 10" using assms(2,3) by simp
  note f = assemble_fields [OF assms(1) e, of sign]
  show "isfinite (assemble_double sign (l - 1) m)" "bit (assemble_double sign (l - 1) m) 63 = sign"
    "significand (assemble_double sign (l - 1) m) = unat m" by (rule f)+
  show "magnitude (assemble_double sign (l - 1) m) = W * 2 ^ 1074" unfolding assemble_magnitude [OF assms(1-3)] by (rule assms(4))
  have "W * 2 ^ 1074 < 2 ^ 53 * 2 ^ (l + 1021)" unfolding assms(4) [symmetric] using assms(1) by (intro mult_strict_right_mono) auto
  also have "\<dots> = 2 ^ (53 + (l + 1021))" by (rule power_add [symmetric])
  also have "\<dots> \<le> 2 ^ (1024 + 1074)" using assms(3) by (intro power_increasing) auto
  also have "\<dots> = 2 ^ 1024 * 2 ^ 1074" by (rule power_add)
  finally show "W < 2 ^ 1024" unfolding mult_less_cancel2 by (rule conjunct2)
qed

lemma scale_equations:
  fixes q :: nat
  shows "l < 53 \<Longrightarrow> q * 2 ^ (53 - l) * 2 ^ (l + 1021) = q * 2 ^ 1074"
    and "53 \<le> l \<Longrightarrow> q * 2 ^ (l + 1021) = q * 2 ^ (l - 53) * 2 ^ 1074"
    and "53 \<le> l \<Longrightarrow> 2 ^ 53 * 2 ^ (l - 53) = (2 :: nat) ^ l"
    and "2 ^ 52 * 2 ^ (Suc l + 1021) = 2 ^ l * (2 :: nat) ^ 1074"
proof -
  have e: "l < 53 \<Longrightarrow> 53 - l + (l + 1021) = 1074" "53 \<le> l \<Longrightarrow> l - 53 + 1074 = l + 1021" "53 \<le> l \<Longrightarrow> 53 + (l - 53) = l"
    "52 + (Suc l + 1021) = l + 1074" by simp_all
  show "l < 53 \<Longrightarrow> q * 2 ^ (53 - l) * 2 ^ (l + 1021) = q * 2 ^ 1074"
    and "53 \<le> l \<Longrightarrow> q * 2 ^ (l + 1021) = q * 2 ^ (l - 53) * 2 ^ 1074"
    and "53 \<le> l \<Longrightarrow> 2 ^ 53 * 2 ^ (l - 53) = (2 :: nat) ^ l"
    and "2 ^ 52 * 2 ^ (Suc l + 1021) = 2 ^ l * (2 :: nat) ^ 1074"
    unfolding mult.assoc power_add [symmetric] by (simp_all only: e)
qed

definition rounds_to :: "bool \<Rightarrow> nat \<Rightarrow> nat \<Rightarrow> double \<Rightarrow> bool" where
  "rounds_to sign V l d \<longleftrightarrow>
     (if rounded V l < 2 ^ 1024
      then isfinite d \<and> bit d 63 = sign \<and> magnitude d = rounded V l * 2 ^ 1074 \<and>
        (53 \<le> l \<and> 2 * (V mod 2 ^ (l - 53)) = 2 ^ (l - 53) \<longrightarrow> even (significand d))
      else d = (if sign then minus_V8_INFINITY else V8_INFINITY))"

lemma rounds_toI:
  assumes "unat m < 2 ^ 52" and "1 \<le> l'" and "l' \<le> 1024" and "(unat m + 2 ^ 52) * 2 ^ (l' + 1021) = rounded V l * 2 ^ 1074"
    and "53 \<le> l \<and> 2 * (V mod 2 ^ (l - 53)) = 2 ^ (l - 53) \<longrightarrow> even (unat m)"
  shows "rounds_to sign V l (assemble_double sign (l' - 1) m)"
  unfolding rounds_to_def if_P [OF assembled(5) [OF assms(1-4)]] using assembled(1-4) [OF assms(1-4), of sign] assms(5) by (simp only:)

lemma rounds_large:
  assumes m: "unat m < 2 ^ 52" and l: "53 \<le> l" "l \<le> 1024" and q: "unat m + 2 ^ 52 = V div 2 ^ (l - 53)"
    and d: "d = (if \<not> goes_up V (l - 53) then assemble_double sign (l - 1) m
        else if unat m + 1 < 2 ^ 52 then assemble_double sign (l - 1) (m + 1)
        else if l = 1024 then if sign then minus_V8_INFINITY else V8_INFINITY
        else assemble_double sign l 0)"
  shows "rounds_to sign V l d"
proof -
  have l1: "1 \<le> l" using l(1) by simp
  have r: "rounded V l = (unat m + 2 ^ 52 + of_bool (goes_up V (l - 53))) * 2 ^ (l - 53)"
    using l(1) unfolding q by (simp add: rounded_def)
  have par: "odd (V div 2 ^ (l - 53)) \<longleftrightarrow> odd (unat m)" unfolding q [symmetric] by simp
  have m1: "unat (m + 1) = unat m + 1" using m by (subst unat_word_ariths) simp
  consider "\<not> goes_up V (l - 53)" | "goes_up V (l - 53)" "unat m + 1 < 2 ^ 52" | "goes_up V (l - 53)" "unat m + 1 = 2 ^ 52" using m by linarith
  then show ?thesis
  proof cases
    case 1
    then have "d = assemble_double sign (l - 1) m" using d by simp
    moreover have "rounds_to sign V l (assemble_double sign (l - 1) m)"
    proof (rule rounds_toI [OF m l1 l(2)])
      show "(unat m + 2 ^ 52) * 2 ^ (l + 1021) = rounded V l * 2 ^ 1074"
        unfolding scale_equations(2) [OF l(1)] r using 1 by (simp only: of_bool_eq add_0_right)
    qed (use 1 par in \<open>auto simp: goes_up_def\<close>)
    ultimately show ?thesis by simp
  next
    case 2
    then have "d = assemble_double sign (l - 1) (m + 1)" using d by simp
    moreover have "rounds_to sign V l (assemble_double sign (l - 1) (m + 1))"
    proof (rule rounds_toI [OF _ l1 l(2)])
      show "(unat (m + 1) + 2 ^ 52) * 2 ^ (l + 1021) = rounded V l * 2 ^ 1074"
        unfolding scale_equations(2) [OF l(1)] r m1 using 2 by (simp only: of_bool_eq) (simp only: ac_simps)
    qed (use 2 par m1 in \<open>auto simp: goes_up_def\<close>)
    ultimately show ?thesis by simp
  next
    case 3
    have "unat m + 2 ^ 52 + of_bool (goes_up V (l - 53)) = 2 ^ 53" using 3 by simp
    then have R: "rounded V l = 2 ^ l" unfolding r using scale_equations(3) [OF l(1)] by (simp only:)
    show ?thesis
    proof (cases "l = 1024")
      case True
      then have "\<not> rounded V l < 2 ^ 1024" unfolding R by (simp only: less_irrefl not_False_eq_True)
      then show ?thesis using d 3 True unfolding rounds_to_def by (simp only: if_False) simp
    next
      case False
      then have "d = assemble_double sign (Suc l - 1) 0" using d 3 by simp
      moreover have "rounds_to sign V l (assemble_double sign (Suc l - 1) 0)"
      proof (rule rounds_toI)
        show "(unat (0 :: 64 word) + 2 ^ 52) * 2 ^ (Suc l + 1021) = rounded V l * 2 ^ 1074"
          unfolding R unsigned_0 add_0_left by (rule scale_equations(4))
      qed (use False l in auto)
      ultimately show ?thesis by simp
    qed
  qed
qed

lemma rounded_lower:
  assumes "53 \<le> l" and "2 ^ (l - 1) \<le> V"
  shows "2 ^ (l - 1) \<le> rounded V l"
proof -
  have P: "2 ^ 52 * 2 ^ (l - 53) = (2 :: nat) ^ (l - 1)" using assms(1) unfolding power_add [symmetric] by simp
  then have "2 ^ 52 \<le> V div 2 ^ (l - 53)" using assms(2) by (metis div_le_mono nonzero_mult_div_cancel_right power_not_zero zero_neq_numeral)
  then have "2 ^ 52 * 2 ^ (l - 53) \<le> V div 2 ^ (l - 53) * 2 ^ (l - 53)" by (rule mult_right_mono) simp
  also have "\<dots> \<le> rounded V l" using assms(1) by (simp add: rounded_def)
  finally show ?thesis unfolding P .
qed

lemma ToDouble_rounds:
  assumes "bigint_wf x" and "\<not> is_zero x"
  shows "rounds_to (bigint_sign x) (digits_value (bigint_digits x)) (Digits_BitLength (bigint_digits x)) (ToDouble x)"
proof -
  define V l sign where "V = digits_value (bigint_digits x)" and "l = Digits_BitLength (bigint_digits x)" and "sign = bigint_sign x"
  have N: "IsDigitNormalized (bigint_digits x)" "bigint_digits x \<noteq> []" using assms by (auto simp: bigint_wf_def)
  have V: "2 ^ (l - 1) \<le> V" unfolding V_def l_def by (rule bit_length_lower [OF N])
  have l1: "1 \<le> l" using top_bit [OF N] unfolding l_def by (metis le_add2)
  have "rounds_to sign V l (ToDouble x)"
  proof (cases "l \<le> 1024")
    case False
    have "(2 :: nat) ^ 1024 \<le> 2 ^ (l - 1)" using False by (intro power_increasing) auto
    also have "\<dots> \<le> rounded V l" using False V by (intro rounded_lower) auto
    finally have "2 ^ 1024 \<le> rounded V l" .
    then have "\<not> rounded V l < 2 ^ 1024" by (simp only: not_less)
    then show ?thesis using assms(2) False unfolding rounds_to_def sign_def l_def by (simp only: if_False) (simp add: ToDouble_def Let_def Digits_BitLength_def msd_def)
  next
    case True
    show ?thesis
    proof (rule ToDouble_cases [OF assms, folded V_def l_def sign_def, OF True], cases "l < 53")
      fix m
      assume m: "unat m < 2 ^ 52" and l: "l < 53"
        and "l < 53 \<Longrightarrow> unat m + 2 ^ 52 = V * 2 ^ (53 - l) \<and> ToDouble x = assemble_double sign (l - 1) m"
      then have e: "unat m + 2 ^ 52 = V * 2 ^ (53 - l)" "ToDouble x = assemble_double sign (l - 1) m" by auto
      show ?thesis unfolding e(2)
      proof (rule rounds_toI [OF m l1 True])
        show "(unat m + 2 ^ 52) * 2 ^ (l + 1021) = rounded V l * 2 ^ 1074" using l unfolding e(1) scale_equations(1) [OF l] by (simp only: rounded_def if_True)
      qed (use l in simp)
    next
      fix m
      assume m: "unat m < 2 ^ 52" and "\<not> l < 53"
        and hyp: "53 \<le> l \<Longrightarrow> unat m + 2 ^ 52 = V div 2 ^ (l - 53) \<and>
          ToDouble x = (if \<not> goes_up V (l - 53) then assemble_double sign (l - 1) m
            else if unat m + 1 < 2 ^ 52 then assemble_double sign (l - 1) (m + 1)
            else if l = 1024 then if sign then minus_V8_INFINITY else V8_INFINITY
            else assemble_double sign l 0)"
      then have l: "53 \<le> l" by simp
      from hyp [OF l] show ?thesis by (intro rounds_large [OF m l True]) auto
    qed
  qed
  then show ?thesis unfolding V_def l_def sign_def .
qed

section \<open>The nearest double\<close>

lemma grid_nearest:
  fixes V g k :: int
  assumes "0 < g" and up: "if up then g \<le> 2 * (V mod g) else 2 * (V mod g) \<le> g"
  defines "R \<equiv> (V div g + of_bool up) * g"
  shows "\<bar>R - V\<bar> \<le> \<bar>k * g - V\<bar>" and "\<bar>R - V\<bar> = \<bar>k * g - V\<bar> \<Longrightarrow> R \<noteq> k * g \<Longrightarrow> 2 * (V mod g) = g"
proof -
  define q r where "q = V div g" and "r = V mod g"
  have V: "V = q * g + r" "0 \<le> r" "r < g" using assms(1) by (simp_all add: q_def r_def)
  have R: "R - V = (if up then g - r else - r)" unfolding R_def q_def [symmetric] unfolding V(1) by (simp add: algebra_simps)
  consider "k < q" | "k = q" | "k = q + 1" | "q + 1 < k" by linarith
  then have "\<bar>R - V\<bar> \<le> \<bar>k * g - V\<bar> \<and> (\<bar>R - V\<bar> = \<bar>k * g - V\<bar> \<longrightarrow> R \<noteq> k * g \<longrightarrow> 2 * r = g)"
  proof cases
    case 1
    then have "(k + 1) * g \<le> q * g" using assms(1) by (intro mult_right_mono) auto
    then have "k * g - V \<le> - g - r" unfolding V(1) by (simp add: algebra_simps)
    then show ?thesis using V(2,3) R up unfolding r_def [symmetric] by (cases up) auto
  next
    case 4
    then have "(q + 2) * g \<le> k * g" using assms(1) by (intro mult_right_mono) auto
    then have "2 * g - r \<le> k * g - V" unfolding V(1) by (simp add: algebra_simps)
    then show ?thesis using V(2,3) R up unfolding r_def [symmetric] by (cases up) auto
  next
    case 2
    then have "k * g - V = - r" "up \<or> R = k * g" unfolding R_def q_def [symmetric] unfolding V(1) by auto
    then show ?thesis using V(2,3) R up unfolding r_def [symmetric] by (cases up) auto
  next
    case 3
    then have "k * g - V = g - r" "\<not> up \<or> R = k * g" unfolding R_def q_def [symmetric] unfolding V(1) by (auto simp: algebra_simps)
    then show ?thesis using V(2,3) R up unfolding r_def [symmetric] by (cases up) auto
  qed
  then show "\<bar>R - V\<bar> \<le> \<bar>k * g - V\<bar>" and "\<bar>R - V\<bar> = \<bar>k * g - V\<bar> \<Longrightarrow> R \<noteq> k * g \<Longrightarrow> 2 * (V mod g) = g"
    unfolding r_def by auto
qed

text \<open>From \<open>2 ^ (l - 1)\<close> on, the doubles are multiples of \<open>2 ^ (l - 53)\<close>.\<close>

lemma doubles_on_grid:
  assumes "53 \<le> l" and "2 ^ (l - 1) * 2 ^ 1074 \<le> magnitude e"
  obtains k where "magnitude e = k * 2 ^ (l - 53) * 2 ^ 1074"
proof -
  have "2 ^ (l - 1 + 1074) < (2 :: nat) ^ (52 + raw_exponent e)" using magnitude_upper [of e] assms(2) unfolding power_add by (rule le_less_trans [rotated])
  then have "l - 1 + 1074 < 52 + raw_exponent e" by (rule power_less_imp_less_exp [rotated]) simp
  then have r: "raw_exponent e \<noteq> 0" "raw_exponent e - 1 = raw_exponent e - (l + 1022) + (l - 53) + 1074" using assms(1) by auto
  have "magnitude e = (significand e + 2 ^ 52) * 2 ^ (raw_exponent e - (l + 1022)) * 2 ^ (l - 53) * 2 ^ 1074"
    unfolding magnitude_def if_not_P [OF r(1)] r(2) power_add by (simp only: mult.assoc)
  then show ?thesis by (rule that)
qed

lemma rounded_grid:
  assumes "53 \<le> l"
  defines "g \<equiv> (2 :: int) ^ (l - 53)"
  shows "\<bar>int (rounded V l) - int V\<bar> \<le> \<bar>k * g - int V\<bar>"
    and "\<bar>int (rounded V l) - int V\<bar> = \<bar>k * g - int V\<bar> \<Longrightarrow> int (rounded V l) \<noteq> k * g \<Longrightarrow> 2 * (V mod 2 ^ (l - 53)) = 2 ^ (l - 53)"
proof -
  let ?up = "goes_up V (l - 53)"
  have g: "0 < g" by (simp add: g_def)
  have r: "int V mod g = int (V mod 2 ^ (l - 53))" "g = int (2 ^ (l - 53))" unfolding g_def by (simp_all add: zmod_int)
  have "int (rounded V l) = (int V div g + of_bool ?up) * g"
    using assms(1) unfolding g_def by (simp add: rounded_def zdiv_int)
  moreover have "if ?up then g \<le> 2 * (int V mod g) else 2 * (int V mod g) \<le> g"
    unfolding r(1) unfolding r(2) goes_up_def by (split if_split) linarith
  note near = grid_nearest [OF g this, of k]
  ultimately show "\<bar>int (rounded V l) - int V\<bar> \<le> \<bar>k * g - int V\<bar>" using near(1) by (simp only:)
  assume "\<bar>int (rounded V l) - int V\<bar> = \<bar>k * g - int V\<bar>" and "int (rounded V l) \<noteq> k * g"
  then have "2 * (int V mod g) = g" using \<open>int (rounded V l) = _\<close> by (intro near(2)) (simp_all only: not_False_eq_True)
  then show "2 * (V mod 2 ^ (l - 53)) = 2 ^ (l - 53)" unfolding r(1) unfolding r(2) by linarith
qed

lemma rounded_nearest:
  fixes E :: int and K :: int
  assumes "0 < K" and "2 ^ (l - 1) \<le> V"
    and grid: "53 \<le> l \<Longrightarrow> 2 ^ (l - 1) * K \<le> E \<Longrightarrow> \<exists>k. E = k * 2 ^ (l - 53) * K"
  shows "\<bar>int (rounded V l) * K - int V * K\<bar> \<le> \<bar>E - int V * K\<bar>"
    and "\<bar>int (rounded V l) * K - int V * K\<bar> = \<bar>E - int V * K\<bar> \<Longrightarrow> int (rounded V l) * K \<noteq> E \<Longrightarrow>
      53 \<le> l \<and> 2 * (V mod 2 ^ (l - 53)) = 2 ^ (l - 53)"
proof -
  let ?R = "int (rounded V l)" and ?V = "int V"
  have scale: "\<bar>a * K - b * K\<bar> = \<bar>a - b\<bar> * K" for a b using assms(1) by (simp add: left_diff_distrib [symmetric] abs_mult)
  consider "l < 53" | "53 \<le> l" "2 ^ (l - 1) * K \<le> E" | "53 \<le> l" "E < 2 ^ (l - 1) * K" by linarith
  then have "\<bar>?R * K - ?V * K\<bar> \<le> \<bar>E - ?V * K\<bar> \<and>
    (\<bar>?R * K - ?V * K\<bar> = \<bar>E - ?V * K\<bar> \<longrightarrow> ?R * K \<noteq> E \<longrightarrow> 53 \<le> l \<and> 2 * (V mod 2 ^ (l - 53)) = 2 ^ (l - 53))"
  proof cases
    case 1
    then show ?thesis by (simp add: rounded_def)
  next
    case 2
    then obtain k where k: "E = k * 2 ^ (l - 53) * K" using grid by blast
    note near = rounded_grid [OF 2(1), of V k]
    show ?thesis unfolding k scale using assms(1) near 2(1) by auto
  next
    case 3
    have "52 + (l - 53) = l - 1" using 3(1) by simp
    then have P: "2 ^ 52 * 2 ^ (l - 53) = (2 :: int) ^ (l - 1)" unfolding power_add [symmetric] by (simp only:)
    have "\<bar>?R - ?V\<bar> * K \<le> \<bar>2 ^ (l - 1) - ?V\<bar> * K" using rounded_grid(1) [OF 3(1), of V "2 ^ 52"] assms(1) unfolding P by (intro mult_right_mono) auto
    also have "\<bar>2 ^ (l - 1) - ?V\<bar> * K = ?V * K - 2 ^ (l - 1) * K"
    proof -
      have "(2 :: int) ^ (l - 1) \<le> ?V" using assms(2) by (metis of_nat_le_iff of_nat_numeral of_nat_power)
      then show ?thesis by (simp add: left_diff_distrib)
    qed
    finally have "\<bar>?R - ?V\<bar> * K \<le> ?V * K - 2 ^ (l - 1) * K" .
    then show ?thesis unfolding scale using 3(2) by linarith
  qed
  then show "\<bar>?R * K - ?V * K\<bar> \<le> \<bar>E - ?V * K\<bar>"
    and "\<bar>?R * K - ?V * K\<bar> = \<bar>E - ?V * K\<bar> \<Longrightarrow> ?R * K \<noteq> E \<Longrightarrow> 53 \<le> l \<and> 2 * (V mod 2 ^ (l - 53)) = 2 ^ (l - 53)" by blast+
qed

lemma overflow_limit:
  fixes V h :: nat
  assumes "0 < h" and "V < 2 ^ 53 * (2 * h)"
  shows "V div (2 * h) + of_bool (2 * h < 2 * (V mod (2 * h)) \<or> 2 * (V mod (2 * h)) = 2 * h \<and> odd (V div (2 * h))) < 2 ^ 53 \<longleftrightarrow>
    V + h < 2 ^ 53 * (2 * h)"
proof -
  define q r where "q = V div (2 * h)" and "r = V mod (2 * h)"
  have V: "V = q * (2 * h) + r" "r < 2 * h" using assms(1) unfolding q_def r_def by (simp_all only: div_mult_mod_eq) simp
  have q: "q < 2 ^ 53" unfolding q_def by (rule less_mult_imp_div_less [OF assms(2)])
  show ?thesis unfolding q_def [symmetric] r_def [symmetric]
  proof (cases "q = 2 ^ 53 - 1")
    case True
    then show "q + of_bool (2 * h < 2 * r \<or> 2 * r = 2 * h \<and> odd q) < 2 ^ 53 \<longleftrightarrow> V + h < 2 ^ 53 * (2 * h)" unfolding V(1) True by auto
  next
    case False
    then have "(q + 2) * (2 * h) \<le> 2 ^ 53 * (2 * h)" using q by (intro mult_right_mono) auto
    moreover have "q + of_bool (2 * h < 2 * r \<or> 2 * r = 2 * h \<and> odd q) < 2 ^ 53" using False q by (auto split: if_splits)
    ultimately show "q + of_bool (2 * h < 2 * r \<or> 2 * r = 2 * h \<and> odd q) < 2 ^ 53 \<longleftrightarrow> V + h < 2 ^ 53 * (2 * h)"
      using V(2) unfolding V(1) add_mult_distrib by linarith
  qed
qed

lemma rounded_upper:
  assumes "V < 2 ^ l"
  shows "rounded V l \<le> 2 ^ l"
proof (cases "l < 53")
  case False
  then have l: "2 ^ 53 * 2 ^ (l - 53) = (2 :: nat) ^ l" by (intro scale_equations(3)) simp
  then have "V div 2 ^ (l - 53) < 2 ^ 53" using assms by (intro less_mult_imp_div_less) simp
  then have "V div 2 ^ (l - 53) + of_bool (goes_up V (l - 53)) \<le> 2 ^ 53" by (auto simp: of_bool_def)
  then have "(V div 2 ^ (l - 53) + of_bool (goes_up V (l - 53))) * 2 ^ (l - 53) \<le> 2 ^ 53 * 2 ^ (l - 53)" by (rule mult_right_mono) simp
  then show ?thesis using False unfolding l by (simp add: rounded_def)
qed (use assms in \<open>simp add: rounded_def\<close>)

lemma rounded_finite:
  assumes "2 ^ (l - 1) \<le> V" and "V < 2 ^ l"
  shows "rounded V l < 2 ^ 1024 \<longleftrightarrow> V + 2 ^ 970 < 2 ^ 1024"
proof -
  consider "l \<le> 1023" | "l = 1024" | "1025 \<le> l" by linarith
  then show ?thesis
  proof cases
    case 1
    have p: "2 ^ l \<le> (2 :: nat) ^ 1023" "(2 :: nat) ^ 970 < 2 ^ 1023" using 1 by (intro power_increasing power_strict_increasing; simp)+
    moreover have "(2 :: nat) ^ 1024 = 2 ^ 1023 + 2 ^ 1023" using power_Suc [of "2 :: nat" 1023] by (simp only: mult_2) simp
    ultimately show ?thesis using rounded_upper [OF assms(2)] assms(2) by linarith
  next
    case 2
    have L: "l - 53 = 971" "(2 :: nat) ^ 971 = 2 * 2 ^ 970" "(2 :: nat) ^ 1024 = 2 ^ 53 * 2 ^ 971" using 2 power_Suc [of "2 :: nat" 970] power_add [of "2 :: nat" 53 971] by simp_all
    have V: "V < 2 ^ 53 * (2 * 2 ^ 970)" using assms(2) unfolding 2 L .
    have "rounded V l = (V div 2 ^ 971 + of_bool (goes_up V 971)) * 2 ^ 971" using 2 unfolding rounded_def by (simp only: L(1)) simp
    then have "rounded V l < 2 ^ 1024 \<longleftrightarrow> V div 2 ^ 971 + of_bool (goes_up V 971) < 2 ^ 53" unfolding L(3) mult_less_cancel2 by simp
    then show ?thesis using overflow_limit [OF _ V] unfolding L(3) goes_up_def L(2) by (simp only: zero_less_power zero_less_numeral)
  next
    case 3
    have "(2 :: nat) ^ 1024 \<le> 2 ^ (l - 1)" using 3 by (intro power_increasing) auto
    moreover have "2 ^ (l - 1) \<le> rounded V l" using 3 assms(1) by (intro rounded_lower) auto
    ultimately show ?thesis using assms(1) by linarith
  qed
qed

lemma ToDouble_zero: "isfinite (0 :: double)" "double_units 0 = 0"
  by (simp_all add: isfinite_def double_units_def raw_exponent_def)

lemma infinity_units: "\<not> isfinite V8_INFINITY" "\<not> isfinite minus_V8_INFINITY"
  by (simp_all add: finite_cases)

lemma rounds_to_finite:
  assumes "rounds_to sign V l d"
  shows "isfinite d \<longleftrightarrow> rounded V l < 2 ^ 1024" and "\<not> isfinite d \<Longrightarrow> d = (if sign then minus_V8_INFINITY else V8_INFINITY)"
    and "isfinite d \<Longrightarrow> bit d 63 = sign" and "isfinite d \<Longrightarrow> magnitude d = rounded V l * 2 ^ 1074"
    and "isfinite d \<Longrightarrow> 53 \<le> l \<and> 2 * (V mod 2 ^ (l - 53)) = 2 ^ (l - 53) \<longrightarrow> even (significand d)"
proof -
  have inf: "\<not> isfinite (if sign then minus_V8_INFINITY else V8_INFINITY)" using infinity_units by simp
  have "isfinite d \<and> rounded V l < 2 ^ 1024 \<and> bit d 63 = sign \<and> magnitude d = rounded V l * 2 ^ 1074 \<and>
      (53 \<le> l \<and> 2 * (V mod 2 ^ (l - 53)) = 2 ^ (l - 53) \<longrightarrow> even (significand d)) \<or>
    \<not> isfinite d \<and> \<not> rounded V l < 2 ^ 1024 \<and> d = (if sign then minus_V8_INFINITY else V8_INFINITY)"
  proof (cases "rounded V l < 2 ^ 1024")
    case True
    then show ?thesis using assms unfolding rounds_to_def if_P [OF True] by blast
  next
    case False
    then show ?thesis using assms inf unfolding rounds_to_def if_not_P [OF False] by blast
  qed
  then show "isfinite d \<longleftrightarrow> rounded V l < 2 ^ 1024" and "\<not> isfinite d \<Longrightarrow> d = (if sign then minus_V8_INFINITY else V8_INFINITY)"
    and "isfinite d \<Longrightarrow> bit d 63 = sign" and "isfinite d \<Longrightarrow> magnitude d = rounded V l * 2 ^ 1074"
    and "isfinite d \<Longrightarrow> 53 \<le> l \<and> 2 * (V mod 2 ^ (l - 53)) = 2 ^ (l - 53) \<longrightarrow> even (significand d)" by blast+
qed

lemma ToDouble_finite:
  assumes "bigint_wf x"
  shows "isfinite (ToDouble x) \<longleftrightarrow> \<bar>bigint_value x\<bar> + 2 ^ 970 < 2 ^ 1024"
    and "\<not> isfinite (ToDouble x) \<Longrightarrow> ToDouble x = (if bigint_value x < 0 then minus_V8_INFINITY else V8_INFINITY)"
proof -
  let ?X = "bigint_digits x"
  have "isfinite (ToDouble x) = (\<bar>bigint_value x\<bar> + 2 ^ 970 < 2 ^ 1024) \<and>
    (\<not> isfinite (ToDouble x) \<longrightarrow> ToDouble x = (if bigint_value x < 0 then minus_V8_INFINITY else V8_INFINITY))"
  proof (cases "is_zero x")
    case True
    then have "ToDouble x = 0" "bigint_value x = 0" by (simp_all add: ToDouble_def bigint_value_def signed_value_if)
    moreover have "(2 :: int) ^ 970 < 2 ^ 1024" by (intro power_strict_increasing) simp_all
    ultimately show ?thesis using ToDouble_zero by simp
  next
    case False
    have N: "IsDigitNormalized ?X" "?X \<noteq> []" using assms False by (auto simp: bigint_wf_def)
    have "rounded (digits_value ?X) (Digits_BitLength ?X) < 2 ^ 1024 \<longleftrightarrow> digits_value ?X + 2 ^ 970 < 2 ^ 1024"
      by (rule rounded_finite [OF bit_length_lower [OF N] bit_length_bound [OF N]])
    moreover have "\<bar>bigint_value x\<bar> = int (digits_value ?X)" by (simp add: bigint_value_def signed_value_if)
    then have "\<bar>bigint_value x\<bar> + 2 ^ 970 < 2 ^ 1024 \<longleftrightarrow> digits_value ?X + 2 ^ 970 < 2 ^ 1024"
      by (simp only: of_nat_less_iff [where 'a = int, symmetric] of_nat_add of_nat_power of_nat_numeral)
    ultimately show ?thesis using rounds_to_finite(1,2) [OF ToDouble_rounds [OF assms False]] unfolding value_negative [OF assms] by blast
  qed
  then show "isfinite (ToDouble x) \<longleftrightarrow> \<bar>bigint_value x\<bar> + 2 ^ 970 < 2 ^ 1024"
    and "\<not> isfinite (ToDouble x) \<Longrightarrow> ToDouble x = (if bigint_value x < 0 then minus_V8_INFINITY else V8_INFINITY)" by blast+
qed

lemma ToDouble_closest:
  assumes "bigint_wf x" and "isfinite (ToDouble x)"
  defines "d \<equiv> ToDouble x" and "v \<equiv> bigint_value x * 2 ^ 1074"
  shows "\<bar>double_units d - v\<bar> \<le> \<bar>double_units e - v\<bar>"
    and "\<bar>double_units d - v\<bar> = \<bar>double_units e - v\<bar> \<Longrightarrow> double_units d \<noteq> double_units e \<Longrightarrow> even (significand d)"
proof -
  let ?X = "bigint_digits x"
  have "\<bar>double_units d - v\<bar> \<le> \<bar>double_units e - v\<bar> \<and>
    (\<bar>double_units d - v\<bar> = \<bar>double_units e - v\<bar> \<longrightarrow> double_units d \<noteq> double_units e \<longrightarrow> even (significand d))"
  proof (cases "is_zero x")
    case True
    then have "d = 0" "v = 0" by (simp_all add: d_def v_def ToDouble_def bigint_value_def signed_value_if)
    then show ?thesis using ToDouble_zero by simp
  next
    case False
    have N: "IsDigitNormalized ?X" "?X \<noteq> []" using assms(1) False by (auto simp: bigint_wf_def)
    define V l s where "V = digits_value ?X" and "l = Digits_BitLength ?X" and "s = (if bigint_sign x then - 1 else 1 :: int)"
    define K :: int where "K = 2 ^ 1074"
    have K: "0 < K" "int (2 ^ 1074) = K" by (simp_all only: K_def zero_less_power zero_less_numeral of_nat_power of_nat_numeral)
    have d: "bit d 63 = bigint_sign x" "magnitude d = rounded V l * 2 ^ 1074"
      "53 \<le> l \<and> 2 * (V mod 2 ^ (l - 53)) = 2 ^ (l - 53) \<longrightarrow> even (significand d)"
      using rounds_to_finite [OF ToDouble_rounds [OF assms(1) False]] assms(2)
      unfolding V_def [symmetric] l_def [symmetric] d_def by blast+
    have s: "s * s = 1" "\<bar>s * a\<bar> = \<bar>a\<bar>" "s * a = s * b \<longleftrightarrow> a = b" for a b by (auto simp: s_def)
    have ud: "double_units d = s * (int (rounded V l) * K)"
      unfolding double_units_magnitude d(1,2) s_def of_nat_mult K(2) by (simp only:)
    have uv: "v = s * (int V * K)" unfolding v_def K_def bigint_value_def s_def V_def by (simp add: signed_value_if)
    define E where "E = s * double_units e"
    have ue: "double_units e = s * E" using s(1) unfolding E_def mult.assoc [symmetric] by simp
    have V: "2 ^ (l - 1) \<le> V" unfolding V_def l_def by (rule bit_length_lower [OF N])
    have grid: "\<exists>k. E = k * 2 ^ (l - 53) * K" if l: "53 \<le> l" and E: "2 ^ (l - 1) * K \<le> E"
    proof -
      have "0 < 2 ^ (l - 1) * K" using K(1) by simp
      then have "E = int (magnitude e)" using E unfolding E_def double_units_magnitude s_def by (auto split: if_splits)
      moreover from this have "2 ^ (l - 1) * 2 ^ 1074 \<le> magnitude e" using E unfolding K(2) [symmetric]
        by (simp only: of_nat_le_iff [where 'a = int, symmetric] of_nat_mult of_nat_power of_nat_numeral)
      then obtain k where "magnitude e = k * 2 ^ (l - 53) * 2 ^ 1074" using doubles_on_grid [OF l] by blast
      ultimately have "E = int k * 2 ^ (l - 53) * K" unfolding K(2) [symmetric] by (simp only: of_nat_mult of_nat_power of_nat_numeral)
      then show ?thesis by blast
    qed
    show ?thesis unfolding ud uv ue right_diff_distrib [symmetric] s(2,3)
      using rounded_nearest [OF K(1) V grid] d(3) by blast
  qed
  then show "\<bar>double_units d - v\<bar> \<le> \<bar>double_units e - v\<bar>"
    and "\<bar>double_units d - v\<bar> = \<bar>double_units e - v\<bar> \<Longrightarrow> double_units d \<noteq> double_units e \<Longrightarrow> even (significand d)" by blast+
qed

section \<open>Small integers\<close>

lemma smi_range: "- (2 ^ 31) \<le> sint v" "sint v < 2 ^ 31" for v :: "32 word"
  using sint_range_size [of v] by (simp_all add: word_size)

lemma smi_abs_value: "unat (smi_abs v) = nat \<bar>sint v\<bar>"
proof -
  have "\<bar>sint v\<bar> < 2 ^ 64" using smi_range [of v] by (simp add: abs_if)
  then have "\<bar>sint v\<bar> mod 2 ^ 64 = \<bar>sint v\<bar>" by simp
  then show ?thesis unfolding smi_abs_def unat_eq_nat_uint by (simp add: uint_word_of_int)
qed

lemma smi_zero: "sint v = 0 \<longleftrightarrow> v = 0" for v :: "32 word"
  by (metis sint_0 signed_eq_0_iff)

lemma single_digit_value:
  "bigint_digits x = [d] \<Longrightarrow> bigint_value x = (if bigint_sign x then - 1 else 1) * int (unat d)"
  by (simp add: bigint_value_def signed_value_if)

lemma NewFromInt_digit:
  assumes "v \<noteq> 0"
  shows "NewFromInt v = Canonicalize \<lparr> bigint_sign = sint v < 0, bigint_digits = [smi_abs v] \<rparr>"
proof -
  have r: "- (2 ^ 31) \<le> sint v" "sint v < 2 ^ 31" by (rule smi_range)+
  have minus: "sint (- v) = - sint v" if "v \<noteq> 0x80000000"
  proof -
    have "sint v \<noteq> - (2 ^ 31)"
    proof
      assume "sint v = - (2 ^ 31)"
      then have "(word_of_int (sint v) :: 32 word) = word_of_int (- (2 ^ 31))" by (simp only:)
      then show False using that by simp
    qed
    then show ?thesis using r by (simp add: sint_word_ariths signed_take_bit_int_eq_self)
  qed
  have neg: "scast (- v) = smi_abs v" if "v \<noteq> 0x80000000" "sint v < 0"
    unfolding smi_abs_def scast_eq minus [OF that(1)] using that(2) by simp
  have pos: "scast v = smi_abs v" if "\<not> sint v < 0" unfolding smi_abs_def scast_eq using that by simp
  have "sint (word_of_int (- (2 ^ 31)) :: 32 word) = - (2 ^ 31)" unfolding sint_sbintrunc' by (subst signed_take_bit_int_eq_self) simp_all
  then have "sint (0x80000000 :: 32 word) = - (2 ^ 31)" by simp
  then have min: "(0x7FFFFFFF + 1 :: digit) = smi_abs 0x80000000" unfolding smi_abs_def by simp
  show ?thesis unfolding NewFromInt_def Let_def if_not_P [OF assms] using neg pos min by (cases "sint v < 0"; cases "v = 0x80000000") simp_all
qed

lemma NewFromInt_spec: "bigint_wf (NewFromInt v)" "bigint_value (NewFromInt v) = sint v"
proof -
  have "bigint_wf (NewFromInt v) \<and> bigint_value (NewFromInt v) = sint v"
  proof (cases "v = 0")
    case True
    then show ?thesis by (simp add: NewFromInt_def)
  next
    case False
    let ?r = "\<lparr> bigint_sign = sint v < 0, bigint_digits = [smi_abs v] \<rparr>"
    have "bigint_value ?r = sint v" by (simp add: single_digit_value smi_abs_value)
    then show ?thesis using Canonicalize_spec [of ?r] unfolding NewFromInt_digit [OF False] by simp
  qed
  then show "bigint_wf (NewFromInt v)" "bigint_value (NewFromInt v) = sint v" by auto
qed

text \<open>A BigInt of two digits or more is beyond every small integer.\<close>

lemma many_digits:
  fixes v :: "32 word"
  assumes "bigint_wf x" and "1 < length (bigint_digits x)"
  shows "\<bar>sint v\<bar> < \<bar>bigint_value x\<bar>"
proof -
  let ?X = "bigint_digits x"
  have N: "IsDigitNormalized ?X" "?X \<noteq> []" using assms by (auto simp: bigint_wf_def)
  obtain t where "Digits_BitLength ?X = 64 * (length ?X - 1) + t + 1" using top_bit [OF N] by blast
  then have "(2 :: nat) ^ 64 \<le> 2 ^ (Digits_BitLength ?X - 1)" using assms(2) by (intro power_increasing) auto
  then have "2 ^ 64 \<le> digits_value ?X" using bit_length_lower [OF N] by linarith
  then have "2 ^ 64 \<le> \<bar>bigint_value x\<bar>" by (simp add: bigint_value_def signed_value_if)
  moreover have "\<bar>sint v\<bar> \<le> 2 ^ 31" using smi_range [of v] by (simp add: abs_if)
  moreover have "(2 :: int) ^ 31 < 2 ^ 64" by simp
  ultimately show ?thesis by linarith
qed

text \<open>The order of an integer and a number.\<close>

definition number_order :: "int \<Rightarrow> number \<Rightarrow> ComparisonResult" where
  "number_order v y =
     (case y of
        Smi w \<Rightarrow> int_order v (sint w)
      | HeapNumber d \<Rightarrow>
          if isnan d then kUndefined else if d = V8_INFINITY then kLessThan else if d = minus_V8_INFINITY then kGreaterThan
          else int_order (v * 2 ^ 1074) (double_units d))"

lemma CompareToDouble_order: "bigint_wf x \<Longrightarrow> CompareToDouble x d = number_order (bigint_value x) (HeapNumber d)"
  using CompareToDouble_spec [of x d] finite_cases [of d] by (auto simp: number_order_def CompareToDouble_def)


lemma CompareToSmi_order:
  assumes "bigint_wf x"
  shows "CompareToNumber x (Smi v) = int_order (bigint_value x) (sint v)"
proof -
  have sign: "bigint_value x < 0 \<longleftrightarrow> bigint_sign x" by (rule value_negative [OF assms])
  consider "bigint_sign x \<noteq> (sint v < 0)" | "bigint_sign x = (sint v < 0)" "is_zero x"
    | d where "bigint_sign x = (sint v < 0)" "bigint_digits x = [d]" | "bigint_sign x = (sint v < 0)" "1 < length (bigint_digits x)"
    by (cases "bigint_digits x"; cases "tl (bigint_digits x)") auto
  then show ?thesis
  proof cases
    case 1
    then show ?thesis using sign by (auto simp: CompareToNumber_def UnequalSign_def int_order_def Let_def)
  next
    case 2
    then show ?thesis using sign value_zero [OF assms] smi_zero [of v]
      by (auto simp: CompareToNumber_def int_order_def Let_def)
  next
    case 3
    then have "CompareToNumber x (Smi v) = abs_order (bigint_sign x) (unat d) (nat \<bar>sint v\<bar>)"
      by (auto simp: CompareToNumber_def abs_order_def Let_def word_less_nat_alt smi_abs_value)
    moreover have "sint v = (if bigint_sign x then - 1 else 1) * int (nat \<bar>sint v\<bar>)" using 3(1) by simp
    ultimately show ?thesis unfolding abs_order_int single_digit_value [OF 3(2)] by (simp only:)
  next
    case 4
    then show ?thesis using sign many_digits [OF assms, of v]
      by (auto simp: CompareToNumber_def int_order_def AbsoluteGreater_def Let_def)
  qed
qed

lemma EqualToSmi:
  assumes "bigint_wf x"
  shows "EqualToNumber x (Smi v) \<longleftrightarrow> bigint_value x = sint v"
proof -
  have sign: "bigint_value x < 0 \<longleftrightarrow> bigint_sign x" by (rule value_negative [OF assms])
  consider "v = 0" | d where "v \<noteq> 0" "bigint_digits x = [d]" | "v \<noteq> 0" "is_zero x" | "v \<noteq> 0" "1 < length (bigint_digits x)"
    by (cases "bigint_digits x"; cases "tl (bigint_digits x)") auto
  then show ?thesis
  proof cases
    case 1
    then show ?thesis using value_zero [OF assms] by (simp add: EqualToNumber_def)
  next
    case 2
    obtain n where n: "n = unat d" by blast
    have "EqualToNumber x (Smi v) \<longleftrightarrow> bigint_sign x = (sint v < 0) \<and> n = nat \<bar>sint v\<bar>"
      using 2 unfolding n by (simp add: EqualToNumber_def word_unat_eq_iff smi_abs_value)
    moreover have "bigint_value x = (if bigint_sign x then - 1 else 1) * int n" unfolding n by (rule single_digit_value [OF 2(2)])
    ultimately show ?thesis using sign by (cases "bigint_sign x") auto
  next
    case 3
    then show ?thesis using value_zero [OF assms] smi_zero [of v] by (simp add: EqualToNumber_def)
  next
    case 4
    then show ?thesis using many_digits [OF assms, of v] by (auto simp: EqualToNumber_def)
  qed
qed

section \<open>To numbers\<close>

text \<open>The double of an integer as the language asks for it: the nearest one, the even one of two that are equally
  near, and an infinity from halfway between the greatest double and \<open>2 ^ 1024\<close> on.\<close>

definition nearest_double :: "int \<Rightarrow> double \<Rightarrow> bool" where
  "nearest_double v d \<longleftrightarrow>
     (if \<bar>v\<bar> + 2 ^ 970 < 2 ^ 1024
      then isfinite d \<and>
        (\<forall>e. isfinite e \<longrightarrow>
          \<bar>double_units d - v * 2 ^ 1074\<bar> \<le> \<bar>double_units e - v * 2 ^ 1074\<bar> \<and>
          (\<bar>double_units d - v * 2 ^ 1074\<bar> = \<bar>double_units e - v * 2 ^ 1074\<bar> \<and> double_units d \<noteq> double_units e \<longrightarrow>
            even (significand d)))
      else d = (if v < 0 then minus_V8_INFINITY else V8_INFINITY))"

lemma ToDouble_nearest:
  assumes "bigint_wf x"
  shows "nearest_double (bigint_value x) (ToDouble x)"
proof (cases "isfinite (ToDouble x)")
  case True
  then have "\<bar>bigint_value x\<bar> + 2 ^ 970 < 2 ^ 1024" using ToDouble_finite(1) [OF assms] by blast
  then show ?thesis using ToDouble_closest [OF assms True] True unfolding nearest_double_def by (simp only: if_True) blast
next
  case False
  then have "\<not> \<bar>bigint_value x\<bar> + 2 ^ 970 < 2 ^ 1024" using ToDouble_finite(1) [OF assms] by blast
  then show ?thesis using ToDouble_finite(2) [OF assms False] unfolding nearest_double_def by (simp only: if_False)
qed

lemma small_ints:
  assumes "n < 2 ^ 31"
  shows "sint (of_nat n :: 32 word) = int n" and "sint (- of_nat n :: 32 word) = - int n"
proof -
  have w: "sint (word_of_int k :: 32 word) = k" if "- (2 ^ 31) \<le> k" "k < 2 ^ 31" for k
    unfolding sint_sbintrunc' using that by (subst signed_take_bit_int_eq_self) simp_all
  show "sint (of_nat n :: 32 word) = int n" using w [of "int n"] assms by simp
  show "sint (- of_nat n :: 32 word) = - int n" using w [of "- int n"] assms by simp
qed

lemma ToNumber_smi:
  assumes "bigint_wf x" and "ToNumber x = Smi w"
  shows "sint w = bigint_value x"
proof (cases "is_zero x")
  case True
  then show ?thesis using assms by (simp add: ToNumber_def bigint_value_def signed_value_if)
next
  case False
  then have L: "length (bigint_digits x) = 1" "bigint_digits x ! 0 < kSmiMax" using assms(2) by (auto simp: ToNumber_def split: if_splits)
  obtain d where d: "bigint_digits x = [d]" using L(1) by (cases "bigint_digits x") auto
  have "unat d < 2 ^ 31" using L(2) unfolding d word_less_nat_alt by simp
  moreover have "w = (if bigint_sign x then - of_nat (unat d) else of_nat (unat d))" using assms(2) False L(2) d
    by (auto simp: ToNumber_def Let_def)
  ultimately show ?thesis unfolding single_digit_value [OF d] by (simp add: small_ints del: of_nat_unat)
qed

lemma ToNumber_heap: "ToNumber x = HeapNumber d \<Longrightarrow> d = ToDouble x"
  by (auto simp: ToNumber_def Let_def split: if_splits)

section \<open>From numbers\<close>

lemma FromNumber_heap:
  assumes "FromNumber (HeapNumber d) = Inr x"
  shows "isfinite d" and "bigint_wf x" and "double_units d = bigint_value x * 2 ^ 1074"
proof -
  have c: "isfinite d" "is_whole d" "x = NewFromDouble d" using assms DoubleToInteger_whole [of d] by (auto simp: FromNumber_def split: if_splits)
  show "isfinite d" by (rule c(1))
  obtain v where v: "double_units d = v * 2 ^ 1074" using c(2) unfolding is_whole_def dvd_def by (metis mult.commute)
  note n = NewFromDouble_spec [OF c(1) v]
  show "bigint_wf x" unfolding c(3) by (rule n(1))
  show "double_units d = bigint_value x * 2 ^ 1074" unfolding c(3) n(2) by (rule v)
qed

text \<open>The greatest double is below the limit.\<close>

lemma finite_limit:
  assumes "isfinite d" and "double_units d = v * 2 ^ 1074"
  shows "\<bar>v\<bar> + 2 ^ 970 < 2 ^ 1024"
proof -
  have r: "raw_exponent d \<le> 2046" using field_bounds(3) [of d] assms(1) by (simp add: isfinite_def)
  have "magnitude d \<le> (2 ^ 53 - 1) * 2 ^ 2045"
  proof (cases "raw_exponent d = 0")
    case True
    have "significand d \<le> (2 ^ 53 - 1) * 1" using field_bounds(1) [of d] by simp
    also have "\<dots> \<le> (2 ^ 53 - 1) * 2 ^ 2045" by (intro mult_left_mono one_le_power) simp_all
    finally show ?thesis unfolding magnitude_def if_P [OF True] .
  next
    case False
    have "significand d + 2 ^ 52 \<le> 2 ^ 53 - 1" using field_bounds(1) [of d] by simp
    moreover have "(2 :: nat) ^ (raw_exponent d - 1) \<le> 2 ^ 2045" using r by (intro power_increasing) auto
    ultimately show ?thesis unfolding magnitude_def if_not_P [OF False] by (rule mult_le_mono)
  qed
  moreover have "(2 :: nat) ^ 2045 = 2 ^ 971 * 2 ^ 1074" unfolding power_add [symmetric] by simp
  moreover have m: "magnitude d = nat \<bar>v\<bar> * 2 ^ 1074" by (rule whole_magnitude [OF assms(2)])
  ultimately have "nat \<bar>v\<bar> * 2 ^ 1074 \<le> (2 ^ 53 - 1) * 2 ^ 971 * 2 ^ 1074" by (simp only: mult.assoc)
  then have "nat \<bar>v\<bar> \<le> (2 ^ 53 - 1) * 2 ^ 971" by (rule mult_right_le_imp_le) (rule zero_less_power, simp)
  moreover define h :: nat where "h = 2 ^ 970"
  moreover have "0 < h" "(2 :: nat) ^ 971 = 2 * h" "(2 :: nat) ^ 1024 = 2 ^ 53 * (2 * h)"
    using power_Suc [of "2 :: nat" 970] power_add [of "2 :: nat" 54 970] unfolding h_def by simp_all
  ultimately have "nat \<bar>v\<bar> + 2 ^ 970 < 2 ^ 1024" unfolding h_def [symmetric] by simp
  then show ?thesis by (simp only: of_nat_less_iff [where 'a = int, symmetric] of_nat_add of_nat_power of_nat_numeral int_nat_eq abs_ge_zero if_True)
qed

section \<open>What the conversions and comparisons promise\<close>

lemma int_order_equal: "int_order a b = kEqual \<longleftrightarrow> a = b"
  by (simp add: int_order_def)

text \<open>C16. Comparing a BigInt with a number (\<open>CompareToNumber\<close>, \<open>EqualToNumber\<close>) compares the two values exactly, with no
  rounding: whatever the digits and the double, a small integer, a fraction, a subnormal or a number of a thousand bits, the
  result is the order of the mathematical values; NaN is unordered and the infinities are beyond every BigInt.\<close>

theorem number_comparison_exact:
  assumes "bigint_wf x"
  shows "CompareToNumber x y = number_order (bigint_value x) y \<and>
    (EqualToNumber x y \<longleftrightarrow> number_order (bigint_value x) y = kEqual)"
proof (cases y)
  case (Smi v)
  then show ?thesis using CompareToSmi_order [OF assms, of v] EqualToSmi [OF assms, of v]
    by (simp add: number_order_def int_order_equal)
next
  case (HeapNumber d)
  then show ?thesis using CompareToDouble_order [OF assms, of d] by (simp add: CompareToNumber_def EqualToNumber_def)
qed

text \<open>Twice \<open>2 ^ 63\<close>, the double of as much, and the next one below it.\<close>

theorem number_comparison_exact_witness:
  "let x = \<lparr> bigint_sign = False, bigint_digits = [0, 1] \<rparr> in bigint_wf x \<and>
     CompareToNumber x (HeapNumber 0x43F0000000000000) = kEqual \<and> number_order (bigint_value x) (HeapNumber 0x43EFFFFFFFFFFFFF) = kGreaterThan"
proof -
  let ?x = "\<lparr> bigint_sign = False, bigint_digits = [0, 1] \<rparr> :: bigint"
  have w: "bigint_wf ?x" by (simp add: bigint_wf_def IsDigitNormalized_def msd_def)
  have "CompareToNumber ?x (HeapNumber 0x43F0000000000000) = kEqual" "CompareToNumber ?x (HeapNumber 0x43EFFFFFFFFFFFFF) = kGreaterThan" by code_simp+
  then show ?thesis using w number_comparison_exact [OF w, of "HeapNumber 0x43EFFFFFFFFFFFFF"] unfolding Let_def by simp
qed

text \<open>C17. \<open>BigInt::FromNumber\<close> accepts a number exactly if it is an integer and gives the BigInt of that value, in canonical form;
  for every other number, a fraction, NaN or an infinity, it throws the RangeError \<open>kBigIntFromNumber\<close>.\<close>

theorem FromNumber_exact:
  "case FromNumber n of
     Inr x \<Rightarrow> bigint_wf x \<and> number_order (bigint_value x) n = kEqual
   | Inl e \<Rightarrow> e = kBigIntFromNumber \<and> (\<forall>v. number_order v n \<noteq> kEqual)"
proof (cases n)
  case (Smi w)
  then show ?thesis using NewFromInt_spec [of w] by (simp add: FromNumber_def number_order_def int_order_equal)
next
  case (HeapNumber d)
  show ?thesis
  proof (cases "FromNumber n")
    case (Inr x)
    note f = FromNumber_heap [of d x, folded HeapNumber, OF Inr]
    then show ?thesis using Inr HeapNumber finite_cases [of d] by (simp add: number_order_def int_order_equal)
  next
    case (Inl e)
    then have "e = kBigIntFromNumber" "\<not> isfinite d \<or> \<not> is_whole d"
      using HeapNumber DoubleToInteger_whole [of d] by (auto simp: FromNumber_def split: if_splits)
    moreover have "number_order v n \<noteq> kEqual" for v
    proof
      assume "number_order v n = kEqual"
      then have "isfinite d" "v * 2 ^ 1074 = double_units d"
        using HeapNumber finite_cases [of d] by (auto simp: number_order_def int_order_equal split: if_splits)
      moreover from this(2) have "is_whole d" unfolding is_whole_def by (metis dvd_triv_right)
      ultimately show False using \<open>\<not> isfinite d \<or> \<not> is_whole d\<close> by blast
    qed
    ultimately show ?thesis using Inl by simp
  qed
qed

text \<open>C15. \<open>BigInt::ToNumber\<close> is correctly rounded: a small BigInt becomes the small integer of its value, every other one the
  nearest double (\<open>MutableBigInt::ToDouble\<close>), the even one of two equally near, and an infinity of its sign exactly from
  \<open>2 ^ 1024 - 2 ^ 970\<close> on. The bits of all the digits count, however far below the mantissa they are.\<close>

theorem ToNumber_nearest:
  assumes "bigint_wf x"
  shows "case ToNumber x of Smi w \<Rightarrow> sint w = bigint_value x | HeapNumber d \<Rightarrow> nearest_double (bigint_value x) d"
proof (cases "ToNumber x")
  case (Smi w)
  then show ?thesis using ToNumber_smi [OF assms Smi] by simp
next
  case (HeapNumber d)
  then show ?thesis using ToNumber_heap [OF HeapNumber] ToDouble_nearest [OF assms] by simp
qed

text \<open>\<open>2 ^ 53 + 1\<close> is halfway between two doubles: the even one is \<open>2 ^ 53\<close>.\<close>

theorem ToNumber_nearest_witness:
  "let x = \<lparr> bigint_sign = False, bigint_digits = [9007199254740993] \<rparr>
   in bigint_wf x \<and> ToNumber x = HeapNumber 0x4340000000000000 \<and> nearest_double (bigint_value x) 0x4340000000000000"
proof -
  let ?x = "\<lparr> bigint_sign = False, bigint_digits = [9007199254740993] \<rparr> :: bigint"
  have w: "bigint_wf ?x" by (simp add: bigint_wf_def IsDigitNormalized_def msd_def)
  have "ToNumber ?x = HeapNumber 0x4340000000000000" by code_simp
  then show ?thesis using w ToNumber_nearest [OF w] unfolding Let_def by simp
qed

text \<open>C18. A double that becomes a BigInt comes back unchanged: if \<open>FromNumber\<close> accepts a number other than zero on the heap,
  \<open>ToDouble\<close> of the BigInt is the same double, bit for bit.\<close>

theorem double_bigint_roundtrip:
  assumes "FromNumber (HeapNumber d) = Inr x" and "\<not> double_zero d"
  shows "ToDouble x = d"
proof -
  note f = FromNumber_heap [OF assms(1)]
  have "isfinite (ToDouble x)" using ToDouble_finite(1) [OF f(2)] finite_limit [OF f(1,3)] by blast
  then have "double_units d = double_units (ToDouble x)" using ToDouble_closest(1) [OF f(2), of d] unfolding f(3) by simp
  then show ?thesis using units_inject [of d "ToDouble x"] assms(2) by simp
qed

text \<open>Minus \<open>2 ^ 100\<close>.\<close>

theorem double_bigint_roundtrip_witness:
  "\<exists>x. FromNumber (HeapNumber 0xC630000000000000) = Inr x \<and> ToDouble x = 0xC630000000000000"
proof -
  have r: "raw_exponent 0xC630000000000000 = 1123" "significand 0xC630000000000000 = 0" "bit (0xC630000000000000 :: 64 word) 63" by code_simp+
  have "magnitude 0xC630000000000000 = 2 ^ (52 + 1122)" unfolding magnitude_def r power_add by simp
  also have "\<dots> = 2 ^ 100 * 2 ^ 1074" unfolding power_add [symmetric] by simp
  finally have "double_units 0xC630000000000000 = - (2 ^ 100) * 2 ^ 1074" unfolding double_units_magnitude using r(3) by simp
  then have "is_whole 0xC630000000000000" unfolding is_whole_def by simp
  moreover have "isfinite 0xC630000000000000" "\<not> double_zero 0xC630000000000000" by code_simp+
  ultimately have "FromNumber (HeapNumber 0xC630000000000000) = Inr (NewFromDouble 0xC630000000000000)" 
    using DoubleToInteger_whole by (simp add: FromNumber_def)
  then show ?thesis using double_bigint_roundtrip \<open>\<not> double_zero _\<close> by blast
qed

end
