(* ===== verification/Spec2Isabelle.thy ===== *)
theory Spec2Isabelle
  imports Scanner_Numbers Scanner_Strings Scanner_Operators Scanner_Dialect Utf8_Seeking
    BigInt_Double
begin

text \<open>
  \<^bold>\<open>The lexical front end and the big integer library of V8-Speak.\<close>

  V8-Speak is the V8 JavaScript engine extended by \<^emph>\<open>source dialects\<close>: the reserved
  words of a script may be English (\<^verbatim>\<open>js-eng\<close>) or Spanish (\<^verbatim>\<open>js-spa\<close>), selected by a
  compile flag or by a comment \<^verbatim>\<open>//# sourceDialect=...\<close> before the first token. This
  development models the part of the engine that turns source characters into tokens,
  from the bytes and strings of the embedder to the token window the parser reads, and its
  big integers: the library of digit vectors and the operators of BigInt values on top of it.

  \<^bold>\<open>Parts and theories.\<close> Paths are relative to the repository.
  \<^item> \<open>V8_Prelude\<close>: word types, \<^verbatim>\<open>src/base/bounds.h\<close>, shared lemmas.
  \<^item> \<open>Token\<close>: \<^verbatim>\<open>src/parsing/token.h\<close>, \<^verbatim>\<open>token.cc\<close>. The token list is a datatype with one
    constructor per entry and the enumeration values of the C++ enumeration; the tables
    of names, spellings, precedences and flags are functions of the token.
  \<^item> \<open>Unicode\<close>: \<^verbatim>\<open>src/strings/unicode.h\<close>, \<^verbatim>\<open>unicode-inl.h\<close>, \<^verbatim>\<open>unicode.cc\<close> and
    \<^verbatim>\<open>src/third_party/utf8-decoder\<close>: surrogates, UTF-8 encoding and both decoders.
  \<^item> \<open>Char_Predicates\<close>: \<^verbatim>\<open>src/strings/char-predicates*\<close>. ICU is not part of the
    repository: it is the record \<open>icu\<close>, a parameter of every definition that asks it.
  \<^item> \<open>Source_Dialect\<close>: \<^verbatim>\<open>src/parsing/source-dialect.h\<close>, the generated keyword tables
    \<^verbatim>\<open>keywords-eng-gen.h\<close>, \<^verbatim>\<open>keywords-spa-gen.h\<close>, \<^verbatim>\<open>pseudokeywords-gen.h\<close> and the
    contextual keyword test of \<^verbatim>\<open>preparser.cc\<close>.
  \<^item> \<open>Literal_Buffer\<close>: \<^verbatim>\<open>src/parsing/literal-buffer.h\<close> and \<^verbatim>\<open>.cc\<close>, with the byte store,
    its growth and the in-place widening from one to two bytes per unit.
  \<^item> \<open>Character_Stream\<close>: \<^verbatim>\<open>Utf16CharacterStream\<close> of \<^verbatim>\<open>src/parsing/scanner.h\<close> and the
    stream classes of \<^verbatim>\<open>scanner-character-streams.cc\<close> over strings and over one-byte, two-byte and
    Windows-1252 chunks. These are the streams a scanner of the model can have; the UTF-8 class is
    modelled beside them, and the choice among all of them is \<open>ScannerStream_ForStreaming\<close> below.
  \<^item> \<open>Utf8_Stream\<close>: \<^verbatim>\<open>Utf8ExternalStreamingStream\<close> of the same file, with \<^verbatim>\<open>NonAsciiStart\<close> of
    \<^verbatim>\<open>src/strings/unicode-decoder.h\<close>; \<open>Utf8_Text\<close>, \<open>Utf8_Reading\<close>, \<open>Utf8_Seeking\<close>: the text of
    a byte sequence, reading it forwards, seeking in it and clones.
  \<^item> \<open>Scanner_State\<close>, \<open>Scanner_Literals\<close>, \<open>Scanner_Comments\<close>, \<open>Scanner_Tokens\<close>:
    \<^verbatim>\<open>Scanner\<close> of \<^verbatim>\<open>src/parsing/scanner.h\<close>, \<^verbatim>\<open>scanner-inl.h\<close> and \<^verbatim>\<open>scanner.cc\<close>: its state
    and primitives; escapes, strings, templates, numbers, identifiers, private names
    and regular expressions; white space, comments and the magic comments; the token
    loop, the three-token window, seeking and bookmarks.
  \<^item> \<open>Scanner_Runs\<close>, \<open>Scanner_Window\<close>: what a scan and every sequence of parser calls
    keep; the step relation \<open>parser_step\<close> has one rule per call of the parser.
  \<^item> \<open>Scanner_Text\<close>, \<open>Scanner_Numbers\<close>, \<open>Scanner_Strings\<close>, \<open>Scanner_Operators\<close>,
    \<open>Scanner_Dialect\<close>: what the scanner makes of given source text.
  \<^item> \<open>Bigint_Digits\<close>: \<^verbatim>\<open>src/bigint/digit-arithmetic.h\<close>, the operations on single digits in both
    their versions, with and without a double-width integer type.
  \<^item> \<open>Bigint_Vectors\<close>: \<^verbatim>\<open>Digits\<close> of \<^verbatim>\<open>src/bigint/bigint.h\<close>, \<^verbatim>\<open>vector-arithmetic.h\<close> and \<^verbatim>\<open>.cc\<close>:
    normalization, comparison, sums and differences of digit vectors and of signed numbers.
  \<^item> \<open>Bigint_Multiply\<close>, \<open>Bigint_Karatsuba\<close>: \<^verbatim>\<open>mul-schoolbook.cc\<close>, \<^verbatim>\<open>mul-karatsuba.cc\<close> and
    \<^verbatim>\<open>ProcessorImpl::Multiply\<close> of \<^verbatim>\<open>bigint-internal.cc\<close>.
  \<^item> \<open>Bigint_Shift\<close>, \<open>Bigint_Divide\<close>, \<open>Bigint_Burnikel\<close>: \<^verbatim>\<open>div-helpers.cc\<close>, \<^verbatim>\<open>div-schoolbook.cc\<close>,
    \<^verbatim>\<open>div-burnikel.cc\<close> and \<^verbatim>\<open>ProcessorImpl::Divide\<close> and \<^verbatim>\<open>Modulo\<close>.
  \<^item> \<open>Bigint_Bitwise\<close>: \<^verbatim>\<open>bitwise.cc\<close> and the result lengths of \<^verbatim>\<open>bigint.h\<close>: bitwise operations of
    two's complement numbers given by sign and magnitude, shifts and truncation.
  \<^item> \<open>BigInt_Object\<close>, \<open>BigInt_Convert\<close>: \<^verbatim>\<open>src/objects/bigint.cc\<close> and \<^verbatim>\<open>bigint.h\<close>, the operators of
    BigInt values over the library: allocation of the result, the call, the canonical form, and
    the exceptions; truncation, comparison, 64-bit integers, word arrays and serialization.
  \<^item> \<open>Bigint_FromString\<close>, \<open>Bigint_Combine\<close>: \<^verbatim>\<open>FromStringAccumulator\<close> of \<^verbatim>\<open>bigint.h\<close> and \<^verbatim>\<open>fromstring.cc\<close>, the
    characters of a number collected in parts of a digit each, and the algorithms that combine
    the parts. \<open>Bigint_ToString\<close>: \<^verbatim>\<open>tostring.cc\<close>.
  \<^item> \<open>BigInt_Strings\<close>: \<^verbatim>\<open>BigInt::Allocate\<close>, \<^verbatim>\<open>ToString\<close> and comparison with strings of
    \<^verbatim>\<open>src/objects/bigint.cc\<close>; \<^verbatim>\<open>StringToIntHelper\<close> and \<^verbatim>\<open>StringToBigIntHelper\<close> of
    \<^verbatim>\<open>src/numbers/conversions.cc\<close>, which read strings and the literals of the scanner.
  \<^item> \<open>BigInt_Double\<close>: the conversions from and to numbers of \<^verbatim>\<open>src/objects/bigint.cc\<close> (\<^verbatim>\<open>FromNumber\<close>, \<^verbatim>\<open>NewFromDouble\<close>,
    \<^verbatim>\<open>ToNumber\<close>, \<^verbatim>\<open>ToDouble\<close>, \<^verbatim>\<open>DecideRounding\<close>) and the comparisons with them, on the bits of a double.

  \<^bold>\<open>How the code is represented.\<close> A class is a \<open>record\<close> with the fields of the class, a
  method a function from the state to its result and the new state; \<^verbatim>\<open>base::uc32\<close>,
  \<^verbatim>\<open>uint16_t\<close> and \<^verbatim>\<open>byte\<close> are words of that width, so that \<^verbatim>\<open>kEndOfInput\<close> is the word
  \<open>-1\<close> and additions wrap as in the code. A loop is a function with the loop's state as
  its arguments, with a termination proof. The loop of \<^verbatim>\<open>FillBuffer\<close> of the UTF-8 stream may
  run forever and is a partial function into \<open>option\<close>; that it returns is proved. Fuel is
  used in \<open>forward_read\<close> only, the number of buffer fills: one per character and one
  more are enough, since each fill but the last delivers something. The measure of all
  scanning loops is \<open>input_left\<close>, the characters not yet delivered. The descriptors
  \<^verbatim>\<open>current_\<close>, \<^verbatim>\<open>next_\<close>, \<^verbatim>\<open>next_next_\<close> are pointers into \<^verbatim>\<open>token_storage_\<close>; they are kept
  as slots, so that the aliasing of the C++ code is that of the model. Stream positions
  are natural numbers: the length of a string is below \<open>2 ^ 30\<close>, so that the
  \<^verbatim>\<open>size_t\<close> and \<^verbatim>\<open>int\<close> positions of the code do not wrap; a bookmark is a 64-bit word
  because two of its values are reserved.

  A vector \<^verbatim>\<open>Digits\<close> is the list of its 64-bit digits, the least significant first; a vector
  that is written, \<^verbatim>\<open>RWDigits\<close>, is an argument with its old contents where the code reads
  or keeps some of them, and its length where it overwrites all. A sub-vector is \<open>take\<close>
  and \<open>drop\<close> of the list, and what the code writes through it is put back in its place.
  \<open>ScratchDigits\<close> is filled with zeros where the code leaves it uninitialized; the lemmas
  on the operations that get scratch memory hold for any contents. \<open>Multiply\<close>, \<open>Divide\<close> and
  \<open>Modulo\<close> choose among the algorithms of a build without
  \<^verbatim>\<open>V8_ADVANCED_BIGINT_ALGORITHMS\<close>, and so does the conversion to a string. The recursions on
  halves terminate by the length. A string that is written from its end is the list of what has
  been written so far; a write before the start of the buffer, behind the end of an array or a
  read behind the end of the string gives \<open>None\<close> or \<open>Undefined\<close>.
  A BigInt is a record of its sign and digits; an operator returns the new value or the reason why
  there is none, a value of \<open>bigint_failure\<close>: the exception thrown, an empty handle, or the end of
  the process. Digits are those of a 64-bit little-endian machine. Where the code loops until a
  remainder is negative, the model is a function into \<open>option\<close> that gives up when the code would not make progress, and the theorems show that it
  returns. Lengths are bounded by \<open>2 ^ 28\<close> or \<open>2 ^ 30\<close> in the theorems, so that the
  \<^verbatim>\<open>int\<close> arithmetic on lengths does not overflow; a BigInt has at most \<open>2 ^ 24\<close> digits.

  \<^bold>\<open>Interfaces.\<close> A locale states what a client relies on and is interpreted on the
  model: \<open>keyword_table\<close> (a lookup function agrees with a word list; the perfect hash,
  the Spanish switch and the dialect dispatch), \<open>icu_latin1\<close> (the Unicode properties of
  the Latin-1 block, listed by general category), \<open>literal_collector\<close> (a buffer that collects code units),
  \<open>byte_stream\<close> (a source of blocks of one text; five stream classes), \<open>digit_arithmetic\<close>
  (the sums, differences and products of digits; the native and the portable version),
  \<open>bitwise_digits\<close> and the three locales that extend it (an operation on digits that acts bit
  by bit gives that on numbers; conjunction, disjunction, exclusive or and clearing of bits),
  \<open>part_loop\<close> (a loop that cuts the characters of a number into parts; the one by multipliers
  and the one by bits).

  \<^bold>\<open>What is shown.\<close> The tables are right (tokens, keyword hash, flags); UTF-8 and
  surrogates round-trip and decoding is safe on arbitrary bytes; a literal buffer holds
  what was put into it; every stream class but the UTF-8 one refines reading its text at a
  position, whatever its blocks and chunks. The UTF-8 stream delivers the decoded text of its bytes
  when read forwards, and on valid UTF-8 at every position, also through a clone. For the scanner, every literal-level operation is a
  \<open>lex_step\<close> (it reads on in the same text and touches only the next token), every scan
  a \<open>scan_step\<close>, and the loops terminate. On these rest the theorems over \<open>reachable\<close>
  states: the window invariant, the order of the delivered tokens, the fixed dialect,
  illegal tokens after an error, progress to the end of the text and the bounds of token
  locations. The relation \<open>reading T p s\<close> (the scanner looks at position \<open>p\<close> of text \<open>T\<close>)
  abstracts stream, buffer and look-ahead; over it the source-level theorems are stated
  for every text and every stream class the scanner model has: words get the token of the dialect's word list,
  decimal integers their value, strings are read back, punctuators are scanned by
  maximal munch, the flags of regular expressions are the set of their letters, and the dialect comment selects the dialect or makes the script
  illegal. Some results show where the code departs from its intention: a closing HTML
  comment at the start of a script, the truncation of regular expression flags, and in the
  UTF-8 stream reading malformed data again and the clone of a lone byte order mark
  (\<open>utf8_reread_loses_replacement\<close>, \<open>utf8_bom_clone_hangs\<close>).

  Of the big integers, every operation is shown to compute the number it stands for, over
  \<open>digits_value\<close>, the value of a vector: the two versions of the digit operations agree,
  the portable division of two digits by one is the machine's; signed sums and differences
  have the exact value and sign; products and quotients are exact whatever algorithm the
  lengths select, and division returns. The remainder is exact too but for a dividend
  smaller than the divisor, where the code returns the divisor. The operators of BigInt values
  refine the integers: with \<open>bigint_value\<close> as abstraction and \<open>bigint_wf\<close> as invariant (no leading
  zero digit, no negative zero, at most the maximum length), \<open>computes may_fail r v\<close> says that the
  result is the one well-formed BigInt of value \<open>v\<close>, or that it is too big and \<open>may_fail\<close> holds, with
  \<open>near_limit\<close> and \<open>beyond_limit\<close> for how close to the maximum length that can happen.

  Strings are related to numbers by \<open>chars_value\<close>, the number that digit characters stand for, and
  \<open>number_chars\<close>, the digits of a number. The accumulator and each way to combine its parts give
  \<open>chars_value\<close> of the longest prefix of digits, for every radix, but for the overrun of the parts
  on the stack with a radix above 30; the conversion to a string gives \<open>number_chars\<close> and stays in
  its buffer. On top of both, \<open>StringToBigInt\<close> refines \<open>string_integer\<close>, the grammar of the
  language for integers in strings, literals have their value, and a BigInt is read back from
  its string. The excess of the maximum length is only excluded for strings of fewer than
  \<open>15 * 2 ^ 24\<close> characters, because the code counts parts, which a radix may not fill.

  A double is its 64 bits, and \<open>double_units\<close> its value in units of the least positive double, so that
  all is said in integers. \<open>number_order\<close> is the order of an integer and a number; comparison and
  equality with numbers decide it without rounding, conversion from a number succeeds exactly for
  the integers, conversion to a number meets \<open>nearest_double\<close> (the nearest double, ties to even,
  infinity from halfway beyond the greatest one on), and a double comes back from its BigInt. A
  small integer has 32 bits, as on a 64-bit machine without pointer compression.

  \<^bold>\<open>Not modelled.\<close> The parser, the compilers and the run-time system behind the tokens;
  the bulk decoder \<^verbatim>\<open>Utf8DecoderBase\<close>; the conversion of number literals to doubles;
  \<^verbatim>\<open>BigInt::FromObject\<close>; the algorithms of \<^verbatim>\<open>V8_ADVANCED_BIGINT_ALGORITHMS\<close> (Toom-Cook, the Fourier transform, Barrett
  division, divide-and-conquer conversion to strings);
  the interrupt status of \<^verbatim>\<open>Processor\<close>; the case tables of \<^verbatim>\<open>unicode.cc\<close>; handles, locking and debug-only checks.
  Internalized strings are represented by their code units.
\<close>

section \<open>Streamed sources\<close>

text \<open>
  \<^verbatim>\<open>ScannerStream::For\<close> on the source stream of the embedder: the encoding decides the class. UTF-8
  data has a class of its own; the others are those of \<open>Character_Stream\<close>.
\<close>

datatype external_source = UTF8 "(nat \<times> byte list) list" | UNITS streamed_source

datatype external_stream = Utf8_external_stream Utf8Stream | Utf16_external_stream Utf16CharacterStream

fun ScannerStream_ForStreaming :: "external_source \<Rightarrow> external_stream" where
  "ScannerStream_ForStreaming (UNITS src) = Utf16_external_stream (ScannerStream_ForUnits src)"
| "ScannerStream_ForStreaming (UTF8 src) = Utf8_external_stream (new_Utf8Stream src)"

fun external_text :: "external_source \<Rightarrow> uc16 list" where
  "external_text (UNITS src) = streamed_units src"
| "external_text (UTF8 src) = utf8_text (source_bytes src)"

text \<open>Whatever the encoding, the stream stands before the text of its source: the classes over units refine
  that text, the UTF-8 one delivers it when read forwards.\<close>

lemma streaming_delivers_text:
  "case ScannerStream_ForStreaming src of
     Utf16_external_stream st \<Rightarrow> stream_inv st \<and> text_of st = external_text src \<and> pos st = 0
   | Utf8_external_stream st \<Rightarrow>
       map_option fst (forward_read (Suc (length (external_text src))) st []) = Some (external_text src)"
proof (cases src)
  case (UTF8 bs)
  then show ?thesis using forward_read_text [of bs] by (simp del: forward_read.simps)
next
  case (UNITS us)
  then show ?thesis using streamed_text [of us] by simp
qed

end
